(* ===== verification/Azalea_Prelude.thy ===== *)
theory Azalea_Prelude
  imports Main "HOL-Library.Word" "HOL-Library.Monad_Syntax"
begin

text \<open>
  Shared vocabulary of the development: the machine integer types of the kernel, the error codes
  of \<open>kernel/user_interfaces/error_codes.h\<close>, the \<open>ASSERT\<close> macro, and the generic lemmas on
  options, lists and words that the component theories use.

  A kernel panic (a failed \<open>ASSERT\<close> or a call of \<open>panic\<close>) does not return, so every operation
  that can panic has an \<open>option\<close> result in which \<^term>\<open>None\<close> is the panic. Error codes, by
  contrast, are ordinary return values.
\<close>

unbundle bit_operations_syntax

type_synonym u8 = "8 word"
type_synonym u16 = "16 word"
type_synonym u32 = "32 word"
type_synonym u64 = "64 word"

named_theorems assert_simps \<open>rewriting of panicking computations\<close>
named_theorems page_simps \<open>page-size arithmetic\<close>

subsection \<open>Error codes (user_interfaces/error_codes.h)\<close>

datatype ERR_CODE =
    NO_ERROR
  | UNKNOWN
  | SYSCALL_INVALID_IDX
  | NOT_FOUND
  | WRONG_TYPE
  | ALREADY_EXISTS
  | INVALID_NAME
  | INVALID_PARAM
  | INVALID_OP
  | DEVICE_FAILED
  | STORAGE_ERROR
  | SYNC_MSG_INCOMPLETE
  | SYNC_MSG_NOT_ACCEPTED
  | SYNC_MSG_QUEUE_EMPTY
  | SYNC_MSG_MISMATCH
  | OUT_OF_RESOURCE
  | UNRECOGNISED
  | TRANSFER_TOO_LARGE
  | OUT_OF_RANGE
  | TIMED_OUT

subsection \<open>Assertions (klib/misc/assert.h)\<close>

definition ASSERT :: "bool \<Rightarrow> unit option" where
  "ASSERT b = (if b then Some () else None)"

lemma ASSERT_True [simp]: "ASSERT True = Some ()"
  by (simp add: ASSERT_def)

lemma ASSERT_False [simp]: "ASSERT False = None"
  by (simp add: ASSERT_def)

lemma ASSERT_eq_Some [simp]: "ASSERT b = Some u \<longleftrightarrow> b"
  by (simp add: ASSERT_def)

lemma ASSERT_bind_eq_Some [simp]:
  "(ASSERT b \<bind> f = Some r) \<longleftrightarrow> b \<and> f () = Some r"
  by (cases b) simp_all

lemma ASSERT_bind_eq_None [simp]:
  "(ASSERT b \<bind> f = None) \<longleftrightarrow> (b \<longrightarrow> f () = None)"
  by (cases b) simp_all

lemma ASSERT_bind_if [assert_simps]:
  "ASSERT b \<bind> f = (if b then f () else None)"
  by (cases b) simp_all

lemma bind_Some_iff [simp]:
  "(x \<bind> f = Some r) \<longleftrightarrow> (\<exists>y. x = Some y \<and> f y = Some r)"
  by (cases x) simp_all

subsection \<open>Page size (user_interfaces/system_properties.h)\<close>

definition MEM_PAGE_SIZE :: u64 where
  "MEM_PAGE_SIZE = 2097152"

lemma unat_MEM_PAGE_SIZE [simp, page_simps]: "unat MEM_PAGE_SIZE = 2 ^ 21"
  by (simp add: MEM_PAGE_SIZE_def)

subsection \<open>Words\<close>

lemma unat_exp_u64 [simp]:
  assumes "k < 64"
  shows "unat (2 ^ k :: u64) = 2 ^ k"
proof -
  have "(2 ^ k :: u64) = of_nat (2 ^ k)"
    by simp
  also have "unat \<dots> = 2 ^ k mod 2 ^ LENGTH(64)"
    by (simp only: unat_of_nat)
  also have "\<dots> = 2 ^ k"
    using assms power_strict_increasing [of k 64 "2 :: nat"] by (intro mod_less) simp
  finally show ?thesis .
qed

lemma if_less_min: "(if a < b then a else b) = min a (b :: nat)"
  by (auto simp: min_def)

lemma unat_clamp: "unat (if b < a then b else a) = min (unat a) (unat (b :: u64))"
  by (auto simp: min_def word_less_nat_alt)

lemma unat_lt_u64: "unat (w :: u64) < 2 ^ 64"
  using unsigned_less [of w] by simp

lemma of_nat_of_unat: "unat w = n \<Longrightarrow> w = of_nat n"
  by auto

lemma unat_of_nat_u64: "n < 2 ^ 64 \<Longrightarrow> unat (of_nat n :: u64) = n"
  by (simp add: unat_of_nat)

lemma unat_add_no_wrap: "unat a + unat b < 2 ^ 64 \<Longrightarrow> unat (a + b :: u64) = unat a + unat b"
  by (simp add: unat_word_ariths)

lemma unat_add_wrap: "2 ^ 64 \<le> unat a + unat b \<Longrightarrow> unat (a + b :: u64) = unat a + unat b - 2 ^ 64"
  using unat_lt_u64 [of a] unat_lt_u64 [of b] by (simp add: unat_word_ariths mod_if)

lemma unat_ucast_u32_u64 [simp]: "unat (ucast (w :: u32) :: u64) = unat w"
proof -
  have "unat w < 2 ^ LENGTH(32)" by (rule unsigned_less)
  then have "unat w < 2 ^ 64" by simp
  then show ?thesis by (simp add: unsigned_ucast_eq take_bit_nat_eq_self)
qed

subsection \<open>Step relations\<close>

text \<open>
  The contract between a component that is a step relation and the proofs about its runs: every step keeps
  the invariant. Each such component interprets it with its own steps and invariant.
\<close>

locale transition_system =
  fixes step :: "'s \<Rightarrow> 's \<Rightarrow> bool" and inv :: "'s \<Rightarrow> bool"
  assumes step_keeps: "step s s' \<Longrightarrow> inv s \<Longrightarrow> inv s'"
begin

lemma run_keeps: "step\<^sup>*\<^sup>* s s' \<Longrightarrow> inv s \<Longrightarrow> inv s'"
  by (induction rule: rtranclp_induct) (auto intro: step_keeps)

lemma run_keeps_value: "step\<^sup>*\<^sup>* s s' \<Longrightarrow> inv s \<Longrightarrow> (\<And>s s'. step s s' \<Longrightarrow> inv s \<Longrightarrow> f s' = f s) \<Longrightarrow> f s' = f s"
  by (induction rule: rtranclp_induct) (auto dest: run_keeps)

end

end
