(* ===== verification/Math_Hacks.thy ===== *)
theory Math_Hacks
  imports Azalea_Prelude
begin

text \<open>
  The integer helpers of \<open>kernel/klib/misc/math_hacks.cpp\<close>: rounding up to a power of two and the
  index of the highest set bit.
\<close>

text \<open>
  \<open>__builtin_clzl\<close>: the number of leading zero bits of a 64-bit value. It counts down from bit
  63 to the highest set bit; the compiler leaves its value at 0 undefined, and both callers test
  for 0 themselves.
\<close>

fun clz_from :: "nat \<Rightarrow> u64 \<Rightarrow> nat" where
  "clz_from 0 w = 0"
| "clz_from (Suc k) w = (if bit w k then 0 else Suc (clz_from k w))"

definition builtin_clzl :: "u64 \<Rightarrow> nat" where
  "builtin_clzl w = clz_from 64 w"

definition round_to_power_two :: "u64 \<Rightarrow> u64" where
  "round_to_power_two input =
     (if input = 0 then 0
      else if input AND 0x1000000000000000 \<noteq> 0 then 0
      else let pos = builtin_clzl input;
               output = push_bit (63 - pos) 1
           in if input \<noteq> output then push_bit 1 output else output)"

definition which_power_of_two :: "u64 \<Rightarrow> u64" where
  "which_power_of_two input =
     (if input = 0 then 0 else of_nat (63 - builtin_clzl input))"

subsection \<open>The position of the highest set bit\<close>

lemma bit_top_iff:
  fixes w :: u64
  assumes "unat w < 2 ^ Suc k"
  shows "bit w k \<longleftrightarrow> 2 ^ k \<le> unat w"
proof -
  have "unat w div 2 ^ k < 2"
    using assms by (simp add: less_mult_imp_div_less)
  then have q: "odd (unat w div 2 ^ k) \<longleftrightarrow> 0 < unat w div 2 ^ k"
    by (auto simp: less_2_cases_iff)
  have "bit w k \<longleftrightarrow> odd (unat w div 2 ^ k)"
    by (simp add: bit_unsigned_iff flip: bit_iff_odd)
  also have "\<dots> \<longleftrightarrow> 2 ^ k \<le> unat w"
    by (simp add: q div_greater_zero_iff)
  finally show ?thesis .
qed

lemma clz_from_less: "0 < unat w \<Longrightarrow> unat w < 2 ^ k \<Longrightarrow> clz_from k w < k"
proof (induction k)
  case 0
  then show ?case by simp
next
  case (Suc k)
  then show ?case by (auto simp: bit_top_iff)
qed

lemma clz_from_bounds:
  "0 < unat w \<Longrightarrow> unat w < 2 ^ k \<Longrightarrow>
     2 ^ (k - 1 - clz_from k w) \<le> unat w \<and> unat w < 2 ^ (k - clz_from k w)"
proof (induction k)
  case 0
  then show ?case by simp
next
  case (Suc k)
  show ?case
  proof (cases "bit w k")
    case True
    with Suc.prems show ?thesis by (auto simp: bit_top_iff)
  next
    case False
    with Suc.prems have "unat w < 2 ^ k" by (auto simp: bit_top_iff)
    with Suc.IH Suc.prems(1) False show ?thesis by simp
  qed
qed

lemma builtin_clzl_bounds:
  assumes "w \<noteq> 0"
  shows "builtin_clzl w < 64"
    and "2 ^ (63 - builtin_clzl w) \<le> unat w"
    and "unat w < 2 ^ (64 - builtin_clzl w)"
proof -
  have pos: "0 < unat w" using assms by (simp add: unat_gt_0)
  have lt: "unat w < 2 ^ 64" using unsigned_less [of w] by simp
  show "builtin_clzl w < 64"
    using clz_from_less [OF pos lt] by (simp add: builtin_clzl_def)
  show "2 ^ (63 - builtin_clzl w) \<le> unat w" "unat w < 2 ^ (64 - builtin_clzl w)"
    using clz_from_bounds [OF pos lt] by (simp_all add: builtin_clzl_def)
qed

subsection \<open>Rounding to a power of two\<close>

definition is_pow2 :: "nat \<Rightarrow> bool" where
  "is_pow2 n \<longleftrightarrow> (\<exists>k. n = 2 ^ k)"

lemma round_to_power_two_unat:
  assumes nz: "input \<noteq> 0" and b60: "\<not> bit input 60" and small: "unat input \<le> 2 ^ 63"
  defines "h \<equiv> 63 - builtin_clzl input"
  shows "unat (round_to_power_two input) =
           (if unat input = 2 ^ h then 2 ^ h else 2 ^ Suc h)"
proof -
  have mask: "input AND 0x1000000000000000 = 0"
    using b60 and_exp_eq_0_iff_not_bit [of input 60] by simp
  have h: "h < 64" "2 ^ h \<le> unat input" "unat input < 2 ^ Suc h"
    using builtin_clzl_bounds [OF nz] Suc_diff_le [of "builtin_clzl input" 63]
    by (auto simp: h_def)
  have out: "unat (push_bit h 1 :: u64) = 2 ^ h"
    using h(1) by simp
  have eq: "input = push_bit h 1 \<longleftrightarrow> unat input = 2 ^ h"
    by (metis out word_unat_eq_iff)
  have r: "round_to_power_two input = (if input \<noteq> push_bit h 1 then push_bit 1 (push_bit h 1) else push_bit h 1)"
    unfolding round_to_power_two_def Let_def h_def using nz mask by simp
  show ?thesis
  proof (cases "unat input = 2 ^ h")
    case True
    then show ?thesis
      using eq out r by simp
  next
    case False
    have "(2::nat) ^ h < 2 ^ 63"
      using False h(2) small by linarith
    then have "h < 63"
      by (rule power_less_imp_less_exp [rotated]) simp
    then have "unat (2 ^ Suc h :: u64) = 2 ^ Suc h"
      by (intro unat_exp_u64) simp
    moreover have "push_bit 1 (push_bit h 1 :: u64) = 2 ^ Suc h"
      by (simp add: push_bit_eq_mult)
    ultimately show ?thesis
      using False eq r by (simp add: mult.commute)
  qed
qed


lemma round_to_power_two_least:
  assumes "input \<noteq> 0" and "\<not> bit input 60" and "unat input \<le> 2 ^ 63"
  obtains k where "k \<le> 63" and "unat (round_to_power_two input) = 2 ^ k"
    and "unat input \<le> 2 ^ k" and "2 ^ k < 2 * unat input"
proof -
  define h where "h = 63 - builtin_clzl input"
  have h: "h \<le> 63" "2 ^ h \<le> unat input" "unat input < 2 ^ Suc h"
    using builtin_clzl_bounds [OF assms(1)] Suc_diff_le [of "builtin_clzl input" 63]
    by (auto simp: h_def)
  have r: "unat (round_to_power_two input) = (if unat input = 2 ^ h then 2 ^ h else 2 ^ Suc h)"
    unfolding h_def by (rule round_to_power_two_unat [OF assms])
  show thesis
  proof (cases "unat input = 2 ^ h")
    case True
    with that [of h] h r assms(1) show ?thesis by simp
  next
    case False
    with h have gt: "2 ^ h < unat input" by simp
    with assms(3) have "(2::nat) ^ h < 2 ^ 63" by linarith
    then have "h < 63" by (rule power_less_imp_less_exp [rotated]) simp
    with that [of "Suc h"] False h gt r show ?thesis by simp
  qed
qed

text \<open>
  On every input below the guard bit, \<open>round_to_power_two\<close> returns the least power of two
  that is not below its input. The virtual memory manager relies on this for the size of every
  allocation.
\<close>

theorem round_to_power_two_correct:
  assumes "input \<noteq> 0" and "unat input < 2 ^ 60"
  shows "\<exists>k. unat (round_to_power_two input) = 2 ^ k \<and> unat input \<le> 2 ^ k \<and>
           (\<forall>j. unat input \<le> 2 ^ j \<longrightarrow> k \<le> j)"
proof -
  have "\<not> bit input 60"
    using assms(2) bit_top_iff [of input 60] by simp
  then obtain k where k: "unat (round_to_power_two input) = 2 ^ k" "unat input \<le> 2 ^ k"
      "2 ^ k < 2 * unat input"
    using assms by (elim round_to_power_two_least) auto
  have "k \<le> j" if "unat input \<le> 2 ^ j" for j
  proof -
    have "(2::nat) ^ k < 2 ^ Suc j" using k(3) that by simp
    then have "k < Suc j" by (rule power_less_imp_less_exp [rotated]) simp
    then show ?thesis by simp
  qed
  with k show ?thesis by blast
qed

theorem round_to_power_two_correct_witness:
  "(5::u64) \<noteq> 0 \<and> unat (5::u64) < 2 ^ 60 \<and>
   (\<exists>k. unat (round_to_power_two 5) = 2 ^ k \<and> unat (5::u64) \<le> 2 ^ k \<and>
           (\<forall>j. unat (5::u64) \<le> 2 ^ j \<longrightarrow> k \<le> j))"
  using round_to_power_two_correct [of 5] by simp

text \<open>
  The guard that is meant to reject inputs with no larger power of two tests bit 60 instead
  of bit 63: every input with bit 60 set is rounded to zero, among them \<open>2^60\<close>, which is a power
  of two already.
\<close>

theorem round_to_power_two_bit60:
  "(bit input 60 \<longrightarrow> round_to_power_two input = 0) \<and>
   unat (2 ^ 60 :: u64) = 2 ^ 60 \<and> round_to_power_two (2 ^ 60) = 0"
proof -
  have "round_to_power_two w = 0" if "bit w 60" for w
    using that and_exp_eq_0_iff_not_bit [of w 60] by (simp add: round_to_power_two_def)
  then show ?thesis by (auto simp: bit_simps)
qed

theorem round_to_power_two_bit60_witness:
  "bit (2 ^ 60 + 1 :: u64) 60 \<and> round_to_power_two (2 ^ 60 + 1) = 0"
  using round_to_power_two_bit60 [of "2 ^ 60 + 1"] by simp

lemma which_power_of_two_unat:
  "input \<noteq> 0 \<Longrightarrow> unat (which_power_of_two input) = 63 - builtin_clzl input"
  by (simp add: which_power_of_two_def unat_of_nat)

lemma which_power_of_two_bounds:
  assumes "input \<noteq> 0"
  shows "2 ^ unat (which_power_of_two input) \<le> unat input \<and>
         unat input < 2 ^ Suc (unat (which_power_of_two input))"
  using builtin_clzl_bounds [OF assms] Suc_diff_le [of "builtin_clzl input" 63]
  by (auto simp: which_power_of_two_unat [OF assms])

end
