(* ===== verification/Klib_List.thy ===== *)
theory Klib_List
  imports Azalea_Prelude
begin

text \<open>
  The intrusive doubly-linked lists of \<open>kernel/klib/data_structures/lists.h\<close>, on an explicit
  store: list roots and list items live at addresses, a pointer is an optional address with
  \<^term>\<open>None\<close> for \<open>nullptr\<close>, and every operation returns the updated store, or \<^term>\<open>None\<close> when one
  of its assertions fails or it follows a pointer to nothing. The abstraction \<open>klist\<close> reads a list root as the sequence
  of addresses of its items; the lemmas show that each operation is the corresponding operation
  on sequences. The \<open>wait_queue\<close> locale states what the kernel's wait lists need of it.
\<close>

subsection \<open>Data\<close>

type_synonym addr = nat

record 'a klib_list_item =
  li_prev :: "addr option"
  li_item :: "'a option"
  li_list_obj :: "addr option"
  li_next :: "addr option"

record klib_list =
  l_head :: "addr option"
  l_tail :: "addr option"

record 'a list_store =
  items :: "addr \<rightharpoonup> 'a klib_list_item"
  lists :: "addr \<rightharpoonup> klib_list"

text \<open>Reading and writing through a pointer; \<^term>\<open>None\<close> where the pointer is null or dangling.\<close>

definition get_item :: "'a list_store \<Rightarrow> addr option \<Rightarrow> 'a klib_list_item option" where
  "get_item h p = p \<bind> items h"

definition get_list :: "'a list_store \<Rightarrow> addr option \<Rightarrow> klib_list option" where
  "get_list h l = l \<bind> lists h"

definition upd_item ::
  "addr \<Rightarrow> ('a klib_list_item \<Rightarrow> 'a klib_list_item) \<Rightarrow> 'a list_store \<Rightarrow> 'a list_store" where
  "upd_item a f h = h\<lparr>items := (items h)(a := map_option f (items h a))\<rparr>"

definition upd_list :: "addr \<Rightarrow> (klib_list \<Rightarrow> klib_list) \<Rightarrow> 'a list_store \<Rightarrow> 'a list_store" where
  "upd_list l f h = h\<lparr>lists := (lists h)(l := map_option f (lists h l))\<rparr>"

subsection \<open>Operations\<close>

definition klib_list_initialize :: "'a list_store \<Rightarrow> addr option \<Rightarrow> 'a list_store option" where
  "klib_list_initialize h new_list = do {
     l \<leftarrow> new_list;
     Some (h\<lparr>lists := (lists h)(l \<mapsto> \<lparr>l_head = None, l_tail = None\<rparr>)\<rparr>)
   }"

definition klib_list_item_initialize :: "'a list_store \<Rightarrow> addr option \<Rightarrow> 'a list_store option" where
  "klib_list_item_initialize h new_item = do {
     a \<leftarrow> new_item;
     Some (h\<lparr>items := (items h)(a \<mapsto>
       \<lparr>li_prev = None, li_item = None, li_list_obj = None, li_next = None\<rparr>)\<rparr>)
   }"

definition klib_list_add_after ::
  "'a list_store \<Rightarrow> addr option \<Rightarrow> addr option \<Rightarrow> 'a list_store option" where
  "klib_list_add_after h list_item new_item = do {
     p \<leftarrow> list_item;
     a \<leftarrow> new_item;
     ni \<leftarrow> items h a;
     ASSERT (li_list_obj ni = None);
     ASSERT (li_item ni \<noteq> None);
     pi \<leftarrow> items h p;
     let h = upd_item a (\<lambda>it. it\<lparr>li_next := li_next pi, li_prev := Some p\<rparr>) h;
     let h = upd_item p (\<lambda>it. it\<lparr>li_next := Some a\<rparr>) h;
     ni \<leftarrow> items h a;
     h \<leftarrow> (case li_next ni of
             Some n \<Rightarrow> do { _ \<leftarrow> items h n; Some (upd_item n (\<lambda>it. it\<lparr>li_prev := Some a\<rparr>) h) }
           | None \<Rightarrow> Some h);
     pi \<leftarrow> items h p;
     let h = upd_item a (\<lambda>it. it\<lparr>li_list_obj := li_list_obj pi\<rparr>) h;
     l \<leftarrow> li_list_obj pi;
     lo \<leftarrow> lists h l;
     Some (if l_tail lo = Some p then upd_list l (\<lambda>r. r\<lparr>l_tail := Some a\<rparr>) h else h)
   }"

definition klib_list_add_before ::
  "'a list_store \<Rightarrow> addr option \<Rightarrow> addr option \<Rightarrow> 'a list_store option" where
  "klib_list_add_before h list_item new_item = do {
     p \<leftarrow> list_item;
     a \<leftarrow> new_item;
     ni \<leftarrow> items h a;
     ASSERT (li_list_obj ni = None);
     ASSERT (li_item ni \<noteq> None);
     pi \<leftarrow> items h p;
     let h = upd_item a (\<lambda>it. it\<lparr>li_prev := li_prev pi, li_next := Some p\<rparr>) h;
     let h = upd_item p (\<lambda>it. it\<lparr>li_prev := Some a\<rparr>) h;
     ni \<leftarrow> items h a;
     h \<leftarrow> (case li_prev ni of
             Some n \<Rightarrow> do { _ \<leftarrow> items h n; Some (upd_item n (\<lambda>it. it\<lparr>li_next := Some a\<rparr>) h) }
           | None \<Rightarrow> Some h);
     pi \<leftarrow> items h p;
     let h = upd_item a (\<lambda>it. it\<lparr>li_list_obj := li_list_obj pi\<rparr>) h;
     l \<leftarrow> li_list_obj pi;
     lo \<leftarrow> lists h l;
     Some (if l_head lo = Some p then upd_list l (\<lambda>r. r\<lparr>l_head := Some a\<rparr>) h else h)
   }"

definition klib_list_add_tail ::
  "'a list_store \<Rightarrow> addr option \<Rightarrow> addr option \<Rightarrow> 'a list_store option" where
  "klib_list_add_tail h existing_list new_item = do {
     l \<leftarrow> existing_list;
     a \<leftarrow> new_item;
     ni \<leftarrow> items h a;
     ASSERT (li_item ni \<noteq> None);
     lo \<leftarrow> lists h l;
     h \<leftarrow> (case l_tail lo of
             None \<Rightarrow> do {
               ASSERT (l_head lo = None);
               let h = upd_list l (\<lambda>r. r\<lparr>l_head := Some a, l_tail := Some a\<rparr>) h;
               ASSERT (li_next ni = None);
               ASSERT (li_prev ni = None);
               Some h }
           | Some t \<Rightarrow> do {
               _ \<leftarrow> items h t;
               let h = upd_item t (\<lambda>it. it\<lparr>li_next := Some a\<rparr>) h;
               let h = upd_item a (\<lambda>it. it\<lparr>li_prev := Some t\<rparr>) h;
               let h = upd_list l (\<lambda>r. r\<lparr>l_tail := Some a\<rparr>) h;
               ni \<leftarrow> items h a;
               ASSERT (li_next ni = None);
               Some h });
     Some (upd_item a (\<lambda>it. it\<lparr>li_list_obj := Some l\<rparr>) h)
   }"

definition klib_list_add_head ::
  "'a list_store \<Rightarrow> addr option \<Rightarrow> addr option \<Rightarrow> 'a list_store option" where
  "klib_list_add_head h existing_list new_item = do {
     l \<leftarrow> existing_list;
     a \<leftarrow> new_item;
     ni \<leftarrow> items h a;
     ASSERT (li_item ni \<noteq> None);
     lo \<leftarrow> lists h l;
     h \<leftarrow> (case l_head lo of
             None \<Rightarrow> do {
               ASSERT (l_tail lo = None);
               let h = upd_list l (\<lambda>r. r\<lparr>l_head := Some a, l_tail := Some a\<rparr>) h;
               ASSERT (li_next ni = None);
               ASSERT (li_prev ni = None);
               Some h }
           | Some t \<Rightarrow> do {
               _ \<leftarrow> items h t;
               let h = upd_item t (\<lambda>it. it\<lparr>li_prev := Some a\<rparr>) h;
               let h = upd_item a (\<lambda>it. it\<lparr>li_next := Some t\<rparr>) h;
               let h = upd_list l (\<lambda>r. r\<lparr>l_head := Some a\<rparr>) h;
               ni \<leftarrow> items h a;
               ASSERT (li_prev ni = None);
               Some h });
     Some (upd_item a (\<lambda>it. it\<lparr>li_list_obj := Some l\<rparr>) h)
   }"

definition klib_list_remove :: "'a list_store \<Rightarrow> addr option \<Rightarrow> 'a list_store option" where
  "klib_list_remove h entry_to_remove = do {
     a \<leftarrow> entry_to_remove;
     e \<leftarrow> items h a;
     l \<leftarrow> li_list_obj e;
     lo \<leftarrow> lists h l;
     h \<leftarrow> (if li_prev e = None then do {
             ASSERT (l_head lo = Some a);
             Some (upd_list l (\<lambda>r. r\<lparr>l_head := li_next e\<rparr>) h) }
           else Some h);
     lo \<leftarrow> lists h l;
     h \<leftarrow> (if li_next e = None then do {
             ASSERT (l_tail lo = Some a);
             Some (upd_list l (\<lambda>r. r\<lparr>l_tail := li_prev e\<rparr>) h) }
           else Some h);
     h \<leftarrow> (case li_prev e of
             Some p \<Rightarrow> do { _ \<leftarrow> items h p; Some (upd_item p (\<lambda>it. it\<lparr>li_next := li_next e\<rparr>) h) }
           | None \<Rightarrow> Some h);
     e \<leftarrow> items h a;
     h \<leftarrow> (case li_next e of
             Some n \<Rightarrow> do { _ \<leftarrow> items h n; Some (upd_item n (\<lambda>it. it\<lparr>li_prev := li_prev e\<rparr>) h) }
           | None \<Rightarrow> Some h);
     Some (upd_item a (\<lambda>it. it\<lparr>li_list_obj := None, li_next := None, li_prev := None\<rparr>) h)
   }"

text \<open>
  The two traversals follow \<open>next\<close> pointers until null. On a cyclic chain the C++ loops do not
  end, so they are \<open>partial_function\<close>s: \<^term>\<open>None\<close> also stands for a loop that does not return.
\<close>

partial_function (option) count_items :: "'a list_store \<Rightarrow> addr option \<Rightarrow> u64 \<Rightarrow> u64 option" where
  "count_items h list_item count =
     (case list_item of
        None \<Rightarrow> Some count
      | Some a \<Rightarrow> (case items h a of
                     None \<Rightarrow> None
                   | Some it \<Rightarrow> count_items h (li_next it) (count + 1)))"

definition klib_list_get_length :: "'a list_store \<Rightarrow> addr option \<Rightarrow> u64 option" where
  "klib_list_get_length h list_obj = do {
     lo \<leftarrow> get_list h list_obj;
     count_items h (l_head lo) 0
   }"

definition item_is_valid :: "'a list_store \<Rightarrow> addr \<Rightarrow> klib_list \<Rightarrow> addr \<Rightarrow> bool option" where
  "item_is_valid h l lo cur = do {
     it \<leftarrow> items h cur;
     if li_list_obj it \<noteq> Some l then Some False
     else do {
       prev_ok \<leftarrow> (case li_prev it of
                     None \<Rightarrow> Some (l_head lo = Some cur)
                   | Some p \<Rightarrow> map_option (\<lambda>pi. li_next pi = Some cur) (items h p));
       if \<not> prev_ok then Some False
       else do {
         next_ok \<leftarrow> (case li_next it of
                       None \<Rightarrow> Some (l_tail lo = Some cur)
                     | Some n \<Rightarrow> map_option (\<lambda>ni. li_prev ni = Some cur) (items h n));
         Some (next_ok \<and> li_item it \<noteq> None)
       }
     }
   }"

partial_function (option) items_are_valid ::
  "'a list_store \<Rightarrow> addr \<Rightarrow> klib_list \<Rightarrow> addr option \<Rightarrow> bool option" where
  "items_are_valid h l lo cur_item =
     (case cur_item of
        None \<Rightarrow> Some True
      | Some a \<Rightarrow> (case item_is_valid h l lo a of
                     None \<Rightarrow> None
                   | Some ok \<Rightarrow> if ok then (case items h a of
                                              None \<Rightarrow> None
                                            | Some it \<Rightarrow> items_are_valid h l lo (li_next it))
                                else Some False))"

definition klib_list_is_valid :: "'a list_store \<Rightarrow> addr option \<Rightarrow> bool option" where
  "klib_list_is_valid h list_obj = do {
     l \<leftarrow> list_obj;
     lo \<leftarrow> lists h l;
     if (l_head lo = None) \<noteq> (l_tail lo = None) then Some False
     else items_are_valid h l lo (l_head lo)
   }"

definition klib_list_is_empty :: "'a list_store \<Rightarrow> addr option \<Rightarrow> bool option" where
  "klib_list_is_empty h list_obj = do {
     lo \<leftarrow> get_list h list_obj;
     Some (l_head lo = None \<and> l_tail lo = None)
   }"

definition klib_list_item_is_in_any_list :: "'a list_store \<Rightarrow> addr option \<Rightarrow> bool option" where
  "klib_list_item_is_in_any_list h list_item_obj = do {
     it \<leftarrow> get_item h list_item_obj;
     Some (li_list_obj it \<noteq> None)
   }"

subsection \<open>The sequence a list root stands for\<close>

definition hd_ptr :: "addr list \<Rightarrow> addr option \<Rightarrow> addr option" where
  "hd_ptr xs n = (case xs of [] \<Rightarrow> n | a # _ \<Rightarrow> Some a)"

definition last_ptr :: "addr option \<Rightarrow> addr list \<Rightarrow> addr option" where
  "last_ptr p xs = (if xs = [] then p else Some (last xs))"

lemma hd_ptr_simps [simp]: "hd_ptr [] n = n" "hd_ptr (a # xs) n = Some a"
  by (simp_all add: hd_ptr_def)

lemma last_ptr_simps [simp]:
  "last_ptr p [] = p" "last_ptr p (xs @ [a]) = Some a" "last_ptr p (a # xs) = last_ptr (Some a) xs"
  by (simp_all add: last_ptr_def)

lemma last_ptr_append [simp]: "last_ptr p (xs @ ys) = last_ptr (last_ptr p xs) ys"
  by (simp add: last_ptr_def)

lemma hd_ptr_append [simp]: "hd_ptr (xs @ ys) n = hd_ptr xs (hd_ptr ys n)"
  by (cases xs) simp_all

lemma hd_ptr_nonempty: "xs \<noteq> [] \<Longrightarrow> hd_ptr xs n = hd_ptr xs m"
  by (cases xs) simp_all

lemma last_ptr_nonempty: "xs \<noteq> [] \<Longrightarrow> last_ptr p xs = last_ptr q xs"
  by (simp add: last_ptr_def)

definition node :: "addr \<Rightarrow> addr option \<Rightarrow> 'a klib_list_item \<Rightarrow> addr option \<Rightarrow> bool" where
  "node l p it n \<longleftrightarrow>
     li_prev it = p \<and> li_next it = n \<and> li_list_obj it = Some l \<and> li_item it \<noteq> None"

text \<open>\<open>dseg its l p xs n\<close>: the items \<open>xs\<close> form a chain of list \<open>l\<close> between \<open>p\<close> and \<open>n\<close>.\<close>

fun dseg ::
  "(addr \<rightharpoonup> 'a klib_list_item) \<Rightarrow> addr \<Rightarrow> addr option \<Rightarrow> addr list \<Rightarrow> addr option \<Rightarrow> bool" where
  "dseg its l p [] n = True"
| "dseg its l p (a # xs) n =
     ((case its a of None \<Rightarrow> False | Some it \<Rightarrow> node l p it (hd_ptr xs n)) \<and>
      dseg its l (Some a) xs n)"

definition klist :: "'a list_store \<Rightarrow> addr \<Rightarrow> addr list \<Rightarrow> bool" where
  "klist h l xs \<longleftrightarrow>
     lists h l = Some \<lparr>l_head = hd_ptr xs None, l_tail = last_ptr None xs\<rparr> \<and>
     distinct xs \<and> dseg (items h) l None xs None"

text \<open>An item that has been initialised and given a payload, but is in no list.\<close>

definition unlinked :: "'a list_store \<Rightarrow> addr \<Rightarrow> bool" where
  "unlinked h a \<longleftrightarrow>
     (case items h a of
        None \<Rightarrow> False
      | Some it \<Rightarrow> li_prev it = None \<and> li_next it = None \<and> li_list_obj it = None \<and> li_item it \<noteq> None)"

lemma upd_item_simps [simp]:
  "items (upd_item a f h) = (items h)(a := map_option f (items h a))"
  "lists (upd_item a f h) = lists h"
  by (simp_all add: upd_item_def)

lemma upd_list_simps [simp]:
  "lists (upd_list l g h) = (lists h)(l := map_option g (lists h l))"
  "items (upd_list l g h) = items h"
  by (simp_all add: upd_list_def)

lemma dseg_append [simp]:
  "dseg its l p (xs @ ys) n \<longleftrightarrow> dseg its l p xs (hd_ptr ys n) \<and> dseg its l (last_ptr p xs) ys n"
  by (induction xs arbitrary: p) (auto split: option.splits)

lemma dseg_cong:
  "(\<And>a. a \<in> set xs \<Longrightarrow> its' a = its a) \<Longrightarrow> dseg its' l p xs n = dseg its l p xs n"
  by (induction xs arbitrary: p) auto

lemma dseg_upd_other [simp]: "a \<notin> set xs \<Longrightarrow> dseg (its(a := v)) l p xs n = dseg its l p xs n"
  by (rule dseg_cong) auto

lemma dseg_member:
  "dseg its l p xs n \<Longrightarrow> a \<in> set xs \<Longrightarrow> \<exists>it. its a = Some it \<and> li_list_obj it = Some l"
  by (induction xs arbitrary: p) (auto simp: node_def split: option.splits)

lemma dseg_set_next:
  assumes "dseg its l p (xs @ [a]) n" "a \<notin> set xs"
  shows "dseg (its(a := map_option (\<lambda>it. it\<lparr>li_next := n'\<rparr>) (its a))) l p (xs @ [a]) n'"
  using assms by (auto simp: node_def split: option.splits)

lemma dseg_set_prev:
  assumes "dseg its l p (a # xs) n" "a \<notin> set xs"
  shows "dseg (its(a := map_option (\<lambda>it. it\<lparr>li_prev := p'\<rparr>) (its a))) l p' (a # xs) n"
  using assms by (auto simp: node_def split: option.splits)

lemma klist_member:
  "klist h l xs \<Longrightarrow> a \<in> set xs \<Longrightarrow> \<exists>it. items h a = Some it \<and> li_list_obj it = Some l"
  by (auto simp: klist_def intro: dseg_member)

lemma klist_unlinked: "klist h l xs \<Longrightarrow> unlinked h a \<Longrightarrow> a \<notin> set xs"
  by (auto dest: klist_member simp: unlinked_def)

lemma klist_frame:
  assumes "klist h l xs" "lists h' l = lists h l" "\<And>a. a \<in> set xs \<Longrightarrow> items h' a = items h a"
  shows "klist h' l xs"
  using assms dseg_cong [of xs "items h'" "items h"] by (simp add: klist_def)

lemma klist_disjoint:
  "klist h l xs \<Longrightarrow> klist h l' ys \<Longrightarrow> l \<noteq> l' \<Longrightarrow> set xs \<inter> set ys = {}"
  by (fastforce dest: klist_member)

lemma klist_nth_node:
  assumes "klist h l (ys @ a # zs)"
  shows "\<exists>it. items h a = Some it \<and> node l (last_ptr None ys) it (hd_ptr zs None)"
  using assms by (auto simp: klist_def split: option.splits)

lemma dseg_unique:
  "dseg its l p xs None \<Longrightarrow> dseg its l q ys None \<Longrightarrow> hd_ptr xs None = hd_ptr ys None \<Longrightarrow> xs = ys"
proof (induction xs arbitrary: ys p q)
  case Nil
  then show ?case by (cases ys) auto
next
  case (Cons a xs)
  then obtain ys' where "ys = a # ys'" by (cases ys) auto
  with Cons show ?case by (fastforce simp: node_def split: option.splits)
qed

lemma klist_unique: "klist h l xs \<Longrightarrow> klist h l ys \<Longrightarrow> xs = ys"
  by (auto simp: klist_def intro: dseg_unique)

text \<open>A chain that ends in null never visits an item twice.\<close>

lemma dseg_distinct: "dseg its l p xs None \<Longrightarrow> distinct xs"
proof (induction xs arbitrary: p)
  case Nil
  then show ?case by simp
next
  case (Cons a xs)
  have "a \<notin> set xs"
  proof
    assume "a \<in> set xs"
    then obtain us vs where xs: "xs = us @ a # vs" by (auto dest: split_list)
    with Cons.prems have "dseg its l (last_ptr (Some a) us) (a # vs) None" by simp
    with Cons.prems have "a # xs = a # vs"
      by (rule dseg_unique) simp
    with xs show False by simp
  qed
  with Cons show ?case by auto
qed

subsection \<open>Each operation as an operation on sequences\<close>

text \<open>
  Every operation on a list leaves the other lists of the store as they are, since it only writes
  items of its own list and the item it links or unlinks.
\<close>

definition others_kept :: "'a list_store \<Rightarrow> 'a list_store \<Rightarrow> addr \<Rightarrow> addr set \<Rightarrow> bool" where
  "others_kept h h' l S \<longleftrightarrow>
     (\<forall>l'. l' \<noteq> l \<longrightarrow> lists h' l' = lists h l') \<and> (\<forall>a. a \<notin> S \<longrightarrow> items h' a = items h a)"

lemma others_kept_klist:
  assumes "others_kept h h' l S" and "klist h l xs" and "S \<subseteq> insert a (set xs)" and "unlinked h a"
    and "l' \<noteq> l" and "klist h l' ys"
  shows "klist h' l' ys"
proof (rule klist_frame [OF assms(6)])
  show "lists h' l' = lists h l'"
    using assms(1,5) by (simp add: others_kept_def)
  show "items h' b = items h b" if "b \<in> set ys" for b
    using assms that klist_disjoint [OF assms(2) assms(6)] klist_unlinked [OF assms(6) assms(4)]
    by (auto simp: others_kept_def)
qed

lemma unlinkedE:
  assumes "unlinked h a"
  obtains ni where "items h a = Some ni" "li_prev ni = None" "li_next ni = None"
    "li_list_obj ni = None" "li_item ni \<noteq> None"
  using assms by (auto simp: unlinked_def split: option.splits)

lemma add_tail_refines:
  assumes k: "klist h l xs" and u: "unlinked h a"
  shows "\<exists>h'. klib_list_add_tail h (Some l) (Some a) = Some h' \<and> klist h' l (xs @ [a]) \<and>
              others_kept h h' l (insert a (set xs))"
proof -
  from u obtain ni where ni: "items h a = Some ni" "li_prev ni = None" "li_next ni = None"
      "li_list_obj ni = None" "li_item ni \<noteq> None"
    by (rule unlinkedE)
  from k u have a: "a \<notin> set xs" by (rule klist_unlinked)
  show ?thesis
  proof (cases xs rule: rev_cases)
    case Nil
    let ?h = "upd_item a (\<lambda>it. it\<lparr>li_list_obj := Some l\<rparr>)
                (upd_list l (\<lambda>r. r\<lparr>l_head := Some a, l_tail := Some a\<rparr>) h)"
    have "klib_list_add_tail h (Some l) (Some a) = Some ?h"
      using k ni Nil by (simp add: klib_list_add_tail_def klist_def)
    moreover have "klist ?h l (xs @ [a])"
      using k ni Nil by (simp add: klist_def node_def)
    moreover have "others_kept h ?h l (insert a (set xs))"
      by (simp add: others_kept_def)
    ultimately show ?thesis by blast
  next
    case (snoc ys t)
    let ?h = "upd_item a (\<lambda>it. it\<lparr>li_list_obj := Some l\<rparr>)
                (upd_list l (\<lambda>r. r\<lparr>l_tail := Some a\<rparr>)
                  (upd_item a (\<lambda>it. it\<lparr>li_prev := Some t\<rparr>)
                    (upd_item t (\<lambda>it. it\<lparr>li_next := Some a\<rparr>) h)))"
    from k snoc have d: "dseg (items h) l None (ys @ [t]) None" "t \<notin> set ys"
      by (simp_all add: klist_def)
    have "t \<noteq> a" using a snoc by auto
    obtain ti where ti: "items h t = Some ti"
      using klist_member [OF k, of t] snoc by auto
    have "klib_list_add_tail h (Some l) (Some a) = Some ?h"
      using k ni ti snoc \<open>t \<noteq> a\<close> by (simp add: klib_list_add_tail_def klist_def)
    moreover have "klist ?h l (xs @ [a])"
      using k ni ti snoc a dseg_set_next [OF d, of "Some a"] by (auto simp: klist_def node_def)
    moreover have "others_kept h ?h l (insert a (set xs))"
      using snoc by (simp add: others_kept_def)
    ultimately show ?thesis by blast
  qed
qed

lemma add_head_refines:
  assumes k: "klist h l xs" and u: "unlinked h a"
  shows "\<exists>h'. klib_list_add_head h (Some l) (Some a) = Some h' \<and> klist h' l (a # xs) \<and>
              others_kept h h' l (insert a (set xs))"
proof -
  from u obtain ni where ni: "items h a = Some ni" "li_prev ni = None" "li_next ni = None"
      "li_list_obj ni = None" "li_item ni \<noteq> None"
    by (rule unlinkedE)
  from k u have a: "a \<notin> set xs" by (rule klist_unlinked)
  show ?thesis
  proof (cases xs)
    case Nil
    let ?h = "upd_item a (\<lambda>it. it\<lparr>li_list_obj := Some l\<rparr>)
                (upd_list l (\<lambda>r. r\<lparr>l_head := Some a, l_tail := Some a\<rparr>) h)"
    have "klib_list_add_head h (Some l) (Some a) = Some ?h"
      using k ni Nil by (simp add: klib_list_add_head_def klist_def)
    moreover have "klist ?h l (a # xs)"
      using k ni Nil by (simp add: klist_def node_def)
    moreover have "others_kept h ?h l (insert a (set xs))"
      by (simp add: others_kept_def)
    ultimately show ?thesis by blast
  next
    case (Cons t ys)
    let ?h = "upd_item a (\<lambda>it. it\<lparr>li_list_obj := Some l\<rparr>)
                (upd_list l (\<lambda>r. r\<lparr>l_head := Some a\<rparr>)
                  (upd_item a (\<lambda>it. it\<lparr>li_next := Some t\<rparr>)
                    (upd_item t (\<lambda>it. it\<lparr>li_prev := Some a\<rparr>) h)))"
    from k Cons have d: "dseg (items h) l None (t # ys) None" "t \<notin> set ys"
      by (simp_all add: klist_def)
    have "t \<noteq> a" using a Cons by auto
    obtain ti where ti: "items h t = Some ti"
      using klist_member [OF k, of t] Cons by auto
    have "klib_list_add_head h (Some l) (Some a) = Some ?h"
      using k ni ti Cons \<open>t \<noteq> a\<close> by (simp add: klib_list_add_head_def klist_def)
    moreover have "klist ?h l (a # xs)"
      using k ni ti Cons a dseg_set_prev [OF d, of "Some a"] by (auto simp: klist_def node_def)
    moreover have "others_kept h ?h l (insert a (set xs))"
      using Cons by (simp add: others_kept_def)
    ultimately show ?thesis by blast
  qed
qed

lemma klist_splitE:
  assumes "klist h l (ys @ p # zs)"
  obtains pi where "items h p = Some pi" "node l (last_ptr None ys) pi (hd_ptr zs None)"
    "dseg (items h) l None ys (Some p)" "dseg (items h) l (Some p) zs None"
    "p \<notin> set ys" "p \<notin> set zs" "distinct (ys @ zs)"
    "lists h l = Some \<lparr>l_head = hd_ptr ys (Some p), l_tail = last_ptr (Some p) zs\<rparr>"
  using assms by (auto simp: klist_def split: option.splits)

lemma add_after_refines:
  assumes k: "klist h l (ys @ p # zs)" and u: "unlinked h a"
  shows "\<exists>h'. klib_list_add_after h (Some p) (Some a) = Some h' \<and> klist h' l (ys @ p # a # zs) \<and>
              others_kept h h' l (insert a (set (ys @ p # zs)))"
proof -
  from u obtain ni where ni: "items h a = Some ni" "li_prev ni = None" "li_next ni = None"
      "li_list_obj ni = None" "li_item ni \<noteq> None"
    by (rule unlinkedE)
  from k u have a: "a \<notin> set (ys @ p # zs)" by (rule klist_unlinked)
  from k obtain pi where p: "items h p = Some pi" "node l (last_ptr None ys) pi (hd_ptr zs None)"
    "dseg (items h) l None ys (Some p)" "dseg (items h) l (Some p) zs None"
    "p \<notin> set ys" "p \<notin> set zs" "distinct (ys @ zs)"
    "lists h l = Some \<lparr>l_head = hd_ptr ys (Some p), l_tail = last_ptr (Some p) zs\<rparr>"
    by (rule klist_splitE)
  show ?thesis
  proof (cases zs)
    case Nil
    let ?h = "upd_list l (\<lambda>r. r\<lparr>l_tail := Some a\<rparr>)
                (upd_item a (\<lambda>it. it\<lparr>li_list_obj := Some l\<rparr>)
                  (upd_item p (\<lambda>it. it\<lparr>li_next := Some a\<rparr>)
                    (upd_item a (\<lambda>it. it\<lparr>li_next := None, li_prev := Some p\<rparr>) h)))"
    have "klib_list_add_after h (Some p) (Some a) = Some ?h"
      using p ni a Nil by (auto simp: klib_list_add_after_def node_def)
    moreover have "klist ?h l (ys @ p # a # zs)"
      using p ni a Nil by (auto simp: klist_def node_def)
    moreover have "others_kept h ?h l (insert a (set (ys @ p # zs)))"
      by (simp add: others_kept_def)
    ultimately show ?thesis by blast
  next
    case (Cons n zs')
    let ?h = "upd_item a (\<lambda>it. it\<lparr>li_list_obj := Some l\<rparr>)
                (upd_item n (\<lambda>it. it\<lparr>li_prev := Some a\<rparr>)
                  (upd_item p (\<lambda>it. it\<lparr>li_next := Some a\<rparr>)
                    (upd_item a (\<lambda>it. it\<lparr>li_next := Some n, li_prev := Some p\<rparr>) h)))"
    have dn: "dseg (items h) l (Some p) (n # zs') None" "n \<notin> set zs'"
      using p Cons by simp_all
    obtain nn where nn: "items h n = Some nn"
      using dn(1) by (auto split: option.splits)
    have tail: "last_ptr (Some n) zs' \<noteq> Some p"
      using p(6) Cons by (auto simp: last_ptr_def)
    have "klib_list_add_after h (Some p) (Some a) = Some ?h"
      using p ni a Cons nn tail by (auto simp: klib_list_add_after_def node_def)
    moreover have "klist ?h l (ys @ p # a # zs)"
      using p ni a Cons nn dseg_set_prev [OF dn, of "Some a"] by (auto simp: klist_def node_def)
    moreover have "others_kept h ?h l (insert a (set (ys @ p # zs)))"
      using Cons by (simp add: others_kept_def)
    ultimately show ?thesis by blast
  qed
qed

lemma add_before_refines:
  assumes k: "klist h l (ys @ p # zs)" and u: "unlinked h a"
  shows "\<exists>h'. klib_list_add_before h (Some p) (Some a) = Some h' \<and> klist h' l (ys @ a # p # zs) \<and>
              others_kept h h' l (insert a (set (ys @ p # zs)))"
proof -
  from u obtain ni where ni: "items h a = Some ni" "li_prev ni = None" "li_next ni = None"
      "li_list_obj ni = None" "li_item ni \<noteq> None"
    by (rule unlinkedE)
  from k u have a: "a \<notin> set (ys @ p # zs)" by (rule klist_unlinked)
  from k obtain pi where p: "items h p = Some pi" "node l (last_ptr None ys) pi (hd_ptr zs None)"
    "dseg (items h) l None ys (Some p)" "dseg (items h) l (Some p) zs None"
    "p \<notin> set ys" "p \<notin> set zs" "distinct (ys @ zs)"
    "lists h l = Some \<lparr>l_head = hd_ptr ys (Some p), l_tail = last_ptr (Some p) zs\<rparr>"
    by (rule klist_splitE)
  show ?thesis
  proof (cases ys rule: rev_cases)
    case Nil
    let ?h = "upd_list l (\<lambda>r. r\<lparr>l_head := Some a\<rparr>)
                (upd_item a (\<lambda>it. it\<lparr>li_list_obj := Some l\<rparr>)
                  (upd_item p (\<lambda>it. it\<lparr>li_prev := Some a\<rparr>)
                    (upd_item a (\<lambda>it. it\<lparr>li_prev := None, li_next := Some p\<rparr>) h)))"
    have "klib_list_add_before h (Some p) (Some a) = Some ?h"
      using p ni a Nil by (auto simp: klib_list_add_before_def node_def)
    moreover have "klist ?h l (ys @ a # p # zs)"
      using p ni a Nil by (auto simp: klist_def node_def)
    moreover have "others_kept h ?h l (insert a (set (ys @ p # zs)))"
      by (simp add: others_kept_def)
    ultimately show ?thesis by blast
  next
    case (snoc ys' n)
    let ?h = "upd_item a (\<lambda>it. it\<lparr>li_list_obj := Some l\<rparr>)
                (upd_item n (\<lambda>it. it\<lparr>li_next := Some a\<rparr>)
                  (upd_item p (\<lambda>it. it\<lparr>li_prev := Some a\<rparr>)
                    (upd_item a (\<lambda>it. it\<lparr>li_prev := Some n, li_next := Some p\<rparr>) h)))"
    have dn: "dseg (items h) l None (ys' @ [n]) (Some p)" "n \<notin> set ys'"
      using p snoc by simp_all
    obtain nn where nn: "items h n = Some nn"
      using dn(1) by (auto split: option.splits)
    have head: "hd_ptr ys' (Some n) \<noteq> Some p"
      using p(5) snoc by (cases ys') auto
    have "klib_list_add_before h (Some p) (Some a) = Some ?h"
      using p ni a snoc nn head by (auto simp: klib_list_add_before_def node_def)
    moreover have "klist ?h l (ys @ a # p # zs)"
      using p ni a snoc nn dseg_set_next [OF dn, of "Some a"] by (auto simp: klist_def node_def)
    moreover have "others_kept h ?h l (insert a (set (ys @ p # zs)))"
      using snoc by (simp add: others_kept_def)
    ultimately show ?thesis by blast
  qed
qed

lemma dseg_relink:
  assumes "dseg its l p ys (Some a)" "dseg its l (Some a) zs None" "distinct (ys @ zs)"
  defines "its1 \<equiv> (case last_ptr None ys of None \<Rightarrow> its
                    | Some y \<Rightarrow> its(y := map_option (\<lambda>it. it\<lparr>li_next := hd_ptr zs None\<rparr>) (its y)))"
  defines "its2 \<equiv> (case hd_ptr zs None of None \<Rightarrow> its1
                    | Some z \<Rightarrow> its1(z := map_option (\<lambda>it. it\<lparr>li_prev := last_ptr p ys\<rparr>) (its1 z)))"
  shows "dseg its2 l p (ys @ zs) None"
proof -
  have ys: "dseg its1 l p ys (hd_ptr zs None)"
  proof (cases ys rule: rev_cases)
    case (snoc ys' y)
    then show ?thesis
      using assms(1,3) dseg_set_next [of its l p ys' y "Some a" "hd_ptr zs None"]
      by (simp add: its1_def)
  qed simp
  have zs: "dseg its1 l (Some a) zs None"
    using assms(2,3) unfolding its1_def
    by (cases ys rule: rev_cases) (auto intro: dseg_cong [THEN iffD2])
  show ?thesis
  proof (cases zs)
    case Nil
    then show ?thesis using ys by (simp add: its2_def)
  next
    case (Cons z zs')
    then show ?thesis
      using ys zs assms(3) dseg_set_prev [of its1 l "Some a" z zs' None "last_ptr p ys"]
      by (simp add: its2_def)
  qed
qed

lemma remove_refines:
  assumes k: "klist h l (ys @ a # zs)"
  shows "\<exists>h'. klib_list_remove h (Some a) = Some h' \<and> klist h' l (ys @ zs) \<and> unlinked h' a \<and>
              others_kept h h' l (set (ys @ a # zs))"
proof -
  from k obtain e where e: "items h a = Some e" "node l (last_ptr None ys) e (hd_ptr zs None)"
    "dseg (items h) l None ys (Some a)" "dseg (items h) l (Some a) zs None"
    "a \<notin> set ys" "a \<notin> set zs" "distinct (ys @ zs)"
    "lists h l = Some \<lparr>l_head = hd_ptr ys (Some a), l_tail = last_ptr (Some a) zs\<rparr>"
    by (rule klist_splitE)
  let ?hd = "\<lambda>h :: 'a list_store. if ys = [] then upd_list l (\<lambda>r. r\<lparr>l_head := hd_ptr zs None\<rparr>) h else h"
  let ?tl = "\<lambda>h :: 'a list_store. if zs = [] then upd_list l (\<lambda>r. r\<lparr>l_tail := last_ptr None ys\<rparr>) h else h"
  let ?pv = "\<lambda>h :: 'a list_store. case last_ptr None ys of None \<Rightarrow> h
               | Some y \<Rightarrow> upd_item y (\<lambda>it. it\<lparr>li_next := hd_ptr zs None\<rparr>) h"
  let ?nx = "\<lambda>h :: 'a list_store. case hd_ptr zs None of None \<Rightarrow> h
               | Some z \<Rightarrow> upd_item z (\<lambda>it. it\<lparr>li_prev := last_ptr None ys\<rparr>) h"
  let ?h = "upd_item a (\<lambda>it. it\<lparr>li_list_obj := None, li_next := None, li_prev := None\<rparr>)
              (?nx (?pv (?tl (?hd h))))"
  have ly: "last_ptr None ys = None \<longleftrightarrow> ys = []" "hd_ptr zs None = None \<longleftrightarrow> zs = []"
    by (auto simp: last_ptr_def hd_ptr_def split: list.splits)
  have mem: "last_ptr None ys = Some y \<Longrightarrow> y \<in> set ys \<and> (\<exists>it. items h y = Some it)" for y
    using dseg_member [OF e(3), of y] by (auto simp: last_ptr_def split: if_splits)
  have mem': "hd_ptr zs None = Some z \<Longrightarrow> z \<in> set zs \<and> (\<exists>it. items h z = Some it)" for z
    using dseg_member [OF e(4), of z] by (auto simp: hd_ptr_def split: list.splits)
  note mem = mem mem'
  have "klib_list_remove h (Some a) = Some ?h"
    using e mem ly by (cases "ys = []"; cases "zs = []")
      (auto simp: klib_list_remove_def node_def split: option.splits)
  moreover have "klist ?h l (ys @ zs)"
    using dseg_relink [OF e(3,4,7)] e mem ly
    by (auto simp: klist_def intro: hd_ptr_nonempty last_ptr_nonempty split: option.splits)
  moreover have "unlinked ?h a"
    using e mem by (auto simp: unlinked_def node_def split: option.splits)
  moreover have "others_kept h ?h l (set (ys @ a # zs))"
    using mem by (auto simp: others_kept_def split: option.splits)
  ultimately show ?thesis by blast
qed

subsection \<open>Traversals return on every well-formed list\<close>

lemma count_items_dseg:
  "dseg (items h) l p xs None \<Longrightarrow> count_items h (hd_ptr xs None) c = Some (c + of_nat (length xs))"
proof (induction xs arbitrary: p c)
  case Nil
  then show ?case by (simp add: count_items.simps)
next
  case (Cons a xs)
  then obtain it where "items h a = Some it" "li_next it = hd_ptr xs None"
      "dseg (items h) l (Some a) xs None"
    by (auto simp: node_def split: option.splits)
  with Cons.IH [of "Some a" "c + 1"] show ?case
    by (subst count_items.simps) (simp add: add.assoc)
qed

lemma get_length_refines: "klist h l xs \<Longrightarrow> klib_list_get_length h (Some l) = Some (of_nat (length xs))"
  by (auto simp: klib_list_get_length_def get_list_def klist_def dest: count_items_dseg [where c = 0])

lemma is_empty_refines: "klist h l xs \<Longrightarrow> klib_list_is_empty h (Some l) = Some (xs = [])"
  by (cases xs) (auto simp: klib_list_is_empty_def get_list_def klist_def last_ptr_def)

lemma is_in_any_list_refines:
  "klist h l xs \<Longrightarrow> a \<in> set xs \<Longrightarrow> klib_list_item_is_in_any_list h (Some a) = Some True"
  "unlinked h a \<Longrightarrow> klib_list_item_is_in_any_list h (Some a) = Some False"
  by (auto simp: klib_list_item_is_in_any_list_def get_item_def unlinked_def dest: klist_member
      split: option.splits)

lemma items_are_valid_suffix:
  assumes k: "klist h l (ys @ zs)" and lo: "lists h l = Some lo"
  shows "items_are_valid h l lo (hd_ptr zs None) = Some True"
  using k
proof (induction zs arbitrary: ys)
  case Nil
  then show ?case by (simp add: items_are_valid.simps)
next
  case (Cons a zs)
  from Cons.prems obtain it where it: "items h a = Some it"
      "node l (last_ptr None ys) it (hd_ptr zs None)"
    by (auto dest: klist_nth_node)
  have "item_is_valid h l lo a = Some True"
  proof -
    have prev: "(case li_prev it of None \<Rightarrow> Some (l_head lo = Some a)
                 | Some p \<Rightarrow> map_option (\<lambda>pi. li_next pi = Some a) (items h p)) = Some True"
    proof (cases ys rule: rev_cases)
      case Nil
      then show ?thesis using Cons.prems it lo by (auto simp: node_def klist_def)
    next
      case (snoc ys' y)
      with Cons.prems klist_nth_node [of h l ys' y "a # zs"] it show ?thesis
        by (auto simp: node_def)
    qed
    have nxt: "(case li_next it of None \<Rightarrow> Some (l_tail lo = Some a)
                | Some n \<Rightarrow> map_option (\<lambda>ni. li_prev ni = Some a) (items h n)) = Some True"
    proof (cases zs)
      case Nil
      then show ?thesis using Cons.prems it lo by (auto simp: node_def klist_def)
    next
      case (Cons z zs')
      with Cons.prems klist_nth_node [of h l "ys @ [a]" z zs'] it show ?thesis
        by (auto simp: node_def)
    qed
    show ?thesis
      using it prev nxt by (simp add: item_is_valid_def node_def)
  qed
  moreover have "items_are_valid h l lo (hd_ptr zs None) = Some True"
    using Cons.IH [of "ys @ [a]"] Cons.prems by simp
  ultimately show ?case
    using it by (subst items_are_valid.simps) (simp add: node_def)
qed

lemma is_valid_complete: "klist h l xs \<Longrightarrow> klib_list_is_valid h (Some l) = Some True"
  using items_are_valid_suffix [of h l "[]" xs]
  by (cases xs) (auto simp: klib_list_is_valid_def klist_def last_ptr_def)

lemma item_is_validE:
  assumes "item_is_valid h l lo a = Some True"
  obtains it where "items h a = Some it" "li_list_obj it = Some l" "li_item it \<noteq> None"
    "li_next it = None \<longrightarrow> l_tail lo = Some a"
    "\<forall>n. li_next it = Some n \<longrightarrow> (\<exists>ni. items h n = Some ni \<and> li_prev ni = Some a)"
  using assms by (auto simp: item_is_valid_def split: if_splits option.splits)

text \<open>What the check accepts is a chain; only the \<open>prev\<close> pointer of its first item is open.\<close>

lemma items_are_valid_chain:
  assumes "items_are_valid h l lo cur = Some ok" and "ok"
  shows "\<exists>xs p. cur = hd_ptr xs None \<and> dseg (items h) l p xs None \<and>
           (xs \<noteq> [] \<longrightarrow> l_tail lo = last_ptr None xs)"
proof -
  let ?P = "\<lambda>h l lo cur ok. ok \<longrightarrow> (\<exists>xs p. cur = hd_ptr xs None \<and> dseg (items h) l p xs None \<and>
              (xs \<noteq> [] \<longrightarrow> l_tail lo = last_ptr None xs))"
  have "?P h l lo cur ok"
  proof (rule items_are_valid.raw_induct [where P = ?P, OF _ assms(1)])
    fix f and h :: "'a list_store" and l lo cur r
    assume IH: "\<And>h l lo cur r. f h l lo cur = Some r \<Longrightarrow> ?P h l lo cur r"
      and eq: "(case cur of None \<Rightarrow> Some True
         | Some a \<Rightarrow> (case item_is_valid h l lo a of None \<Rightarrow> None
            | Some ok \<Rightarrow> if ok then (case items h a of None \<Rightarrow> None
                            | Some it \<Rightarrow> f h l lo (li_next it))
                         else Some False)) = Some r"
    show "?P h l lo cur r"
    proof (cases cur)
      case None
      then show ?thesis by (auto intro: exI [of _ "[]"])
    next
      case (Some a)
      show ?thesis
      proof
        assume r
        with eq Some have v: "item_is_valid h l lo a = Some True"
          by (auto split: option.splits if_splits)
        then obtain it where it: "items h a = Some it" "li_list_obj it = Some l" "li_item it \<noteq> None"
            "li_next it = None \<longrightarrow> l_tail lo = Some a"
            "\<forall>n. li_next it = Some n \<longrightarrow> (\<exists>ni. items h n = Some ni \<and> li_prev ni = Some a)"
          by (rule item_is_validE)
        from eq Some v it(1) have "f h l lo (li_next it) = Some r" by simp
        from IH [OF this] \<open>r\<close> obtain xs q where xs: "li_next it = hd_ptr xs None"
            "dseg (items h) l q xs None" "xs \<noteq> [] \<longrightarrow> l_tail lo = last_ptr None xs"
          by blast
        have "dseg (items h) l (Some a) xs None"
          using xs(2) it(5) xs(1) by (cases xs) (auto simp: node_def split: option.splits)
        then have "dseg (items h) l (li_prev it) (a # xs) None"
          using it xs(1) by (simp add: node_def)
        moreover have "l_tail lo = last_ptr None (a # xs)"
        proof (cases "xs = []")
          case True
          then show ?thesis using it(4) xs(1) by simp
        next
          case False
          then have "last_ptr (Some a) xs = last_ptr None xs" by (rule last_ptr_nonempty)
          with False xs(3) show ?thesis by simp
        qed
        ultimately show "\<exists>xs p. cur = hd_ptr xs None \<and> dseg (items h) l p xs None \<and>
              (xs \<noteq> [] \<longrightarrow> l_tail lo = last_ptr None xs)"
          using Some by (intro exI [of _ "a # xs"] exI [of _ "li_prev it"]) simp
      qed
    qed
  qed
  with assms(2) show ?thesis by blast
qed

lemma is_valid_sound:
  assumes v: "klib_list_is_valid h (Some l) = Some True"
    and lo: "lists h l = Some lo"
    and hd: "\<And>a it. l_head lo = Some a \<Longrightarrow> items h a = Some it \<Longrightarrow> li_prev it = None"
  shows "\<exists>xs. klist h l xs"
proof -
  from v lo have nn: "(l_head lo = None) = (l_tail lo = None)"
    and iv: "items_are_valid h l lo (l_head lo) = Some True"
    by (auto simp: klib_list_is_valid_def split: if_splits)
  from items_are_valid_chain [OF iv] obtain xs p where xs: "l_head lo = hd_ptr xs None"
      "dseg (items h) l p xs None" "xs \<noteq> [] \<longrightarrow> l_tail lo = last_ptr None xs"
    by blast
  have "dseg (items h) l None xs None"
    using xs(1,2) hd by (cases xs) (auto simp: node_def split: option.splits)
  moreover have "l_tail lo = last_ptr None xs"
    using xs nn by (cases xs) auto
  ultimately have "klist h l xs"
    using lo xs(1) dseg_distinct by (auto simp: klist_def)
  then show ?thesis by blast
qed

subsection \<open>The wait-queue interface\<close>

text \<open>
  The mutexes, semaphores, wait objects and the work queue use a list as a queue of waiters: they
  add at the tail, look at the head, and remove the head. \<open>drain\<close> is the loop that serves waiters
  until none is left.
\<close>

fun drain ::
  "('q \<Rightarrow> 'w option) \<Rightarrow> ('q \<Rightarrow> 'q option) \<Rightarrow> nat \<Rightarrow> 'q \<Rightarrow> ('w list \<times> 'q) option" where
  "drain frnt deq 0 q = Some ([], q)"
| "drain frnt deq (Suc n) q =
     (case frnt q of
        None \<Rightarrow> Some ([], q)
      | Some w \<Rightarrow> do { q' \<leftarrow> deq q; (ws, q'') \<leftarrow> drain frnt deq n q'; Some (w # ws, q'') })"

locale wait_queue =
  fixes enq :: "'q \<Rightarrow> 'w \<Rightarrow> 'q option"
    and frnt :: "'q \<Rightarrow> 'w option"
    and deq :: "'q \<Rightarrow> 'q option"
    and waiting :: "'q \<Rightarrow> 'w list \<Rightarrow> bool"
    and idle :: "'q \<Rightarrow> 'w \<Rightarrow> bool"
  assumes enq_law: "waiting q ws \<Longrightarrow> idle q w \<Longrightarrow> \<exists>q'. enq q w = Some q' \<and> waiting q' (ws @ [w])"
    and front_empty: "waiting q [] \<Longrightarrow> frnt q = None"
    and front_law: "waiting q (w # ws) \<Longrightarrow> frnt q = Some w"
    and deq_law: "waiting q (w # ws) \<Longrightarrow> \<exists>q'. deq q = Some q' \<and> waiting q' ws \<and> idle q' w"
begin

lemma drain_fifo:
  "waiting q ws \<Longrightarrow> length ws \<le> n \<Longrightarrow> \<exists>q'. drain frnt deq n q = Some (ws, q') \<and> waiting q' []"
proof (induction n arbitrary: q ws)
  case 0
  then show ?case by simp
next
  case (Suc n)
  show ?case
  proof (cases ws)
    case Nil
    with Suc.prems show ?thesis by (auto simp: front_empty)
  next
    case (Cons w ws')
    from Suc.prems(1) Cons obtain q' where q': "deq q = Some q'" "waiting q' ws'"
      by (auto dest: deq_law)
    with Suc.IH [OF q'(2)] Suc.prems(2) Cons obtain q'' where "drain frnt deq n q' = Some (ws', q'')"
        "waiting q'' []" by auto
    with q'(1) Cons front_law [of q w ws'] Suc.prems(1) show ?thesis by auto
  qed
qed

lemma enq_then_drain:
  assumes "waiting q ws" and "idle q w"
  shows "\<exists>q' q''. enq q w = Some q' \<and> drain frnt deq (Suc (length ws)) q' = Some (ws @ [w], q'')"
proof -
  from enq_law [OF assms] obtain q' where q': "enq q w = Some q'" "waiting q' (ws @ [w])" by blast
  from drain_fifo [OF q'(2), of "Suc (length ws)"] obtain q'' where
    "drain frnt deq (Suc (length ws)) q' = Some (ws @ [w], q'')" by auto
  with q'(1) show ?thesis by blast
qed

end

definition list_front :: "addr \<Rightarrow> 'a list_store \<Rightarrow> addr option" where
  "list_front l h = get_list h (Some l) \<bind> l_head"

definition list_deq :: "addr \<Rightarrow> 'a list_store \<Rightarrow> 'a list_store option" where
  "list_deq l h = klib_list_remove h (list_front l h)"

lemma list_front_klist: "klist h l xs \<Longrightarrow> list_front l h = hd_ptr xs None"
  by (simp add: list_front_def get_list_def klist_def)

interpretation klq: wait_queue
  "\<lambda>h a. klib_list_add_tail h (Some l) (Some a)" "list_front l" "list_deq l" "\<lambda>h. klist h l" unlinked
  for l
proof
  show "\<exists>q'. klib_list_add_tail q (Some l) (Some w) = Some q' \<and> klist q' l (ws @ [w])"
    if "klist q l ws" "unlinked q w" for q :: "'a list_store" and w ws
    using add_tail_refines [OF that] by blast
  show "list_front l q = None" if "klist q l []" for q :: "'a list_store"
    using list_front_klist [OF that] by simp
  show "list_front l q = Some w" if "klist q l (w # ws)" for q :: "'a list_store" and w ws
    using list_front_klist [OF that] by simp
  show "\<exists>q'. list_deq l q = Some q' \<and> klist q' l ws \<and> unlinked q' w"
    if "klist q l (w # ws)" for q :: "'a list_store" and w ws
    using remove_refines [of q l "[]" w ws] that list_front_klist [OF that]
    by (auto simp: list_deq_def)
qed

subsection \<open>Properties\<close>

text \<open>
  Linking an unlinked item never panics, and each of the four insertions puts it where its
  name says: at the head, at the tail, after or before a member. All other lists keep their items.
\<close>

theorem list_insert_correct:
  assumes k: "klist h l (ys @ p # zs)" and u: "unlinked h a"
  shows "\<exists>h1 h2 h3 h4.
     klib_list_add_head h (Some l) (Some a) = Some h1 \<and> klist h1 l (a # ys @ p # zs) \<and>
     klib_list_add_tail h (Some l) (Some a) = Some h2 \<and> klist h2 l (ys @ p # zs @ [a]) \<and>
     klib_list_add_after h (Some p) (Some a) = Some h3 \<and> klist h3 l (ys @ p # a # zs) \<and>
     klib_list_add_before h (Some p) (Some a) = Some h4 \<and> klist h4 l (ys @ a # p # zs) \<and>
     (\<forall>l' xs. l' \<noteq> l \<and> klist h l' xs \<longrightarrow>
        klist h1 l' xs \<and> klist h2 l' xs \<and> klist h3 l' xs \<and> klist h4 l' xs)"
proof -
  note ok = others_kept_klist [OF _ k _ u]
  from add_head_refines [OF k u] obtain h1 where h1: "klib_list_add_head h (Some l) (Some a) = Some h1"
    "klist h1 l (a # ys @ p # zs)" "others_kept h h1 l (insert a (set (ys @ p # zs)))" by auto
  from add_tail_refines [OF k u] obtain h2 where h2: "klib_list_add_tail h (Some l) (Some a) = Some h2"
    "klist h2 l (ys @ p # zs @ [a])" "others_kept h h2 l (insert a (set (ys @ p # zs)))" by auto
  from add_after_refines [OF k u] obtain h3 where h3: "klib_list_add_after h (Some p) (Some a) = Some h3"
    "klist h3 l (ys @ p # a # zs)" "others_kept h h3 l (insert a (set (ys @ p # zs)))" by auto
  from add_before_refines [OF k u] obtain h4 where h4: "klib_list_add_before h (Some p) (Some a) = Some h4"
    "klist h4 l (ys @ a # p # zs)" "others_kept h h4 l (insert a (set (ys @ p # zs)))" by auto
  show ?thesis
    using h1 h2 h3 h4 ok [OF h1(3)] ok [OF h2(3)] ok [OF h3(3)] ok [OF h4(3)] by blast
qed

text \<open>A store with one list (root 10) that holds item 1, and an unlinked item 2.\<close>

definition sample_store :: "nat list_store" where
  "sample_store =
     \<lparr>items = [1 \<mapsto> \<lparr>li_prev = None, li_item = Some 100, li_list_obj = Some 10, li_next = None\<rparr>,
               2 \<mapsto> \<lparr>li_prev = None, li_item = Some 200, li_list_obj = None, li_next = None\<rparr>],
      lists = [10 \<mapsto> \<lparr>l_head = Some 1, l_tail = Some 1\<rparr>]\<rparr>"

lemma sample_store_wf: "klist sample_store 10 ([] @ 1 # [])" "unlinked sample_store 2"
  by (simp_all add: sample_store_def klist_def unlinked_def node_def)

theorem list_insert_correct_witness:
  "\<exists>h3. klib_list_add_after sample_store (Some 1) (Some 2) = Some h3 \<and> klist h3 10 [1, 2]"
  using list_insert_correct [OF sample_store_wf] by auto

text \<open>
  C37. Removing a member takes exactly that item out of the sequence, leaves it unlinked so that it
  can be inserted again, and leaves every other list alone. None of the assertions in the code
  fails.
\<close>

theorem list_remove_correct:
  assumes k: "klist h l (ys @ a # zs)"
  shows "\<exists>h'. klib_list_remove h (Some a) = Some h' \<and> klist h' l (ys @ zs) \<and> unlinked h' a \<and>
     (\<forall>l' xs. l' \<noteq> l \<and> klist h l' xs \<longrightarrow> klist h' l' xs)"
proof -
  from remove_refines [OF k] obtain h' where h': "klib_list_remove h (Some a) = Some h'"
      "klist h' l (ys @ zs)" "unlinked h' a" "others_kept h h' l (set (ys @ a # zs))"
    by blast
  have "klist h' l' xs" if "l' \<noteq> l" "klist h l' xs" for l' xs
  proof (rule klist_frame [OF that(2)])
    show "lists h' l' = lists h l'" using h'(4) that(1) by (simp add: others_kept_def)
    show "items h' b = items h b" if "b \<in> set xs" for b
      using h'(4) klist_disjoint [OF k \<open>klist h l' xs\<close>] \<open>l' \<noteq> l\<close> that
      by (auto simp: others_kept_def)
  qed
  with h' show ?thesis by blast
qed

theorem list_remove_correct_witness:
  "\<exists>h'. klib_list_remove sample_store (Some 1) = Some h' \<and> klist h' 10 [] \<and> unlinked h' 1"
  using list_remove_correct [OF sample_store_wf(1)] by auto

text \<open>
  A list used as a wait queue is first-in first-out: after a waiter joins, serving from the head
  until the list is empty yields the earlier waiters in order and then the new one.
\<close>

theorem klib_list_fifo:
  assumes "klist h l ws" and "unlinked h w"
  shows "\<exists>h' h''. klib_list_add_tail h (Some l) (Some w) = Some h' \<and>
           drain (list_front l) (list_deq l) (Suc (length ws)) h' = Some (ws @ [w], h'')"
  by (rule klq.enq_then_drain [OF assms])

theorem klib_list_fifo_witness:
  "\<exists>h' h''. klib_list_add_tail sample_store (Some 10) (Some 2) = Some h' \<and>
     drain (list_front 10) (list_deq 10) 2 h' = Some ([1, 2], h'')"
  using klib_list_fifo [OF sample_store_wf] by (simp add: numeral_2_eq_2)

text \<open>
  \<open>klib_list_is_valid\<close> returns true on every well-formed list, and a list it accepts whose
  first item has no predecessor is well-formed; but it also accepts a list whose first item still
  points back at an item outside the list, which its description rules out.
\<close>

theorem klib_list_is_valid_characterised:
  "(\<forall>xs. klist h l xs \<longrightarrow> klib_list_is_valid h (Some l) = Some True) \<and>
   (\<forall>lo. klib_list_is_valid h (Some l) = Some True \<and> lists h l = Some lo \<and>
        (\<forall>a it. l_head lo = Some a \<and> items h a = Some it \<longrightarrow> li_prev it = None) \<longrightarrow>
        (\<exists>xs. klist h l xs)) \<and>
   (\<exists>g :: nat list_store. klib_list_is_valid g (Some 10) = Some True \<and> \<not> (\<exists>xs. klist g 10 xs))"
proof (intro conjI allI impI)
  show "klib_list_is_valid h (Some l) = Some True" if "klist h l xs" for xs
    using that by (rule is_valid_complete)
  show "\<exists>xs. klist h l xs"
    if "klib_list_is_valid h (Some l) = Some True \<and> lists h l = Some lo \<and>
        (\<forall>a it. l_head lo = Some a \<and> items h a = Some it \<longrightarrow> li_prev it = None)" for lo
    using that is_valid_sound by blast
  let ?g = "\<lparr>items = [1 \<mapsto> \<lparr>li_prev = Some 2, li_item = Some 100, li_list_obj = Some 10, li_next = None\<rparr>,
               2 \<mapsto> \<lparr>li_prev = None, li_item = Some 200, li_list_obj = None, li_next = Some 1\<rparr>],
      lists = [10 \<mapsto> \<lparr>l_head = Some 1, l_tail = Some 1\<rparr>]\<rparr> :: nat list_store"
  have "klib_list_is_valid ?g (Some 10) = Some True"
    by (simp add: klib_list_is_valid_def items_are_valid.simps item_is_valid_def)
  moreover have "\<not> klist ?g 10 xs" for xs
    by (cases xs) (auto simp: klist_def node_def)
  ultimately show "\<exists>g :: nat list_store. klib_list_is_valid g (Some 10) = Some True \<and>
      \<not> (\<exists>xs. klist g 10 xs)" by blast
qed

theorem klib_list_is_valid_characterised_witness:
  "klib_list_is_valid sample_store (Some 10) = Some True"
  using klib_list_is_valid_characterised [of sample_store 10] sample_store_wf(1) by auto

end
