(* ===== verification/Phys_Mem.thy ===== *)
theory Phys_Mem
  imports Azalea_Prelude
begin

text \<open>
  The physical page allocator: \<open>kernel/mem/physical.cpp\<close>, and \<open>mem_gen_phys_pages_bitmap\<close> of
  \<open>kernel/mem/x64/mem-x64.cpp\<close>, which fills its bitmap from the boot loader's E820 table. The
  state has the two bitmaps of the code (a set bit in the allocation bitmap is a free page, page
  \<open>n\<close> is bit \<open>63 - n mod 64\<close> of word \<open>n div 64\<close>) and the free page counter.
  The spinlock \<open>bitmap_lock\<close> makes each operation atomic and is left out.
\<close>

subsection \<open>Constants and state\<close>

definition MEM_MAX_SUPPORTED_PAGES :: nat where
  "MEM_MAX_SUPPORTED_PAGES = 2048"

definition MEM_NUM_KERNEL_PAGES :: nat where
  "MEM_NUM_KERNEL_PAGES = 2"

definition SIZE_OF_PAGE :: u64 where
  "SIZE_OF_PAGE = 2097152"

definition BITMAP_SIZE :: nat where
  "BITMAP_SIZE = MEM_MAX_SUPPORTED_PAGES div 64"

record phys_state =
  phys_pages_alloc_bitmap :: "u64 list"
  phys_pages_exist_bitmap :: "u64 list"
  free_pages :: u64

record e820_record =
  e_size :: u32
  e_start_addr :: u64
  e_length :: u64
  e_memory_type :: u32

subsection \<open>Bits of the bitmap\<close>

definition page_index :: "u64 \<Rightarrow> nat" where
  "page_index page_addr = unat (page_addr div SIZE_OF_PAGE)"

definition page_mask :: "nat \<Rightarrow> u64" where
  "page_mask bitmap_idx = drop_bit bitmap_idx 0x8000000000000000"

definition mem_set_bitmap_page_bit :: "u64 \<Rightarrow> bool \<Rightarrow> phys_state \<Rightarrow> phys_state option" where
  "mem_set_bitmap_page_bit page_addr ignore_checks s = do {
     ASSERT (page_index page_addr < MEM_MAX_SUPPORTED_PAGES);
     let bitmap_idx = page_index page_addr mod 64;
     let bitmap_qword = page_index page_addr div 64;
     let mask = page_mask bitmap_idx;
     ASSERT (mask \<noteq> 0);
     ASSERT (bitmap_qword < BITMAP_SIZE);
     ASSERT (ignore_checks \<or> phys_pages_exist_bitmap s ! bitmap_qword AND mask \<noteq> 0);
     let s = s\<lparr>phys_pages_alloc_bitmap := (phys_pages_alloc_bitmap s)
                 [bitmap_qword := (phys_pages_alloc_bitmap s ! bitmap_qword) OR mask]\<rparr>;
     ASSERT (phys_pages_alloc_bitmap s ! bitmap_qword \<noteq> 0);
     Some s
   }"

definition mem_clear_bitmap_page_bit :: "u64 \<Rightarrow> bool \<Rightarrow> phys_state \<Rightarrow> phys_state option" where
  "mem_clear_bitmap_page_bit page_addr ignore_checks s = do {
     ASSERT (page_index page_addr < MEM_MAX_SUPPORTED_PAGES);
     let bitmap_idx = page_index page_addr mod 64;
     let bitmap_qword = page_index page_addr div 64;
     let mask = page_mask bitmap_idx;
     ASSERT (mask \<noteq> 0);
     ASSERT (bitmap_qword < BITMAP_SIZE);
     ASSERT (ignore_checks \<or> phys_pages_exist_bitmap s ! bitmap_qword AND mask \<noteq> 0);
     Some (s\<lparr>phys_pages_alloc_bitmap := (phys_pages_alloc_bitmap s)
               [bitmap_qword := (phys_pages_alloc_bitmap s ! bitmap_qword) AND NOT mask]\<rparr>)
   }"

definition mem_is_bitmap_page_bit_set :: "u64 \<Rightarrow> phys_state \<Rightarrow> bool option" where
  "mem_is_bitmap_page_bit_set page_addr s = do {
     ASSERT (page_index page_addr < MEM_MAX_SUPPORTED_PAGES);
     let bitmap_idx = page_index page_addr mod 64;
     let bitmap_qword = page_index page_addr div 64;
     let mask = page_mask bitmap_idx;
     ASSERT (mask \<noteq> 0);
     ASSERT (bitmap_qword < BITMAP_SIZE);
     Some (phys_pages_alloc_bitmap s ! bitmap_qword AND mask \<noteq> 0)
   }"

subsection \<open>Allocation and deallocation\<close>

text \<open>
  The two nested loops of \<open>mem_allocate_physical_pages\<close>: over the 64 masks of a word, from the
  top bit down, and over the words. The search returns the word and bit index of the first page
  that is free.
\<close>

fun find_bit :: "u64 \<Rightarrow> nat \<Rightarrow> nat \<Rightarrow> nat option" where
  "find_bit w j 0 = None"
| "find_bit w j (Suc n) = (if w AND page_mask j \<noteq> 0 then Some j else find_bit w (Suc j) n)"

fun find_page :: "u64 list \<Rightarrow> nat \<Rightarrow> (nat \<times> nat) option" where
  "find_page [] i = None"
| "find_page (w # ws) i =
     (case find_bit w 0 64 of Some j \<Rightarrow> Some (i, j) | None \<Rightarrow> find_page ws (Suc i))"

definition mem_allocate_physical_pages :: "u32 \<Rightarrow> phys_state \<Rightarrow> (u64 \<times> phys_state) option" where
  "mem_allocate_physical_pages num_pages s = do {
     ASSERT (num_pages = 1);
     ASSERT (free_pages s > 0);
     (i, j) \<leftarrow> find_page (take (MEM_MAX_SUPPORTED_PAGES div 64) (phys_pages_alloc_bitmap s)) 0;
     let mask = page_mask j;
     let addr = SIZE_OF_PAGE * (64 * of_nat i + of_nat j);
     ASSERT (phys_pages_exist_bitmap s ! i AND mask \<noteq> 0);
     let s = s\<lparr>phys_pages_alloc_bitmap := (phys_pages_alloc_bitmap s)
                 [i := (phys_pages_alloc_bitmap s ! i) AND NOT mask]\<rparr>;
     let s = s\<lparr>free_pages := free_pages s - 1\<rparr>;
     Some (addr, s)
   }"

definition mem_deallocate_physical_pages :: "u64 \<Rightarrow> u32 \<Rightarrow> phys_state \<Rightarrow> phys_state option" where
  "mem_deallocate_physical_pages start num_pages s = do {
     ASSERT (num_pages = 1);
     ASSERT (start mod SIZE_OF_PAGE = 0);
     is_free \<leftarrow> mem_is_bitmap_page_bit_set start s;
     ASSERT (\<not> is_free);
     s \<leftarrow> mem_set_bitmap_page_bit start False s;
     Some (s\<lparr>free_pages := free_pages s + 1\<rparr>)
   }"

subsection \<open>Initialisation from the E820 table\<close>

text \<open>The loop that marks \<open>number_of_pages\<close> pages from \<open>start_addr\<close> on, page zero excepted.\<close>

fun set_pages :: "nat \<Rightarrow> u64 \<Rightarrow> phys_state \<Rightarrow> phys_state option" where
  "set_pages 0 start_addr s = Some s"
| "set_pages (Suc n) start_addr s = do {
     s \<leftarrow> (if start_addr \<noteq> 0 then mem_set_bitmap_page_bit start_addr True s else Some s);
     set_pages n (start_addr + MEM_PAGE_SIZE) s
   }"

definition e820_first_page :: "e820_record \<Rightarrow> u64" where
  "e820_first_page r =
     (let start_addr = e_start_addr r
      in if start_addr mod MEM_PAGE_SIZE \<noteq> 0
         then start_addr + MEM_PAGE_SIZE - start_addr mod MEM_PAGE_SIZE else start_addr)"

definition e820_end_addr :: "e820_record \<Rightarrow> u64" where
  "e820_end_addr r =
     (let end_addr = e_start_addr r + e_length r
      in if end_addr mod MEM_PAGE_SIZE \<noteq> 0 then end_addr - end_addr mod MEM_PAGE_SIZE else end_addr)"

definition e820_use_record :: "e820_record \<Rightarrow> phys_state \<Rightarrow> phys_state option" where
  "e820_use_record r s =
     (if e_memory_type r = 1 then
        (let start_addr = e820_first_page r; end_addr = e820_end_addr r
         in if end_addr > start_addr then do {
              let number_of_pages = unat ((end_addr - start_addr) div MEM_PAGE_SIZE);
              ASSERT (number_of_pages \<noteq> 0);
              set_pages number_of_pages start_addr s
            } else Some s)
      else Some s)"

text \<open>
  The table ends at an all-zero record or after \<open>table_length\<close> bytes. The table is given as the
  list of its records, at least as many as \<open>table_length\<close> covers plus the one read by the loop
  condition.
\<close>

fun e820_loop :: "e820_record list \<Rightarrow> u64 \<Rightarrow> u64 \<Rightarrow> phys_state \<Rightarrow> phys_state option" where
  "e820_loop [] bytes_read table_length s = Some s"
| "e820_loop (r # rs) bytes_read table_length s =
     (if (e_start_addr r \<noteq> 0 \<or> e_length r \<noteq> 0 \<or> e_memory_type r \<noteq> 0) \<and> bytes_read < table_length
      then do { s \<leftarrow> e820_use_record r s; e820_loop rs (bytes_read + 24) table_length s }
      else Some s)"

definition mem_gen_phys_pages_bitmap ::
  "e820_record list \<Rightarrow> u64 \<Rightarrow> phys_state \<Rightarrow> phys_state option" where
  "mem_gen_phys_pages_bitmap table table_length s = do {
     ASSERT (table_length \<ge> 24);
     e820_loop table 0 table_length
       (s\<lparr>phys_pages_alloc_bitmap := replicate BITMAP_SIZE 0\<rparr>)
   }"

fun clear_kernel_pages :: "nat \<Rightarrow> nat \<Rightarrow> phys_state \<Rightarrow> phys_state option" where
  "clear_kernel_pages i 0 s = Some s"
| "clear_kernel_pages i (Suc n) s = do {
     s \<leftarrow> mem_clear_bitmap_page_bit (of_nat i * MEM_PAGE_SIZE) True s;
     clear_kernel_pages (Suc i) n s
   }"

text \<open>The counting loop tests each of the 64 bits of a word from bit 0 up.\<close>

definition count_bits :: "u64 \<Rightarrow> u64" where
  "count_bits w = fold (\<lambda>j c. if w AND push_bit j 1 \<noteq> 0 then c + 1 else c) [0..<64] 0"

fun count_free :: "u64 list \<Rightarrow> u64 \<Rightarrow> u64" where
  "count_free [] c = c"
| "count_free (w # ws) c = count_free ws (c + count_bits w)"

definition mem_init_gen_phys_sys ::
  "e820_record list \<Rightarrow> u64 \<Rightarrow> phys_state \<Rightarrow> phys_state option" where
  "mem_init_gen_phys_sys table table_length s = do {
     s \<leftarrow> mem_gen_phys_pages_bitmap table table_length s;
     s \<leftarrow> clear_kernel_pages 0 MEM_NUM_KERNEL_PAGES s;
     let s = s\<lparr>phys_pages_exist_bitmap := phys_pages_alloc_bitmap s\<rparr>;
     let s = s\<lparr>free_pages := count_free (phys_pages_alloc_bitmap s) (free_pages s)\<rparr>;
     ASSERT (free_pages s > 0);
     Some s
   }"

subsection \<open>The set of pages a bitmap stands for\<close>

definition page_bit :: "u64 list \<Rightarrow> nat \<Rightarrow> bool" where
  "page_bit ws n \<longleftrightarrow> bit (ws ! (n div 64)) (63 - n mod 64)"

definition pages_of :: "u64 list \<Rightarrow> nat set" where
  "pages_of ws = {n. n < 64 * length ws \<and> page_bit ws n}"

definition free_set :: "phys_state \<Rightarrow> nat set" where
  "free_set s = pages_of (phys_pages_alloc_bitmap s)"

definition exist_set :: "phys_state \<Rightarrow> nat set" where
  "exist_set s = pages_of (phys_pages_exist_bitmap s)"

definition page_addr :: "nat \<Rightarrow> u64" where
  "page_addr n = SIZE_OF_PAGE * of_nat n"

definition phys_wf :: "phys_state \<Rightarrow> bool" where
  "phys_wf s \<longleftrightarrow> length (phys_pages_alloc_bitmap s) = BITMAP_SIZE \<and>
     length (phys_pages_exist_bitmap s) = BITMAP_SIZE \<and>
     free_set s \<subseteq> exist_set s \<and> unat (free_pages s) = card (free_set s)"

lemmas phys_consts = MEM_MAX_SUPPORTED_PAGES_def MEM_NUM_KERNEL_PAGES_def BITMAP_SIZE_def

lemma drop_bit_exp_u64: "j \<le> m \<Longrightarrow> m < 64 \<Longrightarrow> drop_bit j (2 ^ m :: u64) = 2 ^ (m - j)"
  by (rule bit_eqI) (auto simp: bit_drop_bit_eq bit_exp_iff)

lemma page_mask_exp: "j < 64 \<Longrightarrow> page_mask j = 2 ^ (63 - j)"
  using drop_bit_exp_u64 [of j 63] by (simp add: page_mask_def)

lemma page_mask_nonzero [simp]: "j < 64 \<Longrightarrow> page_mask j \<noteq> 0"
  by (simp add: page_mask_exp)

lemma and_page_mask: "j < 64 \<Longrightarrow> w AND page_mask j = 0 \<longleftrightarrow> \<not> bit w (63 - j)"
  by (simp add: page_mask_exp and_exp_eq_0_iff_not_bit)

lemma bit_or_page_mask:
  "j < 64 \<Longrightarrow> bit (w OR page_mask j) k \<longleftrightarrow> bit w k \<or> k = 63 - j"
  by (auto simp: page_mask_exp bit_or_iff bit_exp_iff)

lemma bit_and_not_page_mask:
  "j < 64 \<Longrightarrow> bit (w AND NOT (page_mask j)) k \<longleftrightarrow> bit w k \<and> k \<noteq> 63 - j"
  by (auto simp: page_mask_exp bit_and_iff bit_not_iff bit_exp_iff dest: bit_imp_le_length)

lemma same_page_iff:
  fixes n m :: nat
  shows "n div 64 = m div 64 \<Longrightarrow> 63 - n mod 64 = 63 - m mod 64 \<Longrightarrow> n = m"
proof -
  assume "n div 64 = m div 64" and "63 - n mod 64 = 63 - m mod 64"
  moreover have "n mod 64 < 64" "m mod 64 < 64" by simp_all
  ultimately have "n mod 64 = m mod 64" by linarith
  with \<open>n div 64 = m div 64\<close> show "n = m" by (metis div_mult_mod_eq)
qed

lemma page_bit_set:
  assumes "n < 64 * length ws"
  shows "page_bit (ws[n div 64 := ws ! (n div 64) OR page_mask (n mod 64)]) m \<longleftrightarrow> page_bit ws m \<or> m = n"
proof (cases "m div 64 = n div 64")
  case True
  moreover have "n div 64 < length ws" using assms by (simp add: less_mult_imp_div_less mult.commute)
  ultimately show ?thesis
    using same_page_iff [of m n] by (auto simp: page_bit_def bit_or_page_mask)
next
  case False
  then show ?thesis by (auto simp: page_bit_def)
qed

lemma page_bit_clear:
  assumes "n < 64 * length ws"
  shows "page_bit (ws[n div 64 := (ws ! (n div 64)) AND NOT (page_mask (n mod 64))]) m \<longleftrightarrow> page_bit ws m \<and> m \<noteq> n"
proof (cases "m div 64 = n div 64")
  case True
  moreover have "n div 64 < length ws" using assms by (simp add: less_mult_imp_div_less mult.commute)
  ultimately show ?thesis
    using same_page_iff [of m n] by (auto simp: page_bit_def bit_and_not_page_mask)
next
  case False
  then show ?thesis by (auto simp: page_bit_def)
qed

lemma pages_of_set:
  "n < 64 * length ws \<Longrightarrow>
   pages_of (ws[n div 64 := ws ! (n div 64) OR page_mask (n mod 64)]) = insert n (pages_of ws)"
  by (auto simp: pages_of_def page_bit_set)

lemma pages_of_clear:
  "n < 64 * length ws \<Longrightarrow>
   pages_of (ws[n div 64 := (ws ! (n div 64)) AND NOT (page_mask (n mod 64))]) = pages_of ws - {n}"
  by (auto simp: pages_of_def page_bit_clear)

lemma finite_pages_of [simp]: "finite (pages_of ws)"
  by (simp add: pages_of_def)

lemma page_bit_mask: "n < 64 * length ws \<Longrightarrow> ws ! (n div 64) AND page_mask (n mod 64) \<noteq> 0 \<longleftrightarrow> n \<in> pages_of ws"
  by (simp add: and_page_mask pages_of_def page_bit_def)

lemma unat_page_addr: "n < MEM_MAX_SUPPORTED_PAGES \<Longrightarrow> unat (page_addr n) = 2 ^ 21 * n"
  by (simp add: page_addr_def SIZE_OF_PAGE_def phys_consts unat_word_ariths unat_of_nat)

lemma page_index_addr [simp]: "n < MEM_MAX_SUPPORTED_PAGES \<Longrightarrow> page_index (page_addr n) = n"
  by (simp add: page_index_def unat_div_distrib unat_page_addr) (simp add: SIZE_OF_PAGE_def)

lemma page_addr_aligned [simp]: "n < MEM_MAX_SUPPORTED_PAGES \<Longrightarrow> page_addr n mod SIZE_OF_PAGE = 0"
  by (simp add: word_unat_eq_iff unat_mod_distrib unat_page_addr) (simp add: SIZE_OF_PAGE_def)

subsection \<open>Searching and counting\<close>

lemma find_bit_Some:
  "find_bit w j n = Some k \<Longrightarrow> j + n \<le> 64 \<Longrightarrow>
     j \<le> k \<and> k < j + n \<and> bit w (63 - k) \<and> (\<forall>i. j \<le> i \<and> i < k \<longrightarrow> \<not> bit w (63 - i))"
proof (induction n arbitrary: j)
  case (Suc n)
  show ?case
  proof (cases "w AND page_mask j \<noteq> 0")
    case True
    with Suc.prems show ?thesis by (auto simp: and_page_mask)
  next
    case False
    with Suc.IH [of "Suc j"] Suc.prems show ?thesis
      by (auto simp: and_page_mask) (metis Suc_leI le_neq_implies_less)
  qed
qed simp

lemma find_bit_None:
  "find_bit w j n = None \<Longrightarrow> j + n \<le> 64 \<Longrightarrow> j \<le> k \<Longrightarrow> k < j + n \<Longrightarrow> \<not> bit w (63 - k)"
proof (induction n arbitrary: j)
  case (Suc n)
  show ?case
  proof (cases "k = j")
    case True
    with Suc.prems show ?thesis by (auto simp: and_page_mask split: if_splits)
  next
    case False
    with Suc show ?thesis by (auto split: if_splits)
  qed
qed simp

lemma page_bit_Cons: "page_bit (w # ws) n \<longleftrightarrow> (if n < 64 then bit w (63 - n) else page_bit ws (n - 64))"
  by (auto simp: page_bit_def le_div_geq le_mod_geq)

lemma pages_of_Cons:
  "pages_of (w # ws) = {n. n < 64 \<and> bit w (63 - n)} \<union> (\<lambda>n. n + 64) ` pages_of ws"
proof (rule set_eqI)
  fix x
  show "x \<in> pages_of (w # ws) \<longleftrightarrow> x \<in> {n. n < 64 \<and> bit w (63 - n)} \<union> (\<lambda>n. n + 64) ` pages_of ws"
  proof (cases "x < 64")
    case True
    then show ?thesis by (auto simp: pages_of_def page_bit_Cons)
  next
    case False
    then have "x = x - 64 + 64" by simp
    then have "x \<in> (\<lambda>n. n + 64) ` pages_of ws \<longleftrightarrow> x - 64 \<in> pages_of ws" by (auto simp: image_iff)
    with False show ?thesis by (auto simp: pages_of_def page_bit_Cons)
  qed
qed

lemma find_page_Some:
  "find_page ws i = Some (k, j) \<Longrightarrow>
     i \<le> k \<and> k < i + length ws \<and> j < 64 \<and> 64 * (k - i) + j \<in> pages_of ws \<and>
     (\<forall>n \<in> pages_of ws. 64 * (k - i) + j \<le> n)"
proof (induction ws arbitrary: i)
  case (Cons w ws)
  show ?case
  proof (cases "find_bit w 0 64")
    case None
    with Cons.prems have "find_page ws (Suc i) = Some (k, j)" by simp
    from Cons.IH [OF this] have IH: "Suc i \<le> k" "k < Suc i + length ws" "j < 64"
      "64 * (k - Suc i) + j \<in> pages_of ws" "\<forall>n\<in>pages_of ws. 64 * (k - Suc i) + j \<le> n"
      by auto
    have e: "64 * (k - i) + j = 64 * (k - Suc i) + j + 64" using IH(1) by simp
    have "{n. n < 64 \<and> bit w (63 - n)} = {}" using find_bit_None [OF None] by auto
    with IH e show ?thesis by (auto simp: pages_of_Cons)
  next
    case (Some a)
    with Cons.prems have kj: "k = i" "j = a" by simp_all
    have "a < 64" "bit w (63 - a)" "\<forall>i<a. \<not> bit w (63 - i)"
      using find_bit_Some [OF Some] by auto
    with kj show ?thesis by (auto simp: pages_of_Cons not_less [symmetric])
  qed
qed simp

lemma find_page_None: "find_page ws i = None \<Longrightarrow> pages_of ws = {}"
proof (induction ws arbitrary: i)
  case Nil
  then show ?case by (simp add: pages_of_def)
next
  case (Cons w ws)
  then have "find_bit w 0 64 = None" "pages_of ws = {}" by (auto split: option.splits)
  then show ?case using find_bit_None by (auto simp: pages_of_Cons)
qed

lemma count_bits_card: "count_bits w = of_nat (card {j. j < 64 \<and> bit w j})"
proof -
  have "fold (\<lambda>j c. if w AND push_bit j 1 \<noteq> 0 then c + 1 else c) [0..<n] 0 =
          (of_nat (card {j. j < n \<and> bit w j}) :: u64)" for n
  proof (induction n)
    case (Suc n)
    have "{j. j < Suc n \<and> bit w j} = (if bit w n then insert n {j. j < n \<and> bit w j} else {j. j < n \<and> bit w j})"
      by (auto simp: less_Suc_eq)
    then show ?case
      using Suc by (simp add: push_bit_eq_mult and_exp_eq_0_iff_not_bit)
  qed simp
  then show ?thesis by (simp add: count_bits_def)
qed

lemma card_rev_bits: "card {n. n < 64 \<and> bit w (63 - n)} = card {j. j < 64 \<and> bit (w :: u64) j}"
proof (rule bij_betw_same_card [of "\<lambda>n. 63 - n"])
  show "bij_betw (\<lambda>n. 63 - n) {n. n < 64 \<and> bit w (63 - n)} {j. j < 64 \<and> bit w j}"
    by (rule bij_betw_byWitness [of _ "\<lambda>n. 63 - n"]) auto
qed

lemma count_free_card: "count_free ws c = c + of_nat (card (pages_of ws))"
proof (induction ws arbitrary: c)
  case Nil
  then show ?case by (simp add: pages_of_def)
next
  case (Cons w ws)
  have "card (pages_of (w # ws)) =
          card {n. n < 64 \<and> bit w (63 - n)} + card ((\<lambda>n. n + 64) ` pages_of ws)"
    unfolding pages_of_Cons by (rule card_Un_disjoint) auto
  also have "card ((\<lambda>n. n + 64) ` pages_of ws) = card (pages_of ws)"
    by (rule card_image) simp
  finally show ?case
    by (simp add: Cons.IH count_bits_card card_rev_bits)
qed

lemma card_pages_of_le: "card (pages_of ws) \<le> 64 * length ws"
  using card_mono [of "{..<64 * length ws}" "pages_of ws"] by (auto simp: pages_of_def)

subsection \<open>What each operation does to the set of free pages\<close>

lemma page_index_less: "page_index a < MEM_MAX_SUPPORTED_PAGES \<Longrightarrow> page_index a div 64 < BITMAP_SIZE"
  by (simp add: phys_consts less_mult_imp_div_less)

lemma mem_set_free_set:
  assumes "page_index a < MEM_MAX_SUPPORTED_PAGES" "length (phys_pages_alloc_bitmap s) = BITMAP_SIZE"
    and "ignore_checks \<or> page_index a \<in> exist_set s" "length (phys_pages_exist_bitmap s) = BITMAP_SIZE"
  obtains ws where
    "mem_set_bitmap_page_bit a ignore_checks s = Some (s\<lparr>phys_pages_alloc_bitmap := ws\<rparr>)"
    "length ws = BITMAP_SIZE" "pages_of ws = insert (page_index a) (free_set s)"
proof -
  let ?n = "page_index a" and ?ws = "phys_pages_alloc_bitmap s"
  let ?ws' = "?ws[?n div 64 := ?ws ! (?n div 64) OR page_mask (?n mod 64)]"
  have n: "?n < 64 * length ?ws" "?n < 64 * length (phys_pages_exist_bitmap s)"
    using assms by (simp_all add: phys_consts)
  have p: "pages_of ?ws' = insert ?n (free_set s)"
    using n by (simp add: pages_of_set free_set_def)
  then have "?ws' ! (?n div 64) AND page_mask (?n mod 64) \<noteq> 0"
    using page_bit_mask [of ?n ?ws'] n by simp
  then have "?ws' ! (?n div 64) \<noteq> 0" by auto
  then show thesis
    using that [of ?ws'] p assms page_index_less [of a] page_bit_mask [OF n(2)]
    by (simp add: mem_set_bitmap_page_bit_def Let_def assert_simps exist_set_def)
qed

lemma mem_clear_free_set:
  assumes "page_index a < MEM_MAX_SUPPORTED_PAGES" "length (phys_pages_alloc_bitmap s) = BITMAP_SIZE"
  obtains ws where
    "mem_clear_bitmap_page_bit a True s = Some (s\<lparr>phys_pages_alloc_bitmap := ws\<rparr>)"
    "length ws = BITMAP_SIZE" "pages_of ws = free_set s - {page_index a}"
proof -
  let ?n = "page_index a" and ?ws = "phys_pages_alloc_bitmap s"
  let ?ws' = "?ws[?n div 64 := (?ws ! (?n div 64)) AND NOT (page_mask (?n mod 64))]"
  have n: "?n < 64 * length ?ws" using assms by (simp add: phys_consts)
  then have "pages_of ?ws' = free_set s - {?n}" by (simp add: pages_of_clear free_set_def)
  then show thesis
    using that [of ?ws'] assms page_index_less [of a]
    by (simp add: mem_clear_bitmap_page_bit_def Let_def assert_simps)
qed

lemma mem_is_set_free:
  assumes "length (phys_pages_alloc_bitmap s) = BITMAP_SIZE"
  shows "mem_is_bitmap_page_bit_set a s =
    (if page_index a < MEM_MAX_SUPPORTED_PAGES then Some (page_index a \<in> free_set s) else None)"
  using assms page_index_less [of a] page_bit_mask [of "page_index a" "phys_pages_alloc_bitmap s"]
  by (simp add: mem_is_bitmap_page_bit_set_def Let_def assert_simps phys_consts free_set_def)

lemma phys_wf_finite [simp]: "finite (free_set s)" "finite (exist_set s)"
  by (simp_all add: free_set_def exist_set_def)

lemma phys_wf_bound: "phys_wf s \<Longrightarrow> n \<in> exist_set s \<Longrightarrow> n < MEM_MAX_SUPPORTED_PAGES"
  by (simp add: phys_wf_def exist_set_def pages_of_def phys_consts)

lemma phys_wf_free_pages: "phys_wf s \<Longrightarrow> free_pages s = of_nat (card (free_set s))"
proof -
  assume "phys_wf s"
  then have "of_nat (unat (free_pages s)) = (of_nat (card (free_set s)) :: u64)" by (simp add: phys_wf_def)
  then show ?thesis by simp
qed

lemma allocate_lowest:
  assumes wf: "phys_wf s" and ne: "free_set s \<noteq> {}"
  obtains ws where
    "mem_allocate_physical_pages 1 s = Some (page_addr (Min (free_set s)),
        s\<lparr>phys_pages_alloc_bitmap := ws, free_pages := free_pages s - 1\<rparr>)"
    "length ws = BITMAP_SIZE" "pages_of ws = free_set s - {Min (free_set s)}"
proof -
  let ?ws = "phys_pages_alloc_bitmap s"
  have len: "length ?ws = BITMAP_SIZE" "length (phys_pages_exist_bitmap s) = BITMAP_SIZE"
    and sub: "free_set s \<subseteq> exist_set s" and c: "unat (free_pages s) = card (free_set s)"
    using wf by (auto simp: phys_wf_def)
  have take: "take (MEM_MAX_SUPPORTED_PAGES div 64) ?ws = ?ws"
    using len by (simp add: phys_consts)
  obtain i j where f: "find_page ?ws 0 = Some (i, j)"
    using find_page_None [of ?ws 0] ne by (cases "find_page ?ws 0") (auto simp: free_set_def)
  have ij: "i < BITMAP_SIZE" "j < 64" "64 * i + j \<in> free_set s" "\<forall>n \<in> free_set s. 64 * i + j \<le> n"
    using find_page_Some [OF f] len by (auto simp: free_set_def)
  then have min: "Min (free_set s) = 64 * i + j" by (intro Min_eqI) auto
  have n: "64 * i + j < 64 * length ?ws" using ij(1,2) len by simp
  have "free_pages s > 0"
    using c ne by (metis card_gt_0_iff phys_wf_finite(1) unat_gt_0 word_gt_0)
  moreover have "phys_pages_exist_bitmap s ! i AND page_mask j \<noteq> 0"
    using page_bit_mask [of "64 * i + j" "phys_pages_exist_bitmap s"] n len ij sub
    by (auto simp: exist_set_def)
  moreover have "pages_of (?ws[i := (?ws ! i) AND NOT (page_mask j)]) = free_set s - {64 * i + j}"
    using pages_of_clear [OF n] ij(2) by (simp add: free_set_def)
  ultimately show thesis
    using that [of "?ws[i := (?ws ! i) AND NOT (page_mask j)]"] f len
    by (simp add: mem_allocate_physical_pages_def assert_simps take min page_addr_def)
qed

lemma allocated_wf:
  assumes wf: "phys_wf s" and ne: "free_set s \<noteq> {}"
    and ws: "length ws = BITMAP_SIZE" "pages_of ws = free_set s - {Min (free_set s)}"
  shows "phys_wf (s\<lparr>phys_pages_alloc_bitmap := ws, free_pages := free_pages s - 1\<rparr>)"
proof -
  let ?s' = "s\<lparr>phys_pages_alloc_bitmap := ws, free_pages := free_pages s - 1\<rparr>"
  have f: "free_set ?s' = free_set s - {Min (free_set s)}" and e: "exist_set ?s' = exist_set s"
    using ws by (simp_all add: free_set_def [of ?s'] exist_set_def)
  have pos: "0 < card (free_set s)" using ne by (simp add: card_gt_0_iff)
  have "unat (free_pages s - 1) = card (free_set s) - 1"
    using pos wf by (subst unat_minus_one) (auto simp: phys_wf_def)
  then show ?thesis using wf f e ws ne by (auto simp: phys_wf_def)
qed

lemma allocate_none_free: "phys_wf s \<Longrightarrow> free_set s = {} \<Longrightarrow> mem_allocate_physical_pages n s = None"
  by (simp add: mem_allocate_physical_pages_def assert_simps phys_wf_free_pages)

lemma card_free_less: "phys_wf s \<Longrightarrow> card (free_set s) \<le> MEM_MAX_SUPPORTED_PAGES"
  using card_pages_of_le [of "phys_pages_alloc_bitmap s"]
  by (simp add: phys_wf_def free_set_def phys_consts)

lemma deallocate_page:
  assumes wf: "phys_wf s" and al: "a mod SIZE_OF_PAGE = 0"
    and ex: "page_index a \<in> exist_set s - free_set s"
  obtains ws where
    "mem_deallocate_physical_pages a 1 s =
        Some (s\<lparr>phys_pages_alloc_bitmap := ws, free_pages := free_pages s + 1\<rparr>)"
    "length ws = BITMAP_SIZE" "pages_of ws = insert (page_index a) (free_set s)"
proof -
  have len: "length (phys_pages_alloc_bitmap s) = BITMAP_SIZE" "length (phys_pages_exist_bitmap s) = BITMAP_SIZE"
    using wf by (auto simp: phys_wf_def)
  have n: "page_index a < MEM_MAX_SUPPORTED_PAGES" using phys_wf_bound [OF wf] ex by auto
  obtain ws where "mem_set_bitmap_page_bit a False s = Some (s\<lparr>phys_pages_alloc_bitmap := ws\<rparr>)"
    "length ws = BITMAP_SIZE" "pages_of ws = insert (page_index a) (free_set s)"
    using mem_set_free_set [OF n len(1) _ len(2), of False] ex by auto
  then show thesis
    using that [of ws] al ex n len by (simp add: mem_deallocate_physical_pages_def mem_is_set_free assert_simps)
qed

lemma deallocated_wf:
  assumes wf: "phys_wf s" and n: "n \<in> exist_set s - free_set s"
    and ws: "length ws = BITMAP_SIZE" "pages_of ws = insert n (free_set s)"
  shows "phys_wf (s\<lparr>phys_pages_alloc_bitmap := ws, free_pages := free_pages s + 1\<rparr>)"
proof -
  let ?s' = "s\<lparr>phys_pages_alloc_bitmap := ws, free_pages := free_pages s + 1\<rparr>"
  have f: "free_set ?s' = insert n (free_set s)" and e: "exist_set ?s' = exist_set s"
    using ws by (simp_all add: free_set_def [of ?s'] exist_set_def)
  have "unat (free_pages s + 1) = card (free_set s) + 1"
    using card_free_less [OF wf] wf by (simp add: unat_word_ariths phys_wf_def phys_consts)
  then show ?thesis using wf f e ws n by (auto simp: phys_wf_def)
qed

lemma deallocate_panics:
  assumes wf: "phys_wf s" and "a mod SIZE_OF_PAGE \<noteq> 0 \<or> page_index a \<notin> exist_set s - free_set s"
  shows "mem_deallocate_physical_pages a 1 s = None"
proof -
  have len: "length (phys_pages_alloc_bitmap s) = BITMAP_SIZE" "length (phys_pages_exist_bitmap s) = BITMAP_SIZE"
    using wf by (auto simp: phys_wf_def)
  then show ?thesis
    using assms(2) page_bit_mask [of "page_index a" "phys_pages_exist_bitmap s"]
    by (auto simp: mem_deallocate_physical_pages_def mem_is_set_free assert_simps
        mem_set_bitmap_page_bit_def Let_def exist_set_def phys_consts)
qed

subsection \<open>Properties of allocation and deallocation\<close>

text \<open>
  C38. On a consistent allocator with a free page, \<open>mem_allocate_physical_pages\<close> never panics: it
  returns the address of the lowest free page, takes exactly that page out of the free set and
  keeps the allocator consistent; with no free page it panics.
\<close>

theorem allocate_physical_correct:
  assumes "phys_wf s"
  shows "(free_set s = {} \<longrightarrow> mem_allocate_physical_pages 1 s = None) \<and>
    (free_set s \<noteq> {} \<longrightarrow> (\<exists>s'. mem_allocate_physical_pages 1 s = Some (page_addr (Min (free_set s)), s') \<and>
       free_set s' = free_set s - {Min (free_set s)} \<and> exist_set s' = exist_set s \<and> phys_wf s'))"
proof (intro conjI impI)
  assume "free_set s = {}"
  with assms show "mem_allocate_physical_pages 1 s = None" by (rule allocate_none_free)
next
  assume ne: "free_set s \<noteq> {}"
  obtain ws where r: "mem_allocate_physical_pages 1 s = Some (page_addr (Min (free_set s)),
        s\<lparr>phys_pages_alloc_bitmap := ws, free_pages := free_pages s - 1\<rparr>)"
    and ws: "length ws = BITMAP_SIZE" "pages_of ws = free_set s - {Min (free_set s)}"
    using allocate_lowest [OF assms ne] .
  let ?s' = "s\<lparr>phys_pages_alloc_bitmap := ws, free_pages := free_pages s - 1\<rparr>"
  have f: "free_set ?s' = free_set s - {Min (free_set s)}" and e: "exist_set ?s' = exist_set s"
    using ws by (simp_all add: free_set_def [of ?s'] exist_set_def)
  note allocated_wf [OF assms ne ws]
  with r f e show "\<exists>s'. mem_allocate_physical_pages 1 s = Some (page_addr (Min (free_set s)), s') \<and>
       free_set s' = free_set s - {Min (free_set s)} \<and> exist_set s' = exist_set s \<and> phys_wf s'"
    by blast
qed

text \<open>
  C39. \<open>mem_deallocate_physical_pages\<close> accepts exactly the page-aligned address of a page that exists
  and is allocated: it then puts that page back and keeps the allocator consistent. A double free,
  an unaligned address and a page that was never usable all panic.
\<close>

theorem deallocate_physical_correct:
  assumes "phys_wf s"
  shows "if a mod SIZE_OF_PAGE = 0 \<and> page_index a \<in> exist_set s - free_set s
    then (\<exists>s'. mem_deallocate_physical_pages a 1 s = Some s' \<and>
       free_set s' = insert (page_index a) (free_set s) \<and> exist_set s' = exist_set s \<and> phys_wf s')
    else mem_deallocate_physical_pages a 1 s = None"
proof (cases "a mod SIZE_OF_PAGE = 0 \<and> page_index a \<in> exist_set s - free_set s")
  case False
  then show ?thesis using deallocate_panics [OF assms, of a] by (simp only: if_False) blast
next
  case True
  then obtain ws where r: "mem_deallocate_physical_pages a 1 s =
        Some (s\<lparr>phys_pages_alloc_bitmap := ws, free_pages := free_pages s + 1\<rparr>)"
    and ws: "length ws = BITMAP_SIZE" "pages_of ws = insert (page_index a) (free_set s)"
    using deallocate_page [OF assms] by metis
  let ?s' = "s\<lparr>phys_pages_alloc_bitmap := ws, free_pages := free_pages s + 1\<rparr>"
  have f: "free_set ?s' = insert (page_index a) (free_set s)" and e: "exist_set ?s' = exist_set s"
    using ws by (simp_all add: free_set_def [of ?s'] exist_set_def)
  have "phys_wf ?s'" by (rule deallocated_wf [OF assms _ ws]) (use True in simp)
  then have "\<exists>s'. mem_deallocate_physical_pages a 1 s = Some s' \<and>
       free_set s' = insert (page_index a) (free_set s) \<and> exist_set s' = exist_set s \<and> phys_wf s'"
    using r f e by blast
  with True show ?thesis by simp
qed

text \<open>A two-page machine for the witnesses: pages 2 and 3 exist, page 3 is free.\<close>

definition sample_phys :: phys_state where
  "sample_phys = \<lparr>phys_pages_alloc_bitmap = page_mask 3 # replicate 31 0,
     phys_pages_exist_bitmap = (page_mask 2 OR page_mask 3) # replicate 31 0, free_pages = 1\<rparr>"

lemma page_bit_zeros [simp]: "n < 64 * k \<Longrightarrow> \<not> page_bit (replicate k 0) n"
  by (simp add: page_bit_def less_mult_imp_div_less mult.commute)

lemma pages_of_zeros [simp]: "pages_of (replicate k 0) = {}"
  by (auto simp: pages_of_def)

lemma page_mask_pages: "j < 64 \<Longrightarrow> {n. n < 64 \<and> bit (page_mask j) (63 - n)} = {j}"
  by (auto simp: page_mask_exp bit_exp_iff)

lemma page_mask_or_pages:
  "j < 64 \<Longrightarrow> {n. n < 64 \<and> bit (w OR page_mask j) (63 - n)} = insert j {n. n < 64 \<and> bit w (63 - n)}"
  by (auto simp: bit_or_page_mask)

lemma sample_phys_sets: "free_set sample_phys = {3}" "exist_set sample_phys = {2, 3}"
  by (auto simp: free_set_def exist_set_def sample_phys_def pages_of_Cons page_mask_pages page_mask_or_pages)

lemma sample_phys_wf: "phys_wf sample_phys"
  by (simp add: phys_wf_def sample_phys_sets) (simp add: sample_phys_def phys_consts)

theorem allocate_physical_correct_witness:
  "phys_wf sample_phys \<and> free_set sample_phys = {3} \<and>
   (\<exists>s'. mem_allocate_physical_pages 1 sample_phys = Some (page_addr 3, s') \<and>
      free_set s' = {} \<and> mem_allocate_physical_pages 1 s' = None)"
  using allocate_physical_correct [OF sample_phys_wf] allocate_physical_correct
  by (simp add: sample_phys_sets sample_phys_wf) metis

theorem deallocate_physical_correct_witness:
  "phys_wf sample_phys \<and> mem_deallocate_physical_pages (page_addr 3) 1 sample_phys = None \<and>
   (\<exists>s'. mem_deallocate_physical_pages (page_addr 2) 1 sample_phys = Some s' \<and> free_set s' = {2, 3})"
  using deallocate_physical_correct [OF sample_phys_wf, of "page_addr 3"]
    deallocate_physical_correct [OF sample_phys_wf, of "page_addr 2"]
  by (auto simp: sample_phys_sets sample_phys_wf phys_consts)

subsection \<open>Initialisation\<close>

text \<open>
  The records the loop reads before it stops: a record counts when it starts below
  \<open>table_length\<close> bytes, and an all-zero record ends the table.
\<close>

definition e820_zero :: "e820_record \<Rightarrow> bool" where
  "e820_zero r \<longleftrightarrow> e_start_addr r = 0 \<and> e_length r = 0 \<and> e_memory_type r = 0"

fun read_records :: "e820_record list \<Rightarrow> u64 \<Rightarrow> u64 \<Rightarrow> e820_record list" where
  "read_records [] bytes_read table_length = []"
| "read_records (r # rs) bytes_read table_length =
     (if \<not> e820_zero r \<and> bytes_read < table_length then r # read_records rs (bytes_read + 24) table_length
      else [])"

text \<open>The pages that lie wholly inside a usable record.\<close>

definition whole_pages :: "e820_record \<Rightarrow> nat set" where
  "whole_pages r = {n. e_memory_type r = 1 \<and> unat (e_start_addr r) \<le> 2 ^ 21 * n \<and>
     2 ^ 21 * (n + 1) \<le> unat (e_start_addr r) + unat (e_length r)}"

text \<open>The record ends at or below the 4 GB that 2048 pages cover.\<close>

definition e820_supported :: "e820_record \<Rightarrow> bool" where
  "e820_supported r \<longleftrightarrow> unat (e_start_addr r) + unat (e_length r) \<le> 2 ^ 32"

lemma set_pages_free_set:
  "m + n \<le> MEM_MAX_SUPPORTED_PAGES \<Longrightarrow> length (phys_pages_alloc_bitmap s) = BITMAP_SIZE \<Longrightarrow>
   length (phys_pages_exist_bitmap s) = BITMAP_SIZE \<Longrightarrow>
   \<exists>ws. set_pages n (page_addr m) s = Some (s\<lparr>phys_pages_alloc_bitmap := ws\<rparr>) \<and> length ws = BITMAP_SIZE \<and>
     pages_of ws = free_set s \<union> ({m ..< m + n} - {0})"
proof (induction n arbitrary: m s)
  case 0
  then show ?case by (intro exI [of _ "phys_pages_alloc_bitmap s"]) (simp add: free_set_def)
next
  case (Suc n)
  have m: "m < MEM_MAX_SUPPORTED_PAGES" using Suc.prems by simp
  have step: "page_addr m + MEM_PAGE_SIZE = page_addr (Suc m)"
    by (simp add: page_addr_def SIZE_OF_PAGE_def MEM_PAGE_SIZE_def)
  have z: "page_addr m = 0 \<longleftrightarrow> m = 0"
    using unat_page_addr [OF m] by (metis mult_eq_0_iff power_not_zero unat_eq_zero zero_neq_numeral)
  have "\<exists>ws. (if page_addr m \<noteq> 0 then mem_set_bitmap_page_bit (page_addr m) True s else Some s)
      = Some (s\<lparr>phys_pages_alloc_bitmap := ws\<rparr>) \<and> length ws = BITMAP_SIZE \<and>
      pages_of ws = free_set s \<union> ({m} - {0})"
  proof (cases "m = 0")
    case True
    then show ?thesis using z Suc.prems(2)
      by (intro exI [of _ "phys_pages_alloc_bitmap s"]) (simp add: free_set_def)
  next
    case False
    then show ?thesis
      using mem_set_free_set [of "page_addr m" s True] m Suc.prems z by (simp add: page_index_addr) metis
  qed
  then obtain ws where ws: "(if page_addr m \<noteq> 0 then mem_set_bitmap_page_bit (page_addr m) True s else Some s)
      = Some (s\<lparr>phys_pages_alloc_bitmap := ws\<rparr>)" "length ws = BITMAP_SIZE"
      "pages_of ws = free_set s \<union> ({m} - {0})" by blast
  have "\<exists>ws'. set_pages n (page_addr (Suc m)) (s\<lparr>phys_pages_alloc_bitmap := ws\<rparr>) =
      Some (s\<lparr>phys_pages_alloc_bitmap := ws'\<rparr>) \<and> length ws' = BITMAP_SIZE \<and>
      pages_of ws' = pages_of ws \<union> ({Suc m ..< Suc m + n} - {0})"
    using Suc.IH [of "Suc m" "s\<lparr>phys_pages_alloc_bitmap := ws\<rparr>"] Suc.prems ws(2)
    by (simp add: free_set_def)
  moreover have "{m ..< m + Suc n} = insert m {Suc m ..< Suc m + n}" by auto
  ultimately show ?case using ws(1,3) by (auto simp: step)
qed

lemma page_size_same: "MEM_PAGE_SIZE = SIZE_OF_PAGE"
  by (simp add: MEM_PAGE_SIZE_def SIZE_OF_PAGE_def)

lemma unat_eqI_u64: "unat a = unat (b :: u64) \<Longrightarrow> a = b"
  by (simp add: word_unat_eq_iff)

lemma unat_page_addr_le: "n \<le> MEM_MAX_SUPPORTED_PAGES \<Longrightarrow> unat (page_addr n) = 2 ^ 21 * n"
  by (simp add: page_addr_def SIZE_OF_PAGE_def phys_consts unat_word_ariths unat_of_nat)

lemma ceiling_div_le: "0 < p \<Longrightarrow> (x + (p - 1)) div p \<le> n \<longleftrightarrow> x \<le> p * (n :: nat)"
  using div_less_iff_less_mult [of p "x + (p - 1)" "Suc n"] by (auto simp: mult.commute)

lemma floor_div_less: "0 < p \<Longrightarrow> n < x div p \<longleftrightarrow> p * ((n :: nat) + 1) \<le> x"
  using less_eq_div_iff_mult_less_eq [of p "Suc n" x] by (auto simp: mult.commute Suc_le_eq)

lemma ceiling_rem: "m < p \<Longrightarrow> (m + (p - 1)) div p = (if m = 0 then 0 else 1 :: nat)"
  by (auto simp: div_if)

lemma ceiling_page:
  assumes "0 < (p :: nat)"
  shows "p * ((x + (p - 1)) div p) = (if x mod p = 0 then x else x + p - x mod p)"
proof -
  define q where "q = x div p"
  have m: "x mod p < p" using assms by simp
  have x: "x = p * q + x mod p" by (simp add: q_def)
  have "x + (p - 1) = (x mod p + (p - 1)) + q * p"
    by (metis add.assoc add.commute mult.commute x)
  then have "(x + (p - 1)) div p = q + (x mod p + (p - 1)) div p"
    using assms by (metis add.commute div_mult_self1 less_not_refl3)
  also have "(x mod p + (p - 1)) div p = (if x mod p = 0 then 0 else 1)"
    using ceiling_rem [OF m] .
  finally show ?thesis using x m by (auto simp: algebra_simps)
qed

lemma e820_end_page:
  assumes "e820_supported r"
  shows "e820_end_addr r = page_addr ((unat (e_start_addr r) + unat (e_length r)) div 2 ^ 21)"
proof (rule unat_eqI_u64)
  let ?E = "unat (e_start_addr r) + unat (e_length r)"
  have E: "?E \<le> 2 ^ 32" using assms by (simp add: e820_supported_def)
  then have e: "unat (e_start_addr r + e_length r) = ?E" by (simp add: unat_word_ariths)
  have "?E div 2 ^ 21 \<le> MEM_MAX_SUPPORTED_PAGES" using E div_le_mono [of ?E "2 ^ 32" "2 ^ 21"] by (simp add: phys_consts)
  then have "unat (page_addr (?E div 2 ^ 21)) = ?E - ?E mod 2 ^ 21"
    by (simp only: unat_page_addr_le minus_mod_eq_mult_div)
  also have "\<dots> = unat (e820_end_addr r)"
    using e unat_sub [of "(e_start_addr r + e_length r) mod MEM_PAGE_SIZE" "e_start_addr r + e_length r"]
    by (simp add: e820_end_addr_def Let_def word_unat_eq_iff unat_mod_distrib word_le_nat_alt)
  finally show "unat (e820_end_addr r) = unat (page_addr (?E div 2 ^ 21))" by simp
qed

lemma e820_start_page:
  assumes "e820_supported r"
  shows "e820_first_page r = page_addr ((unat (e_start_addr r) + (2 ^ 21 - 1)) div 2 ^ 21)"
proof (rule unat_eqI_u64)
  let ?S = "unat (e_start_addr r)"
  have S: "?S \<le> 2 ^ 32" using assms by (simp add: e820_supported_def)
  have m: "unat (e_start_addr r mod MEM_PAGE_SIZE) = ?S mod 2 ^ 21" by (simp add: unat_mod_distrib)
  have "unat (e_start_addr r + MEM_PAGE_SIZE - e_start_addr r mod MEM_PAGE_SIZE) = ?S + 2 ^ 21 - ?S mod 2 ^ 21"
  proof -
    have p: "unat (e_start_addr r + MEM_PAGE_SIZE) = ?S + 2 ^ 21" using S by (simp add: unat_word_ariths)
    have "?S mod 2 ^ 21 \<le> ?S + 2 ^ 21" by (meson le_add1 mod_less_eq_dividend order_trans)
    then show ?thesis using p m by (subst unat_sub) (simp_all add: word_le_nat_alt)
  qed
  then have u: "unat (e820_first_page r) = (if ?S mod 2 ^ 21 = 0 then ?S else ?S + 2 ^ 21 - ?S mod 2 ^ 21)"
    using m by (simp add: e820_first_page_def Let_def word_unat_eq_iff)
  have "2 ^ 21 * ((?S + (2 ^ 21 - 1)) div 2 ^ 21) = (if ?S mod 2 ^ 21 = 0 then ?S else ?S + 2 ^ 21 - ?S mod 2 ^ 21)"
    by (rule ceiling_page) simp
  moreover have "(?S + (2 ^ 21 - 1)) div 2 ^ 21 \<le> MEM_MAX_SUPPORTED_PAGES"
    using S div_le_mono [of "?S + (2 ^ 21 - 1)" "2 ^ 32 + (2 ^ 21 - 1)" "2 ^ 21"] by (simp add: phys_consts)
  ultimately show "unat (e820_first_page r) = unat (page_addr ((?S + (2 ^ 21 - 1)) div 2 ^ 21))"
    using u by (simp only: unat_page_addr_le)
qed

lemma whole_pages_interval:
  "e_memory_type r = 1 \<Longrightarrow> whole_pages r =
   {(unat (e_start_addr r) + (2 ^ 21 - 1)) div 2 ^ 21 ..< (unat (e_start_addr r) + unat (e_length r)) div 2 ^ 21}"
  by (auto simp only: whole_pages_def atLeastLessThan_iff ceiling_div_le floor_div_less zero_less_power
      zero_less_numeral)

lemma e820_use_record_free_set:
  assumes sup: "e820_supported r" and len: "length (phys_pages_alloc_bitmap s) = BITMAP_SIZE"
    "length (phys_pages_exist_bitmap s) = BITMAP_SIZE"
  shows "\<exists>ws. e820_use_record r s = Some (s\<lparr>phys_pages_alloc_bitmap := ws\<rparr>) \<and> length ws = BITMAP_SIZE \<and>
     pages_of ws = free_set s \<union> (whole_pages r - {0})"
proof (cases "e_memory_type r = 1")
  case False
  then show ?thesis using len
    by (intro exI [of _ "phys_pages_alloc_bitmap s"]) (simp add: e820_use_record_def whole_pages_def free_set_def)
next
  case True
  define a where "a = (unat (e_start_addr r) + (2 ^ 21 - 1)) div 2 ^ 21"
  define b where "b = (unat (e_start_addr r) + unat (e_length r)) div 2 ^ 21"
  have ab: "e820_first_page r = page_addr a" "e820_end_addr r = page_addr b" "whole_pages r = {a ..< b}"
    using e820_start_page [OF sup] e820_end_page [OF sup] whole_pages_interval [OF True]
    by (simp_all only: a_def b_def)
  have b: "b \<le> MEM_MAX_SUPPORTED_PAGES" "a \<le> MEM_MAX_SUPPORTED_PAGES"
    using sup by (simp_all add: b_def a_def e820_supported_def phys_consts)
  then have ub: "unat (page_addr b) = 2 ^ 21 * b" "unat (page_addr a) = 2 ^ 21 * a"
    by (simp_all only: unat_page_addr_le)
  then have cmp: "page_addr b > page_addr a \<longleftrightarrow> a < b" by (simp add: word_less_nat_alt)
  show ?thesis
  proof (cases "a < b")
    case False
    then show ?thesis using len True ab cmp
      by (intro exI [of _ "phys_pages_alloc_bitmap s"]) (simp add: e820_use_record_def free_set_def)
  next
    case lt: True
    have "unat ((page_addr b - page_addr a) div MEM_PAGE_SIZE) = b - a"
      using lt cmp ub by (simp add: unat_div_distrib unat_sub order_less_imp_le diff_mult_distrib2 [symmetric])
    then show ?thesis
      using set_pages_free_set [of a "b - a" s] lt b len True ab cmp
      by (simp add: e820_use_record_def)
  qed
qed

lemma e820_loop_free_set:
  "\<forall>r \<in> set (read_records rs n l). e820_supported r \<Longrightarrow> length (phys_pages_alloc_bitmap s) = BITMAP_SIZE \<Longrightarrow>
   length (phys_pages_exist_bitmap s) = BITMAP_SIZE \<Longrightarrow>
   \<exists>ws. e820_loop rs n l s = Some (s\<lparr>phys_pages_alloc_bitmap := ws\<rparr>) \<and> length ws = BITMAP_SIZE \<and>
     pages_of ws = free_set s \<union> ((\<Union>r \<in> set (read_records rs n l). whole_pages r) - {0})"
proof (induction rs arbitrary: n s)
  case Nil
  then show ?case by (intro exI [of _ "phys_pages_alloc_bitmap s"]) (simp add: free_set_def)
next
  case (Cons r rs)
  show ?case
  proof (cases "\<not> e820_zero r \<and> n < l")
    case False
    then show ?thesis using Cons.prems
      by (intro exI [of _ "phys_pages_alloc_bitmap s"]) (auto simp: free_set_def e820_zero_def)
  next
    case True
    then obtain ws where ws: "e820_use_record r s = Some (s\<lparr>phys_pages_alloc_bitmap := ws\<rparr>)"
      "length ws = BITMAP_SIZE" "pages_of ws = free_set s \<union> (whole_pages r - {0})"
      using e820_use_record_free_set [of r s] Cons.prems by auto
    from True Cons.IH [of "n + 24" "s\<lparr>phys_pages_alloc_bitmap := ws\<rparr>"] Cons.prems ws
    obtain ws' where "e820_loop rs (n + 24) l (s\<lparr>phys_pages_alloc_bitmap := ws\<rparr>) =
        Some (s\<lparr>phys_pages_alloc_bitmap := ws'\<rparr>)" "length ws' = BITMAP_SIZE"
      "pages_of ws' = pages_of ws \<union> ((\<Union>r \<in> set (read_records rs (n + 24) l). whole_pages r) - {0})"
      by (auto simp: free_set_def)
    with True ws show ?thesis by (auto simp: e820_zero_def)
  qed
qed

lemma clear_kernel_free_set:
  assumes len: "length (phys_pages_alloc_bitmap s) = BITMAP_SIZE"
  obtains ws where
    "clear_kernel_pages 0 MEM_NUM_KERNEL_PAGES s = Some (s\<lparr>phys_pages_alloc_bitmap := ws\<rparr>)"
    "length ws = BITMAP_SIZE" "pages_of ws = free_set s - {0, 1}"
proof -
  have a: "of_nat i * MEM_PAGE_SIZE = page_addr i" for i
    by (simp add: page_addr_def page_size_same mult.commute)
  obtain ws where ws: "mem_clear_bitmap_page_bit (page_addr 0) True s = Some (s\<lparr>phys_pages_alloc_bitmap := ws\<rparr>)"
    "length ws = BITMAP_SIZE" "pages_of ws = free_set s - {0}"
    using mem_clear_free_set [of "page_addr 0" s] len by (auto simp: phys_consts)
  obtain ws' where ws': "mem_clear_bitmap_page_bit (page_addr 1) True (s\<lparr>phys_pages_alloc_bitmap := ws\<rparr>)
      = Some (s\<lparr>phys_pages_alloc_bitmap := ws'\<rparr>)"
    "length ws' = BITMAP_SIZE" "pages_of ws' = pages_of ws - {1}"
    using mem_clear_free_set [of "page_addr 1" "s\<lparr>phys_pages_alloc_bitmap := ws\<rparr>"] ws
    by (auto simp: phys_consts free_set_def)
  have "clear_kernel_pages 0 (Suc (Suc 0)) s = Some (s\<lparr>phys_pages_alloc_bitmap := ws'\<rparr>)"
    using ws(1) ws'(1) by (simp only: clear_kernel_pages.simps a bind.bind_lunit One_nat_def)
  moreover have "pages_of ws' = free_set s - {0, 1}" using ws(3) ws'(3) by auto
  ultimately show thesis using that [of ws'] ws'(2) by (simp add: MEM_NUM_KERNEL_PAGES_def numeral_2_eq_2)
qed

text \<open>
  Initialisation from an E820 table whose records end below 4 GB: the free pages are exactly the
  2 MB pages from number 2 up that lie wholly inside a usable record read before the end of the
  table, the exist bitmap is the same set, and the allocator is consistent. It panics exactly when
  there is no such page.
\<close>

theorem phys_init_correct:
  assumes "24 \<le> table_length" and "free_pages s = 0" and "length (phys_pages_exist_bitmap s) = BITMAP_SIZE"
    and "\<forall>r \<in> set (read_records table 0 table_length). e820_supported r"
    and "usable = (\<Union>r \<in> set (read_records table 0 table_length). whole_pages r) - {0, 1}"
  shows "if usable = {} then mem_init_gen_phys_sys table table_length s = None
    else (\<exists>s'. mem_init_gen_phys_sys table table_length s = Some s' \<and> phys_wf s' \<and>
      free_set s' = usable \<and> exist_set s' = usable)"
proof -
  let ?s0 = "s\<lparr>phys_pages_alloc_bitmap := replicate BITMAP_SIZE 0\<rparr>"
  obtain ws where l: "e820_loop table 0 table_length ?s0 = Some (s\<lparr>phys_pages_alloc_bitmap := ws\<rparr>)"
    "length ws = BITMAP_SIZE" "pages_of ws = (\<Union>r \<in> set (read_records table 0 table_length). whole_pages r) - {0}"
    using e820_loop_free_set [OF assms(4), of ?s0] assms(3) by (auto simp: free_set_def)
  obtain ws' where c: "clear_kernel_pages 0 MEM_NUM_KERNEL_PAGES (s\<lparr>phys_pages_alloc_bitmap := ws\<rparr>)
      = Some (s\<lparr>phys_pages_alloc_bitmap := ws'\<rparr>)" "length ws' = BITMAP_SIZE" "pages_of ws' = pages_of ws - {0, 1}"
    using clear_kernel_free_set [of "s\<lparr>phys_pages_alloc_bitmap := ws\<rparr>"] l by (auto simp: free_set_def)
  have u: "pages_of ws' = usable" using c(3) l(3) assms(5) by auto
  let ?n = "of_nat (card usable) :: u64"
  let ?s' = "s\<lparr>phys_pages_alloc_bitmap := ws', phys_pages_exist_bitmap := ws', free_pages := ?n\<rparr>"
  have card: "card usable \<le> 2048" using card_pages_of_le [of ws'] c u by (simp add: phys_consts)
  then have n: "unat ?n = card usable" by (simp add: unat_of_nat)
  have f: "free_set ?s' = usable" "exist_set ?s' = usable" by (simp_all add: free_set_def exist_set_def u)
  have fin: "finite usable" using u by (metis finite_pages_of)
  have pos: "?n > 0 \<longleftrightarrow> usable \<noteq> {}" using n fin by (metis card_gt_0_iff unat_gt_0 word_gt_0)
  have "mem_init_gen_phys_sys table table_length s = (if ?n > 0 then Some ?s' else None)"
    using l c assms(1,2) u
    by (simp add: mem_init_gen_phys_sys_def mem_gen_phys_pages_bitmap_def assert_simps count_free_card)
  moreover have "phys_wf ?s'" using f n c(2) by (simp add: phys_wf_def)
  ultimately show ?thesis using f pos by auto
qed

text \<open>A machine with a low-memory record, a 32 MB usable record and a reserved one.\<close>

definition sample_e820 :: "e820_record list" where
  "sample_e820 = [\<lparr>e_size = 20, e_start_addr = 0, e_length = 0x9fc00, e_memory_type = 1\<rparr>,
     \<lparr>e_size = 20, e_start_addr = 0x500000, e_length = 0x600000, e_memory_type = 1\<rparr>,
     \<lparr>e_size = 20, e_start_addr = 0x2000000, e_length = 0x400000, e_memory_type = 2\<rparr>,
     \<lparr>e_size = 20, e_start_addr = 0, e_length = 0, e_memory_type = 0\<rparr>]"

lemma sample_e820_pages:
  "(\<Union>r \<in> set (read_records sample_e820 0 96). whole_pages r) - {0, 1} = {3, 4}"
  by (auto simp: sample_e820_def e820_zero_def whole_pages_def)

lemma sample_e820_supported: "\<forall>r \<in> set (read_records sample_e820 0 96). e820_supported r"
  by (simp add: sample_e820_def e820_zero_def e820_supported_def)

theorem phys_init_correct_witness:
  "\<exists>s'. mem_init_gen_phys_sys sample_e820 96 (sample_phys\<lparr>free_pages := 0\<rparr>) = Some s' \<and>
     free_set s' = {3, 4} \<and> phys_wf s'"
proof -
  have "length (phys_pages_exist_bitmap (sample_phys\<lparr>free_pages := 0\<rparr>)) = BITMAP_SIZE"
    by (simp add: sample_phys_def phys_consts)
  then show ?thesis
    using phys_init_correct [OF _ _ _ sample_e820_supported sample_e820_pages [symmetric],
        of "sample_phys\<lparr>free_pages := 0\<rparr>"]
    by auto
qed

end
