(* ===== verification/Cpp_Lib.thy ===== *)
theory Cpp_Lib
  imports Azalea_Prelude "HOL-Library.Char_ord" "HOL-Library.List_Lexorder" "HOL-Library.Product_Lexorder"
begin

text \<open>
  What the kernel uses of the C++ library: \<open>std::map\<close> as an association list with strictly
  increasing keys, and \<open>memcpy\<close> and \<open>memset\<close> on byte buffers. An access outside a buffer has no
  result (\<^term>\<open>None\<close>), like a panic.

  The \<open>insert\<close> of a \<open>std::map\<close> does nothing when the key is present, which several kernel
  components overlook. Strings are ordered bytewise, as \<open>std::string\<close> is.
\<close>

subsection \<open>std::map\<close>

type_synonym ('k, 'v) std_map = "('k \<times> 'v) list"

definition map_contains :: "('k, 'v) std_map \<Rightarrow> 'k \<Rightarrow> bool" where
  "map_contains m k \<longleftrightarrow> map_of m k \<noteq> None"

fun std_map_insert :: "'k :: linorder \<Rightarrow> 'v \<Rightarrow> ('k, 'v) std_map \<Rightarrow> ('k, 'v) std_map" where
  "std_map_insert k v [] = [(k, v)]"
| "std_map_insert k v ((k', v') # m) =
     (if k < k' then (k, v) # (k', v') # m
      else if k = k' then (k', v') # m
      else (k', v') # std_map_insert k v m)"

definition std_map_erase :: "'k \<Rightarrow> ('k, 'v) std_map \<Rightarrow> ('k, 'v) std_map" where
  "std_map_erase k m = filter (\<lambda>p. fst p \<noteq> k) m"

definition std_map_from :: "'k :: linorder \<Rightarrow> ('k, 'v) std_map \<Rightarrow> ('k, 'v) std_map" where
  "std_map_from k m = dropWhile (\<lambda>p. fst p < k) m"

definition std_map_wf :: "('k :: linorder, 'v) std_map \<Rightarrow> bool" where
  "std_map_wf m \<longleftrightarrow> sorted_wrt (<) (map fst m)"

lemma std_map_wf_Nil [simp]: "std_map_wf []"
  by (simp add: std_map_wf_def)

lemma std_map_wf_Cons:
  "std_map_wf ((k, v) # m) \<longleftrightarrow> (\<forall>k' \<in> fst ` set m. k < k') \<and> std_map_wf m"
  by (auto simp: std_map_wf_def)

lemma map_contains_iff: "map_contains m k \<longleftrightarrow> k \<in> fst ` set m"
  by (auto simp: map_contains_def map_of_eq_None_iff)

lemma fst_set_insert [simp]: "fst ` set (std_map_insert k v m) = insert k (fst ` set m)"
  by (induction m rule: std_map_insert.induct) auto

lemma map_of_less_None: "\<forall>k' \<in> fst ` set m. (k :: 'k :: linorder) < k' \<Longrightarrow> map_of m k = None"
  by (auto simp: map_of_eq_None_iff)

lemma map_of_insert:
  "std_map_wf m \<Longrightarrow>
   map_of (std_map_insert k v m) = (if map_contains m k then map_of m else (map_of m)(k \<mapsto> v))"
proof (induction m rule: std_map_insert.induct)
  case (2 k v k' v' m)
  then have wf: "std_map_wf m" "\<forall>x \<in> fst ` set m. k' < x" by (auto simp: std_map_wf_Cons)
  consider "k < k'" | "k = k'" | "k' < k" by fastforce
  then show ?case
  proof cases
    case 1
    then have "k \<noteq> k'" "map_of m k = None" using wf(2) by (auto intro!: map_of_less_None)
    with 1 show ?thesis by (auto simp: map_contains_def)
  next
    case 3
    with 2 wf show ?thesis by (auto simp: map_contains_def fun_eq_iff)
  qed (simp add: map_contains_def)
qed (simp add: map_contains_def)

lemma std_map_wf_insert [simp]: "std_map_wf m \<Longrightarrow> std_map_wf (std_map_insert k v m)"
  by (induction m rule: std_map_insert.induct) (auto simp: std_map_wf_Cons)

lemma std_map_insert_present: "std_map_wf m \<Longrightarrow> map_contains m k \<Longrightarrow> std_map_insert k v m = m"
proof (induction m rule: std_map_insert.induct)
  case (2 k v k' v' m)
  then show ?case by (auto simp: map_contains_iff std_map_wf_Cons)
qed (simp add: map_contains_def)

lemma map_of_erase [simp]: "map_of (std_map_erase k m) = (map_of m)(k := None)"
  by (induction m) (auto simp: std_map_erase_def)

lemma std_map_wf_erase [simp]: "std_map_wf m \<Longrightarrow> std_map_wf (std_map_erase k m)"
  by (auto simp: std_map_erase_def std_map_wf_def sorted_wrt_filter sorted_wrt_map)

lemma map_contains_erase: "map_contains (std_map_erase k m) j \<longleftrightarrow> j \<noteq> k \<and> map_contains m j"
  by (auto simp: map_contains_def)

lemma std_map_distinct: "std_map_wf m \<Longrightarrow> distinct (map fst m)"
  by (simp add: std_map_wf_def strict_sorted_iff)

lemma std_map_from_filter: "std_map_wf m \<Longrightarrow> std_map_from k m = filter (\<lambda>p. k \<le> fst p) m"
proof (induction m)
  case (Cons p m)
  show ?case
  proof (cases "fst p < k")
    case False
    then have "\<forall>q \<in> set m. k \<le> fst q" using Cons.prems
      by (cases p) (fastforce simp: std_map_wf_Cons)
    with False show ?thesis by (simp add: std_map_from_def filter_id_conv)
  next
    case True
    with Cons show ?thesis by (cases p) (auto simp: std_map_from_def std_map_wf_Cons)
  qed
qed (simp add: std_map_from_def)

lemma std_map_extend: "std_map_wf m \<Longrightarrow> map_of m \<subseteq>\<^sub>m map_of (std_map_insert k v m)"
  by (auto simp: map_of_insert map_le_def map_contains_def)

subsection \<open>The contract of a dictionary\<close>

text \<open>
  What the clients of a \<open>std::map\<close> rely on: what a lookup gives after an insertion and after an
  erasure, on the dictionaries that satisfy the invariant. The lemmas inside are about the two
  idioms the kernel uses, moving an entry to another key and replacing an entry.
\<close>

locale dictionary =
  fixes wf :: "'m \<Rightarrow> bool" and look :: "'m \<Rightarrow> 'k \<Rightarrow> 'v option"
    and ins :: "'k \<Rightarrow> 'v \<Rightarrow> 'm \<Rightarrow> 'm" and del :: "'k \<Rightarrow> 'm \<Rightarrow> 'm"
  assumes ins_wf: "wf m \<Longrightarrow> wf (ins k v m)" and del_wf: "wf m \<Longrightarrow> wf (del k m)"
    and look_ins: "wf m \<Longrightarrow> look (ins k v m) j =
      (if j = k then (case look m k of None \<Rightarrow> Some v | Some w \<Rightarrow> Some w) else look m j)"
    and look_del: "wf m \<Longrightarrow> look (del k m) j = (if j = k then None else look m j)"
begin

lemma move_free:
  assumes "wf m" "look m old = Some v" "look m new = None"
  shows "look (ins new v (del old m)) = (look m)(old := None, new := Some v)"
  using assms by (auto simp: look_ins look_del del_wf fun_eq_iff)

lemma move_onto_existing:
  assumes "wf m" "look m old = Some v" "look m new = Some w" "new \<noteq> old"
  shows "look (ins new v (del old m)) = (look m)(old := None)"
  using assms by (auto simp: look_ins look_del del_wf fun_eq_iff)

lemma move_same:
  assumes "wf m" "look m k = Some v"
  shows "look (ins k v (del k m)) = look m"
  using assms by (auto simp: look_ins look_del del_wf fun_eq_iff)

lemma ins_del_cancel:
  assumes "wf m" "look m k = None"
  shows "look (del k (ins k v m)) = look m"
  using assms by (auto simp: look_ins look_del ins_wf fun_eq_iff)

end

interpretation smap: dictionary std_map_wf map_of std_map_insert std_map_erase
  by unfold_locales (auto simp: map_of_insert map_contains_def split: option.splits)

subsection \<open>Byte buffers\<close>

text \<open>\<open>memcpy(dst + i, src + j, n)\<close> and \<open>memset(dst + i, b, n)\<close>.\<close>

definition memcpy :: "'a list \<Rightarrow> nat \<Rightarrow> 'a list \<Rightarrow> nat \<Rightarrow> nat \<Rightarrow> 'a list option" where
  "memcpy dst i src j n =
     (if i + n \<le> length dst \<and> j + n \<le> length src
      then Some (take i dst @ take n (drop j src) @ drop (i + n) dst) else None)"

definition memset :: "'a list \<Rightarrow> nat \<Rightarrow> 'a \<Rightarrow> nat \<Rightarrow> 'a list option" where
  "memset dst i b n =
     (if i + n \<le> length dst then Some (take i dst @ replicate n b @ drop (i + n) dst) else None)"

lemma memcpy_length: "memcpy dst i src j n = Some d \<Longrightarrow> length d = length dst"
  by (auto simp: memcpy_def split: if_splits)

lemma memset_length: "memset dst i b n = Some d \<Longrightarrow> length d = length dst"
  by (auto simp: memset_def split: if_splits)

lemma take_Suc_update: "w < length xs \<Longrightarrow> take (Suc w) (xs[w := b]) = take w xs @ [b]"
  by (simp add: take_Suc_conv_app_nth)

end
