(* ===== verification/Mem_File.thy ===== *)
theory Mem_File
  imports Cpp_Lib
begin

text \<open>
  The in-memory file \<open>mem_fs_leaf\<close> of \<open>kernel/system_tree/fs/mem/mem_fs.cpp\<close>: reading, writing
  and resizing, with the 64-bit arithmetic of the code. The contents of a fresh
  \<open>new char[n]\<close> are arbitrary, so the operations that allocate take the byte the memory happens to
  be filled with as an argument. The specification is a plain byte string.
\<close>

subsection \<open>Operations\<close>

record mem_fs_leaf =
  mf_buffer :: "u8 list"
  mf_buffer_length :: u64

definition mem_fs_leaf_new :: mem_fs_leaf where
  "mem_fs_leaf_new = \<lparr>mf_buffer = [], mf_buffer_length = 0\<rparr>"

text \<open>The caller's buffer is \<^term>\<open>None\<close> for a null pointer. The result is the error code, the
  caller's buffer afterwards and \<open>bytes_read\<close>, which is \<^term>\<open>None\<close> where the code leaves it alone.\<close>

definition mem_read_bytes ::
  "u64 \<Rightarrow> u64 \<Rightarrow> u8 list option \<Rightarrow> u64 \<Rightarrow> mem_fs_leaf \<Rightarrow> (ERR_CODE \<times> u8 list option \<times> u64 option) option"
where
  "mem_read_bytes start len buffer buffer_length f =
     (case buffer of
        None \<Rightarrow> Some (INVALID_PARAM, None, None)
      | Some buf \<Rightarrow>
          if start > mf_buffer_length f then Some (NO_ERROR, Some buf, Some 0)
          else do {
            let len = (if start + len > mf_buffer_length f then mf_buffer_length f - start else len);
            let len = (if len > buffer_length then buffer_length else len);
            buf \<leftarrow> memcpy buf 0 (mf_buffer f) (unat start) (unat len);
            Some (NO_ERROR, Some buf, Some len)
          })"

definition no_lock_set_file_size :: "u8 \<Rightarrow> u64 \<Rightarrow> mem_fs_leaf \<Rightarrow> mem_fs_leaf option" where
  "no_lock_set_file_size junk file_size f = do {
     let new_buffer = replicate (unat file_size) junk;
     let copy_size = (if file_size < mf_buffer_length f then file_size else mf_buffer_length f);
     new_buffer \<leftarrow> memcpy new_buffer 0 (mf_buffer f) 0 (unat copy_size);
     new_buffer \<leftarrow>
       (if file_size > mf_buffer_length f
        then memset new_buffer (unat (mf_buffer_length f)) 0 (unat (file_size - mf_buffer_length f))
        else Some new_buffer);
     Some (f\<lparr>mf_buffer_length := file_size, mf_buffer := new_buffer\<rparr>)
   }"

definition mem_write_bytes ::
  "u8 \<Rightarrow> u64 \<Rightarrow> u64 \<Rightarrow> u8 list \<Rightarrow> u64 \<Rightarrow> mem_fs_leaf \<Rightarrow> (ERR_CODE \<times> u64 \<times> mem_fs_leaf) option" where
  "mem_write_bytes junk start len buffer buffer_length f = do {
     let len = (if buffer_length < len then buffer_length else len);
     f \<leftarrow> (if start + len > mf_buffer_length f then no_lock_set_file_size junk (start + len) f else Some f);
     ASSERT (start + len \<le> mf_buffer_length f);
     data \<leftarrow> memcpy (mf_buffer f) (unat start) buffer 0 (unat len);
     Some (NO_ERROR, len, f\<lparr>mf_buffer := data\<rparr>)
   }"

definition mem_get_file_size :: "mem_fs_leaf \<Rightarrow> ERR_CODE \<times> u64" where
  "mem_get_file_size f = (NO_ERROR, mf_buffer_length f)"

definition mem_set_file_size :: "u8 \<Rightarrow> u64 \<Rightarrow> mem_fs_leaf \<Rightarrow> (ERR_CODE \<times> mem_fs_leaf) option" where
  "mem_set_file_size junk file_size f = do {
     f \<leftarrow> no_lock_set_file_size junk file_size f;
     Some (NO_ERROR, f)
   }"

subsection \<open>Specification: a file is a byte string\<close>

definition mem_file_wf :: "mem_fs_leaf \<Rightarrow> bool" where
  "mem_file_wf f \<longleftrightarrow> length (mf_buffer f) = unat (mf_buffer_length f)"

definition spec_resize :: "nat \<Rightarrow> u8 list \<Rightarrow> u8 list" where
  "spec_resize n d = take n d @ replicate (n - length d) 0"

definition spec_write :: "nat \<Rightarrow> u8 list \<Rightarrow> u8 list \<Rightarrow> u8 list" where
  "spec_write start new d =
     (let d = (if start + length new > length d then spec_resize (start + length new) d else d)
      in take start d @ new @ drop (start + length new) d)"

definition spec_read :: "nat \<Rightarrow> nat \<Rightarrow> u8 list \<Rightarrow> u8 list" where
  "spec_read start n d = take n (drop start d)"

lemma mem_file_new_wf [simp]: "mem_file_wf mem_fs_leaf_new"
  by (simp add: mem_file_wf_def mem_fs_leaf_new_def)

lemma length_spec_resize [simp]: "length (spec_resize n d) = n"
  by (simp add: spec_resize_def)

lemma resize_refines:
  assumes "mem_file_wf f"
  shows "no_lock_set_file_size junk n f =
    Some \<lparr>mf_buffer = spec_resize (unat n) (mf_buffer f), mf_buffer_length = n\<rparr>"
proof (cases "n > mf_buffer_length f")
  case True
  then have lt: "unat (mf_buffer_length f) < unat n" "unat (n - mf_buffer_length f) = unat n - unat (mf_buffer_length f)"
    by (simp_all add: word_less_nat_alt unat_sub word_le_nat_alt)
  have "\<not> n < mf_buffer_length f" using True by simp
  with True lt assms show ?thesis
    by (simp add: no_lock_set_file_size_def memcpy_def memset_def mem_file_wf_def spec_resize_def)
next
  case False
  then have "unat n \<le> length (mf_buffer f)"
    using assms by (simp add: mem_file_wf_def word_less_nat_alt)
  moreover have "n < mf_buffer_length f \<or> n = mf_buffer_length f" using False by auto
  ultimately show ?thesis
    using False assms
    by (auto simp: no_lock_set_file_size_def memcpy_def mem_file_wf_def spec_resize_def)
qed

text \<open>
  A write of \<open>n = min(length, buffer_length)\<close> bytes at \<open>start\<close> whose end does not wrap around
  stores exactly the first \<open>n\<close> bytes and extends the file with zero bytes where it starts beyond
  the end.
\<close>

lemma mem_write_refines:
  assumes "mem_file_wf f" and "n = min (unat len) (unat buffer_length)" and "n \<le> length buffer"
    and "unat start + n < 2 ^ 64"
  shows "\<exists>f'. mem_write_bytes junk start len buffer buffer_length f = Some (NO_ERROR, of_nat n, f') \<and>
    mem_file_wf f' \<and> mf_buffer f' = spec_write (unat start) (take n buffer) (mf_buffer f)"
proof -
  define l where "l = (if buffer_length < len then buffer_length else len)"
  have l: "unat l = n" "l = of_nat n"
    using assms(2) by (auto simp: l_def word_less_nat_alt min_def)
  have e: "unat (start + l) = unat start + n" using unat_add_no_wrap [of start l] l assms(4) by simp
  have len: "length (mf_buffer f) = unat (mf_buffer_length f)" using assms(1) by (simp add: mem_file_wf_def)
  define g where "g = (if start + l > mf_buffer_length f
      then \<lparr>mf_buffer = spec_resize (unat start + n) (mf_buffer f), mf_buffer_length = start + l\<rparr> else f)"
  have g: "length (mf_buffer g) = unat (mf_buffer_length g)" "start + l \<le> mf_buffer_length g"
    "unat start + n \<le> length (mf_buffer g)"
    using len e by (auto simp: g_def word_less_nat_alt word_le_nat_alt)
  have step: "(if start + l > mf_buffer_length f then no_lock_set_file_size junk (start + l) f else Some f) = Some g"
    using resize_refines [OF assms(1), of junk "start + l"] e by (simp add: g_def)
  have "mem_write_bytes junk start len buffer buffer_length f =
    Some (NO_ERROR, l, g\<lparr>mf_buffer := take (unat start) (mf_buffer g) @ take n buffer @ drop (unat start + n) (mf_buffer g)\<rparr>)"
    using step g l(1) assms(3)
    by (simp add: mem_write_bytes_def l_def [symmetric] assert_simps memcpy_def)
  moreover have "take (unat start) (mf_buffer g) @ take n buffer @ drop (unat start + n) (mf_buffer g) =
      spec_write (unat start) (take n buffer) (mf_buffer f)"
    using e len assms(3) by (auto simp: g_def spec_write_def Let_def min_def word_less_nat_alt)
  moreover have "length (take (unat start) (mf_buffer g) @ take n buffer @ drop (unat start + n) (mf_buffer g)) =
      unat (mf_buffer_length g)"
    using g assms(3) by simp
  ultimately show ?thesis
    using l(2) by (simp add: mem_file_wf_def)
qed

text \<open>
  A read at \<open>start\<close> whose end does not wrap around fills the caller's buffer with exactly the
  bytes the file has there, at most \<open>buffer_length\<close> of them.
\<close>

lemma mem_read_refines:
  assumes "mem_file_wf f" and "unat buffer_length \<le> length buf" and "unat start + unat len < 2 ^ 64"
    and "got = spec_read (unat start) (min (unat len) (unat buffer_length)) (mf_buffer f)"
  shows "mem_read_bytes start len (Some buf) buffer_length f =
    Some (NO_ERROR, Some (got @ drop (length got) buf), Some (of_nat (length got)))"
proof (cases "start > mf_buffer_length f")
  case True
  then have "got = []" using assms by (simp add: spec_read_def mem_file_wf_def word_less_nat_alt)
  with True show ?thesis by (simp add: mem_read_bytes_def)
next
  case False
  have len: "length (mf_buffer f) = unat (mf_buffer_length f)" using assms(1) by (simp add: mem_file_wf_def)
  have e: "unat (start + len) = unat start + unat len" using unat_add_no_wrap [OF assms(3)] .
  have s: "unat start \<le> unat (mf_buffer_length f)" using False by (simp add: word_less_nat_alt)
  then have d: "unat (mf_buffer_length f - start) = unat (mf_buffer_length f) - unat start"
    by (simp add: unat_sub word_le_nat_alt)
  define l where "l = (if start + len > mf_buffer_length f then mf_buffer_length f - start else len)"
  define k where "k = (if l > buffer_length then buffer_length else l)"
  have k: "unat k = length got"
    using s d e len by (auto simp: k_def l_def assms(4) spec_read_def word_less_nat_alt min_def)
  then have got: "got = take (unat k) (drop (unat start) (mf_buffer f))" "unat start + unat k \<le> length (mf_buffer f)"
    using len s by (auto simp: assms(4) spec_read_def min_def)
  have "unat k \<le> length buf" using assms(2) by (auto simp: k_def word_less_nat_alt)
  then have "mem_read_bytes start len (Some buf) buffer_length f = Some (NO_ERROR, Some (got @ drop (unat k) buf), Some k)"
    using False got len by (simp add: mem_read_bytes_def l_def [symmetric] k_def [symmetric] memcpy_def del: drop_drop)
  moreover have "k = of_nat (length got)" using k by (metis of_nat_unat ucast_id)
  ultimately show ?thesis using k by simp
qed

text \<open>
  A write of \<open>n = min(length, buffer_length)\<close> bytes whose end does not wrap around never panics
  and never leaves the buffer, reports \<open>n\<close> and keeps the length field right; afterwards any read
  whose end does not wrap returns exactly the bytes of the byte-string specification (the old
  contents overwritten at \<open>start\<close>, zero bytes in a gap), whatever fresh memory was filled with.
\<close>

theorem mem_read_after_write:
  assumes "mem_file_wf f" and "n = min (unat len) (unat buffer_length)" and "n \<le> length buffer"
    and "unat start + n < 2 ^ 64"
    and "unat out_length \<le> length out" and "unat from + unat len' < 2 ^ 64"
    and "got = spec_read (unat from) (min (unat len') (unat out_length))
           (spec_write (unat start) (take n buffer) (mf_buffer f))"
  shows "\<exists>f'. mem_write_bytes junk start len buffer buffer_length f = Some (NO_ERROR, of_nat n, f') \<and>
    mem_file_wf f' \<and>
    mem_read_bytes from len' (Some out) out_length f' =
      Some (NO_ERROR, Some (got @ drop (length got) out), Some (of_nat (length got)))"
  using mem_write_refines [OF assms(1-4), of junk] mem_read_refines [OF _ assms(5,6)] assms(7)
  by metis

definition sample_file :: mem_fs_leaf where
  "sample_file = \<lparr>mf_buffer = [1, 2, 3], mf_buffer_length = 3\<rparr>"

lemma sample_file_wf: "mem_file_wf sample_file"
  by (simp add: sample_file_def mem_file_wf_def)

lemma sample_file_spec:
  "spec_read 2 4 (spec_write 5 [7, 8] (mf_buffer sample_file)) = [3, 0, 0, 7]"
  by (simp add: sample_file_def spec_write_def spec_resize_def spec_read_def numeral_eq_Suc)

theorem mem_read_after_write_witness:
  "\<exists>f'. mem_write_bytes 0xCD 5 2 [7, 8] 2 sample_file = Some (NO_ERROR, 2, f') \<and>
     mem_read_bytes 2 10 (Some [0, 0, 0, 0]) 4 f' = Some (NO_ERROR, Some [3, 0, 0, 7], Some 4)"
  using mem_read_after_write [OF sample_file_wf, of 2 2 2 "[7, 8]" 5 4 "[0, 0, 0, 0]" 2 10 "[3, 0, 0, 7]" "0xCD"]
    sample_file_spec
  by auto

text \<open>
  The truncation test computes \<open>start + length\<close> modulo 2 to the 64, so a read inside the file whose
  end wraps around is not truncated: it is an access outside the file's buffer whenever the
  caller's buffer is longer than what the file has after \<open>start\<close>.
\<close>

theorem mem_read_wrap_out_of_bounds:
  assumes "mem_file_wf f" and "start \<le> mf_buffer_length f" and "unat start + unat len \<ge> 2 ^ 64"
    and "length (mf_buffer f) < unat start + unat buffer_length" and "buffer_length \<le> len"
  shows "mem_read_bytes start len (Some buf) buffer_length f = None"
proof -
  have "unat (start + len) = unat start + unat len - 2 ^ 64"
    using unat_add_wrap [OF assms(3)] .
  also have "\<dots> < unat start" using unat_lt_u64 [of len] assms(3) by simp
  finally have nt: "\<not> start + len > mf_buffer_length f"
    using assms(2) by (simp add: word_less_nat_alt word_le_nat_alt)
  moreover have "(if len > buffer_length then buffer_length else len) = buffer_length"
    using assms(5) by auto
  ultimately show ?thesis
    using assms(2,4) by (simp add: mem_read_bytes_def memcpy_def)
qed

theorem mem_read_wrap_out_of_bounds_witness:
  "mem_read_bytes 1 0xFFFFFFFFFFFFFFFF (Some (replicate 8 0)) 8 sample_file = None"
  using mem_read_wrap_out_of_bounds [of sample_file 1 "0xFFFFFFFFFFFFFFFF" 8]
  by (simp add: sample_file_def mem_file_wf_def)

end
