(* ===== verification/System_Tree.thy ===== *)
theory System_Tree
  imports Mem_File
begin

text \<open>
  The System Tree: \<open>split_name\<close> of \<open>kernel/system_tree/system_tree_branch.h\<close>, the class
  \<open>system_tree_simple_branch\<close>, its derived class \<open>mem_fs_branch\<close> and the root of
  \<open>system_tree_root.cpp\<close>.

  Leaves and branches are shared objects, so they live in a store indexed by object identity and a
  branch maps names to identities: the same object may be reached by several paths, and nothing
  keeps a branch from being added below itself. Each branch operation holds the branch's spinlock
  while it calls into a child branch. The locks held are an argument of the operations, and taking
  one that is held already has no result (\<^term>\<open>None\<close>), since the processor would spin for ever.
\<close>

subsection \<open>Names\<close>

definition bs :: char where
  "bs = CHR 0x5C"

fun find_char :: "char \<Rightarrow> string \<Rightarrow> nat option" where
  "find_char c [] = None"
| "find_char c (x # xs) = (if x = c then Some 0 else map_option Suc (find_char c xs))"

definition find_last_of :: "char \<Rightarrow> string \<Rightarrow> nat option" where
  "find_last_of c s = map_option (\<lambda>i. length s - 1 - i) (find_char c (rev s))"

definition split_name :: "string \<Rightarrow> bool \<Rightarrow> string \<times> string" where
  "split_name name_to_split split_from_end =
     (case (if split_from_end then find_last_of bs name_to_split else find_char bs name_to_split) of
        None \<Rightarrow> (name_to_split, [])
      | Some split_pos \<Rightarrow> (take split_pos name_to_split, drop (split_pos + 1) name_to_split))"

lemma find_char_less: "find_char c s = Some i \<Longrightarrow> i < length s"
  by (induction s arbitrary: i) (auto split: if_splits)

lemma split_name_shorter: "snd (split_name name False) \<noteq> [] \<Longrightarrow> length (snd (split_name name False)) < length name"
  by (auto simp: split_name_def split: option.splits dest: find_char_less)

subsection \<open>Objects\<close>

type_synonym oid = nat

datatype branch_kind = Simple_Branch | Mem_Fs_Branch

datatype st_object =
    Branch branch_kind "(string, oid) std_map"
  | Mem_Fs_Leaf mem_fs_leaf
  | Other_Leaf

record tree_state =
  st_objs :: "oid \<Rightarrow> st_object option"
  st_next :: oid

definition children_of :: "tree_state \<Rightarrow> oid \<Rightarrow> (string, oid) std_map option" where
  "children_of s b = (case st_objs s b of Some (Branch k ch) \<Rightarrow> Some ch | _ \<Rightarrow> None)"

definition set_children :: "oid \<Rightarrow> (string, oid) std_map \<Rightarrow> tree_state \<Rightarrow> tree_state" where
  "set_children b ch s =
     (case st_objs s b of
        Some (Branch k _) \<Rightarrow> s\<lparr>st_objs := (st_objs s)(b \<mapsto> Branch k ch)\<rparr>
      | _ \<Rightarrow> s)"

text \<open>The result of a dynamic cast to \<open>ISystemTreeBranch\<close> is not null.\<close>

definition is_branch :: "tree_state \<Rightarrow> oid \<Rightarrow> bool" where
  "is_branch s p \<longleftrightarrow> children_of s p \<noteq> None"

subsection \<open>Operations of system_tree_simple_branch\<close>

function get_child :: "tree_state \<Rightarrow> oid set \<Rightarrow> oid \<Rightarrow> string \<Rightarrow> (ERR_CODE \<times> oid option) option" where
  "get_child s held b name = do {
     children \<leftarrow> children_of s b;
     ASSERT (b \<notin> held);
     (case map_of children (fst (split_name name False)) of
        Some direct_child \<Rightarrow>
          if snd (split_name name False) \<noteq> [] then
            if is_branch s direct_child
            then get_child s (insert b held) direct_child (snd (split_name name False))
            else Some (NOT_FOUND, None)
          else Some (NO_ERROR, Some direct_child)
      | None \<Rightarrow> Some (NOT_FOUND, None))
   }"
  by pat_completeness auto
termination
  by (relation "measure (\<lambda>(s, held, b, name). length name)") (auto simp: split_name_shorter)

function add_child ::
  "tree_state \<Rightarrow> oid set \<Rightarrow> oid \<Rightarrow> string \<Rightarrow> oid option \<Rightarrow> (ERR_CODE \<times> tree_state) option" where
  "add_child s held b name child = do {
     children \<leftarrow> children_of s b;
     ASSERT (b \<notin> held);
     (case child of
        None \<Rightarrow> Some (INVALID_PARAM, s)
      | Some c \<Rightarrow>
          if name = [] then Some (INVALID_NAME, s)
          else (case find_char bs name of
              Some split_pos \<Rightarrow>
                (case map_of children (take split_pos name) of
                   None \<Rightarrow> Some (NOT_FOUND, s)
                 | Some child_branch \<Rightarrow>
                     if is_branch s child_branch
                     then add_child s (insert b held) child_branch (drop (split_pos + 1) name) child
                     else Some (INVALID_OP, s))
            | None \<Rightarrow>
                if map_contains children name then Some (ALREADY_EXISTS, s)
                else Some (NO_ERROR, set_children b (std_map_insert name c children) s)))
   }"
  by pat_completeness auto
termination
  by (relation "measure (\<lambda>(s, held, b, name, child). length name)") (auto dest: find_char_less)

text \<open>
  \<open>create_child_here\<close> is the virtual function: a simple branch refuses, a \<open>mem_fs_branch\<close> makes a
  new empty file.
\<close>

definition create_child_here :: "tree_state \<Rightarrow> oid \<Rightarrow> (ERR_CODE \<times> oid option \<times> tree_state) option" where
  "create_child_here s b =
     (case st_objs s b of
        Some (Branch Simple_Branch _) \<Rightarrow> Some (INVALID_OP, None, s)
      | Some (Branch Mem_Fs_Branch _) \<Rightarrow>
          Some (NO_ERROR, Some (st_next s),
            s\<lparr>st_objs := (st_objs s)(st_next s \<mapsto> Mem_Fs_Leaf mem_fs_leaf_new), st_next := st_next s + 1\<rparr>)
      | _ \<Rightarrow> None)"

function create_child :: "tree_state \<Rightarrow> oid \<Rightarrow> string \<Rightarrow> (ERR_CODE \<times> oid option \<times> tree_state) option" where
  "create_child s b name =
     (if snd (split_name name False) = [] then do {
        (result, child, s) \<leftarrow> create_child_here s b;
        if result = NO_ERROR then do {
          (result, s) \<leftarrow> add_child s {} b name child;
          Some (result, child, s)
        } else Some (result, child, s)
      } else do {
        (result, direct_child) \<leftarrow> get_child s {} b (fst (split_name name False));
        (case direct_child of
           Some descendant \<Rightarrow>
             if is_branch s descendant then create_child s descendant (snd (split_name name False))
             else Some (INVALID_OP, None, s)
         | None \<Rightarrow> Some (result, None, s))
      })"
  by pat_completeness auto
termination
  by (relation "measure (\<lambda>(s, b, name). length name)") (auto simp: split_name_shorter)

definition get_child_branch :: "tree_state \<Rightarrow> (string, oid) std_map \<Rightarrow> string \<Rightarrow> oid option" where
  "get_child_branch s children name =
     (case map_of children name of
        Some p \<Rightarrow> if is_branch s p then Some p else None
      | None \<Rightarrow> None)"

function rename_child ::
  "tree_state \<Rightarrow> oid set \<Rightarrow> oid \<Rightarrow> string \<Rightarrow> string \<Rightarrow> (ERR_CODE \<times> tree_state) option" where
  "rename_child s held b old_name new_name = do {
     children \<leftarrow> children_of s b;
     ASSERT (b \<notin> held);
     (case (find_char bs old_name, find_char bs new_name) of
        (Some old_dir_split, Some new_dir_split) \<Rightarrow>
          if old_dir_split = new_dir_split then
            if take old_dir_split new_name \<noteq> take old_dir_split old_name then Some (INVALID_OP, s)
            else if \<not> map_contains children (take old_dir_split old_name) then Some (NOT_FOUND, s)
            else (case get_child_branch s children (take old_dir_split old_name) of
                Some p \<Rightarrow> rename_child s (insert b held) p
                  (drop (old_dir_split + 1) old_name) (drop (new_dir_split + 1) new_name)
              | None \<Rightarrow> Some (NOT_FOUND, s))
          else Some (INVALID_OP, s)
      | (None, None) \<Rightarrow>
          (case map_of children old_name of
             Some l \<Rightarrow> Some (NO_ERROR,
               set_children b (std_map_insert new_name l (std_map_erase old_name children)) s)
           | None \<Rightarrow> Some (NOT_FOUND, s))
      | _ \<Rightarrow> Some (INVALID_OP, s))
   }"
  by pat_completeness auto
termination
  by (relation "measure (\<lambda>(s, held, b, old_name, new_name). length old_name)")
    (auto dest: find_char_less find_char_less [OF sym])

function delete_child :: "tree_state \<Rightarrow> oid set \<Rightarrow> oid \<Rightarrow> string \<Rightarrow> (ERR_CODE \<times> tree_state) option" where
  "delete_child s held b name = do {
     children \<leftarrow> children_of s b;
     ASSERT (b \<notin> held);
     (case find_char bs name of
        None \<Rightarrow>
          if map_contains children name
          then Some (NO_ERROR, set_children b (std_map_erase name children) s)
          else Some (NOT_FOUND, s)
      | Some split_pos \<Rightarrow>
          (case get_child_branch s children (take split_pos name) of
             Some branch \<Rightarrow> delete_child s (insert b held) branch (drop (split_pos + 1) name)
           | None \<Rightarrow> Some (NOT_FOUND, s)))
   }"
  by pat_completeness auto
termination
  by (relation "measure (\<lambda>(s, held, b, name). length name)") (auto dest: find_char_less)

definition num_children :: "tree_state \<Rightarrow> oid \<Rightarrow> (ERR_CODE \<times> u64) option" where
  "num_children s b = do {
     children \<leftarrow> children_of s b;
     Some (NO_ERROR, of_nat (length children))
   }"

text \<open>The loop of \<open>enum_children\<close> collects names until the map ends or \<open>max_count\<close> is reached.\<close>

fun enum_loop :: "u64 \<Rightarrow> u64 \<Rightarrow> (string, oid) std_map \<Rightarrow> string list" where
  "enum_loop max_count cur_count [] = []"
| "enum_loop max_count cur_count ((name, p) # it) =
     (if max_count = 0 \<or> max_count > cur_count then name # enum_loop max_count (cur_count + 1) it else [])"

definition enum_children :: "tree_state \<Rightarrow> oid \<Rightarrow> string \<Rightarrow> u64 \<Rightarrow> (ERR_CODE \<times> string list) option" where
  "enum_children s b start_from max_count = do {
     children \<leftarrow> children_of s b;
     let it = (if start_from \<noteq> [] then std_map_from start_from children else children);
     Some (NO_ERROR, enum_loop max_count 0 it)
   }"

subsection \<open>The root (system_tree_root.cpp)\<close>

text \<open>\<open>name[0]\<close> of an empty \<open>std::string\<close> is the terminating zero, which is not a backslash.\<close>

definition starts_at_root :: "string \<Rightarrow> bool" where
  "starts_at_root name \<longleftrightarrow> (case name of [] \<Rightarrow> False | c # _ \<Rightarrow> c = bs)"

definition root_get_child :: "tree_state \<Rightarrow> oid \<Rightarrow> string \<Rightarrow> (ERR_CODE \<times> oid option) option" where
  "root_get_child s root name =
     (if \<not> starts_at_root name then Some (NOT_FOUND, None)
      else if name = [bs] then Some (NO_ERROR, Some root)
      else get_child s {} root (drop 1 name))"

definition root_add_child :: "tree_state \<Rightarrow> oid \<Rightarrow> string \<Rightarrow> oid option \<Rightarrow> (ERR_CODE \<times> tree_state) option" where
  "root_add_child s root name child =
     (if \<not> starts_at_root name then Some (INVALID_OP, s) else add_child s {} root (drop 1 name) child)"

definition root_create_child :: "tree_state \<Rightarrow> oid \<Rightarrow> string \<Rightarrow> (ERR_CODE \<times> oid option \<times> tree_state) option" where
  "root_create_child s root name =
     (if \<not> starts_at_root name then Some (NOT_FOUND, None, s) else create_child s root (drop 1 name))"

definition root_rename_child :: "tree_state \<Rightarrow> oid \<Rightarrow> string \<Rightarrow> string \<Rightarrow> (ERR_CODE \<times> tree_state) option" where
  "root_rename_child s root old_name new_name =
     (if \<not> starts_at_root old_name \<or> \<not> starts_at_root new_name then Some (NOT_FOUND, s)
      else rename_child s {} root (drop 1 old_name) (drop 1 new_name))"

definition root_delete_child :: "tree_state \<Rightarrow> oid \<Rightarrow> string \<Rightarrow> (ERR_CODE \<times> tree_state) option" where
  "root_delete_child s root name =
     (if \<not> starts_at_root name then Some (NOT_FOUND, s)
      else if name = [bs] then Some (INVALID_OP, s)
      else delete_child s {} root (drop 1 name))"

declare get_child.simps [simp del] add_child.simps [simp del] create_child.simps [simp del]
  rename_child.simps [simp del] delete_child.simps [simp del]

subsection \<open>Paths\<close>

text \<open>A name is a list of directory names and a last name, none of which has a backslash.\<close>

definition plain :: "string \<Rightarrow> bool" where
  "plain n \<longleftrightarrow> bs \<notin> set n"

fun join_path :: "string list \<Rightarrow> string \<Rightarrow> string" where
  "join_path [] n = n"
| "join_path (d # ds) n = d @ bs # join_path ds n"

lemma find_char_plain: "plain n \<Longrightarrow> find_char bs n = None"
  by (induction n) (auto simp: plain_def)

lemma find_char_join: "plain d \<Longrightarrow> find_char bs (d @ bs # r) = Some (length d)"
  by (induction d) (auto simp: plain_def)

lemma split_plain: "plain n \<Longrightarrow> split_name n False = (n, [])"
  by (simp add: split_name_def find_char_plain)

lemma split_join: "plain d \<Longrightarrow> split_name (d @ bs # r) False = (d, r)"
  by (simp add: split_name_def find_char_join)

lemma find_last_join: "plain n \<Longrightarrow> find_last_of bs (r @ bs # n) = Some (length r)"
  using find_char_join [of "rev n" "rev r"] by (simp add: find_last_of_def plain_def)

lemma join_path_empty: "n \<noteq> [] \<Longrightarrow> join_path ds n \<noteq> []"
  by (cases ds) auto

lemma join_path_exists: "\<exists>ds n. name = join_path ds n \<and> (\<forall>d \<in> set ds. plain d) \<and> plain n"
proof (induction "length name" arbitrary: name rule: less_induct)
  case less
  show ?case
  proof (cases "plain name")
    case True
    then show ?thesis by (intro exI [of _ "[]"] exI [of _ name]) simp
  next
    case False
    then obtain d r where "name = d @ bs # r" "bs \<notin> set d"
      unfolding plain_def by (meson split_list_first)
    moreover from this less [of r] obtain ds n where "r = join_path ds n" "\<forall>d \<in> set ds. plain d" "plain n"
      by auto
    ultimately show ?thesis by (intro exI [of _ "d # ds"] exI [of _ n]) (auto simp: plain_def)
  qed
qed

text \<open>
  Following names from a branch. The error of meeting something that is not a branch differs
  between the operations and is the first argument.
\<close>

fun walk :: "ERR_CODE \<Rightarrow> tree_state \<Rightarrow> oid \<Rightarrow> string list \<Rightarrow> ERR_CODE + oid" where
  "walk e s b [] = Inr b"
| "walk e s b (n # ns) =
     (case children_of s b of
        None \<Rightarrow> Inl e
      | Some ch \<Rightarrow> (case map_of ch n of None \<Rightarrow> Inl NOT_FOUND | Some p \<Rightarrow> walk e s p ns))"

text \<open>The branch that holds the last name of a path, with its children.\<close>

definition parent_dir :: "ERR_CODE \<Rightarrow> tree_state \<Rightarrow> oid \<Rightarrow> string list \<Rightarrow> ERR_CODE + oid \<times> (string, oid) std_map" where
  "parent_dir e s b ds =
     (case walk e s b ds of
        Inl x \<Rightarrow> Inl x
      | Inr d \<Rightarrow> (case children_of s d of None \<Rightarrow> Inl e | Some ch \<Rightarrow> Inr (d, ch)))"

lemma parent_dir_Nil: "children_of s b = Some ch \<Longrightarrow> parent_dir e s b [] = Inr (b, ch)"
  by (simp add: parent_dir_def)

lemma parent_dir_Cons:
  "children_of s b = Some ch \<Longrightarrow> parent_dir e s b (d # ds) =
   (case map_of ch d of None \<Rightarrow> Inl NOT_FOUND | Some p \<Rightarrow> parent_dir e s p ds)"
  by (simp add: parent_dir_def split: option.splits)

lemma parent_dir_leaf: "\<not> is_branch s p \<Longrightarrow> parent_dir e s p ds = Inl e"
  by (cases ds) (simp_all add: parent_dir_def is_branch_def)

lemma walk_snoc:
  "walk e s b (ds @ [n]) = (case parent_dir e s b ds of
     Inl x \<Rightarrow> Inl x
   | Inr (d, ch) \<Rightarrow> (case map_of ch n of None \<Rightarrow> Inl NOT_FOUND | Some p \<Rightarrow> Inr p))"
  by (induction ds arbitrary: b)
    (auto simp: parent_dir_def split: option.splits sum.splits)

subsection \<open>The tree invariant\<close>

text \<open>
  Every branch has a proper map of its children, whose objects exist, and the graph is acyclic:
  a rank decreases from a branch to its children.
\<close>

definition ranked :: "(oid \<Rightarrow> nat) \<Rightarrow> tree_state \<Rightarrow> bool" where
  "ranked rank s \<longleftrightarrow> (\<forall>b ch. children_of s b = Some ch \<longrightarrow> std_map_wf ch \<and>
     (\<forall>n p. map_of ch n = Some p \<longrightarrow> st_objs s p \<noteq> None \<and> rank p < rank b)) \<and>
   (\<forall>p. st_objs s p \<noteq> None \<longrightarrow> p < st_next s)"

definition tree_wf :: "tree_state \<Rightarrow> bool" where
  "tree_wf s \<longleftrightarrow> (\<exists>rank. ranked rank s)"

lemma ranked_child:
  "ranked rank s \<Longrightarrow> children_of s b = Some ch \<Longrightarrow> map_of ch n = Some p \<Longrightarrow> st_objs s p \<noteq> None \<and> rank p < rank b"
  by (auto simp: ranked_def)

lemma ranked_wf: "ranked rank s \<Longrightarrow> children_of s b = Some ch \<Longrightarrow> std_map_wf ch"
  by (auto simp: ranked_def)

lemma ranked_held:
  assumes "ranked rank s" "children_of s b = Some ch" "map_of ch n = Some p" "\<forall>h \<in> held. rank b < rank h"
  shows "\<forall>h \<in> insert b held. rank p < rank h"
  using ranked_child [OF assms(1-3)] assms(4) by auto

lemma held_free: "\<forall>h \<in> held. rank b < rank h \<Longrightarrow> b \<notin> (held :: oid set)" for rank :: "oid \<Rightarrow> nat"
  by auto

lemma children_set [simp]:
  "children_of s b = Some ch \<Longrightarrow>
   children_of (set_children b ch' s) x = (if x = b then Some ch' else children_of s x)"
  by (auto simp: children_of_def set_children_def split: option.splits st_object.splits)

lemma objs_set: "children_of s b = Some ch \<Longrightarrow> st_objs (set_children b ch' s) x = None \<longleftrightarrow> st_objs s x = None"
  by (auto simp: children_of_def set_children_def split: option.splits st_object.splits)

lemma next_set [simp]: "st_next (set_children b ch s) = st_next s"
  by (auto simp: set_children_def split: option.splits st_object.splits)

lemma ranked_set_children:
  assumes "ranked rank s" "children_of s b = Some ch" "std_map_wf ch'"
    and "\<And>n p. map_of ch' n = Some p \<Longrightarrow> st_objs s p \<noteq> None \<and> rank p < rank b"
  shows "ranked rank (set_children b ch' s)"
  using assms by (auto simp: ranked_def objs_set [OF assms(2)])

subsection \<open>What the operations do\<close>

lemma get_child_walk:
  assumes "ranked rank s"
  shows "children_of s b \<noteq> None \<Longrightarrow> \<forall>h \<in> held. rank b < rank h \<Longrightarrow> \<forall>d \<in> set ds. plain d \<Longrightarrow> plain n \<Longrightarrow> n \<noteq> [] \<Longrightarrow>
    get_child s held b (join_path ds n) =
      Some (case walk NOT_FOUND s b (ds @ [n]) of Inl e \<Rightarrow> (e, None) | Inr p \<Rightarrow> (NO_ERROR, Some p))"
proof (induction ds arbitrary: b held)
  case Nil
  then obtain ch where "children_of s b = Some ch" by auto
  with Nil show ?case
    by (subst get_child.simps) (auto simp: split_plain held_free assert_simps split: option.splits)
next
  case (Cons d ds)
  then obtain ch where ch: "children_of s b = Some ch" by auto
  have ne: "join_path ds n \<noteq> []" using Cons.prems join_path_empty by auto
  show ?case
  proof (cases "map_of ch d")
    case None
    then show ?thesis using ch Cons.prems
      by (subst get_child.simps) (simp add: split_join held_free assert_simps)
  next
    case (Some p)
    have h: "\<forall>h \<in> insert b held. rank p < rank h"
      using ranked_held [OF assms ch Some] Cons.prems by simp
    show ?thesis
    proof (cases "is_branch s p")
      case True
      then show ?thesis using ch Some Cons.prems ne Cons.IH [OF _ h]
        by (subst get_child.simps) (simp add: split_join held_free assert_simps is_branch_def)
    next
      case False
      then have "walk NOT_FOUND s p (ds @ [n]) = Inl NOT_FOUND"
        by (cases ds) (auto simp: is_branch_def)
      then show ?thesis using ch Some Cons.prems ne False
        by (subst get_child.simps) (simp add: split_join held_free assert_simps)
    qed
  qed
qed

lemma add_child_parent:
  assumes "ranked rank s"
  shows "children_of s b \<noteq> None \<Longrightarrow> \<forall>h \<in> held. rank b < rank h \<Longrightarrow> \<forall>d \<in> set ds. plain d \<Longrightarrow> plain n \<Longrightarrow> n \<noteq> [] \<Longrightarrow>
    add_child s held b (join_path ds n) (Some c) =
      Some (case parent_dir INVALID_OP s b ds of
          Inl e \<Rightarrow> (e, s)
        | Inr (d, ch) \<Rightarrow> if map_contains ch n then (ALREADY_EXISTS, s)
            else (NO_ERROR, set_children d (std_map_insert n c ch) s))"
proof (induction ds arbitrary: b held)
  case Nil
  then obtain ch where "children_of s b = Some ch" by auto
  with Nil show ?case
    by (subst add_child.simps) (simp add: find_char_plain held_free assert_simps parent_dir_Nil)
next
  case (Cons d ds)
  then obtain ch where ch: "children_of s b = Some ch" by auto
  show ?case
  proof (cases "map_of ch d")
    case None
    then show ?thesis using ch Cons.prems
      by (subst add_child.simps) (simp add: find_char_join held_free assert_simps parent_dir_Cons [OF ch])
  next
    case (Some p)
    have h: "\<forall>h \<in> insert b held. rank p < rank h"
      using ranked_held [OF assms ch Some] Cons.prems by simp
    show ?thesis
    proof (cases "is_branch s p")
      case True
      then show ?thesis using ch Some Cons.prems Cons.IH [OF _ h]
        by (subst add_child.simps)
          (simp add: find_char_join held_free assert_simps is_branch_def parent_dir_Cons [OF ch])
    next
      case False
      then show ?thesis using ch Some Cons.prems
        by (subst add_child.simps)
          (simp add: find_char_join held_free assert_simps parent_dir_leaf parent_dir_Cons [OF ch])
    qed
  qed
qed

lemma get_child_branch_unfold:
  "get_child_branch s ch d = (case map_of ch d of Some p \<Rightarrow> if is_branch s p then Some p else None | None \<Rightarrow> None)"
  by (simp add: get_child_branch_def)

lemma delete_child_parent:
  assumes "ranked rank s"
  shows "children_of s b \<noteq> None \<Longrightarrow> \<forall>h \<in> held. rank b < rank h \<Longrightarrow> \<forall>d \<in> set ds. plain d \<Longrightarrow> plain n \<Longrightarrow>
    delete_child s held b (join_path ds n) =
      Some (case parent_dir NOT_FOUND s b ds of
          Inl e \<Rightarrow> (e, s)
        | Inr (d, ch) \<Rightarrow> if map_contains ch n then (NO_ERROR, set_children d (std_map_erase n ch) s)
            else (NOT_FOUND, s))"
proof (induction ds arbitrary: b held)
  case Nil
  then obtain ch where "children_of s b = Some ch" by auto
  with Nil show ?case
    by (subst delete_child.simps) (simp add: find_char_plain held_free assert_simps parent_dir_Nil)
next
  case (Cons d ds)
  then obtain ch where ch: "children_of s b = Some ch" by auto
  show ?case
  proof (cases "get_child_branch s ch d")
    case None
    then show ?thesis using ch Cons.prems
      by (subst delete_child.simps)
        (auto simp: find_char_join held_free assert_simps parent_dir_Cons [OF ch] parent_dir_leaf
          get_child_branch_unfold split: option.splits if_splits)
  next
    case (Some p)
    then have p: "map_of ch d = Some p" "is_branch s p"
      by (auto simp: get_child_branch_unfold split: option.splits if_splits)
    have h: "\<forall>h \<in> insert b held. rank p < rank h"
      using ranked_held [OF assms ch p(1)] Cons.prems by simp
    show ?thesis using ch p Some Cons.prems Cons.IH [OF _ h]
      by (subst delete_child.simps)
        (simp add: find_char_join held_free assert_simps is_branch_def parent_dir_Cons [OF ch])
  qed
qed

lemma rename_child_parent:
  assumes "ranked rank s"
  shows "children_of s b \<noteq> None \<Longrightarrow> \<forall>h \<in> held. rank b < rank h \<Longrightarrow> \<forall>d \<in> set ds. plain d \<Longrightarrow>
    plain old \<Longrightarrow> plain new \<Longrightarrow>
    rename_child s held b (join_path ds old) (join_path ds new) =
      Some (case parent_dir NOT_FOUND s b ds of
          Inl e \<Rightarrow> (e, s)
        | Inr (d, ch) \<Rightarrow> (case map_of ch old of
              Some l \<Rightarrow> (NO_ERROR, set_children d (std_map_insert new l (std_map_erase old ch)) s)
            | None \<Rightarrow> (NOT_FOUND, s)))"
proof (induction ds arbitrary: b held)
  case Nil
  then obtain ch where "children_of s b = Some ch" by auto
  with Nil show ?case
    by (subst rename_child.simps)
      (simp add: find_char_plain held_free assert_simps parent_dir_Nil split: option.splits)
next
  case (Cons d ds)
  then obtain ch where ch: "children_of s b = Some ch" by auto
  show ?case
  proof (cases "get_child_branch s ch d")
    case None
    then show ?thesis using ch Cons.prems
      by (subst rename_child.simps)
        (auto simp: find_char_join held_free assert_simps parent_dir_Cons [OF ch] parent_dir_leaf
          get_child_branch_unfold map_contains_def split: option.splits if_splits)
  next
    case (Some p)
    then have p: "map_of ch d = Some p" "is_branch s p"
      by (auto simp: get_child_branch_unfold split: option.splits if_splits)
    have h: "\<forall>h \<in> insert b held. rank p < rank h"
      using ranked_held [OF assms ch p(1)] Cons.prems by simp
    show ?thesis using ch p Some Cons.prems Cons.IH [OF _ h]
      by (subst rename_child.simps)
        (simp add: find_char_join held_free assert_simps is_branch_def parent_dir_Cons [OF ch] map_contains_def)
  qed
qed

subsection \<open>Reachability and the effect of an added entry\<close>

definition reaches :: "tree_state \<Rightarrow> oid \<Rightarrow> oid \<Rightarrow> bool" where
  "reaches s c d \<longleftrightarrow> (\<exists>ns. walk NOT_FOUND s c ns = Inr d)"

lemma reaches_refl: "reaches s c c"
  by (auto simp: reaches_def intro: exI [of _ "[]"])

lemma walk_append:
  "walk e s b (ns @ ms) = (case walk e s b ns of Inl x \<Rightarrow> Inl x | Inr p \<Rightarrow> walk e s p ms)"
  by (induction ns arbitrary: b) (auto split: option.splits)

lemma reaches_step:
  assumes "reaches s c b" "children_of s b = Some ch" "map_of ch n = Some p"
  shows "reaches s c p"
proof -
  obtain ns where "walk NOT_FOUND s c ns = Inr b" using assms(1) by (auto simp: reaches_def)
  then have "walk NOT_FOUND s c (ns @ [n]) = Inr p" using assms(2,3) by (simp add: walk_append)
  then show ?thesis by (auto simp: reaches_def)
qed

lemma ranked_above:
  assumes "ranked rank s" and "\<not> reaches s c d"
  shows "\<exists>rank'. ranked rank' s \<and> rank' c < rank' d"
proof -
  let ?r = "\<lambda>x. rank x + (if reaches s c x then 0 else Suc (rank c))"
  have "ranked ?r s"
    using assms(1) by (auto simp: ranked_def intro!: less_SucI trans_less_add1 dest: reaches_step)
  moreover have "?r c < ?r d" using assms(2) by (simp add: reaches_refl)
  ultimately show ?thesis by blast
qed

lemma tree_wf_add:
  assumes "tree_wf s" "children_of s d = Some ch" "st_objs s c \<noteq> None" "\<not> reaches s c d"
    "\<not> map_contains ch n"
  shows "tree_wf (set_children d (std_map_insert n c ch) s)"
proof -
  obtain rank where r: "ranked rank s" "rank c < rank d"
    using assms(1,4) ranked_above by (metis tree_wf_def)
  have wf: "std_map_wf ch" using ranked_wf [OF r(1) assms(2)] .
  have "ranked rank (set_children d (std_map_insert n c ch) s)"
  proof (rule ranked_set_children [OF r(1) assms(2)])
    show "std_map_wf (std_map_insert n c ch)" using wf by simp
    show "st_objs s p \<noteq> None \<and> rank p < rank d" if "map_of (std_map_insert n c ch) m = Some p" for m p
      using that wf assms(3,5) r ranked_child [OF r(1) assms(2)]
      by (auto simp: map_of_insert split: if_splits)
  qed
  then show ?thesis by (auto simp: tree_wf_def)
qed

lemma tree_wf_shrink:
  assumes "tree_wf s" "children_of s d = Some ch" "std_map_wf ch'" "ran (map_of ch') \<subseteq> ran (map_of ch)"
  shows "tree_wf (set_children d ch' s)"
proof -
  obtain rank where r: "ranked rank s" using assms by (auto simp: tree_wf_def)
  have "ranked rank (set_children d ch' s)"
  proof (rule ranked_set_children [OF r assms(2,3)])
    show "st_objs s p \<noteq> None \<and> rank p < rank d" if "map_of ch' m = Some p" for m p
    proof -
      have "p \<in> ran (map_of ch)" using that assms(4) by (auto intro: ranI)
      then obtain k where "map_of ch k = Some p" by (auto simp: ran_def)
      then show ?thesis using ranked_child [OF r assms(2)] by simp
    qed
  qed
  then show ?thesis by (auto simp: tree_wf_def)
qed

lemma walk_extend:
  assumes "children_of s d = Some ch" "map_of ch \<subseteq>\<^sub>m map_of ch'"
  shows "walk e s b ns = Inr q \<Longrightarrow> walk e (set_children d ch' s) b ns = Inr q"
proof (induction ns arbitrary: b)
  case (Cons n ns)
  then obtain cb p where cb: "children_of s b = Some cb" "map_of cb n = Some p" "walk e s p ns = Inr q"
    by (auto split: option.splits)
  have "map_of ch' n = Some p" if "b = d"
    using that cb assms by (auto simp: map_le_def dom_def)
  with cb Cons.IH assms(1) show ?case by auto
qed simp

text \<open>A directory path from a branch reaches the same directory after a change below it.\<close>

lemma walk_above:
  assumes "ranked rank s" "children_of s d = Some ch"
  shows "walk e s b ds = Inr d \<Longrightarrow> walk e (set_children d ch' s) b ds = Inr d"
proof (induction ds arbitrary: b)
  case (Cons n ns)
  then obtain cb p where cb: "children_of s b = Some cb" "map_of cb n = Some p" "walk e s p ns = Inr d"
    by (auto split: option.splits)
  have down: "rank d \<le> rank p" if "walk e s p ns = Inr d" for p ns
    using that
  proof (induction ns arbitrary: p)
    case (Cons m ms)
    then show ?case using ranked_child [OF assms(1)] by (fastforce split: option.splits)
  qed simp
  have "b \<noteq> d" using ranked_child [OF assms(1) cb(1,2)] down [OF cb(3)] by auto
  with cb Cons.IH assms(2) show ?case by simp
qed simp

lemma parent_dir_set:
  assumes "tree_wf s" "parent_dir e s b ds = Inr (d, ch)"
  shows "parent_dir e' (set_children d ch' s) b ds = Inr (d, ch')"
proof -
  obtain rank where r: "ranked rank s" using assms by (auto simp: tree_wf_def)
  have d: "walk e s b ds = Inr d" "children_of s d = Some ch"
    using assms(2) by (auto simp: parent_dir_def split: sum.splits option.splits)
  have "walk e' s b ds = Inr d" using d(1) by (induction ds arbitrary: b) (auto split: option.splits)
  then show ?thesis using walk_above [OF r d(2)] d(2) by (simp add: parent_dir_def)
qed

lemma parent_dir_error: "parent_dir e s b ds = Inr x \<Longrightarrow> parent_dir e' s b ds = Inr x"
proof -
  assume a: "parent_dir e s b ds = Inr x"
  have "walk e s b ds = Inr p \<Longrightarrow> walk e' s b ds = Inr p" for p
    by (induction ds arbitrary: b) (auto split: option.splits)
  with a show ?thesis by (auto simp: parent_dir_def split: sum.splits option.splits)
qed

lemma starts_at_root_Cons [simp]: "starts_at_root (bs # n)"
  by (simp add: starts_at_root_def)

lemma root_get_join:
  assumes "tree_wf s" "is_branch s root" "\<forall>d \<in> set ds. plain d" "plain n" "n \<noteq> []"
  shows "root_get_child s root (bs # join_path ds n) =
     Some (case walk NOT_FOUND s root (ds @ [n]) of Inl e \<Rightarrow> (e, None) | Inr p \<Rightarrow> (NO_ERROR, Some p))"
proof -
  obtain rank where "ranked rank s" using assms(1) by (auto simp: tree_wf_def)
  from get_child_walk [OF this, of root "{}" ds n] show ?thesis
    using assms by (simp add: root_get_child_def is_branch_def join_path_empty)
qed

subsection \<open>Properties\<close>

text \<open>
  C11. In a well-formed tree a look-up by a full path never dead-locks. It follows the names from the
  root branch by branch and returns the object they lead to; it fails with NOT_FOUND when a name is
  missing or something on the way is not a branch.
\<close>

theorem tree_get_resolves:
  assumes "tree_wf s" and "is_branch s root" and "\<forall>d \<in> set ds. plain d" and "plain n" and "n \<noteq> []"
  shows "root_get_child s root (bs # join_path ds n) =
     Some (case walk NOT_FOUND s root (ds @ [n]) of Inl e \<Rightarrow> (e, None) | Inr p \<Rightarrow> (NO_ERROR, Some p))"
  using root_get_join [OF assms] .

text \<open>
  Adding an object under a path: the request fails with the error of the way there, or with
  ALREADY_EXISTS when the name is taken, and then nothing changes. Otherwise the new path leads to the
  object, every path that led somewhere before leads to the same object still, and, if the object
  does not itself lead to the directory, the tree stays well-formed.
\<close>

theorem tree_add_correct:
  assumes "tree_wf s" and "is_branch s root" and "\<forall>d \<in> set ds. plain d" and "plain n" and "n \<noteq> []"
    and "st_objs s c \<noteq> None"
  shows "case parent_dir INVALID_OP s root ds of
      Inl e \<Rightarrow> root_add_child s root (bs # join_path ds n) (Some c) = Some (e, s)
    | Inr (d, ch) \<Rightarrow>
        if map_contains ch n then root_add_child s root (bs # join_path ds n) (Some c) = Some (ALREADY_EXISTS, s)
        else (\<exists>s'. root_add_child s root (bs # join_path ds n) (Some c) = Some (NO_ERROR, s') \<and>
          walk NOT_FOUND s' root (ds @ [n]) = Inr c \<and>
          (\<forall>b ns q. walk NOT_FOUND s b ns = Inr q \<longrightarrow> walk NOT_FOUND s' b ns = Inr q) \<and>
          (\<not> reaches s c d \<longrightarrow> tree_wf s' \<and>
             root_get_child s' root (bs # join_path ds n) = Some (NO_ERROR, Some c)))"
proof -
  obtain rank where r: "ranked rank s" using assms(1) by (auto simp: tree_wf_def)
  have add: "root_add_child s root (bs # join_path ds n) (Some c) =
      Some (case parent_dir INVALID_OP s root ds of
          Inl e \<Rightarrow> (e, s)
        | Inr (d, ch) \<Rightarrow> if map_contains ch n then (ALREADY_EXISTS, s)
            else (NO_ERROR, set_children d (std_map_insert n c ch) s))"
    using add_child_parent [OF r, of root "{}" ds n c] assms by (simp add: root_add_child_def is_branch_def)
  show ?thesis
  proof (cases "parent_dir INVALID_OP s root ds")
    case (Inl e)
    with add show ?thesis by simp
  next
    case (Inr x)
    then obtain d ch where dc: "parent_dir INVALID_OP s root ds = Inr (d, ch)" by (cases x) auto
    then have d: "children_of s d = Some ch" by (auto simp: parent_dir_def split: sum.splits option.splits)
    show ?thesis
    proof (cases "map_contains ch n")
      case True
      with add dc show ?thesis by simp
    next
      case False
      let ?s' = "set_children d (std_map_insert n c ch) s"
      have wf: "std_map_wf ch" using ranked_wf [OF r d] .
      have w: "walk NOT_FOUND ?s' root (ds @ [n]) = Inr c"
        using parent_dir_set [OF assms(1) dc, of NOT_FOUND] wf False by (simp add: walk_snoc map_of_insert)
      have keep: "\<forall>b ns q. walk NOT_FOUND s b ns = Inr q \<longrightarrow> walk NOT_FOUND ?s' b ns = Inr q"
        using walk_extend [OF d std_map_extend [OF wf]] by blast
      have br: "is_branch ?s' root" using assms(2) d by (simp add: is_branch_def)
      have "tree_wf ?s' \<and> root_get_child ?s' root (bs # join_path ds n) = Some (NO_ERROR, Some c)"
        if "\<not> reaches s c d"
        using root_get_join [OF tree_wf_add [OF assms(1) d assms(6) that False] br assms(3-5)] w
          tree_wf_add [OF assms(1) d assms(6) that False] by simp
      with add dc False w keep show ?thesis by simp
    qed
  qed
qed

text \<open>
  Deleting a path that leads to an entry of a branch succeeds, removes exactly that entry, keeps the
  tree well-formed, and the path then leads nowhere; a path that leads nowhere is refused with
  NOT_FOUND and nothing changes.
\<close>

theorem tree_delete_correct:
  assumes "tree_wf s" and "is_branch s root" and "\<forall>d \<in> set ds. plain d" and "plain n" and "n \<noteq> []"
  shows "case walk NOT_FOUND s root (ds @ [n]) of
      Inl e \<Rightarrow> root_delete_child s root (bs # join_path ds n) = Some (NOT_FOUND, s)
    | Inr p \<Rightarrow> (\<exists>s' d ch. root_delete_child s root (bs # join_path ds n) = Some (NO_ERROR, s') \<and> tree_wf s' \<and>
        parent_dir NOT_FOUND s root ds = Inr (d, ch) \<and>
        children_of s' = (children_of s)(d \<mapsto> std_map_erase n ch) \<and>
        root_get_child s' root (bs # join_path ds n) = Some (NOT_FOUND, None))"
proof -
  obtain rank where r: "ranked rank s" using assms(1) by (auto simp: tree_wf_def)
  have del: "root_delete_child s root (bs # join_path ds n) =
      Some (case parent_dir NOT_FOUND s root ds of
          Inl e \<Rightarrow> (e, s)
        | Inr (d, ch) \<Rightarrow> if map_contains ch n then (NO_ERROR, set_children d (std_map_erase n ch) s)
            else (NOT_FOUND, s))"
    using delete_child_parent [OF r, of root "{}" ds n] assms
    by (simp add: root_delete_child_def is_branch_def join_path_empty)
  have err: "walk NOT_FOUND s b ns = Inl e \<Longrightarrow> e = NOT_FOUND" for b ns e
    by (induction ns arbitrary: b) (auto split: option.splits)
  show ?thesis
  proof (cases "walk NOT_FOUND s root (ds @ [n])")
    case (Inl e)
    then have "root_delete_child s root (bs # join_path ds n) = Some (NOT_FOUND, s)"
      using err [OF Inl] del by (auto simp: walk_snoc map_contains_def split: sum.splits option.splits)
    with Inl show ?thesis by simp
  next
    case (Inr p)
    then obtain d ch where dc: "parent_dir NOT_FOUND s root ds = Inr (d, ch)" "map_of ch n = Some p"
      by (auto simp: walk_snoc split: sum.splits option.splits)
    then have d: "children_of s d = Some ch" by (auto simp: parent_dir_def split: sum.splits option.splits)
    let ?s' = "set_children d (std_map_erase n ch) s"
    have wf: "tree_wf ?s'"
      using ranked_wf [OF r d] by (intro tree_wf_shrink [OF assms(1) d]) (auto simp: ran_def)
    moreover have "is_branch ?s' root" using assms(2) d by (simp add: is_branch_def)
    ultimately have "root_get_child ?s' root (bs # join_path ds n) = Some (NOT_FOUND, None)"
      using root_get_join [of ?s' root ds n] assms parent_dir_set [OF assms(1) dc(1), of NOT_FOUND]
      by (simp add: walk_snoc)
    moreover have "children_of ?s' = (children_of s)(d \<mapsto> std_map_erase n ch)"
      using d by (simp add: fun_eq_iff)
    ultimately show ?thesis using Inr del dc wf by (simp add: map_contains_def)
  qed
qed

text \<open>
  Renaming an entry within its branch to a name that is free: the new path leads to the object, the
  old one leads nowhere, and the tree stays well-formed. Renaming it onto a name that is taken also
  reports success, but the entry is lost: the new path still leads to the object that had that name,
  and the branch no longer has an entry for the renamed object under the old name or the new one.
\<close>

theorem tree_rename_correct:
  assumes "tree_wf s" and "is_branch s root" and "\<forall>d \<in> set ds. plain d" and "plain old" and "plain new"
    and "old \<noteq> []" and "new \<noteq> []" and "old \<noteq> new" and "walk NOT_FOUND s root (ds @ [old]) = Inr l"
  shows "\<exists>s'. root_rename_child s root (bs # join_path ds old) (bs # join_path ds new) = Some (NO_ERROR, s') \<and>
     tree_wf s' \<and> root_get_child s' root (bs # join_path ds old) = Some (NOT_FOUND, None) \<and>
     root_get_child s' root (bs # join_path ds new) =
       (case walk NOT_FOUND s root (ds @ [new]) of
          Inl _ \<Rightarrow> Some (NO_ERROR, Some l) | Inr w \<Rightarrow> Some (NO_ERROR, Some w))"
proof -
  obtain rank where r: "ranked rank s" using assms(1) by (auto simp: tree_wf_def)
  obtain d ch where dc: "parent_dir NOT_FOUND s root ds = Inr (d, ch)" "map_of ch old = Some l"
    using assms(9) by (auto simp: walk_snoc split: sum.splits option.splits)
  then have d: "children_of s d = Some ch" by (auto simp: parent_dir_def split: sum.splits option.splits)
  have wf: "std_map_wf ch" using ranked_wf [OF r d] .
  let ?ch = "std_map_insert new l (std_map_erase old ch)"
  let ?s' = "set_children d ?ch s"
  have ren: "root_rename_child s root (bs # join_path ds old) (bs # join_path ds new) = Some (NO_ERROR, ?s')"
    using rename_child_parent [OF r, of root "{}" ds old new] assms dc
    by (simp add: root_rename_child_def is_branch_def)
  have look: "map_of ?ch = (case map_of ch new of
      None \<Rightarrow> (map_of ch)(old := None, new := Some l) | Some w \<Rightarrow> (map_of ch)(old := None))"
    using smap.move_free [OF wf dc(2), of new] smap.move_onto_existing [OF wf dc(2), of new] assms(8)
    by (auto split: option.splits)
  have wf': "tree_wf ?s'"
    using wf dc(2) by (intro tree_wf_shrink [OF assms(1) d])
      (auto simp: look ran_def split: option.splits if_splits)
  have br: "is_branch ?s' root" using assms(2) d by (simp add: is_branch_def)
  have pd: "parent_dir NOT_FOUND ?s' root ds = Inr (d, ?ch)"
    using parent_dir_set [OF assms(1) dc(1)] .
  have "root_get_child ?s' root (bs # join_path ds old) = Some (NOT_FOUND, None)"
    using root_get_join [OF wf' br assms(3,4,6)] pd assms(8)
    by (simp add: walk_snoc look split: option.splits)
  moreover have "root_get_child ?s' root (bs # join_path ds new) =
       (case walk NOT_FOUND s root (ds @ [new]) of
          Inl _ \<Rightarrow> Some (NO_ERROR, Some l) | Inr w \<Rightarrow> Some (NO_ERROR, Some w))"
    using root_get_join [OF wf' br assms(3,5,7)] pd dc assms(8)
    by (simp add: walk_snoc look split: option.splits)
  ultimately show ?thesis using ren wf' by blast
qed

lemma enum_loop_all: "enum_loop 0 c m = map fst m"
  by (induction m arbitrary: c) auto

lemma enum_loop_take:
  "unat c \<le> unat k \<Longrightarrow> k \<noteq> 0 \<Longrightarrow> enum_loop k c m = take (unat k - unat c) (map fst m)"
proof (induction m arbitrary: c)
  case (Cons p m)
  show ?case
  proof (cases "c < k")
    case True
    then have "unat c < unat k" by (simp add: word_less_nat_alt)
    then have "unat (c + 1) = unat c + 1" using unat_lt_u64 [of k] by (simp add: unat_word_ariths)
    moreover have "unat k - unat c = Suc (unat k - Suc (unat c))" using \<open>unat c < unat k\<close> by simp
    ultimately show ?thesis using True Cons.IH [of "c + 1"] Cons.prems \<open>unat c < unat k\<close>
      by (cases p) simp
  next
    case False
    then have "unat k \<le> unat c" by (simp add: word_less_nat_alt)
    with False Cons.prems show ?thesis by (cases p) simp
  qed
qed simp

text \<open>
  Enumerating a branch gives the names of its children from \<open>start_from\<close> on, in strictly increasing
  order, without repetition, and at most \<open>max_count\<close> of them (all of them when it is 0).
\<close>

theorem tree_enum_correct:
  assumes "tree_wf s" and "children_of s b = Some ch"
    and "names = map fst (filter (\<lambda>p. start_from \<le> fst p) ch)"
  shows "enum_children s b start_from max_count =
     Some (NO_ERROR, if max_count = 0 then names else take (unat max_count) names) \<and>
   sorted_wrt (<) names \<and> set names = {n. start_from \<le> n \<and> map_of ch n \<noteq> None}"
proof -
  obtain rank where "ranked rank s" using assms(1) by (auto simp: tree_wf_def)
  then have wf: "std_map_wf ch" using ranked_wf assms(2) by blast
  have "(if start_from \<noteq> [] then std_map_from start_from ch else ch) = filter (\<lambda>p. start_from \<le> fst p) ch"
    using std_map_from_filter [OF wf] by simp
  then have "enum_children s b start_from max_count =
     Some (NO_ERROR, if max_count = 0 then names else take (unat max_count) names)"
    using assms(2,3) by (simp add: enum_children_def enum_loop_all enum_loop_take)
  moreover have "sorted_wrt (<) names"
    using wf by (simp add: assms(3) std_map_wf_def sorted_wrt_map sorted_wrt_filter)
  moreover have "set names = {n. start_from \<le> n \<and> map_of ch n \<noteq> None}"
    by (auto simp: assms(3) map_of_eq_None_iff simp del: not_None_eq)
  ultimately show ?thesis by blast
qed

subsection \<open>Creating files\<close>

lemma create_child_parent:
  assumes "ranked rank s"
  shows "children_of s b \<noteq> None \<Longrightarrow> \<forall>d \<in> set ds. plain d \<Longrightarrow> plain n \<Longrightarrow> n \<noteq> [] \<Longrightarrow>
    create_child s b (join_path ds n) =
      (case parent_dir INVALID_OP s b ds of
          Inl e \<Rightarrow> Some (e, None, s)
        | Inr (d, ch) \<Rightarrow> create_child s d n)"
proof (induction ds arbitrary: b)
  case Nil
  then show ?case by (auto simp: parent_dir_Nil)
next
  case (Cons d ds)
  then obtain ch where ch: "children_of s b = Some ch" by auto
  have ne: "join_path ds n \<noteq> []" using Cons.prems join_path_empty by auto
  have g: "get_child s {} b d = Some (case map_of ch d of None \<Rightarrow> (NOT_FOUND, None) | Some p \<Rightarrow> (NO_ERROR, Some p))"
    using ch Cons.prems by (subst get_child.simps) (simp add: split_plain split: option.splits)
  show ?case
  proof (cases "map_of ch d")
    case None
    then show ?thesis using g ne Cons.prems
      by (subst create_child.simps) (simp add: split_join parent_dir_Cons [OF ch])
  next
    case (Some p)
    show ?thesis
    proof (cases "is_branch s p")
      case True
      then show ?thesis using g ne Some Cons.prems Cons.IH [of p]
        by (subst create_child.simps) (simp add: split_join parent_dir_Cons [OF ch] is_branch_def)
    next
      case False
      then show ?thesis using g ne Some Cons.prems
        by (subst create_child.simps) (simp add: split_join parent_dir_Cons [OF ch] parent_dir_leaf)
    qed
  qed
qed

definition with_new_file :: "tree_state \<Rightarrow> tree_state" where
  "with_new_file s = s\<lparr>st_objs := (st_objs s)(st_next s \<mapsto> Mem_Fs_Leaf mem_fs_leaf_new), st_next := st_next s + 1\<rparr>"

lemma children_new_file:
  "st_objs s (st_next s) = None \<Longrightarrow> children_of (with_new_file s) = children_of s"
  by (auto simp: children_of_def with_new_file_def fun_eq_iff)

lemma tree_wf_new_file:
  assumes "tree_wf s"
  shows "tree_wf (with_new_file s)" and "children_of (with_new_file s) = children_of s"
proof -
  obtain rank where r: "ranked rank s" using assms by (auto simp: tree_wf_def)
  then have fresh: "st_objs s (st_next s) = None" by (auto simp: ranked_def)
  then show c: "children_of (with_new_file s) = children_of s" by (rule children_new_file)
  have "ranked rank (with_new_file s)"
    using r unfolding ranked_def c by (auto simp: with_new_file_def less_SucI)
  then show "tree_wf (with_new_file s)" by (auto simp: tree_wf_def)
qed

lemma walk_children_cong: "children_of s' = children_of s \<Longrightarrow> walk e s' b ns = walk e s b ns"
  by (induction ns arbitrary: b) (auto split: option.splits)

lemma fresh_not_reaching:
  assumes "tree_wf s" "children_of s d \<noteq> None"
  shows "\<not> reaches (with_new_file s) (st_next s) d"
proof -
  obtain rank where "ranked rank s" using assms by (auto simp: tree_wf_def)
  then have "children_of s (st_next s) = None" by (auto simp: ranked_def children_of_def split: option.splits)
  moreover from this assms(2) have "d \<noteq> st_next s" by auto
  moreover have "walk NOT_FOUND (with_new_file s) (st_next s) ns = Inr d \<Longrightarrow> ns = [] \<and> d = st_next s" for ns
    using calculation tree_wf_new_file(2) [OF assms(1)] by (cases ns) auto
  ultimately show ?thesis by (auto simp: reaches_def)
qed

text \<open>
  Creating a path in an in-memory file system directory, where the name is free, makes a new empty
  file: the object is fresh, the path leads to it, the paths of before are kept and the tree stays
  well-formed. In a plain branch creation is refused and nothing changes.
\<close>

theorem tree_create_correct:
  assumes "tree_wf s" and "is_branch s root" and "\<forall>d \<in> set ds. plain d" and "plain n" and "n \<noteq> []"
    and "parent_dir INVALID_OP s root ds = Inr (d, ch)" and "map_of ch n = None" and "st_objs s d = Some (Branch k ch)"
  shows "if k = Mem_Fs_Branch then
      (\<exists>s'. root_create_child s root (bs # join_path ds n) = Some (NO_ERROR, Some (st_next s), s') \<and>
        tree_wf s' \<and> st_objs s (st_next s) = None \<and> st_objs s' (st_next s) = Some (Mem_Fs_Leaf mem_fs_leaf_new) \<and>
        root_get_child s' root (bs # join_path ds n) = Some (NO_ERROR, Some (st_next s)) \<and>
        (\<forall>b ns q. walk NOT_FOUND s b ns = Inr q \<longrightarrow> walk NOT_FOUND s' b ns = Inr q))
    else root_create_child s root (bs # join_path ds n) = Some (INVALID_OP, None, s)"
proof -
  obtain rank where r: "ranked rank s" using assms(1) by (auto simp: tree_wf_def)
  have d: "children_of s d = Some ch" using assms(8) by (simp add: children_of_def)
  have top: "root_create_child s root (bs # join_path ds n) = create_child s d n"
    using create_child_parent [OF r, of root ds n] assms by (simp add: root_create_child_def is_branch_def)
  show ?thesis
  proof (cases k)
    case Simple_Branch
    then show ?thesis using top assms
      by (subst (asm) create_child.simps) (simp add: split_plain create_child_here_def)
  next
    case Mem_Fs_Branch
    let ?s1 = "with_new_file s" and ?c = "st_next s"
    let ?s' = "set_children d (std_map_insert n ?c ch) ?s1"
    have fresh: "st_objs s ?c = None" using r by (auto simp: ranked_def)
    then have dc: "d \<noteq> ?c" using assms(8) by auto
    have s1: "tree_wf ?s1" "children_of ?s1 = children_of s" using tree_wf_new_file [OF assms(1)] by auto
    have here: "create_child_here s d = Some (NO_ERROR, Some ?c, ?s1)"
      using assms(8) Mem_Fs_Branch by (simp add: create_child_here_def with_new_file_def)
    have d1: "children_of ?s1 d = Some ch" using s1 d by simp
    have nm: "\<not> map_contains ch n" using assms(7) by (simp add: map_contains_def)
    have "add_child ?s1 {} d n (Some ?c) = Some (NO_ERROR, ?s')"
      using d1 assms(4,5) nm by (subst add_child.simps) (simp add: find_char_plain)
    then have cr: "create_child s d n = Some (NO_ERROR, Some ?c, ?s')"
      using here assms(4) by (subst create_child.simps) (simp add: split_plain)
    have wf': "tree_wf ?s'"
      using fresh_not_reaching [OF assms(1), of d] d
      by (intro tree_wf_add [OF s1(1) d1 _ _ nm]) (simp_all add: with_new_file_def)
    have chwf: "std_map_wf ch" using ranked_wf [OF r d] .
    have pd: "parent_dir NOT_FOUND ?s1 root ds = Inr (d, ch)"
      using parent_dir_error [OF assms(6), of NOT_FOUND]
      unfolding parent_dir_def s1(2) walk_children_cong [OF s1(2)] .
    have "walk NOT_FOUND ?s' root (ds @ [n]) = Inr ?c"
      using parent_dir_set [OF s1(1) pd, of NOT_FOUND] chwf nm by (simp add: walk_snoc map_of_insert)
    moreover have "is_branch ?s' root" using assms(2) d1 s1(2) by (simp add: is_branch_def)
    ultimately have get: "root_get_child ?s' root (bs # join_path ds n) = Some (NO_ERROR, Some ?c)"
      using root_get_join [OF wf' _ assms(3-5)] by simp
    have keep: "\<forall>b ns q. walk NOT_FOUND s b ns = Inr q \<longrightarrow> walk NOT_FOUND ?s' b ns = Inr q"
      using walk_extend [OF d1 std_map_extend [OF chwf]] by (simp add: walk_children_cong [OF s1(2)])
    have obj: "st_objs ?s' ?c = Some (Mem_Fs_Leaf mem_fs_leaf_new)"
      using assms(8) dc by (simp add: set_children_def with_new_file_def)
    have "root_create_child s root (bs # join_path ds n) = Some (NO_ERROR, Some ?c, ?s') \<and>
        tree_wf ?s' \<and> st_objs s ?c = None \<and> st_objs ?s' ?c = Some (Mem_Fs_Leaf mem_fs_leaf_new) \<and>
        root_get_child ?s' root (bs # join_path ds n) = Some (NO_ERROR, Some ?c) \<and>
        (\<forall>b ns q. walk NOT_FOUND s b ns = Inr q \<longrightarrow> walk NOT_FOUND ?s' b ns = Inr q)"
      using top cr wf' fresh obj get keep by simp
    with Mem_Fs_Branch show ?thesis by auto
  qed
qed

subsection \<open>An example tree\<close>

definition sample_tree :: tree_state where
  "sample_tree = \<lparr>st_objs = [0 \<mapsto> Branch Simple_Branch [(''tmp'', 1)],
       1 \<mapsto> Branch Mem_Fs_Branch [(''a'', 2), (''b'', 3)],
       2 \<mapsto> Mem_Fs_Leaf mem_fs_leaf_new, 3 \<mapsto> Other_Leaf, 4 \<mapsto> Other_Leaf], st_next = 5\<rparr>"

lemma sample_tree_children [simp]:
  "children_of sample_tree x =
     (if x = 0 then Some [(''tmp'', 1)] else if x = 1 then Some [(''a'', 2), (''b'', 3)] else None)"
  by (simp add: children_of_def sample_tree_def)

lemma sample_tree_wf: "tree_wf sample_tree"
proof -
  have "ranked (\<lambda>x. if x = 0 then 2 else if x = 1 then 1 else 0) sample_tree"
    unfolding ranked_def
    by (auto simp: std_map_wf_def sample_tree_def children_of_def split: if_splits)
  then show ?thesis by (auto simp: tree_wf_def)
qed

lemma sample_tree_names [simp]:
  "plain ''tmp''" "plain ''a''" "plain ''b''" "plain ''c''" "is_branch sample_tree 0"
  by (simp_all add: plain_def bs_def is_branch_def)

lemma sample_tree_parent [simp]:
  "parent_dir e sample_tree 0 [''tmp''] = Inr (1, [(''a'', 2), (''b'', 3)])"
  by (simp add: parent_dir_def)

lemma sample_tree_objs [simp]:
  "st_objs sample_tree 1 = Some (Branch Mem_Fs_Branch [(''a'', 2), (''b'', 3)])"
  "st_objs sample_tree (Suc 0) = Some (Branch Mem_Fs_Branch [(''a'', 2), (''b'', 3)])"
  "st_objs sample_tree 4 = Some Other_Leaf" "st_next sample_tree = 5"
  by (simp_all add: sample_tree_def)

theorem tree_get_resolves_witness:
  "root_get_child sample_tree 0 (bs # join_path [''tmp''] ''a'') = Some (NO_ERROR, Some 2)"
  using tree_get_resolves [OF sample_tree_wf, of 0 "[''tmp'']" "''a''"] by simp

theorem tree_add_correct_witness:
  "root_add_child sample_tree 0 (bs # join_path [''tmp''] ''a'') (Some 4) = Some (ALREADY_EXISTS, sample_tree) \<and>
   (\<exists>s'. root_add_child sample_tree 0 (bs # join_path [''tmp''] ''c'') (Some 4) = Some (NO_ERROR, s') \<and>
      walk NOT_FOUND s' 0 [''tmp'', ''c''] = Inr 4)"
  using tree_add_correct [OF sample_tree_wf, of 0 "[''tmp'']" "''a''" 4]
    tree_add_correct [OF sample_tree_wf, of 0 "[''tmp'']" "''c''" 4]
  by (auto simp: map_contains_def)

theorem tree_delete_correct_witness:
  "\<exists>s'. root_delete_child sample_tree 0 (bs # join_path [''tmp''] ''a'') = Some (NO_ERROR, s') \<and>
     root_get_child s' 0 (bs # join_path [''tmp''] ''a'') = Some (NOT_FOUND, None)"
  using tree_delete_correct [OF sample_tree_wf, of 0 "[''tmp'']" "''a''"] by auto

theorem tree_rename_correct_witness:
  "\<exists>s'. root_rename_child sample_tree 0 (bs # join_path [''tmp''] ''a'') (bs # join_path [''tmp''] ''b'') =
       Some (NO_ERROR, s') \<and>
     root_get_child s' 0 (bs # join_path [''tmp''] ''a'') = Some (NOT_FOUND, None) \<and>
     root_get_child s' 0 (bs # join_path [''tmp''] ''b'') = Some (NO_ERROR, Some 3)"
  using tree_rename_correct [OF sample_tree_wf, of 0 "[''tmp'']" "''a''" "''b''" 2] by auto

theorem tree_enum_correct_witness:
  "enum_children sample_tree 1 [] 1 = Some (NO_ERROR, [''a''])"
  using tree_enum_correct [OF sample_tree_wf, of 1 _ _ "[]" 1] by auto

theorem tree_create_correct_witness:
  "\<exists>s'. root_create_child sample_tree 0 (bs # join_path [''tmp''] ''c'') = Some (NO_ERROR, Some 5, s') \<and>
     root_get_child s' 0 (bs # join_path [''tmp''] ''c'') = Some (NO_ERROR, Some 5)"
  using tree_create_correct [OF sample_tree_wf, of 0 "[''tmp'']" "''c''" 1 "[(''a'', 2), (''b'', 3)]" Mem_Fs_Branch]
  by auto

end
