(* ===== verification/Pipe_Fs.thy ===== *)
theory Pipe_Fs
  imports System_Tree
begin

text \<open>
  Pipes: \<open>kernel/system_tree/fs/pipe/pipe_fs.cpp\<close>. The two pointers into the 1024-byte buffer are
  offsets from its start. The state also counts what a write sends out: messages to the registered
  receiver and calls of \<open>trigger_all_threads\<close>. A load or store outside the buffer has no result.
\<close>

subsection \<open>State and the tree interface\<close>

definition NORMAL_BUFFER_SIZE :: nat where
  "NORMAL_BUFFER_SIZE = 1024"

record pipe_branch =
  pb_buffer :: "u8 list"
  pb_read :: nat
  pb_write :: nat
  pb_new_data_handler :: bool
  pb_messages :: nat
  pb_triggers :: nat

text \<open>The contents of the fresh buffer are arbitrary.\<close>

definition pipe_create :: "u8 \<Rightarrow> pipe_branch" where
  "pipe_create junk = \<lparr>pb_buffer = replicate NORMAL_BUFFER_SIZE junk, pb_read = 0, pb_write = 0,
     pb_new_data_handler = False, pb_messages = 0, pb_triggers = 0\<rparr>"

datatype pipe_leaf = Pipe_Read_Leaf bool | Pipe_Write_Leaf

definition pipe_get_child :: "string \<Rightarrow> ERR_CODE \<times> pipe_leaf option" where
  "pipe_get_child name =
     (if name = ''read'' then (NO_ERROR, Some (Pipe_Read_Leaf False))
      else if name = ''write'' then (NO_ERROR, Some Pipe_Write_Leaf)
      else (NOT_FOUND, None))"

definition pipe_add_child :: "string \<Rightarrow> oid option \<Rightarrow> ERR_CODE" where
  "pipe_add_child name child = INVALID_OP"

definition pipe_rename_child :: "string \<Rightarrow> string \<Rightarrow> ERR_CODE" where
  "pipe_rename_child old_name new_name = INVALID_OP"

definition pipe_delete_child :: "string \<Rightarrow> ERR_CODE" where
  "pipe_delete_child name = INVALID_OP"

definition pipe_create_child :: "string \<Rightarrow> ERR_CODE" where
  "pipe_create_child name = INVALID_OP"

definition pipe_num_children :: "ERR_CODE \<times> u64" where
  "pipe_num_children = (NO_ERROR, 2)"

definition pipe_enum_children :: "string \<Rightarrow> u64 \<Rightarrow> ERR_CODE \<times> string list" where
  "pipe_enum_children start_from max_count =
     (let names = [(''read'', 0), (''write'', 0)];
          it = (if start_from \<noteq> [] then std_map_from start_from names else names)
      in (NO_ERROR, enum_loop max_count 0 it))"

definition set_msg_receiver :: "pipe_branch \<Rightarrow> pipe_branch" where
  "set_msg_receiver p = p\<lparr>pb_new_data_handler := True\<rparr>"

definition set_block_on_read :: "bool \<Rightarrow> pipe_leaf \<Rightarrow> pipe_leaf" where
  "set_block_on_read block leaf =
     (case leaf of Pipe_Read_Leaf _ \<Rightarrow> Pipe_Read_Leaf block | Pipe_Write_Leaf \<Rightarrow> Pipe_Write_Leaf)"

subsection \<open>Reading and writing\<close>

definition avail_to_read :: "pipe_branch \<Rightarrow> nat" where
  "avail_to_read p =
     (if pb_write p \<ge> pb_read p then pb_write p - pb_read p
      else NORMAL_BUFFER_SIZE + pb_write p - pb_read p)"

definition avail_to_write :: "pipe_branch \<Rightarrow> nat" where
  "avail_to_write p =
     (if pb_read p > pb_write p then pb_read p - pb_write p
      else NORMAL_BUFFER_SIZE + pb_read p - pb_write p)"

definition should_still_sleep :: "pipe_branch \<Rightarrow> bool" where
  "should_still_sleep p \<longleftrightarrow> avail_to_read p = 0"

text \<open>The byte loops, with the wrap test of the code: a pointer is reset when it is greater than the
  size of the buffer.\<close>

fun read_loop :: "nat \<Rightarrow> pipe_branch \<Rightarrow> (u8 list \<times> pipe_branch) option" where
  "read_loop 0 p = Some ([], p)"
| "read_loop (Suc n) p =
     (if pb_read p < length (pb_buffer p) then do {
        let b = pb_buffer p ! pb_read p;
        let rp = pb_read p + 1;
        (out, p) \<leftarrow> read_loop n (p\<lparr>pb_read := (if rp > NORMAL_BUFFER_SIZE then 0 else rp)\<rparr>);
        Some (b # out, p)
      } else None)"

fun write_loop :: "nat \<Rightarrow> u8 list \<Rightarrow> pipe_branch \<Rightarrow> pipe_branch option" where
  "write_loop 0 buffer p = Some p"
| "write_loop (Suc n) [] p = None"
| "write_loop (Suc n) (b # buffer) p =
     (if pb_write p < length (pb_buffer p) then
        (let wp = pb_write p + 1 in
         write_loop n buffer (p\<lparr>pb_buffer := (pb_buffer p)[pb_write p := b],
           pb_write := (if wp > NORMAL_BUFFER_SIZE then 0 else wp)\<rparr>))
      else None)"

text \<open>
  One pass of the read: it either has to wait for more data, when it gives up the processor and
  tries again, or it returns. The parent branch is \<^term>\<open>None\<close> once it has been deleted and the
  caller's buffer is absent for a null pointer; of the caller's buffer only the bytes put into it
  are given.
\<close>

datatype read_pass = Must_Wait | Read_Done ERR_CODE "u8 list" pipe_branch | Read_Refused ERR_CODE

definition pipe_read_bytes ::
  "bool \<Rightarrow> u64 \<Rightarrow> bool \<Rightarrow> u64 \<Rightarrow> pipe_branch option \<Rightarrow> read_pass option" where
  "pipe_read_bytes block_on_read len buffer_ok buffer_length parent =
     (case parent of
        None \<Rightarrow> Some (Read_Refused INVALID_OP)
      | Some p \<Rightarrow>
          if \<not> buffer_ok then Some (Read_Refused INVALID_PARAM)
          else
            (let len = (if len > buffer_length then buffer_length else len);
                 avail_length = avail_to_read p
             in if block_on_read \<and> avail_length < unat len then Some Must_Wait
                else do {
                  let read_length = (if unat len < avail_length then unat len else avail_length);
                  (out, p) \<leftarrow> read_loop read_length p;
                  ASSERT (read_length = length out);
                  Some (Read_Done NO_ERROR out p)
                }))"

definition pipe_write_bytes ::
  "u64 \<Rightarrow> u8 list option \<Rightarrow> u64 \<Rightarrow> pipe_branch option \<Rightarrow> (ERR_CODE \<times> nat \<times> pipe_branch option) option" where
  "pipe_write_bytes len buffer buffer_length parent =
     (case parent of
        None \<Rightarrow> Some (INVALID_OP, 0, None)
      | Some p \<Rightarrow>
          (case buffer of
             None \<Rightarrow> Some (INVALID_PARAM, 0, Some p)
           | Some buf \<Rightarrow> do {
               let write_length = avail_to_write p;
               let write_length = (if unat buffer_length < write_length then unat buffer_length else write_length);
               let write_length = (if unat len < write_length then unat len else write_length);
               p \<leftarrow> write_loop write_length buf p;
               let p = (if pb_new_data_handler p then p\<lparr>pb_messages := pb_messages p + 1\<rparr> else p);
               Some (NO_ERROR, write_length, Some (p\<lparr>pb_triggers := pb_triggers p + 1\<rparr>))
             }))"

subsection \<open>The pipe as a queue of bytes\<close>

text \<open>Until the write pointer has passed the end of the buffer, the read pointer is not above it.\<close>

definition pipe_wf :: "pipe_branch \<Rightarrow> bool" where
  "pipe_wf p \<longleftrightarrow> length (pb_buffer p) = NORMAL_BUFFER_SIZE \<and> pb_read p \<le> pb_write p \<and>
     pb_write p \<le> NORMAL_BUFFER_SIZE"

definition pipe_contents :: "pipe_branch \<Rightarrow> u8 list" where
  "pipe_contents p = take (pb_write p - pb_read p) (drop (pb_read p) (pb_buffer p))"

lemma length_pipe_contents: "pipe_wf p \<Longrightarrow> length (pipe_contents p) = pb_write p - pb_read p"
  by (auto simp: pipe_contents_def pipe_wf_def min_def)

lemma read_loop_contents:
  "pipe_wf p \<Longrightarrow> n \<le> pb_write p - pb_read p \<Longrightarrow>
   read_loop n p = Some (take n (pipe_contents p), p\<lparr>pb_read := pb_read p + n\<rparr>)"
proof (induction n arbitrary: p)
  case (Suc n)
  let ?p = "p\<lparr>pb_read := Suc (pb_read p)\<rparr>"
  have lt: "pb_read p < length (pb_buffer p)" "\<not> Suc (pb_read p) > NORMAL_BUFFER_SIZE"
    using Suc.prems by (auto simp: pipe_wf_def)
  have "pipe_wf ?p" "n \<le> pb_write ?p - pb_read ?p" using Suc.prems by (auto simp: pipe_wf_def)
  from Suc.IH [OF this] have "read_loop n ?p = Some (take n (pipe_contents ?p), p\<lparr>pb_read := pb_read p + Suc n\<rparr>)"
    by simp
  moreover have "pb_buffer p ! pb_read p # take n (pipe_contents ?p) = take (Suc n) (pipe_contents p)"
    using Suc.prems lt by (simp add: pipe_contents_def Cons_nth_drop_Suc [symmetric] take_Cons' min_def)
  ultimately show ?case using lt by simp
qed simp

lemma write_loop_ok:
  "pb_write p + length data \<le> NORMAL_BUFFER_SIZE \<Longrightarrow> length (pb_buffer p) = NORMAL_BUFFER_SIZE \<Longrightarrow>
   write_loop (length data) (data @ rest) p =
     Some (p\<lparr>pb_buffer := take (pb_write p) (pb_buffer p) @ data @ drop (pb_write p + length data) (pb_buffer p),
             pb_write := pb_write p + length data\<rparr>)"
proof (induction data arbitrary: p)
  case (Cons b data)
  let ?p = "p\<lparr>pb_buffer := (pb_buffer p)[pb_write p := b], pb_write := Suc (pb_write p)\<rparr>"
  have lt: "pb_write p < length (pb_buffer p)" "\<not> Suc (pb_write p) > NORMAL_BUFFER_SIZE"
    using Cons.prems by auto
  have "pb_write ?p + length data \<le> NORMAL_BUFFER_SIZE" "length (pb_buffer ?p) = NORMAL_BUFFER_SIZE"
    using Cons.prems by auto
  from Cons.IH [OF this] show ?case
    using lt by (simp add: take_Suc_update)
qed simp

lemma write_loop_out_of_bounds:
  "pb_write p \<le> NORMAL_BUFFER_SIZE \<Longrightarrow> length (pb_buffer p) = NORMAL_BUFFER_SIZE \<Longrightarrow>
   NORMAL_BUFFER_SIZE < pb_write p + n \<Longrightarrow> write_loop n data p = None"
proof (induction n data p rule: write_loop.induct)
  case (3 n b buffer p)
  then show ?case by (cases "pb_write p < length (pb_buffer p)") (auto simp: Let_def)
qed auto

lemma pipe_write_refines:
  assumes "pipe_wf p" and "n = min (unat len) (min (unat buffer_length) (avail_to_write p))" and "n \<le> length buf"
    and "pb_write p + n \<le> NORMAL_BUFFER_SIZE"
  obtains p' where "pipe_write_bytes len (Some buf) buffer_length (Some p) = Some (NO_ERROR, n, Some p')"
    "pipe_wf p'" "pipe_contents p' = pipe_contents p @ take n buf" "pb_write p' = pb_write p + n"
    "pb_read p' = pb_read p" "pb_triggers p' = pb_triggers p + 1"
    "pb_messages p' = pb_messages p + (if pb_new_data_handler p then 1 else 0)"
proof -
  let ?buf' = "take (pb_write p) (pb_buffer p) @ take n buf @ drop (pb_write p + n) (pb_buffer p)"
  let ?p1 = "p\<lparr>pb_buffer := ?buf', pb_write := pb_write p + n\<rparr>"
  let ?p2 = "(if pb_new_data_handler p then ?p1\<lparr>pb_messages := pb_messages p + 1\<rparr> else ?p1)"
  let ?p' = "?p2\<lparr>pb_triggers := pb_triggers p + 1\<rparr>"
  have wf: "length (pb_buffer p) = NORMAL_BUFFER_SIZE" "pb_read p \<le> pb_write p" "pb_write p \<le> NORMAL_BUFFER_SIZE"
    using assms(1) by (auto simp: pipe_wf_def)
  have "write_loop n buf p = Some ?p1"
    using write_loop_ok [of p "take n buf" "drop n buf"] assms(3,4) wf by simp
  then have "pipe_write_bytes len (Some buf) buffer_length (Some p) = Some (NO_ERROR, n, Some ?p')"
    using assms(2) by (simp add: pipe_write_bytes_def Let_def if_less_min)
  moreover have "pipe_contents ?p' = pipe_contents p @ take n buf"
    using wf assms(3,4) by (simp add: pipe_contents_def drop_take min_absorb2 min_absorb1 diff_le_mono)
  moreover have "pipe_wf ?p'" using wf assms(3,4) by (simp add: pipe_wf_def)
  ultimately show thesis using that [of ?p'] by simp
qed

lemma pipe_read_refines:
  assumes "pipe_wf p" and "n = min (min (unat len) (unat buffer_length)) (length (pipe_contents p))"
    and "block \<longrightarrow> min (unat len) (unat buffer_length) \<le> length (pipe_contents p)"
  obtains p' where "pipe_read_bytes block len True buffer_length (Some p) =
       Some (Read_Done NO_ERROR (take n (pipe_contents p)) p')"
    "pipe_wf p'" "pipe_contents p' = drop n (pipe_contents p)" "pb_write p' = pb_write p"
proof -
  have n: "n \<le> pb_write p - pb_read p" using assms(1,2) length_pipe_contents by auto
  have av: "avail_to_read p = length (pipe_contents p)"
    using assms(1) length_pipe_contents [OF assms(1)] by (auto simp: avail_to_read_def pipe_wf_def)
  let ?p' = "p\<lparr>pb_read := pb_read p + n\<rparr>" and ?m = "min (unat len) (unat buffer_length)"
  have rl: "read_loop n p = Some (take n (pipe_contents p), ?p')" using read_loop_contents [OF assms(1) n] .
  have lt: "(if ?m < length (pipe_contents p) then ?m else length (pipe_contents p)) = n"
    using assms(2) by (simp add: if_less_min)
  have nw: "\<not> (block \<and> length (pipe_contents p) < ?m)" using assms(3) by auto
  have nl: "n = length (take n (pipe_contents p))" using assms(2) by simp
  have "pipe_read_bytes block len True buffer_length (Some p) =
       Some (Read_Done NO_ERROR (take n (pipe_contents p)) ?p')"
    using nl by (simp only: pipe_read_bytes_def option.case Let_def unat_clamp av lt nw not_True_eq_False
        if_False rl bind.bind_lunit prod.case) simp
  moreover have "pipe_contents ?p' = drop n (pipe_contents p)"
    by (simp add: pipe_contents_def drop_take add.commute)
  moreover have "pipe_wf ?p'" using assms(1) n by (auto simp: pipe_wf_def)
  ultimately show thesis using that [of ?p'] by simp
qed

subsection \<open>Properties\<close>

text \<open>A sequence of writes and non-blocking reads, with all the bytes read.\<close>

datatype pipe_op = P_Write "u8 list" | P_Read u64

fun pipe_run :: "pipe_op list \<Rightarrow> pipe_branch \<Rightarrow> (u8 list \<times> pipe_branch) option" where
  "pipe_run [] p = Some ([], p)"
| "pipe_run (P_Write d # ops) p =
     (case pipe_write_bytes (of_nat (length d)) (Some d) (of_nat (length d)) (Some p) of
        Some (NO_ERROR, n, Some p) \<Rightarrow> pipe_run ops p
      | _ \<Rightarrow> None)"
| "pipe_run (P_Read n # ops) p =
     (case pipe_read_bytes False n True n (Some p) of
        Some (Read_Done NO_ERROR out p) \<Rightarrow>
          (case pipe_run ops p of Some (rest, p) \<Rightarrow> Some (out @ rest, p) | None \<Rightarrow> None)
      | _ \<Rightarrow> None)"

fun written :: "pipe_op list \<Rightarrow> u8 list" where
  "written [] = []"
| "written (P_Write d # ops) = d @ written ops"
| "written (P_Read n # ops) = written ops"

lemma pipe_run_queue:
  "pipe_wf p \<Longrightarrow> pb_write p + length (written ops) \<le> NORMAL_BUFFER_SIZE \<Longrightarrow>
   \<exists>out p'. pipe_run ops p = Some (out, p') \<and> out @ pipe_contents p' = pipe_contents p @ written ops \<and> pipe_wf p'"
proof (induction ops arbitrary: p)
  case (Cons op ops)
  show ?case
  proof (cases op)
    case (P_Write d)
    have len: "length d \<le> 1024" "pb_write p + length d \<le> NORMAL_BUFFER_SIZE"
      using Cons.prems P_Write by (auto simp: NORMAL_BUFFER_SIZE_def)
    then have u: "unat (of_nat (length d) :: u64) = length d" by (simp add: unat_of_nat)
    have "length d \<le> avail_to_write p" using Cons.prems len by (auto simp: avail_to_write_def pipe_wf_def)
    then have "length d = min (length d) (min (length d) (avail_to_write p))" by simp
    then obtain p' where w: "pipe_write_bytes (of_nat (length d)) (Some d) (of_nat (length d)) (Some p) =
        Some (NO_ERROR, length d, Some p')" "pipe_wf p'" "pipe_contents p' = pipe_contents p @ d"
        "pb_write p' = pb_write p + length d"
      using pipe_write_refines [of p "length d" "of_nat (length d)" "of_nat (length d)" d] Cons.prems len u
      by (metis order_refl take_all)
    then show ?thesis using Cons.IH [of p'] Cons.prems P_Write by auto
  next
    case (P_Read n)
    obtain k p' where r: "pipe_read_bytes False n True n (Some p) = Some (Read_Done NO_ERROR (take k (pipe_contents p)) p')"
        "pipe_wf p'" "pipe_contents p' = drop k (pipe_contents p)" "pb_write p' = pb_write p"
      using pipe_read_refines [OF Cons.prems(1) refl, of False n n] by metis
    then obtain out q where "pipe_run ops p' = Some (out, q)"
        "out @ pipe_contents q = pipe_contents p' @ written ops" "pipe_wf q"
      using Cons.IH [of p'] Cons.prems P_Read by auto
    moreover have "take k (pipe_contents p) @ pipe_contents p' = pipe_contents p" using r(3) by simp
    ultimately show ?thesis using r(1) P_Read by auto
  qed
qed auto

lemma pipe_create_wf: "pipe_wf (pipe_create junk)" "pipe_contents (pipe_create junk) = []" "pb_write (pipe_create junk) = 0"
  by (simp_all add: pipe_create_def pipe_wf_def pipe_contents_def)

text \<open>
  A new pipe through which at most 1024 bytes are written in all, by any sequence of writes and
  non-blocking reads of any sizes, is a lossless first-in first-out queue: every operation succeeds,
  and the bytes read followed by those still in the pipe are exactly the bytes written, in order.
\<close>

theorem pipe_fifo:
  assumes "length (written ops) \<le> NORMAL_BUFFER_SIZE"
  shows "\<exists>out p. pipe_run ops (pipe_create junk) = Some (out, p) \<and> out @ pipe_contents p = written ops"
  using pipe_run_queue [OF pipe_create_wf(1), of junk ops] assms by (auto simp: pipe_create_wf)

theorem pipe_fifo_witness:
  "\<exists>out p. pipe_run [P_Write [1, 2], P_Read 1, P_Write [3], P_Read 10] (pipe_create 0) = Some (out, p) \<and>
     out @ pipe_contents p = [1, 2, 3]"
  using pipe_fifo [of "[P_Write [1, 2], P_Read 1, P_Write [3], P_Read 10]" 0] by (simp add: NORMAL_BUFFER_SIZE_def)

text \<open>
  A write succeeds exactly when the bytes it decides to store end at or before the end of the
  buffer, although there may be room at its start: because the wrap test compares with \<open>>\<close> rather
  than \<open>>=\<close>, a write that goes past the end stores a byte behind the buffer. The pipe holds
  \<open>min(length, buffer_length, free space)\<close> more bytes after a write that succeeds.
\<close>

theorem pipe_write_end_of_buffer:
  assumes "pipe_wf p" and "n = min (unat len) (min (unat buffer_length) (avail_to_write p))" and "n \<le> length buf"
  shows "if pb_write p + n \<le> NORMAL_BUFFER_SIZE
    then (\<exists>p'. pipe_write_bytes len (Some buf) buffer_length (Some p) = Some (NO_ERROR, n, Some p') \<and>
           pipe_wf p' \<and> pipe_contents p' = pipe_contents p @ take n buf)
    else pipe_write_bytes len (Some buf) buffer_length (Some p) = None"
proof (cases "pb_write p + n \<le> NORMAL_BUFFER_SIZE")
  case True
  then show ?thesis using pipe_write_refines [OF assms True] by (metis (full_types))
next
  case False
  have "write_loop n buf p = None"
    using write_loop_out_of_bounds [of p n buf] assms(1) False by (auto simp: pipe_wf_def)
  then have "pipe_write_bytes len (Some buf) buffer_length (Some p) = None"
    using assms(2) by (simp add: pipe_write_bytes_def Let_def if_less_min)
  with False show ?thesis by simp
qed

definition drained_pipe :: pipe_branch where
  "drained_pipe = (pipe_create 0)\<lparr>pb_read := 1024, pb_write := 1024\<rparr>"

theorem pipe_write_end_of_buffer_witness:
  "pipe_wf drained_pipe \<and> avail_to_write drained_pipe = 1024 \<and>
   pipe_write_bytes 1 (Some [7]) 1 (Some drained_pipe) = None"
proof -
  have "pipe_wf drained_pipe" "avail_to_write drained_pipe = 1024" "pb_write drained_pipe = 1024"
    by (simp_all add: drained_pipe_def pipe_create_def pipe_wf_def avail_to_write_def NORMAL_BUFFER_SIZE_def)
  then show ?thesis
    using pipe_write_end_of_buffer [of drained_pipe 1 1 1 "[7]"] by (simp add: NORMAL_BUFFER_SIZE_def)
qed

end
