(* ===== verification/Block_Dev.thy ===== *)
theory Block_Dev
  imports Cpp_Lib
begin

text \<open>
  Block devices: the RAM disk of \<open>kernel/devices/block/ramdisk/ramdisk.cpp\<close> and the proxy of
  \<open>kernel/devices/block/proxy/block_proxy.cpp\<close>, which restricts a parent device to a window of
  its blocks. The virtual functions of \<open>IBlockDevice\<close> are a record of operations on the state of a
  device, and the proxy is defined over any such record.

  What a client may expect of a block device is the locale \<open>block_device\<close>; the properties of the
  proxy are proved in it once and hold for the RAM disk by interpretation.
\<close>

subsection \<open>The device interface\<close>

datatype DEV_STATUS =
    DEV_OK | DEV_FAILED | DEV_RESET | DEV_STOPPED | DEV_STARTING | DEV_STOPPING | DEV_UNKNOWN

record 'd block_ops =
  op_status :: "'d \<Rightarrow> DEV_STATUS"
  op_num_blocks :: "'d \<Rightarrow> u64"
  op_block_size :: "'d \<Rightarrow> u64"
  op_read :: "'d \<Rightarrow> u64 \<Rightarrow> u64 \<Rightarrow> u8 list option \<Rightarrow> u64 \<Rightarrow> (ERR_CODE \<times> u8 list option) option"
  op_write :: "'d \<Rightarrow> u64 \<Rightarrow> u64 \<Rightarrow> u8 list option \<Rightarrow> u64 \<Rightarrow> (ERR_CODE \<times> 'd) option"

subsection \<open>RAM disk\<close>

record ramdisk =
  rd_status :: DEV_STATUS
  rd_num_blocks :: u64
  rd_block_size :: u64
  rd_storage_size :: u64
  rd_storage :: "u8 list option"

definition ramdisk_new :: "u8 \<Rightarrow> u64 \<Rightarrow> u64 \<Rightarrow> ramdisk" where
  "ramdisk_new junk num_blocks block_size =
     (if num_blocks = 0 \<or> block_size = 0
      then \<lparr>rd_status = DEV_FAILED, rd_num_blocks = num_blocks, rd_block_size = block_size,
            rd_storage_size = num_blocks * block_size, rd_storage = None\<rparr>
      else \<lparr>rd_status = DEV_STOPPED, rd_num_blocks = num_blocks, rd_block_size = block_size,
            rd_storage_size = num_blocks * block_size,
            rd_storage = Some (replicate (unat (num_blocks * block_size)) junk)\<rparr>)"

definition ramdisk_start :: "ramdisk \<Rightarrow> bool \<times> ramdisk" where
  "ramdisk_start d = (True, if rd_status d \<noteq> DEV_FAILED then d\<lparr>rd_status := DEV_OK\<rparr> else d)"

definition ramdisk_stop :: "ramdisk \<Rightarrow> bool \<times> ramdisk" where
  "ramdisk_stop d = (True, if rd_status d \<noteq> DEV_FAILED then d\<lparr>rd_status := DEV_STOPPED\<rparr> else d)"

definition ramdisk_reset :: "ramdisk \<Rightarrow> bool \<times> ramdisk" where
  "ramdisk_reset d = (True, if rd_status d \<noteq> DEV_FAILED then d\<lparr>rd_status := DEV_STOPPED\<rparr> else d)"

definition ramdisk_read_blocks ::
  "ramdisk \<Rightarrow> u64 \<Rightarrow> u64 \<Rightarrow> u8 list option \<Rightarrow> u64 \<Rightarrow> (ERR_CODE \<times> u8 list option) option" where
  "ramdisk_read_blocks d start_block num_blocks buffer buffer_length =
     (let read_start = start_block * rd_block_size d; read_length = num_blocks * rd_block_size d
      in if rd_status d \<noteq> DEV_OK then Some (DEVICE_FAILED, buffer)
      else case (rd_storage d, buffer) of
          (None, _) \<Rightarrow> Some (DEVICE_FAILED, buffer)
        | (Some st, None) \<Rightarrow> Some (INVALID_PARAM, buffer)
        | (Some st, Some buf) \<Rightarrow>
            if start_block > rd_num_blocks d \<or> num_blocks > rd_num_blocks d
               \<or> buffer_length < read_length
               \<or> read_start + read_length > rd_num_blocks d * rd_block_size d
            then Some (INVALID_PARAM, buffer)
            else do { buf \<leftarrow> memcpy buf 0 st (unat read_start) (unat read_length); Some (NO_ERROR, Some buf) })"

definition ramdisk_write_blocks ::
  "ramdisk \<Rightarrow> u64 \<Rightarrow> u64 \<Rightarrow> u8 list option \<Rightarrow> u64 \<Rightarrow> (ERR_CODE \<times> ramdisk) option" where
  "ramdisk_write_blocks d start_block num_blocks buffer buffer_length =
     (let write_start = start_block * rd_block_size d; write_length = num_blocks * rd_block_size d
      in if rd_status d \<noteq> DEV_OK then Some (DEVICE_FAILED, d)
      else case (rd_storage d, buffer) of
          (None, _) \<Rightarrow> Some (DEVICE_FAILED, d)
        | (Some st, None) \<Rightarrow> Some (INVALID_PARAM, d)
        | (Some st, Some buf) \<Rightarrow>
            if start_block > rd_block_size d \<or> num_blocks > rd_num_blocks d
               \<or> buffer_length < write_length
               \<or> write_start + write_length > rd_num_blocks d * rd_block_size d
            then Some (INVALID_PARAM, d)
            else do {
              st \<leftarrow> memcpy st (unat write_start) buf 0 (unat write_length);
              Some (NO_ERROR, d\<lparr>rd_storage := Some st\<rparr>)
            })"

definition ramdisk_ops :: "ramdisk block_ops" where
  "ramdisk_ops = \<lparr>op_status = rd_status, op_num_blocks = rd_num_blocks, op_block_size = rd_block_size,
     op_read = ramdisk_read_blocks, op_write = ramdisk_write_blocks\<rparr>"

subsection \<open>Proxy\<close>

record block_proxy =
  px_status :: DEV_STATUS
  px_start_block :: u64
  px_num_blocks :: u64

text \<open>The parent is absent for a null pointer.\<close>

definition block_proxy_new :: "'d block_ops \<Rightarrow> 'd option \<Rightarrow> u64 \<Rightarrow> u64 \<Rightarrow> block_proxy" where
  "block_proxy_new ops parent start_block num_blocks =
     (let failed = (case parent of
          None \<Rightarrow> True
        | Some d \<Rightarrow> num_blocks = 0 \<or> start_block > op_num_blocks ops d
            \<or> start_block + num_blocks > op_num_blocks ops d)
      in \<lparr>px_status = (if failed then DEV_FAILED else DEV_STARTING),
          px_start_block = start_block, px_num_blocks = num_blocks\<rparr>)"

definition block_proxy_start :: "block_proxy \<Rightarrow> bool \<times> block_proxy" where
  "block_proxy_start p = (True, if px_status p \<noteq> DEV_FAILED then p\<lparr>px_status := DEV_OK\<rparr> else p)"

definition block_proxy_stop :: "block_proxy \<Rightarrow> bool \<times> block_proxy" where
  "block_proxy_stop p = (True, if px_status p \<noteq> DEV_FAILED then p\<lparr>px_status := DEV_STOPPED\<rparr> else p)"

definition block_proxy_reset :: "block_proxy \<Rightarrow> bool \<times> block_proxy" where
  "block_proxy_reset p = (True, if px_status p \<noteq> DEV_FAILED then p\<lparr>px_status := DEV_STOPPED\<rparr> else p)"

text \<open>In a device that is not failed the parent is not null, so the remaining operations take it.\<close>

definition block_proxy_status :: "'d block_ops \<Rightarrow> block_proxy \<Rightarrow> 'd \<Rightarrow> DEV_STATUS" where
  "block_proxy_status ops p parent = (if px_status p = DEV_OK then op_status ops parent else px_status p)"

definition block_proxy_block_size :: "'d block_ops \<Rightarrow> 'd option \<Rightarrow> u64" where
  "block_proxy_block_size ops parent = (case parent of None \<Rightarrow> 0 | Some d \<Rightarrow> op_block_size ops d)"

definition block_proxy_read ::
  "'d block_ops \<Rightarrow> block_proxy \<Rightarrow> 'd \<Rightarrow> u64 \<Rightarrow> u64 \<Rightarrow> u8 list option \<Rightarrow> u64 \<Rightarrow> (ERR_CODE \<times> u8 list option) option"
where
  "block_proxy_read ops p parent start_block num_blocks buffer buffer_length =
     (if block_proxy_status ops p parent \<noteq> DEV_OK then Some (DEVICE_FAILED, buffer)
      else if start_block \<ge> px_num_blocks p \<or> num_blocks > px_num_blocks p
        \<or> start_block + num_blocks > px_num_blocks p
      then Some (INVALID_PARAM, buffer)
      else op_read ops parent (start_block + px_start_block p) num_blocks buffer buffer_length)"

definition block_proxy_write ::
  "'d block_ops \<Rightarrow> block_proxy \<Rightarrow> 'd \<Rightarrow> u64 \<Rightarrow> u64 \<Rightarrow> u8 list option \<Rightarrow> u64 \<Rightarrow> (ERR_CODE \<times> 'd) option" where
  "block_proxy_write ops p parent start_block num_blocks buffer buffer_length =
     (if block_proxy_status ops p parent \<noteq> DEV_OK then Some (DEVICE_FAILED, parent)
      else if start_block \<ge> px_num_blocks p \<or> num_blocks > px_num_blocks p
        \<or> start_block + num_blocks > px_num_blocks p
      then Some (INVALID_PARAM, parent)
      else op_write ops parent (start_block + px_start_block p) num_blocks buffer buffer_length)"

subsection \<open>The contract of a block device\<close>

text \<open>
  A running device whose size in bytes fits in 64 bits is a byte string of
  \<open>num_blocks * block_size\<close> bytes. A read inside it returns the bytes there, a write inside it
  that starts at a block the device accepts for writing replaces them and nothing else, and a request
  outside it is refused.
\<close>

definition request_inside :: "u64 \<Rightarrow> u64 \<Rightarrow> u64 \<Rightarrow> bool" where
  "request_inside nb start n \<longleftrightarrow> unat start + unat n \<le> unat nb"

definition overwrite :: "nat \<Rightarrow> 'a list \<Rightarrow> 'a list \<Rightarrow> 'a list" where
  "overwrite i new d = take i d @ new @ drop (i + length new) d"

lemma length_overwrite: "i + length new \<le> length d \<Longrightarrow> length (overwrite i new d) = length d"
  by (simp add: overwrite_def)

lemma overwrite_outside:
  "i + length new \<le> length d \<Longrightarrow> k < i \<or> i + length new \<le> k \<Longrightarrow> k < length d \<Longrightarrow> overwrite i new d ! k = d ! k"
  by (auto simp: overwrite_def nth_append)

lemma overwrite_read_back: "i + length new \<le> length d \<Longrightarrow> take (length new) (drop i (overwrite i new d)) = new"
  by (simp add: overwrite_def)

text \<open>The window of a proxy, when it lies inside the parent.\<close>

definition px_ok :: "'d block_ops \<Rightarrow> ('d \<Rightarrow> bool) \<Rightarrow> block_proxy \<Rightarrow> 'd \<Rightarrow> bool" where
  "px_ok ops running p d \<longleftrightarrow> running d \<and> px_status p = DEV_OK \<and>
     unat (px_start_block p) + unat (px_num_blocks p) \<le> unat (op_num_blocks ops d)"

definition px_bytes :: "'d block_ops \<Rightarrow> ('d \<Rightarrow> u8 list) \<Rightarrow> block_proxy \<Rightarrow> 'd \<Rightarrow> u8 list" where
  "px_bytes ops bytes p d = take (unat (px_num_blocks p) * unat (op_block_size ops d))
     (drop (unat (px_start_block p) * unat (op_block_size ops d)) (bytes d))"

locale block_device =
  fixes ops :: "'d block_ops" and running :: "'d \<Rightarrow> bool" and bytes :: "'d \<Rightarrow> u8 list"
    and writable :: "'d \<Rightarrow> u64 \<Rightarrow> bool"
  assumes status_running: "running d \<Longrightarrow> op_status ops d = DEV_OK"
    and length_bytes: "running d \<Longrightarrow> length (bytes d) = unat (op_num_blocks ops d) * unat (op_block_size ops d)"
    and read_inside: "running d \<Longrightarrow> request_inside (op_num_blocks ops d) start n \<Longrightarrow>
      unat n * unat (op_block_size ops d) \<le> unat len \<Longrightarrow> unat len \<le> length buf \<Longrightarrow>
      op_read ops d start n (Some buf) len = Some (NO_ERROR,
        Some (overwrite 0 (take (unat n * unat (op_block_size ops d))
                (drop (unat start * unat (op_block_size ops d)) (bytes d))) buf))"
    and write_inside: "running d \<Longrightarrow> request_inside (op_num_blocks ops d) start n \<Longrightarrow> writable d start \<Longrightarrow>
      unat n * unat (op_block_size ops d) \<le> unat len \<Longrightarrow> unat len \<le> length buf \<Longrightarrow>
      \<exists>d'. op_write ops d start n (Some buf) len = Some (NO_ERROR, d') \<and> running d' \<and>
        op_num_blocks ops d' = op_num_blocks ops d \<and> op_block_size ops d' = op_block_size ops d \<and> writable d' = writable d \<and>
        bytes d' = overwrite (unat start * unat (op_block_size ops d))
                     (take (unat n * unat (op_block_size ops d)) buf) (bytes d)"
begin

lemma px_status_ok: "px_ok ops running p d \<Longrightarrow> block_proxy_status ops p d = DEV_OK"
  by (simp add: px_ok_def block_proxy_status_def status_running)

lemma px_request:
  assumes "px_ok ops running p d" "request_inside (px_num_blocks p) start n" "start < px_num_blocks p"
  shows "unat (start + px_start_block p) = unat start + unat (px_start_block p)"
    and "request_inside (op_num_blocks ops d) (start + px_start_block p) n"
    and "\<not> (start \<ge> px_num_blocks p \<or> n > px_num_blocks p \<or> start + n > px_num_blocks p)"
proof -
  have b: "unat start + unat n \<le> unat (px_num_blocks p)"
    "unat (px_start_block p) + unat (px_num_blocks p) \<le> unat (op_num_blocks ops d)"
    using assms(1,2) by (simp_all add: px_ok_def request_inside_def)
  show e: "unat (start + px_start_block p) = unat start + unat (px_start_block p)"
    using b unat_lt_u64 [of "op_num_blocks ops d"] by (intro unat_add_no_wrap) linarith
  show "request_inside (op_num_blocks ops d) (start + px_start_block p) n"
    using b by (simp add: request_inside_def e)
  have "unat (start + n) = unat start + unat n"
    using b unat_lt_u64 [of "px_num_blocks p"] by (intro unat_add_no_wrap) linarith
  then show "\<not> (start \<ge> px_num_blocks p \<or> n > px_num_blocks p \<or> start + n > px_num_blocks p)"
    using b assms(3) by (auto simp: word_le_nat_alt word_less_nat_alt)
qed

lemma px_read:
  assumes "px_ok ops running p d" "request_inside (px_num_blocks p) start n" "start < px_num_blocks p"
    and "unat n * unat (op_block_size ops d) \<le> unat len" "unat len \<le> length buf"
  shows "block_proxy_read ops p d start n (Some buf) len = Some (NO_ERROR,
      Some (overwrite 0 (take (unat n * unat (op_block_size ops d))
              (drop (unat start * unat (op_block_size ops d)) (px_bytes ops bytes p d))) buf))"
proof -
  let ?bs = "unat (op_block_size ops d)"
  have r: "running d" using assms(1) by (simp add: px_ok_def)
  have nb: "unat n * ?bs \<le> unat (px_num_blocks p) * ?bs - unat start * ?bs"
    using assms(2) by (auto simp: request_inside_def diff_mult_distrib [symmetric])
  have "take (unat n * ?bs) (drop (unat start * ?bs) (px_bytes ops bytes p d)) =
      take (unat n * ?bs) (drop ((unat start + unat (px_start_block p)) * ?bs) (bytes d))"
    using nb by (simp add: px_bytes_def drop_take min_absorb1 add_mult_distrib)
  then show ?thesis
    using read_inside [OF r px_request(2) [OF assms(1-3)] assms(4,5)] px_request(1,3) [OF assms(1-3)]
      px_status_ok [OF assms(1)]
    by (simp add: block_proxy_read_def)
qed

lemma px_write:
  assumes "px_ok ops running p d" "request_inside (px_num_blocks p) start n" "start < px_num_blocks p"
    and "writable d (start + px_start_block p)"
    and "unat n * unat (op_block_size ops d) \<le> unat len" "unat len \<le> length buf"
  shows "\<exists>d'. block_proxy_write ops p d start n (Some buf) len = Some (NO_ERROR, d') \<and> px_ok ops running p d' \<and>
     op_num_blocks ops d' = op_num_blocks ops d \<and> op_block_size ops d' = op_block_size ops d \<and>
     bytes d' = overwrite ((unat start + unat (px_start_block p)) * unat (op_block_size ops d))
       (take (unat n * unat (op_block_size ops d)) buf) (bytes d)"
proof -
  have r: "running d" using assms(1) by (simp add: px_ok_def)
  show ?thesis
    using write_inside [OF r px_request(2) [OF assms(1-3)] assms(4-6)] px_request(1,3) [OF assms(1-3)]
      px_status_ok [OF assms(1)] assms(1)
    by (auto simp: block_proxy_write_def px_ok_def)
qed

lemma px_write_isolated:
  assumes "px_ok ops running p d" "request_inside (px_num_blocks p) start n" "start < px_num_blocks p"
    and "writable d (start + px_start_block p)"
    and "unat n * unat (op_block_size ops d) \<le> unat len" "unat len \<le> length buf"
    and "block_proxy_write ops p d start n (Some buf) len = Some (e, d')"
    and "k < length (bytes d)"
    and "k < unat (px_start_block p) * unat (op_block_size ops d) \<or>
      (unat (px_start_block p) + unat (px_num_blocks p)) * unat (op_block_size ops d) \<le> k"
  shows "bytes d' ! k = bytes d ! k"
proof -
  let ?bs = "unat (op_block_size ops d)"
  have r: "running d" using assms(1) by (simp add: px_ok_def)
  have b: "unat start + unat n \<le> unat (px_num_blocks p)"
    "unat (px_start_block p) + unat (px_num_blocks p) \<le> unat (op_num_blocks ops d)"
    using assms(1,2) by (simp_all add: px_ok_def request_inside_def)
  let ?i = "(unat start + unat (px_start_block p)) * ?bs" and ?new = "take (unat n * ?bs) buf"
  have d': "bytes d' = overwrite ?i ?new (bytes d)" using px_write [OF assms(1-6)] assms(7) by auto
  have len: "length ?new = unat n * ?bs" using assms(5,6) by simp
  have "?i + unat n * ?bs = (unat start + unat n + unat (px_start_block p)) * ?bs"
    by (simp add: add_mult_distrib)
  also have "\<dots> \<le> (unat (px_start_block p) + unat (px_num_blocks p)) * ?bs"
    using b by (intro mult_le_mono1) linarith
  finally have top: "?i + unat n * ?bs \<le> (unat (px_start_block p) + unat (px_num_blocks p)) * ?bs" .
  have "(unat (px_start_block p) + unat (px_num_blocks p)) * ?bs \<le> length (bytes d)"
    using b length_bytes [OF r] by (simp add: mult_le_mono1)
  with top len have fit: "?i + length ?new \<le> length (bytes d)" by simp
  have "unat (px_start_block p) * ?bs \<le> ?i" by (intro mult_le_mono1) simp
  then have "k < ?i \<or> ?i + length ?new \<le> k" using assms(9) top len by linarith
  from overwrite_outside [OF fit this assms(8)] show ?thesis using d' by simp
qed

end

subsection \<open>The RAM disk is a block device\<close>

definition rd_running :: "ramdisk \<Rightarrow> bool" where
  "rd_running d \<longleftrightarrow> rd_status d = DEV_OK \<and> unat (rd_num_blocks d) * unat (rd_block_size d) < 2 ^ 64 \<and>
     (\<exists>st. rd_storage d = Some st \<and> length st = unat (rd_num_blocks d) * unat (rd_block_size d))"

definition rd_bytes :: "ramdisk \<Rightarrow> u8 list" where
  "rd_bytes d = (case rd_storage d of Some st \<Rightarrow> st | None \<Rightarrow> [])"

text \<open>The test in \<open>write_blocks\<close> compares the block number with the size of a block.\<close>

definition rd_writable :: "ramdisk \<Rightarrow> u64 \<Rightarrow> bool" where
  "rd_writable d start \<longleftrightarrow> start \<le> rd_block_size d"

lemma unat_mult_no_wrap: "unat a * unat b < 2 ^ 64 \<Longrightarrow> unat (a * b :: u64) = unat a * unat b"
  by (simp add: unat_word_ariths)

lemma ramdisk_request:
  assumes "rd_running d" "request_inside (rd_num_blocks d) start n"
  shows "unat (start * rd_block_size d) = unat start * unat (rd_block_size d)"
    and "unat (n * rd_block_size d) = unat n * unat (rd_block_size d)"
    and "start \<le> rd_num_blocks d" and "n \<le> rd_num_blocks d"
    and "\<not> start * rd_block_size d + n * rd_block_size d > rd_num_blocks d * rd_block_size d"
    and "unat start * unat (rd_block_size d) + unat n * unat (rd_block_size d) \<le>
       unat (rd_num_blocks d) * unat (rd_block_size d)"
proof -
  let ?bs = "unat (rd_block_size d)" and ?nb = "unat (rd_num_blocks d)"
  have b: "unat start + unat n \<le> ?nb" "?nb * ?bs < 2 ^ 64"
    using assms by (auto simp: request_inside_def rd_running_def)
  have sum: "unat start * ?bs + unat n * ?bs \<le> ?nb * ?bs"
    using b(1) by (simp add: add_mult_distrib [symmetric] mult_le_mono1)
  show s: "unat (start * rd_block_size d) = unat start * ?bs" "unat (n * rd_block_size d) = unat n * ?bs"
    using sum b(2) by (auto intro!: unat_mult_no_wrap)
  show "start \<le> rd_num_blocks d" "n \<le> rd_num_blocks d" using b(1) by (auto simp: word_le_nat_alt)
  have "unat (start * rd_block_size d + n * rd_block_size d) = unat start * ?bs + unat n * ?bs"
    using sum b(2) s by (subst unat_add_no_wrap) auto
  moreover have "unat (rd_num_blocks d * rd_block_size d) = ?nb * ?bs" using b(2) by (rule unat_mult_no_wrap)
  ultimately show "\<not> start * rd_block_size d + n * rd_block_size d > rd_num_blocks d * rd_block_size d"
    using sum by (simp add: word_less_nat_alt)
  show "unat start * ?bs + unat n * ?bs \<le> ?nb * ?bs" by (rule sum)
qed

interpretation rd: block_device ramdisk_ops rd_running rd_bytes rd_writable
proof unfold_locales
  fix d and start n len :: u64 and buf :: "u8 list"
  assume run: "rd_running d" and ins: "request_inside (op_num_blocks ramdisk_ops d) start n"
    and len: "unat n * unat (op_block_size ramdisk_ops d) \<le> unat len" "unat len \<le> length buf"
  have ins': "request_inside (rd_num_blocks d) start n" using ins by (simp add: ramdisk_ops_def)
  note q = ramdisk_request [OF run ins']
  obtain st where st: "rd_storage d = Some st" "length st = unat (rd_num_blocks d) * unat (rd_block_size d)"
    using run by (auto simp: rd_running_def)
  have lt: "\<not> len < n * rd_block_size d" using len q(2) by (simp add: ramdisk_ops_def word_less_nat_alt)
  have ok: "rd_status d = DEV_OK" using run by (simp add: rd_running_def)
  show "op_read ramdisk_ops d start n (Some buf) len = Some (NO_ERROR,
        Some (overwrite 0 (take (unat n * unat (op_block_size ramdisk_ops d))
                (drop (unat start * unat (op_block_size ramdisk_ops d)) (rd_bytes d))) buf))"
    using st ok lt q len
    by (simp add: ramdisk_ops_def ramdisk_read_blocks_def memcpy_def rd_bytes_def overwrite_def leD min_absorb2)
  assume w: "rd_writable d start"
  let ?st = "overwrite (unat start * unat (rd_block_size d)) (take (unat n * unat (rd_block_size d)) buf) st"
  have wr: "ramdisk_write_blocks d start n (Some buf) len = Some (NO_ERROR, d\<lparr>rd_storage := Some ?st\<rparr>)"
    using st ok lt q len w
    by (simp add: ramdisk_ops_def ramdisk_write_blocks_def memcpy_def overwrite_def leD rd_writable_def min_absorb2)
  have "length ?st = length st" using st q(6) len by (intro length_overwrite) (simp add: ramdisk_ops_def)
  then have "rd_running (d\<lparr>rd_storage := Some ?st\<rparr>)" using run st by (auto simp: rd_running_def)
  then show "\<exists>d'. op_write ramdisk_ops d start n (Some buf) len = Some (NO_ERROR, d') \<and> rd_running d' \<and>
        op_num_blocks ramdisk_ops d' = op_num_blocks ramdisk_ops d \<and>
        op_block_size ramdisk_ops d' = op_block_size ramdisk_ops d \<and> rd_writable d' = rd_writable d \<and>
        rd_bytes d' = overwrite (unat start * unat (op_block_size ramdisk_ops d))
                     (take (unat n * unat (op_block_size ramdisk_ops d)) buf) (rd_bytes d)"
    using wr st by (simp add: ramdisk_ops_def rd_bytes_def rd_writable_def fun_eq_iff)
qed (auto simp: ramdisk_ops_def rd_running_def rd_bytes_def)

subsection \<open>Properties\<close>

text \<open>
  Partitions are isolated: a write through a proxy on a RAM disk succeeds for a request inside
  the window (at a block number the RAM disk accepts), changes no byte of the disk outside the
  window, and reading the same blocks back through the proxy gives the data written.
\<close>

theorem proxy_write_isolated:
  assumes "px_ok ramdisk_ops rd_running p d" and "request_inside (px_num_blocks p) start n" and "start < px_num_blocks p"
    and "start + px_start_block p \<le> rd_block_size d"
    and "length data = unat n * unat (rd_block_size d)" and "length data = unat len"
  shows "\<exists>d'. block_proxy_write ramdisk_ops p d start n (Some data) len = Some (NO_ERROR, d') \<and>
     (\<forall>k < length (rd_bytes d). k < unat (px_start_block p) * unat (rd_block_size d) \<or>
        (unat (px_start_block p) + unat (px_num_blocks p)) * unat (rd_block_size d) \<le> k \<longrightarrow>
        rd_bytes d' ! k = rd_bytes d ! k) \<and>
     block_proxy_read ramdisk_ops p d' start n (Some (replicate (length data) 0)) len = Some (NO_ERROR, Some data)"
proof -
  have ops: "op_block_size ramdisk_ops = rd_block_size" "op_num_blocks ramdisk_ops = rd_num_blocks"
    by (simp_all add: ramdisk_ops_def)
  have w: "rd_writable d (start + px_start_block p)" using assms(4) by (simp add: rd_writable_def)
  have l: "unat n * unat (op_block_size ramdisk_ops d) \<le> unat len" "unat len \<le> length data"
    using assms(5,6) by (simp_all add: ops)
  obtain d' where d': "block_proxy_write ramdisk_ops p d start n (Some data) len = Some (NO_ERROR, d')"
    "px_ok ramdisk_ops rd_running p d'" "rd_block_size d' = rd_block_size d"
    "rd_bytes d' = overwrite ((unat start + unat (px_start_block p)) * unat (rd_block_size d)) data (rd_bytes d)"
    using rd.px_write [OF assms(1-3) w l] assms(5) by (auto simp: ops)
  have iso: "rd_bytes d' ! k = rd_bytes d ! k"
    if "k < length (rd_bytes d)" "k < unat (px_start_block p) * unat (rd_block_size d) \<or>
        (unat (px_start_block p) + unat (px_num_blocks p)) * unat (rd_block_size d) \<le> k" for k
    using rd.px_write_isolated [OF assms(1-3) w l d'(1) that(1)] that(2) by (simp add: ops)
  let ?i = "(unat start + unat (px_start_block p)) * unat (rd_block_size d)"
  have fit: "?i + length data \<le> length (rd_bytes d)"
  proof -
    have "?i + length data = (unat start + unat n + unat (px_start_block p)) * unat (rd_block_size d)"
      by (simp add: add_mult_distrib assms(5))
    also have "\<dots> \<le> unat (rd_num_blocks d) * unat (rd_block_size d)"
      using assms(1,2) by (intro mult_le_mono1) (simp add: px_ok_def request_inside_def ops)
    finally show ?thesis using rd.length_bytes [of d] assms(1) by (simp add: px_ok_def ops)
  qed
  have nb: "length data \<le> unat (px_num_blocks p) * unat (rd_block_size d) - unat start * unat (rd_block_size d)"
    using assms(2,5) by (auto simp: request_inside_def diff_mult_distrib [symmetric])
  have "take (length data) (drop (unat start * unat (rd_block_size d)) (px_bytes ramdisk_ops rd_bytes p d')) = data"
    using overwrite_read_back [OF fit] nb d'(3,4)
    by (simp add: px_bytes_def ops drop_take min_absorb1 add_mult_distrib)
  then have "block_proxy_read ramdisk_ops p d' start n (Some (replicate (length data) 0)) len = Some (NO_ERROR, Some data)"
    using rd.px_read [OF d'(2) assms(2,3), of len "replicate (length data) 0"] assms(5,6) d'(3)
    by (simp add: ops overwrite_def)
  with d'(1) iso show ?thesis by blast
qed

definition sample_disk :: ramdisk where
  "sample_disk = snd (ramdisk_start (ramdisk_new 0 4 2))"

definition sample_proxy :: block_proxy where
  "sample_proxy = snd (block_proxy_start (block_proxy_new ramdisk_ops (Some sample_disk) 1 2))"

lemma sample_disk_unfold:
  "sample_disk = \<lparr>rd_status = DEV_OK, rd_num_blocks = 4, rd_block_size = 2, rd_storage_size = 8,
     rd_storage = Some (replicate 8 0)\<rparr>"
  by (simp add: sample_disk_def ramdisk_start_def ramdisk_new_def)

lemma sample_proxy_ok: "px_ok ramdisk_ops rd_running sample_proxy sample_disk"
  by (simp add: px_ok_def sample_proxy_def block_proxy_start_def block_proxy_new_def ramdisk_ops_def
      sample_disk_unfold rd_running_def)

theorem proxy_write_isolated_witness:
  "\<exists>d'. block_proxy_write ramdisk_ops sample_proxy sample_disk 1 1 (Some [7, 8]) 2 = Some (NO_ERROR, d') \<and>
     block_proxy_read ramdisk_ops sample_proxy d' 1 1 (Some [0, 0]) 2 = Some (NO_ERROR, Some [7, 8]) \<and>
     rd_bytes d' ! 1 = 0"
proof -
  have p: "px_num_blocks sample_proxy = 2" "px_start_block sample_proxy = 1"
    by (simp_all add: sample_proxy_def block_proxy_start_def block_proxy_new_def)
  have "replicate 2 (0 :: u8) = [0, 0]" by (simp add: numeral_2_eq_2)
  then show ?thesis
    using proxy_write_isolated [OF sample_proxy_ok, of 1 1 "[7, 8]" 2] p
    by (auto simp: request_inside_def sample_disk_unfold rd_bytes_def)
qed

text \<open>
  The RAM disk refuses to write at every block whose number is greater than the size of a block
  in bytes, although it serves reads there: the bounds test of \<open>write_blocks\<close> uses the block size
  where the number of blocks is meant.
\<close>

theorem ramdisk_write_refused:
  assumes "rd_running d" and "request_inside (rd_num_blocks d) start n" and "rd_block_size d < start"
    and "unat n * unat (rd_block_size d) \<le> unat len" and "unat len \<le> length buf"
  shows "ramdisk_write_blocks d start n (Some buf) len = Some (INVALID_PARAM, d) \<and>
    (\<exists>buf'. ramdisk_read_blocks d start n (Some buf) len = Some (NO_ERROR, Some buf'))"
proof -
  have "ramdisk_write_blocks d start n (Some buf) len = Some (INVALID_PARAM, d)"
    using assms(1,3) by (auto simp: ramdisk_write_blocks_def rd_running_def)
  moreover have "\<exists>buf'. ramdisk_read_blocks d start n (Some buf) len = Some (NO_ERROR, Some buf')"
    using rd.read_inside [of d start n len buf] assms by (simp add: ramdisk_ops_def)
  ultimately show ?thesis by blast
qed

theorem ramdisk_write_refused_witness:
  "ramdisk_write_blocks sample_disk 3 1 (Some [7, 8]) 2 = Some (INVALID_PARAM, sample_disk)"
  using ramdisk_write_refused [of sample_disk 3 1 2 "[7, 8]"]
  by (simp add: sample_disk_unfold rd_running_def request_inside_def)

end
