(* ===== verification/Vmm.thy ===== *)
theory Vmm
  imports Azalea_Prelude Math_Hacks Phys_Mem
begin

text \<open>
  The virtual memory manager: \<open>kernel/mem/virtual.cpp\<close>. It is a buddy allocator over a linked list
  of ranges, each a power of two of 2 MB pages. The list is a HOL list here (the list operations are
  verified in \<open>Klib_List\<close>) and a pointer to a list item is a position. Each range records whether
  its list item and its data come from the preallocated arrays, because that decides what the merging
  code gives to \<open>kfree\<close>; \<open>vs_kmalloced\<close> counts the live allocations.

  \<open>kmalloc\<close> is taken to serve these small requests from memory it has already. The
  manager's spinlock is part of the state: an operation that finds it held by another thread has no
  result, since it spins.
\<close>

subsection \<open>State\<close>

record vmm_range_data =
  rg_start :: u64
  rg_pages :: u64
  rg_allocated :: bool
  rg_item_prealloc :: bool
  rg_data_prealloc :: bool

record vmm_process_data =
  vp_ranges :: "vmm_range_data list"
  vp_lock :: bool
  vp_user_thread :: "nat option"

text \<open>A null process pointer means the kernel.\<close>

datatype vmm_client = Kernel | Process nat

record vmm_state =
  vs_initialized :: bool
  vs_initial_ranges_used :: u32
  vs_initial_list_items_used :: u32
  vs_kernel :: vmm_process_data
  vs_processes :: "nat \<Rightarrow> vmm_process_data option"
  vs_kmalloced :: nat

definition NUM_INITIAL_RANGES :: u32 where
  "NUM_INITIAL_RANGES = 64"

text \<open>The data of a client; a process without \<open>mem_info\<close> fails the assertion.\<close>

definition vmm_data :: "vmm_client \<Rightarrow> vmm_state \<Rightarrow> vmm_process_data option" where
  "vmm_data c s = (case c of Kernel \<Rightarrow> Some (vs_kernel s) | Process p \<Rightarrow> vs_processes s p)"

definition set_vmm_data :: "vmm_client \<Rightarrow> vmm_process_data \<Rightarrow> vmm_state \<Rightarrow> vmm_state" where
  "set_vmm_data c d s =
     (case c of
        Kernel \<Rightarrow> s\<lparr>vs_kernel := d\<rparr>
      | Process p \<Rightarrow> s\<lparr>vs_processes := (vs_processes s)(p \<mapsto> d)\<rparr>)"

subsection \<open>Memory for the manager itself\<close>

definition mem_vmm_allocate_list_item :: "vmm_client \<Rightarrow> vmm_state \<Rightarrow> (bool \<times> vmm_state) option" where
  "mem_vmm_allocate_list_item c s =
     (if c \<noteq> Kernel \<or> vs_initial_list_items_used s \<ge> NUM_INITIAL_RANGES then do {
        ASSERT (vs_initialized s);
        Some (False, s\<lparr>vs_kmalloced := vs_kmalloced s + 1\<rparr>)
      } else Some (True, s\<lparr>vs_initial_list_items_used := vs_initial_list_items_used s + 1\<rparr>))"

definition mem_vmm_allocate_range_item :: "vmm_client \<Rightarrow> vmm_state \<Rightarrow> (bool \<times> vmm_state) option" where
  "mem_vmm_allocate_range_item c s =
     (if c \<noteq> Kernel \<or> vs_initial_ranges_used s \<ge> NUM_INITIAL_RANGES then do {
        ASSERT (vs_initialized s);
        Some (False, s\<lparr>vs_kmalloced := vs_kmalloced s + 1\<rparr>)
      } else Some (True, s\<lparr>vs_initial_ranges_used := vs_initial_ranges_used s + 1\<rparr>))"

definition mem_vmm_free_list_item :: "bool \<Rightarrow> vmm_state \<Rightarrow> vmm_state" where
  "mem_vmm_free_list_item prealloc s =
     (if \<not> prealloc then s\<lparr>vs_kmalloced := vs_kmalloced s - 1\<rparr> else s)"

definition mem_vmm_free_range_item :: "bool \<Rightarrow> vmm_state \<Rightarrow> vmm_state" where
  "mem_vmm_free_range_item prealloc s =
     (if \<not> prealloc then s\<lparr>vs_kmalloced := vs_kmalloced s - 1\<rparr> else s)"

subsection \<open>Locking\<close>

text \<open>The current thread is \<^term>\<open>None\<close> before threads exist.\<close>

definition mem_vmm_lock :: "nat option \<Rightarrow> vmm_process_data \<Rightarrow> (bool \<times> vmm_process_data) option" where
  "mem_vmm_lock cur_thread d =
     (if vp_user_thread d \<noteq> cur_thread then do {
        ASSERT (\<not> vp_lock d);
        Some (True, d\<lparr>vp_lock := True, vp_user_thread := cur_thread\<rparr>)
      } else Some (False, d))"

definition mem_vmm_unlock :: "vmm_process_data \<Rightarrow> vmm_process_data" where
  "mem_vmm_unlock d = d\<lparr>vp_user_thread := None, vp_lock := False\<rparr>"

definition vmm_release :: "bool \<Rightarrow> vmm_process_data \<Rightarrow> vmm_process_data" where
  "vmm_release acquired_lock d = (if acquired_lock then mem_vmm_unlock d else d)"

subsection \<open>Choosing, splitting and merging ranges\<close>

text \<open>The search loop: the position and size of the range selected so far, then the rest of the list.\<close>

fun suitable_loop :: "u64 \<Rightarrow> nat \<Rightarrow> (nat \<times> u64) option \<Rightarrow> vmm_range_data list \<Rightarrow> (nat \<times> u64) option" where
  "suitable_loop num_pages i selected [] = selected"
| "suitable_loop num_pages i selected (r # rs) =
     suitable_loop num_pages (Suc i)
       (if \<not> rg_allocated r \<and> rg_pages r \<ge> num_pages \<and>
           (case selected of None \<Rightarrow> True | Some (j, n) \<Rightarrow> n > rg_pages r)
        then Some (i, rg_pages r) else selected) rs"

definition mem_vmm_get_suitable_range :: "u32 \<Rightarrow> vmm_range_data list \<Rightarrow> vmm_state \<Rightarrow> nat option" where
  "mem_vmm_get_suitable_range num_pages rs s = do {
     ASSERT (rs \<noteq> []);
     ASSERT (num_pages \<noteq> 0);
     ASSERT (vs_initialized s);
     (i, n) \<leftarrow> suitable_loop (ucast num_pages) 0 None rs;
     Some i
   }"

text \<open>
  Splitting a range gives the ranges that take its place in the list, the first of which is the item
  the function returns. Each level halves the range, puts the second half behind it and goes on with
  the first half.
\<close>

function mem_vmm_split_range ::
  "vmm_client \<Rightarrow> vmm_range_data \<Rightarrow> u32 \<Rightarrow> vmm_state \<Rightarrow> (vmm_range_data list \<times> vmm_state) option" where
  "mem_vmm_split_range c old number_of_pages_reqd s = do {
     (item_pre, s) \<leftarrow> mem_vmm_allocate_list_item c s;
     (data_pre, s) \<leftarrow> mem_vmm_allocate_range_item c s;
     let old = old\<lparr>rg_pages := rg_pages old div 2\<rparr>;
     let new = \<lparr>rg_start = rg_start old + rg_pages old * MEM_PAGE_SIZE, rg_pages = rg_pages old,
                rg_allocated = False, rg_item_prealloc = item_pre, rg_data_prealloc = data_pre\<rparr>;
     if rg_pages new > ucast number_of_pages_reqd then do {
       (rs, s) \<leftarrow> mem_vmm_split_range c old number_of_pages_reqd s;
       Some (rs @ [new], s)
     } else Some ([old, new], s)
   }"
  by pat_completeness auto
termination
proof (relation "measure (\<lambda>(c, old, reqd, s). unat (rg_pages old))", goal_cases)
  case (2 c old reqd s x1 x2 x3 x4 x5 x6 x7 x8)
  then have "0 < unat (rg_pages old) div 2"
    by (auto simp: word_less_nat_alt unat_div_distrib)
  then show ?case using 2 by (auto simp: unat_div_distrib)
qed simp

text \<open>Replace the range at a position by others.\<close>

definition replace_at :: "nat \<Rightarrow> 'a list \<Rightarrow> 'a list \<Rightarrow> 'a list" where
  "replace_at i new rs = take i rs @ new @ drop (Suc i) rs"

text \<open>
  Merging after a range has been freed, at a position of the list. The range with its partner is
  replaced by the survivor, twice as large, and merging goes on with that.
\<close>

definition first_half_of_pair :: "vmm_range_data \<Rightarrow> bool" where
  "first_half_of_pair r \<longleftrightarrow> rg_start r mod (rg_pages r * 2 * MEM_PAGE_SIZE) = 0"

definition can_merge :: "vmm_range_data \<Rightarrow> vmm_range_data \<Rightarrow> bool" where
  "can_merge this partner \<longleftrightarrow> \<not> rg_allocated partner \<and> rg_pages partner = rg_pages this"

definition free_items :: "vmm_range_data \<Rightarrow> vmm_state \<Rightarrow> vmm_state" where
  "free_items released s =
     mem_vmm_free_range_item (rg_data_prealloc released) (mem_vmm_free_list_item (rg_item_prealloc released) s)"

function mem_vmm_resolve_merges ::
  "nat \<Rightarrow> vmm_range_data list \<Rightarrow> vmm_state \<Rightarrow> (vmm_range_data list \<times> vmm_state) option" where
  "mem_vmm_resolve_merges i rs s =
     (if i < length rs then do {
        ASSERT (\<not> rg_allocated (rs ! i));
        if first_half_of_pair (rs ! i) then
          if Suc i < length rs \<and> can_merge (rs ! i) (rs ! Suc i) then
            mem_vmm_resolve_merges i
              (take i rs @ (rs ! i)\<lparr>rg_pages := rg_pages (rs ! i) * 2\<rparr> # drop (i + 2) rs)
              (free_items (rs ! Suc i) s)
          else Some (rs, s)
        else
          if 0 < i \<and> can_merge (rs ! i) (rs ! (i - 1)) then
            mem_vmm_resolve_merges (i - 1)
              (take (i - 1) rs @ (rs ! (i - 1))\<lparr>rg_pages := rg_pages (rs ! (i - 1)) * 2\<rparr> # drop (i + 1) rs)
              (free_items (rs ! i) s)
          else Some (rs, s)
      } else None)"
  by pat_completeness auto
termination
  by (relation "measure (\<lambda>(i, rs, s). length rs)") auto

declare mem_vmm_split_range.simps [simp del] mem_vmm_resolve_merges.simps [simp del]

subsection \<open>The interface functions\<close>

definition mem_vmm_initialize_root :: "vmm_state \<Rightarrow> vmm_state option" where
  "mem_vmm_initialize_root s = do {
     ASSERT (\<not> vs_initialized s);
     let s = s\<lparr>vs_initial_ranges_used := 0, vs_initial_list_items_used := 0\<rparr>;
     (item_pre, s) \<leftarrow> mem_vmm_allocate_list_item Kernel s;
     (data_pre, s) \<leftarrow> mem_vmm_allocate_range_item Kernel s;
     Some (s\<lparr>vs_kernel := (vs_kernel s)\<lparr>vp_ranges :=
       [\<lparr>rg_start = 0xFFFFFFFF00000000, rg_pages = 2048, rg_allocated = False,
         rg_item_prealloc = item_pre, rg_data_prealloc = data_pre\<rparr>]\<rparr>\<rparr>)
   }"

text \<open>
  The first range that contains an address, by the test of the code: the last byte of the range is
  strictly above the address.
\<close>

definition contains_addr :: "u64 \<Rightarrow> vmm_range_data \<Rightarrow> bool" where
  "contains_addr a r \<longleftrightarrow> rg_start r \<le> a \<and> rg_start r + rg_pages r * MEM_PAGE_SIZE - 1 > a"

fun find_index :: "('a \<Rightarrow> bool) \<Rightarrow> 'a list \<Rightarrow> nat option" where
  "find_index P [] = None"
| "find_index P (x # xs) = (if P x then Some 0 else map_option Suc (find_index P xs))"

lemma find_index_skip:
  "\<forall>x \<in> set xs. \<not> P x \<Longrightarrow> P y \<Longrightarrow> find_index P (xs @ y # ys) = Some (length xs)"
  by (induction xs) auto

lemma find_index_Some: "find_index P xs = Some i \<Longrightarrow> i < length xs \<and> P (xs ! i)"
  by (induction xs arbitrary: i) (auto split: if_splits)

text \<open>
  The function calls itself after each split. Not returning is \<^term>\<open>None\<close>, like the panic when no
  range contains the address.
\<close>

partial_function (option) mem_vmm_allocate_specific_range ::
  "vmm_client \<Rightarrow> u64 \<Rightarrow> u32 \<Rightarrow> vmm_state \<Rightarrow> vmm_state option" where
  "mem_vmm_allocate_specific_range c start_addr num_pages s =
     Option.bind (vmm_data c s) (\<lambda>d.
     Option.bind (ASSERT (ucast (round_to_power_two (ucast num_pages)) = num_pages)) (\<lambda>_.
     Option.bind (ASSERT (start_addr mod (ucast num_pages * MEM_PAGE_SIZE) = 0)) (\<lambda>_.
     Option.bind (find_index (contains_addr start_addr) (vp_ranges d)) (\<lambda>i.
     let r = vp_ranges d ! i in
     Option.bind (ASSERT (rg_pages r \<ge> ucast num_pages)) (\<lambda>_.
     if rg_pages r = ucast num_pages then
       Option.bind (ASSERT (\<not> rg_allocated r)) (\<lambda>_.
       Some (set_vmm_data c (d\<lparr>vp_ranges := (vp_ranges d)[i := r\<lparr>rg_allocated := True\<rparr>]\<rparr>) s))
     else
       Option.bind (mem_vmm_split_range c r (ucast (rg_pages r div 2)) s) (\<lambda>(new, s).
       mem_vmm_allocate_specific_range c start_addr num_pages
         (set_vmm_data c (d\<lparr>vp_ranges := replace_at i new (vp_ranges d)\<rparr>) s)))))))"

definition used_pages :: "vmm_range_data list \<Rightarrow> u64" where
  "used_pages rs = sum_list (map rg_pages (filter rg_allocated rs))"

definition unused_pages :: "vmm_range_data list \<Rightarrow> u64" where
  "unused_pages rs = sum_list (map rg_pages (filter (\<lambda>r. \<not> rg_allocated r) rs))"

definition mem_vmm_initialize :: "vmm_state \<Rightarrow> vmm_state option" where
  "mem_vmm_initialize s = do {
     s \<leftarrow> mem_vmm_initialize_root s;
     s \<leftarrow> mem_vmm_allocate_specific_range Kernel 0xFFFFFFFF00000000 (of_nat MEM_NUM_KERNEL_PAGES) s;
     s \<leftarrow> mem_vmm_allocate_specific_range Kernel 0xFFFFFFFFFFE00000 1 s;
     ASSERT (vp_ranges (vs_kernel s) \<noteq> []);
     let s = s\<lparr>vs_kernel := (vs_kernel s)\<lparr>vp_lock := False, vp_user_thread := None\<rparr>\<rparr>;
     ASSERT (unused_pages (vp_ranges (vs_kernel s)) > 5);
     ASSERT (used_pages (vp_ranges (vs_kernel s)) < 20);
     Some (s\<lparr>vs_initialized := True\<rparr>)
   }"

definition mem_allocate_virtual_range ::
  "nat option \<Rightarrow> u32 \<Rightarrow> vmm_client \<Rightarrow> vmm_state \<Rightarrow> (u64 \<times> vmm_state) option" where
  "mem_allocate_virtual_range cur_thread num_pages c s = do {
     s \<leftarrow> (if \<not> vs_initialized s then mem_vmm_initialize s else Some s);
     d \<leftarrow> vmm_data c s;
     (acquired_lock, d) \<leftarrow> mem_vmm_lock cur_thread d;
     let actual_num_pages = (ucast (round_to_power_two (ucast num_pages)) :: u32);
     i \<leftarrow> mem_vmm_get_suitable_range actual_num_pages (vp_ranges d) s;
     let r = vp_ranges d ! i;
     ASSERT (rg_pages r \<ge> ucast actual_num_pages);
     ASSERT (\<not> rg_allocated r);
     (new, s) \<leftarrow> (if rg_pages r \<noteq> ucast actual_num_pages then mem_vmm_split_range c r actual_num_pages s
                  else Some ([r], s));
     let r = hd new;
     ASSERT (rg_pages r = ucast actual_num_pages);
     let d = d\<lparr>vp_ranges := replace_at i (r\<lparr>rg_allocated := True\<rparr> # tl new) (vp_ranges d)\<rparr>;
     Some (rg_start r, set_vmm_data c (vmm_release acquired_lock d) s)
   }"

definition mem_deallocate_virtual_range ::
  "nat option \<Rightarrow> u64 \<Rightarrow> u32 \<Rightarrow> vmm_client \<Rightarrow> vmm_state \<Rightarrow> vmm_state option" where
  "mem_deallocate_virtual_range cur_thread start num_pages c s = do {
     d \<leftarrow> vmm_data c s;
     ASSERT (vs_initialized s);
     (acquired_lock, d) \<leftarrow> mem_vmm_lock cur_thread d;
     let actual_num_pages = (ucast (round_to_power_two (ucast num_pages)) :: u32);
     i \<leftarrow> find_index (\<lambda>r. rg_start r = start) (vp_ranges d);
     let r = vp_ranges d ! i;
     ASSERT (rg_allocated r);
     ASSERT (rg_pages r = ucast actual_num_pages);
     (rs, s) \<leftarrow> mem_vmm_resolve_merges i ((vp_ranges d)[i := r\<lparr>rg_allocated := False\<rparr>]) s;
     Some (set_vmm_data c (vmm_release acquired_lock (d\<lparr>vp_ranges := rs\<rparr>)) s)
   }"

definition mem_vmm_init_proc_data :: "nat \<Rightarrow> vmm_state \<Rightarrow> vmm_state option" where
  "mem_vmm_init_proc_data p s = do {
     s \<leftarrow> (if \<not> vs_initialized s then mem_vmm_initialize s else Some s);
     (item_pre, s) \<leftarrow> mem_vmm_allocate_list_item (Process p) s;
     (data_pre, s) \<leftarrow> mem_vmm_allocate_range_item (Process p) s;
     Some (set_vmm_data (Process p) \<lparr>vp_ranges =
         [\<lparr>rg_start = 0, rg_pages = 0x2000000, rg_allocated = False,
           rg_item_prealloc = item_pre, rg_data_prealloc = data_pre\<rparr>],
         vp_lock = False, vp_user_thread = None\<rparr> s)
   }"

definition mem_get_virtual_allocation_size :: "u64 \<Rightarrow> nat \<Rightarrow> vmm_state \<Rightarrow> u64 option" where
  "mem_get_virtual_allocation_size start_addr p s = do {
     d \<leftarrow> vmm_data (Process p) s;
     (case find_index (\<lambda>r. rg_start r = start_addr) (vp_ranges d) of
        Some i \<Rightarrow> Some (if rg_allocated (vp_ranges d ! i) then rg_pages (vp_ranges d ! i) else 0)
      | None \<Rightarrow> Some 0)
   }"

subsection \<open>The invariant\<close>

text \<open>
  The ranges tile the region from \<open>a\<close> to \<open>e\<close>, each is a power of two of pages and aligned to its size,
  and no two neighbours that are buddies are both free.
\<close>

definition range_bytes :: "vmm_range_data \<Rightarrow> nat" where
  "range_bytes r = unat (rg_pages r) * 2 ^ 21"

fun tiles :: "nat \<Rightarrow> vmm_range_data list \<Rightarrow> nat \<Rightarrow> bool" where
  "tiles a [] e \<longleftrightarrow> a = e"
| "tiles a (r # rs) e \<longleftrightarrow> unat (rg_start r) = a \<and> tiles (a + range_bytes r) rs e"

definition range_ok :: "vmm_range_data \<Rightarrow> bool" where
  "range_ok r \<longleftrightarrow> (\<exists>k \<le> 40. unat (rg_pages r) = 2 ^ k) \<and> range_bytes r dvd unat (rg_start r)"

definition mergeable :: "vmm_range_data \<Rightarrow> vmm_range_data \<Rightarrow> bool" where
  "mergeable r q \<longleftrightarrow> \<not> rg_allocated r \<and> \<not> rg_allocated q \<and> rg_pages r = rg_pages q \<and>
     2 * range_bytes r dvd unat (rg_start r)"

abbreviation unmerged :: "vmm_range_data list \<Rightarrow> bool" where
  "unmerged \<equiv> successively (\<lambda>r q. \<not> mergeable r q)"

definition vmm_ok :: "nat \<Rightarrow> vmm_range_data list \<Rightarrow> nat \<Rightarrow> bool" where
  "vmm_ok a rs e \<longleftrightarrow> tiles a rs e \<and> (\<forall>r \<in> set rs. range_ok r) \<and> unmerged rs \<and> e \<le> 2 ^ 64 \<and> e - a \<le> 2 ^ 61"

lemma tiles_append: "tiles a (xs @ ys) e \<longleftrightarrow> (\<exists>m. tiles a xs m \<and> tiles m ys e)"
  by (induction xs arbitrary: a) auto

lemma tiles_le: "tiles a rs e \<Longrightarrow> a \<le> e"
  by (induction rs arbitrary: a) fastforce+

lemma range_ok_bytes: "range_ok r \<Longrightarrow> 0 < range_bytes r \<and> range_bytes r \<le> 2 ^ 61"
proof -
  assume "range_ok r"
  then obtain k where k: "k \<le> 40" "unat (rg_pages r) = 2 ^ k" by (auto simp: range_ok_def)
  then have "range_bytes r = 2 ^ (k + 21)" by (simp add: range_bytes_def power_add)
  then show ?thesis using k(1) power_increasing [of "k + 21" 61 "2 :: nat"] by simp
qed

lemma unat_mult_exact: "unat a * unat b < 2 ^ 64 \<Longrightarrow> unat (a * b :: u64) = unat a * unat b"
  by (simp add: unat_word_ariths)

lemma first_half_iff:
  assumes "range_ok r"
  shows "first_half_of_pair r \<longleftrightarrow> 2 * range_bytes r dvd unat (rg_start r)"
proof -
  have b: "range_bytes r \<le> 2 ^ 61" using range_ok_bytes [OF assms] by simp
  then have p: "unat (rg_pages r) \<le> 2 ^ 40" by (simp add: range_bytes_def)
  then have "unat (rg_pages r * 2) = unat (rg_pages r) * 2" by (simp add: unat_mult_exact)
  then have "unat (rg_pages r * 2 * MEM_PAGE_SIZE) = 2 * range_bytes r"
    using p by (subst unat_mult_exact) (simp_all add: range_bytes_def)
  then show ?thesis
    by (simp add: first_half_of_pair_def dvd_eq_mod_eq_0 word_unat_eq_iff unat_mod_distrib)
qed

text \<open>Of two neighbouring intervals of the same size one is the first half of a pair.\<close>

lemma dvd_shift:
  fixes m x :: nat
  assumes "m dvd x" "0 < m"
  shows "2 * m dvd x + m \<longleftrightarrow> \<not> 2 * m dvd x"
proof -
  obtain q where x: "x = m * q" using assms(1) by (auto elim: dvdE)
  have "2 * m dvd m * j \<longleftrightarrow> even j" for j using assms(2) by (simp add: mult.commute [of 2])
  moreover have "x + m = m * Suc q" using x by simp
  ultimately show ?thesis using x by (simp only: even_Suc)
qed

lemma double_range_ok:
  assumes "range_ok r" "2 * range_bytes r dvd unat (rg_start r)" "2 * range_bytes r \<le> 2 ^ 61"
  shows "range_ok (r\<lparr>rg_pages := rg_pages r * 2\<rparr>)" "range_bytes (r\<lparr>rg_pages := rg_pages r * 2\<rparr>) = 2 * range_bytes r"
proof -
  obtain k where k: "unat (rg_pages r) = 2 ^ k" using assms(1) by (auto simp: range_ok_def)
  have "2 ^ (k + 22) \<le> (2 :: nat) ^ 61"
    using assms(3) k by (simp add: range_bytes_def power_add)
  then have k40: "Suc k \<le> 40" using power_le_imp_le_exp [of "2 :: nat" "k + 22" 61] by simp
  then have "(2 :: nat) ^ k * 2 < 2 ^ 64"
    using power_strict_increasing [of "Suc k" 64 "2 :: nat"] by simp
  then have p: "unat (rg_pages r * 2) = 2 ^ Suc k" using k by (simp add: unat_mult_exact)
  then show b: "range_bytes (r\<lparr>rg_pages := rg_pages r * 2\<rparr>) = 2 * range_bytes r"
    using k by (simp add: range_bytes_def)
  have "range_bytes (r\<lparr>rg_pages := rg_pages r * 2\<rparr>) dvd unat (rg_start r)" using assms(2) b by simp
  moreover have "\<exists>k \<le> 40. unat (rg_pages r * 2) = 2 ^ k" using p k40 by blast
  ultimately show "range_ok (r\<lparr>rg_pages := rg_pages r * 2\<rparr>)" by (simp add: range_ok_def)
qed

subsection \<open>Merging\<close>

text \<open>What the manager's own allocations leave alone, and how many live ones a range holds.\<close>

definition same_ranges :: "vmm_state \<Rightarrow> vmm_state \<Rightarrow> bool" where
  "same_ranges s s' \<longleftrightarrow> vs_initialized s' = vs_initialized s \<and> vs_kernel s' = vs_kernel s \<and> vs_processes s' = vs_processes s"

definition held_items :: "vmm_range_data \<Rightarrow> nat" where
  "held_items r = (if rg_item_prealloc r then 0 else 1) + (if rg_data_prealloc r then 0 else 1)"

lemma free_items_frame: "same_ranges s (free_items r s)"
  by (simp add: free_items_def mem_vmm_free_list_item_def mem_vmm_free_range_item_def same_ranges_def)

lemma same_ranges_trans: "same_ranges s t \<Longrightarrow> same_ranges t u \<Longrightarrow> same_ranges s u"
  by (simp add: same_ranges_def)

lemma same_ranges_refl [simp]: "same_ranges s s"
  by (simp add: same_ranges_def)

lemma resolve_first:
  "first_half_of_pair r \<Longrightarrow> \<not> rg_allocated r \<Longrightarrow>
   mem_vmm_resolve_merges (length xs) (xs @ r # ys) s =
     (case ys of
        [] \<Rightarrow> Some (xs @ r # ys, s)
      | q # ys' \<Rightarrow> if can_merge r q
          then mem_vmm_resolve_merges (length xs) (xs @ r\<lparr>rg_pages := rg_pages r * 2\<rparr> # ys') (free_items q s)
          else Some (xs @ r # ys, s))"
  by (subst mem_vmm_resolve_merges.simps) (simp add: nth_append split: list.splits)

lemma resolve_second_Nil:
  "\<not> first_half_of_pair r \<Longrightarrow> \<not> rg_allocated r \<Longrightarrow> mem_vmm_resolve_merges 0 (r # ys) s = Some (r # ys, s)"
  by (subst mem_vmm_resolve_merges.simps) simp

lemma resolve_second_snoc:
  "\<not> first_half_of_pair r \<Longrightarrow> \<not> rg_allocated r \<Longrightarrow>
   mem_vmm_resolve_merges (Suc (length xs)) (xs @ q # r # ys) s =
     (if can_merge r q
      then mem_vmm_resolve_merges (length xs) (xs @ q\<lparr>rg_pages := rg_pages q * 2\<rparr> # ys) (free_items r s)
      else Some (xs @ q # r # ys, s))"
  by (subst mem_vmm_resolve_merges.simps) (simp add: nth_append)

text \<open>The neighbours of a free range that has no free buddy.\<close>

lemma unmerged_around:
  assumes "unmerged xs" "unmerged ys"
    and "xs \<noteq> [] \<Longrightarrow> \<not> mergeable (last xs) r" and "ys \<noteq> [] \<Longrightarrow> \<not> mergeable r (hd ys)"
  shows "unmerged (xs @ r # ys)"
  using assms by (cases ys) (auto simp: successively_append_iff successively_Cons)

lemma tiles_neighbours:
  "tiles a (xs @ q # r # ys) e \<Longrightarrow> unat (rg_start r) = unat (rg_start q) + range_bytes q"
  by (auto simp: tiles_append)

lemma tiles_pair_size:
  assumes "tiles a (xs @ q # r # ys) e"
  shows "range_bytes q + range_bytes r \<le> e - a"
proof -
  obtain m where "tiles a xs m" "tiles (m + range_bytes q + range_bytes r) ys e"
    using assms by (auto simp: tiles_append)
  from this [THEN tiles_le] show ?thesis by linarith
qed

lemma tiles_merge:
  "tiles a (xs @ q # r # ys) e \<Longrightarrow> range_bytes r = range_bytes q \<Longrightarrow> unat (rg_start q') = unat (rg_start q) \<Longrightarrow>
   range_bytes q' = 2 * range_bytes q \<Longrightarrow> tiles a (xs @ q' # ys) e"
  by (auto simp: tiles_append mult_2 add.assoc)

lemma not_mergeable_first:
  assumes "first_half_of_pair r" "range_ok r" "range_ok q" "tiles a (xs @ q # r # ys) e"
  shows "\<not> mergeable q r"
proof
  assume m: "mergeable q r"
  have b: "range_bytes q = range_bytes r" using m by (simp add: mergeable_def range_bytes_def)
  have "2 * range_bytes q dvd unat (rg_start q) + range_bytes q"
    using assms(1) first_half_iff [OF assms(2)] tiles_neighbours [OF assms(4)] b by simp
  moreover have "range_bytes q dvd unat (rg_start q)" using assms(3) by (simp add: range_ok_def)
  ultimately show False
    using dvd_shift [of "range_bytes q" "unat (rg_start q)"] range_ok_bytes [OF assms(3)] m
    by (simp add: mergeable_def)
qed

lemma not_mergeable_second: "\<not> first_half_of_pair r \<Longrightarrow> range_ok r \<Longrightarrow> \<not> mergeable r q"
  using first_half_iff [of r] by (auto simp: mergeable_def)

lemma not_can_merge: "\<not> can_merge r q \<Longrightarrow> \<not> mergeable r q \<and> \<not> mergeable q r"
  by (auto simp: can_merge_def mergeable_def)

lemma resolve_merges_ok:
  assumes "tiles a (xs @ r # ys) e" "\<forall>x \<in> set (xs @ r # ys). range_ok x" "\<not> rg_allocated r"
    "unmerged xs" "unmerged ys" "e - a \<le> 2 ^ 61" "e \<le> 2 ^ 64"
  shows "\<exists>rs' s'. mem_vmm_resolve_merges (length xs) (xs @ r # ys) s = Some (rs', s') \<and> vmm_ok a rs' e \<and>
     filter rg_allocated rs' = filter rg_allocated (xs @ r # ys) \<and> same_ranges s s'"
  using assms
proof (induction "length xs + length ys" arbitrary: xs r ys s rule: less_induct)
  case less
  have ok: "range_ok r" using less.prems(2) by simp
  show ?case
  proof (cases "first_half_of_pair r")
    case first: True
    have left: "\<not> mergeable (last xs) r" if "xs \<noteq> []"
    proof -
      have x: "xs = butlast xs @ [last xs]" using that by simp
      have t: "tiles a (butlast xs @ last xs # r # ys) e" using less.prems(1) x by (metis append.assoc append_Cons append_Nil)
      have "range_ok (last xs)" using less.prems(2) that by simp
      then show ?thesis using not_mergeable_first [OF first ok _ t] by simp
    qed
    show ?thesis
    proof (cases "ys \<noteq> [] \<and> can_merge r (hd ys)")
      case False
      have "\<not> mergeable r (hd ys)" if "ys \<noteq> []" using False that not_can_merge by auto
      then have "unmerged (xs @ r # ys)" using unmerged_around less.prems(4,5) left by blast
      moreover have "mem_vmm_resolve_merges (length xs) (xs @ r # ys) s = Some (xs @ r # ys, s)"
        using False first less.prems(3) by (cases ys) (simp_all add: resolve_first)
      ultimately show ?thesis using less.prems by (auto simp: vmm_ok_def)
    next
      case True
      then obtain q ys' where ys: "ys = q # ys'" "can_merge r q" by (cases ys) auto
      let ?r = "r\<lparr>rg_pages := rg_pages r * 2\<rparr>"
      have b: "range_bytes q = range_bytes r" "\<not> rg_allocated q" using ys(2) by (simp_all add: can_merge_def range_bytes_def)
      have dv: "2 * range_bytes r dvd unat (rg_start r)" using first first_half_iff [OF ok] by simp
      have sz: "2 * range_bytes r \<le> e - a"
        using tiles_pair_size [of a xs r q ys' e] less.prems(1) ys b by simp
      have r2: "range_ok ?r" "range_bytes ?r = 2 * range_bytes r"
        using double_range_ok [OF ok dv] sz less.prems(6) by auto
      have t: "tiles a (xs @ ?r # ys') e"
        using tiles_merge [of a xs r q ys' e ?r] less.prems(1) ys b r2 by simp
      have "unmerged ys'" using less.prems(5) ys by (auto simp: successively_Cons)
      then obtain rs' s' where "mem_vmm_resolve_merges (length xs) (xs @ ?r # ys') (free_items q s) = Some (rs', s')"
        "vmm_ok a rs' e" "filter rg_allocated rs' = filter rg_allocated (xs @ ?r # ys')"
        "same_ranges (free_items q s) s'"
        using less.hyps [of xs ys' ?r "free_items q s"] t less.prems r2 ys by auto
      moreover have "same_ranges s s'" using same_ranges_trans [OF free_items_frame] calculation(4) .
      ultimately show ?thesis using ys b first less.prems(3) by (simp add: resolve_first)
    qed
  next
    case second: False
    have right: "\<not> mergeable r (hd ys)" using not_mergeable_second [OF second ok] .
    show ?thesis
    proof (cases "xs \<noteq> [] \<and> can_merge r (last xs)")
      case False
      have "\<not> mergeable (last xs) r" if "xs \<noteq> []" using False that not_can_merge by auto
      then have u: "unmerged (xs @ r # ys)" using unmerged_around less.prems(4,5) right by blast
      have "mem_vmm_resolve_merges (length xs) (xs @ r # ys) s = Some (xs @ r # ys, s)"
      proof (cases xs rule: rev_cases)
        case Nil
        then show ?thesis using second less.prems(3) by (simp add: resolve_second_Nil)
      next
        case (snoc xs' q)
        then show ?thesis using second less.prems(3) False by (simp add: resolve_second_snoc)
      qed
      with u show ?thesis using less.prems by (auto simp: vmm_ok_def)
    next
      case True
      then obtain xs' q where xs: "xs = xs' @ [q]" "can_merge r q" by (cases xs rule: rev_cases) auto
      let ?q = "q\<lparr>rg_pages := rg_pages q * 2\<rparr>"
      have okq: "range_ok q" using less.prems(2) xs by simp
      have b: "range_bytes q = range_bytes r" "\<not> rg_allocated q" using xs(2) by (simp_all add: can_merge_def range_bytes_def)
      have st: "unat (rg_start r) = unat (rg_start q) + range_bytes q"
        using tiles_neighbours [of a xs' q r ys e] less.prems(1) xs by simp
      have "\<not> 2 * range_bytes q dvd unat (rg_start q) + range_bytes q"
        using second first_half_iff [OF ok] st b by simp
      then have dv: "2 * range_bytes q dvd unat (rg_start q)"
        using dvd_shift [of "range_bytes q" "unat (rg_start q)"] okq range_ok_bytes [OF okq]
        by (auto simp: range_ok_def)
      have sz: "2 * range_bytes q \<le> e - a"
        using tiles_pair_size [of a xs' q r ys e] less.prems(1) xs b by simp
      have q2: "range_ok ?q" "range_bytes ?q = 2 * range_bytes q"
        using double_range_ok [OF okq dv] sz less.prems(6) by auto
      have t: "tiles a (xs' @ ?q # ys) e"
        using tiles_merge [of a xs' q r ys e ?q] less.prems(1) xs b q2 by simp
      have "unmerged xs'" using less.prems(4) xs by (auto simp: successively_append_iff)
      then obtain rs' s' where "mem_vmm_resolve_merges (length xs') (xs' @ ?q # ys) (free_items r s) = Some (rs', s')"
        "vmm_ok a rs' e" "filter rg_allocated rs' = filter rg_allocated (xs' @ ?q # ys)"
        "same_ranges (free_items r s) s'"
        using less.hyps [of xs' ys ?q "free_items r s"] t less.prems q2 xs b by auto
      moreover have "same_ranges s s'" using same_ranges_trans [OF free_items_frame] calculation(4) .
      ultimately show ?thesis using xs b second less.prems(3) by (simp add: resolve_second_snoc)
    qed
  qed
qed

subsection \<open>Splitting\<close>

lemma allocate_list_item_ok:
  "vs_initialized s \<Longrightarrow> \<exists>pre s'. mem_vmm_allocate_list_item c s = Some (pre, s') \<and> same_ranges s s' \<and>
     vs_kmalloced s' = vs_kmalloced s + (if pre then 0 else 1)"
  by (auto simp: mem_vmm_allocate_list_item_def same_ranges_def)

lemma allocate_range_item_ok:
  "vs_initialized s \<Longrightarrow> \<exists>pre s'. mem_vmm_allocate_range_item c s = Some (pre, s') \<and> same_ranges s s' \<and>
     vs_kmalloced s' = vs_kmalloced s + (if pre then 0 else 1)"
  by (auto simp: mem_vmm_allocate_range_item_def same_ranges_def)

lemma allocate_items_ok:
  assumes "vs_initialized s"
  obtains ip dp s1 s2 where "mem_vmm_allocate_list_item c s = Some (ip, s1)"
    "mem_vmm_allocate_range_item c s1 = Some (dp, s2)" "same_ranges s s2" "vs_initialized s2"
    "vs_kmalloced s2 = vs_kmalloced s + ((if ip then 0 else 1) + (if dp then 0 else 1))"
proof -
  obtain ip s1 where 1: "mem_vmm_allocate_list_item c s = Some (ip, s1)" "same_ranges s s1"
    "vs_kmalloced s1 = vs_kmalloced s + (if ip then 0 else 1)"
    using allocate_list_item_ok [OF assms] by blast
  then have "vs_initialized s1" using assms by (simp add: same_ranges_def)
  then obtain dp s2 where 2: "mem_vmm_allocate_range_item c s1 = Some (dp, s2)" "same_ranges s1 s2"
    "vs_kmalloced s2 = vs_kmalloced s1 + (if dp then 0 else 1)"
    using allocate_range_item_ok by blast
  show thesis using that [OF 1(1) 2(1)] 1 2 assms by (auto simp: same_ranges_def)
qed

text \<open>The pieces behind the first one: free, growing in size, the last one half of the whole.\<close>

definition split_pieces :: "vmm_range_data \<Rightarrow> nat \<Rightarrow> vmm_range_data list \<Rightarrow> bool" where
  "split_pieces old j rs \<longleftrightarrow> rs \<noteq> [] \<and>
     tiles (unat (rg_start old) + 2 ^ j * 2 ^ 21) rs (unat (rg_start old) + range_bytes old) \<and>
     (\<forall>r \<in> set rs. range_ok r \<and> \<not> rg_allocated r) \<and>
     sorted_wrt (\<lambda>r q. range_bytes r < range_bytes q) rs \<and> 2 * range_bytes (last rs) = range_bytes old"

text \<open>The halves of a range.\<close>

lemma halves:
  assumes "range_ok old" "unat (rg_pages old) = 2 ^ Suc k" "unat (rg_start old) + range_bytes old \<le> 2 ^ 64"
    and h_def: "h = old\<lparr>rg_pages := rg_pages old div 2\<rparr>"
    and n_def: "n = \<lparr>rg_start = rg_start old + (rg_pages old div 2) * MEM_PAGE_SIZE, rg_pages = rg_pages old div 2,
        rg_allocated = False, rg_item_prealloc = ip, rg_data_prealloc = dp\<rparr>"
  shows "unat (rg_pages h) = 2 ^ k" "rg_pages n = rg_pages h" "2 * range_bytes h = range_bytes old" "range_ok h"
    "unat (rg_start n) = unat (rg_start old) + range_bytes h" "range_ok n" "range_bytes n = range_bytes h"
proof -
  show p: "unat (rg_pages h) = 2 ^ k" using assms(2) by (simp add: h_def unat_div_distrib)
  show "rg_pages n = rg_pages h" by (simp add: n_def h_def)
  then show nb: "range_bytes n = range_bytes h" by (simp add: range_bytes_def)
  show hb: "2 * range_bytes h = range_bytes old" using p assms(2) by (simp add: range_bytes_def)
  have k: "k \<le> 40" "\<exists>m \<le> 40. unat (rg_pages h) = 2 ^ m"
  proof -
    obtain m where m: "m \<le> 40" "unat (rg_pages old) = 2 ^ m" using assms(1) by (auto simp: range_ok_def)
    then have "m = Suc k" using assms(2) by (metis power_inject_exp one_less_numeral_iff semiring_norm(76))
    with m p show "k \<le> 40" "\<exists>m \<le> 40. unat (rg_pages h) = 2 ^ m" by auto
  qed
  have dvd: "2 * range_bytes h dvd unat (rg_start old)" using assms(1) hb by (simp add: range_ok_def)
  then have dvdh: "range_bytes h dvd unat (rg_start old)" by (meson dvd_mult_right)
  then show "range_ok h" using k by (simp add: range_ok_def h_def)
  have lt: "unat (rg_start old) + range_bytes h < 2 ^ 64"
  proof -
    have "0 < range_bytes h" using p by (simp add: range_bytes_def)
    then show ?thesis using assms(3) hb by linarith
  qed
  then have m: "unat ((rg_pages old div 2) * MEM_PAGE_SIZE) = range_bytes h"
    using p by (subst unat_mult_exact) (simp_all add: range_bytes_def h_def)
  show st: "unat (rg_start n) = unat (rg_start old) + range_bytes h"
    using lt m by (simp add: n_def unat_add_no_wrap)
  show "range_ok n"
    using k p st nb dvdh by (auto simp: range_ok_def n_def h_def)
qed

lemma sorted_le_last:
  "sorted_wrt (\<lambda>x y. f x < f y) xs \<Longrightarrow> x \<in> set xs \<Longrightarrow> f x \<le> f (last xs)" for f :: "'a \<Rightarrow> nat"
  by (induction xs) (auto intro: less_imp_le)

lemma split_spec:
  "range_ok old \<Longrightarrow> unat (rg_pages old) = 2 ^ k \<Longrightarrow> unat (rg_start old) + range_bytes old \<le> 2 ^ 64 \<Longrightarrow>
   unat reqd = 2 ^ j \<Longrightarrow> j < k \<Longrightarrow> vs_initialized s \<Longrightarrow>
   \<exists>rs s'. mem_vmm_split_range c old reqd s = Some (old\<lparr>rg_pages := ucast reqd\<rparr> # rs, s') \<and>
     split_pieces old j rs \<and> same_ranges s s' \<and> vs_kmalloced s' = vs_kmalloced s + sum_list (map held_items rs)"
proof (induction k arbitrary: old s)
  case (Suc k)
  obtain ip dp s1 s2 where al: "mem_vmm_allocate_list_item c s = Some (ip, s1)"
    "mem_vmm_allocate_range_item c s1 = Some (dp, s2)" "same_ranges s s2" "vs_initialized s2"
    "vs_kmalloced s2 = vs_kmalloced s + ((if ip then 0 else 1) + (if dp then 0 else 1))"
    using allocate_items_ok [OF Suc.prems(6)] .
  define h where "h = old\<lparr>rg_pages := rg_pages old div 2\<rparr>"
  define n where "n = \<lparr>rg_start = rg_start old + (rg_pages old div 2) * MEM_PAGE_SIZE, rg_pages = rg_pages old div 2,
      rg_allocated = False, rg_item_prealloc = ip, rg_data_prealloc = dp\<rparr>"
  note hv = halves [OF Suc.prems(1-3) h_def n_def]
  have held: "held_items n = (if ip then 0 else 1) + (if dp then 0 else 1)" by (simp add: held_items_def n_def)
  have cond: "rg_pages n > ucast reqd \<longleftrightarrow> j < k"
    using hv(1,2) Suc.prems(4) by (simp add: word_less_nat_alt)
  have unf: "mem_vmm_split_range c old reqd s =
      (if j < k then (case mem_vmm_split_range c h reqd s2 of None \<Rightarrow> None | Some (rs, s') \<Rightarrow> Some (rs @ [n], s'))
       else Some ([h, n], s2))"
    using al(1,2) cond
    by (subst mem_vmm_split_range.simps) (simp add: h_def n_def split: option.splits)
  show ?case
  proof (cases "j < k")
    case False
    then have j: "j = k" using Suc.prems(5) by simp
    then have "rg_pages h = ucast reqd" using hv(1) Suc.prems(4) by (simp add: word_unat_eq_iff)
    then have "h = old\<lparr>rg_pages := ucast reqd\<rparr>" by (simp add: h_def)
    moreover have "split_pieces old j [n]"
      using hv j by (auto simp: split_pieces_def range_bytes_def n_def)
    ultimately show ?thesis using unf False al held by (intro exI [of _ "[n]"] exI [of _ s2]) simp
  next
    case True
    have hs: "rg_start h = rg_start old" by (simp add: h_def)
    have "unat (rg_start h) + range_bytes h \<le> 2 ^ 64" using Suc.prems(3) hv(3) hs by simp
    then obtain rs s' where rs: "mem_vmm_split_range c h reqd s2 = Some (h\<lparr>rg_pages := ucast reqd\<rparr> # rs, s')"
      "split_pieces h j rs" "same_ranges s2 s'" "vs_kmalloced s' = vs_kmalloced s2 + sum_list (map held_items rs)"
      using Suc.IH [OF hv(4,1) _ Suc.prems(4) True al(4)] by blast
    have "split_pieces old j (rs @ [n])"
    proof -
      have lt: "range_bytes r < range_bytes n" if "r \<in> set rs" for r
      proof -
        have sw: "sorted_wrt (\<lambda>r q. range_bytes r < range_bytes q) rs" "rs \<noteq> []"
          using rs(2) by (auto simp: split_pieces_def)
        have "range_bytes r \<le> range_bytes (last rs)" using sorted_le_last [OF sw(1) that] .
        moreover have "0 < range_bytes (last rs)" using rs(2) range_ok_bytes sw(2) by (auto simp: split_pieces_def)
        ultimately show ?thesis using rs(2) hv(7) by (auto simp: split_pieces_def)
      qed
      then show ?thesis
        using rs(2) hv hs
        by (auto simp: split_pieces_def tiles_append sorted_wrt_append n_def)
    qed
    moreover have "h\<lparr>rg_pages := ucast reqd\<rparr> = old\<lparr>rg_pages := ucast reqd\<rparr>" by (simp add: h_def)
    ultimately show ?thesis
      using unf True rs al held by (intro exI [of _ "rs @ [n]"] exI [of _ s']) (auto simp: same_ranges_def)
  qed
qed simp

text \<open>Freeing the first piece again merges all the pieces back into the range that was split.\<close>

lemma split_restore:
  "range_ok old \<Longrightarrow> \<not> rg_allocated old \<Longrightarrow> unat (rg_pages old) = 2 ^ k \<Longrightarrow>
   unat (rg_start old) + range_bytes old \<le> 2 ^ 64 \<Longrightarrow> unat reqd = 2 ^ j \<Longrightarrow> j < k \<Longrightarrow> vs_initialized s \<Longrightarrow>
   mem_vmm_split_range c old reqd s = Some (new, s') \<Longrightarrow>
   mem_vmm_resolve_merges (length xs) (xs @ new @ ys) t =
     mem_vmm_resolve_merges (length xs) (xs @ old # ys) (fold free_items (tl new) t)"
proof (induction k arbitrary: old s new s' ys t)
  case (Suc k)
  obtain ip dp s1 s2 where al: "mem_vmm_allocate_list_item c s = Some (ip, s1)"
    "mem_vmm_allocate_range_item c s1 = Some (dp, s2)" "same_ranges s s2" "vs_initialized s2"
    using allocate_items_ok [OF Suc.prems(7)] by metis
  define h where "h = old\<lparr>rg_pages := rg_pages old div 2\<rparr>"
  define n where "n = \<lparr>rg_start = rg_start old + (rg_pages old div 2) * MEM_PAGE_SIZE, rg_pages = rg_pages old div 2,
      rg_allocated = False, rg_item_prealloc = ip, rg_data_prealloc = dp\<rparr>"
  note hv = halves [OF Suc.prems(1,3,4) h_def n_def]
  have cond: "rg_pages n > ucast reqd \<longleftrightarrow> j < k"
    using hv(1,2) Suc.prems(5) by (simp add: word_less_nat_alt)
  have step: "mem_vmm_resolve_merges (length xs) (xs @ h # n # ys) t =
      mem_vmm_resolve_merges (length xs) (xs @ old # ys) (free_items n t)" for ys t
  proof -
    have "2 * range_bytes h dvd unat (rg_start h)"
      using Suc.prems(1) hv(3) by (simp add: range_ok_def h_def)
    then have fh: "first_half_of_pair h" using first_half_iff [OF hv(4)] by simp
    have cm: "can_merge h n" using hv(2) by (simp add: can_merge_def n_def)
    have "unat (rg_pages h * 2) = unat (rg_pages old)"
      using range_ok_bytes [OF hv(4)] hv(1) Suc.prems(3)
      by (subst unat_mult_exact) (simp_all add: range_bytes_def)
    then have "h\<lparr>rg_pages := rg_pages h * 2\<rparr> = old" by (simp add: word_unat_eq_iff h_def)
    then show ?thesis using fh cm Suc.prems(2) by (subst resolve_first) (simp_all add: h_def)
  qed
  show ?case
  proof (cases "j < k")
    case False
    then have "new = [h, n]" using Suc.prems(8) al(1,2) cond
      by (subst (asm) mem_vmm_split_range.simps) (simp add: h_def n_def)
    then show ?thesis using step by simp
  next
    case True
    then obtain nh sh where nh: "mem_vmm_split_range c h reqd s2 = Some (nh, sh)" "new = nh @ [n]"
      using Suc.prems(8) al(1,2) cond
      by (subst (asm) mem_vmm_split_range.simps) (auto simp: h_def n_def)
    have b: "unat (rg_start h) + range_bytes h \<le> 2 ^ 64" using Suc.prems(4) hv(3) by (simp add: h_def)
    have f: "\<not> rg_allocated h" using Suc.prems(2) by (simp add: h_def)
    have ne: "nh \<noteq> []" using split_spec [OF hv(4,1) b Suc.prems(5) True al(4), of c] nh(1) by auto
    show ?thesis
      using Suc.IH [OF hv(4) f hv(1) b Suc.prems(5) True al(4) nh(1), of "n # ys" t] nh(2) ne step
      by (cases nh) simp_all
  qed
qed simp


text \<open>A list without a free pair of buddies is left alone.\<close>

lemma resolve_unmerged:
  assumes "vmm_ok a (xs @ r # ys) e" "\<not> rg_allocated r"
  shows "mem_vmm_resolve_merges (length xs) (xs @ r # ys) s = Some (xs @ r # ys, s)"
proof -
  have ok: "range_ok r" "unmerged (xs @ r # ys)" and t: "tiles a (xs @ r # ys) e"
    using assms(1) by (auto simp: vmm_ok_def)
  show ?thesis
  proof (cases "first_half_of_pair r")
    case True
    have "\<not> can_merge r (hd ys)" if "ys \<noteq> []"
      using ok True that assms(2) first_half_iff [OF ok(1)]
      by (cases ys) (auto simp: successively_append_iff mergeable_def can_merge_def range_bytes_def)
    then show ?thesis using True assms(2) by (cases ys) (simp_all add: resolve_first)
  next
    case False
    show ?thesis
    proof (cases xs rule: rev_cases)
      case Nil
      then show ?thesis using False assms(2) by (simp add: resolve_second_Nil)
    next
      case (snoc xs' q)
      have okq: "range_ok q" using assms(1) snoc by (simp add: vmm_ok_def)
      have nm: "\<not> mergeable q r" using ok(2) snoc by (simp add: successively_append_iff)
      have "\<not> can_merge r q"
      proof
        assume c: "can_merge r q"
        then have b: "range_bytes q = range_bytes r" by (simp add: can_merge_def range_bytes_def)
        have "unat (rg_start r) = unat (rg_start q) + range_bytes q"
          using tiles_neighbours [of a xs' q r ys e] t snoc by simp
        then have "2 * range_bytes q dvd unat (rg_start q)"
          using dvd_shift [of "range_bytes q" "unat (rg_start q)"] okq range_ok_bytes [OF okq] False
            first_half_iff [OF ok(1)] b by (auto simp: range_ok_def)
        then show False using nm c assms(2) by (simp add: mergeable_def can_merge_def)
      qed
      then show ?thesis using False assms(2) snoc by (simp add: resolve_second_snoc)
    qed
  qed
qed

subsection \<open>The suitable range\<close>

text \<open>
  The loop keeps the first of the smallest free ranges that are large enough among those seen.
\<close>

definition suits :: "u64 \<Rightarrow> vmm_range_data \<Rightarrow> bool" where
  "suits n r \<longleftrightarrow> \<not> rg_allocated r \<and> rg_pages r \<ge> n"

definition best_so_far :: "u64 \<Rightarrow> vmm_range_data list \<Rightarrow> (nat \<times> u64) option \<Rightarrow> bool" where
  "best_so_far n rs sel \<longleftrightarrow>
     (case sel of
        None \<Rightarrow> \<forall>r \<in> set rs. \<not> suits n r
      | Some (i, m) \<Rightarrow> i < length rs \<and> suits n (rs ! i) \<and> rg_pages (rs ! i) = m \<and>
          (\<forall>r \<in> set rs. suits n r \<longrightarrow> m \<le> rg_pages r))"

lemma suitable_loop_best:
  "best_so_far n seen sel \<Longrightarrow> best_so_far n (seen @ rs) (suitable_loop n (length seen) sel rs)"
proof (induction rs arbitrary: seen sel)
  case (Cons r rs)
  let ?sel = "if \<not> rg_allocated r \<and> rg_pages r \<ge> n \<and> (case sel of None \<Rightarrow> True | Some (j, m) \<Rightarrow> m > rg_pages r)
      then Some (length seen, rg_pages r) else sel"
  have "best_so_far n (seen @ [r]) ?sel"
    using Cons.prems
    by (auto simp: best_so_far_def suits_def nth_append not_less split: option.splits prod.splits if_splits)
  from Cons.IH [OF this] show ?case by simp
qed simp

lemma suitable_range_best:
  assumes "rs \<noteq> []" "n \<noteq> 0" "vs_initialized s"
  shows "case mem_vmm_get_suitable_range n rs s of
      None \<Rightarrow> \<forall>r \<in> set rs. \<not> suits (ucast n) r
    | Some i \<Rightarrow> i < length rs \<and> suits (ucast n) (rs ! i) \<and>
        (\<forall>r \<in> set rs. suits (ucast n) r \<longrightarrow> rg_pages (rs ! i) \<le> rg_pages r)"
proof -
  have "best_so_far (ucast n) [] None" by (simp add: best_so_far_def)
  from suitable_loop_best [OF this, of rs] show ?thesis
    using assms
    by (auto simp: mem_vmm_get_suitable_range_def assert_simps best_so_far_def split: option.splits)
qed

subsection \<open>Rounding of page numbers\<close>

definition rounded_pages :: "u32 \<Rightarrow> u32" where
  "rounded_pages num_pages = ucast (round_to_power_two (ucast num_pages))"

lemma unat_ucast_down: "unat (w :: u64) < 2 ^ 32 \<Longrightarrow> unat (ucast w :: u32) = unat w"
  by (simp add: unsigned_ucast_eq take_bit_nat_eq_self)

lemma rounded_pages_power:
  assumes "num_pages \<noteq> 0" "unat num_pages \<le> 2 ^ 31"
  obtains j where "unat (rounded_pages num_pages) = 2 ^ j" "j \<le> 31" "unat num_pages \<le> 2 ^ j" "2 ^ j < 2 * unat num_pages"
proof -
  let ?n = "ucast num_pages :: u64"
  have n: "unat ?n = unat num_pages" by simp
  have nz: "?n \<noteq> 0" using assms(1) n by (metis unat_eq_zero)
  have b: "\<not> bit ?n 60" using bit_top_iff [of ?n 60] assms(2) n by simp
  have "unat ?n \<le> 2 ^ 63" using assms(2) n by simp
  then obtain j where j: "unat (round_to_power_two ?n) = 2 ^ j" "unat ?n \<le> 2 ^ j" "2 ^ j < 2 * unat ?n"
    using round_to_power_two_least [OF nz b] by blast
  have "(2 :: nat) ^ j < 2 ^ 32" using j(3) n assms(2) by simp
  then have "j \<le> 31" using power_less_imp_less_exp [of "2 :: nat" j 32] by simp
  moreover have "unat (rounded_pages num_pages) = 2 ^ j"
    using j(1) \<open>(2 :: nat) ^ j < 2 ^ 32\<close> by (simp add: rounded_pages_def unat_ucast_down)
  ultimately show thesis using that j n by simp
qed

subsection \<open>Carving an allocation out of a free range\<close>

lemma replace_at_append: "replace_at (length xs) new (xs @ r # ys) = xs @ new @ ys"
  by (simp add: replace_at_def)

lemma tiles_bounds: "tiles a (xs @ r # ys) e \<Longrightarrow> unat (rg_start r) + range_bytes r \<le> e"
  using tiles_le by (fastforce simp: tiles_append)

lemma tiles_last: "tiles a rs e \<Longrightarrow> rs \<noteq> [] \<Longrightarrow> unat (rg_start (last rs)) + range_bytes (last rs) = e"
  by (induction rs arbitrary: a) auto

lemma unmerged_growing:
  "sorted_wrt (\<lambda>r q. range_bytes r < range_bytes q) rs \<Longrightarrow> unmerged rs"
proof (induction rs)
  case (Cons r rs)
  then show ?case
    by (cases rs) (auto simp: mergeable_def range_bytes_def)
qed simp

lemma carve_ok:
  assumes ok: "vmm_ok a (xs @ r # ys) e" and "\<not> rg_allocated r" and p: "unat (rg_pages r) = 2 ^ k"
    and q: "unat reqd = 2 ^ j" and jk: "j \<le> k" and ini: "vs_initialized s"
  obtains new s' where
    "(if rg_pages r \<noteq> ucast reqd then mem_vmm_split_range c r reqd s else Some ([r], s)) =
       Some (r\<lparr>rg_pages := ucast reqd\<rparr> # new, s')"
    "vmm_ok a (xs @ r\<lparr>rg_pages := ucast reqd, rg_allocated := True\<rparr> # new @ ys) e"
    "\<forall>x \<in> set new. \<not> rg_allocated x" "same_ranges s s'"
    "vs_kmalloced s' = vs_kmalloced s + sum_list (map held_items new)"
    "\<And>t. mem_vmm_resolve_merges (length xs) (xs @ r\<lparr>rg_pages := ucast reqd\<rparr> # new @ ys) t =
       Some (xs @ r # ys, fold free_items new t)"
proof -
  let ?f = "r\<lparr>rg_pages := ucast reqd\<rparr>" and ?fa = "r\<lparr>rg_pages := ucast reqd, rg_allocated := True\<rparr>"
  have t: "tiles a (xs @ r # ys) e" and okr: "range_ok r" and um: "unmerged (xs @ r # ys)" and e: "e \<le> 2 ^ 64"
    using ok by (auto simp: vmm_ok_def)
  have bnd: "unat (rg_start r) + range_bytes r \<le> 2 ^ 64" using tiles_bounds [OF t] e by simp
  have fb: "range_bytes ?fa = 2 ^ j * 2 ^ 21" using q by (simp add: range_bytes_def)
  have k40: "k \<le> 40" using okr p by (auto simp: range_ok_def)
  have rb: "range_bytes r = 2 ^ k * 2 ^ 21" using p by (simp add: range_bytes_def)
  have "2 ^ j * 2 ^ 21 dvd (2 :: nat) ^ k * 2 ^ 21" using jk by (simp add: le_imp_power_dvd)
  then have "range_bytes ?fa dvd unat (rg_start r)" using okr fb rb by (auto simp: range_ok_def intro: dvd_trans)
  then have okf: "range_ok ?fa" using q jk k40 by (auto simp: range_ok_def intro: exI [of _ j])
  have left: "xs \<noteq> [] \<Longrightarrow> \<not> mergeable (last xs) ?fa" by (simp add: mergeable_def)
  show thesis
  proof (cases "j = k")
    case True
    then have eq: "rg_pages r = ucast reqd" using p q by (simp add: word_unat_eq_iff)
    then have f: "?f = r" by simp
    have "unmerged (xs @ ?fa # ys)"
      using um left by (intro unmerged_around) (auto simp: successively_append_iff successively_Cons mergeable_def)
    moreover have "tiles a (xs @ ?fa # ys) e" using t eq by (auto simp: tiles_append range_bytes_def)
    ultimately have "vmm_ok a (xs @ ?fa # ys) e" using ok okf by (auto simp: vmm_ok_def)
    then show thesis using that [of "[]" s] eq f resolve_unmerged [OF ok assms(2)] by (simp add: same_ranges_def)
  next
    case False
    then have jk': "j < k" using jk by simp
    then have ne: "rg_pages r \<noteq> ucast reqd" using p q by (auto simp: word_unat_eq_iff)
    obtain new s' where sp: "mem_vmm_split_range c r reqd s = Some (?f # new, s')" "split_pieces r j new"
      "same_ranges s s'" "vs_kmalloced s' = vs_kmalloced s + sum_list (map held_items new)"
      using split_spec [OF okr p bnd q jk' ini] by blast
    have pieces: "new \<noteq> []" "tiles (unat (rg_start r) + 2 ^ j * 2 ^ 21) new (unat (rg_start r) + range_bytes r)"
      "\<forall>x \<in> set new. range_ok x \<and> \<not> rg_allocated x" "unmerged new" "2 * range_bytes (last new) = range_bytes r"
      using sp(2) unmerged_growing by (auto simp: split_pieces_def)
    have tl: "tiles a (xs @ ?fa # new @ ys) e"
      using t pieces(2) fb by (auto simp: tiles_append)
    have lastst: "unat (rg_start (last new)) + range_bytes (last new) = unat (rg_start r) + range_bytes r"
      using tiles_last [OF pieces(2,1)] .
    have "\<not> mergeable (last new) y" for y
    proof -
      let ?b = "range_bytes (last new)"
      have okl: "range_ok (last new)" using pieces(1,3) by simp
      have "unat (rg_start (last new)) + ?b = unat (rg_start r) + 2 * ?b" using lastst pieces(5) by simp
      moreover have "2 * ?b dvd unat (rg_start r) + 2 * ?b"
        using okr pieces(5) by (simp add: range_ok_def)
      ultimately show ?thesis
        using dvd_shift [of ?b "unat (rg_start (last new))"] okl range_ok_bytes [OF okl]
        by (auto simp: range_ok_def mergeable_def)
    qed
    then have "unmerged (new @ ys)"
      using pieces(4) um by (auto simp: successively_append_iff successively_Cons)
    then have "unmerged (xs @ ?fa # new @ ys)"
      using um left by (intro unmerged_around) (auto simp: successively_append_iff mergeable_def)
    then have v: "vmm_ok a (xs @ ?fa # new @ ys) e" using ok okf tl pieces(3) by (auto simp: vmm_ok_def)
    have "mem_vmm_resolve_merges (length xs) (xs @ ?f # new @ ys) u = Some (xs @ r # ys, fold free_items new u)" for u
      using split_restore [OF okr assms(2) p bnd q jk' ini sp(1), of xs ys u] resolve_unmerged [OF ok assms(2)]
      by simp
    then show thesis using that [of new s'] ne sp v pieces(3) by auto
  qed
qed

subsection \<open>Clients\<close>

definition client_ranges :: "vmm_client \<Rightarrow> vmm_state \<Rightarrow> vmm_range_data list" where
  "client_ranges c s = (case vmm_data c s of Some d \<Rightarrow> vp_ranges d | None \<Rightarrow> [])"

text \<open>The address and size in bytes of the regions a client has allocated.\<close>

definition regions :: "vmm_range_data list \<Rightarrow> (nat \<times> nat) set" where
  "regions rs = (\<lambda>r. (unat (rg_start r), range_bytes r)) ` set (filter rg_allocated rs)"

text \<open>The manager is initialised, the client's ranges satisfy the invariant, and no thread is inside.\<close>

definition client_ok :: "vmm_client \<Rightarrow> nat \<Rightarrow> nat \<Rightarrow> vmm_state \<Rightarrow> bool" where
  "client_ok c a e s \<longleftrightarrow> vs_initialized s \<and>
     (case vmm_data c s of
        None \<Rightarrow> False
      | Some d \<Rightarrow> vmm_ok a (vp_ranges d) e \<and> vp_ranges d \<noteq> [] \<and> \<not> vp_lock d \<and> vp_user_thread d = None)"

lemma client_ok_data:
  assumes "client_ok c a e s"
  obtains d where "vmm_data c s = Some d" "vmm_ok a (vp_ranges d) e" "vp_ranges d \<noteq> []" "\<not> vp_lock d"
    "vp_user_thread d = None" "vs_initialized s" "client_ranges c s = vp_ranges d"
  using assms by (auto simp: client_ok_def client_ranges_def split: option.splits)

lemma vmm_data_same: "same_ranges s s' \<Longrightarrow> vmm_data c s' = vmm_data c s"
  by (auto simp: same_ranges_def vmm_data_def split: vmm_client.splits)

lemma vmm_data_set [simp]:
  "vmm_data c (set_vmm_data c d s) = Some d" "c' \<noteq> c \<Longrightarrow> vmm_data c' (set_vmm_data c d s) = vmm_data c' s"
  "vs_initialized (set_vmm_data c d s) = vs_initialized s" "vs_kmalloced (set_vmm_data c d s) = vs_kmalloced s"
  by (auto simp: vmm_data_def set_vmm_data_def split: vmm_client.splits)

lemma lock_release:
  assumes "\<not> vp_lock d" "vp_user_thread d = None"
  obtains b d' where "mem_vmm_lock t d = Some (b, d')" "vp_ranges d' = vp_ranges d"
    "\<And>rs. vmm_release b (d'\<lparr>vp_ranges := rs\<rparr>) = d\<lparr>vp_ranges := rs\<rparr>"
proof (cases "t = None")
  case True
  then show thesis using that [of False d] assms by (simp add: mem_vmm_lock_def vmm_release_def)
next
  case False
  then show thesis
    using that [of True "d\<lparr>vp_lock := True, vp_user_thread := t\<rparr>"] assms
    by (cases d) (auto simp: mem_vmm_lock_def vmm_release_def mem_vmm_unlock_def)
qed

lemma tiles_disjoint:
  assumes "tiles a rs e" "r \<in> set rs"
  shows "a \<le> unat (rg_start r) \<and> unat (rg_start r) + range_bytes r \<le> e"
proof -
  obtain xs ys where x: "rs = xs @ r # ys" using assms(2) by (meson split_list)
  then obtain m where "tiles a xs m" "unat (rg_start r) = m" using assms(1) by (auto simp: tiles_append)
  then show ?thesis using tiles_le tiles_bounds assms(1) x by blast
qed

lemma tiles_around:
  assumes "tiles a (xs @ r # ys) e" "q \<in> set xs \<union> set ys"
  shows "unat (rg_start r) + range_bytes r \<le> unat (rg_start q) \<or> unat (rg_start q) + range_bytes q \<le> unat (rg_start r)"
proof -
  have t: "tiles a xs (unat (rg_start r))" "tiles (unat (rg_start r) + range_bytes r) ys e"
    using assms(1) by (auto simp: tiles_append)
  show ?thesis using assms(2) tiles_disjoint [OF t(1)] tiles_disjoint [OF t(2)] by blast
qed

lemma allocate_steps:
  assumes ok: "client_ok c a e s" and n: "num_pages \<noteq> 0" "unat num_pages \<le> 2 ^ 31"
    and ex: "\<exists>r \<in> set (client_ranges c s). suits (ucast (rounded_pages num_pages)) r"
  obtains d xs r ys new s1 where
    "vmm_data c s = Some d" "vp_ranges d = xs @ r # ys" "\<not> rg_allocated r"
    "\<forall>x \<in> set new. \<not> rg_allocated x"
    "mem_allocate_virtual_range t num_pages c s = Some (rg_start r, set_vmm_data c
        (d\<lparr>vp_ranges := xs @ r\<lparr>rg_pages := ucast (rounded_pages num_pages), rg_allocated := True\<rparr> # new @ ys\<rparr>) s1)"
    "vmm_ok a (xs @ r\<lparr>rg_pages := ucast (rounded_pages num_pages), rg_allocated := True\<rparr> # new @ ys) e"
    "same_ranges s s1" "vs_kmalloced s1 = vs_kmalloced s + sum_list (map held_items new)"
    "\<And>u. mem_vmm_resolve_merges (length xs) (xs @ r\<lparr>rg_pages := ucast (rounded_pages num_pages)\<rparr> # new @ ys) u =
       Some (xs @ r # ys, fold free_items new u)"
    "unat (rounded_pages num_pages) * 2 ^ 21 \<le> range_bytes r"
proof -
  obtain d where d: "vmm_data c s = Some d" "vmm_ok a (vp_ranges d) e" "vp_ranges d \<noteq> []" "\<not> vp_lock d"
    "vp_user_thread d = None" "vs_initialized s" "client_ranges c s = vp_ranges d"
    using client_ok_data [OF ok] .
  obtain b d' where l: "mem_vmm_lock t d = Some (b, d')" "vp_ranges d' = vp_ranges d"
    "\<And>rs. vmm_release b (d'\<lparr>vp_ranges := rs\<rparr>) = d\<lparr>vp_ranges := rs\<rparr>"
    using lock_release [OF d(4,5)] by metis
  obtain j where j: "unat (rounded_pages num_pages) = 2 ^ j" using rounded_pages_power [OF n] by metis
  then have nz: "rounded_pages num_pages \<noteq> 0" by auto
  obtain i where i: "mem_vmm_get_suitable_range (rounded_pages num_pages) (vp_ranges d) s = Some i"
    "i < length (vp_ranges d)" "suits (ucast (rounded_pages num_pages)) (vp_ranges d ! i)"
    using suitable_range_best [OF d(3) nz d(6)] ex d(7) by (auto split: option.splits)
  let ?r = "vp_ranges d ! i" and ?xs = "take i (vp_ranges d)" and ?ys = "drop (Suc i) (vp_ranges d)"
  have x: "vp_ranges d = ?xs @ ?r # ?ys" "length ?xs = i" using i(2) by (simp_all add: id_take_nth_drop)
  have okl: "vmm_ok a (?xs @ ?r # ?ys) e" using d(2) x(1) by simp
  have free: "\<not> rg_allocated ?r" "unat (rounded_pages num_pages) \<le> unat (rg_pages ?r)"
    using i(3) by (auto simp: suits_def word_le_nat_alt)
  have "range_ok ?r" using d(2) i(2) by (auto simp: vmm_ok_def)
  then obtain k where k: "unat (rg_pages ?r) = 2 ^ k" by (auto simp: range_ok_def)
  then have jk: "j \<le> k" using free(2) j by simp
  from carve_ok [OF okl free(1) k j jk d(6)] obtain new s1 where cv:
    "(if rg_pages ?r \<noteq> ucast (rounded_pages num_pages) then mem_vmm_split_range c ?r (rounded_pages num_pages) s
      else Some ([?r], s)) = Some (?r\<lparr>rg_pages := ucast (rounded_pages num_pages)\<rparr> # new, s1)"
    "vmm_ok a (?xs @ ?r\<lparr>rg_pages := ucast (rounded_pages num_pages), rg_allocated := True\<rparr> # new @ ?ys) e"
    "\<forall>x \<in> set new. \<not> rg_allocated x" "same_ranges s s1"
    "vs_kmalloced s1 = vs_kmalloced s + sum_list (map held_items new)"
    "\<And>t. mem_vmm_resolve_merges (length ?xs) (?xs @ ?r\<lparr>rg_pages := ucast (rounded_pages num_pages)\<rparr> # new @ ?ys) t =
       Some (?xs @ ?r # ?ys, fold free_items new t)"
    by metis
  have "mem_allocate_virtual_range t num_pages c s = Some (rg_start ?r, set_vmm_data c
      (d\<lparr>vp_ranges := ?xs @ ?r\<lparr>rg_pages := ucast (rounded_pages num_pages), rg_allocated := True\<rparr> # new @ ?ys\<rparr>) s1)"
    using d(1,6) l i(1) free
    by (simp add: mem_allocate_virtual_range_def rounded_pages_def [symmetric] replace_at_def word_le_nat_alt Let_def
        cv(1) cong: if_cong split del: if_split)
  moreover have "unat (rounded_pages num_pages) * 2 ^ 21 \<le> range_bytes ?r" using free(2) by (simp add: range_bytes_def)
  ultimately show thesis using that [OF d(1) x(1) free(1) cv(3) _ cv(2,4,5,6)] by blast
qed

lemma allocate_none:
  assumes ok: "client_ok c a e s" and n: "num_pages \<noteq> 0" "unat num_pages \<le> 2 ^ 31"
    and none: "\<not> (\<exists>r \<in> set (client_ranges c s). suits (ucast (rounded_pages num_pages)) r)"
  shows "mem_allocate_virtual_range t num_pages c s = None"
proof -
  obtain d where d: "vmm_data c s = Some d" "vp_ranges d \<noteq> []" "\<not> vp_lock d" "vp_user_thread d = None"
    "vs_initialized s" "client_ranges c s = vp_ranges d"
    using client_ok_data [OF ok] by metis
  obtain b d' where l: "mem_vmm_lock t d = Some (b, d')" "vp_ranges d' = vp_ranges d"
    using lock_release [OF d(3,4)] by metis
  have nz: "rounded_pages num_pages \<noteq> 0"
    using rounded_pages_power [OF n] by (metis power_not_zero unat_0 zero_neq_numeral)
  have "mem_vmm_get_suitable_range (rounded_pages num_pages) (vp_ranges d) s = None"
    using suitable_range_best [OF d(2) nz d(5)] none d(6) by (auto split: option.splits)
  then show ?thesis
    using d l by (simp add: mem_allocate_virtual_range_def rounded_pages_def [symmetric] Let_def)
qed

subsection \<open>Properties\<close>

lemma regions_carve:
  "\<not> rg_allocated r \<Longrightarrow> \<forall>x \<in> set new. \<not> rg_allocated x \<Longrightarrow>
   regions (xs @ r\<lparr>rg_pages := m, rg_allocated := True\<rparr> # new @ ys) =
     insert (unat (rg_start r), unat m * 2 ^ 21) (regions (xs @ r # ys))"
  by (auto simp: regions_def range_bytes_def filter_empty_conv image_iff)

lemma vmm_allocate_spec:
  assumes "client_ok c a e s" and "num_pages \<noteq> 0" and "unat num_pages \<le> 2 ^ 31"
    and "bytes = unat (rounded_pages num_pages) * 2 ^ 21"
  shows "if \<exists>r \<in> set (client_ranges c s). \<not> rg_allocated r \<and> bytes \<le> range_bytes r
    then (\<exists>addr s'. mem_allocate_virtual_range t num_pages c s = Some (addr, s') \<and> client_ok c a e s' \<and>
      unat num_pages * 2 ^ 21 \<le> bytes \<and> a \<le> unat addr \<and> unat addr + bytes \<le> e \<and>
      (\<forall>(b, m) \<in> regions (client_ranges c s). unat addr + bytes \<le> b \<or> b + m \<le> unat addr) \<and>
      regions (client_ranges c s') = insert (unat addr, bytes) (regions (client_ranges c s)))
    else mem_allocate_virtual_range t num_pages c s = None"
proof -
  have su: "suits (ucast (rounded_pages num_pages)) r \<longleftrightarrow> \<not> rg_allocated r \<and> bytes \<le> range_bytes r" for r
    by (simp add: suits_def assms(4) range_bytes_def word_le_nat_alt)
  have sz: "unat num_pages * 2 ^ 21 \<le> bytes"
    using rounded_pages_power [OF assms(2,3)] assms(4) by (metis mult_le_mono1)
  show ?thesis
  proof (cases "\<exists>r \<in> set (client_ranges c s). \<not> rg_allocated r \<and> bytes \<le> range_bytes r")
    case True
    then have ex: "\<exists>r \<in> set (client_ranges c s). suits (ucast (rounded_pages num_pages)) r" using su by simp
    let ?al = "\<lambda>r. r\<lparr>rg_pages := ucast (rounded_pages num_pages), rg_allocated := True\<rparr>"
    obtain d xs r ys new s1 where st: "vmm_data c s = Some d" "vp_ranges d = xs @ r # ys" "\<not> rg_allocated r"
      "\<forall>x \<in> set new. \<not> rg_allocated x"
      "mem_allocate_virtual_range t num_pages c s =
         Some (rg_start r, set_vmm_data c (d\<lparr>vp_ranges := xs @ ?al r # new @ ys\<rparr>) s1)"
      "vmm_ok a (xs @ ?al r # new @ ys) e" "same_ranges s s1" "bytes \<le> range_bytes r"
      using allocate_steps [OF assms(1-3) ex] assms(4) by metis
    let ?s' = "set_vmm_data c (d\<lparr>vp_ranges := xs @ ?al r # new @ ys\<rparr>) s1"
    have okd: "vmm_ok a (xs @ r # ys) e" and cr: "client_ranges c s = xs @ r # ys"
      using assms(1) st(1,2) by (auto simp: client_ok_def client_ranges_def)
    have t: "tiles a (xs @ r # ys) e" using okd by (simp add: vmm_ok_def)
    have "client_ok c a e ?s'"
      using assms(1) st by (auto simp: client_ok_def same_ranges_def)
    moreover have "a \<le> unat (rg_start r) \<and> unat (rg_start r) + bytes \<le> e"
      using tiles_disjoint [OF t, of r] st(8) by auto
    moreover have "\<forall>(b, m) \<in> regions (client_ranges c s). unat (rg_start r) + bytes \<le> b \<or> b + m \<le> unat (rg_start r)"
      using tiles_around [OF t] st(3,8) cr by (fastforce simp: regions_def)
    moreover have "regions (client_ranges c ?s') = insert (unat (rg_start r), bytes) (regions (client_ranges c s))"
      using regions_carve [OF st(3,4), of xs "ucast (rounded_pages num_pages)" ys] cr assms(4)
      by (simp add: client_ranges_def)
    ultimately show ?thesis using True sz st(5) by auto
  next
    case False
    then have "mem_allocate_virtual_range t num_pages c s = None"
      using allocate_none [OF assms(1-3)] su by simp
    with False show ?thesis by simp
  qed
qed

text \<open>
  C1. Allocation of virtual pages. When some free range is large enough, it succeeds: the region
  returned is the request rounded up to a power of two, lies inside the client's address space and is
  disjoint from every region allocated before, exactly it is added to the allocated regions, and the
  invariant of the buddy system is kept. When no free range is large enough it panics.
\<close>

theorem vmm_allocate_correct:
  assumes "client_ok c a e s" and "num_pages \<noteq> 0" and "unat num_pages \<le> 2 ^ 31"
    and "bytes = unat (rounded_pages num_pages) * 2 ^ 21"
  shows "if \<exists>r \<in> set (client_ranges c s). \<not> rg_allocated r \<and> bytes \<le> range_bytes r
    then (\<exists>addr s'. mem_allocate_virtual_range t num_pages c s = Some (addr, s') \<and> client_ok c a e s' \<and>
      unat num_pages * 2 ^ 21 \<le> bytes \<and> a \<le> unat addr \<and> unat addr + bytes \<le> e \<and>
      (\<forall>(b, m) \<in> regions (client_ranges c s). unat addr + bytes \<le> b \<or> b + m \<le> unat addr) \<and>
      regions (client_ranges c s') = insert (unat addr, bytes) (regions (client_ranges c s)))
    else mem_allocate_virtual_range t num_pages c s = None"
  by (rule vmm_allocate_spec [OF assms])


lemma deallocate_found:
  assumes ok: "client_ok c a e s" and d: "vmm_data c s = Some d" "vp_ranges d = xs @ r # ys"
    and r: "rg_allocated r" "rg_pages r = ucast (rounded_pages num_pages)"
  obtains rs s1 where
    "mem_deallocate_virtual_range t (rg_start r) num_pages c s = Some (set_vmm_data c (d\<lparr>vp_ranges := rs\<rparr>) s1)"
    "vmm_ok a rs e" "filter rg_allocated rs = filter rg_allocated (xs @ ys)" "vs_initialized s1"
proof -
  have ul: "\<not> vp_lock d" "vp_user_thread d = None" "vs_initialized s" "vmm_ok a (xs @ r # ys) e"
    using ok d by (auto simp: client_ok_def)
  let ?r = "r\<lparr>rg_allocated := False\<rparr>"
  have t: "tiles a (xs @ r # ys) e" "\<forall>q \<in> set (xs @ r # ys). range_ok q" "unmerged (xs @ r # ys)"
    "e \<le> 2 ^ 64" "e - a \<le> 2 ^ 61"
    using ul(4) by (auto simp: vmm_ok_def)
  have "\<forall>q \<in> set xs. rg_start q \<noteq> rg_start r"
    using t(1,2) tiles_disjoint [of a xs "unat (rg_start r)"] range_ok_bytes by (fastforce simp: tiles_append)
  then have find: "find_index (\<lambda>q. rg_start q = rg_start r) (xs @ r # ys) = Some (length xs)"
    by (simp add: find_index_skip)
  have "tiles a (xs @ ?r # ys) e" "\<forall>q \<in> set (xs @ ?r # ys). range_ok q"
    using t(1,2) by (auto simp: tiles_append range_ok_def range_bytes_def)
  moreover have "unmerged xs" "unmerged ys" using t(3) by (auto simp: successively_append_iff successively_Cons)
  ultimately obtain rs s1 where m: "mem_vmm_resolve_merges (length xs) (xs @ ?r # ys) s = Some (rs, s1)"
    "vmm_ok a rs e" "filter rg_allocated rs = filter rg_allocated (xs @ ?r # ys)" "same_ranges s s1"
    using resolve_merges_ok [of a xs ?r ys e s] t(4,5) by auto
  obtain b d' where l: "mem_vmm_lock t d = Some (b, d')" "vp_ranges d' = vp_ranges d"
    "\<And>rs. vmm_release b (d'\<lparr>vp_ranges := rs\<rparr>) = d\<lparr>vp_ranges := rs\<rparr>"
    using lock_release [OF ul(1,2)] by metis
  have "mem_deallocate_virtual_range t (rg_start r) num_pages c s = Some (set_vmm_data c (d\<lparr>vp_ranges := rs\<rparr>) s1)"
    using d ul(3) l find r m(1)
    by (simp add: mem_deallocate_virtual_range_def rounded_pages_def [symmetric] Let_def list_update_append)
  moreover have "vs_initialized s1" using m(4) ul(3) by (simp add: same_ranges_def)
  ultimately show thesis using that m by auto
qed

text \<open>
  C2. Deallocation accepts exactly the address of an allocated region together with a page count that
  rounds up to its size: it removes that region and no other from the allocated ones and keeps
  the invariant. Anything else (an address inside a region, a free range, a wrong size) panics.
\<close>

theorem vmm_deallocate_correct:
  assumes "client_ok c a e s" and "bytes = unat (rounded_pages num_pages) * 2 ^ 21"
  shows "if (unat addr, bytes) \<in> regions (client_ranges c s)
    then (\<exists>s'. mem_deallocate_virtual_range t addr num_pages c s = Some s' \<and> client_ok c a e s' \<and>
       regions (client_ranges c s') = regions (client_ranges c s) - {(unat addr, bytes)})
    else mem_deallocate_virtual_range t addr num_pages c s = None"
proof (cases "(unat addr, bytes) \<in> regions (client_ranges c s)")
  case True
  obtain d where d: "vmm_data c s = Some d" "vmm_ok a (vp_ranges d) e" "client_ranges c s = vp_ranges d"
    "vp_ranges d \<noteq> []"
    using client_ok_data [OF assms(1)] by metis
  obtain r where r: "r \<in> set (vp_ranges d)" "rg_allocated r" "unat (rg_start r) = unat addr" "range_bytes r = bytes"
    using True d(3) by (auto simp: regions_def)
  then have pg: "rg_start r = addr" "rg_pages r = ucast (rounded_pages num_pages)"
    using assms(2) by (simp_all add: word_unat_eq_iff range_bytes_def)
  obtain xs ys where x: "vp_ranges d = xs @ r # ys" using r(1) by (meson split_list)
  obtain rs s1 where m: "mem_deallocate_virtual_range t addr num_pages c s = Some (set_vmm_data c (d\<lparr>vp_ranges := rs\<rparr>) s1)"
    "vmm_ok a rs e" "filter rg_allocated rs = filter rg_allocated (xs @ ys)" "vs_initialized s1"
    using deallocate_found [OF assms(1) d(1) x r(2) pg(2)] pg(1) by metis
  have t: "tiles a (xs @ r # ys) e" "\<forall>q \<in> set (xs @ r # ys). range_ok q" using d(2) x by (auto simp: vmm_ok_def)
  have "a < e" using tiles_disjoint [OF t(1), of r] range_ok_bytes [of r] t(2) by fastforce
  then have ne: "rs \<noteq> []" using m(2) by (auto simp: vmm_ok_def)
  have "unat (rg_start q) \<noteq> unat addr" if "q \<in> set xs \<union> set ys" for q
    using tiles_around [OF t(1) that] that t(2) range_ok_bytes [of q] range_ok_bytes [of r] r(3) by auto
  then have "regions rs = regions (vp_ranges d) - {(unat addr, bytes)}"
    using m(3) x r by (auto simp: regions_def)
  then have "regions (client_ranges c (set_vmm_data c (d\<lparr>vp_ranges := rs\<rparr>) s1)) =
      regions (client_ranges c s) - {(unat addr, bytes)}"
    using d(3) by (simp add: client_ranges_def)
  moreover have "client_ok c a e (set_vmm_data c (d\<lparr>vp_ranges := rs\<rparr>) s1)"
    using assms(1) d(1) m ne by (auto simp: client_ok_def)
  ultimately show ?thesis using True m(1) by auto
next
  case False
  obtain d where d: "vmm_data c s = Some d" "client_ranges c s = vp_ranges d" "\<not> vp_lock d" "vp_user_thread d = None"
    using client_ok_data [OF assms(1)] by metis
  obtain b d' where l: "mem_vmm_lock t d = Some (b, d')" "vp_ranges d' = vp_ranges d"
    using lock_release [OF d(3,4)] by metis
  have "\<not> (rg_allocated (vp_ranges d ! i) \<and> rg_pages (vp_ranges d ! i) = ucast (rounded_pages num_pages))"
    if "find_index (\<lambda>q. rg_start q = addr) (vp_ranges d) = Some i" for i
    using False d(2) find_index_Some [OF that] assms(2) by (force simp: regions_def range_bytes_def)
  then have "mem_deallocate_virtual_range t addr num_pages c s = None"
    using d l
    by (cases "find_index (\<lambda>q. rg_start q = addr) (vp_ranges d)")
      (simp_all add: mem_deallocate_virtual_range_def rounded_pages_def [symmetric] Let_def assert_simps)
  with False show ?thesis by simp
qed

subsection \<open>Allocating a given range\<close>

lemma contains_iff:
  assumes "range_ok r" "unat (rg_start r) + range_bytes r \<le> 2 ^ 64" "2 ^ 21 dvd unat addr"
  shows "contains_addr addr r \<longleftrightarrow> unat (rg_start r) \<le> unat addr \<and> unat addr < unat (rg_start r) + range_bytes r"
proof -
  let ?b = "range_bytes r" and ?s = "unat (rg_start r)"
  have b: "0 < ?b" "?b \<le> 2 ^ 61" using range_ok_bytes [OF assms(1)] by auto
  then have m: "unat (rg_pages r * MEM_PAGE_SIZE) = ?b"
    by (subst unat_mult_exact) (simp_all add: range_bytes_def)
  have "unat (rg_start r + rg_pages r * MEM_PAGE_SIZE - 1) = ?s + ?b - 1"
  proof -
    have e: "rg_start r + rg_pages r * MEM_PAGE_SIZE - 1 = rg_start r + (rg_pages r * MEM_PAGE_SIZE - 1)" by simp
    have "unat (rg_pages r * MEM_PAGE_SIZE - 1) = ?b - 1"
      using m b(1) by (subst unat_minus_one) auto
    then show ?thesis using assms(2) b(1) unat_add_no_wrap [of "rg_start r" "rg_pages r * MEM_PAGE_SIZE - 1"]
      unfolding e by simp
  qed
  moreover have "unat addr < ?s + ?b - 1 \<longleftrightarrow> unat addr < ?s + ?b"
  proof
    have pb: "2 ^ 21 dvd ?b" by (simp add: range_bytes_def)
    then have "2 ^ 21 dvd ?s" using assms(1) by (auto simp: range_ok_def intro: dvd_trans)
    then have "2 ^ 21 dvd ?s + ?b - unat addr" using pb assms(3) by (intro dvd_diff_nat dvd_add)
    moreover assume "unat addr < ?s + ?b"
    ultimately have "2 ^ 21 \<le> ?s + ?b - unat addr" by (intro dvd_imp_le) auto
    then show "unat addr < ?s + ?b - 1" by simp
  qed simp
  ultimately show ?thesis by (simp add: contains_addr_def word_le_nat_alt word_less_nat_alt)
qed

lemma find_containing:
  assumes "tiles a (xs @ r # ys) e" "\<forall>q \<in> set (xs @ r # ys). range_ok q" "e \<le> 2 ^ 64" "2 ^ 21 dvd unat addr"
    and "unat (rg_start r) \<le> unat addr" "unat addr < unat (rg_start r) + range_bytes r"
  shows "find_index (contains_addr addr) (xs @ r # ys) = Some (length xs)"
proof (rule find_index_skip)
  have bnd: "unat (rg_start q) + range_bytes q \<le> 2 ^ 64" if "q \<in> set (xs @ r # ys)" for q
    using tiles_disjoint [OF assms(1) that] assms(3) by simp
  show "contains_addr addr r" using contains_iff [of r] bnd assms by simp
  show "\<forall>q \<in> set xs. \<not> contains_addr addr q"
  proof
    fix q assume q: "q \<in> set xs"
    have "tiles a xs (unat (rg_start r))" using assms(1) by (auto simp: tiles_append)
    from tiles_disjoint [OF this q] show "\<not> contains_addr addr q"
      using contains_iff [of q] bnd [of q] q assms by auto
  qed
qed

lemma rounded_pages_exact: "unat num_pages = 2 ^ j \<Longrightarrow> j \<le> 31 \<Longrightarrow> rounded_pages num_pages = num_pages"
proof -
  assume j: "unat num_pages = 2 ^ j" "j \<le> 31"
  then have "num_pages \<noteq> 0" "unat num_pages \<le> 2 ^ 31"
    using power_increasing [of j 31 "2 :: nat"] by auto
  then obtain i where "unat (rounded_pages num_pages) = 2 ^ i" "(2 :: nat) ^ j \<le> 2 ^ i" "(2 :: nat) ^ i < 2 ^ Suc j"
    using rounded_pages_power j(1) by (metis power_Suc)
  then have "i = j" using power_le_imp_le_exp [of "2 :: nat" j i] power_less_imp_less_exp [of "2 :: nat" i "Suc j"] by simp
  then show ?thesis using \<open>unat (rounded_pages num_pages) = 2 ^ i\<close> j(1) by (simp add: word_unat_eq_iff)
qed

lemma split_once:
  assumes "range_ok r" "unat (rg_pages r) = 2 ^ Suc k" "k \<le> 31" "unat (rg_start r) + range_bytes r \<le> 2 ^ 64"
    and "vs_initialized s"
  obtains h n s' where "mem_vmm_split_range c r (ucast (rg_pages r div 2)) s = Some ([h, n], s')"
    "unat (rg_pages h) = 2 ^ k" "unat (rg_pages n) = 2 ^ k" "rg_start h = rg_start r" "2 * range_bytes h = range_bytes r"
    "unat (rg_start n) = unat (rg_start r) + range_bytes h" "range_ok h" "range_ok n" "range_bytes n = range_bytes h"
    "rg_allocated h = rg_allocated r" "\<not> rg_allocated n" "same_ranges s s'"
proof -
  obtain ip dp s1 s2 where al: "mem_vmm_allocate_list_item c s = Some (ip, s1)"
    "mem_vmm_allocate_range_item c s1 = Some (dp, s2)" "same_ranges s s2"
    using allocate_items_ok [OF assms(5)] by metis
  define h where "h = r\<lparr>rg_pages := rg_pages r div 2\<rparr>"
  define n where "n = \<lparr>rg_start = rg_start r + (rg_pages r div 2) * MEM_PAGE_SIZE, rg_pages = rg_pages r div 2,
      rg_allocated = False, rg_item_prealloc = ip, rg_data_prealloc = dp\<rparr>"
  note hv = halves [OF assms(1,2,4) h_def n_def]
  have "(2 :: nat) ^ k \<le> 2 ^ 31" using assms(3) by (rule power_increasing) simp
  then have "unat (rg_pages r div 2) < 2 ^ 32" using hv(1) by (simp add: h_def)
  then have "unat (ucast (ucast (rg_pages r div 2) :: u32) :: u64) = unat (rg_pages r div 2)"
    by (simp add: unat_ucast_down)
  then have "ucast (ucast (rg_pages r div 2) :: u32) = rg_pages r div 2" by (simp only: word_unat_eq_iff)
  then have "mem_vmm_split_range c r (ucast (rg_pages r div 2)) s = Some ([h, n], s2)"
    using al(1,2) by (subst mem_vmm_split_range.simps) (simp add: h_def n_def)
  then show thesis
    using that [of h n s2] hv al(3) by (simp add: h_def n_def)
qed

lemma unmerged_snoc: "unmerged xs \<Longrightarrow> (xs \<noteq> [] \<Longrightarrow> \<not> mergeable (last xs) h) \<Longrightarrow> unmerged (xs @ [h])"
  by (auto simp: successively_append_iff)

lemma unmerged_Cons: "unmerged ys \<Longrightarrow> (ys \<noteq> [] \<Longrightarrow> \<not> mergeable n (hd ys)) \<Longrightarrow> unmerged (n # ys)"
  by (cases ys) auto

lemma tiles_split:
  "tiles a (xs @ r # ys) e \<Longrightarrow> rg_start h = rg_start r \<Longrightarrow> unat (rg_start n) = unat (rg_start r) + range_bytes h \<Longrightarrow>
   range_bytes h + range_bytes n = range_bytes r \<Longrightarrow> tiles a (xs @ h # n # ys) e"
  by (auto simp: tiles_append) (metis add.assoc)

lemma specific_last_step:
  assumes "vmm_data c s = Some d" "vp_ranges d = xs @ r # ys" "\<not> rg_allocated r"
    and "find_index (contains_addr addr) (vp_ranges d) = Some (length xs)" "rg_pages r = ucast num_pages"
    and "rounded_pages num_pages = num_pages" "addr mod (ucast num_pages * MEM_PAGE_SIZE) = 0"
  shows "mem_vmm_allocate_specific_range c addr num_pages s =
    Some (set_vmm_data c (d\<lparr>vp_ranges := xs @ r\<lparr>rg_allocated := True\<rparr> # ys\<rparr>) s)"
  using assms
  by (subst mem_vmm_allocate_specific_range.simps)
    (simp add: rounded_pages_def [symmetric] list_update_append Let_def)

lemma specific_split_step:
  assumes "vmm_data c s = Some d" "vp_ranges d = xs @ r # ys"
    and "find_index (contains_addr addr) (vp_ranges d) = Some (length xs)"
    and "ucast num_pages < rg_pages r" "mem_vmm_split_range c r (ucast (rg_pages r div 2)) s = Some (new, s')"
    and "rounded_pages num_pages = num_pages" "addr mod (ucast num_pages * MEM_PAGE_SIZE) = 0"
  shows "mem_vmm_allocate_specific_range c addr num_pages s =
    mem_vmm_allocate_specific_range c addr num_pages (set_vmm_data c (d\<lparr>vp_ranges := xs @ new @ ys\<rparr>) s')"
  using assms less_imp_le [OF assms(4)] less_imp_neq [OF assms(4)]
  by (subst mem_vmm_allocate_specific_range.simps)
    (simp add: rounded_pages_def [symmetric] replace_at_def Let_def assert_simps)

text \<open>
  The range that contains the address is halved until it has the right size. On the way only the
  pairs that involve it can be mergeable, and at the end it is allocated.
\<close>

lemma specific_alignment:
  fixes num_pages :: u32
  assumes "unat num_pages = 2 ^ j" "j \<le> 31" "2 ^ j * 2 ^ 21 dvd unat addr"
  shows "addr mod (ucast num_pages * MEM_PAGE_SIZE) = 0" "2 ^ 21 dvd unat addr"
proof -
  have "(2 :: nat) ^ j \<le> 2 ^ 31" using assms(2) by (rule power_increasing) simp
  then have "unat (ucast num_pages * MEM_PAGE_SIZE) = 2 ^ j * 2 ^ 21"
    using assms(1) by (subst unat_mult_exact) simp_all
  then show "addr mod (ucast num_pages * MEM_PAGE_SIZE) = 0"
    using assms(3) by (simp add: word_unat_eq_iff unat_mod_distrib dvd_eq_mod_eq_0)
  show "2 ^ 21 dvd unat addr" using assms(3) by (meson dvd_mult_right)
qed

lemma specific_final:
  assumes num: "unat num_pages = 2 ^ j" "j \<le> 31" and al: "2 ^ j * 2 ^ 21 dvd unat addr"
    and bnd: "e \<le> 2 ^ 64" "e - a \<le> 2 ^ 61"
    and t: "tiles a (xs @ r # ys) e" "\<forall>q \<in> set (xs @ r # ys). range_ok q" "unmerged xs" "unmerged ys"
    and r: "\<not> rg_allocated r" "unat (rg_pages r) = 2 ^ j"
    and ad: "unat (rg_start r) \<le> unat addr" "unat addr < unat (rg_start r) + range_bytes r"
    and d: "vmm_data c s = Some d" "vp_ranges d = xs @ r # ys" "vs_initialized s"
  shows "\<exists>s' rs. mem_vmm_allocate_specific_range c addr num_pages s = Some s' \<and> vmm_data c s' = Some (d\<lparr>vp_ranges := rs\<rparr>) \<and>
      vs_initialized s' \<and> vmm_ok a rs e \<and> rs \<noteq> [] \<and>
      regions rs = insert (unat addr, 2 ^ j * 2 ^ 21) (regions (xs @ r # ys))"
proof -
  note sa = specific_alignment [OF num al]
  let ?r = "r\<lparr>rg_allocated := True\<rparr>"
  have find: "find_index (contains_addr addr) (vp_ranges d) = Some (length xs)"
    using find_containing [OF t(1,2) bnd(1) sa(2) ad] d(2) by simp
  have pg: "rg_pages r = ucast num_pages" using r(2) num(1) by (simp add: word_unat_eq_iff)
  have b: "range_bytes r = 2 ^ j * 2 ^ 21" using r(2) by (simp add: range_bytes_def)
  have st: "unat (rg_start r) = unat addr"
  proof -
    have "2 ^ j * 2 ^ 21 dvd unat addr - unat (rg_start r)"
      using al t(2) b by (intro dvd_diff_nat) (auto simp: range_ok_def)
    moreover have "unat addr - unat (rg_start r) < 2 ^ j * 2 ^ 21" using ad b by linarith
    ultimately have "unat addr - unat (rg_start r) = 0" using nat_dvd_not_less by blast
    then show ?thesis using ad(1) by simp
  qed
  have "unmerged (xs @ ?r # ys)" using t(3,4) by (intro unmerged_around) (auto simp: mergeable_def)
  moreover have "tiles a (xs @ ?r # ys) e" "\<forall>q \<in> set (xs @ ?r # ys). range_ok q"
    using t(1,2) by (auto simp: tiles_append range_ok_def range_bytes_def)
  ultimately have "vmm_ok a (xs @ ?r # ys) e" using bnd by (simp add: vmm_ok_def)
  moreover have "regions (xs @ ?r # ys) = insert (unat addr, 2 ^ j * 2 ^ 21) (regions (xs @ r # ys))"
    using r(1) st b by (auto simp: regions_def range_bytes_def)
  ultimately show ?thesis
    using specific_last_step [OF d(1,2) r(1) find pg rounded_pages_exact [OF num] sa(1)] d(3)
    by (intro exI [of _ "set_vmm_data c (d\<lparr>vp_ranges := xs @ ?r # ys\<rparr>) s"] exI [of _ "xs @ ?r # ys"]) simp
qed

lemma specific_ok:
  assumes num: "unat num_pages = 2 ^ j" "j \<le> 31" and al: "2 ^ j * 2 ^ 21 dvd unat addr"
    and bnd: "e \<le> 2 ^ 64" "e - a \<le> 2 ^ 61"
  shows "tiles a (xs @ r # ys) e \<Longrightarrow> \<forall>q \<in> set (xs @ r # ys). range_ok q \<Longrightarrow> unmerged xs \<Longrightarrow> unmerged ys \<Longrightarrow>
    \<not> rg_allocated r \<Longrightarrow> unat (rg_pages r) = 2 ^ (j + m) \<Longrightarrow> j + m \<le> 32 \<Longrightarrow>
    unat (rg_start r) \<le> unat addr \<Longrightarrow> unat addr < unat (rg_start r) + range_bytes r \<Longrightarrow>
    vmm_data c s = Some d \<Longrightarrow> vp_ranges d = xs @ r # ys \<Longrightarrow> vs_initialized s \<Longrightarrow>
    \<exists>s' rs. mem_vmm_allocate_specific_range c addr num_pages s = Some s' \<and> vmm_data c s' = Some (d\<lparr>vp_ranges := rs\<rparr>) \<and>
      vs_initialized s' \<and> vmm_ok a rs e \<and> rs \<noteq> [] \<and>
      regions rs = insert (unat addr, 2 ^ j * 2 ^ 21) (regions (xs @ r # ys))"
proof (induction m arbitrary: xs r ys s d)
  case 0
  then show ?case using specific_final [OF num al bnd 0(1-5) _ 0(8-12)] by simp
next
  case (Suc m)
  note sa = specific_alignment [OF num al]
  have okr: "range_ok r" using Suc.prems(2) by simp
  have rb: "unat (rg_start r) + range_bytes r \<le> 2 ^ 64" using tiles_bounds [OF Suc.prems(1)] bnd by simp
  have pr: "unat (rg_pages r) = 2 ^ Suc (j + m)" and jm: "j + m \<le> 31" using Suc.prems(6,7) by simp_all
  obtain h n s1 where sp: "mem_vmm_split_range c r (ucast (rg_pages r div 2)) s = Some ([h, n], s1)"
    "unat (rg_pages h) = 2 ^ (j + m)" "unat (rg_pages n) = 2 ^ (j + m)" "rg_start h = rg_start r"
    "2 * range_bytes h = range_bytes r" "unat (rg_start n) = unat (rg_start r) + range_bytes h"
    "range_ok h" "range_ok n" "range_bytes n = range_bytes h" "rg_allocated h = rg_allocated r"
    "\<not> rg_allocated n" "same_ranges s s1"
    using split_once [OF okr pr jm rb Suc.prems(12)] .
  let ?d = "d\<lparr>vp_ranges := xs @ h # n # ys\<rparr>" and ?s1 = "set_vmm_data c (d\<lparr>vp_ranges := xs @ h # n # ys\<rparr>) s1"
  have find: "find_index (contains_addr addr) (vp_ranges d) = Some (length xs)"
    using find_containing [OF Suc.prems(1,2) bnd(1) sa(2) Suc.prems(8,9)] Suc.prems(11) by simp
  have "(2 :: nat) ^ j < 2 ^ Suc (j + m)" by (rule power_strict_increasing) simp_all
  then have lt: "ucast num_pages < rg_pages r" using pr num(1) by (simp add: word_less_nat_alt)
  have step: "mem_vmm_allocate_specific_range c addr num_pages s = mem_vmm_allocate_specific_range c addr num_pages ?s1"
    using specific_split_step [OF Suc.prems(10,11) find lt sp(1) rounded_pages_exact [OF num] sa(1)] by simp
  have t: "tiles a (xs @ h # n # ys) e" using tiles_split [OF Suc.prems(1) sp(4,6)] sp(5,9) by simp
  have oks: "\<forall>q \<in> set (xs @ h # n # ys). range_ok q" using Suc.prems(2) sp(7,8) by auto
  have d1: "vmm_data c ?s1 = Some ?d" "vs_initialized ?s1" using sp(12) Suc.prems(12) by (auto simp: same_ranges_def)
  have reg: "regions (xs @ h # n # ys) = regions (xs @ r # ys)"
    using sp(10,11) Suc.prems(5) by (auto simp: regions_def)
  have hdv: "2 * range_bytes h dvd unat (rg_start h)" using okr sp(4,5) by (simp add: range_ok_def)
  then have fh: "first_half_of_pair h" using first_half_iff [OF sp(7)] by simp
  have "range_bytes h dvd unat (rg_start h)" using sp(7) by (simp add: range_ok_def)
  then have "\<not> 2 * range_bytes n dvd unat (rg_start n)"
    using dvd_shift [of "range_bytes h" "unat (rg_start h)"] hdv sp(4,6,9) range_ok_bytes [OF sp(7)] by auto
  then have sh: "\<not> first_half_of_pair n" using first_half_iff [OF sp(8)] by simp
  show ?case
  proof (cases "unat addr < unat (rg_start n)")
    case True
    have "unmerged (n # ys)"
      using Suc.prems(4) not_mergeable_second [OF sh sp(8)] by (intro unmerged_Cons)
    then show ?thesis
      using Suc.IH [OF _ _ Suc.prems(3), of h "n # ys" ?s1 ?d] t oks sp d1 Suc.prems True step reg jm by simp
  next
    case False
    have "\<not> mergeable (last xs) h" if "xs \<noteq> []"
    proof -
      have "tiles a (butlast xs @ last xs # h # n # ys) e"
        using t that by (metis append.assoc append_Cons append_Nil append_butlast_last_id)
      then show ?thesis using not_mergeable_first [OF fh sp(7)] that oks by simp
    qed
    then have "unmerged (xs @ [h])" using Suc.prems(3) by (intro unmerged_snoc)
    then show ?thesis
      using Suc.IH [of "xs @ [h]" n ys ?s1 ?d] t oks sp d1 Suc.prems False step reg jm by simp
  qed
qed

text \<open>
  Allocating a given range, a power of two of pages aligned to its size: when the range of the
  list that contains it is free it succeeds, after as many splits as are needed, adds exactly that
  region to the allocated ones and keeps the invariant.
\<close>

theorem vmm_specific_correct:
  assumes "client_ok c a e s" and "e - a \<le> 2 ^ 53" and "unat num_pages = 2 ^ j" and "j \<le> 31"
    and "2 ^ j * 2 ^ 21 dvd unat addr" and "r \<in> set (client_ranges c s)" and "\<not> rg_allocated r"
    and "unat (rg_start r) \<le> unat addr" and "unat addr + 2 ^ j * 2 ^ 21 \<le> unat (rg_start r) + range_bytes r"
  shows "\<exists>s'. mem_vmm_allocate_specific_range c addr num_pages s = Some s' \<and> client_ok c a e s' \<and>
    regions (client_ranges c s') = insert (unat addr, 2 ^ j * 2 ^ 21) (regions (client_ranges c s))"
proof -
  obtain d where d: "vmm_data c s = Some d" "vmm_ok a (vp_ranges d) e" "\<not> vp_lock d" "vp_user_thread d = None"
    "vs_initialized s" "client_ranges c s = vp_ranges d"
    using client_ok_data [OF assms(1)] by metis
  obtain xs ys where x: "vp_ranges d = xs @ r # ys" using assms(6) d(6) by (metis split_list)
  have t: "tiles a (xs @ r # ys) e" "\<forall>q \<in> set (xs @ r # ys). range_ok q" "unmerged (xs @ r # ys)" "e \<le> 2 ^ 64" "e - a \<le> 2 ^ 61"
    using d(2) x by (auto simp: vmm_ok_def)
  have um: "unmerged xs" "unmerged ys" using t(3) by (auto simp: successively_append_iff successively_Cons)
  obtain k where k: "unat (rg_pages r) = 2 ^ k" using t(2) by (auto simp: range_ok_def)
  have "range_bytes r \<le> 2 ^ 53" using tiles_disjoint [OF t(1), of r] assms(2) by auto
  then have "2 ^ k * 2 ^ 21 \<le> (2 :: nat) ^ 32 * 2 ^ 21" using k by (simp add: range_bytes_def)
  then have k32: "k \<le> 32" using power_le_imp_le_exp [of "2 :: nat" k 32] by simp
  have "2 ^ j * 2 ^ 21 \<le> range_bytes r" using assms(8,9) by linarith
  then have "(2 :: nat) ^ j * 2 ^ 21 \<le> 2 ^ k * 2 ^ 21" unfolding range_bytes_def k .
  then have "(2 :: nat) ^ j \<le> 2 ^ k" by (rule mult_right_le_imp_le) simp
  then have "j \<le> k" by (rule power_le_imp_le_exp [rotated]) simp
  then obtain m where km: "k = j + m" by (auto simp: le_iff_add)
  have "0 < (2 :: nat) ^ j * 2 ^ 21" by simp
  then have "unat addr < unat (rg_start r) + range_bytes r" using assms(9) by linarith
  then obtain s' rs where "mem_vmm_allocate_specific_range c addr num_pages s = Some s'"
    "vmm_data c s' = Some (d\<lparr>vp_ranges := rs\<rparr>)" "vs_initialized s'" "vmm_ok a rs e" "rs \<noteq> []"
    "regions rs = insert (unat addr, 2 ^ j * 2 ^ 21) (regions (xs @ r # ys))"
    using specific_ok [OF assms(3-5) t(4,5,1,2) um assms(7), of m c s d] k km k32 assms(8) d x by blast
  then show ?thesis using d x by (auto simp: client_ok_def client_ranges_def)
qed

text \<open>
  The range that contains the address is split without a check that it is free: a request for
  a range in the second half of a larger region that is allocated succeeds. The region then
  loses its second half to the new allocation.
\<close>

theorem vmm_specific_splits_allocated:
  assumes "client_ok c a e s" and "e - a \<le> 2 ^ 53" and "unat num_pages = 2 ^ j" and "j \<le> 31"
    and "2 ^ j * 2 ^ 21 dvd unat addr" and "r \<in> set (client_ranges c s)" and "rg_allocated r"
    and "unat (rg_pages r) = 2 ^ (j + Suc m)"
    and "unat (rg_start r) + range_bytes r div 2 \<le> unat addr" and "unat addr < unat (rg_start r) + range_bytes r"
  shows "\<exists>s'. mem_vmm_allocate_specific_range c addr num_pages s = Some s' \<and>
    (unat addr, 2 ^ j * 2 ^ 21) \<in> regions (client_ranges c s') \<and>
    (unat (rg_start r), range_bytes r) \<in> regions (client_ranges c s) \<and>
    (unat (rg_start r), range_bytes r div 2) \<in> regions (client_ranges c s')"
proof -
  note sa = specific_alignment [OF assms(3-5)]
  obtain d where d: "vmm_data c s = Some d" "vmm_ok a (vp_ranges d) e" "\<not> vp_lock d" "vp_user_thread d = None"
    "vs_initialized s" "client_ranges c s = vp_ranges d"
    using client_ok_data [OF assms(1)] by metis
  obtain xs ys where x: "vp_ranges d = xs @ r # ys" using assms(6) d(6) by (metis split_list)
  have t: "tiles a (xs @ r # ys) e" "\<forall>q \<in> set (xs @ r # ys). range_ok q" "unmerged (xs @ r # ys)" "e \<le> 2 ^ 64" "e - a \<le> 2 ^ 61"
    using d(2) x by (auto simp: vmm_ok_def)
  have um: "unmerged xs" "unmerged ys" using t(3) by (auto simp: successively_append_iff successively_Cons)
  have rb: "unat (rg_start r) + range_bytes r \<le> 2 ^ 64" "range_bytes r \<le> 2 ^ 53"
    using tiles_disjoint [OF t(1), of r] t(4) assms(2) by auto
  have pr: "unat (rg_pages r) = 2 ^ Suc (j + m)" using assms(8) by simp
  have "2 ^ Suc (j + m) * 2 ^ 21 \<le> (2 :: nat) ^ 32 * 2 ^ 21" using rb(2) pr by (simp add: range_bytes_def)
  then have jm: "j + m \<le> 31" using power_le_imp_le_exp [of "2 :: nat" "Suc (j + m)" 32] by simp
  have okr: "range_ok r" using t(2) by simp
  obtain h n s1 where sp: "mem_vmm_split_range c r (ucast (rg_pages r div 2)) s = Some ([h, n], s1)"
    "unat (rg_pages h) = 2 ^ (j + m)" "unat (rg_pages n) = 2 ^ (j + m)" "rg_start h = rg_start r"
    "2 * range_bytes h = range_bytes r" "unat (rg_start n) = unat (rg_start r) + range_bytes h"
    "range_ok h" "range_ok n" "range_bytes n = range_bytes h" "rg_allocated h = rg_allocated r"
    "\<not> rg_allocated n" "same_ranges s s1"
    using split_once [OF okr pr jm rb(1) d(5)] .
  let ?d = "d\<lparr>vp_ranges := xs @ h # n # ys\<rparr>" and ?s1 = "set_vmm_data c (d\<lparr>vp_ranges := xs @ h # n # ys\<rparr>) s1"
  have find: "find_index (contains_addr addr) (vp_ranges d) = Some (length xs)"
    using find_containing [OF t(1,2,4) sa(2) _ assms(10)] assms(9) x by simp
  have "(2 :: nat) ^ j < 2 ^ Suc (j + m)" by (rule power_strict_increasing) simp_all
  then have lt: "ucast num_pages < rg_pages r" using pr assms(3) by (simp add: word_less_nat_alt)
  have step: "mem_vmm_allocate_specific_range c addr num_pages s = mem_vmm_allocate_specific_range c addr num_pages ?s1"
    using specific_split_step [OF d(1) x find lt sp(1) rounded_pages_exact [OF assms(3,4)] sa(1)] by simp
  have t1: "tiles a ((xs @ [h]) @ n # ys) e" using tiles_split [OF t(1) sp(4,6)] sp(5,9) by simp
  have "unmerged (xs @ [h])" using um(1) sp(10) assms(7) by (intro unmerged_snoc) (auto simp: mergeable_def)
  moreover have "range_bytes r div 2 = range_bytes h" using sp(5) by linarith
  then have "unat (rg_start n) \<le> unat addr" "unat addr < unat (rg_start n) + range_bytes n"
    using sp(5,6,9) assms(9,10) by linarith+
  ultimately obtain s' rs where "mem_vmm_allocate_specific_range c addr num_pages ?s1 = Some s'"
    "vmm_data c s' = Some (?d\<lparr>vp_ranges := rs\<rparr>)"
    "regions rs = insert (unat addr, 2 ^ j * 2 ^ 21) (regions ((xs @ [h]) @ n # ys))"
    using specific_ok [OF assms(3-5) t(4,5) t1 _ _ um(2) sp(11,3), of c ?s1 ?d] jm sp(7,8,12) t(2) d(5)
    by (auto simp: same_ranges_def)
  moreover have "(unat (rg_start r), range_bytes r div 2) \<in> regions ((xs @ [h]) @ n # ys)"
    using sp(4,5,10) assms(7) by (force simp: regions_def)
  moreover have "(unat (rg_start r), range_bytes r) \<in> regions (client_ranges c s)"
    using d(6) x assms(7) by (force simp: regions_def)
  ultimately show ?thesis using step by (auto simp: client_ranges_def)
qed

subsection \<open>An example\<close>

definition sample_range :: "u64 \<Rightarrow> u64 \<Rightarrow> bool \<Rightarrow> vmm_range_data" where
  "sample_range start pages allocated = \<lparr>rg_start = start, rg_pages = pages, rg_allocated = allocated,
     rg_item_prealloc = True, rg_data_prealloc = True\<rparr>"

definition sample_vmm :: vmm_state where
  "sample_vmm = \<lparr>vs_initialized = True, vs_initial_ranges_used = 2, vs_initial_list_items_used = 2,
     vs_kernel = \<lparr>vp_ranges = [sample_range 0 4 True, sample_range 0x800000 4 False],
                  vp_lock = False, vp_user_thread = None\<rparr>,
     vs_processes = (\<lambda>_. None), vs_kmalloced = 0\<rparr>"

lemma sample_range_ok: "range_ok (sample_range 0 4 True)" "range_ok (sample_range 0x800000 4 False)"
  unfolding range_ok_def sample_range_def range_bytes_def by (auto intro: exI [of _ 2])

lemma sample_vmm_ok: "client_ok Kernel 0 (8 * 2 ^ 21) sample_vmm"
proof -
  have "vmm_ok 0 [sample_range 0 4 True, sample_range 0x800000 4 False] (8 * 2 ^ 21)"
    using sample_range_ok by (simp add: vmm_ok_def mergeable_def) (simp add: sample_range_def range_bytes_def)
  then show ?thesis by (simp add: client_ok_def sample_vmm_def vmm_data_def)
qed

lemma sample_vmm_ranges: "client_ranges Kernel sample_vmm = [sample_range 0 4 True, sample_range 0x800000 4 False]"
  by (simp add: client_ranges_def sample_vmm_def vmm_data_def)

lemma sample_rounded: "rounded_pages 2 = 2" "rounded_pages 3 = 4" "rounded_pages 1 = 1"
  by code_simp+

theorem vmm_allocate_correct_witness:
  "\<exists>addr s'. mem_allocate_virtual_range (Some 7) 3 Kernel sample_vmm = Some (addr, s') \<and>
     regions (client_ranges Kernel s') = insert (unat addr, 4 * 2 ^ 21) (regions (client_ranges Kernel sample_vmm))"
proof -
  have "\<exists>r \<in> set (client_ranges Kernel sample_vmm). \<not> rg_allocated r \<and> 4 * 2 ^ 21 \<le> range_bytes r"
    by (simp add: sample_vmm_ranges sample_range_def range_bytes_def)
  moreover have "4 * 2 ^ 21 = unat (rounded_pages 3) * 2 ^ 21" by (simp add: sample_rounded)
  ultimately show ?thesis
    using vmm_allocate_correct [OF sample_vmm_ok, of 3 "4 * 2 ^ 21" "Some 7"] by auto
qed


theorem vmm_deallocate_correct_witness:
  "mem_deallocate_virtual_range None 0x800000 4 Kernel sample_vmm = None \<and>
   (\<exists>s'. mem_deallocate_virtual_range None 0 3 Kernel sample_vmm = Some s' \<and> regions (client_ranges Kernel s') = {})"
proof -
  have r: "regions (client_ranges Kernel sample_vmm) = {(0, 4 * 2 ^ 21)}"
    by (simp add: regions_def sample_vmm_ranges) (simp add: sample_range_def range_bytes_def)
  have "rounded_pages 4 = 4" by code_simp
  then show ?thesis
    using vmm_deallocate_correct [OF sample_vmm_ok, of "4 * 2 ^ 21" 4 "0x800000" None]
      vmm_deallocate_correct [OF sample_vmm_ok, of "4 * 2 ^ 21" 3 0 None]
    by (auto simp: r sample_rounded)
qed

theorem vmm_specific_correct_witness:
  "\<exists>s'. mem_vmm_allocate_specific_range Kernel 0xC00000 1 sample_vmm = Some s' \<and>
     (0xC00000, 2 ^ 21) \<in> regions (client_ranges Kernel s')"
  using vmm_specific_correct [OF sample_vmm_ok, of 1 0 "0xC00000" "sample_range 0x800000 4 False"]
  by (simp add: sample_vmm_ranges) (auto simp: sample_range_def range_bytes_def)

theorem vmm_specific_splits_allocated_witness:
  "\<exists>s'. mem_vmm_allocate_specific_range Kernel 0x600000 1 sample_vmm = Some s' \<and>
     (0x600000, 2 ^ 21) \<in> regions (client_ranges Kernel s') \<and> (0, 2 * 2 ^ 21) \<in> regions (client_ranges Kernel s')"
  using vmm_specific_splits_allocated [OF sample_vmm_ok, of 1 0 "0x600000" "sample_range 0 4 True" 1]
  by (simp add: sample_vmm_ranges) (auto simp: sample_range_def range_bytes_def)

subsection \<open>Start-up\<close>

definition vmm_boot :: vmm_state where
  "vmm_boot = \<lparr>vs_initialized = False, vs_initial_ranges_used = 0, vs_initial_list_items_used = 0,
     vs_kernel = \<lparr>vp_ranges = [], vp_lock = False, vp_user_thread = None\<rparr>,
     vs_processes = (\<lambda>_. None), vs_kmalloced = 0\<rparr>"

declare mem_vmm_allocate_specific_range.simps [code]

lemma range_ok_code [code]:
  "range_ok r \<longleftrightarrow> list_ex (\<lambda>k. unat (rg_pages r) = 2 ^ k) [0..<41] \<and> range_bytes r dvd unat (rg_start r)"
  by (auto simp: range_ok_def list_ex_iff Bex_def)

text \<open>The kernel's ranges after start-up, as start address, number of pages and state.\<close>

definition boot_ranges :: "vmm_range_data list" where
  "boot_ranges = map (\<lambda>(start, pages, allocated). \<lparr>rg_start = start, rg_pages = pages, rg_allocated = allocated,
       rg_item_prealloc = True, rg_data_prealloc = True\<rparr>) [
     (0xFFFFFFFF00000000, 2, True),
     (0xFFFFFFFF00400000, 2, False),
     (0xFFFFFFFF00800000, 4, False),
     (0xFFFFFFFF01000000, 8, False),
     (0xFFFFFFFF02000000, 16, False),
     (0xFFFFFFFF04000000, 32, False),
     (0xFFFFFFFF08000000, 64, False),
     (0xFFFFFFFF10000000, 128, False),
     (0xFFFFFFFF20000000, 256, False),
     (0xFFFFFFFF40000000, 512, False),
     (0xFFFFFFFF80000000, 512, False),
     (0xFFFFFFFFC0000000, 256, False),
     (0xFFFFFFFFE0000000, 128, False),
     (0xFFFFFFFFF0000000, 64, False),
     (0xFFFFFFFFF8000000, 32, False),
     (0xFFFFFFFFFC000000, 16, False),
     (0xFFFFFFFFFE000000, 8, False),
     (0xFFFFFFFFFF000000, 4, False),
     (0xFFFFFFFFFF800000, 2, False),
     (0xFFFFFFFFFFC00000, 1, False),
     (0xFFFFFFFFFFE00000, 1, True)]"

lemma initialize_ranges:
  "map_option (\<lambda>s. (vs_initialized s, vs_kernel s, vs_kmalloced s)) (mem_vmm_initialize vmm_boot) =
     Some (True, \<lparr>vp_ranges = boot_ranges, vp_lock = False, vp_user_thread = None\<rparr>, 0)"
  by code_simp

lemma boot_ranges_ok: "vmm_ok 0xFFFFFFFF00000000 boot_ranges (2 ^ 64)"
  unfolding vmm_ok_def
proof (intro conjI)
  show "tiles 0xFFFFFFFF00000000 boot_ranges (2 ^ 64)"
    by (simp add: boot_ranges_def range_bytes_def)
  show "\<forall>r \<in> set boot_ranges. range_ok r"
    by (simp add: boot_ranges_def range_ok_code range_bytes_def upt_conv_Cons)
  show "unmerged boot_ranges"
    by (simp add: boot_ranges_def mergeable_def range_bytes_def)
qed simp_all

text \<open>
  Initialisation of the manager at start-up succeeds within the preallocated items (no memory is
  asked of \<open>kmalloc\<close>), and leaves the kernel's address space, from 0xFFFFFFFF00000000 to the top,
  with the invariant established and exactly the kernel image and the page-table window allocated.
\<close>

theorem vmm_initialize_correct:
  "\<exists>s. mem_vmm_initialize vmm_boot = Some s \<and> client_ok Kernel 0xFFFFFFFF00000000 (2 ^ 64) s \<and> vs_kmalloced s = 0 \<and>
     regions (client_ranges Kernel s) = {(0xFFFFFFFF00000000, 2 * 2 ^ 21), (0xFFFFFFFFFFE00000, 2 ^ 21)}"
proof -
  obtain s where s: "mem_vmm_initialize vmm_boot = Some s" "vs_initialized s" "vs_kmalloced s = 0"
    "vs_kernel s = \<lparr>vp_ranges = boot_ranges, vp_lock = False, vp_user_thread = None\<rparr>"
    using initialize_ranges by auto
  then have "client_ok Kernel 0xFFFFFFFF00000000 (2 ^ 64) s"
    using boot_ranges_ok by (simp add: client_ok_def vmm_data_def) (simp add: boot_ranges_def)
  moreover have "regions (client_ranges Kernel s) = {(0xFFFFFFFF00000000, 2 * 2 ^ 21), (0xFFFFFFFFFFE00000, 2 ^ 21)}"
    using s(4) by (simp add: client_ranges_def vmm_data_def regions_def boot_ranges_def range_bytes_def)
  ultimately show ?thesis using s by blast
qed

end
