(* ===== verification/Object_Mgr.thy ===== *)
theory Object_Mgr
  imports Cpp_Lib
begin

text \<open>
  Handles and the object manager: \<open>kernel/object_mgr/handles.cpp\<close> and \<open>object_mgr.cpp\<close>. One counter
  gives out all handles of the system; every thread has an object manager of its own, a map from
  handles to the data of an object. Objects are identities.
\<close>

subsection \<open>State and operations\<close>

type_synonym GEN_HANDLE = u64

record object_data =
  od_object_ptr :: "nat option"
  od_handle :: GEN_HANDLE
  od_seek_position :: u64

record om_state =
  hm_next_handle :: GEN_HANDLE
  object_store :: "nat \<Rightarrow> (GEN_HANDLE, object_data) std_map"

definition hm_gen_init :: om_state where
  "hm_gen_init = \<lparr>hm_next_handle = 1, object_store = (\<lambda>_. [])\<rparr>"

definition hm_get_handle :: "om_state \<Rightarrow> (GEN_HANDLE \<times> om_state) option" where
  "hm_get_handle s =
     (let return_handle = hm_next_handle s; s = s\<lparr>hm_next_handle := hm_next_handle s + 1\<rparr>
      in if hm_next_handle s = NOT 0 then None else Some (return_handle, s))"

definition hm_release_handle :: "GEN_HANDLE \<Rightarrow> om_state \<Rightarrow> om_state" where
  "hm_release_handle handle s = s"

definition int_retrieve_object :: "nat \<Rightarrow> GEN_HANDLE \<Rightarrow> om_state \<Rightarrow> object_data option" where
  "int_retrieve_object om handle s =
     (if map_contains (object_store s om) handle then map_of (object_store s om) handle else None)"

definition correlate_object :: "nat \<Rightarrow> object_data \<Rightarrow> GEN_HANDLE \<Rightarrow> om_state \<Rightarrow> om_state option" where
  "correlate_object om object handle s = do {
     ASSERT (od_object_ptr object \<noteq> None);
     let new_object = object\<lparr>od_handle := handle\<rparr>;
     Some (s\<lparr>object_store := (object_store s)(om := std_map_insert handle new_object (object_store s om))\<rparr>)
   }"

definition store_object :: "nat \<Rightarrow> object_data \<Rightarrow> om_state \<Rightarrow> (GEN_HANDLE \<times> om_state) option" where
  "store_object om object s = do {
     (new_handle, s) \<leftarrow> hm_get_handle s;
     s \<leftarrow> correlate_object om object new_handle s;
     Some (new_handle, s)
   }"

definition retrieve_object :: "nat \<Rightarrow> GEN_HANDLE \<Rightarrow> om_state \<Rightarrow> object_data option" where
  "retrieve_object om handle s = int_retrieve_object om handle s"

definition retrieve_handled_object :: "nat \<Rightarrow> GEN_HANDLE \<Rightarrow> om_state \<Rightarrow> nat option" where
  "retrieve_handled_object om handle s =
     (case retrieve_object om handle s of Some obj_data \<Rightarrow> od_object_ptr obj_data | None \<Rightarrow> None)"

definition decorrelate_object :: "nat \<Rightarrow> GEN_HANDLE \<Rightarrow> om_state \<Rightarrow> om_state" where
  "decorrelate_object om handle s =
     s\<lparr>object_store := (object_store s)(om := std_map_erase handle (object_store s om))\<rparr>"

definition remove_object :: "nat \<Rightarrow> GEN_HANDLE \<Rightarrow> om_state \<Rightarrow> om_state" where
  "remove_object om handle s = hm_release_handle handle (decorrelate_object om handle s)"

definition remove_all_objects :: "nat \<Rightarrow> om_state \<Rightarrow> om_state" where
  "remove_all_objects om s = s\<lparr>object_store := (object_store s)(om := [])\<rparr>"

subsection \<open>Invariant\<close>

text \<open>
  Every stored object carries the handle it is stored under, that handle has been given out, and it
  has an object. The counter has not reached the value at which the system is out of handles.
\<close>

definition om_wf :: "om_state \<Rightarrow> bool" where
  "om_wf s \<longleftrightarrow> hm_next_handle s \<noteq> NOT 0 \<and> (\<forall>om. std_map_wf (object_store s om) \<and>
     (\<forall>h d. map_of (object_store s om) h = Some d \<longrightarrow> h < hm_next_handle s \<and> od_handle d = h \<and> od_object_ptr d \<noteq> None))"

lemma om_init_wf: "om_wf hm_gen_init"
  by (simp add: om_wf_def hm_gen_init_def)

lemma om_wfD:
  "om_wf s \<Longrightarrow> std_map_wf (object_store s om)"
  "om_wf s \<Longrightarrow> map_of (object_store s om) h = Some d \<Longrightarrow> h < hm_next_handle s \<and> od_handle d = h \<and> od_object_ptr d \<noteq> None"
  by (simp_all add: om_wf_def)

lemma retrieve_map: "retrieve_object om h s = map_of (object_store s om) h"
  by (simp add: retrieve_object_def int_retrieve_object_def map_contains_def)

lemma unat_next:
  assumes "n \<noteq> NOT 0"
  shows "unat (n + 1 :: u64) = unat n + 1"
proof -
  have "unat (NOT 0 :: u64) = 2 ^ 64 - 1" by (simp add: unsigned_minus_1_eq_mask mask_eq_exp_minus_1)
  then have "unat n \<noteq> 2 ^ 64 - 1" using assms by (metis word_unat_eq_iff)
  then show ?thesis using unat_lt_u64 [of n] by (simp add: unat_word_ariths)
qed

lemma next_greater: "n \<noteq> NOT 0 \<Longrightarrow> n < n + (1 :: u64)"
  by (simp add: word_less_nat_alt unat_next)

lemma fresh_handle: "om_wf s \<Longrightarrow> map_of (object_store s om) (hm_next_handle s) = None"
  using om_wfD(2) by (cases "map_of (object_store s om) (hm_next_handle s)") blast+

subsection \<open>Properties\<close>

text \<open>
  Storing an object gives a handle that no object manager of the system knows, retrieving it there
  gives the object with that handle, all other look-ups in all managers are as before, and the
  invariant is kept. It panics exactly when there is no object or the handles have run out.
\<close>

theorem store_object_correct:
  assumes "om_wf s"
  shows "if od_object_ptr obj \<noteq> None \<and> hm_next_handle s + 1 \<noteq> NOT 0
    then (\<exists>h s'. store_object om obj s = Some (h, s') \<and> (\<forall>om'. retrieve_object om' h s = None) \<and>
       retrieve_object om h s' = Some (obj\<lparr>od_handle := h\<rparr>) \<and>
       (\<forall>om' h'. (om', h') \<noteq> (om, h) \<longrightarrow> retrieve_object om' h' s' = retrieve_object om' h' s) \<and> om_wf s')
    else store_object om obj s = None"
proof (cases "od_object_ptr obj \<noteq> None \<and> hm_next_handle s + 1 \<noteq> NOT 0")
  case True
  let ?h = "hm_next_handle s" and ?o = "obj\<lparr>od_handle := hm_next_handle s\<rparr>"
  let ?s' = "s\<lparr>hm_next_handle := ?h + 1, object_store := (object_store s)(om := std_map_insert ?h ?o (object_store s om))\<rparr>"
  have n: "?h < ?h + 1" using assms next_greater by (simp add: om_wf_def)
  have ins: "map_of (std_map_insert ?h ?o (object_store s om)) = (map_of (object_store s om))(?h \<mapsto> ?o)"
    using map_of_insert [OF om_wfD(1) [OF assms]] fresh_handle [OF assms] by (simp add: map_contains_def)
  have st: "store_object om obj s = Some (?h, ?s')"
    using True by (simp add: store_object_def hm_get_handle_def correlate_object_def Let_def)
  have "h < ?h + 1 \<and> od_handle d = h \<and> od_object_ptr d \<noteq> None"
    if "map_of (object_store ?s' om') h = Some d" for om' h d
    using that ins True n om_wfD(2) [OF assms, of _ h d] by (auto split: if_splits intro: less_trans)
  moreover have "std_map_wf (object_store ?s' om')" for om' using om_wfD(1) [OF assms] by simp
  ultimately have "om_wf ?s'" using True by (simp add: om_wf_def)
  then show ?thesis
    using True st ins fresh_handle [OF assms] by (auto simp: retrieve_map)
next
  case False
  then show ?thesis
    by (auto simp: store_object_def hm_get_handle_def correlate_object_def Let_def)
qed

definition sample_object :: object_data where
  "sample_object = \<lparr>od_object_ptr = Some 7, od_handle = 0, od_seek_position = 0\<rparr>"

theorem store_object_correct_witness:
  "\<exists>h s'. store_object 0 sample_object hm_gen_init = Some (h, s') \<and>
     retrieve_object 0 h s' = Some (sample_object\<lparr>od_handle := h\<rparr>)"
  using store_object_correct [OF om_init_wf, of sample_object 0]
  by (auto simp: sample_object_def hm_gen_init_def split: if_splits)

text \<open>
  Removing a handle makes exactly that handle of that manager unknown, keeps the invariant, and
  accepts any handle, known or not. Correlating an object with a handle that is in use already has no
  effect: the old object stays, and the caller is not told.
\<close>

theorem remove_and_correlate:
  assumes "om_wf s"
  shows "om_wf (remove_object om h s) \<and>
    (\<forall>om' h'. retrieve_object om' h' (remove_object om h s) =
       (if (om', h') = (om, h) then None else retrieve_object om' h' s)) \<and>
    (retrieve_object om h s \<noteq> None \<longrightarrow> od_object_ptr obj \<noteq> None \<longrightarrow> correlate_object om obj h s = Some s)"
proof (intro conjI impI allI)
  show "om_wf (remove_object om h s)"
    using assms by (auto simp: om_wf_def remove_object_def hm_release_handle_def decorrelate_object_def split: if_splits)
  show "retrieve_object om' h' (remove_object om h s) =
       (if (om', h') = (om, h) then None else retrieve_object om' h' s)" for om' h'
    by (auto simp: retrieve_map remove_object_def hm_release_handle_def decorrelate_object_def)
  assume "retrieve_object om h s \<noteq> None" and "od_object_ptr obj \<noteq> None"
  then show "correlate_object om obj h s = Some s"
    using std_map_insert_present [OF om_wfD(1) [OF assms], of om h]
    by (simp add: correlate_object_def retrieve_map map_contains_def)
qed

theorem remove_and_correlate_witness:
  "retrieve_object 0 5 (remove_object 0 5 hm_gen_init) = None \<and> om_wf (remove_object 0 5 hm_gen_init)"
  using remove_and_correlate [OF om_init_wf, of 0 5] by simp

end
