(* ===== verification/Page_Tables.thy ===== *)
theory Page_Tables
  imports Phys_Mem
begin

text \<open>
  The x64 page tables: \<open>kernel/mem/x64/mem-x64.cpp\<close>, \<open>mem_pat-x64.cpp\<close> and \<open>mem_pml4-x64.cpp\<close>. The kernel
  uses pages of 2 MB, so a virtual address passes through three tables, the PML4 table of the process, a
  page directory pointer table and a page directory, each a 4 kB frame of 512 words. Physical memory
  is seen as these frames. The tables of all processes share those of the upper half of the address space, the kernel's.
\<close>

unbundle bit_operations_syntax

subsection \<open>Caching modes\<close>

definition UNCACHEABLE :: u8 where "UNCACHEABLE = 0"

definition WRITE_COMBINING :: u8 where "WRITE_COMBINING = 1"

definition WRITE_THROUGH :: u8 where "WRITE_THROUGH = 4"

definition WRITE_PROTECTED :: u8 where "WRITE_PROTECTED = 5"

definition WRITE_BACK :: u8 where "WRITE_BACK = 6"

lemmas cache_defs = UNCACHEABLE_def WRITE_COMBINING_def WRITE_THROUGH_def WRITE_PROTECTED_def WRITE_BACK_def

definition mem_x64_pat_get_val :: "u8 \<Rightarrow> bool \<Rightarrow> u8 option" where
  "mem_x64_pat_get_val cache_type first_half =
     (if cache_type = UNCACHEABLE then Some 3
      else if cache_type = WRITE_COMBINING then Some 2
      else if cache_type = WRITE_THROUGH then Some 1
      else if cache_type = WRITE_PROTECTED then do { ASSERT (\<not> first_half); Some 6 }
      else if cache_type = WRITE_BACK then Some 0
      else None)"

definition mem_x64_pat_decode :: "u8 \<Rightarrow> u8 option" where
  "mem_x64_pat_decode pat_idx = do {
     ASSERT (pat_idx < 7);
     Some (if pat_idx = 0 then WRITE_BACK
           else if pat_idx = 1 then WRITE_THROUGH
           else if pat_idx = 2 then WRITE_COMBINING
           else if pat_idx = 3 then UNCACHEABLE
           else if pat_idx = 4 then WRITE_BACK
           else if pat_idx = 5 then WRITE_THROUGH
           else if pat_idx = 6 then WRITE_PROTECTED
           else UNCACHEABLE)
   }"

subsection \<open>Page table entries\<close>

record page_table_entry =
  target_addr :: u64
  pte_present :: bool
  writable :: bool
  user_mode :: bool
  end_of_tree :: bool
  cache_type :: u8

definition mem_encode_page_table_entry :: "page_table_entry \<Rightarrow> u64 option" where
  "mem_encode_page_table_entry pte = do {
     let masked_addr = target_addr pte AND 0x0007FFFFFFFFF000;
     let result = masked_addr OR (if end_of_tree pte then 0x80 else 0x00) OR (if pte_present pte then 0x01 else 0x00)
       OR (if writable pte then 0x02 else 0x00) OR (if user_mode pte then 0x04 else 0x00);
     pat_value \<leftarrow> mem_x64_pat_get_val (cache_type pte) (\<not> end_of_tree pte);
     ASSERT (\<not> end_of_tree pte \<or> pat_value < 4);
     ASSERT (\<not> end_of_tree pte \<or> target_addr pte AND 0x00000000000FF000 = 0);
     let result = result OR push_bit 3 (ucast (pat_value AND 0x03));
     Some (if end_of_tree pte \<and> pat_value AND 0x04 \<noteq> 0 then result OR 0x1000 else result)
   }"

definition mem_decode_page_table_entry :: "u64 \<Rightarrow> page_table_entry option" where
  "mem_decode_page_table_entry encoded = do {
     let eot = (encoded AND 0x80 \<noteq> 0);
     let pat_val = (ucast (drop_bit 3 (encoded AND 0x18)) :: u8);
     let pat_val = (if eot \<and> encoded AND 0x1000 \<noteq> 0 then pat_val OR 0x04 else pat_val);
     ct \<leftarrow> mem_x64_pat_decode pat_val;
     Some \<lparr>target_addr = (if eot then encoded AND 0x0007FFFFFFF00000 else encoded AND 0x0007FFFFFFFFF000),
           pte_present = (encoded AND 0x01 \<noteq> 0), writable = (encoded AND 0x02 \<noteq> 0),
           user_mode = (encoded AND 0x04 \<noteq> 0), end_of_tree = eot, cache_type = ct\<rparr>
   }"

definition mem_x64_phys_addr_from_pte :: "u64 \<Rightarrow> u64 option" where
  "mem_x64_phys_addr_from_pte encoded = map_option target_addr (mem_decode_page_table_entry encoded)"

definition mem_is_valid_virt_addr :: "u64 \<Rightarrow> bool" where
  "mem_is_valid_virt_addr virtual_addr \<longleftrightarrow>
     (let mask = 0xFFFF000000000000 in virtual_addr AND mask = 0 \<or> virtual_addr AND mask = mask)"

text \<open>
  The address bits an entry can hold: a frame of 4 kB for a table, and for a page an address
  whose bits 12 to 19 are clear.
\<close>

definition pte_representable :: "page_table_entry \<Rightarrow> bool" where
  "pte_representable pte \<longleftrightarrow>
     target_addr pte AND (if end_of_tree pte then 0x0007FFFFFFF00000 else 0x0007FFFFFFFFF000) = target_addr pte"

lemma and_mask_disjoint:
  "(t AND a :: u64) = t \<Longrightarrow> a AND b = 0 \<Longrightarrow> t AND b = 0"
  by (metis and.assoc and_zero_eq)

lemma and_mask_sub:
  "(t AND a :: u64) = t \<Longrightarrow> a AND b = a \<Longrightarrow> t AND b = t"
  by (metis and.assoc)

lemma mem_x64_pat_get_val_unencodable:
  "c \<notin> {UNCACHEABLE, WRITE_COMBINING, WRITE_THROUGH, WRITE_BACK} \<Longrightarrow>
   mem_x64_pat_get_val c f = (if c = WRITE_PROTECTED \<and> \<not> f then Some 6 else None)"
  by (auto simp: mem_x64_pat_get_val_def)

lemma mem_encode_unencodable:
  assumes "cache_type pte \<notin> {UNCACHEABLE, WRITE_COMBINING, WRITE_THROUGH, WRITE_BACK}"
  shows "mem_encode_page_table_entry pte = None"
  using mem_x64_pat_get_val_unencodable [OF assms]
  by (cases "end_of_tree pte") (auto simp: mem_encode_page_table_entry_def Let_def)

text \<open>The index of a caching mode in the first half of the attribute table, the only half an entry can name.\<close>

definition pat_bits :: "u8 \<Rightarrow> u64" where
  "pat_bits c = (if c = UNCACHEABLE then 0x18 else if c = WRITE_COMBINING then 0x10
     else if c = WRITE_THROUGH then 0x08 else 0)"

definition flag_bits :: "page_table_entry \<Rightarrow> u64" where
  "flag_bits pte = (if end_of_tree pte then 0x80 else 0) OR (if pte_present pte then 1 else 0)
     OR (if writable pte then 2 else 0) OR (if user_mode pte then 4 else 0) OR pat_bits (cache_type pte)"

lemma mem_encode_encodable:
  assumes "cache_type pte \<in> {UNCACHEABLE, WRITE_COMBINING, WRITE_THROUGH, WRITE_BACK}"
    and "end_of_tree pte \<Longrightarrow> target_addr pte AND 0xFF000 = 0"
  shows "mem_encode_page_table_entry pte = Some ((target_addr pte AND 0x0007FFFFFFFFF000) OR flag_bits pte)"
proof -
  obtain v where v: "mem_x64_pat_get_val (cache_type pte) (\<not> end_of_tree pte) = Some v" "v < 4" "v AND 4 = 0"
    "push_bit 3 (ucast (v AND 3) :: u64) = pat_bits (cache_type pte)"
    using assms(1) by (auto simp: mem_x64_pat_get_val_def pat_bits_def cache_defs)
  show ?thesis using v assms(2)
    by (cases "end_of_tree pte") (simp_all add: mem_encode_page_table_entry_def flag_bits_def Let_def or.assoc)
qed

lemma pte_encode_decode:
  assumes "pte_representable pte"
  shows "if cache_type pte \<in> {UNCACHEABLE, WRITE_COMBINING, WRITE_THROUGH, WRITE_BACK}
    then (\<exists>w. mem_encode_page_table_entry pte = Some w \<and> mem_decode_page_table_entry w = Some pte \<and>
           (w AND 1 \<noteq> 0) = pte_present pte)
    else mem_encode_page_table_entry pte = None"
proof (cases "cache_type pte \<in> {UNCACHEABLE, WRITE_COMBINING, WRITE_THROUGH, WRITE_BACK}")
  case False
  then show ?thesis by (simp add: mem_encode_unencodable)
next
  case True
  let ?t = "target_addr pte" and ?a = "if end_of_tree pte then 0x0007FFFFFFF00000 else 0x0007FFFFFFFFF000 :: u64"
  let ?w = "?t OR flag_bits pte"
  have t: "?t AND ?a = ?t" using assms by (simp add: pte_representable_def)
  have m: "?t AND 0x0007FFFFFFFFF000 = ?t" by (rule and_mask_sub [OF t]) (simp split: if_split)
  have z: "?t AND 0x80 = 0" "?t AND 0x18 = 0" "?t AND 1 = 0" "?t AND 2 = 0" "?t AND 4 = 0"
    "end_of_tree pte \<Longrightarrow> ?t AND 0x1000 = 0" "end_of_tree pte \<Longrightarrow> ?t AND 0xFF000 = 0"
    by (rule and_mask_disjoint [OF t]; simp split: if_split)+
  have enc: "mem_encode_page_table_entry pte = Some ?w"
    using mem_encode_encodable [OF True z(7)] m by simp
  have "?w AND 0x80 = (if end_of_tree pte then 0x80 else 0)" "?w AND 1 = (if pte_present pte then 1 else 0)"
    "?w AND 2 = (if writable pte then 2 else 0)" "?w AND 4 = (if user_mode pte then 4 else 0)"
    "?w AND 0x18 = pat_bits (cache_type pte)" "end_of_tree pte \<Longrightarrow> ?w AND 0x1000 = 0" "?w AND ?a = ?t"
    by (simp_all add: bit.conj_disj_distrib2 t z flag_bits_def pat_bits_def split del: if_split cong: if_cong)
      (simp_all split: if_splits)
  note bits = this
  have dec: "mem_x64_pat_decode (ucast (drop_bit 3 (pat_bits (cache_type pte)))) = Some (cache_type pte)"
    using True by (auto simp: mem_x64_pat_decode_def pat_bits_def cache_defs)
  have "mem_decode_page_table_entry ?w = Some pte"
    using bits dec by (cases "end_of_tree pte") (simp_all add: mem_decode_page_table_entry_def Let_def)
  with True enc bits(2) show ?thesis by auto
qed

text \<open>
  Page table entries: encoding succeeds exactly for the caching modes other than write-protected, and for a page
  only when bits 12 to 19 of the address are clear; decoding the word gives the entry back, if the
  address fits the bits of the entry. A write-protected mapping always panics.
\<close>

theorem pte_roundtrip:
  assumes "pte_representable pte"
  shows "if cache_type pte \<in> {UNCACHEABLE, WRITE_COMBINING, WRITE_THROUGH, WRITE_BACK}
    then (\<exists>w. mem_encode_page_table_entry pte = Some w \<and> mem_decode_page_table_entry w = Some pte \<and>
           (w AND 1 \<noteq> 0) = pte_present pte)
    else mem_encode_page_table_entry pte = None"
  by (rule pte_encode_decode [OF assms])

theorem pte_roundtrip_witness:
  "\<exists>w. mem_encode_page_table_entry \<lparr>target_addr = 0x40000000, pte_present = True, writable = True, user_mode = False,
       end_of_tree = True, cache_type = WRITE_THROUGH\<rparr> = Some w \<and>
     mem_x64_phys_addr_from_pte w = Some 0x40000000"
  using pte_roundtrip [of "\<lparr>target_addr = 0x40000000, pte_present = True, writable = True, user_mode = False,
       end_of_tree = True, cache_type = WRITE_THROUGH\<rparr>"]
  by (auto simp: pte_representable_def mem_x64_phys_addr_from_pte_def)

subsection \<open>State\<close>

record process_x64_data =
  pml4_phys_addr :: u64
  pml4_virt_addr :: u64

text \<open>
  Physical memory is seen as frames of 4 kB, each of 512 words. The PML4 tables live on the kernel heap and are
  reached by their virtual address. The processes are numbered, and number 0 stands for \<open>task0_x64_entry\<close>. The entry that maps
  the window at \<open>working_table_virtual_addr_base\<close> is kept apart from the other tables: \<^term>\<open>None\<close> is a null
  \<open>working_table_va_entry_addr\<close>, and the window's address is given by its offset in the page.
\<close>

record pt_state =
  frames :: "u64 \<Rightarrow> nat \<Rightarrow> u64"
  pml4_mem :: "u64 \<Rightarrow> nat \<Rightarrow> u64"
  proc_x64 :: "nat \<Rightarrow> process_x64_data option"
  pml4_table_list :: "nat list"
  known_pml4s :: u64
  pml4_system_initialized :: bool
  next_4kb_page :: u64
  working_entry :: "u64 option"
  working_offset :: u64
  working_table_va_mapped :: bool
  valid_phys_bit_mask :: u64
  pm :: phys_state

definition PT_MARKED_PRESENT :: "u64 \<Rightarrow> bool" where
  "PT_MARKED_PRESENT x \<longleftrightarrow> x AND 1 \<noteq> 0"

definition get_pml4_table_addr :: "nat option \<Rightarrow> nat option \<Rightarrow> pt_state \<Rightarrow> u64 option" where
  "get_pml4_table_addr cur_process context s = do {
     proc_data \<leftarrow> proc_x64 s (case context of Some p \<Rightarrow> p | None \<Rightarrow> (case cur_process of Some p \<Rightarrow> p | None \<Rightarrow> 0));
     ASSERT (pml4_virt_addr proc_data \<noteq> 0);
     Some (pml4_virt_addr proc_data)
   }"

definition mem_get_next_4kb_page :: "pt_state \<Rightarrow> (u64 \<times> pt_state) option" where
  "mem_get_next_4kb_page s = do {
     s \<leftarrow> (if next_4kb_page s = 0 then do {
             (a, p) \<leftarrow> mem_allocate_physical_pages 1 (pm s);
             Some (s\<lparr>next_4kb_page := a, pm := p\<rparr>)
           } else Some s);
     let ret_val = next_4kb_page s;
     let next_page = ret_val + 4096;
     Some (ret_val, s\<lparr>next_4kb_page := (if next_page mod MEM_PAGE_SIZE = 0 then 0 else next_page)\<rparr>)
   }"

definition mem_set_working_page_dir :: "u64 \<Rightarrow> pt_state \<Rightarrow> pt_state option" where
  "mem_set_working_page_dir phys_page_addr s = do {
     ASSERT (working_entry s \<noteq> None);
     ASSERT (phys_page_addr AND 0x0FFF = 0);
     let page_offset = phys_page_addr AND 0x1FFFFF;
     let phys_page_addr = phys_page_addr AND NOT 0x1FFFFF;
     let s = (if working_table_va_mapped s then s\<lparr>working_entry := Some 0, working_table_va_mapped := False\<rparr> else s);
     w \<leftarrow> mem_encode_page_table_entry \<lparr>target_addr = phys_page_addr, pte_present = True, writable = True,
            user_mode = False, end_of_tree = True, cache_type = WRITE_BACK\<rparr>;
     Some (s\<lparr>working_entry := Some w, working_offset := page_offset, working_table_va_mapped := True\<rparr>)
   }"

text \<open>The physical frame that the processor reaches through the window.\<close>

definition working_frame :: "pt_state \<Rightarrow> u64 option" where
  "working_frame s = do {
     w \<leftarrow> working_entry s;
     base \<leftarrow> mem_x64_phys_addr_from_pte w;
     Some (base + working_offset s)
   }"

definition set_word :: "u64 \<Rightarrow> nat \<Rightarrow> u64 \<Rightarrow> pt_state \<Rightarrow> pt_state" where
  "set_word f i w s = s\<lparr>frames := (frames s)(f := (frames s f)(i := w))\<rparr>"

definition page_dir_entry_idx :: "u64 \<Rightarrow> nat" where
  "page_dir_entry_idx v = unat (drop_bit 21 v AND 0x1FF)"

definition page_dir_ptr_entry_idx :: "u64 \<Rightarrow> nat" where
  "page_dir_ptr_entry_idx v = unat (drop_bit 9 (drop_bit 21 v) AND 0x1FF)"

definition pml4_entry_idx :: "u64 \<Rightarrow> nat" where
  "pml4_entry_idx v = unat (drop_bit 9 (drop_bit 9 (drop_bit 21 v)) AND 0x1FF)"

definition is_kernel_allocation :: "u64 \<Rightarrow> bool" where
  "is_kernel_allocation v \<longleftrightarrow> v AND 0x8000000000000000 \<noteq> 0"

text \<open>\<open>mem_x64_pml4_synchronize\<close> copies the upper half of a table to the tables of all listed processes.\<close>

definition copy_kernel_half :: "(nat \<Rightarrow> u64) \<Rightarrow> (nat \<Rightarrow> u64) \<Rightarrow> nat \<Rightarrow> u64" where
  "copy_kernel_half src dst = (\<lambda>i. if 256 \<le> i then src i else dst i)"

fun copy_to_all :: "(nat \<Rightarrow> u64) \<Rightarrow> nat list \<Rightarrow> u64 \<Rightarrow> pt_state \<Rightarrow> (u64 \<times> pt_state) option" where
  "copy_to_all buf [] updated s = Some (updated, s)"
| "copy_to_all buf (p # ps) updated s = do {
     d \<leftarrow> proc_x64 s p;
     let a = pml4_virt_addr d;
     copy_to_all buf ps (updated + 1)
       (s\<lparr>pml4_mem := (pml4_mem s)(a := copy_kernel_half buf (pml4_mem s a))\<rparr>)
   }"

definition mem_x64_pml4_synchronize :: "u64 \<Rightarrow> pt_state \<Rightarrow> pt_state option" where
  "mem_x64_pml4_synchronize updated_pml4_table s = do {
     (updated_pml4s, s) \<leftarrow> copy_to_all (pml4_mem s updated_pml4_table) (pml4_table_list s) 0 s;
     ASSERT (updated_pml4s = known_pml4s s);
     Some s
   }"

subsection \<open>Mapping and unmapping\<close>

definition table_entry :: "u64 \<Rightarrow> bool \<Rightarrow> page_table_entry" where
  "table_entry table_phys_addr is_kernel = \<lparr>target_addr = table_phys_addr, pte_present = True, writable = True,
     user_mode = (\<not> is_kernel), end_of_tree = False, cache_type = WRITE_BACK\<rparr>"

definition page_entry :: "u64 \<Rightarrow> bool \<Rightarrow> u8 \<Rightarrow> page_table_entry" where
  "page_entry phys_addr is_kernel cache_mode = \<lparr>target_addr = phys_addr, pte_present = True, writable = True,
     user_mode = (\<not> is_kernel), end_of_tree = True, cache_type = cache_mode\<rparr>"

definition map_pml4_step :: "u64 \<Rightarrow> u64 \<Rightarrow> pt_state \<Rightarrow> (u64 \<times> pt_state) option" where
  "map_pml4_step table_addr virt_addr s =
     (let encoded_entry = pml4_mem s table_addr (pml4_entry_idx virt_addr) in
      if PT_MARKED_PRESENT encoded_entry then do {
        a \<leftarrow> mem_x64_phys_addr_from_pte encoded_entry;
        Some (a, s)
      } else do {
        (table_phys_addr, s) \<leftarrow> mem_get_next_4kb_page s;
        w \<leftarrow> mem_encode_page_table_entry (table_entry table_phys_addr (is_kernel_allocation virt_addr));
        let s = s\<lparr>pml4_mem := (pml4_mem s)(table_addr := (pml4_mem s table_addr)(pml4_entry_idx virt_addr := w))\<rparr>;
        s \<leftarrow> (if is_kernel_allocation virt_addr then do {
                ASSERT (pml4_entry_idx virt_addr \<ge> 2048);
                mem_x64_pml4_synchronize table_addr s
              } else Some s);
        Some (table_phys_addr, s)
      })"

definition map_pdpt_step :: "u64 \<Rightarrow> pt_state \<Rightarrow> (u64 \<times> pt_state) option" where
  "map_pdpt_step virt_addr s = do {
     f \<leftarrow> working_frame s;
     let encoded_entry = frames s f (page_dir_ptr_entry_idx virt_addr);
     if PT_MARKED_PRESENT encoded_entry then do {
       a \<leftarrow> mem_x64_phys_addr_from_pte encoded_entry;
       Some (a, s)
     } else do {
       (table_phys_addr, s) \<leftarrow> mem_get_next_4kb_page s;
       w \<leftarrow> mem_encode_page_table_entry (table_entry table_phys_addr (is_kernel_allocation virt_addr));
       Some (table_phys_addr, set_word f (page_dir_ptr_entry_idx virt_addr) w s)
     }
   }"

definition map_page_step :: "u64 \<Rightarrow> u64 \<Rightarrow> u64 \<Rightarrow> u8 \<Rightarrow> pt_state \<Rightarrow> pt_state option" where
  "map_page_step table_phys_addr virt_addr phys_addr cache_mode s = do {
     s \<leftarrow> mem_set_working_page_dir table_phys_addr s;
     f \<leftarrow> working_frame s;
     ASSERT (\<not> PT_MARKED_PRESENT (frames s f (page_dir_entry_idx virt_addr)));
     w \<leftarrow> mem_encode_page_table_entry (page_entry phys_addr (is_kernel_allocation virt_addr) cache_mode);
     Some (set_word f (page_dir_entry_idx virt_addr) w s)
   }"

definition mem_x64_map_virtual_page ::
  "nat option \<Rightarrow> u64 \<Rightarrow> u64 \<Rightarrow> nat option \<Rightarrow> u8 \<Rightarrow> pt_state \<Rightarrow> pt_state option" where
  "mem_x64_map_virtual_page cur_process virt_addr phys_addr context cache_mode s = do {
     table_addr \<leftarrow> get_pml4_table_addr cur_process context s;
     ASSERT (valid_phys_bit_mask s \<noteq> 0);
     let phys_addr = phys_addr AND valid_phys_bit_mask s;
     (table_phys_addr, s) \<leftarrow> map_pml4_step table_addr virt_addr s;
     s \<leftarrow> mem_set_working_page_dir table_phys_addr s;
     (table_phys_addr, s) \<leftarrow> map_pdpt_step virt_addr s;
     map_page_step table_phys_addr virt_addr phys_addr cache_mode s
   }"

definition mem_x64_unmap_virtual_page :: "nat option \<Rightarrow> u64 \<Rightarrow> nat option \<Rightarrow> pt_state \<Rightarrow> pt_state option" where
  "mem_x64_unmap_virtual_page cur_process virt_addr context s = do {
     table_addr \<leftarrow> get_pml4_table_addr cur_process context s;
     let encoded_entry = pml4_mem s table_addr (pml4_entry_idx virt_addr);
     if \<not> PT_MARKED_PRESENT encoded_entry then Some s
     else do {
       table_phys_addr \<leftarrow> mem_x64_phys_addr_from_pte encoded_entry;
       s \<leftarrow> mem_set_working_page_dir table_phys_addr s;
       f \<leftarrow> working_frame s;
       let encoded_entry = frames s f (page_dir_ptr_entry_idx virt_addr);
       if \<not> PT_MARKED_PRESENT encoded_entry then Some s
       else do {
         table_phys_addr \<leftarrow> mem_x64_phys_addr_from_pte encoded_entry;
         s \<leftarrow> mem_set_working_page_dir table_phys_addr s;
         f \<leftarrow> working_frame s;
         Some (set_word f (page_dir_entry_idx virt_addr) 0 s)
       }
     }
   }"

text \<open>The result 0 is the null pointer.\<close>

definition mem_get_phys_addr :: "nat option \<Rightarrow> u64 \<Rightarrow> nat option \<Rightarrow> pt_state \<Rightarrow> (u64 \<times> pt_state) option" where
  "mem_get_phys_addr cur_process virtual_addr context s = do {
     table_addr \<leftarrow> get_pml4_table_addr cur_process context s;
     let offset = virtual_addr mod MEM_PAGE_SIZE;
     let page = virtual_addr - offset;
     let encoded_entry = pml4_mem s table_addr (pml4_entry_idx page);
     if \<not> PT_MARKED_PRESENT encoded_entry then Some (0, s)
     else do {
       table_phys_addr \<leftarrow> mem_x64_phys_addr_from_pte encoded_entry;
       s \<leftarrow> mem_set_working_page_dir table_phys_addr s;
       f \<leftarrow> working_frame s;
       let encoded_entry = frames s f (page_dir_ptr_entry_idx page);
       if \<not> PT_MARKED_PRESENT encoded_entry then Some (0, s)
       else do {
         table_phys_addr \<leftarrow> mem_x64_phys_addr_from_pte encoded_entry;
         s \<leftarrow> mem_set_working_page_dir table_phys_addr s;
         f \<leftarrow> working_frame s;
         phys_addr \<leftarrow> mem_x64_phys_addr_from_pte (frames s f (page_dir_entry_idx page));
         Some (phys_addr + offset, s)
       }
     }
   }"

subsection \<open>The list of PML4 tables\<close>

definition mem_x64_pml4_init_sys :: "pt_state \<Rightarrow> pt_state option" where
  "mem_x64_pml4_init_sys s = do {
     ASSERT (\<not> pml4_system_initialized s);
     Some (s\<lparr>pml4_table_list := [0], known_pml4s := 1, pml4_system_initialized := True\<rparr>)
   }"

text \<open>\<open>new_pte\<close> is the address the kernel heap returns for the new table.\<close>

definition mem_x64_pml4_allocate :: "nat option \<Rightarrow> u64 \<Rightarrow> nat \<Rightarrow> pt_state \<Rightarrow> pt_state option" where
  "mem_x64_pml4_allocate cur_process new_pte p s = do {
     ASSERT (pml4_system_initialized s);
     let s = s\<lparr>pml4_table_list := pml4_table_list s @ [p]\<rparr>;
     ASSERT (new_pte mod 4096 = 0);
     existing \<leftarrow> proc_x64 s (hd (pml4_table_list s));
     let s = s\<lparr>pml4_mem := (pml4_mem s)(new_pte := (\<lambda>_. 0))\<rparr>;
     let s = s\<lparr>pml4_mem := (pml4_mem s)(new_pte := copy_kernel_half (pml4_mem s (pml4_virt_addr existing)) (pml4_mem s new_pte))\<rparr>;
     let offset_in_page = new_pte mod MEM_PAGE_SIZE;
     (physical_page_addr, s) \<leftarrow> mem_get_phys_addr cur_process (new_pte - offset_in_page) None s;
     Some (s\<lparr>proc_x64 := (proc_x64 s)(p \<mapsto> \<lparr>pml4_phys_addr = physical_page_addr + offset_in_page, pml4_virt_addr = new_pte\<rparr>),
             known_pml4s := known_pml4s s + 1\<rparr>)
   }"

definition mem_x64_pml4_deallocate :: "nat \<Rightarrow> pt_state \<Rightarrow> pt_state option" where
  "mem_x64_pml4_deallocate p s = do {
     ASSERT (pml4_system_initialized s);
     ASSERT (p \<in> set (pml4_table_list s));
     Some (s\<lparr>pml4_table_list := remove1 p (pml4_table_list s)\<rparr>)
   }"

subsection \<open>The address space the tables describe\<close>

definition pte_target :: "u64 \<Rightarrow> u64" where
  "pte_target w = w AND 0x0007FFFFFFFFF000"

definition pml4_entry :: "pt_state \<Rightarrow> nat \<Rightarrow> nat \<Rightarrow> u64" where
  "pml4_entry s p i = (case proc_x64 s p of Some d \<Rightarrow> pml4_mem s (pml4_virt_addr d) i | None \<Rightarrow> 0)"

definition pdpt_of :: "pt_state \<Rightarrow> nat \<Rightarrow> nat \<Rightarrow> u64 option" where
  "pdpt_of s p i = (if PT_MARKED_PRESENT (pml4_entry s p i) then Some (pte_target (pml4_entry s p i)) else None)"

definition pd_in :: "pt_state \<Rightarrow> u64 \<Rightarrow> nat \<Rightarrow> u64 option" where
  "pd_in s f i = (if PT_MARKED_PRESENT (frames s f i) then Some (pte_target (frames s f i)) else None)"

text \<open>The word of the page directory that describes a page of a process, 0 when there is no such directory.\<close>

type_synonym page_ix = "nat \<times> nat \<times> nat"

definition leaf_of :: "pt_state \<Rightarrow> nat \<Rightarrow> page_ix \<Rightarrow> u64" where
  "leaf_of s p ix = (case ix of (i4, i3, i2) \<Rightarrow>
     (case pdpt_of s p i4 of None \<Rightarrow> 0
      | Some f3 \<Rightarrow> (case pd_in s f3 i3 of None \<Rightarrow> 0 | Some f2 \<Rightarrow> frames s f2 i2)))"

definition page_ix :: "u64 \<Rightarrow> page_ix" where
  "page_ix v = (pml4_entry_idx v, page_dir_ptr_entry_idx v, page_dir_entry_idx v)"

text \<open>The frames that \<open>mem_get_next_4kb_page\<close> may still hand out.\<close>

definition fresh :: "pt_state \<Rightarrow> u64 set" where
  "fresh s = {f. unat f mod 4096 = 0 \<and>
     (unat f div 2 ^ 21 \<in> free_set (pm s) \<or>
      (next_4kb_page s \<noteq> 0 \<and> unat (next_4kb_page s) \<le> unat f \<and>
       unat f div 2 ^ 21 = unat (next_4kb_page s) div 2 ^ 21))}"

definition pdpts :: "pt_state \<Rightarrow> u64 set" where
  "pdpts s = {f. \<exists>p \<in> set (pml4_table_list s). \<exists>i < 512. pdpt_of s p i = Some f}"

definition pds :: "pt_state \<Rightarrow> u64 set" where
  "pds s = {g. \<exists>f \<in> pdpts s. \<exists>i < 512. pd_in s f i = Some g}"

definition table_word :: "u64 \<Rightarrow> bool" where
  "table_word w \<longleftrightarrow> PT_MARKED_PRESENT w \<longrightarrow> w AND 0x80 = 0"

definition leaf_word :: "u64 \<Rightarrow> bool" where
  "leaf_word w \<longleftrightarrow> w = 0 \<or> (PT_MARKED_PRESENT w \<and> w AND 0x80 \<noteq> 0 \<and> w AND 0x1000 = 0)"

text \<open>The carving of physical pages into frames, with frames not yet handed out filled with zeros.\<close>

definition carve_ok :: "pt_state \<Rightarrow> bool" where
  "carve_ok s \<longleftrightarrow> phys_wf (pm s) \<and>
     (next_4kb_page s \<noteq> 0 \<longrightarrow> unat (next_4kb_page s) mod 4096 = 0 \<and>
        unat (next_4kb_page s) div 2 ^ 21 < MEM_MAX_SUPPORTED_PAGES \<and>
        unat (next_4kb_page s) div 2 ^ 21 \<notin> free_set (pm s)) \<and>
     (\<forall>f \<in> fresh s. \<forall>i < 512. frames s f i = 0)"

text \<open>
  The tables form a forest: no frame serves two entries, except that the processes share the tables of the upper half, which
  is the same in all PML4 tables.
\<close>

definition tables_ok :: "pt_state \<Rightarrow> bool" where
  "tables_ok s \<longleftrightarrow>
     (\<forall>p \<in> set (pml4_table_list s). \<forall>i < 512. table_word (pml4_entry s p i)) \<and>
     (\<forall>f \<in> pdpts s. \<forall>i < 512. table_word (frames s f i)) \<and>
     (\<forall>g \<in> pds s. \<forall>i < 512. leaf_word (frames s g i)) \<and>
     pdpts s \<inter> pds s = {} \<and> (pdpts s \<union> pds s) \<inter> fresh s = {} \<and>
     (\<forall>p \<in> set (pml4_table_list s). \<forall>q \<in> set (pml4_table_list s). \<forall>i < 512. \<forall>j < 512. \<forall>f.
        pdpt_of s p i = Some f \<longrightarrow> pdpt_of s q j = Some f \<longrightarrow> i = j \<and> (p = q \<or> 256 \<le> i)) \<and>
     (\<forall>f \<in> pdpts s. \<forall>f' \<in> pdpts s. \<forall>i < 512. \<forall>j < 512. \<forall>g.
        pd_in s f i = Some g \<longrightarrow> pd_in s f' j = Some g \<longrightarrow> f = f' \<and> i = j)"

definition procs_ok :: "pt_state \<Rightarrow> bool" where
  "procs_ok s \<longleftrightarrow> working_entry s \<noteq> None \<and> valid_phys_bit_mask s \<noteq> 0 \<and>
     (\<forall>p \<in> set (pml4_table_list s). \<exists>d. proc_x64 s p = Some d \<and> pml4_virt_addr d \<noteq> 0) \<and>
     (\<forall>p \<in> set (pml4_table_list s). \<forall>q \<in> set (pml4_table_list s).
        map_option pml4_virt_addr (proc_x64 s p) = map_option pml4_virt_addr (proc_x64 s q) \<longrightarrow> p = q) \<and>
     (\<forall>p \<in> set (pml4_table_list s). \<forall>q \<in> set (pml4_table_list s). \<forall>i. 256 \<le> i \<longrightarrow> pml4_entry s p i = pml4_entry s q i)"

definition pt_ok :: "pt_state \<Rightarrow> bool" where
  "pt_ok s \<longleftrightarrow> carve_ok s \<and> tables_ok s \<and> procs_ok s"

definition same_tables :: "pt_state \<Rightarrow> pt_state \<Rightarrow> bool" where
  "same_tables s s' \<longleftrightarrow> frames s' = frames s \<and> pml4_mem s' = pml4_mem s \<and> proc_x64 s' = proc_x64 s \<and>
     pml4_table_list s' = pml4_table_list s \<and> known_pml4s s' = known_pml4s s \<and>
     next_4kb_page s' = next_4kb_page s \<and> pm s' = pm s \<and> valid_phys_bit_mask s' = valid_phys_bit_mask s \<and>
     (working_entry s' = None) = (working_entry s = None)"

lemma same_tables_trans: "same_tables a b \<Longrightarrow> same_tables b c \<Longrightarrow> same_tables a c"
  by (simp add: same_tables_def)

lemma same_tables_walk:
  assumes "same_tables s s'"
  shows "pml4_entry s' = pml4_entry s" "pdpt_of s' = pdpt_of s" "pd_in s' = pd_in s" "leaf_of s' = leaf_of s"
    "fresh s' = fresh s" "pdpts s' = pdpts s" "pds s' = pds s"
proof -
  note e = assms [unfolded same_tables_def]
  show 1: "pml4_entry s' = pml4_entry s" using e by (intro ext) (simp add: pml4_entry_def split: option.split)
  show 2: "pdpt_of s' = pdpt_of s" by (intro ext) (simp add: pdpt_of_def 1)
  show 3: "pd_in s' = pd_in s" using e by (intro ext) (simp add: pd_in_def)
  show "leaf_of s' = leaf_of s" using e by (intro ext) (simp add: leaf_of_def 2 3 split: prod.split option.split)
  show "fresh s' = fresh s" using e by (simp add: fresh_def)
  show 4: "pdpts s' = pdpts s" using e by (simp add: pdpts_def 2)
  show "pds s' = pds s" using e by (simp add: pds_def 3 4)
qed

lemma same_tables_ok:
  assumes "same_tables s s'"
  shows "pt_ok s' = pt_ok s"
  using assms same_tables_walk [OF assms]
  unfolding same_tables_def pt_ok_def carve_ok_def tables_ok_def procs_ok_def by simp

subsection \<open>Entries and the window\<close>

lemma and_exp_cases: "w AND 2 ^ n = 0 \<or> w AND 2 ^ n = (2 ^ n :: u64)"
proof (cases "bit w n")
  case True
  have "w AND 2 ^ n = 2 ^ n" by (rule bit_eqI) (use True in \<open>auto simp: bit_and_iff bit_exp_iff\<close>)
  then show ?thesis ..
qed (simp add: and_exp_eq_0_iff_not_bit)

lemma pat_field_cases: "(w :: u64) AND 0x18 \<in> {0, 0x08, 0x10, 0x18}"
proof -
  have "w AND 0x18 = (w AND 0x08) OR (w AND 0x10)" by (simp flip: bit.conj_disj_distrib)
  then show ?thesis using and_exp_cases [of w 3] and_exp_cases [of w 4] by auto
qed

lemma pat_field_less: "(ucast (drop_bit 3 ((w :: u64) AND 0x18)) :: u8) < 7"
proof -
  consider "w AND 0x18 = 0" | "w AND 0x18 = 0x08" | "w AND 0x18 = 0x10" | "w AND 0x18 = 0x18"
    using pat_field_cases [of w] by blast
  then show ?thesis by cases (simp_all only:, simp_all)
qed

lemma phys_addr_from_pte:
  assumes "w AND 0x80 = 0 \<or> w AND 0x1000 = 0"
  shows "mem_x64_phys_addr_from_pte w = Some (if w AND 0x80 \<noteq> 0 then w AND 0x0007FFFFFFF00000 else pte_target w)"
  using assms pat_field_less [of w]
  by (auto simp: mem_x64_phys_addr_from_pte_def mem_decode_page_table_entry_def mem_x64_pat_decode_def pte_target_def Let_def)

lemma phys_addr_from_table_word: "w AND 0x80 = 0 \<Longrightarrow> mem_x64_phys_addr_from_pte w = Some (pte_target w)"
  by (simp add: phys_addr_from_pte)

lemma phys_addr_from_leaf_word: "leaf_word w \<Longrightarrow> mem_x64_phys_addr_from_pte w = Some (w AND 0x0007FFFFFFF00000)"
  by (auto simp: leaf_word_def phys_addr_from_pte pte_target_def)

lemma pte_target_idem [simp]: "pte_target (pte_target w) = pte_target w"
  by (simp add: pte_target_def and.assoc)

lemma set_working:
  assumes "working_entry s \<noteq> None" and f: "pte_target f = f"
  obtains s' where "mem_set_working_page_dir f s = Some s'" "same_tables s s'" "working_frame s' = Some f"
proof -
  let ?base = "f AND NOT 0x1FFFFF"
  let ?e = "\<lparr>target_addr = ?base, pte_present = True, writable = True, user_mode = False, end_of_tree = True,
    cache_type = WRITE_BACK\<rparr>"
  have "f AND 0xFFF = 0" using f by (intro and_mask_disjoint [of f "0x0007FFFFFFFFF000"]) (simp_all add: pte_target_def)
  have "?base AND 0x0007FFFFFFF00000 = ?base"
  proof -
    have "?base AND 0x0007FFFFFFF00000 = f AND (NOT 0x1FFFFF AND 0x0007FFFFFFF00000)" by (simp only: and.assoc)
    also have "(NOT 0x1FFFFF AND 0x0007FFFFFFF00000 :: u64) = 0x0007FFFFFFFFF000 AND NOT 0x1FFFFF" by simp
    also have "f AND \<dots> = ?base" using f by (simp only: pte_target_def flip: and.assoc)
    finally show ?thesis .
  qed
  then have "pte_representable ?e" by (simp add: pte_representable_def)
  from pte_encode_decode [OF this] obtain w where w: "mem_encode_page_table_entry ?e = Some w"
    "mem_decode_page_table_entry w = Some ?e" by (auto simp: cache_defs)
  have "?base + (f AND 0x1FFFFF) = f"
    using word_plus_and_or [of ?base "f AND 0x1FFFFF"] by (simp add: and.assoc and.left_commute flip: bit.conj_disj_distrib)
  with w show thesis
    using assms \<open>f AND 0xFFF = 0\<close>
    by (intro that [of "s\<lparr>working_entry := Some w, working_offset := f AND 0x1FFFFF, working_table_va_mapped := True\<rparr>"]) (auto simp: mem_set_working_page_dir_def working_frame_def mem_x64_phys_addr_from_pte_def
        same_tables_def assert_simps Let_def)
qed

subsection \<open>Carving pages into frames\<close>

lemma aligned_gap:
  assumes "x mod 4096 = 0" "n mod 4096 = 0" "n \<le> x" "x \<noteq> (n :: nat)"
  shows "n + 4096 \<le> x"
proof -
  obtain k l where "x = 4096 * k" "n = 4096 * l" using assms(1,2) by (metis mod_0_imp_dvd dvdE)
  with assms(3,4) show ?thesis by simp
qed

lemma frame_step:
  assumes "n mod 4096 = (0 :: nat)"
  shows "if (n + 4096) mod 2 ^ 21 = 0 then n + 4096 = 2 ^ 21 * (n div 2 ^ 21 + 1) else (n + 4096) div 2 ^ 21 = n div 2 ^ 21"
proof -
  obtain k where k: "n = 4096 * k" using assms by (metis mod_0_imp_dvd dvdE)
  have e: "n + 4096 = 4096 * Suc k" "(2 :: nat) ^ 21 = 4096 * 512" using k by simp_all
  have m: "(n + 4096) mod 2 ^ 21 = 4096 * (Suc k mod 512)" "(n + 4096) div 2 ^ 21 = Suc k div 512"
    unfolding e by (simp_all only: mod_mult_mult1 div_mult_mult1 zero_neq_numeral not_False_eq_True)
  have d: "n div 2 ^ 21 = k div 512"
    unfolding e(2) k by (simp only: div_mult_mult1 zero_neq_numeral not_False_eq_True)
  show ?thesis
  proof (cases "Suc k mod 512 = 0")
    case True
    then have "Suc k = 512 * (k div 512 + 1)" using div_Suc [of k 512] div_mult_mod_eq [of "Suc k" 512] by simp
    then have "n + 4096 = 2 ^ 21 * (k div 512 + 1)" unfolding e by simp
    then show ?thesis using True unfolding m d by simp
  next
    case False
    then show ?thesis using div_Suc [of k 512] unfolding m d by simp
  qed
qed

definition carved :: "u64 \<Rightarrow> u64 set" where
  "carved n = {f. unat f mod 4096 = 0 \<and> unat n \<le> unat f \<and> unat f div 2 ^ 21 = unat n div 2 ^ 21}"

lemma fresh_carved:
  "fresh s = {f. unat f mod 4096 = 0 \<and> unat f div 2 ^ 21 \<in> free_set (pm s)} \<union>
     (if next_4kb_page s = 0 then {} else carved (next_4kb_page s))"
  by (auto simp: fresh_def carved_def)

lemma carved_step:
  assumes n: "unat n mod 4096 = 0" "unat n div 2 ^ 21 < MEM_MAX_SUPPORTED_PAGES"
    and n': "n' = (if (n + 4096) mod MEM_PAGE_SIZE = 0 then 0 else n + 4096)"
  shows "(if n' = 0 then {} else carved n') = carved n - {n}"
    and "n' \<noteq> 0 \<Longrightarrow> unat n' mod 4096 = 0 \<and> unat n' div 2 ^ 21 = unat n div 2 ^ 21"
proof -
  have "unat n < 2 ^ 32" using n(2) by (simp add: phys_consts)
  then have u: "unat (n + 4096) = unat n + 4096" by (simp add: unat_word_ariths)
  have z: "(n + 4096) mod MEM_PAGE_SIZE = 0 \<longleftrightarrow> (unat n + 4096) mod 2 ^ 21 = 0"
    by (simp add: unat_mod u flip: unat_eq_zero)
  note st = frame_step [OF n(1)]
  show "(if n' = 0 then {} else carved n') = carved n - {n}"
  proof (cases "(unat n + 4096) mod 2 ^ 21 = 0")
    case True
    have "f = n" if "f \<in> carved n" for f
    proof (rule ccontr)
      assume "f \<noteq> n"
      then have "unat n + 4096 \<le> unat f" using that n(1) aligned_gap [of "unat f" "unat n"]
        by (auto simp: carved_def simp flip: word_unat_eq_iff)
      then have "2 ^ 21 * (unat n div 2 ^ 21 + 1) \<le> unat f" using st True by simp
      moreover have "unat f div 2 ^ 21 = unat n div 2 ^ 21" using that by (simp add: carved_def)
      moreover have "unat f < 2 ^ 21 * (unat f div 2 ^ 21 + 1)"
        by (metis Suc_eq_plus1 dividend_less_times_div mult_Suc_right add.commute zero_less_numeral zero_less_power)
      ultimately show False by (metis not_less)
    qed
    then show ?thesis using True n' z by auto
  next
    case False
    then have nz: "n' = n + 4096" "n' \<noteq> 0" using n' z u by (auto simp flip: unat_eq_zero)
    have "f \<in> carved n' \<longleftrightarrow> f \<in> carved n \<and> f \<noteq> n" for f
      using st False n(1) aligned_gap [of "unat f" "unat n"] by (auto simp: carved_def nz(1) u simp flip: word_unat_eq_iff)
    then show ?thesis using nz(2) by auto
  qed
  show "unat n' mod 4096 = 0 \<and> unat n' div 2 ^ 21 = unat n div 2 ^ 21" if "n' \<noteq> 0"
    using that n' z u st n(1) by (auto simp: mod_add_eq split: if_splits)
qed

lemma aligned_masked:
  assumes "unat f mod 2 ^ n = 0" "unat f < 2 ^ 51" "n < 64"
  shows "f AND (mask 51 AND NOT (mask n)) = (f :: u64)"
proof -
  have "unat (take_bit n f) = 0" using assms(1,3) by (simp add: take_bit_eq_mod unat_mod)
  then have "f AND mask n = 0" by (simp only: unat_eq_zero take_bit_eq_mask)
  then have a: "f AND NOT (mask n) = f" using bit.conj_disj_distrib [of f "mask n" "NOT (mask n)"] by simp
  have "unat (take_bit 51 f) = unat f" using assms(2) by (simp add: unsigned_take_bit_eq take_bit_nat_eq_self)
  then have b: "f AND mask 51 = f" by (simp only: word_unat_eq_iff take_bit_eq_mask)
  show ?thesis using a b by (simp only: flip: and.assoc)
qed

lemma frame_target:
  assumes "unat f mod 4096 = 0" "unat f < 2 ^ 51"
  shows "pte_target f = f"
proof -
  have "(0x0007FFFFFFFFF000 :: u64) = mask 51 AND NOT (mask 12)" by (simp add: mask_eq_exp_minus_1)
  then show ?thesis using aligned_masked [of f 12] assms by (simp only: pte_target_def) simp
qed

lemma fresh_target: "carve_ok s \<Longrightarrow> f \<in> fresh s \<Longrightarrow> pte_target f = f"
proof (rule frame_target)
  assume c: "carve_ok s" and f: "f \<in> fresh s"
  have "unat f div 2 ^ 21 < 2 ^ 11" using c f phys_wf_bound [of "pm s" "unat f div 2 ^ 21"]
    by (auto simp: carve_ok_def fresh_def phys_wf_def phys_consts)
  then have "unat f < 2 ^ 32" by simp
  then show "unat f < 2 ^ 51" by simp
qed (simp add: fresh_def)

lemma finite_fresh [simp]: "finite (fresh s)"
  by (rule finite_subset [OF subset_UNIV]) simp

definition pool_shrinks :: "phys_state \<Rightarrow> phys_state \<Rightarrow> bool" where
  "pool_shrinks p q \<longleftrightarrow> free_set q \<subseteq> free_set p \<and> exist_set q = exist_set p"

lemma pool_shrinks_refl [simp]: "pool_shrinks p p"
  by (simp add: pool_shrinks_def)

lemma pool_shrinks_trans: "pool_shrinks p q \<Longrightarrow> pool_shrinks q r \<Longrightarrow> pool_shrinks p r"
  by (auto simp: pool_shrinks_def)

definition carve_only :: "pt_state \<Rightarrow> pt_state \<Rightarrow> bool" where
  "carve_only s s' \<longleftrightarrow> (\<exists>n p. s' = s\<lparr>next_4kb_page := n, pm := p\<rparr> \<and> pool_shrinks (pm s) p)"

lemma Un_minus_one: "x \<notin> A \<Longrightarrow> A \<union> (B - {x}) = (A \<union> B) - {x}"
  by blast

lemma next_4kb_carved:
  assumes n: "unat (next_4kb_page s) mod 4096 = 0" "unat (next_4kb_page s) div 2 ^ 21 < MEM_MAX_SUPPORTED_PAGES"
    "unat (next_4kb_page s) div 2 ^ 21 \<notin> free_set (pm s)"
    and f: "F = {f. unat f mod 4096 = 0 \<and> unat f div 2 ^ 21 \<in> free_set (pm s)} \<union> carved (next_4kb_page s)"
    and wf: "phys_wf (pm s)" and z: "\<forall>f \<in> F. \<forall>i < 512. frames s f i = 0"
    and n': "n' = (if (next_4kb_page s + 4096) mod MEM_PAGE_SIZE = 0 then 0 else next_4kb_page s + 4096)"
  shows "fresh (s\<lparr>next_4kb_page := n'\<rparr>) = F - {next_4kb_page s} \<and> next_4kb_page s \<in> F \<and>
    carve_ok (s\<lparr>next_4kb_page := n'\<rparr>)"
proof -
  note st = carved_step [OF n(1,2) n']
  let ?A = "{f. unat f mod 4096 = 0 \<and> unat f div 2 ^ 21 \<in> free_set (pm s)}"
  have "fresh (s\<lparr>next_4kb_page := n'\<rparr>) = ?A \<union> (carved (next_4kb_page s) - {next_4kb_page s})"
    unfolding fresh_carved st(1) [symmetric] by simp
  also have "\<dots> = F - {next_4kb_page s}" unfolding f by (rule Un_minus_one) (use n(3) in simp)
  finally have fr: "fresh (s\<lparr>next_4kb_page := n'\<rparr>) = F - {next_4kb_page s}" .
  have "next_4kb_page s \<in> F" using n(1) by (simp add: f carved_def)
  moreover have "carve_ok (s\<lparr>next_4kb_page := n'\<rparr>)"
    unfolding carve_ok_def fr using st(2) n wf z by simp
  ultimately show ?thesis using fr by blast
qed

lemma next_4kb:
  assumes c: "carve_ok s"
  shows "if fresh s = {} then mem_get_next_4kb_page s = None
    else \<exists>f s'. mem_get_next_4kb_page s = Some (f, s') \<and> f \<in> fresh s \<and> fresh s' = fresh s - {f} \<and> carve_ok s' \<and> carve_only s s'"
proof (cases "next_4kb_page s = 0")
  case False
  let ?n' = "if (next_4kb_page s + 4096) mod MEM_PAGE_SIZE = 0 then 0 else next_4kb_page s + 4096"
  have "fresh (s\<lparr>next_4kb_page := ?n'\<rparr>) = fresh s - {next_4kb_page s} \<and> next_4kb_page s \<in> fresh s \<and>
    carve_ok (s\<lparr>next_4kb_page := ?n'\<rparr>)"
  proof (rule next_4kb_carved)
    show "fresh s = {f. unat f mod 4096 = 0 \<and> unat f div 2 ^ 21 \<in> free_set (pm s)} \<union> carved (next_4kb_page s)"
      using False by (simp only: fresh_carved if_False)
  qed (use c False in \<open>simp_all add: carve_ok_def\<close>)
  moreover have "mem_get_next_4kb_page s = Some (next_4kb_page s, s\<lparr>next_4kb_page := ?n'\<rparr>)"
    using False by (simp add: mem_get_next_4kb_page_def Let_def)
  moreover have "carve_only s (s\<lparr>next_4kb_page := ?n'\<rparr>)"
    unfolding carve_only_def by (intro exI [of _ ?n'] exI [of _ "pm s"]) simp
  ultimately show ?thesis by auto
next
  case True
  have wf: "phys_wf (pm s)" and z: "\<forall>f \<in> fresh s. \<forall>i < 512. frames s f i = 0" using c by (auto simp: carve_ok_def)
  show ?thesis
  proof (cases "free_set (pm s) = {}")
    case empty: True
    then show ?thesis using True allocate_none_free [OF wf empty]
      by (simp add: mem_get_next_4kb_page_def fresh_carved)
  next
    case False
    let ?m = "Min (free_set (pm s))"
    obtain ws where al: "mem_allocate_physical_pages 1 (pm s) = Some (page_addr ?m,
        (pm s)\<lparr>phys_pages_alloc_bitmap := ws, free_pages := free_pages (pm s) - 1\<rparr>)"
      "length ws = BITMAP_SIZE" "pages_of ws = free_set (pm s) - {?m}"
      using allocate_lowest [OF wf False] .
    let ?p = "(pm s)\<lparr>phys_pages_alloc_bitmap := ws, free_pages := free_pages (pm s) - 1\<rparr>"
    let ?s1 = "s\<lparr>next_4kb_page := page_addr ?m, pm := ?p\<rparr>"
    let ?n' = "if (page_addr ?m + 4096) mod MEM_PAGE_SIZE = 0 then 0 else page_addr ?m + 4096"
    have m: "?m \<in> free_set (pm s)" using False by (simp add: Min_in)
    then have mb: "?m < MEM_MAX_SUPPORTED_PAGES" using phys_wf_bound [OF wf] wf by (auto simp: phys_wf_def)
    have fs: "free_set ?p = free_set (pm s) - {?m}" using al(3) by (simp add: free_set_def [of ?p])
    have u: "unat (page_addr ?m) = 2 ^ 21 * ?m" by (rule unat_page_addr [OF mb])
    have fr: "fresh s = {f. unat f mod 4096 = 0 \<and> unat f div 2 ^ 21 \<in> free_set (pm s)}" using True by (simp add: fresh_carved)
    have "fresh (?s1\<lparr>next_4kb_page := ?n'\<rparr>) = fresh s - {next_4kb_page ?s1} \<and> next_4kb_page ?s1 \<in> fresh s \<and>
        carve_ok (?s1\<lparr>next_4kb_page := ?n'\<rparr>)"
    proof (rule next_4kb_carved)
      show "phys_wf (pm ?s1)" using allocated_wf [OF wf False al(2,3)] by simp
      show "fresh s = {f. unat f mod 4096 = 0 \<and> unat f div 2 ^ 21 \<in> free_set (pm ?s1)} \<union> carved (next_4kb_page ?s1)"
        using m u by (auto simp: fr fs carved_def)
    qed (use u mb fs z in \<open>simp_all add: mod_mult_eq\<close>)
    moreover have "mem_get_next_4kb_page s = Some (page_addr ?m, ?s1\<lparr>next_4kb_page := ?n'\<rparr>)"
      using True al(1) by (simp add: mem_get_next_4kb_page_def Let_def)
    moreover have "pool_shrinks (pm s) ?p" unfolding pool_shrinks_def using fs by (auto simp: exist_set_def)
    then have "carve_only s (?s1\<lparr>next_4kb_page := ?n'\<rparr>)"
      unfolding carve_only_def by (intro exI [of _ ?n'] exI [of _ ?p]) simp
    ultimately show ?thesis by auto
  qed
qed

subsection \<open>Changing one entry\<close>

lemma not_present_zero [simp]: "\<not> PT_MARKED_PRESENT 0"
  by (simp add: PT_MARKED_PRESENT_def)

lemma pd_in_None: "pd_in s f i = None \<longleftrightarrow> \<not> PT_MARKED_PRESENT (frames s f i)"
  by (simp add: pd_in_def)

lemma fresh_set_word [simp]: "fresh (set_word f i w s) = fresh s"
  by (simp add: fresh_def set_word_def)

lemma carve_ok_set_word: "carve_ok s \<Longrightarrow> f \<notin> fresh s \<Longrightarrow> carve_ok (set_word f i w s)"
  by (auto simp: carve_ok_def) (auto simp: set_word_def)

lemma tables_okI:
  assumes "\<And>p i. p \<in> set (pml4_table_list s) \<Longrightarrow> i < 512 \<Longrightarrow> table_word (pml4_entry s p i)"
    and "\<And>f i. f \<in> pdpts s \<Longrightarrow> i < 512 \<Longrightarrow> table_word (frames s f i)"
    and "\<And>g i. g \<in> pds s \<Longrightarrow> i < 512 \<Longrightarrow> leaf_word (frames s g i)"
    and "pdpts s \<inter> pds s = {}" and "(pdpts s \<union> pds s) \<inter> fresh s = {}"
    and "\<And>p q i j f. p \<in> set (pml4_table_list s) \<Longrightarrow> q \<in> set (pml4_table_list s) \<Longrightarrow> i < 512 \<Longrightarrow> j < 512 \<Longrightarrow>
        pdpt_of s p i = Some f \<Longrightarrow> pdpt_of s q j = Some f \<Longrightarrow> i = j \<and> (p = q \<or> 256 \<le> i)"
    and "\<And>f f' i j g. f \<in> pdpts s \<Longrightarrow> f' \<in> pdpts s \<Longrightarrow> i < 512 \<Longrightarrow> j < 512 \<Longrightarrow>
        pd_in s f i = Some g \<Longrightarrow> pd_in s f' j = Some g \<Longrightarrow> f = f' \<and> i = j"
  shows "tables_ok s"
  unfolding tables_ok_def using assms by blast

lemma tables_okD:
  assumes "tables_ok s"
  shows "p \<in> set (pml4_table_list s) \<Longrightarrow> i < 512 \<Longrightarrow> table_word (pml4_entry s p i)"
    and "f \<in> pdpts s \<Longrightarrow> i < 512 \<Longrightarrow> table_word (frames s f i)"
    and "g \<in> pds s \<Longrightarrow> i < 512 \<Longrightarrow> leaf_word (frames s g i)"
    and "pdpts s \<inter> pds s = {}" and "(pdpts s \<union> pds s) \<inter> fresh s = {}"
    and "p \<in> set (pml4_table_list s) \<Longrightarrow> q \<in> set (pml4_table_list s) \<Longrightarrow> i < 512 \<Longrightarrow> j < 512 \<Longrightarrow>
        pdpt_of s p i = Some f \<Longrightarrow> pdpt_of s q j = Some f \<Longrightarrow> i = j \<and> (p = q \<or> 256 \<le> i)"
    and "f \<in> pdpts s \<Longrightarrow> f' \<in> pdpts s \<Longrightarrow> i < 512 \<Longrightarrow> j < 512 \<Longrightarrow>
        pd_in s f i = Some g \<Longrightarrow> pd_in s f' j = Some g \<Longrightarrow> f = f' \<and> i = j"
  using assms unfolding tables_ok_def by blast+

lemma pdptsI: "p \<in> set (pml4_table_list s) \<Longrightarrow> i < 512 \<Longrightarrow> pdpt_of s p i = Some f \<Longrightarrow> f \<in> pdpts s"
  by (auto simp: pdpts_def)

lemma pdsI: "f \<in> pdpts s \<Longrightarrow> i < 512 \<Longrightarrow> pd_in s f i = Some g \<Longrightarrow> g \<in> pds s"
  by (auto simp: pds_def)

lemma procs_ok_data:
  assumes "procs_ok s" "p \<in> set (pml4_table_list s)"
  obtains d where "proc_x64 s p = Some d" "pml4_virt_addr d \<noteq> 0"
  using assms by (auto simp: procs_ok_def)

lemma procs_ok_shared:
  assumes "procs_ok s" "p \<in> set (pml4_table_list s)" "q \<in> set (pml4_table_list s)" "256 \<le> i"
  shows "pml4_entry s p i = pml4_entry s q i"
  using assms unfolding procs_ok_def by blast

lemma procs_ok_cong:
  assumes ok: "procs_ok s" and eq: "proc_x64 s' = proc_x64 s" "pml4_table_list s' = pml4_table_list s"
    "working_entry s' = working_entry s" "valid_phys_bit_mask s' = valid_phys_bit_mask s"
    and e: "\<And>p i. p \<in> set (pml4_table_list s) \<Longrightarrow> 256 \<le> i \<Longrightarrow> pml4_entry s' p i = pml4_entry s p i"
  shows "procs_ok s'"
proof -
  have "\<forall>p \<in> set (pml4_table_list s). \<forall>q \<in> set (pml4_table_list s). \<forall>i. 256 \<le> i \<longrightarrow> pml4_entry s' p i = pml4_entry s' q i"
    using e procs_ok_shared [OF ok] by metis
  with ok show ?thesis unfolding procs_ok_def eq by blast
qed

lemma procs_ok_inj:
  assumes "procs_ok s" "p \<in> set (pml4_table_list s)" "q \<in> set (pml4_table_list s)"
    and "proc_x64 s p = Some d" "proc_x64 s q = Some e" "pml4_virt_addr d = pml4_virt_addr e"
  shows "p = q"
proof -
  have "map_option pml4_virt_addr (proc_x64 s p) = map_option pml4_virt_addr (proc_x64 s q)" using assms(4-6) by simp
  with assms(1-3) show ?thesis unfolding procs_ok_def by blast
qed

definition valid_ix :: "page_ix \<Rightarrow> bool" where
  "valid_ix ix \<longleftrightarrow> (case ix of (a, b, c) \<Rightarrow> a < 512 \<and> b < 512 \<and> c < 512)"

text \<open>PML4 entries are never taken away or changed by mapping and unmapping.\<close>

definition pdpts_kept :: "pt_state \<Rightarrow> pt_state \<Rightarrow> bool" where
  "pdpts_kept s s' \<longleftrightarrow> (\<forall>q \<in> set (pml4_table_list s). \<forall>i f. pdpt_of s q i = Some f \<longrightarrow> pdpt_of s' q i = Some f)"

lemma pdpts_kept_trans: "pdpts_kept a b \<Longrightarrow> pml4_table_list b = pml4_table_list a \<Longrightarrow> pdpts_kept b c \<Longrightarrow> pdpts_kept a c"
  by (simp add: pdpts_kept_def)

lemma add_pdpt:
  assumes ok: "pt_ok s" and p: "p \<in> set (pml4_table_list s)" and i: "i < 256" "pdpt_of s p i = None"
    and f: "f \<in> fresh s" and s0: "carve_only s s0" "carve_ok s0" "fresh s0 = fresh s - {f}"
    and w: "PT_MARKED_PRESENT w" "w AND 0x80 = 0" "pte_target w = f" and d: "proc_x64 s p = Some d"
    and s1: "s1 = s0\<lparr>pml4_mem := (pml4_mem s0)(pml4_virt_addr d := (pml4_mem s0 (pml4_virt_addr d))(i := w))\<rparr>"
  shows "pt_ok s1" "pdpt_of s1 p i = Some f" "fresh s1 = fresh s - {f}" "pdpts_kept s s1"
    "q \<in> set (pml4_table_list s) \<Longrightarrow> valid_ix ix \<Longrightarrow> leaf_of s1 q ix = leaf_of s q ix"
proof -
  have t: "tables_ok s" and c: "carve_ok s" and pr: "procs_ok s" using ok by (auto simp: pt_ok_def)
  have eq: "frames s1 = frames s" "pml4_table_list s1 = pml4_table_list s" "proc_x64 s1 = proc_x64 s"
    "working_entry s1 = working_entry s" "valid_phys_bit_mask s1 = valid_phys_bit_mask s"
    using s0(1) s1 by (auto simp: carve_only_def)
  show fr: "fresh s1 = fresh s - {f}" using s0(3) s1 by (simp add: fresh_def)
  have e: "pml4_entry s1 q j = (if q = p \<and> j = i then w else pml4_entry s q j)" if "q \<in> set (pml4_table_list s)" for q j
  proof -
    note q = that
    obtain dq where dq: "proc_x64 s q = Some dq" using procs_ok_data [OF pr q] .
    have "pml4_virt_addr dq = pml4_virt_addr d \<longleftrightarrow> q = p" using procs_ok_inj [OF pr q p dq d] d dq by auto
    moreover have "pml4_mem s1 a k = (if a = pml4_virt_addr d \<and> k = i then w else pml4_mem s a k)" for a k
      using s0(1) by (auto simp: carve_only_def s1)
    ultimately show ?thesis using dq d by (auto simp: pml4_entry_def eq(3))
  qed
  then have po: "pdpt_of s1 q j = (if q = p \<and> j = i then Some f else pdpt_of s q j)" if "q \<in> set (pml4_table_list s)" for q j
    using that w by (auto simp: pdpt_of_def)
  show "pdpt_of s1 p i = Some f" using po p by simp
  show "pdpts_kept s s1" using po i(2) by (auto simp: pdpts_kept_def)
  have pd: "pd_in s1 = pd_in s" using eq by (intro ext) (simp add: pd_in_def)
  have z: "pd_in s f j = None" "frames s f j = 0" if "j < 512" for j using c f that by (auto simp: carve_ok_def pd_in_None)
  have ps: "pdpts s1 = insert f (pdpts s)"
  proof (intro set_eqI iffI)
    fix g assume "g \<in> insert f (pdpts s)"
    then consider "g = f" | q j where "q \<in> set (pml4_table_list s)" "j < 512" "pdpt_of s q j = Some g"
      by (auto simp: pdpts_def)
    then show "g \<in> pdpts s1"
    proof cases
      case 1
      then show ?thesis using pdptsI [of p s1 i f] po p i by (simp add: eq)
    next
      case 2
      then have "\<not> (q = p \<and> j = i)" using i(2) by auto
      then show ?thesis using pdptsI [of q s1 j g] po 2 by (auto simp: eq)
    qed
  qed (auto simp: pdpts_def eq(2) po split: if_splits)
  have qs: "pds s1 = pds s" using z by (auto simp: pds_def ps pd)
  have nf: "f \<notin> pdpts s" "f \<notin> pds s" using tables_okD(5) [OF t] f by auto
  have "tables_ok s1"
  proof (rule tables_okI)
    show "pdpts s1 \<inter> pds s1 = {}" using tables_okD(4) [OF t] nf by (auto simp: ps qs)
    show "(pdpts s1 \<union> pds s1) \<inter> fresh s1 = {}" using tables_okD(5) [OF t] by (auto simp: ps qs fr)
    show "table_word (pml4_entry s1 p' j)" if "p' \<in> set (pml4_table_list s1)" "j < 512" for p' j
      using tables_okD(1) [OF t] that w(2) by (auto simp: e eq table_word_def)
    show "table_word (frames s1 g j)" if "g \<in> pdpts s1" "j < 512" for g j
      using tables_okD(2) [OF t] that z by (auto simp: ps eq table_word_def)
    show "leaf_word (frames s1 g j)" if "g \<in> pds s1" "j < 512" for g j
      using tables_okD(3) [OF t] that by (simp add: qs eq)
    show "j = k \<and> (p' = q \<or> 256 \<le> j)"
      if "p' \<in> set (pml4_table_list s1)" "q \<in> set (pml4_table_list s1)" "j < 512" "k < 512"
        "pdpt_of s1 p' j = Some g" "pdpt_of s1 q k = Some g" for p' q j k g
      using that nf tables_okD(6) [OF t, of p' q j k g] by (auto simp: po eq split: if_splits intro: pdptsI)
    show "g = g' \<and> j = k"
      if "g \<in> pdpts s1" "g' \<in> pdpts s1" "j < 512" "k < 512" "pd_in s1 g j = Some h" "pd_in s1 g' k = Some h" for g g' j k h
      using that z tables_okD(7) [OF t, of g g' j k h] by (auto simp: ps pd)
  qed
  moreover have "carve_ok s1"
    using s0(2) s1 by (simp add: carve_ok_def fresh_def)
  moreover have "procs_ok s1"
    using i(1) by (intro procs_ok_cong [OF pr]) (simp_all add: eq e)
  ultimately show "pt_ok s1" by (simp add: pt_ok_def)
  show "leaf_of s1 q ix = leaf_of s q ix" if "q \<in> set (pml4_table_list s)" "valid_ix ix"
    using that z i(2) by (cases ix) (auto simp: leaf_of_def po pd eq valid_ix_def split: option.splits)
qed

lemma add_pd:
  assumes ok: "pt_ok s" and f3: "f3 \<in> pdpts s" and i: "i < 512" "pd_in s f3 i = None"
    and f: "f \<in> fresh s" and s0: "carve_only s s0" "carve_ok s0" "fresh s0 = fresh s - {f}"
    and w: "PT_MARKED_PRESENT w" "w AND 0x80 = 0" "pte_target w = f"
    and s1: "s1 = set_word f3 i w s0"
  shows "pt_ok s1" "pd_in s1 f3 i = Some f" "pdpt_of s1 = pdpt_of s" "fresh s1 = fresh s - {f}" "pdpts s1 = pdpts s"
    "q \<in> set (pml4_table_list s) \<Longrightarrow> valid_ix ix \<Longrightarrow> leaf_of s1 q ix = leaf_of s q ix"
proof -
  have t: "tables_ok s" and c: "carve_ok s" and pr: "procs_ok s" using ok by (auto simp: pt_ok_def)
  have eq: "pml4_mem s1 = pml4_mem s" "pml4_table_list s1 = pml4_table_list s" "proc_x64 s1 = proc_x64 s"
    "working_entry s1 = working_entry s" "valid_phys_bit_mask s1 = valid_phys_bit_mask s"
    using s0(1) s1 by (auto simp: carve_only_def set_word_def)
  have fm: "frames s1 g j = (if g = f3 \<and> j = i then w else frames s g j)" for g j
    using s0(1) s1 by (auto simp: carve_only_def set_word_def)
  show fr: "fresh s1 = fresh s - {f}" using s0(3) s1 by (simp add: fresh_def set_word_def)
  have e: "pml4_entry s1 = pml4_entry s" using eq by (intro ext) (simp add: pml4_entry_def split: option.split)
  then show po: "pdpt_of s1 = pdpt_of s" by (intro ext) (simp add: pdpt_of_def)
  then show ps: "pdpts s1 = pdpts s" by (simp add: pdpts_def eq)
  have pd: "pd_in s1 g j = (if g = f3 \<and> j = i then Some f else pd_in s g j)" for g j
    using w by (simp add: pd_in_def fm)
  then show "pd_in s1 f3 i = Some f" by simp
  have z: "frames s f j = 0" if "j < 512" for j using c f that by (auto simp: carve_ok_def)
  have qs: "pds s1 = insert f (pds s)"
  proof (intro set_eqI iffI)
    fix g assume "g \<in> insert f (pds s)"
    then consider "g = f" | h j where "h \<in> pdpts s" "j < 512" "pd_in s h j = Some g"
      by (auto simp: pds_def)
    then show "g \<in> pds s1"
    proof cases
      case 1
      then show ?thesis using pdsI [of f3 s1 i f] pd f3 i by (simp add: ps)
    next
      case 2
      then have "\<not> (h = f3 \<and> j = i)" using i(2) by auto
      then show ?thesis using pdsI [of h s1 j g] pd 2 by (auto simp: ps)
    qed
  qed (auto simp: pds_def ps pd split: if_splits)
  have nf: "f \<notin> pdpts s" "f \<notin> pds s" "f3 \<notin> pds s" "f3 \<notin> fresh s" "f \<noteq> f3"
    using tables_okD(4,5) [OF t] f f3 by auto
  have "tables_ok s1"
  proof (rule tables_okI)
    show "pdpts s1 \<inter> pds s1 = {}" using tables_okD(4) [OF t] nf by (auto simp: ps qs)
    show "(pdpts s1 \<union> pds s1) \<inter> fresh s1 = {}" using tables_okD(5) [OF t] by (auto simp: ps qs fr)
    show "table_word (pml4_entry s1 p' j)" if "p' \<in> set (pml4_table_list s1)" "j < 512" for p' j
      using tables_okD(1) [OF t] that by (auto simp: e eq)
    show "table_word (frames s1 g j)" if "g \<in> pdpts s1" "j < 512" for g j
      using tables_okD(2) [OF t] that w(2) by (auto simp: ps fm table_word_def)
    show "leaf_word (frames s1 g j)" if "g \<in> pds s1" "j < 512" for g j
      using tables_okD(3) [OF t] that z nf by (auto simp: qs fm leaf_word_def)
    show "j = k \<and> (p' = q \<or> 256 \<le> j)"
      if "p' \<in> set (pml4_table_list s1)" "q \<in> set (pml4_table_list s1)" "j < 512" "k < 512"
        "pdpt_of s1 p' j = Some g" "pdpt_of s1 q k = Some g" for p' q j k g
      using that tables_okD(6) [OF t, of p' q j k g] by (auto simp: po eq)
    show "g = g' \<and> j = k"
      if "g \<in> pdpts s1" "g' \<in> pdpts s1" "j < 512" "k < 512" "pd_in s1 g j = Some h" "pd_in s1 g' k = Some h" for g g' j k h
      using that nf tables_okD(7) [OF t, of g g' j k h] by (auto simp: ps pd split: if_splits intro: pdsI)
  qed
  moreover have "carve_ok s1"
    unfolding s1 using nf(4) s0(3) by (intro carve_ok_set_word [OF s0(2)]) simp
  moreover have "procs_ok s1" by (intro procs_ok_cong [OF pr]) (simp_all add: eq e)
  ultimately show "pt_ok s1" by (simp add: pt_ok_def)
  show "leaf_of s1 q ix = leaf_of s q ix" if q: "q \<in> set (pml4_table_list s)" "valid_ix ix"
  proof -
    obtain a b c where x: "ix = (a, b, c)" "a < 512" "b < 512" "c < 512" using q(2) by (cases ix) (auto simp: valid_ix_def)
    have "(case pd_in s1 g b of None \<Rightarrow> 0 | Some h \<Rightarrow> frames s1 h c) = (case pd_in s g b of None \<Rightarrow> 0 | Some h \<Rightarrow> frames s h c)"
      if "pdpt_of s q a = Some g" for g
    proof (cases "g = f3 \<and> b = i")
      case True
      then show ?thesis using i(2) z [OF x(4)] nf(5) by (simp add: pd fm)
    next
      case False
      have "h \<noteq> f3" if "pd_in s g b = Some h" for h
        using pdsI [OF pdptsI [OF q(1) x(2) \<open>pdpt_of s q a = Some g\<close>] x(3) that] nf(3) by auto
      then show ?thesis using False by (auto simp: pd fm split: option.split)
    qed
    then show ?thesis by (simp add: x(1) leaf_of_def po split: option.split)
  qed
qed

definition same_slot :: "nat \<Rightarrow> nat \<Rightarrow> page_ix \<Rightarrow> page_ix \<Rightarrow> bool" where
  "same_slot p q ix jx \<longleftrightarrow> ix = jx \<and> (p = q \<or> 256 \<le> fst ix)"

lemma set_leaf:
  assumes ok: "pt_ok s" and p: "p \<in> set (pml4_table_list s)" and ix: "valid_ix (i4, i3, i2)"
    and f3: "pdpt_of s p i4 = Some f3" and f2: "pd_in s f3 i3 = Some f2" and w: "leaf_word w"
    and s1: "s1 = set_word f2 i2 w s"
  shows "pt_ok s1" "fresh s1 = fresh s" "pdpt_of s1 = pdpt_of s"
    "q \<in> set (pml4_table_list s) \<Longrightarrow> valid_ix jx \<Longrightarrow>
      leaf_of s1 q jx = (if same_slot p q (i4, i3, i2) jx then w else leaf_of s q jx)"
proof -
  have t: "tables_ok s" and c: "carve_ok s" and pr: "procs_ok s" using ok by (auto simp: pt_ok_def)
  have i: "i4 < 512" "i3 < 512" "i2 < 512" using ix by (auto simp: valid_ix_def)
  have f3s: "f3 \<in> pdpts s" and f2s: "f2 \<in> pds s" using pdptsI [OF p i(1) f3] pdsI [OF _ i(2) f2] by auto
  have nf: "f2 \<notin> pdpts s" "f2 \<notin> fresh s" using tables_okD(4,5) [OF t] f2s by auto
  have fm: "frames s1 g j = (if g = f2 \<and> j = i2 then w else frames s g j)" for g j
    by (simp add: s1 set_word_def)
  have eq: "pml4_table_list s1 = pml4_table_list s" by (simp add: s1 set_word_def)
  have e: "pml4_entry s1 = pml4_entry s" by (intro ext) (simp add: s1 set_word_def pml4_entry_def split: option.split)
  then show po: "pdpt_of s1 = pdpt_of s" by (intro ext) (simp add: pdpt_of_def)
  then have ps: "pdpts s1 = pdpts s" by (simp add: pdpts_def eq)
  have pd: "pd_in s1 g j = pd_in s g j" if "g \<in> pdpts s" for g j using that nf by (auto simp: pd_in_def fm)
  have qs: "pds s1 = pds s" by (auto simp: pds_def ps pd)
  show fr: "fresh s1 = fresh s" by (simp add: fresh_def s1 set_word_def)
  have "tables_ok s1"
  proof (rule tables_okI)
    show "pdpts s1 \<inter> pds s1 = {}" "(pdpts s1 \<union> pds s1) \<inter> fresh s1 = {}"
      using tables_okD(4,5) [OF t] by (simp_all add: ps qs fr)
    show "table_word (pml4_entry s1 p' j)" if "p' \<in> set (pml4_table_list s1)" "j < 512" for p' j
      using tables_okD(1) [OF t] that by (simp add: e eq)
    show "table_word (frames s1 g j)" if "g \<in> pdpts s1" "j < 512" for g j
      using tables_okD(2) [OF t] that nf by (auto simp: ps fm)
    show "leaf_word (frames s1 g j)" if "g \<in> pds s1" "j < 512" for g j
      using tables_okD(3) [OF t] that w by (auto simp: qs fm)
    show "j = k \<and> (p' = q \<or> 256 \<le> j)"
      if "p' \<in> set (pml4_table_list s1)" "q \<in> set (pml4_table_list s1)" "j < 512" "k < 512"
        "pdpt_of s1 p' j = Some g" "pdpt_of s1 q k = Some g" for p' q j k g
      using that tables_okD(6) [OF t, of p' q j k g] by (auto simp: po eq)
    show "g = g' \<and> j = k"
      if "g \<in> pdpts s1" "g' \<in> pdpts s1" "j < 512" "k < 512" "pd_in s1 g j = Some h" "pd_in s1 g' k = Some h" for g g' j k h
      using that tables_okD(7) [OF t, of g g' j k h] by (simp add: ps pd)
  qed
  moreover have "carve_ok s1" unfolding s1 by (rule carve_ok_set_word [OF c nf(2)])
  moreover have "procs_ok s1" by (intro procs_ok_cong [OF pr]) (simp_all add: e, simp_all add: s1 set_word_def)
  ultimately show "pt_ok s1" by (simp add: pt_ok_def)
  show "leaf_of s1 q jx = (if same_slot p q (i4, i3, i2) jx then w else leaf_of s q jx)"
    if q: "q \<in> set (pml4_table_list s)" and v: "valid_ix jx"
  proof -
    obtain a b c where x: "jx = (a, b, c)" "a < 512" "b < 512" "c < 512" using v by (cases jx) (auto simp: valid_ix_def)
    show ?thesis
    proof (cases "same_slot p q (i4, i3, i2) jx")
      case True
      then have "pml4_entry s q a = pml4_entry s p a" "a = i4" "b = i3" "c = i2"
        using procs_ok_shared [OF pr q p] x by (auto simp: same_slot_def)
      then have "pdpt_of s q a = Some f3" using f3 by (simp add: pdpt_of_def split: if_splits)
      then show ?thesis using True f2 f3s \<open>b = i3\<close> \<open>c = i2\<close> by (simp add: leaf_of_def x(1) po pd fm)
    next
      case False
      have "frames s1 h c = frames s h c" if g: "pdpt_of s q a = Some g" and h: "pd_in s g b = Some h" for g h
      proof (cases "h = f2 \<and> c = i2")
        case True
        have "g = f3 \<and> b = i3" using tables_okD(7) [OF t pdptsI [OF q x(2) g] f3s x(3) i(2), of f2] h f2 True by simp
        then have "a = i4 \<and> (q = p \<or> 256 \<le> a)" using tables_okD(6) [OF t q p x(2) i(1), of f3] g f3 by auto
        with False True \<open>g = f3 \<and> b = i3\<close> x(1) show ?thesis by (auto simp: same_slot_def)
      qed (auto simp: fm)
      then have "leaf_of s1 q jx = leaf_of s q jx"
        using pd pdptsI [OF q x(2)] by (auto simp: leaf_of_def x(1) po split: option.split)
      with False show ?thesis by simp
    qed
  qed
qed

subsection \<open>Mapping a page\<close>

lemma encode_table_entry:
  assumes "pte_target f = f"
  obtains w where "mem_encode_page_table_entry (table_entry f k) = Some w" "PT_MARKED_PRESENT w" "w AND 0x80 = 0" "pte_target w = f"
proof -
  have "pte_representable (table_entry f k)" using assms by (simp add: pte_representable_def table_entry_def pte_target_def)
  from pte_encode_decode [OF this] obtain w where w: "mem_encode_page_table_entry (table_entry f k) = Some w"
    "mem_decode_page_table_entry w = Some (table_entry f k)" "w AND 1 \<noteq> 0" by (auto simp: table_entry_def cache_defs)
  have z: "w AND 0x80 = 0" using w(2) by (auto simp: mem_decode_page_table_entry_def table_entry_def Let_def)
  moreover have "pte_target w = f"
    using w(2) phys_addr_from_table_word [OF z] by (simp add: mem_x64_phys_addr_from_pte_def table_entry_def)
  ultimately show thesis using that w(1,3) by (simp add: PT_MARKED_PRESENT_def)
qed

definition encodable :: "u64 \<Rightarrow> u8 \<Rightarrow> bool" where
  "encodable a c \<longleftrightarrow> c \<in> {UNCACHEABLE, WRITE_COMBINING, WRITE_THROUGH, WRITE_BACK} \<and> a AND 0xFF000 = 0"

lemma encode_page_entry:
  assumes "encodable a c"
  obtains w where "mem_encode_page_table_entry (page_entry a k c) = Some w" "leaf_word w" "PT_MARKED_PRESENT w"
proof -
  let ?w = "(a AND 0x0007FFFFFFFFF000) OR flag_bits (page_entry a k c)"
  have a: "a AND 0xFF000 = 0" using assms by (simp add: encodable_def)
  have "a AND 0x1000 = (a AND 0xFF000) AND 0x1000" by (simp add: and.assoc)
  then have z: "a AND 0x1000 = 0" using a by simp
  have w: "mem_encode_page_table_entry (page_entry a k c) = Some ?w"
    using mem_encode_encodable [of "page_entry a k c"] assms by (simp add: encodable_def page_entry_def)
  have "?w AND 1 = 1" "?w AND 0x80 = 0x80" "?w AND 0x1000 = 0"
    by (simp_all add: bit.conj_disj_distrib2 flag_bits_def page_entry_def pat_bits_def and.assoc z)
  then show thesis using that w by (simp add: leaf_word_def PT_MARKED_PRESENT_def)
qed

lemma encode_page_entry_None: "\<not> encodable a c \<Longrightarrow> mem_encode_page_table_entry (page_entry a k c) = None"
  using mem_encode_unencodable [of "page_entry a k c"]
  by (cases "c \<in> {UNCACHEABLE, WRITE_COMBINING, WRITE_THROUGH, WRITE_BACK}")
    (auto simp: encodable_def page_entry_def mem_encode_page_table_entry_def mem_x64_pat_get_val_def Let_def)

definition the_process :: "nat option \<Rightarrow> nat option \<Rightarrow> nat" where
  "the_process cur context = (case context of Some p \<Rightarrow> p | None \<Rightarrow> (case cur of Some p \<Rightarrow> p | None \<Rightarrow> 0))"

lemma get_pml4_table:
  assumes "procs_ok s" "p \<in> set (pml4_table_list s)" "the_process cur context = p"
  obtains d where "get_pml4_table_addr cur context s = Some (pml4_virt_addr d)" "proc_x64 s p = Some d"
    "pml4_mem s (pml4_virt_addr d) = pml4_entry s p"
proof -
  obtain d where d: "proc_x64 s p = Some d" "pml4_virt_addr d \<noteq> 0" using procs_ok_data [OF assms(1,2)] .
  then have "get_pml4_table_addr cur context s = Some (pml4_virt_addr d)"
    using assms(3) by (simp add: get_pml4_table_addr_def the_process_def)
  then show thesis using that d(1) by (simp add: pml4_entry_def fun_eq_iff)
qed

definition tables_needed :: "pt_state \<Rightarrow> nat \<Rightarrow> u64 \<Rightarrow> nat" where
  "tables_needed s p v = (case pdpt_of s p (pml4_entry_idx v) of None \<Rightarrow> 2
     | Some f3 \<Rightarrow> if pd_in s f3 (page_dir_ptr_entry_idx v) = None then 1 else 0)"

lemma idx_less [simp]: "pml4_entry_idx v < 512" "page_dir_ptr_entry_idx v < 512" "page_dir_entry_idx v < 512"
proof -
  have "unat (w AND 0x1FF :: u64) < 512" for w
  proof -
    have "w AND 0x1FF \<le> 0x1FF" by (rule word_and_le1)
    then show ?thesis by (simp add: word_le_nat_alt)
  qed
  then show "pml4_entry_idx v < 512" "page_dir_ptr_entry_idx v < 512" "page_dir_entry_idx v < 512"
    by (simp_all only: pml4_entry_idx_def page_dir_ptr_entry_idx_def page_dir_entry_idx_def)
qed

lemma valid_page_ix [simp]: "valid_ix (page_ix v)"
  by (simp add: valid_ix_def page_ix_def)

text \<open>What a step towards a mapping keeps: the invariant and the translation of every page.\<close>

definition keeps_leaves :: "pt_state \<Rightarrow> pt_state \<Rightarrow> bool" where
  "keeps_leaves s s' \<longleftrightarrow> pt_ok s' \<and> pml4_table_list s' = pml4_table_list s \<and> valid_phys_bit_mask s' = valid_phys_bit_mask s \<and>
     proc_x64 s' = proc_x64 s \<and> known_pml4s s' = known_pml4s s \<and> pdpts_kept s s' \<and>
     pool_shrinks (pm s) (pm s') \<and> (\<forall>q \<in> set (pml4_table_list s). \<forall>ix. valid_ix ix \<longrightarrow> leaf_of s' q ix = leaf_of s q ix)"

lemma keeps_leavesD:
  assumes "keeps_leaves s s'" "q \<in> set (pml4_table_list s)" "valid_ix ix"
  shows "leaf_of s' q ix = leaf_of s q ix"
  using assms unfolding keeps_leaves_def by blast

lemma keeps_leaves_trans: "keeps_leaves a b \<Longrightarrow> keeps_leaves b c \<Longrightarrow> keeps_leaves a c"
  by (auto simp: keeps_leaves_def elim: pdpts_kept_trans intro: pool_shrinks_trans)

lemma keeps_leaves_same: "pt_ok s \<Longrightarrow> same_tables s s' \<Longrightarrow> keeps_leaves s s'"
  by (simp add: keeps_leaves_def pdpts_kept_def same_tables_ok same_tables_walk) (simp add: same_tables_def)

lemma table_entry_read:
  assumes "pt_ok s" "p \<in> set (pml4_table_list s)" "pdpt_of s p i = Some f" "i < 512"
  shows "mem_x64_phys_addr_from_pte (pml4_entry s p i) = Some f" "PT_MARKED_PRESENT (pml4_entry s p i)" "pte_target f = f" "f \<in> pdpts s"
proof -
  have "table_word (pml4_entry s p i)" using assms tables_okD(1) by (simp add: pt_ok_def)
  then show "mem_x64_phys_addr_from_pte (pml4_entry s p i) = Some f" "PT_MARKED_PRESENT (pml4_entry s p i)" "pte_target f = f"
    using assms(3) by (auto simp: pdpt_of_def table_word_def phys_addr_from_table_word split: if_splits)
  show "f \<in> pdpts s" by (rule pdptsI [OF assms(2,4,3)])
qed

lemma pd_entry_read:
  assumes "pt_ok s" "f \<in> pdpts s" "pd_in s f i = Some g" "i < 512"
  shows "mem_x64_phys_addr_from_pte (frames s f i) = Some g" "PT_MARKED_PRESENT (frames s f i)" "pte_target g = g" "g \<in> pds s"
proof -
  have "table_word (frames s f i)" using assms tables_okD(2) by (simp add: pt_ok_def)
  then show "mem_x64_phys_addr_from_pte (frames s f i) = Some g" "PT_MARKED_PRESENT (frames s f i)" "pte_target g = g"
    using assms(3) by (auto simp: pd_in_def table_word_def phys_addr_from_table_word split: if_splits)
  show "g \<in> pds s" by (rule pdsI [OF assms(2,4,3)])
qed

lemma map_pml4_present:
  assumes "pt_ok s" "p \<in> set (pml4_table_list s)" "pdpt_of s p (pml4_entry_idx v) = Some f"
    "pml4_mem s a = pml4_entry s p"
  shows "map_pml4_step a v s = Some (f, s)"
  using table_entry_read [OF assms(1-3)] assms(4) by (simp add: map_pml4_step_def Let_def)

lemma map_pml4_absent:
  assumes ok: "pt_ok s" and p: "p \<in> set (pml4_table_list s)" and no: "pdpt_of s p (pml4_entry_idx v) = None"
    and d: "proc_x64 s p = Some d" and can: "is_kernel_allocation v \<longleftrightarrow> 256 \<le> pml4_entry_idx v"
  shows "if is_kernel_allocation v \<or> fresh s = {} then map_pml4_step (pml4_virt_addr d) v s = None
    else \<exists>f s'. map_pml4_step (pml4_virt_addr d) v s = Some (f, s') \<and> f \<in> pdpts s' \<and> pte_target f = f \<and>
       pdpt_of s' p (pml4_entry_idx v) = Some f \<and> (\<forall>i < 512. pd_in s' f i = None) \<and>
       card (fresh s') = card (fresh s) - 1 \<and> keeps_leaves s s'"
proof -
  let ?i = "pml4_entry_idx v" and ?a = "pml4_virt_addr d"
  have c: "carve_ok s" using ok by (simp add: pt_ok_def)
  have np: "\<not> PT_MARKED_PRESENT (pml4_mem s ?a ?i)" using no d by (auto simp: pdpt_of_def pml4_entry_def split: if_splits)
  show ?thesis
  proof (cases "fresh s = {}")
    case True
    then show ?thesis using np next_4kb [OF c] by (simp add: map_pml4_step_def)
  next
    case False
    then obtain f s0 where f: "mem_get_next_4kb_page s = Some (f, s0)" "f \<in> fresh s"
      and s0: "carve_only s s0" "carve_ok s0" "fresh s0 = fresh s - {f}" using next_4kb [OF c] by auto
    have ft: "pte_target f = f" by (rule fresh_target [OF c f(2)])
    obtain w where w: "mem_encode_page_table_entry (table_entry f (is_kernel_allocation v)) = Some w"
      "PT_MARKED_PRESENT w" "w AND 0x80 = 0" "pte_target w = f" using encode_table_entry [OF ft] .
    show ?thesis
    proof (cases "is_kernel_allocation v")
      case True
      have "\<not> 2048 \<le> ?i" using idx_less(1) [of v] by linarith
      then show ?thesis using True np f(1) w(1) by (simp add: map_pml4_step_def)
    next
      case user: False
      let ?s1 = "s0\<lparr>pml4_mem := (pml4_mem s0)(?a := (pml4_mem s0 ?a)(?i := w))\<rparr>"
      have i: "?i < 256" using can user by simp
      note ad = add_pdpt [OF ok p i no f(2) s0 w(2-4) d refl]
      have r: "map_pml4_step ?a v s = Some (f, ?s1)" using user np f(1) w(1) by (simp add: map_pml4_step_def)
      have eq: "pml4_table_list ?s1 = pml4_table_list s" "valid_phys_bit_mask ?s1 = valid_phys_bit_mask s"
        "proc_x64 ?s1 = proc_x64 s" "frames ?s1 = frames s" "known_pml4s ?s1 = known_pml4s s" "pool_shrinks (pm s) (pm ?s1)"
        using s0(1) by (auto simp: carve_only_def)
      have "f \<in> pdpts ?s1" using pdptsI [OF _ _ ad(2)] p by (simp add: eq)
      moreover have "\<forall>j < 512. pd_in ?s1 f j = None" using c f(2) by (simp add: pd_in_None eq carve_ok_def)
      moreover have "card (fresh ?s1) = card (fresh s) - 1" using ad(3) f(2) by simp
      moreover have "keeps_leaves s ?s1" unfolding keeps_leaves_def using ad(1,4,5) eq by simp
      ultimately show ?thesis using r ad(2) user False ft by auto
    qed
  qed
qed

lemma map_pdpt_ok:
  assumes ok: "pt_ok s" and f3: "f3 \<in> pdpts s" and wf: "working_frame s = Some f3"
  shows "case pd_in s f3 (page_dir_ptr_entry_idx v) of
      Some g \<Rightarrow> map_pdpt_step v s = Some (g, s)
    | None \<Rightarrow> if fresh s = {} then map_pdpt_step v s = None
        else \<exists>g s'. map_pdpt_step v s = Some (g, s') \<and> pte_target g = g \<and> pd_in s' f3 (page_dir_ptr_entry_idx v) = Some g \<and>
          (\<forall>i < 512. frames s' g i = 0) \<and> pdpt_of s' = pdpt_of s \<and> card (fresh s') = card (fresh s) - 1 \<and> keeps_leaves s s'"
proof (cases "pd_in s f3 (page_dir_ptr_entry_idx v)")
  case (Some g)
  then show ?thesis using pd_entry_read [OF ok f3 Some] wf by (simp add: map_pdpt_step_def)
next
  case None
  let ?i = "page_dir_ptr_entry_idx v"
  have c: "carve_ok s" and t: "tables_ok s" using ok by (auto simp: pt_ok_def)
  have np: "\<not> PT_MARKED_PRESENT (frames s f3 ?i)" using None by (simp add: pd_in_None)
  show ?thesis
  proof (cases "fresh s = {}")
    case True
    then show ?thesis using None np next_4kb [OF c] wf by (simp add: map_pdpt_step_def)
  next
    case False
    then obtain f s0 where f: "mem_get_next_4kb_page s = Some (f, s0)" "f \<in> fresh s"
      and s0: "carve_only s s0" "carve_ok s0" "fresh s0 = fresh s - {f}" using next_4kb [OF c] by auto
    have ft: "pte_target f = f" by (rule fresh_target [OF c f(2)])
    obtain w where w: "mem_encode_page_table_entry (table_entry f (is_kernel_allocation v)) = Some w"
      "PT_MARKED_PRESENT w" "w AND 0x80 = 0" "pte_target w = f" using encode_table_entry [OF ft] .
    note ad = add_pd [OF ok f3 idx_less(2) None f(2) s0 w(2-4) refl]
    let ?s1 = "set_word f3 ?i w s0"
    have r: "map_pdpt_step v s = Some (f, ?s1)" using np f(1) w(1) wf by (simp add: map_pdpt_step_def)
    have eq: "pml4_table_list ?s1 = pml4_table_list s" "valid_phys_bit_mask ?s1 = valid_phys_bit_mask s"
        "proc_x64 ?s1 = proc_x64 s" "known_pml4s ?s1 = known_pml4s s" "pool_shrinks (pm s) (pm ?s1)" using s0(1) by (auto simp: carve_only_def set_word_def)
    have "f \<noteq> f3" using tables_okD(5) [OF t] f(2) f3 by auto
    then have "\<forall>i < 512. frames ?s1 f i = 0" using c f(2) s0(1) by (auto simp: set_word_def carve_ok_def carve_only_def)
    moreover have "card (fresh ?s1) = card (fresh s) - 1" using ad(4) f(2) by simp
    moreover have "keeps_leaves s ?s1" unfolding keeps_leaves_def pdpts_kept_def using ad(1,3,6) by (simp add: eq)
    ultimately show ?thesis using r ad(2,3) None False ft by auto
  qed
qed

text \<open>The result of changing the entry of one page: the processes that share the page see the new word, and nothing else changes.\<close>

definition sets_page :: "nat \<Rightarrow> u64 \<Rightarrow> u64 \<Rightarrow> pt_state \<Rightarrow> pt_state \<Rightarrow> bool" where
  "sets_page p v w s s' \<longleftrightarrow> pt_ok s' \<and> pml4_table_list s' = pml4_table_list s \<and> proc_x64 s' = proc_x64 s \<and>
     valid_phys_bit_mask s' = valid_phys_bit_mask s \<and> known_pml4s s' = known_pml4s s \<and> pdpts_kept s s' \<and>
     pool_shrinks (pm s) (pm s') \<and> (\<forall>q \<in> set (pml4_table_list s). \<forall>ix. valid_ix ix \<longrightarrow>
        leaf_of s' q ix = (if same_slot p q (page_ix v) ix then w else leaf_of s q ix))"

lemma sets_page_after: "keeps_leaves s s1 \<Longrightarrow> sets_page p v w s1 s' \<Longrightarrow> sets_page p v w s s'"
  by (auto simp: keeps_leaves_def sets_page_def elim: pdpts_kept_trans intro: pool_shrinks_trans)

lemma sets_page_leaf:
  assumes "pt_ok s" "p \<in> set (pml4_table_list s)" "pdpt_of s p (pml4_entry_idx v) = Some f3"
    "pd_in s f3 (page_dir_ptr_entry_idx v) = Some f2" "leaf_word w"
  shows "sets_page p v w s (set_word f2 (page_dir_entry_idx v) w s)"
proof -
  have "valid_ix (pml4_entry_idx v, page_dir_ptr_entry_idx v, page_dir_entry_idx v)" by (simp add: valid_ix_def)
  note set_leaf [OF assms(1,2) this assms(3-5) refl]
  then show ?thesis unfolding sets_page_def page_ix_def pdpts_kept_def by (simp add: set_word_def)
qed

lemma working_entry_ok: "pt_ok s \<Longrightarrow> working_entry s \<noteq> None"
  unfolding pt_ok_def procs_ok_def by blast

lemma map_page_ok:
  assumes ok: "pt_ok s" and p: "p \<in> set (pml4_table_list s)" and f3: "pdpt_of s p (pml4_entry_idx v) = Some f3"
    and f2: "pd_in s f3 (page_dir_ptr_entry_idx v) = Some f2"
  shows "if PT_MARKED_PRESENT (leaf_of s p (page_ix v)) \<or> \<not> encodable a c then map_page_step f2 v a c s = None
    else \<exists>s' w. map_page_step f2 v a c s = Some s' \<and> mem_encode_page_table_entry (page_entry a (is_kernel_allocation v) c) = Some w \<and>
       PT_MARKED_PRESENT w \<and> sets_page p v w s s' \<and> card (fresh s') = card (fresh s)"
proof -
  have f3s: "f3 \<in> pdpts s" by (rule pdptsI [OF p _ f3]) simp
  have f2t: "pte_target f2 = f2" by (rule pd_entry_read [OF ok f3s f2]) simp
  obtain s1 where s1: "mem_set_working_page_dir f2 s = Some s1" "same_tables s s1" "working_frame s1 = Some f2"
    using set_working [OF working_entry_ok [OF ok] f2t] .
  have lf: "leaf_of s p (page_ix v) = frames s1 f2 (page_dir_entry_idx v)"
    using s1(2) f2 f3 by (simp add: leaf_of_def page_ix_def same_tables_def)
  have ok1: "pt_ok s1" and p1: "p \<in> set (pml4_table_list s1)" "pdpt_of s1 p (pml4_entry_idx v) = Some f3"
    "pd_in s1 f3 (page_dir_ptr_entry_idx v) = Some f2" and k: "keeps_leaves s s1"
    using same_tables_ok [OF s1(2)] same_tables_walk [OF s1(2)] keeps_leaves_same [OF ok s1(2)] ok s1(2) p f3 f2
    by (auto simp: same_tables_def)
  show ?thesis
  proof (cases "PT_MARKED_PRESENT (leaf_of s p (page_ix v)) \<or> \<not> encodable a c")
    case True
    then show ?thesis
    proof
      assume "PT_MARKED_PRESENT (leaf_of s p (page_ix v))"
      then show ?thesis using s1 by (simp add: map_page_step_def lf)
    next
      assume ne: "\<not> encodable a c"
      then have "map_page_step f2 v a c s = None"
        using s1 by (simp add: map_page_step_def encode_page_entry_None assert_simps)
      with ne show ?thesis by simp
    qed
  next
    case False
    then obtain w where w: "mem_encode_page_table_entry (page_entry a (is_kernel_allocation v) c) = Some w" "leaf_word w"
      "PT_MARKED_PRESENT w" using encode_page_entry by blast
    have "map_page_step f2 v a c s = Some (set_word f2 (page_dir_entry_idx v) w s1)"
      using s1 False w(1) by (simp add: map_page_step_def lf)
    moreover have "sets_page p v w s (set_word f2 (page_dir_entry_idx v) w s1)"
      using sets_page_after [OF k sets_page_leaf [OF ok1 p1 w(2)]] .
    ultimately show ?thesis using w False same_tables_walk(5) [OF s1(2)] by auto
  qed
qed

definition map_below :: "u64 \<Rightarrow> u64 \<Rightarrow> u64 \<Rightarrow> u8 \<Rightarrow> pt_state \<Rightarrow> pt_state option" where
  "map_below f3 v a c s = do {
     s \<leftarrow> mem_set_working_page_dir f3 s;
     (f2, s) \<leftarrow> map_pdpt_step v s;
     map_page_step f2 v a c s
   }"

lemma map_below_ok:
  assumes ok: "pt_ok s" and p: "p \<in> set (pml4_table_list s)" and f3: "pdpt_of s p (pml4_entry_idx v) = Some f3"
  shows "if PT_MARKED_PRESENT (leaf_of s p (page_ix v)) \<or> \<not> encodable a c \<or> card (fresh s) < tables_needed s p v
    then map_below f3 v a c s = None
    else \<exists>s' w. map_below f3 v a c s = Some s' \<and> mem_encode_page_table_entry (page_entry a (is_kernel_allocation v) c) = Some w \<and>
       PT_MARKED_PRESENT w \<and> sets_page p v w s s' \<and> card (fresh s') = card (fresh s) - tables_needed s p v"
proof -
  let ?i = "page_dir_ptr_entry_idx v"
  have f3s: "f3 \<in> pdpts s" and f3t: "pte_target f3 = f3" using table_entry_read [OF ok p f3] by simp_all
  obtain s1 where s1: "mem_set_working_page_dir f3 s = Some s1" "same_tables s s1" "working_frame s1 = Some f3"
    using set_working [OF working_entry_ok [OF ok] f3t] .
  note same = same_tables_walk [OF s1(2)]
  have ok1: "pt_ok s1" and p1: "p \<in> set (pml4_table_list s1)" and f31: "pdpt_of s1 p (pml4_entry_idx v) = Some f3" "f3 \<in> pdpts s1"
    and k1: "keeps_leaves s s1"
    using same_tables_ok [OF s1(2)] same keeps_leaves_same [OF ok s1(2)] ok s1(2) p f3 f3s by (auto simp: same_tables_def)
  have lf: "leaf_of s2 p (page_ix v) = leaf_of s p (page_ix v)" if "keeps_leaves s s2" for s2
    by (rule keeps_leavesD [OF that p]) simp
  show ?thesis
  proof (cases "pd_in s f3 ?i")
    case (Some f2)
    then have r: "map_below f3 v a c s = map_page_step f2 v a c s1"
      using map_pdpt_ok [OF ok1 f31(2) s1(3), of v] s1(1) by (simp add: map_below_def same)
    have n: "tables_needed s p v = 0" using Some f3 by (simp add: tables_needed_def)
    show ?thesis
      using map_page_ok [OF ok1 p1 f31(1), of f2 a c] Some sets_page_after [OF k1] by (auto simp: r n same lf [OF k1])
  next
    case None
    have n: "tables_needed s p v = 1" using None f3 by (simp add: tables_needed_def)
    show ?thesis
    proof (cases "fresh s = {}")
      case True
      then show ?thesis using map_pdpt_ok [OF ok1 f31(2) s1(3), of v] None s1(1) by (simp add: map_below_def same n)
    next
      case False
      then obtain g s2 where g: "map_pdpt_step v s1 = Some (g, s2)" "pd_in s2 f3 ?i = Some g" "pdpt_of s2 = pdpt_of s1"
        "card (fresh s2) = card (fresh s) - 1" "keeps_leaves s1 s2"
        using map_pdpt_ok [OF ok1 f31(2) s1(3), of v] None by (auto simp: same)
      have k2: "keeps_leaves s s2" by (rule keeps_leaves_trans [OF k1 g(5)])
      have ok2: "pt_ok s2" "p \<in> set (pml4_table_list s2)" using g(5) p1 by (simp_all add: keeps_leaves_def)
      have r: "map_below f3 v a c s = map_page_step g v a c s2" using s1(1) g(1) by (simp add: map_below_def)
      have "\<not> card (fresh s) < 1" using False by (simp add: card_eq_0_iff)
      then show ?thesis
        using map_page_ok [OF ok2, of v f3 g a c] g f31(1) sets_page_after [OF k2] by (auto simp: r n lf [OF k2])
    qed
  qed
qed

definition mappable :: "nat \<Rightarrow> u64 \<Rightarrow> u64 \<Rightarrow> u8 \<Rightarrow> pt_state \<Rightarrow> bool" where
  "mappable p v a c s \<longleftrightarrow> \<not> PT_MARKED_PRESENT (leaf_of s p (page_ix v)) \<and> encodable (a AND valid_phys_bit_mask s) c \<and>
     tables_needed s p v \<le> card (fresh s) \<and> (is_kernel_allocation v \<longrightarrow> pdpt_of s p (pml4_entry_idx v) \<noteq> None)"

definition canonical :: "u64 \<Rightarrow> bool" where
  "canonical v \<longleftrightarrow> (let hi = drop_bit 47 v in hi = 0 \<or> hi = 0x1FFFF)"

lemma map_page_exact:
  assumes ok: "pt_ok s" and p: "p \<in> set (pml4_table_list s)" "the_process cur context = p"
    and can: "is_kernel_allocation v \<longleftrightarrow> 256 \<le> pml4_entry_idx v"
  shows "if mappable p v a c s
    then \<exists>s' w. mem_x64_map_virtual_page cur v a context c s = Some s' \<and>
       mem_encode_page_table_entry (page_entry (a AND valid_phys_bit_mask s) (is_kernel_allocation v) c) = Some w \<and>
       PT_MARKED_PRESENT w \<and> sets_page p v w s s' \<and> card (fresh s') = card (fresh s) - tables_needed s p v
    else mem_x64_map_virtual_page cur v a context c s = None"
proof -
  let ?i = "pml4_entry_idx v" and ?a = "a AND valid_phys_bit_mask s"
  have pr: "procs_ok s" using ok by (simp add: pt_ok_def)
  then have vm: "valid_phys_bit_mask s \<noteq> 0" unfolding procs_ok_def by blast
  obtain d where d: "get_pml4_table_addr cur context s = Some (pml4_virt_addr d)" "proc_x64 s p = Some d"
    "pml4_mem s (pml4_virt_addr d) = pml4_entry s p" using get_pml4_table [OF pr p] .
  have r: "mem_x64_map_virtual_page cur v a context c s =
      (map_pml4_step (pml4_virt_addr d) v s \<bind> (\<lambda>(f3, s). map_below f3 v ?a c s))"
    using d(1) vm by (simp add: mem_x64_map_virtual_page_def map_below_def)
  show ?thesis
  proof (cases "pdpt_of s p ?i")
    case (Some f3)
    have "map_pml4_step (pml4_virt_addr d) v s = Some (f3, s)" by (rule map_pml4_present [OF ok p(1) Some d(3)])
    then show ?thesis using map_below_ok [OF ok p(1) Some, of ?a c] by (auto simp: r mappable_def Some)
  next
    case None
    have n: "tables_needed s p v = 2" using None by (simp add: tables_needed_def)
    note st = map_pml4_absent [OF ok p(1) None d(2) can]
    show ?thesis
    proof (cases "is_kernel_allocation v \<or> fresh s = {}")
      case True
      then show ?thesis using st None by (auto simp: r mappable_def n)
    next
      case False
      then obtain f s1 where s1: "map_pml4_step (pml4_virt_addr d) v s = Some (f, s1)" "pdpt_of s1 p ?i = Some f"
        "pd_in s1 f (page_dir_ptr_entry_idx v) = None" "card (fresh s1) = card (fresh s) - 1" "keeps_leaves s s1"
        using st by auto
      have ok1: "pt_ok s1" "p \<in> set (pml4_table_list s1)" using s1(5) p(1) by (simp_all add: keeps_leaves_def)
      have lf: "leaf_of s1 p (page_ix v) = leaf_of s p (page_ix v)" by (rule keeps_leavesD [OF s1(5) p(1)]) simp
      have n1: "tables_needed s1 p v = 1" using s1(2,3) by (simp add: tables_needed_def)
      have "card (fresh s) \<noteq> 0" using False by (simp add: card_eq_0_iff)
      then have cd: "card (fresh s1) < 1 \<longleftrightarrow> \<not> 2 \<le> card (fresh s)" "card (fresh s1) - 1 = card (fresh s) - 2"
        using s1(4) by linarith+
      have m: "mappable p v a c s \<longleftrightarrow> \<not> (PT_MARKED_PRESENT (leaf_of s1 p (page_ix v)) \<or> \<not> encodable ?a c \<or> card (fresh s1) < 1)"
        using False cd(1) by (auto simp: mappable_def n lf)
      show ?thesis
        using map_below_ok [OF ok1 s1(2), of ?a c] sets_page_after [OF s1(5)]
        unfolding m n n1 cd(2) r s1(1) by (auto split: if_splits)
    qed
  qed
qed

subsection \<open>Unmapping and looking up\<close>

lemma leaf_shared:
  assumes "procs_ok s" "p \<in> set (pml4_table_list s)" "q \<in> set (pml4_table_list s)" "same_slot p q ix jx"
  shows "leaf_of s q jx = leaf_of s p ix"
proof -
  have "pml4_entry s q (fst ix) = pml4_entry s p (fst ix)"
    using procs_ok_shared [OF assms(1,3,2)] assms(4) by (auto simp: same_slot_def)
  then have "pdpt_of s q (fst ix) = pdpt_of s p (fst ix)" by (simp add: pdpt_of_def)
  then show ?thesis using assms(4) by (cases ix) (auto simp: same_slot_def leaf_of_def)
qed

lemma sets_page_unmapped:
  assumes k: "keeps_leaves s s'" and ok: "pt_ok s" and p: "p \<in> set (pml4_table_list s)" and z: "leaf_of s p (page_ix v) = 0"
  shows "sets_page p v 0 s s'"
proof -
  have "leaf_of s q ix = 0" if "q \<in> set (pml4_table_list s)" "same_slot p q (page_ix v) ix" for q ix
    using leaf_shared [OF _ p that] ok z by (simp add: pt_ok_def)
  then show ?thesis using k keeps_leavesD [OF k] by (simp add: sets_page_def keeps_leaves_def)
qed

text \<open>Reading the tables on the way to a page, as \<open>mem_x64_unmap_virtual_page\<close> and \<open>mem_get_phys_addr\<close> both do.\<close>

lemma walk_steps:
  assumes ok: "pt_ok s" and p: "p \<in> set (pml4_table_list s)" and i: "i4 < 512" "i3 < 512"
    and f3: "pdpt_of s p i4 = Some f3"
  obtains s1 where "mem_x64_phys_addr_from_pte (pml4_entry s p i4) = Some f3" "PT_MARKED_PRESENT (pml4_entry s p i4)"
    "mem_set_working_page_dir f3 s = Some s1" "same_tables s s1" "working_frame s1 = Some f3" "pd_in s1 = pd_in s"
    "\<forall>f2. pd_in s f3 i3 = Some f2 \<longrightarrow> (\<exists>s2. mem_x64_phys_addr_from_pte (frames s1 f3 i3) = Some f2 \<and> PT_MARKED_PRESENT (frames s1 f3 i3) \<and>
       mem_set_working_page_dir f2 s1 = Some s2 \<and> same_tables s s2 \<and> working_frame s2 = Some f2 \<and> f2 \<in> pds s)"
proof -
  note r = table_entry_read [OF ok p f3 i(1)]
  obtain s1 where s1: "mem_set_working_page_dir f3 s = Some s1" "same_tables s s1" "working_frame s1 = Some f3"
    using set_working [OF working_entry_ok [OF ok] r(3)] .
  have ok1: "pt_ok s1" using same_tables_ok [OF s1(2)] ok by simp
  have f: "frames s1 = frames s" using s1(2) by (simp add: same_tables_def)
  have "\<exists>s2. mem_x64_phys_addr_from_pte (frames s1 f3 i3) = Some f2 \<and> PT_MARKED_PRESENT (frames s1 f3 i3) \<and>
       mem_set_working_page_dir f2 s1 = Some s2 \<and> same_tables s s2 \<and> working_frame s2 = Some f2 \<and> f2 \<in> pds s"
    if f2: "pd_in s f3 i3 = Some f2" for f2
  proof -
    note q = pd_entry_read [OF ok r(4) f2 i(2)]
    obtain s2 where "mem_set_working_page_dir f2 s1 = Some s2" "same_tables s1 s2" "working_frame s2 = Some f2"
      using set_working [OF working_entry_ok [OF ok1] q(3)] .
    then show ?thesis using q same_tables_trans [OF s1(2)] by (auto simp: f)
  qed
  then show thesis using that [OF r(1,2) s1] same_tables_walk(3) [OF s1(2)] by blast
qed

lemma unmap_page_exact:
  assumes ok: "pt_ok s" and p: "p \<in> set (pml4_table_list s)" "the_process cur context = p"
  shows "\<exists>s'. mem_x64_unmap_virtual_page cur v context s = Some s' \<and> sets_page p v 0 s s' \<and> fresh s' = fresh s"
proof -
  let ?i = "pml4_entry_idx v" and ?j = "page_dir_ptr_entry_idx v"
  have pr: "procs_ok s" using ok by (simp add: pt_ok_def)
  obtain d where d: "get_pml4_table_addr cur context s = Some (pml4_virt_addr d)" "proc_x64 s p = Some d"
    "pml4_mem s (pml4_virt_addr d) = pml4_entry s p" using get_pml4_table [OF pr p] .
  have refl: "same_tables s s" by (simp add: same_tables_def)
  show ?thesis
  proof (cases "pdpt_of s p ?i")
    case None
    then have "leaf_of s p (page_ix v) = 0" by (simp add: leaf_of_def page_ix_def)
    then have "sets_page p v 0 s s" by (rule sets_page_unmapped [OF keeps_leaves_same [OF ok refl] ok p(1)])
    moreover have "mem_x64_unmap_virtual_page cur v context s = Some s"
      using None d by (auto simp: mem_x64_unmap_virtual_page_def Let_def pdpt_of_def split: if_splits)
    ultimately show ?thesis by simp
  next
    case (Some f3)
    obtain s1 where s1: "mem_x64_phys_addr_from_pte (pml4_entry s p ?i) = Some f3" "PT_MARKED_PRESENT (pml4_entry s p ?i)"
      "mem_set_working_page_dir f3 s = Some s1" "same_tables s s1" "working_frame s1 = Some f3" "pd_in s1 = pd_in s"
      "\<forall>f2. pd_in s f3 ?j = Some f2 \<longrightarrow> (\<exists>s2. mem_x64_phys_addr_from_pte (frames s1 f3 ?j) = Some f2 \<and> PT_MARKED_PRESENT (frames s1 f3 ?j) \<and>
         mem_set_working_page_dir f2 s1 = Some s2 \<and> same_tables s s2 \<and> working_frame s2 = Some f2 \<and> f2 \<in> pds s)"
      using walk_steps [OF ok p(1) idx_less(1,2) Some] .
    show ?thesis
    proof (cases "pd_in s f3 ?j")
      case None
      then have "leaf_of s p (page_ix v) = 0" using Some by (simp add: leaf_of_def page_ix_def)
      then have "sets_page p v 0 s s1" by (rule sets_page_unmapped [OF keeps_leaves_same [OF ok s1(4)] ok p(1)])
      moreover have "\<not> PT_MARKED_PRESENT (frames s1 f3 ?j)" using None s1(6) pd_in_None [of s1] by simp
      ultimately show ?thesis using d s1(1-3,5) same_tables_walk(5) [OF s1(4)]
        by (simp add: mem_x64_unmap_virtual_page_def Let_def)
    next
      case (Some f2)
      obtain s2 where s2: "mem_x64_phys_addr_from_pte (frames s1 f3 ?j) = Some f2" "PT_MARKED_PRESENT (frames s1 f3 ?j)"
        "mem_set_working_page_dir f2 s1 = Some s2" "same_tables s s2" "working_frame s2 = Some f2" using s1(7) Some by blast
      have ok2: "pt_ok s2" "p \<in> set (pml4_table_list s2)" "pdpt_of s2 p ?i = Some f3" "pd_in s2 f3 ?j = Some f2"
        using same_tables_ok [OF s2(4)] same_tables_walk [OF s2(4)] ok p(1) s2(4) \<open>pdpt_of s p ?i = Some f3\<close> Some
        by (auto simp: same_tables_def)
      have "sets_page p v 0 s (set_word f2 (page_dir_entry_idx v) 0 s2)"
        using sets_page_after [OF keeps_leaves_same [OF ok s2(4)] sets_page_leaf [OF ok2]] by (simp add: leaf_word_def)
      then show ?thesis using d s1(1-3,5) s2 same_tables_walk(5) [OF s2(4)]
        by (simp add: mem_x64_unmap_virtual_page_def Let_def)
    qed
  qed
qed

lemma set_working_pm: "mem_set_working_page_dir f s = Some s' \<Longrightarrow> pm s' = pm s"
  by (auto simp: mem_set_working_page_dir_def Let_def)

lemma unmap_keeps_pm: "mem_x64_unmap_virtual_page cur v context s = Some s' \<Longrightarrow> pm s' = pm s"
  by (auto simp: mem_x64_unmap_virtual_page_def Let_def set_word_def dest!: set_working_pm split: if_splits)

lemma page_ix_of_base: "page_ix (v - v mod MEM_PAGE_SIZE) = page_ix v"
proof -
  have "v mod MEM_PAGE_SIZE \<le> v" by (simp add: word_le_nat_alt unat_mod)
  then have "unat (drop_bit 21 (v - v mod MEM_PAGE_SIZE)) = (unat v - unat v mod 2 ^ 21) div 2 ^ 21"
    by (simp add: drop_bit_eq_div unat_div unat_sub unat_mod)
  also have "\<dots> = unat v div 2 ^ 21" by (metis minus_mod_eq_mult_div nonzero_mult_div_cancel_left power_eq_0_iff zero_neq_numeral)
  also have "\<dots> = unat (drop_bit 21 v)" by (simp add: drop_bit_eq_div unat_div)
  finally have "drop_bit 21 (v - v mod MEM_PAGE_SIZE) = drop_bit 21 v" by (simp only: word_unat_eq_iff)
  then show ?thesis by (simp add: page_ix_def pml4_entry_idx_def page_dir_ptr_entry_idx_def page_dir_entry_idx_def)
qed

text \<open>The value \<open>mem_get_phys_addr\<close> computes from the tables.\<close>

definition phys_of :: "pt_state \<Rightarrow> nat \<Rightarrow> u64 \<Rightarrow> u64" where
  "phys_of s p v = (case page_ix v of (i4, i3, i2) \<Rightarrow> (case pdpt_of s p i4 of None \<Rightarrow> 0 | Some f3 \<Rightarrow>
     (case pd_in s f3 i3 of None \<Rightarrow> 0 | Some f2 \<Rightarrow>
       (leaf_of s p (page_ix v) AND 0x0007FFFFFFF00000) + v mod MEM_PAGE_SIZE)))"

lemma get_phys_exact:
  assumes ok: "pt_ok s" and p: "p \<in> set (pml4_table_list s)" "the_process cur context = p"
  shows "\<exists>s'. mem_get_phys_addr cur v context s = Some (phys_of s p v, s') \<and> same_tables s s'"
proof -
  let ?b = "v - v mod MEM_PAGE_SIZE"
  let ?i = "pml4_entry_idx v" and ?j = "page_dir_ptr_entry_idx v" and ?k = "page_dir_entry_idx v"
  have b: "pml4_entry_idx ?b = ?i" "page_dir_ptr_entry_idx ?b = ?j" "page_dir_entry_idx ?b = ?k"
    using page_ix_of_base [of v] by (simp_all add: page_ix_def)
  have pr: "procs_ok s" and t: "tables_ok s" using ok by (auto simp: pt_ok_def)
  obtain d where d: "get_pml4_table_addr cur context s = Some (pml4_virt_addr d)" "proc_x64 s p = Some d"
    "pml4_mem s (pml4_virt_addr d) = pml4_entry s p" using get_pml4_table [OF pr p] .
  have refl: "same_tables s s" by (simp add: same_tables_def)
  show ?thesis
  proof (cases "pdpt_of s p ?i")
    case None
    then show ?thesis using d refl
      by (auto simp: mem_get_phys_addr_def Let_def b phys_of_def page_ix_def pdpt_of_def split: if_splits)
  next
    case f3: (Some f3)
    obtain s1 where s1: "mem_x64_phys_addr_from_pte (pml4_entry s p ?i) = Some f3" "PT_MARKED_PRESENT (pml4_entry s p ?i)"
      "mem_set_working_page_dir f3 s = Some s1" "same_tables s s1" "working_frame s1 = Some f3" "pd_in s1 = pd_in s"
      "\<forall>f2. pd_in s f3 ?j = Some f2 \<longrightarrow> (\<exists>s2. mem_x64_phys_addr_from_pte (frames s1 f3 ?j) = Some f2 \<and> PT_MARKED_PRESENT (frames s1 f3 ?j) \<and>
         mem_set_working_page_dir f2 s1 = Some s2 \<and> same_tables s s2 \<and> working_frame s2 = Some f2 \<and> f2 \<in> pds s)"
      using walk_steps [OF ok p(1) idx_less(1,2) f3] .
    show ?thesis
    proof (cases "pd_in s f3 ?j")
      case None
      then have "\<not> PT_MARKED_PRESENT (frames s1 f3 ?j)" using s1(6) pd_in_None [of s1] by simp
      then show ?thesis using d s1(1-5) f3 None by (simp add: mem_get_phys_addr_def Let_def b phys_of_def page_ix_def)
    next
      case f2: (Some f2)
      obtain s2 where s2: "mem_x64_phys_addr_from_pte (frames s1 f3 ?j) = Some f2" "PT_MARKED_PRESENT (frames s1 f3 ?j)"
        "mem_set_working_page_dir f2 s1 = Some s2" "same_tables s s2" "working_frame s2 = Some f2" "f2 \<in> pds s" using s1(7) f2 by blast
      have fr: "frames s2 = frames s" using s2(4) by (simp add: same_tables_def)
      have "leaf_word (frames s f2 ?k)" by (rule tables_okD(3) [OF t s2(6)]) simp
      then have "mem_x64_phys_addr_from_pte (frames s f2 ?k) = Some (frames s f2 ?k AND 0x0007FFFFFFF00000)"
        by (rule phys_addr_from_leaf_word)
      moreover have "leaf_of s p (page_ix v) = frames s f2 ?k" using f3 f2 by (simp add: leaf_of_def page_ix_def)
      ultimately show ?thesis using d s1(1-3,5) s2 f3 f2
        by (simp add: mem_get_phys_addr_def Let_def b phys_of_def page_ix_def fr)
    qed
  qed
qed

subsection \<open>Canonical addresses\<close>

lemma bit_8_nat: "n < 512 \<Longrightarrow> bit n 8 \<longleftrightarrow> 256 \<le> (n :: nat)"
  by (cases "256 \<le> n") (simp_all add: bit_iff_odd le_div_geq)

lemma canonical_kernel:
  assumes "canonical v"
  shows "is_kernel_allocation v \<longleftrightarrow> 256 \<le> pml4_entry_idx v"
proof -
  let ?y = "drop_bit 9 (drop_bit 9 (drop_bit 21 v)) AND 0x1FF"
  have "bit x 16 = bit x 0" if "x = 0 \<or> x = 0x1FFFF" for x :: u64 using that by auto
  from this [of "drop_bit 47 v"] have b: "bit v 63 = bit v 47"
    using assms by (simp add: canonical_def Let_def bit_drop_bit_eq)
  have k: "is_kernel_allocation v = bit v 63"
    using and_exp_eq_0_iff_not_bit [of v 63] by (simp add: is_kernel_allocation_def)
  have "bit (unat ?y) 8 = bit v 47"
    by (simp add: bit_unsigned_iff bit_and_iff bit_drop_bit_eq)
  moreover have "unat ?y < 512" using idx_less(1) [of v] by (simp only: pml4_entry_idx_def)
  ultimately show ?thesis unfolding k b pml4_entry_idx_def by (simp add: bit_8_nat)
qed

text \<open>A canonical address is determined, up to its offset in the page, by its three indices.\<close>

lemma and_1FF_eq_bits:
  assumes "unat (x AND 0x1FF) = unat (y AND 0x1FF)" "n < 9"
  shows "bit (x :: u64) n = bit (y :: u64) n"
proof -
  have "x AND 0x1FF = y AND 0x1FF" using assms(1) by (simp only: word_unat_eq_iff)
  then have "bit (x AND mask 9) n = bit (y AND mask 9) n" by (simp add: mask_eq_exp_minus_1)
  then show ?thesis using assms(2) by (simp add: bit_and_iff bit_mask_iff)
qed

lemma canonical_bits:
  assumes "canonical v" "47 \<le> n" "n < 64"
  shows "bit v n = bit v 47"
proof -
  have "drop_bit 47 v = 0 \<or> drop_bit 47 v = mask 17" using assms(1) by (simp add: canonical_def Let_def mask_eq_exp_minus_1)
  then have "bit (drop_bit 47 v) k = bit (drop_bit 47 v) 0" if "k < 17" for k
    using that by (auto simp: bit_mask_iff)
  from this [of "n - 47"] show ?thesis using assms(2,3) by (simp add: bit_drop_bit_eq)
qed

lemma page_ix_inj:
  assumes "canonical v" "canonical v'" "page_ix v = page_ix v'"
  shows "drop_bit 21 v = drop_bit 21 v'"
proof (rule bit_eqI)
  fix n assume "possible_bit TYPE(64 word) n"
  have b: "bit (drop_bit k (drop_bit j v)) i = bit v (i + k + j)" "bit (drop_bit k (drop_bit j v')) i = bit v' (i + k + j)" for i j k
    by (simp_all add: bit_drop_bit_eq ac_simps)
  have i: "page_dir_entry_idx v = page_dir_entry_idx v'" "page_dir_ptr_entry_idx v = page_dir_ptr_entry_idx v'"
    "pml4_entry_idx v = pml4_entry_idx v'" using assms(3) by (simp_all add: page_ix_def)
  have lo: "bit v (21 + n) = bit v' (21 + n)" if "n < 27" for n
  proof -
    consider "n < 9" | "9 \<le> n" "n < 18" | "18 \<le> n" using that by linarith
    then show ?thesis
    proof cases
      case 1
      then show ?thesis using and_1FF_eq_bits [OF i(1) [unfolded page_dir_entry_idx_def], of n] by (simp add: bit_drop_bit_eq)
    next
      case 2
      then show ?thesis using and_1FF_eq_bits [OF i(2) [unfolded page_dir_ptr_entry_idx_def], of "n - 9"] by (simp add: bit_drop_bit_eq)
    next
      case 3
      then show ?thesis using that and_1FF_eq_bits [OF i(3) [unfolded pml4_entry_idx_def], of "n - 18"] by (simp add: bit_drop_bit_eq)
    qed
  qed
  have "bit v (21 + n) = bit v' (21 + n)"
  proof (cases "n < 27")
    case False
    have "bit v 47 = bit v' 47" using lo [of 26] by simp
    then show ?thesis using False canonical_bits [OF assms(1), of "21 + n"] canonical_bits [OF assms(2), of "21 + n"]
      by (cases "21 + n < 64") (auto dest: bit_imp_le_length)
  qed (rule lo)
  then show "bit (drop_bit 21 v) n = bit (drop_bit 21 v') n" by (simp add: bit_drop_bit_eq)
qed

subsection \<open>Properties\<close>

text \<open>
  C6. Mapping a page at a canonical address. The call returns exactly when the page is not mapped yet, the caching mode and the address can be encoded, the
  memory for new tables is there and, for the kernel's half, the PML4 entry exists already. Then the
  page of this process has the encoded entry, all processes see it if it is in the kernel's half, every other page of
  every process keeps its entry, and the invariant of the tables holds again. In all other cases the call panics.
\<close>

theorem map_page_correct:
  assumes "pt_ok s" and "p \<in> set (pml4_table_list s)" and "the_process cur context = p" and "canonical v"
  shows "if mappable p v a c s
    then \<exists>s' w. mem_x64_map_virtual_page cur v a context c s = Some s' \<and> pt_ok s' \<and>
       mem_encode_page_table_entry (page_entry (a AND valid_phys_bit_mask s) (is_kernel_allocation v) c) = Some w \<and>
       (\<forall>q \<in> set (pml4_table_list s). \<forall>ix. valid_ix ix \<longrightarrow>
          leaf_of s' q ix = (if same_slot p q (page_ix v) ix then w else leaf_of s q ix)) \<and>
       card (fresh s') = card (fresh s) - tables_needed s p v
    else mem_x64_map_virtual_page cur v a context c s = None"
proof (cases "mappable p v a c s")
  case True
  then obtain s' w where "mem_x64_map_virtual_page cur v a context c s = Some s'" "sets_page p v w s s'"
    "mem_encode_page_table_entry (page_entry (a AND valid_phys_bit_mask s) (is_kernel_allocation v) c) = Some w"
    "card (fresh s') = card (fresh s) - tables_needed s p v"
    using map_page_exact [OF assms(1-3) canonical_kernel [OF assms(4)], of a c] by auto
  with True show ?thesis unfolding sets_page_def by auto
next
  case False
  then show ?thesis using map_page_exact [OF assms(1-3) canonical_kernel [OF assms(4)], of a c] by simp
qed

text \<open>
  Unmapping a page always returns: afterwards the page is unmapped for every process that shares it, all other
  pages keep their entries, and no page-table memory is taken or given back.
\<close>

theorem unmap_page_correct:
  assumes "pt_ok s" and "p \<in> set (pml4_table_list s)" and "the_process cur context = p"
  shows "\<exists>s'. mem_x64_unmap_virtual_page cur v context s = Some s' \<and> pt_ok s' \<and> fresh s' = fresh s \<and>
    (\<forall>q \<in> set (pml4_table_list s). \<forall>ix. valid_ix ix \<longrightarrow>
       leaf_of s' q ix = (if same_slot p q (page_ix v) ix then 0 else leaf_of s q ix))"
  using unmap_page_exact [OF assms, of v] unfolding sets_page_def by auto

lemma page_entry_target:
  assumes "mem_encode_page_table_entry (page_entry a k c) = Some w" "a AND 0x0007FFFFFFF00000 = a"
  shows "w AND 0x0007FFFFFFF00000 = a"
proof -
  have "pte_representable (page_entry a k c)" using assms(2) by (simp add: pte_representable_def page_entry_def)
  then have "mem_decode_page_table_entry w = Some (page_entry a k c)"
    using pte_encode_decode assms(1) by (fastforce split: if_splits)
  then show ?thesis by (auto simp: mem_decode_page_table_entry_def page_entry_def Let_def split: if_splits)
qed

text \<open>
  The round trip of an address through the tables: after a page has been mapped to a page-aligned physical address that
  fits the entries, looking up any address of that page gives the physical address plus the offset, and the
  lookup itself changes no table.
\<close>

theorem map_lookup_roundtrip:
  assumes "pt_ok s" and "p \<in> set (pml4_table_list s)" and "the_process cur context = p" and "canonical v"
    and "a AND valid_phys_bit_mask s = a" and "a AND 0x0007FFFFFFF00000 = a"
    and "mem_x64_map_virtual_page cur v a context c s = Some s'" and "page_ix v' = page_ix v"
  shows "\<exists>s''. mem_get_phys_addr cur v' context s' = Some (a + v' mod MEM_PAGE_SIZE, s'') \<and> leaf_of s'' = leaf_of s'"
proof -
  have m: "mappable p v a c s"
    using map_page_exact [OF assms(1-3) canonical_kernel [OF assms(4)], of a c] assms(7) by (auto split: if_splits)
  then obtain w where w: "mem_encode_page_table_entry (page_entry a (is_kernel_allocation v) c) = Some w"
    "PT_MARKED_PRESENT w" "sets_page p v w s s'"
    using map_page_exact [OF assms(1-3) canonical_kernel [OF assms(4)], of a c] assms(5,7) by auto
  have ok: "pt_ok s'" "p \<in> set (pml4_table_list s')" using w(3) assms(2) by (auto simp: sets_page_def)
  have "same_slot p p (page_ix v) (page_ix v)" by (simp add: same_slot_def)
  then have lf: "leaf_of s' p (page_ix v) = w" using w(3) assms(2) valid_page_ix unfolding sets_page_def by metis
  have "phys_of s' p v' = (w AND 0x0007FFFFFFF00000) + v' mod MEM_PAGE_SIZE"
    using lf w(2) by (auto simp: phys_of_def assms(8) leaf_of_def split: prod.splits option.splits)
  then have "phys_of s' p v' = a + v' mod MEM_PAGE_SIZE" using page_entry_target [OF w(1) assms(6)] by simp
  then show ?thesis using get_phys_exact [OF ok assms(3), of v'] same_tables_walk(4) by metis
qed

subsection \<open>A small machine\<close>

text \<open>One process, no page tables yet, and page 3 of physical memory free to hold them.\<close>

definition sample_pt :: pt_state where
  "sample_pt = \<lparr>frames = (\<lambda>_ _. 0), pml4_mem = (\<lambda>_ _. 0),
     proc_x64 = [0 \<mapsto> \<lparr>pml4_phys_addr = 0x1000, pml4_virt_addr = 0xFFFFFFFF00001000\<rparr>], pml4_table_list = [0],
     known_pml4s = 1, pml4_system_initialized = True, next_4kb_page = 0, working_entry = Some 0, working_offset = 0,
     working_table_va_mapped = False, valid_phys_bit_mask = 0xFFFFFFFFFF, pm = sample_phys\<rparr>"

lemma sample_pt_ok: "pt_ok sample_pt"
proof -
  have e: "pdpt_of sample_pt p i = None" for p i by (simp add: sample_pt_def pdpt_of_def pml4_entry_def)
  then have "pdpts sample_pt = {}" "pds sample_pt = {}" by (simp_all add: pdpts_def pds_def)
  moreover have "table_word (pml4_entry sample_pt p i)" for p i by (simp add: sample_pt_def pml4_entry_def table_word_def)
  ultimately have "tables_ok sample_pt" using e by (simp add: tables_ok_def)
  moreover have "carve_ok sample_pt" "procs_ok sample_pt"
    by (simp_all add: carve_ok_def procs_ok_def sample_pt_def sample_phys_wf)
  ultimately show ?thesis by (simp add: pt_ok_def)
qed

lemma sample_pt_mappable: "mappable 0 0x400000 0x40000000 WRITE_BACK sample_pt"
proof -
  have p: "pdpt_of sample_pt 0 i = None" for i by (simp add: sample_pt_def pdpt_of_def pml4_entry_def)
  have "{0x600000, 0x601000} \<subseteq> fresh sample_pt" by (simp add: fresh_def sample_pt_def sample_phys_sets)
  then have "card {0x600000, 0x601000 :: u64} \<le> card (fresh sample_pt)" by (rule card_mono [OF finite_fresh])
  then show ?thesis
    by (simp add: mappable_def p leaf_of_def page_ix_def tables_needed_def encodable_def is_kernel_allocation_def)
      (simp add: sample_pt_def)
qed

lemma sample_pt_list: "0 \<in> set (pml4_table_list sample_pt)" "the_process None None = 0" "canonical 0x400000"
  by (simp_all add: sample_pt_def the_process_def canonical_def)

theorem map_page_correct_witness:
  "\<exists>s'. mem_x64_map_virtual_page None 0x400000 0x40000000 None WRITE_BACK sample_pt = Some s' \<and> pt_ok s' \<and>
     leaf_of s' 0 (page_ix 0x400000) = 0x40000087 \<and> leaf_of s' 0 (page_ix 0x600000) = 0"
proof -
  have w: "mem_encode_page_table_entry (page_entry (0x40000000 AND valid_phys_bit_mask sample_pt) (is_kernel_allocation 0x400000) WRITE_BACK)
      = Some 0x40000087"
    by (simp add: sample_pt_def is_kernel_allocation_def page_entry_def mem_encode_page_table_entry_def mem_x64_pat_get_val_def cache_defs)
  have x: "page_ix 0x400000 = (0, 0, 2)" "page_ix 0x600000 = (0, 0, 3)"
    by (simp_all add: page_ix_def pml4_entry_idx_def page_dir_ptr_entry_idx_def page_dir_entry_idx_def)
  have z: "leaf_of sample_pt 0 ix = 0" for ix
    by (cases ix) (simp add: leaf_of_def sample_pt_def pdpt_of_def pml4_entry_def)
  show ?thesis
    using map_page_correct [OF sample_pt_ok sample_pt_list, of "0x40000000" WRITE_BACK] sample_pt_mappable sample_pt_list(1)
    by (auto simp: w x same_slot_def z valid_ix_def)
qed

theorem unmap_page_correct_witness:
  "\<exists>s'. mem_x64_unmap_virtual_page None 0x400000 None sample_pt = Some s' \<and> pt_ok s' \<and> leaf_of s' 0 (page_ix 0x400000) = 0"
  using unmap_page_correct [OF sample_pt_ok sample_pt_list(1,2), of "0x400000"] sample_pt_list(1) valid_page_ix [of "0x400000"]
  by (fastforce simp: same_slot_def)

theorem map_lookup_roundtrip_witness:
  "\<exists>s' s''. mem_x64_map_virtual_page None 0x400000 0x40000000 None WRITE_BACK sample_pt = Some s' \<and>
     mem_get_phys_addr None 0x412345 None s' = Some (0x40012345, s'')"
proof -
  obtain s' where s': "mem_x64_map_virtual_page None 0x400000 0x40000000 None WRITE_BACK sample_pt = Some s'"
    using map_page_exact [OF sample_pt_ok sample_pt_list(1,2) canonical_kernel [OF sample_pt_list(3)], of "0x40000000" WRITE_BACK]
      sample_pt_mappable by auto
  have "page_ix 0x412345 = page_ix 0x400000"
    by (simp add: page_ix_def pml4_entry_idx_def page_dir_ptr_entry_idx_def page_dir_entry_idx_def)
  moreover have "(0x40000000 :: u64) AND valid_phys_bit_mask sample_pt = 0x40000000" by (simp add: sample_pt_def)
  ultimately show ?thesis
    using map_lookup_roundtrip [OF sample_pt_ok sample_pt_list _ _ s', of "0x412345"] s' by (auto simp: MEM_PAGE_SIZE_def)
qed

subsection \<open>The PML4 tables of the processes\<close>

definition listed :: "pt_state \<Rightarrow> bool" where
  "listed s \<longleftrightarrow> distinct (pml4_table_list s) \<and> (\<forall>p \<in> set (pml4_table_list s). proc_x64 s p \<noteq> None) \<and>
     inj_on (\<lambda>p. map_option pml4_virt_addr (proc_x64 s p)) (set (pml4_table_list s))"

lemma copy_to_all_spec:
  assumes "\<forall>p \<in> set ps. proc_x64 s p \<noteq> None" "inj_on (\<lambda>p. map_option pml4_virt_addr (proc_x64 s p)) (set ps)" "distinct ps"
  shows "\<exists>m. copy_to_all buf ps n s = Some (n + of_nat (length ps), s\<lparr>pml4_mem := m\<rparr>) \<and>
    (\<forall>p \<in> set ps. \<forall>d. proc_x64 s p = Some d \<longrightarrow> m (pml4_virt_addr d) = copy_kernel_half buf (pml4_mem s (pml4_virt_addr d))) \<and>
    (\<forall>a. (\<forall>p \<in> set ps. map_option pml4_virt_addr (proc_x64 s p) \<noteq> Some a) \<longrightarrow> m a = pml4_mem s a)"
  using assms
proof (induction ps arbitrary: n s)
  case Nil
  then show ?case by (auto intro: exI [of _ "pml4_mem s"])
next
  case (Cons p ps)
  obtain d where d: "proc_x64 s p = Some d" using Cons.prems(1) by auto
  let ?a = "pml4_virt_addr d"
  let ?s = "s\<lparr>pml4_mem := (pml4_mem s)(?a := copy_kernel_half buf (pml4_mem s ?a))\<rparr>"
  have na: "\<forall>q \<in> set ps. map_option pml4_virt_addr (proc_x64 s q) \<noteq> Some ?a"
    using Cons.prems(2,3) d unfolding inj_on_def by fastforce
  obtain m where m: "copy_to_all buf ps (n + 1) ?s = Some (n + 1 + of_nat (length ps), ?s\<lparr>pml4_mem := m\<rparr>)"
    "\<forall>q \<in> set ps. \<forall>e. proc_x64 s q = Some e \<longrightarrow> m (pml4_virt_addr e) = copy_kernel_half buf (pml4_mem ?s (pml4_virt_addr e))"
    "\<forall>a. (\<forall>q \<in> set ps. map_option pml4_virt_addr (proc_x64 s q) \<noteq> Some a) \<longrightarrow> m a = pml4_mem ?s a"
    using Cons.IH [of ?s "n + 1"] Cons.prems by auto
  have "m (pml4_virt_addr e) = copy_kernel_half buf (pml4_mem s (pml4_virt_addr e))" if "q \<in> set (p # ps)" "proc_x64 s q = Some e" for q e
  proof (cases "q = p")
    case True
    then show ?thesis using m(3) na that d by simp
  next
    case False
    then have "pml4_virt_addr e \<noteq> ?a" "q \<in> set ps" using na that by auto
    then show ?thesis using m(2) that(2) by simp
  qed
  moreover have "m a = pml4_mem s a" if "\<forall>q \<in> set (p # ps). map_option pml4_virt_addr (proc_x64 s q) \<noteq> Some a" for a
    using m(3) that d by auto
  ultimately show ?case using m(1) d by (intro exI [of _ m]) (auto simp: add.commute add.left_commute)
qed

text \<open>
  Synchronising the PML4 tables from the table at some address gives every listed process the upper half of that table and leaves the lower
  halves alone, exactly when the number of known tables is the length of the list; otherwise it panics. Once a process has been
  removed from a list whose length was the count, the count is too high for good and every synchronisation panics.
\<close>

theorem pml4_synchronize_correct:
  assumes "listed s" and "length (pml4_table_list s) < 2 ^ 64"
  shows "(if unat (known_pml4s s) = length (pml4_table_list s)
     then \<exists>s'. mem_x64_pml4_synchronize a s = Some s' \<and> frames s' = frames s \<and>
        (\<forall>p \<in> set (pml4_table_list s). \<forall>i. pml4_entry s' p i = (if 256 \<le> i then pml4_mem s a i else pml4_entry s p i))
     else mem_x64_pml4_synchronize a s = None) \<and>
    (unat (known_pml4s s) = length (pml4_table_list s) \<longrightarrow> p \<in> set (pml4_table_list s) \<longrightarrow>
       mem_x64_pml4_deallocate p s = Some s1 \<longrightarrow> mem_x64_pml4_synchronize b s1 = None)"
proof -
  have sync: "(if unat (known_pml4s s) = length (pml4_table_list s)
     then \<exists>s'. mem_x64_pml4_synchronize a s = Some s' \<and> frames s' = frames s \<and>
        (\<forall>p \<in> set (pml4_table_list s). \<forall>i. pml4_entry s' p i = (if 256 \<le> i then pml4_mem s a i else pml4_entry s p i))
     else mem_x64_pml4_synchronize a s = None)" if l: "listed s" "length (pml4_table_list s) < 2 ^ 64" for a s
  proof -
    obtain m where m: "copy_to_all (pml4_mem s a) (pml4_table_list s) 0 s = Some (of_nat (length (pml4_table_list s)), s\<lparr>pml4_mem := m\<rparr>)"
      "\<forall>p \<in> set (pml4_table_list s). \<forall>d. proc_x64 s p = Some d \<longrightarrow>
         m (pml4_virt_addr d) = copy_kernel_half (pml4_mem s a) (pml4_mem s (pml4_virt_addr d))"
      using copy_to_all_spec [of "pml4_table_list s" s "pml4_mem s a" 0] l(1) by (auto simp: listed_def)
    have k: "of_nat (length (pml4_table_list s)) = known_pml4s s \<longleftrightarrow> unat (known_pml4s s) = length (pml4_table_list s)"
      using unat_of_nat_u64 [OF l(2)] of_nat_of_unat [of "known_pml4s s"] by metis
    show ?thesis
    proof (cases "unat (known_pml4s s) = length (pml4_table_list s)")
      case True
      have "pml4_entry (s\<lparr>pml4_mem := m\<rparr>) p i = (if 256 \<le> i then pml4_mem s a i else pml4_entry s p i)"
        if "p \<in> set (pml4_table_list s)" for p i
        using that m(2) l(1) by (auto simp: pml4_entry_def copy_kernel_half_def listed_def)
      then show ?thesis using True m(1) k by (simp add: mem_x64_pml4_synchronize_def)
    next
      case False
      then show ?thesis using m(1) k by (auto simp: mem_x64_pml4_synchronize_def)
    qed
  qed
  have "mem_x64_pml4_synchronize b s1 = None"
    if "unat (known_pml4s s) = length (pml4_table_list s)" "p \<in> set (pml4_table_list s)" "mem_x64_pml4_deallocate p s = Some s1"
  proof -
    have e: "s1 = s\<lparr>pml4_table_list := remove1 p (pml4_table_list s)\<rparr>" using that(3) by (simp add: mem_x64_pml4_deallocate_def)
    have "listed s1" using assms(1) by (auto simp: listed_def e intro: inj_on_subset dest: notin_set_remove1)
    moreover have "length (pml4_table_list s1) < length (pml4_table_list s)" using that(2) length_pos_if_in_set [OF that(2)] by (simp add: e length_remove1)
    ultimately show ?thesis using sync [of s1 b] assms(2) that(1) by (auto simp: e split: if_splits)
  qed
  then show ?thesis using sync [OF assms] by blast
qed

theorem pml4_synchronize_correct_witness:
  "\<exists>s' s1. mem_x64_pml4_synchronize 0x5000 sample_pt = Some s' \<and> mem_x64_pml4_deallocate 0 sample_pt = Some s1 \<and>
     mem_x64_pml4_synchronize 0x5000 s1 = None"
proof -
  let ?s1 = "sample_pt\<lparr>pml4_table_list := []\<rparr>"
  have l: "listed sample_pt" "length (pml4_table_list sample_pt) < 2 ^ 64"
    "unat (known_pml4s sample_pt) = length (pml4_table_list sample_pt)"
    by (simp_all add: listed_def sample_pt_def)
  have d: "mem_x64_pml4_deallocate 0 sample_pt = Some ?s1" by (simp add: mem_x64_pml4_deallocate_def sample_pt_def)
  show ?thesis
    using pml4_synchronize_correct [OF l(1,2), of "0x5000" 0 ?s1 "0x5000"] l(3) d sample_pt_list(1) by auto
qed

text \<open>The lookup does not read the list of tables, and a table that belongs to no listed process is not part of any address space.\<close>

lemma working_frame_list [simp]: "working_frame (s\<lparr>pml4_table_list := l\<rparr>) = working_frame s"
  by (simp add: working_frame_def)

lemma get_pml4_table_addr_list [simp]: "get_pml4_table_addr cur context (s\<lparr>pml4_table_list := l\<rparr>) = get_pml4_table_addr cur context s"
  by (simp add: get_pml4_table_addr_def)

lemma set_working_list:
  "mem_set_working_page_dir f s = Some s' \<Longrightarrow>
     mem_set_working_page_dir f (s\<lparr>pml4_table_list := l\<rparr>) = Some (s'\<lparr>pml4_table_list := l\<rparr>)"
  by (auto simp: mem_set_working_page_dir_def Let_def)

lemma get_phys_list:
  assumes "mem_get_phys_addr cur v context s = Some (a, s')"
  shows "mem_get_phys_addr cur v context (s\<lparr>pml4_table_list := l\<rparr>) = Some (a, s'\<lparr>pml4_table_list := l\<rparr>)"
proof -
  let ?v = "v - v mod MEM_PAGE_SIZE"
  obtain t where t: "get_pml4_table_addr cur context s = Some t" using assms by (auto simp: mem_get_phys_addr_def)
  show ?thesis
  proof (cases "PT_MARKED_PRESENT (pml4_mem s t (pml4_entry_idx ?v))")
    case False
    then show ?thesis using assms t by (auto simp: mem_get_phys_addr_def)
  next
    case True
    obtain f3 s1 f where f3: "mem_x64_phys_addr_from_pte (pml4_mem s t (pml4_entry_idx ?v)) = Some f3"
      "mem_set_working_page_dir f3 s = Some s1" "working_frame s1 = Some f"
      using assms t True by (auto simp: mem_get_phys_addr_def Let_def)
    show ?thesis
    proof (cases "PT_MARKED_PRESENT (frames s1 f (page_dir_ptr_entry_idx ?v))")
      case False
      then show ?thesis using assms t True f3 set_working_list [OF f3(2)] by (auto simp: mem_get_phys_addr_def)
    next
      case present: True
      obtain f2 s2 where f2: "mem_x64_phys_addr_from_pte (frames s1 f (page_dir_ptr_entry_idx ?v)) = Some f2"
        "mem_set_working_page_dir f2 s1 = Some s2"
        using assms t True present f3 by (auto simp: mem_get_phys_addr_def Let_def)
      show ?thesis
        using assms t True present f3 f2 set_working_list [OF f3(2)] set_working_list [OF f2(2)]
        by (auto simp: mem_get_phys_addr_def Let_def)
    qed
  qed
qed

definition not_listed :: "u64 \<Rightarrow> pt_state \<Rightarrow> bool" where
  "not_listed a s \<longleftrightarrow> (\<forall>p \<in> set (pml4_table_list s). map_option pml4_virt_addr (proc_x64 s p) \<noteq> Some a)"

lemma extend_tables:
  assumes ok: "pt_ok s" and pr: "procs_ok s'" and h: "h \<in> set (pml4_table_list s)" and p: "p \<notin> set (pml4_table_list s)"
    and l: "set (pml4_table_list s) \<subseteq> set (pml4_table_list s')" "set (pml4_table_list s') \<subseteq> insert p (set (pml4_table_list s))"
    and eq: "frames s' = frames s" "next_4kb_page s' = next_4kb_page s" "pm s' = pm s"
    and old: "\<And>q. q \<in> set (pml4_table_list s) \<Longrightarrow> pml4_entry s' q = pml4_entry s q"
    and new: "p \<in> set (pml4_table_list s') \<Longrightarrow> pml4_entry s' p = (\<lambda>i. if 256 \<le> i then pml4_entry s h i else 0)"
  shows "pt_ok s'" "\<And>q ix. q \<in> set (pml4_table_list s) \<Longrightarrow> leaf_of s' q ix = leaf_of s q ix"
    "\<And>ix. p \<in> set (pml4_table_list s') \<Longrightarrow> leaf_of s' p ix = (if 256 \<le> fst ix then leaf_of s h ix else 0)"
    "\<And>q. q \<in> set (pml4_table_list s) \<Longrightarrow> pdpt_of s' q = pdpt_of s q" "pd_in s' = pd_in s"
proof -
  have t: "tables_ok s" and c: "carve_ok s" using ok by (auto simp: pt_ok_def)
  show po: "pdpt_of s' q = pdpt_of s q" if "q \<in> set (pml4_table_list s)" for q
    using old [OF that] by (intro ext) (simp add: pdpt_of_def)
  have pn: "pdpt_of s' p i = (if 256 \<le> i then pdpt_of s h i else None)" if "p \<in> set (pml4_table_list s')" for i
    using new [OF that] by (simp add: pdpt_of_def)
  show pd: "pd_in s' = pd_in s" using eq by (intro ext) (simp add: pd_in_def)
  have fr: "fresh s' = fresh s" using eq by (simp add: fresh_def)
  have src: "\<exists>r \<in> set (pml4_table_list s). pdpt_of s r i = Some f \<and> (r = q \<or> 256 \<le> i)"
    if "q \<in> set (pml4_table_list s')" "pdpt_of s' q i = Some f" for q i f
  proof (cases "q = p")
    case True
    then show ?thesis using that pn [of i] h by (auto split: if_splits)
  next
    case False
    then have "q \<in> set (pml4_table_list s)" using that l by auto
    then show ?thesis using that po by auto
  qed
  have ps: "pdpts s' = pdpts s"
  proof (intro set_eqI iffI)
    fix f assume "f \<in> pdpts s"
    then obtain q i where "q \<in> set (pml4_table_list s)" "i < 512" "pdpt_of s q i = Some f" by (auto simp: pdpts_def)
    then show "f \<in> pdpts s'" using po l(1) by (intro pdptsI [of q s' i]) auto
  next
    fix f assume "f \<in> pdpts s'"
    then obtain q i where "q \<in> set (pml4_table_list s')" "i < 512" "pdpt_of s' q i = Some f" by (auto simp: pdpts_def)
    then show "f \<in> pdpts s" using src pdptsI [of _ s i f] by metis
  qed
  have qs: "pds s' = pds s" by (simp add: pds_def ps pd)
  have "tables_ok s'"
  proof (rule tables_okI)
    show "table_word (pml4_entry s' q i)" if "q \<in> set (pml4_table_list s')" "i < 512" for q i
      using that l(2) old new tables_okD(1) [OF t] h by (cases "q = p") (auto simp: table_word_def)
    show "i = j \<and> (a = b \<or> 256 \<le> i)" if q: "a \<in> set (pml4_table_list s')" "b \<in> set (pml4_table_list s')" "i < 512" "j < 512"
      "pdpt_of s' a i = Some f" "pdpt_of s' b j = Some f" for a b i j f
    proof -
      obtain a' where a': "a' \<in> set (pml4_table_list s)" "pdpt_of s a' i = Some f" "a' = a \<or> 256 \<le> i" using src [OF q(1,5)] by auto
      obtain b' where b': "b' \<in> set (pml4_table_list s)" "pdpt_of s b' j = Some f" "b' = b \<or> 256 \<le> j" using src [OF q(2,6)] by auto
      show ?thesis using tables_okD(6) [OF t a'(1) b'(1) q(3,4) a'(2) b'(2)] a'(3) b'(3) by auto
    qed
  qed (use tables_okD [OF t] in \<open>simp_all add: ps qs fr pd eq\<close>)
  moreover have "carve_ok s'" using c by (simp add: carve_ok_def fr eq)
  ultimately show "pt_ok s'" using pr by (simp add: pt_ok_def)
  show "leaf_of s' q ix = leaf_of s q ix" if "q \<in> set (pml4_table_list s)" for q ix
    by (cases ix) (simp add: leaf_of_def po [OF that] pd eq(1) split: option.split)
  show "leaf_of s' p ix = (if 256 \<le> fst ix then leaf_of s h ix else 0)" if "p \<in> set (pml4_table_list s')" for ix
    by (cases ix) (simp add: leaf_of_def pn [OF that] pd eq(1) split: option.split)
qed

text \<open>
  A new process gets an address space of its own: \<open>mem_x64_pml4_allocate\<close> returns for a table that the heap has aligned and that no other process uses. The
  new address space has nothing mapped in the lower half and the kernel's mappings in the upper half, the
  address spaces of the others stay as they are, the invariant holds for all of them together, and the physical address of the
  table is the one the running process has for it.
\<close>

theorem pml4_allocate_correct:
  assumes "pt_ok s" and "pml4_system_initialized s" and "the_process cur None = c" and "c \<in> set (pml4_table_list s)"
    and "p \<notin> set (pml4_table_list s)" and "new_pte mod 4096 = 0" and "new_pte \<noteq> 0" and "not_listed new_pte s"
  shows "\<exists>s'. mem_x64_pml4_allocate cur new_pte p s = Some s' \<and> pt_ok s' \<and> pml4_table_list s' = pml4_table_list s @ [p] \<and>
    (\<forall>q \<in> set (pml4_table_list s). \<forall>ix. leaf_of s' q ix = leaf_of s q ix) \<and>
    (\<forall>ix. leaf_of s' p ix = (if 256 \<le> fst ix then leaf_of s c ix else 0)) \<and>
    proc_x64 s' p = Some \<lparr>pml4_phys_addr = phys_of s c (new_pte - new_pte mod MEM_PAGE_SIZE) + new_pte mod MEM_PAGE_SIZE,
      pml4_virt_addr = new_pte\<rparr>"
proof -
  let ?l = "pml4_table_list s" and ?h = "hd (pml4_table_list s)"
  have pr: "procs_ok s" using assms(1) by (simp add: pt_ok_def)
  have ne: "?l \<noteq> []" and h: "?h \<in> set ?l" using assms(4) by (cases ?l; auto)+
  obtain d where d: "proc_x64 s ?h = Some d" using procs_ok_data [OF pr h] .
  let ?T = "copy_kernel_half (pml4_entry s ?h) (\<lambda>_. 0)"
  let ?s1 = "s\<lparr>pml4_mem := (pml4_mem s)(new_pte := ?T)\<rparr>"
  have nl: "proc_x64 s q = Some e \<Longrightarrow> q \<in> set ?l \<Longrightarrow> pml4_virt_addr e \<noteq> new_pte" for q e
    using assms(8) by (auto simp: not_listed_def)
  have e1: "pml4_entry ?s1 q = pml4_entry s q" if "q \<in> set ?l" for q
    using nl [OF _ that] by (intro ext) (auto simp: pml4_entry_def split: option.split)
  have pr1: "procs_ok ?s1" by (rule procs_ok_cong [OF pr]) (simp_all add: e1)
  have l1: "set ?l \<subseteq> set (pml4_table_list ?s1)" "set (pml4_table_list ?s1) \<subseteq> insert p (set ?l)" by auto
  have n1: "p \<in> set (pml4_table_list ?s1) \<Longrightarrow> pml4_entry ?s1 p = (\<lambda>i. if 256 \<le> i then pml4_entry s ?h i else 0)"
    using assms(5) by simp
  note x1 = extend_tables [OF assms(1) pr1 h assms(5) l1 _ _ _ e1 n1]
  have ok1: "pt_ok ?s1" by (rule x1(1)) simp_all
  have "pdpt_of ?s1 c = pdpt_of s c" "leaf_of ?s1 c ix = leaf_of s c ix" "pd_in ?s1 = pd_in s" for ix
    using x1(4) [of c] x1(2) [of c ix] x1(5) assms(4) by simp_all
  then have ph: "phys_of ?s1 c v = phys_of s c v" for v by (simp add: phys_of_def split: prod.split option.split)
  obtain s2 where s2: "mem_get_phys_addr cur (new_pte - new_pte mod MEM_PAGE_SIZE) None ?s1 =
      Some (phys_of s c (new_pte - new_pte mod MEM_PAGE_SIZE), s2)" "same_tables ?s1 s2"
    using get_phys_exact [OF ok1 _ assms(3), of "new_pte - new_pte mod MEM_PAGE_SIZE"] assms(4) ph by auto
  let ?d = "\<lparr>pml4_phys_addr = phys_of s c (new_pte - new_pte mod MEM_PAGE_SIZE) + new_pte mod MEM_PAGE_SIZE, pml4_virt_addr = new_pte\<rparr>"
  let ?s3 = "s2\<lparr>pml4_table_list := ?l @ [p], proc_x64 := (proc_x64 s2)(p \<mapsto> ?d), known_pml4s := known_pml4s s2 + 1\<rparr>"
  have hm: "pml4_mem s (pml4_virt_addr d) = pml4_entry s ?h" using d by (intro ext) (simp add: pml4_entry_def)
  have hd3: "hd (?l @ [p]) = ?h" using ne by simp
  have dn: "pml4_virt_addr d \<noteq> new_pte" by (rule nl [OF d h])
  have sw: "?s1\<lparr>pml4_table_list := ?l @ [p]\<rparr> = s\<lparr>pml4_table_list := ?l @ [p], pml4_mem := (pml4_mem s)(new_pte := ?T)\<rparr>" by simp
  note g = get_phys_list [OF s2(1), of "?l @ [p]", unfolded sw]
  have r: "mem_x64_pml4_allocate cur new_pte p s = Some ?s3"
    using assms(2,6) d hm dn g by (simp add: mem_x64_pml4_allocate_def Let_def hd3)
  note st = s2(2) [unfolded same_tables_def]
  have e3: "pml4_entry ?s3 q = (if q = p then ?T else pml4_entry s q)" if "q \<in> insert p (set ?l)" for q
  proof (cases "q = p")
    case False
    then have "pml4_entry ?s3 q = pml4_entry ?s1 q" using st by (intro ext) (simp add: pml4_entry_def split: option.split)
    then show ?thesis using False that e1 by simp
  qed (use st in \<open>intro ext, simp add: pml4_entry_def\<close>)
  have w3: "working_entry ?s3 \<noteq> None" "valid_phys_bit_mask ?s3 = valid_phys_bit_mask s"
    using st working_entry_ok [OF assms(1)] by auto
  have d3: "proc_x64 ?s3 q = (if q = p then Some ?d else proc_x64 s q)" for q using st by simp
  have dd: "\<forall>q \<in> set ?l. \<exists>e. proc_x64 s q = Some e \<and> pml4_virt_addr e \<noteq> 0" using pr unfolding procs_ok_def by blast
  have inj: "\<forall>a \<in> set ?l. \<forall>b \<in> set ?l. map_option pml4_virt_addr (proc_x64 s a) = map_option pml4_virt_addr (proc_x64 s b) \<longrightarrow> a = b"
    using pr unfolding procs_ok_def by blast
  have p3: "procs_ok ?s3"
    unfolding procs_ok_def
  proof (intro conjI ballI allI impI)
    show "valid_phys_bit_mask ?s3 \<noteq> 0" using pr unfolding w3 procs_ok_def by blast
    show "\<exists>e. proc_x64 ?s3 q = Some e \<and> pml4_virt_addr e \<noteq> 0" if "q \<in> set (pml4_table_list ?s3)" for q
      using that assms(7) dd unfolding d3 by auto
    show "a = b" if "a \<in> set (pml4_table_list ?s3)" "b \<in> set (pml4_table_list ?s3)"
      "map_option pml4_virt_addr (proc_x64 ?s3 a) = map_option pml4_virt_addr (proc_x64 ?s3 b)" for a b
      using that assms(8) inj unfolding d3 not_listed_def by (cases "a = p"; cases "b = p") (auto dest: sym)
    show "pml4_entry ?s3 a i = pml4_entry ?s3 b i"
      if q: "a \<in> set (pml4_table_list ?s3)" "b \<in> set (pml4_table_list ?s3)" and i: "256 \<le> i" for a b i
    proof -
      have "pml4_entry ?s3 a i = pml4_entry s ?h i" if "a \<in> insert p (set ?l)" for a
        using e3 [OF that] i procs_ok_shared [OF pr _ h i, of a] that by (auto simp: copy_kernel_half_def)
      then show ?thesis using q by simp
    qed
  qed (use w3 in simp)
  have "pml4_entry ?s3 p = (\<lambda>i. if 256 \<le> i then pml4_entry s ?h i else 0)" using e3 [of p] by (simp add: copy_kernel_half_def)
  moreover have "pml4_entry ?s3 q = pml4_entry s q" if "q \<in> set ?l" for q using e3 [of q] that assms(5) by auto
  ultimately have "pt_ok ?s3 \<and> (\<forall>q \<in> set ?l. \<forall>ix. leaf_of ?s3 q ix = leaf_of s q ix) \<and>
      (\<forall>ix. leaf_of ?s3 p ix = (if 256 \<le> fst ix then leaf_of s ?h ix else 0))"
    using extend_tables [OF assms(1) p3 h assms(5)] st by (simp add: subset_insertI)
  moreover have "leaf_of s ?h ix = leaf_of s c ix" if "256 \<le> fst ix" for ix
    by (rule leaf_shared [OF pr assms(4) h]) (use that in \<open>simp add: same_slot_def\<close>)
  ultimately show ?thesis using r by simp
qed

theorem pml4_allocate_correct_witness:
  "\<exists>s'. mem_x64_pml4_allocate None 0xFFFF800000002000 7 sample_pt = Some s' \<and> pt_ok s' \<and> pml4_table_list s' = [0, 7] \<and>
     leaf_of s' 7 (0, 0, 0) = 0"
  using pml4_allocate_correct [OF sample_pt_ok _ sample_pt_list(2,1), of 7 "0xFFFF800000002000"]
  by (simp add: sample_pt_def not_listed_def) (metis fst_conv zero_neq_numeral le_zero_eq)

text \<open>The test for canonical addresses ignores bit 47: it accepts an address that the processor does not.\<close>

lemma valid_virt_addr_not_canonical: "mem_is_valid_virt_addr 0x800000000000 \<and> \<not> canonical 0x800000000000"
  by (simp add: mem_is_valid_virt_addr_def canonical_def)

end
