(* ===== verification/Mem_Map.thy ===== *)
theory Mem_Map
  imports Vmm Page_Tables
begin

text \<open>
  Address spaces: \<open>kernel/mem/mapping.cpp\<close> and \<open>kernel/mem/misc.cpp\<close>. The functions here put the virtual memory manager, the
  physical page allocator and the page tables together: they map ranges of pages, count the uses
  of each physical page and release a page with its last use. An index beyond the counter table is undefined behaviour in
  the code and has no result here.
\<close>

subsection \<open>Operations\<close>

record mem_state =
  pt :: pt_state
  page_use_counters :: "u32 list"
  vmm :: vmm_state

definition mem_map_init_counters :: "mem_state \<Rightarrow> mem_state" where
  "mem_map_init_counters s = s\<lparr>page_use_counters := replicate MEM_MAX_SUPPORTED_PAGES 0\<rparr>"

definition phys_page_num :: "u64 \<Rightarrow> nat" where
  "phys_page_num phys_addr = unat (ucast (phys_addr div MEM_PAGE_SIZE) :: u32)"

definition mem_map_virtual_page ::
  "nat option \<Rightarrow> u64 \<Rightarrow> u64 \<Rightarrow> nat option \<Rightarrow> u8 \<Rightarrow> mem_state \<Rightarrow> mem_state option" where
  "mem_map_virtual_page cur virt_addr phys_addr context cache_mode s = do {
     t \<leftarrow> mem_x64_map_virtual_page cur virt_addr phys_addr context cache_mode (pt s);
     let s = s\<lparr>pt := t\<rparr>;
     ASSERT (phys_addr mod MEM_PAGE_SIZE = 0);
     let n = phys_page_num phys_addr;
     Some (if n < MEM_MAX_SUPPORTED_PAGES \<and> page_use_counters s ! n < 0xFFFFFFFF
           then s\<lparr>page_use_counters := (page_use_counters s)[n := page_use_counters s ! n + 1]\<rparr> else s)
   }"

definition mem_unmap_virtual_page :: "nat option \<Rightarrow> u64 \<Rightarrow> nat option \<Rightarrow> bool \<Rightarrow> mem_state \<Rightarrow> mem_state option" where
  "mem_unmap_virtual_page cur virt_addr context allow_phys_page_free s = do {
     (phys_addr, t) \<leftarrow> mem_get_phys_addr cur virt_addr context (pt s);
     t \<leftarrow> mem_x64_unmap_virtual_page cur virt_addr context t;
     let s = s\<lparr>pt := t\<rparr>;
     if phys_addr \<noteq> 0 then do {
       ASSERT (phys_addr mod MEM_PAGE_SIZE = 0);
       let n = phys_page_num phys_addr;
       ASSERT (n < length (page_use_counters s));
       let s = (if page_use_counters s ! n > 0
                then s\<lparr>page_use_counters := (page_use_counters s)[n := page_use_counters s ! n - 1]\<rparr> else s);
       if page_use_counters s ! n = 0 \<and> allow_phys_page_free then do {
         p \<leftarrow> mem_deallocate_physical_pages phys_addr 1 (pm (pt s));
         Some (s\<lparr>pt := (pt s)\<lparr>pm := p\<rparr>\<rparr>)
       } else Some s
     } else Some s
   }"

fun map_range_loop ::
  "nat \<Rightarrow> nat option \<Rightarrow> u64 \<Rightarrow> u64 \<Rightarrow> nat option \<Rightarrow> u8 \<Rightarrow> mem_state \<Rightarrow> mem_state option" where
  "map_range_loop 0 cur cur_virt_addr cur_phys_addr context cache_mode s = Some s"
| "map_range_loop (Suc k) cur cur_virt_addr cur_phys_addr context cache_mode s = do {
     s \<leftarrow> mem_map_virtual_page cur cur_virt_addr cur_phys_addr context cache_mode s;
     map_range_loop k cur (cur_virt_addr + MEM_PAGE_SIZE) (cur_phys_addr + MEM_PAGE_SIZE) context cache_mode s
   }"

definition mem_map_range ::
  "nat option \<Rightarrow> u64 \<Rightarrow> u64 \<Rightarrow> u32 \<Rightarrow> nat option \<Rightarrow> u8 \<Rightarrow> mem_state \<Rightarrow> mem_state option" where
  "mem_map_range cur physical_start virtual_start len context cache_mode s = do {
     ASSERT (physical_start mod MEM_PAGE_SIZE = 0);
     ASSERT (virtual_start mod MEM_PAGE_SIZE = 0);
     ASSERT (len > 0);
     map_range_loop (unat len) cur virtual_start physical_start context cache_mode s
   }"

fun unmap_range_loop :: "nat \<Rightarrow> nat option \<Rightarrow> u64 \<Rightarrow> nat option \<Rightarrow> bool \<Rightarrow> mem_state \<Rightarrow> mem_state option" where
  "unmap_range_loop 0 cur cur_virt_addr context allow s = Some s"
| "unmap_range_loop (Suc k) cur cur_virt_addr context allow s = do {
     s \<leftarrow> mem_unmap_virtual_page cur cur_virt_addr context allow s;
     unmap_range_loop k cur (cur_virt_addr + MEM_PAGE_SIZE) context allow s
   }"

definition mem_unmap_range :: "nat option \<Rightarrow> u64 \<Rightarrow> u32 \<Rightarrow> nat option \<Rightarrow> bool \<Rightarrow> mem_state \<Rightarrow> mem_state option" where
  "mem_unmap_range cur virtual_start num_pages context allow s = do {
     ASSERT (virtual_start mod MEM_PAGE_SIZE = 0);
     unmap_range_loop (unat num_pages) cur virtual_start context allow s
   }"

fun allocate_pages_loop :: "nat \<Rightarrow> nat option \<Rightarrow> u64 \<Rightarrow> mem_state \<Rightarrow> mem_state option" where
  "allocate_pages_loop 0 cur cur_virtual_addr s = Some s"
| "allocate_pages_loop (Suc k) cur cur_virtual_addr s = do {
     (cur_phys_addr, p) \<leftarrow> mem_allocate_physical_pages 1 (pm (pt s));
     s \<leftarrow> mem_map_range cur cur_phys_addr cur_virtual_addr 1 None WRITE_BACK (s\<lparr>pt := (pt s)\<lparr>pm := p\<rparr>\<rparr>);
     allocate_pages_loop k cur (cur_virtual_addr + MEM_PAGE_SIZE) s
   }"

definition mem_allocate_pages :: "nat option \<Rightarrow> nat option \<Rightarrow> u32 \<Rightarrow> mem_state \<Rightarrow> (u64 \<times> mem_state) option" where
  "mem_allocate_pages cur_thread cur num_pages s = do {
     ASSERT (num_pages \<noteq> 0);
     (return_addr, v) \<leftarrow> mem_allocate_virtual_range cur_thread num_pages Kernel (vmm s);
     s \<leftarrow> allocate_pages_loop (unat num_pages) cur return_addr (s\<lparr>vmm := v\<rparr>);
     Some (return_addr, s)
   }"

definition mem_deallocate_pages :: "nat option \<Rightarrow> u64 \<Rightarrow> u32 \<Rightarrow> mem_state \<Rightarrow> mem_state option" where
  "mem_deallocate_pages cur virtual_start num_pages s = do {
     ASSERT (num_pages \<noteq> 0);
     ASSERT (virtual_start mod MEM_PAGE_SIZE = 0);
     mem_unmap_range cur virtual_start num_pages None True s
   }"

subsection \<open>Runs of page operations\<close>

primrec run_steps :: "('r \<Rightarrow> 's \<Rightarrow> 's option) \<Rightarrow> 'r list \<Rightarrow> 's \<Rightarrow> 's option" where
  "run_steps step [] s = Some s"
| "run_steps step (r # rs) s = step r s \<bind> run_steps step rs"

text \<open>
  The contract of an operation on one page that a loop repeats over a range: a request \<open>r\<close> covers some pages, and if these are
  free and there is \<open>cost\<close> room left, the operation gives them an entry that is \<open>good\<close> for the request,
  leaves all other pages alone and takes what the entry uses out of the pool.
\<close>

locale page_steps =
  fixes inv :: "'s \<Rightarrow> bool" and leaf :: "'s \<Rightarrow> 'x \<Rightarrow> 'w" and covers :: "'r \<Rightarrow> 'x set"
    and step :: "'r \<Rightarrow> 's \<Rightarrow> 's option" and free :: "'w \<Rightarrow> bool" and good :: "'r \<Rightarrow> 'w \<Rightarrow> bool"
    and valid :: "'r \<Rightarrow> bool"
    and cost :: nat and room :: "'s \<Rightarrow> nat" and pool :: "'s \<Rightarrow> 'p set" and uses :: "'w \<Rightarrow> 'p set"
  assumes step: "inv s \<Longrightarrow> valid r \<Longrightarrow> cost \<le> room s \<Longrightarrow> (\<And>x. x \<in> covers r \<Longrightarrow> free (leaf s x)) \<Longrightarrow>
    \<exists>s' w. step r s = Some s' \<and> inv s' \<and> room s \<le> room s' + cost \<and> good r w \<and> uses w \<subseteq> pool s \<and>
      pool s' \<subseteq> pool s - uses w \<and> (\<forall>x. leaf s' x = (if x \<in> covers r then w else leaf s x))"
begin

lemma run_all:
  assumes "inv s" and "cost * length rs \<le> room s"
    and "\<And>r x. r \<in> set rs \<Longrightarrow> x \<in> covers r \<Longrightarrow> free (leaf s x)"
    and "\<And>i j. i < j \<Longrightarrow> j < length rs \<Longrightarrow> covers (rs ! i) \<inter> covers (rs ! j) = {}"
    and "\<And>r. r \<in> set rs \<Longrightarrow> valid r"
  shows "\<exists>s' ws. run_steps step rs s = Some s' \<and> inv s' \<and> length ws = length rs \<and>
    (\<forall>i < length rs. good (rs ! i) (ws ! i) \<and> uses (ws ! i) \<subseteq> pool s \<and> (\<forall>x \<in> covers (rs ! i). leaf s' x = ws ! i)) \<and>
    (\<forall>i j. i < j \<longrightarrow> j < length rs \<longrightarrow> uses (ws ! i) \<inter> uses (ws ! j) = {}) \<and>
    (\<forall>x. (\<forall>r \<in> set rs. x \<notin> covers r) \<longrightarrow> leaf s' x = leaf s x) \<and> pool s' \<subseteq> pool s"
  using assms
proof (induction rs arbitrary: s)
  case Nil
  then show ?case by simp
next
  case (Cons r rs)
  have c: "valid r" "cost \<le> room s" "\<And>x. x \<in> covers r \<Longrightarrow> free (leaf s x)" using Cons.prems(2,3,5) by auto
  obtain s1 w where s1: "step r s = Some s1" "inv s1" "room s \<le> room s1 + cost" "good r w" "uses w \<subseteq> pool s"
    "pool s1 \<subseteq> pool s - uses w" "\<forall>x. leaf s1 x = (if x \<in> covers r then w else leaf s x)"
    using step [OF Cons.prems(1) c(1,2) c(3)] by blast
  have dis: "covers r \<inter> covers r' = {}" if "r' \<in> set rs" for r'
  proof -
    obtain j where "j < length rs" "rs ! j = r'" using \<open>r' \<in> set rs\<close> by (auto simp: in_set_conv_nth)
    then show ?thesis using Cons.prems(4) [of 0 "Suc j"] by simp
  qed
  have "\<exists>s' ws. run_steps step rs s1 = Some s' \<and> inv s' \<and> length ws = length rs \<and>
    (\<forall>i < length rs. good (rs ! i) (ws ! i) \<and> uses (ws ! i) \<subseteq> pool s1 \<and> (\<forall>x \<in> covers (rs ! i). leaf s' x = ws ! i)) \<and>
    (\<forall>i j. i < j \<longrightarrow> j < length rs \<longrightarrow> uses (ws ! i) \<inter> uses (ws ! j) = {}) \<and>
    (\<forall>x. (\<forall>r \<in> set rs. x \<notin> covers r) \<longrightarrow> leaf s' x = leaf s1 x) \<and> pool s' \<subseteq> pool s1"
  proof (rule Cons.IH)
    show "cost * length rs \<le> room s1" using Cons.prems(2) s1(3) by simp
    show "free (leaf s1 x)" if "r' \<in> set rs" "x \<in> covers r'" for r' x
      using dis [OF that(1)] that s1(7) Cons.prems(3) by auto
    show "covers (rs ! i) \<inter> covers (rs ! j) = {}" if "i < j" "j < length rs" for i j
      using Cons.prems(4) [of "Suc i" "Suc j"] that by simp
  qed (use s1(2) Cons.prems(5) in simp_all)
  then obtain s' ws where ws: "run_steps step rs s1 = Some s'" "inv s'" "length ws = length rs"
    "\<forall>i < length rs. good (rs ! i) (ws ! i) \<and> uses (ws ! i) \<subseteq> pool s1 \<and> (\<forall>x \<in> covers (rs ! i). leaf s' x = ws ! i)"
    "\<forall>i j. i < j \<longrightarrow> j < length rs \<longrightarrow> uses (ws ! i) \<inter> uses (ws ! j) = {}"
    "\<forall>x. (\<forall>r \<in> set rs. x \<notin> covers r) \<longrightarrow> leaf s' x = leaf s1 x" "pool s' \<subseteq> pool s1" by blast
  show ?case
  proof (intro exI [of _ s'] exI [of _ "w # ws"] conjI allI impI ballI)
    fix i assume i: "i < length (r # rs)"
    show "good ((r # rs) ! i) ((w # ws) ! i)" using s1(4) ws(4) i by (cases i) auto
    show "uses ((w # ws) ! i) \<subseteq> pool s" using s1(5,6) ws(4) i by (cases i) auto
    show "leaf s' x = (w # ws) ! i" if x: "x \<in> covers ((r # rs) ! i)" for x
    proof (cases i)
      case 0
      then have "\<forall>r' \<in> set rs. x \<notin> covers r'" using x dis by auto
      then show ?thesis using ws(6) s1(7) x 0 by simp
    qed (use x ws(4) i in auto)
  next
    fix i j assume "i < j" "j < length (r # rs)"
    then obtain j' where j: "j = Suc j'" "j' < length rs" by (cases j) auto
    show "uses ((w # ws) ! i) \<inter> uses ((w # ws) ! j) = {}"
    proof (cases i)
      case 0
      then show ?thesis using ws(4) j s1(6) by auto
    next
      case (Suc i')
      then show ?thesis using ws(5) \<open>i < j\<close> j by simp
    qed
  next
    fix x assume "\<forall>r' \<in> set (r # rs). x \<notin> covers r'"
    then show "leaf s' x = leaf s x" using ws(6) s1(7) by simp
  qed (use s1 ws in auto)
qed

lemma run_range:
  assumes "inv s" and "cost * n \<le> room s"
    and "\<And>i x. i < n \<Longrightarrow> x \<in> covers (f i) \<Longrightarrow> free (leaf s x)"
    and "\<And>i j. i < j \<Longrightarrow> j < n \<Longrightarrow> covers (f i) \<inter> covers (f j) = {}"
    and "\<And>i. i < n \<Longrightarrow> valid (f i)"
  shows "\<exists>s' w. run_steps step (map f [0..<n]) s = Some s' \<and> inv s' \<and>
    (\<forall>i < n. good (f i) (w i) \<and> uses (w i) \<subseteq> pool s \<and> (\<forall>x \<in> covers (f i). leaf s' x = w i)) \<and>
    (\<forall>i j. i < j \<longrightarrow> j < n \<longrightarrow> uses (w i) \<inter> uses (w j) = {}) \<and>
    (\<forall>x. (\<forall>i < n. x \<notin> covers (f i)) \<longrightarrow> leaf s' x = leaf s x) \<and> pool s' \<subseteq> pool s"
proof -
  let ?rs = "map f [0..<n]"
  have "\<exists>s' ws. run_steps step ?rs s = Some s' \<and> inv s' \<and> length ws = length ?rs \<and>
    (\<forall>i < length ?rs. good (?rs ! i) (ws ! i) \<and> uses (ws ! i) \<subseteq> pool s \<and> (\<forall>x \<in> covers (?rs ! i). leaf s' x = ws ! i)) \<and>
    (\<forall>i j. i < j \<longrightarrow> j < length ?rs \<longrightarrow> uses (ws ! i) \<inter> uses (ws ! j) = {}) \<and>
    (\<forall>x. (\<forall>r \<in> set ?rs. x \<notin> covers r) \<longrightarrow> leaf s' x = leaf s x) \<and> pool s' \<subseteq> pool s"
    by (rule run_all) (use assms in auto)
  then obtain s' ws where r: "run_steps step ?rs s = Some s'" "inv s'" "pool s' \<subseteq> pool s"
    "\<forall>i < n. good (f i) (ws ! i) \<and> uses (ws ! i) \<subseteq> pool s \<and> (\<forall>x \<in> covers (f i). leaf s' x = ws ! i)"
    "\<forall>i j. i < j \<longrightarrow> j < n \<longrightarrow> uses (ws ! i) \<inter> uses (ws ! j) = {}"
    "\<forall>x. (\<forall>r \<in> set ?rs. x \<notin> covers r) \<longrightarrow> leaf s' x = leaf s x" by auto
  then show ?thesis by (intro exI [of _ s'] exI [of _ "\<lambda>i. ws ! i"]) auto
qed

end

subsection \<open>Pages of a range\<close>

definition nth_page :: "u64 \<Rightarrow> nat \<Rightarrow> u64" where
  "nth_page v i = v + of_nat i * MEM_PAGE_SIZE"

lemma nth_page_Suc: "nth_page v (Suc i) = nth_page (v + MEM_PAGE_SIZE) i"
  by (simp add: nth_page_def algebra_simps)

lemma nth_page_0 [simp]: "nth_page v 0 = v"
  by (simp add: nth_page_def)

lemma unat_nth_page:
  assumes "unat v + n * 2 ^ 21 \<le> 2 ^ 64" "i < n"
  shows "unat (nth_page v i) = unat v + i * 2 ^ 21"
proof -
  have "(i + 1) * 2 ^ 21 \<le> n * 2 ^ 21" using assms(2) by (intro mult_le_mono1) simp
  then have lt: "unat v + i * 2 ^ 21 < 2 ^ 64" using assms(1) by simp
  then have "unat (of_nat i :: u64) = i" by (intro unat_of_nat_u64) simp
  then have m: "unat (of_nat i * MEM_PAGE_SIZE) = i * 2 ^ 21" using lt by (simp add: unat_word_ariths)
  show ?thesis unfolding nth_page_def using lt by (subst unat_add_no_wrap) (simp_all add: m)
qed

lemma nth_page_ix_inj:
  assumes r: "unat v + n * 2 ^ 21 \<le> 2 ^ 64" and c: "\<And>i. i < n \<Longrightarrow> canonical (nth_page v i)" and ij: "i < n" "j < n" "i \<noteq> j"
  shows "page_ix (nth_page v i) \<noteq> page_ix (nth_page v j)"
proof
  assume "page_ix (nth_page v i) = page_ix (nth_page v j)"
  then have "drop_bit 21 (nth_page v i) = drop_bit 21 (nth_page v j)" using page_ix_inj c ij by blast
  then have "unat (nth_page v i) div 2 ^ 21 = unat (nth_page v j) div 2 ^ 21"
    by (metis drop_bit_eq_div unat_div unat_exp_u64 numeral_less_iff semiring_norm(76,78,81))
  then have "(unat v + i * 2 ^ 21) div 2 ^ 21 = (unat v + j * 2 ^ 21) div 2 ^ 21"
    by (simp only: unat_nth_page [OF r ij(1)] unat_nth_page [OF r ij(2)])
  then show False using ij(3) by simp
qed

text \<open>The pages of all processes, as the entries their tables hold.\<close>

definition slots :: "nat list \<Rightarrow> nat \<Rightarrow> u64 \<Rightarrow> (nat \<times> page_ix) set" where
  "slots L p v = {(q, ix). q \<in> set L \<and> valid_ix ix \<and> same_slot p q (page_ix v) ix}"

definition entry :: "mem_state \<Rightarrow> nat \<times> page_ix \<Rightarrow> u64" where
  "entry s x = (case x of (q, ix) \<Rightarrow> if q \<in> set (pml4_table_list (pt s)) \<and> valid_ix ix then leaf_of (pt s) q ix else 0)"

definition mem_ok :: "nat list \<Rightarrow> nat \<Rightarrow> u64 \<Rightarrow> nat set \<Rightarrow> mem_state \<Rightarrow> bool" where
  "mem_ok L p m K s \<longleftrightarrow> pt_ok (pt s) \<and> pml4_table_list (pt s) = L \<and> p \<in> set L \<and> valid_phys_bit_mask (pt s) = m \<and>
     (\<forall>i \<in> K. pdpt_of (pt s) p i \<noteq> None) \<and> length (page_use_counters s) = MEM_MAX_SUPPORTED_PAGES"

lemma sets_page_entry:
  assumes "sets_page p v w t (pt s')" and "pml4_table_list t = L" and "t = pt s"
  shows "entry s' x = (if x \<in> slots L p v then w else entry s x)"
proof -
  obtain q ix where x: "x = (q, ix)" by (cases x)
  have l: "pml4_table_list (pt s') = L" using assms(1,2) by (simp add: sets_page_def)
  show ?thesis
  proof (cases "q \<in> set L \<and> valid_ix ix")
    case True
    then have "leaf_of (pt s') q ix = (if same_slot p q (page_ix v) ix then w else leaf_of t q ix)"
      using assms(1,2) unfolding sets_page_def by blast
    then show ?thesis using True l assms(2,3) by (simp add: entry_def slots_def x)
  next
    case False
    then show ?thesis using l assms(2,3) by (auto simp: entry_def slots_def x)
  qed
qed

lemma slots_disjoint: "page_ix v \<noteq> page_ix v' \<Longrightarrow> slots L p v \<inter> slots L p v' = {}"
  by (auto simp: slots_def same_slot_def)

lemma own_slot: "p \<in> set L \<Longrightarrow> (p, page_ix v) \<in> slots L p v"
  by (simp add: slots_def same_slot_def)

text \<open>Mapping one page, as a step of a run.\<close>

definition map_valid :: "u64 \<Rightarrow> nat set \<Rightarrow> u8 \<Rightarrow> u64 \<times> u64 \<Rightarrow> bool" where
  "map_valid m K c r \<longleftrightarrow> (case r of (v, a) \<Rightarrow> canonical v \<and> a mod MEM_PAGE_SIZE = 0 \<and> encodable (a AND m) c \<and>
     (is_kernel_allocation v \<longrightarrow> pml4_entry_idx v \<in> K))"

definition map_good :: "u64 \<Rightarrow> u8 \<Rightarrow> u64 \<times> u64 \<Rightarrow> u64 \<Rightarrow> bool" where
  "map_good m c r w \<longleftrightarrow> (case r of (v, a) \<Rightarrow>
     mem_encode_page_table_entry (page_entry (a AND m) (is_kernel_allocation v) c) = Some w)"

lemma tables_needed_le: "tables_needed s p v \<le> (if pdpt_of s p (pml4_entry_idx v) = None then 2 else 1)"
  by (auto simp: tables_needed_def split: option.split)

lemma map_one_page:
  assumes ok: "mem_ok L p m K s" and pr: "the_process cur context = p" and v: "map_valid m K c (v, a)"
    and room: "tables_needed (pt s) p v \<le> card (fresh (pt s))" and free: "\<And>x. x \<in> slots L p v \<Longrightarrow> \<not> PT_MARKED_PRESENT (entry s x)"
  shows "\<exists>s' w. mem_map_virtual_page cur v a context c s = Some s' \<and> mem_ok L p m K s' \<and> vmm s' = vmm s \<and>
    map_good m c (v, a) w \<and> card (fresh (pt s')) = card (fresh (pt s)) - tables_needed (pt s) p v \<and>
    pool_shrinks (pm (pt s)) (pm (pt s')) \<and> (\<forall>x. entry s' x = (if x \<in> slots L p v then w else entry s x))"
proof -
  note o = ok [unfolded mem_ok_def]
  have "\<not> PT_MARKED_PRESENT (leaf_of (pt s) p (page_ix v))"
    using free [OF own_slot [of p L v]] o by (simp add: entry_def)
  then have mp: "mappable p v a c (pt s)" using o v room by (simp add: mappable_def map_valid_def)
  have can: "is_kernel_allocation v \<longleftrightarrow> 256 \<le> pml4_entry_idx v" using v canonical_kernel by (simp add: map_valid_def)
  obtain t w where t: "mem_x64_map_virtual_page cur v a context c (pt s) = Some t" "sets_page p v w (pt s) t"
    "mem_encode_page_table_entry (page_entry (a AND m) (is_kernel_allocation v) c) = Some w"
    "card (fresh t) = card (fresh (pt s)) - tables_needed (pt s) p v"
    using map_page_exact [OF _ _ pr can, of "pt s" a c] o mp by auto
  obtain s' where s': "mem_map_virtual_page cur v a context c s = Some s'" "pt s' = t" "vmm s' = vmm s"
    "length (page_use_counters s') = length (page_use_counters s)"
    using t(1) v by (simp add: mem_map_virtual_page_def map_valid_def Let_def assert_simps)
  have "mem_ok L p m K s'"
    using o s'(2,4) t(2) unfolding mem_ok_def sets_page_def pdpts_kept_def by fastforce
  moreover have "pool_shrinks (pm (pt s)) (pm t)" using t(2) unfolding sets_page_def by blast
  moreover have "entry s' x = (if x \<in> slots L p v then w else entry s x)" for x
    using sets_page_entry [of p v w "pt s" s' L s x] t(2) s'(2) o by simp
  ultimately show ?thesis using s' t(3,4) by (intro exI [of _ s'] exI [of _ w]) (auto simp: map_good_def)
qed

interpretation map_run: page_steps "mem_ok L (the_process cur ctx) m K" entry "\<lambda>(v, a). slots L (the_process cur ctx) v"
  "\<lambda>(v, a) s. mem_map_virtual_page cur v a ctx c s" "\<lambda>w. \<not> PT_MARKED_PRESENT w" "map_good m c" "map_valid m K c" 2
  "\<lambda>s. card (fresh (pt s))" "\<lambda>_. {} :: unit set" "\<lambda>_. {}" for L cur ctx m K c
proof
  fix s and r :: "u64 \<times> u64"
  obtain v a where r: "r = (v, a)" by (cases r)
  assume ok: "mem_ok L (the_process cur ctx) m K s" and v: "map_valid m K c r" and room: "2 \<le> card (fresh (pt s))"
    and free: "\<And>x. x \<in> (case r of (v, a) \<Rightarrow> slots L (the_process cur ctx) v) \<Longrightarrow> \<not> PT_MARKED_PRESENT (entry s x)"
  have n: "tables_needed (pt s) (the_process cur ctx) v \<le> 2" using tables_needed_le by (rule order_trans) simp
  show "\<exists>s' w. (case r of (v, a) \<Rightarrow> \<lambda>s. mem_map_virtual_page cur v a ctx c s) s = Some s' \<and>
      mem_ok L (the_process cur ctx) m K s' \<and> card (fresh (pt s)) \<le> card (fresh (pt s')) + 2 \<and> map_good m c r w \<and>
      {} \<subseteq> ({} :: unit set) \<and> {} \<subseteq> ({} :: unit set) - {} \<and>
      (\<forall>x. entry s' x = (if x \<in> (case r of (v, a) \<Rightarrow> slots L (the_process cur ctx) v) then w else entry s x))"
    using map_one_page [OF ok refl, of c v a] v free n room by (auto simp: r)
qed

lemma map_range_run:
  "map_range_loop n cur v a context c s =
     run_steps (\<lambda>(v, a) s. mem_map_virtual_page cur v a context c s) (map (\<lambda>i. (nth_page v i, nth_page a i)) [0..<n]) s"
proof (induction n arbitrary: v a s)
  case (Suc n)
  have "[0..<Suc n] = 0 # map Suc [0..<n]" by (simp add: map_Suc_upt upt_conv_Cons)
  then show ?case using Suc
    by (cases "mem_map_virtual_page cur v a context c s") (simp_all add: nth_page_Suc comp_def del: upt_Suc)
qed simp

lemma nth_page_aligned:
  assumes "a mod MEM_PAGE_SIZE = 0"
  shows "nth_page a i mod MEM_PAGE_SIZE = 0"
proof -
  have "nth_page a i = of_nat (unat a + i * 2 ^ 21)" by (simp add: nth_page_def MEM_PAGE_SIZE_def)
  then have "unat (nth_page a i) mod 2 ^ 21 = (unat a + i * 2 ^ 21) mod 2 ^ 64 mod 2 ^ 21" by (simp only: unat_of_nat) simp
  also have "\<dots> = (unat a + i * 2 ^ 21) mod 2 ^ 21" by (rule mod_mod_cancel) (simp add: le_imp_power_dvd)
  also have "\<dots> = unat a mod 2 ^ 21" by simp
  also have "\<dots> = 0" using assms by (simp add: unat_mod flip: unat_eq_zero)
  finally show ?thesis by (simp add: unat_mod flip: unat_eq_zero)
qed

text \<open>
  Mapping a range of pages that are all unmapped, at canonical addresses, with memory for two tables per page: the call returns, each page of the range has the entry for its own
  physical page, for all the processes that share it, and no other page of any process changes.
\<close>

theorem map_range_correct:
  assumes "mem_ok L p m K s" and "p = the_process cur context" and "len > 0"
    and "a mod MEM_PAGE_SIZE = 0" and "v mod MEM_PAGE_SIZE = 0" and "unat v + unat len * 2 ^ 21 \<le> 2 ^ 64"
    and "\<And>i. i < unat len \<Longrightarrow> map_valid m K c (nth_page v i, nth_page a i)"
    and "\<And>i x. i < unat len \<Longrightarrow> x \<in> slots L p (nth_page v i) \<Longrightarrow> \<not> PT_MARKED_PRESENT (entry s x)"
    and "2 * unat len \<le> card (fresh (pt s))"
  shows "\<exists>s'. mem_map_range cur a v len context c s = Some s' \<and> mem_ok L p m K s' \<and>
    (\<forall>i < unat len. \<forall>x \<in> slots L p (nth_page v i). \<exists>w. entry s' x = w \<and>
       mem_encode_page_table_entry (page_entry (nth_page a i AND m) (is_kernel_allocation (nth_page v i)) c) = Some w) \<and>
    (\<forall>x. (\<forall>i < unat len. x \<notin> slots L p (nth_page v i)) \<longrightarrow> entry s' x = entry s x)"
proof -
  have can: "canonical (nth_page v i)" if "i < unat len" for i using assms(7) [OF that] by (simp add: map_valid_def)
  have dis: "slots L p (nth_page v i) \<inter> slots L p (nth_page v j) = {}" if "i < j" "j < unat len" for i j
    using nth_page_ix_inj [OF assms(6) can, of i j] that by (intro slots_disjoint) simp
  let ?f = "\<lambda>i. (nth_page v i, nth_page a i)"
  have "\<exists>s' w. run_steps (\<lambda>(v, a) s. mem_map_virtual_page cur v a context c s) (map ?f [0..<unat len]) s = Some s' \<and>
      mem_ok L (the_process cur context) m K s' \<and>
      (\<forall>i < unat len. map_good m c (?f i) (w i) \<and> {} \<subseteq> ({} :: unit set) \<and>
        (\<forall>x \<in> (case ?f i of (v, a) \<Rightarrow> slots L (the_process cur context) v). entry s' x = w i)) \<and>
      (\<forall>i j. i < j \<longrightarrow> j < unat len \<longrightarrow> {} \<inter> {} = ({} :: unit set)) \<and>
      (\<forall>x. (\<forall>i < unat len. x \<notin> (case ?f i of (v, a) \<Rightarrow> slots L (the_process cur context) v)) \<longrightarrow> entry s' x = entry s x) \<and>
      {} \<subseteq> ({} :: unit set)"
    by (rule map_run.run_range) (use assms(1,7-9) dis in \<open>simp_all add: assms(2)\<close>)
  then obtain s' w where r: "map_range_loop (unat len) cur v a context c s = Some s'" "mem_ok L p m K s'"
    "\<forall>i < unat len. map_good m c (nth_page v i, nth_page a i) (w i) \<and> (\<forall>x \<in> slots L p (nth_page v i). entry s' x = w i)"
    "\<forall>x. (\<forall>i < unat len. x \<notin> slots L p (nth_page v i)) \<longrightarrow> entry s' x = entry s x"
    unfolding map_range_run assms(2) by auto
  have "mem_map_range cur a v len context c s = Some s'"
    using assms(3-5) r(1) by (simp add: mem_map_range_def)
  moreover have "\<exists>w. entry s' x = w \<and>
      mem_encode_page_table_entry (page_entry (nth_page a i AND m) (is_kernel_allocation (nth_page v i)) c) = Some w"
    if "i < unat len" "x \<in> slots L p (nth_page v i)" for i x using r(3) that by (simp add: map_good_def)
  ultimately show ?thesis using r(2,4) by auto
qed

subsection \<open>Taking physical pages\<close>

definition page_frames :: "nat \<Rightarrow> u64 set" where
  "page_frames k = {f. unat f mod 4096 = 0 \<and> unat f div 2 ^ 21 = k}"

lemma card_page_frames: "card (page_frames k) \<le> 512"
proof -
  have "page_frames k \<subseteq> (\<lambda>j. of_nat (k * 2 ^ 21 + j * 4096)) ` {..<512}"
  proof
    fix f assume "f \<in> page_frames k"
    then have f: "unat f mod 4096 = 0" "unat f div 2 ^ 21 = k" by (auto simp: page_frames_def)
    let ?j = "(unat f mod 2 ^ 21) div 4096"
    have "(unat f mod 2 ^ 21) mod 4096 = unat f mod 4096" by (rule mod_mod_cancel) simp
    then have "unat f mod 2 ^ 21 = ?j * 4096" using f(1) div_mult_mod_eq [of "unat f mod 2 ^ 21" 4096] by simp
    then have "unat f = k * 2 ^ 21 + ?j * 4096" using f(2) div_mult_mod_eq [of "unat f" "2 ^ 21"] by simp
    then have "f = of_nat (k * 2 ^ 21 + ?j * 4096)" by (rule of_nat_of_unat)
    moreover have "unat f mod 2 ^ 21 < 2 ^ 21" by (rule mod_less_divisor) simp
    then have "?j < 512" by (simp add: less_mult_imp_div_less)
    ultimately show "f \<in> (\<lambda>j. of_nat (k * 2 ^ 21 + j * 4096)) ` {..<512}" by blast
  qed
  then have "card (page_frames k) \<le> card ((\<lambda>j. of_nat (k * 2 ^ 21 + j * 4096) :: u64) ` {..<512})" by (intro card_mono) simp_all
  also have "\<dots> \<le> card {..<512 :: nat}" by (rule card_image_le) simp
  finally show ?thesis by simp
qed

lemma free_pages_left:
  assumes "513 \<le> card (fresh t)"
  shows "free_set (pm t) \<noteq> {}"
proof
  assume "free_set (pm t) = {}"
  then have "fresh t \<subseteq> page_frames (unat (next_4kb_page t) div 2 ^ 21)" by (auto simp: fresh_def page_frames_def)
  then have "card (fresh t) \<le> card (page_frames (unat (next_4kb_page t) div 2 ^ 21))" by (intro card_mono) simp_all
  then show False using assms card_page_frames [of "unat (next_4kb_page t) div 2 ^ 21"] by linarith
qed

lemma take_page:
  assumes ok: "pt_ok t" and room: "513 \<le> card (fresh t)"
  obtains k q where "mem_allocate_physical_pages 1 (pm t) = Some (page_addr k, q)" "k \<in> free_set (pm t)" "k < MEM_MAX_SUPPORTED_PAGES"
    "free_set q = free_set (pm t) - {k}" "pt_ok (t\<lparr>pm := q\<rparr>)" "card (fresh t) - 512 \<le> card (fresh (t\<lparr>pm := q\<rparr>))"
proof -
  have c: "carve_ok t" and tb: "tables_ok t" and pr: "procs_ok t" using ok by (auto simp: pt_ok_def)
  have wf: "phys_wf (pm t)" using c by (simp add: carve_ok_def)
  have ne: "free_set (pm t) \<noteq> {}" by (rule free_pages_left [OF room])
  let ?k = "Min (free_set (pm t))"
  have k: "?k \<in> free_set (pm t)" using ne by (simp add: Min_in)
  then have kb: "?k < MEM_MAX_SUPPORTED_PAGES" using phys_wf_bound [OF wf] wf by (auto simp: phys_wf_def)
  obtain ws where al: "mem_allocate_physical_pages 1 (pm t) = Some (page_addr ?k,
      (pm t)\<lparr>phys_pages_alloc_bitmap := ws, free_pages := free_pages (pm t) - 1\<rparr>)"
    "length ws = BITMAP_SIZE" "pages_of ws = free_set (pm t) - {?k}" using allocate_lowest [OF wf ne] .
  let ?q = "(pm t)\<lparr>phys_pages_alloc_bitmap := ws, free_pages := free_pages (pm t) - 1\<rparr>"
  let ?t = "t\<lparr>pm := ?q\<rparr>"
  have fs: "free_set ?q = free_set (pm t) - {?k}" using al(3) by (simp add: free_set_def [of ?q])
  have wfq: "phys_wf ?q" by (rule allocated_wf [OF wf ne al(2,3)])
  define C where "C = (if next_4kb_page t = 0 then {} else carved (next_4kb_page t))"
  have f1: "fresh t = {f. unat f mod 4096 = 0 \<and> unat f div 2 ^ 21 \<in> free_set (pm t)} \<union> C"
    unfolding C_def by (rule fresh_carved)
  have f2: "fresh ?t = {f. unat f mod 4096 = 0 \<and> unat f div 2 ^ 21 \<in> free_set (pm t) - {?k}} \<union> C"
    using fresh_carved [of ?t] fs by (simp add: C_def)
  have fr: "fresh t - page_frames ?k \<subseteq> fresh ?t" "fresh ?t \<subseteq> fresh t" unfolding f1 f2 page_frames_def by auto
  have e: "pml4_entry ?t = pml4_entry t" by (intro ext) (simp add: pml4_entry_def split: option.split)
  have po: "pdpt_of ?t = pdpt_of t" "pd_in ?t = pd_in t" by (intro ext, simp only: pdpt_of_def e) (intro ext, simp add: pd_in_def)
  have ps: "pdpts ?t = pdpts t" "pds ?t = pds t" by (simp_all add: pdpts_def pds_def po)
  have "tables_ok ?t"
  proof (rule tables_okI)
    show "(pdpts ?t \<union> pds ?t) \<inter> fresh ?t = {}" using tables_okD(5) [OF tb] fr(2) by (auto simp: ps)
    show "i = j \<and> (a = b \<or> 256 \<le> i)" if "a \<in> set (pml4_table_list ?t)" "b \<in> set (pml4_table_list ?t)" "i < 512" "j < 512"
      "pdpt_of ?t a i = Some f" "pdpt_of ?t b j = Some f" for a b i j f
      using that tables_okD(6) [OF tb, of a b i j f] by (auto simp: po)
    show "f = f' \<and> i = j" if "f \<in> pdpts ?t" "f' \<in> pdpts ?t" "i < 512" "j < 512" "pd_in ?t f i = Some g" "pd_in ?t f' j = Some g" for f f' i j g
      using that tables_okD(7) [OF tb, of f f' i j g] by (auto simp: po ps)
  qed (use tables_okD(1-4) [OF tb] in \<open>simp_all add: ps e\<close>)
  moreover have "carve_ok ?t" unfolding carve_ok_def using c wfq fs fr(2) by (auto simp: carve_ok_def)
  moreover have "procs_ok ?t" by (rule procs_ok_cong [OF pr]) (simp_all add: e)
  ultimately have okt: "pt_ok ?t" by (simp add: pt_ok_def)
  have "card (fresh t) - card (page_frames ?k) \<le> card (fresh t - page_frames ?k)" by (rule diff_card_le_card_Diff) simp
  also have "\<dots> \<le> card (fresh ?t)" by (rule card_mono [OF finite_fresh fr(1)])
  finally have "card (fresh t) - 512 \<le> card (fresh ?t)" using card_page_frames [of ?k] by linarith
  then show thesis using that [OF al(1) k kb fs okt] by blast
qed

text \<open>A page that the allocator hands out can always be mapped: its address fits the entries, and they give it back.\<close>

definition mask_ok :: "u64 \<Rightarrow> bool" where
  "mask_ok m \<longleftrightarrow> (\<forall>k < MEM_MAX_SUPPORTED_PAGES. page_addr k AND m = page_addr k)"

lemma page_addr_fits:
  assumes "k < MEM_MAX_SUPPORTED_PAGES"
  shows "page_addr k AND 0x0007FFFFFFF00000 = page_addr k" "page_addr k AND 0xFF000 = 0" "page_addr k mod MEM_PAGE_SIZE = 0"
proof -
  have u: "unat (page_addr k) = 2 ^ 21 * k" by (rule unat_page_addr [OF assms])
  have "(0x0007FFFFFFF00000 :: u64) = mask 51 AND NOT (mask 20)" by (simp add: mask_eq_exp_minus_1)
  moreover have "unat (page_addr k) mod 2 ^ 20 = 0" "unat (page_addr k) < 2 ^ 51" using u assms by (simp_all add: phys_consts)
  ultimately show a: "page_addr k AND 0x0007FFFFFFF00000 = page_addr k" using aligned_masked [of "page_addr k" 20] by simp
  show "page_addr k AND 0xFF000 = 0" by (rule and_mask_disjoint [OF a]) simp
  show "page_addr k mod MEM_PAGE_SIZE = 0" using page_addr_aligned [OF assms] by (simp add: page_size_same)
qed

definition page_of_entry :: "u64 \<Rightarrow> nat" where
  "page_of_entry w = unat (w AND 0x0007FFFFFFF00000) div 2 ^ 21"

definition allocate_one :: "nat option \<Rightarrow> u64 \<Rightarrow> mem_state \<Rightarrow> mem_state option" where
  "allocate_one cur v s = do {
     (a, p) \<leftarrow> mem_allocate_physical_pages 1 (pm (pt s));
     mem_map_range cur a v 1 None WRITE_BACK (s\<lparr>pt := (pt s)\<lparr>pm := p\<rparr>\<rparr>)
   }"

definition alloc_valid :: "u64 \<Rightarrow> nat set \<Rightarrow> u64 \<Rightarrow> bool" where
  "alloc_valid m K v \<longleftrightarrow> mask_ok m \<and> canonical v \<and> v mod MEM_PAGE_SIZE = 0 \<and> pml4_entry_idx v \<in> K"

definition alloc_good :: "u64 \<Rightarrow> bool" where
  "alloc_good w \<longleftrightarrow> PT_MARKED_PRESENT w \<and> page_of_entry w < MEM_MAX_SUPPORTED_PAGES \<and>
     w AND 0x0007FFFFFFF00000 = page_addr (page_of_entry w)"

lemma entry_pm [simp]: "entry (s\<lparr>pt := (pt s)\<lparr>pm := q\<rparr>\<rparr>) = entry s"
proof
  fix x
  have e: "pml4_entry (t\<lparr>pm := q\<rparr>) = pml4_entry t" for t by (intro ext) (simp add: pml4_entry_def split: option.split)
  have "pdpt_of (t\<lparr>pm := q\<rparr>) = pdpt_of t" for t by (intro ext, simp only: pdpt_of_def e)
  moreover have "pd_in (t\<lparr>pm := q\<rparr>) = pd_in t" for t by (intro ext, simp add: pd_in_def)
  ultimately have "leaf_of (t\<lparr>pm := q\<rparr>) p ix = leaf_of t p ix" for t p ix
    by (simp add: leaf_of_def split: prod.split option.split)
  then show "entry (s\<lparr>pt := (pt s)\<lparr>pm := q\<rparr>\<rparr>) x = entry s x" by (simp add: entry_def split: prod.split)
qed

lemma entry_counters [simp]: "entry (s\<lparr>page_use_counters := c\<rparr>) = entry s"
  by (intro ext) (simp add: entry_def split: prod.split)

lemma pdpt_of_pm [simp]: "pdpt_of (t\<lparr>pm := q\<rparr>) = pdpt_of t"
  by (intro ext) (simp add: pdpt_of_def pml4_entry_def split: option.split)

lemma allocate_one_page:
  assumes ok: "mem_ok L (the_process cur None) m K s" and v: "alloc_valid m K v" and room: "513 \<le> card (fresh (pt s))"
    and free: "\<And>x. x \<in> slots L (the_process cur None) v \<Longrightarrow> \<not> PT_MARKED_PRESENT (entry s x)"
  shows "\<exists>s' w. allocate_one cur v s = Some s' \<and> mem_ok L (the_process cur None) m K s' \<and> vmm s' = vmm s \<and>
    card (fresh (pt s)) \<le> card (fresh (pt s')) + 513 \<and> alloc_good w \<and> {page_of_entry w} \<subseteq> free_set (pm (pt s)) \<and>
    free_set (pm (pt s')) \<subseteq> free_set (pm (pt s)) - {page_of_entry w} \<and>
    (\<forall>x. entry s' x = (if x \<in> slots L (the_process cur None) v then w else entry s x))"
proof -
  let ?p = "the_process cur None"
  note o = ok [unfolded mem_ok_def]
  obtain k q where k: "mem_allocate_physical_pages 1 (pm (pt s)) = Some (page_addr k, q)" "k \<in> free_set (pm (pt s))"
    "k < MEM_MAX_SUPPORTED_PAGES" "free_set q = free_set (pm (pt s)) - {k}" "pt_ok ((pt s)\<lparr>pm := q\<rparr>)"
    "card (fresh (pt s)) - 512 \<le> card (fresh ((pt s)\<lparr>pm := q\<rparr>))"
    using take_page [of "pt s"] o room by metis
  note fit = page_addr_fits [OF k(3)]
  let ?s1 = "s\<lparr>pt := (pt s)\<lparr>pm := q\<rparr>\<rparr>"
  have ok1: "mem_ok L ?p m K ?s1" using o k(5) by (simp add: mem_ok_def)
  have ak: "page_addr k AND m = page_addr k" using v k(3) by (simp add: alloc_valid_def mask_ok_def)
  have v1: "map_valid m K WRITE_BACK (v, page_addr k)"
    using v fit ak by (simp add: map_valid_def alloc_valid_def encodable_def)
  have "pdpt_of (pt ?s1) ?p (pml4_entry_idx v) \<noteq> None" using o v by (simp add: alloc_valid_def)
  then have n: "tables_needed (pt ?s1) ?p v \<le> 1" using tables_needed_le [of "pt ?s1" ?p v] by (auto split: if_splits)
  have r1: "tables_needed (pt ?s1) ?p v \<le> card (fresh (pt ?s1))" using n k(6) room by simp
  obtain s' w where s': "mem_map_virtual_page cur v (page_addr k) None WRITE_BACK ?s1 = Some s'" "mem_ok L ?p m K s'" "vmm s' = vmm ?s1"
    "map_good m WRITE_BACK (v, page_addr k) w" "card (fresh (pt s')) = card (fresh (pt ?s1)) - tables_needed (pt ?s1) ?p v"
    "pool_shrinks (pm (pt ?s1)) (pm (pt s'))" "\<forall>x. entry s' x = (if x \<in> slots L ?p v then w else entry ?s1 x)"
    using map_one_page [OF ok1 refl v1 r1] free by auto
  have w: "mem_encode_page_table_entry (page_entry (page_addr k) (is_kernel_allocation v) WRITE_BACK) = Some w"
    using s'(4) ak by (simp add: map_good_def)
  have wt: "w AND 0x0007FFFFFFF00000 = page_addr k" by (rule page_entry_target [OF w fit(1)])
  have pw: "page_of_entry w = k" unfolding page_of_entry_def wt unat_page_addr [OF k(3)] by simp
  have "PT_MARKED_PRESENT w" using encode_page_entry [of "page_addr k" WRITE_BACK "is_kernel_allocation v"] w fit(2)
    by (auto simp: encodable_def)
  then have "alloc_good w" using wt pw k(3) by (simp add: alloc_good_def)
  moreover have "allocate_one cur v s = Some s'"
    using k(1) s'(1) v fit(3) by (simp add: allocate_one_def mem_map_range_def alloc_valid_def)
  moreover have "card (fresh (pt s)) \<le> card (fresh (pt s')) + 513" using s'(5) n k(6) by simp
  moreover have "free_set (pm (pt s')) \<subseteq> free_set (pm (pt s)) - {k}" using s'(6) k(4) by (auto simp: pool_shrinks_def)
  ultimately show ?thesis using s'(2,3,7) k(2) pw by (intro exI [of _ s'] exI [of _ w]) auto
qed

interpretation alloc_run: page_steps "\<lambda>s. mem_ok L (the_process cur None) m K s \<and> vmm s = V" entry "slots L (the_process cur None)"
  "allocate_one cur" "\<lambda>w. \<not> PT_MARKED_PRESENT w" "\<lambda>_. alloc_good" "alloc_valid m K" 513
  "\<lambda>s. card (fresh (pt s))" "\<lambda>s. free_set (pm (pt s))" "\<lambda>w. {page_of_entry w}" for L cur m K V
proof
  fix s r
  assume a: "mem_ok L (the_process cur None) m K s \<and> vmm s = V" "alloc_valid m K r" "513 \<le> card (fresh (pt s))"
    "\<And>x. x \<in> slots L (the_process cur None) r \<Longrightarrow> \<not> PT_MARKED_PRESENT (entry s x)"
  show "\<exists>s' w. allocate_one cur r s = Some s' \<and> (mem_ok L (the_process cur None) m K s' \<and> vmm s' = V) \<and>
      card (fresh (pt s)) \<le> card (fresh (pt s')) + 513 \<and> alloc_good w \<and> {page_of_entry w} \<subseteq> free_set (pm (pt s)) \<and>
      free_set (pm (pt s')) \<subseteq> free_set (pm (pt s)) - {page_of_entry w} \<and>
      (\<forall>x. entry s' x = (if x \<in> slots L (the_process cur None) r then w else entry s x))"
    using allocate_one_page [of L cur m K s r] a by blast
qed

lemma allocate_pages_Suc:
  "allocate_pages_loop (Suc n) cur v s = allocate_one cur v s \<bind> allocate_pages_loop n cur (v + MEM_PAGE_SIZE)"
  by (cases "mem_allocate_physical_pages 1 (pm (pt s))") (auto simp: allocate_one_def)

lemma allocate_pages_run:
  "allocate_pages_loop n cur v s = run_steps (allocate_one cur) (map (nth_page v) [0..<n]) s"
proof (induction n arbitrary: v s)
  case (Suc n)
  have e: "[0..<Suc n] = 0 # map Suc [0..<n]" by (simp add: map_Suc_upt upt_conv_Cons)
  have "nth_page v \<circ> Suc = nth_page (v + MEM_PAGE_SIZE)" by (rule ext) (simp add: nth_page_Suc)
  then show ?case using Suc e allocate_pages_Suc [of n cur v s]
    by (cases "allocate_one cur v s") (simp_all del: upt_Suc allocate_pages_loop.simps)
qed simp

lemma allocate_pages_loop_spec:
  assumes ok: "mem_ok L p m K s" and p: "p = the_process cur None"
    and r: "unat v + n * 2 ^ 21 \<le> 2 ^ 64" and v: "\<And>i. i < n \<Longrightarrow> alloc_valid m K (nth_page v i)"
    and free: "\<And>i x. i < n \<Longrightarrow> x \<in> slots L p (nth_page v i) \<Longrightarrow> \<not> PT_MARKED_PRESENT (entry s x)"
    and room: "513 * n \<le> card (fresh (pt s))"
  shows "\<exists>s' k. allocate_pages_loop n cur v s = Some s' \<and> mem_ok L p m K s' \<and> vmm s' = vmm s \<and> inj_on k {..<n} \<and> k ` {..<n} \<subseteq> free_set (pm (pt s)) \<and>
    (\<forall>i < n. \<forall>x \<in> slots L p (nth_page v i). PT_MARKED_PRESENT (entry s' x) \<and> entry s' x AND 0x0007FFFFFFF00000 = page_addr (k i)) \<and>
    (\<forall>x. (\<forall>i < n. x \<notin> slots L p (nth_page v i)) \<longrightarrow> entry s' x = entry s x)"
proof -
  have can: "canonical (nth_page v i)" if "i < n" for i using v [OF that] by (simp add: alloc_valid_def)
  have dis: "slots L p (nth_page v i) \<inter> slots L p (nth_page v j) = {}" if "i < j" "j < n" for i j
    using nth_page_ix_inj [OF r can, of i j] that by (intro slots_disjoint) simp
  have "\<exists>s' w. run_steps (allocate_one cur) (map (nth_page v) [0..<n]) s = Some s' \<and>
      (mem_ok L (the_process cur None) m K s' \<and> vmm s' = vmm s) \<and>
      (\<forall>i < n. alloc_good (w i) \<and> {page_of_entry (w i)} \<subseteq> free_set (pm (pt s)) \<and>
        (\<forall>x \<in> slots L (the_process cur None) (nth_page v i). entry s' x = w i)) \<and>
      (\<forall>i j. i < j \<longrightarrow> j < n \<longrightarrow> {page_of_entry (w i)} \<inter> {page_of_entry (w j)} = {}) \<and>
      (\<forall>x. (\<forall>i < n. x \<notin> slots L (the_process cur None) (nth_page v i)) \<longrightarrow> entry s' x = entry s x) \<and>
      free_set (pm (pt s')) \<subseteq> free_set (pm (pt s))"
    by (rule alloc_run.run_range) (use ok v free room dis in \<open>simp_all add: p\<close>)
  then obtain s' w where w: "allocate_pages_loop n cur v s = Some s'" "mem_ok L p m K s'" "vmm s' = vmm s"
    "\<forall>i < n. alloc_good (w i) \<and> page_of_entry (w i) \<in> free_set (pm (pt s)) \<and> (\<forall>x \<in> slots L p (nth_page v i). entry s' x = w i)"
    "\<forall>i j. i < j \<longrightarrow> j < n \<longrightarrow> page_of_entry (w j) \<noteq> page_of_entry (w i)"
    "\<forall>x. (\<forall>i < n. x \<notin> slots L p (nth_page v i)) \<longrightarrow> entry s' x = entry s x"
    unfolding allocate_pages_run p by auto
  have "inj_on (\<lambda>i. page_of_entry (w i)) {..<n}"
    using w(5) by (intro linorder_inj_onI) (auto, metis)
  then show ?thesis using w by (intro exI [of _ s'] exI [of _ "\<lambda>i. page_of_entry (w i)"]) (auto simp: alloc_good_def)
qed

subsection \<open>Releasing physical pages\<close>

lemma phys_page_num_addr: "k < MEM_MAX_SUPPORTED_PAGES \<Longrightarrow> phys_page_num (page_addr k) = k"
  using unat_page_addr [of k] by (simp add: phys_page_num_def unsigned_ucast_eq unat_div take_bit_nat_eq_self phys_consts)

lemma unmap_steps:
  assumes ok: "mem_ok L p m K s" and p: "p = the_process cur context"
  obtains t t' where "mem_get_phys_addr cur v context (pt s) = Some (phys_of (pt s) p v, t)"
    "mem_x64_unmap_virtual_page cur v context t = Some t'" "mem_ok L p m K (s\<lparr>pt := t'\<rparr>)" "pm t' = pm (pt s)"
    "\<forall>x. entry (s\<lparr>pt := t'\<rparr>) x = (if x \<in> slots L p v then 0 else entry s x)"
proof -
  note o = ok [unfolded mem_ok_def]
  obtain t where t: "mem_get_phys_addr cur v context (pt s) = Some (phys_of (pt s) p v, t)" "same_tables (pt s) t"
    using get_phys_exact [OF _ _ p [symmetric], of "pt s" v] o by blast
  have st: "pt_ok t" "pml4_table_list t = L" "pm t = pm (pt s)" "valid_phys_bit_mask t = m" "pdpt_of t = pdpt_of (pt s)" "leaf_of t = leaf_of (pt s)"
    using o same_tables_ok [OF t(2)] same_tables_walk [OF t(2)] t(2) by (auto simp: same_tables_def)
  obtain t' where t': "mem_x64_unmap_virtual_page cur v context t = Some t'" "sets_page p v 0 t t'" "pm t' = pm t"
    using unmap_page_exact [OF st(1) _ p [symmetric], of v] unmap_keeps_pm st(2) o by blast
  have "mem_ok L p m K (s\<lparr>pt := t'\<rparr>)"
    using o t'(2) st unfolding mem_ok_def sets_page_def pdpts_kept_def by fastforce
  moreover have "entry (s\<lparr>pt := t'\<rparr>) x = (if x \<in> slots L p v then 0 else entry s x)" for x
  proof -
    have "entry (s\<lparr>pt := t\<rparr>) x = entry s x" using st(2,6) o by (simp add: entry_def split: prod.split)
    then show ?thesis using sets_page_entry [of p v 0 t "s\<lparr>pt := t'\<rparr>" L "s\<lparr>pt := t\<rparr>" x] t'(2) st(2) by simp
  qed
  ultimately show thesis using that t(1) t'(1,3) st(3) by metis
qed

text \<open>
  Unmapping a page that is mapped to a physical page other than page 0. The page is unmapped for all processes that share it and nothing else is. If this was the last counted use and
  pages may be freed, the physical page goes back to the allocator, and a page that the allocator does not have as allocated is a panic. Otherwise the physical
  allocator is unchanged and the count of the page goes down by one, but not below 0.
\<close>

theorem unmap_page_counts:
  assumes "mem_ok L p m K s" and "p = the_process cur context" and "v mod MEM_PAGE_SIZE = 0"
    and "PT_MARKED_PRESENT (entry s (p, page_ix v))" and "entry s (p, page_ix v) AND 0x0007FFFFFFF00000 = page_addr k"
    and "0 < k" and "k < MEM_MAX_SUPPORTED_PAGES"
  shows "if unat (page_use_counters s ! k) \<le> 1 \<and> allow
    then (if k \<in> exist_set (pm (pt s)) - free_set (pm (pt s))
          then \<exists>s'. mem_unmap_virtual_page cur v context allow s = Some s' \<and> page_use_counters s' = (page_use_counters s)[k := 0] \<and>
            phys_wf (pm (pt s')) \<and> free_set (pm (pt s')) = insert k (free_set (pm (pt s))) \<and>
            (\<forall>x. entry s' x = (if x \<in> slots L p v then 0 else entry s x))
          else mem_unmap_virtual_page cur v context allow s = None)
    else \<exists>s'. mem_unmap_virtual_page cur v context allow s = Some s' \<and> mem_ok L p m K s' \<and> pm (pt s') = pm (pt s) \<and>
       page_use_counters s' = (page_use_counters s)[k := (if page_use_counters s ! k = 0 then 0 else page_use_counters s ! k - 1)] \<and>
       (\<forall>x. entry s' x = (if x \<in> slots L p v then 0 else entry s x))"
proof -
  obtain t t' where t: "mem_get_phys_addr cur v context (pt s) = Some (phys_of (pt s) p v, t)"
    "mem_x64_unmap_virtual_page cur v context t = Some t'" "mem_ok L p m K (s\<lparr>pt := t'\<rparr>)" "pm t' = pm (pt s)"
    "\<forall>x. entry (s\<lparr>pt := t'\<rparr>) x = (if x \<in> slots L p v then 0 else entry s x)" using unmap_steps [OF assms(1,2)] .
  have len: "k < length (page_use_counters s)" and wf: "phys_wf (pm t')"
    using t(3) assms(7) by (auto simp: mem_ok_def pt_ok_def carve_ok_def)
  have lf: "leaf_of (pt s) p (page_ix v) = entry s (p, page_ix v)" using assms(1) by (simp add: entry_def mem_ok_def)
  have "phys_of (pt s) p v = (leaf_of (pt s) p (page_ix v) AND 0x0007FFFFFFF00000) + v mod MEM_PAGE_SIZE"
    using assms(4) unfolding lf [symmetric] by (auto simp: phys_of_def leaf_of_def split: prod.splits option.splits)
  then have ph: "phys_of (pt s) p v = page_addr k" using assms(3,5) lf by simp
  have nz: "page_addr k \<noteq> 0" using unat_page_addr [OF assms(7)] assms(6) by auto
  let ?c = "page_use_counters s ! k"
  let ?s1 = "s\<lparr>pt := t', page_use_counters := (page_use_counters s)[k := (if ?c = 0 then 0 else ?c - 1)]\<rparr>"
  have id: "(page_use_counters s)[k := 0] = page_use_counters s" if "?c = 0" using that by (metis list_update_id)
  have z: "(if ?c = 0 then 0 else ?c - 1) = 0 \<longleftrightarrow> unat ?c \<le> 1"
  proof (cases "?c = 0")
    case False
    then have "unat (?c - 1) = unat ?c - 1" by (rule unat_minus_one)
    then show ?thesis using False by (simp flip: unat_eq_zero)
  qed simp
  have r: "mem_unmap_virtual_page cur v context allow s =
      (if unat ?c \<le> 1 \<and> allow then do {
         q \<leftarrow> mem_deallocate_physical_pages (page_addr k) 1 (pm t');
         Some (?s1\<lparr>pt := (pt ?s1)\<lparr>pm := q\<rparr>\<rparr>)
       } else Some ?s1)"
    using t(1,2) ph nz page_addr_fits(3) [OF assms(7)] len z id
    by (auto simp: mem_unmap_virtual_page_def phys_page_num_addr [OF assms(7)] Let_def word_gt_0)
  have ok1: "mem_ok L p m K ?s1" using t(3) by (simp add: mem_ok_def)
  have e1: "entry ?s1 x = (if x \<in> slots L p v then 0 else entry s x)" for x
    unfolding entry_counters by (rule t(5) [rule_format])
  show ?thesis
  proof (cases "unat ?c \<le> 1 \<and> allow")
    case False
    then show ?thesis using r ok1 e1 t(4) by auto
  next
    case True
    have pi: "page_index (page_addr k) = k" "page_addr k mod SIZE_OF_PAGE = 0" using assms(7) by simp_all
    show ?thesis
    proof (cases "k \<in> exist_set (pm (pt s)) - free_set (pm (pt s))")
      case ex: True
      obtain ws where d: "mem_deallocate_physical_pages (page_addr k) 1 (pm t') =
          Some ((pm t')\<lparr>phys_pages_alloc_bitmap := ws, free_pages := free_pages (pm t') + 1\<rparr>)"
        "length ws = BITMAP_SIZE" "pages_of ws = insert k (free_set (pm t'))"
        using deallocate_page [OF wf pi(2)] ex t(4) pi(1) by auto
      let ?q = "(pm t')\<lparr>phys_pages_alloc_bitmap := ws, free_pages := free_pages (pm t') + 1\<rparr>"
      have "phys_wf ?q" by (rule deallocated_wf [OF wf _ d(2,3)]) (use ex t(4) in simp)
      moreover have "free_set ?q = pages_of ws" by (simp add: free_set_def)
      then have "free_set ?q = insert k (free_set (pm (pt s)))" using d(3) t(4) by simp
      moreover have "mem_unmap_virtual_page cur v context allow s = Some (?s1\<lparr>pt := (pt ?s1)\<lparr>pm := ?q\<rparr>\<rparr>)"
        unfolding r using True d(1) by simp
      moreover have "page_use_counters ?s1 = (page_use_counters s)[k := 0]" using True z by simp
      moreover have "entry (?s1\<lparr>pt := (pt ?s1)\<lparr>pm := ?q\<rparr>\<rparr>) = entry ?s1" by (rule entry_pm)
      ultimately show ?thesis using True ex e1
        by (simp only: if_True simp_thms) (intro exI [of _ "?s1\<lparr>pt := (pt ?s1)\<lparr>pm := ?q\<rparr>\<rparr>"] conjI allI; simp)
    next
      case False
      then have "mem_deallocate_physical_pages (page_addr k) 1 (pm t') = None"
        using deallocate_panics [OF wf, of "page_addr k"] t(4) pi by auto
      then show ?thesis using True False r by simp
    qed
  qed
qed

subsection \<open>A small machine\<close>

definition sample_mem :: mem_state where
  "sample_mem = \<lparr>pt = sample_pt, page_use_counters = replicate MEM_MAX_SUPPORTED_PAGES 0, vmm = sample_vmm\<rparr>"

lemma sample_mem_ok: "mem_ok [0] 0 0xFFFFFFFFFF {} sample_mem"
  using sample_pt_ok by (simp add: mem_ok_def sample_mem_def) (simp add: sample_pt_def)

lemma sample_mem_entry: "entry sample_mem x = 0"
proof -
  have "leaf_of sample_pt q ix = 0" for q ix
    by (cases ix) (simp add: leaf_of_def sample_pt_def pdpt_of_def pml4_entry_def)
  then show ?thesis by (simp add: entry_def sample_mem_def split: prod.split)
qed

lemma sample_mem_fresh: "4 \<le> card (fresh (pt sample_mem))"
proof -
  have "{0x600000, 0x601000, 0x602000, 0x603000} \<subseteq> fresh (pt sample_mem)"
    by (simp add: fresh_def sample_mem_def) (simp add: sample_pt_def sample_phys_sets)
  then have "card {0x600000, 0x601000, 0x602000, 0x603000 :: u64} \<le> card (fresh (pt sample_mem))" by (rule card_mono [OF finite_fresh])
  then show ?thesis by simp
qed

theorem map_range_correct_witness:
  "\<exists>s'. mem_map_range None 0x40000000 0x400000 2 None WRITE_BACK sample_mem = Some s' \<and>
     entry s' (0, page_ix 0x600000) = 0x40200087 \<and> entry s' (0, page_ix 0x800000) = 0"
proof -
  have pg: "nth_page 0x400000 0 = 0x400000" "nth_page 0x400000 (Suc 0) = 0x600000" "nth_page 0x40000000 0 = 0x40000000"
    "nth_page 0x40000000 (Suc 0) = 0x40200000" by (simp_all add: nth_page_def MEM_PAGE_SIZE_def)
  have two: "i = 0 \<or> i = Suc 0" if "i < unat (2 :: u32)" for i using that by auto
  have mv: "map_valid 0xFFFFFFFFFF {} WRITE_BACK (nth_page 0x400000 i, nth_page 0x40000000 i)" if "i < unat (2 :: u32)" for i
    using two [OF that] by (auto simp: map_valid_def pg canonical_def MEM_PAGE_SIZE_def encodable_def is_kernel_allocation_def)
  have ix: "page_ix 0x400000 = (0, 0, 2)" "page_ix 0x600000 = (0, 0, 3)" "page_ix 0x800000 = (0, 0, 4)"
    by (simp_all add: page_ix_def pml4_entry_idx_def page_dir_ptr_entry_idx_def page_dir_entry_idx_def)
  have w: "mem_encode_page_table_entry (page_entry (0x40200000 AND 0xFFFFFFFFFF) (is_kernel_allocation 0x600000) WRITE_BACK) = Some 0x40200087"
    by (simp add: is_kernel_allocation_def page_entry_def mem_encode_page_table_entry_def mem_x64_pat_get_val_def cache_defs)
  obtain s' where s': "mem_map_range None 0x40000000 0x400000 2 None WRITE_BACK sample_mem = Some s'"
    "\<forall>i < unat (2 :: u32). \<forall>x \<in> slots [0] 0 (nth_page 0x400000 i). \<exists>w. entry s' x = w \<and>
       mem_encode_page_table_entry (page_entry (nth_page 0x40000000 i AND 0xFFFFFFFFFF) (is_kernel_allocation (nth_page 0x400000 i)) WRITE_BACK) = Some w"
    "\<forall>x. (\<forall>i < unat (2 :: u32). x \<notin> slots [0] 0 (nth_page 0x400000 i)) \<longrightarrow> entry s' x = entry sample_mem x"
    using map_range_correct [OF sample_mem_ok, of None None 2 "0x40000000" "0x400000" WRITE_BACK] mv sample_mem_entry sample_mem_fresh
    by (auto simp: the_process_def MEM_PAGE_SIZE_def)
  have "entry s' (0, page_ix 0x600000) = 0x40200087"
    using s'(2) [rule_format, of "Suc 0" "(0, page_ix 0x600000)"] own_slot [of 0 "[0]" "0x600000"] w by (auto simp: pg)
  moreover have "entry s' (0, page_ix 0x800000) = 0"
    using s'(3) [rule_format, of "(0, page_ix 0x800000)"] two sample_mem_entry by (fastforce simp: slots_def same_slot_def ix pg)
  ultimately show ?thesis using s'(1) by blast
qed

theorem unmap_page_counts_witness:
  "\<exists>s s'. mem_map_virtual_page None 0x400000 0x400000 None WRITE_BACK sample_mem = Some s \<and>
     mem_unmap_virtual_page None 0x400000 None True s = Some s' \<and> 2 \<in> free_set (pm (pt s')) \<and> entry s' (0, page_ix 0x400000) = 0"
proof -
  have pa: "page_addr 2 = 0x400000" by (simp add: page_addr_def SIZE_OF_PAGE_def)
  have mv: "map_valid 0xFFFFFFFFFF {} WRITE_BACK (0x400000, 0x400000)"
    by (simp add: map_valid_def canonical_def MEM_PAGE_SIZE_def encodable_def is_kernel_allocation_def)
  have "tables_needed (pt sample_mem) 0 0x400000 \<le> 2" using tables_needed_le by (rule order_trans) simp
  then have room: "tables_needed (pt sample_mem) 0 0x400000 \<le> card (fresh (pt sample_mem))" using sample_mem_fresh by linarith
  obtain s w where s: "mem_map_virtual_page None 0x400000 0x400000 None WRITE_BACK sample_mem = Some s" "mem_ok [0] 0 0xFFFFFFFFFF {} s"
    "map_good 0xFFFFFFFFFF WRITE_BACK (0x400000, 0x400000) w" "pool_shrinks (pm (pt sample_mem)) (pm (pt s))"
    "\<forall>x. entry s x = (if x \<in> slots [0] 0 0x400000 then w else entry sample_mem x)"
    using map_one_page [OF sample_mem_ok _ mv room, of None None] sample_mem_entry by (auto simp: the_process_def)
  have c: "page_use_counters s ! 2 = 1"
    using s(1) by (auto simp: mem_map_virtual_page_def Let_def sample_mem_def phys_page_num_def MEM_PAGE_SIZE_def phys_consts)
  have w: "w = 0x400087" using s(3)
    by (simp add: map_good_def is_kernel_allocation_def page_entry_def mem_encode_page_table_entry_def mem_x64_pat_get_val_def cache_defs)
  have own: "(0, page_ix 0x400000) \<in> slots [0] 0 0x400000" by (rule own_slot) simp
  then have e: "entry s (0, page_ix 0x400000) = 0x400087" using s(5) [rule_format, of "(0, page_ix 0x400000)"] w by simp
  have ex: "2 \<in> exist_set (pm (pt s)) - free_set (pm (pt s))"
    using s(4) by (auto simp: pool_shrinks_def sample_mem_def sample_pt_def sample_phys_sets)
  have k: "(2 :: nat) < MEM_MAX_SUPPORTED_PAGES" by (simp add: phys_consts)
  obtain s' where s': "mem_unmap_virtual_page None 0x400000 None True s = Some s'" "free_set (pm (pt s')) = insert 2 (free_set (pm (pt s)))"
    "\<forall>x. entry s' x = (if x \<in> slots [0] 0 0x400000 then 0 else entry s x)"
    using unmap_page_counts [OF s(2) _ _ _ _ _ k, of None None "0x400000" True] c e ex pa
    by (auto simp: the_process_def MEM_PAGE_SIZE_def PT_MARKED_PRESENT_def)
  then show ?thesis using s(1) s'(3) [rule_format, of "(0, page_ix 0x400000)"] own by auto
qed

text \<open>
  A kernel with a page directory pointer table for its last 512 GB, 4 pages of virtual memory and pages 3 and 4 of physical memory.
\<close>

definition sample_phys2 :: phys_state where
  "sample_phys2 = \<lparr>phys_pages_alloc_bitmap = (page_mask 3 OR page_mask 4) # replicate 31 0,
     phys_pages_exist_bitmap = (page_mask 3 OR page_mask 4) # replicate 31 0, free_pages = 2\<rparr>"

definition sample_kernel_pt :: pt_state where
  "sample_kernel_pt = sample_pt\<lparr>pml4_mem := (\<lambda>_ i. if i = 511 then 0x200003 else 0), pm := sample_phys2\<rparr>"

definition sample_kernel_vmm :: vmm_state where
  "sample_kernel_vmm = sample_vmm\<lparr>vs_kernel := \<lparr>vp_ranges = [sample_range 0xFFFFFFFFC0000000 4 False], vp_lock = False, vp_user_thread = None\<rparr>\<rparr>"

definition sample_kernel :: mem_state where
  "sample_kernel = \<lparr>pt = sample_kernel_pt, page_use_counters = replicate MEM_MAX_SUPPORTED_PAGES 0, vmm = sample_kernel_vmm\<rparr>"

lemma sample_phys2_sets: "free_set sample_phys2 = {3, 4}" "exist_set sample_phys2 = {3, 4}"
  by (simp_all add: free_set_def exist_set_def sample_phys2_def pages_of_Cons page_mask_or_pages page_mask_pages insert_commute)

lemma sample_phys2_wf: "phys_wf sample_phys2"
  using sample_phys2_sets by (simp add: phys_wf_def) (simp add: sample_phys2_def phys_consts)

lemma card_page_frames_eq:
  assumes "k < MEM_MAX_SUPPORTED_PAGES"
  shows "512 \<le> card (page_frames k)"
proof -
  let ?f = "\<lambda>j. of_nat (k * 2 ^ 21 + j * 4096) :: u64"
  have u: "unat (?f j) = k * 2 ^ 21 + j * 4096" if "j < 512" for j
    using that assms by (intro unat_of_nat_u64) (simp add: phys_consts)
  have "inj_on ?f {..<512}"
  proof (rule inj_onI)
    fix i j assume "i \<in> {..<512 :: nat}" "j \<in> {..<512 :: nat}" "?f i = ?f j"
    then have "k * 2 ^ 21 + i * 4096 = k * 2 ^ 21 + j * 4096" using u [of i] u [of j] by (metis lessThan_iff)
    then show "i = j" by simp
  qed
  then have "card (?f ` {..<512}) = 512" by (simp add: card_image)
  moreover have "?f ` {..<512} \<subseteq> page_frames k"
  proof
    fix f assume "f \<in> ?f ` {..<512}"
    then obtain j where j: "j < 512" "f = ?f j" by auto
    then have uf: "unat f = k * 2 ^ 21 + j * 4096" using u by simp
    have "(k * 2 ^ 21 + j * 4096) mod 4096 = 0" by (simp add: mod_add_eq [symmetric])
    moreover have "(k * 2 ^ 21 + j * 4096) div 2 ^ 21 = k" using j(1) by simp
    ultimately show "f \<in> page_frames k" unfolding page_frames_def mem_Collect_eq uf by blast
  qed
  then have "card (?f ` {..<512}) \<le> card (page_frames k)" by (intro card_mono) simp_all
  ultimately show ?thesis by simp
qed

lemma sample_kernel_fresh: "513 \<le> card (fresh sample_kernel_pt)"
proof -
  have "insert 0x800000 (page_frames 3) \<subseteq> fresh sample_kernel_pt"
    by (auto simp: fresh_def page_frames_def sample_kernel_pt_def sample_phys2_sets)
  then have "card (insert 0x800000 (page_frames 3)) \<le> card (fresh sample_kernel_pt)" by (rule card_mono [OF finite_fresh])
  moreover have "0x800000 \<notin> page_frames 3" by (simp add: page_frames_def)
  then have "card (insert 0x800000 (page_frames 3)) = Suc (card (page_frames 3))" by simp
  ultimately show ?thesis using card_page_frames_eq [of 3] by (simp add: phys_consts)
qed

lemma sample_kernel_pt_ok: "pt_ok sample_kernel_pt"
proof -
  have e: "pml4_entry sample_kernel_pt 0 i = (if i = 511 then 0x200003 else 0)" for i
    by (simp add: pml4_entry_def sample_kernel_pt_def sample_pt_def)
  have po: "pdpt_of sample_kernel_pt 0 i = (if i = 511 then Some 0x200000 else None)" for i
    by (simp add: pdpt_of_def e PT_MARKED_PRESENT_def pte_target_def)
  have l: "pml4_table_list sample_kernel_pt = [0]" by (simp add: sample_kernel_pt_def sample_pt_def)
  have pd: "pd_in sample_kernel_pt f i = None" for f i by (simp add: pd_in_def sample_kernel_pt_def sample_pt_def)
  have ps: "pdpts sample_kernel_pt = {0x200000}" "pds sample_kernel_pt = {}" by (auto simp: pdpts_def pds_def l po pd split: if_splits)
  have fr: "frames sample_kernel_pt f i = 0" for f i by (simp add: sample_kernel_pt_def sample_pt_def)
  have "tables_ok sample_kernel_pt"
  proof (rule tables_okI)
    show "(pdpts sample_kernel_pt \<union> pds sample_kernel_pt) \<inter> fresh sample_kernel_pt = {}"
      by (simp add: ps) (simp add: fresh_def sample_kernel_pt_def sample_phys2_sets, simp add: sample_pt_def)
  qed (auto simp: ps e l fr pd po table_word_def leaf_word_def split: if_splits)
  moreover have "carve_ok sample_kernel_pt"
    using sample_phys2_wf by (simp add: carve_ok_def fr) (simp add: sample_kernel_pt_def sample_pt_def)
  moreover have "procs_ok sample_kernel_pt" by (simp add: procs_ok_def sample_kernel_pt_def sample_pt_def)
  ultimately show ?thesis by (simp add: pt_ok_def)
qed

lemma sample_kernel_ok: "mem_ok [0] 0 0xFFFFFFFFFF {511} sample_kernel"
  using sample_kernel_pt_ok
  by (simp add: mem_ok_def sample_kernel_def)
    (simp add: sample_kernel_pt_def sample_pt_def pdpt_of_def pml4_entry_def PT_MARKED_PRESENT_def)

lemma sample_kernel_entry: "entry sample_kernel x = 0"
proof -
  have "leaf_of sample_kernel_pt q ix = 0" for q ix
    by (cases ix) (simp add: leaf_of_def sample_kernel_pt_def sample_pt_def pd_in_def split: option.split)
  then show ?thesis by (simp add: entry_def sample_kernel_def split: prod.split)
qed

lemma sample_kernel_vmm_ok: "client_ok Kernel 0xFFFFFFFFC0000000 0xFFFFFFFFC0800000 sample_kernel_vmm"
proof -
  have "vmm_ok 0xFFFFFFFFC0000000 [sample_range 0xFFFFFFFFC0000000 4 False] 0xFFFFFFFFC0800000"
    using exI [of "\<lambda>k. k \<le> 40 \<and> (4 :: nat) = 2 ^ k" 2]
    by (simp add: vmm_ok_def range_ok_def) (simp add: sample_range_def range_bytes_def)
  then show ?thesis by (simp add: client_ok_def sample_kernel_vmm_def sample_vmm_def vmm_data_def)
qed

end
