(* ===== verification/Kernel_Pages.thy ===== *)
theory Kernel_Pages
  imports Mem_Map
begin

text \<open>
  Pages for the kernel: \<open>mem_allocate_pages\<close> of \<open>kernel/mem/misc.cpp\<close> puts the virtual memory manager, the physical
  allocator and the page tables together. The lemmas here say what a call does to all three.
\<close>

text \<open>
  The kernel's part of the address space: a range of canonical addresses with the PML4 entries in place, in which
  the virtual memory manager and the page tables agree that only reserved pages are mapped.
\<close>

definition kernel_region :: "u64 \<Rightarrow> nat set \<Rightarrow> nat \<Rightarrow> nat \<Rightarrow> bool" where
  "kernel_region m K a e \<longleftrightarrow> mask_ok m \<and> (\<forall>v. a \<le> unat v \<longrightarrow> unat v + 2 ^ 21 \<le> e \<longrightarrow> canonical v \<and> pml4_entry_idx v \<in> K)"

definition outside :: "(nat \<times> nat) set \<Rightarrow> u64 \<Rightarrow> bool" where
  "outside rs v \<longleftrightarrow> (\<forall>(b, n) \<in> rs. unat v + 2 ^ 21 \<le> b \<or> b + n \<le> unat v)"

definition reserved_only :: "nat list \<Rightarrow> nat \<Rightarrow> nat \<Rightarrow> nat \<Rightarrow> mem_state \<Rightarrow> bool" where
  "reserved_only L p a e s \<longleftrightarrow> (\<forall>v. a \<le> unat v \<longrightarrow> unat v + 2 ^ 21 \<le> e \<longrightarrow> v mod MEM_PAGE_SIZE = 0 \<longrightarrow>
     outside (regions (client_ranges Kernel (vmm s))) v \<longrightarrow> (\<forall>x \<in> slots L p v. \<not> PT_MARKED_PRESENT (entry s x)))"

lemma region_aligned:
  assumes "client_ok c a e s" "(b, n) \<in> regions (client_ranges c s)"
  shows "2 ^ 21 dvd b"
proof -
  obtain d where d: "vmm_data c s = Some d" "vmm_ok a (vp_ranges d) e" "client_ranges c s = vp_ranges d"
    using client_ok_data [OF assms(1)] by metis
  then obtain r where "range_ok r" "b = unat (rg_start r)"
    using assms(2) by (auto simp: regions_def vmm_ok_def)
  then show ?thesis by (auto simp: range_ok_def range_bytes_def intro: dvd_trans [rotated])
qed

lemma page_multiple: "2 ^ 21 dvd unat v \<longleftrightarrow> v mod MEM_PAGE_SIZE = 0"
  by (simp add: dvd_eq_mod_eq_0 unat_mod flip: unat_eq_zero)

lemma same_page:
  assumes "canonical v" "canonical v'" "page_ix v = page_ix v'" "2 ^ 21 dvd unat v" "2 ^ 21 dvd unat v'"
  shows "v = v'"
proof -
  have "unat (drop_bit 21 v) = unat (drop_bit 21 v')" using page_ix_inj [OF assms(1-3)] by simp
  then have "unat v div 2 ^ 21 = unat v' div 2 ^ 21" by (simp add: drop_bit_eq_div unat_div)
  then have "unat v = unat v'" using assms(4,5) by (metis dvd_mult_div_cancel)
  then show ?thesis by (simp only: word_unat_eq_iff)
qed

lemma top_region: "kernel_region 0xFFFFFFFFFF {511} 0xFFFFFFFFC0000000 0xFFFFFFFFC0800000"
proof -
  have "page_addr k AND 0xFFFFFFFFFF = page_addr k" if "k < MEM_MAX_SUPPORTED_PAGES" for k
  proof -
    have "unat (take_bit 40 (page_addr k)) = unat (page_addr k)"
      using unat_page_addr [OF that] that by (simp add: unsigned_take_bit_eq take_bit_nat_eq_self phys_consts)
    then have "take_bit 40 (page_addr k) = page_addr k" by (simp only: word_unat_eq_iff)
    then show ?thesis by (simp add: take_bit_eq_mask mask_eq_exp_minus_1)
  qed
  moreover have "canonical v \<and> pml4_entry_idx v = 511" if v: "0xFFFFFFFFC0000000 \<le> unat v" for v
  proof -
    have lt: "unat v < 2 ^ 64" by (rule unat_lt_u64)
    have "unat (drop_bit 47 v) = 0x1FFFF" "unat (drop_bit 39 v) = 0x1FFFFFF"
      using v lt by (simp_all add: drop_bit_eq_div unat_div div_nat_eqI)
    then have d: "drop_bit 47 v = 0x1FFFF" "drop_bit 39 v = 0x1FFFFFF" by (simp_all add: word_unat_eq_iff)
    then show ?thesis by (simp add: canonical_def pml4_entry_idx_def)
  qed
  ultimately show ?thesis by (simp add: kernel_region_def mask_ok_def)
qed

lemma allocate_pages_spec:
  assumes "mem_ok L p m K s" and "p = the_process cur None" and "client_ok Kernel a e (vmm s)" and "kernel_region m K a e"
    and "reserved_only L p a e s" and "num_pages \<noteq> 0" and "unat num_pages \<le> 2 ^ 31"
    and "bytes = unat (rounded_pages num_pages) * 2 ^ 21"
    and "\<exists>r \<in> set (client_ranges Kernel (vmm s)). \<not> rg_allocated r \<and> bytes \<le> range_bytes r"
    and "513 * unat num_pages \<le> card (fresh (pt s))"
  shows "\<exists>addr s' k. mem_allocate_pages t cur num_pages s = Some (addr, s') \<and>
    mem_ok L p m K s' \<and> client_ok Kernel a e (vmm s') \<and> reserved_only L p a e s' \<and>
    regions (client_ranges Kernel (vmm s')) = insert (unat addr, bytes) (regions (client_ranges Kernel (vmm s))) \<and>
    outside (regions (client_ranges Kernel (vmm s))) addr \<and>
    inj_on k {..<unat num_pages} \<and> k ` {..<unat num_pages} \<subseteq> free_set (pm (pt s)) \<and>
    (\<forall>i < unat num_pages. \<forall>x \<in> slots L p (nth_page addr i).
       PT_MARKED_PRESENT (entry s' x) \<and> entry s' x AND 0x0007FFFFFFF00000 = page_addr (k i)) \<and>
    (\<forall>x. (\<forall>i < unat num_pages. x \<notin> slots L p (nth_page addr i)) \<longrightarrow> entry s' x = entry s x)"
proof -
  let ?n = "unat num_pages" and ?R = "regions (client_ranges Kernel (vmm s))"
  obtain addr V where v: "mem_allocate_virtual_range t num_pages Kernel (vmm s) = Some (addr, V)" "client_ok Kernel a e V"
    "?n * 2 ^ 21 \<le> bytes" "a \<le> unat addr" "unat addr + bytes \<le> e"
    "\<forall>(b, m) \<in> ?R. unat addr + bytes \<le> b \<or> b + m \<le> unat addr"
    "regions (client_ranges Kernel V) = insert (unat addr, bytes) ?R"
    using vmm_allocate_spec [OF assms(3,6,7,8), of t] assms(9) by auto
  have e: "e \<le> 2 ^ 64" using assms(3) client_ok_data [OF assms(3)] by (metis vmm_ok_def)
  have al: "2 ^ 21 dvd unat addr" using region_aligned [OF v(2), of "unat addr" bytes] v(7) by simp
  let ?v = "nth_page addr"
  have r: "unat addr + ?n * 2 ^ 21 \<le> 2 ^ 64" using v(3,5) e by linarith
  have u: "unat (?v i) = unat addr + i * 2 ^ 21" if "i < ?n" for i by (rule unat_nth_page [OF r that])
  have b: "a \<le> unat (?v i)" "unat (?v i) + 2 ^ 21 \<le> unat addr + bytes" "2 ^ 21 dvd unat (?v i)" if "i < ?n" for i
  proof -
    have "Suc i * 2 ^ 21 \<le> ?n * 2 ^ 21" using that by (intro mult_le_mono1) simp
    then show "unat (?v i) + 2 ^ 21 \<le> unat addr + bytes" using u [OF that] v(3) by simp
    show "a \<le> unat (?v i)" "2 ^ 21 dvd unat (?v i)" using u [OF that] v(4) al by simp_all
  qed
  have al0: "v mod MEM_PAGE_SIZE = 0" if "2 ^ 21 dvd unat v" for v using that page_multiple by blast
  have av: "alloc_valid m K (?v i)" if "i < ?n" for i
    using b [OF that] v(5) al0 assms(4) by (simp add: alloc_valid_def kernel_region_def)
  have out: "outside ?R (?v i)" if "i < ?n" for i
    using v(6) b(2) [OF that] u [OF that] by (fastforce simp: outside_def)
  have ev: "entry (s\<lparr>vmm := V\<rparr>) = entry s" by (intro ext) (simp add: entry_def split: prod.split)
  have free: "\<not> PT_MARKED_PRESENT (entry (s\<lparr>vmm := V\<rparr>) x)" if "i < ?n" "x \<in> slots L p (?v i)" for i x
  proof -
    have "unat (?v i) + 2 ^ 21 \<le> e" using b(2) [OF that(1)] v(5) by linarith
    then have "\<not> PT_MARKED_PRESENT (entry s x)"
      using assms(5) b(1,3) [OF that(1)] al0 out [OF that(1)] that(2) unfolding reserved_only_def by blast
    then show ?thesis by (simp add: ev)
  qed
  obtain s' k where s': "allocate_pages_loop ?n cur addr (s\<lparr>vmm := V\<rparr>) = Some s'" "mem_ok L p m K s'" "vmm s' = V"
    "inj_on k {..<?n}" "k ` {..<?n} \<subseteq> free_set (pm (pt s))"
    "\<forall>i < ?n. \<forall>x \<in> slots L p (?v i). PT_MARKED_PRESENT (entry s' x) \<and> entry s' x AND 0x0007FFFFFFF00000 = page_addr (k i)"
    "\<forall>x. (\<forall>i < ?n. x \<notin> slots L p (?v i)) \<longrightarrow> entry s' x = entry (s\<lparr>vmm := V\<rparr>) x"
    using allocate_pages_loop_spec [of L p m K "s\<lparr>vmm := V\<rparr>" cur addr ?n] assms(1,2,10) r av free by (auto simp: mem_ok_def)
  have "reserved_only L p a e s'"
    unfolding reserved_only_def
  proof (intro allI impI ballI)
    fix w x assume w: "a \<le> unat w" "unat w + 2 ^ 21 \<le> e" "w mod MEM_PAGE_SIZE = 0"
      "outside (regions (client_ranges Kernel (vmm s'))) w" "x \<in> slots L p w"
    have o: "outside ?R w" "unat w + 2 ^ 21 \<le> unat addr \<or> unat addr + bytes \<le> unat w"
      using w(4) unfolding s'(3) v(7) by (auto simp: outside_def)
    have "x \<notin> slots L p (?v i)" if "i < ?n" for i
    proof
      assume "x \<in> slots L p (?v i)"
      then have ix: "page_ix w = page_ix (?v i)" using w(5) by (auto simp: slots_def same_slot_def)
      have "canonical w" "canonical (?v i)" using assms(4) w(1,2) av [OF that] by (auto simp: kernel_region_def alloc_valid_def)
      moreover have "2 ^ 21 dvd unat w" using w(3) page_multiple [of w] by simp
      ultimately have "w = ?v i" using same_page [OF _ _ ix] b(3) [OF that] by blast
      then have "unat w = unat addr + i * 2 ^ 21" "unat w + 2 ^ 21 \<le> unat addr + bytes" using u [OF that] b(2) [OF that] by simp_all
      then show False using o(2) by auto
    qed
    then have "entry s' x = entry s x" using s'(7) ev by metis
    moreover have "\<not> PT_MARKED_PRESENT (entry s x)"
      by (rule assms(5) [unfolded reserved_only_def, rule_format, OF w(1-3) o(1) w(5)])
    ultimately show "\<not> PT_MARKED_PRESENT (entry s' x)" by simp
  qed
  moreover have "mem_allocate_pages t cur num_pages s = Some (addr, s')"
    using assms(6) v(1) s'(1) by (simp add: mem_allocate_pages_def)
  moreover have "outside ?R addr" using out [of 0] assms(6) unat_gt_0 [of num_pages] by simp
  ultimately show ?thesis using s'(2-6) s'(7) [unfolded ev] v(2,7) by (intro exI [of _ addr] exI [of _ s'] exI [of _ k]) (simp only: simp_thms)
qed

lemma sample_allocates:
  "\<exists>addr s'. mem_allocate_pages (Some 7) None 1 sample_kernel = Some (addr, s')"
proof -
  have V: "vmm sample_kernel = sample_kernel_vmm" "pt sample_kernel = sample_kernel_pt" by (simp_all add: sample_kernel_def)
  have ro: "reserved_only [0] 0 0xFFFFFFFFC0000000 0xFFFFFFFFC0800000 sample_kernel"
    by (simp add: reserved_only_def sample_kernel_entry)
  have ex: "\<exists>r \<in> set (client_ranges Kernel (vmm sample_kernel)). \<not> rg_allocated r \<and> 2 ^ 21 \<le> range_bytes r"
    by (simp add: V client_ranges_def vmm_data_def sample_kernel_vmm_def sample_range_def range_bytes_def)
  show ?thesis
    using allocate_pages_spec [OF sample_kernel_ok _ sample_kernel_vmm_ok [folded V(1)] top_region ro, of None 1 "2 ^ 21" "Some 7"]
      ex sample_kernel_fresh by (auto simp: the_process_def sample_rounded V(2))
qed

end
