(* ===== verification/Kheap.thy ===== *)
theory Kheap
  imports Klib_List Phys_Mem Cpp_Lib Mem_Map
begin

text \<open>
  The kernel heap: \<open>kernel/klib/memory/memory.cpp\<close>. Small blocks are chunks of 2 MB slabs, one slab holding
  chunks of one of five sizes; a bitmap after the slab's header has a bit for each chunk. The slabs of a size
  are in three lists (free, partly used, full) that run through the slab headers, and the lists here are those of
  \<open>Klib_List\<close>, on a store where the list entry of a slab is at the address of the slab. Larger blocks are
  ranges of pages, recorded in a \<open>std::map\<close>.

  The heap takes its pages from \<open>mem_allocate_pages\<close> and gives them back with \<open>mem_deallocate_pages\<close>. The
  definitions take these two as arguments, with the addresses of the three arrays of lists and the size of a \<open>std::map\<close> object,
  and the locale \<open>page_source\<close> says what the heap needs of them; \<open>Mem_Map\<close> provides it.

  The mutex \<open>allocator_gen_lock\<close> makes each call atomic and is left out, with the spinlock inside it. The nodes that
  \<open>large_allocations\<close> takes from the heap for itself are not modelled. A read or a write outside a slab's bitmap,
  or of a header where there is no slab, has no result.
\<close>

subsection \<open>Constants and state\<close>

definition CHUNK_SIZES :: "u32 list" where
  "CHUNK_SIZES = [8, 64, 256, 1024, 262144]"

definition NUM_CHUNKS_PER_SLAB :: "u32 list" where
  "NUM_CHUNKS_PER_SLAB = [258041, 32703, 8187, 2047, 7]"

definition FIRST_OFFSET_IN_SLAB :: "u32 list" where
  "FIRST_OFFSET_IN_SLAB = [32824, 4160, 1280, 1024, 262144]"

definition NUM_SLAB_LISTS :: nat where
  "NUM_SLAB_LISTS = length CHUNK_SIZES"

definition FIRST_BITMAP_ENTRY_OFFSET :: u32 where
  "FIRST_BITMAP_ENTRY_OFFSET = 40"

definition MAX_FREE_SLABS :: u64 where
  "MAX_FREE_SLABS = 5"

text \<open>The list entry of a header is the item of the list store at the same address; its size in the arrays of lists is 16.\<close>

record slab_header =
  allocation_count :: u64
  slab_bitmap :: "u64 list"

datatype slab_kind = Free_Slabs | Partial_Slabs | Full_Slabs

definition SIZEOF_PTR_LIST :: nat where
  "SIZEOF_PTR_LIST = 16"

record 'p heap_state =
  list_mem :: "u64 list_store"
  slab_mem :: "addr \<rightharpoonup> slab_header"
  large_allocations :: "(u64, u64) std_map"
  allocator_initialized :: bool
  allocator_initializing :: bool
  page_src :: 'p

record 'p heap_env =
  free_slabs_list :: addr
  partial_slabs_list :: addr
  full_slabs_list :: addr
  sizeof_map :: u64
  allocate_pages :: "u32 \<Rightarrow> 'p \<Rightarrow> (u64 \<times> 'p) option"
  deallocate_pages :: "u64 \<Rightarrow> u32 \<Rightarrow> 'p \<Rightarrow> 'p option"

definition slab_base :: "'p heap_env \<Rightarrow> slab_kind \<Rightarrow> addr" where
  "slab_base E k = (case k of Free_Slabs \<Rightarrow> free_slabs_list E | Partial_Slabs \<Rightarrow> partial_slabs_list E
     | Full_Slabs \<Rightarrow> full_slabs_list E)"

definition slab_list :: "'p heap_env \<Rightarrow> slab_kind \<Rightarrow> nat \<Rightarrow> addr" where
  "slab_list E k i = slab_base E k + SIZEOF_PTR_LIST * i"

subsection \<open>Slabs\<close>

text \<open>The \<open>bitmap_bytes\<close> that are cleared when a slab is made, and so the number of words of the bitmap.\<close>

definition bitmap_bytes :: "nat \<Rightarrow> u32" where
  "bitmap_bytes chunk_size_idx =
     (let b = NUM_CHUNKS_PER_SLAB ! chunk_size_idx div 8; b = b + 1; b = b div 8; b = b + 1 in b * 8)"

definition allocate_new_slab :: "'p heap_env \<Rightarrow> nat \<Rightarrow> 'p heap_state \<Rightarrow> (addr \<times> 'p heap_state) option" where
  "allocate_new_slab E chunk_size_idx h = do {
     (new_slab, p) \<leftarrow> allocate_pages E 1 (page_src h);
     let h = h\<lparr>page_src := p\<rparr>;
     let a = unat new_slab;
     ls \<leftarrow> klib_list_item_initialize (list_mem h) (Some a);
     let ls = upd_item a (\<lambda>it. it\<lparr>li_item := Some new_slab\<rparr>) ls;
     Some (a, h\<lparr>list_mem := ls, slab_mem := (slab_mem h)(a \<mapsto>
       \<lparr>allocation_count = 0, slab_bitmap = replicate (unat (bitmap_bytes chunk_size_idx) div 8) 0\<rparr>)\<rparr>)
   }"

text \<open>
  The two loops of \<open>allocate_chunk_from_slab\<close>. The inner one moves a mask down a word until it
  meets a clear bit, the outer one goes on to the next word when all bits are set.
\<close>

function free_bit_loop :: "u64 \<Rightarrow> u64 \<Rightarrow> u32 \<Rightarrow> (u64 \<times> u32) option" where
  "free_bit_loop w moving_bit_mask first_free_idx =
     (if w AND moving_bit_mask = 0 then Some (w OR moving_bit_mask, first_free_idx)
      else if moving_bit_mask = 1 then None
      else free_bit_loop w (drop_bit 1 moving_bit_mask) (first_free_idx + 1))"
  by pat_completeness auto
termination
proof (relation "measure (\<lambda>(w, m, i). unat m)", simp)
  fix w m :: u64 and i :: u32
  assume "w AND m \<noteq> 0"
  then have "m \<noteq> 0" by auto
  then have "unat (drop_bit 1 m) < unat m"
    using unat_gt_0 [of m] by (simp add: drop_bit_eq_div unat_div)
  then show "((w, drop_bit 1 m, i + 1), (w, m, i)) \<in> measure (\<lambda>(w, m, i). unat m)" by simp
qed

declare free_bit_loop.simps [simp del]

fun free_word_loop :: "u64 list \<Rightarrow> u32 \<Rightarrow> u32 \<Rightarrow> (u64 list \<times> u32) option" where
  "free_word_loop [] first_free_idx num_chunks = None"
| "free_word_loop (w # ws) first_free_idx num_chunks =
     (if 0xFFFFFFFFFFFFFFFF XOR w \<noteq> 0 then do {
        (w, idx) \<leftarrow> free_bit_loop w 0x8000000000000000 first_free_idx;
        Some (w # ws, idx)
      } else do {
        ASSERT (first_free_idx + 64 \<le> num_chunks);
        (ws, idx) \<leftarrow> free_word_loop ws (first_free_idx + 64) num_chunks;
        Some (w # ws, idx)
      })"

definition allocate_chunk_from_slab :: "addr \<Rightarrow> nat \<Rightarrow> 'p heap_state \<Rightarrow> (u64 \<times> 'p heap_state) option" where
  "allocate_chunk_from_slab slab chunk_size_idx h = do {
     ASSERT (slab \<noteq> 0);
     ASSERT (chunk_size_idx < NUM_SLAB_LISTS);
     sh \<leftarrow> slab_mem h slab;
     (ws, first_free_idx) \<leftarrow> free_word_loop (slab_bitmap sh) 0 (NUM_CHUNKS_PER_SLAB ! chunk_size_idx);
     ASSERT (first_free_idx \<le> NUM_CHUNKS_PER_SLAB ! chunk_size_idx);
     let chunk_offset = (ucast (first_free_idx * CHUNK_SIZES ! chunk_size_idx + FIRST_OFFSET_IN_SLAB ! chunk_size_idx) :: u64);
     let sh = sh\<lparr>slab_bitmap := ws, allocation_count := allocation_count sh + 1\<rparr>;
     Some (of_nat slab + chunk_offset, h\<lparr>slab_mem := (slab_mem h)(slab \<mapsto> sh)\<rparr>)
   }"

definition slab_is_full :: "addr \<Rightarrow> nat \<Rightarrow> 'p heap_state \<Rightarrow> bool option" where
  "slab_is_full slab chunk_size_idx h = do {
     ASSERT (slab \<noteq> 0);
     ASSERT (chunk_size_idx < NUM_SLAB_LISTS);
     let max_chunks = NUM_CHUNKS_PER_SLAB ! chunk_size_idx;
     sh \<leftarrow> slab_mem h slab;
     ASSERT (allocation_count sh \<le> ucast max_chunks);
     Some (allocation_count sh = ucast max_chunks)
   }"

definition slab_is_empty :: "addr \<Rightarrow> 'p heap_state \<Rightarrow> bool option" where
  "slab_is_empty slab h = do {
     ASSERT (slab \<noteq> 0);
     sh \<leftarrow> slab_mem h slab;
     Some (allocation_count sh = 0)
   }"

subsection \<open>Allocation\<close>

fun find_slab_idx :: "u64 \<Rightarrow> u32 list \<Rightarrow> nat \<Rightarrow> nat" where
  "find_slab_idx mem_size [] i = i"
| "find_slab_idx mem_size (c # cs) i = (if mem_size \<le> ucast c then i else find_slab_idx mem_size cs (Suc i))"

text \<open>Taking the first slab of a list off it.\<close>

definition take_slab :: "addr \<Rightarrow> 'p heap_state \<Rightarrow> (addr \<times> 'p heap_state) option" where
  "take_slab l h = do {
     root \<leftarrow> get_list (list_mem h) (Some l);
     slab_ptr \<leftarrow> l_head root;
     ls \<leftarrow> klib_list_remove (list_mem h) (Some slab_ptr);
     Some (slab_ptr, h\<lparr>list_mem := ls\<rparr>)
   }"

definition choose_slab :: "'p heap_env \<Rightarrow> nat \<Rightarrow> 'p heap_state \<Rightarrow> (addr \<times> 'p heap_state) option" where
  "choose_slab E slab_idx h = do {
     no_partial \<leftarrow> klib_list_is_empty (list_mem h) (Some (slab_list E Partial_Slabs slab_idx));
     no_free \<leftarrow> klib_list_is_empty (list_mem h) (Some (slab_list E Free_Slabs slab_idx));
     if \<not> no_partial then take_slab (slab_list E Partial_Slabs slab_idx) h
     else if \<not> no_free then take_slab (slab_list E Free_Slabs slab_idx) h
     else allocate_new_slab E slab_idx h
   }"

definition push_slab :: "addr \<Rightarrow> addr \<Rightarrow> 'p heap_state \<Rightarrow> 'p heap_state option" where
  "push_slab l slab h = do {
     ls \<leftarrow> klib_list_add_head (list_mem h) (Some l) (Some slab);
     Some (h\<lparr>list_mem := ls\<rparr>)
   }"

text \<open>A spare slab is made in advance when the slab in use is more than 90\% full and no slab is free.\<close>

definition preallocate_slab :: "'p heap_env \<Rightarrow> nat \<Rightarrow> addr \<Rightarrow> 'p heap_state \<Rightarrow> 'p heap_state option" where
  "preallocate_slab E slab_idx slab_ptr h = do {
     sh \<leftarrow> slab_mem h slab_ptr;
     let proportion_used = (allocation_count sh * 100) div ucast (NUM_CHUNKS_PER_SLAB ! slab_idx);
     no_free \<leftarrow> klib_list_is_empty (list_mem h) (Some (slab_list E Free_Slabs slab_idx));
     if proportion_used > 90 \<and> no_free then do {
       (slab_ptr, h) \<leftarrow> allocate_new_slab E slab_idx h;
       push_slab (slab_list E Free_Slabs slab_idx) slab_ptr h
     } else Some h
   }"

definition kmalloc_chunk :: "'p heap_env \<Rightarrow> nat \<Rightarrow> 'p heap_state \<Rightarrow> (u64 \<times> 'p heap_state) option" where
  "kmalloc_chunk E slab_idx h = do {
     (slab_ptr, h) \<leftarrow> choose_slab E slab_idx h;
     (return_addr, h) \<leftarrow> allocate_chunk_from_slab slab_ptr slab_idx h;
     ASSERT (return_addr \<noteq> 0);
     is_full \<leftarrow> slab_is_full slab_ptr slab_idx h;
     h \<leftarrow> push_slab (slab_list E (if is_full then Full_Slabs else Partial_Slabs) slab_idx) slab_ptr h;
     h \<leftarrow> preallocate_slab E slab_idx slab_ptr h;
     Some (return_addr, h)
   }"

definition kmalloc_large :: "'p heap_env \<Rightarrow> u64 \<Rightarrow> 'p heap_state \<Rightarrow> (u64 \<times> 'p heap_state) option" where
  "kmalloc_large E mem_size h = do {
     let required_pages = (ucast ((mem_size - 1) div MEM_PAGE_SIZE + 1) :: u32);
     (large_alloc_addr, p) \<leftarrow> allocate_pages E required_pages (page_src h);
     let h = h\<lparr>page_src := p\<rparr>;
     Some (large_alloc_addr,
       h\<lparr>large_allocations := std_map_insert large_alloc_addr (ucast required_pages) (large_allocations h)\<rparr>)
   }"

definition kmalloc_main :: "'p heap_env \<Rightarrow> u64 \<Rightarrow> 'p heap_state \<Rightarrow> (u64 \<times> 'p heap_state) option" where
  "kmalloc_main E mem_size h =
     (let slab_idx = find_slab_idx mem_size CHUNK_SIZES 0
      in if NUM_SLAB_LISTS \<le> slab_idx then kmalloc_large E mem_size h else kmalloc_chunk E slab_idx h)"

text \<open>Initialisation. The three lists of a size are emptied and one free slab is made for it.\<close>

definition init_slab_lists :: "'p heap_env \<Rightarrow> nat \<Rightarrow> 'p heap_state \<Rightarrow> 'p heap_state option" where
  "init_slab_lists E i h = do {
     ls \<leftarrow> klib_list_initialize (list_mem h) (Some (slab_list E Free_Slabs i));
     ls \<leftarrow> klib_list_initialize ls (Some (slab_list E Partial_Slabs i));
     ls \<leftarrow> klib_list_initialize ls (Some (slab_list E Full_Slabs i));
     (new_empty_slab, h) \<leftarrow> allocate_new_slab E i (h\<lparr>list_mem := ls\<rparr>);
     ASSERT (new_empty_slab \<noteq> 0);
     ls \<leftarrow> klib_list_add_tail (list_mem h) (Some (slab_list E Free_Slabs i)) (Some new_empty_slab);
     Some (h\<lparr>list_mem := ls\<rparr>)
   }"

fun init_lists_loop :: "'p heap_env \<Rightarrow> nat \<Rightarrow> nat \<Rightarrow> 'p heap_state \<Rightarrow> 'p heap_state option" where
  "init_lists_loop E i 0 h = Some h"
| "init_lists_loop E i (Suc n) h = do { h \<leftarrow> init_slab_lists E i h; init_lists_loop E (Suc i) n h }"

definition init_allocator_system :: "'p heap_env \<Rightarrow> 'p heap_state \<Rightarrow> 'p heap_state option" where
  "init_allocator_system E h = do {
     ASSERT (\<not> allocator_initialized h);
     ASSERT (\<not> allocator_initializing h);
     h \<leftarrow> init_lists_loop E 0 NUM_SLAB_LISTS (h\<lparr>allocator_initializing := True\<rparr>);
     let h = h\<lparr>allocator_initialized := True, allocator_initializing := False\<rparr>;
     (_, h) \<leftarrow> kmalloc_main E (sizeof_map E) h;
     Some (h\<lparr>large_allocations := []\<rparr>)
   }"

definition kmalloc :: "'p heap_env \<Rightarrow> u64 \<Rightarrow> 'p heap_state \<Rightarrow> (u64 \<times> 'p heap_state) option" where
  "kmalloc E mem_size h = do {
     h \<leftarrow> (if \<not> allocator_initialized h then do {
             ASSERT (\<not> allocator_initializing h);
             h \<leftarrow> init_allocator_system E h;
             ASSERT (allocator_initialized h);
             Some h } else Some h);
     kmalloc_main E mem_size h
   }"

subsection \<open>Release\<close>

text \<open>The list a slab is in tells the size of its chunks: the position in the array of partly used or of full slabs.\<close>

definition slab_list_index :: "'p heap_env \<Rightarrow> addr \<Rightarrow> (nat \<times> bool) option" where
  "slab_list_index E list_ptr =
     (if partial_slabs_list E \<le> list_ptr \<and> list_ptr < partial_slabs_list E + SIZEOF_PTR_LIST * NUM_SLAB_LISTS
      then Some ((list_ptr - partial_slabs_list E) div SIZEOF_PTR_LIST, False)
      else if full_slabs_list E \<le> list_ptr \<and> list_ptr < full_slabs_list E + SIZEOF_PTR_LIST * NUM_SLAB_LISTS
      then Some ((list_ptr - full_slabs_list E) div SIZEOF_PTR_LIST, True)
      else None)"

definition chunk_offset_of :: "u64 \<Rightarrow> u64 \<Rightarrow> nat \<Rightarrow> u32" where
  "chunk_offset_of mem_block slab_ptr i =
     (let c = (ucast (mem_block - slab_ptr) :: u32); c = c - FIRST_OFFSET_IN_SLAB ! i in c div CHUNK_SIZES ! i)"

definition free_chunk :: "u64 \<Rightarrow> addr \<Rightarrow> nat \<Rightarrow> 'p heap_state \<Rightarrow> 'p heap_state option" where
  "free_chunk mem_block slab_ptr i h = do {
     ASSERT (i < NUM_SLAB_LISTS);
     let chunk_offset = chunk_offset_of mem_block (of_nat slab_ptr) i;
     ASSERT (chunk_offset < NUM_CHUNKS_PER_SLAB ! i);
     let bitmap_ulong = unat (chunk_offset div 64);
     let bitmap_bit = unat (63 - chunk_offset mod 64);
     let bitmap_mask = (push_bit bitmap_bit 1 :: u64);
     sh \<leftarrow> slab_mem h slab_ptr;
     ASSERT (bitmap_ulong < length (slab_bitmap sh));
     let w = slab_bitmap sh ! bitmap_ulong;
     ASSERT (w AND bitmap_mask \<noteq> 0);
     let sh = sh\<lparr>slab_bitmap := (slab_bitmap sh)[bitmap_ulong := w XOR bitmap_mask], allocation_count := allocation_count sh - 1\<rparr>;
     Some (h\<lparr>slab_mem := (slab_mem h)(slab_ptr \<mapsto> sh)\<rparr>)
   }"

definition append_slab :: "addr \<Rightarrow> addr \<Rightarrow> 'p heap_state \<Rightarrow> 'p heap_state option" where
  "append_slab l slab h = do {
     ls \<leftarrow> klib_list_add_tail (list_mem h) (Some l) (Some slab);
     Some (h\<lparr>list_mem := ls\<rparr>)
   }"

definition unlink_slab :: "addr \<Rightarrow> 'p heap_state \<Rightarrow> 'p heap_state option" where
  "unlink_slab slab h = do {
     ls \<leftarrow> klib_list_remove (list_mem h) (Some slab);
     Some (h\<lparr>list_mem := ls\<rparr>)
   }"

text \<open>After \<open>mem_deallocate_pages\<close> the memory of a slab, header and list entry, is gone.\<close>

definition release_slab :: "'p heap_env \<Rightarrow> addr \<Rightarrow> 'p heap_state \<Rightarrow> 'p heap_state option" where
  "release_slab E slab h = do {
     p \<leftarrow> deallocate_pages E (of_nat slab) 1 (page_src h);
     Some (h\<lparr>page_src := p, slab_mem := (slab_mem h)(slab := None),
       list_mem := (list_mem h)\<lparr>items := (items (list_mem h))(slab := None)\<rparr>\<rparr>)
   }"

definition kfree_chunk :: "'p heap_env \<Rightarrow> u64 \<Rightarrow> 'p heap_state \<Rightarrow> 'p heap_state option" where
  "kfree_chunk E mem_block h = do {
     let slab_ptr = unat (mem_block - mem_block mod MEM_PAGE_SIZE);
     it \<leftarrow> get_item (list_mem h) (Some slab_ptr);
     list_ptr \<leftarrow> li_list_obj it;
     (i, slab_was_full) \<leftarrow> slab_list_index E list_ptr;
     h \<leftarrow> free_chunk mem_block slab_ptr i h;
     is_empty \<leftarrow> slab_is_empty slab_ptr h;
     if is_empty then do {
       h \<leftarrow> unlink_slab slab_ptr h;
       free_slabs \<leftarrow> klib_list_get_length (list_mem h) (Some (slab_list E Free_Slabs i));
       if free_slabs \<ge> MAX_FREE_SLABS then release_slab E slab_ptr h
       else append_slab (slab_list E Free_Slabs i) slab_ptr h
     } else if slab_was_full then do {
       h \<leftarrow> unlink_slab slab_ptr h;
       append_slab (slab_list E Partial_Slabs i) slab_ptr h
     } else Some h
   }"

definition kfree_large :: "'p heap_env \<Rightarrow> u64 \<Rightarrow> 'p heap_state \<Rightarrow> 'p heap_state option" where
  "kfree_large E dealloc_addr h = do {
     ASSERT (map_contains (large_allocations h) dealloc_addr);
     n \<leftarrow> map_of (large_allocations h) dealloc_addr;
     p \<leftarrow> deallocate_pages E dealloc_addr (ucast n) (page_src h);
     Some (h\<lparr>page_src := p, large_allocations := std_map_erase dealloc_addr (large_allocations h)\<rparr>)
   }"

definition kfree :: "'p heap_env \<Rightarrow> u64 \<Rightarrow> 'p heap_state \<Rightarrow> 'p heap_state option" where
  "kfree E mem_block h = do {
     ASSERT (allocator_initialized h);
     if mem_block mod MEM_PAGE_SIZE = 0 then kfree_large E mem_block h else kfree_chunk E mem_block h
   }"

subsection \<open>The layout of a slab\<close>

definition chunk_size :: "nat \<Rightarrow> nat" where
  "chunk_size i = unat (CHUNK_SIZES ! i)"

definition num_chunks :: "nat \<Rightarrow> nat" where
  "num_chunks i = unat (NUM_CHUNKS_PER_SLAB ! i)"

definition first_offset :: "nat \<Rightarrow> nat" where
  "first_offset i = unat (FIRST_OFFSET_IN_SLAB ! i)"

definition bitmap_words :: "nat \<Rightarrow> nat" where
  "bitmap_words i = unat (bitmap_bytes i) div 8"

lemmas slab_consts = CHUNK_SIZES_def NUM_CHUNKS_PER_SLAB_def FIRST_OFFSET_IN_SLAB_def NUM_SLAB_LISTS_def
lemmas slab_sizes = chunk_size_def num_chunks_def first_offset_def bitmap_words_def

lemma slab_idx_cases: "i < NUM_SLAB_LISTS \<Longrightarrow> i = 0 \<or> i = 1 \<or> i = 2 \<or> i = 3 \<or> i = 4"
  by (auto simp: NUM_SLAB_LISTS_def CHUNK_SIZES_def)

lemma slab_geometry:
  assumes "i < NUM_SLAB_LISTS"
  shows "0 < chunk_size i" "chunk_size i dvd 2 ^ 21" "chunk_size i dvd first_offset i"
    "8 * bitmap_words i + unat FIRST_BITMAP_ENTRY_OFFSET \<le> first_offset i"
    "first_offset i + num_chunks i * chunk_size i = 2 ^ 21" "1 < num_chunks i" "num_chunks i \<le> 64 * bitmap_words i"
    "100 div num_chunks i \<le> 90" "num_chunks i < 2 ^ 18" "0 < first_offset i" "bitmap_words i \<le> 4033"
  using slab_idx_cases [OF assms]
  by (elim disjE; simp add: slab_sizes slab_consts bitmap_bytes_def FIRST_BITMAP_ENTRY_OFFSET_def)+

subsection \<open>The search for a free chunk\<close>

lemma unat_lt_u32: "unat (w :: u32) < 2 ^ 32"
  using unsigned_less [of w] by simp

lemma page_mask_Suc: "Suc j < 64 \<Longrightarrow> drop_bit (Suc 0) (page_mask j) = page_mask (Suc j)"
  by (simp add: page_mask_def)

lemma page_mask_1: "j < 64 \<Longrightarrow> page_mask j = 1 \<longleftrightarrow> j = 63"
proof
  assume "j < 64" "page_mask j = 1"
  then have "(2 :: u64) ^ (63 - j) = 2 ^ 0" by (simp add: page_mask_exp)
  then have "unat ((2 :: u64) ^ (63 - j)) = unat (2 ^ 0 :: u64)" by simp
  then have "(2 :: nat) ^ (63 - j) = 2 ^ 0" by (simp only: unat_exp_u64)
  then show "j = 63" using \<open>j < 64\<close> by simp
qed (simp add: page_mask_exp)

lemma free_bit_loop_first:
  "k < 64 \<Longrightarrow> j \<le> k \<Longrightarrow> \<not> bit w (63 - k) \<Longrightarrow> (\<forall>i. j \<le> i \<longrightarrow> i < k \<longrightarrow> bit w (63 - i)) \<Longrightarrow>
   free_bit_loop w (page_mask j) idx = Some (w OR page_mask k, idx + of_nat (k - j))"
proof (induction "k - j" arbitrary: j idx)
  case 0
  then show ?case by (subst free_bit_loop.simps) (simp add: and_page_mask)
next
  case (Suc d)
  then have j: "j < k" "j < 64" "bit w (63 - j)" by auto
  have "free_bit_loop w (page_mask (Suc j)) (idx + 1) = Some (w OR page_mask k, idx + 1 + of_nat (k - Suc j))"
    using Suc.hyps(2) Suc.prems j by (intro Suc.hyps(1)) auto
  moreover have "idx + 1 + of_nat (k - Suc j) = idx + of_nat (k - j)"
    using j(1) by (simp add: of_nat_diff)
  ultimately show ?case
    using j Suc.prems(1) by (subst free_bit_loop.simps) (simp add: and_page_mask page_mask_1 page_mask_Suc)
qed

lemma all_ones: "0xFFFFFFFFFFFFFFFF XOR w = 0 \<longleftrightarrow> (\<forall>k < 64. bit (w :: u64) (63 - k))"
proof -
  have "0xFFFFFFFFFFFFFFFF = (- 1 :: u64)" by simp
  moreover have "- 1 XOR w = NOT w" by (rule bit_eqI) (simp add: bit_xor_iff bit_not_iff)
  ultimately have "0xFFFFFFFFFFFFFFFF XOR w = NOT w" by (simp only:)
  then have "0xFFFFFFFFFFFFFFFF XOR w = 0 \<longleftrightarrow> NOT w = 0" by (simp only:)
  also have "\<dots> \<longleftrightarrow> (\<forall>n < 64. bit w n)" by (auto simp: bit_eq_iff bit_not_iff)
  also have "\<dots> \<longleftrightarrow> (\<forall>k < 64. bit w (63 - k))"
  proof (intro iffI allI impI)
    fix n :: nat assume "\<forall>k < 64. bit w (63 - k)" "n < 64"
    then show "bit w n" using spec [of "\<lambda>k. k < 64 \<longrightarrow> bit w (63 - k)" "63 - n"] by simp
  qed simp
  finally show ?thesis .
qed

lemma free_word_loop_first:
  assumes "n < 64 * length ws" "\<not> page_bit ws n" "\<forall>m < n. page_bit ws m" "unat idx + n \<le> unat num"
  shows "free_word_loop ws idx num = Some (ws[n div 64 := ws ! (n div 64) OR page_mask (n mod 64)], idx + of_nat n)"
  using assms
proof (induction ws arbitrary: n idx)
  case (Cons w ws)
  show ?case
  proof (cases "n < 64")
    case True
    have "\<not> bit w (63 - n)" "\<forall>i < n. bit w (63 - i)"
      using Cons.prems(2,3) True by (auto simp: page_bit_Cons split: if_splits)
    moreover from this have "0xFFFFFFFFFFFFFFFF XOR w \<noteq> 0" using True all_ones by blast
    ultimately show ?thesis
      using True free_bit_loop_first [of n 0 w idx] by (simp add: page_mask_def)
  next
    case False
    then have ones: "0xFFFFFFFFFFFFFFFF XOR w = 0"
      using Cons.prems(3) by (auto simp: all_ones page_bit_Cons)
    have lt: "unat idx + n < 2 ^ 32" using Cons.prems(4) unat_lt_u32 [of num] by simp
    have u: "unat (idx + 64) = unat idx + 64"
      using False lt by (simp add: unat_word_ariths)
    have "free_word_loop ws (idx + 64) num =
      Some (ws[(n - 64) div 64 := ws ! ((n - 64) div 64) OR page_mask ((n - 64) mod 64)], idx + 64 + of_nat (n - 64))"
    proof (rule Cons.IH)
      show "n - 64 < 64 * length ws" "\<not> page_bit ws (n - 64)" "unat (idx + 64) + (n - 64) \<le> unat num"
        using Cons.prems False u by (simp_all add: page_bit_Cons)
      show "\<forall>m < n - 64. page_bit ws m"
      proof (intro allI impI)
        fix m assume "m < n - 64"
        then have "page_bit (w # ws) (m + 64)" using Cons.prems(3) by simp
        then show "page_bit ws m" by (simp add: page_bit_Cons)
      qed
    qed
    moreover have "idx + 64 \<le> num" using Cons.prems(4) False u by (simp add: word_le_nat_alt)
    moreover have "n div 64 = Suc ((n - 64) div 64)" "n mod 64 = (n - 64) mod 64"
      using False by (simp_all add: div_if mod_if)
    moreover have "idx + 64 + of_nat (n - 64) = idx + of_nat n" using False by (simp add: of_nat_diff)
    ultimately show ?thesis using ones by simp
  qed
qed simp

subsection \<open>The lists of slabs\<close>

text \<open>The linker gives the three arrays of lists addresses of their own.\<close>

definition layout_ok :: "'p heap_env \<Rightarrow> bool" where
  "layout_ok E \<longleftrightarrow> (\<forall>k k'. k \<noteq> k' \<longrightarrow> slab_base E k + SIZEOF_PTR_LIST * NUM_SLAB_LISTS \<le> slab_base E k' \<or>
     slab_base E k' + SIZEOF_PTR_LIST * NUM_SLAB_LISTS \<le> slab_base E k)"

lemma slab_list_bounds:
  "i < NUM_SLAB_LISTS \<Longrightarrow> slab_base E k \<le> slab_list E k i \<and>
     slab_list E k i + SIZEOF_PTR_LIST \<le> slab_base E k + SIZEOF_PTR_LIST * NUM_SLAB_LISTS"
  by (auto simp: slab_list_def SIZEOF_PTR_LIST_def)

lemma slab_list_inj:
  assumes "layout_ok E" "i < NUM_SLAB_LISTS" "j < NUM_SLAB_LISTS" "slab_list E k i = slab_list E k' j"
  shows "k = k' \<and> i = j"
proof -
  have "k = k'"
  proof (rule ccontr)
    assume "k \<noteq> k'"
    then have "slab_base E k + SIZEOF_PTR_LIST * NUM_SLAB_LISTS \<le> slab_base E k' \<or>
      slab_base E k' + SIZEOF_PTR_LIST * NUM_SLAB_LISTS \<le> slab_base E k"
      using assms(1) by (simp add: layout_ok_def)
    then show False
      using assms(4) slab_list_bounds [OF assms(2), of E k] slab_list_bounds [OF assms(3), of E k']
      by (simp add: SIZEOF_PTR_LIST_def)
  qed
  then show ?thesis using assms(4) by (simp add: slab_list_def SIZEOF_PTR_LIST_def)
qed

type_synonym slab_seqs = "slab_kind \<Rightarrow> nat \<Rightarrow> addr list"

definition links :: "'p heap_env \<Rightarrow> slab_seqs \<Rightarrow> addr set \<Rightarrow> u64 list_store \<Rightarrow> bool" where
  "links E Q U ls \<longleftrightarrow> (\<forall>k i. i < NUM_SLAB_LISTS \<longrightarrow> klist ls (slab_list E k i) (Q k i)) \<and> (\<forall>a \<in> U. unlinked ls a)"

definition set_seq :: "slab_kind \<Rightarrow> nat \<Rightarrow> addr list \<Rightarrow> slab_seqs \<Rightarrow> slab_seqs" where
  "set_seq k i xs Q = Q(k := (Q k)(i := xs))"

lemma set_seq_apply [simp]: "set_seq k i xs Q k' j = (if k' = k \<and> j = i then xs else Q k' j)"
  by (simp add: set_seq_def)

lemma links_seq: "links E Q U ls \<Longrightarrow> i < NUM_SLAB_LISTS \<Longrightarrow> klist ls (slab_list E k i) (Q k i)"
  by (simp add: links_def)

lemma links_apart:
  assumes "layout_ok E" "links E Q U ls" "i < NUM_SLAB_LISTS" "a \<in> set (Q k i)"
  shows "a \<notin> U" and "j < NUM_SLAB_LISTS \<Longrightarrow> a \<in> set (Q k' j) \<Longrightarrow> k' = k \<and> j = i"
proof -
  show "a \<notin> U" using assms klist_unlinked [OF links_seq [OF assms(2,3)]] by (auto simp: links_def)
  assume j: "j < NUM_SLAB_LISTS" "a \<in> set (Q k' j)"
  then have "slab_list E k' j = slab_list E k i"
    using klist_disjoint [OF links_seq [OF assms(2,3), of k] links_seq [OF assms(2) j(1), of k']] assms(4)
    by (metis disjoint_iff)
  then show "k' = k \<and> j = i" using slab_list_inj [OF assms(1) j(1) assms(3)] by blast
qed

text \<open>An operation on one list that touches only the items of the list and one item in no list keeps all other lists.\<close>

lemma links_step:
  assumes "layout_ok E" "links E Q U ls" "i < NUM_SLAB_LISTS"
    and "klist ls' (slab_list E k i) xs" "others_kept ls ls' (slab_list E k i) S" "S \<subseteq> V \<union> set (Q k i)" "V \<subseteq> U"
    and "\<forall>a \<in> W. unlinked ls' a"
  shows "links E (set_seq k i xs Q) (U - V \<union> W) ls'"
proof -
  have "klist ls' (slab_list E k' j) (Q k' j)" if j: "j < NUM_SLAB_LISTS" "\<not> (k' = k \<and> j = i)" for k' j
  proof (rule klist_frame [OF links_seq [OF assms(2) j(1)]])
    show "lists ls' (slab_list E k' j) = lists ls (slab_list E k' j)"
      using assms(5) slab_list_inj [OF assms(1) j(1) assms(3)] j(2) by (auto simp: others_kept_def)
    fix b assume b: "b \<in> set (Q k' j)"
    have "b \<notin> S" using links_apart [OF assms(1,2) j(1) b] assms(3,6,7) j(2) by blast
    then show "items ls' b = items ls b" using assms(5) by (simp add: others_kept_def)
  qed
  moreover have "unlinked ls' b" if "b \<in> U - V" for b
  proof -
    have "unlinked ls b" using assms(2) that by (simp add: links_def)
    moreover have "b \<notin> S"
      using assms(6) that klist_unlinked [OF links_seq [OF assms(2,3)] \<open>unlinked ls b\<close>] by blast
    ultimately show ?thesis using assms(5) by (simp add: others_kept_def unlinked_def)
  qed
  ultimately show ?thesis using assms(4,8) by (auto simp: links_def)
qed

lemma links_remove:
  assumes "layout_ok E" "links E Q U ls" "i < NUM_SLAB_LISTS" "a \<in> set (Q k i)"
  shows "\<exists>ls'. klib_list_remove ls (Some a) = Some ls' \<and> links E (set_seq k i (remove1 a (Q k i)) Q) (insert a U) ls'"
proof -
  obtain ys zs where x: "Q k i = ys @ a # zs" "a \<notin> set ys" using assms(4) by (meson split_list_first)
  have "klist ls (slab_list E k i) (ys @ a # zs)" using links_seq [OF assms(2,3), of k] x(1) by simp
  then obtain ls' where l: "klib_list_remove ls (Some a) = Some ls'" "klist ls' (slab_list E k i) (ys @ zs)" "unlinked ls' a"
    "others_kept ls ls' (slab_list E k i) (set (ys @ a # zs))"
    using remove_refines by blast
  have "links E (set_seq k i (ys @ zs) Q) (U - {} \<union> {a}) ls'"
    by (rule links_step [OF assms(1-3) l(2,4)]) (use x l(3) in auto)
  moreover have "remove1 a (Q k i) = ys @ zs" using x by (simp add: remove1_append)
  ultimately show ?thesis using l(1) by simp
qed

lemma links_add:
  assumes "layout_ok E" "links E Q U ls" "i < NUM_SLAB_LISTS" "a \<in> U"
  shows "\<exists>ls'. klib_list_add_head ls (Some (slab_list E k i)) (Some a) = Some ls' \<and> links E (set_seq k i (a # Q k i) Q) (U - {a}) ls'"
    and "\<exists>ls'. klib_list_add_tail ls (Some (slab_list E k i)) (Some a) = Some ls' \<and> links E (set_seq k i (Q k i @ [a]) Q) (U - {a}) ls'"
proof -
  have u: "unlinked ls a" using assms(2,4) by (simp add: links_def)
  have s: "links E (set_seq k i xs Q) (U - {a}) ls'"
    if "klist ls' (slab_list E k i) xs" "others_kept ls ls' (slab_list E k i) (insert a (set (Q k i)))" for xs ls'
    using links_step [OF assms(1-3) that, of "{a}" "{}"] assms(4) by simp
  show "\<exists>ls'. klib_list_add_head ls (Some (slab_list E k i)) (Some a) = Some ls' \<and> links E (set_seq k i (a # Q k i) Q) (U - {a}) ls'"
    using add_head_refines [OF links_seq [OF assms(2,3), of k] u] s by blast
  show "\<exists>ls'. klib_list_add_tail ls (Some (slab_list E k i)) (Some a) = Some ls' \<and> links E (set_seq k i (Q k i @ [a]) Q) (U - {a}) ls'"
    using add_tail_refines [OF links_seq [OF assms(2,3), of k] u] s by blast
qed

lemma links_items:
  assumes "links E Q U ls" "lists ls' = lists ls" "\<forall>b. b \<noteq> a \<longrightarrow> items ls' b = items ls b"
    "\<forall>k i. i < NUM_SLAB_LISTS \<longrightarrow> a \<notin> set (Q k i)"
  shows "links E Q (U - {a}) ls'"
  unfolding links_def
proof (intro conjI allI impI ballI)
  fix k i assume i: "i < NUM_SLAB_LISTS"
  show "klist ls' (slab_list E k i) (Q k i)"
  proof (rule klist_frame [OF links_seq [OF assms(1) i]])
    fix b assume "b \<in> set (Q k i)"
    then have "b \<noteq> a" using assms(4) i by blast
    then show "items ls' b = items ls b" using assms(3) by simp
  qed (simp add: assms(2))
next
  fix b assume "b \<in> U - {a}"
  then show "unlinked ls' b" using assms(1,3) by (simp add: links_def unlinked_def)
qed

subsection \<open>The invariant and the blocks in use\<close>

definition slab_ok :: "nat \<Rightarrow> slab_header \<Rightarrow> bool" where
  "slab_ok i sh \<longleftrightarrow> length (slab_bitmap sh) = bitmap_words i \<and> pages_of (slab_bitmap sh) \<subseteq> {..<num_chunks i} \<and>
     unat (allocation_count sh) = card (pages_of (slab_bitmap sh))"

definition fits :: "slab_kind \<Rightarrow> nat \<Rightarrow> slab_header \<Rightarrow> bool" where
  "fits k i sh = (let c = unat (allocation_count sh) in
     case k of Free_Slabs \<Rightarrow> c = 0 | Partial_Slabs \<Rightarrow> 0 < c \<and> c < num_chunks i | Full_Slabs \<Rightarrow> c = num_chunks i)"

definition slab_in :: "'p heap_state \<Rightarrow> nat \<Rightarrow> (slab_header \<Rightarrow> bool) \<Rightarrow> addr \<Rightarrow> bool" where
  "slab_in h i P a = (case slab_mem h a of None \<Rightarrow> False | Some sh \<Rightarrow> slab_ok i sh \<and> P sh)"

text \<open>
  \<open>I\<close> is the invariant of the page source and \<open>R\<close> the ranges it has given out. \<open>Q\<close> has the sequences of slabs
  in the lists; \<open>D\<close> has the slabs taken out of their lists, with their sizes of chunk.
\<close>

definition classes :: "(addr \<rightharpoonup> nat) \<Rightarrow> slab_seqs \<Rightarrow> (addr \<times> nat) set" where
  "classes D Q = {(a, i). D a = Some i \<or> i < NUM_SLAB_LISTS \<and> (\<exists>k. a \<in> set (Q k i))}"

definition heap_inv ::
  "'p heap_env \<Rightarrow> ('p \<Rightarrow> bool) \<Rightarrow> ('p \<Rightarrow> (nat \<times> nat) set) \<Rightarrow> (addr \<rightharpoonup> nat) \<Rightarrow> slab_seqs \<Rightarrow> 'p heap_state \<Rightarrow> bool" where
  "heap_inv E I R D Q h \<longleftrightarrow> I (page_src h) \<and> links E Q (dom D) (list_mem h) \<and>
     (\<forall>k i. i < NUM_SLAB_LISTS \<longrightarrow> (\<forall>a \<in> set (Q k i). slab_in h i (fits k i) a)) \<and>
     (\<forall>a i. D a = Some i \<longrightarrow> i < NUM_SLAB_LISTS \<and> slab_in h i (\<lambda>_. True) a) \<and>
     (\<forall>a \<in> dom (slab_mem h). (\<exists>i. (a, i) \<in> classes D Q) \<and> (\<exists>m \<ge> 2 ^ 21. (a, m) \<in> R (page_src h))) \<and>
     std_map_wf (large_allocations h) \<and>
     (\<forall>a n. map_of (large_allocations h) a = Some n \<longrightarrow> n \<noteq> 0 \<and> unat n < 2 ^ 32 \<and> unat a \<notin> dom (slab_mem h) \<and>
        (\<exists>m \<ge> unat n * 2 ^ 21. (unat a, m) \<in> R (page_src h))) \<and>
     (\<forall>i < NUM_SLAB_LISTS. length (Q Free_Slabs i) \<le> unat MAX_FREE_SLABS)"

definition heap_ok :: "'p heap_env \<Rightarrow> ('p \<Rightarrow> bool) \<Rightarrow> ('p \<Rightarrow> (nat \<times> nat) set) \<Rightarrow> 'p heap_state \<Rightarrow> bool" where
  "heap_ok E I R h \<longleftrightarrow> allocator_initialized h \<and> (\<exists>Q. heap_inv E I R Map.empty Q h)"

text \<open>Address and size of the chunks of a slab that are in use, and of all blocks in use.\<close>

definition chunk_block :: "addr \<Rightarrow> nat \<Rightarrow> nat \<Rightarrow> nat \<times> nat" where
  "chunk_block a i c = (a + first_offset i + c * chunk_size i, chunk_size i)"

definition slab_blocks :: "'p heap_state \<Rightarrow> addr \<Rightarrow> nat \<Rightarrow> (nat \<times> nat) set" where
  "slab_blocks h a i = (case slab_mem h a of None \<Rightarrow> {} | Some sh \<Rightarrow> chunk_block a i ` pages_of (slab_bitmap sh))"

definition large_blocks :: "'p heap_state \<Rightarrow> (nat \<times> nat) set" where
  "large_blocks h = {(unat a, unat n * 2 ^ 21) | a n. map_of (large_allocations h) a = Some n}"

definition live :: "'p heap_env \<Rightarrow> 'p heap_state \<Rightarrow> (nat \<times> nat) set" where
  "live E h = large_blocks h \<union> (\<Union>{slab_blocks h a i | a k i it. i < NUM_SLAB_LISTS \<and>
     items (list_mem h) a = Some it \<and> li_list_obj it = Some (slab_list E k i)})"

definition blocks :: "(addr \<rightharpoonup> nat) \<Rightarrow> slab_seqs \<Rightarrow> 'p heap_state \<Rightarrow> (nat \<times> nat) set" where
  "blocks D Q h = large_blocks h \<union> (\<Union>(a, i) \<in> classes D Q. slab_blocks h a i)"

definition blocks_apart :: "nat \<times> nat \<Rightarrow> nat \<times> nat \<Rightarrow> bool" where
  "blocks_apart x y \<longleftrightarrow> fst x + snd x \<le> fst y \<or> fst y + snd y \<le> fst x"

lemma chunks_apart:
  assumes "c \<noteq> d"
  shows "blocks_apart (chunk_block a i c) (chunk_block a i d)"
proof -
  have "Suc c * chunk_size i \<le> d * chunk_size i \<or> Suc d * chunk_size i \<le> c * chunk_size i"
    using assms by (metis Suc_leI mult_le_mono1 nat_neq_iff)
  then show ?thesis by (auto simp: blocks_apart_def chunk_block_def)
qed

text \<open>The size of the block a request gets, its alignment, and the number of pages asked for when there is no room.\<close>

definition block_size :: "nat \<Rightarrow> nat" where
  "block_size n = (if n \<le> 8 then 8 else if n \<le> 64 then 64 else if n \<le> 256 then 256 else if n \<le> 1024 then 1024
     else if n \<le> 262144 then 262144 else ((n - 1) div 2 ^ 21 + 1) * 2 ^ 21)"

definition block_align :: "nat \<Rightarrow> nat" where
  "block_align n = min (block_size n) (2 ^ 21)"

definition pages_wanted :: "nat \<Rightarrow> u32" where
  "pages_wanted n = (if n \<le> 262144 then 1 else of_nat ((n - 1) div 2 ^ 21 + 1))"

lemma block_size_enough: "n \<le> block_size n"
proof (cases "n \<le> 262144")
  case False
  have "n - 1 < ((n - 1) div 2 ^ 21 + 1) * 2 ^ 21"
    using dividend_less_div_times [of "2 ^ 21" "n - 1"] by simp
  then have "n \<le> ((n - 1) div 2 ^ 21 + 1) * 2 ^ 21" by linarith
  then show ?thesis using False by (simp add: block_size_def)
qed (simp add: block_size_def)

lemma find_slab_idx_value:
  "if unat n \<le> 262144 then find_slab_idx n CHUNK_SIZES 0 < NUM_SLAB_LISTS \<and>
       chunk_size (find_slab_idx n CHUNK_SIZES 0) = block_size (unat n)
   else find_slab_idx n CHUNK_SIZES 0 = NUM_SLAB_LISTS"
  by (simp add: slab_consts block_size_def chunk_size_def word_le_nat_alt)

text \<open>What the heap needs of the functions that give and take pages.\<close>

locale page_source =
  fixes alloc :: "u32 \<Rightarrow> 'p \<Rightarrow> (u64 \<times> 'p) option" and dealloc :: "u64 \<Rightarrow> u32 \<Rightarrow> 'p \<Rightarrow> 'p option"
    and I :: "'p \<Rightarrow> bool" and R :: "'p \<Rightarrow> (nat \<times> nat) set"
  assumes region: "I p \<Longrightarrow> (b, m) \<in> R p \<Longrightarrow> 0 < b \<and> 2 ^ 21 dvd b \<and> b + m \<le> 2 ^ 64 \<and> 0 < m"
    and apart: "I p \<Longrightarrow> (b, m) \<in> R p \<Longrightarrow> (b', m') \<in> R p \<Longrightarrow> b = b' \<and> m = m' \<or> b + m \<le> b' \<or> b' + m' \<le> b"
    and alloc_region: "I p \<Longrightarrow> n \<noteq> 0 \<Longrightarrow> unat n \<le> 2 ^ 31 \<Longrightarrow> alloc n p = Some (a, p') \<Longrightarrow>
      I p' \<and> (\<forall>m. (unat a, m) \<notin> R p) \<and> R p \<subseteq> R p' \<and> (\<exists>m \<ge> unat n * 2 ^ 21. (unat a, m) \<in> R p')"
    and dealloc_region: "I p \<Longrightarrow> (unat a, m) \<in> R p \<Longrightarrow> unat n * 2 ^ 21 \<le> m \<Longrightarrow> dealloc a n p = Some p' \<Longrightarrow>
      I p' \<and> {(b, m) \<in> R p. b \<noteq> unat a} \<subseteq> R p'"

lemma heap_invD:
  assumes "heap_inv E I R D Q h"
  shows "I (page_src h)" "links E Q (dom D) (list_mem h)" "std_map_wf (large_allocations h)"
    "i < NUM_SLAB_LISTS \<Longrightarrow> a \<in> set (Q k i) \<Longrightarrow> slab_in h i (fits k i) a"
    "D a = Some i \<Longrightarrow> i < NUM_SLAB_LISTS \<and> slab_in h i (\<lambda>_. True) a"
    "slab_mem h a = Some sh \<Longrightarrow> \<exists>i. (a, i) \<in> classes D Q"
    "slab_mem h a = Some sh \<Longrightarrow> \<exists>m \<ge> 2 ^ 21. (a, m) \<in> R (page_src h)"
    "map_of (large_allocations h) b = Some n \<Longrightarrow> n \<noteq> 0 \<and> unat n < 2 ^ 32 \<and> unat b \<notin> dom (slab_mem h) \<and>
        (\<exists>m \<ge> unat n * 2 ^ 21. (unat b, m) \<in> R (page_src h))"
    "i < NUM_SLAB_LISTS \<Longrightarrow> length (Q Free_Slabs i) \<le> unat MAX_FREE_SLABS"
  using assms unfolding heap_inv_def by blast+

lemma slab_inE:
  assumes "slab_in h i P a"
  obtains sh where "slab_mem h a = Some sh" "slab_ok i sh" "P sh"
  using assms by (auto simp: slab_in_def split: option.splits)

lemma slab_in_other: "b \<noteq> a \<Longrightarrow> slab_in (h\<lparr>slab_mem := (slab_mem h)(a := v)\<rparr>) i P b = slab_in h i P b"
  by (simp add: slab_in_def)

lemma slab_in_list_mem [simp]: "slab_in (h\<lparr>list_mem := ls\<rparr>) i P a = slab_in h i P a"
  by (simp add: slab_in_def)

lemma blocks_list_mem [simp]: "blocks D Q (h\<lparr>list_mem := ls\<rparr>) = blocks D Q h"
  by (simp add: blocks_def large_blocks_def slab_blocks_def)

lemma blocks_page_src [simp]: "blocks D Q (h\<lparr>page_src := p\<rparr>) = blocks D Q h"
  by (simp add: blocks_def large_blocks_def slab_blocks_def)

lemma heap_inv_slab_dom:
  assumes "heap_inv E I R D Q h"
  shows "D a = Some i \<Longrightarrow> a \<in> dom (slab_mem h)" "i < NUM_SLAB_LISTS \<Longrightarrow> a \<in> set (Q k i) \<Longrightarrow> a \<in> dom (slab_mem h)"
  using heap_invD(4,5) [OF assms] by (blast elim: slab_inE)+

locale slab_heap = page_source "allocate_pages E" "deallocate_pages E" I R
  for E :: "'p heap_env" and I :: "'p \<Rightarrow> bool" and R :: "'p \<Rightarrow> (nat \<times> nat) set" +
  assumes layout: "layout_ok E"
begin

text \<open>A slab has one size of chunk.\<close>

lemma class_unique:
  assumes "heap_inv E I R D Q h" "(a, i) \<in> classes D Q" "(a, j) \<in> classes D Q"
  shows "i = j"
proof -
  have "a \<notin> dom D" if "i < NUM_SLAB_LISTS" "a \<in> set (Q k i)" for k i
    using links_apart(1) [OF layout heap_invD(2) [OF assms(1)] that] .
  then show ?thesis
    using assms(2,3) links_apart(2) [OF layout heap_invD(2) [OF assms(1)]] by (fastforce simp: classes_def)
qed

lemma classD:
  assumes "heap_inv E I R D Q h" "(a, i) \<in> classes D Q"
  obtains sh where "i < NUM_SLAB_LISTS" "slab_mem h a = Some sh" "slab_ok i sh"
  using assms heap_invD(4,5) [OF assms(1)] by (fastforce simp: classes_def elim: slab_inE)

text \<open>A step that changes only the lists.\<close>

lemma inv_relink:
  assumes "heap_inv E I R D Q h" "links E Q' (dom D') ls" "classes D' Q' = classes D Q"
    and "\<forall>k j. j < NUM_SLAB_LISTS \<longrightarrow> (\<forall>b \<in> set (Q' k j). slab_in h j (fits k j) b)"
    and "\<forall>j < NUM_SLAB_LISTS. length (Q' Free_Slabs j) \<le> unat MAX_FREE_SLABS"
  shows "heap_inv E I R D' Q' (h\<lparr>list_mem := ls\<rparr>)" "blocks D' Q' (h\<lparr>list_mem := ls\<rparr>) = blocks D Q h"
proof -
  have "j < NUM_SLAB_LISTS \<and> slab_in h j (\<lambda>_. True) b" if "D' b = Some j" for b j
  proof -
    have "(b, j) \<in> classes D Q" using that unfolding assms(3) [symmetric] by (simp add: classes_def)
    then obtain sh where "j < NUM_SLAB_LISTS" "slab_mem h b = Some sh" "slab_ok j sh" by (rule classD [OF assms(1)])
    then show ?thesis by (simp add: slab_in_def)
  qed
  then show "heap_inv E I R D' Q' (h\<lparr>list_mem := ls\<rparr>)"
    using assms unfolding heap_inv_def by simp
  show "blocks D' Q' (h\<lparr>list_mem := ls\<rparr>) = blocks D Q h"
    by (simp add: blocks_def assms(3) large_blocks_def slab_blocks_def)
qed

lemma inv_unlink:
  assumes "heap_inv E I R D Q h" "i < NUM_SLAB_LISTS" "a \<in> set (Q k i)"
  defines "Q' \<equiv> set_seq k i (remove1 a (Q k i)) Q"
  shows "\<exists>ls. klib_list_remove (list_mem h) (Some a) = Some ls \<and> heap_inv E I R (D(a \<mapsto> i)) Q' (h\<lparr>list_mem := ls\<rparr>) \<and>
    blocks (D(a \<mapsto> i)) Q' (h\<lparr>list_mem := ls\<rparr>) = blocks D Q h"
proof -
  note inv = heap_invD [OF assms(1)]
  obtain ls where ls: "klib_list_remove (list_mem h) (Some a) = Some ls" "links E Q' (insert a (dom D)) ls"
    using links_remove [OF layout inv(2) assms(2,3)] unfolding Q'_def by blast
  have d: "distinct (Q k i)" using links_seq [OF inv(2) assms(2)] by (auto simp: klist_def)
  then have s: "set (Q' k' j) = (if k' = k \<and> j = i then set (Q k i) - {a} else set (Q k' j))" for k' j
    by (simp add: Q'_def)
  have nd: "a \<notin> dom D" using links_apart(1) [OF layout inv(2) assms(2,3)] .
  have l: "links E Q' (dom (D(a \<mapsto> i))) ls" using ls(2) by simp
  have len: "\<forall>j < NUM_SLAB_LISTS. length (Q' Free_Slabs j) \<le> unat MAX_FREE_SLABS"
    using inv(9) by (auto simp: Q'_def length_remove1 intro: le_trans [OF diff_le_self])
  have c: "classes (D(a \<mapsto> i)) Q' = classes D Q"
  proof -
    have q: "(\<exists>k'. b \<in> set (Q' k' j)) \<longleftrightarrow> b \<noteq> a \<and> (\<exists>k'. b \<in> set (Q k' j))" if "j < NUM_SLAB_LISTS" for b j
      unfolding s using links_apart(2) [OF layout inv(2) assms(2,3) that]
      by (metis DiffD1 DiffD2 DiffI singletonI singletonD)
    have "(b, j) \<in> classes (D(a \<mapsto> i)) Q' \<longleftrightarrow> (b, j) \<in> classes D Q" for b j
    proof (cases "b = a")
      case True
      have "(\<exists>k'. j < NUM_SLAB_LISTS \<and> a \<in> set (Q k' j)) \<longleftrightarrow> j = i"
        using links_apart(2) [OF layout inv(2) assms(2,3)] assms(2,3) by blast
      moreover have "\<not> (j < NUM_SLAB_LISTS \<and> (\<exists>k'. a \<in> set (Q' k' j)))" using q [of j a] by blast
      moreover have "D a = None" using nd by (simp add: domIff)
      ultimately show ?thesis using True by (auto simp: classes_def)
    next
      case False
      then show ?thesis using q [of j b] by (simp add: classes_def cong: conj_cong)
    qed
    then show ?thesis by auto
  qed
  have f: "\<forall>k j. j < NUM_SLAB_LISTS \<longrightarrow> (\<forall>b \<in> set (Q' k j). slab_in h j (fits k j) b)"
    using inv(4) s by (simp split: if_splits)
  show ?thesis using inv_relink [OF assms(1) l c f len] ls(1) by blast
qed

lemma inv_link:
  assumes "heap_inv E I R D Q h" "D a = Some i" "slab_in h i (fits k i) a" "set xs = insert a (set (Q k i))"
    and "length xs = Suc (length (Q k i))" "k = Free_Slabs \<longrightarrow> length (Q k i) < unat MAX_FREE_SLABS"
    and "links E (set_seq k i xs Q) (dom D - {a}) ls"
  defines "Q' \<equiv> set_seq k i xs Q"
  shows "heap_inv E I R (D(a := None)) Q' (h\<lparr>list_mem := ls\<rparr>)"
    "blocks (D(a := None)) Q' (h\<lparr>list_mem := ls\<rparr>) = blocks D Q h"
proof -
  note inv = heap_invD [OF assms(1)]
  have i: "i < NUM_SLAB_LISTS" using inv(5) assms(2) by blast
  have s: "set (Q' k' j) = (if k' = k \<and> j = i then insert a (set (Q k i)) else set (Q k' j))" for k' j
    using assms(4) by (simp add: Q'_def)
  have l: "links E Q' (dom (D(a := None))) ls" using assms(7) by (simp add: Q'_def)
  have len: "\<forall>j < NUM_SLAB_LISTS. length (Q' Free_Slabs j) \<le> unat MAX_FREE_SLABS"
    using inv(9) assms(5,6) by (auto simp: Q'_def split: if_splits)
  have c: "classes (D(a := None)) Q' = classes D Q"
  proof -
    have "(\<exists>k'. b \<in> set (Q' k' j)) \<longleftrightarrow> b = a \<and> j = i \<or> (\<exists>k'. b \<in> set (Q k' j))" for b j
      unfolding s by (metis insert_iff)
    then show ?thesis using assms(2) i by (auto simp: classes_def split: if_splits)
  qed
  have f: "\<forall>k j. j < NUM_SLAB_LISTS \<longrightarrow> (\<forall>b \<in> set (Q' k j). slab_in h j (fits k j) b)"
    using inv(4) s assms(3) by (simp split: if_splits)
  show "heap_inv E I R (D(a := None)) Q' (h\<lparr>list_mem := ls\<rparr>)"
    "blocks (D(a := None)) Q' (h\<lparr>list_mem := ls\<rparr>) = blocks D Q h"
    using inv_relink [OF assms(1) l c f len] .
qed

lemma inv_push:
  assumes "heap_inv E I R D Q h" "D a = Some i" "slab_in h i (fits k i) a" "k = Free_Slabs \<longrightarrow> length (Q k i) < unat MAX_FREE_SLABS"
  shows "\<exists>ls Q'. push_slab (slab_list E k i) a h = Some (h\<lparr>list_mem := ls\<rparr>) \<and> heap_inv E I R (D(a := None)) Q' (h\<lparr>list_mem := ls\<rparr>) \<and>
      blocks (D(a := None)) Q' (h\<lparr>list_mem := ls\<rparr>) = blocks D Q h \<and> a \<in> set (Q' k i) \<and> (\<forall>j. k \<noteq> Free_Slabs \<longrightarrow> Q' Free_Slabs j = Q Free_Slabs j)"
    and "\<exists>ls Q'. append_slab (slab_list E k i) a h = Some (h\<lparr>list_mem := ls\<rparr>) \<and> heap_inv E I R (D(a := None)) Q' (h\<lparr>list_mem := ls\<rparr>) \<and>
      blocks (D(a := None)) Q' (h\<lparr>list_mem := ls\<rparr>) = blocks D Q h"
proof -
  note inv = heap_invD [OF assms(1)]
  have i: "i < NUM_SLAB_LISTS" "a \<in> dom D" using inv(5) assms(2) by blast+
  obtain ls where ls: "klib_list_add_head (list_mem h) (Some (slab_list E k i)) (Some a) = Some ls"
    "links E (set_seq k i (a # Q k i) Q) (dom D - {a}) ls"
    using links_add(1) [OF layout inv(2) i] by blast
  show "\<exists>ls Q'. push_slab (slab_list E k i) a h = Some (h\<lparr>list_mem := ls\<rparr>) \<and> heap_inv E I R (D(a := None)) Q' (h\<lparr>list_mem := ls\<rparr>) \<and>
      blocks (D(a := None)) Q' (h\<lparr>list_mem := ls\<rparr>) = blocks D Q h \<and> a \<in> set (Q' k i) \<and> (\<forall>j. k \<noteq> Free_Slabs \<longrightarrow> Q' Free_Slabs j = Q Free_Slabs j)"
    using inv_link [OF assms(1-3) _ _ assms(4) ls(2)] ls(1)
    by (intro exI [of _ ls] exI [of _ "set_seq k i (a # Q k i) Q"]) (simp add: push_slab_def)
  obtain ls where ls: "klib_list_add_tail (list_mem h) (Some (slab_list E k i)) (Some a) = Some ls"
    "links E (set_seq k i (Q k i @ [a]) Q) (dom D - {a}) ls"
    using links_add(2) [OF layout inv(2) i] by blast
  show "\<exists>ls Q'. append_slab (slab_list E k i) a h = Some (h\<lparr>list_mem := ls\<rparr>) \<and> heap_inv E I R (D(a := None)) Q' (h\<lparr>list_mem := ls\<rparr>) \<and>
      blocks (D(a := None)) Q' (h\<lparr>list_mem := ls\<rparr>) = blocks D Q h"
    using inv_link [OF assms(1-3) _ _ assms(4) ls(2)] ls(1)
    by (intro exI [of _ ls] exI [of _ "set_seq k i (Q k i @ [a]) Q"]) (simp add: append_slab_def)
qed

lemma inv_set_slab:
  assumes "heap_inv E I R D Q h" "(a, i) \<in> classes D Q" "slab_ok i sh" "\<forall>k. a \<in> set (Q k i) \<longrightarrow> fits k i sh"
  shows "heap_inv E I R D Q (h\<lparr>slab_mem := (slab_mem h)(a \<mapsto> sh)\<rparr>)" (is "heap_inv E I R D Q ?h")
proof -
  note inv = heap_invD [OF assms(1)]
  obtain sh0 where a: "i < NUM_SLAB_LISTS" "slab_mem h a = Some sh0" by (rule classD [OF assms(1,2)])
  then have dom: "dom (slab_mem ?h) = dom (slab_mem h)" by auto
  have l: "slab_in ?h j (fits k j) b" if "j < NUM_SLAB_LISTS" "b \<in> set (Q k j)" for k j b
  proof (cases "b = a")
    case True
    then have "j = i" using class_unique [OF assms(1) assms(2), of j] that by (auto simp: classes_def)
    then show ?thesis using True assms(3,4) that by (simp add: slab_in_def)
  qed (use inv(4) that in \<open>simp add: slab_in_other\<close>)
  have d: "j < NUM_SLAB_LISTS \<and> slab_in ?h j (\<lambda>_. True) b" if "D b = Some j" for j b
  proof (cases "b = a")
    case True
    then have "j = i" using class_unique [OF assms(1) assms(2), of j] that by (auto simp: classes_def)
    then show ?thesis using True assms(3) a(1) by (simp add: slab_in_def)
  qed (use inv(5) that in \<open>simp add: slab_in_other\<close>)
  show ?thesis
    using assms(1) l d unfolding heap_inv_def dom by simp
qed

lemma blocks_set_slab:
  assumes "heap_inv E I R D Q h" "(a, i) \<in> classes D Q"
  shows "blocks D Q (h\<lparr>slab_mem := (slab_mem h)(a \<mapsto> sh)\<rparr>) =
    large_blocks h \<union> (\<Union>(b, j) \<in> classes D Q - {(a, i)}. slab_blocks h b j) \<union> chunk_block a i ` pages_of (slab_bitmap sh)"
    (is "blocks D Q ?h = _")
proof -
  have "slab_blocks ?h b j = slab_blocks h b j" if "(b, j) \<in> classes D Q - {(a, i)}" for b j
    using that class_unique [OF assms(1), of b i j] assms(2) by (auto simp: slab_blocks_def)
  then have "(\<Union>(b, j) \<in> classes D Q - {(a, i)}. slab_blocks ?h b j) = (\<Union>(b, j) \<in> classes D Q - {(a, i)}. slab_blocks h b j)"
    by (intro SUP_cong) auto
  moreover have "(\<Union>(b, j) \<in> classes D Q. slab_blocks ?h b j) =
      slab_blocks ?h a i \<union> (\<Union>(b, j) \<in> classes D Q - {(a, i)}. slab_blocks ?h b j)"
    using UN_insert [of "\<lambda>(b, j). slab_blocks ?h b j" "(a, i)" "classes D Q - {(a, i)}"]
    by (simp only: insert_Diff [OF assms(2)] case_prod_conv)
  moreover have "large_blocks ?h = large_blocks h" by (simp add: large_blocks_def)
  moreover have "slab_blocks ?h a i = chunk_block a i ` pages_of (slab_bitmap sh)" by (simp add: slab_blocks_def)
  ultimately show ?thesis unfolding blocks_def by (simp add: Un_ac)
qed

lemma inv_new_slab:
  assumes "heap_inv E I R D Q h" "i < NUM_SLAB_LISTS" "allocate_new_slab E i h = Some (a, h')"
  shows "heap_inv E I R (D(a \<mapsto> i)) Q h'" "blocks (D(a \<mapsto> i)) Q h' = blocks D Q h" "slab_mem h a = None" "D a = None"
    "\<exists>sh. slab_mem h' a = Some sh \<and> slab_ok i sh \<and> allocation_count sh = 0"
    "slab_mem h' = (slab_mem h)(a := slab_mem h' a)" "allocator_initialized h' = allocator_initialized h"
proof -
  note inv = heap_invD [OF assms(1)]
  let ?sh = "\<lparr>allocation_count = 0, slab_bitmap = replicate (bitmap_words i) 0\<rparr>"
  obtain w p where w: "allocate_pages E 1 (page_src h) = Some (w, p)" "a = unat w"
    and h': "slab_mem h' = (slab_mem h)(a \<mapsto> ?sh)" "page_src h' = p" "large_allocations h' = large_allocations h"
      "allocator_initialized h' = allocator_initialized h" "lists (list_mem h') = lists (list_mem h)"
      "\<forall>b. b \<noteq> a \<longrightarrow> items (list_mem h') b = items (list_mem h) b" "unlinked (list_mem h') a"
    using assms(3) by (auto simp: allocate_new_slab_def klib_list_item_initialize_def bitmap_words_def unlinked_def Let_def)
  have r: "I p" "\<forall>m. (a, m) \<notin> R (page_src h)" "R (page_src h) \<subseteq> R p" "\<exists>m \<ge> 2 ^ 21. (a, m) \<in> R p"
    using alloc_region [OF inv(1) _ _ w(1)] w(2) by auto
  show new: "slab_mem h a = None" using inv(7) r(2) by (cases "slab_mem h a") blast+
  then show nd: "D a = None" using heap_inv_slab_dom(1) [OF assms(1), of a] by (cases "D a") auto
  have nq: "a \<notin> set (Q k j)" if "j < NUM_SLAB_LISTS" for k j using heap_inv_slab_dom(2) [OF assms(1) that] new by auto
  have ok: "slab_ok i ?sh" by (auto simp: slab_ok_def pages_of_def page_bit_def)
  have si: "slab_in h' j P b \<longleftrightarrow> slab_in h j P b" if "b \<noteq> a" for j P b using that h'(1) by (simp add: slab_in_def)
  have c: "classes (D(a \<mapsto> i)) Q = insert (a, i) (classes D Q)" using nd by (auto simp: classes_def split: if_splits)
  have l: "links E Q (dom (D(a \<mapsto> i))) (list_mem h')"
    using links_items [OF inv(2) h'(5,6)] nq h'(7) by (auto simp: links_def)
  have "heap_inv E I R (D(a \<mapsto> i)) Q h'"
    unfolding heap_inv_def
  proof (intro conjI)
    show "\<forall>k j. j < NUM_SLAB_LISTS \<longrightarrow> (\<forall>b \<in> set (Q k j). slab_in h' j (fits k j) b)"
      using inv(4) nq si by metis
    show "\<forall>b j. (D(a \<mapsto> i)) b = Some j \<longrightarrow> j < NUM_SLAB_LISTS \<and> slab_in h' j (\<lambda>_. True) b"
      using inv(5) si ok assms(2) h'(1) by (auto simp: slab_in_def)
    show "\<forall>b \<in> dom (slab_mem h'). (\<exists>j. (b, j) \<in> classes (D(a \<mapsto> i)) Q) \<and> (\<exists>m \<ge> 2 ^ 21. (b, m) \<in> R (page_src h'))"
      using inv(6,7) r(3,4) unfolding c h'(1,2) by (auto split: if_splits) (meson subsetD)+
    show "\<forall>b n. map_of (large_allocations h') b = Some n \<longrightarrow> n \<noteq> 0 \<and> unat n < 2 ^ 32 \<and> unat b \<notin> dom (slab_mem h') \<and>
        (\<exists>m \<ge> unat n * 2 ^ 21. (unat b, m) \<in> R (page_src h'))"
      using inv(8) r(2,3) unfolding h'(1-3) by (auto split: if_splits) (meson subsetD)+
  qed (use inv(1,3,9) r(1) l h' in simp_all)
  then show "heap_inv E I R (D(a \<mapsto> i)) Q h'" .
  have "slab_blocks h' b j = slab_blocks h b j" if "(b, j) \<in> classes D Q" for b j
    using that classD [OF assms(1) that] new h'(1) by (cases "b = a") (auto simp: slab_blocks_def)
  then have "(\<Union>(b, j) \<in> classes D Q. slab_blocks h' b j) = (\<Union>(b, j) \<in> classes D Q. slab_blocks h b j)"
    by (intro SUP_cong) auto
  moreover have "slab_blocks h' a i = {}" by (simp add: slab_blocks_def h'(1) pages_of_def page_bit_def)
  ultimately show "blocks (D(a \<mapsto> i)) Q h' = blocks D Q h"
    by (simp add: blocks_def c large_blocks_def h'(3))
  show "\<exists>sh. slab_mem h' a = Some sh \<and> slab_ok i sh \<and> allocation_count sh = 0" "slab_mem h' = (slab_mem h)(a := slab_mem h' a)"
    "allocator_initialized h' = allocator_initialized h" using h' ok by simp_all
qed

text \<open>Every block in use lies in a region of the page source, which is a slab or holds nothing else.\<close>

lemma slab_region:
  assumes "heap_inv E I R D Q h" "slab_mem h a = Some sh"
  shows "0 < a" "2 ^ 21 dvd a" "a + 2 ^ 21 \<le> 2 ^ 64"
proof -
  obtain m where "2 ^ 21 \<le> m" "(a, m) \<in> R (page_src h)" using heap_invD(7) [OF assms] by blast
  then show "0 < a" "2 ^ 21 dvd a" "a + 2 ^ 21 \<le> 2 ^ 64" using region [OF heap_invD(1) [OF assms(1)]] by fastforce+
qed

lemma block_home:
  assumes "heap_inv E I R D Q h" "x \<in> blocks D Q h"
  obtains b m where "(b, m) \<in> R (page_src h)" "b \<le> fst x" "fst x + snd x \<le> b + m" "0 < snd x"
    "(\<exists>i sh c. (b, i) \<in> classes D Q \<and> slab_mem h b = Some sh \<and> x = chunk_block b i c \<and> c \<in> pages_of (slab_bitmap sh)) \<or>
     (slab_mem h b = None \<and> (\<exists>w n. b = unat w \<and> x = (unat w, unat n * 2 ^ 21) \<and> map_of (large_allocations h) w = Some n))"
proof (cases "x \<in> large_blocks h")
  case True
  then obtain w n where w: "x = (unat w, unat n * 2 ^ 21)" "map_of (large_allocations h) w = Some n"
    by (auto simp: large_blocks_def)
  obtain m where m: "unat n * 2 ^ 21 \<le> m" "(unat w, m) \<in> R (page_src h)" "n \<noteq> 0" "unat w \<notin> dom (slab_mem h)"
    using heap_invD(8) [OF assms(1) w(2)] by blast
  show ?thesis using that [OF m(2)] w m unat_gt_0 [of n] by (auto simp: domIff)
next
  case False
  then obtain b i where c: "(b, i) \<in> classes D Q" "x \<in> slab_blocks h b i" using assms(2) by (auto simp: blocks_def)
  obtain sh where sh: "i < NUM_SLAB_LISTS" "slab_mem h b = Some sh" "slab_ok i sh" by (rule classD [OF assms(1) c(1)])
  obtain c where x: "x = chunk_block b i c" "c \<in> pages_of (slab_bitmap sh)" using c(2) sh(2) by (auto simp: slab_blocks_def)
  obtain m where m: "2 ^ 21 \<le> m" "(b, m) \<in> R (page_src h)" using heap_invD(7) [OF assms(1) sh(2)] by blast
  have "c < num_chunks i" using x(2) sh(3) by (auto simp: slab_ok_def)
  then have "first_offset i + Suc c * chunk_size i \<le> 2 ^ 21"
    using slab_geometry(5) [OF sh(1)] by (metis Suc_leI add_left_mono mult_le_mono1)
  then have "fst x + snd x \<le> b + m" "b \<le> fst x" using m(1) x(1) by (auto simp: chunk_block_def)
  moreover have "0 < snd x" using slab_geometry(1) [OF sh(1)] x(1) by (simp add: chunk_block_def)
  ultimately show ?thesis using that [OF m(2)] c(1) sh(2) x by blast
qed

lemma blocks_disjoint:
  assumes "heap_inv E I R D Q h" "x \<in> blocks D Q h" "y \<in> blocks D Q h" "x \<noteq> y"
  shows "blocks_apart x y"
proof -
  obtain b m where x: "(b, m) \<in> R (page_src h)" "b \<le> fst x" "fst x + snd x \<le> b + m" "0 < snd x"
    "(\<exists>i sh c. (b, i) \<in> classes D Q \<and> slab_mem h b = Some sh \<and> x = chunk_block b i c \<and> c \<in> pages_of (slab_bitmap sh)) \<or>
     (slab_mem h b = None \<and> (\<exists>w n. b = unat w \<and> x = (unat w, unat n * 2 ^ 21) \<and> map_of (large_allocations h) w = Some n))"
    by (rule block_home [OF assms(1,2)])
  obtain b' m' where y: "(b', m') \<in> R (page_src h)" "b' \<le> fst y" "fst y + snd y \<le> b' + m'" "0 < snd y"
    "(\<exists>i sh c. (b', i) \<in> classes D Q \<and> slab_mem h b' = Some sh \<and> y = chunk_block b' i c \<and> c \<in> pages_of (slab_bitmap sh)) \<or>
     (slab_mem h b' = None \<and> (\<exists>w n. b' = unat w \<and> y = (unat w, unat n * 2 ^ 21) \<and> map_of (large_allocations h) w = Some n))"
    by (rule block_home [OF assms(1,3)])
  show ?thesis
  proof (cases "b = b'")
    case False
    then have "b + m \<le> b' \<or> b' + m' \<le> b" using apart [OF heap_invD(1) [OF assms(1)] x(1) y(1)] by blast
    then show ?thesis using x(2,3) y(2,3) unfolding blocks_apart_def by linarith
  next
    case True
    show ?thesis
    proof (cases "slab_mem h b")
      case None
      then show ?thesis using x(5) y(5) True assms(4) by (auto dest!: word_unat_eq_iff [THEN iffD2])
    next
      case (Some sh)
      then obtain i j c d where c: "(b, i) \<in> classes D Q" "x = chunk_block b i c" "(b, j) \<in> classes D Q" "y = chunk_block b j d"
        using x(5) y(5) True by auto
      then have "i = j" using class_unique [OF assms(1)] by blast
      then show ?thesis using c(2,4) assms(4) chunks_apart [of c d b i] by auto
    qed
  qed
qed

text \<open>Taking a chunk of a slab that is not full.\<close>

lemma first_free_chunk:
  assumes "i < NUM_SLAB_LISTS" "slab_ok i sh" "unat (allocation_count sh) < num_chunks i"
  obtains c where "c < num_chunks i" "c \<notin> pages_of (slab_bitmap sh)" "c < 64 * length (slab_bitmap sh)"
    "free_word_loop (slab_bitmap sh) 0 (NUM_CHUNKS_PER_SLAB ! i) =
       Some ((slab_bitmap sh)[c div 64 := slab_bitmap sh ! (c div 64) OR page_mask (c mod 64)], of_nat c)"
proof -
  note g = slab_geometry [OF assms(1)]
  have len: "length (slab_bitmap sh) = bitmap_words i" using assms(2) by (simp add: slab_ok_def)
  have "\<exists>c < num_chunks i. c \<notin> pages_of (slab_bitmap sh)"
  proof (rule ccontr)
    assume "\<not> ?thesis"
    then have "{..<num_chunks i} \<subseteq> pages_of (slab_bitmap sh)" by blast
    then have "num_chunks i \<le> card (pages_of (slab_bitmap sh))"
      using card_mono [of "pages_of (slab_bitmap sh)" "{..<num_chunks i}"] by simp
    then show False using assms(2,3) by (simp add: slab_ok_def)
  qed
  then obtain c0 where c0: "c0 < num_chunks i" "c0 \<notin> pages_of (slab_bitmap sh)" by blast
  define c where "c = (LEAST c. c \<notin> pages_of (slab_bitmap sh))"
  have c: "c \<notin> pages_of (slab_bitmap sh)" "c \<le> c0" "\<forall>m < c. m \<in> pages_of (slab_bitmap sh)"
    unfolding c_def using c0(2) LeastI [of "\<lambda>c. c \<notin> pages_of (slab_bitmap sh)" c0]
    by (auto intro: Least_le dest: not_less_Least)
  have lt: "c < num_chunks i" "c < 64 * length (slab_bitmap sh)" using c(2) c0(1) g(7) len by linarith+
  have "free_word_loop (slab_bitmap sh) 0 (NUM_CHUNKS_PER_SLAB ! i) =
       Some ((slab_bitmap sh)[c div 64 := slab_bitmap sh ! (c div 64) OR page_mask (c mod 64)], 0 + of_nat c)"
    using c(1,3) lt by (intro free_word_loop_first) (auto simp: pages_of_def num_chunks_def)
  then show thesis using that [OF lt(1) c(1) lt(2)] by simp
qed

lemma chunk_address:
  assumes "i < NUM_SLAB_LISTS" "c < num_chunks i" "a + 2 ^ 21 \<le> 2 ^ 64"
  shows "unat (of_nat a + ucast (of_nat c * CHUNK_SIZES ! i + FIRST_OFFSET_IN_SLAB ! i :: u32) :: u64) = fst (chunk_block a i c)"
proof -
  have b: "c * chunk_size i + first_offset i < 2 ^ 21"
    using slab_geometry(1,5) [OF assms(1)] assms(2) by (metis add.commute add_left_cancel mult_less_mono1 nat_add_left_cancel_less)
  have c: "unat (of_nat c :: u32) = c"
    using slab_geometry(9) [OF assms(1)] assms(2) by (simp add: unat_of_nat)
  have "unat (of_nat c * CHUNK_SIZES ! i + FIRST_OFFSET_IN_SLAB ! i :: u32) = c * chunk_size i + first_offset i"
    using b c by (simp add: unat_word_ariths chunk_size_def first_offset_def)
  then show ?thesis
    using b assms(3) by (simp add: unat_add_no_wrap unat_of_nat_u64 chunk_block_def)
qed

lemma slab_ok_take:
  assumes "i < NUM_SLAB_LISTS" "slab_ok i sh" "c < num_chunks i" "c \<notin> pages_of (slab_bitmap sh)"
  defines "sh' \<equiv> sh\<lparr>slab_bitmap := (slab_bitmap sh)[c div 64 := slab_bitmap sh ! (c div 64) OR page_mask (c mod 64)],
    allocation_count := allocation_count sh + 1\<rparr>"
  shows "slab_ok i sh'" "pages_of (slab_bitmap sh') = insert c (pages_of (slab_bitmap sh))"
    "unat (allocation_count sh') = Suc (unat (allocation_count sh))"
proof -
  have lt: "c < 64 * length (slab_bitmap sh)" using slab_geometry(7) [OF assms(1)] assms(2,3) by (simp add: slab_ok_def)
  show p: "pages_of (slab_bitmap sh') = insert c (pages_of (slab_bitmap sh))" using pages_of_set [OF lt] by (simp add: sh'_def)
  have "card (pages_of (slab_bitmap sh)) \<le> num_chunks i"
    using assms(2) card_mono [of "{..<num_chunks i}" "pages_of (slab_bitmap sh)"] by (simp add: slab_ok_def)
  then have "unat (allocation_count sh) + 1 < 2 ^ 64"
    using assms(2) slab_geometry(9) [OF assms(1)] by (simp add: slab_ok_def)
  then show u: "unat (allocation_count sh') = Suc (unat (allocation_count sh))"
    using unat_add_no_wrap [of "allocation_count sh" 1] by (simp add: sh'_def)
  show "slab_ok i sh'"
    using assms(2-4) p u by (simp add: slab_ok_def) (simp add: sh'_def)
qed

lemma unused_chunk:
  assumes "heap_inv E I R D Q h" "(a, i) \<in> classes D Q" "slab_mem h a = Some sh" "c < num_chunks i" "c \<notin> pages_of (slab_bitmap sh)"
  shows "chunk_block a i c \<notin> blocks D Q h"
proof
  let ?x = "chunk_block a i c"
  assume x: "?x \<in> blocks D Q h"
  obtain sh0 where "i < NUM_SLAB_LISTS" by (rule classD [OF assms(1,2)])
  note g = slab_geometry [OF this]
  obtain m where m: "2 ^ 21 \<le> m" "(a, m) \<in> R (page_src h)" using heap_invD(7) [OF assms(1,3)] by blast
  obtain b m' where b: "(b, m') \<in> R (page_src h)" "b \<le> fst ?x" "fst ?x + snd ?x \<le> b + m'" "0 < snd ?x"
    "(\<exists>j sh d. (b, j) \<in> classes D Q \<and> slab_mem h b = Some sh \<and> ?x = chunk_block b j d \<and> d \<in> pages_of (slab_bitmap sh)) \<or>
     slab_mem h b = None"
    using block_home [OF assms(1) x] by metis
  have "first_offset i + Suc c * chunk_size i \<le> 2 ^ 21"
    using g(5) assms(4) by (metis Suc_leI add_left_mono mult_le_mono1)
  then have "a + m > fst ?x" "a \<le> fst ?x" using m(1) g(1) by (auto simp: chunk_block_def)
  then have "b = a" using apart [OF heap_invD(1) [OF assms(1)] b(1) m(2)] b(2-4) by linarith
  then obtain j d where d: "(a, j) \<in> classes D Q" "?x = chunk_block a j d" "d \<in> pages_of (slab_bitmap sh)"
    using b(5) assms(3) by auto
  have "j = i" using class_unique [OF assms(1) d(1) assms(2)] .
  then have "d = c" using d(2) g(1) by (simp add: chunk_block_def)
  then show False using d(3) assms(5) by simp
qed

lemma inv_take_chunk:
  assumes "heap_inv E I R D Q h" "D a = Some i" "slab_mem h a = Some sh" "unat (allocation_count sh) < num_chunks i"
  shows "\<exists>addr c sh'. allocate_chunk_from_slab a i h = Some (addr, h\<lparr>slab_mem := (slab_mem h)(a \<mapsto> sh')\<rparr>) \<and>
    slab_ok i sh' \<and> unat (allocation_count sh') = Suc (unat (allocation_count sh)) \<and> addr \<noteq> 0 \<and>
    (unat addr, chunk_size i) = chunk_block a i c \<and> chunk_size i dvd unat addr \<and> (unat addr, chunk_size i) \<notin> blocks D Q h \<and>
    heap_inv E I R D Q (h\<lparr>slab_mem := (slab_mem h)(a \<mapsto> sh')\<rparr>) \<and>
    blocks D Q (h\<lparr>slab_mem := (slab_mem h)(a \<mapsto> sh')\<rparr>) = insert (unat addr, chunk_size i) (blocks D Q h)"
proof -
  have cl: "(a, i) \<in> classes D Q" using assms(2) by (simp add: classes_def)
  have i: "i < NUM_SLAB_LISTS" "slab_ok i sh" using heap_invD(5) [OF assms(1,2)] assms(3) by (auto simp: slab_in_def)
  note g = slab_geometry [OF i(1)] and r = slab_region [OF assms(1,3)]
  obtain c where c: "c < num_chunks i" "c \<notin> pages_of (slab_bitmap sh)" "c < 64 * length (slab_bitmap sh)"
    "free_word_loop (slab_bitmap sh) 0 (NUM_CHUNKS_PER_SLAB ! i) =
       Some ((slab_bitmap sh)[c div 64 := slab_bitmap sh ! (c div 64) OR page_mask (c mod 64)], of_nat c)"
    by (rule first_free_chunk [OF i assms(4)])
  let ?sh = "sh\<lparr>slab_bitmap := (slab_bitmap sh)[c div 64 := slab_bitmap sh ! (c div 64) OR page_mask (c mod 64)],
    allocation_count := allocation_count sh + 1\<rparr>"
  let ?addr = "of_nat a + ucast (of_nat c * CHUNK_SIZES ! i + FIRST_OFFSET_IN_SLAB ! i :: u32) :: u64"
  let ?h = "h\<lparr>slab_mem := (slab_mem h)(a \<mapsto> ?sh)\<rparr>"
  note sh = slab_ok_take [OF i c(1,2)]
  have ad: "(unat ?addr, chunk_size i) = chunk_block a i c"
    using chunk_address [OF i(1) c(1) r(3)] by (simp add: chunk_block_def)
  have "of_nat c \<le> NUM_CHUNKS_PER_SLAB ! i"
    using c(1) by (simp add: word_le_nat_alt num_chunks_def unat_of_nat)
  then have run: "allocate_chunk_from_slab a i h = Some (?addr, ?h)"
    using c(4) i(1) r(1) assms(3) by (simp add: allocate_chunk_from_slab_def)
  have nz: "?addr \<noteq> 0" using ad r(1) by (auto simp: chunk_block_def)
  have "chunk_size i dvd a" using g(2) r(2) by (rule dvd_trans)
  then have al: "chunk_size i dvd unat ?addr" using ad g(3) by (simp add: chunk_block_def)
  have nq: "\<forall>k. a \<in> set (Q k i) \<longrightarrow> fits k i ?sh"
    using links_apart(1) [OF layout heap_invD(2) [OF assms(1)] i(1)] assms(2) by blast
  have iv: "heap_inv E I R D Q ?h" by (rule inv_set_slab [OF assms(1) cl sh(1) nq])
  have b0: "blocks D Q h = blocks D Q (h\<lparr>slab_mem := (slab_mem h)(a \<mapsto> sh)\<rparr>)" using assms(3) by (simp add: map_upd_triv)
  have bl: "blocks D Q ?h = insert (chunk_block a i c) (blocks D Q h)"
    unfolding b0 blocks_set_slab [OF assms(1) cl] sh(2) by auto
  have new: "chunk_block a i c \<notin> blocks D Q h" by (rule unused_chunk [OF assms(1) cl assms(3) c(1,2)])
  show ?thesis using run sh(1,3) nz ad al new iv bl by metis
qed

lemma inv_take_slab:
  assumes "heap_inv E I R Map.empty Q h" "i < NUM_SLAB_LISTS" "Q k i \<noteq> []" "k \<noteq> Full_Slabs"
  shows "\<exists>a sh ls Q'. take_slab (slab_list E k i) h = Some (a, h\<lparr>list_mem := ls\<rparr>) \<and> heap_inv E I R [a \<mapsto> i] Q' (h\<lparr>list_mem := ls\<rparr>) \<and>
    blocks [a \<mapsto> i] Q' (h\<lparr>list_mem := ls\<rparr>) = blocks Map.empty Q h \<and> slab_mem h a = Some sh \<and> unat (allocation_count sh) < num_chunks i"
proof -
  obtain a xs where a: "Q k i = a # xs" using assms(3) by (cases "Q k i") auto
  obtain ls where ls: "klib_list_remove (list_mem h) (Some a) = Some ls"
    "heap_inv E I R [a \<mapsto> i] (set_seq k i (remove1 a (Q k i)) Q) (h\<lparr>list_mem := ls\<rparr>)"
    "blocks [a \<mapsto> i] (set_seq k i (remove1 a (Q k i)) Q) (h\<lparr>list_mem := ls\<rparr>) = blocks Map.empty Q h"
    using inv_unlink [OF assms(1,2), of a k] a by auto
  have "slab_in h i (fits k i) a" using heap_invD(4) [OF assms(1,2), of a k] a by simp
  then obtain sh where sh: "slab_mem h a = Some sh" "fits k i sh" by (rule slab_inE)
  have "unat (allocation_count sh) < num_chunks i"
    using sh(2) assms(4) slab_geometry(6) [OF assms(2)] by (auto simp: fits_def Let_def split: slab_kind.splits)
  moreover have "take_slab (slab_list E k i) h = Some (a, h\<lparr>list_mem := ls\<rparr>)"
    using links_seq [OF heap_invD(2) [OF assms(1)] assms(2), of k] a ls(1) by (simp add: take_slab_def get_list_def klist_def)
  ultimately show ?thesis using ls(2,3) sh(1) by blast
qed

lemma inv_choose_slab:
  assumes "heap_inv E I R Map.empty Q h" "i < NUM_SLAB_LISTS"
  shows "choose_slab E i h = None \<and> allocate_pages E 1 (page_src h) = None \<or>
    (\<exists>a h' Q' sh. choose_slab E i h = Some (a, h') \<and> heap_inv E I R [a \<mapsto> i] Q' h' \<and> blocks [a \<mapsto> i] Q' h' = blocks Map.empty Q h \<and>
       slab_mem h' a = Some sh \<and> unat (allocation_count sh) < num_chunks i \<and> allocator_initialized h' = allocator_initialized h \<and>
       (page_src h' = page_src h \<or> allocation_count sh = 0))"
proof -
  let ?l = "\<lambda>k. slab_list E k i"
  have e: "klib_list_is_empty (list_mem h) (Some (?l k)) = Some (Q k i = [])" for k
    using is_empty_refines [OF links_seq [OF heap_invD(2) [OF assms(1)] assms(2)]] .
  have t: ?thesis if z: "choose_slab E i h = take_slab (?l k) h" "Q k i \<noteq> []" "k \<noteq> Full_Slabs" for k
  proof -
    obtain a sh ls Q' where "take_slab (?l k) h = Some (a, h\<lparr>list_mem := ls\<rparr>)" "heap_inv E I R [a \<mapsto> i] Q' (h\<lparr>list_mem := ls\<rparr>)"
      "blocks [a \<mapsto> i] Q' (h\<lparr>list_mem := ls\<rparr>) = blocks Map.empty Q h" "slab_mem h a = Some sh" "unat (allocation_count sh) < num_chunks i"
      using inv_take_slab [where Q = Q and k = k, OF assms z(2,3)] by blast
    then show ?thesis using z(1) by (intro disjI2 exI [of _ a] exI [of _ "h\<lparr>list_mem := ls\<rparr>"] exI [of _ Q'] exI [of _ sh]) simp
  qed
  consider "Q Partial_Slabs i \<noteq> []" | "Q Partial_Slabs i = []" "Q Free_Slabs i \<noteq> []" | "Q Partial_Slabs i = []" "Q Free_Slabs i = []" by blast
  then show ?thesis
  proof cases
    case 1
    then show ?thesis using t [of Partial_Slabs] e by (simp add: choose_slab_def)
  next
    case 2
    then show ?thesis using t [of Free_Slabs] e by (simp add: choose_slab_def)
  next
    case 3
    then have c: "choose_slab E i h = allocate_new_slab E i h" using e by (simp add: choose_slab_def)
    show ?thesis
    proof (cases "allocate_new_slab E i h")
      case None
      then have "allocate_pages E 1 (page_src h) = None"
        by (cases "allocate_pages E 1 (page_src h)") (auto simp: allocate_new_slab_def klib_list_item_initialize_def Let_def)
      then show ?thesis using c None by simp
    next
      case (Some ah)
      then obtain a h' where ah: "allocate_new_slab E i h = Some (a, h')" by (cases ah) auto
      note n = inv_new_slab [OF assms this]
      obtain sh where "slab_mem h' a = Some sh" "allocation_count sh = 0" using n(5) by blast
      moreover from this have "unat (allocation_count sh) < num_chunks i" using slab_geometry(6) [OF assms(2)] by simp
      ultimately show ?thesis using c ah n(1,2,7)
        by (intro disjI2 exI [of _ a] exI [of _ h'] exI [of _ Q] exI [of _ sh]) simp
    qed
  qed
qed

lemma proportion_small:
  assumes "i < NUM_SLAB_LISTS" "allocation_count sh = 1"
  shows "\<not> 90 < (allocation_count sh * 100) div (ucast (NUM_CHUNKS_PER_SLAB ! i) :: u64)"
proof -
  have "unat ((allocation_count sh * 100) div (ucast (NUM_CHUNKS_PER_SLAB ! i) :: u64)) = 100 div num_chunks i"
    using assms(2) by (simp add: unat_div num_chunks_def)
  then show ?thesis using slab_geometry(8) [OF assms(1)] by (simp add: word_less_nat_alt)
qed

text \<open>Taking a chunk, all steps together.\<close>

lemma inv_preallocate:
  assumes "heap_inv E I R Map.empty Q h" "i < NUM_SLAB_LISTS" "slab_mem h a = Some sh"
  shows "preallocate_slab E i a h = None \<and> allocate_pages E 1 (page_src h) = None \<and> allocation_count sh \<noteq> 1 \<or>
    (\<exists>h' Q'. preallocate_slab E i a h = Some h' \<and> heap_inv E I R Map.empty Q' h' \<and> blocks Map.empty Q' h' = blocks Map.empty Q h \<and>
       allocator_initialized h' = allocator_initialized h)"
proof -
  let ?p = "90 < (allocation_count sh * 100) div (ucast (NUM_CHUNKS_PER_SLAB ! i) :: u64) \<and> Q Free_Slabs i = []"
  have e: "klib_list_is_empty (list_mem h) (Some (slab_list E Free_Slabs i)) = Some (Q Free_Slabs i = [])"
    using is_empty_refines [OF links_seq [OF heap_invD(2) [OF assms(1)] assms(2)]] .
  show ?thesis
  proof (cases ?p)
    case False
    then have "preallocate_slab E i a h = Some h" using e assms(3) by (auto simp: preallocate_slab_def)
    then show ?thesis using assms(1) by blast
  next
    case True
    then have p: "preallocate_slab E i a h = do { (s, h) \<leftarrow> allocate_new_slab E i h; push_slab (slab_list E Free_Slabs i) s h }"
      using e assms(3) by (simp add: preallocate_slab_def)
    show ?thesis
    proof (cases "allocate_new_slab E i h")
      case None
      then have "allocate_pages E 1 (page_src h) = None"
        by (cases "allocate_pages E 1 (page_src h)") (auto simp: allocate_new_slab_def klib_list_item_initialize_def Let_def)
      then show ?thesis using p None proportion_small [OF assms(2)] True by auto
    next
      case (Some x)
      then obtain b h' where b: "allocate_new_slab E i h = Some (b, h')" by (cases x) auto
      note n = inv_new_slab [OF assms(1,2) b]
      have "slab_in h' i (fits Free_Slabs i) b" using n(5) by (auto simp: slab_in_def fits_def)
      moreover have "length (Q Free_Slabs i) < unat MAX_FREE_SLABS" using True by (simp add: MAX_FREE_SLABS_def)
      ultimately obtain ls Q' where "push_slab (slab_list E Free_Slabs i) b h' = Some (h'\<lparr>list_mem := ls\<rparr>)"
        "heap_inv E I R ([b \<mapsto> i](b := None)) Q' (h'\<lparr>list_mem := ls\<rparr>)"
        "blocks ([b \<mapsto> i](b := None)) Q' (h'\<lparr>list_mem := ls\<rparr>) = blocks [b \<mapsto> i] Q h'"
        using inv_push(1) [OF n(1), of b i Free_Slabs] by auto
      then show ?thesis using p b n(2,7) by (intro disjI2 exI [of _ "h'\<lparr>list_mem := ls\<rparr>"] exI [of _ Q']) simp
    qed
  qed
qed

lemma inv_kmalloc_chunk:
  assumes "heap_inv E I R Map.empty Q h" "i < NUM_SLAB_LISTS"
  shows "kmalloc_chunk E i h = None \<and> allocate_pages E 1 (page_src h) = None \<or>
    (\<exists>addr h' Q'. kmalloc_chunk E i h = Some (addr, h') \<and> heap_inv E I R Map.empty Q' h' \<and>
       blocks Map.empty Q' h' = insert (unat addr, chunk_size i) (blocks Map.empty Q h) \<and>
       (unat addr, chunk_size i) \<notin> blocks Map.empty Q h \<and> addr \<noteq> 0 \<and> chunk_size i dvd unat addr \<and>
       allocator_initialized h' = allocator_initialized h)"
proof (cases "choose_slab E i h = None")
  case True
  then show ?thesis using inv_choose_slab [OF assms] by (simp add: kmalloc_chunk_def)
next
  case False
  then obtain a h1 Q1 sh where 1: "choose_slab E i h = Some (a, h1)" "heap_inv E I R [a \<mapsto> i] Q1 h1"
    "blocks [a \<mapsto> i] Q1 h1 = blocks Map.empty Q h" "slab_mem h1 a = Some sh" "unat (allocation_count sh) < num_chunks i"
    "allocator_initialized h1 = allocator_initialized h" "page_src h1 = page_src h \<or> allocation_count sh = 0"
    using inv_choose_slab [OF assms] by auto
  obtain addr c sh' h2 where 2: "allocate_chunk_from_slab a i h1 = Some (addr, h2)" "h2 = h1\<lparr>slab_mem := (slab_mem h1)(a \<mapsto> sh')\<rparr>"
    "slab_ok i sh'" "unat (allocation_count sh') = Suc (unat (allocation_count sh))" "addr \<noteq> 0" "chunk_size i dvd unat addr"
    "(unat addr, chunk_size i) \<notin> blocks [a \<mapsto> i] Q1 h1" "heap_inv E I R [a \<mapsto> i] Q1 h2"
    "blocks [a \<mapsto> i] Q1 h2 = insert (unat addr, chunk_size i) (blocks [a \<mapsto> i] Q1 h1)"
    using inv_take_chunk [OF 1(2) _ 1(4,5)] by auto
  have a0: "a \<noteq> 0" using slab_region(1) [OF 1(2,4)] by simp
  let ?full = "allocation_count sh' = ucast (NUM_CHUNKS_PER_SLAB ! i)"
  define k where "k = (if ?full then Full_Slabs else Partial_Slabs)"
  have le: "unat (allocation_count sh') \<le> num_chunks i" using 1(5) 2(4) by simp
  have full: "?full \<longleftrightarrow> unat (allocation_count sh') = num_chunks i"
    by (simp add: word_unat_eq_iff num_chunks_def)
  have f: "slab_is_full a i h2 = Some ?full"
    using le a0 assms(2) by (simp add: slab_is_full_def 2(2) word_le_nat_alt num_chunks_def)
  have k: "slab_in h2 i (fits k i) a" "k \<noteq> Free_Slabs"
    using 2(2-4) full le by (auto simp: slab_in_def fits_def Let_def k_def)
  obtain ls Q2 h3 where 3: "push_slab (slab_list E k i) a h2 = Some h3" "h3 = h2\<lparr>list_mem := ls\<rparr>" "heap_inv E I R Map.empty Q2 h3"
    "blocks Map.empty Q2 h3 = blocks [a \<mapsto> i] Q1 h2"
    using inv_push(1) [OF 2(8) _ k(1)] k(2) by auto
  have sm: "slab_mem h3 a = Some sh'" "allocator_initialized h3 = allocator_initialized h" "page_src h3 = page_src h1"
    using 1(6) by (simp_all add: 3(2) 2(2))
  have run: "kmalloc_chunk E i h = map_option (Pair addr) (preallocate_slab E i a h3)"
    using 1(1) 2(1,5) f 3(1) [unfolded k_def] by (cases "preallocate_slab E i a h3") (simp_all add: kmalloc_chunk_def)
  have n1: "allocation_count sh' = 1" if "allocation_count sh = 0" using 2(4) that by (simp add: word_unat_eq_iff)
  show ?thesis
  proof (cases "preallocate_slab E i a h3")
    case None
    then have "allocate_pages E 1 (page_src h) = None" using inv_preallocate [OF 3(3) assms(2) sm(1)] 1(7) n1 sm(3) by auto
    then show ?thesis using run None by simp
  next
    case (Some h4)
    then obtain Q3 where "heap_inv E I R Map.empty Q3 h4" "blocks Map.empty Q3 h4 = blocks Map.empty Q2 h3"
      "allocator_initialized h4 = allocator_initialized h3"
      using inv_preallocate [OF 3(3) assms(2) sm(1)] by auto
    then show ?thesis using run Some 1(3) 2(5-7,9) 3(4) sm(2)
      by (intro disjI2 exI [of _ addr] exI [of _ h4] exI [of _ Q3]) simp
  qed
qed

lemma inv_kmalloc_large:
  assumes "heap_inv E I R Map.empty Q h" "mem_size \<noteq> 0" "unat mem_size \<le> 2 ^ 52"
  defines "n \<equiv> (unat mem_size - 1) div 2 ^ 21 + 1"
  shows "kmalloc_large E mem_size h = None \<and> allocate_pages E (of_nat n) (page_src h) = None \<or>
    (\<exists>addr h'. kmalloc_large E mem_size h = Some (addr, h') \<and> heap_inv E I R Map.empty Q h' \<and>
       blocks Map.empty Q h' = insert (unat addr, n * 2 ^ 21) (blocks Map.empty Q h) \<and>
       (unat addr, n * 2 ^ 21) \<notin> blocks Map.empty Q h \<and> addr \<noteq> 0 \<and> 2 ^ 21 dvd unat addr \<and>
       allocator_initialized h' = allocator_initialized h)"
proof -
  note inv = heap_invD [OF assms(1)]
  have "(unat mem_size - 1) div 2 ^ 21 < 2 ^ 31" using assms(3) by simp
  then have n: "0 < n" "n \<le> 2 ^ 31" by (simp_all add: n_def)
  have "unat (mem_size - 1) = unat mem_size - 1" using assms(2) by (simp add: unat_minus_one)
  then have "unat ((mem_size - 1) div MEM_PAGE_SIZE + 1) = n"
    using n unat_add_no_wrap [of "(mem_size - 1) div MEM_PAGE_SIZE" 1] by (simp add: unat_div n_def)
  then have rp: "ucast ((mem_size - 1) div MEM_PAGE_SIZE + 1) = (of_nat n :: u32)"
    using n(2) by (simp add: word_unat_eq_iff unat_ucast_down unat_of_nat)
  have u: "unat (of_nat n :: u32) = n" "(of_nat n :: u32) \<noteq> 0" "unat (ucast (of_nat n :: u32) :: u64) = n"
    using n by (simp_all add: unat_of_nat word_unat_eq_iff)
  show ?thesis
  proof (cases "allocate_pages E (of_nat n) (page_src h)")
    case None
    then show ?thesis by (simp add: kmalloc_large_def rp)
  next
    case (Some x)
    then obtain addr p where a: "allocate_pages E (of_nat n) (page_src h) = Some (addr, p)" by (cases x) auto
    let ?h = "h\<lparr>page_src := p, large_allocations := std_map_insert addr (ucast (of_nat n :: u32)) (large_allocations h)\<rparr>"
    have r: "I p" "\<forall>m. (unat addr, m) \<notin> R (page_src h)" "R (page_src h) \<subseteq> R p" "\<exists>m \<ge> n * 2 ^ 21. (unat addr, m) \<in> R p"
      using alloc_region [OF inv(1) u(2) _ a] u(1) n(2) by auto
    have reg: "addr \<noteq> 0" "2 ^ 21 dvd unat addr" using region [OF r(1)] r(4) by fastforce+
    have new: "map_of (large_allocations h) addr = None"
    proof (cases "map_of (large_allocations h) addr")
      case (Some m)
      then show ?thesis using inv(8) r(2) by blast
    qed
    have mo: "map_of (large_allocations ?h) = (map_of (large_allocations h))(addr \<mapsto> ucast (of_nat n :: u32))"
      using map_of_insert [OF inv(3)] new by (simp add: map_contains_def)
    have ns: "unat addr \<notin> dom (slab_mem h)" using inv(7) r(2) by blast
    have si: "slab_in ?h j P b = slab_in h j P b" for j P b by (simp add: slab_in_def)
    have iv: "heap_inv E I R Map.empty Q ?h"
      unfolding heap_inv_def
    proof (intro conjI)
      show "\<forall>b \<in> dom (slab_mem ?h). (\<exists>j. (b, j) \<in> classes Map.empty Q) \<and> (\<exists>m \<ge> 2 ^ 21. (b, m) \<in> R (page_src ?h))"
        using inv(6,7) r(3) by simp (meson domD subsetD)
      show "\<forall>b m. map_of (large_allocations ?h) b = Some m \<longrightarrow> m \<noteq> 0 \<and> unat m < 2 ^ 32 \<and> unat b \<notin> dom (slab_mem ?h) \<and>
        (\<exists>z \<ge> unat m * 2 ^ 21. (unat b, z) \<in> R (page_src ?h))"
      proof (intro allI impI)
        fix b m assume m: "map_of (large_allocations ?h) b = Some m"
        show "m \<noteq> 0 \<and> unat m < 2 ^ 32 \<and> unat b \<notin> dom (slab_mem ?h) \<and> (\<exists>z \<ge> unat m * 2 ^ 21. (unat b, z) \<in> R (page_src ?h))"
        proof (cases "b = addr")
          case True
          then have "m = ucast (of_nat n :: u32)" using m mo by simp
          then have um: "unat m = n" using u(3) by (simp only:)
          then have "m \<noteq> 0" using n(1) by auto
          then show ?thesis using True um n ns r(4) by auto
        next
          case False
          then have "map_of (large_allocations h) b = Some m" using m mo by simp
          then show ?thesis using inv(8) r(3) by simp (meson subsetD)
        qed
      qed
    qed (use inv r(1) si in simp_all)
    have lb: "large_blocks ?h = insert (unat addr, n * 2 ^ 21) (large_blocks h)"
      unfolding large_blocks_def mo using u(3) new by (auto split: if_splits)
    have bl: "blocks Map.empty Q ?h = insert (unat addr, n * 2 ^ 21) (blocks Map.empty Q h)"
    proof -
      have "slab_blocks ?h = slab_blocks h" by (intro ext) (simp add: slab_blocks_def)
      then show ?thesis by (simp only: blocks_def lb Un_insert_left)
    qed
    have "(unat addr, n * 2 ^ 21) \<notin> blocks Map.empty Q h"
    proof
      assume x: "(unat addr, n * 2 ^ 21) \<in> blocks Map.empty Q h"
      obtain b m where b: "(b, m) \<in> R (page_src h)" "b \<le> unat addr" "unat addr + n * 2 ^ 21 \<le> b + m"
        using block_home [OF assms(1) x] by (metis fst_conv snd_conv)
      moreover obtain m' where "n * 2 ^ 21 \<le> m'" "(unat addr, m') \<in> R p" using r(4) by blast
      ultimately have "b = unat addr" using apart [OF r(1), of b m "unat addr" m'] r(3) n(1) by fastforce
      then show False using b(1) r(2) by blast
    qed
    then show ?thesis
      using a iv bl reg by (intro disjI2 exI [of _ addr] exI [of _ ?h]) (simp add: kmalloc_large_def rp)
  qed
qed

text \<open>Release of a chunk: the bit of the chunk the pointer lies in is cleared.\<close>

lemma chunk_offset_value:
  assumes "i < NUM_SLAB_LISTS" "unat p = a + off" "off < 2 ^ 21"
  shows "if first_offset i \<le> off
    then unat (chunk_offset_of p (of_nat a) i) = (off - first_offset i) div chunk_size i
    else num_chunks i \<le> unat (chunk_offset_of p (of_nat a) i)"
proof -
  note g = slab_geometry [OF assms(1)]
  have a: "a < 2 ^ 64" using assms(2) unat_lt_u64 [of p] by linarith
  have "unat (p - of_nat a) = off"
    using assms(2) a by (simp add: unat_sub word_le_nat_alt unat_of_nat_u64)
  then have c: "unat (ucast (p - of_nat a) :: u32) = off" using assms(3) by (simp add: unat_ucast_down)
  have d: "unat (chunk_offset_of p (of_nat a) i) = unat (ucast (p - of_nat a) - FIRST_OFFSET_IN_SLAB ! i :: u32) div chunk_size i"
    by (simp add: chunk_offset_of_def Let_def unat_div chunk_size_def)
  show ?thesis
  proof (cases "first_offset i \<le> off")
    case True
    then have "unat (ucast (p - of_nat a) - FIRST_OFFSET_IN_SLAB ! i :: u32) = off - first_offset i"
      using c by (simp add: unat_sub word_le_nat_alt first_offset_def)
    then show ?thesis using True d by simp
  next
    case False
    let ?w = "ucast (p - of_nat a) - FIRST_OFFSET_IN_SLAB ! i :: u32"
    have "unat ?w = 2 ^ 32 + off - first_offset i"
      using False c by (simp add: unat_sub_if' word_le_nat_alt first_offset_def)
    moreover have "num_chunks i * chunk_size i \<le> 2 ^ 32 - 2 ^ 21" "first_offset i \<le> 2 ^ 21" using g(5) by simp_all
    ultimately have "num_chunks i * chunk_size i \<le> unat ?w" by linarith
    then have "num_chunks i \<le> unat ?w div chunk_size i" using g(1) by (simp add: less_eq_div_iff_mult_less_eq)
    then show ?thesis using False d by simp
  qed
qed

lemma xor_set_bit: "j < 64 \<Longrightarrow> bit w (63 - j) \<Longrightarrow> w XOR page_mask j = w AND NOT (page_mask j)"
  by (rule bit_eqI) (auto simp: bit_xor_iff bit_and_iff bit_not_iff page_mask_exp bit_exp_iff)

lemma free_chunk_exact:
  fixes h :: "'p heap_state"
  assumes "i < NUM_SLAB_LISTS" "unat p = a + off" "off < 2 ^ 21" "slab_mem h a = Some sh" "slab_ok i sh"
  defines "c \<equiv> (off - first_offset i) div chunk_size i"
  shows "free_chunk p a i h = (if first_offset i \<le> off \<and> c \<in> pages_of (slab_bitmap sh)
    then Some (h\<lparr>slab_mem := (slab_mem h)(a \<mapsto> sh\<lparr>slab_bitmap := (slab_bitmap sh)
           [c div 64 := (slab_bitmap sh ! (c div 64)) AND NOT (page_mask (c mod 64))], allocation_count := allocation_count sh - 1\<rparr>)\<rparr>)
    else None)"
proof (cases "first_offset i \<le> off")
  case False
  then have "num_chunks i \<le> unat (chunk_offset_of p (of_nat a) i)" using chunk_offset_value [OF assms(1-3)] by simp
  then have "\<not> chunk_offset_of p (of_nat a) i < NUM_CHUNKS_PER_SLAB ! i" by (simp add: word_less_nat_alt num_chunks_def)
  then show ?thesis using False by (simp add: free_chunk_def)
next
  case True
  note g = slab_geometry [OF assms(1)]
  let ?c = "chunk_offset_of p (of_nat a) i"
  have u: "unat ?c = c" using True chunk_offset_value [OF assms(1-3)] by (simp add: c_def)
  have "off - first_offset i < num_chunks i * chunk_size i" using True assms(3) g(5) by linarith
  then have lt: "c < num_chunks i" unfolding c_def by (rule less_mult_imp_div_less)
  then have lc: "c < 64 * length (slab_bitmap sh)" "c div 64 < length (slab_bitmap sh)"
    using assms(5) g(7) by (auto simp: slab_ok_def)
  have w: "?c < NUM_CHUNKS_PER_SLAB ! i" "unat (?c div 64) = c div 64" "unat (63 - ?c mod 64) = 63 - c mod 64"
  proof -
    show "?c < NUM_CHUNKS_PER_SLAB ! i" using lt u by (simp add: word_less_nat_alt num_chunks_def)
    show "unat (?c div 64) = c div 64" using u by (simp add: unat_div)
    have "unat (?c mod 64) = c mod 64" using u by (simp add: unat_mod)
    then show "unat (63 - ?c mod 64) = 63 - c mod 64" by (simp add: unat_sub word_le_nat_alt)
  qed
  have m: "(2 :: u64) ^ (63 - c mod 64) = page_mask (c mod 64)" by (simp add: page_mask_exp)
  have b: "slab_bitmap sh ! (c div 64) AND page_mask (c mod 64) \<noteq> 0 \<longleftrightarrow> c \<in> pages_of (slab_bitmap sh)"
    using page_bit_mask [OF lc(1)] .
  show ?thesis
  proof (cases "c \<in> pages_of (slab_bitmap sh)")
    case False
    then have z: "slab_bitmap sh ! (c div 64) AND page_mask (c mod 64) = 0" using b by simp
    show ?thesis using False assms(4) z by (simp add: free_chunk_def w m Let_def assert_simps)
  next
    case c: True
    have "bit (slab_bitmap sh ! (c div 64)) (63 - c mod 64)" using c by (simp add: pages_of_def page_bit_def)
    then have x: "slab_bitmap sh ! (c div 64) XOR page_mask (c mod 64) = (slab_bitmap sh ! (c div 64)) AND NOT (page_mask (c mod 64))"
      by (intro xor_set_bit) simp_all
    show ?thesis using c True assms(1,4) lc(2) b by (simp add: free_chunk_def w m Let_def x)
  qed
qed

lemma list_index_of:
  assumes "i < NUM_SLAB_LISTS"
  shows "slab_list_index E (slab_list E k i) = (case k of Free_Slabs \<Rightarrow> None | Partial_Slabs \<Rightarrow> Some (i, False) | Full_Slabs \<Rightarrow> Some (i, True))"
proof -
  have b: "slab_base E k \<le> slab_list E k i" "slab_list E k i < slab_base E k + SIZEOF_PTR_LIST * NUM_SLAB_LISTS"
    using slab_list_bounds [OF assms, of E k] by (simp_all add: SIZEOF_PTR_LIST_def)
  have out: "\<not> (slab_base E k' \<le> slab_list E k i \<and> slab_list E k i < slab_base E k' + SIZEOF_PTR_LIST * NUM_SLAB_LISTS)" if "k' \<noteq> k" for k'
    using layout [unfolded layout_ok_def, rule_format, OF that] b by linarith
  have p: "slab_base E Partial_Slabs = partial_slabs_list E" "slab_base E Full_Slabs = full_slabs_list E"
    by (simp_all add: slab_base_def)
  have ix: "(slab_list E k i - slab_base E k) div SIZEOF_PTR_LIST = i" by (simp add: slab_list_def SIZEOF_PTR_LIST_def)
  show ?thesis
  proof (cases k)
    case Free_Slabs
    then show ?thesis using out [of Partial_Slabs] out [of Full_Slabs] p by (simp add: slab_list_index_def)
  next
    case Partial_Slabs
    then show ?thesis using b ix p by (simp add: slab_list_index_def)
  next
    case Full_Slabs
    then show ?thesis using b ix p out [of Partial_Slabs] by (auto simp: slab_list_index_def)
  qed
qed

lemma inv_release_slab:
  assumes "heap_inv E I R D Q h" "D a = Some i" "slab_mem h a = Some sh" "pages_of (slab_bitmap sh) = {}"
  shows "release_slab E a h = None \<and> deallocate_pages E (of_nat a) 1 (page_src h) = None \<or>
    (\<exists>h'. release_slab E a h = Some h' \<and> heap_inv E I R (D(a := None)) Q h' \<and> blocks (D(a := None)) Q h' = blocks D Q h \<and>
       allocator_initialized h' = allocator_initialized h)"
proof (cases "deallocate_pages E (of_nat a) 1 (page_src h)")
  case None
  then show ?thesis by (simp add: release_slab_def)
next
  case (Some p)
  note inv = heap_invD [OF assms(1)]
  have i: "i < NUM_SLAB_LISTS" using inv(5) assms(2) by blast
  have ua: "unat (of_nat a :: u64) = a" using slab_region(3) [OF assms(1,3)] by (simp add: unat_of_nat_u64)
  obtain m where m: "2 ^ 21 \<le> m" "(a, m) \<in> R (page_src h)" using inv(7) assms(3) by blast
  have r: "I p" "{(b, m) \<in> R (page_src h). b \<noteq> a} \<subseteq> R p"
    using dealloc_region [OF inv(1) _ _ Some, of m] ua m by simp_all
  define h' where "h' = h\<lparr>page_src := p, slab_mem := (slab_mem h)(a := None),
    list_mem := (list_mem h)\<lparr>items := (items (list_mem h))(a := None)\<rparr>\<rparr>"
  have nq: "a \<notin> set (Q k j)" if "j < NUM_SLAB_LISTS" for k j
    using links_apart(1) [OF layout inv(2) that] assms(2) by blast
  have c: "classes D Q = insert (a, i) (classes (D(a := None)) Q)" "(a, j) \<notin> classes (D(a := None)) Q" for j
    using assms(2) nq by (auto simp: classes_def split: if_splits)
  have si: "slab_in h' j P b = slab_in h j P b" if "b \<noteq> a" for j P b using that by (simp add: slab_in_def h'_def)
  have "links E Q (dom D - {a}) (list_mem h')"
    using nq by (intro links_items [OF inv(2)]) (simp_all add: h'_def)
  then have l: "links E Q (dom (D(a := None))) (list_mem h')" by simp
  have "heap_inv E I R (D(a := None)) Q h'"
    unfolding heap_inv_def
  proof (intro conjI)
    show "\<forall>k j. j < NUM_SLAB_LISTS \<longrightarrow> (\<forall>b \<in> set (Q k j). slab_in h' j (fits k j) b)"
      using inv(4) nq si by metis
    show "\<forall>b j. (D(a := None)) b = Some j \<longrightarrow> j < NUM_SLAB_LISTS \<and> slab_in h' j (\<lambda>_. True) b"
      using inv(5) si by (simp split: if_splits)
    show "\<forall>b \<in> dom (slab_mem h'). (\<exists>j. (b, j) \<in> classes (D(a := None)) Q) \<and> (\<exists>m \<ge> 2 ^ 21. (b, m) \<in> R (page_src h'))"
    proof
      fix b assume "b \<in> dom (slab_mem h')"
      then obtain sb where b: "b \<noteq> a" "slab_mem h b = Some sb" by (auto simp: h'_def split: if_splits)
      obtain m where "2 ^ 21 \<le> m" "(b, m) \<in> R (page_src h)" using inv(7) [OF b(2)] by blast
      moreover obtain j where "(b, j) \<in> classes D Q" using inv(6) [OF b(2)] by blast
      ultimately show "(\<exists>j. (b, j) \<in> classes (D(a := None)) Q) \<and> (\<exists>m \<ge> 2 ^ 21. (b, m) \<in> R (page_src h'))"
        using b(1) c(1) r(2) by (auto simp: h'_def)
    qed
    show "\<forall>b n. map_of (large_allocations h') b = Some n \<longrightarrow> n \<noteq> 0 \<and> unat n < 2 ^ 32 \<and> unat b \<notin> dom (slab_mem h') \<and>
        (\<exists>m \<ge> unat n * 2 ^ 21. (unat b, m) \<in> R (page_src h'))"
    proof (intro allI impI)
      fix b n assume "map_of (large_allocations h') b = Some n"
      then have b: "map_of (large_allocations h) b = Some n" by (simp add: h'_def)
      obtain m where "unat n * 2 ^ 21 \<le> m" "(unat b, m) \<in> R (page_src h)" using inv(8) [OF b] by blast
      moreover have "unat b \<noteq> a" using inv(8) [OF b] assms(3) by auto
      ultimately show "n \<noteq> 0 \<and> unat n < 2 ^ 32 \<and> unat b \<notin> dom (slab_mem h') \<and> (\<exists>m \<ge> unat n * 2 ^ 21. (unat b, m) \<in> R (page_src h'))"
        using inv(8) [OF b] r(2) by (auto simp: h'_def)
    qed
  qed (use inv(3,9) r(1) l in \<open>simp_all add: h'_def\<close>)
  moreover have "blocks (D(a := None)) Q h' = blocks D Q h"
  proof -
    have "slab_blocks h' b j = slab_blocks h b j" if "(b, j) \<in> classes (D(a := None)) Q" for b j
      using that c(2) by (cases "b = a") (auto simp: slab_blocks_def h'_def)
    then have "(\<Union>(b, j) \<in> classes (D(a := None)) Q. slab_blocks h' b j) = (\<Union>(b, j) \<in> classes (D(a := None)) Q. slab_blocks h b j)"
      by (intro SUP_cong) auto
    moreover have "slab_blocks h a i = {}" using assms(3,4) by (simp add: slab_blocks_def)
    ultimately show ?thesis by (simp add: blocks_def c(1) large_blocks_def h'_def)
  qed
  moreover have "release_slab E a h = Some h'" using Some by (simp add: release_slab_def h'_def)
  ultimately show ?thesis by (intro disjI2 exI [of _ h']) (simp add: h'_def)
qed

lemma slab_ok_drop:
  assumes "i < NUM_SLAB_LISTS" "slab_ok i sh" "c \<in> pages_of (slab_bitmap sh)"
  defines "sh' \<equiv> sh\<lparr>slab_bitmap := (slab_bitmap sh)[c div 64 := (slab_bitmap sh ! (c div 64)) AND NOT (page_mask (c mod 64))],
    allocation_count := allocation_count sh - 1\<rparr>"
  shows "slab_ok i sh'" "pages_of (slab_bitmap sh') = pages_of (slab_bitmap sh) - {c}"
    "Suc (unat (allocation_count sh')) = unat (allocation_count sh)"
proof -
  have "c < 64 * length (slab_bitmap sh)" using assms(3) by (simp add: pages_of_def)
  then show p: "pages_of (slab_bitmap sh') = pages_of (slab_bitmap sh) - {c}" using pages_of_clear by (simp add: sh'_def)
  have k: "card (pages_of (slab_bitmap sh)) = Suc (card (pages_of (slab_bitmap sh) - {c}))"
    using card_Suc_Diff1 [OF finite_pages_of assms(3)] by simp
  then have "allocation_count sh \<noteq> 0" using assms(2) by (auto simp: slab_ok_def)
  then show u: "Suc (unat (allocation_count sh')) = unat (allocation_count sh)"
    using unat_gt_0 [of "allocation_count sh"] by (simp add: sh'_def unat_minus_one)
  show "slab_ok i sh'"
    using assms(2) p u k by (auto simp: slab_ok_def) (simp add: sh'_def)
qed

lemma inv_drop_chunk:
  assumes "heap_inv E I R D Q h" "(a, i) \<in> classes D Q" "slab_mem h a = Some sh" "c \<in> pages_of (slab_bitmap sh)"
    and "slab_ok i sh'" "pages_of (slab_bitmap sh') = pages_of (slab_bitmap sh) - {c}" "\<forall>k. a \<in> set (Q k i) \<longrightarrow> fits k i sh'"
  defines "h' \<equiv> h\<lparr>slab_mem := (slab_mem h)(a \<mapsto> sh')\<rparr>"
  shows "heap_inv E I R D Q h'" "blocks D Q h' = blocks D Q h - {chunk_block a i c}"
proof -
  show iv: "heap_inv E I R D Q h'" unfolding h'_def by (rule inv_set_slab [OF assms(1,2,5,7)])
  obtain sh0 where "slab_mem h a = Some sh0" "slab_ok i sh0" by (rule classD [OF assms(1,2)])
  then have c: "c < num_chunks i" using assms(3,4) by (auto simp: slab_ok_def)
  have new: "chunk_block a i c \<notin> blocks D Q h'"
    using unused_chunk [OF iv assms(2) _ c, of sh'] assms(6) by (simp add: h'_def)
  have b0: "blocks D Q h = blocks D Q (h\<lparr>slab_mem := (slab_mem h)(a \<mapsto> sh)\<rparr>)" using assms(3) by (simp add: map_upd_triv)
  have "blocks D Q h = insert (chunk_block a i c) (blocks D Q h')"
    using assms(4) unfolding b0 h'_def blocks_set_slab [OF assms(1,2)] assms(6) by auto
  then show "blocks D Q h' = blocks D Q h - {chunk_block a i c}" using new by simp
qed

lemma kfree_chunk_start:
  assumes "heap_inv E I R Map.empty Q h" "i < NUM_SLAB_LISTS" "a \<in> set (Q k i)" "unat p = a + off" "off < 2 ^ 21" "slab_mem h a = Some sh"
  shows "unat (p - p mod MEM_PAGE_SIZE) = a"
    "\<exists>it. get_item (list_mem h) (Some a) = Some it \<and> li_list_obj it = Some (slab_list E k i)"
proof -
  obtain q where q: "a = 2 ^ 21 * q" using slab_region(2) [OF assms(1,6)] by blast
  have "unat (p mod MEM_PAGE_SIZE) = off" using assms(4,5) q by (simp add: unat_mod)
  then show "unat (p - p mod MEM_PAGE_SIZE) = a" using assms(4) by (simp add: unat_sub word_le_nat_alt)
  show "\<exists>it. get_item (list_mem h) (Some a) = Some it \<and> li_list_obj it = Some (slab_list E k i)"
    using klist_member [OF links_seq [OF heap_invD(2) [OF assms(1)] assms(2)] assms(3)] by (auto simp: get_item_def)
qed

lemma inv_kfree_chunk:
  assumes "heap_inv E I R Map.empty Q h" "i < NUM_SLAB_LISTS" "a \<in> set (Q k i)" "unat p = a + off" "off < 2 ^ 21"
    and "slab_mem h a = Some sh" "first_offset i \<le> off"
  defines "c \<equiv> (off - first_offset i) div chunk_size i"
  assumes c: "c \<in> pages_of (slab_bitmap sh)"
  defines "back \<equiv> pages_of (slab_bitmap sh) = {c} \<and> unat MAX_FREE_SLABS \<le> length (Q Free_Slabs i) \<and>
    deallocate_pages E (of_nat a) 1 (page_src h) = None"
  shows "kfree_chunk E p h = None \<and> back \<or>
    \<not> back \<and> (\<exists>h' Q'. kfree_chunk E p h = Some h' \<and> heap_inv E I R Map.empty Q' h' \<and>
       blocks Map.empty Q' h' = blocks Map.empty Q h - {chunk_block a i c} \<and> allocator_initialized h' = allocator_initialized h)"
proof -
  have ok: "slab_ok i sh" "fits k i sh" using heap_invD(4) [OF assms(1-3)] assms(6) by (auto simp: slab_in_def)
  have a0: "a \<noteq> 0" using slab_region(1) [OF assms(1,6)] by simp
  define sh' where "sh' = sh\<lparr>slab_bitmap := (slab_bitmap sh)[c div 64 := (slab_bitmap sh ! (c div 64)) AND NOT (page_mask (c mod 64))],
    allocation_count := allocation_count sh - 1\<rparr>"
  note d = slab_ok_drop [OF assms(2) ok(1) c, folded sh'_def]
  define h1 where "h1 = h\<lparr>slab_mem := (slab_mem h)(a \<mapsto> sh')\<rparr>"
  have k: "k \<noteq> Free_Slabs" using ok(2) d(3) by (auto simp: fits_def)
  have free: "free_chunk p a i h = Some h1"
    using free_chunk_exact [OF assms(2,4,5,6) ok(1)] c assms(7) by (simp add: c_def h1_def sh'_def)
  have emp: "slab_is_empty a h1 = Some (allocation_count sh' = 0)" using a0 by (simp add: slab_is_empty_def h1_def)
  note st = kfree_chunk_start [OF assms(1-6)]
  have ix: "slab_list_index E (slab_list E k i) = Some (i, k = Full_Slabs)"
    using list_index_of [OF assms(2), of k] k by (cases k) simp_all
  obtain it where it: "get_item (list_mem h) (Some a) = Some it" "li_list_obj it = Some (slab_list E k i)" using st(2) by blast
  have run: "kfree_chunk E p h = (if allocation_count sh' = 0 then do {
       h \<leftarrow> unlink_slab a h1;
       free_slabs \<leftarrow> klib_list_get_length (list_mem h) (Some (slab_list E Free_Slabs i));
       if free_slabs \<ge> MAX_FREE_SLABS then release_slab E a h else append_slab (slab_list E Free_Slabs i) a h }
     else if k = Full_Slabs then do { h \<leftarrow> unlink_slab a h1; append_slab (slab_list E Partial_Slabs i) a h } else Some h1)"
    by (simp add: kfree_chunk_def st(1) it ix free emp cong: if_cong)
  let ?D = "[a \<mapsto> i]"
  define Q2 where "Q2 = set_seq k i (remove1 a (Q k i)) Q"
  obtain ls where ls: "klib_list_remove (list_mem h) (Some a) = Some ls" "heap_inv E I R ?D Q2 (h\<lparr>list_mem := ls\<rparr>)"
    "blocks ?D Q2 (h\<lparr>list_mem := ls\<rparr>) = blocks Map.empty Q h"
    using inv_unlink [OF assms(1-3)] unfolding Q2_def by auto
  define h2 where "h2 = h1\<lparr>list_mem := ls\<rparr>"
  have cl: "(a, i) \<in> classes ?D Q2" by (simp add: classes_def)
  have nq: "\<forall>k'. a \<in> set (Q2 k' i) \<longrightarrow> fits k' i sh'"
    using links_apart(1) [OF layout heap_invD(2) [OF ls(2)] assms(2)] by force
  have un: "unlink_slab a h1 = Some h2" using ls(1) by (simp add: unlink_slab_def h1_def h2_def)
  have h2: "heap_inv E I R ?D Q2 h2" "blocks ?D Q2 h2 = blocks Map.empty Q h - {chunk_block a i c}"
  proof -
    have e: "h2 = h\<lparr>list_mem := ls\<rparr>\<lparr>slab_mem := (slab_mem (h\<lparr>list_mem := ls\<rparr>))(a \<mapsto> sh')\<rparr>" by (simp add: h1_def h2_def)
    have "slab_mem (h\<lparr>list_mem := ls\<rparr>) a = Some sh" using assms(6) by simp
    then show "heap_inv E I R ?D Q2 h2" "blocks ?D Q2 h2 = blocks Map.empty Q h - {chunk_block a i c}"
      using inv_drop_chunk [OF ls(2) cl _ c d(1,2) nq] unfolding e ls(3) by blast+
  qed
  have sm: "slab_mem h2 a = Some sh'" "allocator_initialized h2 = allocator_initialized h" "page_src h2 = page_src h"
    by (simp_all add: h1_def h2_def)
  have app: "\<exists>h' Q'. append_slab (slab_list E k' i) a h2 = Some h' \<and> heap_inv E I R Map.empty Q' h' \<and>
       blocks Map.empty Q' h' = blocks Map.empty Q h - {chunk_block a i c} \<and> allocator_initialized h' = allocator_initialized h"
    if f: "fits k' i sh'" "k' = Free_Slabs \<longrightarrow> length (Q2 k' i) < unat MAX_FREE_SLABS" for k'
  proof -
    have "slab_in h2 i (fits k' i) a" using sm(1) d(1) f(1) by (simp add: slab_in_def)
    then obtain ls' Q' where "append_slab (slab_list E k' i) a h2 = Some (h2\<lparr>list_mem := ls'\<rparr>)"
      "heap_inv E I R (?D(a := None)) Q' (h2\<lparr>list_mem := ls'\<rparr>)" "blocks (?D(a := None)) Q' (h2\<lparr>list_mem := ls'\<rparr>) = blocks ?D Q2 h2"
      using inv_push(2) [OF h2(1) _ _ f(2), of a] by auto
    then show ?thesis using h2(2) sm(2) by (intro exI [of _ "h2\<lparr>list_mem := ls'\<rparr>"] exI [of _ Q']) simp
  qed
  have len: "klib_list_get_length (list_mem h2) (Some (slab_list E Free_Slabs i)) = Some (of_nat (length (Q2 Free_Slabs i)))"
    using get_length_refines [OF links_seq [OF heap_invD(2) [OF h2(1)] assms(2)]] .
  have q2: "Q2 Free_Slabs i = Q Free_Slabs i" using k by (simp add: Q2_def)
  have one: "allocation_count sh' = 0 \<longleftrightarrow> pages_of (slab_bitmap sh) = {c}"
  proof -
    have "allocation_count sh' = 0 \<longleftrightarrow> card (pages_of (slab_bitmap sh')) = 0"
      using d(1) by (metis slab_ok_def unat_eq_zero)
    also have "\<dots> \<longleftrightarrow> pages_of (slab_bitmap sh) - {c} = {}" using finite_pages_of by (simp add: d(2))
    finally show ?thesis using c by blast
  qed
  have lu: "unat (of_nat (length (Q2 Free_Slabs i)) :: u64) = length (Q2 Free_Slabs i)"
    using heap_invD(9) [OF h2(1) assms(2)] by (simp add: MAX_FREE_SLABS_def unat_of_nat_u64)
  consider (empty_drop) "allocation_count sh' = 0" "MAX_FREE_SLABS \<le> of_nat (length (Q2 Free_Slabs i))"
    | (empty_keep) "allocation_count sh' = 0" "\<not> MAX_FREE_SLABS \<le> of_nat (length (Q2 Free_Slabs i))"
    | (was_full) "allocation_count sh' \<noteq> 0" "k = Full_Slabs" | (stays) "allocation_count sh' \<noteq> 0" "k = Partial_Slabs"
    using k by (cases k) auto
  then show ?thesis
  proof cases
    case empty_drop
    have e: "pages_of (slab_bitmap sh') = {}" using d(1) empty_drop(1) by (simp add: slab_ok_def)
    have rel: "kfree_chunk E p h = release_slab E a h2" using run un len empty_drop by simp
    have "unat MAX_FREE_SLABS \<le> length (Q Free_Slabs i)" using empty_drop(2) lu q2 by (simp add: word_le_nat_alt)
    then have b: "back \<longleftrightarrow> deallocate_pages E (of_nat a) 1 (page_src h) = None" using one empty_drop(1) by (simp add: back_def)
    show ?thesis
    proof (cases "deallocate_pages E (of_nat a) 1 (page_src h)")
      case None
      then show ?thesis using rel b sm(3) by (simp add: release_slab_def)
    next
      case (Some q)
      then show ?thesis using rel b inv_release_slab [OF h2(1) _ sm(1) e] h2(2) sm(2,3) by auto
    qed
  next
    case empty_keep
    have "kfree_chunk E p h = append_slab (slab_list E Free_Slabs i) a h2" using run un len empty_keep by simp
    moreover have "fits Free_Slabs i sh'" using empty_keep(1) by (simp add: fits_def)
    moreover have "length (Q2 Free_Slabs i) < unat MAX_FREE_SLABS" using empty_keep(2) lu by (simp add: word_le_nat_alt)
    moreover have "\<not> back" using empty_keep(2) lu q2 by (simp add: back_def word_le_nat_alt)
    ultimately show ?thesis using app [of Free_Slabs] by simp
  next
    case was_full
    have "kfree_chunk E p h = append_slab (slab_list E Partial_Slabs i) a h2" using run un was_full by simp
    moreover have "fits Partial_Slabs i sh'"
      using was_full d(3) ok(2) unat_gt_0 [of "allocation_count sh'"] by (simp add: fits_def)
    moreover have "\<not> back" using one was_full(1) by (simp add: back_def)
    ultimately show ?thesis using app [of Partial_Slabs] by simp
  next
    case stays
    have cq: "(a, i) \<in> classes Map.empty Q" using assms(2,3) by (auto simp: classes_def)
    have "fits k i sh'" using stays d(3) ok(2) unat_gt_0 [of "allocation_count sh'"] by (simp add: fits_def Let_def)
    then have "\<forall>k'. a \<in> set (Q k' i) \<longrightarrow> fits k' i sh'"
      using links_apart(2) [OF layout heap_invD(2) [OF assms(1)] assms(2,3) assms(2)] by blast
    then have "heap_inv E I R Map.empty Q h1" "blocks Map.empty Q h1 = blocks Map.empty Q h - {chunk_block a i c}"
      using inv_drop_chunk [OF assms(1) cq assms(6) c d(1,2)] unfolding h1_def by blast+
    moreover have "\<not> back" using one stays(1) by (simp add: back_def)
    ultimately show ?thesis using run stays by (intro disjI2 conjI exI [of _ h1] exI [of _ Q]) (simp_all add: h1_def)
  qed
qed

lemma inv_kfree_large:
  assumes "heap_inv E I R Map.empty Q h" "map_of (large_allocations h) w = Some n"
  shows "kfree_large E w h = None \<and> deallocate_pages E w (ucast n) (page_src h) = None \<or>
    (\<exists>h'. kfree_large E w h = Some h' \<and> heap_inv E I R Map.empty Q h' \<and>
       blocks Map.empty Q h' = blocks Map.empty Q h - {(unat w, unat n * 2 ^ 21)} \<and> allocator_initialized h' = allocator_initialized h)"
proof (cases "deallocate_pages E w (ucast n) (page_src h)")
  case None
  then show ?thesis using assms(2) by (simp add: kfree_large_def map_contains_def)
next
  case (Some p)
  note inv = heap_invD [OF assms(1)]
  obtain m where m: "unat n * 2 ^ 21 \<le> m" "(unat w, m) \<in> R (page_src h)" "unat n < 2 ^ 32" "n \<noteq> 0" using inv(8) [OF assms(2)] by blast
  have r: "I p" "{(b, m) \<in> R (page_src h). b \<noteq> unat w} \<subseteq> R p"
    using dealloc_region [OF inv(1) m(2) _ Some] m(1,3) by (simp_all add: unat_ucast_down)
  define h' where "h' = h\<lparr>page_src := p, large_allocations := std_map_erase w (large_allocations h)\<rparr>"
  have mo: "map_of (large_allocations h') = (map_of (large_allocations h))(w := None)" by (simp add: h'_def)
  have si: "slab_in h' j P b = slab_in h j P b" for j P b by (simp add: slab_in_def h'_def)
  have ne: "unat w \<noteq> b" if "b \<in> dom (slab_mem h)" for b using inv(8) [OF assms(2)] that by auto
  have "heap_inv E I R Map.empty Q h'"
    unfolding heap_inv_def
  proof (intro conjI)
    show "\<forall>b \<in> dom (slab_mem h'). (\<exists>j. (b, j) \<in> classes Map.empty Q) \<and> (\<exists>m \<ge> 2 ^ 21. (b, m) \<in> R (page_src h'))"
    proof
      fix b assume "b \<in> dom (slab_mem h')"
      then obtain sb where b: "slab_mem h b = Some sb" by (auto simp: h'_def)
      obtain m where "2 ^ 21 \<le> m" "(b, m) \<in> R (page_src h)" using inv(7) [OF b] by blast
      then show "(\<exists>j. (b, j) \<in> classes Map.empty Q) \<and> (\<exists>m \<ge> 2 ^ 21. (b, m) \<in> R (page_src h'))"
        using inv(6) [OF b] r(2) ne [of b] b by (auto simp: h'_def)
    qed
    show "\<forall>b n. map_of (large_allocations h') b = Some n \<longrightarrow> n \<noteq> 0 \<and> unat n < 2 ^ 32 \<and> unat b \<notin> dom (slab_mem h') \<and>
        (\<exists>m \<ge> unat n * 2 ^ 21. (unat b, m) \<in> R (page_src h'))"
    proof (intro allI impI)
      fix b n assume "map_of (large_allocations h') b = Some n"
      then have b: "map_of (large_allocations h) b = Some n" "b \<noteq> w" unfolding mo by (simp_all split: if_splits)
      obtain m where m: "unat n * 2 ^ 21 \<le> m" "(unat b, m) \<in> R (page_src h)" using inv(8) [OF b(1)] by blast
      have "unat b \<noteq> unat w" using b(2) by (simp add: word_unat_eq_iff)
      then have "(unat b, m) \<in> R p" using r(2) m(2) by auto
      then show "n \<noteq> 0 \<and> unat n < 2 ^ 32 \<and> unat b \<notin> dom (slab_mem h') \<and> (\<exists>m \<ge> unat n * 2 ^ 21. (unat b, m) \<in> R (page_src h'))"
        using inv(8) [OF b(1)] m(1) by (auto simp: h'_def)
    qed
  qed (use inv r(1) si in \<open>simp_all add: h'_def\<close>)
  moreover have "blocks Map.empty Q h' = blocks Map.empty Q h - {(unat w, unat n * 2 ^ 21)}"
  proof -
    have x: "(unat w, unat n * 2 ^ 21) \<notin> slab_blocks h a i" if cl: "(a, i) \<in> classes Map.empty Q" for a i
    proof
      assume y: "(unat w, unat n * 2 ^ 21) \<in> slab_blocks h a i"
      obtain sh where sh: "i < NUM_SLAB_LISTS" "slab_mem h a = Some sh" "slab_ok i sh" by (rule classD [OF assms(1) cl])
      obtain c where c: "(unat w, unat n * 2 ^ 21) = chunk_block a i c" "c \<in> pages_of (slab_bitmap sh)"
        using y sh(2) by (auto simp: slab_blocks_def)
      have "c < num_chunks i" using c(2) sh(3) by (auto simp: slab_ok_def)
      then have "first_offset i + Suc c * chunk_size i \<le> 2 ^ 21"
        using slab_geometry(5) [OF sh(1)] by (metis Suc_leI add_left_mono mult_le_mono1)
      then have "unat n * 2 ^ 21 + first_offset i \<le> 2 ^ 21" using c(1) by (simp add: chunk_block_def)
      moreover have "1 * 2 ^ 21 \<le> unat n * 2 ^ 21" using m(4) unat_gt_0 [of n] by (intro mult_le_mono1) simp
      ultimately show False using slab_geometry(10) [OF sh(1)] by simp
    qed
    have "large_blocks h' = large_blocks h - {(unat w, unat n * 2 ^ 21)}"
      using assms(2) unfolding large_blocks_def mo by (auto dest: word_unat_eq_iff [THEN iffD2] split: if_splits) (metis option.inject)
    moreover have "slab_blocks h' = slab_blocks h" by (intro ext) (simp add: slab_blocks_def h'_def)
    ultimately show ?thesis using x by (auto simp: blocks_def)
  qed
  moreover have "kfree_large E w h = Some h'" using assms(2) Some by (simp add: kfree_large_def map_contains_def h'_def)
  ultimately show ?thesis by (intro disjI2 exI [of _ h']) (simp add: h'_def)
qed

text \<open>The blocks in use can be read off the state.\<close>

lemma live_blocks:
  assumes "heap_inv E I R Map.empty Q h"
  shows "live E h = blocks Map.empty Q h"
proof -
  note inv = heap_invD [OF assms]
  have "slab_blocks h a i \<subseteq> blocks Map.empty Q h"
    if "i < NUM_SLAB_LISTS" "items (list_mem h) a = Some it" "li_list_obj it = Some (slab_list E k i)" for a i it k
  proof (cases "slab_mem h a")
    case None
    then show ?thesis by (simp add: slab_blocks_def)
  next
    case (Some sh)
    then obtain j k' where j: "j < NUM_SLAB_LISTS" "a \<in> set (Q k' j)" using inv(6) [OF Some] by (auto simp: classes_def)
    then have "slab_list E k i = slab_list E k' j"
      using klist_member [OF links_seq [OF inv(2) j(1)] j(2)] that by auto
    then have "(a, i) \<in> classes Map.empty Q" using slab_list_inj [OF layout that(1) j(1)] j by (auto simp: classes_def)
    then show ?thesis by (auto simp: blocks_def)
  qed
  moreover have "\<exists>k it. items (list_mem h) a = Some it \<and> li_list_obj it = Some (slab_list E k i) \<and> i < NUM_SLAB_LISTS"
    if cl: "(a, i) \<in> classes Map.empty Q" for a i
  proof -
    obtain k where "i < NUM_SLAB_LISTS" "a \<in> set (Q k i)" using cl by (auto simp: classes_def)
    then show ?thesis using klist_member [OF links_seq [OF inv(2)]] by blast
  qed
  ultimately show ?thesis unfolding live_def by (fastforce simp: blocks_def)
qed

subsection \<open>What kmalloc and kfree promise\<close>

lemma heap_okD:
  assumes "heap_ok E I R h"
  obtains Q where "heap_inv E I R Map.empty Q h" "live E h = blocks Map.empty Q h" "allocator_initialized h"
  using assms live_blocks by (auto simp: heap_ok_def)

lemma heap_okI: "heap_inv E I R Map.empty Q h \<Longrightarrow> allocator_initialized h \<Longrightarrow> heap_ok E I R h"
  by (auto simp: heap_ok_def)

lemma live_apart:
  assumes "heap_ok E I R h" "x \<in> live E h" "y \<in> live E h" "x \<noteq> y"
  shows "blocks_apart x y"
  using assms blocks_disjoint by (metis heap_okD)

lemma kmalloc_spec:
  assumes "heap_ok E I R h" "unat n \<le> 2 ^ 52"
  shows "kmalloc E n h = None \<and> allocate_pages E (pages_wanted (unat n)) (page_src h) = None \<or>
    (\<exists>addr h'. kmalloc E n h = Some (addr, h') \<and> heap_ok E I R h' \<and> addr \<noteq> 0 \<and> block_align (unat n) dvd unat addr \<and>
       (unat addr, block_size (unat n)) \<notin> live E h \<and> live E h' = insert (unat addr, block_size (unat n)) (live E h))"
proof -
  obtain Q where Q: "heap_inv E I R Map.empty Q h" "live E h = blocks Map.empty Q h" "allocator_initialized h"
    by (rule heap_okD [OF assms(1)])
  let ?i = "find_slab_idx n CHUNK_SIZES 0"
  have k: "kmalloc E n h = kmalloc_main E n h" using Q(3) by (simp add: kmalloc_def)
  show ?thesis
  proof (cases "unat n \<le> 262144")
    case True
    then have i: "?i < NUM_SLAB_LISTS" "chunk_size ?i = block_size (unat n)" using find_slab_idx_value [of n] by simp_all
    have run: "kmalloc E n h = kmalloc_chunk E ?i h" using i(1) by (simp add: k kmalloc_main_def)
    have al: "block_align (unat n) = chunk_size ?i" using i(2) True by (simp add: block_align_def block_size_def)
    have "kmalloc_chunk E ?i h = None \<and> allocate_pages E 1 (page_src h) = None \<or>
      (\<exists>addr h' Q'. kmalloc_chunk E ?i h = Some (addr, h') \<and> heap_inv E I R Map.empty Q' h' \<and>
       blocks Map.empty Q' h' = insert (unat addr, chunk_size ?i) (blocks Map.empty Q h) \<and>
       (unat addr, chunk_size ?i) \<notin> blocks Map.empty Q h \<and> addr \<noteq> 0 \<and> chunk_size ?i dvd unat addr \<and>
       allocator_initialized h' = allocator_initialized h)" by (rule inv_kmalloc_chunk [OF Q(1) i(1)])
    then show ?thesis
    proof (elim disjE exE conjE)
      fix addr h' Q' assume z: "kmalloc_chunk E ?i h = Some (addr, h')" "heap_inv E I R Map.empty Q' h'"
        "blocks Map.empty Q' h' = insert (unat addr, chunk_size ?i) (blocks Map.empty Q h)"
        "(unat addr, chunk_size ?i) \<notin> blocks Map.empty Q h" "addr \<noteq> 0" "chunk_size ?i dvd unat addr"
        "allocator_initialized h' = allocator_initialized h"
      then show ?thesis using heap_okI [OF z(2)] live_blocks [OF z(2)] Q(2,3) run i(2) al
        by (intro disjI2 exI [of _ addr] exI [of _ h']) simp
    qed (use True run in \<open>simp add: pages_wanted_def\<close>)
  next
    case False
    then have run: "kmalloc E n h = kmalloc_large E n h" using find_slab_idx_value [of n] by (simp add: k kmalloc_main_def)
    have n0: "n \<noteq> 0" using False by auto
    have bs: "block_size (unat n) = ((unat n - 1) div 2 ^ 21 + 1) * 2 ^ 21" "block_align (unat n) = 2 ^ 21"
      using False by (simp_all add: block_size_def block_align_def)
    have "kmalloc_large E n h = None \<and> allocate_pages E (of_nat ((unat n - 1) div 2 ^ 21 + 1)) (page_src h) = None \<or>
      (\<exists>addr h'. kmalloc_large E n h = Some (addr, h') \<and> heap_inv E I R Map.empty Q h' \<and>
       blocks Map.empty Q h' = insert (unat addr, block_size (unat n)) (blocks Map.empty Q h) \<and>
       (unat addr, block_size (unat n)) \<notin> blocks Map.empty Q h \<and> addr \<noteq> 0 \<and> 2 ^ 21 dvd unat addr \<and>
       allocator_initialized h' = allocator_initialized h)"
      using inv_kmalloc_large [OF Q(1) n0 assms(2)] unfolding bs .
    then show ?thesis
    proof (elim disjE exE conjE)
      fix addr h' assume z: "kmalloc_large E n h = Some (addr, h')" "heap_inv E I R Map.empty Q h'"
        "blocks Map.empty Q h' = insert (unat addr, block_size (unat n)) (blocks Map.empty Q h)"
        "(unat addr, block_size (unat n)) \<notin> blocks Map.empty Q h" "addr \<noteq> 0" "2 ^ 21 dvd unat addr"
        "allocator_initialized h' = allocator_initialized h"
      then show ?thesis using heap_okI [OF z(2)] live_blocks [OF z(2)] Q(2,3) run bs(2)
        by (intro disjI2 exI [of _ addr] exI [of _ h']) simp
    qed (use False run in \<open>simp add: pages_wanted_def\<close>)
  qed
qed

end

end
