(* ===== verification/Kernel_Heap.thy ===== *)
theory Kernel_Heap
  imports Kheap Kernel_Pages
begin

text \<open>
  The contract of the kernel heap: what \<open>kfree\<close> promises, the state that initialisation sets up, and the heap
  on top of the kernel's own page functions, \<open>mem_allocate_pages\<close> and \<open>mem_deallocate_pages\<close> of
  \<open>kernel/mem/misc.cpp\<close>, which implement the \<open>page_source\<close> locale.
\<close>

subsection \<open>Release\<close>

text \<open>
  The pages that a release gives back: those of a large block; the page of a chunk only when no other block
  of the page is in use and the heap keeps \<open>MAX_FREE_SLABS\<close> empty slabs of the size already.
\<close>

definition slab_given_back :: "'p heap_env \<Rightarrow> 'p heap_state \<Rightarrow> nat \<times> nat \<Rightarrow> bool" where
  "slab_given_back E h x \<longleftrightarrow> (\<forall>y \<in> live E h. y \<noteq> x \<longrightarrow> fst y div 2 ^ 21 \<noteq> fst x div 2 ^ 21) \<and>
     (\<exists>i n. i < NUM_SLAB_LISTS \<and> snd x = chunk_size i \<and>
        klib_list_get_length (list_mem h) (Some (slab_list E Free_Slabs i)) = Some n \<and> MAX_FREE_SLABS \<le> n)"

definition pages_given_back :: "'p heap_env \<Rightarrow> 'p heap_state \<Rightarrow> nat \<times> nat \<Rightarrow> (u64 \<times> u32) option" where
  "pages_given_back E h x =
     (if 2 ^ 21 \<le> snd x then Some (of_nat (fst x), of_nat (snd x div 2 ^ 21))
      else if slab_given_back E h x then Some (of_nat (fst x div 2 ^ 21 * 2 ^ 21), 1) else None)"

lemma chunk_size_small: "i < NUM_SLAB_LISTS \<Longrightarrow> chunk_size i < 2 ^ 21"
  by (drule slab_idx_cases) (auto simp: slab_sizes slab_consts)

lemma chunk_size_inj: "i < NUM_SLAB_LISTS \<Longrightarrow> j < NUM_SLAB_LISTS \<Longrightarrow> chunk_size i = chunk_size j \<Longrightarrow> i = j"
  by (drule slab_idx_cases, drule slab_idx_cases) (auto simp: slab_sizes slab_consts)

context slab_heap
begin

lemma chunk_page:
  assumes "i < NUM_SLAB_LISTS" "c < num_chunks i" "2 ^ 21 dvd a"
  shows "fst (chunk_block a i c) div 2 ^ 21 * 2 ^ 21 = a"
proof -
  note g = slab_geometry [OF assms(1)]
  have "first_offset i + Suc c * chunk_size i \<le> 2 ^ 21"
    using g(5) assms(2) by (metis Suc_leI add_left_mono mult_le_mono1)
  then have "first_offset i + c * chunk_size i < 2 ^ 21" using g(1) by simp
  moreover obtain q where "a = 2 ^ 21 * q" using assms(3) by blast
  moreover have "(2 ^ 21 * q + z) div 2 ^ 21 * 2 ^ 21 = 2 ^ 21 * q" if "z < (2 ^ 21 :: nat)" for z q using that by simp
  ultimately show ?thesis by (simp only: chunk_block_def fst_conv add.assoc)
qed

text \<open>A chunk is alone in its page when it is the only one of its slab.\<close>

lemma chunk_alone:
  assumes "heap_inv E I R Map.empty Q h" "(a, i) \<in> classes Map.empty Q" "slab_mem h a = Some sh" "c \<in> pages_of (slab_bitmap sh)"
  defines "x \<equiv> chunk_block a i c"
  shows "(\<forall>y \<in> blocks Map.empty Q h. y \<noteq> x \<longrightarrow> fst y div 2 ^ 21 \<noteq> fst x div 2 ^ 21) \<longleftrightarrow> pages_of (slab_bitmap sh) = {c}"
proof -
  have cl: "j < NUM_SLAB_LISTS \<and> d < num_chunks j \<and> 2 ^ 21 dvd b \<and> fst (chunk_block b j d) div 2 ^ 21 * 2 ^ 21 = b"
    if bj: "(b, j) \<in> classes Map.empty Q" "slab_mem h b = Some t" "d \<in> pages_of (slab_bitmap t)" for b j t d
  proof -
    obtain t0 where "j < NUM_SLAB_LISTS" "slab_mem h b = Some t0" "slab_ok j t0" by (rule classD [OF assms(1) bj(1)])
    then show ?thesis using bj(2,3) chunk_page slab_region(2) [OF assms(1) bj(2)] by (auto simp: slab_ok_def)
  qed
  note x = cl [OF assms(2-4), folded x_def]
  show ?thesis
  proof (intro iffI ballI impI equalityI subsetI)
    fix d assume al: "\<forall>y \<in> blocks Map.empty Q h. y \<noteq> x \<longrightarrow> fst y div 2 ^ 21 \<noteq> fst x div 2 ^ 21" and d: "d \<in> pages_of (slab_bitmap sh)"
    have "chunk_block a i d \<in> blocks Map.empty Q h" using d assms(2,3) by (force simp: blocks_def slab_blocks_def)
    moreover have "fst (chunk_block a i d) div 2 ^ 21 = fst x div 2 ^ 21"
      using cl [OF assms(2,3) d] x by (metis mult_cancel2 power_not_zero zero_neq_numeral)
    ultimately have "chunk_block a i d = x" using al by blast
    then show "d \<in> {c}" using slab_geometry(1) [of i] x by (simp add: x_def chunk_block_def)
  next
    fix y assume one: "pages_of (slab_bitmap sh) = {c}" and y: "y \<in> blocks Map.empty Q h" "y \<noteq> x"
    obtain b m where b: "(b, m) \<in> R (page_src h)"
      "(\<exists>j t d. (b, j) \<in> classes Map.empty Q \<and> slab_mem h b = Some t \<and> y = chunk_block b j d \<and> d \<in> pages_of (slab_bitmap t)) \<or>
       (slab_mem h b = None \<and> (\<exists>w n. b = unat w \<and> y = (unat w, unat n * 2 ^ 21) \<and> map_of (large_allocations h) w = Some n))"
      by (rule block_home [OF assms(1) y(1)])
    have "fst y div 2 ^ 21 * 2 ^ 21 = b"
      using b(2) cl region [OF heap_invD(1) [OF assms(1)] b(1)] by (auto simp: dvd_div_mult_self)
    moreover have "b \<noteq> a"
    proof
      assume "b = a"
      then obtain j d where "(a, j) \<in> classes Map.empty Q" "y = chunk_block a j d" "d \<in> pages_of (slab_bitmap sh)" using b(2) assms(3) by auto
      then show False using class_unique [OF assms(1,2)] one y(2) by (simp add: x_def)
    qed
    ultimately show "fst y div 2 ^ 21 \<noteq> fst x div 2 ^ 21" using x by metis
  qed (use assms(4) in simp)
qed

lemma chunk_given_back:
  assumes "heap_inv E I R Map.empty Q h" "(a, i) \<in> classes Map.empty Q" "slab_mem h a = Some sh" "c \<in> pages_of (slab_bitmap sh)"
    and "live E h = blocks Map.empty Q h"
  shows "pages_given_back E h (chunk_block a i c) =
    (if pages_of (slab_bitmap sh) = {c} \<and> unat MAX_FREE_SLABS \<le> length (Q Free_Slabs i) then Some (of_nat a, 1) else None)"
proof -
  obtain sh0 where i: "i < NUM_SLAB_LISTS" "slab_mem h a = Some sh0" "slab_ok i sh0" by (rule classD [OF assms(1,2)])
  then have lt: "c < num_chunks i" using assms(3,4) by (auto simp: slab_ok_def)
  have len: "klib_list_get_length (list_mem h) (Some (slab_list E Free_Slabs i)) = Some (of_nat (length (Q Free_Slabs i)))"
    using get_length_refines [OF links_seq [OF heap_invD(2) [OF assms(1)] i(1)]] .
  have "unat (of_nat (length (Q Free_Slabs i)) :: u64) = length (Q Free_Slabs i)"
    using heap_invD(9) [OF assms(1) i(1)] by (simp add: MAX_FREE_SLABS_def unat_of_nat_u64)
  then have "MAX_FREE_SLABS \<le> of_nat (length (Q Free_Slabs i)) \<longleftrightarrow> unat MAX_FREE_SLABS \<le> length (Q Free_Slabs i)"
    by (simp add: word_le_nat_alt)
  moreover have "(\<exists>j n. j < NUM_SLAB_LISTS \<and> snd (chunk_block a i c) = chunk_size j \<and>
      klib_list_get_length (list_mem h) (Some (slab_list E Free_Slabs j)) = Some n \<and> MAX_FREE_SLABS \<le> n) \<longleftrightarrow>
      MAX_FREE_SLABS \<le> of_nat (length (Q Free_Slabs i))" (is "?L \<longleftrightarrow> ?R")
  proof
    assume ?L
    then obtain j n where j: "j < NUM_SLAB_LISTS" "chunk_size i = chunk_size j" "MAX_FREE_SLABS \<le> n"
      "klib_list_get_length (list_mem h) (Some (slab_list E Free_Slabs j)) = Some n" by (auto simp: chunk_block_def)
    then show ?R using chunk_size_inj [OF i(1) j(1,2)] len by simp
  qed (use len i(1) in \<open>auto simp: chunk_block_def\<close>)
  ultimately have "slab_given_back E h (chunk_block a i c) \<longleftrightarrow>
      pages_of (slab_bitmap sh) = {c} \<and> unat MAX_FREE_SLABS \<le> length (Q Free_Slabs i)"
    unfolding slab_given_back_def assms(5) chunk_alone [OF assms(1-4)] by simp
  moreover have "\<not> 2 ^ 21 \<le> snd (chunk_block a i c)" using chunk_size_small [OF i(1)] by (simp add: chunk_block_def)
  ultimately show ?thesis
    unfolding pages_given_back_def chunk_page [OF i(1) lt slab_region(2) [OF assms(1,3)]] by simp
qed

lemma chunk_pointer:
  assumes "i < NUM_SLAB_LISTS" "c < num_chunks i" "2 ^ 21 dvd a"
    and "fst (chunk_block a i c) \<le> unat p" "unat p < fst (chunk_block a i c) + snd (chunk_block a i c)"
  defines "off \<equiv> unat p - a"
  shows "unat p = a + off" "off < 2 ^ 21" "first_offset i \<le> off" "(off - first_offset i) div chunk_size i = c" "p mod MEM_PAGE_SIZE \<noteq> 0"
proof -
  note g = slab_geometry [OF assms(1)]
  have b: "a + first_offset i + c * chunk_size i \<le> unat p" "unat p < a + first_offset i + Suc c * chunk_size i"
    using assms(4,5) by (simp_all add: chunk_block_def)
  have "first_offset i + Suc c * chunk_size i \<le> 2 ^ 21"
    using g(5) assms(2) by (metis Suc_leI add_left_mono mult_le_mono1)
  then show o: "unat p = a + off" "off < 2 ^ 21" "first_offset i \<le> off" using b by (simp_all add: off_def)
  have "c * chunk_size i \<le> off - first_offset i" "off - first_offset i < Suc c * chunk_size i" using b o(1) by simp_all
  then show "(off - first_offset i) div chunk_size i = c" by (intro div_nat_eqI) (simp_all add: mult.commute)
  obtain q where q: "a = 2 ^ 21 * q" using assms(3) by blast
  have "unat (p mod MEM_PAGE_SIZE) = off" using o(1,2) q by (simp add: unat_mod)
  then show "p mod MEM_PAGE_SIZE \<noteq> 0" using o(3) g(10) by (metis leD unsigned_0)
qed

lemma kfree_spec:
  assumes "heap_ok E I R h" "x \<in> live E h" "fst x = unat p \<or> snd x < 2 ^ 21 \<and> fst x \<le> unat p \<and> unat p < fst x + snd x"
  defines "back \<equiv> \<exists>q n. pages_given_back E h x = Some (q, n) \<and> deallocate_pages E q n (page_src h) = None"
  shows "kfree E p h = None \<and> back \<or>
    \<not> back \<and> (\<exists>h'. kfree E p h = Some h' \<and> heap_ok E I R h' \<and> live E h' = live E h - {x})"
proof -
  obtain Q where Q: "heap_inv E I R Map.empty Q h" "live E h = blocks Map.empty Q h" "allocator_initialized h"
    by (rule heap_okD [OF assms(1)])
  have fin: ?thesis if "\<not> back" "kfree E p h = Some h'" "heap_inv E I R Map.empty Q' h'" "blocks Map.empty Q' h' = blocks Map.empty Q h - {x}"
    "allocator_initialized h' = allocator_initialized h" for h' Q'
    using that heap_okI [OF that(3)] live_blocks [OF that(3)] Q(2,3) by simp
  have x: "x \<in> blocks Map.empty Q h" using assms(2) Q(2) by simp
  obtain b m where b: "(b, m) \<in> R (page_src h)" "b \<le> fst x" "fst x + snd x \<le> b + m" "0 < snd x"
    "(\<exists>i sh c. (b, i) \<in> classes Map.empty Q \<and> slab_mem h b = Some sh \<and> x = chunk_block b i c \<and> c \<in> pages_of (slab_bitmap sh)) \<or>
     (slab_mem h b = None \<and> (\<exists>w n. b = unat w \<and> x = (unat w, unat n * 2 ^ 21) \<and> map_of (large_allocations h) w = Some n))"
    by (rule block_home [OF Q(1) x])
  from b(5) show ?thesis
  proof (elim disjE exE conjE)
    fix i sh c assume c: "(b, i) \<in> classes Map.empty Q" "slab_mem h b = Some sh" "x = chunk_block b i c" "c \<in> pages_of (slab_bitmap sh)"
    obtain sh0 where i: "i < NUM_SLAB_LISTS" "slab_mem h b = Some sh0" "slab_ok i sh0" by (rule classD [OF Q(1) c(1)])
    then have lt: "c < num_chunks i" using c(2,4) by (auto simp: slab_ok_def)
    have in_x: "fst x \<le> unat p" "unat p < fst x + snd x" using assms(3) b(4) by auto
    note pt = chunk_pointer [OF i(1) lt slab_region(2) [OF Q(1) c(2)] in_x [unfolded c(3)]]
    obtain k where k: "b \<in> set (Q k i)" using c(1) by (auto simp: classes_def)
    have run: "kfree E p h = kfree_chunk E p h" using Q(3) pt(5) by (simp add: kfree_def)
    have "back \<longleftrightarrow> pages_of (slab_bitmap sh) = {c} \<and> unat MAX_FREE_SLABS \<le> length (Q Free_Slabs i) \<and>
        deallocate_pages E (of_nat b) 1 (page_src h) = None"
      using chunk_given_back [OF Q(1) c(1,2,4) Q(2)] c(3) by (auto simp: back_def split: if_splits)
    then have "kfree E p h = None \<and> back \<or>
      \<not> back \<and> (\<exists>h' Q'. kfree E p h = Some h' \<and> heap_inv E I R Map.empty Q' h' \<and>
       blocks Map.empty Q' h' = blocks Map.empty Q h - {x} \<and> allocator_initialized h' = allocator_initialized h)"
      using inv_kfree_chunk [OF Q(1) i(1) k pt(1,2) c(2) pt(3), unfolded pt(4), OF c(4)] unfolding run c(3) by simp
    then show ?thesis
    proof (elim disjE conjE exE)
      fix h' Q' assume "\<not> back" "kfree E p h = Some h'" "heap_inv E I R Map.empty Q' h'"
        "blocks Map.empty Q' h' = blocks Map.empty Q h - {x}" "allocator_initialized h' = allocator_initialized h"
      then show ?thesis by (rule fin)
    qed simp
  next
    fix w n assume n: "b = unat w" "x = (unat w, unat n * 2 ^ 21)" "map_of (large_allocations h) w = Some n"
    have "n \<noteq> 0" using heap_invD(8) [OF Q(1) n(3)] by blast
    then have "1 * 2 ^ 21 \<le> unat n * 2 ^ 21" using unat_gt_0 [of n] by (intro mult_le_mono1) simp
    then have "unat p = unat w" using assms(3) n(2) by auto
    then have pw: "p = w" by (simp only: word_unat_eq_iff)
    have "2 ^ 21 dvd unat w" using region [OF heap_invD(1) [OF Q(1)] b(1)] n(1) by blast
    then have "p mod MEM_PAGE_SIZE = 0" by (simp add: pw dvd_eq_mod_eq_0 unat_mod flip: unat_eq_zero)
    then have run: "kfree E p h = kfree_large E w h" using Q(3) pw by (simp add: kfree_def)
    have "unat n < 2 ^ 32" using heap_invD(8) [OF Q(1) n(3)] by blast
    then have "of_nat (unat n * 2 ^ 21 div 2 ^ 21) = (ucast n :: u32)" by (simp add: word_unat_eq_iff unat_of_nat unat_ucast_down)
    then have b: "back \<longleftrightarrow> deallocate_pages E w (ucast n) (page_src h) = None"
      using n(2) \<open>1 * 2 ^ 21 \<le> unat n * 2 ^ 21\<close> by (simp add: back_def pages_given_back_def)
    show ?thesis
    proof (cases "back")
      case True
      then show ?thesis using b run n(3) by (simp add: kfree_large_def map_contains_def)
    next
      case False
      then obtain h' where h': "kfree_large E w h = Some h'" "heap_inv E I R Map.empty Q h'"
        "blocks Map.empty Q h' = blocks Map.empty Q h - {x}" "allocator_initialized h' = allocator_initialized h"
        using b inv_kfree_large [OF Q(1) n(3)] unfolding n(2) by auto
      show ?thesis by (rule fin [OF False _ h'(2-4)]) (simp add: run h'(1))
    qed
  qed
qed

lemma kfree_refuses:
  assumes "heap_ok E I R h" "\<forall>x \<in> live E h. \<not> (fst x \<le> unat p \<and> unat p < fst x + snd x)"
    and "p mod MEM_PAGE_SIZE = 0 \<or> slab_mem h (unat (p - p mod MEM_PAGE_SIZE)) \<noteq> None"
  shows "kfree E p h = None"
proof -
  obtain Q where Q: "heap_inv E I R Map.empty Q h" "live E h = blocks Map.empty Q h" "allocator_initialized h"
    by (rule heap_okD [OF assms(1)])
  note inv = heap_invD [OF Q(1)]
  show ?thesis
  proof (cases "p mod MEM_PAGE_SIZE = 0")
    case True
    have "map_of (large_allocations h) p = None"
    proof (rule ccontr)
      assume "map_of (large_allocations h) p \<noteq> None"
      then obtain n where n: "map_of (large_allocations h) p = Some n" by blast
      then have "(unat p, unat n * 2 ^ 21) \<in> live E h" by (auto simp: Q(2) blocks_def large_blocks_def)
      moreover have "0 < unat n" using inv(8) [OF n] unat_gt_0 by blast
      ultimately show False using assms(2) by force
    qed
    then show ?thesis using True Q(3) by (simp add: kfree_def kfree_large_def map_contains_def)
  next
    case False
    define a where "a = unat (p - p mod MEM_PAGE_SIZE)"
    define off where "off = unat (p mod MEM_PAGE_SIZE)"
    obtain sh where sh: "slab_mem h a = Some sh" using assms(3) False by (auto simp: a_def)
    have off: "off < 2 ^ 21" by (simp add: off_def unat_mod)
    have up: "unat p = a + off" by (simp add: a_def off_def unat_sub word_le_nat_alt unat_mod)
    obtain k i where k: "i < NUM_SLAB_LISTS" "a \<in> set (Q k i)" using inv(6) [OF sh] by (auto simp: classes_def)
    have ok: "slab_ok i sh" using inv(4) [OF k] sh by (auto simp: slab_in_def)
    note st = kfree_chunk_start [OF Q(1) k up off sh]
    let ?c = "(off - first_offset i) div chunk_size i"
    have "\<not> (first_offset i \<le> off \<and> ?c \<in> pages_of (slab_bitmap sh))"
    proof
      assume c: "first_offset i \<le> off \<and> ?c \<in> pages_of (slab_bitmap sh)"
      then have "chunk_block a i ?c \<in> live E h"
        using k sh by (force simp: Q(2) blocks_def classes_def slab_blocks_def)
      then have "\<not> (fst (chunk_block a i ?c) \<le> unat p \<and> unat p < fst (chunk_block a i ?c) + snd (chunk_block a i ?c))"
        using assms(2) by blast
      moreover define z where "z = ?c * chunk_size i"
      moreover have "z \<le> off - first_offset i" "off - first_offset i < z + chunk_size i"
        using slab_geometry(1) [OF k(1)] dividend_less_div_times by (simp_all add: z_def div_times_less_eq_dividend add.commute)
      moreover from calculation(1) have "\<not> (a + first_offset i + z \<le> unat p \<and> unat p < a + first_offset i + z + chunk_size i)"
        by (simp only: chunk_block_def fst_conv snd_conv z_def not_False_eq_True)
      ultimately show False using c up by linarith
    qed
    then have fc: "free_chunk p a i h = None" using free_chunk_exact [OF k(1) up off sh ok] by auto
    obtain it where it: "get_item (list_mem h) (Some a) = Some it" "li_list_obj it = Some (slab_list E k i)" using st(2) by blast
    show ?thesis using Q(3) False it fc list_index_of [OF k(1), of k]
      by (cases k) (simp_all add: kfree_def kfree_chunk_def st(1))
  qed
qed

end

subsection \<open>Initialisation\<close>

text \<open>After \<open>n\<close> rounds of the loop the first \<open>n\<close> sizes have one slab each, in the list of free slabs.\<close>

definition empty_slab :: "nat \<Rightarrow> slab_header" where
  "empty_slab i = \<lparr>allocation_count = 0, slab_bitmap = replicate (bitmap_words i) 0\<rparr>"

definition first_seqs :: "(nat \<Rightarrow> addr) \<Rightarrow> slab_seqs" where
  "first_seqs xs k i = (if k = Free_Slabs then [xs i] else [])"

definition init_done ::
  "'p heap_env \<Rightarrow> ('p \<Rightarrow> bool) \<Rightarrow> ('p \<Rightarrow> (nat \<times> nat) set) \<Rightarrow> nat \<Rightarrow> (nat \<Rightarrow> addr) \<Rightarrow> 'p heap_state \<Rightarrow> bool" where
  "init_done E I R n xs h \<longleftrightarrow> I (page_src h) \<and> inj_on xs {..<n} \<and> dom (slab_mem h) = xs ` {..<n} \<and> large_allocations h = [] \<and>
     (\<forall>i < n. slab_mem h (xs i) = Some (empty_slab i) \<and> (\<exists>m \<ge> 2 ^ 21. (xs i, m) \<in> R (page_src h)) \<and>
        (\<forall>k. klist (list_mem h) (slab_list E k i) (first_seqs xs k i)))"

lemma empty_slab_bits [simp]: "pages_of (slab_bitmap (empty_slab i)) = {}"
  by (simp add: empty_slab_def pages_of_def page_bit_def)

context slab_heap
begin

lemma init_round:
  assumes "init_done E I R n xs h" "n < NUM_SLAB_LISTS" "init_slab_lists E n h = Some h'"
  shows "\<exists>xs'. init_done E I R (Suc n) xs' h'"
proof -
  let ?l = "\<lambda>k i. slab_list E k i" and ?e = "\<lparr>l_head = None, l_tail = None\<rparr>"
  let ?ls = "(list_mem h)\<lparr>lists := (lists (list_mem h))(?l Free_Slabs n \<mapsto> ?e, ?l Partial_Slabs n \<mapsto> ?e, ?l Full_Slabs n \<mapsto> ?e)\<rparr>"
  let ?h = "h\<lparr>list_mem := ?ls\<rparr>"
  obtain a h1 ls where a: "allocate_new_slab E n ?h = Some (a, h1)"
    "klib_list_add_tail (list_mem h1) (Some (?l Free_Slabs n)) (Some a) = Some ls" "h' = h1\<lparr>list_mem := ls\<rparr>"
    using assms(3) by (auto simp: init_slab_lists_def klib_list_initialize_def)
  obtain w p where w: "allocate_pages E 1 (page_src h) = Some (w, p)" "a = unat w"
    and h1: "slab_mem h1 = (slab_mem h)(a \<mapsto> empty_slab n)" "page_src h1 = p" "large_allocations h1 = large_allocations h"
      "lists (list_mem h1) = lists ?ls" "\<forall>b. b \<noteq> a \<longrightarrow> items (list_mem h1) b = items (list_mem h) b" "unlinked (list_mem h1) a"
    using a(1) by (auto simp: allocate_new_slab_def klib_list_item_initialize_def bitmap_words_def empty_slab_def unlinked_def Let_def)
  have d: "I (page_src h)" "inj_on xs {..<n}" "dom (slab_mem h) = xs ` {..<n}" "large_allocations h = []"
    "\<forall>i < n. slab_mem h (xs i) = Some (empty_slab i) \<and> (\<exists>m \<ge> 2 ^ 21. (xs i, m) \<in> R (page_src h)) \<and>
        (\<forall>k. klist (list_mem h) (?l k i) (first_seqs xs k i))"
    using assms(1) by (simp_all add: init_done_def)
  have r: "I p" "\<forall>m. (a, m) \<notin> R (page_src h)" "R (page_src h) \<subseteq> R p" "\<exists>m \<ge> 2 ^ 21. (a, m) \<in> R p"
    using alloc_region [OF d(1) _ _ w(1)] w(2) by auto
  have new: "a \<notin> xs ` {..<n}" using d(5) r(2) by (metis imageE lessThan_iff)
  let ?xs = "xs(n := a)"
  have fs: "first_seqs ?xs k i = first_seqs xs k i" if "i \<noteq> n" for k i using that by (simp add: first_seqs_def)
  have old: "klist (list_mem h1) (?l k i) (first_seqs xs k i)" if i: "i < n" for k i
  proof (rule klist_frame)
    show "klist (list_mem h) (?l k i) (first_seqs xs k i)" using d(5) i by blast
    have "?l k i \<noteq> ?l k' n" for k' using slab_list_inj [OF layout, of i n k k'] i assms(2) by auto
    then show "lists (list_mem h1) (?l k i) = lists (list_mem h) (?l k i)" by (simp add: h1(4))
    show "items (list_mem h1) b = items (list_mem h) b" if "b \<in> set (first_seqs xs k i)" for b
    proof -
      have "b = xs i" using that by (simp add: first_seqs_def split: if_splits)
      then have "b \<noteq> a" using new i by auto
      then show ?thesis using h1(5) by blast
    qed
  qed
  have nil: "klist (list_mem h1) (?l k n) []" for k by (cases k) (simp_all add: klist_def h1(4))
  have ls: "klist ls (?l Free_Slabs n) [a]" "others_kept (list_mem h1) ls (?l Free_Slabs n) {a}"
    using add_tail_refines [OF nil [of Free_Slabs] h1(6)] a(2) by auto
  have kept: "klist ls (?l k i) ys" if "klist (list_mem h1) (?l k i) ys" "i < NUM_SLAB_LISTS" "\<not> (k = Free_Slabs \<and> i = n)" for k i ys
  proof (rule klist_frame [OF that(1)])
    show "lists ls (?l k i) = lists (list_mem h1) (?l k i)"
      using ls(2) slab_list_inj [OF layout that(2) assms(2)] that(3) by (auto simp: others_kept_def)
    show "items ls b = items (list_mem h1) b" if "b \<in> set ys" for b
      using ls(2) that klist_unlinked [OF \<open>klist (list_mem h1) (?l k i) ys\<close> h1(6)] by (auto simp: others_kept_def)
  qed
  have "klist (list_mem h') (?l k i) (first_seqs ?xs k i)" if "i < Suc n" for k i
  proof (cases "i = n")
    case True
    then show ?thesis using kept [OF nil assms(2)] ls(1) by (cases "k = Free_Slabs") (simp_all add: a(3) first_seqs_def)
  next
    case False
    then show ?thesis using kept [OF old] that assms(2) fs by (simp add: a(3))
  qed
  moreover have "slab_mem h' (?xs i) = Some (empty_slab i) \<and> (\<exists>m \<ge> 2 ^ 21. (?xs i, m) \<in> R (page_src h'))" if "i < Suc n" for i
  proof (cases "i = n")
    case False
    then have "i < n" "xs i \<noteq> a" using that new by auto
    moreover from this obtain m where "2 ^ 21 \<le> m" "(xs i, m) \<in> R p" using d(5) r(3) by (meson subsetD)
    ultimately show ?thesis using False d(5) h1(1,2) by (auto simp: a(3))
  qed (use r(4) h1 in \<open>simp add: a(3)\<close>)
  moreover have "inj_on ?xs {..<Suc n}" using d(2) new by (auto simp: inj_on_def)
  moreover have "dom (slab_mem h') = ?xs ` {..<Suc n}" using d(3) h1(1) by (auto simp: a(3) less_Suc_eq image_iff)
  ultimately have "init_done E I R (Suc n) ?xs h'" using r(1) d(4) h1(2,3) by (simp add: init_done_def a(3))
  then show ?thesis by blast
qed

lemma init_loop:
  "init_done E I R i xs h \<Longrightarrow> i + n = NUM_SLAB_LISTS \<Longrightarrow> init_lists_loop E i n h = Some h' \<Longrightarrow> \<exists>xs. init_done E I R NUM_SLAB_LISTS xs h'"
proof (induction n arbitrary: i xs h)
  case (Suc n)
  obtain h1 where h1: "init_slab_lists E i h = Some h1" "init_lists_loop E (Suc i) n h1 = Some h'" using Suc.prems(3) by auto
  obtain xs' where "init_done E I R (Suc i) xs' h1" using init_round [OF Suc.prems(1) _ h1(1)] Suc.prems(2) by auto
  then show ?case using Suc.IH [of "Suc i"] Suc.prems(2) h1(2) by simp
qed auto

lemma init_done_inv:
  assumes "init_done E I R NUM_SLAB_LISTS xs h"
  shows "heap_inv E I R Map.empty (first_seqs xs) h" "blocks Map.empty (first_seqs xs) h = {}"
proof -
  have d: "I (page_src h)" "dom (slab_mem h) = xs ` {..<NUM_SLAB_LISTS}" "large_allocations h = []"
    "\<forall>i < NUM_SLAB_LISTS. slab_mem h (xs i) = Some (empty_slab i) \<and> (\<exists>m \<ge> 2 ^ 21. (xs i, m) \<in> R (page_src h)) \<and>
        (\<forall>k. klist (list_mem h) (slab_list E k i) (first_seqs xs k i))"
    using assms by (simp_all add: init_done_def)
  have ok: "slab_ok i (empty_slab i)" "fits Free_Slabs i (empty_slab i)" for i
    by (simp_all add: slab_ok_def fits_def) (simp_all add: empty_slab_def)
  have c: "classes Map.empty (first_seqs xs) = (\<lambda>i. (xs i, i)) ` {..<NUM_SLAB_LISTS}"
    by (auto simp: classes_def first_seqs_def split: if_splits)
  show "heap_inv E I R Map.empty (first_seqs xs) h"
    unfolding heap_inv_def
  proof (intro conjI)
    show "links E (first_seqs xs) (dom Map.empty) (list_mem h)" using d(4) by (simp add: links_def)
    show "\<forall>k i. i < NUM_SLAB_LISTS \<longrightarrow> (\<forall>a \<in> set (first_seqs xs k i). slab_in h i (fits k i) a)"
      using d(4) ok by (simp add: first_seqs_def slab_in_def split: if_splits)
    show "\<forall>a \<in> dom (slab_mem h). (\<exists>i. (a, i) \<in> classes Map.empty (first_seqs xs)) \<and> (\<exists>m \<ge> 2 ^ 21. (a, m) \<in> R (page_src h))"
      using d(2,4) by (auto simp: c image_iff)
    show "\<forall>i < NUM_SLAB_LISTS. length (first_seqs xs Free_Slabs i) \<le> unat MAX_FREE_SLABS"
      by (simp add: first_seqs_def MAX_FREE_SLABS_def)
  qed (use d(1,3) in simp_all)
  have "slab_blocks h (xs i) i = {}" if "i < NUM_SLAB_LISTS" for i using d(4) that by (simp add: slab_blocks_def)
  then show "blocks Map.empty (first_seqs xs) h = {}" by (simp add: blocks_def c large_blocks_def d(3))
qed

lemma init_spec:
  assumes "I (page_src h)" "slab_mem h = Map.empty" "large_allocations h = []" "unat (sizeof_map E) \<le> 262144"
    and "init_allocator_system E h = Some h'"
  shows "heap_ok E I R h' \<and> (\<exists>addr. live E h' = {(addr, block_size (unat (sizeof_map E)))})"
proof -
  let ?n = "sizeof_map E"
  obtain h1 h2 addr where h: "init_lists_loop E 0 NUM_SLAB_LISTS (h\<lparr>allocator_initializing := True\<rparr>) = Some h1"
    "kmalloc_main E ?n (h1\<lparr>allocator_initialized := True, allocator_initializing := False\<rparr>) = Some (addr, h2)"
    "h' = h2\<lparr>large_allocations := []\<rparr>"
    using assms(5) by (auto simp: init_allocator_system_def)
  have "init_done E I R 0 xs (h\<lparr>allocator_initializing := True\<rparr>)" for xs using assms(1-3) by (simp add: init_done_def)
  then obtain xs where "init_done E I R NUM_SLAB_LISTS xs h1" using init_loop [OF _ _ h(1)] by auto
  then have "init_done E I R NUM_SLAB_LISTS xs (h1\<lparr>allocator_initialized := True, allocator_initializing := False\<rparr>)"
    (is "init_done E I R NUM_SLAB_LISTS xs ?h1") by (simp add: init_done_def)
  note i = init_done_inv [OF this]
  have ok: "heap_ok E I R ?h1" "live E ?h1 = {}" using heap_okI [OF i(1)] live_blocks [OF i(1)] i(2) by simp_all
  have k: "kmalloc E ?n ?h1 = Some (addr, h2)" using h(2) by (simp add: kmalloc_def)
  have r: "heap_ok E I R h2" "live E h2 = {(unat addr, block_size (unat ?n))}"
    using kmalloc_spec [OF ok(1), of ?n] assms(4) k ok(2) by auto
  have "large_allocations h2 = []"
  proof (rule ccontr)
    assume "large_allocations h2 \<noteq> []"
    then obtain w n ys where "large_allocations h2 = (w, n) # ys" by (cases "large_allocations h2") auto
    then have "map_of (large_allocations h2) w = Some n" by simp
    moreover from this have "(unat w, unat n * 2 ^ 21) \<in> live E h2" by (auto simp: live_def large_blocks_def)
    moreover obtain Q where "heap_inv E I R Map.empty Q h2" by (rule heap_okD [OF r(1)])
    ultimately have "(unat w, unat n * 2 ^ 21) \<in> live E h2" "n \<noteq> 0" using heap_invD(8) by blast+
    then have "unat n * 2 ^ 21 = block_size (unat ?n)" "0 < unat n" using r(2) unat_gt_0 by auto
    moreover have "block_size (unat ?n) < 1 * 2 ^ 21" using assms(4) by (simp add: block_size_def)
    ultimately show False by (metis less_one mult_less_cancel2 not_less_zero nat_neq_iff)
  qed
  then have "h' = h2" by (simp add: h(3))
  then show ?thesis using r by blast
qed

end

subsection \<open>The kernel's pages\<close>

text \<open>
  The three arrays of lists are laid out in the order of their declaration, with gaps of any size between them.
\<close>

definition kernel_heap_env :: "nat option \<Rightarrow> nat option \<Rightarrow> addr \<Rightarrow> nat \<Rightarrow> nat \<Rightarrow> u64 \<Rightarrow> mem_state heap_env" where
  "kernel_heap_env t cur b g g' sz = \<lparr>free_slabs_list = b, partial_slabs_list = b + 80 + g, full_slabs_list = b + 160 + g + g',
     sizeof_map = sz, allocate_pages = mem_allocate_pages t cur, deallocate_pages = mem_deallocate_pages cur\<rparr>"

definition pages_inv :: "nat \<Rightarrow> nat \<Rightarrow> mem_state \<Rightarrow> bool" where
  "pages_inv a e s \<longleftrightarrow> 0 < a \<and> client_ok Kernel a e (vmm s)"

definition page_regions :: "mem_state \<Rightarrow> (nat \<times> nat) set" where
  "page_regions s = regions (client_ranges Kernel (vmm s))"

lemma map_keeps_vmm: "mem_map_virtual_page cur v p ctx m s = Some s' \<Longrightarrow> vmm s' = vmm s"
  by (auto simp: mem_map_virtual_page_def Let_def split: if_splits)

lemma map_range_keeps_vmm: "map_range_loop k cur v p ctx m s = Some s' \<Longrightarrow> vmm s' = vmm s"
  by (induction k arbitrary: v p s) (auto dest: map_keeps_vmm)

lemma allocate_loop_keeps_vmm: "allocate_pages_loop k cur v s = Some s' \<Longrightarrow> vmm s' = vmm s"
  by (induction k arbitrary: v s) (auto simp: mem_map_range_def dest!: map_range_keeps_vmm map_keeps_vmm)

lemma unmap_keeps_vmm:
  assumes "mem_unmap_virtual_page cur v ctx al s = Some s'"
  shows "vmm s' = vmm s"
proof -
  obtain p t t' where "mem_get_phys_addr cur v ctx (pt s) = Some (p, t)" "mem_x64_unmap_virtual_page cur v ctx t = Some t'"
    using assms by (auto simp: mem_unmap_virtual_page_def)
  then show ?thesis
    using assms by (cases "page_use_counters s ! phys_page_num p > 0") (auto simp: mem_unmap_virtual_page_def Let_def split: if_splits)
qed

lemma deallocate_keeps_vmm:
  assumes "mem_deallocate_pages cur v n s = Some s'"
  shows "vmm s' = vmm s"
proof -
  have "unmap_range_loop k cur v ctx al s = Some s' \<Longrightarrow> vmm s' = vmm s" for k v ctx al s s'
    by (induction k arbitrary: v s) (auto dest: unmap_keeps_vmm)
  then show ?thesis using assms by (auto simp: mem_deallocate_pages_def mem_unmap_range_def)
qed

lemma page_regions_ok:
  assumes "pages_inv a e s" "(b, m) \<in> page_regions s"
  shows "0 < b" "2 ^ 21 dvd b" "b + m \<le> 2 ^ 64" "0 < m"
    and "(b', m') \<in> page_regions s \<Longrightarrow> b = b' \<and> m = m' \<or> b + m \<le> b' \<or> b' + m' \<le> b"
proof -
  have ok: "client_ok Kernel a e (vmm s)" "0 < a" using assms(1) by (simp_all add: pages_inv_def)
  obtain d where d: "vmm_data Kernel (vmm s) = Some d" "vmm_ok a (vp_ranges d) e" "client_ranges Kernel (vmm s) = vp_ranges d"
    using client_ok_data [OF ok(1)] by metis
  have t: "tiles a (vp_ranges d) e" "e \<le> 2 ^ 64" "\<forall>r \<in> set (vp_ranges d). range_ok r" using d(2) by (auto simp: vmm_ok_def)
  obtain r where r: "r \<in> set (vp_ranges d)" "b = unat (rg_start r)" "m = range_bytes r"
    using assms(2) d(3) by (auto simp: page_regions_def regions_def)
  have "range_ok r" using t(3) r(1) by blast
  then show "2 ^ 21 dvd b" "0 < m" unfolding r(2,3) by (auto simp: range_ok_def range_bytes_def intro: dvd_trans [rotated])
  show "0 < b" "b + m \<le> 2 ^ 64" using tiles_disjoint [OF t(1) r(1)] ok(2) t(2) r(2,3) by auto
  assume "(b', m') \<in> page_regions s"
  then obtain q where q: "q \<in> set (vp_ranges d)" "b' = unat (rg_start q)" "m' = range_bytes q"
    using d(3) by (auto simp: page_regions_def regions_def)
  obtain xs ys where x: "vp_ranges d = xs @ r # ys" using r(1) by (meson split_list)
  show "b = b' \<and> m = m' \<or> b + m \<le> b' \<or> b' + m' \<le> b"
  proof (cases "q \<in> set xs \<union> set ys")
    case True
    then show ?thesis using tiles_around [OF t(1) [unfolded x]] r(2,3) q(2,3) by blast
  next
    case False
    then have "q = r" using q(1) x by auto
    then show ?thesis using r q by simp
  qed
qed

lemma kernel_alloc_region:
  assumes "pages_inv a e s" "n \<noteq> 0" "unat n \<le> 2 ^ 31" "mem_allocate_pages t cur n s = Some (addr, s')"
  shows "pages_inv a e s' \<and> (\<forall>m. (unat addr, m) \<notin> page_regions s) \<and> page_regions s \<subseteq> page_regions s' \<and>
    (\<exists>m \<ge> unat n * 2 ^ 21. (unat addr, m) \<in> page_regions s')"
proof -
  have ok: "client_ok Kernel a e (vmm s)" "0 < a" using assms(1) by (simp_all add: pages_inv_def)
  obtain V where V: "mem_allocate_virtual_range t n Kernel (vmm s) = Some (addr, V)" "vmm s' = V"
    using assms(4) by (auto simp: mem_allocate_pages_def dest!: allocate_loop_keeps_vmm)
  define bytes where "bytes = unat (rounded_pages n) * 2 ^ 21"
  have v: "client_ok Kernel a e V" "unat n * 2 ^ 21 \<le> bytes"
    "\<forall>(b, m) \<in> page_regions s. unat addr + bytes \<le> b \<or> b + m \<le> unat addr"
    "page_regions s' = insert (unat addr, bytes) (page_regions s)"
    using vmm_allocate_spec [OF ok(1) assms(2,3) bytes_def, of t] V by (auto simp: page_regions_def split: if_splits)
  have "0 < unat n" using assms(2) unat_gt_0 by blast
  then have "0 < bytes" using v(2) by (metis gr0I le_zero_eq mult_eq_0_iff less_irrefl power_not_zero zero_neq_numeral)
  then have "(unat addr, m) \<notin> page_regions s" for m
    using v(3) page_regions_ok(4) [OF assms(1)] \<open>0 < bytes\<close> by fastforce
  then show ?thesis using v(1,2,4) V(2) ok(2) by (auto simp: pages_inv_def)
qed

interpretation kp: page_source "mem_allocate_pages t cur" "mem_deallocate_pages cur" "pages_inv a e" page_regions for t cur a e
proof
  fix p b m b' m' assume p: "pages_inv a e p" "(b, m) \<in> page_regions p"
  show "0 < b \<and> 2 ^ 21 dvd b \<and> b + m \<le> 2 ^ 64 \<and> 0 < m" using page_regions_ok(1-4) [OF p] by simp
  show "(b', m') \<in> page_regions p \<Longrightarrow> b = b' \<and> m = m' \<or> b + m \<le> b' \<or> b' + m' \<le> b" using page_regions_ok(5) [OF p] .
next
  fix p n addr p' assume "pages_inv a e p" "n \<noteq> 0" "unat n \<le> 2 ^ 31" "mem_allocate_pages t cur n p = Some (addr, p')"
  then show "pages_inv a e p' \<and> (\<forall>m. (unat addr, m) \<notin> page_regions p) \<and> page_regions p \<subseteq> page_regions p' \<and>
    (\<exists>m \<ge> unat n * 2 ^ 21. (unat addr, m) \<in> page_regions p')" by (rule kernel_alloc_region)
next
  fix p addr n p' assume "pages_inv a e p" "mem_deallocate_pages cur addr n p = Some p'"
  then show "pages_inv a e p' \<and> {(b, m) \<in> page_regions p. b \<noteq> unat addr} \<subseteq> page_regions p'"
    using deallocate_keeps_vmm by (auto simp: pages_inv_def page_regions_def)
qed

lemma kernel_layout: "layout_ok (kernel_heap_env t cur b g g' sz)"
  by (auto simp: layout_ok_def slab_base_def kernel_heap_env_def SIZEOF_PTR_LIST_def NUM_SLAB_LISTS_def CHUNK_SIZES_def split: slab_kind.splits)

interpretation kh: slab_heap "kernel_heap_env t cur b g g' sz" "pages_inv a e" page_regions for t cur b g g' sz a e
  unfolding slab_heap_def slab_heap_axioms_def
  using kp.page_source_axioms kernel_layout by (simp add: kernel_heap_env_def)

subsection \<open>The heap on the kernel's pages\<close>

text \<open>
  C3. Allocation of kernel memory. From a heap in order, \<open>kmalloc\<close> of up to 2^52 bytes returns a block that is not null, is large enough, is
  aligned to its size (to a page when it is larger than a page), and overlaps no block in use. Exactly this
  block becomes in use, and the heap is in order again. It panics only when no pages can be had from \<open>mem_allocate_pages\<close>.
\<close>

theorem kmalloc_correct:
  assumes "heap_ok E (pages_inv a e) page_regions h" and "E = kernel_heap_env t cur b g g' sz" and "unat n \<le> 2 ^ 52"
  shows "case kmalloc E n h of
      None \<Rightarrow> mem_allocate_pages t cur (pages_wanted (unat n)) (page_src h) = None
    | Some (addr, h') \<Rightarrow> heap_ok E (pages_inv a e) page_regions h' \<and> addr \<noteq> 0 \<and> unat n \<le> block_size (unat n) \<and>
        block_align (unat n) dvd unat addr \<and> live E h' = insert (unat addr, block_size (unat n)) (live E h) \<and>
        (\<forall>x \<in> live E h. blocks_apart (unat addr, block_size (unat n)) x)"
proof -
  have al: "allocate_pages E = mem_allocate_pages t cur" by (simp add: assms(2) kernel_heap_env_def)
  note k = kh.kmalloc_spec [OF assms(1) [unfolded assms(2)] assms(3), folded assms(2), unfolded al]
  show ?thesis
  proof (cases "kmalloc E n h")
    case (Some r)
    obtain addr h' where r: "r = (addr, h')" by (cases r)
    then have h': "heap_ok E (pages_inv a e) page_regions h'" "(unat addr, block_size (unat n)) \<notin> live E h" "addr \<noteq> 0"
      "block_align (unat n) dvd unat addr" "live E h' = insert (unat addr, block_size (unat n)) (live E h)" using k Some by auto
    have "blocks_apart (unat addr, block_size (unat n)) x" if "x \<in> live E h" for x
      using kh.live_apart [OF h'(1) [unfolded assms(2)], folded assms(2)] h'(2,5) that by (metis insertI1 insertI2)
    then show ?thesis using Some r h' block_size_enough by simp
  qed (use k in simp)
qed

text \<open>
  C4. Release of kernel memory. \<open>kfree\<close> of the address of a block in use releases exactly that block and
  leaves the heap in order; so does \<open>kfree\<close> of any address inside a chunk, since the code does not check that it is the start. It panics exactly when
  pages have to be given back and \<open>mem_deallocate_pages\<close> panics on them: the pages of a large block, or the one page of a chunk, which is given back
  only when no other block in it is in use and the heap keeps \<open>MAX_FREE_SLABS\<close> empty slabs of the size already.
\<close>

theorem kfree_correct:
  assumes "heap_ok E (pages_inv a e) page_regions h" and "E = kernel_heap_env t cur b g g' sz" and "x \<in> live E h"
    and "fst x = unat p \<or> snd x < 2 ^ 21 \<and> fst x \<le> unat p \<and> unat p < fst x + snd x"
  shows "(kfree E p h = None \<longleftrightarrow>
      (\<exists>q n. pages_given_back E h x = Some (q, n) \<and> mem_deallocate_pages cur q n (page_src h) = None)) \<and>
    (case kfree E p h of None \<Rightarrow> True
     | Some h' \<Rightarrow> heap_ok E (pages_inv a e) page_regions h' \<and> live E h' = live E h - {x})"
proof -
  have al: "deallocate_pages E = mem_deallocate_pages cur" by (simp add: assms(2) kernel_heap_env_def)
  note k = kh.kfree_spec [OF assms(1) [unfolded assms(2)] assms(3) [unfolded assms(2)] assms(4), folded assms(2), unfolded al]
  then show ?thesis by (elim disjE conjE exE) simp_all
qed

text \<open>
  Invalid release. \<open>kfree\<close> panics on an address that lies in no block in use when it is a page boundary or lies in a slab:
  freed chunks, the header of a slab, and large blocks that were freed before.
\<close>

theorem kfree_panics:
  assumes "heap_ok E (pages_inv a e) page_regions h" and "E = kernel_heap_env t cur b g g' sz"
    and "\<forall>x \<in> live E h. \<not> (fst x \<le> unat p \<and> unat p < fst x + snd x)"
    and "p mod MEM_PAGE_SIZE = 0 \<or> slab_mem h (unat (p - p mod MEM_PAGE_SIZE)) \<noteq> None"
  shows "kfree E p h = None"
  using kh.kfree_refuses [OF assms(1) [unfolded assms(2)], folded assms(2), OF assms(3,4)] .

text \<open>
  The layout of a slab. For each size of chunk, the chunks a slab hands out lie behind its header and its
  bitmap and inside its 2 MB page, are aligned to their size, do not overlap, and have a bit of the bitmap each.
\<close>

theorem slab_layout:
  assumes "i < NUM_SLAB_LISTS" and "c < num_chunks i"
  shows "unat FIRST_BITMAP_ENTRY_OFFSET + 8 * bitmap_words i \<le> fst (chunk_block 0 i c) \<and>
    fst (chunk_block 0 i c) + snd (chunk_block 0 i c) \<le> unat MEM_PAGE_SIZE \<and>
    snd (chunk_block 0 i c) dvd fst (chunk_block 0 i c) \<and> c < 64 * bitmap_words i \<and>
    (\<forall>d. d \<noteq> c \<longrightarrow> blocks_apart (chunk_block 0 i c) (chunk_block 0 i d))"
proof -
  note g = slab_geometry [OF assms(1)]
  have "first_offset i + Suc c * chunk_size i \<le> 2 ^ 21"
    using g(5) assms(2) by (metis Suc_leI add_left_mono mult_le_mono1)
  then have "fst (chunk_block 0 i c) + snd (chunk_block 0 i c) \<le> unat MEM_PAGE_SIZE" by (simp add: chunk_block_def)
  moreover have "unat FIRST_BITMAP_ENTRY_OFFSET + 8 * bitmap_words i \<le> fst (chunk_block 0 i c)" using g(4) by (simp add: chunk_block_def)
  moreover have "snd (chunk_block 0 i c) dvd fst (chunk_block 0 i c)" using g(3) by (simp add: chunk_block_def)
  moreover have "c < 64 * bitmap_words i" using g(7) assms(2) by linarith
  moreover have "\<forall>d. d \<noteq> c \<longrightarrow> blocks_apart (chunk_block 0 i c) (chunk_block 0 i d)" by (intro allI impI chunks_apart) simp
  ultimately show ?thesis by (intro conjI)
qed

theorem slab_layout_witness:
  "fst (chunk_block 0 4 6) + snd (chunk_block 0 4 6) \<le> unat MEM_PAGE_SIZE \<and> 6 < 64 * bitmap_words 4"
proof -
  have "4 < NUM_SLAB_LISTS" "6 < num_chunks 4" by (simp_all add: slab_consts num_chunks_def)
  from slab_layout [OF this] show ?thesis by (elim conjE) (intro conjI)
qed

subsection \<open>An example\<close>

definition sample_heap :: "mem_state heap_state" where
  "sample_heap = \<lparr>list_mem = \<lparr>items = Map.empty, lists = \<lambda>l. Some \<lparr>l_head = None, l_tail = None\<rparr>\<rparr>, slab_mem = Map.empty,
     large_allocations = [], allocator_initialized = True, allocator_initializing = False, page_src = sample_kernel\<rparr>"

definition sample_env :: "mem_state heap_env" where
  "sample_env = kernel_heap_env (Some 7) None 1000 0 0 48"

lemma sample_heap_ok:
  "heap_ok sample_env (pages_inv 0xFFFFFFFFC0000000 0xFFFFFFFFC0800000) page_regions sample_heap" "live sample_env sample_heap = {}"
proof -
  have "pages_inv 0xFFFFFFFFC0000000 0xFFFFFFFFC0800000 (page_src sample_heap)"
    using sample_kernel_vmm_ok by (simp add: pages_inv_def sample_heap_def sample_kernel_def)
  then have "heap_inv sample_env (pages_inv 0xFFFFFFFFC0000000 0xFFFFFFFFC0800000) page_regions Map.empty (\<lambda>_ _. []) sample_heap"
    by (simp add: heap_inv_def links_def klist_def sample_heap_def)
  then show "heap_ok sample_env (pages_inv 0xFFFFFFFFC0000000 0xFFFFFFFFC0800000) page_regions sample_heap"
    by (auto simp: heap_ok_def) (simp add: sample_heap_def)
  show "live sample_env sample_heap = {}" by (simp add: live_def large_blocks_def sample_heap_def)
qed

lemma sample_wanted: "mem_allocate_pages (Some 7) None (pages_wanted (unat (100 :: u64))) (page_src sample_heap) \<noteq> None"
  using sample_allocates by (auto simp: pages_wanted_def sample_heap_def)

lemma sample_heap_used:
  "\<exists>addr h'. kmalloc sample_env 100 sample_heap = Some (addr, h') \<and>
     heap_ok sample_env (pages_inv 0xFFFFFFFFC0000000 0xFFFFFFFFC0800000) page_regions h' \<and> live sample_env h' = {(unat addr, 256)}"
proof -
  have "allocate_pages sample_env = mem_allocate_pages (Some 7) None" by (simp add: sample_env_def kernel_heap_env_def)
  then show ?thesis
    using kh.kmalloc_spec [OF sample_heap_ok(1) [unfolded sample_env_def], folded sample_env_def, of 100] sample_wanted sample_heap_ok(2)
    by (auto simp: block_size_def)
qed

theorem kmalloc_correct_witness:
  "\<exists>addr h'. kmalloc sample_env 100 sample_heap = Some (addr, h') \<and> live sample_env h' = {(unat addr, 256)} \<and> 256 dvd unat addr"
proof -
  obtain addr h' where k: "kmalloc sample_env 100 sample_heap = Some (addr, h')" using sample_heap_used by blast
  then show ?thesis
    using kmalloc_correct [OF sample_heap_ok(1) sample_env_def, of 100] sample_heap_ok(2)
    by (simp add: block_size_def block_align_def)
qed

theorem kfree_correct_witness:
  "\<exists>addr h'. kmalloc sample_env 100 sample_heap = Some (addr, h') \<and>
     (kfree sample_env addr h' = None \<longleftrightarrow> (\<exists>q n. pages_given_back sample_env h' (unat addr, 256) = Some (q, n) \<and>
        mem_deallocate_pages None q n (page_src h') = None)) \<and>
     (case kfree sample_env addr h' of None \<Rightarrow> True
      | Some h'' \<Rightarrow> heap_ok sample_env (pages_inv 0xFFFFFFFFC0000000 0xFFFFFFFFC0800000) page_regions h'' \<and> live sample_env h'' = {})"
proof -
  obtain addr :: u64 and h' where h': "heap_ok sample_env (pages_inv 0xFFFFFFFFC0000000 0xFFFFFFFFC0800000) page_regions h'"
    "live sample_env h' = {(unat addr, 256)}" "kmalloc sample_env 100 sample_heap = Some (addr, h')" using sample_heap_used by blast
  have "(unat addr, 256) \<in> live sample_env h'" using h'(2) by simp
  from kfree_correct [OF h'(1) sample_env_def this, of addr, unfolded h'(2) Diff_cancel] show ?thesis
    using h'(3) by (intro exI [of _ addr] exI [of _ h'] conjI) simp_all
qed

theorem kfree_panics_witness: "kfree sample_env 0x200000 sample_heap = None"
  by (rule kfree_panics [OF sample_heap_ok(1) sample_env_def]) (simp_all add: sample_heap_ok(2) MEM_PAGE_SIZE_def)

end
