(* ===== verification/Spinlock.thy ===== *)
theory Spinlock
  imports Cpp_Lib
begin

text \<open>
  The kernel's spinlock, \<open>kernel/klib/synch/kernel_locks.cpp\<close>: the operations on the lock word and the
  interleavings of any number of threads that use them, as a step relation with its invariant.
\<close>

subsection \<open>Spinlock\<close>

text \<open>
  A compare-and-exchange on the lock word gives its new value and the new value of \<open>expected\<close>. The weak
  form may fail spuriously, leaving both alone.
\<close>

definition compare_exchange_strong :: "u64 \<Rightarrow> u64 \<Rightarrow> u64 \<Rightarrow> u64 \<times> u64" where
  "compare_exchange_strong v expected desired = (if v = expected then (desired, expected) else (v, v))"

definition compare_exchange_weak :: "bool \<Rightarrow> u64 \<Rightarrow> u64 \<Rightarrow> u64 \<Rightarrow> u64 \<times> u64" where
  "compare_exchange_weak spurious v expected desired =
     (if spurious then (v, v) else compare_exchange_strong v expected desired)"

definition klib_synch_spinlock_init :: u64 where
  "klib_synch_spinlock_init = 0"

text \<open>One iteration of the loop of \<open>klib_synch_spinlock_lock\<close>, with whether the loop ends.\<close>

definition spinlock_lock_iteration :: "u64 \<Rightarrow> bool \<times> u64" where
  "spinlock_lock_iteration v = (let (v', expected) = compare_exchange_strong v 0 1 in (expected \<noteq> 1, v'))"

definition klib_synch_spinlock_unlock :: "u64 \<Rightarrow> u64" where
  "klib_synch_spinlock_unlock v = 0"

definition klib_synch_spinlock_try_lock :: "bool \<Rightarrow> u64 \<Rightarrow> bool \<times> u64" where
  "klib_synch_spinlock_try_lock spurious v =
     (let (v', expected) = compare_exchange_weak spurious v 0 1 in (expected = 0, v'))"

text \<open>Threads that spin, are inside the critical section, or are elsewhere.\<close>

datatype spin_pc = Away | Spinning | Inside

inductive spin_step :: "u64 \<times> (nat \<Rightarrow> spin_pc) \<Rightarrow> u64 \<times> (nat \<Rightarrow> spin_pc) \<Rightarrow> bool" where
  spin_start: "pc t = Away \<Longrightarrow> spin_step (v, pc) (v, pc(t := Spinning))"
| spin_iterate: "pc t = Spinning \<Longrightarrow> spinlock_lock_iteration v = (done, v') \<Longrightarrow>
     spin_step (v, pc) (v', pc(t := (if done then Inside else Spinning)))"
| spin_try: "pc t = Away \<Longrightarrow> klib_synch_spinlock_try_lock False v = (done, v') \<Longrightarrow>
     spin_step (v, pc) (v', pc(t := (if done then Inside else Away)))"
| spin_unlock: "pc t = Inside \<Longrightarrow> spin_step (v, pc) (klib_synch_spinlock_unlock v, pc(t := Away))"

inductive_cases spin_stepE: "spin_step (v, pc) (v', pc')"

definition insiders :: "(nat \<Rightarrow> spin_pc) \<Rightarrow> nat set" where
  "insiders pc = {t. pc t = Inside}"

lemma insiders_upd: "insiders (pc(t := x)) = (if x = Inside then insert t (insiders pc) else insiders pc - {t})"
  by (auto simp: insiders_def)

definition spin_inv :: "u64 \<times> (nat \<Rightarrow> spin_pc) \<Rightarrow> bool" where
  "spin_inv s = (case s of (v, pc) \<Rightarrow>
     (v = 0 \<and> insiders pc = {}) \<or> (v = 1 \<and> (\<exists>t. insiders pc = {t})))"

lemmas spin_defs = spinlock_lock_iteration_def compare_exchange_strong_def klib_synch_spinlock_try_lock_def
  compare_exchange_weak_def klib_synch_spinlock_unlock_def klib_synch_spinlock_init_def

lemma spinlock_lock_iteration_cases: "spinlock_lock_iteration v = (v \<noteq> 1, if v = 0 then 1 else v)"
  by (simp add: spin_defs)

lemma try_lock_strong: "klib_synch_spinlock_try_lock False v = (if v = 0 then (True, 1) else (False, v))"
  by (simp add: spin_defs)

lemma spin_inv_step:
  assumes "spin_step s s'" and "spin_inv s" shows "spin_inv s'"
  using assms(1)
proof cases
  case (spin_start pc t v)
  then have "insiders (pc(t := Spinning)) = insiders pc" by (auto simp: insiders_def)
  then show ?thesis using assms(2) spin_start by (simp add: spin_inv_def)
next
  case (spin_iterate pc t v d v')
  then have "t \<notin> insiders pc" by (simp add: insiders_def)
  have s': "d = (v \<noteq> 1)" "v' = (if v = 0 then 1 else v)"
    using spin_iterate by (simp_all add: spinlock_lock_iteration_cases)
  consider "v = 0" "insiders pc = {}" | w where "v = 1" "insiders pc = {w}"
    using assms(2) spin_iterate(1) by (auto simp: spin_inv_def)
  then show ?thesis using \<open>t \<notin> insiders pc\<close> spin_iterate(2) s'
    by cases (simp_all add: spin_inv_def insiders_upd)
next
  case (spin_try pc t v d v')
  then have "t \<notin> insiders pc" by (simp add: insiders_def)
  then show ?thesis
    using assms(2) spin_try by (auto simp: spin_inv_def try_lock_strong insiders_upd split: if_splits)
next
  case (spin_unlock pc t v)
  then have "t \<in> insiders pc" by (simp add: insiders_def)
  then show ?thesis
    using assms(2) spin_unlock by (auto simp: spin_inv_def klib_synch_spinlock_unlock_def insiders_upd)
qed

interpretation spin: transition_system spin_step spin_inv
  by unfold_locales (rule spin_inv_step)

text \<open>
  C40. Mutual exclusion of the spinlock: from an initialised lock no interleaving of threads that lock,
  try to lock and unlock leads to two threads inside the critical section, provided the weak
  compare-and-exchange of the try does not fail spuriously.
\<close>

theorem spinlock_mutual_exclusion:
  assumes "spin_step\<^sup>*\<^sup>* (klib_synch_spinlock_init, \<lambda>_. Away) (v, pc)" and "pc t = Inside" and "pc u = Inside"
  shows "t = u"
proof -
  have "spin_inv (klib_synch_spinlock_init, \<lambda>_. Away)" by (simp add: spin_inv_def klib_synch_spinlock_init_def insiders_def)
  from spin.run_keeps [OF assms(1) this] obtain w where "insiders pc = {w} \<or> insiders pc = {}"
    by (auto simp: spin_inv_def)
  moreover have "{t, u} \<subseteq> insiders pc" using assms(2,3) by (simp add: insiders_def)
  ultimately show ?thesis by auto
qed

theorem spinlock_mutual_exclusion_witness:
  "spin_step\<^sup>*\<^sup>* (klib_synch_spinlock_init, \<lambda>_. Away) (1, (\<lambda>_. Away)(0 := Inside)) \<and>
   {u :: nat. ((\<lambda>_. Away)(0 := Inside)) u = Inside} = {0}"
proof -
  have "spin_step (klib_synch_spinlock_init, \<lambda>_. Away) (1, (\<lambda>_. Away)(0 := (if True then Inside else Away)))"
    by (rule spin_try) (simp_all add: klib_synch_spinlock_try_lock_def compare_exchange_weak_def
        compare_exchange_strong_def klib_synch_spinlock_init_def)
  then have r: "spin_step\<^sup>*\<^sup>* (klib_synch_spinlock_init, \<lambda>_. Away) (1, (\<lambda>_. Away)(0 := Inside))" by simp
  have "{u :: nat. ((\<lambda>_. Away)(0 := Inside)) u = Inside} \<subseteq> {0}"
    by (intro subsetI CollectI singletonI; drule CollectD; drule spinlock_mutual_exclusion [OF r, of _ 0]; simp)
  moreover have "{0} \<subseteq> {u :: nat. ((\<lambda>_. Away)(0 := Inside)) u = Inside}" by simp
  ultimately show ?thesis using r by (intro conjI equalityI)
qed

text \<open>
  \<open>try_lock\<close> takes success from the value of \<open>expected\<close> instead of the result of the weak
  compare-and-exchange: when that fails spuriously on a free lock, the function reports success and
  the lock is not taken.
\<close>

theorem try_lock_spurious:
  "klib_synch_spinlock_try_lock True 0 = (True, 0) \<and>
   (\<forall>v. klib_synch_spinlock_try_lock False v = (if v = 0 then (True, 1) else (False, v)))"
  by (auto simp: klib_synch_spinlock_try_lock_def compare_exchange_weak_def compare_exchange_strong_def)

end
