(* ===== verification/Task_Sched.thy ===== *)
theory Task_Sched
  imports Spinlock
begin

text \<open>
  Threads and the scheduler: \<open>start_thread\<close> and \<open>stop_thread\<close> of \<open>kernel/processor/task_thread.cpp\<close>, and of
  \<open>kernel/processor/task_manager.cpp\<close> the cycle of threads with its insertion and removal, the
  selection of the next thread on a processor and the two switches around it. Threads are addresses into a
  store; the cycle is linked by \<open>next_thread\<close> there. The definitions are those of a run without
  interruption; \<open>Sched_Steps\<close> has the interleavings of the single accesses to memory.
\<close>

subsection \<open>Threads\<close>

text \<open>The fields of \<open>task_thread\<close> that the scheduler and the synchronisation objects use.\<close>

record task_thread =
  next_thread :: "nat option"
  cycle_lock :: u64
  permit_running :: bool
  thread_destroyed :: bool
  wake_thread_after :: u64
  synch_item_in_list :: bool

definition start_thread :: "task_thread \<Rightarrow> bool \<times> task_thread" where
  "start_thread th = (if \<not> thread_destroyed th then (True, th\<lparr>permit_running := True\<rparr>) else (False, th))"

definition stop_thread :: "task_thread \<Rightarrow> bool \<times> task_thread" where
  "stop_thread th = (if permit_running th then (True, th\<lparr>permit_running := False\<rparr>) else (True, th))"

subsection \<open>The task manager's state\<close>

record task_mgr =
  threads :: "nat \<Rightarrow> task_thread"
  current_threads :: "nat option list"
  continue_this_thread :: "bool list"
  idle_threads :: "nat option list"
  start_of_thread_cycle :: "nat option"

definition next_of :: "task_mgr \<Rightarrow> nat \<Rightarrow> nat option" where
  "next_of s t = next_thread (threads s t)"

definition upd_thread :: "nat \<Rightarrow> (task_thread \<Rightarrow> task_thread) \<Rightarrow> task_mgr \<Rightarrow> task_mgr" where
  "upd_thread t f s = s\<lparr>threads := (threads s)(t := f (threads s t))\<rparr>"

definition set_next :: "nat \<Rightarrow> nat option \<Rightarrow> task_mgr \<Rightarrow> task_mgr" where
  "set_next t n = upd_thread t (\<lambda>th. th\<lparr>next_thread := n\<rparr>)"

definition unlock_thread :: "nat \<Rightarrow> task_mgr \<Rightarrow> task_mgr" where
  "unlock_thread t = upd_thread t (\<lambda>th. th\<lparr>cycle_lock := klib_synch_spinlock_unlock (cycle_lock th)\<rparr>)"

subsection \<open>The thread cycle\<close>

definition task_thread_cycle_add :: "nat \<Rightarrow> task_mgr \<Rightarrow> task_mgr" where
  "task_thread_cycle_add new_thread s =
     (case start_of_thread_cycle s of
        None \<Rightarrow> set_next new_thread (Some new_thread) (s\<lparr>start_of_thread_cycle := Some new_thread\<rparr>)
      | Some st \<Rightarrow> set_next st (Some new_thread) (set_next new_thread (next_of s st) s))"

text \<open>The search for the predecessor, which panics when it comes back to the start without finding it.\<close>

partial_function (option) cycle_search :: "task_mgr \<Rightarrow> nat \<Rightarrow> nat \<Rightarrow> nat option" where
  "cycle_search s thread search_thread =
     (case next_of s search_thread of
        None \<Rightarrow> None
      | Some n \<Rightarrow>
          if n = thread then Some search_thread
          else if start_of_thread_cycle s = Some n \<and> next_of s n \<noteq> Some thread then None
          else cycle_search s thread n)"

definition task_thread_cycle_remove :: "nat \<Rightarrow> task_mgr \<Rightarrow> task_mgr option" where
  "task_thread_cycle_remove thread s =
     (if next_of s thread = Some thread then Some (s\<lparr>start_of_thread_cycle := None\<rparr>)
      else do {
        let s1 = (if start_of_thread_cycle s = Some thread
                  then s\<lparr>start_of_thread_cycle := next_of s thread\<rparr> else s);
        st \<leftarrow> start_of_thread_cycle s1;
        search_thread \<leftarrow> cycle_search s1 thread st;
        n \<leftarrow> next_of s1 search_thread;
        Some (set_next search_thread (next_of s1 n) s1)
      })"

subsection \<open>The scheduler\<close>

definition wake_if_due :: "u64 \<Rightarrow> task_thread \<Rightarrow> task_thread" where
  "wake_if_due now th =
     (if \<not> permit_running th \<and> wake_thread_after th \<noteq> 0 \<and> wake_thread_after th < now
      then th\<lparr>wake_thread_after := 0, permit_running := True\<rparr> else th)"

text \<open>What the loop does with one candidate, and whether it takes it.\<close>

definition consider_thread :: "u64 \<Rightarrow> nat \<Rightarrow> task_mgr \<Rightarrow> bool \<times> task_mgr" where
  "consider_thread now t s =
     (let s1 = upd_thread t (wake_if_due now) s in
      if permit_running (threads s1 t) \<and> cycle_lock (threads s1 t) \<noteq> 1 then
        (let (locked, v) = klib_synch_spinlock_try_lock False (cycle_lock (threads s1 t));
             s2 = upd_thread t (\<lambda>th. th\<lparr>cycle_lock := v\<rparr>) s1 in
         if locked then
           (if permit_running (threads s2 t) then (True, s2) else (False, unlock_thread t s2))
         else (False, s2))
      else (False, s1))"

partial_function (option) sched_loop :: "u64 \<Rightarrow> nat \<Rightarrow> nat \<Rightarrow> task_mgr \<Rightarrow> (bool \<times> nat \<times> task_mgr) option" where
  "sched_loop now start next_thr s =
     (case consider_thread now next_thr s of
        (found_thread, s1) \<Rightarrow>
          if found_thread then Some (True, next_thr, s1)
          else (case next_of s1 next_thr of
                  None \<Rightarrow> None
                | Some n \<Rightarrow> if n = start then Some (False, n, s1) else sched_loop now start n s1))"

definition first_candidate :: "nat \<Rightarrow> task_mgr \<Rightarrow> nat option" where
  "first_candidate proc_id s =
     (if current_threads s ! proc_id = idle_threads s ! proc_id then start_of_thread_cycle s
      else case current_threads s ! proc_id of
             None \<Rightarrow> start_of_thread_cycle s
           | Some c \<Rightarrow> next_of s c)"

definition task_get_next_thread :: "nat \<Rightarrow> u64 \<Rightarrow> task_mgr \<Rightarrow> (nat option \<times> task_mgr) option" where
  "task_get_next_thread proc_id now s =
     (let cur = current_threads s ! proc_id in
      if continue_this_thread s ! proc_id then do { ASSERT (cur \<noteq> None); Some (cur, s) }
      else do {
        start \<leftarrow> first_candidate proc_id s;
        (found_thread, n, s1) \<leftarrow> sched_loop now start start s;
        let (r, s2) =
          (if found_thread then
             (Some n, case cur of None \<Rightarrow> s1 | Some c \<Rightarrow> if n \<noteq> c then unlock_thread c s1 else s1)
           else case cur of
                  None \<Rightarrow> (idle_threads s1 ! proc_id, s1)
                | Some c \<Rightarrow> if permit_running (threads s1 c) then (cur, s1)
                            else (idle_threads s1 ! proc_id, unlock_thread c s1));
        Some (r, s2\<lparr>current_threads := (current_threads s2)[proc_id := r]\<rparr>)
      })"

definition task_continue_this_thread :: "nat \<Rightarrow> task_mgr \<Rightarrow> task_mgr" where
  "task_continue_this_thread proc_id s =
     s\<lparr>continue_this_thread := (continue_this_thread s)[proc_id := True]\<rparr>"

definition task_resume_scheduling :: "nat \<Rightarrow> task_mgr \<Rightarrow> task_mgr" where
  "task_resume_scheduling proc_id s =
     s\<lparr>continue_this_thread := (continue_this_thread s)[proc_id := False]\<rparr>"

text \<open>
  \<open>time_sleep_process\<close> of \<open>kernel/processor/timing/timing.cpp\<close> up to its call of \<open>task_yield\<close>. The wake-up
  time is not checked for wrap-around.
\<close>

definition time_sleep_process :: "u64 \<Rightarrow> u64 \<Rightarrow> task_thread \<Rightarrow> task_thread" where
  "time_sleep_process cur_time wait_in_ns th = th\<lparr>wake_thread_after := cur_time + wait_in_ns, permit_running := False\<rparr>"

text \<open>
  The part of \<open>task_thread::destroy_thread\<close> that unschedules the thread, run by the thread \<open>cur\<close>. Another
  thread is stopped and waited for (the spin on its lock ends when it is free) before it is unlinked; a
  thread that ends itself is unlinked, then stopped, and keeps running until it yields.
\<close>

definition destroy_thread_unschedule :: "nat \<Rightarrow> nat \<Rightarrow> task_mgr \<Rightarrow> task_mgr option" where
  "destroy_thread_unschedule cur t s =
     (let s0 = upd_thread t (\<lambda>th. th\<lparr>thread_destroyed := True\<rparr>) s in
      if cur \<noteq> t then
        (let s1 = upd_thread t (\<lambda>th. snd (stop_thread th)) s0 in
         case spinlock_lock_iteration (cycle_lock (threads s1 t)) of
           (done, v) \<Rightarrow>
             if done then task_thread_cycle_remove t (upd_thread t (\<lambda>th. th\<lparr>cycle_lock := v\<rparr>) s1) else None)
      else do {
        s1 \<leftarrow> task_thread_cycle_remove t s0;
        Some (upd_thread t (\<lambda>th. snd (stop_thread th)) s1)
      })"

text \<open>The part of the constructor of \<open>task_thread\<close> that makes the thread known to the scheduler.\<close>

definition new_thread_schedule :: "nat \<Rightarrow> task_mgr \<Rightarrow> task_mgr" where
  "new_thread_schedule t s =
     task_thread_cycle_add t
       (upd_thread t (\<lambda>th. th\<lparr>permit_running := False, thread_destroyed := False, wake_thread_after := 0,
          synch_item_in_list := False, cycle_lock := klib_synch_spinlock_init\<rparr>) s)"

subsection \<open>The cycle as a list\<close>

text \<open>Consecutive threads of the list are linked; the cycle is the list that comes back to its first thread.\<close>

fun chain :: "task_mgr \<Rightarrow> nat list \<Rightarrow> bool" where
  "chain s (a # b # r) = (next_of s a = Some b \<and> chain s (b # r))"
| "chain s _ = True"

definition cycle_of :: "task_mgr \<Rightarrow> nat list \<Rightarrow> bool" where
  "cycle_of s ts = (distinct ts \<and>
     (case ts of [] \<Rightarrow> start_of_thread_cycle s = None
      | a # r \<Rightarrow> start_of_thread_cycle s = Some a \<and> chain s (a # r @ [a])))"

lemma next_of_upd [simp]:
  "next_of (upd_thread t f s) u = (if u = t then next_thread (f (threads s t)) else next_of s u)"
  "next_of (set_next t n s) u = (if u = t then n else next_of s u)"
  "next_of (unlock_thread t s) u = next_of s u"
  "next_of (s\<lparr>start_of_thread_cycle := v\<rparr>) u = next_of s u"
  "next_of (s\<lparr>current_threads := c\<rparr>) u = next_of s u"
  by (simp_all add: next_of_def upd_thread_def set_next_def unlock_thread_def)

lemma upd_thread_sel [simp]:
  "threads (upd_thread t f s) u = (if u = t then f (threads s t) else threads s u)"
  "current_threads (upd_thread t f s) = current_threads s"
  "continue_this_thread (upd_thread t f s) = continue_this_thread s"
  "idle_threads (upd_thread t f s) = idle_threads s"
  "start_of_thread_cycle (upd_thread t f s) = start_of_thread_cycle s"
  by (simp_all add: upd_thread_def)

lemma set_next_sel [simp]:
  "cycle_lock (threads (set_next t n s) u) = cycle_lock (threads s u)"
  "current_threads (set_next t n s) = current_threads s"
  "continue_this_thread (set_next t n s) = continue_this_thread s"
  "idle_threads (set_next t n s) = idle_threads s"
  "start_of_thread_cycle (set_next t n s) = start_of_thread_cycle s"
  by (simp_all add: set_next_def)

lemma unlock_thread_sel [simp]:
  "cycle_lock (threads (unlock_thread t s) u) = (if u = t then 0 else cycle_lock (threads s u))"
  "current_threads (unlock_thread t s) = current_threads s"
  "continue_this_thread (unlock_thread t s) = continue_this_thread s"
  "idle_threads (unlock_thread t s) = idle_threads s"
  "start_of_thread_cycle (unlock_thread t s) = start_of_thread_cycle s"
  by (simp_all add: unlock_thread_def klib_synch_spinlock_unlock_def)

lemma chain_cong: "(\<And>t. t \<in> set (butlast xs) \<Longrightarrow> next_of s t = next_of s' t) \<Longrightarrow> chain s xs = chain s' xs"
  by (induction s xs rule: chain.induct) auto

lemma chain_append: "chain s (xs @ y # ys) \<longleftrightarrow> chain s (xs @ [y]) \<and> chain s (y # ys)"
  by (induction s xs rule: chain.induct) (auto simp: neq_Nil_conv Cons_eq_append_conv split: list.split)

lemma chain_rotate:
  assumes "cycle_of s (a @ d # b)" shows "chain s (d # b @ a @ [d])"
proof (cases a)
  case Nil
  then show ?thesis using assms by (simp add: cycle_of_def)
next
  case (Cons x a')
  then have "chain s ((x # a') @ d # b @ [x])" using assms by (simp add: cycle_of_def)
  then have "chain s ((x # a') @ [d])" "chain s ((d # b) @ [x])"
    using chain_append [of s "x # a'" d "b @ [x]"] by simp_all
  then have "chain s ((d # b) @ x # (a' @ [d]))" by (subst chain_append) simp
  then show ?thesis using Cons by simp
qed

lemma cycle_search_finds:
  assumes "chain s (x # us @ [t])" and "t \<notin> set (x # us)"
    and "\<And>st. start_of_thread_cycle s = Some st \<Longrightarrow> st \<notin> set us"
  shows "cycle_search s t x = Some (last (x # us))"
  using assms
proof (induction us arbitrary: x)
  case Nil
  then show ?case by (subst cycle_search.simps) simp
next
  case (Cons u us)
  then have "cycle_search s t u = Some (last (u # us))" by auto
  then show ?case using Cons.prems by (subst cycle_search.simps) auto
qed

text \<open>Unlinking the thread between the end of one chain and the start of another.\<close>

lemma chain_unlink:
  assumes "chain s (x # us @ [t])" and "chain s (q # rest)"
    and "distinct (x # us)" and "set (x # us) \<inter> set (butlast (q # rest)) = {}"
  shows "chain (set_next (last (x # us)) (Some q) s) (x # us @ q # rest)"
proof -
  let ?s = "set_next (last (x # us)) (Some q) s"
  have l: "last (x # us) \<in> set (x # us)" by (rule last_in_set) simp
  obtain b l where bl: "x # us = b @ [l]" by (metis rev_exhaust list.distinct(1))
  have st: "chain s ((b @ [l]) @ [t])" using assms(1) bl by (metis append_Cons)
  have "chain ?s (q # rest)" using assms(2,4) l by (subst chain_cong [of _ _ s]) auto
  moreover have "chain ?s (b @ [l])"
    using assms(3) bl st chain_append [of s b l "[t]"] by (subst chain_cong [of _ _ s]) auto
  ultimately have "chain ?s (b @ l # q # rest)" using bl by (subst chain_append) simp
  then show ?thesis using bl by (metis append.assoc append_Cons append_Nil)
qed


lemma next_in_cycle:
  assumes "cycle_of s (a @ t # b)" shows "next_of s t = Some (hd (b @ a @ [t]))"
  using chain_rotate [OF assms] by (cases "b @ a @ [t]") auto

lemma cycle_add_ok:
  assumes "cycle_of s ts" and "u \<notin> set ts"
  shows "cycle_of (task_thread_cycle_add u s) (case ts of [] \<Rightarrow> [u] | a # r \<Rightarrow> a # u # r)"
proof (cases ts)
  case Nil
  then show ?thesis using assms by (simp add: cycle_of_def task_thread_cycle_add_def)
next
  case (Cons a r)
  obtain n r' where r: "r @ [a] = n # r'" by (cases r) auto
  let ?s = "set_next a (Some u) (set_next u (Some n) s)"
  have c: "chain s (a # n # r')" and d: "distinct (a # r)" and st: "start_of_thread_cycle s = Some a"
    using assms(1) Cons r by (simp_all add: cycle_of_def)
  have "set (butlast (n # r')) = set r" using r by (metis butlast_snoc)
  then have "chain ?s (n # r')" using c d assms(2) Cons by (subst chain_cong [of _ _ s]) auto
  then have "chain ?s (a # u # n # r')" using c assms(2) Cons by auto
  then show ?thesis using Cons c d st assms(2) r
    by (simp add: cycle_of_def task_thread_cycle_add_def)
qed

text \<open>The general step of the removal: the rest of the cycle, from the start, ends at the thread to remove.\<close>

lemma cycle_remove_step:
  assumes "chain s (x # us @ [t])" and "chain s (t # vs @ [x])" and "distinct (x # us @ t # vs)"
    and "start_of_thread_cycle s = Some x"
  shows "\<exists>l. cycle_search s t x = Some l \<and> l \<in> set (x # us) \<and> next_of s l = Some t \<and>
           cycle_of (set_next l (next_of s t) s) (x # us @ vs)"
proof -
  let ?l = "last (x # us)"
  have l: "?l \<in> set (x # us)" by (rule last_in_set) simp
  obtain q rest where q: "vs @ [x] = q # rest" by (cases vs) auto
  have n: "next_of s t = Some q" and cq: "chain s (q # rest)" using assms(2) q by simp_all
  have f: "cycle_search s t x = Some ?l" using assms(1,3,4) by (intro cycle_search_finds) auto
  obtain b where "x # us = b @ [?l]" by (metis append_butlast_last_id list.distinct(1))
  then have "x # us @ [t] = b @ ?l # [t]" by (metis append.assoc append_Cons append_Nil)
  then have "chain s (b @ ?l # [t])" using assms(1) by (simp only:)
  then have "chain s (?l # [t])" by (rule chain_append [THEN iffD1, THEN conjunct2])
  then have nl: "next_of s ?l = Some t" by (simp only: chain.simps)
  have "set (butlast (q # rest)) = set vs" using q by (metis butlast_snoc)
  then have "chain (set_next ?l (Some q) s) (x # us @ q # rest)"
    using assms(1,3) cq by (intro chain_unlink) auto
  then have "cycle_of (set_next ?l (next_of s t) s) (x # us @ vs)"
    using assms(3,4) n q [symmetric] by (simp add: cycle_of_def)
  then show ?thesis using f l nl by blast
qed

lemma cycle_remove_ok:
  assumes "cycle_of s ts" and "t \<in> set ts"
  shows "\<exists>s'. task_thread_cycle_remove t s = Some s' \<and> cycle_of s' (remove1 t ts) \<and>
           (\<forall>v. v \<notin> set ts - {t} \<longrightarrow> threads s' v = threads s v) \<and>
           (\<forall>v. cycle_lock (threads s' v) = cycle_lock (threads s v)) \<and>
           current_threads s' = current_threads s \<and> idle_threads s' = idle_threads s \<and>
           continue_this_thread s' = continue_this_thread s"
proof -
  from assms(2) obtain a b where ab: "ts = a @ t # b" by (meson split_list)
  have d: "distinct (a @ t # b)" using assms(1) ab by (simp add: cycle_of_def)
  have n: "next_of s t = Some (hd (b @ a @ [t]))" using next_in_cycle assms(1) ab by blast
  have rem: "remove1 t ts = a @ b" using d ab by (simp add: remove1_append)
  consider "a = []" "b = []" | y b' where "a = []" "b = y # b'" | x us where "a = x # us" by (metis list.exhaust)
  then show ?thesis
  proof cases
    case 1
    then show ?thesis using n rem by (simp add: task_thread_cycle_remove_def cycle_of_def)
  next
    case 2
    let ?s = "s\<lparr>start_of_thread_cycle := Some y\<rparr>"
    have "chain s (t # y # b' @ [t])" using assms(1) ab 2 by (simp add: cycle_of_def)
    then have "chain ?s (y # b' @ [t])" "chain ?s (t # [] @ [y])"
      using chain_cong [of "y # b' @ [t]" ?s s] by simp_all
    then obtain l where l: "cycle_search ?s t y = Some l" "l \<in> set (y # b')" "next_of ?s l = Some t"
      "cycle_of (set_next l (next_of ?s t) ?s) (y # b')"
      using cycle_remove_step [of ?s y b' t "[]"] d 2 by auto
    have st: "start_of_thread_cycle s = Some t" using assms(1) ab 2 by (simp add: cycle_of_def)
    have "task_thread_cycle_remove t s = Some (set_next l (next_of ?s t) ?s)"
      using l n st d 2 by (simp add: task_thread_cycle_remove_def)
    then show ?thesis using l rem 2 ab d by (auto simp: set_next_def)
  next
    case 3
    have c: "chain s (x # us @ [t])" "chain s (t # b @ [x])" and st: "start_of_thread_cycle s = Some x"
      using assms(1) ab 3 chain_append [of s "x # us" t "b @ [x]"] by (simp_all add: cycle_of_def)
    then obtain l where l: "cycle_search s t x = Some l" "l \<in> set (x # us)" "next_of s l = Some t"
      "cycle_of (set_next l (next_of s t) s) (x # us @ b)"
      using cycle_remove_step [of s x us t b] d 3 by auto
    have "hd (b @ a @ [t]) \<noteq> t" using d 3 by (cases b) auto
    then have "task_thread_cycle_remove t s = Some (set_next l (next_of s t) s)"
      using l n st d 3 by (simp add: task_thread_cycle_remove_def)
    then show ?thesis using l rem 3 ab d by (auto simp: set_next_def)
  qed
qed

text \<open>
  The cycle of threads: a new thread is linked in right after the start of the cycle, and removing a
  thread of the cycle terminates without a panic and takes out exactly that thread, wherever it is and
  whether or not the start points at it, leaving every thread outside the cycle and every lock alone.
\<close>

theorem thread_cycle_correct:
  assumes "cycle_of s ts"
  shows "(u \<notin> set ts \<longrightarrow>
            cycle_of (task_thread_cycle_add u s) (case ts of [] \<Rightarrow> [u] | a # r \<Rightarrow> a # u # r)) \<and>
         (t \<in> set ts \<longrightarrow> (\<exists>s'. task_thread_cycle_remove t s = Some s' \<and> cycle_of s' (remove1 t ts) \<and>
            (\<forall>v. v \<notin> set ts - {t} \<longrightarrow> threads s' v = threads s v) \<and>
            (\<forall>v. cycle_lock (threads s' v) = cycle_lock (threads s v))))"
  using cycle_add_ok [OF assms] cycle_remove_ok [OF assms] by blast

definition blank_thread :: task_thread where
  "blank_thread = \<lparr>next_thread = None, cycle_lock = 0, permit_running = False, thread_destroyed = False,
     wake_thread_after = 0, synch_item_in_list = False\<rparr>"

text \<open>One processor without a current thread, no threads in the cycle and the idle thread 100.\<close>

definition sched_example :: task_mgr where
  "sched_example = \<lparr>threads = \<lambda>_. blank_thread, current_threads = [None], continue_this_thread = [False],
     idle_threads = [Some 100], start_of_thread_cycle = None\<rparr>"

theorem thread_cycle_correct_witness:
  "cycle_of (task_thread_cycle_add 2 (task_thread_cycle_add 1 sched_example)) [1, 2] \<and>
   (\<exists>s'. task_thread_cycle_remove 1 (task_thread_cycle_add 2 (task_thread_cycle_add 1 sched_example)) = Some s' \<and>
      cycle_of s' [2])"
proof -
  have "cycle_of sched_example []" by (simp add: cycle_of_def sched_example_def)
  from thread_cycle_correct [OF this, of 1] have c: "cycle_of (task_thread_cycle_add 1 sched_example) [1]" by simp
  from thread_cycle_correct [OF c, of 2]
  have c2: "cycle_of (task_thread_cycle_add 2 (task_thread_cycle_add 1 sched_example)) [1, 2]" by simp
  from thread_cycle_correct [OF c2, of 3 1] c2 show ?thesis by auto
qed

subsection \<open>One run of the scheduler\<close>

definition eligible :: "u64 \<Rightarrow> task_thread \<Rightarrow> bool" where
  "eligible now th = (permit_running (wake_if_due now th) \<and> cycle_lock th = 0)"

definition woken :: "u64 \<Rightarrow> nat set \<Rightarrow> task_mgr \<Rightarrow> task_mgr" where
  "woken now S s = s\<lparr>threads := \<lambda>t. if t \<in> S then wake_if_due now (threads s t) else threads s t\<rparr>"

definition take_thread :: "nat \<Rightarrow> task_mgr \<Rightarrow> task_mgr" where
  "take_thread t = upd_thread t (\<lambda>th. th\<lparr>cycle_lock := 1\<rparr>)"

lemma wake_if_due_sel [simp]:
  "cycle_lock (wake_if_due now th) = cycle_lock th" "next_thread (wake_if_due now th) = next_thread th"
  by (simp_all add: wake_if_due_def)

lemma upd_thread_upd: "upd_thread t f (upd_thread t g s) = upd_thread t (\<lambda>th. f (g th)) s"
  by (simp add: upd_thread_def)

lemma upd_thread_id: "f (threads s t) = threads s t \<Longrightarrow> upd_thread t f s = s"
  by (simp add: upd_thread_def)

lemma consider_thread_eq:
  "consider_thread now t s =
     (if eligible now (threads s t) then (True, take_thread t (woken now {t} s)) else (False, woken now {t} s))"
proof -
  have w: "upd_thread t (wake_if_due now) s = woken now {t} s"
    by (simp add: upd_thread_def woken_def fun_eq_iff)
  have c: "cycle_lock (threads (woken now {t} s) t) = cycle_lock (threads s t)" by (simp add: woken_def)
  have p: "permit_running (threads (woken now {t} s) t) = permit_running (wake_if_due now (threads s t))"
    by (simp add: woken_def)
  have u: "upd_thread t (cycle_lock_update (\<lambda>_. cycle_lock (threads s t))) (woken now {t} s) = woken now {t} s"
    by (rule upd_thread_id) (simp add: c [symmetric])
  show ?thesis
    by (simp add: consider_thread_def w c p u eligible_def try_lock_strong Let_def take_thread_def)
qed

lemma woken_sel [simp]:
  "threads (woken now S s) t = (if t \<in> S then wake_if_due now (threads s t) else threads s t)"
  "next_of (woken now S s) t = next_of s t"
  "current_threads (woken now S s) = current_threads s"
  "continue_this_thread (woken now S s) = continue_this_thread s"
  "idle_threads (woken now S s) = idle_threads s"
  "start_of_thread_cycle (woken now S s) = start_of_thread_cycle s"
  by (simp_all add: woken_def next_of_def)

lemma take_thread_sel [simp]:
  "cycle_lock (threads (take_thread t s) u) = (if u = t then 1 else cycle_lock (threads s u))"
  "next_of (take_thread t s) u = next_of s u"
  "current_threads (take_thread t s) = current_threads s"
  "continue_this_thread (take_thread t s) = continue_this_thread s"
  "idle_threads (take_thread t s) = idle_threads s"
  "start_of_thread_cycle (take_thread t s) = start_of_thread_cycle s"
  by (simp_all add: take_thread_def next_of_def)

lemma woken_woken: "S \<inter> T = {} \<Longrightarrow> woken now S (woken now T s) = woken now (S \<union> T) s"
  by (rule task_mgr.equality) (auto simp: fun_eq_iff)

text \<open>The outcome of the loop over a list of candidates.\<close>

definition scan_result :: "u64 \<Rightarrow> nat \<Rightarrow> nat list \<Rightarrow> task_mgr \<Rightarrow> bool \<times> nat \<times> task_mgr" where
  "scan_result now start us s =
     (case dropWhile (\<lambda>t. \<not> eligible now (threads s t)) us of
        [] \<Rightarrow> (False, start, woken now (set us) s)
      | t # _ \<Rightarrow> (True, t,
          take_thread t (woken now (insert t (set (takeWhile (\<lambda>t. \<not> eligible now (threads s t)) us))) s)))"

lemma scan_result_Cons:
  assumes "\<not> eligible now (threads s u)" and "u \<notin> set us"
  shows "scan_result now start us (woken now {u} s) = scan_result now start (u # us) s"
proof -
  let ?e = "\<lambda>s t. \<not> eligible now (threads s t)"
  have e: "dropWhile (?e (woken now {u} s)) us = dropWhile (?e s) us"
    "takeWhile (?e (woken now {u} s)) us = takeWhile (?e s) us"
    using assms(2) by (auto intro!: dropWhile_cong takeWhile_cong)
  have sub: "set (takeWhile (?e s) us) \<subseteq> set us" by (auto dest: set_takeWhileD)
  have "woken now (insert t (set (takeWhile (?e s) us))) (woken now {u} s) =
        woken now (insert t (insert u (set (takeWhile (?e s) us)))) s"
    if "dropWhile (?e s) us = t # r" for t r
  proof -
    have "t \<in> set us" using that by (metis list.set_intros(1) set_dropWhileD)
    then show ?thesis using assms(2) sub by (subst woken_woken) (auto simp: insert_commute)
  qed
  then show ?thesis
    using assms e unfolding scan_result_def
    by (cases "dropWhile (?e s) us") (simp_all only: list.case dropWhile.simps takeWhile.simps if_True simp_thms
        woken_woken [of "set us" "{u}"] insert_disjoint inf_bot_right list.set Int_insert_right if_False Un_insert_right
        Un_empty_right)
qed

lemma sched_loop_scan:
  assumes "chain s (u # us @ [start])" and "distinct (u # us)" and "start \<notin> set us"
  shows "sched_loop now start u s = Some (scan_result now start (u # us) s)"
  using assms
proof (induction us arbitrary: u s)
  case Nil
  then show ?case
    by (subst sched_loop.simps) (simp add: consider_thread_eq scan_result_def)
next
  case (Cons v us)
  let ?s = "woken now {u} s"
  have "chain ?s (v # us @ [start])" using Cons.prems by (subst chain_cong [of _ _ s]) auto
  then have "sched_loop now start v ?s = Some (scan_result now start (v # us) ?s)"
    using Cons by simp
  then show ?case
    using Cons.prems scan_result_Cons [of now s u "v # us" start]
    by (subst sched_loop.simps) (simp add: consider_thread_eq scan_result_def)
qed

subsection \<open>The invariant of the scheduler\<close>

text \<open>
  The cycle holds the threads; a thread of the cycle is locked exactly while it is the current thread of
  a processor, and of one only. The idle threads, one for each processor, are outside the cycle. A current
  thread outside the cycle that is not idle (one that is ending) still points into the cycle.
\<close>

definition sched_ok :: "nat list \<Rightarrow> task_mgr \<Rightarrow> bool" where
  "sched_ok ts s \<longleftrightarrow> cycle_of s ts \<and> ts \<noteq> [] \<and>
     length (idle_threads s) = length (current_threads s) \<and>
     length (continue_this_thread s) = length (current_threads s) \<and>
     (\<forall>t\<in>set ts. cycle_lock (threads s t) = (if Some t \<in> set (current_threads s) then 1 else 0)) \<and>
     (\<forall>p<length (current_threads s). \<forall>q<length (current_threads s).
        current_threads s ! p = current_threads s ! q \<and> current_threads s ! p \<noteq> None \<longrightarrow> p = q) \<and>
     distinct (idle_threads s) \<and> None \<notin> set (idle_threads s) \<and> (\<forall>t\<in>set ts. Some t \<notin> set (idle_threads s)) \<and>
     (\<forall>p<length (current_threads s). current_threads s ! p \<in> set (idle_threads s) \<longrightarrow>
        current_threads s ! p = idle_threads s ! p) \<and>
     (\<forall>c. Some c \<in> set (current_threads s) \<and> Some c \<notin> set (idle_threads s) \<longrightarrow>
        (\<exists>d\<in>set ts. next_of s c = Some d))"

definition rotate_to :: "nat \<Rightarrow> nat list \<Rightarrow> nat list" where
  "rotate_to d ts = dropWhile (\<lambda>t. t \<noteq> d) ts @ takeWhile (\<lambda>t. t \<noteq> d) ts"

lemma rotate_to_split: "distinct (a @ d # b) \<Longrightarrow> rotate_to d (a @ d # b) = d # b @ a"
  by (auto simp: rotate_to_def dropWhile_append takeWhile_append)

lemma set_rotate_to [simp]: "set (rotate_to d ts) = set ts"
  unfolding rotate_to_def by (metis set_append sup_commute takeWhile_dropWhile_id)

lemma next_of_in_cycle: "cycle_of s ts \<Longrightarrow> t \<in> set ts \<Longrightarrow> \<exists>d\<in>set ts. next_of s t = Some d"
proof -
  assume c: "cycle_of s ts" and "t \<in> set ts"
  then obtain a b where ab: "ts = a @ t # b" by (meson split_list)
  have "hd (b @ a @ [t]) \<in> set (b @ a @ [t])" by (rule hd_in_set) simp
  then show ?thesis using next_in_cycle c ab by auto
qed

lemma sched_loop_cycle:
  assumes "cycle_of s ts" and "d \<in> set ts"
  shows "sched_loop now d d s = Some (scan_result now d (rotate_to d ts) s)"
proof -
  obtain a b where ab: "ts = a @ d # b" using assms(2) by (meson split_list)
  have "distinct (a @ d # b)" using assms(1) ab by (simp add: cycle_of_def)
  moreover have "chain s (d # (b @ a) @ [d])" using chain_rotate assms(1) ab by simp
  ultimately show ?thesis using ab by (auto simp: rotate_to_split intro!: sched_loop_scan)
qed

lemma sched_okD:
  assumes "sched_ok ts s"
  shows "cycle_of s ts" "ts \<noteq> []"
    "length (idle_threads s) = length (current_threads s)"
    "length (continue_this_thread s) = length (current_threads s)"
    "t \<in> set ts \<Longrightarrow> cycle_lock (threads s t) = (if Some t \<in> set (current_threads s) then 1 else 0)"
    "p < length (current_threads s) \<Longrightarrow> q < length (current_threads s) \<Longrightarrow>
       current_threads s ! p = Some c \<Longrightarrow> current_threads s ! q = Some c \<Longrightarrow> p = q"
    "distinct (idle_threads s)" "None \<notin> set (idle_threads s)" "t \<in> set ts \<Longrightarrow> Some t \<notin> set (idle_threads s)"
    "p < length (current_threads s) \<Longrightarrow> current_threads s ! p \<in> set (idle_threads s) \<Longrightarrow>
       current_threads s ! p = idle_threads s ! p"
    "Some c \<in> set (current_threads s) \<Longrightarrow> Some c \<notin> set (idle_threads s) \<Longrightarrow> \<exists>d\<in>set ts. next_of s c = Some d"
  using assms unfolding sched_ok_def by (elim conjE; (assumption | (drule (1) bspec, assumption) | blast | force))+

lemma first_candidate_ok:
  assumes "sched_ok ts s" and "p < length (current_threads s)"
  shows "\<exists>d\<in>set ts. first_candidate p s = Some d"
proof -
  have st: "\<exists>d\<in>set ts. start_of_thread_cycle s = Some d"
    using assms(1) by (cases ts) (auto simp: sched_ok_def cycle_of_def)
  show ?thesis
  proof (cases "current_threads s ! p")
    case None
    then show ?thesis using st by (simp add: first_candidate_def)
  next
    case (Some c)
    have c: "Some c \<in> set (current_threads s)" using Some assms(2) by (metis nth_mem)
    show ?thesis
    proof (cases "Some c = idle_threads s ! p")
      case True
      then show ?thesis using st Some by (simp add: first_candidate_def)
    next
      case False
      then have "Some c \<notin> set (idle_threads s)" using sched_okD(10) [OF assms(1,2)] Some by auto
      then show ?thesis using sched_okD(11) [OF assms(1) c] Some False by (simp add: first_candidate_def)
    qed
  qed
qed

lemma cycle_of_cong:
  "start_of_thread_cycle s' = start_of_thread_cycle s \<Longrightarrow> (\<And>t. next_of s' t = next_of s t) \<Longrightarrow>
   cycle_of s' ts = cycle_of s ts"
  by (auto simp: cycle_of_def split: list.split intro: chain_cong [THEN iffD1])

text \<open>A processor leaves its current thread, unlocking it, and takes a free one or its idle thread.\<close>

lemma sched_switch:
  assumes ok: "sched_ok ts s" and p: "p < length (current_threads s)"
    and r: "(\<exists>t\<in>set ts. r = Some t \<and> cycle_lock (threads s t) = 0) \<or> r = idle_threads s ! p"
    and s': "current_threads s' = (current_threads s)[p := r]" "start_of_thread_cycle s' = start_of_thread_cycle s"
      "idle_threads s' = idle_threads s" "length (continue_this_thread s') = length (continue_this_thread s)"
      "\<And>t. next_of s' t = next_of s t"
    and l: "\<And>u. u \<in> set ts \<Longrightarrow> cycle_lock (threads s' u) =
      (if r = Some u then 1 else if current_threads s ! p = Some u then 0 else cycle_lock (threads s u))"
  shows "sched_ok ts s'"
proof -
  let ?c = "current_threads s" and ?n = "length (current_threads s)"
  note D = sched_okD [OF ok]
  have idle: "idle_threads s ! p \<in> set (idle_threads s)" using p D(3) by simp
  have other: "?c ! q \<noteq> r" if "q < ?n" "q \<noteq> p" for q
  proof
    assume e: "?c ! q = r"
    then have cq: "r \<in> set ?c" using that by auto
    from r show False
    proof
      assume "\<exists>t\<in>set ts. r = Some t \<and> cycle_lock (threads s t) = 0"
      then show False using D(5) cq by fastforce
    next
      assume "r = idle_threads s ! p"
      then have "idle_threads s ! q = idle_threads s ! p" using e idle D(10) [OF that(1)] by simp
      then show False using D(7,3) p that by (simp add: nth_eq_iff_index_eq)
    qed
  qed
  have mem: "Some u \<in> set (?c[p := r]) \<longleftrightarrow> r = Some u \<or> (Some u \<in> set ?c \<and> ?c ! p \<noteq> Some u)" for u
  proof -
    have "Some u \<in> set (?c[p := r]) \<longleftrightarrow> (\<exists>q<?n. (if q = p then r else ?c ! q) = Some u)"
      by (auto simp: in_set_conv_nth nth_list_update)
    also have "\<dots> \<longleftrightarrow> r = Some u \<or> (\<exists>q<?n. q \<noteq> p \<and> ?c ! q = Some u)" using p by auto
    also have "\<dots> \<longleftrightarrow> r = Some u \<or> (Some u \<in> set ?c \<and> ?c ! p \<noteq> Some u)"
      using D(6) p by (auto simp: in_set_conv_nth)
    finally show ?thesis .
  qed
  have "cycle_of s' ts" using D(1) s'(2,5) cycle_of_cong by blast
  moreover have "\<forall>u\<in>set ts. cycle_lock (threads s' u) = (if Some u \<in> set (?c[p := r]) then 1 else 0)"
    using l D(5) mem by auto
  moreover have "\<forall>i<?n. \<forall>j<?n. ?c[p := r] ! i = ?c[p := r] ! j \<and> ?c[p := r] ! i \<noteq> None \<longrightarrow> i = j"
  proof (intro allI impI)
    fix i j assume ij: "i < ?n" "j < ?n" "?c[p := r] ! i = ?c[p := r] ! j \<and> ?c[p := r] ! i \<noteq> None"
    then show "i = j"
      using other [of i] other [of j] D(6) [of i j]
      by (cases "i = p"; cases "j = p") (auto simp: nth_list_update)
  qed
  moreover have "\<forall>i<?n. ?c[p := r] ! i \<in> set (idle_threads s) \<longrightarrow> ?c[p := r] ! i = idle_threads s ! i"
    by (intro allI, case_tac "i = p") (use D(9,10) r p in auto)
  moreover have "\<exists>d\<in>set ts. next_of s' c = Some d"
    if "Some c \<in> set (?c[p := r])" "Some c \<notin> set (idle_threads s)" for c
    using that mem r idle D(11) next_of_in_cycle [OF D(1)] s'(5) by auto
  ultimately show ?thesis using D(2,3,4,7,8,9) s' unfolding sched_ok_def by simp
qed

subsection \<open>Correctness of the scheduler\<close>

text \<open>What the scheduler should choose: the first candidate that can run, else stay, else the idle thread.\<close>

definition sched_choice :: "u64 \<Rightarrow> nat list \<Rightarrow> nat list \<Rightarrow> nat \<Rightarrow> task_mgr \<Rightarrow> nat option" where
  "sched_choice now ts us p s =
     (case dropWhile (\<lambda>t. \<not> eligible now (threads s t)) us of
        t # _ \<Rightarrow> Some t
      | [] \<Rightarrow> (case current_threads s ! p of
                None \<Rightarrow> idle_threads s ! p
              | Some c \<Rightarrow> if permit_running (if c \<in> set ts then wake_if_due now (threads s c) else threads s c)
                          then Some c else idle_threads s ! p))"

lemma dropWhile_Cons_elem: "dropWhile P us = t # r \<Longrightarrow> t \<in> set us \<and> \<not> P t"
  by (metis hd_dropWhile list.discI list.sel(1) list.set_intros(1) set_dropWhileD)

lemma sched_found:
  assumes ok: "sched_ok ts s" and p: "p < length (current_threads s)"
    and t: "t \<in> set ts" "cycle_lock (threads s t) = 0"
  shows "sched_ok ts ((case current_threads s ! p of None \<Rightarrow> take_thread t (woken now S s)
      | Some c \<Rightarrow> if t \<noteq> c then unlock_thread c (take_thread t (woken now S s)) else take_thread t (woken now S s))
    \<lparr>current_threads := (current_threads s)[p := Some t]\<rparr>)"
proof -
  have "current_threads s ! p \<noteq> Some t" using sched_okD(5) [OF ok t(1)] t(2) p nth_mem by fastforce
  then show ?thesis
    by (intro sched_switch [OF ok p, of "Some t"] disjI1 bexI [of _ t])
      (use t in \<open>auto split: option.split\<close>)
qed

lemma sched_idle:
  assumes ok: "sched_ok ts s" and p: "p < length (current_threads s)"
  shows "sched_ok ts ((case current_threads s ! p of None \<Rightarrow> woken now S s | Some c \<Rightarrow> unlock_thread c (woken now S s))
    \<lparr>current_threads := (current_threads s)[p := idle_threads s ! p]\<rparr>)"
proof -
  have "idle_threads s ! p \<in> set (idle_threads s)" using p sched_okD(3) [OF ok] by simp
  then have "idle_threads s ! p \<noteq> Some u" if "u \<in> set ts" for u using sched_okD(9) [OF ok that] by auto
  then show ?thesis
    by (intro sched_switch [OF ok p, of "idle_threads s ! p"]) (auto split: option.split)
qed

lemma sched_ok_cong:
  assumes "current_threads s' = current_threads s" "idle_threads s' = idle_threads s"
    "start_of_thread_cycle s' = start_of_thread_cycle s"
    "length (continue_this_thread s') = length (continue_this_thread s)" "\<And>t. next_of s' t = next_of s t"
    "\<And>t. t \<in> set ts \<Longrightarrow> cycle_lock (threads s' t) = cycle_lock (threads s t)"
  shows "sched_ok ts s' = sched_ok ts s"
proof -
  have c: "cycle_of s' ts = cycle_of s ts" using assms(3,5) by (rule cycle_of_cong)
  show ?thesis unfolding sched_ok_def c assms(1,2,4,5) using assms(6) by (simp only: cong: ball_cong)
qed

lemma sched_ok_woken: "sched_ok ts s \<Longrightarrow> sched_ok ts (woken now S s)"
  by (subst sched_ok_cong [of _ s]) simp_all

lemma get_next_thread_ok:
  assumes ok: "sched_ok ts s" and p: "p < length (current_threads s)" and n: "\<not> continue_this_thread s ! p"
  shows "\<exists>d s'. d \<in> set ts \<and> first_candidate p s = Some d \<and>
           task_get_next_thread p now s = Some (sched_choice now ts (rotate_to d ts) p s, s') \<and> sched_ok ts s' \<and>
           current_threads s' = (current_threads s)[p := sched_choice now ts (rotate_to d ts) p s] \<and>
           continue_this_thread s' = continue_this_thread s"
proof -
  obtain d where d: "d \<in> set ts" "first_candidate p s = Some d" using first_candidate_ok [OF ok p] by blast
  let ?us = "rotate_to d ts" and ?cur = "current_threads s ! p"
  note loop = sched_loop_cycle [OF sched_okD(1) [OF ok] d(1), of now]
  have ?thesis if "dropWhile (\<lambda>t. \<not> eligible now (threads s t)) ?us = t # r" for t r
  proof -
    have t: "t \<in> set ts" "cycle_lock (threads s t) = 0"
      using dropWhile_Cons_elem [OF that] by (auto simp: eligible_def)
    have c: "sched_choice now ts ?us p s = Some t" using that by (simp add: sched_choice_def)
    show ?thesis
      by (rule exI [of _ d], unfold c, insert loop d n that sched_found [OF ok p t, of now
          "insert t (set (takeWhile (\<lambda>t. \<not> eligible now (threads s t)) ?us))"])
        (cases ?cur; simp add: task_get_next_thread_def scan_result_def Let_def split: if_splits)
  qed
  moreover have ?thesis if "dropWhile (\<lambda>t. \<not> eligible now (threads s t)) ?us = []"
  proof -
    have sr: "scan_result now d ?us s = (False, d, woken now (set ts) s)"
      unfolding scan_result_def that by simp
    note ch = sched_choice_def [of now ts ?us p s, unfolded that list.case]
    have same: "(current_threads s)[p := ?cur] = current_threads s" by simp
    have ow: "sched_ok ts ((woken now (set ts) s)\<lparr>current_threads := current_threads s\<rparr>)"
      using sched_ok_woken [OF ok, of now "set ts"] by (simp add: woken_def)
    show ?thesis
      by (rule exI [of _ d], insert loop d n sr sched_idle [OF ok p, of now "set ts"] ow same)
        (cases ?cur; simp add: task_get_next_thread_def ch Let_def)
  qed
  ultimately show ?thesis by (cases "dropWhile (\<lambda>t. \<not> eligible now (threads s t)) ?us") auto
qed

lemma start_stop_sel [simp]:
  "next_thread (snd (start_thread th)) = next_thread th" "cycle_lock (snd (start_thread th)) = cycle_lock th"
  "next_thread (snd (stop_thread th)) = next_thread th" "cycle_lock (snd (stop_thread th)) = cycle_lock th"
  by (simp_all add: start_thread_def stop_thread_def)

text \<open>
  The scheduler on a processor: in a state that satisfies the invariant it terminates without a panic. It
  chooses the first thread after the current one, in the order of the cycle, that is awake or due to wake
  and not locked by a processor; when there is none it stays on the current thread while that may run,
  and otherwise takes the idle thread. The choice becomes the current thread and the invariant is kept.
\<close>

theorem scheduler_correct:
  assumes "sched_ok ts s" and "p < length (current_threads s)" and "\<not> continue_this_thread s ! p"
  shows "\<exists>d s'. d \<in> set ts \<and> first_candidate p s = Some d \<and>
           task_get_next_thread p now s = Some (sched_choice now ts (rotate_to d ts) p s, s') \<and> sched_ok ts s' \<and>
           current_threads s' = (current_threads s)[p := sched_choice now ts (rotate_to d ts) p s]"
  using get_next_thread_ok [OF assms] by blast

text \<open>Three threads, of which the second is awake and the third sleeps until time 50; one processor runs the first.\<close>

definition sched_example3 :: task_mgr where
  "sched_example3 =
     \<lparr>threads = (\<lambda>_. blank_thread)
        (1 := blank_thread\<lparr>next_thread := Some 2, cycle_lock := 1, permit_running := True\<rparr>,
         2 := blank_thread\<lparr>next_thread := Some 3, permit_running := True\<rparr>,
         3 := blank_thread\<lparr>next_thread := Some 1, wake_thread_after := 50\<rparr>),
      current_threads = [Some 1, Some 101], continue_this_thread = [False, False],
      idle_threads = [Some 100, Some 101], start_of_thread_cycle = Some 1\<rparr>"

lemma sched_example3_ok: "sched_ok [1, 2, 3] sched_example3"
proof -
  have two: "(\<forall>p<Suc (Suc 0). P p) \<longleftrightarrow> P 0 \<and> P (Suc 0)" for P by (auto simp: less_Suc_eq)
  show ?thesis
    by (simp add: sched_ok_def sched_example3_def cycle_of_def next_of_def blank_thread_def two)
qed

theorem scheduler_correct_witness:
  "\<exists>s'. task_get_next_thread 0 60 sched_example3 = Some (Some 2, s') \<and> sched_ok [1, 2, 3] s'"
proof -
  have f: "first_candidate 0 sched_example3 = Some 2"
    by (simp add: first_candidate_def sched_example3_def next_of_def)
  have c: "sched_choice 60 [1, 2, 3] (rotate_to 2 [1, 2, 3]) 0 sched_example3 = Some 2"
    by (simp add: sched_choice_def rotate_to_def sched_example3_def eligible_def wake_if_due_def blank_thread_def)
  show ?thesis
    using scheduler_correct [OF sched_example3_ok, of 0 60] f c by (auto simp: sched_example3_def)
qed

subsection \<open>Creation and destruction keep the cycle\<close>

text \<open>
  A new thread joins the cycle after its start; a thread that is destroyed leaves it. The latter keeps the invariant only when the thread is not the
  last one and no thread that has left the cycle, and still runs, points at it; \<open>Sched_Steps\<close> shows what the scheduler does otherwise.
\<close>

lemma sched_ok_relink:
  assumes ok: "sched_ok ts s" and c: "cycle_of s' ts'" "ts' \<noteq> []"
    and e: "current_threads s' = current_threads s" "idle_threads s' = idle_threads s"
      "continue_this_thread s' = continue_this_thread s"
    and l: "\<And>t. t \<in> set ts' \<Longrightarrow> cycle_lock (threads s' t) = (if Some t \<in> set (current_threads s) then 1 else 0)"
    and i: "\<And>t. t \<in> set ts' \<Longrightarrow> Some t \<notin> set (idle_threads s)"
    and n: "\<And>c. Some c \<in> set (current_threads s) \<Longrightarrow> Some c \<notin> set (idle_threads s) \<Longrightarrow>
      c \<notin> set ts' \<Longrightarrow> \<exists>d\<in>set ts'. next_of s' c = Some d"
  shows "sched_ok ts' s'"
proof -
  have "\<exists>d\<in>set ts'. next_of s' c = Some d"
    if "Some c \<in> set (current_threads s)" "Some c \<notin> set (idle_threads s)" for c
    using that n next_of_in_cycle [OF c(1)] by blast
  then show ?thesis using ok c(2) i l unfolding sched_ok_def e by (simp only: c(1) simp_thms) blast
qed

lemma new_thread_schedule_ok:
  assumes ok: "sched_ok ts s" and t: "t \<notin> set ts" "Some t \<notin> set (current_threads s)" "Some t \<notin> set (idle_threads s)"
  shows "\<exists>ts'. sched_ok ts' (new_thread_schedule t s)"
proof -
  let ?f = "\<lambda>th. th\<lparr>permit_running := False, thread_destroyed := False, wake_thread_after := 0,
          synch_item_in_list := False, cycle_lock := klib_synch_spinlock_init\<rparr>"
  let ?s = "upd_thread t ?f s"
  obtain a r where ts: "ts = a # r" using sched_okD(2) [OF ok] by (cases ts) auto
  have c: "cycle_of ?s ts"
    using sched_okD(1) [OF ok] by (subst cycle_of_cong [of _ s]) (simp_all add: next_of_def)
  have a: "start_of_thread_cycle ?s = Some a" using c ts by (simp add: cycle_of_def)
  have "cycle_of (new_thread_schedule t s) (a # t # r)"
    using cycle_add_ok [OF c t(1)] ts by (simp add: new_thread_schedule_def)
  moreover have "threads (new_thread_schedule t s) u = threads s u" if "u \<noteq> t" "u \<noteq> a" for u
    using that a by (simp add: new_thread_schedule_def task_thread_cycle_add_def set_next_def)
  moreover have "cycle_lock (threads (new_thread_schedule t s) u) = (if u = t then 0 else cycle_lock (threads s u))" for u
    using a by (simp add: new_thread_schedule_def task_thread_cycle_add_def klib_synch_spinlock_init_def)
  moreover have "current_threads (new_thread_schedule t s) = current_threads s"
    "idle_threads (new_thread_schedule t s) = idle_threads s"
    "continue_this_thread (new_thread_schedule t s) = continue_this_thread s"
    using a by (simp_all add: new_thread_schedule_def task_thread_cycle_add_def)
  moreover have "\<exists>d\<in>set (a # t # r). next_of s c = Some d"
    if "Some c \<in> set (current_threads s)" "Some c \<notin> set (idle_threads s)" for c
    using sched_okD(11) [OF ok that] ts by auto
  ultimately have "sched_ok (a # t # r) (new_thread_schedule t s)"
    using t sched_okD(5,9) [OF ok] ts by (intro sched_ok_relink [OF ok]) (auto simp: next_of_def)
  then show ?thesis by blast
qed

lemma destroy_unlink_ok:
  assumes ok: "sched_ok ts s" and t: "t \<in> set ts" "next_of s t \<noteq> Some t"
    and c: "\<And>c. Some c \<in> set (current_threads s) \<Longrightarrow> next_of s c = Some t \<Longrightarrow> c \<in> set ts"
    and f: "\<And>th. next_thread (f th) = next_thread th"
    and rem: "task_thread_cycle_remove t (upd_thread t f s) = Some s'"
  shows "sched_ok (remove1 t ts) s' \<and> continue_this_thread s' = continue_this_thread s \<and>
    current_threads s' = current_threads s"
proof -
  let ?s = "upd_thread t f s"
  have nx: "next_of ?s u = next_of s u" for u using f by (simp add: next_of_def)
  have cy: "cycle_of ?s ts" using sched_okD(1) [OF ok] nx by (subst cycle_of_cong [of _ s]) simp_all
  from cycle_remove_ok [OF cy t(1)] rem
  have s': "cycle_of s' (remove1 t ts)" "\<And>v. v \<notin> set ts - {t} \<Longrightarrow> threads s' v = threads ?s v"
    "\<And>v. cycle_lock (threads s' v) = cycle_lock (threads ?s v)" "current_threads s' = current_threads s"
    "idle_threads s' = idle_threads s" "continue_this_thread s' = continue_this_thread s"
    by auto
  have d: "distinct ts" using sched_okD(1) [OF ok] by (simp add: cycle_of_def)
  have sub: "set (remove1 t ts) = set ts - {t}" using d by simp
  obtain e where e: "e \<in> set ts" "next_of s t = Some e" using next_of_in_cycle [OF sched_okD(1) [OF ok] t(1)] by blast
  then have ne: "remove1 t ts \<noteq> []" using t sub by (metis Diff_iff empty_iff list.set(1) singletonD)
  have "\<exists>d\<in>set (remove1 t ts). next_of s' c = Some d"
    if "Some c \<in> set (current_threads s)" "Some c \<notin> set (idle_threads s)" "c \<notin> set (remove1 t ts)" for c
  proof -
    note cc = that
    have "next_of s' c = next_of s c" using s'(2) [of c] cc(3) sub f by (auto simp: next_of_def)
    moreover obtain g where "g \<in> set ts" "next_of s c = Some g" using sched_okD(11) [OF ok cc(1,2)] by blast
    moreover have "next_of s c \<noteq> Some t" using c [OF cc(1)] t(2) cc(3) sub by auto
    ultimately show ?thesis using sub by auto
  qed
  then have "sched_ok (remove1 t ts) s'"
    using s' ne sub sched_okD(5,9) [OF ok] by (intro sched_ok_relink [OF ok]) auto
  then show ?thesis using s' by simp
qed

lemma destroy_thread_ok:
  assumes ok: "sched_ok ts s" and t: "t \<in> set ts" "next_of s t \<noteq> Some t"
    and c: "\<And>c. Some c \<in> set (current_threads s) \<Longrightarrow> next_of s c = Some t \<Longrightarrow> c \<in> set ts"
    and de: "destroy_thread_unschedule cur t s = Some s'"
  shows "sched_ok (remove1 t ts) s' \<and> continue_this_thread s' = continue_this_thread s \<and>
    current_threads s' = current_threads s"
proof (cases "cur = t")
  case False
  let ?g = "\<lambda>v th. snd (stop_thread (th\<lparr>thread_destroyed := True\<rparr>))\<lparr>cycle_lock := v\<rparr>"
  obtain v where "task_thread_cycle_remove t (upd_thread t (?g v) s) = Some s'"
    using de False by (auto simp: destroy_thread_unschedule_def upd_thread_upd Let_def split: prod.splits if_splits)
  then show ?thesis by (intro destroy_unlink_ok [OF ok t, of "?g v"]) (use c in simp_all)
next
  case True
  let ?g = "\<lambda>th. th\<lparr>thread_destroyed := True\<rparr>"
  obtain s1 where s1: "task_thread_cycle_remove t (upd_thread t ?g s) = Some s1"
    and s': "s' = upd_thread t (\<lambda>th. snd (stop_thread th)) s1"
    using de True by (auto simp: destroy_thread_unschedule_def Let_def)
  have "sched_ok (remove1 t ts) s1 \<and> continue_this_thread s1 = continue_this_thread s \<and>
    current_threads s1 = current_threads s"
    using s1 by (intro destroy_unlink_ok [OF ok t, of ?g]) (use c in simp_all)
  moreover have "sched_ok (remove1 t ts) s' = sched_ok (remove1 t ts) s1"
    unfolding s' by (rule sched_ok_cong) (simp_all add: next_of_def)
  ultimately show ?thesis using s' by simp
qed

end
