(* ===== verification/Sched_Steps.thy ===== *)
theory Sched_Steps
  imports Task_Sched
begin

text \<open>
  The scheduler at the level of its accesses to memory. \<open>task_get_next_thread\<close> of \<open>kernel/processor/task_manager.cpp\<close> takes no
  lock, so here every processor runs it one access of shared memory at a time, between any steps of the other
  processors and of the threads that start, stop, create and destroy threads. The atomic run of \<open>Task_Sched\<close>
  is one of the interleavings (\<open>scheduler_run_steps\<close>). The theory shows what holds in all of them: no two
  processors run the same thread.
\<close>

subsection \<open>The accesses\<close>

text \<open>
  Where a processor is in \<open>task_get_next_thread\<close>, with the time of its start and the values of the local variables \<open>start_thread\<close> and
  \<open>next_thread\<close>: outside; at the choice of the first candidate; at the three tests whether a sleeper is due and the two writes that wake it; at the
  two tests before the lock; at the attempt to lock the candidate, the test after it and the release when it may not run any more; at the step to the next candidate; and after the
  loop, with a thread found, without one, giving up the current thread, and storing the result.
\<close>

datatype sched_pc = Outside | Enter u64
  | Sleeping u64 nat nat | Timed u64 nat nat | Due u64 nat nat | Clear_Time u64 nat nat | Permit u64 nat nat
  | Wanted u64 nat nat | Unlocked u64 nat nat | Try u64 nat nat | Recheck u64 nat nat | Release u64 nat nat | Advance u64 nat nat
  | Found nat | Not_Found | Give_Up | Set_Current "nat option"

fun sched_access :: "nat \<Rightarrow> sched_pc \<Rightarrow> task_mgr \<Rightarrow> (sched_pc \<times> task_mgr) option" where
  "sched_access p Outside s = Some (Outside, s)"
| "sched_access p (Enter now) s =
     (if continue_this_thread s ! p then do { ASSERT (current_threads s ! p \<noteq> None); Some (Set_Current (current_threads s ! p), s) }
      else do { start \<leftarrow> first_candidate p s; Some (Sleeping now start start, s) })"
| "sched_access p (Sleeping now st n) s = Some (if \<not> permit_running (threads s n) then Timed now st n else Wanted now st n, s)"
| "sched_access p (Timed now st n) s = Some (if wake_thread_after (threads s n) \<noteq> 0 then Due now st n else Wanted now st n, s)"
| "sched_access p (Due now st n) s = Some (if wake_thread_after (threads s n) < now then Clear_Time now st n else Wanted now st n, s)"
| "sched_access p (Clear_Time now st n) s = Some (Permit now st n, upd_thread n (\<lambda>th. th\<lparr>wake_thread_after := 0\<rparr>) s)"
| "sched_access p (Permit now st n) s = Some (Wanted now st n, upd_thread n (\<lambda>th. th\<lparr>permit_running := True\<rparr>) s)"
| "sched_access p (Wanted now st n) s = Some (if permit_running (threads s n) then Unlocked now st n else Advance now st n, s)"
| "sched_access p (Unlocked now st n) s = Some (if cycle_lock (threads s n) \<noteq> 1 then Try now st n else Advance now st n, s)"
| "sched_access p (Try now st n) s =
     (let (locked, v) = klib_synch_spinlock_try_lock False (cycle_lock (threads s n))
      in Some (if locked then Recheck now st n else Advance now st n, upd_thread n (\<lambda>th. th\<lparr>cycle_lock := v\<rparr>) s))"
| "sched_access p (Recheck now st n) s = Some (if permit_running (threads s n) then Found n else Release now st n, s)"
| "sched_access p (Release now st n) s = Some (Advance now st n, unlock_thread n s)"
| "sched_access p (Advance now st n) s = do { m \<leftarrow> next_of s n; Some (if m = st then Not_Found else Sleeping now st m, s) }"
| "sched_access p (Found n) s =
     Some (Set_Current (Some n), case current_threads s ! p of None \<Rightarrow> s | Some c \<Rightarrow> if n \<noteq> c then unlock_thread c s else s)"
| "sched_access p Not_Found s =
     Some (case current_threads s ! p of
             None \<Rightarrow> Give_Up
           | Some c \<Rightarrow> if permit_running (threads s c) then Set_Current (Some c) else Give_Up, s)"
| "sched_access p Give_Up s =
     Some (Set_Current (idle_threads s ! p), case current_threads s ! p of None \<Rightarrow> s | Some c \<Rightarrow> unlock_thread c s)"
| "sched_access p (Set_Current r) s = Some (Outside, s\<lparr>current_threads := (current_threads s)[p := r]\<rparr>)"

subsection \<open>All interleavings\<close>

record sched_world =
  sd_mgr :: task_mgr
  sd_pc :: "nat \<Rightarrow> sched_pc"

text \<open>
  The scheduler of \<open>p\<close> has locked the thread, or the thread is the current one of \<open>p\<close> and the scheduler has not given it up.
\<close>

fun pc_holds :: "sched_pc \<Rightarrow> nat option \<Rightarrow> nat \<Rightarrow> bool" where
  "pc_holds (Recheck now st n) cur t \<longleftrightarrow> cur = Some t \<or> n = t"
| "pc_holds (Release now st n) cur t \<longleftrightarrow> cur = Some t \<or> n = t"
| "pc_holds (Found n) cur t \<longleftrightarrow> cur = Some t \<or> n = t"
| "pc_holds (Set_Current r) cur t \<longleftrightarrow> r = Some t"
| "pc_holds _ cur t \<longleftrightarrow> cur = Some t"

definition holds_thread :: "sched_world \<Rightarrow> nat \<Rightarrow> nat \<Rightarrow> bool" where
  "holds_thread w p t \<longleftrightarrow> p < length (current_threads (sd_mgr w)) \<and> pc_holds (sd_pc w p) (current_threads (sd_mgr w) ! p) t"

abbreviation on_mgr :: "(task_mgr \<Rightarrow> task_mgr) \<Rightarrow> sched_world \<Rightarrow> sched_world" where
  "on_mgr f w \<equiv> w\<lparr>sd_mgr := f (sd_mgr w)\<rparr>"

text \<open>
  The steps. A processor enters the scheduler and does the next access in it. Threads may change the fields of any thread but its links
  and its lock in any way at any moment: start it, stop it, put it to sleep, mark it as destroyed. The links of the cycle and its start may be set to any thread but an idle one;
  these are the writes of \<open>task_thread_cycle_add\<close> and \<open>task_thread_cycle_remove\<close>, and no order between them is assumed, so a scheduler may meet threads that
  have left the cycle. A thread that destroys another takes its lock. The memory of a new thread is that of no idle thread and of none that a processor
  runs or has locked. The scheduling on a processor may be held and resumed at any moment.
\<close>

inductive sched_step :: "sched_world \<Rightarrow> sched_world \<Rightarrow> bool" where
  sched_enter: "p < length (current_threads (sd_mgr w)) \<Longrightarrow> sd_pc w p = Outside \<Longrightarrow>
    sched_step w (w\<lparr>sd_pc := (sd_pc w)(p := Enter now)\<rparr>)"
| sched_go: "p < length (current_threads (sd_mgr w)) \<Longrightarrow> sched_access p (sd_pc w p) (sd_mgr w) = Some (pc, s) \<Longrightarrow>
    sched_step w \<lparr>sd_mgr = s, sd_pc = (sd_pc w)(p := pc)\<rparr>"
| sched_fields: "(\<And>th. next_thread (f th) = next_thread th) \<Longrightarrow> (\<And>th. cycle_lock (f th) = cycle_lock th) \<Longrightarrow>
    sched_step w (on_mgr (upd_thread t f) w)"
| sched_link: "v \<notin> set (idle_threads (sd_mgr w)) \<Longrightarrow> sched_step w (on_mgr (set_next t v) w)"
| sched_first: "v \<notin> set (idle_threads (sd_mgr w)) \<Longrightarrow> sched_step w (on_mgr (start_of_thread_cycle_update (\<lambda>_. v)) w)"
| sched_lock: "spinlock_lock_iteration (cycle_lock (threads (sd_mgr w) t)) = (True, v) \<Longrightarrow>
    sched_step w (on_mgr (upd_thread t (\<lambda>th. th\<lparr>cycle_lock := v\<rparr>)) w)"
| sched_new: "Some t \<notin> set (idle_threads (sd_mgr w)) \<Longrightarrow> (\<And>p. \<not> holds_thread w p t) \<Longrightarrow>
    next_thread th \<notin> set (idle_threads (sd_mgr w)) \<Longrightarrow> cycle_lock th = klib_synch_spinlock_init \<Longrightarrow>
    sched_step w (on_mgr (upd_thread t (\<lambda>_. th)) w)"
| sched_hold: "sched_step w (on_mgr (task_continue_this_thread p) w)"
| sched_resume: "sched_step w (on_mgr (task_resume_scheduling p) w)"

subsection \<open>The invariant\<close>








text \<open>What an access leaves alone.\<close>

lemma unlock_thread_next [simp]: "next_thread (threads (unlock_thread t s) u) = next_thread (threads s u)"
  by (simp add: unlock_thread_def)






lemma try_lock_zero: "klib_synch_spinlock_try_lock False v = (v = 0, if v = 0 then 1 else v)"
  by (simp add: klib_synch_spinlock_try_lock_def compare_exchange_weak_def compare_exchange_strong_def)








subsection \<open>Exclusion\<close>






subsection \<open>The operations are runs of these steps\<close>

abbreviation sched_runs :: "nat \<Rightarrow> (nat \<Rightarrow> sched_pc) \<Rightarrow> sched_pc \<times> task_mgr \<Rightarrow> sched_pc \<times> task_mgr \<Rightarrow> bool" where
  "sched_runs p f c c' \<equiv> sched_step\<^sup>*\<^sup>* \<lparr>sd_mgr = snd c, sd_pc = f(p := fst c)\<rparr> \<lparr>sd_mgr = snd c', sd_pc = f(p := fst c')\<rparr>"

lemma run_go:
  assumes "sched_runs p f (pc', s') c" "p < length (current_threads s)" "sched_access p pc s = Some (pc', s')"
  shows "sched_runs p f (pc, s) c"
  using sched_go [of p "\<lparr>sd_mgr = s, sd_pc = f(p := pc)\<rparr>" pc' s'] assms by (auto intro: converse_rtranclp_into_rtranclp)

lemma run_refl: "sched_runs p f c c"
  by simp

lemma upd_thread_same: "g (threads s t) = threads s t \<Longrightarrow> upd_thread t g s = s"
  by (cases s) (simp add: upd_thread_def)

lemma wake_run:
  assumes "p < length (current_threads s)"
  shows "sched_runs p f (Sleeping now st n, s) (Wanted now st n, upd_thread n (wake_if_due now) s)"
proof -
  let ?c = "(Wanted now st n, upd_thread n (wake_if_due now) s)"
  have same: "?c = (Wanted now st n, s)" if "\<not> (\<not> permit_running (threads s n) \<and> wake_thread_after (threads s n) \<noteq> 0 \<and> wake_thread_after (threads s n) < now)"
    using that upd_thread_same [of "wake_if_due now" s n] by (auto simp: wake_if_due_def)
  have due: "sched_runs p f (Due now st n, s) ?c" if d: "\<not> permit_running (threads s n)" "wake_thread_after (threads s n) \<noteq> 0"
  proof (cases "wake_thread_after (threads s n) < now")
    case True
    let ?a = "upd_thread n (\<lambda>th. th\<lparr>wake_thread_after := 0\<rparr>) s"
    have e: "upd_thread n (\<lambda>th. th\<lparr>permit_running := True\<rparr>) ?a = upd_thread n (wake_if_due now) s"
      using True d by (simp add: upd_thread_def wake_if_due_def)
    have "sched_runs p f (Permit now st n, ?a) ?c" by (rule run_go [OF run_refl]) (simp_all add: assms e)
    then have "sched_runs p f (Clear_Time now st n, s) ?c" by (rule run_go) (simp_all add: assms)
    then show ?thesis by (rule run_go) (simp_all add: assms True)
  qed (use same in \<open>intro run_go [OF run_refl]; simp add: assms\<close>)
  have timed: "sched_runs p f (Timed now st n, s) ?c" if d: "\<not> permit_running (threads s n)"
  proof (cases "wake_thread_after (threads s n) = 0")
    case False
    from due [OF d False] show ?thesis by (rule run_go) (simp_all add: assms False)
  qed (use same in \<open>intro run_go [OF run_refl]; simp add: assms\<close>)
  show ?thesis
  proof (cases "permit_running (threads s n)")
    case False
    from timed [OF False] show ?thesis by (rule run_go) (simp_all add: assms False)
  qed (use same in \<open>intro run_go [OF run_refl]; simp add: assms\<close>)
qed

lemma consider_run:
  assumes "p < length (current_threads s)" "consider_thread now n s = (found, s')"
  shows "sched_runs p f (Sleeping now st n, s) (if found then Found n else Advance now st n, s')"
proof -
  let ?s = "upd_thread n (wake_if_due now) s"
  let ?t = "upd_thread n (\<lambda>th. th\<lparr>cycle_lock := 1\<rparr>) ?s"
  let ?e = "(if found then Found n else Advance now st n, s')"
  have try_it: "sched_runs p f (Try now st n, ?s) ?e" if w: "permit_running (threads ?s n)" "cycle_lock (threads ?s n) \<noteq> 1"
  proof (cases "cycle_lock (threads ?s n) = 0")
    case True
    then have e: "?e = (Found n, ?t)"
      using assms(2) w by (auto simp: consider_thread_def try_lock_zero Let_def upd_thread_def split: if_splits)
    have "sched_runs p f (Recheck now st n, ?t) ?e" unfolding e by (rule run_go [OF run_refl]) (use assms(1) w in simp_all)
    then show ?thesis by (rule run_go) (use assms(1) True in \<open>simp_all add: try_lock_zero\<close>)
  next
    case False
    then have v: "upd_thread n (\<lambda>th. th\<lparr>cycle_lock := cycle_lock (threads ?s n)\<rparr>) ?s = ?s"
      by (intro upd_thread_same) simp
    then have e: "?e = (Advance now st n, ?s)"
      using assms(2) w False by (auto simp: consider_thread_def try_lock_zero Let_def)
    show ?thesis unfolding e by (rule run_go [OF run_refl]) (use assms(1) False v in \<open>simp_all add: try_lock_zero\<close>)
  qed
  have stop: "?e = (Advance now st n, ?s)" if "\<not> (permit_running (threads ?s n) \<and> cycle_lock (threads ?s n) \<noteq> 1)"
    using assms(2) that by (auto simp: consider_thread_def Let_def)
  have lock: "sched_runs p f (Unlocked now st n, ?s) ?e" if w: "permit_running (threads ?s n)"
  proof (cases "cycle_lock (threads ?s n) = 1")
    case False
    from try_it [OF w False] show ?thesis by (rule run_go) (use assms(1) False in simp_all)
  next
    case True
    then have e: "?e = (Advance now st n, ?s)" by (intro stop) simp
    show ?thesis unfolding e by (rule run_go [OF run_refl]) (use assms(1) True in simp_all)
  qed
  have "sched_runs p f (Wanted now st n, ?s) ?e"
  proof (cases "permit_running (threads ?s n)")
    case True
    from lock [OF True] show ?thesis by (rule run_go) (use assms(1) True in simp_all)
  next
    case False
    then have e: "?e = (Advance now st n, ?s)" by (intro stop) simp
    show ?thesis unfolding e by (rule run_go [OF run_refl]) (use assms(1) False in simp_all)
  qed
  with wake_run [OF assms(1)] show ?thesis by (rule rtranclp_trans)
qed

lemma consider_current [simp]: "current_threads (snd (consider_thread now n s)) = current_threads s"
  by (simp add: consider_thread_def Let_def case_prod_beta)

lemma loop_run:
  assumes "sched_loop now st n s = Some r" "p < length (current_threads s)"
  shows "sched_runs p f (Sleeping now st n, s) (if fst r then Found (fst (snd r)) else Not_Found, snd (snd r)) \<and>
    current_threads (snd (snd r)) = current_threads s"
proof -
  define P where "P = (\<lambda>now st n s r. p < length (current_threads s) \<longrightarrow>
    sched_runs p f (Sleeping now st n, s) (if fst r then Found (fst (snd r)) else Not_Found, snd (snd r)) \<and>
    current_threads (snd (snd r)) = current_threads s)"
  have "P now st n s r"
  proof (rule sched_loop.raw_induct [OF _ assms(1)])
    fix loop now st n s r
    assume IH: "\<And>now st n s r. loop now st n s = Some r \<Longrightarrow> P now st n s r"
      and r: "(case consider_thread now n s of
        (found_thread, s1) \<Rightarrow>
          if found_thread then Some (True, n, s1)
          else (case next_of s1 n of None \<Rightarrow> None | Some k \<Rightarrow> if k = st then Some (False, k, s1) else loop now st k s1)) = Some r"
    obtain b s1 where c: "consider_thread now n s = (b, s1)" by (cases "consider_thread now n s")
    have cur: "current_threads s1 = current_threads s" using consider_current [of now n s] c by simp
    have "sched_runs p f (if b then Found n else Advance now st n, s1) (if fst r then Found (fst (snd r)) else Not_Found, snd (snd r)) \<and>
      current_threads (snd (snd r)) = current_threads s" if l: "p < length (current_threads s1)"
    proof (cases b)
      case True
      then show ?thesis using r c cur by auto
    next
      case False
      then obtain k where k: "next_of s1 n = Some k" using r c by (auto split: option.splits)
      show ?thesis
      proof (cases "k = st")
        case True
        then have e: "(if fst r then Found (fst (snd r)) else Not_Found, snd (snd r)) = (Not_Found, s1)" "snd (snd r) = s1"
          using r c False k by auto
        have "sched_runs p f (Advance now st n, s1) (Not_Found, s1)" by (rule run_go [OF run_refl]) (use l k True in simp_all)
        then show ?thesis using False e cur by simp
      next
        case ne: False
        then have "P now st k s1 r" using IH r c False k by auto
        then have h: "sched_runs p f (Sleeping now st k, s1) (if fst r then Found (fst (snd r)) else Not_Found, snd (snd r))"
          "current_threads (snd (snd r)) = current_threads s1" using l by (auto simp: P_def)
        from h(1) have "sched_runs p f (Advance now st n, s1) (if fst r then Found (fst (snd r)) else Not_Found, snd (snd r))"
          by (rule run_go) (use l k ne in simp_all)
        then show ?thesis using False h(2) cur by simp
      qed
    qed
    then show "P now st n s r" unfolding P_def using consider_run [OF _ c, of p st f] cur by (auto intro: rtranclp_trans)
  qed
  then show ?thesis using assms(2) by (simp add: P_def)
qed

text \<open>The run of the scheduler without interruption.\<close>

lemma scheduler_run_steps:
  assumes "task_get_next_thread p now s = Some (r, s')" "p < length (current_threads s)"
  shows "sched_step\<^sup>*\<^sup>* \<lparr>sd_mgr = s, sd_pc = f(p := Outside)\<rparr> \<lparr>sd_mgr = s', sd_pc = f(p := Outside)\<rparr>"
proof -
  have "sched_runs p f (Enter now, s) (Outside, s')"
  proof (cases "continue_this_thread s ! p")
    case True
    then have e: "current_threads s ! p \<noteq> None" "s' = s" using assms(1) by (auto simp: task_get_next_thread_def Let_def)
    have "sched_runs p f (Set_Current (current_threads s ! p), s) (Outside, s)" by (rule run_go [OF run_refl]) (use assms(2) in simp_all)
    then show ?thesis unfolding e(2) by (rule run_go) (use assms(2) True e(1) in simp_all)
  next
    case False
    then obtain st found m s1 where b: "first_candidate p s = Some st" "sched_loop now st st s = Some (found, m, s1)"
      using assms(1) by (auto simp: task_get_next_thread_def Let_def split: bind_splits)
    have l: "sched_runs p f (Sleeping now st st, s) (if found then Found m else Not_Found, s1)" "current_threads s1 = current_threads s"
      using loop_run [OF b(2) assms(2), of f] by (cases found; simp)+
    have set: "sched_runs p f (Set_Current q, t) (Outside, t\<lparr>current_threads := (current_threads t)[p := q]\<rparr>)"
      if "p < length (current_threads t)" for q t by (rule run_go [OF run_refl]) (use that in simp_all)
    have "sched_runs p f (if found then Found m else Not_Found, s1) (Outside, s')"
    proof (cases found)
      case True
      let ?t = "case current_threads s ! p of None \<Rightarrow> s1 | Some c \<Rightarrow> if m \<noteq> c then unlock_thread c s1 else s1"
      have cur: "current_threads ?t = current_threads s" using l(2) by (simp split: option.split)
      have e: "s' = ?t\<lparr>current_threads := (current_threads ?t)[p := Some m]\<rparr>"
        using assms(1) False b True by (auto simp: task_get_next_thread_def Let_def)
      have "sched_runs p f (Set_Current (Some m), ?t) (Outside, s')" unfolding e by (rule set) (use cur assms(2) in simp)
      then have "sched_runs p f (Found m, s1) (Outside, s')" by (rule run_go) (use assms(2) l(2) in simp_all)
      then show ?thesis using True by simp
    next
      case nf: False
      note d = assms(1) [unfolded task_get_next_thread_def Let_def] False b nf l(2)
      show ?thesis
      proof (cases "\<exists>c. current_threads s ! p = Some c \<and> permit_running (threads s1 c)")
        case True
        then obtain c where c: "current_threads s ! p = Some c" "permit_running (threads s1 c)" by blast
        have e: "s' = s1\<lparr>current_threads := (current_threads s1)[p := Some c]\<rparr>" using d c by auto
        have "sched_runs p f (Set_Current (Some c), s1) (Outside, s')" unfolding e by (rule set) (use l(2) assms(2) in simp)
        then have "sched_runs p f (Not_Found, s1) (Outside, s')" by (rule run_go) (use assms(2) l(2) c in simp_all)
        then show ?thesis using nf by simp
      next
        case no: False
        let ?t = "case current_threads s ! p of None \<Rightarrow> s1 | Some c \<Rightarrow> unlock_thread c s1"
        have cur: "current_threads ?t = current_threads s" using l(2) by (simp split: option.split)
        have e: "s' = ?t\<lparr>current_threads := (current_threads ?t)[p := idle_threads s1 ! p]\<rparr>"
          using d no by (auto split: option.splits)
        have "sched_runs p f (Set_Current (idle_threads s1 ! p), ?t) (Outside, s')" unfolding e by (rule set) (use cur assms(2) in simp)
        then have "sched_runs p f (Give_Up, s1) (Outside, s')" by (rule run_go) (use assms(2) l(2) in simp_all)
        then have "sched_runs p f (Not_Found, s1) (Outside, s')" by (rule run_go) (use assms(2) l(2) no in \<open>auto split: option.split\<close>)
        then show ?thesis using nf by simp
      qed
    qed
    with l(1) have "sched_runs p f (Sleeping now st st, s) (Outside, s')" by (rule rtranclp_trans)
    then show ?thesis by (rule run_go) (use assms(2) False b(1) in simp_all)
  qed
  moreover have "sched_step \<lparr>sd_mgr = s, sd_pc = f(p := Outside)\<rparr> \<lparr>sd_mgr = s, sd_pc = f(p := Enter now)\<rparr>"
    using sched_enter [of p "\<lparr>sd_mgr = s, sd_pc = f(p := Outside)\<rparr>" now] assms(2) by simp
  ultimately show ?thesis by (simp add: converse_rtranclp_into_rtranclp)
qed

text \<open>Creation and destruction of a thread.\<close>

definition links_apart :: "task_mgr \<Rightarrow> bool" where
  "links_apart s \<longleftrightarrow> None \<notin> set (idle_threads s) \<and> (\<forall>t. next_of s t \<notin> set (idle_threads s))"

lemma mgr_steps:
  "v \<notin> set (idle_threads s) \<Longrightarrow> sched_step \<lparr>sd_mgr = s, sd_pc = f\<rparr> \<lparr>sd_mgr = set_next t v s, sd_pc = f\<rparr>"
  "v \<notin> set (idle_threads s) \<Longrightarrow> sched_step \<lparr>sd_mgr = s, sd_pc = f\<rparr> \<lparr>sd_mgr = s\<lparr>start_of_thread_cycle := v\<rparr>, sd_pc = f\<rparr>"
  "(\<And>th. next_thread (g th) = next_thread th) \<Longrightarrow> (\<And>th. cycle_lock (g th) = cycle_lock th) \<Longrightarrow>
   sched_step \<lparr>sd_mgr = s, sd_pc = f\<rparr> \<lparr>sd_mgr = upd_thread t g s, sd_pc = f\<rparr>"
  "spinlock_lock_iteration (cycle_lock (threads s t)) = (True, x) \<Longrightarrow>
   sched_step \<lparr>sd_mgr = s, sd_pc = f\<rparr> \<lparr>sd_mgr = upd_thread t (\<lambda>th. th\<lparr>cycle_lock := x\<rparr>) s, sd_pc = f\<rparr>"
  using sched_link [of v "\<lparr>sd_mgr = s, sd_pc = f\<rparr>" t] sched_first [of v "\<lparr>sd_mgr = s, sd_pc = f\<rparr>"]
    sched_fields [of g "\<lparr>sd_mgr = s, sd_pc = f\<rparr>" t] sched_lock [of "\<lparr>sd_mgr = s, sd_pc = f\<rparr>" t x] by simp_all

lemma sched_steps_cons: "sched_step\<^sup>*\<^sup>* w' w'' \<Longrightarrow> sched_step w w' \<Longrightarrow> sched_step\<^sup>*\<^sup>* w w''"
  by (rule converse_rtranclp_into_rtranclp)

lemma cycle_add_steps:
  assumes "links_apart s" "Some t \<notin> set (idle_threads s)"
  shows "sched_step\<^sup>*\<^sup>* \<lparr>sd_mgr = s, sd_pc = f\<rparr> \<lparr>sd_mgr = task_thread_cycle_add t s, sd_pc = f\<rparr>"
proof (cases "start_of_thread_cycle s")
  case None
  let ?s = "s\<lparr>start_of_thread_cycle := Some t\<rparr>"
  have "sched_step\<^sup>*\<^sup>* \<lparr>sd_mgr = ?s, sd_pc = f\<rparr> \<lparr>sd_mgr = set_next t (Some t) ?s, sd_pc = f\<rparr>"
    by (rule r_into_rtranclp, rule mgr_steps) (use assms(2) in simp)
  then have "sched_step\<^sup>*\<^sup>* \<lparr>sd_mgr = s, sd_pc = f\<rparr> \<lparr>sd_mgr = set_next t (Some t) ?s, sd_pc = f\<rparr>"
    by (rule sched_steps_cons) (rule mgr_steps(2), use assms(2) in simp)
  then show ?thesis using None by (simp add: task_thread_cycle_add_def)
next
  case (Some st)
  let ?s = "set_next t (next_of s st) s"
  have "sched_step\<^sup>*\<^sup>* \<lparr>sd_mgr = ?s, sd_pc = f\<rparr> \<lparr>sd_mgr = set_next st (Some t) ?s, sd_pc = f\<rparr>"
    by (rule r_into_rtranclp, rule mgr_steps) (use assms(2) in simp)
  then have "sched_step\<^sup>*\<^sup>* \<lparr>sd_mgr = s, sd_pc = f\<rparr> \<lparr>sd_mgr = set_next st (Some t) ?s, sd_pc = f\<rparr>"
    by (rule sched_steps_cons) (rule mgr_steps(1), use assms(1) in \<open>simp add: links_apart_def\<close>)
  then show ?thesis using Some by (simp add: task_thread_cycle_add_def)
qed

lemma cycle_remove_steps:
  assumes "links_apart s" "task_thread_cycle_remove t s = Some s'"
  shows "sched_step\<^sup>*\<^sup>* \<lparr>sd_mgr = s, sd_pc = f\<rparr> \<lparr>sd_mgr = s', sd_pc = f\<rparr> \<and> links_apart s'"
proof (cases "next_of s t = Some t")
  case True
  then have s': "s' = s\<lparr>start_of_thread_cycle := None\<rparr>" using assms(2) by (simp add: task_thread_cycle_remove_def)
  have "sched_step\<^sup>*\<^sup>* \<lparr>sd_mgr = s, sd_pc = f\<rparr> \<lparr>sd_mgr = s', sd_pc = f\<rparr>"
    unfolding s' by (rule r_into_rtranclp, rule mgr_steps) (use assms(1) in \<open>simp add: links_apart_def\<close>)
  then show ?thesis using assms(1) s' by (simp add: links_apart_def)
next
  case False
  let ?s = "if start_of_thread_cycle s = Some t then s\<lparr>start_of_thread_cycle := next_of s t\<rparr> else s"
  obtain l n where s': "s' = set_next l (next_of ?s n) ?s"
    using assms(2) False by (auto simp: task_thread_cycle_remove_def Let_def split: bind_splits)
  have a: "links_apart ?s" using assms(1) by (simp add: links_apart_def)
  have 1: "sched_step\<^sup>*\<^sup>* \<lparr>sd_mgr = s, sd_pc = f\<rparr> \<lparr>sd_mgr = ?s, sd_pc = f\<rparr>"
    using r_into_rtranclp [of sched_step, OF mgr_steps(2) [of "next_of s t" s f]] assms(1) by (simp add: links_apart_def)
  have 2: "sched_step\<^sup>*\<^sup>* \<lparr>sd_mgr = ?s, sd_pc = f\<rparr> \<lparr>sd_mgr = s', sd_pc = f\<rparr>"
    unfolding s' by (rule r_into_rtranclp, rule mgr_steps) (use a in \<open>simp add: links_apart_def\<close>)
  have "links_apart s'" using assms(1) by (simp add: s' links_apart_def)
  then show ?thesis using 1 2 by (auto intro: rtranclp_trans)
qed

lemma links_apart_upd [simp]: "(\<And>th. next_thread (g th) = next_thread th) \<Longrightarrow> links_apart (upd_thread t g s) = links_apart s"
  by (auto simp: links_apart_def next_of_def)

text \<open>The unscheduling of a thread that is destroyed, by another thread or by itself.\<close>

lemma destroy_steps:
  assumes "links_apart s" "destroy_thread_unschedule cur t s = Some s'"
  shows "sched_step\<^sup>*\<^sup>* \<lparr>sd_mgr = s, sd_pc = f\<rparr> \<lparr>sd_mgr = s', sd_pc = f\<rparr>"
proof -
  let ?m = "upd_thread t (\<lambda>th. th\<lparr>thread_destroyed := True\<rparr>) s"
  have "sched_step\<^sup>*\<^sup>* \<lparr>sd_mgr = ?m, sd_pc = f\<rparr> \<lparr>sd_mgr = s', sd_pc = f\<rparr>"
  proof (cases "cur = t")
    case False
    let ?p = "upd_thread t (\<lambda>th. snd (stop_thread th)) ?m"
    obtain v where v: "spinlock_lock_iteration (cycle_lock (threads ?p t)) = (True, v)"
      "task_thread_cycle_remove t (upd_thread t (\<lambda>th. th\<lparr>cycle_lock := v\<rparr>) ?p) = Some s'"
      using assms(2) False by (auto simp: destroy_thread_unschedule_def Let_def split: prod.splits if_splits)
    have "sched_step\<^sup>*\<^sup>* \<lparr>sd_mgr = upd_thread t (\<lambda>th. th\<lparr>cycle_lock := v\<rparr>) ?p, sd_pc = f\<rparr> \<lparr>sd_mgr = s', sd_pc = f\<rparr>"
      using cycle_remove_steps [OF _ v(2)] assms(1) by simp
    then have "sched_step\<^sup>*\<^sup>* \<lparr>sd_mgr = ?p, sd_pc = f\<rparr> \<lparr>sd_mgr = s', sd_pc = f\<rparr>"
      by (rule sched_steps_cons) (rule mgr_steps(4) [OF v(1)])
    then show ?thesis by (rule sched_steps_cons) (rule mgr_steps(3), simp_all)
  next
    case True
    obtain s1 where s1: "task_thread_cycle_remove t ?m = Some s1" "s' = upd_thread t (\<lambda>th. snd (stop_thread th)) s1"
      using assms(2) True by (auto simp: destroy_thread_unschedule_def Let_def)
    have "sched_step\<^sup>*\<^sup>* \<lparr>sd_mgr = ?m, sd_pc = f\<rparr> \<lparr>sd_mgr = s1, sd_pc = f\<rparr>" using cycle_remove_steps [OF _ s1(1)] assms(1) by simp
    moreover have "sched_step\<^sup>*\<^sup>* \<lparr>sd_mgr = s1, sd_pc = f\<rparr> \<lparr>sd_mgr = s', sd_pc = f\<rparr>"
      unfolding s1(2) by (rule r_into_rtranclp, rule mgr_steps(3)) simp_all
    ultimately show ?thesis by (rule rtranclp_trans)
  qed
  then show ?thesis by (rule sched_steps_cons) (rule mgr_steps(3), simp_all)
qed

lemma create_steps:
  assumes "links_apart s" "Some t \<notin> set (idle_threads s)" "\<And>p. \<not> holds_thread \<lparr>sd_mgr = s, sd_pc = f\<rparr> p t"
  shows "sched_step\<^sup>*\<^sup>* \<lparr>sd_mgr = s, sd_pc = f\<rparr> \<lparr>sd_mgr = new_thread_schedule t s, sd_pc = f\<rparr>"
proof -
  let ?g = "\<lambda>th. th\<lparr>permit_running := False, thread_destroyed := False, wake_thread_after := 0, synch_item_in_list := False,
    cycle_lock := klib_synch_spinlock_init\<rparr>"
  have u: "upd_thread t (\<lambda>_. ?g (threads s t)) s = upd_thread t ?g s" by (simp add: upd_thread_def)
  have "sched_step\<^sup>*\<^sup>* \<lparr>sd_mgr = upd_thread t ?g s, sd_pc = f\<rparr> \<lparr>sd_mgr = new_thread_schedule t s, sd_pc = f\<rparr>"
    unfolding new_thread_schedule_def by (rule cycle_add_steps) (use assms(1,2) in simp_all)
  moreover have "sched_step \<lparr>sd_mgr = s, sd_pc = f\<rparr> \<lparr>sd_mgr = upd_thread t ?g s, sd_pc = f\<rparr>"
    using sched_new [of t "\<lparr>sd_mgr = s, sd_pc = f\<rparr>" "?g (threads s t)"] assms by (simp add: u links_apart_def next_of_def)
  ultimately show ?thesis by (rule sched_steps_cons)
qed

subsection \<open>An endless search\<close>

text \<open>
  Three threads in the cycle 3, 2, 1; processor 0 runs thread 3 and processor 1 runs thread 1. Thread 3 ends itself, and before it yields thread 1 destroys thread 2, to which the
  link of thread 3 leads. The scheduler of processor 0 then starts its search at thread 2, comes from there into what is left of the cycle, and never meets thread
  2 again.
\<close>

definition destroy_example :: task_mgr where
  "destroy_example =
     \<lparr>threads = (\<lambda>_. blank_thread)
        (1 := blank_thread\<lparr>next_thread := Some 3, cycle_lock := 1, permit_running := True\<rparr>,
         2 := blank_thread\<lparr>next_thread := Some 1, permit_running := True\<rparr>,
         3 := blank_thread\<lparr>next_thread := Some 2, cycle_lock := 1, permit_running := True\<rparr>),
      current_threads = [Some 3, Some 1], continue_this_thread = [False, False],
      idle_threads = [Some 100, Some 101], start_of_thread_cycle = Some 1\<rparr>"

lemma search_endless:
  assumes "st \<noteq> n" "next_of s n = Some n" "cycle_lock (threads s n) = 1" "permit_running (threads s n)"
  shows "sched_loop now st n s = None"
proof -
  have c: "consider_thread now n s = (False, s)" for now
    using assms(3,4) upd_thread_same [of "wake_if_due now" s n] by (simp add: consider_thread_def wake_if_due_def Let_def)
  have "\<not> (st' = st \<and> n' = n \<and> s' = s)" if "sched_loop now' st' n' s' = Some r" for now' st' n' s' r
    using that by (rule sched_loop.raw_induct [rotated]) (use assms(1) in \<open>auto simp: c assms(2), blast\<close>)
  then show ?thesis by (metis not_None_eq)
qed

theorem scheduler_searches_forever:
  "\<exists>s1 s2. destroy_thread_unschedule 3 3 destroy_example = Some s1 \<and> destroy_thread_unschedule 1 2 s1 = Some s2 \<and>
     (\<forall>now. task_get_next_thread 0 now s2 = None)"
proof -
  let ?t1 = "blank_thread\<lparr>cycle_lock := 1, permit_running := True\<rparr>" and ?d = "blank_thread\<lparr>cycle_lock := 1, thread_destroyed := True\<rparr>"
  let ?s1 = "destroy_example\<lparr>threads := (threads destroy_example)(1 := ?t1\<lparr>next_thread := Some 2\<rparr>, 3 := ?d\<lparr>next_thread := Some 2\<rparr>)\<rparr>"
  let ?s2 = "?s1\<lparr>threads := (threads ?s1)(1 := ?t1\<lparr>next_thread := Some 1\<rparr>, 2 := ?d\<lparr>next_thread := Some 1\<rparr>)\<rparr>"
  note d = destroy_example_def destroy_thread_unschedule_def task_thread_cycle_remove_def next_of_def upd_thread_def set_next_def
    stop_thread_def blank_thread_def spinlock_lock_iteration_def compare_exchange_strong_def Let_def
  have 1: "destroy_thread_unschedule 3 3 destroy_example = Some ?s1"
    by (simp add: d cycle_search.simps fun_upd_twist)
  have 2: "destroy_thread_unschedule 1 2 ?s1 = Some ?s2"
    by (simp add: d cycle_search.simps fun_upd_twist)
  have e: "sched_loop now 2 1 ?s2 = None" for now by (rule search_endless) (simp_all add: d)
  have "consider_thread now 2 ?s2 = (False, ?s2)" for now
    using upd_thread_same [of "wake_if_due now" ?s2 2] by (simp add: consider_thread_def wake_if_due_def blank_thread_def Let_def)
  then have "sched_loop now 2 2 ?s2 = None" for now using e by (subst sched_loop.simps) (simp add: next_of_def blank_thread_def)
  then have "task_get_next_thread 0 now ?s2 = None" for now
    by (simp add: task_get_next_thread_def first_candidate_def d)
  then show ?thesis using 1 2 by blast
qed

end
