(* ===== verification/Kernel_Sync.thy ===== *)
theory Kernel_Sync
  imports Task_Sched
begin

text \<open>
  The mutex of \<open>kernel/klib/synch/kernel_mutexes.cpp\<close> and the semaphore of \<open>kernel_semaphores.cpp\<close>.

  The code between taking and releasing the access lock of the object is one atomic step. A blocking
  acquisition is two such steps, before and after \<open>task_yield\<close>; in between the thread is stopped until another
  thread starts it or the scheduler finds that its wake-up time has come. The waiting list is a HOL list of
  threads (the operations on linked lists are verified in \<open>Klib_List\<close>). The interleavings are step
  relations.
\<close>

datatype SYNC_ACQ_RESULT = SYNC_ACQ_ACQUIRED | SYNC_ACQ_TIMEOUT | SYNC_ACQ_ALREADY_OWNED

type_synonym thread_store = "nat \<Rightarrow> task_thread"

subsection \<open>Mutex\<close>

definition MUTEX_MAX_WAIT :: u64 where
  "MUTEX_MAX_WAIT = 0xFFFFFFFFFFFFFFFF"

record klib_mutex =
  mutex_locked :: bool
  owner_thread :: "nat option"
  waiting_threads_list :: "nat list"

definition klib_synch_mutex_init :: klib_mutex where
  "klib_synch_mutex_init = \<lparr>mutex_locked = False, owner_thread = None, waiting_threads_list = []\<rparr>"

text \<open>A thread puts itself to sleep, with a wake-up time unless it waits forever.\<close>

definition block_thread :: "u64 \<Rightarrow> u64 \<Rightarrow> u64 \<Rightarrow> task_thread \<Rightarrow> task_thread" where
  "block_thread forever now max_wait th =
     (let th = snd (stop_thread th) in
      if max_wait \<noteq> forever then th\<lparr>wake_thread_after := now + 1000 * max_wait\<rparr> else th)"

text \<open>
  The acquisition up to the point where it returns or yields; \<^term>\<open>None\<close> in place of the result means
  that the thread is on the waiting list and stopped.
\<close>

definition mutex_acquire_begin :: "nat \<Rightarrow> u64 \<Rightarrow> u64 \<Rightarrow> klib_mutex \<Rightarrow> thread_store \<Rightarrow>
    (SYNC_ACQ_RESULT option \<times> klib_mutex \<times> thread_store) option" where
  "mutex_acquire_begin cur now max_wait m ths =
     (if mutex_locked m \<and> owner_thread m = Some cur then Some (Some SYNC_ACQ_ALREADY_OWNED, m, ths)
      else if \<not> mutex_locked m
      then Some (Some SYNC_ACQ_ACQUIRED, m\<lparr>mutex_locked := True, owner_thread := Some cur\<rparr>, ths)
      else if max_wait = 0 then Some (Some SYNC_ACQ_TIMEOUT, m, ths)
      else do {
        ASSERT (\<not> synch_item_in_list (ths cur));
        ASSERT (owner_thread m \<noteq> None);
        Some (None, m\<lparr>waiting_threads_list := waiting_threads_list m @ [cur]\<rparr>,
              ths(cur := block_thread MUTEX_MAX_WAIT now max_wait ((ths cur)\<lparr>synch_item_in_list := True\<rparr>)))
      })"

text \<open>The acquisition after the thread has been scheduled again.\<close>

definition mutex_acquire_resume :: "nat \<Rightarrow> u64 \<Rightarrow> klib_mutex \<Rightarrow> thread_store \<Rightarrow>
    (SYNC_ACQ_RESULT \<times> klib_mutex \<times> thread_store) option" where
  "mutex_acquire_resume cur max_wait m ths = do {
     ASSERT (mutex_locked m);
     ASSERT (max_wait \<noteq> MUTEX_MAX_WAIT \<or> owner_thread m = Some cur);
     if owner_thread m = Some cur then Some (SYNC_ACQ_ACQUIRED, m, ths)
     else do {
       ASSERT (cur \<in> set (waiting_threads_list m));
       Some (SYNC_ACQ_TIMEOUT, m\<lparr>waiting_threads_list := remove1 cur (waiting_threads_list m)\<rparr>,
             ths(cur := (ths cur)\<lparr>synch_item_in_list := False\<rparr>))
     }
   }"

definition klib_synch_mutex_release :: "nat \<Rightarrow> bool \<Rightarrow> klib_mutex \<Rightarrow> thread_store \<Rightarrow>
    (klib_mutex \<times> thread_store) option" where
  "klib_synch_mutex_release cur disregard_owner m ths = do {
     ASSERT (mutex_locked m);
     ASSERT (disregard_owner \<or> owner_thread m = Some cur);
     (case waiting_threads_list m of
        [] \<Rightarrow> Some (m\<lparr>mutex_locked := False, owner_thread := None\<rparr>, ths)
      | next_owner # rest \<Rightarrow>
          Some (m\<lparr>owner_thread := Some next_owner, waiting_threads_list := rest\<rparr>,
                ths(next_owner := snd (start_thread ((ths next_owner)\<lparr>synch_item_in_list := False\<rparr>)))))
   }"

text \<open>
  A mutex in use: the threads between the two halves of a blocking acquisition, with their waiting times,
  and the threads to which an acquisition has been reported and that have not released the mutex since.
\<close>

record mutex_world =
  mw_mutex :: klib_mutex
  mw_threads :: thread_store
  mw_inside :: "nat \<rightharpoonup> u64"
  mw_holders :: "nat set"

text \<open>
  The steps. Any thread may begin an acquisition with any waiting time, and a thread that waits may come back from \<open>task_yield\<close> at any moment: because it was given the mutex, because its
  waiting time is over, because a wake-up time from an earlier wait is due, or because another thread has started it. The owner releases with its check on. The fields of any
  thread may change at any moment in any way (\<open>start_thread\<close>, \<open>stop_thread\<close>, the scheduler, other waiting objects). A waiting thread that is
  destroyed is taken off the waiting list, in one step; the memory of a thread that was made the owner is not used for another thread before it has come back. A failed assertion stops the system and is not a step.
\<close>

inductive mutex_step :: "mutex_world \<Rightarrow> mutex_world \<Rightarrow> bool" where
  mutex_return: "mw_inside w t = None \<Longrightarrow>
    mutex_acquire_begin t now max_wait (mw_mutex w) (mw_threads w) = Some (Some r, m, ths) \<Longrightarrow>
    mutex_step w (w\<lparr>mw_mutex := m, mw_threads := ths,
      mw_holders := (if r = SYNC_ACQ_ACQUIRED then insert t (mw_holders w) else mw_holders w)\<rparr>)"
| mutex_block: "mw_inside w t = None \<Longrightarrow>
    mutex_acquire_begin t now max_wait (mw_mutex w) (mw_threads w) = Some (None, m, ths) \<Longrightarrow>
    mutex_step w (w\<lparr>mw_mutex := m, mw_threads := ths, mw_inside := (mw_inside w)(t \<mapsto> max_wait)\<rparr>)"
| mutex_resume: "mw_inside w t = Some max_wait \<Longrightarrow>
    mutex_acquire_resume t max_wait (mw_mutex w) (mw_threads w) = Some (r, m, ths) \<Longrightarrow>
    mutex_step w (w\<lparr>mw_mutex := m, mw_threads := ths, mw_inside := (mw_inside w)(t := None),
      mw_holders := (if r = SYNC_ACQ_ACQUIRED then insert t (mw_holders w) else mw_holders w)\<rparr>)"
| mutex_release: "mw_inside w t = None \<Longrightarrow>
    klib_synch_mutex_release t False (mw_mutex w) (mw_threads w) = Some (m, ths) \<Longrightarrow>
    mutex_step w (w\<lparr>mw_mutex := m, mw_threads := ths, mw_holders := mw_holders w - {t}\<rparr>)"
| mutex_env: "mutex_step w (w\<lparr>mw_threads := (mw_threads w)(t := th)\<rparr>)"
| mutex_destroy: "t \<in> set (waiting_threads_list (mw_mutex w)) \<Longrightarrow>
    mutex_step w (w\<lparr>mw_mutex := (mw_mutex w)\<lparr>waiting_threads_list := remove1 t (waiting_threads_list (mw_mutex w))\<rparr>,
      mw_threads := (mw_threads w)(t := th), mw_inside := (mw_inside w)(t := None)\<rparr>)"

definition mutex_inv :: "mutex_world \<Rightarrow> bool" where
  "mutex_inv w \<longleftrightarrow>
     (let m = mw_mutex w; ws = waiting_threads_list m in
      (mutex_locked m \<longleftrightarrow> owner_thread m \<noteq> None) \<and> (ws \<noteq> [] \<longrightarrow> mutex_locked m) \<and> distinct ws \<and>
      (\<forall>t. t \<in> set ws \<longleftrightarrow> mw_inside w t \<noteq> None \<and> owner_thread m \<noteq> Some t) \<and>
      mw_holders w = {t. owner_thread m = Some t \<and> mw_inside w t = None})"

lemma mutex_invD:
  assumes "mutex_inv w"
  shows "mutex_locked (mw_mutex w) \<longleftrightarrow> owner_thread (mw_mutex w) \<noteq> None"
    "waiting_threads_list (mw_mutex w) \<noteq> [] \<Longrightarrow> mutex_locked (mw_mutex w)"
    "distinct (waiting_threads_list (mw_mutex w))"
    "t \<in> set (waiting_threads_list (mw_mutex w)) \<longleftrightarrow> mw_inside w t \<noteq> None \<and> owner_thread (mw_mutex w) \<noteq> Some t"
    "mw_holders w = {t. owner_thread (mw_mutex w) = Some t \<and> mw_inside w t = None}"
  using assms unfolding mutex_inv_def Let_def by (elim conjE; (assumption | blast))+

lemma block_thread_sel [simp]:
  "synch_item_in_list (block_thread f now w th) = synch_item_in_list th"
  "\<not> permit_running (block_thread f now w th)"
  "w = f \<Longrightarrow> wake_thread_after (block_thread f now w th) = wake_thread_after th"
  by (simp_all add: block_thread_def stop_thread_def Let_def)

lemma synch_item_sel [simp]:
  "synch_item_in_list (snd (start_thread th)) = synch_item_in_list th"
  "synch_item_in_list (wake_if_due now th) = synch_item_in_list th"
  by (simp_all add: start_thread_def wake_if_due_def)

lemma wake_if_due_asleep:
  "\<not> permit_running th \<Longrightarrow> wake_thread_after th = 0 \<Longrightarrow> wake_if_due now th = th"
  by (simp add: wake_if_due_def)

lemma mutex_inv_return:
  assumes "mutex_inv w" and "mw_inside w t = None"
    and "mutex_acquire_begin t now max_wait (mw_mutex w) (mw_threads w) = Some (Some r, m, ths)"
  shows "mutex_inv (w\<lparr>mw_mutex := m, mw_threads := ths,
      mw_holders := (if r = SYNC_ACQ_ACQUIRED then insert t (mw_holders w) else mw_holders w)\<rparr>)"
proof -
  note D = mutex_invD [OF assms(1)]
  consider "r \<noteq> SYNC_ACQ_ACQUIRED" "m = mw_mutex w" "ths = mw_threads w"
    | "r = SYNC_ACQ_ACQUIRED" "\<not> mutex_locked (mw_mutex w)"
      "m = (mw_mutex w)\<lparr>mutex_locked := True, owner_thread := Some t\<rparr>" "ths = mw_threads w"
    using assms(3) by (auto simp: mutex_acquire_begin_def split: if_splits)
  then show ?thesis
  proof cases
    case 1
    then show ?thesis using assms(1) by (simp add: mutex_inv_def)
  next
    case 2
    have e: "waiting_threads_list (mw_mutex w) = []" "owner_thread (mw_mutex w) = None" using D(1,2) 2(2) by auto
    then have i: "mw_inside w u = None" for u using D(4) by auto
    show ?thesis using 2 e i unfolding mutex_inv_def by (simp add: D(5) Let_def)
  qed
qed

lemma mutex_inv_block:
  assumes "mutex_inv w" and "mw_inside w t = None"
    and "mutex_acquire_begin t now max_wait (mw_mutex w) (mw_threads w) = Some (None, m, ths)"
  shows "mutex_inv (w\<lparr>mw_mutex := m, mw_threads := ths, mw_inside := (mw_inside w)(t \<mapsto> max_wait)\<rparr>)"
proof -
  note D = mutex_invD [OF assms(1)]
  have b: "mutex_locked (mw_mutex w)" "owner_thread (mw_mutex w) \<noteq> Some t"
    "m = (mw_mutex w)\<lparr>waiting_threads_list := waiting_threads_list (mw_mutex w) @ [t]\<rparr>"
    using assms(3) by (auto simp: mutex_acquire_begin_def split: if_splits)
  have "t \<notin> set (waiting_threads_list (mw_mutex w))" using D(4) assms(2) by simp
  then show ?thesis using b D(1,3) D(4) D(5) unfolding mutex_inv_def Let_def by auto
qed

lemma mutex_inv_resume:
  assumes "mutex_inv w" and "mw_inside w t = Some max_wait"
    and "mutex_acquire_resume t max_wait (mw_mutex w) (mw_threads w) = Some (r, m, ths)"
  shows "mutex_inv (w\<lparr>mw_mutex := m, mw_threads := ths, mw_inside := (mw_inside w)(t := None),
      mw_holders := (if r = SYNC_ACQ_ACQUIRED then insert t (mw_holders w) else mw_holders w)\<rparr>)"
proof -
  note D = mutex_invD [OF assms(1)]
  consider "owner_thread (mw_mutex w) = Some t" "r = SYNC_ACQ_ACQUIRED" "m = mw_mutex w"
    | "owner_thread (mw_mutex w) \<noteq> Some t" "r = SYNC_ACQ_TIMEOUT" "mutex_locked (mw_mutex w)"
      "m = (mw_mutex w)\<lparr>waiting_threads_list := remove1 t (waiting_threads_list (mw_mutex w))\<rparr>"
    using assms(3) by (auto simp: mutex_acquire_resume_def split: if_splits)
  then show ?thesis
    by cases (use D(1,3) D(4) D(5) in \<open>auto simp: mutex_inv_def Let_def\<close>)
qed

lemma mutex_inv_release:
  assumes "mutex_inv w" and "mw_inside w t = None"
    and "klib_synch_mutex_release t False (mw_mutex w) (mw_threads w) = Some (m, ths)"
  shows "mutex_inv (w\<lparr>mw_mutex := m, mw_threads := ths, mw_holders := mw_holders w - {t}\<rparr>)"
proof -
  note D = mutex_invD [OF assms(1)]
  have l: "mutex_locked (mw_mutex w)" "owner_thread (mw_mutex w) = Some t"
    using assms(3) by (auto simp: klib_synch_mutex_release_def ASSERT_def split: if_splits)
  have h: "mw_holders w - {t} = {}" using D(5) l by auto
  show ?thesis
  proof (cases "waiting_threads_list (mw_mutex w)")
    case Nil
    then have "mw_inside w u = None" for u using D(4) [of u] l(2) assms(2) by auto
    then show ?thesis using Nil l assms(3) h by (auto simp: mutex_inv_def klib_synch_mutex_release_def Let_def)
  next
    case (Cons n rest)
    have m: "m = (mw_mutex w)\<lparr>owner_thread := Some n, waiting_threads_list := rest\<rparr>"
      using Cons l assms(3) by (auto simp: klib_synch_mutex_release_def)
    have d: "n \<notin> set rest" "distinct rest" using D(3) Cons by auto
    have n: "mw_inside w n \<noteq> None" using D(4) [of n] Cons by auto
    have ws: "u \<in> set rest \<longleftrightarrow> mw_inside w u \<noteq> None \<and> u \<noteq> n" for u
      using D(4) [of u] Cons d n l(2) assms(2) by auto
    show ?thesis using m d n ws h l(1) unfolding mutex_inv_def Let_def by auto
  qed
qed

lemma mutex_inv_destroy:
  assumes "mutex_inv w" and "t \<in> set (waiting_threads_list (mw_mutex w))"
  shows "mutex_inv (w\<lparr>mw_mutex := (mw_mutex w)\<lparr>waiting_threads_list := remove1 t (waiting_threads_list (mw_mutex w))\<rparr>,
      mw_threads := (mw_threads w)(t := th), mw_inside := (mw_inside w)(t := None)\<rparr>)"
proof -
  note D = mutex_invD [OF assms(1)]
  have "waiting_threads_list (mw_mutex w) \<noteq> []" using assms(2) by auto
  then have "mutex_locked (mw_mutex w)" "owner_thread (mw_mutex w) \<noteq> Some t" using D(2) D(4) [of t] assms(2) by auto
  then show ?thesis using D(1,3) D(4) D(5) unfolding mutex_inv_def Let_def by auto
qed

lemma mutex_inv_step: "mutex_step w w' \<Longrightarrow> mutex_inv w \<Longrightarrow> mutex_inv w'"
proof (induction rule: mutex_step.induct)
  case (mutex_env w t th)
  then show ?case by (simp add: mutex_inv_def)
qed (blast intro: mutex_inv_return mutex_inv_block mutex_inv_resume mutex_inv_release mutex_inv_destroy)+

definition mutex_start :: mutex_world where
  "mutex_start = \<lparr>mw_mutex = klib_synch_mutex_init, mw_threads = \<lambda>_. blank_thread, mw_inside = Map.empty,
     mw_holders = {}\<rparr>"

lemma mutex_inv_start: "mutex_inv mutex_start"
  by (simp add: mutex_inv_def mutex_start_def klib_synch_mutex_init_def)

interpretation mutex: transition_system mutex_step mutex_inv
  by unfold_locales (rule mutex_inv_step)

lemma mutex_inv_reachable: "mutex_step\<^sup>*\<^sup>* mutex_start w \<Longrightarrow> mutex_inv w"
  using mutex.run_keeps mutex_inv_start by blast

text \<open>
  C24. The mutex, over all interleavings of acquisitions with any waiting times, releases by the owner, destruction of waiting threads, and arbitrary starting, stopping and waking of threads, also of those that
  wait: at most one thread holds it. An acquisition panics only when it has to wait and the list item of the thread is in a list already. A thread that comes back from its wait gets the mutex exactly when a release has made it the
  owner; otherwise it is still on the waiting list, and leaves it with a timeout if its wait was limited, while the assertion of the code fails if its wait was not. The release by
  the holder does not panic, hands the mutex to the thread that has waited longest and starts it, and unlocks only when nobody waits.
\<close>

theorem mutex_correct:
  assumes "mutex_step\<^sup>*\<^sup>* mutex_start w"
  shows "(t \<in> mw_holders w \<and> u \<in> mw_holders w \<longrightarrow> t = u) \<and>
    (mw_inside w t = None \<longrightarrow> (mutex_acquire_begin t now max_wait (mw_mutex w) (mw_threads w) = None \<longleftrightarrow>
       mutex_locked (mw_mutex w) \<and> t \<notin> mw_holders w \<and> max_wait \<noteq> 0 \<and> synch_item_in_list (mw_threads w t))) \<and>
    (\<forall>mx. mw_inside w t = Some mx \<longrightarrow>
       (if owner_thread (mw_mutex w) = Some t
        then mutex_acquire_resume t mx (mw_mutex w) (mw_threads w) = Some (SYNC_ACQ_ACQUIRED, mw_mutex w, mw_threads w)
        else t \<in> set (waiting_threads_list (mw_mutex w)) \<and>
          (case mutex_acquire_resume t mx (mw_mutex w) (mw_threads w) of
             None \<Rightarrow> mx = MUTEX_MAX_WAIT
           | Some (r, m, ths) \<Rightarrow> mx \<noteq> MUTEX_MAX_WAIT \<and> r = SYNC_ACQ_TIMEOUT \<and> t \<notin> set (waiting_threads_list m) \<and>
               owner_thread m = owner_thread (mw_mutex w)))) \<and>
    (t \<in> mw_holders w \<longrightarrow> (\<exists>m ths. klib_synch_mutex_release t False (mw_mutex w) (mw_threads w) = Some (m, ths) \<and>
       (case waiting_threads_list (mw_mutex w) of
          [] \<Rightarrow> \<not> mutex_locked m \<and> ths = mw_threads w
        | n # rest \<Rightarrow> mutex_locked m \<and> owner_thread m = Some n \<and> waiting_threads_list m = rest \<and>
            (\<not> thread_destroyed (mw_threads w n) \<longrightarrow> permit_running (ths n)))))"
proof -
  note D = mutex_invD [OF mutex_inv_reachable [OF assms]]
  have "t \<in> mw_holders w \<and> u \<in> mw_holders w \<longrightarrow> t = u" using D(5) by auto
  moreover have "mutex_acquire_begin t now max_wait (mw_mutex w) (mw_threads w) = None \<longleftrightarrow>
       mutex_locked (mw_mutex w) \<and> t \<notin> mw_holders w \<and> max_wait \<noteq> 0 \<and> synch_item_in_list (mw_threads w t)" if "mw_inside w t = None"
    using that D(1) D(5) by (auto simp: mutex_acquire_begin_def)
  moreover have "if owner_thread (mw_mutex w) = Some t
        then mutex_acquire_resume t mx (mw_mutex w) (mw_threads w) = Some (SYNC_ACQ_ACQUIRED, mw_mutex w, mw_threads w)
        else t \<in> set (waiting_threads_list (mw_mutex w)) \<and>
          (case mutex_acquire_resume t mx (mw_mutex w) (mw_threads w) of
             None \<Rightarrow> mx = MUTEX_MAX_WAIT
           | Some (r, m, ths) \<Rightarrow> mx \<noteq> MUTEX_MAX_WAIT \<and> r = SYNC_ACQ_TIMEOUT \<and> t \<notin> set (waiting_threads_list m) \<and>
               owner_thread m = owner_thread (mw_mutex w))"
    if "mw_inside w t = Some mx" for mx
    using that D(1,3) D(4) [of t] D(2) by (force simp: mutex_acquire_resume_def split: option.splits)
  moreover have "t \<in> mw_holders w \<Longrightarrow> mutex_locked (mw_mutex w) \<and> owner_thread (mw_mutex w) = Some t"
    using D(1,5) by auto
  ultimately show ?thesis
    by (auto simp: klib_synch_mutex_release_def start_thread_def split: list.split)
qed

text \<open>Thread 1 takes the mutex and thread 2 waits for it.\<close>

definition mutex_example :: mutex_world where
  "mutex_example =
     \<lparr>mw_mutex = \<lparr>mutex_locked = True, owner_thread = Some 1, waiting_threads_list = [2]\<rparr>,
      mw_threads = (\<lambda>_. blank_thread)(2 := blank_thread\<lparr>synch_item_in_list := True\<rparr>),
      mw_inside = [2 \<mapsto> MUTEX_MAX_WAIT], mw_holders = {1}\<rparr>"

lemma mutex_example_reachable: "mutex_step\<^sup>*\<^sup>* mutex_start mutex_example"
proof -
  let ?w = "mutex_start\<lparr>mw_mutex := (mw_mutex mutex_start)\<lparr>mutex_locked := True, owner_thread := Some 1\<rparr>,
    mw_threads := mw_threads mutex_start, mw_holders := (if SYNC_ACQ_ACQUIRED = SYNC_ACQ_ACQUIRED
      then insert 1 (mw_holders mutex_start) else mw_holders mutex_start)\<rparr>"
  have "mutex_step mutex_start ?w"
    by (rule mutex_return [of _ _ 0 0])
      (simp_all add: mutex_start_def mutex_acquire_begin_def klib_synch_mutex_init_def)
  moreover have "mutex_step ?w (?w\<lparr>mw_mutex := mw_mutex mutex_example, mw_threads := mw_threads mutex_example,
     mw_inside := (mw_inside ?w)(2 \<mapsto> MUTEX_MAX_WAIT)\<rparr>)"
    by (rule mutex_block [of _ _ 0])
      (simp_all add: mutex_start_def mutex_acquire_begin_def klib_synch_mutex_init_def mutex_example_def
        MUTEX_MAX_WAIT_def block_thread_def stop_thread_def blank_thread_def)
  moreover have "?w\<lparr>mw_mutex := mw_mutex mutex_example, mw_threads := mw_threads mutex_example,
     mw_inside := (mw_inside ?w)(2 \<mapsto> MUTEX_MAX_WAIT)\<rparr> = mutex_example"
    by (simp add: mutex_example_def mutex_start_def)
  ultimately show ?thesis by (metis converse_rtranclp_into_rtranclp rtranclp.rtrancl_refl)
qed

theorem mutex_correct_witness:
  "mutex_step\<^sup>*\<^sup>* mutex_start mutex_example \<and>
   (\<exists>m ths. klib_synch_mutex_release 1 False (mw_mutex mutex_example) (mw_threads mutex_example) = Some (m, ths) \<and>
      owner_thread m = Some 2 \<and> permit_running (ths 2))"
proof -
  have h: "1 \<in> mw_holders mutex_example" by (simp add: mutex_example_def)
  show ?thesis
    using mutex_correct [OF mutex_example_reachable, of 1 1 0 0] mutex_example_reachable h
    by (simp add: mutex_example_def blank_thread_def) blast
qed

text \<open>
  A wake-up time that is left over breaks the mutex. Thread 2 waits for a mutex for 1 microsecond from time
  0 and gets it at once from the owner; starting the thread does not clear its wake-up time. When the
  thread then waits for the same mutex without limit, the scheduler wakes it at that time and the
  assertion that it owns the mutex fails.
\<close>

theorem mutex_stale_wakeup_panics:
  "let m0 = \<lparr>mutex_locked = True, owner_thread = Some 1, waiting_threads_list = []\<rparr>;
       ths0 = (\<lambda>_. blank_thread\<lparr>permit_running := True\<rparr>) in
   \<exists>m1 ths1 m2 ths2 m3 ths3 m4 ths4 m5 ths5.
     mutex_acquire_begin 2 0 1 m0 ths0 = Some (None, m1, ths1) \<and>
     klib_synch_mutex_release 1 False m1 ths1 = Some (m2, ths2) \<and>
     mutex_acquire_resume 2 1 m2 ths2 = Some (SYNC_ACQ_ACQUIRED, m2, ths2) \<and> wake_thread_after (ths2 2) = 1000 \<and>
     klib_synch_mutex_release 2 False m2 ths2 = Some (m3, ths3) \<and>
     mutex_acquire_begin 1 0 0 m3 ths3 = Some (Some SYNC_ACQ_ACQUIRED, m4, ths4) \<and>
     mutex_acquire_begin 2 0 MUTEX_MAX_WAIT m4 ths4 = Some (None, m5, ths5) \<and>
     permit_running (wake_if_due 2000 (ths5 2)) \<and>
     mutex_acquire_resume 2 MUTEX_MAX_WAIT m5 (ths5(2 := wake_if_due 2000 (ths5 2))) = None"
  by (simp add: mutex_acquire_begin_def mutex_acquire_resume_def klib_synch_mutex_release_def block_thread_def
      stop_thread_def start_thread_def wake_if_due_def blank_thread_def MUTEX_MAX_WAIT_def)

subsection \<open>Semaphore\<close>

definition SEMAPHORE_MAX_WAIT :: u64 where
  "SEMAPHORE_MAX_WAIT = 0xFFFFFFFFFFFFFFFF"

record klib_semaphore =
  cur_user_count :: u64
  max_users :: u64
  sem_waiting_list :: "nat list"

definition klib_synch_semaphore_init :: "u64 \<Rightarrow> u64 \<Rightarrow> klib_semaphore option" where
  "klib_synch_semaphore_init max_u start_users = do {
     ASSERT (max_u \<noteq> 0);
     Some \<lparr>cur_user_count = start_users, max_users = max_u, sem_waiting_list = []\<rparr>
   }"

text \<open>
  The two halves of the wait. The thread is queued with a list item of its own, while the second half asks
  whether the thread's \<open>synch_list_item\<close> is in a list.
\<close>

definition semaphore_wait_begin :: "nat \<Rightarrow> u64 \<Rightarrow> u64 \<Rightarrow> klib_semaphore \<Rightarrow> thread_store \<Rightarrow>
    (SYNC_ACQ_RESULT option \<times> klib_semaphore \<times> thread_store) option" where
  "semaphore_wait_begin cur now max_wait sem ths = do {
     ASSERT (max_wait = 0 \<or> max_wait = SEMAPHORE_MAX_WAIT);
     if cur_user_count sem < max_users sem
     then Some (Some SYNC_ACQ_ACQUIRED, sem\<lparr>cur_user_count := cur_user_count sem + 1\<rparr>, ths)
     else if max_wait = 0 then Some (Some SYNC_ACQ_TIMEOUT, sem, ths)
     else do {
       ASSERT (cur_user_count sem = max_users sem);
       Some (None, sem\<lparr>sem_waiting_list := sem_waiting_list sem @ [cur]\<rparr>,
             ths(cur := block_thread SEMAPHORE_MAX_WAIT now max_wait (ths cur)))
     }
   }"

definition semaphore_wait_resume :: "nat \<Rightarrow> klib_semaphore \<Rightarrow> thread_store \<Rightarrow> SYNC_ACQ_RESULT \<times> klib_semaphore" where
  "semaphore_wait_resume cur sem ths =
     (if \<not> synch_item_in_list (ths cur) then (SYNC_ACQ_ACQUIRED, sem)
      else (SYNC_ACQ_TIMEOUT, sem\<lparr>sem_waiting_list := remove1 cur (sem_waiting_list sem)\<rparr>))"

definition klib_synch_semaphore_clear :: "klib_semaphore \<Rightarrow> thread_store \<Rightarrow> (klib_semaphore \<times> thread_store) option" where
  "klib_synch_semaphore_clear sem ths =
     (case sem_waiting_list sem of
        [] \<Rightarrow> do { ASSERT (cur_user_count sem > 0); Some (sem\<lparr>cur_user_count := cur_user_count sem - 1\<rparr>, ths) }
      | next_owner # rest \<Rightarrow> do {
          ASSERT (cur_user_count sem = max_users sem);
          Some (sem\<lparr>sem_waiting_list := rest\<rparr>, ths(next_owner := snd (start_thread (ths next_owner))))
        })"

text \<open>
  A semaphore in use: the threads inside a blocking wait and the number of acquisitions reported and not
  cleared yet, counting the users it starts with.
\<close>

record sem_world =
  sw_sem :: klib_semaphore
  sw_threads :: thread_store
  sw_inside :: "nat set"
  sw_held :: nat

inductive sem_step :: "sem_world \<Rightarrow> sem_world \<Rightarrow> bool" where
  sem_return: "t \<notin> sw_inside w \<Longrightarrow>
    semaphore_wait_begin t now max_wait (sw_sem w) (sw_threads w) = Some (Some r, sem, ths) \<Longrightarrow>
    sem_step w (w\<lparr>sw_sem := sem, sw_threads := ths,
      sw_held := (if r = SYNC_ACQ_ACQUIRED then sw_held w + 1 else sw_held w)\<rparr>)"
| sem_block: "t \<notin> sw_inside w \<Longrightarrow> wake_thread_after (sw_threads w t) = 0 \<Longrightarrow>
    semaphore_wait_begin t now max_wait (sw_sem w) (sw_threads w) = Some (None, sem, ths) \<Longrightarrow>
    sem_step w (w\<lparr>sw_sem := sem, sw_threads := ths, sw_inside := insert t (sw_inside w)\<rparr>)"
| sem_resume: "t \<in> sw_inside w \<Longrightarrow> permit_running (sw_threads w t) \<Longrightarrow>
    semaphore_wait_resume t (sw_sem w) (sw_threads w) = (r, sem) \<Longrightarrow>
    sem_step w (w\<lparr>sw_sem := sem, sw_inside := sw_inside w - {t},
      sw_held := (if r = SYNC_ACQ_ACQUIRED then sw_held w + 1 else sw_held w)\<rparr>)"
| sem_clear: "sw_held w > 0 \<Longrightarrow> klib_synch_semaphore_clear (sw_sem w) (sw_threads w) = Some (sem, ths) \<Longrightarrow>
    sem_step w (w\<lparr>sw_sem := sem, sw_threads := ths, sw_held := sw_held w - 1\<rparr>)"
| sem_wake: "sem_step w (w\<lparr>sw_threads := (sw_threads w)(t := wake_if_due now (sw_threads w t))\<rparr>)"
| sem_env: "t \<notin> sw_inside w \<Longrightarrow> \<not> synch_item_in_list th \<Longrightarrow>
    sem_step w (w\<lparr>sw_threads := (sw_threads w)(t := th)\<rparr>)"

definition sem_inv :: "sem_world \<Rightarrow> bool" where
  "sem_inv w \<longleftrightarrow>
     (let sem = sw_sem w; ws = sem_waiting_list sem in
      finite (sw_inside w) \<and> distinct ws \<and> set ws \<subseteq> sw_inside w \<and>
      (ws \<noteq> [] \<longrightarrow> cur_user_count sem = max_users sem) \<and> cur_user_count sem \<le> max_users sem \<and>
      (\<forall>t. \<not> synch_item_in_list (sw_threads w t)) \<and>
      (\<forall>t\<in>set ws. \<not> permit_running (sw_threads w t) \<and> wake_thread_after (sw_threads w t) = 0) \<and>
      sw_held w + card (sw_inside w - set ws) = unat (cur_user_count sem))"

lemma sem_invD:
  assumes "sem_inv w"
  shows "finite (sw_inside w)" "distinct (sem_waiting_list (sw_sem w))"
    "set (sem_waiting_list (sw_sem w)) \<subseteq> sw_inside w"
    "sem_waiting_list (sw_sem w) \<noteq> [] \<Longrightarrow> cur_user_count (sw_sem w) = max_users (sw_sem w)"
    "cur_user_count (sw_sem w) \<le> max_users (sw_sem w)" "\<not> synch_item_in_list (sw_threads w t)"
    "t \<in> set (sem_waiting_list (sw_sem w)) \<Longrightarrow>
       \<not> permit_running (sw_threads w t) \<and> wake_thread_after (sw_threads w t) = 0"
    "sw_held w + card (sw_inside w - set (sem_waiting_list (sw_sem w))) = unat (cur_user_count (sw_sem w))"
  using assms unfolding sem_inv_def Let_def by (elim conjE; (assumption | blast))+

lemma sem_inv_return:
  assumes "sem_inv w" and "t \<notin> sw_inside w"
    and "semaphore_wait_begin t now max_wait (sw_sem w) (sw_threads w) = Some (Some r, sem, ths)"
  shows "sem_inv (w\<lparr>sw_sem := sem, sw_threads := ths,
      sw_held := (if r = SYNC_ACQ_ACQUIRED then sw_held w + 1 else sw_held w)\<rparr>)"
proof -
  note D = sem_invD [OF assms(1)]
  consider "r = SYNC_ACQ_TIMEOUT" "sem = sw_sem w" "ths = sw_threads w"
    | "r = SYNC_ACQ_ACQUIRED" "cur_user_count (sw_sem w) < max_users (sw_sem w)"
      "sem = (sw_sem w)\<lparr>cur_user_count := cur_user_count (sw_sem w) + 1\<rparr>" "ths = sw_threads w"
    using assms(3) by (auto simp: semaphore_wait_begin_def split: if_splits)
  then show ?thesis
  proof cases
    case 1
    then show ?thesis using assms(1) by (simp add: sem_inv_def)
  next
    case 2
    have e: "sem_waiting_list (sw_sem w) = []" using D(4) 2(2) by (metis less_irrefl)
    have u: "unat (cur_user_count (sw_sem w) + 1) = unat (cur_user_count (sw_sem w)) + 1"
      using 2(2) unat_lt_u64 [of "max_users (sw_sem w)"]
      by (subst unat_add_no_wrap) (simp_all add: word_less_nat_alt)
    have "cur_user_count (sw_sem w) + 1 \<le> max_users (sw_sem w)" using 2(2) by (rule inc_le)
    then show ?thesis using 2 e u D(1,6,8) by (simp add: sem_inv_def Let_def)
  qed
qed

lemma sem_inv_block:
  assumes "sem_inv w" and "t \<notin> sw_inside w" and "wake_thread_after (sw_threads w t) = 0"
    and "semaphore_wait_begin t now max_wait (sw_sem w) (sw_threads w) = Some (None, sem, ths)"
  shows "sem_inv (w\<lparr>sw_sem := sem, sw_threads := ths, sw_inside := insert t (sw_inside w)\<rparr>)"
proof -
  note D = sem_invD [OF assms(1)]
  have b: "max_wait = SEMAPHORE_MAX_WAIT" "cur_user_count (sw_sem w) = max_users (sw_sem w)"
    "sem = (sw_sem w)\<lparr>sem_waiting_list := sem_waiting_list (sw_sem w) @ [t]\<rparr>"
    "ths = (sw_threads w)(t := block_thread SEMAPHORE_MAX_WAIT now max_wait (sw_threads w t))"
    using assms(4) by (auto simp: semaphore_wait_begin_def split: if_splits)
  have "t \<notin> set (sem_waiting_list (sw_sem w))" using D(3) assms(2) by blast
  moreover have "insert t (sw_inside w) - insert t (set (sem_waiting_list (sw_sem w))) =
    sw_inside w - set (sem_waiting_list (sw_sem w))" using assms(2) by auto
  ultimately show ?thesis
    using b assms(3) D(1,2,3,5,8) D(6) D(7) unfolding sem_inv_def Let_def by auto
qed

lemma sem_inv_resume:
  assumes "sem_inv w" and "t \<in> sw_inside w" and "permit_running (sw_threads w t)"
    and "semaphore_wait_resume t (sw_sem w) (sw_threads w) = (r, sem)"
  shows "sem_inv (w\<lparr>sw_sem := sem, sw_inside := sw_inside w - {t},
      sw_held := (if r = SYNC_ACQ_ACQUIRED then sw_held w + 1 else sw_held w)\<rparr>)"
proof -
  note D = sem_invD [OF assms(1)]
  let ?ws = "set (sem_waiting_list (sw_sem w))"
  have r: "r = SYNC_ACQ_ACQUIRED" "sem = sw_sem w" using assms(4) D(6) by (auto simp: semaphore_wait_resume_def)
  have t: "t \<notin> ?ws" using D(7) assms(3) by blast
  have "sw_inside w - {t} - ?ws = (sw_inside w - ?ws) - {t}" by auto
  then have "Suc (card (sw_inside w - {t} - ?ws)) = card (sw_inside w - ?ws)"
    using t assms(2) D(1) card_Suc_Diff1 [of "sw_inside w - ?ws" t] by simp
  then show ?thesis using r t D(1,2,3,4,5,8) D(6) D(7) unfolding sem_inv_def Let_def by auto
qed

lemma sem_inv_clear:
  assumes "sem_inv w" and "sw_held w > 0" and "klib_synch_semaphore_clear (sw_sem w) (sw_threads w) = Some (sem, ths)"
  shows "sem_inv (w\<lparr>sw_sem := sem, sw_threads := ths, sw_held := sw_held w - 1\<rparr>)"
proof (cases "sem_waiting_list (sw_sem w)")
  case Nil
  note D = sem_invD [OF assms(1)]
  have c: "cur_user_count (sw_sem w) > 0" and s: "sem = (sw_sem w)\<lparr>cur_user_count := cur_user_count (sw_sem w) - 1\<rparr>" "ths = sw_threads w"
    using assms(3) Nil by (auto simp: klib_synch_semaphore_clear_def)
  have u: "unat (cur_user_count (sw_sem w) - 1) = unat (cur_user_count (sw_sem w)) - 1"
    using c by (simp add: unat_minus_one word_neq_0_conv)
  then have "cur_user_count (sw_sem w) - 1 \<le> max_users (sw_sem w)" using D(5) by (simp add: word_le_nat_alt)
  then show ?thesis using Nil s u D(1,8) D(6) assms(2) by (simp add: sem_inv_def Let_def)
next
  case (Cons n rest)
  note D = sem_invD [OF assms(1)]
  have s: "sem = (sw_sem w)\<lparr>sem_waiting_list := rest\<rparr>" "ths = (sw_threads w)(n := snd (start_thread (sw_threads w n)))"
    using assms(3) Cons by (auto simp: klib_synch_semaphore_clear_def)
  have n: "n \<in> sw_inside w" "n \<notin> set rest" "distinct rest" using D(2,3) Cons by auto
  have e: "sw_inside w - set rest = insert n (sw_inside w - set (n # rest))" using n by auto
  have k: "card (sw_inside w - set rest) = Suc (card (sw_inside w - set (n # rest)))"
    unfolding e by (rule card_insert_disjoint) (use D(1) in auto)
  have a: "\<forall>t\<in>set rest. \<not> permit_running (ths t) \<and> wake_thread_after (ths t) = 0" using D(7) Cons s(2) n(2) by auto
  have i: "\<forall>t. \<not> synch_item_in_list (ths t)" using D(6) s(2) by simp
  have h: "sw_held w - 1 + card (sw_inside w - set rest) = unat (cur_user_count (sw_sem w))"
    using k assms(2) D(8) Cons by simp
  have "set rest \<subseteq> sw_inside w" "cur_user_count (sw_sem w) = max_users (sw_sem w)" using D(3,4) Cons by auto
  then show ?thesis using s(1) n(3) a i h D(1) by (simp add: sem_inv_def Let_def)
qed

lemma sem_inv_threads:
  assumes "sem_inv w" and "\<not> synch_item_in_list th"
    and "\<not> permit_running (sw_threads w t) \<Longrightarrow> wake_thread_after (sw_threads w t) = 0 \<Longrightarrow> t \<in> sw_inside w \<Longrightarrow>
      th = sw_threads w t"
  shows "sem_inv (w\<lparr>sw_threads := (sw_threads w)(t := th)\<rparr>)"
  using assms unfolding sem_inv_def Let_def by auto

lemma sem_inv_step: "sem_step w w' \<Longrightarrow> sem_inv w \<Longrightarrow> sem_inv w'"
proof (induction rule: sem_step.induct)
  case (sem_wake w t now)
  then show ?case using sem_invD(6) [OF sem_wake, of t]
    by (intro sem_inv_threads) (simp_all add: wake_if_due_asleep)
next
  case (sem_env w t th)
  then show ?case by (intro sem_inv_threads) auto
qed (blast intro: sem_inv_return sem_inv_block sem_inv_resume sem_inv_clear)+

definition sem_start :: "klib_semaphore \<Rightarrow> sem_world" where
  "sem_start sem = \<lparr>sw_sem = sem, sw_threads = \<lambda>_. blank_thread, sw_inside = {}, sw_held = unat (cur_user_count sem)\<rparr>"

lemma sem_step_max_users: "sem_step w w' \<Longrightarrow> max_users (sw_sem w') = max_users (sw_sem w)"
  by (induction rule: sem_step.induct)
    (auto simp: semaphore_wait_begin_def semaphore_wait_resume_def klib_synch_semaphore_clear_def
      split: if_splits list.splits)

interpretation sem: transition_system sem_step sem_inv
  by unfold_locales (rule sem_inv_step)

lemma sem_inv_reachable:
  assumes "sem_step\<^sup>*\<^sup>* (sem_start sem) w" and "klib_synch_semaphore_init max_u start_users = Some sem"
    and "start_users \<le> max_u"
  shows "sem_inv w \<and> max_users (sw_sem w) = max_u"
proof -
  have i: "sem_inv (sem_start sem)" and m: "max_users (sw_sem (sem_start sem)) = max_u"
    using assms(2,3) by (auto simp: sem_start_def sem_inv_def klib_synch_semaphore_init_def blank_thread_def)
  have "max_users (sw_sem w) = max_users (sw_sem (sem_start sem))"
    using assms(1) i by (rule sem.run_keeps_value) (rule sem_step_max_users)
  then show ?thesis using sem.run_keeps [OF assms(1) i] m by simp
qed

text \<open>
  The semaphore, over all interleavings of waits, clears by users and wake-ups by the scheduler, when it
  starts with no more users than its maximum, no thread has a wake-up time left over when it
  blocks, and nobody else starts a thread that waits: the acquisitions reported and not cleared never exceed the maximum; no assertion of a wait or a
  clear fails; a clear passes the place to the thread that has waited longest, if any, and a thread
  that runs again inside its wait has been given a place.
\<close>

theorem semaphore_correct:
  assumes "klib_synch_semaphore_init max_u start_users = Some sem" and "start_users \<le> max_u"
    and "sem_step\<^sup>*\<^sup>* (sem_start sem) w"
  shows "sw_held w \<le> unat max_u \<and>
    (t \<notin> sw_inside w \<and> (max_wait = 0 \<or> max_wait = SEMAPHORE_MAX_WAIT) \<longrightarrow>
       semaphore_wait_begin t now max_wait (sw_sem w) (sw_threads w) \<noteq> None) \<and>
    (t \<in> sw_inside w \<and> permit_running (sw_threads w t) \<longrightarrow> t \<notin> set (sem_waiting_list (sw_sem w)) \<and>
       fst (semaphore_wait_resume t (sw_sem w) (sw_threads w)) = SYNC_ACQ_ACQUIRED) \<and>
    (sw_held w > 0 \<longrightarrow> (\<exists>sem' ths. klib_synch_semaphore_clear (sw_sem w) (sw_threads w) = Some (sem', ths) \<and>
       (case sem_waiting_list (sw_sem w) of
          [] \<Rightarrow> cur_user_count sem' = cur_user_count (sw_sem w) - 1
        | n # rest \<Rightarrow> sem_waiting_list sem' = rest \<and> cur_user_count sem' = max_users sem' \<and>
            (\<not> thread_destroyed (sw_threads w n) \<longrightarrow> permit_running (ths n)))))"
proof -
  have i: "sem_inv w" and mx: "max_users (sw_sem w) = max_u" using sem_inv_reachable [OF assms(3,1,2)] by auto
  note D = sem_invD [OF i]
  have le: "unat (cur_user_count (sw_sem w)) \<le> unat max_u" using D(5) mx by (simp add: word_le_nat_alt)
  then have "sw_held w \<le> unat max_u" using D(8) by linarith
  moreover have "semaphore_wait_begin t now max_wait (sw_sem w) (sw_threads w) \<noteq> None"
    if "max_wait = 0 \<or> max_wait = SEMAPHORE_MAX_WAIT"
    using that D(5) by (auto simp: semaphore_wait_begin_def)
  moreover have "fst (semaphore_wait_resume t (sw_sem w) (sw_threads w)) = SYNC_ACQ_ACQUIRED"
    using D(6) by (simp add: semaphore_wait_resume_def)
  moreover have "cur_user_count (sw_sem w) > 0" if "sw_held w > 0"
    using that D(8) by (metis add_is_0 not_gr_zero unat_0 word_neq_0_conv)
  ultimately show ?thesis
    using D(4,7) by (auto simp: klib_synch_semaphore_clear_def start_thread_def split: list.split)
qed

theorem semaphore_correct_witness:
  "klib_synch_semaphore_init 1 1 = Some \<lparr>cur_user_count = 1, max_users = 1, sem_waiting_list = []\<rparr> \<and>
   (\<exists>sem' ths. klib_synch_semaphore_clear \<lparr>cur_user_count = 1, max_users = 1, sem_waiting_list = []\<rparr> (\<lambda>_. blank_thread) =
      Some (sem', ths) \<and> cur_user_count sem' = 0)"
proof -
  let ?sem = "\<lparr>cur_user_count = 1, max_users = 1, sem_waiting_list = []\<rparr>"
  have i: "klib_synch_semaphore_init 1 1 = Some ?sem" by (simp add: klib_synch_semaphore_init_def)
  show ?thesis
    using semaphore_correct [OF i order.refl rtranclp.rtrancl_refl, of 0 0 0] i by (simp add: sem_start_def)
qed

text \<open>
  What the semaphore does outside those conditions. A thread queued on a full semaphore and woken by a
  wake-up time left over from earlier is told that it has acquired the semaphore, without a place
  being free and while it is still on the waiting list, because the code looks at the list item that
  was not queued. And a semaphore initialised with more users than its maximum panics on the first
  blocking wait.
\<close>

theorem semaphore_unchecked_cases:
  "(let sem = \<lparr>cur_user_count = 1, max_users = 1, sem_waiting_list = []\<rparr>;
        ths = (\<lambda>_. blank_thread\<lparr>permit_running := True, wake_thread_after := 1000\<rparr>) in
    \<exists>sem1 ths1. semaphore_wait_begin 2 0 SEMAPHORE_MAX_WAIT sem ths = Some (None, sem1, ths1) \<and>
      permit_running (wake_if_due 2000 (ths1 2)) \<and>
      semaphore_wait_resume 2 sem1 (ths1(2 := wake_if_due 2000 (ths1 2))) = (SYNC_ACQ_ACQUIRED, sem1) \<and>
      cur_user_count sem1 = 1 \<and> sem_waiting_list sem1 = [2]) \<and>
   (\<exists>sem. klib_synch_semaphore_init 1 2 = Some sem \<and>
      (\<forall>t now ths. semaphore_wait_begin t now SEMAPHORE_MAX_WAIT sem ths = None))"
  by (auto simp: Let_def semaphore_wait_begin_def semaphore_wait_resume_def klib_synch_semaphore_init_def
      block_thread_def stop_thread_def wake_if_due_def blank_thread_def SEMAPHORE_MAX_WAIT_def)

end
