(* ===== verification/Work_Queue.thy ===== *)
theory Work_Queue
  imports Azalea_Prelude
begin

text \<open>
  The work queue of \<open>kernel/processor/work_queue.cpp\<close>: messages are queued on the object that receives
  them, receivers with messages are queued on one list for the whole system, and worker threads serve that list.

  The model keeps the locks: every acquisition of a spinlock is a step of its own, so the steps
  interleave at the granularity of the critical sections, and deadlock can be stated. A handler that
  queues messages in turn behaves like another thread doing so, as no lock is held around it.
\<close>

subsection \<open>State\<close>

record message_receiver =
  message_queue :: "nat list"
  is_in_receiver_queue :: bool
  in_process_mode :: bool
  queue_lock :: "nat option"

text \<open>
  Where a thread is. In \<open>queue_message\<close>: before the receiver's lock, holding it, before the lock of the list,
  holding both, before the release of the receiver's lock. In \<open>work_queue_one_loop\<close>: before the lock
  of the list, holding it, in \<open>begin_processing_msgs\<close> before and after its lock, before the release
  of the list with a receiver and without one. In \<open>process_next_message\<close>: before the lock,
  holding it, and handling the message, with whether more messages remain.
\<close>

datatype wq_pc = Idle
  | QM1 nat nat | QM2 nat nat | QM3 nat | QM4 nat | QM5 nat
  | WL1 | WL2 | WL3 nat | WL4 nat | WL5 nat | WL6
  | PM1 nat | PM2 nat | PM3 nat nat bool

record wq_state =
  receivers :: "nat \<Rightarrow> message_receiver"
  receiver_queue :: "nat list"
  receiver_queue_lock :: "nat option"
  receiver_alive :: "nat \<Rightarrow> bool"
  pcs :: "nat \<Rightarrow> wq_pc"
  sent :: "nat \<Rightarrow> nat list"
  taken :: "nat \<Rightarrow> nat list"

definition upd_recv :: "nat \<Rightarrow> (message_receiver \<Rightarrow> message_receiver) \<Rightarrow> wq_state \<Rightarrow> wq_state" where
  "upd_recv r f s = s\<lparr>receivers := (receivers s)(r := f (receivers s r))\<rparr>"

definition at_pc :: "nat \<Rightarrow> wq_pc \<Rightarrow> wq_state \<Rightarrow> wq_state" where
  "at_pc t p s = s\<lparr>pcs := (pcs s)(t := p)\<rparr>"

subsection \<open>The critical sections\<close>

text \<open>\<open>queue_message\<close> with the receiver's lock: the message is added, and the receiver may have to be queued.\<close>

definition push_message :: "nat \<Rightarrow> nat \<Rightarrow> wq_state \<Rightarrow> bool \<times> wq_state" where
  "push_message r m s =
     (let s = upd_recv r (\<lambda>q. q\<lparr>message_queue := message_queue q @ [m]\<rparr>) s in
      (\<not> is_in_receiver_queue (receivers s r) \<and> \<not> in_process_mode (receivers s r), s))"

definition push_receiver :: "nat \<Rightarrow> wq_state \<Rightarrow> wq_state" where
  "push_receiver r s =
     upd_recv r (\<lambda>q. q\<lparr>is_in_receiver_queue := True\<rparr>) (s\<lparr>receiver_queue := receiver_queue s @ [r]\<rparr>)"

text \<open>The front of the list is removed; the result is the receiver if it still exists.\<close>

definition pop_receiver :: "wq_state \<Rightarrow> nat option \<times> wq_state" where
  "pop_receiver s =
     (case receiver_queue s of
        [] \<Rightarrow> (None, s)
      | r # rest \<Rightarrow> (if receiver_alive s r then Some r else None, s\<lparr>receiver_queue := rest\<rparr>))"

definition begin_processing_msgs :: "nat \<Rightarrow> wq_state \<Rightarrow> wq_state" where
  "begin_processing_msgs r = upd_recv r (\<lambda>q. q\<lparr>is_in_receiver_queue := False, in_process_mode := True\<rparr>)"

text \<open>
  The critical section of \<open>process_next_message\<close>: the message and whether more remain. Without a message
  the function returns and never releases the lock: \<^term>\<open>None\<close>.
\<close>

definition next_message :: "nat \<Rightarrow> wq_state \<Rightarrow> (nat \<times> bool \<times> wq_state) option" where
  "next_message r s =
     (case message_queue (receivers s r) of
        [] \<Rightarrow> None
      | m # rest \<Rightarrow>
          Some (m, rest \<noteq> [],
            upd_recv r (\<lambda>q. q\<lparr>message_queue := rest, in_process_mode := (rest \<noteq> [] \<and> in_process_mode q)\<rparr>) s))"

definition lock_recv :: "nat \<Rightarrow> nat option \<Rightarrow> wq_state \<Rightarrow> wq_state" where
  "lock_recv r l = upd_recv r (\<lambda>q. q\<lparr>queue_lock := l\<rparr>)"

subsection \<open>The steps\<close>

text \<open>The receivers a thread has a reference to.\<close>

fun pc_receivers :: "wq_pc \<Rightarrow> nat set" where
  "pc_receivers (QM1 r m) = {r}" | "pc_receivers (QM2 r m) = {r}" | "pc_receivers (QM3 r) = {r}"
| "pc_receivers (QM4 r) = {r}" | "pc_receivers (QM5 r) = {r}" | "pc_receivers (WL3 r) = {r}"
| "pc_receivers (WL4 r) = {r}" | "pc_receivers (WL5 r) = {r}" | "pc_receivers (PM1 r) = {r}"
| "pc_receivers (PM2 r) = {r}" | "pc_receivers (PM3 r m b) = {r}" | "pc_receivers _ = {}"

inductive wq_step :: "nat \<Rightarrow> wq_state \<Rightarrow> wq_state \<Rightarrow> bool" where
  qm_call: "pcs s t = Idle \<Longrightarrow> receiver_alive s r \<Longrightarrow> wq_step t s (at_pc t (QM1 r m) s)"
| qm_lock: "pcs s t = QM1 r m \<Longrightarrow> queue_lock (receivers s r) = None \<Longrightarrow>
    wq_step t s (at_pc t (QM2 r m) (lock_recv r (Some t) s))"
| qm_push: "pcs s t = QM2 r m \<Longrightarrow> push_message r m s = (needs_queue, s') \<Longrightarrow>
    wq_step t s (at_pc t (if needs_queue then QM3 r else QM5 r) (s'\<lparr>sent := (sent s')(r := sent s' r @ [m])\<rparr>))"
| qm_lock_list: "pcs s t = QM3 r \<Longrightarrow> receiver_queue_lock s = None \<Longrightarrow>
    wq_step t s (at_pc t (QM4 r) (s\<lparr>receiver_queue_lock := Some t\<rparr>))"
| qm_queue: "pcs s t = QM4 r \<Longrightarrow> wq_step t s (at_pc t (QM5 r) ((push_receiver r s)\<lparr>receiver_queue_lock := None\<rparr>))"
| qm_unlock: "pcs s t = QM5 r \<Longrightarrow> wq_step t s (at_pc t Idle (lock_recv r None s))"
| wl_call: "pcs s t = Idle \<Longrightarrow> wq_step t s (at_pc t WL1 s)"
| wl_lock: "pcs s t = WL1 \<Longrightarrow> receiver_queue_lock s = None \<Longrightarrow>
    wq_step t s (at_pc t WL2 (s\<lparr>receiver_queue_lock := Some t\<rparr>))"
| wl_pop: "pcs s t = WL2 \<Longrightarrow> pop_receiver s = (r, s') \<Longrightarrow>
    wq_step t s (at_pc t (case r of Some r \<Rightarrow> WL3 r | None \<Rightarrow> WL6) s')"
| wl_begin: "pcs s t = WL3 r \<Longrightarrow> queue_lock (receivers s r) = None \<Longrightarrow>
    wq_step t s (at_pc t (WL4 r) (lock_recv r (Some t) s))"
| wl_flags: "pcs s t = WL4 r \<Longrightarrow> wq_step t s (at_pc t (WL5 r) (lock_recv r None (begin_processing_msgs r s)))"
| wl_unlock: "pcs s t = WL5 r \<Longrightarrow> wq_step t s (at_pc t (PM1 r) (s\<lparr>receiver_queue_lock := None\<rparr>))"
| wl_none: "pcs s t = WL6 \<Longrightarrow> wq_step t s (at_pc t Idle (s\<lparr>receiver_queue_lock := None\<rparr>))"
| pm_lock: "pcs s t = PM1 r \<Longrightarrow> queue_lock (receivers s r) = None \<Longrightarrow>
    wq_step t s (at_pc t (PM2 r) (lock_recv r (Some t) s))"
| pm_next: "pcs s t = PM2 r \<Longrightarrow> next_message r s = Some (m, more_msgs, s') \<Longrightarrow>
    wq_step t s (at_pc t (PM3 r m more_msgs)
      ((lock_recv r None s')\<lparr>taken := (taken s')(r := taken s' r @ [m])\<rparr>))"
| pm_handled: "pcs s t = PM3 r m more_msgs \<Longrightarrow> wq_step t s (at_pc t (if more_msgs then PM1 r else Idle) s)"
| wq_destroy: "receiver_alive s r \<Longrightarrow> (\<And>u. r \<notin> pc_receivers (pcs s u)) \<Longrightarrow>
    wq_step t s (s\<lparr>receiver_alive := (receiver_alive s)(r := False)\<rparr>)"

inductive_cases wq_stepE: "wq_step t s s'"

subsection \<open>The invariant\<close>











text \<open>No receiver with messages is forgotten, and messages are taken from each queue in the order they were sent.\<close>

definition recv_busy :: "message_receiver \<Rightarrow> bool" where
  "recv_busy q = (message_queue q \<noteq> [] \<or> is_in_receiver_queue q \<or> in_process_mode q)"




lemmas wq_ops = upd_recv_def at_pc_def push_message_def push_receiver_def pop_receiver_def begin_processing_msgs_def
  next_message_def lock_recv_def
















lemma wq_sel [simp]:
  "receivers (at_pc t p s) = receivers s" "receiver_queue (at_pc t p s) = receiver_queue s"
  "receiver_alive (at_pc t p s) = receiver_alive s" "pcs (at_pc t p s) = (pcs s)(t := p)"
  "receiver_queue (lock_recv r l s) = receiver_queue s" "receiver_alive (lock_recv r l s) = receiver_alive s"
  "pcs (lock_recv r l s) = pcs s" "recv_busy (receivers (lock_recv r l s) r') = recv_busy (receivers s r')"
  by (simp_all add: at_pc_def lock_recv_def upd_recv_def recv_busy_def)






subsection \<open>Correctness\<close>

definition wq_start :: wq_state where
  "wq_start = \<lparr>receivers = \<lambda>_. \<lparr>message_queue = [], is_in_receiver_queue = False, in_process_mode = False, queue_lock = None\<rparr>,
     receiver_queue = [], receiver_queue_lock = None, receiver_alive = \<lambda>_. True, pcs = \<lambda>_. Idle,
     sent = \<lambda>_. [], taken = \<lambda>_. []\<rparr>"

definition wq_reachable :: "wq_state \<Rightarrow> bool" where
  "wq_reachable s = (\<lambda>s s'. \<exists>t. wq_step t s s')\<^sup>*\<^sup>* wq_start s"













subsection \<open>Handlers\<close>

abbreviation wq_runs :: "wq_state \<Rightarrow> wq_state \<Rightarrow> bool" where
  "wq_runs \<equiv> (\<lambda>s s'. \<exists>t. wq_step t s s')\<^sup>*\<^sup>*"

lemma wq_run_step: "wq_step t s s' \<Longrightarrow> wq_runs s' s'' \<Longrightarrow> wq_runs s s''"
  by (rule converse_rtranclp_into_rtranclp) blast+

text \<open>One thread runs all of \<open>queue_message\<close>, or a round of the worker's loop up to the handler of the only message.\<close>

lemma send_run:
  assumes "pcs s t = Idle" "receiver_alive s r" "queue_lock (receivers s r) = None" "receiver_queue_lock s = None"
    and "\<not> is_in_receiver_queue (receivers s r)" "\<not> in_process_mode (receivers s r)"
  shows "wq_runs s (s\<lparr>receivers := (receivers s)(r := (receivers s r)\<lparr>message_queue := message_queue (receivers s r) @ [m], is_in_receiver_queue := True\<rparr>),
    receiver_queue := receiver_queue s @ [r], sent := (sent s)(r := sent s r @ [m])\<rparr>)" (is "wq_runs s ?s")
proof -
  define s1 where "s1 = at_pc t (QM1 r m) s"
  define s2 where "s2 = at_pc t (QM2 r m) (lock_recv r (Some t) s1)"
  define p where "p = snd (push_message r m s2)"
  define s3 where "s3 = at_pc t (QM3 r) (p\<lparr>sent := (sent p)(r := sent p r @ [m])\<rparr>)"
  define s4 where "s4 = at_pc t (QM4 r) (s3\<lparr>receiver_queue_lock := Some t\<rparr>)"
  define s5 where "s5 = at_pc t (QM5 r) ((push_receiver r s4)\<lparr>receiver_queue_lock := None\<rparr>)"
  note d = s1_def s2_def p_def s3_def s4_def s5_def wq_ops Let_def
  have "push_message r m s2 = (True, p)" using assms(5,6) by (simp add: d)
  then have a3: "wq_step t s2 s3" using wq_step.qm_push [of s2 t r m True p] by (simp add: s3_def) (simp add: d)
  have a1: "wq_step t s s1" unfolding s1_def by (rule wq_step.qm_call [OF assms(1,2)])
  have a2: "wq_step t s1 s2" unfolding s2_def by (rule wq_step.qm_lock) (use assms(3) in \<open>simp_all add: d\<close>)
  have a4: "wq_step t s3 s4" unfolding s4_def by (rule wq_step.qm_lock_list) (use assms(4) in \<open>simp_all add: d\<close>)
  have a5: "wq_step t s4 s5" unfolding s5_def by (rule wq_step.qm_queue) (simp add: d)
  have "wq_step t s5 (at_pc t Idle (lock_recv r None s5))" by (rule wq_step.qm_unlock) (simp add: d)
  moreover have "at_pc t Idle (lock_recv r None s5) = ?s"
    using assms(1,3,4) by (simp add: d fun_eq_iff)
  ultimately have a6: "wq_step t s5 ?s" by simp
  from a1 show ?thesis
    by (rule wq_run_step [OF _ wq_run_step [OF a2 wq_run_step [OF a3 wq_run_step [OF a4 wq_run_step [OF a5 wq_run_step [OF a6 rtranclp.rtrancl_refl]]]]]])
qed

lemma work_run:
  assumes "pcs s t = Idle" "receiver_alive s r" "queue_lock (receivers s r) = None" "receiver_queue_lock s = None"
    and "receiver_queue s = [r]" "message_queue (receivers s r) = [m]"
  shows "wq_runs s (s\<lparr>receivers := (receivers s)(r := (receivers s r)\<lparr>message_queue := [], is_in_receiver_queue := False, in_process_mode := False\<rparr>),
    receiver_queue := [], taken := (taken s)(r := taken s r @ [m]), pcs := (pcs s)(t := PM3 r m False)\<rparr>)" (is "wq_runs s ?s")
proof -
  define s1 where "s1 = at_pc t WL1 s"
  define s2 where "s2 = at_pc t WL2 (s1\<lparr>receiver_queue_lock := Some t\<rparr>)"
  define s3 where "s3 = at_pc t (WL3 r) (s2\<lparr>receiver_queue := []\<rparr>)"
  define s4 where "s4 = at_pc t (WL4 r) (lock_recv r (Some t) s3)"
  define s5 where "s5 = at_pc t (WL5 r) (lock_recv r None (begin_processing_msgs r s4))"
  define s6 where "s6 = at_pc t (PM1 r) (s5\<lparr>receiver_queue_lock := None\<rparr>)"
  define s7 where "s7 = at_pc t (PM2 r) (lock_recv r (Some t) s6)"
  note d = s1_def s2_def s3_def s4_def s5_def s6_def s7_def wq_ops
  have "pop_receiver s2 = (Some r, s2\<lparr>receiver_queue := []\<rparr>)" using assms(2,5) by (simp add: d)
  then have a3: "wq_step t s2 s3" using wq_step.wl_pop [of s2 t "Some r"] by (simp add: s3_def) (simp add: d)
  obtain q where q: "next_message r s7 = Some (m, False, q)" using assms(6) by (simp add: d)
  have "wq_step t s7 (at_pc t (PM3 r m False) ((lock_recv r None q)\<lparr>taken := (taken q)(r := taken q r @ [m])\<rparr>))"
    by (rule wq_step.pm_next [OF _ q]) (simp add: d)
  moreover have "at_pc t (PM3 r m False) ((lock_recv r None q)\<lparr>taken := (taken q)(r := taken q r @ [m])\<rparr>) = ?s"
    using q assms(3,4,6) by (auto simp: d fun_eq_iff)
  ultimately have a8: "wq_step t s7 ?s" by simp
  have a1: "wq_step t s s1" unfolding s1_def by (rule wq_step.wl_call [OF assms(1)])
  have a2: "wq_step t s1 s2" unfolding s2_def by (rule wq_step.wl_lock) (use assms(4) in \<open>simp_all add: d\<close>)
  have a4: "wq_step t s3 s4" unfolding s4_def by (rule wq_step.wl_begin) (use assms(3) in \<open>simp_all add: d\<close>)
  have a5: "wq_step t s4 s5" unfolding s5_def by (rule wq_step.wl_flags) (simp add: d)
  have a6: "wq_step t s5 s6" unfolding s6_def by (rule wq_step.wl_unlock) (simp add: d)
  have a7: "wq_step t s6 s7" unfolding s7_def by (rule wq_step.pm_lock) (simp_all add: d)
  from a1 show ?thesis
    by (rule wq_run_step [OF _ wq_run_step [OF a2 wq_run_step [OF a3 wq_run_step [OF a4 wq_run_step [OF a5 wq_run_step [OF a6
      wq_run_step [OF a7 wq_run_step [OF a8 rtranclp.rtrancl_refl]]]]]]]])
qed

text \<open>
  Two handlers of one receiver. A worker takes the only message of a receiver, which leaves process mode before the handler is called; a second
  message queues the receiver again and another worker takes it, while the first handler still runs.
\<close>

theorem handlers_overlap: "\<exists>s. wq_reachable s \<and> pcs s 1 = PM3 7 5 False \<and> pcs s 2 = PM3 7 6 False"
proof -
  let ?r = "\<lambda>ms q. (\<lambda>_. \<lparr>message_queue = [], is_in_receiver_queue = False, in_process_mode = False, queue_lock = None\<rparr>)
    (7 := \<lparr>message_queue = ms, is_in_receiver_queue = q, in_process_mode = False, queue_lock = None\<rparr>)"
  let ?s = "\<lambda>ms q se ta ps. wq_start\<lparr>receivers := ?r ms q, receiver_queue := (if q then [7] else []),
    sent := (\<lambda>_. [])(7 := se), taken := (\<lambda>_. [])(7 := ta), pcs := ps\<rparr>"
  have a: "wq_runs wq_start (?s [5] True [5] [] (\<lambda>_. Idle))"
    using send_run [of wq_start 0 7 5] by (simp add: wq_start_def fun_upd_def cong: if_cong)
  have b: "wq_runs (?s [5] True [5] [] (\<lambda>_. Idle)) (?s [] False [5] [5] ((\<lambda>_. Idle)(1 := PM3 7 5 False)))"
    using work_run [of "?s [5] True [5] [] (\<lambda>_. Idle)" 1 7 5] by (simp add: wq_start_def fun_upd_def cong: if_cong)
  have c: "wq_runs (?s [] False [5] [5] ((\<lambda>_. Idle)(1 := PM3 7 5 False))) (?s [6] True [5, 6] [5] ((\<lambda>_. Idle)(1 := PM3 7 5 False)))"
    using send_run [of "?s [] False [5] [5] ((\<lambda>_. Idle)(1 := PM3 7 5 False))" 0 7 6] by (simp add: wq_start_def fun_upd_def cong: if_cong)
  have d: "wq_runs (?s [6] True [5, 6] [5] ((\<lambda>_. Idle)(1 := PM3 7 5 False))) (?s [] False [5, 6] [5, 6] ((\<lambda>_. Idle)(1 := PM3 7 5 False, 2 := PM3 7 6 False)))"
    using work_run [of "?s [6] True [5, 6] [5] ((\<lambda>_. Idle)(1 := PM3 7 5 False))" 2 7 6] by (simp add: wq_start_def fun_upd_def cong: if_cong)
  note r = rtranclp_trans [OF a rtranclp_trans [OF b rtranclp_trans [OF c d]]]
  show ?thesis unfolding wq_reachable_def by (rule exI, rule conjI [OF r]) simp
qed

end
