(* ===== verification/Fair_Runs.thy ===== *)
theory Fair_Runs
  imports Azalea_Prelude
begin

text \<open>
  Runs of a labelled step relation that are fair to one label, and the way the components prove that something happens
  eventually: a rank that no step increases and every step with the label decreases.
\<close>

definition fair_run :: "('l \<Rightarrow> 's \<Rightarrow> 's \<Rightarrow> bool) \<Rightarrow> 'l \<Rightarrow> (nat \<Rightarrow> 's) \<Rightarrow> bool" where
  "fair_run lstep l r \<longleftrightarrow>
     (\<forall>i. \<exists>m. lstep m (r i) (r (Suc i))) \<and>
     (\<forall>i. (\<forall>j\<ge>i. \<exists>s. lstep l (r j) s) \<longrightarrow> (\<exists>j\<ge>i. lstep l (r j) (r (Suc j))))"

lemma fair_runD:
  assumes "fair_run lstep l r"
  shows "\<exists>m. lstep m (r i) (r (Suc i))" and "(\<And>j. i \<le> j \<Longrightarrow> \<exists>s. lstep l (r j) s) \<Longrightarrow> \<exists>j\<ge>i. lstep l (r j) (r (Suc j))"
  using assms by (simp_all add: fair_run_def)

lemma fair_run_reachable:
  assumes "fair_run lstep l r" shows "(\<lambda>s s'. \<exists>m. lstep m s s')\<^sup>*\<^sup>* (r 0) (r i)"
proof (induction i)
  case (Suc i)
  then show ?case using fair_runD(1) [OF assms, of i] by (rule rtranclp.rtrancl_into_rtrancl)
qed simp

text \<open>
  While \<open>pending\<close> holds, the label is enabled, every step either finishes or keeps \<open>pending\<close> and does not increase the rank, and a
  step with the label finishes or decreases it.
\<close>

locale fair_progress =
  fixes lstep :: "'l \<Rightarrow> 's \<Rightarrow> 's \<Rightarrow> bool" and l :: 'l and pending finished :: "'s \<Rightarrow> bool" and rank :: "'s \<Rightarrow> nat"
  assumes enabled: "pending s \<Longrightarrow> \<exists>s'. lstep l s s'"
    and keeps: "pending s \<Longrightarrow> lstep m s s' \<Longrightarrow> finished s' \<or> (pending s' \<and> rank s' \<le> rank s)"
    and helps: "pending s \<Longrightarrow> lstep l s s' \<Longrightarrow> finished s' \<or> rank s' < rank s"
begin

lemma stays_pending:
  assumes "fair_run lstep l r" and "pending (r i)" and "\<forall>j\<ge>i. \<not> finished (r j)" and "i \<le> j"
  shows "pending (r j) \<and> rank (r j) \<le> rank (r i)"
  using assms(4)
proof (induction rule: dec_induct)
  case base
  then show ?case using assms(2) by simp
next
  case (step n)
  moreover have "\<not> finished (r (Suc n))" using assms(3) step.hyps by simp
  ultimately show ?case using fair_runD(1) [OF assms(1), of n] keeps le_trans by blast
qed

lemma progress: "fair_run lstep l r \<Longrightarrow> pending (r i) \<Longrightarrow> \<exists>j\<ge>i. finished (r j)"
proof (induction "rank (r i)" arbitrary: i rule: less_induct)
  case less
  show ?case
  proof (rule ccontr)
    assume "\<not> ?case"
    then have n: "\<forall>j\<ge>i. \<not> finished (r j)" by simp
    note p = stays_pending [OF less.prems n]
    obtain j where j: "i \<le> j" "lstep l (r j) (r (Suc j))" using fair_runD(2) [OF less.prems(1), of i] p enabled by blast
    have "\<not> finished (r (Suc j))" using n j(1) by simp
    then have "rank (r (Suc j)) < rank (r i)" using helps [OF _ j(2)] p [OF j(1)] by auto
    moreover have "pending (r (Suc j))" using p [of "Suc j"] j(1) by simp
    ultimately obtain k where "Suc j \<le> k" "finished (r k)" using less.hyps less.prems(1) by blast
    then show False using n j(1) by simp
  qed
qed

end

end
