(* ===== verification/Wait_Obj.thy ===== *)
theory Wait_Obj
  imports Kernel_Sync Fair_Runs
begin

text \<open>
  The objects that threads wait for: \<open>kernel/processor/synch_objects.cpp\<close>. A \<open>WaitObject\<close> has a list of waiting threads;
  a \<open>WaitForFirstTriggerObject\<close> (a process is one) also remembers that it has been triggered. The code under the list lock is one atomic
  step, and so is each access to a shared field outside it, so that the interleavings of a waiting thread with the threads that
  trigger the object are those of the code. The mutex and semaphore objects of the system call interface wrap the objects of
  \<open>Kernel_Sync\<close>.
\<close>

subsection \<open>Operations\<close>

datatype wait_class = Wait_Object | Wait_For_First_Trigger

record wait_obj =
  wo_class :: wait_class
  wo_waiting :: "nat list"
  already_triggered :: bool

definition WAIT_MAX_WAIT :: u64 where
  "WAIT_MAX_WAIT = 0xFFFFFFFFFFFFFFFF"

definition WaitObject_init :: "wait_class \<Rightarrow> wait_obj" where
  "WaitObject_init c = \<lparr>wo_class = c, wo_waiting = [], already_triggered = False\<rparr>"

definition wait_should_still_sleep :: "wait_obj \<Rightarrow> bool" where
  "wait_should_still_sleep ob = (case wo_class ob of Wait_Object \<Rightarrow> True | Wait_For_First_Trigger \<Rightarrow> \<not> already_triggered ob)"

definition before_wake_cb :: "wait_obj \<Rightarrow> wait_obj" where
  "before_wake_cb ob = (case wo_class ob of Wait_Object \<Rightarrow> ob | Wait_For_First_Trigger \<Rightarrow> ob\<lparr>already_triggered := True\<rparr>)"

text \<open>
  \<open>wait_for_signal\<close> in pieces. It begins by queueing and stopping the thread, which keeps the processor by \<open>task_continue_this_thread\<close>; then
  \<^const>\<open>wait_should_still_sleep\<close> decides between going to sleep, with a wake-up time, and giving up. Both ends call
  \<open>cancel_waiting_thread\<close>.
\<close>

definition wait_begin :: "bool \<Rightarrow> nat \<Rightarrow> wait_obj \<Rightarrow> thread_store \<Rightarrow> (wait_obj \<times> thread_store) option" where
  "wait_begin is_worker_thread cur ob ths = do {
     ASSERT (\<not> is_worker_thread);
     Some (ob\<lparr>wo_waiting := wo_waiting ob @ [cur]\<rparr>, ths(cur := snd (stop_thread (ths cur))))
   }"

definition wait_set_time :: "u64 \<Rightarrow> u64 \<Rightarrow> task_thread \<Rightarrow> task_thread" where
  "wait_set_time now max_wait th = (if max_wait \<noteq> WAIT_MAX_WAIT then th\<lparr>wake_thread_after := now + max_wait * 1000\<rparr> else th)"

definition cancel_waiting_thread :: "nat \<Rightarrow> wait_obj \<Rightarrow> thread_store \<Rightarrow> bool \<times> wait_obj \<times> thread_store" where
  "cancel_waiting_thread thread ob ths =
     (if thread \<in> set (wo_waiting ob)
      then (True, ob\<lparr>wo_waiting := remove1 thread (wo_waiting ob)\<rparr>, ths(thread := snd (start_thread (ths thread))))
      else (False, ob, ths))"

definition threads_waiting :: "wait_obj \<Rightarrow> u64" where
  "threads_waiting ob = of_nat (length (wo_waiting ob))"

definition trigger_next_thread :: "wait_obj \<Rightarrow> thread_store \<Rightarrow> wait_obj \<times> thread_store" where
  "trigger_next_thread ob ths =
     (let ob = before_wake_cb ob in
      case wo_waiting ob of
        [] \<Rightarrow> (ob, ths)
      | t # rest \<Rightarrow> (ob\<lparr>wo_waiting := rest\<rparr>, ths(t := snd (start_thread (ths t)))))"

lemma before_wake_sel [simp]: "wo_waiting (before_wake_cb ob) = wo_waiting ob" "wo_class (before_wake_cb ob) = wo_class ob"
  by (simp_all add: before_wake_cb_def split: wait_class.split)

function trigger_loop :: "wait_obj \<times> thread_store \<Rightarrow> wait_obj \<times> thread_store" where
  "trigger_loop (ob, ths) =
     (if length (wo_waiting ob) \<noteq> 0 then trigger_loop (trigger_next_thread ob ths) else (ob, ths))"
  by auto
termination
  by (relation "measure (\<lambda>(ob, _). length (wo_waiting ob))") (auto simp: trigger_next_thread_def Let_def split: list.split)

declare trigger_loop.simps [simp del]

definition trigger_all_threads :: "wait_obj \<Rightarrow> thread_store \<Rightarrow> wait_obj \<times> thread_store" where
  "trigger_all_threads ob ths = trigger_loop (before_wake_cb ob, ths)"

text \<open>The destructors. In the destructor of the base class the virtual functions are those of the base class.\<close>

definition WaitObject_destroy :: "wait_obj \<Rightarrow> thread_store \<Rightarrow> thread_store" where
  "WaitObject_destroy ob ths = snd (trigger_all_threads (ob\<lparr>wo_class := Wait_Object\<rparr>) ths)"

definition WaitForFirstTriggerObject_destroy :: "wait_obj \<Rightarrow> thread_store \<Rightarrow> thread_store" where
  "WaitForFirstTriggerObject_destroy ob ths = (case trigger_all_threads ob ths of (ob, ths) \<Rightarrow> WaitObject_destroy ob ths)"

text \<open>The objects behind the system calls. An acquisition is two pieces here as in \<open>Kernel_Sync\<close>; its result is translated in the same way for both.\<close>

definition syscall_wait_result :: "SYNC_ACQ_RESULT \<Rightarrow> bool" where
  "syscall_wait_result acq_res \<longleftrightarrow> acq_res \<noteq> SYNC_ACQ_TIMEOUT"

definition syscall_mutex_release :: "nat \<Rightarrow> klib_mutex \<Rightarrow> thread_store \<Rightarrow> (bool \<times> klib_mutex \<times> thread_store) option" where
  "syscall_mutex_release cur m ths =
     (if mutex_locked m \<and> owner_thread m = Some cur
      then do { (m, ths) \<leftarrow> klib_synch_mutex_release cur False m ths; Some (True, m, ths) }
      else Some (False, m, ths))"

definition syscall_semaphore_signal :: "klib_semaphore \<Rightarrow> thread_store \<Rightarrow> (bool \<times> klib_semaphore \<times> thread_store) option" where
  "syscall_semaphore_signal sem ths = do { (sem, ths) \<leftarrow> klib_synch_semaphore_clear sem ths; Some (True, sem, ths) }"

subsection \<open>What triggering does\<close>

lemma trigger_loop_eq:
  "trigger_loop (ob, ths) =
     (if wo_waiting ob = [] then ob else (before_wake_cb ob)\<lparr>wo_waiting := []\<rparr>,
      \<lambda>t. if t \<in> set (wo_waiting ob) then snd (start_thread (ths t)) else ths t)"
proof (induction "(ob, ths)" arbitrary: ob ths rule: trigger_loop.induct)
  case (1 ob ths)
  show ?case
  proof (cases "wo_waiting ob")
    case Nil
    then show ?thesis by (simp add: trigger_loop.simps)
  next
    case (Cons t rest)
    have st: "snd (start_thread (snd (start_thread th))) = snd (start_thread th)" for th
      by (simp add: start_thread_def)
    have bb: "before_wake_cb ((before_wake_cb ob)\<lparr>wo_waiting := ws\<rparr>) = (before_wake_cb ob)\<lparr>wo_waiting := ws\<rparr>" for ws
      by (simp add: before_wake_cb_def split: wait_class.split)
    have e: "trigger_next_thread ob ths = ((before_wake_cb ob)\<lparr>wo_waiting := rest\<rparr>, ths(t := snd (start_thread (ths t))))"
      using Cons by (simp add: trigger_next_thread_def)
    show ?thesis
      using 1 [of "(before_wake_cb ob)\<lparr>wo_waiting := rest\<rparr>" "ths(t := snd (start_thread (ths t)))"] Cons
      by (subst trigger_loop.simps) (auto simp: e bb st fun_eq_iff)
  qed
qed

lemma trigger_all_eq:
  "trigger_all_threads ob ths =
     ((before_wake_cb ob)\<lparr>wo_waiting := []\<rparr>, \<lambda>t. if t \<in> set (wo_waiting ob) then snd (start_thread (ths t)) else ths t)"
  by (auto simp: trigger_all_threads_def trigger_loop_eq before_wake_cb_def split: wait_class.split)

subsection \<open>A wait object in use\<close>

text \<open>
  Where a thread is in \<open>wait_for_signal\<close>: queued, decided to sleep, asleep (the wake-up time set and scheduling resumed), or leaving because the
  object was triggered already. The last two components of the state are for the statements: the threads woken since they were queued, and the
  results returned.
\<close>

datatype wait_phase = Queued u64 | Going_To_Sleep u64 | Asleep | Leaving

record wait_world =
  ww_obj :: wait_obj
  ww_threads :: thread_store
  ww_inside :: "nat \<rightharpoonup> wait_phase"
  ww_woken :: "nat set"
  ww_result :: "nat \<rightharpoonup> bool"

text \<open>
  The steps; the label is the thread inside \<open>wait_for_signal\<close> that makes it. Until scheduling resumes, the thread runs although it is
  stopped. \<open>trigger_next_thread\<close> is only used with plain wait objects. Any thread may be destroyed at any time, and one that is not waiting may change in any way.
\<close>

inductive wait_step :: "nat option \<Rightarrow> wait_world \<Rightarrow> wait_world \<Rightarrow> bool" where
  wait_enter: "ww_inside w t = None \<Longrightarrow> wait_begin is_worker_thread t (ww_obj w) (ww_threads w) = Some (ob, ths) \<Longrightarrow>
    wait_step None w (w\<lparr>ww_obj := ob, ww_threads := ths, ww_inside := (ww_inside w)(t \<mapsto> Queued max_wait),
      ww_woken := ww_woken w - {t}\<rparr>)"
| wait_sleep: "ww_inside w t = Some (Queued max_wait) \<Longrightarrow> wait_should_still_sleep (ww_obj w) \<Longrightarrow>
    wait_step (Some t) w (w\<lparr>ww_inside := (ww_inside w)(t \<mapsto> Going_To_Sleep max_wait)\<rparr>)"
| wait_abort: "ww_inside w t = Some (Queued max_wait) \<Longrightarrow> \<not> wait_should_still_sleep (ww_obj w) \<Longrightarrow>
    wait_step (Some t) w (w\<lparr>ww_threads := (ww_threads w)(t := snd (start_thread (ww_threads w t))),
      ww_inside := (ww_inside w)(t \<mapsto> Leaving)\<rparr>)"
| wait_time: "ww_inside w t = Some (Going_To_Sleep max_wait) \<Longrightarrow>
    wait_step (Some t) w (w\<lparr>ww_threads := (ww_threads w)(t := wait_set_time now max_wait (ww_threads w t)),
      ww_inside := (ww_inside w)(t \<mapsto> Asleep)\<rparr>)"
| wait_return: "ww_inside w t = Some Asleep \<Longrightarrow> permit_running (ww_threads w t) \<Longrightarrow>
    cancel_waiting_thread t (ww_obj w) (ww_threads w) = (still_in_wait_list, ob, ths) \<Longrightarrow>
    wait_step (Some t) w (w\<lparr>ww_obj := ob, ww_threads := ths, ww_inside := (ww_inside w)(t := None),
      ww_result := (ww_result w)(t \<mapsto> \<not> still_in_wait_list)\<rparr>)"
| wait_leave: "ww_inside w t = Some Leaving \<Longrightarrow> permit_running (ww_threads w t) \<Longrightarrow>
    cancel_waiting_thread t (ww_obj w) (ww_threads w) = (found, ob, ths) \<Longrightarrow>
    wait_step (Some t) w (w\<lparr>ww_obj := ob, ww_threads := ths, ww_inside := (ww_inside w)(t := None),
      ww_result := (ww_result w)(t \<mapsto> True)\<rparr>)"
| wait_trigger_next: "wo_class (ww_obj w) = Wait_Object \<Longrightarrow> trigger_next_thread (ww_obj w) (ww_threads w) = (ob, ths) \<Longrightarrow>
    wait_step None w (w\<lparr>ww_obj := ob, ww_threads := ths, ww_woken := ww_woken w \<union> set (take 1 (wo_waiting (ww_obj w)))\<rparr>)"
| wait_trigger_all: "trigger_all_threads (ww_obj w) (ww_threads w) = (ob, ths) \<Longrightarrow>
    wait_step None w (w\<lparr>ww_obj := ob, ww_threads := ths, ww_woken := ww_woken w \<union> set (wo_waiting (ww_obj w))\<rparr>)"
| wait_cancel: "cancel_waiting_thread t (ww_obj w) (ww_threads w) = (found, ob, ths) \<Longrightarrow>
    wait_step None w (w\<lparr>ww_obj := ob, ww_threads := ths, ww_woken := (if found then insert t (ww_woken w) else ww_woken w)\<rparr>)"
| wait_scheduler: "wait_step None w (w\<lparr>ww_threads := (ww_threads w)(t := wake_if_due now (ww_threads w t))\<rparr>)"
| wait_env: "ww_inside w t = None \<or> thread_destroyed th \<Longrightarrow>
    wait_step None w (w\<lparr>ww_threads := (ww_threads w)(t := th)\<rparr>)"

inductive_simps wait_step_own: "wait_step (Some t) w w'"

text \<open>
  The invariant. A thread that has been taken off the list may run; a triggered object of the second class has only threads on its list
  that have not decided to sleep.
\<close>

definition wait_inv :: "wait_world \<Rightarrow> bool" where
  "wait_inv w \<longleftrightarrow>
     distinct (wo_waiting (ww_obj w)) \<and>
     (\<forall>t \<in> set (wo_waiting (ww_obj w)). ww_inside w t \<noteq> None) \<and>
     (\<forall>t. ww_inside w t \<noteq> None \<longrightarrow> (t \<in> ww_woken w \<longleftrightarrow> t \<notin> set (wo_waiting (ww_obj w)))) \<and>
     (\<forall>t. (ww_inside w t \<noteq> None \<and> t \<notin> set (wo_waiting (ww_obj w)) \<or> ww_inside w t = Some Leaving) \<longrightarrow>
        permit_running (ww_threads w t) \<or> thread_destroyed (ww_threads w t)) \<and>
     (\<forall>t. ww_inside w t = Some Leaving \<longrightarrow> \<not> wait_should_still_sleep (ww_obj w)) \<and>
     (\<not> wait_should_still_sleep (ww_obj w) \<longrightarrow>
        (\<forall>t \<in> set (wo_waiting (ww_obj w)). ww_inside w t = Some Leaving \<or> (\<exists>mx. ww_inside w t = Some (Queued mx))))"

lemma wait_invD:
  assumes "wait_inv w"
  shows "distinct (wo_waiting (ww_obj w))"
    "t \<in> set (wo_waiting (ww_obj w)) \<Longrightarrow> ww_inside w t \<noteq> None"
    "ww_inside w t \<noteq> None \<Longrightarrow> t \<in> ww_woken w \<longleftrightarrow> t \<notin> set (wo_waiting (ww_obj w))"
    "ww_inside w t = Some p \<Longrightarrow> t \<notin> set (wo_waiting (ww_obj w)) \<Longrightarrow> permit_running (ww_threads w t) \<or> thread_destroyed (ww_threads w t)"
    "ww_inside w t = Some Leaving \<Longrightarrow> \<not> wait_should_still_sleep (ww_obj w)"
    "\<not> wait_should_still_sleep (ww_obj w) \<Longrightarrow> t \<in> set (wo_waiting (ww_obj w)) \<Longrightarrow>
       ww_inside w t = Some Leaving \<or> (\<exists>mx. ww_inside w t = Some (Queued mx))"
    "ww_inside w t = Some Leaving \<Longrightarrow> permit_running (ww_threads w t) \<or> thread_destroyed (ww_threads w t)"
  using assms unfolding wait_inv_def by blast+

lemma wait_invI:
  assumes "distinct (wo_waiting (ww_obj w))"
    "\<And>t. t \<in> set (wo_waiting (ww_obj w)) \<Longrightarrow> ww_inside w t \<noteq> None"
    "\<And>t. ww_inside w t \<noteq> None \<Longrightarrow> t \<in> ww_woken w \<longleftrightarrow> t \<notin> set (wo_waiting (ww_obj w))"
    "\<And>t. ww_inside w t \<noteq> None \<and> t \<notin> set (wo_waiting (ww_obj w)) \<or> ww_inside w t = Some Leaving \<Longrightarrow>
       permit_running (ww_threads w t) \<or> thread_destroyed (ww_threads w t)"
    "\<And>t. ww_inside w t = Some Leaving \<Longrightarrow> \<not> wait_should_still_sleep (ww_obj w)"
    "\<And>t. \<not> wait_should_still_sleep (ww_obj w) \<Longrightarrow> t \<in> set (wo_waiting (ww_obj w)) \<Longrightarrow>
       ww_inside w t = Some Leaving \<or> (\<exists>mx. ww_inside w t = Some (Queued mx))"
  shows "wait_inv w"
  using assms unfolding wait_inv_def by blast

lemma runs_or_destroyed [simp]:
  "permit_running (snd (start_thread th)) \<longleftrightarrow> permit_running th \<or> \<not> thread_destroyed th"
  "thread_destroyed (snd (start_thread th)) = thread_destroyed th"
  "thread_destroyed (snd (stop_thread th)) = thread_destroyed th"
  "\<not> permit_running (snd (stop_thread th))"
  "thread_destroyed (wake_if_due now th) = thread_destroyed th"
  "permit_running th \<Longrightarrow> permit_running (wake_if_due now th)"
  "permit_running (wait_set_time now mx th) = permit_running th"
  "thread_destroyed (wait_set_time now mx th) = thread_destroyed th"
  by (simp_all add: start_thread_def stop_thread_def wake_if_due_def wait_set_time_def)

lemma should_still_sleep_upd [simp]: "wait_should_still_sleep (ob\<lparr>wo_waiting := ws\<rparr>) = wait_should_still_sleep ob"
  by (simp add: wait_should_still_sleep_def split: wait_class.split)

lemma wait_inv_out:
  assumes "wait_inv w" and "cancel_waiting_thread t (ww_obj w) (ww_threads w) = (found, ob, ths)"
  shows "wait_inv (w\<lparr>ww_obj := ob, ww_threads := ths, ww_inside := (ww_inside w)(t := None), ww_result := res\<rparr>)"
proof -
  note D = wait_invD [OF assms(1)]
  show ?thesis
    by (rule wait_invI) ((use D(1,3) assms(2) in \<open>auto simp: cancel_waiting_thread_def set_remove1_eq split: if_splits
      dest: D(2,4-7)\<close>; blast dest: D(6))+)
qed

lemma wait_inv_step:
  assumes "wait_step l w w'" and "wait_inv w" shows "wait_inv w'"
  using assms
proof (induction rule: wait_step.induct)
  case (wait_enter w t worker ob ths mx)
  note D = wait_invD [OF wait_enter.prems]
  have e: "ob = (ww_obj w)\<lparr>wo_waiting := wo_waiting (ww_obj w) @ [t]\<rparr>" "ths = (ww_threads w)(t := snd (stop_thread (ww_threads w t)))"
    using wait_enter.hyps(2) by (auto simp: wait_begin_def)
  have n: "t \<notin> set (wo_waiting (ww_obj w))" using D(2) wait_enter.hyps(1) by blast
  show ?case
    by (rule wait_invI) (use D(1,3) n wait_enter.hyps(1) in \<open>auto simp: e split: if_splits dest: D(2,4-7)\<close>)
next
  case (wait_sleep w t mx)
  note D = wait_invD [OF wait_sleep.prems]
  show ?case by (rule wait_invI) (use D(1,3) wait_sleep.hyps in \<open>auto split: if_splits dest: D(2,4-7)\<close>)
next
  case (wait_abort w t mx)
  note D = wait_invD [OF wait_abort.prems]
  show ?case by (rule wait_invI) (use D(1,3) wait_abort.hyps in \<open>auto split: if_splits dest: D(2,4-7)\<close>)
next
  case (wait_time w t mx now)
  note D = wait_invD [OF wait_time.prems]
  show ?case by (rule wait_invI) (use D(1,3) wait_time.hyps in \<open>auto split: if_splits dest: D(2,4-7)\<close>)
next
  case (wait_return w t still ob ths)
  then show ?case by (intro wait_inv_out)
next
  case (wait_leave w t found ob ths)
  then show ?case by (intro wait_inv_out)
next
  case (wait_trigger_next w ob ths)
  note D = wait_invD [OF wait_trigger_next.prems]
  show ?case
    by (rule wait_invI) (use D(1-3) wait_trigger_next.hyps in \<open>auto simp: trigger_next_thread_def before_wake_cb_def Let_def
      wait_should_still_sleep_def split: if_splits list.splits dest: D(2,4-7)\<close>)
next
  case (wait_trigger_all w ob ths)
  note D = wait_invD [OF wait_trigger_all.prems]
  have e: "ob = (before_wake_cb (ww_obj w))\<lparr>wo_waiting := []\<rparr>"
    "ths = (\<lambda>t. if t \<in> set (wo_waiting (ww_obj w)) then snd (start_thread (ww_threads w t)) else ww_threads w t)"
    using wait_trigger_all.hyps by (simp_all add: trigger_all_eq)
  have s: "\<not> wait_should_still_sleep (ww_obj w) \<Longrightarrow> \<not> wait_should_still_sleep (before_wake_cb (ww_obj w))"
    by (auto simp: wait_should_still_sleep_def before_wake_cb_def split: wait_class.splits)
  show ?case by (rule wait_invI) (use D(1,3) s  in \<open>auto simp: e dest: D(2,4-7)\<close>)
next
  case (wait_cancel t w found ob ths)
  note D = wait_invD [OF wait_cancel.prems]
  show ?case
  proof (cases "t \<in> set (wo_waiting (ww_obj w))")
    case True
    then have e: "found" "ob = (ww_obj w)\<lparr>wo_waiting := remove1 t (wo_waiting (ww_obj w))\<rparr>"
      "ths = (ww_threads w)(t := snd (start_thread (ww_threads w t)))"
      using wait_cancel.hyps by (auto simp: cancel_waiting_thread_def)
    show ?thesis by (rule wait_invI) (use D(1,3) True in \<open>auto simp: e set_remove1_eq dest: D(2,4-7)\<close>)
  next
    case False
    then show ?thesis using wait_cancel by (auto simp: cancel_waiting_thread_def)
  qed
next
  case (wait_scheduler w t now)
  note D = wait_invD [OF wait_scheduler.prems]
  show ?case by (rule wait_invI) (use D(1,3)  in \<open>auto dest: D(2,4-7)\<close>)
next
  case (wait_env w t th)
  note D = wait_invD [OF wait_env.prems]
  show ?case by (rule wait_invI) (use D(1,3) wait_env.hyps in \<open>auto dest: D(2,4-7)\<close>)
qed

definition wait_start :: "wait_class \<Rightarrow> wait_world" where
  "wait_start c = \<lparr>ww_obj = WaitObject_init c, ww_threads = \<lambda>_. blank_thread, ww_inside = Map.empty, ww_woken = {}, ww_result = Map.empty\<rparr>"

definition wait_any_step :: "wait_world \<Rightarrow> wait_world \<Rightarrow> bool" where
  "wait_any_step w w' \<longleftrightarrow> (\<exists>l. wait_step l w w')"

lemma wait_inv_start: "wait_inv (wait_start c)"
  by (simp add: wait_inv_def wait_start_def WaitObject_init_def)

interpretation wait: transition_system wait_any_step wait_inv
  by unfold_locales (auto simp: wait_any_step_def intro: wait_inv_step)

lemma wait_inv_reachable: "wait_any_step\<^sup>*\<^sup>* (wait_start c) w \<Longrightarrow> wait_inv w"
  using wait.run_keeps wait_inv_start by blast

text \<open>
  C8. Waiting, over all interleavings of any number of waiting threads with triggers, cancellations, time-outs and destroyed threads. A thread
  that sleeps and may not run is on the list of the object, and an object of the second class has not been triggered then, so
  that no trigger is lost. When the thread runs again, \<open>wait_for_signal\<close> returns true exactly if the thread was woken
  by a trigger or a cancellation. Triggering all threads lets every sleeping thread run.
\<close>

theorem wait_no_lost_wakeup:
  assumes "wait_any_step\<^sup>*\<^sup>* (wait_start c) w" and "ww_inside w t = Some Asleep" and "\<not> thread_destroyed (ww_threads w t)"
  shows "(\<not> permit_running (ww_threads w t) \<longrightarrow> t \<in> set (wo_waiting (ww_obj w)) \<and> wait_should_still_sleep (ww_obj w)) \<and>
    (fst (cancel_waiting_thread t (ww_obj w) (ww_threads w)) \<longleftrightarrow> t \<notin> ww_woken w) \<and>
    permit_running (snd (trigger_all_threads (ww_obj w) (ww_threads w)) t)"
proof -
  note D = wait_invD [OF wait_inv_reachable [OF assms(1)]]
  have "\<not> permit_running (ww_threads w t) \<Longrightarrow> t \<in> set (wo_waiting (ww_obj w))" using D(4) [of t] assms(2,3) by auto
  then show ?thesis using D(3,6) [of t] assms(2,3) by (auto simp: trigger_all_eq cancel_waiting_thread_def)
qed

text \<open>Thread 1 begins to wait; then it falls asleep.\<close>

definition wait_queued :: "wait_class \<Rightarrow> wait_world" where
  "wait_queued c = (wait_start c)\<lparr>ww_obj := (WaitObject_init c)\<lparr>wo_waiting := [1]\<rparr>, ww_inside := [1 \<mapsto> Queued WAIT_MAX_WAIT]\<rparr>"

lemma wait_queued_step: "wait_step None (wait_start c) (wait_queued c)"
proof -
  have "wait_step None (wait_start c) ((wait_start c)\<lparr>ww_obj := (WaitObject_init c)\<lparr>wo_waiting := [1]\<rparr>,
     ww_threads := \<lambda>_. blank_thread, ww_inside := (ww_inside (wait_start c))(1 \<mapsto> Queued WAIT_MAX_WAIT), ww_woken := ww_woken (wait_start c) - {1}\<rparr>)"
    by (rule wait_enter [of _ _ False]) (auto simp: wait_start_def wait_begin_def WaitObject_init_def stop_thread_def blank_thread_def)
  then show ?thesis by (simp add: wait_queued_def wait_start_def)
qed

definition wait_sleeper :: wait_world where
  "wait_sleeper = (wait_queued Wait_Object)\<lparr>ww_inside := [1 \<mapsto> Asleep]\<rparr>"

lemma wait_sleeper_reachable: "wait_any_step\<^sup>*\<^sup>* (wait_start Wait_Object) wait_sleeper"
proof -
  let ?w = "(wait_queued Wait_Object)\<lparr>ww_inside := [1 \<mapsto> Going_To_Sleep WAIT_MAX_WAIT]\<rparr>"
  have "wait_step (Some 1) (wait_queued Wait_Object)
      ((wait_queued Wait_Object)\<lparr>ww_inside := (ww_inside (wait_queued Wait_Object))(1 \<mapsto> Going_To_Sleep WAIT_MAX_WAIT)\<rparr>)"
    by (rule wait_sleep) (simp_all add: wait_queued_def wait_should_still_sleep_def WaitObject_init_def)
  then have 1: "wait_any_step (wait_queued Wait_Object) ?w" by (auto simp: wait_any_step_def wait_queued_def)
  have "wait_step (Some 1) ?w (?w\<lparr>ww_threads := (ww_threads ?w)(1 := wait_set_time 0 WAIT_MAX_WAIT (ww_threads ?w 1)),
      ww_inside := (ww_inside ?w)(1 \<mapsto> Asleep)\<rparr>)"
    by (rule wait_time) simp
  then have "wait_any_step ?w wait_sleeper" by (auto simp: wait_any_step_def wait_sleeper_def wait_queued_def wait_start_def wait_set_time_def fun_upd_idem)
  then have "wait_any_step\<^sup>*\<^sup>* (wait_queued Wait_Object) wait_sleeper" using 1 by (meson rtranclp.rtrancl_refl rtranclp.rtrancl_into_rtrancl)
  moreover have "wait_any_step (wait_start Wait_Object) (wait_queued Wait_Object)" using wait_queued_step by (auto simp: wait_any_step_def)
  ultimately show ?thesis by (rule converse_rtranclp_into_rtranclp [rotated])
qed

theorem wait_no_lost_wakeup_witness:
  "ww_inside wait_sleeper 1 = Some Asleep \<and> \<not> permit_running (ww_threads wait_sleeper 1) \<and> 1 \<in> set (wo_waiting (ww_obj wait_sleeper)) \<and>
   permit_running (snd (trigger_all_threads (ww_obj wait_sleeper) (ww_threads wait_sleeper)) 1)"
proof -
  have p: "ww_inside wait_sleeper 1 = Some Asleep" "\<not> permit_running (ww_threads wait_sleeper 1)" "\<not> thread_destroyed (ww_threads wait_sleeper 1)"
    by (simp_all add: wait_sleeper_def wait_queued_def wait_start_def blank_thread_def)
  show ?thesis using wait_no_lost_wakeup [OF wait_sleeper_reachable p(1,3)] p by simp
qed

subsection \<open>Waiting ends\<close>

definition wait_rank :: "nat \<Rightarrow> wait_world \<Rightarrow> nat" where
  "wait_rank t w = (case ww_inside w t of Some (Queued _) \<Rightarrow> 3 | Some (Going_To_Sleep _) \<Rightarrow> 2 | Some _ \<Rightarrow> 1 | None \<Rightarrow> 0)"

definition wait_pending :: "nat \<Rightarrow> wait_world \<Rightarrow> bool" where
  "wait_pending t w \<longleftrightarrow> wait_inv w \<and> ww_inside w t \<noteq> None \<and> \<not> thread_destroyed (ww_threads w t) \<and>
     (t \<in> set (wo_waiting (ww_obj w)) \<longrightarrow> \<not> wait_should_still_sleep (ww_obj w))"

definition wait_over :: "nat \<Rightarrow> wait_world \<Rightarrow> bool" where
  "wait_over t w \<longleftrightarrow> ww_inside w t = None \<or> thread_destroyed (ww_threads w t)"

lemma wait_pending_runs:
  assumes "wait_pending t w" and "ww_inside w t = Some Asleep \<or> ww_inside w t = Some Leaving"
  shows "permit_running (ww_threads w t)"
proof -
  have i: "wait_inv w" "\<not> thread_destroyed (ww_threads w t)"
    "t \<in> set (wo_waiting (ww_obj w)) \<Longrightarrow> \<not> wait_should_still_sleep (ww_obj w)" using assms(1) by (auto simp: wait_pending_def)
  show ?thesis using wait_invD(4,6,7) [OF i(1), of t] i(2,3) assms(2) by (cases "t \<in> set (wo_waiting (ww_obj w))") auto
qed

lemma wait_enabled:
  assumes "wait_pending t w" shows "\<exists>w'. wait_step (Some t) w w'"
proof -
  obtain p where p: "ww_inside w t = Some p" using assms by (auto simp: wait_pending_def)
  obtain found ob ths where c: "cancel_waiting_thread t (ww_obj w) (ww_threads w) = (found, ob, ths)" by (metis prod_cases3)
  show ?thesis
  proof (cases p)
    case (Queued mx)
    then show ?thesis using p wait_sleep wait_abort by blast
  next
    case (Going_To_Sleep mx)
    then show ?thesis using p wait_time by blast
  next
    case Asleep
    then show ?thesis using p wait_return [OF _ _ c] wait_pending_runs [OF assms] by blast
  next
    case Leaving
    then show ?thesis using p wait_leave [OF _ _ c] wait_pending_runs [OF assms] by blast
  qed
qed

lemma wait_keeps:
  assumes "wait_step l w w'" and "wait_pending t w"
  shows "wait_over t w' \<or> (wait_pending t w' \<and> wait_rank t w' \<le> wait_rank t w)"
proof -
  have i: "wait_inv w'" using wait_inv_step assms by (auto simp: wait_pending_def)
  have w: "ww_inside w t \<noteq> None" "t \<in> set (wo_waiting (ww_obj w)) \<longrightarrow> \<not> wait_should_still_sleep (ww_obj w)"
    using assms(2) by (auto simp: wait_pending_def)
  have "ww_inside w' t = None \<or> (wait_rank t w' \<le> wait_rank t w \<and>
     (t \<in> set (wo_waiting (ww_obj w')) \<longrightarrow> t \<in> set (wo_waiting (ww_obj w)) \<and>
       (\<not> wait_should_still_sleep (ww_obj w) \<longrightarrow> \<not> wait_should_still_sleep (ww_obj w'))))"
    using assms(1) w(1)
    by (cases rule: wait_step.cases) (auto simp: wait_rank_def wait_begin_def cancel_waiting_thread_def trigger_all_eq trigger_next_thread_def
      before_wake_cb_def Let_def split: if_splits list.splits wait_class.splits dest!: set_mp [OF set_remove1_subset])
  then show ?thesis using i w by (auto simp: wait_over_def wait_pending_def)
qed

lemma wait_helps:
  assumes "wait_step (Some t) w w'" shows "wait_over t w' \<or> wait_rank t w' < wait_rank t w"
  using assms by (auto simp: wait_step_own wait_over_def wait_rank_def)

interpretation waiting: fair_progress wait_step "Some t" "wait_pending t" "wait_over t" "wait_rank t" for t
  using wait_enabled wait_keeps wait_helps by unfold_locales blast+

text \<open>
  C9. Waiting ends. In a run that is fair to the waiting thread (when it can go on from some time on for ever, then it does), a thread that has been taken off the list, or that waits
  for an object of the second class that has been triggered, comes back from \<open>wait_for_signal\<close>, unless it is destroyed. This covers a thread that has begun to wait when the
  trigger arrives, at whatever point it is, and one that begins after the trigger.
\<close>

theorem wait_returns:
  assumes "fair_run wait_step (Some t) r" and "r 0 = wait_start c"
    and "t \<in> set (wo_waiting (ww_obj (r i))) \<longrightarrow> \<not> wait_should_still_sleep (ww_obj (r i))"
  shows "\<exists>j\<ge>i. ww_inside (r j) t = None \<or> thread_destroyed (ww_threads (r j) t)"
proof (cases "wait_over t (r i)")
  case True
  then show ?thesis by (auto simp: wait_over_def)
next
  case False
  have "wait_any_step\<^sup>*\<^sup>* (wait_start c) (r i)"
    using fair_run_reachable [OF assms(1), of i] assms(2) by (simp add: wait_any_step_def [abs_def])
  then have "wait_pending t (r i)" using wait_inv_reachable assms(3) False by (auto simp: wait_pending_def wait_over_def)
  then show ?thesis using waiting.progress [OF assms(1)] by (auto simp: wait_over_def)
qed

text \<open>Thread 1 begins to wait for an object of the second class, the object is triggered, and the thread leaves.\<close>

definition wait_triggered :: wait_world where
  "wait_triggered = (wait_start Wait_For_First_Trigger)\<lparr>ww_obj := (WaitObject_init Wait_For_First_Trigger)\<lparr>already_triggered := True\<rparr>,
     ww_threads := (\<lambda>_. blank_thread)(1 := blank_thread\<lparr>permit_running := True\<rparr>), ww_inside := [1 \<mapsto> Queued WAIT_MAX_WAIT], ww_woken := {1}\<rparr>"

definition wait_run :: "nat \<Rightarrow> wait_world" where
  "wait_run i = (if i = 0 then wait_start Wait_For_First_Trigger else if i = 1 then wait_queued Wait_For_First_Trigger
     else if i = 2 then wait_triggered else if i = 3 then wait_triggered\<lparr>ww_inside := [1 \<mapsto> Leaving]\<rparr>
     else wait_triggered\<lparr>ww_inside := Map.empty, ww_result := [1 \<mapsto> True]\<rparr>)"

lemma wait_run_steps: "\<exists>l. wait_step l (wait_run i) (wait_run (Suc i))"
proof -
  let ?q = "wait_queued Wait_For_First_Trigger" and ?l = "wait_triggered\<lparr>ww_inside := [1 \<mapsto> Leaving]\<rparr>"
  let ?e = "wait_triggered\<lparr>ww_inside := Map.empty, ww_result := [1 \<mapsto> True]\<rparr>"
  note E = wait_triggered_def wait_start_def WaitObject_init_def
  have "wait_step None ?q (?q\<lparr>ww_obj := ww_obj wait_triggered, ww_threads := ww_threads wait_triggered,
      ww_woken := ww_woken ?q \<union> set (wo_waiting (ww_obj ?q))\<rparr>)"
    by (rule wait_trigger_all) (simp add: trigger_all_eq before_wake_cb_def wait_queued_def E start_thread_def blank_thread_def fun_upd_def cong: if_cong)
  then have 1: "wait_step None ?q wait_triggered" by (simp add: wait_queued_def E)
  have "wait_step (Some 1) wait_triggered (wait_triggered\<lparr>ww_threads := (ww_threads wait_triggered)(1 := snd (start_thread (ww_threads wait_triggered 1))),
      ww_inside := (ww_inside wait_triggered)(1 \<mapsto> Leaving)\<rparr>)"
    by (rule wait_abort) (simp_all add: wait_should_still_sleep_def E)
  then have 2: "wait_step (Some 1) wait_triggered ?l" by (simp add: E start_thread_def blank_thread_def)
  have "wait_step (Some 1) ?l (?l\<lparr>ww_obj := ww_obj ?l, ww_threads := ww_threads ?l, ww_inside := (ww_inside ?l)(1 := None),
      ww_result := (ww_result ?l)(1 \<mapsto> True)\<rparr>)"
    by (rule wait_leave) (auto simp: cancel_waiting_thread_def E)
  then have 3: "wait_step (Some 1) ?l ?e" by (simp add: E)
  have "wait_step None ?e (?e\<lparr>ww_obj := ww_obj ?e, ww_threads := ww_threads ?e, ww_woken := ww_woken ?e \<union> set (wo_waiting (ww_obj ?e))\<rparr>)"
    by (rule wait_trigger_all) (simp add: trigger_all_eq before_wake_cb_def E fun_upd_def cong: if_cong)
  then have 4: "wait_step None ?e ?e" by (simp add: E)
  consider "i = 0" | "i = 1" | "i = 2" | "i = 3" | "3 < i" by linarith
  then show ?thesis
  proof cases
    case 1
    then show ?thesis using wait_queued_step by (auto simp: wait_run_def)
  qed (use 1 2 3 4 in \<open>auto simp: wait_run_def\<close>)
qed

lemma wait_run_fair: "fair_run wait_step (Some 1) wait_run"
proof -
  have "\<not> wait_step (Some 1) (wait_run (i + 4)) w" for i w by (simp add: wait_step_own wait_run_def)
  then have "\<exists>j\<ge>i. \<not> (\<exists>w. wait_step (Some 1) (wait_run j) w)" for i using le_add1 by blast
  then show ?thesis using wait_run_steps unfolding fair_run_def by blast
qed

theorem wait_returns_witness:
  "fair_run wait_step (Some 1) wait_run \<and> ww_inside (wait_run 2) 1 = Some (Queued WAIT_MAX_WAIT) \<and>
   (\<exists>j\<ge>2. ww_inside (wait_run j) 1 = None \<or> thread_destroyed (ww_threads (wait_run j) 1))"
proof -
  have "wait_run 0 = wait_start Wait_For_First_Trigger" "ww_inside (wait_run 2) 1 = Some (Queued WAIT_MAX_WAIT)"
    "1 \<in> set (wo_waiting (ww_obj (wait_run 2))) \<longrightarrow> \<not> wait_should_still_sleep (ww_obj (wait_run 2))"
    by (simp_all add: wait_run_def wait_triggered_def WaitObject_init_def)
  then show ?thesis using wait_returns [OF wait_run_fair] wait_run_fair by blast
qed

subsection \<open>Departures\<close>

text \<open>
  A thread is a plain wait object that is triggered once, when it ends. Waiting for a thread that has ended already is not noticed: the
  waiting thread is put on the list, decides to sleep, and is not running, with nobody left to trigger the object.
\<close>

lemma wait_for_ended_thread:
  assumes "trigger_all_threads (WaitObject_init Wait_Object) ths = (ob, ths')" and "wait_begin False t ob ths' = Some (ob', ths'')"
  shows "wait_should_still_sleep ob' \<and> wo_waiting ob' = [t] \<and> \<not> permit_running (ths'' t)"
  using assms by (auto simp: trigger_all_eq wait_begin_def WaitObject_init_def before_wake_cb_def wait_should_still_sleep_def)

text \<open>
  The wake-up time of a wait that ended with a trigger is kept. A later wait without limit is woken at that time and returns false, as if it had timed out.
\<close>

lemma wait_stale_wakeup:
  assumes "now < 2 ^ 64 - 1001" and "wake_thread_after th = now + 1000" and "\<not> permit_running th"
  shows "permit_running (wake_if_due (now + 1001) (wait_set_time now WAIT_MAX_WAIT th))"
proof -
  have "unat (now + 1000) = unat now + 1000 \<and> unat (now + 1001) = unat now + 1001"
    using assms(1) by (simp add: word_less_nat_alt unat_word_ariths)
  then have "now + 1000 < now + 1001" "now + 1000 \<noteq> 0" by (auto simp: word_less_nat_alt unat_eq_zero)
  then show ?thesis using assms(2,3) by (simp add: wake_if_due_def wait_set_time_def)
qed

text \<open>Releasing a mutex through its handle never fails an assertion, whoever calls it, and reports whether the caller owned it.\<close>

lemma syscall_mutex_release_total:
  "\<exists>m' ths'. syscall_mutex_release cur m ths = Some (mutex_locked m \<and> owner_thread m = Some cur, m', ths')"
  by (auto simp: syscall_mutex_release_def klib_synch_mutex_release_def split: list.split)

text \<open>Signalling a semaphore that nobody holds fails an assertion of the kernel.\<close>

lemma syscall_semaphore_signal_panics:
  "cur_user_count sem = 0 \<Longrightarrow> sem_waiting_list sem = [] \<Longrightarrow> syscall_semaphore_signal sem ths = None"
  by (simp add: syscall_semaphore_signal_def klib_synch_semaphore_clear_def)

end
