(* ===== verification/Futex.thy ===== *)
theory Futex
  imports Wait_Obj
begin

text \<open>
  Futexes: \<open>kernel/processor/futexes.cpp\<close>. A process has a map from the addresses of futexes to the vectors of the threads that wait there. The
  code under the lock of the map is one atomic step, and each read of the futex is a step of its own, since any thread can
  store to it.

  \<open>futex_wait\<close> keeps a C++ reference to its vector while the lock is released. To say when the reference is valid, each entry of the map carries the
  identity of its node; erasing the entry ends its life, and using the reference then is undefined behaviour, \<^const>\<open>None\<close> here.
\<close>

subsection \<open>Operations\<close>

record futex_table =
  futex_map :: "u64 \<rightharpoonup> nat \<times> nat list"
  next_node :: nat

definition futex_enqueue :: "nat \<Rightarrow> u64 \<Rightarrow> futex_table \<Rightarrow> nat \<times> futex_table" where
  "futex_enqueue cur futex_addr ft =
     (let ft = (if futex_map ft futex_addr = None
                then ft\<lparr>futex_map := (futex_map ft)(futex_addr \<mapsto> (next_node ft, [])), next_node := next_node ft + 1\<rparr> else ft) in
      case the (futex_map ft futex_addr) of (node, v) \<Rightarrow>
        (node, ft\<lparr>futex_map := (futex_map ft)(futex_addr \<mapsto> (node, v @ [cur]))\<rparr>))"

definition futex_withdraw :: "nat \<Rightarrow> u64 \<Rightarrow> nat \<Rightarrow> futex_table \<Rightarrow> futex_table option" where
  "futex_withdraw cur futex_addr node ft =
     (case futex_map ft futex_addr of
        None \<Rightarrow> None
      | Some (n, v) \<Rightarrow>
          if n \<noteq> node then None
          else if cur \<in> set v then
            (let v = remove1 cur v in
             Some (if v = [] then ft\<lparr>futex_map := (futex_map ft)(futex_addr := None)\<rparr>
                   else ft\<lparr>futex_map := (futex_map ft)(futex_addr \<mapsto> (node, v))\<rparr>))
          else Some ft)"

fun start_all :: "nat list \<Rightarrow> thread_store \<Rightarrow> thread_store" where
  "start_all [] ths = ths"
| "start_all (t # v) ths = start_all v (ths(t := snd (start_thread (ths t))))"

definition futex_wake :: "u64 \<Rightarrow> futex_table \<Rightarrow> thread_store \<Rightarrow> ERR_CODE \<times> futex_table \<times> thread_store" where
  "futex_wake futex_addr ft ths =
     (case futex_map ft futex_addr of
        Some (_, v) \<Rightarrow> (NO_ERROR, ft\<lparr>futex_map := (futex_map ft)(futex_addr := None)\<rparr>, start_all v ths)
      | None \<Rightarrow> (NOT_FOUND, ft, ths))"

lemma start_all_eq: "start_all v ths t = (if t \<in> set v then snd (start_thread (ths t)) else ths t)"
proof (induction v arbitrary: ths)
  case (Cons u v)
  have "snd (start_thread (snd (start_thread th))) = snd (start_thread th)" for th by (simp add: start_thread_def)
  then show ?case using Cons by simp
qed simp

subsection \<open>Futexes in use\<close>

text \<open>
  Where a thread is in \<open>futex_wait\<close>: it has found the expected value; it is queued with its reference to the vector; it has found another
  value; it has withdrawn and has to start itself; it yields.
\<close>

datatype futex_phase =
    Fx_Checked u64 u32
  | Fx_Queued u64 u32 nat
  | Fx_Changed u64 nat
  | Fx_Withdrawn u64
  | Fx_Yielded u64

record futex_world =
  fw_table :: futex_table
  fw_threads :: thread_store
  fw_value :: "u64 \<Rightarrow> u32"
  fw_inside :: "nat \<rightharpoonup> futex_phase"

text \<open>
  The steps. A thread that is not in \<open>futex_wait\<close> may change in any way; a thread may be destroyed at any time, which stops it. A thread that
  begins to wait has no wake-up time left over.
\<close>

inductive futex_step :: "futex_world \<Rightarrow> futex_world \<Rightarrow> bool" where
  fx_check: "fw_inside w t = None \<Longrightarrow> fw_value w a = req \<Longrightarrow>
    futex_step w (w\<lparr>fw_inside := (fw_inside w)(t \<mapsto> Fx_Checked a req)\<rparr>)"
| fx_enqueue: "fw_inside w t = Some (Fx_Checked a req) \<Longrightarrow> wake_thread_after (fw_threads w t) = 0 \<Longrightarrow>
    futex_enqueue t a (fw_table w) = (node, ft) \<Longrightarrow>
    futex_step w (w\<lparr>fw_table := ft, fw_threads := (fw_threads w)(t := snd (stop_thread (fw_threads w t))),
      fw_inside := (fw_inside w)(t \<mapsto> Fx_Queued a req node)\<rparr>)"
| fx_same: "fw_inside w t = Some (Fx_Queued a req node) \<Longrightarrow> fw_value w a = req \<Longrightarrow>
    futex_step w (w\<lparr>fw_inside := (fw_inside w)(t \<mapsto> Fx_Yielded a)\<rparr>)"
| fx_changed: "fw_inside w t = Some (Fx_Queued a req node) \<Longrightarrow> fw_value w a \<noteq> req \<Longrightarrow>
    futex_step w (w\<lparr>fw_inside := (fw_inside w)(t \<mapsto> Fx_Changed a node)\<rparr>)"
| fx_withdraw: "fw_inside w t = Some (Fx_Changed a node) \<Longrightarrow> futex_withdraw t a node (fw_table w) = Some ft \<Longrightarrow>
    futex_step w (w\<lparr>fw_table := ft, fw_inside := (fw_inside w)(t \<mapsto> Fx_Withdrawn a)\<rparr>)"
| fx_start: "fw_inside w t = Some (Fx_Withdrawn a) \<Longrightarrow>
    futex_step w (w\<lparr>fw_threads := (fw_threads w)(t := snd (start_thread (fw_threads w t))),
      fw_inside := (fw_inside w)(t \<mapsto> Fx_Yielded a)\<rparr>)"
| fx_return: "fw_inside w t = Some (Fx_Yielded a) \<Longrightarrow> permit_running (fw_threads w t) \<Longrightarrow>
    futex_step w (w\<lparr>fw_inside := (fw_inside w)(t := None)\<rparr>)"
| fx_wake: "futex_wake a (fw_table w) (fw_threads w) = (r, ft, ths) \<Longrightarrow>
    futex_step w (w\<lparr>fw_table := ft, fw_threads := ths\<rparr>)"
| fx_store: "futex_step w (w\<lparr>fw_value := (fw_value w)(a := v)\<rparr>)"
| fx_scheduler: "futex_step w (w\<lparr>fw_threads := (fw_threads w)(t := wake_if_due now (fw_threads w t))\<rparr>)"
| fx_destroy: "futex_step w (w\<lparr>fw_threads := (fw_threads w)(t := snd (stop_thread ((fw_threads w t)\<lparr>thread_destroyed := True\<rparr>)))\<rparr>)"
| fx_env: "fw_inside w t = None \<Longrightarrow> futex_step w (w\<lparr>fw_threads := (fw_threads w)(t := th)\<rparr>)"

text \<open>The threads queued at an address, and the address at which a thread in \<open>futex_wait\<close> has been queued.\<close>

definition sleepers :: "futex_table \<Rightarrow> u64 \<Rightarrow> nat list" where
  "sleepers ft a = (case futex_map ft a of None \<Rightarrow> [] | Some (_, v) \<Rightarrow> v)"

fun queued_at :: "futex_phase \<Rightarrow> u64 option" where
  "queued_at (Fx_Queued a _ _) = Some a"
| "queued_at (Fx_Changed a _) = Some a"
| "queued_at (Fx_Yielded a) = Some a"
| "queued_at _ = None"

fun holds_ref :: "futex_phase \<Rightarrow> (u64 \<times> nat) option" where
  "holds_ref (Fx_Queued a _ n) = Some (a, n)"
| "holds_ref (Fx_Changed a n) = Some (a, n)"
| "holds_ref _ = None"

definition futex_inv :: "futex_world \<Rightarrow> bool" where
  "futex_inv w \<longleftrightarrow>
     (\<forall>a n v. futex_map (fw_table w) a = Some (n, v) \<longrightarrow> v \<noteq> [] \<and> distinct v \<and> n < next_node (fw_table w)) \<and>
     (\<forall>a. \<forall>t \<in> set (sleepers (fw_table w) a). (\<exists>p. fw_inside w t = Some p \<and> queued_at p = Some a) \<and>
        \<not> permit_running (fw_threads w t) \<and> wake_thread_after (fw_threads w t) = 0) \<and>
     (\<forall>t p a. fw_inside w t = Some p \<and> queued_at p = Some a \<and> t \<notin> set (sleepers (fw_table w) a) \<longrightarrow>
        permit_running (fw_threads w t) \<or> thread_destroyed (fw_threads w t)) \<and>
     (\<forall>t p a n. fw_inside w t = Some p \<and> holds_ref p = Some (a, n) \<longrightarrow> n < next_node (fw_table w) \<and>
        (\<forall>v. futex_map (fw_table w) a = Some (n, v) \<longrightarrow> t \<in> set v))"

definition futex_start :: futex_world where
  "futex_start = \<lparr>fw_table = \<lparr>futex_map = Map.empty, next_node = 0\<rparr>, fw_threads = \<lambda>_. blank_thread, fw_value = \<lambda>_. 0, fw_inside = Map.empty\<rparr>"

lemma futex_inv_start: "futex_inv futex_start"
  by (simp add: futex_inv_def futex_start_def sleepers_def)

lemma futex_invD:
  assumes "futex_inv w"
  shows "futex_map (fw_table w) a = Some (n, v) \<Longrightarrow> v \<noteq> [] \<and> distinct v \<and> n < next_node (fw_table w)"
    "t \<in> set (sleepers (fw_table w) a) \<Longrightarrow> \<exists>p. fw_inside w t = Some p \<and> queued_at p = Some a"
    "t \<in> set (sleepers (fw_table w) a) \<Longrightarrow> \<not> permit_running (fw_threads w t) \<and> wake_thread_after (fw_threads w t) = 0"
    "fw_inside w t = Some p \<Longrightarrow> queued_at p = Some a \<Longrightarrow> t \<notin> set (sleepers (fw_table w) a) \<Longrightarrow>
       permit_running (fw_threads w t) \<or> thread_destroyed (fw_threads w t)"
    "fw_inside w t = Some p \<Longrightarrow> holds_ref p = Some (a, n) \<Longrightarrow> n < next_node (fw_table w)"
    "fw_inside w t = Some p \<Longrightarrow> holds_ref p = Some (a, n) \<Longrightarrow> futex_map (fw_table w) a = Some (n, v) \<Longrightarrow> t \<in> set v"
  using assms unfolding futex_inv_def by blast+

lemma futex_invI:
  assumes "\<And>a n v. futex_map (fw_table w) a = Some (n, v) \<Longrightarrow> v \<noteq> [] \<and> distinct v \<and> n < next_node (fw_table w)"
    "\<And>t a. t \<in> set (sleepers (fw_table w) a) \<Longrightarrow> \<exists>p. fw_inside w t = Some p \<and> queued_at p = Some a"
    "\<And>t a. t \<in> set (sleepers (fw_table w) a) \<Longrightarrow> \<not> permit_running (fw_threads w t) \<and> wake_thread_after (fw_threads w t) = 0"
    "\<And>t p a. fw_inside w t = Some p \<Longrightarrow> queued_at p = Some a \<Longrightarrow> t \<notin> set (sleepers (fw_table w) a) \<Longrightarrow>
       permit_running (fw_threads w t) \<or> thread_destroyed (fw_threads w t)"
    "\<And>t p a n. fw_inside w t = Some p \<Longrightarrow> holds_ref p = Some (a, n) \<Longrightarrow> n < next_node (fw_table w)"
    "\<And>t p a n v. fw_inside w t = Some p \<Longrightarrow> holds_ref p = Some (a, n) \<Longrightarrow> futex_map (fw_table w) a = Some (n, v) \<Longrightarrow> t \<in> set v"
  shows "futex_inv w"
  using assms unfolding futex_inv_def by blast

text \<open>What the operations do to the queues.\<close>

lemma sleepers_upd [simp]:
  "sleepers (ft\<lparr>futex_map := m(a := None)\<rparr>) b = (if b = a then [] else sleepers (ft\<lparr>futex_map := m\<rparr>) b)"
  "sleepers (ft\<lparr>futex_map := m(a \<mapsto> (n, v))\<rparr>) b = (if b = a then v else sleepers (ft\<lparr>futex_map := m\<rparr>) b)"
  "sleepers (ft\<lparr>next_node := k\<rparr>) b = sleepers ft b"
  "sleepers (ft\<lparr>futex_map := futex_map ft\<rparr>) b = sleepers ft b"
  by (simp_all add: sleepers_def)

lemma futex_enqueue_eq:
  assumes "futex_enqueue t a ft = (node, ft')"
  shows "futex_map ft' = (futex_map ft)(a \<mapsto> (node, sleepers ft a @ [t]))"
    "next_node ft' = (if futex_map ft a = None then next_node ft + 1 else next_node ft)"
    "node = (case futex_map ft a of None \<Rightarrow> next_node ft | Some (n, _) \<Rightarrow> n)"
  using assms by (auto simp: futex_enqueue_def sleepers_def Let_def split: option.splits if_splits)

lemma sleepers_some: "futex_map ft a = Some (n, v) \<Longrightarrow> sleepers ft a = v"
  by (simp add: sleepers_def)

lemma futex_inv_phase:
  assumes "futex_inv w" and "fw_inside w t = Some q" and "queued_at p = queued_at q"
    and "holds_ref p = holds_ref q \<or> holds_ref p = None"
  shows "futex_inv (w\<lparr>fw_inside := (fw_inside w)(t \<mapsto> p)\<rparr>)"
proof -
  note D = futex_invD [OF assms(1)]
  note q = assms(2)
  show ?thesis
    by (rule futex_invI) (use assms(3,4) D(1-3) in \<open>auto simp: q dest: D(2,4-6) D(4-6) [OF q, OF sym] split: if_splits\<close>)
qed

lemma futex_inv_enqueue:
  assumes "futex_inv w" and "fw_inside w t = Some (Fx_Checked a req)" and "wake_thread_after (fw_threads w t) = 0"
    and "futex_enqueue t a (fw_table w) = (node, ft)"
  shows "futex_inv (w\<lparr>fw_table := ft, fw_threads := (fw_threads w)(t := snd (stop_thread (fw_threads w t))),
      fw_inside := (fw_inside w)(t \<mapsto> Fx_Queued a req node)\<rparr>)"
proof -
  note D = futex_invD [OF assms(1)]
  note E = futex_enqueue_eq [OF assms(4)]
  have s: "sleepers ft b = (if b = a then sleepers (fw_table w) a @ [t] else sleepers (fw_table w) b)" for b
    by (simp add: sleepers_def E(1))
  have n: "t \<notin> set (sleepers (fw_table w) b)" for b using D(2) [of t b] assms(2) by auto
  have k: "node < next_node ft" using D(1) [of a] E(2,3) by (auto split: option.splits)
  have le: "next_node (fw_table w) \<le> next_node ft" using E(2) by simp
  have st: "wake_thread_after (snd (stop_thread th)) = wake_thread_after th" for th by (simp add: stop_thread_def)
  have old: "u \<in> set (sleepers (fw_table w) a)" if "fw_inside w u = Some p" "holds_ref p = Some (a, node)" for u p
    using D(5) [OF that] D(6) [OF that] E(3) by (cases "futex_map (fw_table w) a") (auto simp: sleepers_def)
  have d: "distinct (sleepers (fw_table w) a)" using D(1) [of a] by (auto simp: sleepers_def split: option.split)
  show ?thesis
  proof (rule futex_invI, goal_cases)
    case (1 b m v)
    then show ?case using D(1) [of b m v] d n k le by (auto simp: E(1) split: if_splits)
  next
    case (2 u b)
    then show ?case using D(2) [of u b] D(2) [of u a] n [of b] n [of a] by (auto simp: s split: if_splits)
  next
    case (3 u b)
    then show ?case using D(3) [of u b] D(3) [of u a] n assms(3) st by (auto simp: s split: if_splits)
  next
    case (4 u p b)
    then show ?case using D(4) [of u p b] by (auto simp: s split: if_splits)
  next
    case (5 u p b m)
    then show ?case using D(5) [of u p b m] k le by (auto split: if_splits)
  next
    case (6 u p b m v)
    then show ?case using D(6) [of u p b m v] old [of u p] by (auto simp: E(1) split: if_splits)
  qed
qed

lemma futex_inv_withdraw:
  assumes "futex_inv w" and "fw_inside w t = Some (Fx_Changed a node)" and "futex_withdraw t a node (fw_table w) = Some ft"
  shows "futex_inv (w\<lparr>fw_table := ft, fw_inside := (fw_inside w)(t \<mapsto> Fx_Withdrawn a)\<rparr>)"
proof -
  note D = futex_invD [OF assms(1)]
  obtain v where v: "futex_map (fw_table w) a = Some (node, v)"
    using assms(3) by (auto simp: futex_withdraw_def split: option.splits if_splits)
  have t: "t \<in> set v" using D(6) [OF assms(2) _ v] by simp
  have d: "distinct v" using D(1) [OF v] by simp
  have ft: "ft = (if remove1 t v = [] then (fw_table w)\<lparr>futex_map := (futex_map (fw_table w))(a := None)\<rparr>
      else (fw_table w)\<lparr>futex_map := (futex_map (fw_table w))(a \<mapsto> (node, remove1 t v))\<rparr>)"
    using assms(3) v t by (simp add: futex_withdraw_def Let_def)
  have s: "sleepers ft b = (if b = a then remove1 t v else sleepers (fw_table w) b)" for b by (simp add: ft)
  have sv: "sleepers (fw_table w) a = v" using v by (rule sleepers_some)
  have r: "set (remove1 t v) = set v - {t}" using d by (rule set_remove1_eq)
  have m: "futex_map ft b = Some (n, x) \<Longrightarrow> b = a \<and> n = node \<and> x = remove1 t v \<and> x \<noteq> [] \<or> b \<noteq> a \<and> futex_map (fw_table w) b = Some (n, x)" for b n x
    by (auto simp: ft split: if_splits)
  have nn: "next_node ft = next_node (fw_table w)" by (simp add: ft)
  show ?thesis
  proof (rule futex_invI, goal_cases)
    case (1 b n x)
    then show ?case using m [of b n x] D(1) [of b n x] D(1) [OF v] d nn by auto
  next
    case (2 u b)
    then show ?case using D(2) [of u b] D(2) [of u a] D(2) [of t b] assms(2) sv r by (auto simp: s split: if_splits)
  next
    case (3 u b)
    then show ?case using D(3) [of u b] D(3) [of u a] sv r by (auto simp: s split: if_splits)
  next
    case (4 u p b)
    then have u: "u \<noteq> t" "fw_inside w u = Some p" by (auto split: if_splits)
    moreover have "u \<notin> set (sleepers (fw_table w) b)" using 4(3) u(1) by (auto simp: s sv r split: if_splits)
    ultimately show ?case using D(4) 4(2) by auto
  next
    case (5 u p b n)
    then show ?case using D(5) [of u p b n] nn by (auto split: if_splits)
  next
    case (6 u p b n x)
    then show ?case using D(6) [of u p b n] m [of b n x] v r by (auto split: if_splits)
  qed
qed

lemma futex_inv_wake:
  assumes "futex_inv w" and "futex_wake a (fw_table w) (fw_threads w) = (r, ft, ths)"
  shows "futex_inv (w\<lparr>fw_table := ft, fw_threads := ths\<rparr>)"
proof (cases "futex_map (fw_table w) a")
  case None
  then show ?thesis using assms by (auto simp: futex_wake_def)
next
  case (Some e)
  note D = futex_invD [OF assms(1)]
  obtain n v where e: "e = (n, v)" by (cases e)
  have ft: "ft = (fw_table w)\<lparr>futex_map := (futex_map (fw_table w))(a := None)\<rparr>" "ths = start_all v (fw_threads w)"
    using assms(2) Some e by (auto simp: futex_wake_def)
  have sv: "sleepers (fw_table w) a = v" using Some e by (simp add: sleepers_def)
  have o: "b \<noteq> a \<Longrightarrow> u \<in> set (sleepers (fw_table w) b) \<Longrightarrow> u \<notin> set v" for b u
    using D(2) [of u b] D(2) [of u a] sv by auto
  show ?thesis
  proof (rule futex_invI, goal_cases)
    case (1 b n x)
    then show ?case using D(1) [of b n x] by (auto simp: ft split: if_splits)
  next
    case (2 u b)
    then show ?case using D(2) [of u b] by (auto simp: ft split: if_splits)
  next
    case (3 u b)
    then show ?case using D(3) [of u b] o [of b u] by (auto simp: ft start_all_eq split: if_splits)
  next
    case (4 u p b)
    then show ?case using D(4) [of u p b] sv by (auto simp: ft start_all_eq split: if_splits)
  next
    case (5 u p b n)
    then show ?case using D(5) [of u p b n] by (auto simp: ft)
  next
    case (6 u p b n x)
    then show ?case using D(6) [of u p b n x] by (auto simp: ft split: if_splits)
  qed
qed

lemma futex_inv_thread:
  assumes "futex_inv w"
    and "\<And>a. t \<in> set (sleepers (fw_table w) a) \<Longrightarrow> \<not> permit_running th \<and> wake_thread_after th = 0"
    and "fw_inside w t \<noteq> None \<Longrightarrow> permit_running (fw_threads w t) \<or> thread_destroyed (fw_threads w t) \<Longrightarrow> permit_running th \<or> thread_destroyed th"
  shows "futex_inv (w\<lparr>fw_threads := (fw_threads w)(t := th)\<rparr>)"
proof -
  note D = futex_invD [OF assms(1)]
  show ?thesis by (rule futex_invI) (use assms(2,3) in \<open>auto dest: D\<close>)
qed

lemma futex_inv_step: "futex_step w w' \<Longrightarrow> futex_inv w \<Longrightarrow> futex_inv w'"
proof (induction rule: futex_step.induct)
  case (fx_check w t a req)
  note D = futex_invD [OF fx_check.prems]
  have "t \<notin> set (sleepers (fw_table w) b)" for b using D(2) [of t b] fx_check.hyps(1) by auto
  then show ?case by (intro futex_invI) (auto dest: D split: if_splits)
next
  case (fx_same w t a req node)
  then show ?case by (intro futex_inv_phase) auto
next
  case (fx_changed w t a req node)
  then show ?case by (intro futex_inv_phase) auto
next
  case (fx_start w t a)
  note D = futex_invD [OF fx_start.prems]
  have "t \<notin> set (sleepers (fw_table w) b)" for b using D(2) [of t b] fx_start.hyps(1) by auto
  then show ?case by (intro futex_invI) (auto dest: D split: if_splits)
next
  case (fx_return w t a)
  note D = futex_invD [OF fx_return.prems]
  have "t \<notin> set (sleepers (fw_table w) b)" for b using D(3) [of t b] fx_return.hyps(2) by auto
  then show ?case by (intro futex_invI) (auto dest: D split: if_splits)
next
  case (fx_store w a v)
  note D = futex_invD [OF fx_store.prems]
  show ?case by (rule futex_invI) (auto dest: D)
next
  case (fx_scheduler w t now)
  then show ?case using futex_invD(3) [OF fx_scheduler.prems, of t] by (intro futex_inv_thread) (auto simp: wake_if_due_def)
next
  case (fx_destroy w t)
  then show ?case using futex_invD(3) [OF fx_destroy.prems, of t] by (intro futex_inv_thread) (auto simp: stop_thread_def)
next
  case (fx_env w t th)
  then show ?case using futex_invD(2) [OF fx_env.prems, of t] by (intro futex_inv_thread) auto
qed (blast intro: futex_inv_enqueue futex_inv_withdraw futex_inv_wake)+

interpretation futex: transition_system futex_step futex_inv
  by unfold_locales (rule futex_inv_step)

lemma futex_inv_reachable: "futex_step\<^sup>*\<^sup>* futex_start w \<Longrightarrow> futex_inv w"
  using futex.run_keeps futex_inv_start by blast

text \<open>
  C10. No wake-up is lost, over all interleavings of threads that wait, wake, store to the futexes or are destroyed. A thread that has been queued at an address and
  is not running is in the queue of that address; \<open>futex_wake\<close> lets every thread run that has been queued at the address and has not returned, wherever in
  \<open>futex_wait\<close> it is; it reports whether there was one, empties the queue, and does not touch the other queues and threads.
\<close>

theorem futex_no_lost_wakeup:
  assumes "futex_step\<^sup>*\<^sup>* futex_start w" and "fw_inside w t = Some p" and "queued_at p = Some a" and "\<not> thread_destroyed (fw_threads w t)"
  shows "(\<not> permit_running (fw_threads w t) \<longrightarrow> t \<in> set (sleepers (fw_table w) a)) \<and>
    (\<exists>r ft ths. futex_wake a (fw_table w) (fw_threads w) = (r, ft, ths) \<and> permit_running (ths t) \<and>
       r = (if sleepers (fw_table w) a = [] then NOT_FOUND else NO_ERROR) \<and>
       sleepers ft = (sleepers (fw_table w))(a := []) \<and>
       (\<forall>u. u \<notin> set (sleepers (fw_table w) a) \<longrightarrow> ths u = fw_threads w u))"
proof -
  note D = futex_invD [OF futex_inv_reachable [OF assms(1)]]
  have q: "\<not> permit_running (fw_threads w t) \<Longrightarrow> t \<in> set (sleepers (fw_table w) a)" using D(4) [OF assms(2,3)] assms(4) by auto
  have "\<exists>r ft ths. futex_wake a (fw_table w) (fw_threads w) = (r, ft, ths) \<and> permit_running (ths t) \<and>
       r = (if sleepers (fw_table w) a = [] then NOT_FOUND else NO_ERROR) \<and> sleepers ft = (sleepers (fw_table w))(a := []) \<and>
       (\<forall>u. u \<notin> set (sleepers (fw_table w) a) \<longrightarrow> ths u = fw_threads w u)"
  proof (cases "futex_map (fw_table w) a")
    case None
    then have "sleepers (fw_table w) a = []" by (simp add: sleepers_def)
    then show ?thesis using None q by (auto simp: futex_wake_def fun_upd_idem)
  next
    case (Some e)
    obtain n v where e: "e = (n, v)" by (cases e)
    have "v \<noteq> []" using D(1) Some e by blast
    then show ?thesis using Some e q assms(4) by (auto simp: futex_wake_def start_all_eq sleepers_some)
  qed
  then show ?thesis using q by blast
qed

text \<open>Thread 1 finds the value 0 at address 0 and is queued.\<close>

definition futex_queued :: futex_world where
  "futex_queued = futex_start\<lparr>fw_table := \<lparr>futex_map = [0 \<mapsto> (0, [1])], next_node = 1\<rparr>, fw_inside := [1 \<mapsto> Fx_Queued 0 0 0]\<rparr>"

lemma futex_queued_reachable: "futex_step\<^sup>*\<^sup>* futex_start futex_queued"
proof -
  let ?c = "futex_start\<lparr>fw_inside := (fw_inside futex_start)(1 \<mapsto> Fx_Checked 0 0)\<rparr>"
  have "futex_step futex_start ?c" by (rule fx_check) (simp_all add: futex_start_def)
  moreover have "futex_step ?c (?c\<lparr>fw_table := fw_table futex_queued, fw_threads := (fw_threads ?c)(1 := snd (stop_thread (fw_threads ?c 1))),
      fw_inside := (fw_inside ?c)(1 \<mapsto> Fx_Queued 0 0 0)\<rparr>)"
    by (rule fx_enqueue) (simp_all add: futex_start_def futex_queued_def futex_enqueue_def blank_thread_def)
  moreover have "?c\<lparr>fw_table := fw_table futex_queued, fw_threads := (fw_threads ?c)(1 := snd (stop_thread (fw_threads ?c 1))),
      fw_inside := (fw_inside ?c)(1 \<mapsto> Fx_Queued 0 0 0)\<rparr> = futex_queued"
    by (simp add: futex_queued_def futex_start_def stop_thread_def blank_thread_def fun_upd_idem)
  ultimately show ?thesis by (metis converse_rtranclp_into_rtranclp rtranclp.rtrancl_refl)
qed

theorem futex_no_lost_wakeup_witness:
  "\<exists>ft ths. futex_wake 0 (fw_table futex_queued) (fw_threads futex_queued) = (NO_ERROR, ft, ths) \<and> permit_running (ths 1)"
proof -
  have f: "fw_inside futex_queued 1 = Some (Fx_Queued 0 0 0)" "queued_at (Fx_Queued 0 0 0) = Some 0"
    "\<not> thread_destroyed (fw_threads futex_queued 1)" "sleepers (fw_table futex_queued) 0 = [1]"
    by (simp_all add: futex_queued_def futex_start_def blank_thread_def sleepers_def)
  show ?thesis using futex_no_lost_wakeup [OF futex_queued_reachable f(1-3)] f(4) by auto
qed

text \<open>
  C33. A thread that has found a changed value uses its reference to the vector. When \<open>futex_wake\<close> has woken the thread in between, the vector is gone: the
  test whether the thread was woken by somebody else is made on freed memory. While the vector exists the thread is in it, so that
  the test succeeds whenever it is defined.
\<close>

theorem futex_wait_dangling:
  "\<exists>w a node. futex_step\<^sup>*\<^sup>* futex_start w \<and> fw_inside w 1 = Some (Fx_Changed a node) \<and> futex_withdraw 1 a node (fw_table w) = None"
proof -
  let ?s = "futex_queued\<lparr>fw_value := (fw_value futex_queued)(0 := 1)\<rparr>"
  let ?c = "?s\<lparr>fw_inside := (fw_inside ?s)(1 \<mapsto> Fx_Changed 0 0)\<rparr>"
  obtain r ft ths where w: "futex_wake 0 (fw_table ?c) (fw_threads ?c) = (r, ft, ths)" by (metis prod_cases3)
  have "futex_step futex_queued ?s" by (rule fx_store)
  moreover have "futex_step ?s ?c" by (rule fx_changed [where req = 0]) (simp_all add: futex_queued_def)
  moreover have "futex_step ?c (?c\<lparr>fw_table := ft, fw_threads := ths\<rparr>)" using w by (rule fx_wake)
  ultimately have "futex_step\<^sup>*\<^sup>* futex_start (?c\<lparr>fw_table := ft, fw_threads := ths\<rparr>)"
    using futex_queued_reachable by (meson rtranclp.rtrancl_into_rtrancl)
  moreover have "futex_withdraw 1 0 0 ft = None" using w by (auto simp: futex_wake_def futex_withdraw_def futex_queued_def)
  ultimately show ?thesis by (intro exI [of _ "?c\<lparr>fw_table := ft, fw_threads := ths\<rparr>"] exI [of _ 0]) simp
qed

lemma futex_withdraw_valid:
  assumes "futex_step\<^sup>*\<^sup>* futex_start w" and "fw_inside w t = Some (Fx_Changed a node)" and "futex_map (fw_table w) a = Some (node, v)"
  shows "\<exists>ft. futex_withdraw t a node (fw_table w) = Some ft \<and> set (sleepers ft a) = set v - {t}"
proof -
  note D = futex_invD [OF futex_inv_reachable [OF assms(1)]]
  have "t \<in> set v" "distinct v" using D(6) [OF assms(2) _ assms(3)] D(1) [OF assms(3)] by auto
  then show ?thesis using assms(3) set_remove1_eq [of v t] by (cases "remove1 t v = []") (simp_all add: futex_withdraw_def Let_def)
qed

end
