(* ===== verification/Syscall_Rw.thy ===== *)
theory Syscall_Rw
  imports Object_Mgr System_Tree
begin

text \<open>
  The system calls that read and write the objects behind handles: \<open>kernel/syscall/syscall_rw.cpp\<close> and \<open>syscall_validation.cpp\<close>. A handle of a
  process stands for an object and a position in it. The objects are reached through their C++ interfaces \<open>IReadable\<close>, \<open>IWritable\<close> and
  \<open>IBasicFile\<close>: a record of operations here, each of which also says whether the object has the interface. The locale \<open>file_objects\<close> states what a file promises, and
  the files in memory of the System Tree satisfy it.

  A pointer of the caller is its address, for the checks, together with the memory it points to; what the call stores there is part of the result. The current
  thread may be missing; otherwise it matters only for its process, the number of an object manager.
\<close>

subsection \<open>Validation\<close>

definition syscall_v_is_um_address :: "u64 \<Rightarrow> bool" where
  "syscall_v_is_um_address addr \<longleftrightarrow> addr AND 0x8000000000000000 = 0"

definition syscall_v_is_um_buffer :: "u64 \<Rightarrow> u64 \<Rightarrow> bool" where
  "syscall_v_is_um_buffer base len \<longleftrightarrow>
     len AND 0x8000000000000000 = 0 \<and> base AND 0x8000000000000000 = 0 \<and> (base + len) AND 0x8000000000000000 = 0"

text \<open>A buffer that passes the test lies in the lower half of the address space, all of it.\<close>

lemma top_bit_clear: "a AND 0x8000000000000000 = 0 \<longleftrightarrow> unat (a :: u64) < 2 ^ 63"
proof -
  have m: "(0x8000000000000000 :: u64) = 2 ^ 63" by simp
  have "a AND 2 ^ 63 = 0 \<longleftrightarrow> \<not> bit a 63" using and_exp_eq_0_iff_not_bit [of a 63] by simp
  also have "\<dots> \<longleftrightarrow> unat a < 2 ^ 63"
  proof -
    have "unat a div 2 ^ 63 < 2" using unat_lt_u64 [of a] by (simp add: less_mult_imp_div_less)
    then have "odd (unat a div 2 ^ 63) \<longleftrightarrow> unat a div 2 ^ 63 \<noteq> 0" by (auto simp: less_2_cases_iff)
    also have "\<dots> \<longleftrightarrow> 2 ^ 63 \<le> unat a" by (simp add: div_eq_0_iff not_less)
    finally have "odd (unat a div 2 ^ 63) \<longleftrightarrow> 2 ^ 63 \<le> unat a" .
    then show ?thesis using bit_iff_odd [of "unat a" 63] by (simp add: bit_unsigned_iff not_le)
  qed
  finally show ?thesis unfolding m .
qed

lemma um_buffer_range:
  "syscall_v_is_um_buffer base len \<Longrightarrow> unat base + unat len < 2 ^ 63"
  using unat_add_no_wrap [of base len] by (auto simp: syscall_v_is_um_buffer_def top_bit_clear)

subsection \<open>Objects and handles\<close>

text \<open>
  The operations of the objects, over the state \<open>'w\<close> of all objects. A result of a read is the code, the caller's buffer and \<open>bytes_read\<close>,
  \<^term>\<open>None\<close> where the object leaves it alone.
\<close>

record 'w file_ops =
  IReadable :: "'w \<Rightarrow> nat \<Rightarrow> bool"
  IWritable :: "'w \<Rightarrow> nat \<Rightarrow> bool"
  IBasicFile :: "'w \<Rightarrow> nat \<Rightarrow> bool"
  fo_read :: "nat \<Rightarrow> u64 \<Rightarrow> u64 \<Rightarrow> u8 list \<Rightarrow> u64 \<Rightarrow> 'w \<Rightarrow> (ERR_CODE \<times> u8 list \<times> u64 option \<times> 'w) option"
  fo_write :: "nat \<Rightarrow> u64 \<Rightarrow> u64 \<Rightarrow> u8 list \<Rightarrow> u64 \<Rightarrow> 'w \<Rightarrow> (ERR_CODE \<times> u64 option \<times> 'w) option"
  fo_size :: "nat \<Rightarrow> 'w \<Rightarrow> (ERR_CODE \<times> u64 option) option"
  fo_resize :: "nat \<Rightarrow> u64 \<Rightarrow> 'w \<Rightarrow> (ERR_CODE \<times> 'w) option"

record 'w sc_world =
  sc_objs :: 'w
  sc_om :: om_state

definition dynamic_pointer_cast :: "('w \<Rightarrow> nat \<Rightarrow> bool) \<Rightarrow> 'w \<Rightarrow> nat option \<Rightarrow> nat option" where
  "dynamic_pointer_cast has objs p = (case p of Some q \<Rightarrow> if has objs q then Some q else None | None \<Rightarrow> None)"

definition set_seek_position :: "nat \<Rightarrow> GEN_HANDLE \<Rightarrow> u64 \<Rightarrow> om_state \<Rightarrow> om_state" where
  "set_seek_position om handle pos s =
     s\<lparr>object_store := (object_store s)(om :=
        map (\<lambda>(k, d). if k = handle then (k, d\<lparr>od_seek_position := pos\<rparr>) else (k, d)) (object_store s om))\<rparr>"

definition syscall_read_handle :: "'w file_ops \<Rightarrow> nat option \<Rightarrow> GEN_HANDLE \<Rightarrow> u64 \<Rightarrow> u64 \<Rightarrow> u64 \<Rightarrow> u8 list \<Rightarrow> u64 \<Rightarrow>
    u64 \<Rightarrow> u64 \<Rightarrow> 'w sc_world \<Rightarrow> (ERR_CODE \<times> u8 list \<times> u64 \<times> 'w sc_world) option" where
  "syscall_read_handle ops cur_thread handle start_offset bytes_to_read buffer_addr buffer buffer_size bytes_read_addr bytes_read w =
     (if buffer_addr = 0 \<or> \<not> syscall_v_is_um_address buffer_addr then Some (INVALID_PARAM, buffer, bytes_read, w)
      else if bytes_read_addr = 0 \<or> \<not> syscall_v_is_um_address bytes_read_addr then Some (INVALID_PARAM, buffer, bytes_read, w)
      else if buffer_size = 0 then Some (INVALID_PARAM, buffer, bytes_read, w)
      else case cur_thread of
        None \<Rightarrow> Some (INVALID_OP, buffer, bytes_read, w)
      | Some om \<Rightarrow>
          (case retrieve_object om handle (sc_om w) of
             None \<Rightarrow> Some (INVALID_PARAM, buffer, bytes_read, w)
           | Some object \<Rightarrow>
               (case dynamic_pointer_cast (IReadable ops) (sc_objs w) (od_object_ptr object) of
                  None \<Rightarrow> Some (INVALID_OP, buffer, bytes_read, w)
                | Some file \<Rightarrow> do {
                 let bytes_to_read = (if bytes_to_read > buffer_size then buffer_size else bytes_to_read);
                 (result, buffer, br, objs) \<leftarrow>
                   fo_read ops file (start_offset + od_seek_position object) bytes_to_read buffer buffer_size (sc_objs w);
                 let bytes_read = (case br of None \<Rightarrow> bytes_read | Some n \<Rightarrow> n);
                 Some (result, buffer, bytes_read,
                   w\<lparr>sc_objs := objs, sc_om := set_seek_position om handle (od_seek_position object + bytes_read) (sc_om w)\<rparr>)
               })))"

definition syscall_write_handle :: "'w file_ops \<Rightarrow> nat option \<Rightarrow> GEN_HANDLE \<Rightarrow> u64 \<Rightarrow> u64 \<Rightarrow> u64 \<Rightarrow> u8 list \<Rightarrow> u64 \<Rightarrow>
    u64 \<Rightarrow> u64 \<Rightarrow> 'w sc_world \<Rightarrow> (ERR_CODE \<times> u64 \<times> 'w sc_world) option" where
  "syscall_write_handle ops cur_thread handle start_offset bytes_to_write buffer_addr buffer buffer_size bytes_written_addr bytes_written w =
     (if buffer_addr = 0 \<or> \<not> syscall_v_is_um_address buffer_addr then Some (INVALID_PARAM, bytes_written, w)
      else if bytes_written_addr = 0 \<or> \<not> syscall_v_is_um_address bytes_written_addr then Some (INVALID_PARAM, bytes_written, w)
      else if buffer_size = 0 then Some (INVALID_PARAM, bytes_written, w)
      else case cur_thread of
        None \<Rightarrow> Some (INVALID_OP, bytes_written, w)
      | Some om \<Rightarrow>
          (case retrieve_object om handle (sc_om w) of
             None \<Rightarrow> Some (INVALID_PARAM, bytes_written, w)
           | Some obj \<Rightarrow>
               (case dynamic_pointer_cast (IWritable ops) (sc_objs w) (od_object_ptr obj) of
                  None \<Rightarrow> Some (INVALID_OP, bytes_written, w)
                | Some file \<Rightarrow> do {
                 let bytes_to_write = (if bytes_to_write > buffer_size then buffer_size else bytes_to_write);
                 (result, bw, objs) \<leftarrow>
                   fo_write ops file (start_offset + od_seek_position obj) bytes_to_write buffer buffer_size (sc_objs w);
                 let bytes_written = (case bw of None \<Rightarrow> bytes_written | Some n \<Rightarrow> n);
                 Some (result, bytes_written,
                   w\<lparr>sc_objs := objs, sc_om := set_seek_position om handle (od_seek_position obj + bytes_written) (sc_om w)\<rparr>)
               })))"

definition syscall_get_handle_data_len :: "'w file_ops \<Rightarrow> nat option \<Rightarrow> GEN_HANDLE \<Rightarrow> u64 \<Rightarrow> u64 \<Rightarrow> 'w sc_world \<Rightarrow> (ERR_CODE \<times> u64) option" where
  "syscall_get_handle_data_len ops cur_thread handle data_length_addr data_length w =
     (if data_length_addr = 0 \<or> \<not> syscall_v_is_um_address data_length_addr then Some (INVALID_PARAM, data_length)
      else case cur_thread of
        None \<Rightarrow> Some (INVALID_OP, data_length)
      | Some om \<Rightarrow>
          (case retrieve_object om handle (sc_om w) of
             None \<Rightarrow> Some (INVALID_PARAM, data_length)
           | Some obj \<Rightarrow>
               (case dynamic_pointer_cast (IBasicFile ops) (sc_objs w) (od_object_ptr obj) of
                  None \<Rightarrow> Some (INVALID_OP, data_length)
                | Some file \<Rightarrow> do {
                 (_, size) \<leftarrow> fo_size ops file (sc_objs w);
                 Some (NO_ERROR, case size of None \<Rightarrow> data_length | Some n \<Rightarrow> n)
               })))"

definition syscall_set_handle_data_len :: "'w file_ops \<Rightarrow> nat option \<Rightarrow> GEN_HANDLE \<Rightarrow> u64 \<Rightarrow> 'w sc_world \<Rightarrow> (ERR_CODE \<times> 'w sc_world) option" where
  "syscall_set_handle_data_len ops cur_thread handle data_length w =
     (case cur_thread of
        None \<Rightarrow> Some (INVALID_OP, w)
      | Some om \<Rightarrow>
          (case retrieve_object om handle (sc_om w) of
             None \<Rightarrow> Some (NOT_FOUND, w)
           | Some obj \<Rightarrow>
               (case dynamic_pointer_cast (IBasicFile ops) (sc_objs w) (od_object_ptr obj) of
                  None \<Rightarrow> Some (INVALID_OP, w)
                | Some file \<Rightarrow> do {
                 (result, objs) \<leftarrow> fo_resize ops file data_length (sc_objs w);
                 Some (result, w\<lparr>sc_objs := objs\<rparr>)
               })))"

text \<open>The direction arrives as a number of the caller. The offset is signed; as a word it is added and subtracted all the same.\<close>

definition syscall_seek_handle :: "'w file_ops \<Rightarrow> nat option \<Rightarrow> GEN_HANDLE \<Rightarrow> u64 \<Rightarrow> nat \<Rightarrow> u64 \<Rightarrow> u64 \<Rightarrow> 'w sc_world \<Rightarrow>
    (ERR_CODE \<times> u64 \<times> 'w sc_world) option" where
  "syscall_seek_handle ops cur_thread handle offs dir new_offset_addr new_offset w =
     (case cur_thread of
        None \<Rightarrow> Some (INVALID_OP, new_offset, w)
      | Some om \<Rightarrow>
          if \<not> syscall_v_is_um_address new_offset_addr \<and> new_offset_addr \<noteq> 0 then Some (INVALID_PARAM, new_offset, w)
          else (case retrieve_object om handle (sc_om w) of
             None \<Rightarrow> Some (INVALID_PARAM, new_offset, w)
           | Some obj \<Rightarrow>
               (case dynamic_pointer_cast (IBasicFile ops) (sc_objs w) (od_object_ptr obj) of
                  None \<Rightarrow> Some (INVALID_OP, new_offset, w)
                | Some file \<Rightarrow> do {
                 (result, size) \<leftarrow> fo_size ops file (sc_objs w);
                 if result \<noteq> NO_ERROR then Some (result, new_offset, w)
                 else do {
                   size \<leftarrow> size;
                   let proposed_offset =
                     (if dir = 1 then Some offs else if dir = 2 then Some (size - offs)
                      else if dir = 0 then Some (od_seek_position obj + offs) else None);
                   (case proposed_offset of
                      None \<Rightarrow> Some (INVALID_PARAM, new_offset, w)
                    | Some p \<Rightarrow> Some (NO_ERROR, if new_offset_addr \<noteq> 0 then p else new_offset,
                        w\<lparr>sc_om := set_seek_position om handle p (sc_om w)\<rparr>))
                 }
               })))"

lemma map_of_seek: "map_of (map (\<lambda>(k, d). if k = h then (k, f d) else (k, d)) m) k = (if k = h then map_option f (map_of m h) else map_of m k)"
  by (induction m) auto

lemma retrieve_seek:
  "retrieve_object om' h' (set_seek_position om h pos s) =
     (if (om', h') = (om, h) then map_option (\<lambda>d. d\<lparr>od_seek_position := pos\<rparr>) (retrieve_object om h s) else retrieve_object om' h' s)"
  by (auto simp: retrieve_map set_seek_position_def map_of_seek)

lemma std_map_wf_seek: "std_map_wf (map (\<lambda>(k, d). if k = h then (k, f d) else (k, d)) m) \<longleftrightarrow> std_map_wf m"
proof -
  have "map fst (map (\<lambda>(k, d). if k = h then (k, f d) else (k, d)) m) = map fst m" by (induction m) auto
  then show ?thesis unfolding std_map_wf_def by (rule arg_cong)
qed

lemma om_wf_seek: "om_wf s \<Longrightarrow> om_wf (set_seek_position om h pos s)"
  unfolding om_wf_def by (auto simp: set_seek_position_def map_of_seek std_map_wf_seek)

subsection \<open>What a file promises\<close>

text \<open>
  The contract of the objects that are regular files: \<open>contents\<close> gives their bytes. Reading and writing below the end of the number range
  does to them what the specifications \<^const>\<open>spec_read\<close> and \<^const>\<open>spec_write\<close> say and leaves all other files alone.
\<close>

definition open_file :: "('w \<Rightarrow> bool) \<Rightarrow> ('w \<Rightarrow> nat \<rightharpoonup> u8 list) \<Rightarrow> nat \<Rightarrow> GEN_HANDLE \<Rightarrow> nat \<Rightarrow> u64 \<Rightarrow> u8 list \<Rightarrow> 'w sc_world \<Rightarrow> bool" where
  "open_file ok contents om h p pos d w \<longleftrightarrow> ok (sc_objs w) \<and> contents (sc_objs w) p = Some d \<and>
     (\<exists>x. retrieve_object om h (sc_om w) = Some (\<lparr>od_object_ptr = Some p, od_handle = x, od_seek_position = pos\<rparr>))"

lemma spec_read_write: "spec_read k (length new) (spec_write k new d) = new"
  by (simp add: spec_read_def spec_write_def spec_resize_def Let_def)

locale file_objects =
  fixes ops :: "'w file_ops" and ok :: "'w \<Rightarrow> bool" and contents :: "'w \<Rightarrow> nat \<rightharpoonup> u8 list"
  assumes file_ifaces: "contents w p = Some d \<Longrightarrow> IReadable ops w p \<and> IWritable ops w p \<and> IBasicFile ops w p"
    and file_bounded: "ok w \<Longrightarrow> contents w p = Some d \<Longrightarrow> length d < 2 ^ 64"
    and file_read: "ok w \<Longrightarrow> contents w p = Some d \<Longrightarrow> unat sz \<le> length buf \<Longrightarrow> unat start + unat len < 2 ^ 64 \<Longrightarrow>
      got = spec_read (unat start) (min (unat len) (unat sz)) d \<Longrightarrow>
      fo_read ops p start len buf sz w = Some (NO_ERROR, got @ drop (length got) buf, Some (of_nat (length got)), w)"
    and file_write: "ok w \<Longrightarrow> contents w p = Some d \<Longrightarrow> n = min (unat len) (unat sz) \<Longrightarrow> n \<le> length buf \<Longrightarrow> unat start + n < 2 ^ 64 \<Longrightarrow>
      \<exists>w'. fo_write ops p start len buf sz w = Some (NO_ERROR, Some (of_nat n), w') \<and> ok w' \<and>
        contents w' = (contents w)(p \<mapsto> spec_write (unat start) (take n buf) d)"
    and file_size: "ok w \<Longrightarrow> contents w p = Some d \<Longrightarrow> fo_size ops p w = Some (NO_ERROR, Some (of_nat (length d)))"
    and file_resize: "ok w \<Longrightarrow> contents w p = Some d \<Longrightarrow>
      \<exists>w'. fo_resize ops p m w = Some (NO_ERROR, w') \<and> ok w' \<and> contents w' = (contents w)(p \<mapsto> spec_resize (unat m) d)"
begin

lemma open_fileD:
  assumes "open_file ok contents om h p pos d w"
  shows "ok (sc_objs w)" "contents (sc_objs w) p = Some d"
    "\<exists>x. retrieve_object om h (sc_om w) = Some (\<lparr>od_object_ptr = Some p, od_handle = x, od_seek_position = pos\<rparr>)"
    "dynamic_pointer_cast (IReadable ops) (sc_objs w) (Some p) = Some p"
    "dynamic_pointer_cast (IWritable ops) (sc_objs w) (Some p) = Some p"
    "dynamic_pointer_cast (IBasicFile ops) (sc_objs w) (Some p) = Some p"
  using assms file_ifaces [of "sc_objs w" p d] by (auto simp: open_file_def dynamic_pointer_cast_def)

lemma open_file_moved:
  "open_file ok contents om h p pos d w \<Longrightarrow> ok objs \<Longrightarrow> contents objs p = Some d' \<Longrightarrow>
   open_file ok contents om h p pos' d' (w\<lparr>sc_objs := objs, sc_om := set_seek_position om h pos' (sc_om w)\<rparr>)"
  by (auto simp: open_file_def retrieve_seek)

lemma read_handle:
  assumes "open_file ok contents om h p pos d w" and "ba \<noteq> 0" "syscall_v_is_um_address ba" "ra \<noteq> 0" "syscall_v_is_um_address ra"
    and "sz \<noteq> 0" "unat sz \<le> length buf" and "unat pos + unat n < 2 ^ 64"
    and "got = spec_read (unat pos) (min (unat n) (unat sz)) d"
  shows "\<exists>w'. syscall_read_handle ops (Some om) h 0 n ba buf sz ra br w =
      Some (NO_ERROR, got @ drop (length got) buf, of_nat (length got), w') \<and>
    open_file ok contents om h p (pos + of_nat (length got)) d w' \<and> sc_objs w' = sc_objs w \<and>
    (\<forall>om' h'. (om', h') \<noteq> (om, h) \<longrightarrow> retrieve_object om' h' (sc_om w') = retrieve_object om' h' (sc_om w))"
proof -
  note o = open_fileD [OF assms(1)]
  obtain x where x: "retrieve_object om h (sc_om w) = Some \<lparr>od_object_ptr = Some p, od_handle = x, od_seek_position = pos\<rparr>" using o(3) by blast
  let ?n = "if n > sz then sz else n"
  have n: "unat ?n = min (unat n) (unat sz)" "min (unat ?n) (unat sz) = min (unat n) (unat sz)"
    by (simp_all add: min_def word_less_nat_alt)
  have "fo_read ops p pos ?n buf sz (sc_objs w) = Some (NO_ERROR, got @ drop (length got) buf, Some (of_nat (length got)), sc_objs w)"
    using file_read [OF o(1,2) assms(7), of pos ?n got] assms(8,9) n by auto
  then have "syscall_read_handle ops (Some om) h 0 n ba buf sz ra br w = Some (NO_ERROR, got @ drop (length got) buf, of_nat (length got),
      w\<lparr>sc_objs := sc_objs w, sc_om := set_seek_position om h (pos + of_nat (length got)) (sc_om w)\<rparr>)"
    using assms(2-6) x o(4) by (simp add: syscall_read_handle_def Let_def)
  then show ?thesis using open_file_moved [OF assms(1) o(1,2), of "pos + of_nat (length got)"] by (simp add: retrieve_seek)
qed

lemma write_handle:
  assumes "open_file ok contents om h p pos d w" and "ba \<noteq> 0" "syscall_v_is_um_address ba" "ra \<noteq> 0" "syscall_v_is_um_address ra"
    and "sz \<noteq> 0" and "k = min (unat n) (unat sz)" "k \<le> length buf" and "unat pos + k < 2 ^ 64"
  shows "\<exists>w'. syscall_write_handle ops (Some om) h 0 n ba buf sz ra bw w = Some (NO_ERROR, of_nat k, w') \<and>
    open_file ok contents om h p (pos + of_nat k) (spec_write (unat pos) (take k buf) d) w' \<and>
    contents (sc_objs w') = (contents (sc_objs w))(p \<mapsto> spec_write (unat pos) (take k buf) d) \<and>
    (\<forall>om' h'. (om', h') \<noteq> (om, h) \<longrightarrow> retrieve_object om' h' (sc_om w') = retrieve_object om' h' (sc_om w))"
proof -
  note o = open_fileD [OF assms(1)]
  obtain x where x: "retrieve_object om h (sc_om w) = Some \<lparr>od_object_ptr = Some p, od_handle = x, od_seek_position = pos\<rparr>" using o(3) by blast
  let ?n = "if n > sz then sz else n"
  have n: "k = min (unat ?n) (unat sz)" using assms(7) by (simp add: min_def word_less_nat_alt)
  obtain objs where w': "fo_write ops p pos ?n buf sz (sc_objs w) = Some (NO_ERROR, Some (of_nat k), objs)" "ok objs"
    "contents objs = (contents (sc_objs w))(p \<mapsto> spec_write (unat pos) (take k buf) d)"
    using file_write [OF o(1,2) n assms(8,9)] by blast
  let ?w = "w\<lparr>sc_objs := objs, sc_om := set_seek_position om h (pos + of_nat k) (sc_om w)\<rparr>"
  have "syscall_write_handle ops (Some om) h 0 n ba buf sz ra bw w = Some (NO_ERROR, of_nat k, ?w)"
    using assms(2-6) x o(5) w'(1) by (simp add: syscall_write_handle_def Let_def)
  moreover have "open_file ok contents om h p (pos + of_nat k) (spec_write (unat pos) (take k buf) d) ?w"
    using open_file_moved [OF assms(1) w'(2)] w'(3) by simp
  ultimately show ?thesis using w'(3) by (intro exI [of _ ?w]) (auto simp: retrieve_seek)
qed

lemma seek_handle:
  assumes "open_file ok contents om h p pos d w" and "syscall_v_is_um_address na \<or> na = 0"
    and "q = (if dir = 1 then offs else if dir = 2 then of_nat (length d) - offs else pos + offs)" and "dir \<le> 2"
  shows "\<exists>w'. syscall_seek_handle ops (Some om) h offs dir na old w = Some (NO_ERROR, if na \<noteq> 0 then q else old, w') \<and>
    open_file ok contents om h p q d w' \<and> sc_objs w' = sc_objs w"
proof -
  note o = open_fileD [OF assms(1)]
  obtain x where x: "retrieve_object om h (sc_om w) = Some \<lparr>od_object_ptr = Some p, od_handle = x, od_seek_position = pos\<rparr>" using o(3) by blast
  let ?w = "w\<lparr>sc_om := set_seek_position om h q (sc_om w)\<rparr>"
  have "syscall_seek_handle ops (Some om) h offs dir na old w = Some (NO_ERROR, if na \<noteq> 0 then q else old, ?w)"
    using assms(2-4) x o(6) file_size [OF o(1,2)] by (auto simp: syscall_seek_handle_def)
  moreover have "open_file ok contents om h p q d ?w" using open_file_moved [OF assms(1) o(1,2)] by simp
  ultimately show ?thesis by (intro exI [of _ ?w]) simp
qed

lemma resize_handle:
  assumes "open_file ok contents om h p pos d w"
  shows "\<exists>w'. syscall_set_handle_data_len ops (Some om) h n w = Some (NO_ERROR, w') \<and>
    open_file ok contents om h p pos (spec_resize (unat n) d) w' \<and>
    syscall_get_handle_data_len ops (Some om) h 1 x w' = Some (NO_ERROR, n)"
proof -
  note o = open_fileD [OF assms(1)]
  obtain y where y: "retrieve_object om h (sc_om w) = Some \<lparr>od_object_ptr = Some p, od_handle = y, od_seek_position = pos\<rparr>" using o(3) by blast
  obtain objs where r: "fo_resize ops p n (sc_objs w) = Some (NO_ERROR, objs)" "ok objs"
    "contents objs = (contents (sc_objs w))(p \<mapsto> spec_resize (unat n) d)" using file_resize [OF o(1,2)] by blast
  let ?w = "w\<lparr>sc_objs := objs\<rparr>"
  have w: "open_file ok contents om h p pos (spec_resize (unat n) d) ?w" using y r(2,3) by (auto simp: open_file_def)
  have "syscall_set_handle_data_len ops (Some om) h n w = Some (NO_ERROR, ?w)"
    using y o(6) r(1) by (simp add: syscall_set_handle_data_len_def)
  moreover have "syscall_get_handle_data_len ops (Some om) h 1 x ?w = Some (NO_ERROR, n)"
    using y open_fileD(6) [OF w] file_size [OF open_fileD(1,2) [OF w]]
    by (simp add: syscall_get_handle_data_len_def syscall_v_is_um_address_def)
  ultimately show ?thesis using w by blast
qed

text \<open>The three calls together: what was written is read again.\<close>

lemma write_seek_read:
  assumes "open_file ok contents om h p pos d w" and "ba \<noteq> 0" "syscall_v_is_um_address ba" "ra \<noteq> 0" "syscall_v_is_um_address ra"
    and "n \<noteq> 0" "unat n \<le> length buf" "unat n \<le> length out" and "unat pos + unat n < 2 ^ 64"
  shows "\<exists>w1 w2 w3. syscall_write_handle ops (Some om) h 0 n ba buf n ra x w = Some (NO_ERROR, n, w1) \<and>
    syscall_seek_handle ops (Some om) h pos 1 0 y w1 = Some (NO_ERROR, y, w2) \<and>
    syscall_read_handle ops (Some om) h 0 n ba out n ra z w2 = Some (NO_ERROR, take (unat n) buf @ drop (unat n) out, n, w3) \<and>
    open_file ok contents om h p (pos + n) (spec_write (unat pos) (take (unat n) buf) d) w3"
proof -
  let ?d = "spec_write (unat pos) (take (unat n) buf) d"
  obtain w1 where w1: "syscall_write_handle ops (Some om) h 0 n ba buf n ra x w = Some (NO_ERROR, n, w1)"
    "open_file ok contents om h p (pos + n) ?d w1"
    using write_handle [OF assms(1-6), of "unat n" n buf x] assms(7,9) by auto
  obtain w2 where w2: "syscall_seek_handle ops (Some om) h pos 1 0 y w1 = Some (NO_ERROR, y, w2)" "open_file ok contents om h p pos ?d w2"
    using seek_handle [OF w1(2), of 0 pos 1 pos y] by auto
  have len: "length (take (unat n) buf) = unat n" using assms(7) by simp
  have got: "spec_read (unat pos) (unat n) ?d = take (unat n) buf" using spec_read_write [of "unat pos" "take (unat n) buf" d] assms(7) by simp
  obtain w3 where "syscall_read_handle ops (Some om) h 0 n ba out n ra z w2 = Some (NO_ERROR, take (unat n) buf @ drop (unat n) out, n, w3)"
    "open_file ok contents om h p (pos + n) ?d w3"
    using read_handle [OF w2(2) assms(2-6,8,9), of "take (unat n) buf" z] by (auto simp: got len simp del: length_take)
  then show ?thesis using w1(1) w2(1) by blast
qed

end

subsection \<open>Files in memory\<close>

text \<open>The interfaces of the objects of the System Tree that are modelled: a file in memory has all three.\<close>

definition mem_leaf :: "tree_state \<Rightarrow> nat \<Rightarrow> mem_fs_leaf option" where
  "mem_leaf s p = (case st_objs s p of Some (Mem_Fs_Leaf f) \<Rightarrow> Some f | _ \<Rightarrow> None)"

definition tree_file_ops :: "u8 \<Rightarrow> tree_state file_ops" where
  "tree_file_ops junk = \<lparr>
     IReadable = (\<lambda>s p. mem_leaf s p \<noteq> None), IWritable = (\<lambda>s p. mem_leaf s p \<noteq> None), IBasicFile = (\<lambda>s p. mem_leaf s p \<noteq> None),
     fo_read = (\<lambda>p start len buf sz s. do {
       f \<leftarrow> mem_leaf s p;
       (r, b, n) \<leftarrow> mem_read_bytes start len (Some buf) sz f;
       b \<leftarrow> b;
       Some (r, b, n, s) }),
     fo_write = (\<lambda>p start len buf sz s. do {
       f \<leftarrow> mem_leaf s p;
       (r, n, f) \<leftarrow> mem_write_bytes junk start len buf sz f;
       Some (r, Some n, s\<lparr>st_objs := (st_objs s)(p \<mapsto> Mem_Fs_Leaf f)\<rparr>) }),
     fo_size = (\<lambda>p s. do { f \<leftarrow> mem_leaf s p; Some (fst (mem_get_file_size f), Some (snd (mem_get_file_size f))) }),
     fo_resize = (\<lambda>p n s. do {
       f \<leftarrow> mem_leaf s p;
       (r, f) \<leftarrow> mem_set_file_size junk n f;
       Some (r, s\<lparr>st_objs := (st_objs s)(p \<mapsto> Mem_Fs_Leaf f)\<rparr>) })\<rparr>"

definition files_ok :: "tree_state \<Rightarrow> bool" where
  "files_ok s \<longleftrightarrow> (\<forall>p f. mem_leaf s p = Some f \<longrightarrow> mem_file_wf f)"

definition file_contents :: "tree_state \<Rightarrow> nat \<rightharpoonup> u8 list" where
  "file_contents s p = map_option mf_buffer (mem_leaf s p)"

lemma mem_leaf_upd: "mem_leaf (s\<lparr>st_objs := (st_objs s)(p \<mapsto> Mem_Fs_Leaf f)\<rparr>) = (mem_leaf s)(p \<mapsto> f)"
  by (auto simp: mem_leaf_def fun_eq_iff)

lemma files_ok_upd: "files_ok s \<Longrightarrow> mem_file_wf f \<Longrightarrow> files_ok (s\<lparr>st_objs := (st_objs s)(p \<mapsto> Mem_Fs_Leaf f)\<rparr>)"
  by (simp add: files_ok_def mem_leaf_upd)

lemma file_contents_upd: "file_contents (s\<lparr>st_objs := (st_objs s)(p \<mapsto> Mem_Fs_Leaf f)\<rparr>) = (file_contents s)(p \<mapsto> mf_buffer f)"
  by (auto simp: file_contents_def mem_leaf_upd fun_eq_iff)

interpretation mem_files: file_objects "tree_file_ops junk" files_ok file_contents for junk
proof (unfold_locales, goal_cases)
  case (1 w p d)
  then show ?case by (auto simp: tree_file_ops_def file_contents_def)
next
  case (2 w p d)
  then show ?case using unat_lt_u64 by (auto simp: file_contents_def files_ok_def mem_file_wf_def)
next
  case (3 w p d sz buf start len got)
  then obtain f where "mem_leaf w p = Some f" "mem_file_wf f" "d = mf_buffer f" by (auto simp: file_contents_def files_ok_def)
  then show ?case using mem_read_refines [of f sz buf start len got] 3 by (simp add: tree_file_ops_def)
next
  case (4 w p d n len sz buf start)
  then obtain f where f: "mem_leaf w p = Some f" "mem_file_wf f" "d = mf_buffer f" by (auto simp: file_contents_def files_ok_def)
  then show ?case using mem_write_refines [of f n len sz buf start junk] 4 files_ok_upd file_contents_upd by (auto simp: tree_file_ops_def)
next
  case (5 w p d)
  then show ?case by (auto simp: tree_file_ops_def file_contents_def files_ok_def mem_get_file_size_def mem_file_wf_def)
next
  case (6 w p d m)
  then obtain f where f: "mem_leaf w p = Some f" "mem_file_wf f" "d = mf_buffer f" by (auto simp: file_contents_def files_ok_def)
  let ?f = "\<lparr>mf_buffer = spec_resize (unat m) (mf_buffer f), mf_buffer_length = m\<rparr>"
  have "mem_set_file_size junk m f = Some (NO_ERROR, ?f)" using resize_refines [OF f(2)] by (simp add: mem_set_file_size_def)
  moreover have "mem_file_wf ?f" by (simp add: mem_file_wf_def)
  ultimately show ?case using f 6 files_ok_upd [of w ?f p] file_contents_upd [of w p ?f] by (simp add: tree_file_ops_def)
qed

text \<open>
  C13. Writing and reading through a handle. A process writes to a file in memory through a handle at its position, seeks back, and reads: it receives what it wrote,
  the file holds the written bytes at that position and its other bytes as before, and the position is after them.
\<close>

theorem handle_write_seek_read:
  assumes "open_file files_ok file_contents om h p pos d w"
    and "ba \<noteq> 0" and "syscall_v_is_um_address ba" and "ra \<noteq> 0" and "syscall_v_is_um_address ra"
    and "n \<noteq> 0" and "unat n \<le> length buf" and "unat n \<le> length out" and "unat pos + unat n < 2 ^ 64"
  shows "\<exists>w1 w2 w3. syscall_write_handle (tree_file_ops junk) (Some om) h 0 n ba buf n ra x w = Some (NO_ERROR, n, w1) \<and>
    syscall_seek_handle (tree_file_ops junk) (Some om) h pos 1 0 y w1 = Some (NO_ERROR, y, w2) \<and>
    syscall_read_handle (tree_file_ops junk) (Some om) h 0 n ba out n ra z w2 = Some (NO_ERROR, take (unat n) buf @ drop (unat n) out, n, w3) \<and>
    open_file files_ok file_contents om h p (pos + n) (spec_write (unat pos) (take (unat n) buf) d) w3"
  using assms by (rule mem_files.write_seek_read)

definition sample_open :: "tree_state sc_world" where
  "sample_open = \<lparr>sc_objs = sample_tree,
     sc_om = \<lparr>hm_next_handle = 2, object_store = (\<lambda>_. [])(0 := [(1, \<lparr>od_object_ptr = Some 2, od_handle = 1, od_seek_position = 3\<rparr>)])\<rparr>\<rparr>"

lemma sample_open_file: "open_file files_ok file_contents 0 1 2 3 [] sample_open"
  by (auto simp: open_file_def sample_open_def files_ok_def file_contents_def mem_leaf_def sample_tree_def mem_fs_leaf_new_def mem_file_wf_def
    retrieve_map)

theorem handle_write_seek_read_witness:
  "\<exists>w1 w2 w3. syscall_write_handle (tree_file_ops 0xCD) (Some 0) 1 0 2 0x1000 [7, 8] 2 0x2000 0 sample_open = Some (NO_ERROR, 2, w1) \<and>
    syscall_seek_handle (tree_file_ops 0xCD) (Some 0) 1 3 1 0 0 w1 = Some (NO_ERROR, 0, w2) \<and>
    syscall_read_handle (tree_file_ops 0xCD) (Some 0) 1 0 2 0x1000 [0, 0, 0] 2 0x2000 0 w2 = Some (NO_ERROR, [7, 8, 0], 2, w3) \<and>
    file_contents (sc_objs w3) 2 = Some [0, 0, 0, 7, 8]"
proof -
  have "spec_write 3 [7, 8] [] = [0, 0, 0, 7, 8 :: u8]" by (simp add: spec_write_def spec_resize_def numeral_eq_Suc)
  moreover have "syscall_v_is_um_address 0x1000" "syscall_v_is_um_address 0x2000" by (simp_all add: syscall_v_is_um_address_def)
  moreover have "take (unat (2 :: u64)) [7, 8] = [7, 8 :: u8]" "drop (unat (2 :: u64)) [0, 0, 0] = [0 :: u8]" by simp_all
  ultimately obtain w1 w2 w3 where "syscall_write_handle (tree_file_ops 0xCD) (Some 0) 1 0 2 0x1000 [7, 8] 2 0x2000 0 sample_open = Some (NO_ERROR, 2, w1)"
    "syscall_seek_handle (tree_file_ops 0xCD) (Some 0) 1 3 1 0 0 w1 = Some (NO_ERROR, 0, w2)"
    "syscall_read_handle (tree_file_ops 0xCD) (Some 0) 1 0 2 0x1000 [0, 0, 0] 2 0x2000 0 w2 = Some (NO_ERROR, [7, 8] @ [0], 2, w3)"
    "open_file files_ok file_contents 0 1 2 (3 + 2) [0, 0, 0, 7, 8] w3"
    using handle_write_seek_read [OF sample_open_file, of "0x1000" "0x2000" 2 "[7, 8]" "[0, 0, 0]" "0xCD" 0 0 0] by auto
  then show ?thesis by (intro exI [of _ w1] exI [of _ w2] exI [of _ w3]) (simp add: open_file_def)
qed

text \<open>
  Seeking does not check its offset. Seeking to a negative offset from the start, which the description forbids, succeeds with a position near the end of the
  number range.
\<close>

lemma seek_negative_accepted:
  assumes "open_file files_ok file_contents om h p pos d w"
  shows "\<exists>w'. syscall_seek_handle (tree_file_ops junk) (Some om) h (- 1) 1 0 y w = Some (NO_ERROR, y, w') \<and>
    open_file files_ok file_contents om h p (- 1) d w'"
  using mem_files.seek_handle [OF assms, of 0 "- 1" 1 "- 1" junk y] by simp blast

text \<open>
  An object that fails a read without setting \<open>bytes_read\<close> leaves the caller's value there, and the position moves by it.
\<close>

lemma failed_read_moves_position:
  assumes "retrieve_object om h (sc_om w) = Some \<lparr>od_object_ptr = Some p, od_handle = h, od_seek_position = pos\<rparr>" and "IReadable ops (sc_objs w) p"
    and "fo_read ops p pos n buf n (sc_objs w) = Some (e, buf, None, sc_objs w)" and "n \<noteq> 0"
  shows "\<exists>w'. syscall_read_handle ops (Some om) h 0 n 0x1000 buf n 0x2000 x w = Some (e, buf, x, w') \<and>
    retrieve_object om h (sc_om w') = Some \<lparr>od_object_ptr = Some p, od_handle = h, od_seek_position = pos + x\<rparr>"
  using assms by (simp add: syscall_read_handle_def syscall_v_is_um_address_def dynamic_pointer_cast_def Let_def retrieve_seek)

end
