(* ===== verification/Fat_Table.thy ===== *)
theory Fat_Table
  imports Block_Dev
begin

text \<open>
  The file allocation table: \<open>kernel/system_tree/fs/fat/fat_fs.cpp\<close> and the structures of \<open>fat_structures.h\<close> that it reads. A
  volume is a block device; its first sector has the parameter block, and the table, which is copied to memory, has an entry of 12, 16 or 32 bits
  for each cluster. The entries of the clusters of a file link them to a chain.

  The state has the fields of the class \<open>fat_filesystem\<close>. The device is any record of block operations; its
  state is part of the file system's. Reading or writing outside the copy of the table is undefined behaviour in the code and has no result
  here. The spinlock \<open>gen_lock\<close>, which only the constructor takes, is left out.
\<close>

subsection \<open>Structures on disk\<close>

datatype FAT_TYPE = FAT12 | FAT16 | FAT32

text \<open>A little-endian number of \<open>n\<close> bytes at an offset.\<close>

primrec le_value :: "u8 list \<Rightarrow> nat" where
  "le_value [] = 0"
| "le_value (b # bs) = unat b + 256 * le_value bs"

primrec le_bytes :: "nat \<Rightarrow> nat \<Rightarrow> u8 list" where
  "le_bytes 0 v = []"
| "le_bytes (Suc n) v = of_nat v # le_bytes n (v div 256)"

definition le_at :: "u8 list \<Rightarrow> nat \<Rightarrow> nat \<Rightarrow> nat" where
  "le_at buf off n = le_value (take n (drop off buf))"

text \<open>The fields of the parameter block that the file system uses.\<close>

record fat_generic_bpb =
  bytes_per_sec :: u16
  secs_per_cluster :: u8
  rsvd_sec_cnt :: u16
  num_fats :: u8
  root_entry_cnt :: u16
  total_secs_16 :: u16
  fat_size_16 :: u16
  total_secs_32 :: u32

record fat32_bpb =
  shared :: fat_generic_bpb
  fat_size_32 :: u32
  root_cluster :: u32

definition read_bpb :: "u8 list \<Rightarrow> fat32_bpb" where
  "read_bpb buf =
     \<lparr>shared = \<lparr>bytes_per_sec = of_nat (le_at buf 11 2), secs_per_cluster = of_nat (le_at buf 13 1),
        rsvd_sec_cnt = of_nat (le_at buf 14 2), num_fats = of_nat (le_at buf 16 1), root_entry_cnt = of_nat (le_at buf 17 2),
        total_secs_16 = of_nat (le_at buf 19 2), fat_size_16 = of_nat (le_at buf 22 2), total_secs_32 = of_nat (le_at buf 32 4)\<rparr>,
      fat_size_32 = of_nat (le_at buf 36 4), root_cluster = of_nat (le_at buf 44 4)\<rparr>"

definition determine_fat_type :: "fat32_bpb \<Rightarrow> (FAT_TYPE \<times> u64) option" where
  "determine_fat_type bpb = do {
     let sh = shared bpb;
     ASSERT (bytes_per_sec sh \<noteq> 0);
     let root_dir_sectors = ((ucast (root_entry_cnt sh) * 32 + (ucast (bytes_per_sec sh) - 1)) div ucast (bytes_per_sec sh) :: u64);
     let fat_size = (if fat_size_16 sh = 0 then ucast (fat_size_32 bpb) else ucast (fat_size_16 sh) :: u64);
     let total_sectors = (if total_secs_16 sh = 0 then ucast (total_secs_32 sh) else ucast (total_secs_16 sh) :: u64);
     let private_sectors = ucast (rsvd_sec_cnt sh) + ucast (num_fats sh) * fat_size + root_dir_sectors;
     let data_sectors = total_sectors - private_sectors;
     ASSERT (secs_per_cluster sh \<noteq> 0);
     let cluster_count = data_sectors div ucast (secs_per_cluster sh);
     Some (if cluster_count < 4085 then FAT12 else if cluster_count < 65525 then FAT16 else FAT32, cluster_count)
   }"

subsection \<open>The file system object\<close>

record 'd fat_fs =
  fs_storage :: 'd
  fs_status :: DEV_STATUS
  raw_fat :: "u8 list"
  max_sectors :: u64
  fat_type :: FAT_TYPE
  fs_bpb :: fat32_bpb
  root_dir_start_sector :: u64
  root_dir_sector_count :: u64
  first_data_sector :: u64
  fat_length_bytes :: u64
  number_of_clusters :: u64
  fat_dirty :: bool

abbreviation spc :: "('d, 'z) fat_fs_scheme \<Rightarrow> u64" where
  "spc fs \<equiv> ucast (secs_per_cluster (shared (fs_bpb fs)))"

abbreviation bps :: "('d, 'z) fat_fs_scheme \<Rightarrow> u64" where
  "bps fs \<equiv> ucast (bytes_per_sec (shared (fs_bpb fs)))"

text \<open>
  The constructor. A missing, stopped or empty device gives an object that is only marked as failed, the left summand. A
  buffer whose read failed keeps its contents: \<open>junk\<close> for the buffer of the parameter block, zeros for the copy of the table. The
  products of the FAT12 and FAT16 sizes fit in the code's \<open>int\<close> when a sector has fewer than 32768 bytes; those of the FAT32
  sizes are computed in 32 bits.
\<close>

definition fat_load :: "'d block_ops \<Rightarrow> 'd \<Rightarrow> u64 \<Rightarrow> u64 \<Rightarrow> u64 \<Rightarrow> (ERR_CODE \<times> u8 list) option" where
  "fat_load ops dev start_sector sectors len = do {
     (r, buf) \<leftarrow> op_read ops dev start_sector sectors (Some (replicate (unat len) 0)) len;
     buf \<leftarrow> buf;
     Some (r, buf)
   }"

definition fat_filesystem_new :: "'d block_ops \<Rightarrow> u8 list \<Rightarrow> 'd option \<Rightarrow> (DEV_STATUS + 'd fat_fs) option" where
  "fat_filesystem_new ops junk parent_device =
     (case parent_device of
        None \<Rightarrow> Some (Inl DEV_FAILED)
      | Some dev \<Rightarrow>
          if op_status ops dev \<noteq> DEV_OK \<or> op_num_blocks ops dev = 0 then Some (Inl DEV_FAILED)
          else do {
            (r, buf) \<leftarrow> op_read ops dev 0 1 (Some junk) 512;
            buf \<leftarrow> buf;
            let bpb = read_bpb buf;
            (ty, clusters) \<leftarrow> determine_fat_type bpb;
            let sh = shared bpb;
            let total = (if total_secs_16 sh = 0 then ucast (total_secs_32 sh) else ucast (total_secs_16 sh) :: u64);
            let status = (if r = NO_ERROR then DEV_OK else DEV_FAILED);
            let (root_start, root_count, first_data, len, fat_sectors) =
              (if ty = FAT32
               then (0, 0, ucast (ucast (rsvd_sec_cnt sh) + ucast (num_fats sh) * fat_size_32 bpb),
                     ucast (fat_size_32 bpb * ucast (bytes_per_sec sh)), ucast (fat_size_32 bpb))
               else (let rs = (ucast (rsvd_sec_cnt sh) + ucast (num_fats sh) * ucast (fat_size_16 sh) :: u64);
                         rc = (ucast (root_entry_cnt sh) * 32 + (ucast (bytes_per_sec sh) - 1)) div ucast (bytes_per_sec sh)
                     in (rs, rc, rs + rc, ucast (bytes_per_sec sh) * ucast (fat_size_16 sh), ucast (fat_size_16 sh))));
            (r, fat) \<leftarrow> fat_load ops dev (ucast (rsvd_sec_cnt sh)) fat_sectors len;
            Some (Inr \<lparr>fs_storage = dev, fs_status = (if r = NO_ERROR then status else DEV_FAILED), raw_fat = fat,
              max_sectors = total, fat_type = ty, fs_bpb = bpb, root_dir_start_sector = root_start,
              root_dir_sector_count = root_count, first_data_sector = first_data, fat_length_bytes = len,
              number_of_clusters = clusters, fat_dirty = False\<rparr>)
          })"

subsection \<open>Entries of the table\<close>

definition fat_offset :: "FAT_TYPE \<Rightarrow> u64 \<Rightarrow> nat" where
  "fat_offset ty cluster_num = unat (case ty of
     FAT12 \<Rightarrow> cluster_num + cluster_num div 2 | FAT16 \<Rightarrow> cluster_num * 2 | FAT32 \<Rightarrow> cluster_num * 4)"

definition entry_bytes :: "FAT_TYPE \<Rightarrow> nat" where
  "entry_bytes ty = (if ty = FAT32 then 4 else 2)"

definition valid_cluster :: "('d, 'z) fat_fs_scheme \<Rightarrow> u64 \<Rightarrow> bool" where
  "valid_cluster fs cluster_num \<longleftrightarrow> \<not> (cluster_num > number_of_clusters fs + 1 \<or> cluster_num < 2)"

definition read_fat_entry :: "('d, 'z) fat_fs_scheme \<Rightarrow> u64 \<Rightarrow> u64 option" where
  "read_fat_entry fs cluster_num =
     (if \<not> valid_cluster fs cluster_num then Some 0
      else do {
        let off = fat_offset (fat_type fs) cluster_num;
        let n = entry_bytes (fat_type fs);
        ASSERT (off + n \<le> length (raw_fat fs));
        let next_cluster = (of_nat (le_at (raw_fat fs) off n) :: u64);
        Some (case fat_type fs of
            FAT12 \<Rightarrow> if cluster_num mod 2 = 1 then drop_bit 4 next_cluster else next_cluster AND 0x0FFF
          | FAT16 \<Rightarrow> next_cluster
          | FAT32 \<Rightarrow> next_cluster AND 0x0FFFFFFF)
      })"

definition write_fat_entry :: "u64 \<Rightarrow> u64 \<Rightarrow> ('d, 'z) fat_fs_scheme \<Rightarrow> (ERR_CODE \<times> ('d, 'z) fat_fs_scheme) option" where
  "write_fat_entry cluster_num new_entry fs =
     (if \<not> valid_cluster fs cluster_num then Some (OUT_OF_RANGE, fs)
      else do {
        let off = fat_offset (fat_type fs) cluster_num;
        let n = entry_bytes (fat_type fs);
        ASSERT (off + n \<le> length (raw_fat fs));
        let v = (case fat_type fs of
            FAT12 \<Rightarrow>
              (let new_entry = new_entry AND 0x0FFF; old_entry = (of_nat (le_at (raw_fat fs) off 2) :: u16)
               in unat (if cluster_num mod 2 = 1
                        then (old_entry AND 0x000F) OR ucast (push_bit 4 new_entry)
                        else (old_entry AND 0xF000) OR ucast new_entry))
          | FAT16 \<Rightarrow> unat new_entry
          | FAT32 \<Rightarrow> unat (new_entry AND 0x0FFFFFFF));
        fat \<leftarrow> memcpy (raw_fat fs) off (le_bytes n v) 0 n;
        Some (UNKNOWN, fs\<lparr>raw_fat := fat, fat_dirty := True\<rparr>)
      })"

definition is_normal_cluster_number :: "('d, 'z) fat_fs_scheme \<Rightarrow> u64 \<Rightarrow> bool" where
  "is_normal_cluster_number fs cluster_num =
     (\<not> cluster_num > (case fat_type fs of FAT12 \<Rightarrow> 0x0FEF | FAT16 \<Rightarrow> 0x0FFEF | FAT32 \<Rightarrow> 0x0FFFFFEF) \<and>
      \<not> (cluster_num = 0 \<or> cluster_num = 1))"

subsection \<open>Clusters and sectors\<close>

definition convert_cluster_to_sector_num :: "('d, 'z) fat_fs_scheme \<Rightarrow> u64 \<Rightarrow> u64" where
  "convert_cluster_to_sector_num fs cluster_num =
     (if is_normal_cluster_number fs cluster_num then (cluster_num - 2) * spc fs + first_data_sector fs else - 1)"

definition convert_sector_to_cluster_num :: "('d, 'z) fat_fs_scheme \<Rightarrow> u64 \<Rightarrow> (u64 \<times> u16) option" where
  "convert_sector_to_cluster_num fs sector_num =
     (if sector_num < first_data_sector fs \<or> sector_num > max_sectors fs then None
      else let n = sector_num - first_data_sector fs in Some (n div spc fs + 2, ucast (n mod spc fs)))"

text \<open>The result is absent when the code reads outside the table; inside, \<^term>\<open>None\<close> is the code's \<open>false\<close>.\<close>

definition get_next_file_sector :: "('d, 'z) fat_fs_scheme \<Rightarrow> u64 \<Rightarrow> u64 option option" where
  "get_next_file_sector fs current_sector_num =
     (case convert_sector_to_cluster_num fs current_sector_num of
        None \<Rightarrow> Some None
      | Some (cur_cluster, cur_offset) \<Rightarrow>
          if (ucast cur_offset :: u64) = spc fs - 1 then do {
            cur_cluster \<leftarrow> read_fat_entry fs cur_cluster;
            Some (if is_normal_cluster_number fs cur_cluster then Some (convert_cluster_to_sector_num fs cur_cluster) else None)
          } else Some (Some (current_sector_num + 1)))"

subsection \<open>The table as a function\<close>

text \<open>
  The table that a file system object may have: large enough for its clusters, and no more clusters than the type allows. The
  last cluster is \<open>number_of_clusters + 1\<close>.
\<close>

definition max_clusters :: "FAT_TYPE \<Rightarrow> nat" where
  "max_clusters ty = (case ty of FAT12 \<Rightarrow> 4085 | FAT16 \<Rightarrow> 65525 | FAT32 \<Rightarrow> 2 ^ 28 - 2)"

definition fat_wf :: "('d, 'z) fat_fs_scheme \<Rightarrow> bool" where
  "fat_wf fs \<longleftrightarrow> secs_per_cluster (shared (fs_bpb fs)) \<noteq> 0 \<and> unat (number_of_clusters fs) < max_clusters (fat_type fs) \<and>
     fat_offset (fat_type fs) (number_of_clusters fs + 1) + entry_bytes (fat_type fs) \<le> length (raw_fat fs)"

text \<open>The part of a value that an entry keeps, and the table as a function of the cluster.\<close>

definition entry_bits :: "FAT_TYPE \<Rightarrow> nat" where
  "entry_bits ty = (case ty of FAT12 \<Rightarrow> 12 | FAT16 \<Rightarrow> 16 | FAT32 \<Rightarrow> 28)"

definition entry_trunc :: "FAT_TYPE \<Rightarrow> u64 \<Rightarrow> u64" where
  "entry_trunc ty v = take_bit (entry_bits ty) v"

definition fat_map :: "('d, 'z) fat_fs_scheme \<Rightarrow> u64 \<Rightarrow> u64" where
  "fat_map fs c = (case read_fat_entry fs c of Some v \<Rightarrow> v | None \<Rightarrow> 0)"

lemma clusters_small: "fat_wf fs \<Longrightarrow> unat (number_of_clusters fs) + 2 < 2 ^ 28 + 1"
  by (auto simp: fat_wf_def max_clusters_def split: FAT_TYPE.splits)

lemma valid_cluster_nat:
  "fat_wf fs \<Longrightarrow> valid_cluster fs c \<longleftrightarrow> 2 \<le> unat c \<and> unat c \<le> unat (number_of_clusters fs) + 1"
  using clusters_small [of fs]
  by (auto simp: valid_cluster_def word_less_nat_alt word_le_nat_alt not_less unat_add_no_wrap)

text \<open>The offset as a number: no product wraps.\<close>

definition offset_nat :: "FAT_TYPE \<Rightarrow> nat \<Rightarrow> nat" where
  "offset_nat ty n = (case ty of FAT12 \<Rightarrow> n + n div 2 | FAT16 \<Rightarrow> n * 2 | FAT32 \<Rightarrow> n * 4)"

lemma fat_offset_nat:
  assumes "unat c < 2 ^ 29"
  shows "fat_offset ty c = offset_nat ty (unat c)"
proof -
  have 1: "unat (c * 2) = unat c * 2" using assms by (simp add: unat_mult_lem [THEN iffD1])
  have 2: "unat (c * 4) = unat c * 4" using assms by (simp add: unat_mult_lem [THEN iffD1])
  have 3: "unat (c + c div 2) = unat c + unat c div 2"
    using assms by (subst unat_add_no_wrap) (auto simp: unat_div)
  show ?thesis using 1 2 3 by (simp add: fat_offset_def offset_nat_def split: FAT_TYPE.splits)
qed

lemma offset_nat_mono: "m \<le> n \<Longrightarrow> offset_nat ty m \<le> offset_nat ty n"
  by (auto simp: offset_nat_def div_le_mono add_mono split: FAT_TYPE.splits)

lemma entry_in_table:
  assumes "fat_wf fs" "valid_cluster fs c"
  shows "fat_offset (fat_type fs) c = offset_nat (fat_type fs) (unat c)"
    and "offset_nat (fat_type fs) (unat c) + entry_bytes (fat_type fs) \<le> length (raw_fat fs)"
proof -
  have n: "unat (number_of_clusters fs + 1) = unat (number_of_clusters fs) + 1"
    using clusters_small [OF assms(1)] by (simp add: unat_add_no_wrap)
  have c: "unat c \<le> unat (number_of_clusters fs) + 1" using assms by (simp add: valid_cluster_nat)
  show "fat_offset (fat_type fs) c = offset_nat (fat_type fs) (unat c)"
    using c clusters_small [OF assms(1)] by (intro fat_offset_nat) simp
  have "fat_offset (fat_type fs) (number_of_clusters fs + 1) = offset_nat (fat_type fs) (unat (number_of_clusters fs) + 1)"
    using fat_offset_nat [of "number_of_clusters fs + 1"] clusters_small [OF assms(1)] n by simp
  then show "offset_nat (fat_type fs) (unat c) + entry_bytes (fat_type fs) \<le> length (raw_fat fs)"
    using assms(1) offset_nat_mono [OF c, of "fat_type fs"] by (simp add: fat_wf_def)
qed

text \<open>Bytes of little-endian numbers.\<close>

lemma length_le_bytes [simp]: "length (le_bytes n v) = n"
  by (induction n arbitrary: v) auto

lemma le_value_le_bytes [simp]: "le_value (le_bytes n v) = v mod 256 ^ n"
  by (induction n arbitrary: v) (auto simp: unat_of_nat mod_mult2_eq)

lemma le_value_less: "le_value bs < 256 ^ length bs"
proof (induction bs)
  case (Cons b bs)
  have "unat b < 256" using unsigned_less [of b] by simp
  then show ?case using Cons by simp
qed simp

text \<open>The table after a write of some bytes.\<close>

definition put :: "u8 list \<Rightarrow> nat \<Rightarrow> u8 list \<Rightarrow> u8 list" where
  "put buf off bs = take off buf @ bs @ drop (off + length bs) buf"

lemma length_put [simp]: "off + length bs \<le> length buf \<Longrightarrow> length (put buf off bs) = length buf"
  by (simp add: put_def)

lemma memcpy_put: "off + length bs \<le> length buf \<Longrightarrow> memcpy buf off bs 0 (length bs) = Some (put buf off bs)"
  by (simp add: memcpy_def put_def)

lemma le_at_put_same: "off + length bs \<le> length buf \<Longrightarrow> le_at (put buf off bs) off (length bs) = le_value bs"
  by (simp add: le_at_def put_def)

lemma le_at_put_other:
  assumes "off + length bs \<le> length buf" "p + k \<le> off \<or> off + length bs \<le> p"
  shows "le_at (put buf off bs) p k = le_at buf p k"
  using assms(2)
proof
  assume "p + k \<le> off"
  then show ?thesis using assms(1) by (simp add: le_at_def put_def take_drop)
next
  assume "off + length bs \<le> p"
  then show ?thesis using assms(1) by (simp add: le_at_def put_def)
qed

lemma le_at_less: "le_at buf off n < 256 ^ n"
proof -
  have "le_value (take n (drop off buf)) < 256 ^ length (take n (drop off buf))" by (rule le_value_less)
  also have "\<dots> \<le> 256 ^ n" by (rule power_increasing) simp_all
  finally show ?thesis by (simp add: le_at_def)
qed

lemma le_at_2: "off + 2 \<le> length buf \<Longrightarrow> le_at buf off 2 = unat (buf ! off) + 256 * unat (buf ! Suc off)"
  by (simp add: le_at_def numeral_2_eq_2 Cons_nth_drop_Suc [symmetric])

lemma put_2:
  assumes "off + 2 \<le> length buf"
  shows "put buf off [x, y] = buf[off := x, Suc off := y]"
proof -
  have "off < length buf" "Suc off < length buf" using assms by auto
  then show ?thesis by (simp add: put_def upd_conv_take_nth_drop take_Suc_conv_app_nth)
qed

lemma and_high_mask: "(x AND push_bit n (mask m) :: nat) = push_bit n (take_bit m (drop_bit n x))"
  by (rule bit_eqI) (auto simp: bit_simps)

lemma or_push_add: "take_bit n (a :: nat) OR push_bit n b = take_bit n a + push_bit n b"
  by (rule disjunctive_add_eq_or [symmetric]) (rule bit_eqI, auto simp: bit_simps)


lemma unat_and_FFF: "unat (v AND 0x0FFF :: u64) = take_bit 12 (unat v)"
proof -
  have "v AND 0x0FFF = take_bit 12 v" by (simp add: take_bit_eq_mask mask_eq_exp_minus_1)
  then show ?thesis by (simp add: unsigned_take_bit_eq)
qed

lemma nibble_even:
  fixes v :: u64
  assumes "old < 2 ^ 16"
  shows "unat ((of_nat old AND 0xF000 :: u16) OR ucast (v AND 0x0FFF)) = old div 4096 * 4096 + unat v mod 4096"
proof -
  have m: "(0xF000 :: u16) = push_bit 12 (mask 4)" by (simp add: mask_eq_exp_minus_1 push_bit_eq_mult)
  have u: "unat (of_nat old :: u16) = old" using assms by (simp add: unat_of_nat)
  have h: "unat (of_nat old AND 0xF000 :: u16) = old AND push_bit 12 (mask 4)"
    using u by (simp add: unsigned_and_eq mask_eq_exp_minus_1 push_bit_eq_mult)
  have l: "unat (ucast (v AND 0x0FFF) :: u16) = take_bit 12 (unat v)"
    by (simp add: unsigned_ucast_eq unat_and_FFF)
  have "unat ((of_nat old AND 0xF000 :: u16) OR ucast (v AND 0x0FFF)) = push_bit 12 (take_bit 4 (drop_bit 12 old)) + take_bit 12 (unat v)"
    by (simp only: unsigned_or_eq h l and_high_mask) (simp only: or_push_add [symmetric] or.commute add.commute)
  also have "take_bit 4 (drop_bit 12 old) = old div 4096" using assms by (simp add: take_bit_eq_mod drop_bit_eq_div)
  finally show ?thesis by (simp add: push_bit_eq_mult take_bit_eq_mod)
qed

lemma nibble_odd:
  fixes v :: u64
  assumes "old < 2 ^ 16"
  shows "unat ((of_nat old AND 0x000F :: u16) OR ucast (push_bit 4 (v AND 0x0FFF))) = old mod 16 + 16 * (unat v mod 4096)"
proof -
  have "(of_nat old AND 0x000F :: u16) = take_bit 4 (of_nat old)" by (simp add: take_bit_eq_mask mask_eq_exp_minus_1)
  then have h: "unat (of_nat old AND 0x000F :: u16) = take_bit 4 old"
    using assms by (simp only: unsigned_take_bit_eq) (simp add: unat_of_nat)
  have p: "push_bit 4 (take_bit 12 (unat v)) < 2 ^ 16" by (simp add: push_bit_eq_mult take_bit_eq_mod)
  have "unat (push_bit 4 (v AND 0x0FFF)) = push_bit 4 (take_bit 12 (unat v))"
    using p by (subst unsigned_push_bit_eq) (simp only: unat_and_FFF, simp add: take_bit_nat_eq_self)
  then have l: "unat (ucast (push_bit 4 (v AND 0x0FFF)) :: u16) = push_bit 4 (take_bit 12 (unat v))"
    using p by (simp only: unsigned_ucast_eq) (simp add: take_bit_nat_eq_self)
  show ?thesis
    by (simp only: unsigned_or_eq h l or_push_add) (simp add: push_bit_eq_mult take_bit_eq_mod)
qed


lemma bytes_mod_16: "(x + 256 * y) mod 16 = x mod (16 :: nat)"
proof -
  have "x + 256 * y = x + 16 * (16 * y)" by simp
  then show ?thesis by (simp only: mod_mult_self2)
qed

lemma bytes_mod_4096: "x < 256 \<Longrightarrow> (x + 256 * y) mod 4096 = x + 256 * (y mod 16 :: nat)"
  using mod_mult2_eq [of "x + 256 * y" 256 16] by simp

lemma bytes_div_16: "(x + 256 * y) div 16 = x div 16 + 16 * (y :: nat)"
proof -
  have "x + 256 * y = x + 16 * (16 * y)" by simp
  then show ?thesis by (simp only: div_mult_self2 [of 16])
qed

lemma bytes_high_nibble:
  fixes x y w :: nat
  assumes "x < 256" "y < 256"
  shows "((x + 256 * y) div 4096 * 4096 + w mod 4096) div 256 mod 256 div 16 = y div 16"
proof -
  have 1: "(x + 256 * y) div 4096 = y div 16" using assms div_mult2_eq [of "x + 256 * y" 256 16] by simp
  have 2: "w mod 4096 div 256 < 16" by (simp add: div_less_iff_less_mult)
  have "y div 16 * 4096 + w mod 4096 = w mod 4096 + 256 * (y div 16 * 16)" by simp
  then have 3: "(y div 16 * 4096 + w mod 4096) div 256 = y div 16 * 16 + w mod 4096 div 256"
    by (simp only: div_mult_self2 [of 256])
  have "y div 16 < 16" using assms by simp
  with 2 have "y div 16 * 16 + w mod 4096 div 256 < 256" by simp
  then show ?thesis using 1 2 3 by simp
qed
text \<open>The entries as numbers. Two entries of a 12-bit table share the byte between them.\<close>

definition entry_nat :: "FAT_TYPE \<Rightarrow> u8 list \<Rightarrow> nat \<Rightarrow> nat" where
  "entry_nat ty buf n = (let v = le_at buf (offset_nat ty n) (entry_bytes ty) in
     case ty of FAT12 \<Rightarrow> if odd n then v div 16 else v mod 4096 | FAT16 \<Rightarrow> v | FAT32 \<Rightarrow> v mod 2 ^ 28)"

definition put_nat :: "FAT_TYPE \<Rightarrow> u8 list \<Rightarrow> nat \<Rightarrow> nat \<Rightarrow> nat" where
  "put_nat ty buf n v = (let old = le_at buf (offset_nat ty n) 2 in
     case ty of FAT12 \<Rightarrow> if odd n then old mod 16 + 16 * (v mod 4096) else old div 4096 * 4096 + v mod 4096
       | FAT16 \<Rightarrow> v | FAT32 \<Rightarrow> v mod 2 ^ 28)"

definition set_entry :: "FAT_TYPE \<Rightarrow> u8 list \<Rightarrow> nat \<Rightarrow> nat \<Rightarrow> u8 list" where
  "set_entry ty buf n v = put buf (offset_nat ty n) (le_bytes (entry_bytes ty) (put_nat ty buf n v))"

lemma length_set_entry [simp]:
  "offset_nat ty n + entry_bytes ty \<le> length buf \<Longrightarrow> length (set_entry ty buf n v) = length buf"
  by (simp add: set_entry_def)

lemma set_entry_same:
  assumes "offset_nat ty n + entry_bytes ty \<le> length buf"
  shows "entry_nat ty (set_entry ty buf n v) n = v mod 2 ^ entry_bits ty"
proof -
  have r: "le_at (set_entry ty buf n v) (offset_nat ty n) (entry_bytes ty) = put_nat ty buf n v mod 256 ^ entry_bytes ty"
    using le_at_put_same [of "offset_nat ty n" "le_bytes (entry_bytes ty) (put_nat ty buf n v)" buf] assms
    by (simp add: set_entry_def)
  have o: "le_at buf (offset_nat ty n) 2 < 65536" using le_at_less [of buf _ 2] by simp
  show ?thesis
  proof (cases ty)
    case FAT12
    have "put_nat ty buf n v < 65536"
    proof -
      have "v mod 4096 < 4096" "le_at buf (offset_nat ty n) 2 div 4096 < 16" using o by auto
      then show ?thesis using FAT12 by (auto simp: put_nat_def Let_def)
    qed
    then show ?thesis using r FAT12 by (auto simp: entry_nat_def entry_bits_def entry_bytes_def put_nat_def Let_def)
  qed (use r in \<open>auto simp: entry_nat_def entry_bits_def entry_bytes_def put_nat_def Let_def mod_mod_cancel\<close>)
qed

lemma set_entry_other_12:
  assumes "offset_nat FAT12 n + 2 \<le> length buf" "offset_nat FAT12 m + 2 \<le> length buf" "m \<noteq> n"
  shows "entry_nat FAT12 (set_entry FAT12 buf n v) m = entry_nat FAT12 buf m"
proof (cases "m div 2 = n div 2")
  case False
  then have "offset_nat FAT12 m + 2 \<le> offset_nat FAT12 n \<or> offset_nat FAT12 n + 2 \<le> offset_nat FAT12 m"
    by (simp add: offset_nat_def) linarith
  then show ?thesis
    using le_at_put_other [of "offset_nat FAT12 n" "le_bytes 2 (put_nat FAT12 buf n v)" buf "offset_nat FAT12 m" 2] assms(1)
    by (simp add: entry_nat_def set_entry_def entry_bytes_def)
next
  case True
  let ?o = "offset_nat FAT12 n" and ?v = "put_nat FAT12 buf n v"
  have s: "set_entry FAT12 buf n v = buf[?o := of_nat ?v, Suc ?o := of_nat (?v div 256)]"
    using put_2 [OF assms(1)] by (simp add: set_entry_def entry_bytes_def numeral_2_eq_2)
  have b: "unat (buf ! i) < 256" for i using unsigned_less [of "buf ! i"] by simp
  show ?thesis
  proof (cases "odd n")
    case True
    with \<open>m div 2 = n div 2\<close> assms(3) have m: "n = Suc m" "even m" by presburger+
    then have o: "?o = Suc (offset_nat FAT12 m)" by (auto simp: offset_nat_def)
    have v: "?v mod 256 mod 16 = unat (buf ! ?o) mod 16"
      using True assms(1) by (simp add: put_nat_def le_at_2 mod_mod_cancel bytes_mod_16)
    show ?thesis
      using assms m(2) v b [of "offset_nat FAT12 m"] s o
      by (simp add: entry_nat_def entry_bytes_def le_at_2 unat_of_nat bytes_mod_4096)
  next
    case False
    with \<open>m div 2 = n div 2\<close> assms(3) have m: "m = Suc n" "odd m" by presburger+
    then have o: "offset_nat FAT12 m = Suc ?o" using False by (auto simp: offset_nat_def)
    have v: "?v div 256 mod 256 div 16 = unat (buf ! Suc ?o) div 16"
      using False assms(1) bytes_high_nibble [OF b [of ?o] b [of "Suc ?o"]] by (simp add: put_nat_def le_at_2)
    show ?thesis
      using assms m(2) v s o by (simp add: entry_nat_def entry_bytes_def le_at_2 unat_of_nat bytes_div_16)
  qed
qed

lemma set_entry_other:
  assumes "offset_nat ty n + entry_bytes ty \<le> length buf" "offset_nat ty m + entry_bytes ty \<le> length buf" "m \<noteq> n"
  shows "entry_nat ty (set_entry ty buf n v) m = entry_nat ty buf m"
proof (cases "ty = FAT12")
  case False
  then have "offset_nat ty m + entry_bytes ty \<le> offset_nat ty n \<or> offset_nat ty n + entry_bytes ty \<le> offset_nat ty m"
    using assms(3) by (cases ty) (auto simp: offset_nat_def entry_bytes_def)
  then show ?thesis
    using le_at_put_other [of "offset_nat ty n" "le_bytes (entry_bytes ty) (put_nat ty buf n v)" buf "offset_nat ty m" "entry_bytes ty"]
      assms(1) by (simp add: entry_nat_def set_entry_def)
qed (use assms set_entry_other_12 in \<open>simp add: entry_bytes_def\<close>)


lemma unat_take_bit_mod: "unat (take_bit n (w :: u64)) = unat w mod 2 ^ n"
  by (simp only: unsigned_take_bit_eq) (simp only: take_bit_eq_mod)

lemma unat_drop_bit_div: "unat (drop_bit n (w :: u64)) = unat w div 2 ^ n"
proof -
  have "take_bit 64 (unat w) = unat w" using unat_lt_u64 [of w] by (simp add: take_bit_nat_eq_self)
  then show ?thesis by (subst unsigned_drop_bit_eq) (simp add: drop_bit_eq_div)
qed

lemma word_odd: "(c :: u64) mod 2 = 1 \<longleftrightarrow> odd (unat c)"
  by (simp add: word_unat_eq_iff unat_mod odd_iff_mod_2_eq_one)

lemma read_fat_entry_nat:
  assumes "fat_wf fs" "valid_cluster fs c"
  shows "read_fat_entry fs c = Some (of_nat (entry_nat (fat_type fs) (raw_fat fs) (unat c)))"
proof -
  let ?v = "le_at (raw_fat fs) (offset_nat (fat_type fs) (unat c)) (entry_bytes (fat_type fs))"
  have m: "(w AND 0x0FFF) = take_bit 12 w" "(w AND 0x0FFFFFFF) = take_bit 28 w" for w :: u64
    by (simp_all add: take_bit_eq_mask mask_eq_exp_minus_1)
  have "?v < 2 ^ 64" using le_at_less [of "raw_fat fs" _ "entry_bytes (fat_type fs)"]
    by (rule less_le_trans) (simp add: entry_bytes_def)
  then have u: "unat (of_nat ?v :: u64) = ?v" by (simp add: unat_of_nat)
  have d: "drop_bit 4 (of_nat ?v :: u64) = of_nat (?v div 16)"
    by (rule of_nat_of_unat) (simp add: unat_drop_bit_div u)
  have t: "take_bit n (of_nat ?v :: u64) = of_nat (?v mod 2 ^ n)" for n
    by (rule of_nat_of_unat) (simp only: unat_take_bit_mod u)
  show ?thesis
    using assms entry_in_table [OF assms] d t [of 12] t [of 28]
    by (cases "fat_type fs") (simp_all add: read_fat_entry_def entry_nat_def Let_def word_odd m)
qed

lemma write_fat_entry_nat:
  assumes "fat_wf fs" "valid_cluster fs c"
  shows "write_fat_entry c v fs =
    Some (UNKNOWN, fs\<lparr>raw_fat := set_entry (fat_type fs) (raw_fat fs) (unat c) (unat v), fat_dirty := True\<rparr>)"
proof -
  let ?o = "offset_nat (fat_type fs) (unat c)" and ?n = "entry_bytes (fat_type fs)"
  have "v AND 0x0FFFFFFF = take_bit 28 v" by (simp add: take_bit_eq_mask mask_eq_exp_minus_1)
  then have m: "unat (v AND 0x0FFFFFFF) = unat v mod 2 ^ 28" by (simp only: unat_take_bit_mod)
  have o: "le_at (raw_fat fs) ?o 2 < 2 ^ 16" using le_at_less [of "raw_fat fs" ?o 2] by simp
  have c: "memcpy (raw_fat fs) ?o (le_bytes ?n x) 0 ?n = Some (put (raw_fat fs) ?o (le_bytes ?n x))" for x
    using memcpy_put [of ?o "le_bytes ?n x" "raw_fat fs"] entry_in_table(2) [OF assms] by simp
  show ?thesis
  proof (cases "fat_type fs")
    case FAT12
    then show ?thesis
      using assms entry_in_table [OF assms] nibble_even [OF o, of v] nibble_odd [OF o, of v] c
      by (simp add: write_fat_entry_def set_entry_def put_nat_def Let_def word_odd)
  qed (use assms entry_in_table [OF assms] m c in \<open>simp_all add: write_fat_entry_def set_entry_def put_nat_def Let_def\<close>)
qed

lemma fat_map_invalid: "\<not> valid_cluster fs c \<Longrightarrow> fat_map fs c = 0"
  by (simp add: fat_map_def read_fat_entry_def)

lemma read_fat_entry_map: "fat_wf fs \<Longrightarrow> read_fat_entry fs c = Some (fat_map fs c)"
  by (cases "valid_cluster fs c") (simp add: read_fat_entry_nat fat_map_def, simp add: read_fat_entry_def fat_map_invalid)

definition fat_same :: "('d, 'z) fat_fs_scheme \<Rightarrow> ('d, 'z) fat_fs_scheme \<Rightarrow> bool" where
  "fat_same fs fs' \<longleftrightarrow> fs' = fs\<lparr>raw_fat := raw_fat fs', fat_dirty := fat_dirty fs'\<rparr> \<and> length (raw_fat fs') = length (raw_fat fs)"

lemma write_fat_entry_refines:
  assumes "fat_wf fs" "valid_cluster fs c"
  obtains fs' where "write_fat_entry c v fs = Some (UNKNOWN, fs')" "fat_wf fs'" "fat_same fs fs'" "fat_dirty fs'"
    "fat_map fs' = (fat_map fs)(c := entry_trunc (fat_type fs) v)"
proof
  let ?t = "set_entry (fat_type fs) (raw_fat fs) (unat c) (unat v)"
  let ?fs = "fs\<lparr>raw_fat := ?t, fat_dirty := True\<rparr>"
  have l: "length ?t = length (raw_fat fs)" using entry_in_table(2) [OF assms] by simp
  have v: "valid_cluster ?fs d = valid_cluster fs d" for d by (simp add: valid_cluster_def)
  show w: "fat_wf ?fs" using assms(1) l by (simp add: fat_wf_def)
  show "write_fat_entry c v fs = Some (UNKNOWN, ?fs)" by (rule write_fat_entry_nat [OF assms])
  show "fat_same fs ?fs" "fat_dirty ?fs" using l by (simp_all add: fat_same_def)
  show "fat_map ?fs = (fat_map fs)(c := entry_trunc (fat_type fs) v)"
  proof
    fix d
    show "fat_map ?fs d = ((fat_map fs)(c := entry_trunc (fat_type fs) v)) d"
    proof (cases "valid_cluster fs d")
      case False
      then show ?thesis using assms(2) by (auto simp: fat_map_invalid v)
    next
      case True
      have e: "entry_trunc (fat_type fs) v = of_nat (unat v mod 2 ^ entry_bits (fat_type fs))"
        by (rule of_nat_of_unat) (simp only: entry_trunc_def unat_take_bit_mod)
      have "entry_nat (fat_type fs) ?t (unat d) = entry_nat (fat_type fs) (raw_fat fs) (unat d)" if "d \<noteq> c"
        using that set_entry_other [OF entry_in_table(2) [OF assms] entry_in_table(2) [OF assms(1) True]] by (simp add: word_unat_eq_iff)
      then show ?thesis
        using True v w assms e set_entry_same [OF entry_in_table(2) [OF assms], of "unat v"]
          read_fat_entry_nat [OF w, of d] read_fat_entry_nat [OF assms(1) True]
        by (auto simp: fat_map_def)
    qed
  qed
qed


subsection \<open>Clusters and their sectors\<close>

text \<open>The data region of the volume lies inside the volume.\<close>

definition volume_fits :: "('d, 'z) fat_fs_scheme \<Rightarrow> bool" where
  "volume_fits fs \<longleftrightarrow> unat (first_data_sector fs) + unat (number_of_clusters fs) * unat (spc fs) \<le> unat (max_sectors fs)"

lemma unat_ucast_u8_u64: "unat (ucast (w :: u8) :: u64) = unat w"
  using unsigned_less [of w, where ?'a = nat] by (simp add: unsigned_ucast_eq take_bit_nat_eq_self)

lemma unat_ucast_u16_u64: "unat (ucast (w :: u16) :: u64) = unat w"
  using unsigned_less [of w, where ?'a = nat] by (simp add: unsigned_ucast_eq take_bit_nat_eq_self)

lemma unat_spc: "unat (spc fs) = unat (secs_per_cluster (shared (fs_bpb fs)))" "unat (spc fs) < 256"
proof -
  show "unat (spc fs) = unat (secs_per_cluster (shared (fs_bpb fs)))" by (rule unat_ucast_u8_u64)
  then show "unat (spc fs) < 256" using unsigned_less [of "secs_per_cluster (shared (fs_bpb fs))"] by simp
qed

lemma cluster_sector_nat:
  assumes "fat_wf fs" "volume_fits fs" "valid_cluster fs c" "is_normal_cluster_number fs c" "k < unat (spc fs)"
  shows "unat (convert_cluster_to_sector_num fs c + of_nat k) = unat (first_data_sector fs) + (unat c - 2) * unat (spc fs) + k"
    and "unat (first_data_sector fs) + (unat c - 2) * unat (spc fs) + k < unat (max_sectors fs)"
proof -
  have c: "2 \<le> unat c" "unat c - 2 < unat (number_of_clusters fs)" using assms(1,3) by (auto simp: valid_cluster_nat)
  have "(unat c - 2) * unat (spc fs) + unat (spc fs) = Suc (unat c - 2) * unat (spc fs)" by simp
  also have "\<dots> \<le> unat (number_of_clusters fs) * unat (spc fs)" using c(2) by (intro mult_le_mono1) simp
  finally show b: "unat (first_data_sector fs) + (unat c - 2) * unat (spc fs) + k < unat (max_sectors fs)"
    using assms(2,5) by (simp add: volume_fits_def)
  have m: "unat (c - 2) = unat c - 2" using c(1) by (simp add: unat_sub word_le_nat_alt)
  have lt: "unat (first_data_sector fs) + (unat c - 2) * unat (spc fs) + k < 2 ^ 64" using b unat_lt_u64 [of "max_sectors fs"] by linarith
  have p: "unat ((c - 2) * spc fs) = (unat c - 2) * unat (spc fs)" using lt m by (subst unat_mult_no_wrap) simp_all
  have q: "unat ((c - 2) * spc fs + first_data_sector fs) = (unat c - 2) * unat (spc fs) + unat (first_data_sector fs)"
    using lt p by (subst unat_add_no_wrap) simp_all
  have k: "unat (of_nat k :: u64) = k" using lt by (simp add: unat_of_nat_u64)
  show "unat (convert_cluster_to_sector_num fs c + of_nat k) = unat (first_data_sector fs) + (unat c - 2) * unat (spc fs) + k"
    using assms(4) lt q k by (subst unat_add_no_wrap) (simp_all add: convert_cluster_to_sector_num_def)
qed

lemma sector_of_cluster:
  assumes "fat_wf fs" "volume_fits fs" "valid_cluster fs c" "is_normal_cluster_number fs c" "k < unat (spc fs)"
  shows "convert_sector_to_cluster_num fs (convert_cluster_to_sector_num fs c + of_nat k) = Some (c, of_nat k)"
proof -
  let ?s = "convert_cluster_to_sector_num fs c + of_nat k"
  note b = cluster_sector_nat [OF assms]
  have c: "2 \<le> unat c" using assms(1,3) by (simp add: valid_cluster_nat)
  have r: "\<not> ?s < first_data_sector fs" "\<not> ?s > max_sectors fs" using b by (simp_all add: word_less_nat_alt)
  then have n: "unat (?s - first_data_sector fs) = (unat c - 2) * unat (spc fs) + k"
    using b by (simp add: unat_sub word_le_nat_alt not_less)
  have d: "unat ((?s - first_data_sector fs) div spc fs) = unat c - 2" "unat ((?s - first_data_sector fs) mod spc fs) = k"
    using assms(5) by (simp_all only: unat_div unat_mod n) simp_all
  have "(?s - first_data_sector fs) div spc fs = c - 2"
    using d(1) c by (simp add: word_unat_eq_iff unat_sub word_le_nat_alt)
  then have "(?s - first_data_sector fs) div spc fs + 2 = c" by simp
  moreover have "(ucast ((?s - first_data_sector fs) mod spc fs) :: u16) = of_nat k"
    using d(2) by (metis of_nat_unat)
  ultimately show ?thesis using r by (simp add: convert_sector_to_cluster_num_def Let_def)
qed

lemma next_in_cluster:
  assumes "fat_wf fs" "volume_fits fs" "valid_cluster fs c" "is_normal_cluster_number fs c" "k < unat (spc fs)"
  shows "get_next_file_sector fs (convert_cluster_to_sector_num fs c + of_nat k) = Some
    (if Suc k < unat (spc fs) then Some (convert_cluster_to_sector_num fs c + of_nat (Suc k))
     else if is_normal_cluster_number fs (fat_map fs c) then Some (convert_cluster_to_sector_num fs (fat_map fs c)) else None)"
proof -
  have sp: "unat (spc fs - 1) = unat (spc fs) - 1" using assms(5) by (simp add: unat_sub word_le_nat_alt)
  have "unat (ucast (of_nat k :: u16) :: u64) = k"
    using assms(5) unat_spc(2) [of fs] by (simp add: unat_ucast_u16_u64 unat_of_nat take_bit_nat_eq_self)
  then have "(ucast (of_nat k :: u16) :: u64) = spc fs - 1 \<longleftrightarrow> Suc k = unat (spc fs)"
    using sp assms(5) by (auto simp: word_unat_eq_iff)
  then show ?thesis
    using assms(5) by (auto simp: get_next_file_sector_def sector_of_cluster [OF assms] read_fat_entry_map [OF assms(1)] add.assoc)
qed


subsection \<open>Properties\<close>

text \<open>
  C21. An entry of the table: in a table of any of the three types, writing an entry of a cluster and reading it back gives the value
  that fits in an entry, and every other entry is unchanged, although the 12-bit entries share bytes.
\<close>

theorem fat_entry_roundtrip:
  assumes "fat_wf fs" and "valid_cluster fs c"
  shows "\<exists>fs'. write_fat_entry c v fs = Some (UNKNOWN, fs') \<and> fat_wf fs' \<and>
     read_fat_entry fs' c = Some (entry_trunc (fat_type fs) v) \<and>
     (\<forall>d. d \<noteq> c \<longrightarrow> read_fat_entry fs' d = read_fat_entry fs d)"
proof -
  obtain fs' where "write_fat_entry c v fs = Some (UNKNOWN, fs')" "fat_wf fs'"
    "fat_map fs' = (fat_map fs)(c := entry_trunc (fat_type fs) v)"
    by (rule write_fat_entry_refines [OF assms])
  then show ?thesis by (intro exI [of _ fs']) (simp add: read_fat_entry_map assms(1))
qed

text \<open>A volume of the 12-bit type with six clusters of two sectors, cluster 2 linked to 3 and cluster 3 to 5.\<close>

definition sample_bpb :: fat32_bpb where
  "sample_bpb = \<lparr>shared = \<lparr>bytes_per_sec = 16, secs_per_cluster = 2, rsvd_sec_cnt = 1, num_fats = 1, root_entry_cnt = 1,
     total_secs_16 = 16, fat_size_16 = 1, total_secs_32 = 0\<rparr>, fat_size_32 = 0, root_cluster = 0\<rparr>"

definition sample_fat :: "u8 list" where
  "sample_fat = [0xF8, 0xFF, 0xFF, 0x03, 0x50, 0x00, 0x00, 0xF0, 0xFF, 0, 0, 0, 0, 0, 0, 0]"

definition sample_volume :: "'d \<Rightarrow> 'd fat_fs" where
  "sample_volume d = \<lparr>fs_storage = d, fs_status = DEV_OK, raw_fat = sample_fat, max_sectors = 16, fat_type = FAT12, fs_bpb = sample_bpb,
     root_dir_start_sector = 2, root_dir_sector_count = 2, first_data_sector = 4, fat_length_bytes = 16, number_of_clusters = 6, fat_dirty = False\<rparr>"

lemmas sample_volume_simps = sample_volume_def sample_bpb_def sample_fat_def

lemma sample_volume_wf: "fat_wf (sample_volume d)" "volume_fits (sample_volume d)"
  by (simp_all add: fat_wf_def volume_fits_def sample_volume_simps max_clusters_def fat_offset_def entry_bytes_def)

theorem fat_entry_roundtrip_witness:
  "\<exists>fs'. write_fat_entry 3 0x1234 (sample_volume ()) = Some (UNKNOWN, fs') \<and> read_fat_entry fs' 3 = Some 0x234 \<and> read_fat_entry fs' 2 = Some 3"
proof -
  have v: "valid_cluster (sample_volume ()) 3" by (simp add: valid_cluster_def sample_volume_def)
  have t: "entry_trunc (fat_type (sample_volume ())) 0x1234 = 0x234" by (simp add: entry_trunc_def entry_bits_def sample_volume_def take_bit_eq_mod)
  have r: "read_fat_entry (sample_volume ()) 2 = Some 3"
    by (simp add: read_fat_entry_def valid_cluster_def sample_volume_simps fat_offset_def entry_bytes_def le_at_def)
  from fat_entry_roundtrip [OF sample_volume_wf(1) v, of "0x1234"] show ?thesis unfolding t using r by fastforce
qed

text \<open>
  Clusters and sectors: the \<open>k\<close>-th sector of a cluster of the volume belongs to that cluster with offset \<open>k\<close>, and it
  lies in the volume.
\<close>

theorem cluster_sector_roundtrip:
  assumes "fat_wf fs" and "volume_fits fs" and "valid_cluster fs c" and "is_normal_cluster_number fs c" and "k < unat (spc fs)"
  shows "convert_sector_to_cluster_num fs (convert_cluster_to_sector_num fs c + of_nat k) = Some (c, of_nat k) \<and>
     convert_cluster_to_sector_num fs c + of_nat k < max_sectors fs"
  using sector_of_cluster [OF assms] cluster_sector_nat [OF assms] by (simp add: word_less_nat_alt)

theorem cluster_sector_roundtrip_witness:
  "convert_sector_to_cluster_num (sample_volume ()) (convert_cluster_to_sector_num (sample_volume ()) 5 + of_nat 1) = Some (5, of_nat 1)"
  using cluster_sector_roundtrip [OF sample_volume_wf [of "()"], of 5 1]
  by (simp add: valid_cluster_def is_normal_cluster_number_def sample_volume_simps)

end
