(* ===== verification/Syscall_Handles.thy ===== *)
theory Syscall_Handles
  imports Syscall_Rw Fat_Table
begin

text \<open>
  The system calls that open, create, close, rename, delete and describe objects: \<open>kernel/syscall/syscall_handles.cpp\<close>, as clients of the System Tree and
  the object manager of the calling process. A string of the caller is the memory from its address on; reading past the end of that memory has no result.
\<close>

subsection \<open>Strings of the caller\<close>

definition user_bytes :: "string \<Rightarrow> u64 \<Rightarrow> string option" where
  "user_bytes mem n = (if unat n \<le> length mem then Some (take (unat n) mem) else None)"

definition user_c_string :: "string \<Rightarrow> string option" where
  "user_c_string mem = (if CHR 0x00 \<in> set mem then Some (takeWhile (\<lambda>c. c \<noteq> CHR 0x00) mem) else None)"

subsection \<open>Operations\<close>

definition H_CREATE_IF_NEW :: u32 where
  "H_CREATE_IF_NEW = 1"

definition new_object_data :: "nat option \<Rightarrow> object_data" where
  "new_object_data p = \<lparr>od_object_ptr = p, od_handle = 0, od_seek_position = 0\<rparr>"

definition syscall_create_obj_and_handle :: "oid \<Rightarrow> nat option \<Rightarrow> u64 \<Rightarrow> string \<Rightarrow> u64 \<Rightarrow> u64 \<Rightarrow> GEN_HANDLE \<Rightarrow> tree_state sc_world \<Rightarrow>
    (ERR_CODE \<times> GEN_HANDLE \<times> tree_state sc_world) option" where
  "syscall_create_obj_and_handle root cur_thread path_addr path path_len handle_addr handle w = do {
     req_path \<leftarrow> user_bytes path path_len;
     if path_addr = 0 \<or> \<not> syscall_v_is_um_address path_addr \<or> path_len = 0 \<or> handle_addr = 0 \<or> \<not> syscall_v_is_um_address handle_addr
     then Some (INVALID_PARAM, handle, w)
     else do {
       (result, new_leaf, tree) \<leftarrow> root_create_child (sc_objs w) root req_path;
       let w = w\<lparr>sc_objs := tree\<rparr>;
       if result = NO_ERROR then do {
         om \<leftarrow> cur_thread;
         (new_handle, oms) \<leftarrow> store_object om (new_object_data new_leaf) (sc_om w);
         Some (result, new_handle, w\<lparr>sc_om := oms\<rparr>)
       } else Some (result, handle, w)
     }
   }"

definition syscall_open_handle :: "oid \<Rightarrow> nat option \<Rightarrow> u64 \<Rightarrow> string \<Rightarrow> u64 \<Rightarrow> u64 \<Rightarrow> GEN_HANDLE \<Rightarrow> u32 \<Rightarrow> tree_state sc_world \<Rightarrow>
    (ERR_CODE \<times> GEN_HANDLE \<times> tree_state sc_world) option" where
  "syscall_open_handle root cur_thread path_addr path path_len handle_addr handle flags w =
     (if path_addr = 0 \<or> \<not> syscall_v_is_um_address path_addr then Some (INVALID_PARAM, handle, w)
      else if handle_addr = 0 \<or> \<not> syscall_v_is_um_address handle_addr then Some (INVALID_PARAM, handle, w)
      else if path_len = 0 then Some (INVALID_PARAM, handle, w)
      else case cur_thread of
        None \<Rightarrow> Some (INVALID_OP, handle, w)
      | Some om \<Rightarrow> do {
          buf \<leftarrow> user_bytes path path_len;
          str_path \<leftarrow> user_c_string path;
          (result, leaf) \<leftarrow> root_get_child (sc_objs w) root str_path;
          if result = NO_ERROR then do {
            (new_handle, oms) \<leftarrow> store_object om (new_object_data leaf) (sc_om w);
            Some (result, new_handle, w\<lparr>sc_om := oms\<rparr>)
          }
          else if result = NOT_FOUND \<and> flags AND H_CREATE_IF_NEW \<noteq> 0
          then syscall_create_obj_and_handle root cur_thread path_addr path path_len handle_addr handle w
          else Some (result, handle, w)
        })"

definition syscall_close_handle :: "nat option \<Rightarrow> GEN_HANDLE \<Rightarrow> 'w sc_world \<Rightarrow> ERR_CODE \<times> 'w sc_world" where
  "syscall_close_handle cur_thread handle w =
     (case cur_thread of
        None \<Rightarrow> (INVALID_OP, w)
      | Some om \<Rightarrow>
          (case retrieve_handled_object om handle (sc_om w) of
             None \<Rightarrow> (NOT_FOUND, w)
           | Some obj \<Rightarrow> (NO_ERROR, w\<lparr>sc_om := remove_object om handle (sc_om w)\<rparr>)))"

definition syscall_rename_object :: "oid \<Rightarrow> u64 \<Rightarrow> string \<Rightarrow> u64 \<Rightarrow> u64 \<Rightarrow> string \<Rightarrow> u64 \<Rightarrow> tree_state sc_world \<Rightarrow>
    (ERR_CODE \<times> tree_state sc_world) option" where
  "syscall_rename_object root old_addr old_name old_name_len new_addr new_name new_name_len w =
     (if \<not> syscall_v_is_um_address old_addr \<or> \<not> syscall_v_is_um_address new_addr \<or> old_addr = 0 \<or> new_addr = 0 then Some (INVALID_PARAM, w)
      else do {
        str_old \<leftarrow> user_bytes old_name old_name_len;
        str_new \<leftarrow> user_bytes new_name new_name_len;
        old_c \<leftarrow> user_c_string old_name;
        new_c \<leftarrow> user_c_string new_name;
        (result, tree) \<leftarrow> root_rename_child (sc_objs w) root old_c new_c;
        Some (result, w\<lparr>sc_objs := tree\<rparr>)
      })"

definition syscall_delete_object :: "oid \<Rightarrow> u64 \<Rightarrow> string \<Rightarrow> u64 \<Rightarrow> tree_state sc_world \<Rightarrow> (ERR_CODE \<times> tree_state sc_world) option" where
  "syscall_delete_object root path_addr path path_len w =
     (if \<not> syscall_v_is_um_address path_addr \<or> path_addr = 0 then Some (INVALID_PARAM, w)
      else do {
        str_path \<leftarrow> user_bytes path path_len;
        path_c \<leftarrow> user_c_string path;
        (result, tree) \<leftarrow> root_delete_child (sc_objs w) root path_c;
        Some (result, w\<lparr>sc_objs := tree\<rparr>)
      })"

datatype OPER_STATUS = OPER_OK | OPER_FAILED | OPER_RESET | OPER_STOPPED | OPER_STARTING | OPER_STOPPING | OPER_UNKNOWN

record object_properties =
  op_exists :: bool
  op_is_leaf :: bool
  op_readable :: bool
  op_writable :: bool
  op_is_file :: bool
  op_oper_status :: OPER_STATUS
  op_additional_status :: u64

definition zero_properties :: object_properties where
  "zero_properties = \<lparr>op_exists = False, op_is_leaf = False, op_readable = False, op_writable = False, op_is_file = False,
     op_oper_status = OPER_OK, op_additional_status = 0\<rparr>"

text \<open>The processes among the objects have a status and an exit code; they are not leaves of the tree.\<close>

definition syscall_get_object_properties :: "oid \<Rightarrow> tree_state file_ops \<Rightarrow> (nat \<rightharpoonup> OPER_STATUS \<times> u64) \<Rightarrow> nat option \<Rightarrow> GEN_HANDLE \<Rightarrow> u64 \<Rightarrow> string \<Rightarrow> u64 \<Rightarrow>
    u64 \<Rightarrow> object_properties \<Rightarrow> tree_state sc_world \<Rightarrow> (ERR_CODE \<times> object_properties) option" where
  "syscall_get_object_properties root ops procs cur_thread handle path_addr path path_length props_addr props w =
     (let path_is_valid = syscall_v_is_um_address path_addr \<and> path_addr \<noteq> 0 \<and> path_length > 0 in
      if handle \<noteq> 0 \<and> path_is_valid \<or> handle = 0 \<and> \<not> path_is_valid then Some (INVALID_PARAM, props)
      else if \<not> syscall_v_is_um_address props_addr then Some (INVALID_PARAM, props)
      else do {
        (result, leaf, proc) \<leftarrow>
          (if handle = 0 then do {
             str_path \<leftarrow> user_bytes path path_length;
             (result, leaf) \<leftarrow> root_get_child (sc_objs w) root str_path;
             Some (result, leaf, None)
           } else do {
             om \<leftarrow> cur_thread;
             let obj = retrieve_handled_object om handle (sc_om w);
             let leaf = dynamic_pointer_cast (\<lambda>s p. st_objs s p \<noteq> None) (sc_objs w) obj;
             let proc = Option.bind obj procs;
             Some (if leaf = None \<and> proc = None then INVALID_PARAM else NO_ERROR, leaf, proc)
           });
        if result = NO_ERROR then do {
          ASSERT (props_addr \<noteq> 0);
          Some (result, \<lparr>op_exists = True,
            op_is_leaf = (dynamic_pointer_cast is_branch (sc_objs w) leaf = None),
            op_readable = (dynamic_pointer_cast (IReadable ops) (sc_objs w) leaf \<noteq> None),
            op_writable = (dynamic_pointer_cast (IWritable ops) (sc_objs w) leaf \<noteq> None),
            op_is_file = (dynamic_pointer_cast (IBasicFile ops) (sc_objs w) leaf \<noteq> None),
            op_oper_status = (case proc of Some (st, _) \<Rightarrow> st | None \<Rightarrow> OPER_UNKNOWN),
            op_additional_status = (case proc of Some (_, ec) \<Rightarrow> ec | None \<Rightarrow> 0)\<rparr>)
        }
        else if result = NOT_FOUND then do { ASSERT (props_addr \<noteq> 0); Some (result, zero_properties) }
        else Some (result, props)
      })"

subsection \<open>Listing the children of a branch\<close>

text \<open>How many names fit, and how many bytes all of them would need.\<close>

fun count_names :: "u64 \<Rightarrow> bool \<Rightarrow> u64 \<Rightarrow> u64 \<Rightarrow> nat \<Rightarrow> string list \<Rightarrow> nat \<times> u64" where
  "count_names stored could buffer_used required num_to_store [] = (num_to_store, required)"
| "count_names stored could buffer_used required num_to_store (n # ns) =
     (let bytes_this_name = of_nat (length n) + 8 + 1; required = required + bytes_this_name in
      if could \<and> buffer_used + bytes_this_name \<le> stored
      then count_names stored True (buffer_used + bytes_this_name) required (num_to_store + 1) ns
      else count_names stored False buffer_used required num_to_store ns)"

text \<open>Copying the names: a pointer into the table, a null pointer after it, and the characters with a zero byte.\<close>

fun store_names :: "u64 \<Rightarrow> nat \<Rightarrow> nat \<Rightarrow> string list \<Rightarrow> u8 list \<Rightarrow> u8 list option" where
  "store_names base i string_copy_ptr [] buf = Some buf"
| "store_names base i string_copy_ptr (n # ns) buf = do {
     buf \<leftarrow> memcpy buf (8 * i) (le_bytes 8 (unat (base + of_nat string_copy_ptr))) 0 8;
     buf \<leftarrow> memcpy buf (8 * (i + 1)) (le_bytes 8 0) 0 8;
     buf \<leftarrow> memcpy buf string_copy_ptr (map of_char n) 0 (length n);
     buf \<leftarrow> memcpy buf (string_copy_ptr + length n) [0] 0 1;
     store_names base (i + 1) (string_copy_ptr + length n + 1) ns buf
   }"

definition store_children :: "u64 \<Rightarrow> u8 list \<Rightarrow> u64 \<Rightarrow> string list \<Rightarrow> (u8 list \<times> u64) option" where
  "store_children base buf stored_buffer_size names = do {
     let could_store_more = (base \<noteq> 0 \<and> stored_buffer_size \<ge> 8);
     buf \<leftarrow> (if could_store_more then memcpy buf 0 (le_bytes 8 0) 0 8 else Some buf);
     let (num_to_store, required_size) = count_names stored_buffer_size could_store_more 8 8 0 names;
     buf \<leftarrow> store_names base 0 (8 * (num_to_store + 1)) (take num_to_store names) buf;
     Some (buf, required_size)
   }"

definition syscall_enum_children :: "nat option \<Rightarrow> GEN_HANDLE \<Rightarrow> u64 \<Rightarrow> string \<Rightarrow> u64 \<Rightarrow> u64 \<Rightarrow> u64 \<Rightarrow> u8 list \<Rightarrow> u64 \<Rightarrow> u64 \<Rightarrow>
    tree_state sc_world \<Rightarrow> (ERR_CODE \<times> u8 list \<times> u64) option" where
  "syscall_enum_children cur_thread handle start_addr start_from start_from_len max_count buffer_addr buffer size_addr buffer_size w = do {
     om \<leftarrow> cur_thread;
     let obj = retrieve_object om handle (sc_om w);
     if \<not> syscall_v_is_um_address start_addr \<and> start_addr \<noteq> 0 \<or> \<not> syscall_v_is_um_address buffer_addr \<and> buffer_addr \<noteq> 0 \<or>
        \<not> syscall_v_is_um_address size_addr \<or> size_addr = 0 then Some (INVALID_PARAM, buffer, buffer_size)
     else (case Option.bind obj od_object_ptr of
             None \<Rightarrow> Some (NOT_FOUND, buffer, buffer_size)
           | Some p \<Rightarrow>
               if is_branch (sc_objs w) p then do {
                 start_from_s \<leftarrow> (if start_addr \<noteq> 0 \<and> start_from_len > 0 then user_bytes start_from start_from_len else Some []);
                 (result, names) \<leftarrow> enum_children (sc_objs w) p start_from_s max_count;
                 if result = NO_ERROR then do {
                   (buffer, required_size) \<leftarrow> store_children buffer_addr buffer buffer_size names;
                   Some (result, buffer, required_size)
                 } else Some (result, buffer, buffer_size)
               } else Some (INVALID_OP, buffer, buffer_size))
   }"

subsection \<open>The layout of a listing\<close>

definition name_strings :: "string list \<Rightarrow> u8 list" where
  "name_strings ns = concat (map (\<lambda>n. map of_char n @ [0]) ns)"

fun name_pointers :: "u64 \<Rightarrow> nat \<Rightarrow> string list \<Rightarrow> u8 list" where
  "name_pointers base off [] = []"
| "name_pointers base off (n # ns) = le_bytes 8 (unat (base + of_nat off)) @ name_pointers base (off + length n + 1) ns"

definition names_size :: "string list \<Rightarrow> nat" where
  "names_size ns = sum_list (map (\<lambda>n. length n + 9) ns)"

fun names_fit :: "nat \<Rightarrow> string list \<Rightarrow> nat" where
  "names_fit room [] = 0"
| "names_fit room (n # ns) = (if length n + 9 \<le> room then Suc (names_fit (room - (length n + 9)) ns) else 0)"

lemma names_size_simps [simp]:
  "names_size [] = 0" "names_size (n # ns) = length n + 9 + names_size ns"
  by (simp_all add: names_size_def)

lemma name_strings_simps [simp]:
  "name_strings [] = []" "name_strings (n # ns) = map of_char n @ 0 # name_strings ns"
  by (simp_all add: name_strings_def)

lemma length_layout: "length (name_pointers base off ns) + length (name_strings ns) = names_size ns"
  by (induction ns arbitrary: off) (auto simp: length_le_bytes)

lemma length_pointers: "length (name_pointers base off ns) = 8 * length ns"
  by (induction ns arbitrary: off) (auto simp: length_le_bytes)

lemma names_fit_le: "names_fit room ns \<le> length ns" "names_size (take (names_fit room ns) ns) \<le> room"
  by (induction room ns rule: names_fit.induct) auto

lemma names_fit_max: "names_fit room ns < length ns \<Longrightarrow> room < names_size (take (Suc (names_fit room ns)) ns)"
  by (induction room ns rule: names_fit.induct) (auto split: if_splits)

lemma count_names_eq:
  assumes "unat req + names_size ns < 2 ^ 64" and "unat used + names_size ns < 2 ^ 64" and "unat used \<le> unat stored"
  shows "count_names stored could used req k ns =
    (k + (if could then names_fit (unat stored - unat used) ns else 0), req + of_nat (names_size ns))"
  using assms
proof (induction ns arbitrary: could used req k)
  case (Cons n ns)
  let ?b = "of_nat (length n) + 8 + 1 :: u64"
  have b: "unat ?b = length n + 9"
  proof -
    have "?b = of_nat (length n + 9)" by simp
    moreover have "length n + 9 < 2 ^ 64" using Cons.prems(1) by simp
    ultimately show ?thesis by (simp only: unat_of_nat_u64)
  qed
  have r: "unat (req + ?b) = unat req + (length n + 9)" "unat (used + ?b) = unat used + (length n + 9)"
    using unat_add_no_wrap [of req ?b] unat_add_no_wrap [of used ?b] Cons.prems b by simp_all
  have s: "req + ?b + of_nat (names_size ns) = req + of_nat (names_size (n # ns))" by simp
  show ?case
  proof (cases "could \<and> used + ?b \<le> stored")
    case True
    then have "unat used + (length n + 9) \<le> unat stored" using r(2) by (simp add: word_le_nat_alt)
    then show ?thesis
      using True Cons.IH [of "req + ?b" "used + ?b" True "k + 1"] r Cons.prems s by (simp add: Let_def add.assoc diff_diff_add)
  next
    case False
    then have "could \<Longrightarrow> \<not> length n + 9 \<le> unat stored - unat used" using r(2) Cons.prems(3) by (auto simp: word_le_nat_alt)
    then show ?thesis using False Cons.IH [of "req + ?b" used False k] r Cons.prems s by (auto simp: Let_def add.assoc)
  qed
qed simp

lemma memcpy_middle: "length A = i \<Longrightarrow> length B = n \<Longrightarrow> length X = n \<Longrightarrow> memcpy (A @ B @ C) i X 0 n = Some (A @ X @ C)"
  by (simp add: memcpy_def)

lemma store_names_eq:
  assumes "length P = 8 * i" and "length M = 8 * length ns" and "off = length P + 8 + length M + length T"
    and "length (name_strings ns) \<le> length R"
  shows "store_names base i off ns (P @ le_bytes 8 0 @ M @ T @ R) =
    Some (P @ name_pointers base off ns @ le_bytes 8 0 @ T @ name_strings ns @ drop (length (name_strings ns)) R)"
  using assms
proof (induction ns arbitrary: P i M T R off)
  case (Cons n ns)
  let ?z = "le_bytes 8 0" and ?x = "le_bytes 8 (unat (base + of_nat off))" and ?s = "map of_char n :: u8 list"
  have z: "length ?z = 8" "length ?x = 8" by (rule length_le_bytes)+
  obtain M1 M2 where M: "M = M1 @ M2" "length M1 = 8" "length M2 = 8 * length ns"
    using Cons.prems(2) by (intro that [of "take 8 M" "drop 8 M"]) simp_all
  obtain R1 r R2 where R: "R = R1 @ [r] @ R2" "length R1 = length n" "length (name_strings ns) \<le> length R2"
  proof (rule that [of "take (length n) R" "R ! length n" "drop (Suc (length n)) R"])
    have "length n < length R" using Cons.prems(4) by simp
    then show "R = take (length n) R @ [R ! length n] @ drop (Suc (length n)) R" using id_take_nth_drop [of "length n" R] by simp
  qed (use Cons.prems(4) in simp_all)
  have 1: "memcpy (P @ ?z @ M @ T @ R) (8 * i) ?x 0 8 = Some (P @ ?x @ M @ T @ R)"
    using Cons.prems(1) z by (intro memcpy_middle) simp_all
  have 2: "memcpy (P @ ?x @ M @ T @ R) (8 * (i + 1)) ?z 0 8 = Some ((P @ ?x) @ ?z @ M2 @ T @ R)"
    using memcpy_middle [of "P @ ?x" "8 * (i + 1)" M1 8 ?z "M2 @ T @ R"] Cons.prems(1) z M by simp
  have 3: "memcpy ((P @ ?x) @ ?z @ M2 @ T @ R) off ?s 0 (length n) = Some ((P @ ?x @ ?z @ M2 @ T) @ ?s @ [r] @ R2)"
    using memcpy_middle [of "P @ ?x @ ?z @ M2 @ T" off R1 "length n" ?s "[r] @ R2"] Cons.prems(3) z M R by simp
  have 4: "memcpy ((P @ ?x @ ?z @ M2 @ T) @ ?s @ [r] @ R2) (off + length n) [0] 0 1 = Some ((P @ ?x @ ?z @ M2 @ T @ ?s) @ [0] @ R2)"
    using memcpy_middle [of "P @ ?x @ ?z @ M2 @ T @ ?s" "off + length n" "[r]" 1 "[0]" R2] Cons.prems(3) z M by simp
  have 5: "store_names base (i + 1) (off + length n + 1) ns ((P @ ?x) @ ?z @ M2 @ (T @ ?s @ [0]) @ R2) =
     Some ((P @ ?x) @ name_pointers base (off + length n + 1) ns @ ?z @ (T @ ?s @ [0]) @ name_strings ns @ drop (length (name_strings ns)) R2)"
    using Cons.prems(1,3) z M R(3) by (intro Cons.IH) simp_all
  have d: "drop (Suc (length n + length (name_strings ns))) R = drop (length (name_strings ns)) R2" using R(1,2) by simp
  show ?case using 1 2 3 4 5 by (simp add: d)
qed simp

lemma store_children_eq:
  assumes "base \<noteq> 0" and "length buf = unat stored" and "8 \<le> unat stored" and "names_size names + 8 < 2 ^ 64"
    and "k = names_fit (unat stored - 8) names"
  shows "store_children base buf stored names =
    Some (name_pointers base (8 * (k + 1)) (take k names) @ le_bytes 8 0 @ name_strings (take k names) @
        drop (8 + names_size (take k names)) buf, of_nat (8 + names_size names))"
proof -
  let ?ns = "take k names"
  have c: "count_names stored True 8 8 0 names = (k, of_nat (8 + names_size names))"
    using count_names_eq [of 8 names 8 stored True 0] assms(3-5) by simp
  have l: "length ?ns = k" "names_size ?ns \<le> unat stored - 8" using names_fit_le assms(5) by auto
  have fit: "8 * k + length (name_strings ?ns) \<le> length buf - 8"
    using l length_layout [of base 0 ?ns] length_pointers [of base 0 ?ns] assms(2) by simp
  let ?M = "take (8 * k) (drop 8 buf)" and ?R = "drop (8 + 8 * k) buf"
  have m: "memcpy buf 0 (le_bytes 8 0) 0 8 = Some (le_bytes 8 0 @ ?M @ ?R)"
    using assms(2,3) length_le_bytes [of 8 0] append_take_drop_id [of "8 * k" "drop 8 buf"] by (simp add: memcpy_def add.commute)
  have "store_names base 0 (8 * (k + 1)) ?ns ([] @ le_bytes 8 0 @ ?M @ [] @ ?R) =
     Some ([] @ name_pointers base (8 * (k + 1)) ?ns @ le_bytes 8 0 @ [] @ name_strings ?ns @ drop (length (name_strings ?ns)) ?R)"
    using fit l(1) by (intro store_names_eq) auto
  moreover have "drop (length (name_strings ?ns)) ?R = drop (8 + names_size ?ns) buf"
  proof -
    have "length (name_strings ?ns) + (8 + 8 * k) = 8 + names_size ?ns"
      using length_layout [of base 0 ?ns] length_pointers [of base 0 ?ns] l(1) by simp
    then show ?thesis by (simp only: drop_drop)
  qed
  ultimately show ?thesis using assms(1,3) m c by (simp add: store_children_def word_le_nat_alt)
qed

text \<open>
  C29. Listing the children of a branch. With a buffer of the stated size, at least eight bytes, the call returns the number of bytes that all names need. It stores as many names as fit and
  no byte outside the buffer: a table of pointers, one to each stored name, a null pointer, and the names with their terminating zeros, exactly
  where the pointers say; the rest of the buffer is as before.
\<close>

theorem enum_children_layout:
  assumes "retrieve_object om h (sc_om w) = Some obj" and "od_object_ptr obj = Some p" and "is_branch (sc_objs w) p"
    and "enum_children (sc_objs w) p [] max_count = Some (NO_ERROR, names)" and "names_size names + 8 < 2 ^ 64"
    and "ba \<noteq> 0" and "syscall_v_is_um_address ba" and "sa \<noteq> 0" and "syscall_v_is_um_address sa"
    and "length buf = unat stored" and "8 \<le> unat stored"
  shows "\<exists>k rest. syscall_enum_children (Some om) h 0 [] 0 max_count ba buf sa stored w =
      Some (NO_ERROR, name_pointers ba (8 * (k + 1)) (take k names) @ le_bytes 8 0 @ name_strings (take k names) @ rest, of_nat (8 + names_size names)) \<and>
    k \<le> length names \<and> 8 + names_size (take k names) \<le> unat stored \<and> rest = drop (8 + names_size (take k names)) buf \<and>
    (k < length names \<longrightarrow> unat stored < 8 + names_size (take (Suc k) names))"
proof -
  let ?k = "names_fit (unat stored - 8) names"
  have "syscall_enum_children (Some om) h 0 [] 0 max_count ba buf sa stored w =
      Some (NO_ERROR, name_pointers ba (8 * (?k + 1)) (take ?k names) @ le_bytes 8 0 @ name_strings (take ?k names) @
        drop (8 + names_size (take ?k names)) buf, of_nat (8 + names_size names))"
    using assms store_children_eq [OF assms(6,10,11,5) refl] by (simp add: syscall_enum_children_def)
  then show ?thesis
    using names_fit_le [of "unat stored - 8" names] names_fit_max [of "unat stored - 8" names] assms(11)
    by (intro exI [of _ ?k] exI [of _ "drop (8 + names_size (take ?k names)) buf"]) auto
qed

definition sample_branch_handle :: "tree_state sc_world" where
  "sample_branch_handle = \<lparr>sc_objs = sample_tree,
     sc_om = \<lparr>hm_next_handle = 2, object_store = (\<lambda>_. [])(0 := [(1, \<lparr>od_object_ptr = Some 1, od_handle = 1, od_seek_position = 0\<rparr>)])\<rparr>\<rparr>"

text \<open>The branch has the names a and b, which need 28 bytes; 20 bytes hold one name.\<close>

theorem enum_children_layout_witness:
  "\<exists>k rest. syscall_enum_children (Some 0) 1 0 [] 0 0 0x1000 (replicate 20 7) 0x2000 20 sample_branch_handle =
     Some (NO_ERROR, name_pointers 0x1000 (8 * (k + 1)) (take k [''a'', ''b'']) @ le_bytes 8 0 @ name_strings (take k [''a'', ''b'']) @ rest, 28) \<and> k = 1"
proof -
  let ?w = sample_branch_handle
  have r: "retrieve_object 0 1 (sc_om ?w) = Some \<lparr>od_object_ptr = Some 1, od_handle = 1, od_seek_position = 0\<rparr>"
    by (simp add: sample_branch_handle_def retrieve_map)
  have b: "is_branch (sc_objs ?w) 1" "enum_children (sc_objs ?w) 1 [] 0 = Some (NO_ERROR, [''a'', ''b''])"
    by (simp_all add: sample_branch_handle_def is_branch_def enum_children_def)
  have a: "syscall_v_is_um_address 0x1000" "syscall_v_is_um_address 0x2000" by (simp_all add: syscall_v_is_um_address_def)
  obtain k rest where k: "syscall_enum_children (Some 0) 1 0 [] 0 0 0x1000 (replicate 20 7) 0x2000 20 ?w =
      Some (NO_ERROR, name_pointers 0x1000 (8 * (k + 1)) (take k [''a'', ''b'']) @ le_bytes 8 0 @ name_strings (take k [''a'', ''b'']) @ rest, 28)"
    "k \<le> 2" "8 + names_size (take k [''a'', ''b'']) \<le> 20" "k < 2 \<longrightarrow> 20 < 8 + names_size (take (Suc k) [''a'', ''b''])"
    using enum_children_layout [OF r _ b(1,2), of "0x1000" "0x2000" "replicate 20 7" 20] a by auto
  then have "k = 1" by (cases k; cases "k - 1") auto
  then show ?thesis using k(1) by blast
qed

subsection \<open>Opening and closing\<close>

lemma user_c_string_terminated: "CHR 0x00 \<notin> set s \<Longrightarrow> user_c_string (s @ CHR 0x00 # rest) = Some s"
proof -
  assume "CHR 0x00 \<notin> set s"
  then have "takeWhile (\<lambda>c. c \<noteq> CHR 0x00) (s @ CHR 0x00 # rest) = s" by (subst takeWhile_append2) auto
  then show ?thesis by (simp add: user_c_string_def)
qed

lemma close_handle:
  assumes "om_wf (sc_om w)" and "retrieve_object om h (sc_om w) = Some obj"
  shows "\<exists>w'. syscall_close_handle (Some om) h w = (NO_ERROR, w') \<and> sc_objs w' = sc_objs w \<and> om_wf (sc_om w') \<and>
    (\<forall>om' h'. retrieve_object om' h' (sc_om w') = (if (om', h') = (om, h) then None else retrieve_object om' h' (sc_om w)))"
proof -
  have "od_object_ptr obj \<noteq> None" using assms om_wfD(2) [OF assms(1), of om h obj] by (simp add: retrieve_map)
  then show ?thesis
    using assms remove_and_correlate [OF assms(1), of om h] by (auto simp: syscall_close_handle_def retrieve_handled_object_def)
qed

text \<open>
  C28. Opening a handle to an object of the tree and closing it. When the caller's string is the path of an object, opening gives a
  handle that no process had before; it stands for the object, with the position at its start. All other handles and the tree stay as they are. Closing it
  takes the handle away, and every handle is what it was before the two calls.
\<close>

theorem open_close_handle:
  assumes "om_wf (sc_om w)" and "hm_next_handle (sc_om w) + 1 \<noteq> NOT 0"
    and "tree_wf (sc_objs w)" and "is_branch (sc_objs w) root" and "\<forall>d \<in> set ds. plain d" and "plain n" and "n \<noteq> []"
    and "path = bs # join_path ds n" and "CHR 0x00 \<notin> set path" and "0 < length path" and "length path < 2 ^ 64"
    and "walk NOT_FOUND (sc_objs w) root (ds @ [n]) = Inr p"
    and "pa \<noteq> 0" and "syscall_v_is_um_address pa" and "ha \<noteq> 0" and "syscall_v_is_um_address ha"
  shows "\<exists>h w' w''. syscall_open_handle root (Some om) pa (path @ CHR 0x00 # rest) (of_nat (length path)) ha x flags w = Some (NO_ERROR, h, w') \<and>
    (\<forall>om'. retrieve_object om' h (sc_om w) = None) \<and>
    retrieve_object om h (sc_om w') = Some \<lparr>od_object_ptr = Some p, od_handle = h, od_seek_position = 0\<rparr> \<and>
    (\<forall>om' h'. (om', h') \<noteq> (om, h) \<longrightarrow> retrieve_object om' h' (sc_om w') = retrieve_object om' h' (sc_om w)) \<and>
    sc_objs w' = sc_objs w \<and> om_wf (sc_om w') \<and>
    syscall_close_handle (Some om) h w' = (NO_ERROR, w'') \<and> retrieve_object om' h' (sc_om w'') = retrieve_object om' h' (sc_om w)"
proof -
  have u: "unat (of_nat (length path) :: u64) = length path" using assms(11) by (rule unat_of_nat_u64)
  then have nz: "(of_nat (length path) :: u64) \<noteq> 0" using assms(10) by (metis unat_0 less_irrefl)
  have b: "user_bytes (path @ CHR 0x00 # rest) (of_nat (length path)) = Some path" by (simp add: user_bytes_def u)
  have c: "user_c_string (path @ CHR 0x00 # rest) = Some path" using assms(9) by (rule user_c_string_terminated)
  have g: "root_get_child (sc_objs w) root path = Some (NO_ERROR, Some p)"
    using root_get_join [OF assms(3-7)] assms(8,12) by simp
  obtain h oms where s: "store_object om (new_object_data (Some p)) (sc_om w) = Some (h, oms)" "\<forall>om'. retrieve_object om' h (sc_om w) = None"
    "retrieve_object om h oms = Some ((new_object_data (Some p))\<lparr>od_handle := h\<rparr>)"
    "\<forall>om' h'. (om', h') \<noteq> (om, h) \<longrightarrow> retrieve_object om' h' oms = retrieve_object om' h' (sc_om w)" "om_wf oms"
    using store_object_correct [OF assms(1), of "new_object_data (Some p)" om] assms(2) by (auto simp: new_object_data_def)
  let ?w = "w\<lparr>sc_om := oms\<rparr>"
  have o: "syscall_open_handle root (Some om) pa (path @ CHR 0x00 # rest) (of_nat (length path)) ha x flags w = Some (NO_ERROR, h, ?w)"
    using assms(13-16) nz by (simp add: syscall_open_handle_def b c g s(1))
  obtain w'' where "syscall_close_handle (Some om) h ?w = (NO_ERROR, w'')"
    "\<forall>om' h'. retrieve_object om' h' (sc_om w'') = (if (om', h') = (om, h) then None else retrieve_object om' h' oms)"
    using close_handle [of ?w om h] s(3,5) by auto
  moreover have "retrieve_object om' h' (sc_om w) = (if (om', h') = (om, h) then None else retrieve_object om' h' oms)"
    using s(2,4) by auto
  ultimately show ?thesis using o s by (intro exI [of _ h] exI [of _ ?w] exI [of _ w'']) (simp add: new_object_data_def)
qed

lemma sample_om_wf: "om_wf (sc_om sample_branch_handle)"
  by (auto simp: om_wf_def sample_branch_handle_def std_map_wf_def)

theorem open_close_handle_witness:
  "\<exists>h w'. syscall_open_handle 0 (Some 0) 0x1000 ((bs # join_path [''tmp''] ''a'') @ CHR 0x00 # []) (of_nat (length (bs # join_path [''tmp''] ''a'')))
       0x2000 0 0 sample_branch_handle = Some (NO_ERROR, h, w') \<and>
     retrieve_object 0 h (sc_om w') = Some \<lparr>od_object_ptr = Some 2, od_handle = h, od_seek_position = 0\<rparr>"
proof -
  have w: "walk NOT_FOUND (sc_objs sample_branch_handle) 0 ([''tmp''] @ [''a'']) = Inr 2" "tree_wf (sc_objs sample_branch_handle)"
    "is_branch (sc_objs sample_branch_handle) 0"
    using sample_tree_wf by (simp_all add: sample_branch_handle_def is_branch_def)
  have p: "\<forall>d \<in> set [''tmp'']. plain d" "plain ''a''" "''a'' \<noteq> []" by (simp_all add: plain_def bs_def)
  have n: "CHR 0x00 \<notin> set (bs # join_path [''tmp''] ''a'')" "0 < length (bs # join_path [''tmp''] ''a'')"
    "length (bs # join_path [''tmp''] ''a'') < 2 ^ 64" by (simp_all add: bs_def)
  have a: "(0x1000 :: u64) \<noteq> 0" "syscall_v_is_um_address 0x1000" "(0x2000 :: u64) \<noteq> 0" "syscall_v_is_um_address 0x2000"
    by (simp_all add: syscall_v_is_um_address_def)
  have h: "hm_next_handle (sc_om sample_branch_handle) + 1 \<noteq> NOT 0" by (simp add: sample_branch_handle_def)
  show ?thesis
    using open_close_handle [OF sample_om_wf h w(2,3) p refl n w(1) a, of 0 "[]" 0 0 0 0] by blast
qed

text \<open>
  The length of the path is not used to find the object: the characters up to the first zero byte are, as many as there are. A caller that passes the length of a
  prefix opens the whole path.
\<close>

lemma open_ignores_length:
  assumes "cur = Some om" and "0 < len" and "unat len \<le> length mem" and "flags AND H_CREATE_IF_NEW = 0"
    and "0 < len'" and "unat len' \<le> length mem"
  shows "syscall_open_handle root cur pa mem len ha x flags w = syscall_open_handle root cur pa mem len' ha x flags w"
  using assms by (auto simp: syscall_open_handle_def user_bytes_def cong: if_cong cong del: prod.case_cong_weak)

end
