(* ===== verification/Syscall_Msg.thy ===== *)
theory Syscall_Msg
  imports Syscall_Rw
begin

text \<open>
  Messages between processes: \<open>kernel/syscall/syscall_mpi.cpp\<close>, and \<open>task_process::handle_message\<close> of \<open>kernel/processor/task_process.cpp\<close>, by which a process
  receives what the work queue delivers to it. The code under the lock of the message queue is one atomic step.

  The current thread may be missing, and so may its process. A pointer of the caller is its address; what a call stores through pointers
  is a list of addresses and values.
\<close>

subsection \<open>Operations\<close>

record basic_msg =
  message_id :: u64
  message_length :: u64
  details :: "u8 list"
  completion_semaphore :: "nat option"
  output_buffer :: "u8 list option"
  output_buffer_len :: u64

datatype root_msg = Basic_Msg basic_msg | Other_Msg u64

record messaging =
  accepts_msgs :: bool
  message_queue :: "basic_msg list"

definition process_handle_message :: "root_msg \<Rightarrow> messaging \<Rightarrow> messaging" where
  "process_handle_message message p =
     (case message of
        Basic_Msg m \<Rightarrow> if accepts_msgs p then p\<lparr>message_queue := message_queue p @ [m]\<rparr> else p
      | Other_Msg _ \<Rightarrow> p)"

type_synonym cur_messaging = "messaging option option"

definition syscall_register_for_mp :: "cur_messaging \<Rightarrow> ERR_CODE \<times> cur_messaging" where
  "syscall_register_for_mp ct =
     (case ct of
        None \<Rightarrow> (UNKNOWN, ct)
      | Some None \<Rightarrow> (UNKNOWN, ct)
      | Some (Some p) \<Rightarrow> (NO_ERROR, Some (Some (p\<lparr>accepts_msgs := True\<rparr>))))"

text \<open>The result of the check of the pointers is overwritten in each of the branches below, but not in the last one.\<close>

definition syscall_receive_message_details :: "cur_messaging \<Rightarrow> u64 \<Rightarrow> u64 \<Rightarrow> ERR_CODE \<times> (u64 \<times> u64) list" where
  "syscall_receive_message_details this_thread id_addr len_addr =
     (let res = (if id_addr = 0 \<or> len_addr = 0 \<or> \<not> syscall_v_is_um_address id_addr \<or> \<not> syscall_v_is_um_address len_addr
                 then INVALID_PARAM else NO_ERROR) in
      case this_thread of
        None \<Rightarrow> (UNKNOWN, [])
      | Some None \<Rightarrow> (UNKNOWN, [])
      | Some (Some p) \<Rightarrow>
          if \<not> accepts_msgs p then (SYNC_MSG_NOT_ACCEPTED, [])
          else (case message_queue p of
                  m # _ \<Rightarrow> (res, [(id_addr, message_id m), (len_addr, message_length m)])
                | [] \<Rightarrow> (SYNC_MSG_QUEUE_EMPTY, [])))"

definition syscall_receive_message_body :: "cur_messaging \<Rightarrow> u64 \<Rightarrow> u8 list \<Rightarrow> u64 \<Rightarrow> (ERR_CODE \<times> u8 list) option" where
  "syscall_receive_message_body this_thread buffer_addr buffer buffer_size =
     (if buffer_addr = 0 \<or> \<not> syscall_v_is_um_address buffer_addr then Some (INVALID_PARAM, buffer)
      else if buffer_size = 0 then Some (INVALID_PARAM, buffer)
      else case this_thread of
        None \<Rightarrow> Some (UNKNOWN, buffer)
      | Some None \<Rightarrow> Some (UNKNOWN, buffer)
      | Some (Some p) \<Rightarrow>
          if \<not> accepts_msgs p then Some (SYNC_MSG_NOT_ACCEPTED, buffer)
          else (case message_queue p of
                  m # _ \<Rightarrow> do {
                    let restricting_size = (if message_length m < buffer_size then message_length m else buffer_size);
                    buffer \<leftarrow> (if restricting_size > 0 then memcpy buffer 0 (details m) 0 (unat restricting_size) else Some buffer);
                    Some (NO_ERROR, buffer)
                  }
                | [] \<Rightarrow> Some (SYNC_MSG_QUEUE_EMPTY, buffer)))"

definition syscall_message_complete :: "cur_messaging \<Rightarrow> ERR_CODE \<times> cur_messaging" where
  "syscall_message_complete this_thread =
     (case this_thread of
        None \<Rightarrow> (UNKNOWN, this_thread)
      | Some None \<Rightarrow> (UNKNOWN, this_thread)
      | Some (Some p) \<Rightarrow>
          if \<not> accepts_msgs p then (SYNC_MSG_NOT_ACCEPTED, this_thread)
          else (case message_queue p of
                  _ # rest \<Rightarrow> (NO_ERROR, Some (Some (p\<lparr>message_queue := rest\<rparr>)))
                | [] \<Rightarrow> (SYNC_MSG_QUEUE_EMPTY, this_thread)))"

text \<open>
  Sending, up to the point where the message is handed to the work queue; the second component of the result is the receiver and the message. With an
  output buffer the call then waits for the new semaphore and copies the kernel's buffer to the caller. The optional structure \<open>output\<close> holds a semaphore, a buffer and its length; the objects that
  are semaphores and those that receive messages are given by their dynamic types. A null pointer for the structure is 0; \<open>new_sem\<close> is the identity of the semaphore that may be created, and
  \<open>junk\<close> what the length field of the message holds when the constructor leaves it uninitialised.
\<close>

record ssm_output =
  so_semaphore :: GEN_HANDLE
  so_buffer :: u64
  so_buffer_len :: u64

definition syscall_send_message :: "u64 \<Rightarrow> (nat \<Rightarrow> bool) \<Rightarrow> (nat \<Rightarrow> bool) \<Rightarrow> nat \<Rightarrow> nat option option \<Rightarrow> GEN_HANDLE \<Rightarrow> u64 \<Rightarrow> u64 \<Rightarrow> u64 \<Rightarrow> u8 list \<Rightarrow>
    u64 \<Rightarrow> ssm_output \<Rightarrow> om_state \<Rightarrow> (ERR_CODE \<times> (nat \<times> basic_msg) option) option" where
  "syscall_send_message junk is_semaphore is_receiver new_sem this_thread msg_target msg_id message_len message_addr message_ptr output_addr output om =
     (let given = syscall_v_is_um_address output_addr \<and> output_addr \<noteq> 0;
          sem_handle = (if given then so_semaphore output else 0);
          out_addr = (if given then so_buffer output else 0);
          out_len = (if given then so_buffer_len output else 0) in
      if \<not> syscall_v_is_um_buffer message_addr message_len then Some (INVALID_PARAM, None)
      else case this_thread of
        None \<Rightarrow> Some (UNKNOWN, None)
      | Some None \<Rightarrow> Some (UNKNOWN, None)
      | Some (Some proc) \<Rightarrow>
          if sem_handle \<noteq> 0 \<and> out_addr \<noteq> 0 then Some (INVALID_OP, None)
          else if out_addr \<noteq> 0 \<and> out_len = 0 then Some (INVALID_PARAM, None)
          else if out_len \<noteq> 0 \<and> out_addr = 0 then Some (INVALID_PARAM, None)
          else if out_addr \<noteq> 0 \<and> \<not> syscall_v_is_um_buffer out_addr out_len then Some (INVALID_PARAM, None)
          else do {
            let obj = (if sem_handle \<noteq> 0 then retrieve_handled_object proc sem_handle om else None);
            let res = (if sem_handle \<noteq> 0 \<and> obj = None then NOT_FOUND else NO_ERROR);
            let sem = (case obj of Some q \<Rightarrow> if is_semaphore q then Some q else None | None \<Rightarrow> None);
            ASSERT (out_addr = 0 \<or> sem = None);
            let sem = (if out_addr \<noteq> 0 then Some new_sem else sem);
            if sem_handle = 0 \<or> sem \<noteq> None then
              (let target = Option.bind (retrieve_object proc msg_target om) od_object_ptr in
               case target of
                 Some t \<Rightarrow>
                   if is_receiver t then do {
                     details \<leftarrow> (if message_len > 0 then memcpy (replicate (unat message_len) 0) 0 message_ptr 0 (unat message_len) else Some []);
                     Some (res, Some (t, \<lparr>message_id = msg_id, message_length = message_len, details = details, completion_semaphore = sem,
                        output_buffer = (if out_addr \<noteq> 0 then Some (replicate (unat out_len) 0) else None),
                        output_buffer_len = (if out_addr \<noteq> 0 then out_len else junk)\<rparr>))
                   } else Some (INVALID_OP, None)
               | None \<Rightarrow> Some (INVALID_OP, None))
            else Some (res, None)
          })"

subsection \<open>Messages arrive in order\<close>

text \<open>
  A receiver as a program would write it: ask for the next message, read its body into a buffer of the reported length, complete it, and go on until the
  queue is empty. A message without a body has none to read. The number bounds the rounds.
\<close>

fun receive_all :: "nat \<Rightarrow> cur_messaging \<Rightarrow> ((u64 \<times> u8 list) list \<times> cur_messaging) option" where
  "receive_all 0 ct = None"
| "receive_all (Suc k) ct =
     (case syscall_receive_message_details ct 0x1000 0x2000 of
        (NO_ERROR, [(_, msg_id), (_, len)]) \<Rightarrow> do {
          (_, body) \<leftarrow> syscall_receive_message_body ct 0x3000 (replicate (unat len) 0) len;
          let (_, ct) = syscall_message_complete ct;
          (rest, ct) \<leftarrow> receive_all k ct;
          Some ((msg_id, body) # rest, ct)
        }
      | _ \<Rightarrow> Some ([], ct))"

definition msg_ok :: "basic_msg \<Rightarrow> bool" where
  "msg_ok m \<longleftrightarrow> length (details m) = unat (message_length m)"

lemma um_constants: "syscall_v_is_um_address 0x1000" "syscall_v_is_um_address 0x2000" "syscall_v_is_um_address 0x3000"
  by (simp_all add: syscall_v_is_um_address_def)

lemma receive_body:
  assumes "message_queue p = m # rest" and "accepts_msgs p" and "msg_ok m"
  shows "\<exists>e. syscall_receive_message_body (Some (Some p)) 0x3000 (replicate (unat (message_length m)) 0) (message_length m) = Some (e, details m)"
proof (cases "message_length m = 0")
  case True
  then show ?thesis using assms(3) um_constants by (simp add: syscall_receive_message_body_def msg_ok_def)
next
  case False
  then have "0 < message_length m" by (simp add: word_greater_zero_iff)
  then show ?thesis using False assms um_constants by (simp add: syscall_receive_message_body_def msg_ok_def memcpy_def)
qed

lemma receive_all_queue:
  assumes "accepts_msgs p" and "\<forall>m \<in> set (message_queue p). msg_ok m" and "length (message_queue p) < k"
  shows "receive_all k (Some (Some p)) = Some (map (\<lambda>m. (message_id m, details m)) (message_queue p), Some (Some (p\<lparr>message_queue := []\<rparr>)))"
  using assms
proof (induction "message_queue p" arbitrary: p k)
  case Nil
  then obtain k' where "k = Suc k'" by (cases k) auto
  moreover have "p\<lparr>message_queue := []\<rparr> = p" using Nil.hyps by simp
  ultimately show ?case using Nil by (simp add: syscall_receive_message_details_def)
next
  case (Cons m ms)
  obtain k' where k: "k = Suc k'" using Cons.prems(3) by (cases k) auto
  have q: "message_queue p = m # ms" using Cons.hyps(2) by simp
  let ?p = "p\<lparr>message_queue := ms\<rparr>"
  have d: "syscall_receive_message_details (Some (Some p)) 0x1000 0x2000 = (NO_ERROR, [(0x1000, message_id m), (0x2000, message_length m)])"
    using q Cons.prems(1) um_constants by (simp add: syscall_receive_message_details_def)
  have "msg_ok m" using Cons.prems(2) q by simp
  then obtain e where b: "syscall_receive_message_body (Some (Some p)) 0x3000 (replicate (unat (message_length m)) 0) (message_length m) = Some (e, details m)"
    using receive_body [OF q Cons.prems(1)] by blast
  have c: "syscall_message_complete (Some (Some p)) = (NO_ERROR, Some (Some ?p))"
    using q Cons.prems(1) by (simp add: syscall_message_complete_def)
  have "receive_all k' (Some (Some ?p)) = Some (map (\<lambda>m. (message_id m, details m)) ms, Some (Some (p\<lparr>message_queue := []\<rparr>)))"
    using Cons.hyps(1) [of ?p k'] Cons.prems q k by simp
  then show ?case using d b c by (simp add: k q)
qed

lemma deliver_all:
  "accepts_msgs p \<Longrightarrow> fold process_handle_message (map Basic_Msg ms) p = p\<lparr>message_queue := message_queue p @ ms\<rparr>"
  by (induction ms arbitrary: p) (simp_all add: process_handle_message_def)

text \<open>
  C14. Messages arrive complete and in order. A process that registers and is then sent messages receives exactly those, each with its number and its bytes, in the order in which they were
  delivered, and its queue is empty afterwards; the receiving loop ends after one round more than there are messages.
\<close>

theorem messages_in_order:
  assumes "syscall_register_for_mp (Some (Some p)) = (NO_ERROR, Some (Some p'))" and "message_queue p = []"
    and "\<forall>m \<in> set ms. msg_ok m" and "length ms < k"
  shows "receive_all k (Some (Some (fold process_handle_message (map Basic_Msg ms) p'))) =
    Some (map (\<lambda>m. (message_id m, details m)) ms, Some (Some p'))"
proof -
  have p': "p' = p\<lparr>accepts_msgs := True\<rparr>" using assms(1) by (simp add: syscall_register_for_mp_def)
  then have "fold process_handle_message (map Basic_Msg ms) p' = p'\<lparr>message_queue := ms\<rparr>" using deliver_all [of p' ms] assms(2) by simp
  moreover have "p'\<lparr>message_queue := []\<rparr> = p'" using p' assms(2) by simp
  ultimately show ?thesis using receive_all_queue [of "p'\<lparr>message_queue := ms\<rparr>" k] assms(3,4) p' by simp
qed

definition sample_msg :: "u64 \<Rightarrow> u8 list \<Rightarrow> basic_msg" where
  "sample_msg i d = \<lparr>message_id = i, message_length = of_nat (length d), details = d, completion_semaphore = None, output_buffer = None, output_buffer_len = 0\<rparr>"

theorem messages_in_order_witness:
  "receive_all 3 (Some (Some (fold process_handle_message (map Basic_Msg [sample_msg 5 [1, 2], sample_msg 6 []])
     \<lparr>accepts_msgs = True, message_queue = []\<rparr>))) = Some ([(5, [1, 2]), (6, [])], Some (Some \<lparr>accepts_msgs = True, message_queue = []\<rparr>))"
  using messages_in_order [of "\<lparr>accepts_msgs = False, message_queue = []\<rparr>" "\<lparr>accepts_msgs = True, message_queue = []\<rparr>"
    "[sample_msg 5 [1, 2], sample_msg 6 []]" 3]
  by (simp add: sample_msg_def msg_ok_def syscall_register_for_mp_def)

text \<open>What sending hands to the work queue is well-formed: the length is that of the copied bytes, which are the caller's.\<close>

lemma send_message_ok:
  assumes "syscall_send_message junk issem isrcv ns th tgt i len ma mem oa out om = Some (r, Some (t, m))"
  shows "msg_ok m \<and> details m = take (unat len) mem \<and> message_id m = i \<and> message_length m = len \<and> isrcv t \<and> unat ma + unat len < 2 ^ 63"
proof -
  have b: "syscall_v_is_um_buffer ma len" using assms by (auto simp: syscall_send_message_def Let_def split: if_splits)
  show ?thesis
    using assms um_buffer_range [OF b]
    by (auto simp: syscall_send_message_def Let_def msg_ok_def memcpy_def word_greater_zero_iff
      split: if_splits option.splits bind_splits)
qed

subsection \<open>Departures\<close>

text \<open>
  The check of the pointers in \<open>syscall_receive_message_details\<close> is followed by \<open>if\<close> where the other functions have \<open>else if\<close>. When a message waits, its number and length
  are stored through the pointers whatever they are, addresses of the kernel included.
\<close>

theorem details_stored_unchecked:
  assumes "accepts_msgs p" and "message_queue p = m # rest" and "\<not> syscall_v_is_um_address a"
  shows "syscall_receive_message_details (Some (Some p)) a b = (INVALID_PARAM, [(a, message_id m), (b, message_length m)])"
  using assms by (simp add: syscall_receive_message_details_def)

text \<open>The description of sending promises that a message is delivered when there is no error. With a completion handle that is not a semaphore there is no error and no message.\<close>

lemma send_not_delivered:
  assumes "retrieve_handled_object proc sh om = Some q" and "\<not> issem q" and "sh \<noteq> 0" and "syscall_v_is_um_buffer ma len"
  shows "syscall_send_message junk issem isrcv ns (Some (Some proc)) tgt i len ma mem 0x1000 \<lparr>so_semaphore = sh, so_buffer = 0, so_buffer_len = 0\<rparr> om =
    Some (NO_ERROR, None)"
  using assms um_constants by (simp add: syscall_send_message_def Let_def)

end
