(* ===== verification/Syscall_Sync.thy ===== *)
theory Syscall_Sync
  imports Syscall_Rw Wait_Obj
begin

text \<open>
  The system calls for synchronisation: \<open>kernel/syscall/syscall_synch.cpp\<close>. They find an object by a handle of the calling process, ask for its class and call its operation. Waiting
  is the composition of the two halves of a wait in \<open>Kernel_Sync\<close> and \<open>Wait_Obj\<close>: here is the first half, which returns or puts the thread to sleep, and the translation of the
  result of the second.
\<close>

subsection \<open>Operations\<close>

datatype sync_object = Mutex_Object klib_mutex | Semaphore_Object klib_semaphore | Plain_Wait_Object wait_obj | Not_Waitable

record sync_world =
  sy_objs :: "nat \<rightharpoonup> sync_object"
  sy_next :: nat
  sy_threads :: thread_store
  sy_om :: om_state

text \<open>
  The constant is the \<open>int\<close> value -1. The shift by ten keeps the sign, so the value that the limit is compared with is -1 again, converted to 64 bits; this is also the value that a program passes
  for a wait without a limit.
\<close>

definition SC_MAX_WAIT :: "32 word" where
  "SC_MAX_WAIT = NOT 0"

abbreviation no_limit :: u64 where
  "no_limit \<equiv> scast SC_MAX_WAIT"

definition scale_wait :: "u64 \<Rightarrow> u64" where
  "scale_wait max_wait = (if max_wait < scast (signed_drop_bit 10 SC_MAX_WAIT) then max_wait * 1000 else max_wait)"

definition wait_code :: "bool \<Rightarrow> ERR_CODE" where
  "wait_code signalled = (if signalled then NO_ERROR else TIMED_OUT)"

text \<open>The calling thread and its process; the result is missing where the thread sleeps. Of a plain wait object this is the queueing of the thread.\<close>

definition syscall_wait_for_object :: "bool \<Rightarrow> u64 \<Rightarrow> (nat \<times> nat) option \<Rightarrow> GEN_HANDLE \<Rightarrow> u64 \<Rightarrow> sync_world \<Rightarrow>
    (ERR_CODE option \<times> sync_world) option" where
  "syscall_wait_for_object is_worker_thread now cur_thread wait_object_handle max_wait w =
     (case cur_thread of
        None \<Rightarrow> Some (Some INVALID_OP, w)
      | Some (cur, om) \<Rightarrow>
          (case retrieve_handled_object om wait_object_handle (sy_om w) of
             None \<Rightarrow> Some (Some INVALID_OP, w)
           | Some p \<Rightarrow>
               (let max_wait = scale_wait max_wait in
                case sy_objs w p of
                  Some (Mutex_Object m) \<Rightarrow> do {
                    (r, m, ths) \<leftarrow> mutex_acquire_begin cur now max_wait m (sy_threads w);
                    Some (map_option (wait_code \<circ> syscall_wait_result) r, w\<lparr>sy_objs := (sy_objs w)(p \<mapsto> Mutex_Object m), sy_threads := ths\<rparr>)
                  }
                | Some (Semaphore_Object sem) \<Rightarrow> do {
                    (r, sem, ths) \<leftarrow> semaphore_wait_begin cur now max_wait sem (sy_threads w);
                    Some (map_option (wait_code \<circ> syscall_wait_result) r, w\<lparr>sy_objs := (sy_objs w)(p \<mapsto> Semaphore_Object sem), sy_threads := ths\<rparr>)
                  }
                | Some (Plain_Wait_Object ob) \<Rightarrow> do {
                    (ob, ths) \<leftarrow> wait_begin is_worker_thread cur ob (sy_threads w);
                    Some (None, w\<lparr>sy_objs := (sy_objs w)(p \<mapsto> Plain_Wait_Object ob), sy_threads := ths\<rparr>)
                  }
                | _ \<Rightarrow> Some (Some INVALID_OP, w))))"

definition make_object :: "nat \<Rightarrow> sync_object \<Rightarrow> sync_world \<Rightarrow> (GEN_HANDLE \<times> sync_world) option" where
  "make_object om ob w = do {
     (h, oms) \<leftarrow> store_object om \<lparr>od_object_ptr = Some (sy_next w), od_handle = 0, od_seek_position = 0\<rparr> (sy_om w);
     Some (h, w\<lparr>sy_objs := (sy_objs w)(sy_next w \<mapsto> ob), sy_next := sy_next w + 1, sy_om := oms\<rparr>)
   }"

definition syscall_create_mutex :: "(nat \<times> nat) option \<Rightarrow> u64 \<Rightarrow> GEN_HANDLE \<Rightarrow> sync_world \<Rightarrow> (ERR_CODE \<times> GEN_HANDLE \<times> sync_world) option" where
  "syscall_create_mutex cur_thread handle_addr mutex_handle w =
     (if handle_addr = 0 \<or> \<not> syscall_v_is_um_address handle_addr then Some (INVALID_PARAM, mutex_handle, w)
      else case cur_thread of
        None \<Rightarrow> Some (INVALID_OP, mutex_handle, w)
      | Some (cur, om) \<Rightarrow> do {
          (h, w) \<leftarrow> make_object om (Mutex_Object klib_synch_mutex_init) w;
          Some (NO_ERROR, h, w)
        })"

definition syscall_release_mutex :: "(nat \<times> nat) option \<Rightarrow> GEN_HANDLE \<Rightarrow> sync_world \<Rightarrow> (ERR_CODE \<times> sync_world) option" where
  "syscall_release_mutex cur_thread mutex_handle w =
     (case cur_thread of
        None \<Rightarrow> Some (INVALID_OP, w)
      | Some (cur, om) \<Rightarrow>
          (case retrieve_handled_object om mutex_handle (sy_om w) of
             None \<Rightarrow> Some (NOT_FOUND, w)
           | Some p \<Rightarrow>
               (case sy_objs w p of
                  Some (Mutex_Object m) \<Rightarrow> do {
                    (released, m, ths) \<leftarrow> syscall_mutex_release cur m (sy_threads w);
                    Some (if released then NO_ERROR else INVALID_OP, w\<lparr>sy_objs := (sy_objs w)(p \<mapsto> Mutex_Object m), sy_threads := ths\<rparr>)
                  }
                | _ \<Rightarrow> Some (NOT_FOUND, w))))"

definition syscall_create_semaphore :: "(nat \<times> nat) option \<Rightarrow> u64 \<Rightarrow> GEN_HANDLE \<Rightarrow> u64 \<Rightarrow> u64 \<Rightarrow> sync_world \<Rightarrow>
    (ERR_CODE \<times> GEN_HANDLE \<times> sync_world) option" where
  "syscall_create_semaphore cur_thread handle_addr semaphore_handle max_u start_users w =
     (if handle_addr = 0 \<or> \<not> syscall_v_is_um_address handle_addr then Some (INVALID_PARAM, semaphore_handle, w)
      else case cur_thread of
        None \<Rightarrow> Some (INVALID_OP, semaphore_handle, w)
      | Some (cur, om) \<Rightarrow> do {
          sem \<leftarrow> klib_synch_semaphore_init max_u start_users;
          (h, w) \<leftarrow> make_object om (Semaphore_Object sem) w;
          Some (NO_ERROR, h, w)
        })"

definition syscall_signal_semaphore :: "(nat \<times> nat) option \<Rightarrow> GEN_HANDLE \<Rightarrow> sync_world \<Rightarrow> (ERR_CODE \<times> sync_world) option" where
  "syscall_signal_semaphore cur_thread semaphore_handle w =
     (case cur_thread of
        None \<Rightarrow> Some (INVALID_OP, w)
      | Some (cur, om) \<Rightarrow>
          (case retrieve_handled_object om semaphore_handle (sy_om w) of
             None \<Rightarrow> Some (NOT_FOUND, w)
           | Some p \<Rightarrow>
               (case sy_objs w p of
                  Some (Semaphore_Object sem) \<Rightarrow> do {
                    (signalled, sem, ths) \<leftarrow> syscall_semaphore_signal sem (sy_threads w);
                    Some (if signalled then NO_ERROR else INVALID_OP, w\<lparr>sy_objs := (sy_objs w)(p \<mapsto> Semaphore_Object sem), sy_threads := ths\<rparr>)
                  }
                | _ \<Rightarrow> Some (NOT_FOUND, w))))"

subsection \<open>A mutex through its handle\<close>

lemma no_limit: "no_limit = 0xFFFFFFFFFFFFFFFF" "scast (signed_drop_bit 10 SC_MAX_WAIT) = no_limit"
  by (simp_all add: SC_MAX_WAIT_def)

lemma scale_wait_no_limit [simp]: "scale_wait no_limit = no_limit" "scale_wait 0xFFFFFFFFFFFFFFFF = 0xFFFFFFFFFFFFFFFF"
  by (simp_all add: scale_wait_def no_limit)

lemma scale_wait_eq: "max_wait \<noteq> no_limit \<Longrightarrow> scale_wait max_wait = max_wait * 1000"
  by (simp add: scale_wait_def no_limit(2) SC_MAX_WAIT_def less_le)

lemma scale_wait_no_wrap: "unat max_wait * 1000 < 2 ^ 64 \<Longrightarrow> unat (scale_wait max_wait) = unat max_wait * 1000"
  by (subst scale_wait_eq) (auto simp: no_limit unat_word_ariths)

text \<open>Since the comparison never keeps a long limit from being multiplied, a limit of \<open>2 ^ 61\<close> milliseconds becomes no wait at all.\<close>

lemma scale_wait_wraps: "scale_wait (2 ^ 61) = 0"
  by (subst scale_wait_eq) (simp_all add: no_limit)

text \<open>The handle of an object of the process.\<close>

definition has_object :: "nat \<Rightarrow> GEN_HANDLE \<Rightarrow> nat \<Rightarrow> sync_object \<Rightarrow> sync_world \<Rightarrow> bool" where
  "has_object om h p ob w \<longleftrightarrow> retrieve_handled_object om h (sy_om w) = Some p \<and> sy_objs w p = Some ob"

lemma has_object_upd: "has_object om h p ob w \<Longrightarrow> has_object om h p ob' (w\<lparr>sy_objs := (sy_objs w)(p \<mapsto> ob'), sy_threads := ths\<rparr>)"
  by (simp add: has_object_def)

lemma make_object_ok:
  assumes "om_wf (sy_om w)" and "hm_next_handle (sy_om w) + 1 \<noteq> NOT 0"
  shows "\<exists>h w'. make_object om ob w = Some (h, w') \<and> has_object om h (sy_next w) ob w' \<and> sy_threads w' = sy_threads w \<and> om_wf (sy_om w')"
  using store_object_correct [OF assms(1), of "\<lparr>od_object_ptr = Some (sy_next w), od_handle = 0, od_seek_position = 0\<rparr>" om] assms(2)
  by (auto simp: make_object_def has_object_def retrieve_handled_object_def)

text \<open>
  A mutex through system calls. A thread creates a mutex and waits for it: both succeed and the thread owns it. A second thread of the process that waits for it without a limit is put to sleep;
  a release by the second thread is refused with an error and changes nothing. The release by the owner succeeds, hands the mutex to the second thread, and lets it run.
\<close>

theorem mutex_syscalls:
  assumes "om_wf (sy_om w)" and "hm_next_handle (sy_om w) + 1 \<noteq> NOT 0" and "a \<noteq> 0" and "syscall_v_is_um_address a" and "t \<noteq> u"
    and "\<not> synch_item_in_list (sy_threads w u)" and "\<not> thread_destroyed (sy_threads w u)"
  shows "\<exists>h w1 w2 w3 w4 m. syscall_create_mutex (Some (t, om)) a x w = Some (NO_ERROR, h, w1) \<and>
    syscall_wait_for_object worker now (Some (t, om)) h max_wait w1 = Some (Some NO_ERROR, w2) \<and>
    syscall_wait_for_object worker now (Some (u, om)) h no_limit w2 = Some (None, w3) \<and> \<not> permit_running (sy_threads w3 u) \<and>
    syscall_release_mutex (Some (u, om)) h w3 = Some (INVALID_OP, w3) \<and>
    syscall_release_mutex (Some (t, om)) h w3 = Some (NO_ERROR, w4) \<and>
    has_object om h (sy_next w) (Mutex_Object m) w4 \<and> owner_thread m = Some u \<and> permit_running (sy_threads w4 u)"
proof -
  let ?p = "sy_next w"
  obtain h w1 where w1: "make_object om (Mutex_Object klib_synch_mutex_init) w = Some (h, w1)"
    "has_object om h ?p (Mutex_Object klib_synch_mutex_init) w1" "sy_threads w1 = sy_threads w"
    using make_object_ok [OF assms(1,2)] by blast
  let ?m1 = "\<lparr>mutex_locked = True, owner_thread = Some t, waiting_threads_list = []\<rparr>"
  let ?w2 = "w1\<lparr>sy_objs := (sy_objs w1)(?p \<mapsto> Mutex_Object ?m1), sy_threads := sy_threads w1\<rparr>"
  have o2: "has_object om h ?p (Mutex_Object ?m1) ?w2" using w1(2) by (rule has_object_upd)
  let ?th = "block_thread MUTEX_MAX_WAIT now no_limit ((sy_threads w1 u)\<lparr>synch_item_in_list := True\<rparr>)"
  let ?m3 = "?m1\<lparr>waiting_threads_list := [u]\<rparr>"
  let ?w3 = "?w2\<lparr>sy_objs := (sy_objs ?w2)(?p \<mapsto> Mutex_Object ?m3), sy_threads := (sy_threads ?w2)(u := ?th)\<rparr>"
  have o3: "has_object om h ?p (Mutex_Object ?m3) ?w3" using o2 by (rule has_object_upd)
  let ?m4 = "\<lparr>mutex_locked = True, owner_thread = Some u, waiting_threads_list = []\<rparr>"
  let ?w4 = "?w3\<lparr>sy_objs := (sy_objs ?w3)(?p \<mapsto> Mutex_Object ?m4),
     sy_threads := (sy_threads ?w3)(u := snd (start_thread (?th\<lparr>synch_item_in_list := False\<rparr>)))\<rparr>"
  have o4: "has_object om h ?p (Mutex_Object ?m4) ?w4" using o3 by (rule has_object_upd)
  have d: "\<not> thread_destroyed ?th" using assms(7) w1(3) by (simp add: block_thread_def stop_thread_def Let_def)
  have "syscall_create_mutex (Some (t, om)) a x w = Some (NO_ERROR, h, w1)" using assms(3,4) w1(1) by (simp add: syscall_create_mutex_def)
  moreover have "syscall_wait_for_object worker now (Some (t, om)) h max_wait w1 = Some (Some NO_ERROR, ?w2)"
    using w1(2) by (simp add: syscall_wait_for_object_def has_object_def mutex_acquire_begin_def klib_synch_mutex_init_def syscall_wait_result_def wait_code_def)
  moreover have "syscall_wait_for_object worker now (Some (u, om)) h no_limit ?w2 = Some (None, ?w3)"
    using o2 assms(5,6) w1(3)
    by (simp add: syscall_wait_for_object_def has_object_def mutex_acquire_begin_def no_limit)
  moreover have "\<not> permit_running (sy_threads ?w3 u)" by simp
  moreover have "syscall_release_mutex (Some (u, om)) h ?w3 = Some (INVALID_OP, ?w3)"
    using o3 assms(5) by (simp add: syscall_release_mutex_def has_object_def syscall_mutex_release_def)
  moreover have "syscall_release_mutex (Some (t, om)) h ?w3 = Some (NO_ERROR, ?w4)"
    using o3 by (simp add: syscall_release_mutex_def has_object_def syscall_mutex_release_def klib_synch_mutex_release_def)
  moreover have "owner_thread ?m4 = Some u" by simp
  moreover have "permit_running (sy_threads ?w4 u)" using d by (simp add: start_thread_def)
  ultimately show ?thesis using o4 by blast
qed

definition sync_start :: sync_world where
  "sync_start = \<lparr>sy_objs = Map.empty, sy_next = 0, sy_threads = \<lambda>_. blank_thread, sy_om = hm_gen_init\<rparr>"

theorem mutex_syscalls_witness:
  "\<exists>h w1 w2. syscall_create_mutex (Some (1, 0)) 0x1000 0 sync_start = Some (NO_ERROR, h, w1) \<and>
     syscall_wait_for_object False 0 (Some (1, 0)) h 5 w1 = Some (Some NO_ERROR, w2)"
proof -
  have p: "om_wf (sy_om sync_start)" "hm_next_handle (sy_om sync_start) + 1 \<noteq> NOT 0" "(0x1000 :: u64) \<noteq> 0" "syscall_v_is_um_address 0x1000" "(1 :: nat) \<noteq> 2"
    "\<not> synch_item_in_list (sy_threads sync_start 2)" "\<not> thread_destroyed (sy_threads sync_start 2)"
    using om_init_wf by (simp_all add: sync_start_def hm_gen_init_def syscall_v_is_um_address_def blank_thread_def)
  show ?thesis using mutex_syscalls [OF p, of 0 0 False 0 5] by blast
qed

subsection \<open>Programs can stop the kernel\<close>

text \<open>
  C34. The parameters of a semaphore reach the assertions of the kernel unchecked. Creating a semaphore for no users fails one; so does waiting for a semaphore with a time limit, waiting for one that was created
  with more users than its maximum, and signalling one that nobody holds.
\<close>

theorem semaphore_syscalls_panic:
  assumes "a \<noteq> 0" and "syscall_v_is_um_address a" and "has_object om h p (Semaphore_Object sem) w"
  shows "syscall_create_semaphore (Some (t, om)) a x 0 n w = None \<and>
    (0 < unat lim \<and> unat lim * 1000 < 2 ^ 64 \<longrightarrow> syscall_wait_for_object worker now (Some (t, om)) h lim w = None) \<and>
    (max_users sem < cur_user_count sem \<longrightarrow> syscall_wait_for_object worker now (Some (t, om)) h no_limit w = None) \<and>
    (cur_user_count sem = 0 \<and> sem_waiting_list sem = [] \<longrightarrow> syscall_signal_semaphore (Some (t, om)) h w = None)"
proof -
  have "semaphore_wait_begin t now (scale_wait lim) sem (sy_threads w) = None" if l: "0 < unat lim" "unat lim * 1000 < 2 ^ 64"
  proof -
    have u: "unat (scale_wait lim) = unat lim * 1000" using l(2) by (rule scale_wait_no_wrap)
    have e: "even (unat (scale_wait lim))" unfolding u by simp
    have "scale_wait lim \<noteq> SEMAPHORE_MAX_WAIT" using e by (auto simp: SEMAPHORE_MAX_WAIT_def)
    moreover have "scale_wait lim \<noteq> 0" using u l(1) by auto
    ultimately show ?thesis by (simp add: semaphore_wait_begin_def)
  qed
  moreover have "semaphore_wait_begin t now (scale_wait no_limit) sem (sy_threads w) = None" if "max_users sem < cur_user_count sem"
    using that by (auto simp: semaphore_wait_begin_def no_limit SEMAPHORE_MAX_WAIT_def)
  ultimately show ?thesis
    using assms by (auto simp: syscall_create_semaphore_def klib_synch_semaphore_init_def syscall_wait_for_object_def has_object_def Let_def
      syscall_signal_semaphore_def syscall_semaphore_signal_panics)
qed

theorem semaphore_syscalls_panic_witness:
  "\<exists>h w. has_object 0 h 0 (Semaphore_Object \<lparr>cur_user_count = 0, max_users = 1, sem_waiting_list = []\<rparr>) w \<and>
     syscall_signal_semaphore (Some (1, 0)) h w = None"
proof -
  let ?sem = "\<lparr>cur_user_count = 0, max_users = 1, sem_waiting_list = []\<rparr>"
  have p: "om_wf (sy_om sync_start)" "hm_next_handle (sy_om sync_start) + 1 \<noteq> NOT 0" "sy_next sync_start = 0"
    using om_init_wf by (simp_all add: sync_start_def hm_gen_init_def)
  obtain h w where "has_object 0 h 0 (Semaphore_Object ?sem) w"
    using make_object_ok [OF p(1,2), of 0 "Semaphore_Object ?sem"] p(3) by auto
  then show ?thesis
    using semaphore_syscalls_panic [of "0x1000" 0 h 0 ?sem w 1 0 0 1 False 0] by (auto simp: syscall_v_is_um_address_def)
qed

end
