(* ===== verification/Xhci_Trb.thy ===== *)
theory Xhci_Trb
  imports Cpp_Lib
begin

text \<open>
  The transfer request blocks of the xHCI driver: \<open>kernel/devices/usb/controllers/usb_xhci_trb_types.h\<close>. A block is sixteen bytes, two words of 64 bits here; the structures of the
  header are views of it, and their fields are ranges of bits. Of the second word the lower half is the third double word of the block and the upper half the fourth, which holds the cycle bit and the type.
\<close>

subsection \<open>Fields\<close>

record template_trb =
  trb_data :: u64
  trb_control :: u64

definition get_field :: "nat \<Rightarrow> nat \<Rightarrow> u64 \<Rightarrow> u64" where
  "get_field pos width w = take_bit width (drop_bit pos w)"

definition set_field :: "nat \<Rightarrow> nat \<Rightarrow> u64 \<Rightarrow> u64 \<Rightarrow> u64" where
  "set_field pos width v w = (w AND NOT (push_bit pos (mask width))) OR push_bit pos (take_bit width v)"

definition set_flag :: "nat \<Rightarrow> bool \<Rightarrow> u64 \<Rightarrow> u64" where
  "set_flag pos b = set_field pos 1 (of_bool b)"

lemma bit_set_field:
  "pos + width \<le> 64 \<Longrightarrow> bit (set_field pos width v w) n \<longleftrightarrow> (if pos \<le> n \<and> n < pos + width then bit v (n - pos) else bit w n)"
  by (auto simp: set_field_def bit_simps not_less dest: bit_imp_le_length)

lemma bit_get_field: "bit (get_field pos width w) n \<longleftrightarrow> n < width \<and> bit w (pos + n)"
  by (simp add: get_field_def bit_simps)

lemma get_set_same: "pos + width \<le> 64 \<Longrightarrow> get_field pos width (set_field pos width v w) = take_bit width v"
  by (rule bit_word_eqI) (simp add: bit_get_field bit_set_field bit_simps)

lemma get_set_other:
  "pos + width \<le> 64 \<Longrightarrow> pos' + width' \<le> pos \<or> pos + width \<le> pos' \<Longrightarrow> get_field pos' width' (set_field pos width v w) = get_field pos' width' w"
  by (rule bit_word_eqI) (auto simp: bit_get_field bit_set_field)

lemma get_zero [simp]: "get_field pos width 0 = 0"
  by (simp add: get_field_def)

lemmas field_simps = get_set_same get_set_other set_flag_def

definition trb_cycle :: "template_trb \<Rightarrow> bool" where
  "trb_cycle t \<longleftrightarrow> get_field 32 1 (trb_control t) = 1"

definition set_trb_cycle :: "bool \<Rightarrow> template_trb \<Rightarrow> template_trb" where
  "set_trb_cycle c t = t\<lparr>trb_control := set_flag 32 c (trb_control t)\<rparr>"

definition trb_type :: "template_trb \<Rightarrow> u64" where
  "trb_type t = get_field 42 6 (trb_control t)"

lemma one_bit: "take_bit 1 (of_bool b :: u64) = of_bool b"
  by simp

lemma trb_cycle_set [simp]: "trb_cycle (set_trb_cycle c t) = c" "trb_type (set_trb_cycle c t) = trb_type t" "trb_data (set_trb_cycle c t) = trb_data t"
  by (simp_all add: trb_cycle_def set_trb_cycle_def trb_type_def field_simps)

subsection \<open>The kinds of blocks\<close>

definition TRB_NORMAL :: u64 where
  "TRB_NORMAL = 1"

definition TRB_SETUP_STAGE :: u64 where
  "TRB_SETUP_STAGE = 2"

definition TRB_DATA_STAGE :: u64 where
  "TRB_DATA_STAGE = 3"

definition TRB_STATUS_STAGE :: u64 where
  "TRB_STATUS_STAGE = 4"

definition TRB_ISOCH :: u64 where
  "TRB_ISOCH = 5"

definition TRB_LINK :: u64 where
  "TRB_LINK = 6"

definition TRB_EVENT_DATA :: u64 where
  "TRB_EVENT_DATA = 7"

definition TRB_NO_OP :: u64 where
  "TRB_NO_OP = 8"

definition TRB_ENABLE_SLOT_CMD :: u64 where
  "TRB_ENABLE_SLOT_CMD = 9"

definition TRB_ADDRESS_DEVICE_CMD :: u64 where
  "TRB_ADDRESS_DEVICE_CMD = 11"

definition TRB_CONFIG_ENDPOINT_CMD :: u64 where
  "TRB_CONFIG_ENDPOINT_CMD = 12"

definition TRB_EVAL_CONTEXT_CMD :: u64 where
  "TRB_EVAL_CONTEXT_CMD = 13"

definition TRB_NO_OP_CMD :: u64 where
  "TRB_NO_OP_CMD = 23"

lemmas trb_types = TRB_NORMAL_def TRB_SETUP_STAGE_def TRB_DATA_STAGE_def TRB_STATUS_STAGE_def TRB_ISOCH_def TRB_LINK_def TRB_EVENT_DATA_def TRB_NO_OP_def
  TRB_ENABLE_SLOT_CMD_def TRB_ADDRESS_DEVICE_CMD_def TRB_CONFIG_ENDPOINT_CMD_def TRB_EVAL_CONTEXT_CMD_def TRB_NO_OP_CMD_def

definition template_populate :: template_trb where
  "template_populate = \<lparr>trb_data = 0, trb_control = 0\<rparr>"

definition link_populate :: "u64 \<Rightarrow> u16 \<Rightarrow> bool \<Rightarrow> bool \<Rightarrow> bool \<Rightarrow> bool \<Rightarrow> template_trb" where
  "link_populate next_trb_phys_addr interrupter interrupt_complete chain toggle_cycle cycle =
     \<lparr>trb_data = next_trb_phys_addr,
      trb_control = set_flag 37 interrupt_complete (set_flag 36 chain (set_flag 33 toggle_cycle (set_flag 32 cycle
        (set_field 22 10 (ucast interrupter) (set_field 42 6 TRB_LINK 0)))))\<rparr>"

definition no_op_cmd_populate :: "bool \<Rightarrow> template_trb" where
  "no_op_cmd_populate cycle = \<lparr>trb_data = 0, trb_control = set_field 42 6 TRB_NO_OP_CMD (set_flag 32 cycle 0)\<rparr>"

definition enable_slot_cmd_populate :: "bool \<Rightarrow> u32 \<Rightarrow> template_trb" where
  "enable_slot_cmd_populate cycle slot_type =
     \<lparr>trb_data = 0, trb_control = set_field 42 6 TRB_ENABLE_SLOT_CMD (set_field 48 5 (ucast slot_type) (set_flag 32 cycle 0))\<rparr>"

definition address_device_cmd_populate :: "bool \<Rightarrow> bool \<Rightarrow> u64 \<Rightarrow> bool \<Rightarrow> u8 \<Rightarrow> template_trb" where
  "address_device_cmd_populate address_device cycle input_context_phys block_set_address slot_id =
     \<lparr>trb_data = input_context_phys,
      trb_control = set_field 56 8 (ucast slot_id) (set_flag 41 block_set_address (set_flag 32 cycle
        (set_field 42 6 (if address_device then TRB_ADDRESS_DEVICE_CMD else TRB_EVAL_CONTEXT_CMD) 0)))\<rparr>"

definition configure_endpoint_cmd :: template_trb where
  "configure_endpoint_cmd = \<lparr>trb_data = 0, trb_control = set_field 42 6 TRB_CONFIG_ENDPOINT_CMD 0\<rparr>"

definition no_op_transfer_populate :: "u16 \<Rightarrow> bool \<Rightarrow> bool \<Rightarrow> bool \<Rightarrow> bool \<Rightarrow> template_trb" where
  "no_op_transfer_populate int_target cycle ent chain ioc =
     \<lparr>trb_data = 0,
      trb_control = set_field 42 6 TRB_NO_OP (set_field 22 10 (ucast int_target) (set_flag 37 ioc (set_flag 36 chain (set_flag 33 ent (set_flag 32 cycle 0)))))\<rparr>"

definition normal_transfer_populate :: "u64 \<Rightarrow> u32 \<Rightarrow> u16 \<Rightarrow> u16 \<Rightarrow> bool \<Rightarrow> bool \<Rightarrow> bool \<Rightarrow> bool \<Rightarrow> bool \<Rightarrow> bool \<Rightarrow> bool \<Rightarrow> bool \<Rightarrow> template_trb" where
  "normal_transfer_populate data_buffer_phys transfer_len td_size interrupter cycle evaluate_next_trb interrupt_on_short_pkt no_snoop chain
     interrupt_on_complete immediate_data block_event_interrupt =
     \<lparr>trb_data = data_buffer_phys,
      trb_control = set_flag 41 block_event_interrupt (set_flag 38 immediate_data (set_flag 37 interrupt_on_complete (set_flag 36 chain
        (set_flag 35 no_snoop (set_flag 34 interrupt_on_short_pkt (set_flag 33 evaluate_next_trb (set_flag 32 cycle
        (set_field 22 10 (ucast interrupter) (set_field 17 5 (ucast td_size) (set_field 0 17 (ucast transfer_len)
        (set_field 42 6 TRB_NORMAL 0)))))))))))\<rparr>"

definition setup_stage_populate :: "u8 \<Rightarrow> u8 \<Rightarrow> u16 \<Rightarrow> u16 \<Rightarrow> u16 \<Rightarrow> u16 \<Rightarrow> bool \<Rightarrow> bool \<Rightarrow> bool \<Rightarrow> u16 \<Rightarrow> template_trb" where
  "setup_stage_populate request_type request val index len interrupter cycle ioc immediate transfer_type =
     \<lparr>trb_data = set_field 48 16 (ucast len) (set_field 32 16 (ucast index) (set_field 16 16 (ucast val) (set_field 8 8 (ucast request) (set_field 0 8 (ucast request_type) 0)))),
      trb_control = set_field 48 2 (ucast transfer_type) (set_flag 38 immediate (set_flag 37 ioc (set_flag 32 cycle
        (set_field 22 10 (ucast interrupter) (set_field 0 17 8 (set_field 42 6 TRB_SETUP_STAGE 0))))))\<rparr>"

definition data_stage_populate :: "u64 \<Rightarrow> u32 \<Rightarrow> u16 \<Rightarrow> u16 \<Rightarrow> bool \<Rightarrow> bool \<Rightarrow> bool \<Rightarrow> bool \<Rightarrow> bool \<Rightarrow> bool \<Rightarrow> bool \<Rightarrow> bool \<Rightarrow> template_trb" where
  "data_stage_populate data_buffer_phys transfer_len td_size interrupter cycle evaluate_next_trb interrupt_on_short_pkt no_snoop chain
     interrupt_on_complete immediate_data is_inwards =
     \<lparr>trb_data = data_buffer_phys,
      trb_control = set_flag 48 is_inwards (set_flag 38 immediate_data (set_flag 37 interrupt_on_complete (set_flag 36 chain
        (set_flag 35 no_snoop (set_flag 34 interrupt_on_short_pkt (set_flag 33 evaluate_next_trb (set_flag 32 cycle
        (set_field 22 10 (ucast interrupter) (set_field 17 5 (ucast td_size) (set_field 0 17 (ucast transfer_len)
        (set_field 42 6 TRB_DATA_STAGE 0)))))))))))\<rparr>"

definition status_stage_populate :: "u16 \<Rightarrow> bool \<Rightarrow> bool \<Rightarrow> bool \<Rightarrow> bool \<Rightarrow> bool \<Rightarrow> template_trb" where
  "status_stage_populate interrupter cycle evaluate_next_trb chain interrupt_on_complete is_inwards =
     \<lparr>trb_data = 0,
      trb_control = set_flag 48 is_inwards (set_flag 37 interrupt_on_complete (set_flag 36 chain (set_flag 33 evaluate_next_trb (set_flag 32 cycle
        (set_field 22 10 (ucast interrupter) (set_field 42 6 TRB_STATUS_STAGE 0))))))\<rparr>"

text \<open>The event blocks, which the controller writes and the driver reads.\<close>

definition event_port_id :: "template_trb \<Rightarrow> u64" where
  "event_port_id t = get_field 24 8 (trb_data t)"

definition event_completion_code :: "template_trb \<Rightarrow> u64" where
  "event_completion_code t = get_field 24 8 (trb_control t)"

definition event_transfer_length_left :: "template_trb \<Rightarrow> u64" where
  "event_transfer_length_left t = get_field 0 24 (trb_control t)"

definition event_endpoint_id :: "template_trb \<Rightarrow> u64" where
  "event_endpoint_id t = get_field 48 5 (trb_control t)"

definition event_slot_id :: "template_trb \<Rightarrow> u64" where
  "event_slot_id t = get_field 56 8 (trb_control t)"

lemmas populate_defs = template_populate_def link_populate_def no_op_cmd_populate_def enable_slot_cmd_populate_def address_device_cmd_populate_def
  configure_endpoint_cmd_def no_op_transfer_populate_def normal_transfer_populate_def setup_stage_populate_def data_stage_populate_def status_stage_populate_def

text \<open>Every kind of block carries its own type and the cycle bit it was given.\<close>

lemma populate_type [simp]:
  "trb_type (link_populate a i ic ch tc cy) = TRB_LINK" "trb_type (no_op_cmd_populate cy) = TRB_NO_OP_CMD"
  "trb_type (enable_slot_cmd_populate cy st) = TRB_ENABLE_SLOT_CMD"
  "trb_type (address_device_cmd_populate ad cy ctx bsa sl) = (if ad then TRB_ADDRESS_DEVICE_CMD else TRB_EVAL_CONTEXT_CMD)"
  "trb_type configure_endpoint_cmd = TRB_CONFIG_ENDPOINT_CMD" "trb_type (no_op_transfer_populate i cy en ch ioc) = TRB_NO_OP"
  "trb_type (normal_transfer_populate d l td i cy en isp ns ch ioc im bei) = TRB_NORMAL"
  "trb_type (setup_stage_populate rt rq v ix le i cy ioc im tt) = TRB_SETUP_STAGE"
  "trb_type (data_stage_populate d l td i cy en isp ns ch ioc im inw) = TRB_DATA_STAGE"
  "trb_type (status_stage_populate i cy en ch ioc inw) = TRB_STATUS_STAGE" "trb_type template_populate = 0"
  by (simp_all add: populate_defs trb_type_def field_simps trb_types take_bit_eq_mod)

lemma populate_cycle [simp]:
  "trb_cycle (link_populate a i ic ch tc cy) = cy" "trb_cycle (no_op_cmd_populate cy) = cy" "trb_cycle (enable_slot_cmd_populate cy st) = cy"
  "trb_cycle (address_device_cmd_populate ad cy ctx bsa sl) = cy" "\<not> trb_cycle configure_endpoint_cmd" "trb_cycle (no_op_transfer_populate i cy en ch ioc) = cy"
  "trb_cycle (normal_transfer_populate d l td i cy en isp ns ch ioc im bei) = cy" "trb_cycle (setup_stage_populate rt rq v ix le i cy ioc im tt) = cy"
  "trb_cycle (data_stage_populate d l td i cy en isp ns ch ioc im inw) = cy" "trb_cycle (status_stage_populate i cy en ch ioc inw) = cy"
  "\<not> trb_cycle template_populate"
  by (simp_all add: populate_defs trb_cycle_def field_simps)

text \<open>What a normal transfer block says to the controller is what the driver put in, each value cut to its width.\<close>

lemma normal_transfer_fields:
  assumes "t = normal_transfer_populate d l td i cy en isp ns ch ioc im bei"
  shows "trb_data t = d" "get_field 0 17 (trb_control t) = take_bit 17 (ucast l)" "get_field 17 5 (trb_control t) = take_bit 5 (ucast td)"
    "get_field 22 10 (trb_control t) = take_bit 10 (ucast i)" "get_field 34 1 (trb_control t) = of_bool isp" "get_field 36 1 (trb_control t) = of_bool ch"
    "get_field 37 1 (trb_control t) = of_bool ioc" "get_field 38 1 (trb_control t) = of_bool im"
  unfolding assms by (simp_all add: normal_transfer_populate_def field_simps)

end
