(* ===== verification/Xhci_Ring.thy ===== *)
theory Xhci_Ring
  imports Xhci_Trb
begin

text \<open>
  The rings through which the driver and the xHCI controller exchange blocks: \<open>kernel/devices/usb/controllers/usb_xhci_trb_ring.cpp\<close>. A pointer into a ring is an index. The driver writes transfer and
  command rings and reads event rings; the controller, which is not part of the program, does the opposite and tells by the cycle bits which blocks are new.
\<close>

subsection \<open>Rings that the driver writes\<close>

record trb_ring =
  ring_trbs :: "template_trb list"
  enqueue_ptr :: nat
  cycle_bit :: bool
  trb_ring_base_phys :: u64
  segment_size :: u16

definition trb_at :: "nat \<Rightarrow> trb_ring \<Rightarrow> template_trb option" where
  "trb_at i r = (if i < length (ring_trbs r) then Some (ring_trbs r ! i) else None)"

text \<open>The constructor, given the physical address of the aligned allocation.\<close>

definition trb_generic_ring :: "u16 \<Rightarrow> u64 \<Rightarrow> trb_ring option" where
  "trb_generic_ring max_entries base_phys = do {
     ASSERT (max_entries > 1);
     Some \<lparr>ring_trbs = replicate (unat max_entries - 1) template_populate @ [link_populate base_phys 0 False False False False],
       enqueue_ptr = 0, cycle_bit = True, trb_ring_base_phys = base_phys, segment_size = max_entries\<rparr>
   }"

text \<open>The result: whether the block was queued, its position if so, the caller's block with its new cycle bit, and the ring.\<close>

definition queue_trb :: "(template_trb \<Rightarrow> bool) \<Rightarrow> template_trb option \<Rightarrow> trb_ring \<Rightarrow> (bool \<times> nat option \<times> template_trb option \<times> trb_ring) option" where
  "queue_trb is_valid_trb new_trb r =
     (case new_trb of
        None \<Rightarrow> Some (False, None, None, r)
      | Some t \<Rightarrow>
          if \<not> is_valid_trb t then Some (False, None, Some t, r)
          else do {
            e \<leftarrow> trb_at (enqueue_ptr r) r;
            if trb_cycle e then Some (False, None, Some t, r)
            else do {
              let t = set_trb_cycle (cycle_bit r) t;
              let posn = enqueue_ptr r;
              let r = r\<lparr>ring_trbs := (ring_trbs r)[posn := t]\<rparr>;
              nx \<leftarrow> trb_at (posn + 1) r;
              let r = (if trb_type nx = TRB_LINK then r\<lparr>enqueue_ptr := 0, cycle_bit := \<not> cycle_bit r\<rparr> else r\<lparr>enqueue_ptr := posn + 1\<rparr>);
              Some (True, Some posn, Some t, r)
            }
          })"

definition transfer_valid_trb :: "template_trb \<Rightarrow> bool" where
  "transfer_valid_trb t \<longleftrightarrow> trb_type t \<in> {TRB_NORMAL, TRB_SETUP_STAGE, TRB_DATA_STAGE, TRB_STATUS_STAGE, TRB_ISOCH, TRB_EVENT_DATA, TRB_NO_OP}"

definition command_valid_trb :: "template_trb \<Rightarrow> bool" where
  "command_valid_trb t \<longleftrightarrow> 9 \<le> trb_type t \<and> trb_type t \<le> 23"

definition clear_ioc :: "template_trb \<Rightarrow> template_trb" where
  "clear_ioc t = t\<lparr>trb_control := set_flag 37 False (trb_control t)\<rparr>"

text \<open>The data blocks of a control transfer; the results are not looked at.\<close>

fun queue_data_trbs :: "nat \<Rightarrow> template_trb list \<Rightarrow> trb_ring \<Rightarrow> trb_ring option" where
  "queue_data_trbs 0 data r = Some r"
| "queue_data_trbs (Suc n) [] r = None"
| "queue_data_trbs (Suc n) (d # data) r = do {
     (_, _, _, r) \<leftarrow> queue_trb transfer_valid_trb (Some (clear_ioc d)) r;
     queue_data_trbs n data r
   }"

text \<open>A position that was not set keeps the value \<open>junk\<close> of the uninitialised variable.\<close>

definition queue_ctrl_transfer :: "u32 \<Rightarrow> template_trb option \<Rightarrow> template_trb list option \<Rightarrow> template_trb option \<Rightarrow> u32 \<Rightarrow> trb_ring \<Rightarrow>
    (bool \<times> u64 option \<times> trb_ring) option" where
  "queue_ctrl_transfer junk setup_trb data_trbs status_trb num_data_trbs r =
     (if data_trbs \<noteq> None \<and> num_data_trbs = 0 \<or> data_trbs = None \<and> num_data_trbs \<noteq> 0 \<or> setup_trb = None \<or> status_trb = None \<or>
         num_data_trbs > ucast (segment_size r) - 3
      then Some (False, None, r)
      else do {
        (_, _, _, r) \<leftarrow> queue_trb transfer_valid_trb (map_option clear_ioc setup_trb) r;
        r \<leftarrow> queue_data_trbs (unat num_data_trbs) (case data_trbs of None \<Rightarrow> [] | Some d \<Rightarrow> d) r;
        (result, posn, _, r) \<leftarrow> queue_trb transfer_valid_trb status_trb r;
        Some (result, Some (trb_ring_base_phys r + 16 * (case posn of Some p \<Rightarrow> of_nat p | None \<Rightarrow> ucast junk)), r)
      })"

definition queue_regular_transfer :: "u32 \<Rightarrow> u64 \<Rightarrow> u32 \<Rightarrow> trb_ring \<Rightarrow> (bool \<times> u64 option \<times> trb_ring) option" where
  "queue_regular_transfer junk buffer_phys transfer_length r =
     (if transfer_length \<ge> 2 ^ 17 then Some (False, None, r)
      else do {
        let trb = normal_transfer_populate buffer_phys transfer_length 1 0 False False True False False True False False;
        (result, posn, _, r) \<leftarrow> queue_trb transfer_valid_trb (Some trb) r;
        Some (result, Some (trb_ring_base_phys r + 16 * (case posn of Some p \<Rightarrow> of_nat p | None \<Rightarrow> ucast junk)), r)
      })"

subsection \<open>The command ring\<close>

text \<open>For each position the commands that await a response there; a command is its identity here.\<close>

record command_ring = trb_ring +
  command_queues :: "nat list list"

definition trb_command_ring :: "u16 \<Rightarrow> u64 \<Rightarrow> command_ring option" where
  "trb_command_ring max_entries base_phys = do {
     r \<leftarrow> trb_generic_ring max_entries base_phys;
     Some (trb_ring.extend r \<lparr>command_queues = replicate (unat max_entries) []\<rparr>)
   }"

definition queue_command :: "nat \<Rightarrow> template_trb \<Rightarrow> command_ring \<Rightarrow> (bool \<times> command_ring) option" where
  "queue_command new_command generated_trb c = do {
     (result, queue_posn, _, r) \<leftarrow> queue_trb command_valid_trb (Some generated_trb) (trb_ring.truncate c);
     let c = trb_ring.extend r \<lparr>command_queues = command_queues c\<rparr>;
     (case queue_posn of
        None \<Rightarrow> Some (result, c)
      | Some p \<Rightarrow> do {
          ASSERT (p < length (command_queues c));
          Some (result, c\<lparr>command_queues := (command_queues c)[p := command_queues c ! p @ [new_command]]\<rparr>)
        })
   }"

definition convert_phys_to_position :: "u64 \<Rightarrow> command_ring \<Rightarrow> u32" where
  "convert_phys_to_position phys_trb_addr c =
     (let posn = ucast ((phys_trb_addr - trb_ring_base_phys c) div 16) :: u32 in
      if posn > ucast (segment_size c) then NOT 0 else posn)"

definition retrieve_command :: "u64 \<Rightarrow> command_ring \<Rightarrow> (nat option \<times> command_ring) option" where
  "retrieve_command command_trb_phys_addr c =
     (let position_in_segment = convert_phys_to_position command_trb_phys_addr c; p = unat position_in_segment in
      if position_in_segment \<noteq> NOT 0 then do {
        ASSERT (p < length (command_queues c));
        (case command_queues c ! p of
           [] \<Rightarrow> Some (None, c)
         | x # rest \<Rightarrow> Some (Some x, c\<lparr>command_queues := (command_queues c)[p := rest]\<rparr>))
      } else Some (None, c))"

subsection \<open>Event rings\<close>

text \<open>The dequeue register of the interrupter receives a physical address with bit 3 set, which clears the busy flag; \<open>phys\<close> gives the address of a block.\<close>

record event_ring =
  er_trbs :: "template_trb list"
  dequeue_ptr :: nat
  consumer_cycle_state_bit :: bool
  number_of_entries :: u16
  erst_dequeue_ptr_phys :: u64

definition trb_event_ring :: "(nat \<Rightarrow> u64) \<Rightarrow> u16 \<Rightarrow> u16 \<Rightarrow> event_ring option" where
  "trb_event_ring phys max_entries interrupter = do {
     ASSERT (16 \<le> max_entries \<and> max_entries \<le> 4096);
     ASSERT (interrupter < 1024);
     Some \<lparr>er_trbs = replicate (unat max_entries) template_populate, dequeue_ptr = 0, consumer_cycle_state_bit = True,
       number_of_entries = max_entries, erst_dequeue_ptr_phys = phys 0\<rparr>
   }"

definition set_handler_not_busy :: "(nat \<Rightarrow> u64) \<Rightarrow> event_ring \<Rightarrow> event_ring" where
  "set_handler_not_busy phys e = e\<lparr>erst_dequeue_ptr_phys := phys (dequeue_ptr e) OR 8\<rparr>"

definition dequeue_trb :: "(nat \<Rightarrow> u64) \<Rightarrow> bool \<Rightarrow> event_ring \<Rightarrow> (template_trb option \<times> event_ring) option" where
  "dequeue_trb phys have_target e = do {
     ASSERT (dequeue_ptr e < length (er_trbs e));
     let t = er_trbs e ! dequeue_ptr e;
     if have_target \<and> trb_cycle t = consumer_cycle_state_bit e then do {
       let e = e\<lparr>dequeue_ptr := dequeue_ptr e + 1\<rparr>;
       let e = (if dequeue_ptr e \<ge> unat (number_of_entries e)
                then e\<lparr>dequeue_ptr := 0, consumer_cycle_state_bit := \<not> consumer_cycle_state_bit e\<rparr> else e);
       ASSERT (dequeue_ptr e < length (er_trbs e));
       Some (Some t, if trb_cycle (er_trbs e ! dequeue_ptr e) \<noteq> consumer_cycle_state_bit e then set_handler_not_busy phys e else e)
     } else Some (None, set_handler_not_busy phys e)
   }"

subsection \<open>A ring is used once\<close>

text \<open>
  The state of a ring after \<open>k\<close> blocks: those before the enqueue pointer have the cycle bit set, those after it do not. When the last place has been used the pointer is back at the start.
\<close>

definition ring_state :: "nat \<Rightarrow> nat \<Rightarrow> trb_ring \<Rightarrow> bool" where
  "ring_state n k r \<longleftrightarrow> length (ring_trbs r) = Suc n \<and> 0 < n \<and> k \<le> n \<and> trb_type (ring_trbs r ! n) = TRB_LINK \<and>
     (\<forall>i<n. trb_type (ring_trbs r ! i) \<noteq> TRB_LINK \<and> (trb_cycle (ring_trbs r ! i) \<longleftrightarrow> i < k)) \<and>
     enqueue_ptr r = (if k = n then 0 else k) \<and> (k < n \<longrightarrow> cycle_bit r)"

lemma new_ring_state:
  "trb_generic_ring m b = Some r \<Longrightarrow> ring_state (unat m - 1) 0 r"
proof -
  assume a: "trb_generic_ring m b = Some r"
  then have "1 < unat m" by (auto simp: trb_generic_ring_def word_less_nat_alt)
  then show ?thesis using a
    by (auto simp: trb_generic_ring_def ring_state_def nth_append trb_types)
qed

lemma queue_trb_room:
  assumes "ring_state n k r" and "k < n" and "valid t" and "trb_type t \<noteq> TRB_LINK"
  shows "\<exists>r'. queue_trb valid (Some t) r = Some (True, Some k, Some (set_trb_cycle True t), r') \<and> ring_state n (Suc k) r' \<and>
    ring_trbs r' = (ring_trbs r)[k := set_trb_cycle True t]"
proof -
  have s: "length (ring_trbs r) = Suc n" "trb_type (ring_trbs r ! n) = TRB_LINK" "enqueue_ptr r = k" "cycle_bit r"
    "\<forall>i<n. trb_type (ring_trbs r ! i) \<noteq> TRB_LINK \<and> (trb_cycle (ring_trbs r ! i) \<longleftrightarrow> i < k)" "0 < n"
    using assms(1,2) by (auto simp: ring_state_def)
  let ?l = "(ring_trbs r)[k := set_trb_cycle True t]"
  let ?r = "(if Suc k = n then (r\<lparr>ring_trbs := ?l\<rparr>)\<lparr>enqueue_ptr := 0, cycle_bit := False\<rparr> else (r\<lparr>ring_trbs := ?l\<rparr>)\<lparr>enqueue_ptr := Suc k\<rparr>)"
  have link: "trb_type (?l ! Suc k) = TRB_LINK \<longleftrightarrow> Suc k = n" using s(1,2,5) assms(2) by (cases "Suc k = n") auto
  have "queue_trb valid (Some t) r = Some (True, Some k, Some (set_trb_cycle True t), ?r)"
    using s assms(2,3) link by (simp add: queue_trb_def trb_at_def Let_def)
  moreover have "ring_state n (Suc k) ?r"
    using s assms(2,4) by (auto simp: ring_state_def nth_list_update less_Suc_eq)
  ultimately show ?thesis by (intro exI [of _ ?r]) simp
qed

lemma queue_trb_full:
  assumes "ring_state n n r" and "valid t" shows "queue_trb valid (Some t) r = Some (False, None, Some t, r)"
proof -
  have "enqueue_ptr r = 0" "trb_cycle (ring_trbs r ! 0)" "0 < length (ring_trbs r)" using assms(1) by (auto simp: ring_state_def)
  then show ?thesis using assms(2) by (simp add: queue_trb_def trb_at_def)
qed

fun queue_all :: "(template_trb \<Rightarrow> bool) \<Rightarrow> template_trb list \<Rightarrow> trb_ring \<Rightarrow> (bool list \<times> trb_ring) option" where
  "queue_all valid [] r = Some ([], r)"
| "queue_all valid (t # ts) r = do {
     (ok, _, _, r) \<leftarrow> queue_trb valid (Some t) r;
     (oks, r) \<leftarrow> queue_all valid ts r;
     Some (ok # oks, r)
   }"

lemma queue_all_state:
  assumes "ring_state n k r" and "\<forall>t \<in> set ts. valid t \<and> trb_type t \<noteq> TRB_LINK"
  shows "\<exists>r'. queue_all valid ts r = Some (replicate (min (n - k) (length ts)) True @ replicate (length ts - (n - k)) False, r') \<and>
    (\<forall>i. i < k \<longrightarrow> ring_trbs r' ! i = ring_trbs r ! i) \<and> (\<forall>i < min (n - k) (length ts). ring_trbs r' ! (k + i) = set_trb_cycle True (ts ! i))"
  using assms
proof (induction ts arbitrary: k r)
  case (Cons t ts)
  show ?case
  proof (cases "k < n")
    case True
    obtain r1 where r1: "queue_trb valid (Some t) r = Some (True, Some k, Some (set_trb_cycle True t), r1)" "ring_state n (Suc k) r1"
      "ring_trbs r1 = (ring_trbs r)[k := set_trb_cycle True t]" using queue_trb_room [OF Cons.prems(1) True, of valid t] Cons.prems(2) by auto
    obtain r' where r': "queue_all valid ts r1 = Some (replicate (min (n - Suc k) (length ts)) True @ replicate (length ts - (n - Suc k)) False, r')"
      "\<forall>i. i < Suc k \<longrightarrow> ring_trbs r' ! i = ring_trbs r1 ! i" "\<forall>i < min (n - Suc k) (length ts). ring_trbs r' ! (Suc k + i) = set_trb_cycle True (ts ! i)"
      using Cons.IH [OF r1(2)] Cons.prems(2) by auto
    have nk: "n - k = Suc (n - Suc k)" using True by simp
    have "k < length (ring_trbs r)" using Cons.prems(1) True by (auto simp: ring_state_def)
    then have at: "ring_trbs r' ! (k + i) = set_trb_cycle True ((t # ts) ! i)" if "i < min (n - k) (length (t # ts))" for i
      using that r'(2,3) r1(3) nk by (cases i) auto
    have "queue_all valid (t # ts) r = Some (replicate (min (n - k) (length (t # ts))) True @ replicate (length (t # ts) - (n - k)) False, r')"
      using r1(1) r'(1) nk by simp
    then show ?thesis using at r'(2) r1(3) by (intro exI [of _ r']) auto
  next
    case False
    then have kn: "k = n" using Cons.prems(1) by (simp add: ring_state_def)
    have q: "queue_trb valid (Some t) r = Some (False, None, Some t, r)" using queue_trb_full [of n r valid t] Cons.prems kn by simp
    obtain r' where "queue_all valid ts r = Some (replicate (length ts) False, r')" "\<forall>i. i < k \<longrightarrow> ring_trbs r' ! i = ring_trbs r ! i"
      using Cons.IH [OF Cons.prems(1)] Cons.prems(2) kn by auto
    then show ?thesis using q kn by (intro exI [of _ r']) simp
  qed
qed simp

lemma valid_not_link: "transfer_valid_trb t \<Longrightarrow> trb_type t \<noteq> TRB_LINK" "command_valid_trb t \<Longrightarrow> trb_type t \<noteq> TRB_LINK"
  by (auto simp: transfer_valid_trb_def command_valid_trb_def trb_types)

text \<open>
  C32. A transfer ring of \<open>m\<close> entries takes \<open>m - 1\<close> blocks and then no more, ever. The blocks are stored in order at the first \<open>m - 1\<close> places, with the cycle bit set. When the enqueue
  pointer comes back to the start it finds the cycle bit set there, which the driver takes for a full ring, and nothing in the driver clears it.
\<close>

theorem transfer_ring_used_once:
  assumes "trb_generic_ring m b = Some r" and "\<forall>t \<in> set ts. transfer_valid_trb t"
  shows "\<exists>r'. queue_all transfer_valid_trb ts r =
      Some (replicate (min (unat m - 1) (length ts)) True @ replicate (length ts - (unat m - 1)) False, r') \<and>
    (\<forall>i < min (unat m - 1) (length ts). ring_trbs r' ! i = set_trb_cycle True (ts ! i))"
  using queue_all_state [OF new_ring_state [OF assms(1)], of ts transfer_valid_trb] assms(2) valid_not_link(1) by auto

theorem transfer_ring_used_once_witness:
  "\<exists>r r'. trb_generic_ring 3 0x1000 = Some r \<and>
     queue_all transfer_valid_trb (replicate 4 (normal_transfer_populate 0 8 1 0 False False True False False True False False)) r =
       Some ([True, True, False, False], r')"
proof -
  let ?t = "normal_transfer_populate 0 8 1 0 False False True False False True False False"
  obtain r where r: "trb_generic_ring 3 0x1000 = Some r" by (simp add: trb_generic_ring_def)
  have "\<forall>t \<in> set (replicate 4 ?t). transfer_valid_trb t" by (simp add: transfer_valid_trb_def)
  then obtain r' where "queue_all transfer_valid_trb (replicate 4 ?t) r = Some (replicate (min (unat (3 :: u16) - 1) 4) True @ replicate (4 - (unat (3 :: u16) - 1)) False, r')"
    using transfer_ring_used_once [OF r, of "replicate 4 ?t"] by auto
  moreover have "replicate (min (unat (3 :: u16) - 1) 4) True @ replicate (4 - (unat (3 :: u16) - 1)) False = [True, True, False, False]" by code_simp
  ultimately show ?thesis using r by metis
qed

subsection \<open>Commands and their responses\<close>

lemma position_of_address:
  assumes "k \<le> unat (segment_size c)"
  shows "convert_phys_to_position (trb_ring_base_phys c + 16 * of_nat k) c = of_nat k" and "of_nat k \<noteq> (NOT 0 :: u32)" and "unat (of_nat k :: u32) = k"
proof -
  have "unat (segment_size c) < 2 ^ LENGTH(16)" by (rule unsigned_less)
  then have k: "k < 2 ^ 16" using assms by simp
  then have u: "unat (of_nat k :: u64) = k" by (intro unat_of_nat_u64) simp
  have "unat (16 * of_nat k :: u64) = 16 * k" using u k by (simp add: unat_word_ariths)
  then have d: "(16 * of_nat k :: u64) div 16 = of_nat k" using u by (simp add: word_arith_nat_div unat_word_ariths)
  show v: "unat (of_nat k :: u32) = k" using k by (simp add: unat_of_nat take_bit_nat_eq_self)
  have "unat (ucast (of_nat k :: u64) :: u32) = k" using u k by (simp add: unsigned_ucast_eq take_bit_nat_eq_self)
  then have c: "ucast (of_nat k :: u64) = (of_nat k :: u32)" using v by (simp add: word_unat_eq_iff)
  have "unat (NOT 0 :: u32) = 2 ^ 32 - 1" by (simp add: unsigned_minus_1_eq_mask mask_eq_exp_minus_1)
  then show "of_nat k \<noteq> (NOT 0 :: u32)" using v k by force
  have "unat (ucast (segment_size c) :: u32) = unat (segment_size c)"
    using \<open>unat (segment_size c) < 2 ^ LENGTH(16)\<close> by (simp add: unsigned_ucast_eq take_bit_nat_eq_self)
  then have "\<not> (of_nat k :: u32) > ucast (segment_size c)" using v assms by (simp add: word_less_nat_alt)
  then show "convert_phys_to_position (trb_ring_base_phys c + 16 * of_nat k) c = of_nat k"
    by (simp add: convert_phys_to_position_def d c)
qed

definition command_state :: "nat \<Rightarrow> nat \<Rightarrow> command_ring \<Rightarrow> bool" where
  "command_state n k c \<longleftrightarrow> ring_state n k (trb_ring.truncate c) \<and> length (command_queues c) = Suc n \<and> unat (segment_size c) = Suc n"

lemma truncate_extend: "trb_ring.truncate (trb_ring.extend r x) = r"
  by (cases r) (simp add: trb_ring.defs)

lemma new_command_state: "trb_command_ring m b = Some c \<Longrightarrow> command_state (unat m - 1) 0 c"
proof -
  assume a: "trb_command_ring m b = Some c"
  then obtain r where r: "trb_generic_ring m b = Some r" "c = trb_ring.extend r \<lparr>command_queues = replicate (unat m) []\<rparr>"
    by (auto simp: trb_command_ring_def)
  have "1 < unat m" using r(1) by (auto simp: trb_generic_ring_def word_less_nat_alt)
  moreover have "segment_size r = m" using r(1) by (auto simp: trb_generic_ring_def)
  ultimately show ?thesis using r(2) new_ring_state [OF r(1)]
    unfolding command_state_def r(2) truncate_extend by (simp add: trb_ring.defs)
qed

text \<open>
  C31. A response finds its command. A command that was queued at a place where no other command waits is what the driver retrieves when the controller reports the physical address of that place; and
  it is retrieved once.
\<close>

theorem command_retrieved:
  assumes "command_state n k c" and "k < n" and "command_valid_trb t" and "command_queues c ! k = []"
  shows "\<exists>c' c''. queue_command x t c = Some (True, c') \<and> command_state n (Suc k) c' \<and>
    retrieve_command (trb_ring_base_phys c + 16 * of_nat k) c' = Some (Some x, c'') \<and> command_queues c'' = command_queues c \<and>
    retrieve_command (trb_ring_base_phys c + 16 * of_nat k) c'' = Some (None, c'')"
proof -
  have s: "ring_state n k (trb_ring.truncate c)" "length (command_queues c) = Suc n" "unat (segment_size c) = Suc n"
    using assms(1) by (auto simp: command_state_def)
  obtain r where r: "queue_trb command_valid_trb (Some t) (trb_ring.truncate c) = Some (True, Some k, Some (set_trb_cycle True t), r)"
    "ring_state n (Suc k) r" using queue_trb_room [OF s(1) assms(2), of command_valid_trb t] assms(3) valid_not_link(2) by blast
  have sel: "trb_ring_base_phys r = trb_ring_base_phys c" "segment_size r = segment_size c"
    using r(1) by (auto simp: queue_trb_def trb_ring.defs Let_def split: if_splits bind_splits)
  let ?c1 = "trb_ring.extend r \<lparr>command_queues = (command_queues c)[k := [x]]\<rparr>" and ?c2 = "trb_ring.extend r \<lparr>command_queues = command_queues c\<rparr>"
  have q: "queue_command x t c = Some (True, ?c1)"
    using r(1) s(2) assms(2,4) by (simp add: queue_command_def trb_ring.defs)
  have st: "command_state n (Suc k) ?c1" using r(2) s(2,3) sel(2) unfolding command_state_def truncate_extend by (simp add: trb_ring.defs)
  have upd: "(command_queues c)[k := []] = command_queues c" using assms(4) by (metis list_update_id)
  have a: "trb_ring_base_phys ?c1 = trb_ring_base_phys c" "trb_ring_base_phys ?c2 = trb_ring_base_phys c" "k \<le> unat (segment_size ?c1)" "k \<le> unat (segment_size ?c2)"
    using sel s(3) assms(2) by (simp_all add: trb_ring.defs)
  have "retrieve_command (trb_ring_base_phys c + 16 * of_nat k) ?c1 = Some (Some x, ?c2)"
    using position_of_address [OF a(3)] a(1) s(2) assms(2) upd by (simp add: retrieve_command_def Let_def trb_ring.defs)
  moreover have "retrieve_command (trb_ring_base_phys c + 16 * of_nat k) ?c2 = Some (None, ?c2)"
    using position_of_address [OF a(4)] a(2) s(2) assms(2,4) by (simp add: retrieve_command_def Let_def trb_ring.defs)
  moreover have "command_queues ?c2 = command_queues c" by (simp add: trb_ring.defs)
  ultimately show ?thesis using q st by blast
qed

theorem command_retrieved_witness:
  "\<exists>c c' c''. trb_command_ring 4 0x1000 = Some c \<and> queue_command 7 (no_op_cmd_populate False) c = Some (True, c') \<and>
     retrieve_command (trb_ring_base_phys c) c' = Some (Some 7, c'')"
proof -
  obtain c where c: "trb_command_ring 4 0x1000 = Some c" by (simp add: trb_command_ring_def trb_generic_ring_def)
  have q: "command_queues c ! 0 = []" using c by (auto simp: trb_command_ring_def trb_generic_ring_def trb_ring.defs)
  have s: "command_state 3 0 c" using new_command_state [OF c] by simp
  have v: "command_valid_trb (no_op_cmd_populate False)" by (simp add: command_valid_trb_def trb_types)
  show ?thesis using command_retrieved [OF s _ v q, of 7] c by auto
qed

text \<open>The check of the position lets through the number of entries itself, for which there is no queue.\<close>

theorem command_position_off_by_one:
  assumes "trb_command_ring m b = Some c"
  shows "retrieve_command (b + 16 * of_nat (unat m)) c = None"
proof -
  have c: "segment_size c = m" "length (command_queues c) = unat m" "trb_ring_base_phys c = b"
    using assms by (auto simp: trb_command_ring_def trb_generic_ring_def trb_ring.defs)
  define k where "k = unat m"
  show ?thesis
    using position_of_address [of k c] c unfolding k_def [symmetric] by (simp add: retrieve_command_def Let_def k_def [symmetric])
qed

subsection \<open>Events arrive in order\<close>

text \<open>
  What the controller has written and the driver has not read: from the dequeue pointer on, round the ring, the blocks have the cycle bit that the driver expects, the opposite one
  after the end of the ring; the first block that is not new has not.
\<close>

definition expected_cycle :: "event_ring \<Rightarrow> nat \<Rightarrow> bool" where
  "expected_cycle e k = (if dequeue_ptr e + k < length (er_trbs e) then consumer_cycle_state_bit e else \<not> consumer_cycle_state_bit e)"

definition holds_events :: "event_ring \<Rightarrow> template_trb list \<Rightarrow> bool" where
  "holds_events e q \<longleftrightarrow> (let n = length (er_trbs e) in
     n = unat (number_of_entries e) \<and> dequeue_ptr e < n \<and> length q \<le> n \<and>
     (\<forall>k < length q. er_trbs e ! ((dequeue_ptr e + k) mod n) = q ! k \<and> trb_cycle (q ! k) = expected_cycle e k) \<and>
     trb_cycle (er_trbs e ! ((dequeue_ptr e + length q) mod n)) \<noteq> expected_cycle e (length q))"

lemma holds_events_not_busy [simp]: "holds_events (set_handler_not_busy phys e) q = holds_events e q"
proof -
  have "expected_cycle (set_handler_not_busy phys e) = expected_cycle e" by (simp add: expected_cycle_def set_handler_not_busy_def fun_eq_iff)
  then show ?thesis unfolding holds_events_def by (simp add: set_handler_not_busy_def)
qed

lemma dequeue_event:
  assumes "holds_events e (t # q)"
  shows "\<exists>e'. dequeue_trb phys True e = Some (Some t, e') \<and> holds_events e' q \<and>
    (q = [] \<longrightarrow> erst_dequeue_ptr_phys e' = phys (dequeue_ptr e') OR 8) \<and> dequeue_ptr e' = Suc (dequeue_ptr e) mod length (er_trbs e)"
proof -
  let ?n = "length (er_trbs e)" and ?d = "dequeue_ptr e"
  have h: "?n = unat (number_of_entries e)" "?d < ?n" "Suc (length q) \<le> ?n"
    "\<And>k. k < Suc (length q) \<Longrightarrow> er_trbs e ! ((?d + k) mod ?n) = (t # q) ! k \<and> trb_cycle ((t # q) ! k) = expected_cycle e k"
    "trb_cycle (er_trbs e ! ((?d + Suc (length q)) mod ?n)) \<noteq> expected_cycle e (Suc (length q))"
    using assms by (auto simp: holds_events_def Let_def)
  define e1 where "e1 = (if Suc ?d \<ge> ?n then e\<lparr>dequeue_ptr := 0, consumer_cycle_state_bit := \<not> consumer_cycle_state_bit e\<rparr> else e\<lparr>dequeue_ptr := Suc ?d\<rparr>)"
  have t: "er_trbs e ! ?d = t" "trb_cycle t = consumer_cycle_state_bit e" using h(4) [of 0] h(2) by (simp_all add: expected_cycle_def)
  have e1: "er_trbs e1 = er_trbs e" "number_of_entries e1 = number_of_entries e" "dequeue_ptr e1 = Suc ?d mod ?n"
    using h(2) by (auto simp: e1_def mod_if)
  have ex: "expected_cycle e1 k = expected_cycle e (Suc k)" if "k < ?n" for k
    using h(2) that by (auto simp: expected_cycle_def e1_def)
  have md: "(dequeue_ptr e1 + k) mod ?n = (?d + Suc k) mod ?n" for k using h(2) by (simp add: e1(3) mod_simps)
  have "holds_events e1 q"
    unfolding holds_events_def Let_def e1
    using h(1,2,3) h(4) [of "Suc _"] h(5) ex md e1(3) by (auto simp: e1)
  moreover define e2 where "e2 = (if trb_cycle (er_trbs e1 ! dequeue_ptr e1) \<noteq> consumer_cycle_state_bit e1 then set_handler_not_busy phys e1 else e1)"
  moreover have "holds_events e1 q \<Longrightarrow> holds_events e2 q" by (simp add: e2_def)
  moreover have "dequeue_trb phys True e = Some (Some t, e2)"
    by (cases "Suc ?d \<ge> ?n") (use t h(1,2) in \<open>simp_all add: dequeue_trb_def Let_def e2_def e1_def\<close>)
  moreover have "q = [] \<Longrightarrow> erst_dequeue_ptr_phys e2 = phys (dequeue_ptr e2) OR 8"
    using \<open>holds_events e1 q\<close> by (auto simp: e2_def set_handler_not_busy_def holds_events_def Let_def expected_cycle_def)
  moreover have "dequeue_ptr e2 = Suc ?d mod ?n" using e1(3) by (simp add: e2_def set_handler_not_busy_def)
  ultimately show ?thesis by blast
qed

lemma dequeue_nothing:
  assumes "holds_events e []"
  shows "dequeue_trb phys True e = Some (None, set_handler_not_busy phys e)"
proof -
  have "dequeue_ptr e < length (er_trbs e)" "trb_cycle (er_trbs e ! dequeue_ptr e) \<noteq> consumer_cycle_state_bit e"
    using assms by (auto simp: holds_events_def Let_def expected_cycle_def)
  then show ?thesis by (simp add: dequeue_trb_def)
qed

text \<open>The loop of a handler that takes every event there is.\<close>

fun dequeue_all :: "nat \<Rightarrow> (nat \<Rightarrow> u64) \<Rightarrow> event_ring \<Rightarrow> (template_trb list \<times> event_ring) option" where
  "dequeue_all 0 phys e = None"
| "dequeue_all (Suc n) phys e = do {
     (t, e) \<leftarrow> dequeue_trb phys True e;
     (case t of
        None \<Rightarrow> Some ([], e)
      | Some t \<Rightarrow> do { (ts, e) \<leftarrow> dequeue_all n phys e; Some (t # ts, e) })
   }"

text \<open>
  C30. Events arrive in order. The driver reads from an event ring exactly the blocks that the controller has written since, in the order of writing and across the end of the ring; it stops at the first
  block that is not new, and tells the controller the address of that block.
\<close>

theorem events_in_order:
  assumes "holds_events e q"
  shows "\<exists>e'. dequeue_all (Suc (length q)) phys e = Some (q, e') \<and> holds_events e' [] \<and>
    dequeue_ptr e' = (dequeue_ptr e + length q) mod length (er_trbs e) \<and> erst_dequeue_ptr_phys e' = phys (dequeue_ptr e') OR 8"
  using assms
proof (induction q arbitrary: e)
  case Nil
  then have "dequeue_ptr e < length (er_trbs e)" by (simp add: holds_events_def Let_def)
  then show ?case using dequeue_nothing [OF Nil] Nil by (simp add: set_handler_not_busy_def [of phys e] del: holds_events_not_busy)
      (simp flip: set_handler_not_busy_def)
next
  case (Cons t q)
  obtain e1 where e1: "dequeue_trb phys True e = Some (Some t, e1)" "holds_events e1 q" "dequeue_ptr e1 = Suc (dequeue_ptr e) mod length (er_trbs e)"
    using dequeue_event [OF Cons.prems] by blast
  have l: "length (er_trbs e1) = length (er_trbs e)"
    using e1(1) by (auto simp: dequeue_trb_def Let_def set_handler_not_busy_def split: if_splits)
  obtain e' where e': "dequeue_all (Suc (length q)) phys e1 = Some (q, e')" "holds_events e' []"
    "dequeue_ptr e' = (dequeue_ptr e1 + length q) mod length (er_trbs e1)" "erst_dequeue_ptr_phys e' = phys (dequeue_ptr e') OR 8"
    using Cons.IH [OF e1(2)] by blast
  have "dequeue_ptr e' = (dequeue_ptr e + length (t # q)) mod length (er_trbs e)" using e'(3) e1(3) l by (simp add: mod_simps)
  moreover have "dequeue_all (Suc (length (t # q))) phys e = Some (t # q, e')" using e1(1) e'(1) by simp
  ultimately show ?case using e'(2,4) by blast
qed

text \<open>A ring of sixteen blocks in its second round: the driver is at the last block, and the controller has written it and two more.\<close>

definition sample_event_ring :: event_ring where
  "sample_event_ring = \<lparr>er_trbs = [no_op_cmd_populate False, no_op_cmd_populate False] @ replicate 13 (no_op_cmd_populate True) @ [no_op_cmd_populate True],
     dequeue_ptr = 15, consumer_cycle_state_bit = True, number_of_entries = 16, erst_dequeue_ptr_phys = 0\<rparr>"

lemma sample_event_ring_holds: "holds_events sample_event_ring [no_op_cmd_populate True, no_op_cmd_populate False, no_op_cmd_populate False]"
  by (auto simp: holds_events_def sample_event_ring_def Let_def expected_cycle_def nth_append less_Suc_eq numeral_3_eq_3)

theorem events_in_order_witness:
  "\<exists>e'. dequeue_all 4 (\<lambda>i. 0x1000 + 16 * of_nat i) sample_event_ring =
      Some ([no_op_cmd_populate True, no_op_cmd_populate False, no_op_cmd_populate False], e') \<and> dequeue_ptr e' = 2 \<and> erst_dequeue_ptr_phys e' = 0x1028"
proof -
  have l: "length (er_trbs sample_event_ring) = 16" "dequeue_ptr sample_event_ring = 15" by (simp_all add: sample_event_ring_def)
  let ?q = "[no_op_cmd_populate True, no_op_cmd_populate False, no_op_cmd_populate False]" and ?p = "\<lambda>i. 0x1000 + 16 * of_nat i :: u64"
  obtain e' where e': "dequeue_all (Suc (length ?q)) ?p sample_event_ring = Some (?q, e')" "dequeue_ptr e' = (15 + length ?q) mod 16"
    "erst_dequeue_ptr_phys e' = ?p (dequeue_ptr e') OR 8"
    using events_in_order [OF sample_event_ring_holds, of ?p] unfolding l by blast
  have n: "Suc (length ?q) = 4" "dequeue_ptr e' = 2" using e'(2) by simp_all
  have "erst_dequeue_ptr_phys e' = 0x1028" using e'(3) n(2) by simp
  then show ?thesis using e'(1) [unfolded n(1)] n(2) by blast
qed

end
