(* ===== verification/Hid_Parser.thy ===== *)
theory Hid_Parser
  imports Cpp_Lib "HOL-Library.Multiset"
begin

text \<open>
  The parser of the drivers for human interface devices: \<open>kernel/devices/usb/hid/hid_input_descriptor_parser.cpp\<close>, which turns the descriptor that a device sends into a list of fields, and
  \<open>hid_input_report_parser.cpp\<close>, which reads the fields out of a report. Undefined behaviour (a shift by the width of a number or more, the top of an empty stack, a read outside the buffer) is
  \<^const>\<open>None\<close> here, like a panic.
\<close>

subsection \<open>Data\<close>

datatype HID_FIELD_TYPES = INPUT | OUTPUT | FEATURE

record parser_global_state =
  usage_page :: u32
  logical_minimum :: u32
  logical_maximum :: u32
  physical_minimum :: u32
  physical_maximum :: u32
  unit_exponent :: u32
  unit_code :: u32
  report_size :: u32
  report_id :: u32
  report_count :: u32

record parser_local_state_field =
  ls_item :: u32
  item_min :: u32
  item_max :: u32
  is_min_max :: bool

record report_field_description =
  fd_byte_offset :: u8
  fd_bit_offset :: u8
  fd_num_bits :: u8
  fd_type :: HID_FIELD_TYPES
  fd_flags :: u16
  fd_usage :: u32
  fd_designator :: u32
  fd_string_idx :: u32
  fd_logical_min :: u32
  fd_logical_max :: u32
  fd_physical_min :: u32
  fd_physical_max :: u32
  fd_unit_exponent :: u32
  fd_unit :: u32

text \<open>
  A collection. The children are elements of the vector of their parent, and the parser keeps a pointer to the collection it is in; collections have numbers in one list here, the root the number
  0. Growing the vector of the current collection moves only collections that have been closed, so that the pointers the parser uses stay valid.
\<close>

record decoded_collection =
  dc_collection_type :: u8
  dc_report_fields :: "report_field_description list"
  dc_child_collections :: "nat list"
  dc_usage :: u32
  dc_designator :: u32
  dc_string_idx :: u32
  dc_parent_collection :: "nat option"

record current_parse_state =
  collections :: "decoded_collection list"
  current_collection :: "nat option"
  global_state_stack :: "parser_global_state list"
  ls_usage :: "parser_local_state_field list"
  ls_designator :: "parser_local_state_field list"
  ls_strings :: "parser_local_state_field list"
  has_had_delimiter :: bool
  all_input_fields :: "report_field_description list"
  all_output_fields :: "report_field_description list"
  all_feature_fields :: "report_field_description list"
  total_input_bit_offset :: u32
  total_output_bit_offset :: u32
  total_feature_bit_offset :: u32

definition new_global_state :: parser_global_state where
  "new_global_state = \<lparr>usage_page = 0, logical_minimum = 0, logical_maximum = 0, physical_minimum = 0, physical_maximum = 0, unit_exponent = 0, unit_code = 0,
     report_size = 0, report_id = 0, report_count = 0\<rparr>"

definition new_local_field :: parser_local_state_field where
  "new_local_field = \<lparr>ls_item = 0, item_min = 0, item_max = 0, is_min_max = False\<rparr>"

definition new_field_description :: "HID_FIELD_TYPES \<Rightarrow> report_field_description" where
  "new_field_description ty = \<lparr>fd_byte_offset = 0, fd_bit_offset = 0, fd_num_bits = 0, fd_type = ty, fd_flags = 0, fd_usage = 0, fd_designator = 0, fd_string_idx = 0,
     fd_logical_min = 0, fd_logical_max = 0, fd_physical_min = 0, fd_physical_max = 0, fd_unit_exponent = 0, fd_unit = 0\<rparr>"

definition parse_start :: "u8 \<Rightarrow> current_parse_state" where
  "parse_start junk = \<lparr>
     collections = [\<lparr>dc_collection_type = junk, dc_report_fields = [], dc_child_collections = [], dc_usage = 0, dc_designator = 0, dc_string_idx = 0, dc_parent_collection = None\<rparr>],
     current_collection = Some 0, global_state_stack = [new_global_state], ls_usage = [], ls_designator = [], ls_strings = [], has_had_delimiter = False,
     all_input_fields = [], all_output_fields = [], all_feature_fields = [], total_input_bit_offset = 0, total_output_bit_offset = 0, total_feature_bit_offset = 0\<rparr>"

subsection \<open>Local and global items\<close>

definition get_next_field_index_val :: "parser_local_state_field list \<Rightarrow> u32 \<times> parser_local_state_field list" where
  "get_next_field_index_val field_queue =
     (case field_queue of
        [] \<Rightarrow> (0, [])
      | field # rest \<Rightarrow>
          if is_min_max field then
            (let field' = field\<lparr>ls_item := ls_item field + 1\<rparr> in
             if ls_item field' > item_max field'
             then (ls_item field, if rest \<noteq> [] then rest else [field'\<lparr>ls_item := ls_item field' - 1\<rparr>])
             else (ls_item field, field' # rest))
          else (ls_item field, if rest \<noteq> [] then rest else [field]))"

definition ensure_min_max :: "parser_local_state_field list \<Rightarrow> parser_local_state_field list" where
  "ensure_min_max q = (if q = [] \<or> \<not> is_min_max (last q) then q @ [new_local_field\<lparr>is_min_max := True\<rparr>] else q)"

definition set_min :: "u32 \<Rightarrow> parser_local_state_field list \<Rightarrow> parser_local_state_field list" where
  "set_min d q = (let q = ensure_min_max q in butlast q @ [(last q)\<lparr>ls_item := d, item_min := d\<rparr>])"

definition set_max :: "u32 \<Rightarrow> parser_local_state_field list \<Rightarrow> parser_local_state_field list" where
  "set_max d q = (let q = ensure_min_max q in butlast q @ [(last q)\<lparr>item_max := d\<rparr>])"

definition stack_top :: "current_parse_state \<Rightarrow> parser_global_state option" where
  "stack_top p = (case global_state_stack p of [] \<Rightarrow> None | g # _ \<Rightarrow> Some g)"

definition set_top :: "(parser_global_state \<Rightarrow> parser_global_state) \<Rightarrow> current_parse_state \<Rightarrow> current_parse_state option" where
  "set_top f p = (case global_state_stack p of [] \<Rightarrow> None | g # gs \<Rightarrow> Some (p\<lparr>global_state_stack := f g # gs\<rparr>))"

definition tag_size :: "u8 \<Rightarrow> u8" where
  "tag_size raw = raw AND 3"

definition tag_type :: "u8 \<Rightarrow> u8" where
  "tag_type raw = drop_bit 2 raw AND 3"

definition tag_tag :: "u8 \<Rightarrow> u8" where
  "tag_tag raw = drop_bit 4 raw"

definition handle_local_item :: "u8 \<Rightarrow> u32 \<Rightarrow> u8 \<Rightarrow> current_parse_state \<Rightarrow> (bool \<times> current_parse_state) option" where
  "handle_local_item tag item_data data_length p =
     (if has_had_delimiter p then Some (True, p)
      else do {
        d \<leftarrow> (if (tag = 0 \<or> tag = 1 \<or> tag = 2) \<and> data_length < 4
               then do { g \<leftarrow> stack_top p; Some (item_data OR push_bit 16 (usage_page g)) } else Some item_data);
        Some
          (if tag = 0 then (True, p\<lparr>ls_usage := ls_usage p @ [new_local_field\<lparr>ls_item := d\<rparr>]\<rparr>)
           else if tag = 1 then (True, p\<lparr>ls_usage := set_min d (ls_usage p)\<rparr>)
           else if tag = 2 then (True, p\<lparr>ls_usage := set_max d (ls_usage p)\<rparr>)
           else if tag = 3 then (True, p\<lparr>ls_designator := ls_designator p @ [new_local_field\<lparr>ls_item := d\<rparr>]\<rparr>)
           else if tag = 4 then (True, p\<lparr>ls_designator := set_min d (ls_designator p)\<rparr>)
           else if tag = 5 then (True, p\<lparr>ls_designator := set_max d (ls_designator p)\<rparr>)
           else if tag = 7 then (True, p\<lparr>ls_strings := ls_strings p @ [new_local_field\<lparr>ls_item := d\<rparr>]\<rparr>)
           else if tag = 8 then (True, p\<lparr>ls_strings := set_min d (ls_strings p)\<rparr>)
           else if tag = 9 then (True, p\<lparr>ls_strings := set_max d (ls_strings p)\<rparr>)
           else if tag = 10 then (True, p\<lparr>has_had_delimiter := True\<rparr>)
           else (False, p))
      })"

definition sign_extend :: "u32 \<Rightarrow> u8 \<Rightarrow> u32" where
  "sign_extend item_data data_length =
     (if data_length = 1 \<and> item_data AND 0x80 \<noteq> 0 then 0xFFFFFF00 OR item_data
      else if data_length = 2 \<and> item_data AND 0x8000 \<noteq> 0 then 0xFFFF0000 OR item_data
      else item_data)"

definition handle_global_item :: "u8 \<Rightarrow> u32 \<Rightarrow> u8 \<Rightarrow> current_parse_state \<Rightarrow> (bool \<times> current_parse_state) option" where
  "handle_global_item tag item_data data_length p =
     (let signed_data = sign_extend item_data data_length; set = (\<lambda>f. map_option (Pair True) (set_top f p)) in
      if tag = 0 then set (\<lambda>g. g\<lparr>usage_page := item_data\<rparr>)
      else if tag = 1 then set (\<lambda>g. g\<lparr>logical_minimum := signed_data\<rparr>)
      else if tag = 2 then set (\<lambda>g. g\<lparr>logical_maximum := signed_data\<rparr>)
      else if tag = 3 then set (\<lambda>g. g\<lparr>physical_minimum := signed_data\<rparr>)
      else if tag = 4 then set (\<lambda>g. g\<lparr>physical_maximum := signed_data\<rparr>)
      else if tag = 5 then set (\<lambda>g. g\<lparr>unit_exponent := item_data\<rparr>)
      else if tag = 6 then set (\<lambda>g. g\<lparr>unit_code := item_data\<rparr>)
      else if tag = 7 then set (\<lambda>g. g\<lparr>report_size := item_data\<rparr>)
      else if tag = 8 then map_option (Pair False) (set_top (\<lambda>g. g\<lparr>report_id := item_data\<rparr>) p)
      else if tag = 9 then set (\<lambda>g. g\<lparr>report_count := item_data\<rparr>)
      else if tag = 10 then Some (True, p\<lparr>global_state_stack := new_global_state # global_state_stack p\<rparr>)
      else if tag = 11 then
        (case global_state_stack p of [] \<Rightarrow> None | _ # gs \<Rightarrow> Some (gs \<noteq> [], p\<lparr>global_state_stack := gs\<rparr>))
      else Some (False, p))"

subsection \<open>Main items\<close>

definition add_to_collection :: "nat \<Rightarrow> report_field_description \<Rightarrow> current_parse_state \<Rightarrow> current_parse_state" where
  "add_to_collection c f p = p\<lparr>collections := (collections p)[c := (collections p ! c)\<lparr>dc_report_fields := dc_report_fields (collections p ! c) @ [f]\<rparr>]\<rparr>"

definition place_field :: "u32 \<Rightarrow> report_field_description \<Rightarrow> report_field_description" where
  "place_field bits f = f\<lparr>fd_bit_offset := ucast (bits mod 8), fd_byte_offset := ucast (bits div 8)\<rparr>"

text \<open>One round of the loop of \<open>add_new_field\<close>: the values for the field, then its place in the report and in the lists of fields.\<close>

definition take_usage :: "report_field_description \<Rightarrow> current_parse_state \<Rightarrow> (report_field_description \<times> current_parse_state) option" where
  "take_usage f p =
     (if bit (fd_flags f) 0 then Some (f, p)
      else if bit (fd_flags f) 1 then
        Some (f\<lparr>fd_usage := fst (get_next_field_index_val (ls_usage p))\<rparr>, p\<lparr>ls_usage := snd (get_next_field_index_val (ls_usage p))\<rparr>)
      else (case ls_usage p of [] \<Rightarrow> None | u # _ \<Rightarrow> Some (f\<lparr>fd_usage := item_min u\<rparr>, p)))"

definition describe_field :: "parser_global_state \<Rightarrow> report_field_description \<Rightarrow> current_parse_state \<Rightarrow> report_field_description \<times> current_parse_state" where
  "describe_field g f p =
     (let d = get_next_field_index_val (ls_designator p); s = get_next_field_index_val (ls_strings p) in
      (f\<lparr>fd_designator := fst d, fd_string_idx := fst s, fd_logical_min := logical_minimum g, fd_logical_max := logical_maximum g,
         fd_physical_min := physical_minimum g, fd_physical_max := physical_minimum g, fd_unit_exponent := unit_exponent g, fd_unit := unit_code g\<rparr>,
       p\<lparr>ls_designator := snd d, ls_strings := snd s\<rparr>))"

definition store_field :: "nat \<Rightarrow> report_field_description \<Rightarrow> current_parse_state \<Rightarrow> report_field_description \<times> current_parse_state" where
  "store_field c f p =
     (case fd_type f of
        INPUT \<Rightarrow> (let f = place_field (total_input_bit_offset p) f in
          (f, add_to_collection c f (p\<lparr>total_input_bit_offset := total_input_bit_offset p + ucast (fd_num_bits f), all_input_fields := all_input_fields p @ [f]\<rparr>)))
      | OUTPUT \<Rightarrow> (let f = place_field (total_output_bit_offset p) f in
          (f, add_to_collection c f (p\<lparr>total_output_bit_offset := total_output_bit_offset p + ucast (fd_num_bits f), all_output_fields := all_output_fields p @ [f]\<rparr>)))
      | FEATURE \<Rightarrow> (let f = place_field (total_feature_bit_offset p) f in
          (f, add_to_collection c f (p\<lparr>total_feature_bit_offset := total_feature_bit_offset p + ucast (fd_num_bits f), all_feature_fields := all_feature_fields p @ [f]\<rparr>))))"

definition add_one_field :: "report_field_description \<Rightarrow> current_parse_state \<Rightarrow> (report_field_description \<times> current_parse_state) option" where
  "add_one_field f p = do {
     g \<leftarrow> stack_top p;
     c \<leftarrow> current_collection p;
     (f, p) \<leftarrow> take_usage f p;
     let (f, p) = describe_field g f p;
     Some (store_field c f p)
   }"

fun add_fields :: "nat \<Rightarrow> report_field_description \<Rightarrow> current_parse_state \<Rightarrow> current_parse_state option" where
  "add_fields 0 f p = Some p"
| "add_fields (Suc n) f p = do { (f, p) \<leftarrow> add_one_field f p; add_fields n f p }"

definition add_new_field :: "HID_FIELD_TYPES \<Rightarrow> u32 \<Rightarrow> current_parse_state \<Rightarrow> (bool \<times> current_parse_state) option" where
  "add_new_field ty item_data p = do {
     g \<leftarrow> stack_top p;
     p \<leftarrow> add_fields (unat (report_count g)) ((new_field_description ty)\<lparr>fd_flags := ucast item_data, fd_num_bits := ucast (report_size g)\<rparr>) p;
     Some (True, p)
   }"

definition open_collection :: "u32 \<Rightarrow> nat \<Rightarrow> current_parse_state \<Rightarrow> current_parse_state" where
  "open_collection item_data c p =
     (let (u, uq) = get_next_field_index_val (ls_usage p);
          (d, dq) = get_next_field_index_val (ls_designator p);
          (s, sq) = get_next_field_index_val (ls_strings p);
          n = length (collections p);
          new_collection = \<lparr>dc_collection_type = ucast item_data, dc_report_fields = [], dc_child_collections = [], dc_usage = u, dc_designator = d, dc_string_idx = s,
            dc_parent_collection = Some c\<rparr>
      in p\<lparr>ls_usage := uq, ls_designator := dq, ls_strings := sq,
           collections := (collections p)[c := (collections p ! c)\<lparr>dc_child_collections := dc_child_collections (collections p ! c) @ [n]\<rparr>] @ [new_collection],
           current_collection := Some n\<rparr>)"

definition close_collection :: "nat \<Rightarrow> current_parse_state \<Rightarrow> current_parse_state" where
  "close_collection c p =
     (case dc_parent_collection (collections p ! c) of
        Some q \<Rightarrow> p\<lparr>collections := (collections p)[q := (collections p ! q)\<lparr>dc_parent_collection := None\<rparr>], current_collection := Some q\<rparr>
      | None \<Rightarrow> p\<lparr>current_collection := None\<rparr>)"

definition reset_local_state :: "current_parse_state \<Rightarrow> current_parse_state" where
  "reset_local_state p = p\<lparr>ls_usage := [], ls_designator := [], ls_strings := [], has_had_delimiter := False\<rparr>"

definition handle_main_item :: "u8 \<Rightarrow> u32 \<Rightarrow> current_parse_state \<Rightarrow> (bool \<times> current_parse_state) option" where
  "handle_main_item tag item_data p = do {
     c \<leftarrow> current_collection p;
     (result, p) \<leftarrow>
       (if tag = 8 then add_new_field INPUT item_data p
        else if tag = 9 then add_new_field OUTPUT item_data p
        else if tag = 10 then Some (True, open_collection item_data c p)
        else if tag = 11 then add_new_field FEATURE item_data p
        else if tag = 12 then Some (True, close_collection c p)
        else Some (False, p));
     Some (result, reset_local_state p)
   }"

definition handle_item :: "u8 \<Rightarrow> u32 \<Rightarrow> u8 \<Rightarrow> current_parse_state \<Rightarrow> (bool \<times> current_parse_state) option" where
  "handle_item raw item_data data_length p = do {
     ASSERT (data_length \<le> 4);
     ASSERT (current_collection p \<noteq> None);
     if tag_type raw = 0 then handle_main_item (tag_tag raw) item_data p
     else if tag_type raw = 1 then handle_global_item (tag_tag raw) item_data data_length p
     else if tag_type raw = 2 then handle_local_item (tag_tag raw) item_data data_length p
     else Some (False, p)
   }"

subsection \<open>The loops\<close>

definition item_length :: "u8 \<Rightarrow> u8" where
  "item_length raw = (if tag_size raw = 3 then 4 else tag_size raw)"

definition load_u32 :: "u8 list \<Rightarrow> nat \<Rightarrow> u32 option" where
  "load_u32 raw i =
     (if i + 4 \<le> length raw
      then Some (ucast (raw ! i) OR push_bit 8 (ucast (raw ! (i + 1))) OR push_bit 16 (ucast (raw ! (i + 2))) OR push_bit 24 (ucast (raw ! (i + 3)))) else None)"

text \<open>The mask for an item of four bytes needs a shift by 32, which is undefined for a number of 32 bits.\<close>

definition data_mask :: "u8 \<Rightarrow> u32 option" where
  "data_mask data_length = (if data_length < 4 then Some (NOT (push_bit (unat data_length * 8) (NOT 0))) else None)"

function parse_items :: "u8 list \<Rightarrow> u32 \<Rightarrow> nat \<Rightarrow> u16 \<Rightarrow> bool \<Rightarrow> current_parse_state \<Rightarrow> (bool \<times> current_parse_state) option" where
  "parse_items raw descriptor_length raw_ptr offset result parser =
     (if ucast offset < descriptor_length then
        if raw_ptr < length raw then
          (let tag = raw ! raw_ptr; data_length = item_length tag in
           if tag = 0xFE then None
           else do {
             data_buffer \<leftarrow> load_u32 raw (raw_ptr + 1);
             mask \<leftarrow> data_mask data_length;
             (ok, parser) \<leftarrow> handle_item tag (data_buffer AND mask) data_length parser;
             parse_items raw descriptor_length (raw_ptr + 1 + unat data_length) (offset + (1 + ucast data_length)) (result \<and> ok) parser
           })
        else None
      else Some (result, parser))"
  by pat_completeness auto
termination
  by (relation "measure (\<lambda>(raw, _, raw_ptr, _). length raw - raw_ptr)") auto

declare parse_items.simps [simp del]

record decoded_descriptor =
  dd_collections :: "decoded_collection list"
  input_fields :: "report_field_description list"
  output_fields :: "report_field_description list"
  feature_fields :: "report_field_description list"

definition parse_descriptor :: "u8 \<Rightarrow> u8 list \<Rightarrow> u32 \<Rightarrow> (bool \<times> decoded_descriptor) option" where
  "parse_descriptor junk raw_descriptor descriptor_length = do {
     (result, p) \<leftarrow> parse_items raw_descriptor descriptor_length 0 0 True (parse_start junk);
     Some (result, \<lparr>dd_collections = collections p, input_fields = all_input_fields p, output_fields = all_output_fields p, feature_fields = all_feature_fields p\<rparr>)
   }"

text \<open>Reading the bits of a field, and the sign of a negative value. The mask for the sign is computed with \<open>int\<close> numbers of 32 bits and then extended to 64 bits with its sign.\<close>

function read_bits :: "u8 list \<Rightarrow> u8 \<Rightarrow> u8 \<Rightarrow> u8 \<Rightarrow> u64 \<Rightarrow> u64 option" where
  "read_bits report num_bits_to_go cur_offset bit_offset output =
     (if num_bits_to_go > 0 then
        (let bits_this_byte = (if unat num_bits_to_go + unat bit_offset > 8 then 8 - bit_offset else num_bits_to_go) in
         if bits_this_byte \<le> num_bits_to_go \<and> bits_this_byte < 32 \<and> bit_offset < 64 \<and> unat cur_offset < length report then
           (let bit_mask = push_bit (unat bit_offset) (push_bit (unat bits_this_byte) 1 - 1) :: u64;
                extracted_part = drop_bit (unat bit_offset) ((report ! unat cur_offset) AND ucast bit_mask)
            in read_bits report (num_bits_to_go - bits_this_byte) (cur_offset + 1) 0 (push_bit (unat bits_this_byte) output OR ucast extracted_part))
         else None)
      else Some output)"
  by pat_completeness auto
termination
proof (relation "measures [\<lambda>(_, n, _, _, _). unat n, \<lambda>(_, _, _, b, _). unat b]", goal_cases)
  case (2 report n co bo out b)
  have "0 < unat b \<or> 0 < unat bo" using 2(1,2) by (cases "bo = 0") (auto simp: word_less_nat_alt unat_gt_0 split: if_splits)
  then show ?case using 2(1,3) by (auto simp: word_less_nat_alt word_le_nat_alt unat_sub_if')
qed simp

declare read_bits.simps [simp del]

definition sign_mask :: "u8 \<Rightarrow> u64 option" where
  "sign_mask num_bits = (if 0 < num_bits \<and> num_bits \<le> 32 then Some (scast (push_bit (unat num_bits - 1) 1 :: u32)) else None)"

definition extend_sign :: "report_field_description \<Rightarrow> u64 \<Rightarrow> u64 option" where
  "extend_sign field output =
     (if sint (fd_logical_min field) < 0 then do {
        bit_mask \<leftarrow> sign_mask (fd_num_bits field);
        Some (if output AND bit_mask \<noteq> 0 then output OR NOT (push_bit 1 bit_mask - 1) else output)
      } else Some output)"

definition parse_field :: "u8 list \<Rightarrow> report_field_description \<Rightarrow> u64 option" where
  "parse_field report field = do {
     output \<leftarrow> read_bits report (fd_num_bits field) (fd_byte_offset field) (fd_bit_offset field) 0;
     extend_sign field output
   }"

text \<open>The report parser fills the array from its start and leaves the rest; it stops at the end of the array or of the fields.\<close>

fun parse_fields :: "u8 list \<Rightarrow> u16 \<Rightarrow> nat \<Rightarrow> report_field_description list \<Rightarrow> u64 list \<Rightarrow> u64 list option" where
  "parse_fields report num_output_fields iters [] decode_array = Some decode_array"
| "parse_fields report num_output_fields iters (field # rest) decode_array =
     (if iters \<ge> unat num_output_fields then Some decode_array
      else do {
        output \<leftarrow> parse_field report field;
        ASSERT (iters < length decode_array);
        parse_fields report num_output_fields (iters + 1) rest (decode_array[iters := output])
      })"

definition parse_report :: "decoded_descriptor \<Rightarrow> u8 list option \<Rightarrow> u32 \<Rightarrow> u64 list option \<Rightarrow> u16 \<Rightarrow> (bool \<times> u64 list option) option" where
  "parse_report descriptor report report_length decode_array num_output_fields =
     (case (report, decode_array) of
        (Some r, Some out) \<Rightarrow> do {
          out \<leftarrow> parse_fields r num_output_fields 0 (input_fields descriptor) out;
          Some (True, Some out)
        }
      | _ \<Rightarrow> Some (False, decode_array))"


subsection \<open>What a descriptor becomes\<close>

definition field_bits :: "report_field_description list \<Rightarrow> nat" where
  "field_bits fs = sum_list (map (\<lambda>f. unat (fd_num_bits f)) fs)"

fun laid_out :: "nat \<Rightarrow> report_field_description list \<Rightarrow> bool" where
  "laid_out pos [] \<longleftrightarrow> True"
| "laid_out pos (f # fs) \<longleftrightarrow> fd_byte_offset f = of_nat (pos div 8) \<and> fd_bit_offset f = of_nat (pos mod 8) \<and> laid_out (pos + unat (fd_num_bits f)) fs"

lemma field_bits_simps [simp]: "field_bits [] = 0" "field_bits (f # fs) = unat (fd_num_bits f) + field_bits fs" "field_bits (fs @ gs) = field_bits fs + field_bits gs"
  by (simp_all add: field_bits_def)

lemma laid_out_snoc: "laid_out pos (fs @ [f]) \<longleftrightarrow> laid_out pos fs \<and>
    fd_byte_offset f = of_nat ((pos + field_bits fs) div 8) \<and> fd_bit_offset f = of_nat ((pos + field_bits fs) mod 8)"
  by (induction fs arbitrary: pos) (simp_all add: ac_simps)

lemma laid_out_nth: "laid_out pos fs \<Longrightarrow> i < length fs \<Longrightarrow>
    fd_byte_offset (fs ! i) = of_nat ((pos + field_bits (take i fs)) div 8) \<and> fd_bit_offset (fs ! i) = of_nat ((pos + field_bits (take i fs)) mod 8)"
proof (induction fs arbitrary: pos i)
  case (Cons f fs)
  then show ?case by (cases i) (auto simp: ac_simps)
qed simp

lemma place_offsets:
  "fd_byte_offset (place_field (of_nat n) f) = of_nat (n div 8)" "fd_bit_offset (place_field (of_nat n) f) = of_nat (n mod 8)"
  "fd_num_bits (place_field b f) = fd_num_bits f"
proof -
  have "(n mod 4294967296) div 8 = n div 8 mod 536870912" using mod_mult2_eq [of n 8 536870912] by simp
  then have m: "(n mod 4294967296) div 8 mod 256 = n div 8 mod 256" "n mod 4294967296 mod 8 = n mod 8"
    by (simp_all add: mod_mod_cancel)
  show "fd_byte_offset (place_field (of_nat n) f) = of_nat (n div 8)"
    by (rule word_unat_eq_iff [THEN iffD2]) (simp add: place_field_def unsigned_ucast_eq take_bit_eq_mod unat_div unat_of_nat m)
  show "fd_bit_offset (place_field (of_nat n) f) = of_nat (n mod 8)"
    by (rule word_unat_eq_iff [THEN iffD2]) (simp add: place_field_def unsigned_ucast_eq take_bit_eq_mod unat_mod unat_of_nat m)
qed (simp add: place_field_def)


text \<open>
  The invariant of the parser. The collections form a tree: children come after their parents in the list. The fields of each kind lie one after another in the report, and each field belongs to exactly one
  collection.
\<close>

definition node_ok :: "nat \<Rightarrow> nat \<Rightarrow> decoded_collection \<Rightarrow> bool" where
  "node_ok n i c \<longleftrightarrow> (\<forall>q. dc_parent_collection c = Some q \<longrightarrow> q < i) \<and> (\<forall>j \<in> set (dc_child_collections c). i < j \<and> j < n)"

definition tree_ok :: "decoded_collection list \<Rightarrow> bool" where
  "tree_ok cs \<longleftrightarrow> cs \<noteq> [] \<and> (\<forall>i < length cs. node_ok (length cs) i (cs ! i))"

definition collection_fields :: "decoded_collection list \<Rightarrow> report_field_description multiset" where
  "collection_fields cs = \<Sum>\<^sub># (mset (map (mset \<circ> dc_report_fields) cs))"

definition parse_inv :: "current_parse_state \<Rightarrow> bool" where
  "parse_inv p \<longleftrightarrow> tree_ok (collections p) \<and> (\<forall>c. current_collection p = Some c \<longrightarrow> c < length (collections p)) \<and>
     laid_out 0 (all_input_fields p) \<and> total_input_bit_offset p = of_nat (field_bits (all_input_fields p)) \<and>
     laid_out 0 (all_output_fields p) \<and> total_output_bit_offset p = of_nat (field_bits (all_output_fields p)) \<and>
     laid_out 0 (all_feature_fields p) \<and> total_feature_bit_offset p = of_nat (field_bits (all_feature_fields p)) \<and>
     collection_fields (collections p) = mset (all_input_fields p) + mset (all_output_fields p) + mset (all_feature_fields p)"

definition same_core :: "current_parse_state \<Rightarrow> current_parse_state \<Rightarrow> bool" where
  "same_core p p' \<longleftrightarrow> collections p' = collections p \<and> current_collection p' = current_collection p \<and>
     all_input_fields p' = all_input_fields p \<and> all_output_fields p' = all_output_fields p \<and> all_feature_fields p' = all_feature_fields p \<and>
     total_input_bit_offset p' = total_input_bit_offset p \<and> total_output_bit_offset p' = total_output_bit_offset p \<and>
     total_feature_bit_offset p' = total_feature_bit_offset p"

lemma same_core_inv: "same_core p p' \<Longrightarrow> parse_inv p \<Longrightarrow> parse_inv p'"
  by (simp add: same_core_def parse_inv_def)

lemma set_top_core: "set_top f p = Some p' \<Longrightarrow> same_core p p'"
  by (auto simp: set_top_def same_core_def split: list.splits)

lemma handle_local_core: "handle_local_item tag d l p = Some (r, p') \<Longrightarrow> same_core p p'"
  by (auto simp: handle_local_item_def same_core_def split: if_splits)

lemma handle_global_core: "handle_global_item tag d l p = Some (r, p') \<Longrightarrow> same_core p p'"
  by (auto simp: handle_global_item_def Let_def dest: set_top_core split: if_splits list.splits) (auto simp: same_core_def)

lemma reset_core: "same_core p (reset_local_state p)"
  by (simp add: same_core_def reset_local_state_def)

lemma collection_fields_update:
  "c < length cs \<Longrightarrow> collection_fields (cs[c := (cs ! c)\<lparr>dc_report_fields := dc_report_fields (cs ! c) @ fs\<rparr>]) = collection_fields cs + mset fs"
proof (induction cs arbitrary: c)
  case (Cons a cs)
  then show ?case by (cases c) (auto simp: collection_fields_def)
qed simp

lemma collection_fields_same: "dc_report_fields x = dc_report_fields (cs ! c) \<Longrightarrow> collection_fields (cs[c := x]) = collection_fields cs"
proof (induction cs arbitrary: c)
  case (Cons a cs)
  then show ?case by (cases c) (auto simp: collection_fields_def)
qed simp

lemma collection_fields_snoc: "collection_fields (cs @ [x]) = collection_fields cs + mset (dc_report_fields x)"
  by (simp add: collection_fields_def)

lemma tree_ok_update: "tree_ok cs \<Longrightarrow> (c < length cs \<Longrightarrow> node_ok (length cs) c x) \<Longrightarrow> tree_ok (cs[c := x])"
  by (cases "c < length cs") (auto simp: tree_ok_def nth_list_update)

lemma node_ok_mono: "node_ok n i c \<Longrightarrow> n \<le> m \<Longrightarrow> node_ok m i c"
  by (fastforce simp: node_ok_def)

lemma node_ok_sel:
  "node_ok n i (c\<lparr>dc_report_fields := fs\<rparr>) = node_ok n i c" "node_ok n i c \<Longrightarrow> node_ok n i (c\<lparr>dc_parent_collection := None\<rparr>)"
  "node_ok n i c \<Longrightarrow> i < j \<Longrightarrow> j < n \<Longrightarrow> node_ok n i (c\<lparr>dc_child_collections := dc_child_collections c @ [j]\<rparr>)"
  by (auto simp: node_ok_def)

lemma tree_ok_nth: "tree_ok cs \<Longrightarrow> c < length cs \<Longrightarrow> node_ok (length cs) c (cs ! c)"
  by (simp add: tree_ok_def)

lemma add_to_collection_inv_parts:
  "tree_ok (collections p) \<Longrightarrow> tree_ok (collections (add_to_collection c f p))"
  "length (collections (add_to_collection c f p)) = length (collections p)"
  "c < length (collections p) \<Longrightarrow> collection_fields (collections (add_to_collection c f p)) = collection_fields (collections p) + {#f#}"
  using collection_fields_update [of c "collections p" "[f]"]
  by (simp_all add: add_to_collection_def tree_ok_update node_ok_sel tree_ok_nth)

lemma add_to_collection_sel [simp]:
  "current_collection (add_to_collection c f p) = current_collection p" "all_input_fields (add_to_collection c f p) = all_input_fields p"
  "all_output_fields (add_to_collection c f p) = all_output_fields p" "all_feature_fields (add_to_collection c f p) = all_feature_fields p"
  "total_input_bit_offset (add_to_collection c f p) = total_input_bit_offset p" "total_output_bit_offset (add_to_collection c f p) = total_output_bit_offset p"
  "total_feature_bit_offset (add_to_collection c f p) = total_feature_bit_offset p"
  by (simp_all add: add_to_collection_def)

lemma take_usage_core: "take_usage f p = Some (f', p') \<Longrightarrow> same_core p p'"
  by (auto simp: take_usage_def same_core_def split: if_splits list.splits)

lemma describe_core: "same_core p (snd (describe_field g f p))"
  by (simp add: describe_field_def same_core_def Let_def)

lemma store_field_inv: "parse_inv p \<Longrightarrow> c < length (collections p) \<Longrightarrow> parse_inv (snd (store_field c f p))"
  by (cases "fd_type f")
    (auto simp: parse_inv_def store_field_def Let_def add_to_collection_inv_parts laid_out_snoc place_offsets)

lemma add_one_field_inv:
  assumes "parse_inv p" and "add_one_field f p = Some (f', p')"
  shows "parse_inv p'"
proof -
  obtain g c f1 p1 where s: "current_collection p = Some c" "take_usage f p = Some (f1, p1)"
    "store_field c (fst (describe_field g f1 p1)) (snd (describe_field g f1 p1)) = (f', p')"
    using assms(2) by (auto simp: add_one_field_def Let_def case_prod_beta)
  have c: "same_core p (snd (describe_field g f1 p1))" using take_usage_core [OF s(2)] describe_core [of p1 g f1] by (simp add: same_core_def)
  have "c < length (collections p)" using assms(1) s(1) by (simp add: parse_inv_def)
  then show ?thesis using store_field_inv [OF same_core_inv [OF c assms(1)], of c "fst (describe_field g f1 p1)"] c s(3) by (simp add: same_core_def)
qed

lemma add_fields_inv: "parse_inv p \<Longrightarrow> add_fields n f p = Some p' \<Longrightarrow> parse_inv p'"
  by (induction n f p rule: add_fields.induct) (auto dest: add_one_field_inv)

lemma open_collection_inv:
  assumes "parse_inv p" and "c < length (collections p)"
  shows "parse_inv (open_collection d c p)"
proof -
  let ?cs = "collections p"
  have t: "tree_ok ?cs" using assms(1) by (simp add: parse_inv_def)
  have "tree_ok (?cs[c := (?cs ! c)\<lparr>dc_child_collections := dc_child_collections (?cs ! c) @ [length ?cs]\<rparr>] @ [x])"
    if "dc_parent_collection x = Some c" "dc_child_collections x = []" for x
    unfolding tree_ok_def
  proof (intro conjI allI impI)
    fix i
    assume i: "i < length (?cs[c := (?cs ! c)\<lparr>dc_child_collections := dc_child_collections (?cs ! c) @ [length ?cs]\<rparr>] @ [x])"
    have "node_ok (Suc (length ?cs)) j (?cs ! j)" if "j < length ?cs" for j using tree_ok_nth [OF t that] by (rule node_ok_mono) simp
    moreover have "node_ok (Suc (length ?cs)) (length ?cs) x" using that assms(2) by (simp add: node_ok_def)
    ultimately show "node_ok (length (?cs[c := (?cs ! c)\<lparr>dc_child_collections := dc_child_collections (?cs ! c) @ [length ?cs]\<rparr>] @ [x])) i
        ((?cs[c := (?cs ! c)\<lparr>dc_child_collections := dc_child_collections (?cs ! c) @ [length ?cs]\<rparr>] @ [x]) ! i)"
      using i assms(2) by (cases "i = length ?cs") (simp_all add: nth_append nth_list_update node_ok_sel)
  qed simp
  then show ?thesis using assms
    by (auto simp: parse_inv_def open_collection_def Let_def collection_fields_snoc collection_fields_same split: prod.split)
qed

lemma close_collection_inv:
  assumes "parse_inv p" and "c < length (collections p)"
  shows "parse_inv (close_collection c p)"
proof (cases "dc_parent_collection (collections p ! c)")
  case None
  then show ?thesis using assms by (simp add: parse_inv_def close_collection_def)
next
  case (Some q)
  have t: "tree_ok (collections p)" using assms(1) by (simp add: parse_inv_def)
  then have "q < length (collections p)" using Some assms(2) tree_ok_nth [of "collections p" c] by (simp add: node_ok_def)
  then show ?thesis using Some assms(1) t
    by (simp add: parse_inv_def close_collection_def collection_fields_same tree_ok_update node_ok_sel tree_ok_nth)
qed

lemma handle_main_inv:
  assumes "parse_inv p" and "handle_main_item tag d p = Some (r, p')"
  shows "parse_inv p'"
proof -
  obtain c p1 where s: "current_collection p = Some c" "p' = reset_local_state p1"
    and m: "(if tag = 8 then add_new_field INPUT d p
        else if tag = 9 then add_new_field OUTPUT d p
        else if tag = 10 then Some (True, open_collection d c p)
        else if tag = 11 then add_new_field FEATURE d p
        else if tag = 12 then Some (True, close_collection c p)
        else Some (False, p)) = Some (r, p1)"
    using assms(2) by (auto simp: handle_main_item_def)
  have "c < length (collections p)" using assms(1) s(1) by (simp add: parse_inv_def)
  moreover have "parse_inv p2" if "add_new_field ty d p = Some (r, p2)" for ty p2 using that assms(1) by (auto simp: add_new_field_def dest: add_fields_inv)
  ultimately have "parse_inv p1" using m assms(1) by (auto intro: open_collection_inv close_collection_inv split: if_splits)
  then show ?thesis using same_core_inv [OF reset_core] s(2) by simp
qed

lemma handle_item_inv: "parse_inv p \<Longrightarrow> handle_item raw d l p = Some (r, p') \<Longrightarrow> parse_inv p'"
  by (auto simp: handle_item_def split: if_splits dest: handle_main_inv handle_local_core handle_global_core same_core_inv)

lemma parse_items_inv: "parse_items raw len i ofs ok p = Some (r, p') \<Longrightarrow> parse_inv p \<Longrightarrow> parse_inv p'"
proof (induction raw len i ofs ok p arbitrary: r p' rule: parse_items.induct)
  case (1 raw len i ofs ok p)
  show ?case using "1.prems" by (subst (asm) parse_items.simps) (auto simp: Let_def split: if_splits dest: handle_item_inv intro: "1.IH")
qed

lemma parse_start_inv: "parse_inv (parse_start junk)"
  by (simp add: parse_inv_def parse_start_def tree_ok_def node_ok_def collection_fields_def)



subsection \<open>What a report says\<close>

definition report_bit :: "u8 list \<Rightarrow> nat \<Rightarrow> bool" where
  "report_bit r k = bit (r ! (k div 8)) (k mod 8)"

text \<open>The value of a field as the HID specification has it: the bits of the report from a position on, the first one the least significant.\<close>

definition hid_value :: "u8 list \<Rightarrow> nat \<Rightarrow> nat \<Rightarrow> u64" where
  "hid_value r pos n = horner_sum of_bool 2 (map (\<lambda>i. report_bit r (pos + i)) [0 ..< n])"

definition field_value :: "u8 list \<Rightarrow> nat \<Rightarrow> report_field_description \<Rightarrow> u64" where
  "field_value r pos f =
     (let v = hid_value r pos (unat (fd_num_bits f)) in
      if sint (fd_logical_min f) < 0 then signed_take_bit (unat (fd_num_bits f) - 1) v else v)"

lemma bit_hid_value: "bit (hid_value r pos n) i \<longleftrightarrow> i < n \<and> i < 64 \<and> report_bit r (pos + i)"
  by (auto simp: hid_value_def bit_horner_sum_bit_word_iff)

lemma report_bit_at: "k < 8 \<Longrightarrow> report_bit r (8 * c + k) = bit (r ! c) k"
  by (simp add: report_bit_def)

lemma hid_value_byte: "hid_value r (8 * c) 8 = ucast (r ! c)"
proof (rule bit_word_eqI)
  fix i
  show "bit (hid_value r (8 * c) 8) i = bit (ucast (r ! c) :: u64) i"
    using bit_imp_le_length [of "r ! c" i] by (cases "i < 8") (auto simp: bit_hid_value bit_simps report_bit_at)
qed

lemma hid_value_split: "n + m \<le> 64 \<Longrightarrow> hid_value r pos (n + m) = hid_value r pos n OR push_bit n (hid_value r (pos + n) m)"
  by (rule bit_word_eqI) (auto simp: bit_hid_value bit_simps)

lemma read_bits_end [simp]: "read_bits r 0 co bo v = Some v"
  by (subst read_bits.simps) simp

lemma read_bits_step:
  assumes "0 < n" and "unat bo < 8" and "unat co < length r" and k: "k = (if unat n + unat bo > 8 then 8 - bo else n)"
  shows "read_bits r n co bo v = read_bits r (n - k) (co + 1) 0 (push_bit (unat k) v OR hid_value r (8 * unat co + unat bo) (unat k))"
proof -
  have "unat (8 - bo) = 8 - unat bo" using assms(2) by (simp add: unat_sub word_le_nat_alt)
  then have b: "unat k + unat bo \<le> 8" "k \<le> n" "k < 32" "bo < 64" using k assms(2) by (auto simp: word_less_nat_alt word_le_nat_alt)
  let ?m = "push_bit (unat bo) (push_bit (unat k) 1 - 1) :: u64"
  have "push_bit (unat k) 1 - 1 = (mask (unat k) :: u64)" by (simp add: mask_eq_exp_minus_1)
  then have "ucast (drop_bit (unat bo) ((r ! unat co) AND ucast ?m)) = (hid_value r (8 * unat co + unat bo) (unat k) :: u64)"
    using b(1) by (intro bit_word_eqI) (auto simp: bit_simps bit_hid_value report_bit_at add.assoc dest: bit_imp_le_length)
  then show ?thesis using assms(1-3) b by (subst read_bits.simps) (simp add: Let_def k [symmetric])
qed

lemma read_bits_one_byte:
  "0 < n \<Longrightarrow> unat n + unat bo \<le> 8 \<Longrightarrow> unat co < length r \<Longrightarrow> read_bits r n co bo 0 = Some (hid_value r (8 * unat co + unat bo) (unat n))"
  by (subst read_bits_step [where k = n]) (auto simp: word_less_nat_alt)

lemma sign_mask_eq: "0 < n \<Longrightarrow> n < 32 \<Longrightarrow> sign_mask n = Some (push_bit (unat n - 1) 1)"
  by (auto simp: sign_mask_def word_less_nat_alt word_le_nat_alt intro!: bit_word_eqI simp: bit_simps)

lemma extend_sign_correct:
  assumes "0 < fd_num_bits f" and "fd_num_bits f < 32" and v: "\<And>i. bit v i \<Longrightarrow> i < unat (fd_num_bits f)"
  shows "extend_sign f v = Some (if sint (fd_logical_min f) < 0 then signed_take_bit (unat (fd_num_bits f) - 1) v else v)"
proof -
  let ?n = "unat (fd_num_bits f)"
  have n: "0 < ?n" "?n < 32" using assms(1,2) by (simp_all add: word_less_nat_alt unat_gt_0)
  have m: "push_bit 1 (push_bit (?n - 1) 1) - 1 = (mask ?n :: u64)" using n by (cases ?n) (simp_all add: mask_eq_exp_minus_1)
  have e: "k = ?n - 1" if "?n - 1 \<le> k" "k < ?n" for k using that by linarith
  have "v AND push_bit (?n - 1) 1 \<noteq> 0 \<longleftrightarrow> bit v (?n - 1)" by (simp add: and_exp_eq_0_iff_not_bit)
  moreover have "v OR NOT (mask ?n) = signed_take_bit (?n - 1) v" if "bit v (?n - 1)"
    using that n v e by (intro bit_word_eqI) (auto simp: bit_simps min_def)
  moreover have "v = signed_take_bit (?n - 1) v" if "\<not> bit v (?n - 1)"
    using that n v e by (intro bit_word_eqI) (auto simp: bit_simps min_def)
  ultimately show ?thesis using m by (auto simp: extend_sign_def sign_mask_eq [OF assms(1,2)])
qed


lemma parse_field_correct:
  assumes "laid_out 0 fs" and "i < length fs" and "field_bits fs \<le> 2048" and "field_bits fs \<le> 8 * length r"
    and "0 < fd_num_bits (fs ! i)" and "field_bits (take i fs) mod 8 + unat (fd_num_bits (fs ! i)) \<le> 8"
  shows "parse_field r (fs ! i) = Some (field_value r (field_bits (take i fs)) (fs ! i))"
proof -
  let ?f = "fs ! i" and ?pos = "field_bits (take i fs)" and ?n = "unat (fd_num_bits (fs ! i))"
  have "?pos + ?n + field_bits (drop (Suc i) fs) = field_bits fs"
    using assms(2) by (metis (no_types, lifting) field_bits_simps(2,3) id_take_nth_drop add.assoc)
  moreover have n: "0 < ?n" using assms(5) by (simp add: unat_gt_0)
  ultimately have pos: "?pos < 2048" "?pos < 8 * length r" using assms(3,4) by linarith+
  have "fd_byte_offset ?f = of_nat (?pos div 8)" "fd_bit_offset ?f = of_nat (?pos mod 8)" using laid_out_nth [OF assms(1,2)] by simp_all
  moreover have "?pos div 8 < 256" "?pos mod 8 < 256" using pos by auto
  ultimately have o: "unat (fd_byte_offset ?f) = ?pos div 8" "unat (fd_bit_offset ?f) = ?pos mod 8" by (simp_all add: unat_of_nat)
  have "read_bits r (fd_num_bits ?f) (fd_byte_offset ?f) (fd_bit_offset ?f) 0 = Some (hid_value r ?pos ?n)"
    using read_bits_one_byte [of "fd_num_bits ?f" "fd_bit_offset ?f" "fd_byte_offset ?f" r] assms(5,6) pos o by simp
  moreover have "extend_sign ?f (hid_value r ?pos ?n) = Some (field_value r ?pos ?f)"
    using assms(5,6) by (subst extend_sign_correct) (auto simp: field_value_def Let_def bit_hid_value word_less_nat_alt)
  ultimately show ?thesis by (simp add: parse_field_def)
qed

lemma parse_fields_correct:
  assumes "\<And>k. k < length fs \<Longrightarrow> parse_field r (fs ! k) = Some (v (i + k))" and "i + length fs \<le> unat m" and "unat m \<le> length out"
  shows "\<exists>out'. parse_fields r m i fs out = Some out' \<and> length out' = length out \<and> (\<forall>j < length out. out' ! j = (if i \<le> j \<and> j < i + length fs then v j else out ! j))"
  using assms
proof (induction fs arbitrary: i out)
  case (Cons f fs)
  have f: "parse_field r f = Some (v i)" using Cons.prems(1) [of 0] by simp
  have "parse_field r (fs ! k) = Some (v (Suc i + k))" if "k < length fs" for k using Cons.prems(1) [of "Suc k"] that by simp
  then obtain out' where "parse_fields r m (Suc i) fs (out[i := v i]) = Some out'" "length out' = length out"
    "\<forall>j < length out. out' ! j = (if Suc i \<le> j \<and> j < Suc i + length fs then v j else out[i := v i] ! j)"
    using Cons.IH [of "Suc i" "out[i := v i]"] Cons.prems(2,3) by auto
  moreover from this have "out' ! j = (if i \<le> j \<and> j < i + length (f # fs) then v j else out ! j)" if "j < length out" for j
    using that by (cases "j = i") auto
  ultimately show ?case using f Cons.prems(2,3) by simp
qed auto

text \<open>
  C17. From a descriptor to values. When a device's descriptor has been parsed and a report arrives that is long enough for all input fields, none of which is empty or crosses the end of a byte, the array receives the value of each
  field as the HID specification defines it: the bits at the place that the widths of the fields before it determine, extended with its sign if the logical minimum is negative.
\<close>

theorem report_decoded:
  assumes "parse_descriptor junk raw len = Some (ok, d)" and "fs = input_fields d" and "field_bits fs \<le> 2048" and "field_bits fs \<le> 8 * length r"
    and "\<forall>i < length fs. 0 < fd_num_bits (fs ! i) \<and> field_bits (take i fs) mod 8 + unat (fd_num_bits (fs ! i)) \<le> 8"
    and "length fs = unat m" and "unat m \<le> length out"
  shows "\<exists>out'. parse_report d (Some r) rl (Some out) m = Some (True, Some out') \<and>
    (\<forall>i < length out. out' ! i = (if i < length fs then field_value r (field_bits (take i fs)) (fs ! i) else out ! i))"
proof -
  obtain p where p: "parse_items raw len 0 0 True (parse_start junk) = Some (ok, p)" "fs = all_input_fields p"
    using assms(1,2) by (auto simp: parse_descriptor_def)
  have "laid_out 0 fs" using parse_items_inv [OF p(1) parse_start_inv] p(2) by (simp add: parse_inv_def)
  then have "parse_field r (fs ! k) = Some (field_value r (field_bits (take k fs)) (fs ! k))" if "k < length fs" for k
    using parse_field_correct that assms(3,4,5) by blast
  then show ?thesis
    using parse_fields_correct [of fs r "\<lambda>i. field_value r (field_bits (take i fs)) (fs ! i)" 0 m out] assms(2,6,7) by (auto simp: parse_report_def)
qed

lemma parse_items_eval:
  "parse_items raw len i ofs ok p =
     (if ucast ofs < len then
        if i < length raw \<and> raw ! i \<noteq> 0xFE then
          (case load_u32 raw (i + 1) of
             None \<Rightarrow> None
           | Some d \<Rightarrow>
               (case data_mask (item_length (raw ! i)) of
                  None \<Rightarrow> None
                | Some m \<Rightarrow>
                    (case handle_item (raw ! i) (d AND m) (item_length (raw ! i)) p of
                       None \<Rightarrow> None
                     | Some rp \<Rightarrow> parse_items raw len (i + 1 + unat (item_length (raw ! i))) (ofs + (1 + ucast (item_length (raw ! i)))) (ok \<and> fst rp) (snd rp))))
        else None
      else Some (ok, p))"
  by (subst parse_items.simps) (auto simp: Let_def split: option.split)

lemma data_mask_eval: "data_mask 0 = Some 0" "data_mask 1 = Some 0xFF" "data_mask 2 = Some 0xFFFF" "data_mask 4 = None"
  by (simp_all add: data_mask_def mask_eq_exp_minus_1)

lemmas parse_eval = parse_items_eval item_length_def tag_size_def load_u32_def data_mask_eval handle_item_def tag_type_def tag_tag_def handle_main_item_def
  handle_global_item_def handle_local_item_def set_top_def stack_top_def sign_extend_def Let_def parse_start_def new_global_state_def set_min_def set_max_def ensure_min_max_def
  new_local_field_def add_new_field_def add_one_field_def take_usage_def describe_field_def store_field_def place_field_def add_to_collection_def new_field_description_def
  open_collection_def close_collection_def get_next_field_index_val_def reset_local_state_def

text \<open>A descriptor for two buttons, and one movement of six bits with a sign; a report with the second button pressed and a movement by -2.\<close>

definition sample_descriptor :: "u8 list" where
  "sample_descriptor = [0x05, 9, 0x19, 1, 0x29, 2, 0x25, 1, 0x75, 1, 0x95, 2, 0x81, 2, 0x15, 0xE0, 0x75, 6, 0x95, 1, 0x81, 6, 0, 0, 0, 0]"

lemma add_fields_numeral:
  "add_fields (numeral k) f p = (case add_one_field f p of None \<Rightarrow> None | Some fp \<Rightarrow> add_fields (pred_numeral k) (fst fp) (snd fp))"
  by (cases "add_one_field f p") (auto simp: numeral_eq_Suc)

definition sample_parsed :: decoded_descriptor where
  "sample_parsed = snd (the (parse_descriptor 0 sample_descriptor 22))"

lemma sample_parse:
  "parse_descriptor 0 sample_descriptor 22 = Some (True, sample_parsed)" "length (input_fields sample_parsed) = 3"
  "map (\<lambda>f. (fd_num_bits f, fd_usage f, fd_logical_min f)) (input_fields sample_parsed) = [(1, 0x90001, 0), (1, 0x90002, 0), (6, 0, 0xFFFFFFE0)]"
  by (simp_all add: sample_parsed_def sample_descriptor_def parse_descriptor_def parse_eval add_fields_numeral)

lemma sample_fields:
  "\<exists>f g h. input_fields sample_parsed = [f, g, h] \<and> fd_num_bits f = 1 \<and> fd_num_bits g = 1 \<and> fd_num_bits h = 6 \<and>
     fd_logical_min f = 0 \<and> fd_logical_min g = 0 \<and> fd_logical_min h = 0xFFFFFFE0"
  using sample_parse(2,3) by (auto simp: numeral_3_eq_3 length_Suc_conv)

lemma sample_values: "hid_value [0xFA] 0 1 = 0" "hid_value [0xFA] 1 1 = 1" "signed_take_bit 5 (hid_value [0xFA] (Suc (Suc 0)) 6) = - 2"
  by (simp_all add: hid_value_def report_bit_def upt_rec)


theorem report_decoded_witness:
  "\<exists>out. parse_descriptor 0 sample_descriptor 22 = Some (True, sample_parsed) \<and> parse_report sample_parsed (Some [0xFA]) 1 (Some [7, 7, 7]) 3 = Some (True, Some out) \<and>
     out ! 0 = 0 \<and> out ! 1 = 1 \<and> out ! 2 = - 2"
proof -
  obtain f g h where F: "input_fields sample_parsed = [f, g, h]" "fd_num_bits f = 1" "fd_num_bits g = 1" "fd_num_bits h = 6"
    "fd_logical_min f = 0" "fd_logical_min g = 0" "fd_logical_min h = 0xFFFFFFE0" using sample_fields by blast
  have "\<forall>i < length [f, g, h]. 0 < fd_num_bits ([f, g, h] ! i) \<and> field_bits (take i [f, g, h]) mod 8 + unat (fd_num_bits ([f, g, h] ! i)) \<le> 8"
    using F by (simp add: All_less_Suc)
  then obtain out where out: "parse_report sample_parsed (Some [0xFA]) 1 (Some [7, 7, 7]) 3 = Some (True, Some out)"
    "\<forall>i < length [7, 7, 7 :: u64]. out ! i = (if i < length [f, g, h] then field_value [0xFA] (field_bits (take i [f, g, h])) ([f, g, h] ! i) else [7, 7, 7] ! i)"
    using report_decoded [OF sample_parse(1) F(1) [symmetric], of "[0xFA]" 3 "[7, 7, 7]" 1] F by auto
  show ?thesis using out(1) out(2) [THEN spec, of 0] out(2) [THEN spec, of 1] out(2) [THEN spec, of 2] sample_parse(1) F sample_values
    by (simp add: field_value_def Let_def)
qed

text \<open>A field of two bytes is assembled with its first byte as the more significant one; the specification has it the other way round.\<close>

lemma two_byte_field_swapped:
  "read_bits [a, b] 16 0 0 0 = Some (push_bit 8 (ucast a) OR ucast b)" "hid_value [a, b] 0 16 = ucast a OR push_bit 8 (ucast b)"
proof -
  have h: "hid_value [a, b] 0 8 = ucast a" "hid_value [a, b] 8 8 = ucast b" using hid_value_byte [of "[a, b]" 0] hid_value_byte [of "[a, b]" 1] by simp_all
  have "read_bits [a, b] 16 0 0 0 = read_bits [a, b] 8 1 0 (ucast a)" by (subst read_bits_step [OF _ _ _ refl]) (simp_all add: h)
  also have "\<dots> = Some (push_bit 8 (ucast a) OR ucast b)" by (subst read_bits_step [OF _ _ _ refl]) (simp_all add: h)
  finally show "read_bits [a, b] 16 0 0 0 = Some (push_bit 8 (ucast a) OR ucast b)" .
  show "hid_value [a, b] 0 16 = ucast a OR push_bit 8 (ucast b)"
    using hid_value_split [of 8 8 "[a, b]" 0] h by simp
qed

text \<open>The sign of a field of 32 bits sets one bit instead of extending.\<close>

lemma sign_of_32_bits: "fd_num_bits f = 32 \<Longrightarrow> sint (fd_logical_min f) < 0 \<Longrightarrow> extend_sign f 0x80000000 = Some 0x180000000"
  by (simp add: extend_sign_def sign_mask_def)

text \<open>Two collections, one in the other, end with the parser outside of all collections; one more item panics the kernel.\<close>

lemma nested_collections_panic:
  "parse_descriptor junk [0xA1, 1, 0xA1, 0, 0xC0, 0xC0, 0xA1, 1, 0xC0, 0, 0, 0, 0] 9 = None"
  by (simp add: parse_descriptor_def parse_eval)

end
