(* ===== verification/Hid_Keyboard.thy ===== *)
theory Hid_Keyboard
  imports Hid_Parser
begin

text \<open>
  Keyboards: \<open>kernel/devices/usb/hid/usb_hid_keyboard.cpp\<close> with its table of scan codes, and \<open>kernel/devices/generic/gen_keyboard.cpp\<close> with the map of characters. A USB keyboard reports the keys that are pressed;
  the driver compares them with those of the report before and sends messages for the keys that have changed. Keys are the numbers of the enumeration \<open>KEYS\<close>.
\<close>

subsection \<open>Keys and characters\<close>

record special_keys =
  left_shift :: bool
  right_shift :: bool
  left_control :: bool
  right_control :: bool
  left_alt :: bool
  right_alt :: bool
  print_screen_start :: bool
  left_gui :: bool
  right_gui :: bool

definition no_special_keys :: special_keys where
  "no_special_keys = \<lparr>left_shift = False, right_shift = False, left_control = False, right_control = False, left_alt = False, right_alt = False,
     print_screen_start = False, left_gui = False, right_gui = False\<rparr>"

text \<open>For each key: whether it is printable, its character, and its character with shift.\<close>

definition default_keyb_props :: "(bool \<times> u8 \<times> u8) list" where
  "default_keyb_props =
    [(False, 0, 0), (False, 0, 0), (False, 0, 0), (False, 0, 0), (False, 0, 0), (False, 0, 0), (False, 0, 0), (False, 0, 0), (False, 0, 0), (True, 9, 9),
     (True, 13, 13), (False, 0, 0), (False, 0, 0), (False, 0, 0), (False, 0, 0), (False, 0, 0), (False, 0, 0), (False, 0, 0), (False, 0, 0), (False, 0, 0),
     (False, 0, 0), (False, 0, 0), (False, 0, 0), (False, 0, 0), (False, 0, 0), (False, 0, 0), (False, 0, 0), (False, 0, 0), (False, 0, 0), (False, 0, 0),
     (False, 0, 0), (False, 0, 0), (True, 32, 32), (False, 0, 0), (False, 0, 0), (False, 0, 0), (False, 0, 0), (False, 0, 0), (False, 0, 0), (True, 39, 64),
     (False, 0, 0), (False, 0, 0), (False, 0, 0), (False, 0, 0), (True, 44, 60), (True, 45, 95), (True, 46, 62), (True, 47, 63), (True, 48, 41), (True, 49, 33),
     (True, 50, 34), (True, 51, 0), (True, 52, 36), (True, 53, 37), (True, 54, 94), (True, 55, 38), (True, 56, 42), (True, 57, 40), (False, 0, 0), (True, 59, 58),
     (False, 0, 0), (True, 61, 43), (False, 0, 0), (False, 0, 0), (False, 0, 0), (True, 97, 65), (True, 98, 66), (True, 99, 67), (True, 100, 68), (True, 101, 69),
     (True, 102, 70), (True, 103, 71), (True, 104, 72), (True, 105, 73), (True, 106, 74), (True, 107, 75), (True, 108, 76), (True, 109, 77), (True, 110, 78), (True, 111, 79),
     (True, 112, 80), (True, 113, 81), (True, 114, 82), (True, 115, 83), (True, 116, 84), (True, 117, 85), (True, 118, 86), (True, 119, 87), (True, 120, 88), (True, 121, 89),
     (True, 122, 90), (True, 91, 123), (True, 92, 124), (True, 93, 125), (False, 0, 0), (False, 0, 0), (True, 96, 0), (False, 0, 0), (False, 0, 0), (False, 0, 0),
     (True, 48, 48), (True, 49, 49), (True, 50, 50), (True, 51, 51), (True, 52, 52), (True, 53, 53), (True, 54, 54), (True, 55, 55), (True, 56, 56), (True, 57, 57),
     (True, 43, 43), (True, 45, 45), (True, 42, 42), (True, 47, 47), (True, 46, 46)]"

definition keyb_get_key_props :: "u16 \<Rightarrow> (bool \<times> u8 \<times> u8) list option \<Rightarrow> u32 \<Rightarrow> (bool \<times> u8 \<times> u8) option" where
  "keyb_get_key_props key_pressed key_props_table tab_len =
     (case key_props_table of
        Some tab \<Rightarrow> if ucast key_pressed < tab_len then (if unat key_pressed < length tab then Some (tab ! unat key_pressed) else None) else Some (False, 0, 0)
      | None \<Rightarrow> Some (False, 0, 0))"

definition keyb_translate_key :: "u16 \<Rightarrow> special_keys \<Rightarrow> (bool \<times> u8 \<times> u8) list option \<Rightarrow> u32 \<Rightarrow> u8 option" where
  "keyb_translate_key key_pressed modifiers key_props_table tab_len = do {
     (printable, normal, shifted) \<leftarrow> keyb_get_key_props key_pressed key_props_table tab_len;
     Some (if left_alt modifiers \<or> left_control modifiers \<or> print_screen_start modifiers \<or> right_alt modifiers \<or> right_control modifiers then 0
       else if left_shift modifiers \<or> right_shift modifiers then shifted else normal)
   }"

subsection \<open>Messages\<close>

datatype key_message = SM_KEYDOWN | SM_KEYUP

record keypress_msg =
  km_id :: key_message
  km_key_pressed :: u16
  km_modifiers :: special_keys
  km_printable :: u8

text \<open>What is sent to the receiver, if there is one.\<close>

record keyboard =
  kb_receiver :: bool
  kb_sent :: "keypress_msg list"
  kb_key_pressed :: "bool list"

text \<open>
  The constructor. There is no receiver yet, and the array of pressed keys is not initialised: its 232 elements are whatever the memory held.
\<close>

definition new_keyboard :: "bool list \<Rightarrow> keyboard" where
  "new_keyboard memory = \<lparr>kb_receiver = False, kb_sent = [], kb_key_pressed = memory\<rparr>"

definition set_receiver :: "bool \<Rightarrow> keyboard \<Rightarrow> keyboard" where
  "set_receiver new_receiver kb = kb\<lparr>kb_receiver := new_receiver\<rparr>"

definition handle_key :: "key_message \<Rightarrow> u16 \<Rightarrow> special_keys \<Rightarrow> keyboard \<Rightarrow> keyboard option" where
  "handle_key mid key specs kb = do {
     printable_char \<leftarrow> keyb_translate_key key specs (Some default_keyb_props) 115;
     Some (if kb_receiver kb
       then kb\<lparr>kb_sent := kb_sent kb @ [\<lparr>km_id = mid, km_key_pressed = key, km_modifiers = specs, km_printable = printable_char\<rparr>]\<rparr> else kb)
   }"

definition handle_key_down :: "u16 \<Rightarrow> special_keys \<Rightarrow> keyboard \<Rightarrow> keyboard option" where
  "handle_key_down = handle_key SM_KEYDOWN"

definition handle_key_up :: "u16 \<Rightarrow> special_keys \<Rightarrow> keyboard \<Rightarrow> keyboard option" where
  "handle_key_up = handle_key SM_KEYUP"

subsection \<open>Reports\<close>

definition max_scancode_idx :: nat where
  "max_scancode_idx = 0xE7"

definition scancode_map :: "u16 list" where
  "scancode_map =
    [0, 0, 0, 0, 65, 66, 67, 68, 69, 70, 71, 72, 73, 74, 75, 76, 77, 78, 79, 80, 81, 82, 83, 84,
     85, 86, 87, 88, 89, 90, 49, 50, 51, 52, 53, 54, 55, 56, 57, 48, 10, 27, 8, 9, 32, 45, 61, 91,
     93, 92, 95, 59, 39, 96, 44, 46, 47, 151, 121, 122, 123, 124, 125, 126, 127, 128, 129, 130, 131, 132, 0, 152,
     0, 154, 153, 165, 155, 156, 164, 163, 162, 161, 160, 150, 113, 112, 111, 110, 115, 101, 102, 103, 104, 105, 106, 107,
     108, 109, 100, 114, 92, 0, 200, 116, 133, 134, 135, 136, 137, 138, 139, 140, 166, 167, 168, 169, 0, 0, 0, 0,
     0, 0, 0, 0, 0, 0, 0, 186, 185, 184, 0, 0, 0, 117, 116, 0, 0, 0, 0, 0, 0, 0, 0, 0,
     0, 0, 0, 0, 0, 0, 0, 0, 0, 0, 0, 0, 0, 0, 11, 0, 0, 0, 0, 0, 0, 0, 0, 0,
     0, 0, 0, 0, 0, 0, 0, 0, 0, 0, 0, 0, 0, 0, 0, 0, 0, 0, 0, 0, 0, 0, 0, 0,
     0, 0, 0, 0, 0, 0, 0, 0, 0, 0, 0, 0, 0, 0, 0, 0, 0, 0, 0, 0, 0, 0, 0, 0,
     0, 0, 0, 0, 0, 0, 0, 0, 143, 145, 141, 170, 144, 146, 142, 171]"

definition special_key :: "u32 \<Rightarrow> special_keys \<Rightarrow> special_keys" where
  "special_key usage s =
     (if usage = 0x700E0 then s\<lparr>left_control := True\<rparr> else if usage = 0x700E1 then s\<lparr>left_shift := True\<rparr>
      else if usage = 0x700E2 then s\<lparr>left_alt := True\<rparr> else if usage = 0x700E3 then s\<lparr>left_gui := True\<rparr>
      else if usage = 0x700E4 then s\<lparr>right_control := True\<rparr> else if usage = 0x700E5 then s\<lparr>right_shift := True\<rparr>
      else if usage = 0x700E6 then s\<lparr>right_alt := True\<rparr> else if usage = 0x700E7 then s\<lparr>right_gui := True\<rparr> else s)"

fun scan_report :: "report_field_description list \<Rightarrow> u64 list \<Rightarrow> u16 \<Rightarrow> nat \<Rightarrow> bool list \<Rightarrow> special_keys \<Rightarrow> (bool list \<times> special_keys) option" where
  "scan_report [] vals num_values i pressed s = Some (pressed, s)"
| "scan_report (field # fs) vals num_values i pressed s =
     (if i \<ge> unat num_values then Some (pressed, s)
      else do {
        ASSERT (i < length vals);
        let this_value = vals ! i;
        let scancode = (if fd_usage field = 0x70000 then ucast (this_value AND 0xFFFF) else ucast (fd_usage field AND 0xFFFF) :: u16);
        let (pressed, s) =
          (if this_value \<noteq> 0
           then (if unat scancode \<le> max_scancode_idx \<and> scancode \<noteq> 0 then pressed[unat scancode := True] else pressed, special_key (fd_usage field) s)
           else (pressed, s));
        scan_report fs vals num_values (i + 1) pressed s
      })"

definition compare_key :: "bool list \<Rightarrow> special_keys \<Rightarrow> nat \<Rightarrow> keyboard \<Rightarrow> keyboard option" where
  "compare_key in_report s i kb = do {
     kb \<leftarrow> (if kb_key_pressed kb ! i \<and> \<not> in_report ! i then handle_key_up (scancode_map ! i) s kb
            else if in_report ! i \<and> \<not> kb_key_pressed kb ! i then handle_key_down (scancode_map ! i) s kb else Some kb);
     Some (kb\<lparr>kb_key_pressed := (kb_key_pressed kb)[i := in_report ! i]\<rparr>)
   }"

fun compare_keys :: "bool list \<Rightarrow> special_keys \<Rightarrow> nat list \<Rightarrow> keyboard \<Rightarrow> keyboard option" where
  "compare_keys in_report s [] kb = Some kb"
| "compare_keys in_report s (i # is) kb = do { kb \<leftarrow> compare_key in_report s i kb; compare_keys in_report s is kb }"

definition process_report :: "decoded_descriptor \<Rightarrow> u64 list \<Rightarrow> u16 \<Rightarrow> keyboard \<Rightarrow> keyboard option" where
  "process_report descriptor vals num_values kb = do {
     (in_report, s) \<leftarrow> scan_report (input_fields descriptor) vals num_values 0 (replicate (max_scancode_idx + 1) False) no_special_keys;
     compare_keys in_report s [1 ..< max_scancode_idx + 1] kb
   }"

subsection \<open>Presses and releases balance\<close>

definition messages_for :: "key_message \<Rightarrow> u16 \<Rightarrow> keyboard \<Rightarrow> nat" where
  "messages_for mid key kb = length (filter (\<lambda>m. km_id m = mid \<and> km_key_pressed m = key) (kb_sent kb))"

definition pressed_set :: "u16 \<Rightarrow> keyboard \<Rightarrow> nat set" where
  "pressed_set key kb = {i \<in> {1 ..< max_scancode_idx + 1}. kb_key_pressed kb ! i \<and> scancode_map ! i = key}"

text \<open>What holds between the keyboard before some reports and after them.\<close>

definition kb_follows :: "keyboard \<Rightarrow> keyboard \<Rightarrow> bool" where
  "kb_follows kb0 kb \<longleftrightarrow> kb_receiver kb \<and> length (kb_key_pressed kb) = max_scancode_idx + 1 \<and>
     (\<forall>key. messages_for SM_KEYDOWN key kb + messages_for SM_KEYUP key kb0 + card (pressed_set key kb0) =
        messages_for SM_KEYUP key kb + messages_for SM_KEYDOWN key kb0 + card (pressed_set key kb))"

lemma table_lengths [simp]: "length scancode_map = 232" "length default_keyb_props = 115"
  by (simp_all add: scancode_map_def default_keyb_props_def)

lemma translate_total: "\<exists>c. keyb_translate_key key s (Some default_keyb_props) 115 = Some c"
proof -
  have "unat (ucast key :: u32) = unat key" using unsigned_less [of key, where ?'a = nat] by (simp add: unsigned_ucast_eq take_bit_eq_mod)
  then have "ucast key < (115 :: u32) \<longleftrightarrow> unat key < 115" by (simp add: word_less_nat_alt)
  then show ?thesis by (cases "default_keyb_props ! unat key") (auto simp: keyb_translate_key_def keyb_get_key_props_def)
qed

lemma handle_key_sends:
  assumes "kb_receiver kb"
  shows "\<exists>m. handle_key mid key s kb = Some (kb\<lparr>kb_sent := kb_sent kb @ [m]\<rparr>) \<and> km_id m = mid \<and> km_key_pressed m = key"
  using translate_total [of key s] assms by (auto simp: handle_key_def)

lemma messages_for_snoc:
  "messages_for mid key (kb\<lparr>kb_sent := kb_sent kb @ [m], kb_key_pressed := ps\<rparr>) = messages_for mid key kb + of_bool (km_id m = mid \<and> km_key_pressed m = key)"
  "messages_for mid key (kb\<lparr>kb_sent := kb_sent kb @ [m]\<rparr>) = messages_for mid key kb + of_bool (km_id m = mid \<and> km_key_pressed m = key)"
  "messages_for mid key (kb\<lparr>kb_key_pressed := ps\<rparr>) = messages_for mid key kb"
  by (simp_all add: messages_for_def)

lemma pressed_set_finite [simp]: "finite (pressed_set key kb)"
  by (simp add: pressed_set_def)

lemma pressed_set_sent [simp]: "pressed_set key (kb\<lparr>kb_sent := ms, kb_key_pressed := ps\<rparr>) = pressed_set key (kb\<lparr>kb_key_pressed := ps\<rparr>)"
  by (simp add: pressed_set_def)

lemma pressed_set_update:
  assumes "0 < i" and "i \<le> max_scancode_idx" and "length (kb_key_pressed kb) = max_scancode_idx + 1"
  shows "pressed_set key (kb\<lparr>kb_key_pressed := (kb_key_pressed kb)[i := b]\<rparr>) =
    (if scancode_map ! i = key then (if b then insert i (pressed_set key kb) else pressed_set key kb - {i}) else pressed_set key kb)"
  using assms by (auto simp: pressed_set_def nth_list_update)

lemma compare_key_wf:
  assumes "kb_follows kb0 kb" and "0 < i" and "i \<le> max_scancode_idx"
  shows "\<exists>kb'. compare_key in_report s i kb = Some kb' \<and> kb_follows kb0 kb' \<and> kb_key_pressed kb' = (kb_key_pressed kb)[i := in_report ! i]"
proof -
  have W: "kb_receiver kb" "length (kb_key_pressed kb) = max_scancode_idx + 1"
    "\<And>key. messages_for SM_KEYDOWN key kb + messages_for SM_KEYUP key kb0 + card (pressed_set key kb0) =
      messages_for SM_KEYUP key kb + messages_for SM_KEYDOWN key kb0 + card (pressed_set key kb)" using assms(1) by (simp_all add: kb_follows_def)
  have i: "i \<in> pressed_set key kb \<longleftrightarrow> kb_key_pressed kb ! i \<and> scancode_map ! i = key" for key using assms(2,3) by (auto simp: pressed_set_def)
  note P = pressed_set_update [OF assms(2,3) W(2)]
  let ?ps = "(kb_key_pressed kb)[i := in_report ! i]"
  consider (up) "kb_key_pressed kb ! i" "\<not> in_report ! i" | (down) "\<not> kb_key_pressed kb ! i" "in_report ! i" | (same) "kb_key_pressed kb ! i = in_report ! i" by blast
  then show ?thesis
  proof cases
    case up
    obtain m where m: "handle_key SM_KEYUP (scancode_map ! i) s kb = Some (kb\<lparr>kb_sent := kb_sent kb @ [m]\<rparr>)" "km_id m = SM_KEYUP" "km_key_pressed m = scancode_map ! i"
      using handle_key_sends [OF W(1)] by blast
    have "card (pressed_set (scancode_map ! i) kb) = Suc (card (pressed_set (scancode_map ! i) kb - {i}))"
      using i up(1) by (metis card_Suc_Diff1 pressed_set_finite)
    then have "kb_follows kb0 (kb\<lparr>kb_sent := kb_sent kb @ [m], kb_key_pressed := ?ps\<rparr>)" using W m(2,3) up assms(2) P by (auto simp: kb_follows_def messages_for_snoc)
    then show ?thesis using m(1) up by (simp add: compare_key_def handle_key_up_def)
  next
    case down
    obtain m where m: "handle_key SM_KEYDOWN (scancode_map ! i) s kb = Some (kb\<lparr>kb_sent := kb_sent kb @ [m]\<rparr>)" "km_id m = SM_KEYDOWN" "km_key_pressed m = scancode_map ! i"
      using handle_key_sends [OF W(1)] by blast
    have "card (insert i (pressed_set (scancode_map ! i) kb)) = Suc (card (pressed_set (scancode_map ! i) kb))" using i down(1) by simp
    then have "kb_follows kb0 (kb\<lparr>kb_sent := kb_sent kb @ [m], kb_key_pressed := ?ps\<rparr>)" using W m(2,3) down assms(2) P by (auto simp: kb_follows_def messages_for_snoc)
    then show ?thesis using m(1) down by (simp add: compare_key_def handle_key_down_def)
  next
    case same
    then have ps: "?ps = kb_key_pressed kb" using list_update_id [of "kb_key_pressed kb" i] by simp
    moreover have "kb\<lparr>kb_key_pressed := kb_key_pressed kb\<rparr> = kb" by (cases kb) simp
    ultimately show ?thesis using assms(1) same by (simp add: compare_key_def)
  qed
qed

lemma compare_keys_wf:
  "kb_follows kb0 kb \<Longrightarrow> \<forall>i \<in> set is. 0 < i \<and> i \<le> max_scancode_idx \<Longrightarrow>
   \<exists>kb'. compare_keys in_report s is kb = Some kb' \<and> kb_follows kb0 kb' \<and> (\<forall>j \<le> max_scancode_idx. kb_key_pressed kb' ! j = (if j \<in> set is then in_report ! j else kb_key_pressed kb ! j))"
proof (induction "is" arbitrary: kb)
  case (Cons i "is")
  obtain k where k: "compare_key in_report s i kb = Some k" "kb_follows kb0 k" "kb_key_pressed k = (kb_key_pressed kb)[i := in_report ! i]"
    using compare_key_wf [OF Cons.prems(1), of i in_report s] Cons.prems(2) by auto
  have "\<forall>i \<in> set is. 0 < i \<and> i \<le> max_scancode_idx" using Cons.prems(2) by simp
  then obtain k' where "compare_keys in_report s is k = Some k'" "kb_follows kb0 k'"
    "\<forall>j \<le> max_scancode_idx. kb_key_pressed k' ! j = (if j \<in> set is then in_report ! j else kb_key_pressed k ! j)" using Cons.IH [OF k(2)] by blast
  moreover have "length (kb_key_pressed kb) = max_scancode_idx + 1" using Cons.prems(1) by (simp add: kb_follows_def)
  ultimately show ?case using k Cons.prems(2) by (auto simp: nth_list_update)
qed simp

lemma scan_report_total: "unat n \<le> length vals \<Longrightarrow> \<exists>pressed' s'. scan_report fs vals n i pressed s = Some (pressed', s')"
  by (induction fs arbitrary: i pressed s) (auto simp: Let_def)

lemma process_report_wf:
  assumes "kb_follows kb0 kb" and "unat n \<le> length vals"
  shows "\<exists>kb' pressed s. process_report d vals n kb = Some kb' \<and> kb_follows kb0 kb' \<and>
    scan_report (input_fields d) vals n 0 (replicate (max_scancode_idx + 1) False) no_special_keys = Some (pressed, s) \<and>
    (\<forall>j. 1 \<le> j \<and> j \<le> max_scancode_idx \<longrightarrow> kb_key_pressed kb' ! j = pressed ! j)"
proof -
  obtain pr s where p: "scan_report (input_fields d) vals n 0 (replicate (max_scancode_idx + 1) False) no_special_keys = Some (pr, s)"
    using scan_report_total [OF assms(2), of "input_fields d" 0 "replicate (max_scancode_idx + 1) False" no_special_keys] by auto
  obtain k where k: "compare_keys pr s [1 ..< max_scancode_idx + 1] kb = Some k" "kb_follows kb0 k"
    "\<forall>j \<le> max_scancode_idx. kb_key_pressed k ! j = (if j \<in> set [1 ..< max_scancode_idx + 1] then pr ! j else kb_key_pressed kb ! j)"
    using compare_keys_wf [OF assms(1), of "[1 ..< max_scancode_idx + 1]" pr s] by (force simp: less_Suc_eq_le)
  then show ?thesis using p by (auto simp: process_report_def)
qed

fun process_reports :: "(decoded_descriptor \<times> u64 list \<times> u16) list \<Rightarrow> keyboard \<Rightarrow> keyboard option" where
  "process_reports [] kb = Some kb"
| "process_reports ((d, vals, n) # rs) kb = do { kb \<leftarrow> process_report d vals n kb; process_reports rs kb }"

lemma process_reports_wf:
  "kb_follows kb0 kb \<Longrightarrow> \<forall>(d, vals, n) \<in> set rs. unat n \<le> length vals \<Longrightarrow> \<exists>kb'. process_reports rs kb = Some kb' \<and> kb_follows kb0 kb'"
proof (induction rs kb rule: process_reports.induct)
  case (2 d vals n rs kb)
  then show ?case using process_report_wf [of kb0 kb n vals d] by fastforce
qed simp

lemma process_reports_append: "process_reports (rs @ rs') kb = Option.bind (process_reports rs kb) (process_reports rs')"
proof (induction rs kb rule: process_reports.induct)
  case (2 d vals n rs kb)
  then show ?case by (cases "process_report d vals n kb") auto
qed simp

lemma kb_follows_start: "kb_receiver kb \<Longrightarrow> length (kb_key_pressed kb) = max_scancode_idx + 1 \<Longrightarrow> kb_follows kb kb"
  by (simp add: kb_follows_def)

text \<open>
  C25. Presses and releases balance. From any state of a keyboard that has a receiver, whatever its array of pressed keys holds (the constructor does not initialise it), after
  any sequence of reports the messages sent are such that for each key the presses, and the scan codes of the key that were marked as pressed at first, are as many as the releases and the scan
  codes that are marked as pressed now. No report makes the driver panic, and the keys it takes for pressed are those of the last report.
\<close>

theorem keys_balanced:
  assumes "kb_receiver kb0" and "length (kb_key_pressed kb0) = max_scancode_idx + 1"
    and "\<forall>(d, vals, n) \<in> set (rs @ [(d, vals, n)]). unat n \<le> length vals"
  shows "\<exists>kb pressed s. process_reports (rs @ [(d, vals, n)]) kb0 = Some kb \<and>
    (\<forall>key. messages_for SM_KEYDOWN key kb + messages_for SM_KEYUP key kb0 + card (pressed_set key kb0) =
       messages_for SM_KEYUP key kb + messages_for SM_KEYDOWN key kb0 + card (pressed_set key kb)) \<and>
    scan_report (input_fields d) vals n 0 (replicate (max_scancode_idx + 1) False) no_special_keys = Some (pressed, s) \<and>
    (\<forall>j. 1 \<le> j \<and> j \<le> max_scancode_idx \<longrightarrow> kb_key_pressed kb ! j = pressed ! j)"
proof -
  obtain k where k: "process_reports rs kb0 = Some k" "kb_follows kb0 k"
    using process_reports_wf [OF kb_follows_start [OF assms(1,2)]] assms(3) by fastforce
  obtain kb pressed s where "process_report d vals n k = Some kb" "kb_follows kb0 kb"
    "scan_report (input_fields d) vals n 0 (replicate (max_scancode_idx + 1) False) no_special_keys = Some (pressed, s)"
    "\<forall>j. 1 \<le> j \<and> j \<le> max_scancode_idx \<longrightarrow> kb_key_pressed kb ! j = pressed ! j"
    using process_report_wf [OF k(2), of n vals d] assms(3) by auto
  then show ?thesis using k(1) by (auto simp: process_reports_append kb_follows_def)
qed

text \<open>A new keyboard whose array happened to hold zeros, and two reports with the key A.\<close>

definition one_key_report :: "decoded_descriptor \<times> u64 list \<times> u16" where
  "one_key_report = (\<lparr>dd_collections = [], input_fields = [(new_field_description INPUT)\<lparr>fd_usage := 0x70000\<rparr>], output_fields = [], feature_fields = []\<rparr>, [4], 1)"

definition zero_keyboard :: keyboard where
  "zero_keyboard = set_receiver True (new_keyboard (replicate 232 False))"

lemma zero_keyboard_sel: "kb_receiver zero_keyboard" "length (kb_key_pressed zero_keyboard) = max_scancode_idx + 1"
  "messages_for mid key zero_keyboard = 0" "pressed_set key zero_keyboard = {}"
  by (auto simp: zero_keyboard_def set_receiver_def new_keyboard_def max_scancode_idx_def messages_for_def pressed_set_def)

theorem keys_balanced_witness:
  "\<exists>kb. process_reports [one_key_report, one_key_report] zero_keyboard = Some kb \<and> kb_key_pressed kb ! 4 \<and> 0 < messages_for SM_KEYDOWN 65 kb"
proof -
  obtain d vals n where r: "one_key_report = (d, vals, n)" "input_fields d = [(new_field_description INPUT)\<lparr>fd_usage := 0x70000\<rparr>]" "vals = [4]" "n = 1"
    by (simp add: one_key_report_def)
  have h: "\<forall>(d, vals, n) \<in> set ([one_key_report] @ [(d, vals, n)]). unat n \<le> length vals" using r(3,4) by (simp add: one_key_report_def)
  obtain kb pressed s where kb: "process_reports ([one_key_report] @ [(d, vals, n)]) zero_keyboard = Some kb"
    "\<forall>key. messages_for SM_KEYDOWN key kb + messages_for SM_KEYUP key zero_keyboard + card (pressed_set key zero_keyboard) =
       messages_for SM_KEYUP key kb + messages_for SM_KEYDOWN key zero_keyboard + card (pressed_set key kb)"
    "scan_report (input_fields d) vals n 0 (replicate (max_scancode_idx + 1) False) no_special_keys = Some (pressed, s)"
    "\<forall>j. 1 \<le> j \<and> j \<le> max_scancode_idx \<longrightarrow> kb_key_pressed kb ! j = pressed ! j"
    using keys_balanced [OF zero_keyboard_sel(1,2) h] by blast
  have "pressed = (replicate 232 False)[4 := True]" using kb(3) r(2,3,4) by (simp add: max_scancode_idx_def)
  then have p: "kb_key_pressed kb ! 4" using kb(4) by (simp add: max_scancode_idx_def)
  moreover have "scancode_map ! 4 = 65" by (simp add: scancode_map_def)
  ultimately have "4 \<in> pressed_set 65 kb" by (simp add: pressed_set_def max_scancode_idx_def)
  then have "0 < card (pressed_set 65 kb)" by (auto simp: card_gt_0_iff)
  then show ?thesis using kb(1) kb(2) [rule_format, of 65] p r(1) by (auto simp: zero_keyboard_sel)
qed

text \<open>
  What the missing initialisation does: when the memory of a new keyboard was not zero, the first report sends a message of a release for a key that was never pressed.
\<close>

theorem release_never_pressed:
  "case process_reports [one_key_report] (set_receiver True (new_keyboard ((replicate 232 False)[5 := True]))) of
     None \<Rightarrow> False | Some kb \<Rightarrow> messages_for SM_KEYUP 66 kb = 1 \<and> messages_for SM_KEYDOWN 66 kb = 0"
  by code_simp

end
