(* ===== verification/Gen_Terminal.thy ===== *)
theory Gen_Terminal
  imports Pipe_Fs Syscall_Handles
begin

text \<open>
  Terminals: \<open>kernel/devices/generic/gen_terminal.cpp\<close>. A terminal collects the keys that are typed into a line, which it edits and sends to the standard input of a program, and writes what the program sends
  to its screen. Both streams are pipes, as the kernel sets them up at start-up, and are those of \<open>Pipe_Fs\<close>. What reaches the screen is a list of bytes here; subclasses draw it.
\<close>

subsection \<open>Operations\<close>

datatype term_newline_mode = NO_CHANGE | CR_TO_CRLF | LF_TO_CRLF

record terminal_opts =
  input_return_is_newline :: bool
  input_newline_is_return :: bool
  line_discipline :: bool
  char_7f_is_backspace :: bool
  output_newline :: term_newline_mode

definition default_opts :: terminal_opts where
  "default_opts = \<lparr>input_return_is_newline = True, input_newline_is_return = False, line_discipline = True, char_7f_is_backspace = True, output_newline = LF_TO_CRLF\<rparr>"

definition command_buffer_size :: nat where
  "command_buffer_size = 80"

text \<open>The pipe behind the standard output has its flag for blocking reads beside it.\<close>

record terminal =
  term_status :: OPER_STATUS
  filters :: terminal_opts
  command_buffer :: "u8 list"
  command_buffer_pos :: nat
  screen :: "u8 list"
  stdin_writer :: "pipe_branch option"
  stdout_reader :: "(bool \<times> pipe_branch) option"

definition term_new :: "u8 \<Rightarrow> pipe_branch option \<Rightarrow> terminal" where
  "term_new junk keyboard_pipe = \<lparr>term_status = OPER_UNKNOWN, filters = default_opts, command_buffer = replicate command_buffer_size junk, command_buffer_pos = 0,
     screen = [], stdin_writer = keyboard_pipe, stdout_reader = None\<rparr>"

definition term_start :: "terminal \<Rightarrow> bool \<times> terminal" where
  "term_start t = (True, t\<lparr>term_status := OPER_OK\<rparr>)"

definition term_stop :: "terminal \<Rightarrow> bool \<times> terminal" where
  "term_stop t = (True, t\<lparr>term_status := OPER_STOPPED\<rparr>)"

definition term_reset :: "terminal \<Rightarrow> bool \<times> terminal" where
  "term_reset t = (True, t\<lparr>filters := default_opts, term_status := OPER_STOPPED\<rparr>)"

definition write_raw_string :: "u8 list \<Rightarrow> terminal \<Rightarrow> terminal" where
  "write_raw_string s t = (if term_status t = OPER_OK then t\<lparr>screen := screen t @ s\<rparr> else t)"

fun write_string_loop :: "u8 list \<Rightarrow> terminal \<Rightarrow> terminal" where
  "write_string_loop [] t = t"
| "write_string_loop (c # s) t =
     (let t = (if c = 0x0A \<and> output_newline (filters t) = LF_TO_CRLF then write_raw_string [0x0D] t else t);
          t = write_raw_string [c] t;
          t = (if c = 0x0D \<and> output_newline (filters t) = CR_TO_CRLF then write_raw_string [0x0A] t else t)
      in write_string_loop s t)"

definition write_string :: "u8 list \<Rightarrow> terminal \<Rightarrow> terminal" where
  "write_string s t = (if term_status t \<noteq> OPER_OK then t else write_string_loop s t)"

text \<open>The number of characters that \<open>write_string\<close> takes has 16 bits.\<close>

definition term_write_bytes :: "u64 \<Rightarrow> u8 list \<Rightarrow> u64 \<Rightarrow> terminal \<Rightarrow> (ERR_CODE \<times> u64 \<times> terminal) option" where
  "term_write_bytes len buffer buffer_length t = do {
     let true_num_bytes = min len buffer_length;
     let n = unat (ucast true_num_bytes :: u16);
     ASSERT (n \<le> length buffer);
     Some (NO_ERROR, true_num_bytes, write_string (take n buffer) t)
   }"

definition set_filtering_opts :: "terminal_opts \<Rightarrow> terminal \<Rightarrow> terminal" where
  "set_filtering_opts opts t =
     (let t = (if line_discipline opts \<noteq> line_discipline (filters t) then t\<lparr>command_buffer_pos := 0\<rparr> else t) in t\<lparr>filters := opts\<rparr>)"

definition get_options_struct :: "terminal_opts option \<Rightarrow> u64 \<Rightarrow> terminal \<Rightarrow> bool \<times> terminal_opts option" where
  "get_options_struct struct_ptr buffer_length t =
     (if struct_ptr \<noteq> None \<and> buffer_length \<ge> 8 then (True, Some (filters t)) else (False, struct_ptr))"

definition save_options_struct :: "terminal_opts option \<Rightarrow> u64 \<Rightarrow> terminal \<Rightarrow> bool \<times> terminal" where
  "save_options_struct struct_ptr buffer_length t =
     (case struct_ptr of
        Some opts \<Rightarrow> if buffer_length \<ge> 8 then (True, set_filtering_opts opts t) else (False, t)
      | None \<Rightarrow> (False, t))"

definition input_filter :: "terminal_opts \<Rightarrow> u8 \<Rightarrow> u8" where
  "input_filter opts key =
     (if key = 0x0D \<and> input_return_is_newline opts then 0x0A
      else if key = 0x0A \<and> input_newline_is_return opts then 0x0D else key)"

text \<open>Sending bytes to the standard input; the result is not looked at.\<close>

definition send_input :: "nat \<Rightarrow> u8 list \<Rightarrow> nat \<Rightarrow> terminal \<Rightarrow> terminal option" where
  "send_input n buffer buffer_length t =
     (case stdin_writer t of
        None \<Rightarrow> Some t
      | Some p \<Rightarrow> do {
          (_, _, p) \<leftarrow> pipe_write_bytes (of_nat n) (Some buffer) (of_nat buffer_length) (Some p);
          Some (t\<lparr>stdin_writer := p\<rparr>)
        })"

definition store_key :: "u8 \<Rightarrow> terminal \<Rightarrow> terminal option" where
  "store_key key t = do {
     ASSERT (command_buffer_pos t + 1 < length (command_buffer t));
     Some (write_string [key] (t\<lparr>command_buffer := (command_buffer t)[command_buffer_pos t := key, command_buffer_pos t + 1 := 0],
       command_buffer_pos := command_buffer_pos t + 1\<rparr>))
   }"

definition erase_key :: "terminal \<Rightarrow> terminal option" where
  "erase_key t =
     (if command_buffer_pos t > 0 then do {
        ASSERT (command_buffer_pos t - 1 < length (command_buffer t));
        Some (write_string [0x08, 0x20, 0x08] (t\<lparr>command_buffer_pos := command_buffer_pos t - 1, command_buffer := (command_buffer t)[command_buffer_pos t - 1 := 0]\<rparr>))
      } else Some t)"

definition flush_line :: "u8 \<Rightarrow> terminal \<Rightarrow> terminal option" where
  "flush_line key t =
     (if key = 0x0A \<or> command_buffer_pos t = command_buffer_size - 1 then do {
        t \<leftarrow> send_input (command_buffer_pos t) (command_buffer t) command_buffer_size t;
        Some (t\<lparr>command_buffer_pos := 0\<rparr>)
      } else Some t)"

text \<open>The recursive call is made for the character 127, which no filter produces.\<close>

function handle_character :: "u8 \<Rightarrow> terminal \<Rightarrow> terminal option" where
  "handle_character key t =
     (if term_status t \<noteq> OPER_OK then Some t
      else
        (let k = input_filter (filters t) key in
         if line_discipline (filters t) then do {
           t' \<leftarrow>
             (if k = 0x08 then erase_key t
              else if k = 0x7F then
                if key = 0x7F \<and> char_7f_is_backspace (filters t) then handle_character 0x08 t else Some t
              else store_key k t);
           flush_line k t'
         }
         else send_input 1 [k] 1 t))"
  by pat_completeness auto
termination
  by (relation "measure (\<lambda>(key, _). if key = 0x7F then 1 else 0)") auto

declare handle_character.simps [simp del]

text \<open>Reading the standard output, ten bytes at a time, until there is nothing more. A read that has to wait does not return here.\<close>

partial_function (option) drain_output :: "terminal \<Rightarrow> terminal option" where
  "drain_output t =
     (case stdout_reader t of
        None \<Rightarrow> None
      | Some (block, p) \<Rightarrow>
          (case pipe_read_bytes block 10 True 10 (Some p) of
             Some (Read_Done result s p) \<Rightarrow>
               (let t = t\<lparr>stdout_reader := Some (block, p)\<rparr> in
                if result = NO_ERROR \<and> s \<noteq> [] then drain_output (write_string s t) else Some t)
           | Some (Read_Refused result) \<Rightarrow> Some t
           | _ \<Rightarrow> None))"

definition SM_PIPE_NEW_DATA :: u64 where
  "SM_PIPE_NEW_DATA = 7"

definition term_handle_private_msg :: "u64 \<Rightarrow> terminal \<Rightarrow> terminal option" where
  "term_handle_private_msg message_id t =
     (if message_id = SM_PIPE_NEW_DATA \<and> stdout_reader t \<noteq> None then drain_output t else Some t)"


subsection \<open>The line that is typed\<close>

text \<open>
  What a line editor should do, on lists. A key makes a new line, perhaps sends bytes, and shows something. A line is sent when it is complete or as long as the buffer allows; keys for erasing take the last character away.
\<close>

definition output_filter :: "terminal_opts \<Rightarrow> u8 \<Rightarrow> u8 list" where
  "output_filter opts c =
     (if c = 0x0A \<and> output_newline opts = LF_TO_CRLF then [0x0D, 0x0A] else if c = 0x0D \<and> output_newline opts = CR_TO_CRLF then [0x0D, 0x0A] else [c])"

definition edit_key :: "terminal_opts \<Rightarrow> u8 \<Rightarrow> u8 list \<Rightarrow> u8 list \<times> u8 list \<times> u8 list" where
  "edit_key opts key line =
     (let k = input_filter opts key in
      if k = 0x08 \<or> k = 0x7F \<and> char_7f_is_backspace opts then (butlast line, [], if line = [] then [] else [0x08, 0x20, 0x08])
      else if k = 0x7F then (line, [], [])
      else if k = 0x0A \<or> length line = 78 then ([], line @ [k], output_filter opts k)
      else (line @ [k], [], output_filter opts k))"

fun edit_keys :: "terminal_opts \<Rightarrow> u8 list \<Rightarrow> u8 list \<Rightarrow> u8 list \<times> u8 list \<times> u8 list" where
  "edit_keys opts [] line = (line, [], [])"
| "edit_keys opts (k # ks) line =
     (case edit_key opts k line of (line, sent, shown) \<Rightarrow>
        case edit_keys opts ks line of (line, sent', shown') \<Rightarrow> (line, sent @ sent', shown @ shown'))"

fun type_keys :: "u8 list \<Rightarrow> terminal \<Rightarrow> terminal option" where
  "type_keys [] t = Some t"
| "type_keys (k # ks) t = do { t \<leftarrow> handle_character k t; type_keys ks t }"

definition term_line :: "terminal \<Rightarrow> u8 list \<Rightarrow> bool" where
  "term_line t line \<longleftrightarrow> term_status t = OPER_OK \<and> line_discipline (filters t) \<and> length (command_buffer t) = command_buffer_size \<and>
     command_buffer_pos t = length line \<and> length line < 79 \<and> take (length line) (command_buffer t) = line"

lemma write_loop_eq: "term_status t = OPER_OK \<Longrightarrow> write_string_loop s t = t\<lparr>screen := screen t @ concat (map (output_filter (filters t)) s)\<rparr>"
  by (induction s arbitrary: t) (auto simp: Let_def write_raw_string_def output_filter_def)

lemma write_string_eq: "term_status t = OPER_OK \<Longrightarrow> write_string s t = t\<lparr>screen := screen t @ concat (map (output_filter (filters t)) s)\<rparr>"
  by (simp add: write_string_def write_loop_eq)

lemma send_input_pipe:
  assumes "stdin_writer t = Some p" and "pipe_wf p" and "n \<le> length buf" and "n \<le> m" and "m < 2 ^ 16" and "pb_write p + n \<le> NORMAL_BUFFER_SIZE"
  shows "\<exists>p'. send_input n buf m t = Some (t\<lparr>stdin_writer := Some p'\<rparr>) \<and> pipe_wf p' \<and> pipe_contents p' = pipe_contents p @ take n buf \<and> pb_write p' = pb_write p + n"
proof -
  have u: "unat (of_nat n :: u64) = n" "unat (of_nat m :: u64) = m" using assms(4,5) by (simp_all add: unat_of_nat)
  have "n \<le> avail_to_write p" using assms(2,6) by (auto simp: avail_to_write_def pipe_wf_def)
  then have "n = min (unat (of_nat n :: u64)) (min (unat (of_nat m :: u64)) (avail_to_write p))" using u assms(4) by simp
  then obtain p' where "pipe_write_bytes (of_nat n) (Some buf) (of_nat m) (Some p) = Some (NO_ERROR, n, Some p')"
    "pipe_wf p'" "pipe_contents p' = pipe_contents p @ take n buf" "pb_write p' = pb_write p + n"
    using pipe_write_refines [OF assms(2) _ assms(3,6)] by blast
  then show ?thesis using assms(1) by (intro exI [of _ p']) (simp add: send_input_def)
qed

lemma erase_line:
  assumes "term_line t line"
  shows "\<exists>t'. erase_key t = Some t' \<and> term_line t' (butlast line) \<and> filters t' = filters t \<and> stdin_writer t' = stdin_writer t \<and>
    screen t' = screen t @ (if line = [] then [] else [0x08, 0x20, 0x08])"
proof (cases line rule: rev_cases)
  case (snoc l c)
  have "concat (map (output_filter (filters t)) [0x08, 0x20, 0x08]) = [0x08, 0x20, 0x08]" by (simp add: output_filter_def)
  moreover have "take (length l) (take (length line) (command_buffer t)) = take (length l) line" using assms by (simp add: term_line_def del: take_take)
  then have "take (length l) (command_buffer t) = l" using snoc by simp
  ultimately show ?thesis using assms snoc by (simp add: term_line_def erase_key_def write_string_eq command_buffer_size_def)
qed (use assms in \<open>simp add: term_line_def erase_key_def\<close>)

lemma handle_edit:
  assumes "term_line t line" and "stdin_writer t = Some p" and "pipe_wf p" and "edit_key (filters t) key line = (line', sent, shown)"
    and "pb_write p + length sent \<le> NORMAL_BUFFER_SIZE"
  shows "\<exists>t' p'. handle_character key t = Some t' \<and> term_line t' line' \<and> filters t' = filters t \<and> stdin_writer t' = Some p' \<and> pipe_wf p' \<and>
    pipe_contents p' = pipe_contents p @ sent \<and> pb_write p' = pb_write p + length sent \<and> screen t' = screen t @ shown"
proof -
  let ?k = "input_filter (filters t) key"
  have ok: "term_status t = OPER_OK" "line_discipline (filters t)" using assms(1) by (simp_all add: term_line_def)
  have nf: "flush_line k u = Some u" if "term_line u l" "k \<noteq> 0x0A" for k u l using that by (simp add: flush_line_def term_line_def command_buffer_size_def)
  obtain e where e: "erase_key t = Some e" "term_line e (butlast line)" "filters e = filters t" "stdin_writer e = stdin_writer t"
    "screen e = screen t @ (if line = [] then [] else [0x08, 0x20, 0x08])" using erase_line [OF assms(1)] by blast
  have h8: "handle_character 0x08 t = Some e" using ok e(1) nf [OF e(2)] by (subst handle_character.simps) (simp add: input_filter_def)
  have k7: "?k = 0x7F \<Longrightarrow> key = 0x7F" by (auto simp: input_filter_def split: if_splits)
  consider (erase) "?k = 0x08 \<or> ?k = 0x7F \<and> char_7f_is_backspace (filters t)" | (ignore) "?k = 0x7F" "\<not> char_7f_is_backspace (filters t)" | (store) "?k \<noteq> 0x08" "?k \<noteq> 0x7F" by blast
  then show ?thesis
  proof cases
    case erase
    then have "handle_character key t = Some e" using ok e(1) h8 k7 nf [OF e(2), of ?k] by (subst handle_character.simps) (auto simp: Let_def)
    then show ?thesis using erase e assms(2,3,4) by (auto simp: edit_key_def Let_def)
  next
    case ignore
    then have "handle_character key t = Some t" using ok nf [OF assms(1), of ?k] by (subst handle_character.simps) (auto simp: Let_def)
    then show ?thesis using ignore assms by (auto simp: edit_key_def Let_def)
  next
    case store
    define u where "u = t\<lparr>command_buffer := (command_buffer t)[length line := ?k, length line + 1 := 0], command_buffer_pos := length line + 1, screen := screen t @ output_filter (filters t) ?k\<rparr>"
    have l: "length line < 79" "length (command_buffer t) = 80" "take (length line) (command_buffer t) = line" "command_buffer_pos t = length line"
      using assms(1) by (simp_all add: term_line_def command_buffer_size_def)
    have su: "store_key ?k t = Some u" using l ok by (simp add: store_key_def write_string_eq u_def)
    have h: "handle_character key t = flush_line ?k u" using ok su store by (subst handle_character.simps) (simp add: Let_def)
    have tk: "take (length line + 1) (command_buffer u) = line @ [?k]" using l by (simp add: u_def take_Suc_conv_app_nth)
    show ?thesis
    proof (cases "?k = 0x0A \<or> length line = 78")
      case True
      then have s: "line' = []" "sent = line @ [?k]" "shown = output_filter (filters t) ?k" using store assms(4) by (auto simp: edit_key_def Let_def)
      have "\<exists>p'. send_input (length line + 1) (command_buffer u) 80 u = Some (u\<lparr>stdin_writer := Some p'\<rparr>) \<and> pipe_wf p' \<and>
          pipe_contents p' = pipe_contents p @ take (length line + 1) (command_buffer u) \<and> pb_write p' = pb_write p + (length line + 1)"
        using send_input_pipe [of u p "length line + 1" "command_buffer u" 80] assms(2,3,5) l s(2) by (simp add: u_def)
      then show ?thesis using h True s l ok tk by (auto simp: flush_line_def u_def command_buffer_size_def term_line_def)
    next
      case False
      then have s: "line' = line @ [?k]" "sent = []" "shown = output_filter (filters t) ?k" using store assms(4) by (auto simp: edit_key_def Let_def)
      have "term_line u line'" using l ok tk False s(1) by (simp add: term_line_def u_def command_buffer_size_def)
      then show ?thesis using h False nf [of u line' ?k] s assms(2,3) by (simp add: u_def)
    qed
  qed
qed

lemma edit_key_length: "edit_key opts k line = (line', sent, shown) \<Longrightarrow> length sent + length line' \<le> length line + 1"
  by (auto simp: edit_key_def Let_def split: if_splits)

lemma type_keys_edit:
  assumes "term_line t line" and "stdin_writer t = Some p" and "pipe_wf p" and "edit_keys (filters t) ks line = (line', sent, shown)"
    and "pb_write p + length line + length ks \<le> NORMAL_BUFFER_SIZE"
  shows "\<exists>t' p'. type_keys ks t = Some t' \<and> term_line t' line' \<and> stdin_writer t' = Some p' \<and> pipe_wf p' \<and>
    pipe_contents p' = pipe_contents p @ sent \<and> screen t' = screen t @ shown"
  using assms
proof (induction ks arbitrary: t line p sent shown)
  case (Cons k ks)
  obtain l1 s1 e1 where 1: "edit_key (filters t) k line = (l1, s1, e1)" by (metis prod_cases3)
  obtain s2 e2 where 2: "edit_keys (filters t) ks l1 = (line', s2, e2)" "sent = s1 @ s2" "shown = e1 @ e2"
    using Cons.prems(4) 1 by (auto split: prod.splits)
  have len: "length s1 + length l1 \<le> length line + 1" using edit_key_length [OF 1] .
  then have "pb_write p + length s1 \<le> NORMAL_BUFFER_SIZE" using Cons.prems(5) by simp
  then obtain t1 p1 where t1: "handle_character k t = Some t1" "term_line t1 l1" "filters t1 = filters t" "stdin_writer t1 = Some p1" "pipe_wf p1"
    "pipe_contents p1 = pipe_contents p @ s1" "pb_write p1 = pb_write p + length s1" "screen t1 = screen t @ e1"
    using handle_edit [OF Cons.prems(1,2,3) 1] by blast
  have "pb_write p1 + length l1 + length ks \<le> NORMAL_BUFFER_SIZE" using len t1(7) Cons.prems(5) by simp
  then show ?case using Cons.IH [OF t1(2,4,5), of s2 e2] 2 t1 by auto
qed simp

text \<open>
  C16. Typing. A running terminal in line mode, whatever keys are typed, does what a line editor on lists does: the unfinished line, the bytes that have arrived in the pipe for the program, and what has been shown on the screen are those of
  the editor. The buffer for the line is never overrun. The pipe has to have room, as it is not written around its end.
\<close>

theorem typed_lines:
  assumes "term_line t line" and "stdin_writer t = Some p" and "pipe_wf p" and "edit_keys (filters t) ks line = (line', sent, shown)"
    and "pb_write p + length line + length ks \<le> NORMAL_BUFFER_SIZE"
  shows "\<exists>t' p'. type_keys ks t = Some t' \<and> term_line t' line' \<and> stdin_writer t' = Some p' \<and>
    pipe_contents p' = pipe_contents p @ sent \<and> screen t' = screen t @ shown"
  using type_keys_edit [OF assms] by blast

theorem typed_lines_witness:
  "\<exists>t p. type_keys [0x61, 0x62, 0x7F, 0x63, 0x0D, 0x64] (snd (term_start (term_new 0 (Some (pipe_create 0))))) = Some t \<and>
     stdin_writer t = Some p \<and> pipe_contents p = [0x61, 0x63, 0x0A] \<and> term_line t [0x64]"
proof -
  let ?t = "snd (term_start (term_new 0 (Some (pipe_create 0))))"
  have "term_line ?t []" by (simp add: term_line_def term_start_def term_new_def default_opts_def)
  moreover have "stdin_writer ?t = Some (pipe_create 0)" by (simp add: term_start_def term_new_def)
  moreover have "edit_keys (filters ?t) [0x61, 0x62, 0x7F, 0x63, 0x0D, 0x64] [] =
      ([0x64], [0x61, 0x63, 0x0A], [0x61, 0x62, 0x08, 0x20, 0x08, 0x63, 0x0D, 0x0A, 0x64])"
    by (simp add: term_start_def term_new_def default_opts_def edit_key_def input_filter_def output_filter_def)
  ultimately show ?thesis using typed_lines [of ?t "[]" "pipe_create 0"] pipe_create_wf [of 0] by (fastforce simp: NORMAL_BUFFER_SIZE_def)
qed

subsection \<open>What a program shows\<close>

lemma drain_all:
  assumes "term_status t = OPER_OK" and "stdout_reader t = Some (False, p)" and "pipe_wf p"
  shows "\<exists>t' p'. drain_output t = Some t' \<and> screen t' = screen t @ concat (map (output_filter (filters t)) (pipe_contents p)) \<and>
    stdout_reader t' = Some (False, p') \<and> pipe_contents p' = []"
  using assms
proof (induction "length (pipe_contents p)" arbitrary: t p rule: less_induct)
  case less
  have m: "take (min 10 (length c)) c = take 10 c" "drop (min 10 (length c)) c = drop 10 c" for c :: "u8 list" by (auto simp: min_def)
  obtain p' where r: "pipe_read_bytes False 10 True 10 (Some p) = Some (Read_Done NO_ERROR (take 10 (pipe_contents p)) p')"
    "pipe_wf p'" "pipe_contents p' = drop 10 (pipe_contents p)"
    using pipe_read_refines [OF less.prems(3) refl, of False 10 10] by (auto simp: m)
  let ?t = "t\<lparr>stdout_reader := Some (False, p')\<rparr>"
  show ?case
  proof (cases "pipe_contents p = []")
    case True
    then show ?thesis using r less.prems by (subst drain_output.simps) simp
  next
    case False
    let ?u = "write_string (take 10 (pipe_contents p)) ?t"
    have u: "?u = ?t\<lparr>screen := screen t @ concat (map (output_filter (filters t)) (take 10 (pipe_contents p)))\<rparr>"
      using write_string_eq [of ?t] less.prems(1) by simp
    have "drain_output t = drain_output ?u" using False r less.prems by (subst drain_output.simps) simp
    moreover have "\<exists>t' q. drain_output ?u = Some t' \<and> screen t' = screen ?u @ concat (map (output_filter (filters ?u)) (pipe_contents p')) \<and>
        stdout_reader t' = Some (False, q) \<and> pipe_contents q = []"
      using less.hyps [of p' ?u] False r(2,3) u less.prems(1) by simp
    moreover have "concat (map F (take 10 (pipe_contents p))) @ concat (map F (pipe_contents p')) = concat (map F (pipe_contents p))" for F :: "u8 \<Rightarrow> u8 list"
      using r(3) by (metis append_take_drop_id concat_append map_append)
    ultimately show ?thesis using u by simp
  qed
qed

text \<open>
  C27. Output. When a running terminal is told that there is new data, and reads of its pipe do not block, it shows everything that is in the pipe, in order and with new lines translated as its options say; the loop ends and the pipe is empty.
\<close>

theorem output_shown:
  assumes "term_status t = OPER_OK" and "stdout_reader t = Some (False, p)" and "pipe_wf p"
  shows "\<exists>t' p'. term_handle_private_msg SM_PIPE_NEW_DATA t = Some t' \<and> screen t' = screen t @ concat (map (output_filter (filters t)) (pipe_contents p)) \<and>
    stdout_reader t' = Some (False, p') \<and> pipe_contents p' = []"
  using drain_all [OF assms] assms(2) by (simp add: term_handle_private_msg_def)

theorem output_shown_witness:
  "\<exists>p t. pipe_write_bytes 2 (Some [0x61, 0x0A]) 2 (Some (pipe_create 0)) = Some (NO_ERROR, 2, Some p) \<and>
     term_handle_private_msg SM_PIPE_NEW_DATA (snd (term_start (term_new 0 None)) \<lparr>stdout_reader := Some (False, p)\<rparr>) = Some t \<and> screen t = [0x61, 0x0D, 0x0A]"
proof -
  obtain p where p: "pipe_write_bytes 2 (Some [0x61, 0x0A]) 2 (Some (pipe_create 0)) = Some (NO_ERROR, 2, Some p)" "pipe_wf p" "pipe_contents p = [0x61, 0x0A]"
    using pipe_write_refines [OF pipe_create_wf(1), of 2 2 2 0 "[0x61, 0x0A]"] pipe_create_wf [of 0]
    by (auto simp: avail_to_write_def NORMAL_BUFFER_SIZE_def pipe_create_def)
  let ?t = "snd (term_start (term_new 0 None)) \<lparr>stdout_reader := Some (False, p)\<rparr>"
  have "term_status ?t = OPER_OK" "stdout_reader ?t = Some (False, p)" by (simp_all add: term_start_def)
  then show ?thesis using output_shown [of ?t p] p by (auto simp: term_start_def term_new_def output_filter_def default_opts_def)
qed

text \<open>A program that writes 65536 bytes to a terminal is told that all were written; none is.\<close>

lemma term_write_truncated:
  "term_write_bytes 65536 buf 65536 t = Some (NO_ERROR, 65536, t)"
  by (simp add: term_write_bytes_def write_string_def)

end
