(* ===== verification/Fat_Chain.thy ===== *)
theory Fat_Chain
  imports Fat_Table
begin

text \<open>
  The chains of clusters of a FAT volume: finding a free cluster, writing the table back to the device and changing the length of a chain, from
  \<open>kernel/system_tree/fs/fat/fat_fs.cpp\<close>. The effect on the table is stated over the function \<^const>\<open>fat_map\<close>; what
  reaches the device, for any device with the contract \<open>block_device\<close>.
\<close>

subsection \<open>Operations\<close>

fun free_cluster_loop :: "nat \<Rightarrow> u64 \<Rightarrow> ('d, 'z) fat_fs_scheme \<Rightarrow> (ERR_CODE \<times> u64 option) option" where
  "free_cluster_loop 0 i fs = Some (OUT_OF_RESOURCE, None)"
| "free_cluster_loop (Suc n) i fs = do {
     fat_entry \<leftarrow> read_fat_entry fs i;
     if fat_entry = 0 then Some (NO_ERROR, Some i) else free_cluster_loop n (i + 1) fs
   }"

definition select_free_cluster :: "('d, 'z) fat_fs_scheme \<Rightarrow> (ERR_CODE \<times> u64 option) option" where
  "select_free_cluster fs = free_cluster_loop (unat (number_of_clusters fs + 1) - 2) 2 fs"

definition fat_sectors :: "('d, 'z) fat_fs_scheme \<Rightarrow> u64" where
  "fat_sectors fs = (if fat_type fs = FAT32 then ucast (fat_size_32 (fs_bpb fs)) else ucast (fat_size_16 (shared (fs_bpb fs))))"

definition write_fat_to_disk :: "'d block_ops \<Rightarrow> ('d, 'z) fat_fs_scheme \<Rightarrow> (ERR_CODE \<times> ('d, 'z) fat_fs_scheme) option" where
  "write_fat_to_disk ops fs = do {
     (r, dev) \<leftarrow> op_write ops (fs_storage fs) (ucast (rsvd_sec_cnt (shared (fs_bpb fs)))) (fat_sectors fs)
       (Some (raw_fat fs)) (fat_length_bytes fs);
     Some (r, fs\<lparr>fs_storage := dev, fat_dirty := False\<rparr>)
   }"

text \<open>
  The loop of \<open>change_file_chain_length\<close>: \<open>n\<close> rounds are left, the chain has \<open>cur_chain_length\<close> clusters up to \<open>cur\<close>. A
  round in which no free cluster is found is the last one.
\<close>

fun chain_loop :: "nat \<Rightarrow> u64 \<Rightarrow> u64 \<Rightarrow> u64 \<Rightarrow> u64 \<Rightarrow> ('d, 'z) fat_fs_scheme \<Rightarrow> (ERR_CODE \<times> ('d, 'z) fat_fs_scheme) option" where
  "chain_loop 0 cur_chain_length old_len new_len cur fs = Some (NO_ERROR, fs)"
| "chain_loop (Suc n) cur_chain_length old_len new_len cur fs =
     (if cur_chain_length = new_len then do {
        next_cluster \<leftarrow> read_fat_entry fs cur;
        (_, fs) \<leftarrow> write_fat_entry cur 0xFFFFFFFF fs;
        chain_loop n (cur_chain_length + 1) old_len new_len next_cluster fs
      } else if cur_chain_length > new_len then do {
        next_cluster \<leftarrow> read_fat_entry fs cur;
        (_, fs) \<leftarrow> write_fat_entry cur 0 fs;
        chain_loop n (cur_chain_length + 1) old_len new_len next_cluster fs
      } else if cur_chain_length < new_len \<and> cur_chain_length \<ge> old_len then do {
        (result, free_cluster) \<leftarrow> select_free_cluster fs;
        case free_cluster of
          None \<Rightarrow> Some (result, fs)
        | Some next_cluster \<Rightarrow> do {
            (_, fs) \<leftarrow> write_fat_entry cur next_cluster fs;
            chain_loop n (cur_chain_length + 1) old_len new_len next_cluster fs
          }
      } else do {
        next_cluster \<leftarrow> read_fat_entry fs cur;
        chain_loop n (cur_chain_length + 1) old_len new_len next_cluster fs
      })"

definition change_file_chain_length ::
  "'d block_ops \<Rightarrow> u64 \<Rightarrow> u64 \<Rightarrow> u64 \<Rightarrow> ('d, 'z) fat_fs_scheme \<Rightarrow> (ERR_CODE \<times> u64 \<times> ('d, 'z) fat_fs_scheme) option" where
  "change_file_chain_length ops start_cluster old_len new_len fs =
     (if (old_len \<noteq> 0 \<and> \<not> is_normal_cluster_number fs start_cluster) \<or> (start_cluster = 0 \<and> old_len \<noteq> 0)
      then Some (INVALID_PARAM, start_cluster, fs)
      else if old_len \<noteq> new_len then do {
        let rounds = unat (if old_len > new_len then old_len else new_len);
        (result, start_cluster) \<leftarrow>
          (if start_cluster = 0 then do {
             (result, free_cluster) \<leftarrow> select_free_cluster fs;
             Some (result, case free_cluster of None \<Rightarrow> start_cluster | Some c \<Rightarrow> c) }
           else Some (NO_ERROR, start_cluster));
        (result, fs) \<leftarrow> (if result = NO_ERROR then chain_loop rounds 1 old_len new_len start_cluster fs else Some (result, fs));
        (_, fs) \<leftarrow> write_fat_to_disk ops fs;
        Some (result, start_cluster, fs)
      } else Some (NO_ERROR, start_cluster, fs))"

subsection \<open>Free clusters and chains\<close>

text \<open>The free clusters that \<open>select_free_cluster\<close> looks at, which leaves out the last one.\<close>

definition free_list :: "('d, 'z) fat_fs_scheme \<Rightarrow> u64 list" where
  "free_list fs = filter (\<lambda>c. fat_map fs c = 0) (map of_nat [2 ..< unat (number_of_clusters fs) + 1])"

lemma free_cluster_loop_filter:
  assumes "fat_wf fs"
  shows "free_cluster_loop (n - i) (of_nat i) fs =
    Some (case filter (\<lambda>c. fat_map fs c = 0) (map of_nat [i ..< n]) of
      [] \<Rightarrow> (OUT_OF_RESOURCE, None) | c # _ \<Rightarrow> (NO_ERROR, Some c))"
proof (induction "n - i" arbitrary: i)
  case (Suc k)
  then have i: "i < n" "k = n - Suc i" by auto
  have "of_nat i + 1 = (of_nat (Suc i) :: u64)" by simp
  then show ?case
    using Suc(1) [OF i(2)] i(1) by (simp add: Suc(2) [symmetric] upt_conv_Cons i(2) read_fat_entry_map [OF assms] del: of_nat_Suc)
qed simp

lemma select_free_cluster_spec:
  assumes "fat_wf fs"
  shows "select_free_cluster fs =
    Some (case free_list fs of [] \<Rightarrow> (OUT_OF_RESOURCE, None) | c # _ \<Rightarrow> (NO_ERROR, Some c))"
proof -
  have "unat (number_of_clusters fs + 1) = unat (number_of_clusters fs) + 1"
    using clusters_small [OF assms] by (simp add: unat_add_no_wrap)
  then show ?thesis
    using free_cluster_loop_filter [OF assms, of "unat (number_of_clusters fs) + 1" 2]
    by (simp add: select_free_cluster_def free_list_def)
qed

lemma free_list_valid:
  assumes "fat_wf fs" "c \<in> set (free_list fs)"
  shows "valid_cluster fs c" "fat_map fs c = 0" "c \<noteq> 0"
proof -
  obtain n where n: "c = of_nat n" "2 \<le> n" "n < unat (number_of_clusters fs) + 1" and m: "fat_map fs c = 0"
    using assms(2) by (auto simp: free_list_def)
  have "unat c = n" using n clusters_small [OF assms(1)] by (simp add: unat_of_nat)
  then show "valid_cluster fs c" "fat_map fs c = 0" "c \<noteq> 0" using n m assms(1) by (auto simp: valid_cluster_nat)
qed

lemma distinct_free_list: "fat_wf fs \<Longrightarrow> distinct (free_list fs)"
proof -
  assume w: "fat_wf fs"
  have "inj_on (of_nat :: nat \<Rightarrow> u64) {2 ..< unat (number_of_clusters fs) + 1}"
    using clusters_small [OF w] by (intro inj_onI) (auto simp: of_nat_inverse dest: arg_cong [of _ _ unat])
  then show ?thesis unfolding free_list_def by (intro distinct_filter) (simp only: distinct_map distinct_upt set_upt simp_thms)
qed

lemma entry_trunc_valid:
  assumes "fat_wf fs" "valid_cluster fs c"
  shows "entry_trunc (fat_type fs) c = c"
proof -
  have "unat c < 2 ^ entry_bits (fat_type fs)"
    using assms by (auto simp: valid_cluster_nat fat_wf_def max_clusters_def entry_bits_def split: FAT_TYPE.splits)
  then show ?thesis by (simp add: entry_trunc_def word_unat_eq_iff unat_take_bit_mod)
qed

lemma entry_trunc_0 [simp]: "entry_trunc ty 0 = 0"
  by (simp add: entry_trunc_def)

text \<open>The mark at the end of a chain.\<close>

definition eoc :: "('d, 'z) fat_fs_scheme \<Rightarrow> u64" where
  "eoc fs = entry_trunc (fat_type fs) 0xFFFFFFFF"

lemma eoc_not_normal: "\<not> is_normal_cluster_number fs (eoc fs)"
  by (cases "fat_type fs") (simp_all add: eoc_def entry_trunc_def entry_bits_def is_normal_cluster_number_def take_bit_eq_mod)

lemma eoc_marks: "eoc fs = (case fat_type fs of FAT12 \<Rightarrow> 0xFFF | FAT16 \<Rightarrow> 0xFFFF | FAT32 \<Rightarrow> 0x0FFFFFFF)"
  by (cases "fat_type fs") (simp_all add: eoc_def entry_trunc_def entry_bits_def take_bit_eq_mod)

lemma eoc_not_0 [simp]: "eoc fs \<noteq> 0"
  by (cases "fat_type fs") (simp_all add: eoc_def entry_trunc_def entry_bits_def take_bit_eq_mod)

text \<open>The chain of clusters from a first one: every cluster is a normal one of the volume, the last one's entry is not a normal cluster.\<close>

fun fat_chain :: "('d, 'z) fat_fs_scheme \<Rightarrow> u64 \<Rightarrow> u64 list \<Rightarrow> bool" where
  "fat_chain fs c [] \<longleftrightarrow> \<not> is_normal_cluster_number fs c"
| "fat_chain fs c (d # ds) \<longleftrightarrow> c = d \<and> is_normal_cluster_number fs d \<and> valid_cluster fs d \<and> fat_chain fs (fat_map fs d) ds"

lemma normal_not_0: "is_normal_cluster_number fs c \<Longrightarrow> c \<noteq> 0"
  by (auto simp: is_normal_cluster_number_def)

lemma chain_start: "fat_chain fs c cs \<Longrightarrow> cs \<noteq> [] \<Longrightarrow> is_normal_cluster_number fs c \<and> c \<noteq> 0 \<and> valid_cluster fs c"
  by (cases cs) (auto dest: normal_not_0)

lemma chain_unique: "fat_chain fs c cs \<Longrightarrow> fat_chain fs c ds \<Longrightarrow> cs = ds"
proof (induction cs arbitrary: c ds)
  case Nil
  then show ?case by (cases ds) auto
next
  case (Cons a cs)
  then show ?case by (cases ds) auto
qed

lemma chain_suffix: "fat_chain fs c (xs @ d # ys) \<Longrightarrow> fat_chain fs d (d # ys)"
  by (induction xs arbitrary: c) auto

lemma chain_distinct: "fat_chain fs c cs \<Longrightarrow> distinct cs"
proof (induction cs arbitrary: c)
  case (Cons d ds)
  have "d \<notin> set ds"
  proof
    assume "d \<in> set ds"
    then obtain xs ys where ds: "ds = xs @ d # ys" by (auto dest: split_list)
    have "fat_chain fs d (d # ys)" using Cons.prems chain_suffix [of fs c "d # xs" d ys] ds by simp
    moreover have "fat_chain fs d (d # ds)" using Cons.prems by auto
    ultimately have "d # ys = d # ds" by (rule chain_unique)
    then show False using ds by (auto dest: arg_cong [of _ _ length])
  qed
  then show ?case using Cons by auto
qed simp

text \<open>The fat_links of a list of clusters, without the condition on the last one.\<close>

abbreviation linked :: "('d, 'z) fat_fs_scheme \<Rightarrow> u64 list \<Rightarrow> bool" where
  "linked fs cs \<equiv> successively (\<lambda>a b. fat_map fs a = b) cs"

lemma chain_linked:
  "cs \<noteq> [] \<Longrightarrow> fat_chain fs c cs \<longleftrightarrow> c = hd cs \<and> linked fs cs \<and> (\<forall>d\<in>set cs. is_normal_cluster_number fs d \<and> valid_cluster fs d)
     \<and> \<not> is_normal_cluster_number fs (fat_map fs (last cs))"
proof (induction cs arbitrary: c)
  case (Cons d ds)
  then show ?case by (cases ds) (auto simp: successively_Cons)
qed simp


lemma linked_cong: "(\<And>d. d \<in> set cs \<Longrightarrow> fat_map fs' d = fat_map fs d) \<Longrightarrow> linked fs' cs = linked fs cs"
  by (rule successively_cong) auto

text \<open>A write keeps everything but the table.\<close>

lemma fat_same_refl: "fat_same fs fs"
  by (simp add: fat_same_def)

lemma fat_same_trans: "fat_same fs fs' \<Longrightarrow> fat_same fs' fs'' \<Longrightarrow> fat_same fs fs''"
  by (cases fs, cases fs', cases fs'') (simp add: fat_same_def)

lemma fat_same_fields:
  assumes "fat_same fs fs'"
  shows "fat_type fs' = fat_type fs" "number_of_clusters fs' = number_of_clusters fs" "fs_bpb fs' = fs_bpb fs"
    "fs_storage fs' = fs_storage fs" "fat_length_bytes fs' = fat_length_bytes fs" "first_data_sector fs' = first_data_sector fs"
    "max_sectors fs' = max_sectors fs" "length (raw_fat fs') = length (raw_fat fs)"
    "valid_cluster fs' = valid_cluster fs" "is_normal_cluster_number fs' = is_normal_cluster_number fs" "eoc fs' = eoc fs"
proof -
  have e: "fs' = fs\<lparr>raw_fat := raw_fat fs', fat_dirty := fat_dirty fs'\<rparr>" and l: "length (raw_fat fs') = length (raw_fat fs)"
    using assms by (simp_all add: fat_same_def)
  show "length (raw_fat fs') = length (raw_fat fs)" by (rule l)
  show t: "fat_type fs' = fat_type fs" "number_of_clusters fs' = number_of_clusters fs" "fs_bpb fs' = fs_bpb fs"
    "fs_storage fs' = fs_storage fs" "fat_length_bytes fs' = fat_length_bytes fs" "first_data_sector fs' = first_data_sector fs"
    "max_sectors fs' = max_sectors fs"
    by (subst e, simp)+
  show "valid_cluster fs' = valid_cluster fs" "is_normal_cluster_number fs' = is_normal_cluster_number fs" "eoc fs' = eoc fs"
    using t by (auto simp: fun_eq_iff valid_cluster_def is_normal_cluster_number_def eoc_def)
qed

text \<open>Walking along the part of the chain that is kept.\<close>

lemma chain_loop_walk:
  assumes "fat_wf fs" "linked fs (ys @ [e])" "unat i + length ys \<le> unat old" "unat i + length ys \<le> unat new"
  shows "chain_loop (length ys + n) i old new (hd (ys @ [e])) fs = chain_loop n (i + of_nat (length ys)) old new e fs"
  using assms(2-)
proof (induction ys arbitrary: i)
  case (Cons y ys)
  have i: "unat (i + 1) = unat i + 1" using Cons.prems(2) unat_lt_u64 [of old] by (simp add: unat_add_no_wrap)
  have "\<not> i = new" "\<not> i > new" "\<not> i \<ge> old" using Cons.prems(2,3) by (auto simp: word_less_nat_alt word_le_nat_alt)
  moreover have "fat_map fs y = hd (ys @ [e])" using Cons.prems(1) by (cases ys) auto
  moreover have "linked fs (ys @ [e])" using Cons.prems(1) by (auto simp: successively_Cons)
  ultimately show ?case
    using Cons.IH [of "i + 1"] Cons.prems(2,3) i by (simp add: read_fat_entry_map [OF assms(1)] add.assoc)
qed simp

text \<open>Clearing the clusters that are given up.\<close>

lemma chain_loop_clear:
  assumes "fat_wf fs" "linked fs ds" "distinct ds" "\<forall>d\<in>set ds. valid_cluster fs d" "unat new < unat i" "unat i + length ds < 2 ^ 64"
    and "ds \<noteq> [] \<Longrightarrow> c = hd ds"
  obtains fs' where "chain_loop (length ds) i old new c fs = Some (NO_ERROR, fs')" "fat_wf fs'" "fat_same fs fs'"
    "fat_map fs' = (\<lambda>d. if d \<in> set ds then 0 else fat_map fs d)"
  using assms
proof (induction ds arbitrary: i c fs thesis)
  case Nil
  show ?case by (rule Nil(1) [of fs]) (use Nil in \<open>simp_all add: fat_same_refl\<close>)
next
  case (Cons d ds)
  have c: "c = d" using Cons.prems by simp
  obtain f where f: "write_fat_entry d 0 fs = Some (UNKNOWN, f)" "fat_wf f" "fat_same fs f" "fat_map f = (fat_map fs)(d := 0)"
    using write_fat_entry_refines [OF Cons.prems(2), of d 0] Cons.prems(5) by auto
  have i: "unat (i + 1) = unat i + 1" using Cons.prems(7) by (simp add: unat_add_no_wrap)
  have "linked f ds = linked fs ds" using Cons.prems(4) f(4) by (intro linked_cong) auto
  then have l: "linked f ds" using Cons.prems(3) by (auto simp: successively_Cons)
  have v: "\<forall>d\<in>set ds. valid_cluster f d" using Cons.prems(5) fat_same_fields(9) [OF f(3)] by simp
  have n: "ds \<noteq> [] \<Longrightarrow> fat_map fs d = hd ds" using Cons.prems(3) by (cases ds) auto
  obtain fs' where fs': "chain_loop (length ds) (i + 1) old new (fat_map fs d) f = Some (NO_ERROR, fs')" "fat_wf fs'" "fat_same f fs'"
    "fat_map fs' = (\<lambda>c. if c \<in> set ds then 0 else fat_map f c)"
    using Cons.IH [OF _ f(2) l _ v _ _ n, of "i + 1"] Cons.prems(4,6,7) i by auto
  have "chain_loop (length (d # ds)) i old new c fs = Some (NO_ERROR, fs')"
    using Cons.prems(6) c f(1) fs'(1) by (auto simp: read_fat_entry_map [OF Cons.prems(2)] word_less_nat_alt)
  then show ?case
    using Cons.prems(1) [of fs'] fs'(2,4) fat_same_trans [OF f(3) fs'(3)] f(4) by (auto simp: fun_eq_iff)
qed


text \<open>Cutting a chain after its first clusters.\<close>

lemma chain_loop_cut:
  assumes "fat_wf fs" "linked fs (e # ds)" "distinct (e # ds)" "\<forall>d\<in>set (e # ds). valid_cluster fs d" "unat new + length ds < 2 ^ 64 - 1"
  obtains fs' where "chain_loop (Suc (length ds)) new old new e fs = Some (NO_ERROR, fs')" "fat_wf fs'" "fat_same fs fs'"
    "fat_map fs' = (\<lambda>d. if d \<in> set ds then 0 else if d = e then eoc fs else fat_map fs d)"
proof -
  obtain f where f: "write_fat_entry e 0xFFFFFFFF fs = Some (UNKNOWN, f)" "fat_wf f" "fat_same fs f" "fat_map f = (fat_map fs)(e := eoc fs)"
    using write_fat_entry_refines [OF assms(1), of e "0xFFFFFFFF"] assms(4) by (auto simp: eoc_def)
  have i: "unat (new + 1) = unat new + 1" using assms(5) by (simp add: unat_add_no_wrap)
  have "linked f ds = linked fs ds" using assms(3) f(4) by (intro linked_cong) auto
  then have l: "linked f ds" using assms(2) by (auto simp: successively_Cons)
  have v: "\<forall>d\<in>set ds. valid_cluster f d" using assms(4) fat_same_fields(9) [OF f(3)] by simp
  have n: "ds \<noteq> [] \<Longrightarrow> fat_map fs e = hd ds" using assms(2) by (cases ds) auto
  obtain fs' where fs': "chain_loop (length ds) (new + 1) old new (fat_map fs e) f = Some (NO_ERROR, fs')" "fat_wf fs'" "fat_same f fs'"
    "fat_map fs' = (\<lambda>c. if c \<in> set ds then 0 else fat_map f c)"
    using chain_loop_clear [OF f(2) l _ v _ _ n, of new "new + 1"] assms(3,5) i by auto
  have "chain_loop (Suc (length ds)) new old new e fs = Some (NO_ERROR, fs')"
    using f(1) fs'(1) by (simp add: read_fat_entry_map [OF assms(1)])
  then show thesis using that [of fs'] fs'(2,4) fat_same_trans [OF f(3) fs'(3)] f(4) by (auto simp: fun_eq_iff)
qed

lemma chain_loop_shrink:
  assumes "fat_wf fs" "fat_chain fs s xs" "length xs = unat old" "unat new < unat old" "unat old < 2 ^ 63"
  obtains f where "chain_loop (length xs) 1 old new s fs = Some (NO_ERROR, f)" "fat_wf f" "fat_same fs f"
    "fat_map f = (\<lambda>d. if d \<in> set (drop (unat new) xs) then 0 else if new \<noteq> 0 \<and> d = xs ! (unat new - 1) then eoc fs else fat_map fs d)"
proof -
  have ne: "xs \<noteq> []" using assms(3,4) by auto
  have ch: "s = hd xs" "linked fs xs" "\<forall>d\<in>set xs. is_normal_cluster_number fs d \<and> valid_cluster fs d"
    using chain_linked [OF ne] assms(2) by auto
  have dist: "distinct xs" by (rule chain_distinct [OF assms(2)])
  have "\<exists>f. chain_loop (length xs) 1 old new s fs = Some (NO_ERROR, f) \<and> fat_wf f \<and> fat_same fs f \<and>
    fat_map f = (\<lambda>d. if d \<in> set (drop (unat new) xs) then 0 else if new \<noteq> 0 \<and> d = xs ! (unat new - 1) then eoc fs else fat_map fs d)"
  proof (cases "new = 0")
    case True
    obtain f where "chain_loop (length xs) 1 old new s fs = Some (NO_ERROR, f)" "fat_wf f" "fat_same fs f"
      "fat_map f = (\<lambda>d. if d \<in> set xs then 0 else fat_map fs d)"
      using chain_loop_clear [OF assms(1) ch(2) dist, of new 1 s old] ch assms(3,5) True by auto
    then show ?thesis using True by (intro exI [of _ f]) auto
  next
    case False
    define m where "m = unat new - 1"
    have m: "unat new = Suc m" "m < length xs" using False assms(3,4) by (auto simp: m_def word_unat_eq_iff)
    define ys where "ys = take m xs"
    define e where "e = xs ! m"
    define ds where "ds = drop (Suc m) xs"
    have xs: "xs = ys @ e # ds" using m(2) by (simp add: ys_def ds_def e_def id_take_nth_drop)
    have ly: "length ys = m" using m(2) by (simp add: ys_def)
    have l1: "linked fs (ys @ [e])" "linked fs (e # ds)" using ch(2) xs by (simp_all add: successively_append_iff)
    have di: "distinct (e # ds)" "\<forall>d\<in>set (e # ds). valid_cluster fs d" using dist ch(3) xs by auto
    have h: "hd (ys @ [e]) = s" using ch(1) xs by (cases ys) auto
    have n: "1 + of_nat m = new" using m(1) by (metis of_nat_Suc of_nat_unat ucast_id)
    have "chain_loop (length ys + Suc (length ds)) 1 old new (hd (ys @ [e])) fs = chain_loop (Suc (length ds)) (1 + of_nat (length ys)) old new e fs"
      using m assms(3,4) ly by (intro chain_loop_walk [OF assms(1) l1(1)]) simp_all
    then have walk: "chain_loop (length xs) 1 old new s fs = chain_loop (Suc (length ds)) new old new e fs"
      using h ly n by (simp add: xs)
    have "unat new + length ds < 2 ^ 64 - 1" using m assms(3,5) by (simp add: ds_def)
    then obtain f where f: "chain_loop (Suc (length ds)) new old new e fs = Some (NO_ERROR, f)" "fat_wf f" "fat_same fs f"
      "fat_map f = (\<lambda>d. if d \<in> set ds then 0 else if d = e then eoc fs else fat_map fs d)"
      using chain_loop_cut [OF assms(1) l1(2) di(1,2)] by blast
    then show ?thesis using walk m False by (intro exI [of _ f]) (auto simp: ds_def e_def)
  qed
  then show thesis using that by blast
qed

lemma chain_cut:
  assumes "fat_chain fs s xs" "0 < n" "n < length xs" "fat_same fs f"
    and "fat_map f = (\<lambda>d. if d \<in> set (drop n xs) then 0 else if d = xs ! (n - 1) then eoc fs else fat_map fs d)"
  shows "fat_chain f s (take n xs)"
proof -
  have ne: "xs \<noteq> []" "take n xs \<noteq> []" using assms(2,3) by auto
  have ch: "s = hd xs" "linked fs xs" "\<forall>d\<in>set xs. is_normal_cluster_number fs d \<and> valid_cluster fs d" "distinct xs"
    using chain_linked [OF ne(1), of fs s] chain_distinct [OF assms(1)] assms(1) by auto
  have out: "xs ! i \<notin> set (drop n xs)" if "i < n" for i
    using that ch(4) assms(3) by (auto simp: in_set_conv_nth nth_eq_iff_index_eq)
  have "fat_map f (xs ! i) = xs ! Suc i" if "Suc i < n" for i
  proof -
    have "xs ! i \<noteq> xs ! (n - 1)" using that ch(4) assms(3) by (simp add: nth_eq_iff_index_eq)
    moreover have "fat_map fs (xs ! i) = xs ! Suc i" using that ch(2) assms(3) by (simp add: successively_conv_nth)
    ultimately show ?thesis using out [of i] that assms(5) by simp
  qed
  then have "linked f (take n xs)" using assms(3) by (simp add: successively_conv_nth)
  moreover have "last (take n xs) = xs ! (n - 1)" using ne(2) assms(2,3) by (simp add: last_conv_nth min_absorb2 del: take_eq_Nil)
  moreover have "fat_map f (xs ! (n - 1)) = eoc f" using out [of "n - 1"] assms(2,5) fat_same_fields(11) [OF assms(4)] by simp
  ultimately show ?thesis
    using chain_linked [OF ne(2), of f s] ch assms(2) fat_same_fields(9,10) [OF assms(4)] eoc_not_normal [of f]
    by (auto simp: hd_take dest: in_set_takeD)
qed

text \<open>
  Adding clusters. The table in which a list of clusters is linked; a cluster that was just added still looks free, so the next
  round selects it again and fat_links it to itself. Every second round is lost.
\<close>

fun fat_links :: "u64 \<Rightarrow> u64 list \<Rightarrow> (u64 \<Rightarrow> u64) \<Rightarrow> u64 \<Rightarrow> u64" where
  "fat_links e [] F = F"
| "fat_links e [c] F = F(c := e)"
| "fat_links e (c # d # cs) F = fat_links e (d # cs) (F(c := d))"

lemma fat_links_again: "fat_links e (c # cs) (F(c := x)) = fat_links e (c # cs) F"
  by (cases cs) auto

lemma fat_links_outside: "d \<notin> set cs \<Longrightarrow> fat_links e cs F d = F d"
  by (induction e cs F rule: fat_links.induct) auto

lemma fat_links_spec:
  "distinct cs \<Longrightarrow> cs \<noteq> [] \<Longrightarrow> fat_links e cs F (last cs) = e \<and> successively (\<lambda>a b. fat_links e cs F a = b) cs"
proof (induction e cs F rule: fat_links.induct)
  case (3 e c d cs F)
  then have "fat_links e (c # d # cs) F c = d" using fat_links_outside [of c "d # cs" e "F(c := d)"] by auto
  then show ?case using 3 by (simp add: successively_Cons fun_upd_def)
qed auto

lemma free_list_update:
  assumes "fat_same fs f" "\<And>d. fat_map f d = 0 \<longleftrightarrow> fat_map fs d = 0 \<and> d \<noteq> c"
  shows "free_list f = removeAll c (free_list fs)"
  by (simp only: free_list_def fat_same_fields(2) [OF assms(1)] assms(2) removeAll_filter_not_eq filter_filter)
     (metis (mono_tags, lifting))

lemma chain_loop_add:
  assumes "fat_wf fs" "valid_cluster fs c" "unat old \<le> unat i" "unat i + n = unat new"
    and "if fat_map fs c = 0 then free_list fs = c # rest \<and> n div 2 \<le> length rest \<and> added = take (n div 2) rest
         else (n + 1) div 2 \<le> length (free_list fs) \<and> added = take ((n + 1) div 2) (free_list fs)"
  obtains fs' where "chain_loop (Suc n) i old new c fs = Some (NO_ERROR, fs')" "fat_wf fs'" "fat_same fs fs'"
    "fat_map fs' = fat_links (eoc fs) (c # added) (fat_map fs)"
  using assms
proof (induction n arbitrary: i c fs rest added thesis)
  case 0
  obtain f where f: "write_fat_entry c 0xFFFFFFFF fs = Some (UNKNOWN, f)" "fat_wf f" "fat_same fs f" "fat_map f = (fat_map fs)(c := eoc fs)"
    using write_fat_entry_refines [OF 0(2,3), of "0xFFFFFFFF"] by (auto simp: eoc_def)
  have "i = new" using 0(5) by (simp add: word_unat_eq_iff)
  moreover have "added = []" using 0(6) by (auto split: if_splits)
  ultimately show ?case using 0(1) [of f] f by (simp add: read_fat_entry_map [OF 0(2)])
next
  case (Suc n)
  define d where "d = hd (free_list fs)"
  define r where "r = tl (free_list fs)"
  have free: "free_list fs = d # r" "fat_map fs c = 0 \<Longrightarrow> d = c"
    using Suc.prems(6) by (cases "free_list fs"; auto simp: d_def r_def split: if_splits)+
  have d: "valid_cluster fs d" "fat_map fs d = 0" "d \<noteq> 0" using free_list_valid [OF Suc.prems(2), of d] free(1) by auto
  have i: "unat (i + 1) = unat i + 1" using Suc.prems(5) unat_lt_u64 [of new] by (simp add: unat_add_no_wrap)
  have "i \<noteq> new" "\<not> i > new" "i < new" "i \<ge> old" using Suc.prems(4,5) by (auto simp: word_less_nat_alt word_le_nat_alt)
  moreover obtain f where f: "write_fat_entry c d fs = Some (UNKNOWN, f)" "fat_wf f" "fat_same fs f" "fat_map f = (fat_map fs)(c := d)"
    using write_fat_entry_refines [OF Suc.prems(2,3), of d] entry_trunc_valid [OF Suc.prems(2) d(1)] by auto
  ultimately have step: "chain_loop (Suc (Suc n)) i old new c fs = chain_loop (Suc n) (i + 1) old new d f"
    using free(1) by (simp add: select_free_cluster_spec [OF Suc.prems(2)])
  have vd: "valid_cluster f d" using d fat_same_fields(9) [OF f(3)] by simp
  have e: "eoc f = eoc fs" by (rule fat_same_fields(11) [OF f(3)])
  have fl: "free_list f = (if fat_map fs c = 0 then r else d # r)"
  proof -
    have "fat_map f x = 0 \<longleftrightarrow> fat_map fs x = 0 \<and> x \<noteq> c" for x using f(4) d(3) by simp
    from free_list_update [OF f(3) this] have "free_list f = removeAll c (d # r)" using free(1) by simp
    moreover have "d \<notin> set r" using distinct_free_list [OF Suc.prems(2)] free(1) by simp
    moreover have "fat_map fs c \<noteq> 0 \<Longrightarrow> c \<notin> set (d # r)" using free_list_valid(2) [OF Suc.prems(2)] free(1) by auto
    ultimately show ?thesis using free(2) by (auto simp: removeAll_id)
  qed
  have le: "unat old \<le> unat (i + 1)" "unat (i + 1) + n = unat new" using Suc.prems(4,5) i by simp_all
  show ?case
  proof (cases "fat_map fs c = 0")
    case True
    then have c: "d = c" "r = rest" "added = take (Suc n div 2) r" "Suc n div 2 \<le> length r"
      using free Suc.prems(6) by auto
    have q: "if fat_map f d = 0 then free_list f = d # rest \<and> n div 2 \<le> length rest \<and> added = take (n div 2) rest
        else (n + 1) div 2 \<le> length (free_list f) \<and> added = take ((n + 1) div 2) (free_list f)"
      using c fl f(4) d(3) True by simp
    obtain fs' where fs': "chain_loop (Suc n) (i + 1) old new d f = Some (NO_ERROR, fs')" "fat_wf fs'" "fat_same f fs'"
      "fat_map fs' = fat_links (eoc f) (d # added) (fat_map f)"
      by (rule Suc.IH [OF _ f(2) vd le q])
    then show ?thesis
      using Suc.prems(1) [of fs'] step fat_same_trans [OF f(3)] e f(4) c(1) by (simp add: fat_links_again)
  next
    case False
    then have c: "added = d # take (n div 2) r" "n div 2 \<le> length r"
      using free Suc.prems(6) by auto
    have q: "if fat_map f d = 0 then free_list f = d # r \<and> n div 2 \<le> length r \<and> take (n div 2) r = take (n div 2) r
        else (n + 1) div 2 \<le> length (free_list f) \<and> take (n div 2) r = take ((n + 1) div 2) (free_list f)"
      using c fl f(4) d(2) False by auto
    obtain fs' where fs': "chain_loop (Suc n) (i + 1) old new d f = Some (NO_ERROR, fs')" "fat_wf fs'" "fat_same f fs'"
      "fat_map fs' = fat_links (eoc f) (d # take (n div 2) r) (fat_map f)"
      by (rule Suc.IH [OF _ f(2) vd le q])
    then show ?thesis
      using Suc.prems(1) [of fs'] step fat_same_trans [OF f(3)] e f(4) c(1) by simp
  qed
qed



text \<open>The chain after clusters were added to it, or the new chain of a file that had none.\<close>

definition extends :: "('d, 'z) fat_fs_scheme \<Rightarrow> u64 \<Rightarrow> u64 list \<Rightarrow> bool" where
  "extends fs s xs \<longleftrightarrow> (if xs = [] then s = 0 else fat_chain fs s xs \<and> fat_map fs (last xs) \<noteq> 0)"

lemma chain_loop_grow:
  assumes "fat_wf fs" "extends fs s xs" "xs \<noteq> []" "length xs = unat old" "unat old < unat new"
    and "(unat new - unat old + 1) div 2 \<le> length (free_list fs)"
    and "added = take ((unat new - unat old + 1) div 2) (free_list fs)"
  obtains f where "chain_loop (unat new) 1 old new s fs = Some (NO_ERROR, f)" "fat_wf f" "fat_same fs f"
    "fat_map f = fat_links (eoc fs) (last xs # added) (fat_map fs)"
proof -
  obtain ys e where e: "xs = ys @ [e]" using assms(3) by (cases xs rule: rev_cases) auto
  have ch: "s = hd xs" "linked fs xs" "valid_cluster fs e" "fat_map fs e \<noteq> 0"
    using chain_linked [OF assms(3), of fs s] assms(2,3) e by (auto simp: extends_def)
  have old: "unat old = Suc (length ys)" using assms(4) e by simp
  then have i: "1 + of_nat (length ys) = old" by (metis of_nat_Suc of_nat_unat ucast_id)
  let ?n = "unat new - unat old"
  have "chain_loop (length ys + Suc ?n) 1 old new (hd (ys @ [e])) fs = chain_loop (Suc ?n) (1 + of_nat (length ys)) old new e fs"
    using ch(2) old assms(5) e by (intro chain_loop_walk [OF assms(1)]) simp_all
  moreover have "length ys + Suc ?n = unat new" using old assms(5) by simp
  ultimately have walk: "chain_loop (unat new) 1 old new s fs = chain_loop (Suc ?n) old old new e fs"
    using ch(1) e i by (simp del: chain_loop.simps)
  have le: "unat old + ?n = unat new" using assms(5) by simp
  have q: "if fat_map fs e = 0 then free_list fs = e # added \<and> ?n div 2 \<le> length added \<and> added = take (?n div 2) added
      else (?n + 1) div 2 \<le> length (free_list fs) \<and> added = take ((?n + 1) div 2) (free_list fs)"
    using ch(4) assms(6,7) by simp
  show thesis
    by (rule chain_loop_add [OF assms(1) ch(3) order_refl le q], rule that) (use walk e in \<open>simp_all del: chain_loop.simps\<close>)
qed

lemma chain_loop_new:
  assumes "fat_wf fs" "0 < unat new" "(unat new + 1) div 2 \<le> length (free_list fs)"
    and "added = take ((unat new + 1) div 2) (free_list fs)"
  obtains f where "chain_loop (unat new) 1 0 new (hd added) fs = Some (NO_ERROR, f)" "fat_wf f" "fat_same fs f"
    "fat_map f = fat_links (eoc fs) added (fat_map fs)"
proof -
  define n where "n = unat new - 1"
  have n: "unat new = Suc n" using assms(2) by (simp add: n_def)
  obtain c rest where fl: "free_list fs = c # rest" using assms(3) n by (cases "free_list fs") auto
  have a: "added = c # take (n div 2) rest" "n div 2 \<le> length rest" using assms(3,4) n fl by auto
  have c: "valid_cluster fs c" "fat_map fs c = 0" using free_list_valid [OF assms(1), of c] fl by auto
  have q: "if fat_map fs c = 0 then free_list fs = c # rest \<and> n div 2 \<le> length rest \<and> take (n div 2) rest = take (n div 2) rest
      else (n + 1) div 2 \<le> length (free_list fs) \<and> take (n div 2) rest = take ((n + 1) div 2) (free_list fs)"
    using c fl a by simp
  have le: "unat (0 :: u64) \<le> unat (1 :: u64)" "unat (1 :: u64) + n = unat new" using n by simp_all
  show thesis
    by (rule chain_loop_add [OF assms(1) c(1) le q], rule that) (use n a(1) in \<open>simp_all del: chain_loop.simps\<close>)
qed

lemma free_list_normal:
  assumes "fat_wf fs" "is_normal_cluster_number fs (number_of_clusters fs)" "c \<in> set (free_list fs)"
  shows "is_normal_cluster_number fs c"
proof -
  obtain n where n: "c = of_nat n" "2 \<le> n" "n \<le> unat (number_of_clusters fs)"
    using assms(3) by (auto simp: free_list_def)
  have "unat c = n" using n clusters_small [OF assms(1)] by (simp add: unat_of_nat)
  then have "c \<le> number_of_clusters fs" "c \<noteq> 0" "c \<noteq> 1" using n by (auto simp: word_le_nat_alt)
  then show ?thesis using assms(2) by (cases "fat_type fs") (auto simp: is_normal_cluster_number_def)
qed

lemma chain_of_links:
  assumes "fat_wf fs" "is_normal_cluster_number fs (number_of_clusters fs)" "extends fs s xs" "xs @ added \<noteq> []"
    and "set added \<subseteq> set (free_list fs)" "distinct added"
    and "fat_same fs f" "fat_map f = fat_links (eoc fs) (if xs = [] then added else last xs # added) (fat_map fs)"
  shows "fat_chain f (hd (xs @ added)) (xs @ added) \<and> (\<forall>d. d \<notin> set (xs @ added) \<longrightarrow> fat_map f d = fat_map fs d)"
proof -
  let ?cs = "if xs = [] then added else last xs # added"
  note same = fat_same_fields [OF assms(7)]
  have xs: "xs \<noteq> [] \<Longrightarrow> linked fs xs \<and> (\<forall>d\<in>set xs. is_normal_cluster_number fs d \<and> valid_cluster fs d) \<and> distinct xs \<and> fat_map fs (last xs) \<noteq> 0"
    using assms(3) chain_linked [of xs fs s] chain_distinct [of fs s xs] by (auto simp: extends_def)
  have nz: "d \<in> set xs \<Longrightarrow> fat_map fs d \<noteq> 0" for d
  proof -
    assume d: "d \<in> set xs"
    then obtain ys zs where z: "xs = ys @ d # zs" by (auto dest: split_list)
    show ?thesis
    proof (cases zs)
      case Nil
      then show ?thesis using xs z by auto
    next
      case (Cons a b)
      then have "fat_map fs d = a" "is_normal_cluster_number fs a" using xs z by (auto simp: successively_append_iff)
      then show ?thesis by (auto simp: is_normal_cluster_number_def)
    qed
  qed
  have disj: "d \<in> set added \<Longrightarrow> d \<notin> set xs" for d using nz free_list_valid(2) [OF assms(1), of d] assms(5) by blast
  have cs: "distinct ?cs" "?cs \<noteq> []" using assms(4,6) disj [of "last xs"] by auto
  have l: "fat_map f (last ?cs) = eoc fs" "linked f ?cs" using fat_links_spec [OF cs, of "eoc fs" "fat_map fs"] assms(8) by auto
  have same_out: "d \<notin> set ?cs \<Longrightarrow> fat_map f d = fat_map fs d" for d using fat_links_outside [of d ?cs] assms(8) by simp
  have lk: "linked f (xs @ added)"
  proof (cases "xs = []")
    case False
    then obtain ys e where e: "xs = ys @ [e]" by (cases xs rule: rev_cases) auto
    have "successively (\<lambda>a b. fat_map f a = b) (ys @ [e]) = successively (\<lambda>a b. fat_map fs a = b) (ys @ [e])"
    proof -
      have "d \<in> set ys \<Longrightarrow> fat_map f d = fat_map fs d" for d using same_out [of d] disj e xs by auto
      then show ?thesis by (induction ys) (auto simp: successively_Cons hd_append)
    qed
    then show ?thesis using xs e l(2) by (cases added) (auto simp: successively_append_iff successively_Cons)
  qed (use l in simp)
  have v: "\<forall>d\<in>set (xs @ added). is_normal_cluster_number f d \<and> valid_cluster f d"
    using xs assms(5) free_list_normal [OF assms(1,2)] free_list_valid(1) [OF assms(1)] same by fastforce
  have "fat_map f (last (xs @ added)) = eoc f" using l(1) same by (auto split: if_splits)
  then have "fat_chain f (hd (xs @ added)) (xs @ added)"
    using chain_linked [OF assms(4), of f] lk v eoc_not_normal [of f] by auto
  moreover have "set ?cs \<subseteq> set (xs @ added)" by auto
  ultimately show ?thesis using same_out by blast
qed

subsection \<open>The table on the device\<close>

text \<open>A device on which the first copy of the table has its place.\<close>

abbreviation fat_start :: "('d, 'z) fat_fs_scheme \<Rightarrow> u64" where
  "fat_start fs \<equiv> ucast (rsvd_sec_cnt (shared (fs_bpb fs)))"

definition fat_disk :: "'d block_ops \<Rightarrow> ('d \<Rightarrow> bool) \<Rightarrow> ('d \<Rightarrow> u64 \<Rightarrow> bool) \<Rightarrow> ('d, 'z) fat_fs_scheme \<Rightarrow> bool" where
  "fat_disk ops running writable fs \<longleftrightarrow> running (fs_storage fs) \<and> op_block_size ops (fs_storage fs) = bps fs \<and>
     request_inside (op_num_blocks ops (fs_storage fs)) (fat_start fs) (fat_sectors fs) \<and> writable (fs_storage fs) (fat_start fs) \<and>
     unat (fat_length_bytes fs) = length (raw_fat fs) \<and> length (raw_fat fs) = unat (fat_sectors fs) * unat (bps fs)"

text \<open>The table was changed, in memory and on the device, and nothing else.\<close>

definition fat_saved ::
  "'d block_ops \<Rightarrow> ('d \<Rightarrow> bool) \<Rightarrow> ('d \<Rightarrow> u8 list) \<Rightarrow> ('d \<Rightarrow> u64 \<Rightarrow> bool) \<Rightarrow> ('d, 'z) fat_fs_scheme \<Rightarrow> ('d, 'z) fat_fs_scheme \<Rightarrow> bool" where
  "fat_saved ops running bytes writable fs fs' \<longleftrightarrow>
     fat_wf fs' \<and> fat_disk ops running writable fs' \<and> \<not> fat_dirty fs' \<and>
     fs' = fs\<lparr>fs_storage := fs_storage fs', raw_fat := raw_fat fs', fat_dirty := False\<rparr> \<and>
     bytes (fs_storage fs') = overwrite (unat (fat_start fs) * unat (bps fs)) (raw_fat fs') (bytes (fs_storage fs))"

lemma fat_saved_chain:
  assumes "fat_saved ops running bytes writable fs fs'" "fat_same fs f" "fat_map fs' = fat_map f"
  shows "fat_chain fs' = fat_chain f"
proof -
  have e: "fs' = fs\<lparr>fs_storage := fs_storage fs', raw_fat := raw_fat fs', fat_dirty := False\<rparr>" using assms(1) by (simp add: fat_saved_def)
  have "valid_cluster fs' = valid_cluster f" "is_normal_cluster_number fs' = is_normal_cluster_number f"
    unfolding fat_same_fields [OF assms(2)] by (subst e, simp add: fun_eq_iff valid_cluster_def is_normal_cluster_number_def)+
  then have "fat_chain fs' c cs = fat_chain f c cs" for c cs by (induction cs arbitrary: c) (simp_all add: assms(3))
  then show ?thesis by blast
qed

context block_device
begin

lemma write_fat_to_disk_saves:
  assumes "fat_wf f" "fat_same fs f" "fat_disk ops running writable fs"
  obtains fs' where "write_fat_to_disk ops f = Some (NO_ERROR, fs')" "fat_saved ops running bytes writable fs fs'"
    "fat_map fs' = fat_map f"
proof -
  have fd: "fat_sectors f = fat_sectors fs" "fs_bpb f = fs_bpb fs" "fs_storage f = fs_storage fs"
    "fat_length_bytes f = fat_length_bytes fs" "length (raw_fat f) = length (raw_fat fs)"
    using fat_same_fields [OF assms(2)] by (simp_all add: fat_sectors_def)
  have d: "running (fs_storage fs)" "op_block_size ops (fs_storage fs) = bps fs"
    "request_inside (op_num_blocks ops (fs_storage fs)) (fat_start fs) (fat_sectors fs)" "writable (fs_storage fs) (fat_start fs)"
    "unat (fat_length_bytes fs) = length (raw_fat fs)" "length (raw_fat fs) = unat (fat_sectors fs) * unat (bps fs)"
    using assms(3) by (auto simp: fat_disk_def)
  obtain d' where d': "op_write ops (fs_storage fs) (fat_start fs) (fat_sectors fs) (Some (raw_fat f)) (fat_length_bytes fs) = Some (NO_ERROR, d')"
    "running d'" "op_num_blocks ops d' = op_num_blocks ops (fs_storage fs)" "op_block_size ops d' = op_block_size ops (fs_storage fs)"
    "writable d' = writable (fs_storage fs)"
    "bytes d' = overwrite (unat (fat_start fs) * unat (bps fs)) (raw_fat f) (bytes (fs_storage fs))"
    using write_inside [OF d(1) d(3) d(4), of "fat_length_bytes fs" "raw_fat f"] d fd by auto
  let ?fs = "f\<lparr>fs_storage := d', fat_dirty := False\<rparr>"
  have w: "write_fat_to_disk ops f = Some (NO_ERROR, ?fs)" using d'(1) fd by (simp add: write_fat_to_disk_def)
  have m: "fat_map ?fs = fat_map f" by (simp add: fun_eq_iff fat_map_def read_fat_entry_def valid_cluster_def)
  have "fat_wf ?fs" using assms(1) by (simp add: fat_wf_def)
  moreover have "fat_disk ops running writable ?fs"
  proof -
    have "fat_sectors ?fs = fat_sectors fs" using fat_same_fields(1,3) [OF assms(2)] by (simp add: fat_sectors_def)
    then show ?thesis using d d'(2-5) fd by (simp add: fat_disk_def)
  qed
  moreover have "?fs = fs\<lparr>fs_storage := d', raw_fat := raw_fat f, fat_dirty := False\<rparr>"
    using assms(2) by (cases fs, cases f) (simp add: fat_same_def)
  ultimately have "fat_saved ops running bytes writable fs ?fs" using d'(6) by (simp add: fat_saved_def)
  with w m that [of ?fs] show thesis by simp
qed

lemma change_length_shrink:
  assumes "fat_wf fs" "fat_disk ops running writable fs" "fat_chain fs s xs" "length xs = unat old" "unat new < unat old" "unat old < 2 ^ 63"
  obtains fs' where "change_file_chain_length ops s old new fs = Some (NO_ERROR, s, fs')" "fat_saved ops running bytes writable fs fs'"
    "fat_map fs' = (\<lambda>d. if d \<in> set (drop (unat new) xs) then 0
        else if new \<noteq> 0 \<and> d = xs ! (unat new - 1) then eoc fs else fat_map fs d)"
    "new \<noteq> 0 \<longrightarrow> fat_chain fs' s (take (unat new) xs)"
proof -
  have ne: "xs \<noteq> []" using assms(4,5) by auto
  have s: "is_normal_cluster_number fs s" "s \<noteq> 0"
    using chain_start [OF assms(3) ne] by auto
  have rounds: "unat (if old > new then old else new) = length xs" using assms(4,5) by (simp add: word_less_nat_alt)
  have neq: "old \<noteq> new" using assms(5) by auto
  obtain f where f: "chain_loop (length xs) 1 old new s fs = Some (NO_ERROR, f)" "fat_wf f" "fat_same fs f"
    "fat_map f = (\<lambda>d. if d \<in> set (drop (unat new) xs) then 0 else if new \<noteq> 0 \<and> d = xs ! (unat new - 1) then eoc fs else fat_map fs d)"
    by (rule chain_loop_shrink [OF assms(1,3-6)])
  obtain fs' where fs': "write_fat_to_disk ops f = Some (NO_ERROR, fs')" "fat_saved ops running bytes writable fs fs'" "fat_map fs' = fat_map f"
    by (rule write_fat_to_disk_saves [OF f(2,3) assms(2)])
  have "change_file_chain_length ops s old new fs = Some (NO_ERROR, s, fs')"
    using s f(1) fs'(1) rounds neq by (simp add: change_file_chain_length_def)
  moreover have "fat_chain fs' s (take (unat new) xs)" if "new \<noteq> 0"
  proof -
    have "0 < unat new" "unat new < length xs" using that assms(4,5) by (simp_all add: unat_gt_0)
    moreover have "fat_map f = (\<lambda>d. if d \<in> set (drop (unat new) xs) then 0 else if d = xs ! (unat new - 1) then eoc fs else fat_map fs d)"
      using f(4) that by (simp add: fun_eq_iff)
    ultimately have "fat_chain f s (take (unat new) xs)" by (rule chain_cut [OF assms(3) _ _ f(3)])
    then show ?thesis by (simp add: fat_saved_chain [OF fs'(2) f(3) fs'(3)])
  qed
  ultimately show thesis using that [of fs'] fs'(2,3) f(4) by simp
qed

lemma change_length_grow:
  assumes "fat_wf fs" "fat_disk ops running writable fs" "is_normal_cluster_number fs (number_of_clusters fs)"
    and "extends fs s xs" "length xs = unat old" "unat old < unat new"
    and "(unat new - unat old + 1) div 2 \<le> length (free_list fs)"
    and "added = take ((unat new - unat old + 1) div 2) (free_list fs)"
  obtains fs' where "change_file_chain_length ops s old new fs = Some (NO_ERROR, hd (xs @ added), fs')"
    "fat_saved ops running bytes writable fs fs'" "fat_chain fs' (hd (xs @ added)) (xs @ added)"
    "\<And>d. d \<notin> set (xs @ added) \<Longrightarrow> fat_map fs' d = fat_map fs d"
proof -
  let ?cs = "if xs = [] then added else last xs # added"
  have rounds: "unat (if old > new then old else new) = unat new" using assms(6) by (auto simp: word_less_nat_alt)
  have neq: "old \<noteq> new" using assms(6) by auto
  have an: "added \<noteq> []" "set added \<subseteq> set (free_list fs)" "distinct added"
    using assms(6-8) distinct_free_list [OF assms(1)] by (auto simp: set_take_subset)
  have "\<exists>f. (if xs = [] then select_free_cluster fs = Some (NO_ERROR, Some (hd added)) else is_normal_cluster_number fs s \<and> s \<noteq> 0 \<and> s = hd xs) \<and>
    chain_loop (unat new) 1 old new (hd (xs @ added)) fs = Some (NO_ERROR, f) \<and> fat_wf f \<and> fat_same fs f \<and>
    fat_map f = fat_links (eoc fs) ?cs (fat_map fs)"
  proof (cases "xs = []")
    case True
    then have old: "old = 0" using assms(5) by (simp add: word_unat_eq_iff)
    have sel: "select_free_cluster fs = Some (NO_ERROR, Some (hd added))"
      using an(1) assms(8) by (cases "free_list fs") (auto simp: select_free_cluster_spec [OF assms(1)] take_Cons')
    have p: "0 < unat new" "(unat new + 1) div 2 \<le> length (free_list fs)" "added = take ((unat new + 1) div 2) (free_list fs)"
      using assms(6-8) old by simp_all
    obtain f where "chain_loop (unat new) 1 0 new (hd added) fs = Some (NO_ERROR, f)" "fat_wf f" "fat_same fs f"
      "fat_map f = fat_links (eoc fs) added (fat_map fs)"
      by (rule chain_loop_new [OF assms(1) p])
    then show ?thesis using sel True old by (intro exI [of _ f]) simp
  next
    case False
    have st: "is_normal_cluster_number fs s" "s \<noteq> 0" "s = hd xs"
      using False assms(4) chain_start [of fs s xs] chain_linked [OF False, of fs s] by (auto simp: extends_def)
    obtain f where "chain_loop (unat new) 1 old new s fs = Some (NO_ERROR, f)" "fat_wf f" "fat_same fs f"
      "fat_map f = fat_links (eoc fs) (last xs # added) (fat_map fs)"
      by (rule chain_loop_grow [OF assms(1,4) False assms(5-8)])
    then show ?thesis using st False by (intro exI [of _ f]) simp
  qed
  then obtain f where f: "if xs = [] then select_free_cluster fs = Some (NO_ERROR, Some (hd added)) else is_normal_cluster_number fs s \<and> s \<noteq> 0 \<and> s = hd xs"
    "chain_loop (unat new) 1 old new (hd (xs @ added)) fs = Some (NO_ERROR, f)" "fat_wf f" "fat_same fs f"
    "fat_map f = fat_links (eoc fs) ?cs (fat_map fs)"
    by blast
  obtain fs' where fs': "write_fat_to_disk ops f = Some (NO_ERROR, fs')" "fat_saved ops running bytes writable fs fs'" "fat_map fs' = fat_map f"
    by (rule write_fat_to_disk_saves [OF f(3,4) assms(2)])
  have ch: "fat_chain f (hd (xs @ added)) (xs @ added) \<and> (\<forall>d. d \<notin> set (xs @ added) \<longrightarrow> fat_map f d = fat_map fs d)"
    using an by (intro chain_of_links [OF assms(1,3,4) _ an(2,3) f(4,5)]) simp
  have "change_file_chain_length ops s old new fs = Some (NO_ERROR, hd (xs @ added), fs')"
  proof (cases "xs = []")
    case True
    then have "old = 0" "s = 0" using assms(4,5) by (simp_all add: word_unat_eq_iff extends_def)
    then show ?thesis using True f(1,2) fs'(1) rounds neq by (simp add: change_file_chain_length_def)
  next
    case False
    then show ?thesis using f(1,2) fs'(1) rounds neq by (auto simp: change_file_chain_length_def)
  qed
  then show thesis
    using that [of fs'] fs'(2,3) ch fat_saved_chain [OF fs'(2) f(4) fs'(3)] by simp
qed

end


subsection \<open>The sectors of a chain\<close>

definition cluster_sectors :: "('d, 'z) fat_fs_scheme \<Rightarrow> u64 \<Rightarrow> u64 list" where
  "cluster_sectors fs c = map (\<lambda>k. convert_cluster_to_sector_num fs c + of_nat k) [0 ..< unat (spc fs)]"

definition chain_sectors :: "('d, 'z) fat_fs_scheme \<Rightarrow> u64 list \<Rightarrow> u64 list" where
  "chain_sectors fs cs = concat (map (cluster_sectors fs) cs)"

lemma length_cluster_sectors [simp]: "length (cluster_sectors fs c) = unat (spc fs)"
  by (simp add: cluster_sectors_def)

lemma length_chain_sectors: "length (chain_sectors fs cs) = length cs * unat (spc fs)"
  by (induction cs) (simp_all add: chain_sectors_def)

lemma next_sector_chain:
  assumes "fat_wf fs" "volume_fits fs" "fat_chain fs s cs" "i < length (chain_sectors fs cs)"
  shows "get_next_file_sector fs (chain_sectors fs cs ! i) =
    Some (if Suc i < length (chain_sectors fs cs) then Some (chain_sectors fs cs ! Suc i) else None)"
  using assms(3,4)
proof (induction cs arbitrary: s i)
  case (Cons c cs)
  let ?n = "unat (spc fs)"
  have p: "0 < ?n" using assms(1) unat_spc(1) [of fs] by (simp add: fat_wf_def unat_gt_0)
  have c: "valid_cluster fs c" "is_normal_cluster_number fs c" "fat_chain fs (fat_map fs c) cs" using Cons.prems(1) by auto
  have cs: "chain_sectors fs (c # cs) = cluster_sectors fs c @ chain_sectors fs cs" by (simp add: chain_sectors_def)
  show ?case
  proof (cases "i < ?n")
    case True
    then have i: "chain_sectors fs (c # cs) ! i = convert_cluster_to_sector_num fs c + of_nat i" by (simp add: cs nth_append cluster_sectors_def)
    show ?thesis
    proof (cases "Suc i < ?n")
      case True
      then show ?thesis using next_in_cluster [OF assms(1,2) c(1,2) \<open>i < ?n\<close>] i by (simp add: cs nth_append cluster_sectors_def)
    next
      case False
      then have si: "Suc i = ?n" using \<open>i < ?n\<close> by simp
      show ?thesis
      proof (cases cs)
        case Nil
        then show ?thesis using next_in_cluster [OF assms(1,2) c(1,2) \<open>i < ?n\<close>] i False c(3) by (simp add: length_chain_sectors)
      next
        case (Cons e es)
        then have "fat_map fs c = e" "is_normal_cluster_number fs e" using c(3) by auto
        moreover have "chain_sectors fs (c # cs) ! Suc i = convert_cluster_to_sector_num fs e"
          using p Cons by (simp add: cs si nth_append chain_sectors_def cluster_sectors_def)
        ultimately show ?thesis
          using next_in_cluster [OF assms(1,2) c(1,2) \<open>i < ?n\<close>] i False si p Cons by (simp add: length_chain_sectors)
      qed
    qed
  next
    case False
    then obtain j where j: "i = ?n + j" by (metis le_iff_add not_less)
    have "j < length (chain_sectors fs cs)" using Cons.prems(2) j by (simp add: cs)
    from Cons.IH [OF c(3) this] show ?thesis by (simp add: j cs nth_append)
  qed
qed (simp add: chain_sectors_def)

subsection \<open>Properties\<close>

text \<open>
  Walking through a file: starting at any sector of a chain, \<open>get_next_file_sector\<close> gives the following sector of the
  chain, across cluster boundaries, and reports the end exactly at the last sector of the last cluster.
\<close>

theorem next_sector_follows_chain:
  assumes "fat_wf fs" and "volume_fits fs" and "fat_chain fs s cs" and "i < length (chain_sectors fs cs)"
  shows "get_next_file_sector fs (chain_sectors fs cs ! i) =
    Some (if Suc i < length (chain_sectors fs cs) then Some (chain_sectors fs cs ! Suc i) else None)"
  by (rule next_sector_chain [OF assms])

lemma sample_volume_map: "fat_map (sample_volume d) 2 = 3" "fat_map (sample_volume d) 3 = 5" "fat_map (sample_volume d) 5 = 0xFFF"
  by (simp_all add: fat_map_def read_fat_entry_def valid_cluster_def sample_volume_simps fat_offset_def entry_bytes_def le_at_def)

lemma sample_chain: "fat_chain (sample_volume d) 2 [2, 3, 5]"
  using sample_volume_map [of d] by (simp add: valid_cluster_def is_normal_cluster_number_def sample_volume_def)

theorem next_sector_follows_chain_witness:
  "get_next_file_sector (sample_volume ()) (chain_sectors (sample_volume ()) [2, 3, 5] ! 3) = Some (Some (chain_sectors (sample_volume ()) [2, 3, 5] ! 4))"
  using next_sector_follows_chain [OF sample_volume_wf sample_chain [of "()"], of 3]
  by (simp add: length_chain_sectors sample_volume_simps)

text \<open>
  C20. Shortening a file: the chain keeps its first clusters; the entry of the last of them becomes the mark of the end, 0xFFF, 0xFFFF or
  0x0FFFFFFF for the three types of FAT; those before it keep their entries; the other clusters become
  free, no other entry changes, and the table on the device is the one in memory.
\<close>

theorem chain_shrink_correct:
  assumes "fat_wf fs" and "fat_disk ramdisk_ops rd_running rd_writable fs" and "fat_chain fs s xs"
    and "length xs = unat old" and "0 < unat new" and "unat new < unat old" and "unat old < 2 ^ 63"
  shows "\<exists>fs'. change_file_chain_length ramdisk_ops s old new fs = Some (NO_ERROR, s, fs') \<and>
     fat_saved ramdisk_ops rd_running rd_bytes rd_writable fs fs' \<and> fat_chain fs' s (take (unat new) xs) \<and>
     read_fat_entry fs' (xs ! (unat new - 1)) = Some (case fat_type fs of FAT12 \<Rightarrow> 0xFFF | FAT16 \<Rightarrow> 0xFFFF | FAT32 \<Rightarrow> 0x0FFFFFFF) \<and>
     (\<forall>d\<in>set (drop (unat new) xs). read_fat_entry fs' d = Some 0) \<and>
     (\<forall>d. d \<notin> set (drop (unat new - 1) xs) \<longrightarrow> read_fat_entry fs' d = read_fat_entry fs d)"
proof -
  have n: "new \<noteq> 0" using assms(5) by auto
  obtain fs' where fs': "change_file_chain_length ramdisk_ops s old new fs = Some (NO_ERROR, s, fs')"
    "fat_saved ramdisk_ops rd_running rd_bytes rd_writable fs fs'"
    "fat_map fs' = (\<lambda>d. if d \<in> set (drop (unat new) xs) then 0
        else if new \<noteq> 0 \<and> d = xs ! (unat new - 1) then eoc fs else fat_map fs d)"
    "new \<noteq> 0 \<longrightarrow> fat_chain fs' s (take (unat new) xs)"
    by (rule rd.change_length_shrink [OF assms(1-4,6,7)])
  have w: "fat_wf fs'" using fs'(2) by (simp add: fat_saved_def)
  have d: "drop (unat new - 1) xs = xs ! (unat new - 1) # drop (unat new) xs"
    using assms(4-6) by (simp add: Cons_nth_drop_Suc [symmetric])
  have "distinct (drop (unat new - 1) xs)" using chain_distinct [OF assms(3)] by (rule distinct_drop)
  then have l: "xs ! (unat new - 1) \<notin> set (drop (unat new) xs)" unfolding d by simp
  then have e: "fat_map fs' (xs ! (unat new - 1)) = eoc fs" using fs'(3) n by simp
  show ?thesis
    unfolding d using fs' n e by (intro exI [of _ fs']) (simp add: read_fat_entry_map [OF w] read_fat_entry_map [OF assms(1)] eoc_marks)
qed

definition sample_fat_disk :: ramdisk where
  "sample_fat_disk = snd (ramdisk_start (ramdisk_new 0 16 16))"

lemma sample_fat_disk_ok: "fat_disk ramdisk_ops rd_running rd_writable (sample_volume sample_fat_disk)"
  by (simp add: fat_disk_def sample_fat_disk_def ramdisk_start_def ramdisk_new_def rd_running_def rd_writable_def ramdisk_ops_def
      sample_volume_simps fat_sectors_def request_inside_def)

theorem chain_shrink_correct_witness:
  "\<exists>fs'. change_file_chain_length ramdisk_ops 2 3 1 (sample_volume sample_fat_disk) = Some (NO_ERROR, 2, fs') \<and>
     fat_chain fs' 2 [2] \<and> read_fat_entry fs' 2 = Some 0xFFF \<and> read_fat_entry fs' 5 = Some 0"
  using chain_shrink_correct [OF sample_volume_wf(1) sample_fat_disk_ok sample_chain, of 3 1] by (auto simp: sample_volume_simps)

text \<open>
  Lengthening a file, as the code does it: a cluster that was just added still has the entry of a free cluster, so the next round
  selects it again. Of the \<open>k\<close> clusters asked for, only half of them, rounded up, are added, the first free ones in order; the chain
  is well formed, no other entry changes and success is reported. With one cluster at a time the result is the one asked for.
\<close>

theorem chain_grow_half:
  assumes "fat_wf fs" and "fat_disk ramdisk_ops rd_running rd_writable fs" and "is_normal_cluster_number fs (number_of_clusters fs)"
    and "extends fs s xs" and "length xs = unat old" and "unat old < unat new"
    and "(unat new - unat old + 1) div 2 \<le> length (free_list fs)"
  shows "\<exists>fs' added. change_file_chain_length ramdisk_ops s old new fs = Some (NO_ERROR, hd (xs @ added), fs') \<and>
     added = take ((unat new - unat old + 1) div 2) (free_list fs) \<and>
     fat_saved ramdisk_ops rd_running rd_bytes rd_writable fs fs' \<and> fat_chain fs' (hd (xs @ added)) (xs @ added) \<and>
     (\<forall>d. d \<notin> set (xs @ added) \<longrightarrow> read_fat_entry fs' d = read_fat_entry fs d)"
proof -
  let ?a = "take ((unat new - unat old + 1) div 2) (free_list fs)"
  obtain fs' where fs': "change_file_chain_length ramdisk_ops s old new fs = Some (NO_ERROR, hd (xs @ ?a), fs')"
    "fat_saved ramdisk_ops rd_running rd_bytes rd_writable fs fs'" "fat_chain fs' (hd (xs @ ?a)) (xs @ ?a)"
    "\<And>d. d \<notin> set (xs @ ?a) \<Longrightarrow> fat_map fs' d = fat_map fs d"
    using rd.change_length_grow [OF assms refl] by blast
  have w: "fat_wf fs'" using fs'(2) by (simp add: fat_saved_def)
  show ?thesis
    using fs' by (intro exI [of _ fs'] exI [of _ ?a]) (simp add: read_fat_entry_map [OF w] read_fat_entry_map [OF assms(1)])
qed

lemma sample_free_list: "free_list (sample_volume d) = [4, 6]"
  by (simp add: free_list_def upt_rec fat_map_def read_fat_entry_def valid_cluster_def sample_volume_simps fat_offset_def entry_bytes_def le_at_def)

theorem chain_grow_half_witness:
  "\<exists>fs'. change_file_chain_length ramdisk_ops 2 3 5 (sample_volume sample_fat_disk) = Some (NO_ERROR, 2, fs') \<and> fat_chain fs' 2 [2, 3, 5, 4]"
proof -
  have e: "extends (sample_volume d) 2 [2, 3, 5]" for d :: ramdisk using sample_chain [of d] sample_volume_map(3) [of d] by (simp add: extends_def)
  have n: "is_normal_cluster_number (sample_volume d) (number_of_clusters (sample_volume d))" for d :: ramdisk
    by (simp add: is_normal_cluster_number_def sample_volume_def)
  show ?thesis
    using chain_grow_half [OF sample_volume_wf(1) sample_fat_disk_ok n e, of 3 5] by (auto simp: sample_free_list)
qed

end
