(* ===== verification/Fat_File.thy ===== *)
theory Fat_File
  imports Fat_Chain
begin

text \<open>
  Files on a FAT volume: \<open>kernel/system_tree/fs/fat/fat_file.cpp\<close>, and \<open>write_fde\<close> of \<open>fat_folder.cpp\<close>, by which a file
  updates its directory entry. A file has a copy of its directory entry, 32 bytes as on disk; its clusters
  are found by walking along the table from the first one.

  A change of the size is written to the directory entry in the parent folder, which is a file itself and may have to grow as well. The operations
  that change a size therefore take the files from the one in question up to the root directory, the file system object
  being in use. The parent of the root directory is a null pointer; a call through it has no result here.
\<close>

subsection \<open>Directory entries\<close>

type_synonym fat_dir_entry = "u8 list"

definition fde_directory :: "fat_dir_entry \<Rightarrow> bool" where
  "fde_directory d = bit (of_nat (le_at d 11 1) :: u8) 4"

definition fde_set_directory :: "fat_dir_entry \<Rightarrow> fat_dir_entry" where
  "fde_set_directory d = put d 11 [of_nat (le_at d 11 1) OR 0x10]"

definition first_cluster_high :: "fat_dir_entry \<Rightarrow> u16" where
  "first_cluster_high d = of_nat (le_at d 20 2)"

definition first_cluster_low :: "fat_dir_entry \<Rightarrow> u16" where
  "first_cluster_low d = of_nat (le_at d 26 2)"

definition fde_file_size :: "fat_dir_entry \<Rightarrow> u64" where
  "fde_file_size d = of_nat (le_at d 28 4)"

definition fde_set_first_cluster :: "u16 \<Rightarrow> u16 \<Rightarrow> fat_dir_entry \<Rightarrow> fat_dir_entry" where
  "fde_set_first_cluster high low d = put (put d 20 (le_bytes 2 (unat high))) 26 (le_bytes 2 (unat low))"

definition fde_set_file_size :: "u32 \<Rightarrow> fat_dir_entry \<Rightarrow> fat_dir_entry" where
  "fde_set_file_size n d = put d 28 (le_bytes 4 (unat n))"

text \<open>The number of the first cluster. The code combines the halves with \<open>|\<close> or \<open>+\<close> to an \<open>int\<close>, which is widened with its sign.\<close>

definition fde_first_cluster :: "fat_dir_entry \<Rightarrow> u64" where
  "fde_first_cluster d = scast (push_bit 16 (ucast (first_cluster_high d)) OR ucast (first_cluster_low d) :: u32)"

subsection \<open>Files\<close>

record fat_file =
  file_record :: fat_dir_entry
  is_root_directory :: bool
  is_small_fat_root_dir :: bool
  file_record_index :: u32

text \<open>
  The number of clusters of a directory is counted with a loop that follows the table as long as it finds normal cluster numbers; in a table with a
  circular chain it does not end.
\<close>

partial_function (option) count_clusters :: "('d, 'z) fat_fs_scheme \<Rightarrow> u64 \<Rightarrow> u32 \<Rightarrow> u32 option" where
  "count_clusters fs cluster_num cluster_count =
     (if is_normal_cluster_number fs cluster_num
      then Option.bind (read_fat_entry fs cluster_num) (\<lambda>c. count_clusters fs c (cluster_count + 1))
      else Some cluster_count)"

declare count_clusters.simps [code]

definition fat_file_new :: "('d, 'z) fat_fs_scheme \<Rightarrow> fat_dir_entry \<Rightarrow> u32 \<Rightarrow> bool \<Rightarrow> fat_file option" where
  "fat_file_new fs file_data_record fde_index root_directory_file = do {
     let small = (root_directory_file \<and> fat_type fs \<noteq> FAT32);
     let fde = (if root_directory_file then fde_set_directory file_data_record else file_data_record);
     fde \<leftarrow>
       (if \<not> (fde_directory file_data_record \<or> root_directory_file) then Some fde
        else if small
        then Some (fde_set_file_size (ucast (root_dir_sector_count fs * bps fs)) (fde_set_first_cluster 0 0 fde))
        else do {
          cluster_count \<leftarrow> count_clusters fs (fde_first_cluster fde) 0;
          Some (fde_set_file_size
            (cluster_count * ucast (secs_per_cluster (shared (fs_bpb fs))) * ucast (bytes_per_sec (shared (fs_bpb fs)))) fde)
        });
     Some \<lparr>file_record = fde, is_root_directory = root_directory_file, is_small_fat_root_dir = small, file_record_index = fde_index\<rparr>
   }"

definition fat_file_size :: "fat_file \<Rightarrow> u64" where
  "fat_file_size f = fde_file_size (file_record f)"

subsection \<open>Sectors of a file\<close>

fun cluster_walk :: "nat \<Rightarrow> u64 \<Rightarrow> ('d, 'z) fat_fs_scheme \<Rightarrow> (bool \<times> u64) option" where
  "cluster_walk 0 current_cluster fs = Some (True, current_cluster)"
| "cluster_walk (Suc n) current_cluster fs = do {
     next_cluster \<leftarrow> read_fat_entry fs current_cluster;
     if is_normal_cluster_number fs next_cluster then cluster_walk n next_cluster fs else Some (False, current_cluster)
   }"

definition get_disk_sector_from_offset :: "('d, 'z) fat_fs_scheme \<Rightarrow> fat_file \<Rightarrow> u64 \<Rightarrow> (bool \<times> u64) option" where
  "get_disk_sector_from_offset fs f sector_offset =
     (if \<not> is_small_fat_root_dir f then do {
        (result, current_cluster) \<leftarrow> cluster_walk (unat (sector_offset div spc fs)) (fde_first_cluster (file_record f)) fs;
        let disk_sector = convert_cluster_to_sector_num fs current_cluster;
        Some (result \<and> disk_sector \<noteq> - 1, disk_sector + sector_offset mod spc fs)
      } else Some (True, root_dir_start_sector fs + sector_offset))"

definition advance_sector_num :: "('d, 'z) fat_fs_scheme \<Rightarrow> fat_file \<Rightarrow> u64 \<Rightarrow> (ERR_CODE \<times> u64) option" where
  "advance_sector_num fs f sector_num =
     (if \<not> is_small_fat_root_dir f then do {
        next_sector \<leftarrow> get_next_file_sector fs sector_num;
        Some (case next_sector of None \<Rightarrow> (STORAGE_ERROR, sector_num) | Some next_sector_num \<Rightarrow> (NO_ERROR, next_sector_num))
      } else
        let sector_num = sector_num + 1
        in Some (if sector_num > root_dir_sector_count fs + root_dir_start_sector fs then INVALID_PARAM else NO_ERROR, sector_num))"

subsection \<open>Reading\<close>

text \<open>A read of whole sectors to the address \<open>buffer + off\<close>.\<close>

definition read_into ::
  "'d block_ops \<Rightarrow> ('d, 'z) fat_fs_scheme \<Rightarrow> u64 \<Rightarrow> u64 \<Rightarrow> u8 list \<Rightarrow> nat \<Rightarrow> u64 \<Rightarrow> (ERR_CODE \<times> u8 list) option" where
  "read_into ops fs start_sector sectors buffer off len = do {
     ASSERT (off \<le> length buffer);
     (r, b) \<leftarrow> op_read ops (fs_storage fs) start_sector sectors (Some (drop off buffer)) len;
     b \<leftarrow> b;
     Some (r, take off buffer @ b)
   }"

text \<open>
  The loop over the whole sectors. Consecutive sectors are collected to one read, from \<open>start_sector\<close> to \<open>cur_sector\<close>. The
  counts and their products with the size of a sector have 32 bits.
\<close>

abbreviation bps32 :: "('d, 'z) fat_fs_scheme \<Rightarrow> u32" where
  "bps32 fs \<equiv> ucast (bytes_per_sec (shared (fs_bpb fs)))"

definition read_run ::
  "'d block_ops \<Rightarrow> ('d, 'z) fat_fs_scheme \<Rightarrow> u64 \<Rightarrow> u64 \<Rightarrow> u64 \<Rightarrow> u8 list \<Rightarrow> (ERR_CODE \<times> u64 \<times> u8 list) option" where
  "read_run ops fs start_sector cur_sector bytes_read_so_far buffer = do {
     let sector_count = (ucast (cur_sector + 1 - start_sector) :: u32);
     (ec, buffer) \<leftarrow> read_into ops fs start_sector (ucast sector_count) buffer (unat bytes_read_so_far) (ucast (bps32 fs * sector_count));
     Some (ec, bytes_read_so_far + ucast (sector_count * bps32 fs), buffer)
   }"

fun whole_sector_loop ::
  "nat \<Rightarrow> 'd block_ops \<Rightarrow> ('d, 'z) fat_fs_scheme \<Rightarrow> fat_file \<Rightarrow> u64 \<Rightarrow> u64 \<Rightarrow> u64 \<Rightarrow> ERR_CODE \<Rightarrow> u64 \<Rightarrow> u8 list \<Rightarrow>
     (u64 \<times> u64 \<times> u64 \<times> u64 \<times> u8 list) option" where
  "whole_sector_loop 0 ops fs f start_sector cur_sector next_sector ec pos buffer = Some (start_sector, cur_sector, next_sector, pos, buffer)"
| "whole_sector_loop (Suc n) ops fs f start_sector cur_sector next_sector ec pos buffer =
     (if ec \<noteq> NO_ERROR then Some (start_sector, cur_sector, next_sector, pos, buffer)
      else do {
        let cur_sector = next_sector;
        (ec, next_sector) \<leftarrow> advance_sector_num fs f next_sector;
        if next_sector \<noteq> cur_sector + 1 \<or> cur_sector - start_sector \<ge> 65024 div bps fs
        then do {
          (ec, pos, buffer) \<leftarrow> read_run ops fs start_sector cur_sector pos buffer;
          whole_sector_loop n ops fs f next_sector cur_sector next_sector ec pos buffer
        } else whole_sector_loop n ops fs f start_sector cur_sector next_sector ec pos buffer
      })"

text \<open>How many bytes of a request of \<open>n\<close> bytes are in the sector at hand.\<close>

definition bytes_from_sector :: "('d, 'z) fat_fs_scheme \<Rightarrow> u64 \<Rightarrow> u64 \<Rightarrow> u64" where
  "bytes_from_sector fs n offset = (let m = (if n > bps fs then bps fs else n) in if m + offset > bps fs then bps fs - offset else m)"

text \<open>The three sections of a read: to the end of the first sector, whole sectors, and the beginning of the last one.\<close>

definition read_first ::
  "'d block_ops \<Rightarrow> ('d, 'z) fat_fs_scheme \<Rightarrow> fat_file \<Rightarrow> u64 \<Rightarrow> u64 \<Rightarrow> u64 \<Rightarrow> u8 list \<Rightarrow> (ERR_CODE \<times> u64 \<times> u64 \<times> u8 list \<times> u8 list) option" where
  "read_first ops fs f read_sector_num read_offset len buffer = do {
     let bytes_from_this_sector = bytes_from_sector fs len read_offset;
     ASSERT (bytes_from_this_sector \<le> bps fs);
     (ec, sector_buffer) \<leftarrow> read_into ops fs read_sector_num 1 (replicate (unat (bps fs)) 0) 0 (bps fs);
     if ec \<noteq> NO_ERROR then Some (ec, len, read_sector_num, sector_buffer, buffer)
     else do {
       buffer \<leftarrow> memcpy buffer 0 sector_buffer (unat read_offset) (unat bytes_from_this_sector);
       (_, read_sector_num) \<leftarrow> advance_sector_num fs f read_sector_num;
       Some (ec, bytes_from_this_sector, read_sector_num, sector_buffer, buffer)
     }
   }"

definition read_whole ::
  "'d block_ops \<Rightarrow> ('d, 'z) fat_fs_scheme \<Rightarrow> fat_file \<Rightarrow> ERR_CODE \<Rightarrow> u64 \<Rightarrow> u64 \<Rightarrow> u64 \<Rightarrow> u8 list \<Rightarrow>
     (ERR_CODE \<times> u64 \<times> u64 \<times> u8 list) option" where
  "read_whole ops fs f ec read_sector_num len pos buffer =
     (if len - pos \<ge> bps fs then do {
        let num_whole_sectors = (len - pos) div bps fs;
        (start_sector, cur_sector, next_sector, pos, buffer) \<leftarrow>
          whole_sector_loop (unat num_whole_sectors) ops fs f read_sector_num read_sector_num read_sector_num ec pos buffer;
        (ec, pos, buffer) \<leftarrow> read_run ops fs start_sector cur_sector pos buffer;
        Some (ec, pos, next_sector, buffer)
      } else Some (ec, pos, read_sector_num, buffer))"

definition read_last ::
  "'d block_ops \<Rightarrow> ('d, 'z) fat_fs_scheme \<Rightarrow> ERR_CODE \<Rightarrow> u64 \<Rightarrow> u64 \<Rightarrow> u64 \<Rightarrow> u8 list \<Rightarrow> u8 list \<Rightarrow> (ERR_CODE \<times> u64 \<times> u8 list) option" where
  "read_last ops fs ec read_sector_num len pos sector_buffer buffer = do {
     ASSERT (len - pos < bps fs);
     (ec, pos, buffer) \<leftarrow>
       (if len - pos \<noteq> 0 then do {
          (ec, sector_buffer) \<leftarrow> read_into ops fs read_sector_num 1 sector_buffer 0 (bps fs);
          if ec = NO_ERROR then do {
            ASSERT (len - pos \<le> bps fs);
            ASSERT (unat pos \<le> length buffer);
            tl \<leftarrow> memcpy (drop (unat pos) buffer) 0 sector_buffer 0 (unat (len - pos));
            Some (ec, pos + (len - pos), take (unat pos) buffer @ tl)
          } else Some (ec, pos, buffer)
        } else Some (ec, pos, buffer));
     ASSERT (pos = len);
     Some (ec, pos, buffer)
   }"

definition fat_read_bytes ::
  "'d block_ops \<Rightarrow> ('d, 'z) fat_fs_scheme \<Rightarrow> fat_file \<Rightarrow> u64 \<Rightarrow> u64 \<Rightarrow> u8 list option \<Rightarrow> u64 \<Rightarrow> (ERR_CODE \<times> u64 \<times> u8 list option) option" where
  "fat_read_bytes ops fs f start len buffer buffer_length =
     (let len = (if start + len > fat_file_size f then fat_file_size f - start else len);
          len = (if len > buffer_length then buffer_length else len)
      in case buffer of
          None \<Rightarrow> Some (INVALID_PARAM, 0, None)
        | Some buf \<Rightarrow>
            if start > fat_file_size f then Some (NO_ERROR, 0, Some buf)
            else do {
              (found, read_sector_num) \<leftarrow> get_disk_sector_from_offset fs f (start div bps fs);
              if \<not> found then Some (STORAGE_ERROR, 0, Some buf)
              else do {
                (ec, pos, read_sector_num, sector_buffer, buf) \<leftarrow> read_first ops fs f read_sector_num (start mod bps fs) len buf;
                (ec, pos, read_sector_num, buf) \<leftarrow> read_whole ops fs f ec read_sector_num len pos buf;
                (ec, pos, buf) \<leftarrow> read_last ops fs ec read_sector_num len pos sector_buffer buf;
                Some (ec, pos, Some buf)
              }
            })"

subsection \<open>Writing\<close>

text \<open>One round: a part of a sector is written by reading the sector, changing it and writing it back.\<close>

definition write_sector ::
  "'d block_ops \<Rightarrow> ('d, 'z) fat_fs_scheme \<Rightarrow> u64 \<Rightarrow> u64 \<Rightarrow> u64 \<Rightarrow> u64 \<Rightarrow> u8 list \<Rightarrow> u8 list \<Rightarrow> (ERR_CODE \<times> 'd \<times> u8 list) option" where
  "write_sector ops fs write_sector_num write_offset bytes_from_this_sector pos sector_buffer buffer =
     (if bytes_from_this_sector \<noteq> bps fs then do {
        (ec, sector_buffer) \<leftarrow> read_into ops fs write_sector_num 1 sector_buffer 0 (bps fs);
        if ec \<noteq> NO_ERROR then Some (ec, fs_storage fs, sector_buffer)
        else do {
          sector_buffer \<leftarrow> memcpy sector_buffer (unat write_offset) buffer (unat pos) (unat bytes_from_this_sector);
          (ec, dev) \<leftarrow> op_write ops (fs_storage fs) write_sector_num 1 (Some sector_buffer) (bps fs);
          Some (ec, dev, sector_buffer)
        }
      } else do {
        ASSERT (unat pos \<le> length buffer);
        (ec, dev) \<leftarrow> op_write ops (fs_storage fs) write_sector_num 1 (Some (drop (unat pos) buffer)) bytes_from_this_sector;
        Some (ec, dev, sector_buffer)
      })"

text \<open>
  The loop over the sectors; the sector buffer keeps its contents from one round to the next. The result of
  \<open>advance_sector_num\<close> is not looked at. A round writes at least one byte, so \<open>n\<close> rounds are enough for \<open>n\<close> bytes.
\<close>

fun fat_write_loop ::
  "nat \<Rightarrow> 'd block_ops \<Rightarrow> fat_file \<Rightarrow> u64 \<Rightarrow> u64 \<Rightarrow> u64 \<Rightarrow> u64 \<Rightarrow> u8 list \<Rightarrow> u8 list \<Rightarrow> ('d, 'z) fat_fs_scheme \<Rightarrow>
     (ERR_CODE \<times> u64 \<times> ('d, 'z) fat_fs_scheme) option" where
  "fat_write_loop 0 ops f write_sector_num write_offset len pos sector_buffer buffer fs = (if pos < len then None else Some (NO_ERROR, pos, fs))"
| "fat_write_loop (Suc n) ops f write_sector_num write_offset len pos sector_buffer buffer fs =
     (if \<not> pos < len then Some (NO_ERROR, pos, fs)
      else do {
        let bytes_from_this_sector = bytes_from_sector fs (len - pos) write_offset;
        ASSERT (bytes_from_this_sector \<le> bps fs);
        (ec, dev, sector_buffer) \<leftarrow> write_sector ops fs write_sector_num write_offset bytes_from_this_sector pos sector_buffer buffer;
        let fs = fs\<lparr>fs_storage := dev\<rparr>;
        if ec \<noteq> NO_ERROR then Some (ec, pos, fs)
        else do {
          let pos = pos + bytes_from_this_sector;
          write_sector_num \<leftarrow>
            (if pos < len then do { (_, s) \<leftarrow> advance_sector_num fs f write_sector_num; Some s } else Some write_sector_num);
          fat_write_loop n ops f write_sector_num 0 len pos sector_buffer buffer fs
        }
      })"

text \<open>
  The part of \<open>write_bytes\<close> after the size of the file has been adjusted, with the error code so far. A null buffer that
  gets here is read when there are bytes to write.
\<close>

definition write_data ::
  "'d block_ops \<Rightarrow> fat_file \<Rightarrow> ERR_CODE \<Rightarrow> u64 \<Rightarrow> u64 \<Rightarrow> u8 list option \<Rightarrow> u64 \<Rightarrow> ('d, 'z) fat_fs_scheme \<Rightarrow>
     (ERR_CODE \<times> u64 \<times> ('d, 'z) fat_fs_scheme) option" where
  "write_data ops f ec start len buffer buffer_length fs =
     (let ec = (if len > buffer_length then INVALID_PARAM else ec)
      in if ec \<noteq> NO_ERROR then Some (ec, 0, fs)
      else do {
        (found, write_sector_num) \<leftarrow> get_disk_sector_from_offset fs f (start div bps fs);
        if \<not> found then Some (STORAGE_ERROR, 0, fs)
        else do {
          ASSERT (buffer \<noteq> None \<or> len = 0);
          fat_write_loop (unat len) ops f write_sector_num (start mod bps fs) len 0 (replicate (unat (bps fs)) 0)
            (case buffer of Some buf \<Rightarrow> buf | None \<Rightarrow> []) fs
        }
      })"

subsection \<open>The size of a file\<close>

text \<open>
  The files are the one whose size changes, its folder, the folder of that, and so on. In \<open>set_file_size\<close>
  the bytes from the old to the new end are filled with zeros; the call of \<open>write_bytes\<close> for them does not enlarge the file again, because
  they end where the file now ends, so it is the call of \<^const>\<open>write_data\<close>. So is the one in \<open>write_fde\<close>, as the
  file of a folder is a directory, which \<open>write_bytes\<close> never enlarges.
\<close>

abbreviation bpc :: "('d, 'z) fat_fs_scheme \<Rightarrow> u64" where
  "bpc fs \<equiv> bps fs * spc fs"

definition chain_length :: "('d, 'z) fat_fs_scheme \<Rightarrow> u64 \<Rightarrow> u64" where
  "chain_length fs file_size = (if file_size > 0 then (file_size - 1) div bpc fs + 1 else 0)"

function (sequential)
  set_file_size_no_write :: "'d block_ops \<Rightarrow> u64 \<Rightarrow> fat_file list \<Rightarrow> ('d, 'z) fat_fs_scheme \<Rightarrow>
     (ERR_CODE \<times> fat_file list \<times> ('d, 'z) fat_fs_scheme) option" and
  set_file_size :: "'d block_ops \<Rightarrow> u64 \<Rightarrow> fat_file list \<Rightarrow> ('d, 'z) fat_fs_scheme \<Rightarrow>
     (ERR_CODE \<times> fat_file list \<times> ('d, 'z) fat_fs_scheme) option" and
  write_fde :: "'d block_ops \<Rightarrow> u32 \<Rightarrow> fat_dir_entry \<Rightarrow> fat_file list \<Rightarrow> ('d, 'z) fat_fs_scheme \<Rightarrow>
     (ERR_CODE \<times> fat_file list \<times> ('d, 'z) fat_fs_scheme) option" where
  "set_file_size_no_write ops file_size [] fs = None"
| "set_file_size_no_write ops file_size (f # parents) fs =
     (if is_small_fat_root_dir f then Some (INVALID_OP, f # parents, fs)
      else if file_size > 0xFFFFFFFF then Some (INVALID_PARAM, f # parents, fs)
      else if fde_directory (file_record f) \<and> file_size > 0xFFFF * 32 then Some (INVALID_PARAM, f # parents, fs)
      else do {
        let dir = fde_directory (file_record f);
        let file_size = (if dir \<and> file_size > 0 then ((file_size - 1) div bpc fs + 1) * bpc fs else file_size);
        let old_chain_length = chain_length fs (fat_file_size f);
        let new_chain_length = chain_length fs file_size;
        let cluster_number = (push_bit 16 (ucast (first_cluster_high (file_record f))) OR ucast (first_cluster_low (file_record f)) :: u64);
        (result, cluster_number, fs) \<leftarrow>
          (if new_chain_length \<noteq> old_chain_length
           then change_file_chain_length ops cluster_number old_chain_length new_chain_length fs
           else Some (NO_ERROR, cluster_number, fs));
        if result \<noteq> NO_ERROR then Some (result, f # parents, fs)
        else do {
          let low = (ucast cluster_number :: u16);
          let high = (ucast (drop_bit 16 cluster_number) :: u16);
          let moved = (first_cluster_high (file_record f) \<noteq> high \<or> first_cluster_low (file_record f) \<noteq> low);
          ASSERT (moved \<longrightarrow> file_size = 0 \<or> fat_file_size f = 0);
          let fde = (if moved then fde_set_first_cluster high low (file_record f) else file_record f);
          let fde = fde_set_file_size (if dir then 0 else ucast file_size) fde;
          (result, parents, fs) \<leftarrow> write_fde ops (file_record_index f) fde parents fs;
          let fde = (if dir then fde_set_file_size (ucast file_size) fde else fde);
          Some (result, f\<lparr>file_record := fde\<rparr> # parents, fs)
        }
      })"
| "set_file_size ops file_size files fs = do {
     let old_file_size = fat_file_size (hd files);
     (result, files, fs) \<leftarrow> set_file_size_no_write ops file_size files fs;
     if result = NO_ERROR \<and> file_size > old_file_size then do {
       let new_bytes = file_size - old_file_size;
       (result, bw, fs) \<leftarrow>
         write_data ops (hd files) NO_ERROR old_file_size new_bytes (Some (replicate (unat new_bytes) 0)) new_bytes fs;
       Some (if result = NO_ERROR \<and> bw \<noteq> new_bytes then UNKNOWN else result, files, fs)
     } else Some (result, files, fs)
   }"
| "write_fde ops index fde [] fs = None"
| "write_fde ops index fde (folder # parents) fs = do {
     (result, files, fs) \<leftarrow>
       (if ucast (index + 1) * 32 > fat_file_size folder
        then set_file_size ops (ucast (index + 1) * 32) (folder # parents) fs
        else Some (NO_ERROR, folder # parents, fs));
     if result \<noteq> NO_ERROR then Some (result, files, fs)
     else do {
       (result, br, fs) \<leftarrow> write_data ops (hd files) NO_ERROR (ucast index * 32) 32 (Some fde) 32 fs;
       Some (if result = NO_ERROR \<and> br \<noteq> 32 then UNKNOWN else result, files, fs)
     }
   }"
  by pat_completeness auto
termination
  by (relation "measure (case_sum (\<lambda>(_, _, files, _). 3 * length files)
      (case_sum (\<lambda>(_, _, files, _). 3 * length files + 1) (\<lambda>(_, _, _, files, _). 3 * length files + 2)))") auto

definition fat_write_bytes ::
  "'d block_ops \<Rightarrow> u64 \<Rightarrow> u64 \<Rightarrow> u8 list option \<Rightarrow> u64 \<Rightarrow> fat_file list \<Rightarrow> ('d, 'z) fat_fs_scheme \<Rightarrow>
     (ERR_CODE \<times> u64 \<times> fat_file list \<times> ('d, 'z) fat_fs_scheme) option" where
  "fat_write_bytes ops start len buffer buffer_length files fs = do {
     let ec = (if buffer = None then INVALID_PARAM else NO_ERROR);
     (ec, files, fs) \<leftarrow>
       (if \<not> fde_directory (file_record (hd files)) \<and> start + len > fat_file_size (hd files)
        then set_file_size ops (start + len) files fs
        else Some (ec, files, fs));
     (ec, bytes_written, fs) \<leftarrow> write_data ops (hd files) ec start len buffer buffer_length fs;
     Some (ec, bytes_written, files, fs)
   }"


subsection \<open>Laws of the fields\<close>

lemma le_at_put_len: "length bs = n \<Longrightarrow> off + n \<le> length buf \<Longrightarrow> le_at (put buf off bs) off n = le_value bs"
  using le_at_put_same [of off bs buf] by simp

lemma fde_size_laws:
  assumes "length d = 32"
  shows "length (fde_set_file_size n d) = 32" "fde_file_size (fde_set_file_size n d) = ucast n"
    "fde_first_cluster (fde_set_file_size n d) = fde_first_cluster d" "fde_directory (fde_set_file_size n d) = fde_directory d"
proof -
  have "unat n < 256 ^ 4" using unsigned_less [of n, where ?'a = nat] by simp
  then show "fde_file_size (fde_set_file_size n d) = ucast n"
    using assms of_nat_unat [of n] by (simp add: fde_file_size_def fde_set_file_size_def le_at_put_len)
  show "length (fde_set_file_size n d) = 32" using assms by (simp add: fde_set_file_size_def)
  show "fde_first_cluster (fde_set_file_size n d) = fde_first_cluster d" "fde_directory (fde_set_file_size n d) = fde_directory d"
    using assms by (simp_all add: fde_first_cluster_def first_cluster_high_def first_cluster_low_def fde_directory_def fde_set_file_size_def le_at_put_other)
qed

lemma fde_cluster_laws:
  assumes "length d = 32"
  shows "length (fde_set_first_cluster h l d) = 32" "fde_file_size (fde_set_first_cluster h l d) = fde_file_size d"
    "first_cluster_high (fde_set_first_cluster h l d) = h" "first_cluster_low (fde_set_first_cluster h l d) = l"
    "fde_directory (fde_set_first_cluster h l d) = fde_directory d"
proof -
  have "unat h < 256 ^ 2" "unat l < 256 ^ 2"
    using unsigned_less [of h, where ?'a = nat] unsigned_less [of l, where ?'a = nat] by simp_all
  then show "first_cluster_high (fde_set_first_cluster h l d) = h" "first_cluster_low (fde_set_first_cluster h l d) = l"
    using assms by (simp_all add: first_cluster_high_def first_cluster_low_def fde_set_first_cluster_def le_at_put_other le_at_put_len)
  show "length (fde_set_first_cluster h l d) = 32" "fde_file_size (fde_set_first_cluster h l d) = fde_file_size d"
    "fde_directory (fde_set_first_cluster h l d) = fde_directory d"
    using assms by (simp_all add: fde_set_first_cluster_def fde_file_size_def fde_directory_def le_at_put_other)
qed

lemma fde_directory_laws:
  assumes "length d = 32"
  shows "length (fde_set_directory d) = 32" "fde_directory (fde_set_directory d)" "fde_file_size (fde_set_directory d) = fde_file_size d"
    "fde_first_cluster (fde_set_directory d) = fde_first_cluster d"
proof -
  have "bit (x OR 0x10 :: u8) 4" for x by (simp add: bit_or_iff)
  then show "fde_directory (fde_set_directory d)"
    using assms by (simp add: fde_directory_def fde_set_directory_def le_at_put_len)
  show "length (fde_set_directory d) = 32" "fde_file_size (fde_set_directory d) = fde_file_size d"
    "fde_first_cluster (fde_set_directory d) = fde_first_cluster d"
    using assms by (simp_all add: fde_set_directory_def fde_file_size_def fde_first_cluster_def first_cluster_high_def first_cluster_low_def le_at_put_other)
qed

lemma fde_cluster_number: "length d = 32 \<Longrightarrow> fde_first_cluster (fde_set_first_cluster 0 l d) = scast (ucast l :: u32)"
  by (simp add: fde_first_cluster_def fde_cluster_laws)

subsection \<open>Directories: counting the clusters\<close>

lemma count_clusters_chain:
  "fat_wf fs \<Longrightarrow> fat_chain fs c cs \<Longrightarrow> count_clusters fs c n = Some (n + of_nat (length cs))"
proof (induction cs arbitrary: c n)
  case Nil
  then show ?case by (simp add: count_clusters.simps)
next
  case (Cons d ds)
  then show ?case by (subst count_clusters.simps) (simp add: read_fat_entry_map add.assoc)
qed

lemma count_clusters_circular:
  assumes "fat_wf fs" "is_normal_cluster_number fs c" "fat_map fs c = c"
  shows "count_clusters fs c n = None"
proof -
  have "fs = fs \<longrightarrow> c \<noteq> c" if "count_clusters fs c n = Some r" for r
  proof (rule count_clusters.raw_induct [where P = "\<lambda>f d m y. f = fs \<longrightarrow> d \<noteq> c", OF _ that])
    fix count f d m y
    assume ih: "\<And>f d m y. count f d m = Some y \<Longrightarrow> f = fs \<longrightarrow> d \<noteq> c"
      and b: "(if is_normal_cluster_number f d then Option.bind (read_fat_entry f d) (\<lambda>c. count f c (m + 1)) else Some m) = Some y"
    show "f = fs \<longrightarrow> d \<noteq> c" using b ih [of fs c "m + 1" y] assms by (auto simp: read_fat_entry_map)
  qed
  then show ?thesis by (cases "count_clusters fs c n") auto
qed

subsection \<open>The bytes of a file\<close>

text \<open>The contents of a sector, and of the sectors of a chain.\<close>

definition sector_bytes :: "nat \<Rightarrow> u8 list \<Rightarrow> nat \<Rightarrow> u8 list" where
  "sector_bytes b disk s = take b (drop (s * b) disk)"

definition chain_bytes :: "('d \<Rightarrow> u8 list) \<Rightarrow> ('d, 'z) fat_fs_scheme \<Rightarrow> u64 list \<Rightarrow> u8 list" where
  "chain_bytes bytes fs cs = concat (map (\<lambda>s. sector_bytes (unat (bps fs)) (bytes (fs_storage fs)) (unat s)) (chain_sectors fs cs))"

lemma sector_run: "take (n * b) (drop (s * b) disk) = concat (map (\<lambda>k. sector_bytes b disk (s + k)) [0 ..< n])"
proof (induction n)
  case (Suc n)
  have "take (Suc n * b) (drop (s * b) disk) = take (n * b) (drop (s * b) disk) @ take b (drop (n * b) (drop (s * b) disk))"
    by (simp only: mult_Suc add.commute [of b] take_add)
  also have "drop (n * b) (drop (s * b) disk) = drop ((s + n) * b) disk" by (simp add: add_mult_distrib add.commute)
  finally show ?case using Suc by (simp add: sector_bytes_def)
qed simp

lemma concat_take:
  assumes "\<And>x. x \<in> set xs \<Longrightarrow> length (g x) = b"
  shows "take (n * b) (concat (map g xs)) = concat (map g (take n xs))"
  using assms
proof (induction xs arbitrary: n)
  case (Cons y ys)
  then show ?case by (cases n) auto
qed simp

lemma concat_drop:
  assumes "\<And>x. x \<in> set xs \<Longrightarrow> length (g x) = b"
  shows "drop (i * b) (concat (map g xs)) = concat (map g (drop i xs))"
  using assms
proof (induction xs arbitrary: i)
  case (Cons y ys)
  then show ?case by (cases i) auto
qed simp

lemma concat_chunks:
  assumes "\<And>x. x \<in> set xs \<Longrightarrow> length (g x) = b"
  shows "take (n * b) (drop (i * b) (concat (map g xs))) = concat (map g (take n (drop i xs)))"
  using assms concat_take [of "drop i xs" g b n] concat_drop [of xs g b i] by (auto dest: in_set_dropD)

text \<open>Replacing a sector of the device replaces a piece of the file.\<close>

lemma sector_bytes_overwrite:
  assumes "length new = b" "t * b + b \<le> length disk"
  shows "sector_bytes b (overwrite (t * b) new disk) s = (if s = t then new else sector_bytes b disk s)"
proof -
  consider "s = t" | "s < t" | "t < s" by linarith
  then show ?thesis
  proof cases
    case 1
    then show ?thesis using assms overwrite_read_back [of "t * b" new disk] by (simp add: sector_bytes_def)
  next
    case 2
    then have "Suc s * b \<le> t * b" by (intro mult_le_mono1) simp
    then show ?thesis using 2 assms by (simp add: sector_bytes_def overwrite_def take_drop min_def)
  next
    case 3
    then have "Suc t * b \<le> s * b" by (intro mult_le_mono1) simp
    then show ?thesis using 3 assms by (simp add: sector_bytes_def overwrite_def)
  qed
qed

lemma concat_replace:
  assumes "\<And>x. x \<in> set xs \<Longrightarrow> length (g x) = b" "distinct xs" "a < length xs" "length new = b"
  shows "concat (map (\<lambda>x. if x = xs ! a then new else g x) xs) = overwrite (a * b) new (concat (map g xs))"
proof -
  have xs: "xs = take a xs @ xs ! a # drop (Suc a) xs" using assms(3) by (simp add: id_take_nth_drop)
  have out: "xs ! a \<notin> set (take a xs)" "xs ! a \<notin> set (drop (Suc a) xs)"
    using assms(2) by (subst (asm) xs, simp)+
  have "map (\<lambda>x. if x = xs ! a then new else g x) xs =
      map (\<lambda>x. if x = xs ! a then new else g x) (take a xs @ xs ! a # drop (Suc a) xs)" using xs by simp
  also have "\<dots> = map g (take a xs) @ new # map g (drop (Suc a) xs)" using out by (auto simp del: append_take_drop_id id_take_nth_drop)
  finally have l: "concat (map (\<lambda>x. if x = xs ! a then new else g x) xs) = concat (map g (take a xs)) @ new @ concat (map g (drop (Suc a) xs))"
    by simp
  have "take (a * b) (concat (map g xs)) = concat (map g (take a xs))" using assms(1) by (rule concat_take)
  moreover have "drop (Suc a * b) (concat (map g xs)) = concat (map g (drop (Suc a) xs))" using assms(1) by (rule concat_drop)
  ultimately show ?thesis using l assms(4) by (simp add: overwrite_def add.commute)
qed

lemma overwrite_extend:
  assumes "st + p + n \<le> length c" "p + n \<le> length data"
  shows "overwrite (st + p) (take n (drop p data)) (overwrite st (take p data) c) = overwrite st (take (p + n) data) c"
proof -
  have "take (st + p) (overwrite st (take p data) c) = take st c @ take p data" using assms by (simp add: overwrite_def)
  moreover have "drop (st + p + n) (overwrite st (take p data) c) = drop (st + p + n) c" using assms by (simp add: overwrite_def ac_simps)
  moreover have "overwrite st (take (p + n) data) c = take st c @ take p data @ take n (drop p data) @ drop (st + p + n) c"
    using assms by (simp add: overwrite_def take_add min_absorb2 add.assoc [symmetric])
  ultimately show ?thesis using assms by (simp add: overwrite_def [of "st + p"] min_absorb2 del: take_add)
qed

lemma overwrite_part:
  assumes "off + n \<le> b" "i + b \<le> length c" "length new = n"
  shows "overwrite i (overwrite off new (take b (drop i c))) c = overwrite (i + off) new c"
proof -
  have "take off (drop i c) = drop i (take (i + off) c)" by (simp add: drop_take)
  moreover have "take i c @ drop i (take (i + off) c) = take (i + off) c"
    by (metis append_take_drop_id le_add1 min_absorb1 take_take)
  moreover have "drop (off + n) (take b (drop i c)) @ drop (i + b) c = drop (i + off + n) c"
  proof -
    have "drop (i + off + n) c = take (b - (off + n)) (drop (i + off + n) c) @ drop (b - (off + n)) (drop (i + off + n) c)"
      by (rule append_take_drop_id [symmetric])
    then show ?thesis using assms(1) by (simp add: drop_take ac_simps)
  qed
  ultimately show ?thesis using assms by (simp add: overwrite_def min_absorb1)
qed

text \<open>A volume whose sectors are blocks of a running device.\<close>

definition volume_on :: "'d block_ops \<Rightarrow> ('d \<Rightarrow> bool) \<Rightarrow> ('d, 'z) fat_fs_scheme \<Rightarrow> bool" where
  "volume_on ops running fs \<longleftrightarrow> fat_wf fs \<and> volume_fits fs \<and> running (fs_storage fs) \<and> op_block_size ops (fs_storage fs) = bps fs \<and>
     bytes_per_sec (shared (fs_bpb fs)) \<noteq> 0 \<and> max_sectors fs \<le> op_num_blocks ops (fs_storage fs)"

lemma chain_members: "fat_chain fs c cs \<Longrightarrow> d \<in> set cs \<Longrightarrow> is_normal_cluster_number fs d \<and> valid_cluster fs d"
  by (induction cs arbitrary: c) auto

lemma chain_sector_range:
  assumes "fat_wf fs" "volume_fits fs" "fat_chain fs c cs" "s \<in> set (chain_sectors fs cs)"
  shows "unat s < unat (max_sectors fs)"
proof -
  obtain d k where "d \<in> set cs" "k < unat (spc fs)" "s = convert_cluster_to_sector_num fs d + of_nat k"
    using assms(4) by (auto simp: chain_sectors_def cluster_sectors_def)
  then show ?thesis using cluster_sector_nat [OF assms(1,2)] chain_members [OF assms(3)] by simp
qed


lemma chain_sector_nth:
  "k < unat (spc fs) \<Longrightarrow> q < length cs \<Longrightarrow> chain_sectors fs cs ! (q * unat (spc fs) + k) = convert_cluster_to_sector_num fs (cs ! q) + of_nat k"
proof (induction cs arbitrary: q)
  case (Cons c cs)
  then show ?case by (cases q) (auto simp: chain_sectors_def nth_append cluster_sectors_def)
qed simp

lemma cluster_walk_chain:
  "fat_wf fs \<Longrightarrow> fat_chain fs c cs \<Longrightarrow> n < length cs \<Longrightarrow> cluster_walk n c fs = Some (True, cs ! n)"
proof (induction n arbitrary: c cs)
  case 0
  then show ?case by (cases cs) auto
next
  case (Suc n)
  then obtain d ds where cs: "cs = d # ds" "n < length ds" by (cases cs) auto
  then have "ds \<noteq> []" by auto
  with cs have "is_normal_cluster_number fs (fat_map fs d)" using Suc.prems(2) chain_start [of fs "fat_map fs d" ds] by auto
  then show ?case using Suc.IH [of "fat_map fs d" ds] Suc.prems cs by (auto simp: read_fat_entry_map)
qed

lemma distinct_chain_sectors:
  assumes "fat_wf fs" "volume_fits fs" "fat_chain fs c cs"
  shows "distinct (map unat (chain_sectors fs cs))"
proof -
  let ?n = "unat (spc fs)" and ?S = "chain_sectors fs cs"
  have p: "0 < ?n" using assms(1) unat_spc(1) [of fs] by (simp add: fat_wf_def unat_gt_0)
  have S: "unat (?S ! i) = unat (first_data_sector fs) + (unat (cs ! (i div ?n)) - 2) * ?n + i mod ?n" "i div ?n < length cs" if "i < length ?S" for i
  proof -
    show q: "i div ?n < length cs" using that p by (simp add: length_chain_sectors less_mult_imp_div_less)
    have "valid_cluster fs (cs ! (i div ?n))" "is_normal_cluster_number fs (cs ! (i div ?n))" using chain_members [OF assms(3)] q by auto
    from cluster_sector_nat(1) [OF assms(1,2) this, of "i mod ?n"]
    show "unat (?S ! i) = unat (first_data_sector fs) + (unat (cs ! (i div ?n)) - 2) * ?n + i mod ?n"
      using chain_sector_nth [of "i mod ?n" fs "i div ?n" cs] q p by (simp add: div_mult_mod_eq)
  qed
  have "i = j" if i: "i < length ?S" and j: "j < length ?S" and e: "unat (?S ! i) = unat (?S ! j)" for i j
  proof -
    have f: "(unat (cs ! (i div ?n)) - 2) * ?n + i mod ?n = (unat (cs ! (j div ?n)) - 2) * ?n + j mod ?n"
      using e S(1) [OF i] S(1) [OF j] by simp
    from arg_cong [OF f, of "\<lambda>x. x mod ?n"] have m: "i mod ?n = j mod ?n" using p by simp
    from arg_cong [OF f, of "\<lambda>x. x div ?n"] have "unat (cs ! (i div ?n)) - 2 = unat (cs ! (j div ?n)) - 2" using p by simp
    moreover have "2 \<le> unat (cs ! (i div ?n))" "2 \<le> unat (cs ! (j div ?n))"
      using chain_members [OF assms(3)] S(2) [OF i] S(2) [OF j] assms(1) by (auto simp: valid_cluster_nat)
    ultimately have "cs ! (i div ?n) = cs ! (j div ?n)" by (simp add: word_unat_eq_iff)
    then have "i div ?n = j div ?n" using chain_distinct [OF assms(3)] S(2) [OF i] S(2) [OF j] by (simp add: nth_eq_iff_index_eq)
    with m show ?thesis by (metis div_mult_mod_eq)
  qed
  then show ?thesis by (auto simp: distinct_conv_nth)
qed

lemma chain_storage: "fat_chain (fs\<lparr>fs_storage := d\<rparr>) c cs = fat_chain fs c cs"
  by (induction cs arbitrary: c)
     (simp_all add: valid_cluster_def is_normal_cluster_number_def fat_map_def read_fat_entry_def)

lemma chain_sectors_storage [simp]: "chain_sectors (fs\<lparr>fs_storage := d\<rparr>) cs = chain_sectors fs cs"
proof -
  have "convert_cluster_to_sector_num (fs\<lparr>fs_storage := d\<rparr>) c = convert_cluster_to_sector_num fs c" for c
    by (simp add: convert_cluster_to_sector_num_def is_normal_cluster_number_def)
  then have "cluster_sectors (fs\<lparr>fs_storage := d\<rparr>) = cluster_sectors fs" by (simp add: fun_eq_iff cluster_sectors_def)
  then show ?thesis by (simp add: chain_sectors_def)
qed

text \<open>What a write to the file leaves of the device: every sector that is not the file's.\<close>

definition sectors_kept :: "('d \<Rightarrow> u8 list) \<Rightarrow> ('d, 'z) fat_fs_scheme \<Rightarrow> u64 list \<Rightarrow> 'd \<Rightarrow> bool" where
  "sectors_kept bytes fs cs d \<longleftrightarrow> (\<forall>s. s \<notin> unat ` set (chain_sectors fs cs) \<longrightarrow>
     sector_bytes (unat (bps fs)) (bytes d) s = sector_bytes (unat (bps fs)) (bytes (fs_storage fs)) s)"

definition file_on :: "'d block_ops \<Rightarrow> ('d \<Rightarrow> bool) \<Rightarrow> ('d, 'z) fat_fs_scheme \<Rightarrow> fat_file \<Rightarrow> u64 list \<Rightarrow> bool" where
  "file_on ops running fs f cs \<longleftrightarrow> volume_on ops running fs \<and> \<not> is_small_fat_root_dir f \<and>
     fat_chain fs (fde_first_cluster (file_record f)) cs"

text \<open>The sectors with numbers \<open>i\<close> to \<open>i + m - 1\<close> of the file are consecutive on the device.\<close>

definition run :: "u64 list \<Rightarrow> nat \<Rightarrow> nat \<Rightarrow> bool" where
  "run S i m \<longleftrightarrow> i + m \<le> length S \<and> (\<forall>k < m. unat (S ! (i + k)) = unat (S ! i) + k)"

lemma run_le: "run S i m \<Longrightarrow> m \<le> length S - i"
  by (auto simp: run_def)

text \<open>What the buffer has after the first \<open>p\<close> bytes of a read.\<close>

definition filled :: "u8 list \<Rightarrow> nat \<Rightarrow> nat \<Rightarrow> u8 list \<Rightarrow> u8 list" where
  "filled content start p buf = take p (drop start content) @ drop p buf"

lemma filled_parts:
  assumes "p \<le> length (drop st c)" "p \<le> length buf"
  shows "length (filled c st p buf) = length buf" "drop p (filled c st p buf) = drop p buf" "take p (filled c st p buf) = take p (drop st c)"
  using assms by (simp_all add: filled_def min_def)

lemma unat_bps: "unat (bps fs) = unat (bytes_per_sec (shared (fs_bpb fs)))" "unat (bps fs) < 65536" "unat (bps32 fs) = unat (bps fs)"
proof -
  show a: "unat (bps fs) = unat (bytes_per_sec (shared (fs_bpb fs)))" by (rule unat_ucast_u16_u64)
  show "unat (bps fs) < 65536" using unsigned_less [of "bytes_per_sec (shared (fs_bpb fs))", where ?'a = nat] by (simp add: a)
  show "unat (bps32 fs) = unat (bps fs)"
    unfolding a using unsigned_less [of "bytes_per_sec (shared (fs_bpb fs))", where ?'a = nat]
    by (simp add: unsigned_ucast_eq take_bit_nat_eq_self)
qed

lemma sector_share:
  assumes "unat off < unat (bps fs)"
  shows "unat (bytes_from_sector fs x off) = min (unat x) (unat (bps fs) - unat off)"
proof -
  let ?n = "if x > bps fs then bps fs else x"
  have n: "unat ?n = min (unat x) (unat (bps fs))" by (auto simp: word_less_nat_alt)
  have "unat ?n + unat off < 131072" using n assms unat_bps(2) [of fs] by linarith
  then have "unat (?n + off) = unat ?n + unat off" by (intro unat_add_no_wrap) simp
  then show ?thesis using n assms unfolding bytes_from_sector_def Let_def by (auto simp: word_less_nat_alt word_le_nat_alt unat_sub)
qed

text \<open>A read inside the file, after the first section.\<close>

definition read_rest ::
  "'d block_ops \<Rightarrow> ('d, 'z) fat_fs_scheme \<Rightarrow> fat_file \<Rightarrow> u64 \<Rightarrow> u64 \<Rightarrow> u64 \<Rightarrow> u8 list \<Rightarrow> u8 list \<Rightarrow>
     (ERR_CODE \<times> u64 \<times> u8 list option) option" where
  "read_rest ops fs f s len pos sb buf = do {
     (ec, pos, s, buf) \<leftarrow> read_whole ops fs f NO_ERROR s len pos buf;
     (ec, pos, buf) \<leftarrow> read_last ops fs ec s len pos sb buf;
     Some (ec, pos, Some buf)
   }"

context block_device
begin

lemma file_sector:
  assumes "file_on ops running fs f cs" "i < length (chain_sectors fs cs)"
  shows "unat (chain_sectors fs cs ! i) < unat (op_num_blocks ops (fs_storage fs))"
  using assms chain_sector_range [of fs _ cs "chain_sectors fs cs ! i"]
  by (auto simp: file_on_def volume_on_def word_le_nat_alt intro: less_le_trans)

lemma bps_pos: "volume_on ops running fs \<Longrightarrow> 0 < unat (bps fs)"
  using unat_bps(1) [of fs] by (simp add: volume_on_def unat_gt_0)

lemma length_sector_bytes:
  assumes "volume_on ops running fs" "s < unat (op_num_blocks ops (fs_storage fs))"
  shows "length (sector_bytes (unat (bps fs)) (bytes (fs_storage fs)) s) = unat (bps fs)"
proof -
  have "length (bytes (fs_storage fs)) = unat (op_num_blocks ops (fs_storage fs)) * unat (bps fs)"
    using assms(1) length_bytes by (simp add: volume_on_def)
  moreover have "(s + 1) * unat (bps fs) \<le> unat (op_num_blocks ops (fs_storage fs)) * unat (bps fs)"
    using assms(2) by (intro mult_le_mono1) simp
  ultimately show ?thesis by (simp add: sector_bytes_def)
qed

lemma chain_bytes_chunks:
  assumes "file_on ops running fs f cs"
  shows "take (n * unat (bps fs)) (drop (i * unat (bps fs)) (chain_bytes bytes fs cs)) =
    concat (map (\<lambda>s. sector_bytes (unat (bps fs)) (bytes (fs_storage fs)) (unat s)) (take n (drop i (chain_sectors fs cs))))"
  unfolding chain_bytes_def
proof (rule concat_chunks)
  fix s assume "s \<in> set (chain_sectors fs cs)"
  then obtain i where "i < length (chain_sectors fs cs)" "s = chain_sectors fs cs ! i" by (metis in_set_conv_nth)
  then show "length (sector_bytes (unat (bps fs)) (bytes (fs_storage fs)) (unat s)) = unat (bps fs)"
    using assms file_sector [OF assms] by (intro length_sector_bytes) (auto simp: file_on_def)
qed

lemma length_chain_bytes:
  assumes "file_on ops running fs f cs"
  shows "length (chain_bytes bytes fs cs) = length (chain_sectors fs cs) * unat (bps fs)"
proof -
  have "length (sector_bytes (unat (bps fs)) (bytes (fs_storage fs)) (unat (chain_sectors fs cs ! i))) = unat (bps fs)"
    if "i < length (chain_sectors fs cs)" for i
    using that assms file_sector [OF assms] by (intro length_sector_bytes) (auto simp: file_on_def)
  then have "\<forall>s\<in>set (chain_sectors fs cs). length (sector_bytes (unat (bps fs)) (bytes (fs_storage fs)) (unat s)) = unat (bps fs)"
    by (metis in_set_conv_nth)
  then have "map (\<lambda>s. length (sector_bytes (unat (bps fs)) (bytes (fs_storage fs)) (unat s))) (chain_sectors fs cs) =
      map (\<lambda>s. unat (bps fs)) (chain_sectors fs cs)" by simp
  then show ?thesis by (simp add: chain_bytes_def length_concat o_def sum_list_triv del: map_eq_conv)
qed

lemma run_bytes:
  assumes "file_on ops running fs f cs" "run (chain_sectors fs cs) i m"
  shows "take (m * unat (bps fs)) (drop (unat (chain_sectors fs cs ! i) * unat (bps fs)) (bytes (fs_storage fs))) =
    take (m * unat (bps fs)) (drop (i * unat (bps fs)) (chain_bytes bytes fs cs))"
proof -
  let ?S = "chain_sectors fs cs"
  have "take m (drop i ?S) = map (\<lambda>k. ?S ! (i + k)) [0 ..< m]"
    using run_le [OF assms(2)] by (simp add: list_eq_iff_nth_eq)
  then show ?thesis
    using assms(2) unfolding chain_bytes_chunks [OF assms(1)] sector_run [of m _ "unat (?S ! i)"]
    by (auto simp: run_def intro!: arg_cong [of _ _ concat] map_cong)
qed

lemma read_into_run:
  assumes "file_on ops running fs f cs" "run (chain_sectors fs cs) i m" "i < length (chain_sectors fs cs)"
    and "unat cnt = m" "unat len = m * unat (bps fs)"
    and "st + p = i * unat (bps fs)" "p + m * unat (bps fs) \<le> length buf" "p \<le> length (drop st (chain_bytes bytes fs cs))"
  shows "read_into ops fs (chain_sectors fs cs ! i) cnt (filled (chain_bytes bytes fs cs) st p buf) p len =
    Some (NO_ERROR, filled (chain_bytes bytes fs cs) st (p + m * unat (bps fs)) buf)"
proof -
  let ?S = "chain_sectors fs cs" and ?c = "chain_bytes bytes fs cs" and ?d = "fs_storage fs" and ?b = "unat (bps fs)"
  have v: "running ?d" "op_block_size ops ?d = bps fs" using assms(1) by (auto simp: file_on_def volume_on_def)
  have last: "unat (?S ! i) + m \<le> unat (op_num_blocks ops ?d)"
  proof (cases m)
    case 0
    then show ?thesis using file_sector [OF assms(1,3)] by simp
  next
    case (Suc k)
    then have "unat (?S ! (i + k)) = unat (?S ! i) + k" "i + k < length ?S" using assms(2) by (auto simp: run_def)
    then show ?thesis using file_sector [OF assms(1), of "i + k"] Suc by simp
  qed
  let ?buf = "filled ?c st p buf"
  have len: "length ?buf = length buf" "drop p ?buf = drop p buf" "take p ?buf = take p (drop st ?c)"
    using assms(7,8) filled_parts [of p st ?c buf] by simp_all
  have "op_read ops ?d (?S ! i) cnt (Some (drop p ?buf)) len =
      Some (NO_ERROR, Some (overwrite 0 (take (m * ?b) (drop (unat (?S ! i) * ?b) (bytes ?d))) (drop p ?buf)))"
    using read_inside [OF v(1), of "?S ! i" cnt len "drop p ?buf"] last assms(4,5,7) len v(2) by (simp add: request_inside_def)
  moreover have "take p (drop st ?c) @ overwrite 0 (take (m * ?b) (drop (unat (?S ! i) * ?b) (bytes ?d))) (drop p buf) =
      filled ?c st (p + m * ?b) buf"
  proof -
    have "m * ?b \<le> length ?c - i * ?b"
      using run_le [OF assms(2)] length_chain_bytes [OF assms(1)] by (simp flip: diff_mult_distrib)
    then have "length (take (m * ?b) (drop (i * ?b) ?c)) = m * ?b" by simp
    moreover have "take (p + m * ?b) (drop st ?c) = take p (drop st ?c) @ take (m * ?b) (drop (i * ?b) ?c)"
      using assms(6) by (simp add: take_add add.commute)
    ultimately show ?thesis unfolding run_bytes [OF assms(1,2)] by (simp add: overwrite_def filled_def add.commute)
  qed
  ultimately show ?thesis using len assms(7) by (simp add: read_into_def)
qed

lemma read_run_spec:
  assumes "file_on ops running fs f cs" "run (chain_sectors fs cs) i m" "i < length (chain_sectors fs cs)"
    and "unat (cur + 1 - chain_sectors fs cs ! i) = m" "m \<le> 65024 div unat (bps fs) + 1"
    and "st + unat pos = i * unat (bps fs)" "unat pos + m * unat (bps fs) \<le> length buf" "length buf < 2 ^ 64"
    and "unat pos \<le> length (drop st (chain_bytes bytes fs cs))"
  obtains pos' where "read_run ops fs (chain_sectors fs cs ! i) cur pos (filled (chain_bytes bytes fs cs) st (unat pos) buf) =
    Some (NO_ERROR, pos', filled (chain_bytes bytes fs cs) st (unat pos') buf)" "unat pos' = unat pos + m * unat (bps fs)"
proof
  let ?b = "unat (bps fs)" and ?S = "chain_sectors fs cs"
  let ?cnt = "ucast (cur + 1 - ?S ! i) :: u32"
  have "m * ?b \<le> (65024 div ?b + 1) * ?b" using assms(5) by (intro mult_le_mono1)
  also have "\<dots> \<le> 65024 + ?b" by (simp add: add_mult_distrib)
  finally have mb: "m * ?b < 2 ^ 18" using unat_bps(2) [of fs] by simp
  have m: "m \<le> 65025" using assms(5) div_le_dividend [of 65024 ?b] by linarith
  have c: "unat ?cnt = m" using m assms(4) by (simp add: unsigned_ucast_eq take_bit_nat_eq_self)
  have c64: "unat (ucast ?cnt :: u64) = m" using c by simp
  have p: "unat (ucast (bps32 fs * ?cnt) :: u64) = m * ?b" "bps32 fs * ?cnt = ?cnt * bps32 fs"
    using c mb unat_bps(3) [of fs] by (simp_all add: unat_word_ariths mult.commute)
  have "unat (pos + ucast (?cnt * bps32 fs)) = unat pos + unat (ucast (?cnt * bps32 fs) :: u64)"
    using p assms(7,8) by (intro unat_add_no_wrap) simp
  then show pos': "unat (pos + ucast (?cnt * bps32 fs)) = unat pos + m * ?b" using p by simp
  show "read_run ops fs (?S ! i) cur pos (filled (chain_bytes bytes fs cs) st (unat pos) buf) =
    Some (NO_ERROR, pos + ucast (?cnt * bps32 fs), filled (chain_bytes bytes fs cs) st (unat (pos + ucast (?cnt * bps32 fs))) buf)"
    unfolding pos' using read_into_run [OF assms(1-3) c64 p(1) assms(6,7,9)] by (simp add: read_run_def)
qed

text \<open>
  The loop over the whole sectors: the sectors from \<open>i\<close> to \<open>j - 1\<close> are collected and not read yet, the next one is
  \<open>j\<close>, and \<open>n\<close> sectors are to go.
\<close>

lemma advance_in_file:
  assumes "file_on ops running fs f cs" "Suc j < length (chain_sectors fs cs)"
  shows "advance_sector_num fs f (chain_sectors fs cs ! j) = Some (NO_ERROR, chain_sectors fs cs ! Suc j)"
  using assms next_sector_chain [of fs "fde_first_cluster (file_record f)" cs j] by (simp add: file_on_def volume_on_def advance_sector_num_def)

lemma run_distance:
  assumes "file_on ops running fs f cs" "run (chain_sectors fs cs) i (Suc m)"
  shows "unat (chain_sectors fs cs ! (i + m) - chain_sectors fs cs ! i) = m"
    and "unat (chain_sectors fs cs ! (i + m) + 1 - chain_sectors fs cs ! i) = Suc m"
proof -
  let ?S = "chain_sectors fs cs"
  have r: "unat (?S ! (i + m)) = unat (?S ! i) + m" "i + m < length ?S" using assms(2) by (auto simp: run_def)
  then have le: "?S ! i \<le> ?S ! (i + m)" by (simp add: word_le_nat_alt)
  then show "unat (?S ! (i + m) - ?S ! i) = m" using r by (simp add: unat_sub)
  have s: "unat (?S ! (i + m) + 1) = unat (?S ! (i + m)) + 1"
    using file_sector [OF assms(1) r(2)] unat_lt_u64 [of "op_num_blocks ops (fs_storage fs)"] by (simp add: unat_add_no_wrap)
  then have "?S ! i \<le> ?S ! (i + m) + 1" using r by (simp add: word_le_nat_alt)
  then show "unat (?S ! (i + m) + 1 - ?S ! i) = Suc m" using r s by (simp add: unat_sub)
qed

lemma read_collected:
  assumes "file_on ops running fs f cs" "run (chain_sectors fs cs) i (Suc (j - i))" "i \<le> j"
    and "j - i \<le> 65024 div unat (bps fs)" "st + unat pos = i * unat (bps fs)" "Suc j * unat (bps fs) \<le> st + length buf" "length buf < 2 ^ 64"
  obtains p where "read_run ops fs (chain_sectors fs cs ! i) (chain_sectors fs cs ! j) pos (filled (chain_bytes bytes fs cs) st (unat pos) buf) =
      Some (NO_ERROR, p, filled (chain_bytes bytes fs cs) st (unat p) buf)" "st + unat p = Suc j * unat (bps fs)"
proof -
  let ?S = "chain_sectors fs cs" and ?b = "unat (bps fs)" and ?c = "chain_bytes bytes fs cs"
  have ij: "i + (j - i) = j" using assms(3) by simp
  note d = run_distance [OF assms(1,2), unfolded ij]
  have m: "Suc (j - i) \<le> 65024 div ?b + 1" using assms(4) by simp
  have e: "Suc j * ?b = i * ?b + Suc (j - i) * ?b" using assms(3) by (simp flip: add_mult_distrib)
  then have room: "unat pos + Suc (j - i) * ?b \<le> length buf" using assms(5,6) by simp
  have il: "i < length ?S" using assms(2,3) by (simp add: run_def)
  then have "i * ?b \<le> length ?c" using length_chain_bytes [OF assms(1)] by simp
  then have pl: "unat pos \<le> length (drop st ?c)" using assms(5) by simp
  obtain p where "read_run ops fs (?S ! i) (?S ! j) pos (filled ?c st (unat pos) buf) = Some (NO_ERROR, p, filled ?c st (unat p) buf)"
    "unat p = unat pos + Suc (j - i) * ?b"
    using read_run_spec [OF assms(1,2) il d(2) m assms(5) room assms(7) pl] by blast
  then show thesis using that [of p] assms(5) e by simp
qed

text \<open>One round, when the file has a next sector.\<close>

lemma whole_sector_round:
  assumes "file_on ops running fs f cs" "run (chain_sectors fs cs) i (Suc (j - i))" "i \<le> j" "Suc j < length (chain_sectors fs cs)"
    and "j - i \<le> 65024 div unat (bps fs)"
    and "st + unat pos = i * unat (bps fs)" "Suc j * unat (bps fs) \<le> st + length buf" "length buf < 2 ^ 64"
  obtains i' pos' where "\<And>n cur. whole_sector_loop (Suc n) ops fs f (chain_sectors fs cs ! i) cur (chain_sectors fs cs ! j) NO_ERROR pos
        (filled (chain_bytes bytes fs cs) st (unat pos) buf) =
      whole_sector_loop n ops fs f (chain_sectors fs cs ! i') (chain_sectors fs cs ! j) (chain_sectors fs cs ! Suc j) NO_ERROR pos'
        (filled (chain_bytes bytes fs cs) st (unat pos') buf)"
    "run (chain_sectors fs cs) i' (Suc (Suc j - i'))" "i' \<le> Suc j" "Suc j - i' \<le> 65024 div unat (bps fs)"
    "st + unat pos' = i' * unat (bps fs)"
proof -
  let ?S = "chain_sectors fs cs" and ?b = "unat (bps fs)" and ?c = "chain_bytes bytes fs cs"
  have adv: "advance_sector_num fs f (?S ! j) = Some (NO_ERROR, ?S ! Suc j)" by (rule advance_in_file [OF assms(1,4)])
  show thesis
  proof (cases "?S ! Suc j \<noteq> ?S ! j + 1 \<or> ?S ! j - ?S ! i \<ge> 65024 div bps fs")
    case True
    obtain p where p: "read_run ops fs (?S ! i) (?S ! j) pos (filled ?c st (unat pos) buf) = Some (NO_ERROR, p, filled ?c st (unat p) buf)"
      "st + unat p = Suc j * ?b"
      by (rule read_collected [OF assms(1-3,5-8)])
    have "run ?S (Suc j) (Suc (Suc j - Suc j))" using assms(4) by (simp add: run_def)
    then show thesis using that [of "Suc j" p] True adv p by (simp add: Let_def)
  next
    case False
    have ij: "i + (j - i) = j" using assms(3) by simp
    note d = run_distance [OF assms(1,2), unfolded ij]
    have lim: "unat (65024 div bps fs) = 65024 div ?b" by (simp add: unat_div)
    have c: "unat (?S ! Suc j) = unat (?S ! j) + 1" "j - i < 65024 div ?b"
      using False d(1) lim file_sector [OF assms(1), of j] assms(4) unat_lt_u64 [of "op_num_blocks ops (fs_storage fs)"]
      by (simp_all add: unat_add_no_wrap word_le_nat_alt not_le)
    have r: "run ?S i (Suc (Suc j - i))"
      unfolding run_def
    proof (intro conjI allI impI)
      show "i + Suc (Suc j - i) \<le> length ?S" using assms(3,4) by simp
      fix k assume "k < Suc (Suc j - i)"
      then consider "k < Suc (j - i)" | "i + k = Suc j" using assms(3) by linarith
      then show "unat (?S ! (i + k)) = unat (?S ! i) + k"
      proof cases
        case 1
        then show ?thesis using assms(2) by (simp add: run_def)
      next
        case 2
        then have "unat (?S ! j) = unat (?S ! i) + (j - i)" using assms(2,3) by (auto simp: run_def dest: spec [of _ "j - i"])
        then show ?thesis using c(1) 2 assms(3) by simp
      qed
    qed
    then show thesis using that [of i pos] c(2) assms(3,6) adv False by (auto simp: Let_def)
  qed
qed

lemma rows_room: "(j + Suc n) * b \<le> r \<Longrightarrow> Suc j * b \<le> (r :: nat)"
  by (rule order_trans [of _ "(j + Suc n) * b"]) (simp_all only: mult_le_mono1 add_Suc_right le_add1 Suc_le_mono)

lemma whole_sector_loop_spec:
  assumes "file_on ops running fs f cs" "run (chain_sectors fs cs) i (Suc (j - i))" "i \<le> j" "j + n < length (chain_sectors fs cs)"
    and "j - i \<le> 65024 div unat (bps fs)"
    and "st + unat pos = i * unat (bps fs)" "(j + n) * unat (bps fs) \<le> st + length buf" "length buf < 2 ^ 64"
    and "n = 0 \<Longrightarrow> cur = chain_sectors fs cs ! (j - 1)"
  obtains i' pos' where "whole_sector_loop n ops fs f (chain_sectors fs cs ! i) cur (chain_sectors fs cs ! j) NO_ERROR pos
        (filled (chain_bytes bytes fs cs) st (unat pos) buf) =
      Some (chain_sectors fs cs ! i', chain_sectors fs cs ! (j + n - 1), chain_sectors fs cs ! (j + n), pos',
        filled (chain_bytes bytes fs cs) st (unat pos') buf)"
    "run (chain_sectors fs cs) i' (Suc (j + n - i'))" "i' \<le> j + n" "j + n - i' \<le> 65024 div unat (bps fs)"
    "st + unat pos' = i' * unat (bps fs)"
  using assms(2-)
proof (induction n arbitrary: i j cur pos thesis)
  case 0
  then show ?case by simp
next
  case (Suc n)
  let ?S = "chain_sectors fs cs" and ?b = "unat (bps fs)" and ?c = "chain_bytes bytes fs cs"
  have j: "Suc j < length ?S" "Suc j + n < length ?S" "Suc j * ?b \<le> st + length buf" "(Suc j + n) * ?b \<le> st + length buf"
    using Suc.prems(4,7) rows_room [OF Suc.prems(7)] by simp_all
  obtain i1 p1 where r: "\<And>n cur. whole_sector_loop (Suc n) ops fs f (?S ! i) cur (?S ! j) NO_ERROR pos (filled ?c st (unat pos) buf) =
      whole_sector_loop n ops fs f (?S ! i1) (?S ! j) (?S ! Suc j) NO_ERROR p1 (filled ?c st (unat p1) buf)"
    "run ?S i1 (Suc (Suc j - i1))" "i1 \<le> Suc j" "Suc j - i1 \<le> 65024 div ?b" "st + unat p1 = i1 * ?b"
    using whole_sector_round [OF assms(1) Suc.prems(2,3) j(1) Suc.prems(5,6) j(3) Suc.prems(8)] by metis
  show ?case
    by (rule Suc.IH [OF _ r(2,3) j(2) r(4,5) j(4) Suc.prems(8), of "?S ! j"], rule Suc.prems(1)) (simp_all add: r(1) del: whole_sector_loop.simps)
qed

text \<open>The loop when the last whole sector is the last one of the file: it is collected again.\<close>

lemma whole_sector_loop_end:
  assumes "file_on ops running fs f cs" "run (chain_sectors fs cs) i (Suc (j - i))" "i \<le> j" "j + Suc n = length (chain_sectors fs cs)"
    and "j - i \<le> 65024 div unat (bps fs)"
    and "st + unat pos = i * unat (bps fs)" "(j + Suc n) * unat (bps fs) \<le> st + length buf" "length buf < 2 ^ 64"
  obtains pos' where "whole_sector_loop (Suc n) ops fs f (chain_sectors fs cs ! i) cur (chain_sectors fs cs ! j) NO_ERROR pos
        (filled (chain_bytes bytes fs cs) st (unat pos) buf) =
      Some (chain_sectors fs cs ! (j + n), chain_sectors fs cs ! (j + n), chain_sectors fs cs ! (j + n), pos',
        filled (chain_bytes bytes fs cs) st (unat pos') buf)"
    "st + unat pos' = (j + Suc n) * unat (bps fs)"
  using assms(2-)
proof (induction n arbitrary: i j cur pos thesis)
  case 0
  let ?S = "chain_sectors fs cs"
  have "get_next_file_sector fs (?S ! j) = Some None"
    using next_sector_chain [of fs "fde_first_cluster (file_record f)" cs j] assms(1) 0(4) by (simp add: file_on_def volume_on_def)
  then have adv: "advance_sector_num fs f (?S ! j) = Some (STORAGE_ERROR, ?S ! j)"
    using assms(1) by (simp add: advance_sector_num_def file_on_def)
  obtain p where "read_run ops fs (?S ! i) (?S ! j) pos (filled (chain_bytes bytes fs cs) st (unat pos) buf) =
      Some (NO_ERROR, p, filled (chain_bytes bytes fs cs) st (unat p) buf)" "st + unat p = Suc j * unat (bps fs)"
    using read_collected [OF assms(1) 0(2,3,5,6) _ 0(8)] 0(7) by auto
  then show ?case using 0(1) [of p] adv by (simp add: Let_def)
next
  case (Suc n)
  let ?S = "chain_sectors fs cs" and ?b = "unat (bps fs)" and ?c = "chain_bytes bytes fs cs"
  have j: "Suc j < length ?S" "Suc j + Suc n = length ?S" "Suc j * ?b \<le> st + length buf" "(Suc j + Suc n) * ?b \<le> st + length buf"
    using Suc.prems(4,7) rows_room [OF Suc.prems(7)] by simp_all
  obtain i1 p1 where r: "\<And>n cur. whole_sector_loop (Suc n) ops fs f (?S ! i) cur (?S ! j) NO_ERROR pos (filled ?c st (unat pos) buf) =
      whole_sector_loop n ops fs f (?S ! i1) (?S ! j) (?S ! Suc j) NO_ERROR p1 (filled ?c st (unat p1) buf)"
    "run ?S i1 (Suc (Suc j - i1))" "i1 \<le> Suc j" "Suc j - i1 \<le> 65024 div ?b" "st + unat p1 = i1 * ?b"
    using whole_sector_round [OF assms(1) Suc.prems(2,3) j(1) Suc.prems(5,6) j(3) Suc.prems(8)] by metis
  show ?case
    by (rule Suc.IH [OF _ r(2,3) j(2) r(4,5) j(4) Suc.prems(8), of "?S ! j"], rule Suc.prems(1)) (simp_all add: r(1) del: whole_sector_loop.simps)
qed

lemma disk_sector_in_file:
  assumes "file_on ops running fs f cs" "unat k < length (chain_sectors fs cs)"
  shows "get_disk_sector_from_offset fs f k = Some (True, chain_sectors fs cs ! unat k)"
proof -
  let ?n = "unat (spc fs)"
  have fs: "fat_wf fs" "volume_fits fs" "\<not> is_small_fat_root_dir f" "fat_chain fs (fde_first_cluster (file_record f)) cs"
    using assms(1) by (auto simp: file_on_def volume_on_def)
  have n: "0 < ?n" using fs(1) unat_spc(1) [of fs] by (simp add: fat_wf_def unat_gt_0)
  have q: "unat k div ?n < length cs" "unat k mod ?n < ?n"
    using assms(2) n by (auto simp: length_chain_sectors less_mult_imp_div_less)
  have w: "cluster_walk (unat (k div spc fs)) (fde_first_cluster (file_record f)) fs = Some (True, cs ! (unat k div ?n))"
    using cluster_walk_chain [OF fs(1,4) q(1)] by (simp add: unat_div)
  have "of_nat (unat k mod ?n) = k mod spc fs" by (simp add: unat_mod flip: word_unat_eq_iff unat_mod)
  then have nth: "chain_sectors fs cs ! unat k = convert_cluster_to_sector_num fs (cs ! (unat k div ?n)) + k mod spc fs"
    using chain_sector_nth [OF q(2,1)] by (simp add: div_mult_mod_eq)
  have "convert_cluster_to_sector_num fs (cs ! (unat k div ?n)) \<noteq> - 1"
  proof -
    have "valid_cluster fs (cs ! (unat k div ?n))" "is_normal_cluster_number fs (cs ! (unat k div ?n))"
      using chain_members [OF fs(4)] q(1) by auto
    from cluster_sector_nat [OF fs(1,2) this n] have "convert_cluster_to_sector_num fs (cs ! (unat k div ?n)) < max_sectors fs"
      by (simp add: word_less_nat_alt)
    then show ?thesis using word_order.extremum_strict [of "max_sectors fs"] by auto
  qed
  then show ?thesis using w nth fs(3) by (simp add: get_disk_sector_from_offset_def)
qed

lemma read_one_sector:
  assumes "file_on ops running fs f cs" "a < length (chain_sectors fs cs)" "length sb = unat (bps fs)"
  shows "read_into ops fs (chain_sectors fs cs ! a) 1 sb 0 (bps fs) =
    Some (NO_ERROR, take (unat (bps fs)) (drop (a * unat (bps fs)) (chain_bytes bytes fs cs)))"
proof -
  have r: "run (chain_sectors fs cs) a 1" using assms(2) by (simp add: run_def)
  have "filled (chain_bytes bytes fs cs) (a * unat (bps fs)) 0 sb = sb" by (simp add: filled_def)
  then show ?thesis
    using read_into_run [OF assms(1) r assms(2), of 1 "bps fs" "a * unat (bps fs)" 0 sb] assms(3) by (simp add: filled_def)
qed

lemma read_first_spec:
  assumes "file_on ops running fs f cs" "a * unat (bps fs) + unat off < length (chain_bytes bytes fs cs)" "unat off < unat (bps fs)"
    and "unat len \<le> length buf"
  obtains n sb s where "read_first ops fs f (chain_sectors fs cs ! a) off len buf =
      Some (NO_ERROR, n, s, sb, filled (chain_bytes bytes fs cs) (a * unat (bps fs) + unat off) (unat n) buf)"
    "unat n = min (unat len) (unat (bps fs) - unat off)" "length sb = unat (bps fs)"
    "Suc a < length (chain_sectors fs cs) \<longrightarrow> s = chain_sectors fs cs ! Suc a"
proof -
  let ?S = "chain_sectors fs cs" and ?b = "unat (bps fs)" and ?c = "chain_bytes bytes fs cs"
  have "a * ?b < length ?S * ?b" using assms(2) length_chain_bytes [OF assms(1)] by linarith
  then have a: "a < length ?S" by simp
  let ?n = "bytes_from_sector fs len off"
  have n: "unat ?n = min (unat len) (?b - unat off)" by (rule sector_share [OF assms(3)])
  let ?sb = "take ?b (drop (a * ?b) ?c)"
  have "Suc a * ?b \<le> length ?c" using a length_chain_bytes [OF assms(1)] by (simp add: mult_le_mono1 del: mult_Suc)
  then have sb: "length ?sb = ?b" by simp
  have cp: "memcpy buf 0 ?sb (unat off) (unat ?n) = Some (filled ?c (a * ?b + unat off) (unat ?n) buf)"
  proof -
    have "take (unat ?n) (drop (unat off) ?sb) = take (unat ?n) (drop (a * ?b + unat off) ?c)"
      using n by (simp add: drop_take min_def add.commute)
    moreover have "unat ?n \<le> length buf" "unat off + unat ?n \<le> ?b" using n assms(3,4) by auto
    ultimately show ?thesis using sb by (simp add: memcpy_def filled_def)
  qed
  have rd: "read_into ops fs (?S ! a) 1 (replicate ?b 0) 0 (bps fs) = Some (NO_ERROR, ?sb)"
    by (rule read_one_sector [OF assms(1) a]) simp
  obtain e s where adv: "advance_sector_num fs f (?S ! a) = Some (e, s)" "Suc a < length ?S \<longrightarrow> s = ?S ! Suc a"
  proof (cases "Suc a < length ?S")
    case True
    then show thesis using that advance_in_file [OF assms(1)] by blast
  next
    case False
    then show thesis using that assms(1) next_sector_chain [of fs "fde_first_cluster (file_record f)" cs a] a
      by (simp add: file_on_def volume_on_def advance_sector_num_def)
  qed
  have "?n \<le> bps fs" using n assms(3) by (simp add: word_le_nat_alt)
  then have "read_first ops fs f (?S ! a) off len buf = Some (NO_ERROR, ?n, s, ?sb, filled ?c (a * ?b + unat off) (unat ?n) buf)"
    using rd cp adv(1) by (simp add: read_first_def Let_def)
  then show thesis using that n sb adv(2) by blast
qed

lemma read_whole_spec:
  assumes "file_on ops running fs f cs" "unat pos \<le> unat len" "unat len \<le> length buf" "length buf < 2 ^ 64"
    and "unat pos < unat len \<Longrightarrow> st + unat pos = j * unat (bps fs) \<and> s = chain_sectors fs cs ! j \<and> j < length (chain_sectors fs cs)"
    and "w = (unat len - unat pos) div unat (bps fs)"
    and "0 < w \<Longrightarrow> j + w < length (chain_sectors fs cs) \<and>
      unat (chain_sectors fs cs ! (j + w)) = unat (chain_sectors fs cs ! (j + w - 1)) + 1"
  obtains pos' s' where "read_whole ops fs f NO_ERROR s len pos (filled (chain_bytes bytes fs cs) st (unat pos) buf) =
      Some (NO_ERROR, pos', s', filled (chain_bytes bytes fs cs) st (unat pos') buf)"
    "unat pos' = unat pos + w * unat (bps fs)" "unat pos < unat len \<longrightarrow> s' = chain_sectors fs cs ! (j + w)"
proof (cases "0 < w")
  case False
  let ?b = "unat (bps fs)"
  have b: "0 < ?b" using assms(1) by (auto simp: file_on_def intro: bps_pos)
  have d: "unat (len - pos) = unat len - unat pos" using assms(2) by (simp add: unat_sub word_le_nat_alt)
  have "unat len - unat pos < ?b" using False assms(6) b by (simp add: div_eq_0_iff)
  then have "\<not> len - pos \<ge> bps fs" using d by (simp add: word_le_nat_alt)
  then show thesis using that [of pos s] False assms(5) by (simp add: read_whole_def)
next
  case True
  let ?b = "unat (bps fs)" and ?S = "chain_sectors fs cs" and ?c = "chain_bytes bytes fs cs"
  have b: "0 < ?b" using assms(1) by (auto simp: file_on_def intro: bps_pos)
  have d: "unat (len - pos) = unat len - unat pos" using assms(2) by (simp add: unat_sub word_le_nat_alt)
  have wb: "w * ?b \<le> unat len - unat pos" using assms(6) by simp
  have "?b \<le> w * ?b" using True by simp
  with wb have "?b \<le> unat len - unat pos" by (rule order_trans [rotated])
  then have ge: "len - pos \<ge> bps fs" and lt: "unat pos < unat len" using d b by (simp_all add: word_le_nat_alt)
  have n: "unat ((len - pos) div bps fs) = w" using d assms(6) by (simp add: unat_div)
  have j: "st + unat pos = j * ?b" "s = ?S ! j" "j + w < length ?S" "unat (?S ! (j + w)) = unat (?S ! (j + w - 1)) + 1"
    using assms(5) [OF lt] assms(7) [OF True] by auto
  have r: "run ?S j (Suc (j - j))" using j(3) by (simp add: run_def)
  have room: "(j + w) * ?b \<le> st + length buf" using j(1) wb assms(2,3) by (simp add: add_mult_distrib)
  obtain i p where l: "whole_sector_loop w ops fs f (?S ! j) (?S ! j) (?S ! j) NO_ERROR pos (filled ?c st (unat pos) buf) =
      Some (?S ! i, ?S ! (j + w - 1), ?S ! (j + w), p, filled ?c st (unat p) buf)"
    "run ?S i (Suc (j + w - i))" "i \<le> j + w" "j + w - i \<le> 65024 div ?b" "st + unat p = i * ?b"
    using whole_sector_loop_spec [OF assms(1) r order_refl j(3) _ j(1) room assms(4), of "?S ! j"] True by auto
  have "unat (?S ! (j + w - 1) + 1) = unat (?S ! (j + w - 1)) + 1"
    using j(4) unat_lt_u64 [of "?S ! (j + w)"] by (simp add: unat_add_no_wrap)
  then have nx: "?S ! (j + w - 1) + 1 = ?S ! (j + w)" using j(4) by (simp add: word_unat_eq_iff)
  have dist: "unat (?S ! (j + w - 1) + 1 - ?S ! i) = j + w - i" using run_distance(1) [OF assms(1) l(2)] l(3) nx by simp
  have m: "j + w - i \<le> 65024 div ?b + 1" using l(4) by simp
  have r2: "run ?S i (j + w - i)" "i < length ?S" using l(2,3) j(3) by (auto simp: run_def)
  have eq: "(j + w) * ?b = i * ?b + (j + w - i) * ?b" using l(3) by (simp flip: add_mult_distrib)
  then have room2: "unat p + (j + w - i) * ?b \<le> length buf" using l(5) room by simp
  have "i * ?b \<le> length ?c" using r2(2) length_chain_bytes [OF assms(1)] by simp
  then have pl: "unat p \<le> length (drop st ?c)" using l(5) by simp
  obtain q where q: "read_run ops fs (?S ! i) (?S ! (j + w - 1)) p (filled ?c st (unat p) buf) = Some (NO_ERROR, q, filled ?c st (unat q) buf)"
    "unat q = unat p + (j + w - i) * ?b"
    using read_run_spec [OF assms(1) r2 dist m l(5) room2 assms(4) pl] by blast
  have "unat q = unat pos + w * ?b" using q(2) l(5) j(1) eq by (simp add: add_mult_distrib)
  moreover have "read_whole ops fs f NO_ERROR s len pos (filled ?c st (unat pos) buf) = Some (NO_ERROR, q, ?S ! (j + w), filled ?c st (unat q) buf)"
    using ge n l(1) q(1) j(2) by (simp add: read_whole_def)
  ultimately show thesis using that by blast
qed

lemma read_last_spec:
  assumes "file_on ops running fs f cs" "unat pos \<le> unat len" "unat len - unat pos < unat (bps fs)" "unat len \<le> length buf"
    and "length sb = unat (bps fs)" "st + unat len \<le> length (chain_bytes bytes fs cs)"
    and "unat pos < unat len \<Longrightarrow> st + unat pos = a * unat (bps fs) \<and> s = chain_sectors fs cs ! a \<and> a < length (chain_sectors fs cs)"
  shows "read_last ops fs NO_ERROR s len pos sb (filled (chain_bytes bytes fs cs) st (unat pos) buf) =
    Some (NO_ERROR, len, filled (chain_bytes bytes fs cs) st (unat len) buf)"
proof -
  let ?b = "unat (bps fs)" and ?c = "chain_bytes bytes fs cs"
  have d: "unat (len - pos) = unat len - unat pos" using assms(2) by (simp add: unat_sub word_le_nat_alt)
  have lt: "len - pos < bps fs" using d assms(3) by (simp add: word_less_nat_alt)
  show ?thesis
  proof (cases "unat pos < unat len")
    case False
    then have "pos = len" using assms(2) by (simp add: word_unat_eq_iff)
    then show ?thesis using lt by (simp add: read_last_def)
  next
    case True
    then have a: "st + unat pos = a * ?b" "s = chain_sectors fs cs ! a" "a < length (chain_sectors fs cs)" using assms(7) by auto
    let ?sb = "take ?b (drop (a * ?b) ?c)" and ?buf = "filled ?c st (unat pos) buf"
    have rd: "read_into ops fs s 1 sb 0 (bps fs) = Some (NO_ERROR, ?sb)" using read_one_sector [OF assms(1) a(3) assms(5)] a(2) by simp
    have buf: "drop (unat pos) ?buf = drop (unat pos) buf" "take (unat pos) ?buf = take (unat pos) (drop st ?c)" "length ?buf = length buf"
      using assms(2,4,6) filled_parts [of "unat pos" st ?c buf] by simp_all
    have "a * ?b + (unat len - unat pos) \<le> length ?c" using a(1) assms(2,6) by linarith
    then have "unat len - unat pos \<le> length ?sb" using assms(3) by simp
    moreover have "unat len - unat pos \<le> length buf - unat pos" using assms(4) by simp
    ultimately have "memcpy (drop (unat pos) ?buf) 0 ?sb 0 (unat (len - pos)) =
        Some (take (unat len - unat pos) (drop (st + unat pos) ?c) @ drop (unat len) buf)"
      using d assms(2,3) a(1) by (simp add: memcpy_def buf min_absorb1)
    moreover have "take (unat pos) (drop st ?c) @ take (unat len - unat pos) (drop (st + unat pos) ?c) = take (unat len) (drop st ?c)"
      using take_add [of "unat pos" "unat len - unat pos" "drop st ?c"] assms(2) by (simp add: add.commute)
    moreover have "len - pos \<noteq> 0" using True by (auto simp: word_unat_eq_iff d)
    ultimately show ?thesis using lt rd buf assms(2,4) by (simp add: read_last_def filled_def flip: append_assoc)
  qed
qed

lemma fat_read_start:
  assumes "file_on ops running fs f cs" "unat (fat_file_size f) \<le> length (chain_bytes bytes fs cs)"
    and "unat start + unat len \<le> unat (fat_file_size f)" "0 < unat len" "len \<le> buffer_length" "unat buffer_length \<le> length buf"
    and "a = unat start div unat (bps fs)"
  obtains n sb s where "fat_read_bytes ops fs f start len (Some buf) buffer_length =
      read_rest ops fs f s len n sb (filled (chain_bytes bytes fs cs) (unat start) (unat n) buf)"
    "unat n = min (unat len) (unat (bps fs) - unat start mod unat (bps fs))" "length sb = unat (bps fs)"
    "unat n < unat len \<Longrightarrow> unat start + unat n = Suc a * unat (bps fs) \<and> s = chain_sectors fs cs ! Suc a \<and> Suc a < length (chain_sectors fs cs)"
proof -
  let ?b = "unat (bps fs)" and ?S = "chain_sectors fs cs" and ?c = "chain_bytes bytes fs cs" and ?st = "unat start"
  have b: "0 < ?b" using assms(1) by (auto simp: file_on_def intro: bps_pos)
  have lc: "length ?c = length ?S * ?b" by (rule length_chain_bytes [OF assms(1)])
  have lb: "unat len \<le> length buf" using assms(5,6) by (simp add: word_le_nat_alt)
  have "unat (start + len) = ?st + unat len"
    using assms(3) unat_lt_u64 [of "fat_file_size f"] by (intro unat_add_no_wrap) linarith
  then have g: "\<not> start + len > fat_file_size f" "\<not> start > fat_file_size f" "\<not> len > buffer_length"
    using assms(3,5) by (auto simp: word_less_nat_alt word_le_nat_alt)
  have st: "?st = a * ?b + unat (start mod bps fs)" using assms(7) by (simp add: unat_mod div_mult_mod_eq)
  have off: "unat (start mod bps fs) < ?b" using b by (simp add: unat_mod)
  have in_file: "?st + unat len \<le> length ?c" using assms(2,3) by linarith
  have first: "a * ?b + unat (start mod bps fs) < length ?c" using st in_file assms(4) by linarith
  have "a * ?b < length ?S * ?b" using first lc by linarith
  then have a: "unat (start div bps fs) = a" "a < length ?S" using assms(7) by (simp_all add: unat_div)
  obtain n sb s where r1: "read_first ops fs f (?S ! a) (start mod bps fs) len buf = Some (NO_ERROR, n, s, sb, filled ?c ?st (unat n) buf)"
    "unat n = min (unat len) (?b - unat (start mod bps fs))" "length sb = ?b" "Suc a < length ?S \<longrightarrow> s = ?S ! Suc a"
    using read_first_spec [OF assms(1) first off lb] st by metis
  have nx: "?st + unat n = Suc a * ?b \<and> s = ?S ! Suc a \<and> Suc a < length ?S" if "unat n < unat len"
  proof -
    have e: "?st + unat n = Suc a * ?b" using that r1(2) st off by simp
    have "Suc a * ?b < length ?S * ?b" using e that in_file lc by linarith
    then have "Suc a < length ?S" by (simp only: mult_less_cancel2)
    then show ?thesis using e r1(4) by simp
  qed
  have sec: "get_disk_sector_from_offset fs f (start div bps fs) = Some (True, ?S ! a)"
    using disk_sector_in_file [OF assms(1), of "start div bps fs"] a by simp
  have "fat_read_bytes ops fs f start len (Some buf) buffer_length = read_rest ops fs f s len n sb (filled ?c ?st (unat n) buf)"
    using g sec r1(1) by (simp add: fat_read_bytes_def read_rest_def Let_def)
  then show thesis using that [of s n sb] r1(2,3) nx by (simp add: unat_mod)
qed

text \<open>
  The condition is on the sector after the last whole one: the code takes it to be the next one on the device, and fails when the
  chain ends there or continues elsewhere.
\<close>

lemma fat_read_spec:
  assumes "file_on ops running fs f cs" "unat (fat_file_size f) \<le> length (chain_bytes bytes fs cs)"
    and "unat start + unat len \<le> unat (fat_file_size f)" "0 < unat len" "len \<le> buffer_length" "unat buffer_length \<le> length buf" "length buf < 2 ^ 64"
    and "a = unat start div unat (bps fs)" "w = (unat len - min (unat len) (unat (bps fs) - unat start mod unat (bps fs))) div unat (bps fs)"
    and "0 < w \<Longrightarrow> a + 1 + w < length (chain_sectors fs cs) \<and>
      unat (chain_sectors fs cs ! (a + 1 + w)) = unat (chain_sectors fs cs ! (a + w)) + 1"
  shows "fat_read_bytes ops fs f start len (Some buf) buffer_length =
    Some (NO_ERROR, len, Some (take (unat len) (drop (unat start) (chain_bytes bytes fs cs)) @ drop (unat len) buf))"
proof -
  let ?b = "unat (bps fs)" and ?S = "chain_sectors fs cs" and ?c = "chain_bytes bytes fs cs" and ?st = "unat start"
  have b: "0 < ?b" using assms(1) by (auto simp: file_on_def intro: bps_pos)
  have lb: "unat len \<le> length buf" using assms(5,6) by (simp add: word_le_nat_alt)
  have lc: "length ?c = length ?S * ?b" by (rule length_chain_bytes [OF assms(1)])
  have in_file: "?st + unat len \<le> length ?c" using assms(2,3) by linarith
  obtain n sb s where r1: "fat_read_bytes ops fs f start len (Some buf) buffer_length = read_rest ops fs f s len n sb (filled ?c ?st (unat n) buf)"
    "unat n = min (unat len) (?b - unat start mod ?b)" "length sb = ?b"
    and nx: "unat n < unat len \<Longrightarrow> ?st + unat n = Suc a * ?b \<and> s = ?S ! Suc a \<and> Suc a < length ?S"
    using fat_read_start [OF assms(1-6,8)] by blast
  have n: "unat n \<le> unat len" using r1(2) by simp
  have w: "w = (unat len - unat n) div ?b" using assms(9) r1(2) by simp
  have wc: "Suc a + w < length ?S \<and> unat (?S ! (Suc a + w)) = unat (?S ! (Suc a + w - 1)) + 1" if "0 < w" using assms(10) [OF that] by simp
  obtain p s' where r2: "read_whole ops fs f NO_ERROR s len n (filled ?c ?st (unat n) buf) = Some (NO_ERROR, p, s', filled ?c ?st (unat p) buf)"
    "unat p = unat n + w * ?b" "unat n < unat len \<longrightarrow> s' = ?S ! (Suc a + w)"
    by (rule read_whole_spec [OF assms(1) n lb assms(7) nx w wc])
  have wb: "w * ?b \<le> unat len - unat n" "unat len - unat n - w * ?b < ?b" using w b by (simp_all add: minus_div_mult_eq_mod)
  have p: "unat p \<le> unat len" "unat len - unat p < ?b" using r2(2) wb n by simp_all
  have last: "?st + unat p = (Suc a + w) * ?b \<and> s' = ?S ! (Suc a + w) \<and> Suc a + w < length ?S" if "unat p < unat len"
  proof -
    have "unat n < unat len" using that r2(2) by linarith
    with nx r2(2,3) have e: "?st + unat p = (Suc a + w) * ?b" "s' = ?S ! (Suc a + w)" by (simp_all add: add_mult_distrib)
    have "(Suc a + w) * ?b < length ?S * ?b" using e(1) that in_file lc by linarith
    then have "Suc a + w < length ?S" by (simp only: mult_less_cancel2)
    then show ?thesis using e by simp
  qed
  have r3: "read_last ops fs NO_ERROR s' len p sb (filled ?c ?st (unat p) buf) = Some (NO_ERROR, len, filled ?c ?st (unat len) buf)"
    by (rule read_last_spec [OF assms(1) p lb r1(3) in_file last])
  show ?thesis using r1(1) r2(1) r3 by (simp add: read_rest_def filled_def)
qed

text \<open>A read of whole sectors up to the end of the chain goes wrong: the last sector is read twice and the count of bytes is too high.\<close>

lemma fat_read_end:
  assumes "file_on ops running fs f cs" "unat (fat_file_size f) \<le> length (chain_bytes bytes fs cs)"
    and "unat start + unat len \<le> unat (fat_file_size f)" "0 < unat len" "len \<le> buffer_length" "unat buffer_length \<le> length buf" "length buf < 2 ^ 64"
    and "a = unat start div unat (bps fs)" "w = (unat len - min (unat len) (unat (bps fs) - unat start mod unat (bps fs))) div unat (bps fs)"
    and "0 < w" "a + 1 + w = length (chain_sectors fs cs)"
  shows "fat_read_bytes ops fs f start len (Some buf) buffer_length = None"
proof -
  let ?b = "unat (bps fs)" and ?S = "chain_sectors fs cs" and ?c = "chain_bytes bytes fs cs" and ?st = "unat start"
  have b: "0 < ?b" using assms(1) by (auto simp: file_on_def intro: bps_pos)
  have lb: "unat len \<le> length buf" using assms(5,6) by (simp add: word_le_nat_alt)
  have in_file: "?st + unat len \<le> length ?S * ?b" using assms(2,3) length_chain_bytes [OF assms(1)] by linarith
  obtain n sb s where r1: "fat_read_bytes ops fs f start len (Some buf) buffer_length = read_rest ops fs f s len n sb (filled ?c ?st (unat n) buf)"
    "unat n = min (unat len) (?b - unat start mod ?b)"
    and nx: "unat n < unat len \<Longrightarrow> ?st + unat n = Suc a * ?b \<and> s = ?S ! Suc a \<and> Suc a < length ?S"
    using fat_read_start [OF assms(1-6,8)] by blast
  have n: "unat n \<le> unat len" using r1(2) by simp
  have w: "w = (unat len - unat n) div ?b" using assms(9) r1(2) by simp
  obtain m where m: "w = Suc m" using assms(10) gr0_implies_Suc by blast
  have wb: "w * ?b \<le> unat len - unat n" using w by simp
  have "?b \<le> w * ?b" using m by simp
  with wb have ge: "?b \<le> unat len - unat n" by (rule order_trans [rotated])
  with b nx have j: "?st + unat n = Suc a * ?b" "s = ?S ! Suc a" "Suc a + Suc m = length ?S" using assms(11) m by auto
  have d: "unat (len - n) = unat len - unat n" using n by (simp add: unat_sub word_le_nat_alt)
  have e: "(Suc a + Suc m) * ?b = Suc a * ?b + w * ?b" using m by (simp add: add_mult_distrib)
  have "?st + unat len \<le> (Suc a + Suc m) * ?b" using in_file unfolding j(3) .
  with e have full: "?st + unat len = (Suc a + Suc m) * ?b" using j(1) wb n by linarith
  have room: "(Suc a + Suc m) * ?b \<le> ?st + length buf" using full lb by linarith
  have r: "run ?S (Suc a) (Suc (Suc a - Suc a))" using j(3) by (simp add: run_def)
  obtain p where l: "whole_sector_loop (Suc m) ops fs f (?S ! Suc a) (?S ! Suc a) (?S ! Suc a) NO_ERROR n (filled ?c ?st (unat n) buf) =
      Some (?S ! (Suc a + m), ?S ! (Suc a + m), ?S ! (Suc a + m), p, filled ?c ?st (unat p) buf)"
    "?st + unat p = (Suc a + Suc m) * ?b"
    by (rule whole_sector_loop_end [OF assms(1) r order_refl j(3) _ j(1) room assms(7)]) auto
  have pl: "p = len" using l(2) full by (simp add: word_unat_eq_iff)
  have "ucast (1 * bps32 fs :: u32) = bps fs" by (simp add: word_unat_eq_iff unat_bps(3))
  then have pos: "pos' = len + bps fs" if "read_run ops fs (?S ! (Suc a + m)) (?S ! (Suc a + m)) p bf = Some (ec, pos', bf')" for ec pos' bf bf'
    using that pl by (auto simp: read_run_def Let_def split: prod.splits)
  have "\<not> - bps fs < bps fs"
  proof -
    have "unat (- bps fs + bps fs) = unat (- bps fs) + ?b" if "- bps fs < bps fs"
      using that unat_bps(2) [of fs] by (intro unat_add_no_wrap) (simp add: word_less_nat_alt)
    then show ?thesis using b by auto
  qed
  then have bad: "read_last ops fs ec s' len (len + bps fs) sb bf = None" for ec s' sb bf by (simp add: read_last_def)
  have "unat ((len - n) div bps fs) = Suc m" using d w m by (simp add: unat_div)
  moreover have "len - n \<ge> bps fs" using ge d by (simp add: word_le_nat_alt)
  ultimately have "read_whole ops fs f NO_ERROR s len n (filled ?c ?st (unat n) buf) =
      do { (ec, pos, buffer) \<leftarrow> read_run ops fs (?S ! (Suc a + m)) (?S ! (Suc a + m)) p (filled ?c ?st (unat p) buf);
           Some (ec, pos, ?S ! (Suc a + m), buffer) }"
    using l(1) j(2) by (simp add: read_whole_def del: whole_sector_loop.simps)
  then show ?thesis
    using r1(1) pos bad
    by (cases "read_run ops fs (?S ! (Suc a + m)) (?S ! (Suc a + m)) p (filled ?c ?st (unat p) buf)")
       (auto simp: read_rest_def)
qed

lemma file_on_storage:
  assumes "file_on ops running fs f cs" "running d" "op_num_blocks ops d = op_num_blocks ops (fs_storage fs)"
    "op_block_size ops d = op_block_size ops (fs_storage fs)"
  shows "file_on ops running (fs\<lparr>fs_storage := d\<rparr>) f cs"
  using assms by (auto simp: file_on_def volume_on_def chain_storage fat_wf_def volume_fits_def)

lemma write_one_sector:
  assumes "file_on ops running fs f cs" "a < length (chain_sectors fs cs)" "writable (fs_storage fs) (chain_sectors fs cs ! a)"
    and "unat (bps fs) \<le> length buf"
  obtains d where "op_write ops (fs_storage fs) (chain_sectors fs cs ! a) 1 (Some buf) (bps fs) = Some (NO_ERROR, d)"
    "file_on ops running (fs\<lparr>fs_storage := d\<rparr>) f cs" "writable d = writable (fs_storage fs)"
    "chain_bytes bytes (fs\<lparr>fs_storage := d\<rparr>) cs = overwrite (a * unat (bps fs)) (take (unat (bps fs)) buf) (chain_bytes bytes fs cs)"
    "sectors_kept bytes fs cs d"
proof -
  let ?b = "unat (bps fs)" and ?S = "chain_sectors fs cs" and ?d = "fs_storage fs"
  have v: "running ?d" "op_block_size ops ?d = bps fs" "volume_on ops running fs" using assms(1) by (auto simp: file_on_def volume_on_def)
  have s: "unat (?S ! a) < unat (op_num_blocks ops ?d)" by (rule file_sector [OF assms(1,2)])
  obtain d where d: "op_write ops ?d (?S ! a) 1 (Some buf) (bps fs) = Some (NO_ERROR, d)" "running d"
    "op_num_blocks ops d = op_num_blocks ops ?d" "op_block_size ops d = op_block_size ops ?d" "writable d = writable ?d"
    "bytes d = overwrite (unat (?S ! a) * ?b) (take ?b buf) (bytes ?d)"
    using write_inside [OF v(1), of "?S ! a" 1 "bps fs" buf] s assms(3,4) v(2) by (auto simp: request_inside_def)
  have "Suc (unat (?S ! a)) * ?b \<le> unat (op_num_blocks ops ?d) * ?b" using s by (intro mult_le_mono1) simp
  then have fit: "unat (?S ! a) * ?b + ?b \<le> length (bytes ?d)" using length_bytes [OF v(1)] v(2) by simp
  have sb: "sector_bytes ?b (bytes d) t = (if t = unat (?S ! a) then take ?b buf else sector_bytes ?b (bytes ?d) t)" for t
    unfolding d(6) using assms(4) fit by (intro sector_bytes_overwrite) simp_all
  have dist: "distinct (map unat ?S)"
    using assms(1) by (auto simp: file_on_def volume_on_def intro: distinct_chain_sectors)
  have "length (sector_bytes ?b (bytes ?d) (unat x)) = ?b" if "x \<in> set ?S" for x
    using that file_sector [OF assms(1)] v(3) by (intro length_sector_bytes) (auto simp: in_set_conv_nth)
  then have "concat (map (\<lambda>x. if x = ?S ! a then take ?b buf else sector_bytes ?b (bytes ?d) (unat x)) ?S) =
      overwrite (a * ?b) (take ?b buf) (chain_bytes bytes fs cs)"
    unfolding chain_bytes_def using dist assms(2,4) by (intro concat_replace) (auto simp: distinct_map)
  then have "chain_bytes bytes (fs\<lparr>fs_storage := d\<rparr>) cs = overwrite (a * ?b) (take ?b buf) (chain_bytes bytes fs cs)"
    by (simp add: chain_bytes_def sb word_unat_eq_iff)
  moreover have "sectors_kept bytes fs cs d" using assms(2) by (auto simp: sectors_kept_def sb)
  ultimately show thesis using that [of d] d file_on_storage [OF assms(1) d(2-4)] by simp
qed

lemma write_sector_spec:
  assumes "file_on ops running fs f cs" "a < length (chain_sectors fs cs)" "writable (fs_storage fs) (chain_sectors fs cs ! a)"
    and "unat off + unat n \<le> unat (bps fs)" "unat pos + unat n \<le> length data" "length sb = unat (bps fs)"
  obtains d sb' where "write_sector ops fs (chain_sectors fs cs ! a) off n pos sb data = Some (NO_ERROR, d, sb')"
    "length sb' = unat (bps fs)" "file_on ops running (fs\<lparr>fs_storage := d\<rparr>) f cs" "writable d = writable (fs_storage fs)"
    "chain_bytes bytes (fs\<lparr>fs_storage := d\<rparr>) cs =
       overwrite (a * unat (bps fs) + unat off) (take (unat n) (drop (unat pos) data)) (chain_bytes bytes fs cs)"
    "sectors_kept bytes fs cs d"
proof (cases "n = bps fs")
  case True
  then have off: "unat off = 0" "unat pos \<le> length data" "unat (bps fs) \<le> length (drop (unat pos) data)" using assms(4,5) by simp_all
  from write_one_sector [OF assms(1-3) off(3)] obtain d where d:
    "op_write ops (fs_storage fs) (chain_sectors fs cs ! a) 1 (Some (drop (unat pos) data)) (bps fs) = Some (NO_ERROR, d)"
    "file_on ops running (fs\<lparr>fs_storage := d\<rparr>) f cs" "writable d = writable (fs_storage fs)"
    "chain_bytes bytes (fs\<lparr>fs_storage := d\<rparr>) cs =
      overwrite (a * unat (bps fs)) (take (unat (bps fs)) (drop (unat pos) data)) (chain_bytes bytes fs cs)"
    "sectors_kept bytes fs cs d" by blast
  then show thesis using that [of d sb] True off assms(6) by (simp add: write_sector_def)
next
  case False
  let ?b = "unat (bps fs)" and ?c = "chain_bytes bytes fs cs" and ?new = "take (unat n) (drop (unat pos) data)"
  let ?sb = "take ?b (drop (a * ?b) ?c)"
  have "Suc a * ?b \<le> length ?c" using assms(2) length_chain_bytes [OF assms(1)] by (simp add: mult_le_mono1 del: mult_Suc)
  then have fit: "a * ?b + ?b \<le> length ?c" by simp
  then have sb: "length ?sb = ?b" by simp
  have new: "length ?new = unat n" using assms(5) by simp
  have cp: "memcpy ?sb (unat off) data (unat pos) (unat n) = Some (overwrite (unat off) ?new ?sb)"
    using assms(4,5) sb new by (simp add: memcpy_def overwrite_def)
  have lo: "length (overwrite (unat off) ?new ?sb) = ?b" using assms(4) sb new by (simp add: length_overwrite)
  from write_one_sector [OF assms(1-3), of "overwrite (unat off) ?new ?sb"] lo obtain d where d:
    "op_write ops (fs_storage fs) (chain_sectors fs cs ! a) 1 (Some (overwrite (unat off) ?new ?sb)) (bps fs) = Some (NO_ERROR, d)"
    "file_on ops running (fs\<lparr>fs_storage := d\<rparr>) f cs" "writable d = writable (fs_storage fs)"
    "chain_bytes bytes (fs\<lparr>fs_storage := d\<rparr>) cs = overwrite (a * ?b) (take ?b (overwrite (unat off) ?new ?sb)) ?c"
    "sectors_kept bytes fs cs d" by auto
  have "take ?b (overwrite (unat off) ?new ?sb) = overwrite (unat off) ?new ?sb" using lo by simp
  then have "chain_bytes bytes (fs\<lparr>fs_storage := d\<rparr>) cs = overwrite (a * ?b + unat off) ?new ?c"
    using d(4) overwrite_part [OF assms(4) fit new] by simp
  moreover have "write_sector ops fs (chain_sectors fs cs ! a) off n pos sb data = Some (NO_ERROR, d, overwrite (unat off) ?new ?sb)"
    using False read_one_sector [OF assms(1,2,6)] cp d(1) by (simp add: write_sector_def)
  ultimately show thesis using that d lo by blast
qed

lemma sectors_kept_trans:
  "sectors_kept bytes fs cs d \<Longrightarrow> sectors_kept bytes (fs\<lparr>fs_storage := d\<rparr>) cs d' \<Longrightarrow> sectors_kept bytes fs cs d'"
  by (simp add: sectors_kept_def)

lemma fat_write_loop_spec:
  assumes "file_on ops running fs f cs" "\<forall>s\<in>set (chain_sectors fs cs). writable (fs_storage fs) s"
    and "unat pos < unat len \<Longrightarrow> st + unat pos = a * unat (bps fs) + unat off \<and> s = chain_sectors fs cs ! a" "unat off < unat (bps fs)"
    and "unat pos \<le> unat len" "unat len \<le> length data" "st + unat len \<le> length c" "length c = length (chain_bytes bytes fs cs)"
    and "length sb = unat (bps fs)" "unat len - unat pos \<le> n"
    and "chain_bytes bytes fs cs = overwrite st (take (unat pos) data) c"
  obtains d where "fat_write_loop n ops f s off len pos sb data fs = Some (NO_ERROR, len, fs\<lparr>fs_storage := d\<rparr>)"
    "file_on ops running (fs\<lparr>fs_storage := d\<rparr>) f cs" "chain_bytes bytes (fs\<lparr>fs_storage := d\<rparr>) cs = overwrite st (take (unat len) data) c"
    "sectors_kept bytes fs cs d" "writable d = writable (fs_storage fs)"
  using assms
proof (induction n arbitrary: fs s a off pos sb thesis)
  case 0
  then have p: "pos = len" by (simp add: word_unat_eq_iff)
  then show ?case using 0(1) [of "fs_storage fs"] 0 by (simp add: sectors_kept_def)
next
  case (Suc n)
  let ?b = "unat (bps fs)" and ?S = "chain_sectors fs cs"
  show ?case
  proof (cases "unat pos < unat len")
    case False
    then have "pos = len" using Suc.prems(6) by (simp add: word_unat_eq_iff)
    then show ?thesis using Suc.prems(1) [of "fs_storage fs"] Suc.prems by (simp add: sectors_kept_def)
  next
    case True
    then have a: "st + unat pos = a * ?b + unat off" "s = ?S ! a" using Suc.prems(4) by auto
    have b: "0 < ?b" using Suc.prems(5) by linarith
    have d: "unat (len - pos) = unat len - unat pos" using True by (simp add: unat_sub word_le_nat_alt)
    let ?n = "bytes_from_sector fs (len - pos) off"
    have n: "unat ?n = min (unat len - unat pos) (?b - unat off)" using sector_share [OF Suc.prems(5), of "len - pos"] d by simp
    have n': "unat off + unat ?n \<le> ?b" "unat pos + unat ?n \<le> length data" "0 < unat ?n" "unat pos + unat ?n \<le> unat len"
      using n Suc.prems(5,7) True by simp_all
    have al: "a < length ?S"
    proof -
      have "a * ?b < length ?S * ?b"
        using a(1) True Suc.prems(8,9) length_chain_bytes [OF Suc.prems(2)] by linarith
      then show ?thesis by simp
    qed
    have wr: "writable (fs_storage fs) (?S ! a)" using Suc.prems(3) al by simp
    obtain d1 sb1 where w: "write_sector ops fs (?S ! a) off ?n pos sb data = Some (NO_ERROR, d1, sb1)" "length sb1 = ?b"
      "file_on ops running (fs\<lparr>fs_storage := d1\<rparr>) f cs" "writable d1 = writable (fs_storage fs)"
      "chain_bytes bytes (fs\<lparr>fs_storage := d1\<rparr>) cs = overwrite (a * ?b + unat off) (take (unat ?n) (drop (unat pos) data)) (chain_bytes bytes fs cs)"
      "sectors_kept bytes fs cs d1"
      by (rule write_sector_spec [OF Suc.prems(2) al wr n'(1,2) Suc.prems(10)])
    let ?fs = "fs\<lparr>fs_storage := d1\<rparr>"
    have pos: "unat (pos + ?n) = unat pos + unat ?n" using n'(4) unat_lt_u64 [of len] by (intro unat_add_no_wrap) linarith
    have c1: "chain_bytes bytes ?fs cs = overwrite st (take (unat (pos + ?n)) data) c"
      using w(5) Suc.prems(8,12) n'(2,4) a(1) overwrite_extend [of st "unat pos" "unat ?n" c data] pos by simp
    have nxt: "st + unat (pos + ?n) = Suc a * ?b" if "unat (pos + ?n) < unat len"
      using that pos n a(1) Suc.prems(5) by simp
    obtain s1 where s1: "(if pos + ?n < len then do { (_, s) \<leftarrow> advance_sector_num ?fs f (?S ! a); Some s } else Some (?S ! a)) = Some s1"
      "unat (pos + ?n) < unat len \<longrightarrow> s1 = ?S ! Suc a"
    proof (cases "unat (pos + ?n) < unat len")
      case True
      have "Suc a * ?b < length ?S * ?b"
        using nxt [OF True] True Suc.prems(8,9) length_chain_bytes [OF Suc.prems(2)] by linarith
      then have "Suc a < length ?S" by (simp only: mult_less_cancel2)
      then show thesis using that advance_in_file [OF w(3), of a] True by (simp add: word_less_nat_alt)
    next
      case False
      then show thesis using that by (simp add: word_less_nat_alt)
    qed
    have ih: "\<forall>s\<in>set (chain_sectors ?fs cs). writable (fs_storage ?fs) s" "unat (0 :: u64) < unat (bps ?fs)"
      "unat (pos + ?n) < unat len \<Longrightarrow> st + unat (pos + ?n) = Suc a * unat (bps ?fs) + unat (0 :: u64) \<and> s1 = chain_sectors ?fs cs ! Suc a"
      "unat (pos + ?n) \<le> unat len" "length c = length (chain_bytes bytes ?fs cs)" "length sb1 = unat (bps ?fs)" "unat len - unat (pos + ?n) \<le> n"
      using Suc.prems(3,9,11) w(2,4) b nxt s1(2) pos n'(3,4) length_chain_bytes [OF w(3)] length_chain_bytes [OF Suc.prems(2)] by simp_all
    obtain d2 where d2: "fat_write_loop n ops f s1 0 len (pos + ?n) sb1 data ?fs = Some (NO_ERROR, len, ?fs\<lparr>fs_storage := d2\<rparr>)"
      "file_on ops running (?fs\<lparr>fs_storage := d2\<rparr>) f cs" "chain_bytes bytes (?fs\<lparr>fs_storage := d2\<rparr>) cs = overwrite st (take (unat len) data) c"
      "sectors_kept bytes ?fs cs d2" "writable d2 = writable (fs_storage ?fs)"
      using Suc.IH [OF _ w(3) ih(1) ih(3) ih(2) ih(4) Suc.prems(7,8) ih(5,6,7) c1] by blast
    have "?n \<le> bps fs" using n' by (simp add: word_le_nat_alt)
    then have "fat_write_loop (Suc n) ops f s off len pos sb data fs = Some (NO_ERROR, len, fs\<lparr>fs_storage := d2\<rparr>)"
      using True w(1) s1(1) d2(1) a(2) by (simp add: Let_def word_less_nat_alt del: bind_Some_iff)
    then show ?thesis
      using Suc.prems(1) [of d2] d2(2,3,5) w(4) sectors_kept_trans [OF w(6) d2(4)] by simp
  qed
qed

lemma fat_write_spec:
  assumes "file_on ops running fs f cs" "\<forall>s\<in>set (chain_sectors fs cs). writable (fs_storage fs) s"
    and "unat (fat_file_size f) \<le> length (chain_bytes bytes fs cs)" "unat start + unat len \<le> unat (fat_file_size f)"
    and "0 < unat len" "len \<le> buffer_length" "unat len \<le> length data"
  obtains d where "fat_write_bytes ops start len (Some data) buffer_length (f # parents) fs =
      Some (NO_ERROR, len, f # parents, fs\<lparr>fs_storage := d\<rparr>)" "file_on ops running (fs\<lparr>fs_storage := d\<rparr>) f cs"
    "chain_bytes bytes (fs\<lparr>fs_storage := d\<rparr>) cs = overwrite (unat start) (take (unat len) data) (chain_bytes bytes fs cs)"
    "sectors_kept bytes fs cs d" "writable d = writable (fs_storage fs)"
proof -
  let ?b = "unat (bps fs)" and ?S = "chain_sectors fs cs" and ?c = "chain_bytes bytes fs cs"
  have b: "0 < ?b" using assms(1) by (auto simp: file_on_def intro: bps_pos)
  have "unat (start + len) = unat start + unat len"
    using assms(4) unat_lt_u64 [of "fat_file_size f"] by (intro unat_add_no_wrap) linarith
  then have g: "\<not> start + len > fat_file_size f" "\<not> len > buffer_length"
    using assms(4,6) by (auto simp: word_less_nat_alt word_le_nat_alt)
  have in_file: "unat start + unat len \<le> length ?c" using assms(3,4) by linarith
  let ?a = "unat (start div bps fs)"
  have st: "unat start = ?a * ?b + unat (start mod bps fs)" by (simp add: unat_div unat_mod div_mult_mod_eq)
  have "?a * ?b < length ?S * ?b" using st in_file assms(5) length_chain_bytes [OF assms(1)] by linarith
  then have "?a < length ?S" by simp
  then have sec: "get_disk_sector_from_offset fs f (start div bps fs) = Some (True, ?S ! ?a)" by (rule disk_sector_in_file [OF assms(1)])
  have off: "unat (start mod bps fs) < ?b" using b by (simp add: unat_mod)
  obtain d where d: "fat_write_loop (unat len) ops f (?S ! ?a) (start mod bps fs) len 0 (replicate ?b 0) data fs = Some (NO_ERROR, len, fs\<lparr>fs_storage := d\<rparr>)"
    "file_on ops running (fs\<lparr>fs_storage := d\<rparr>) f cs" "chain_bytes bytes (fs\<lparr>fs_storage := d\<rparr>) cs = overwrite (unat start) (take (unat len) data) ?c"
    "sectors_kept bytes fs cs d" "writable d = writable (fs_storage fs)"
    using fat_write_loop_spec [OF assms(1,2) _ off _ assms(7) in_file refl, of 0 "?a" "?S ! ?a" "replicate ?b 0" "unat len"] st
    by (auto simp: overwrite_def)
  have "fat_write_bytes ops start len (Some data) buffer_length (f # parents) fs = Some (NO_ERROR, len, f # parents, fs\<lparr>fs_storage := d\<rparr>)"
    using g sec d(1) by (simp add: fat_write_bytes_def write_data_def)
  then show thesis using that d(2-5) by blast
qed

end

subsection \<open>Properties\<close>

text \<open>
  C18. Reading a file: a read inside the file succeeds, reports the number of bytes asked for and fills the
  buffer with the bytes of the clusters of the file from the start of the read, whichever sectors they are on and however the middle part is
  collected to longer reads, and leaves the rest of the buffer as it was. The sector that follows the last whole one has to be the next one on
  the device, which is what the code relies on.
\<close>

theorem fat_read_correct:
  assumes "file_on ramdisk_ops rd_running fs f cs" and "unat (fat_file_size f) \<le> length (chain_bytes rd_bytes fs cs)"
    and "unat start + unat len \<le> unat (fat_file_size f)" and "0 < unat len"
    and "len \<le> buffer_length" and "unat buffer_length \<le> length buf" and "length buf < 2 ^ 64"
    and "a = unat start div unat (bps fs)"
    and "w = (unat len - min (unat len) (unat (bps fs) - unat start mod unat (bps fs))) div unat (bps fs)"
    and "w = 0 \<or> a + 1 + w < length (chain_sectors fs cs) \<and>
      unat (chain_sectors fs cs ! (a + 1 + w)) = unat (chain_sectors fs cs ! (a + w)) + 1"
  shows "fat_read_bytes ramdisk_ops fs f start len (Some buf) buffer_length =
    Some (NO_ERROR, len, Some (take (unat len) (drop (unat start) (chain_bytes rd_bytes fs cs)) @ drop (unat len) buf))"
  using rd.fat_read_spec [OF assms(1-9)] assms(10) by auto

text \<open>The file with the chain of the sample volume, on a RAM disk.\<close>

definition sample_fat_file :: "u32 \<Rightarrow> fat_file" where
  "sample_fat_file n = \<lparr>file_record = fde_set_file_size n (fde_set_first_cluster 0 2 (replicate 32 0)), is_root_directory = False,
     is_small_fat_root_dir = False, file_record_index = 0\<rparr>"

lemma sample_fat_file_size: "fat_file_size (sample_fat_file n) = ucast n"
  by (simp add: fat_file_size_def sample_fat_file_def fde_size_laws fde_cluster_laws)

lemma sample_fat_file_on: "file_on ramdisk_ops rd_running (sample_volume sample_fat_disk) (sample_fat_file n) [2, 3, 5]"
proof -
  have "fde_first_cluster (file_record (sample_fat_file n)) = 2"
    by (simp add: sample_fat_file_def fde_size_laws fde_cluster_laws fde_cluster_number)
  then show ?thesis
    using sample_chain [of sample_fat_disk] sample_volume_wf [of sample_fat_disk] sample_fat_disk_ok
    by (simp add: file_on_def volume_on_def fat_disk_def sample_fat_file_def sample_volume_simps sample_fat_disk_def
        ramdisk_start_def ramdisk_new_def ramdisk_ops_def)
qed

lemma sample_fat_sectors: "chain_sectors (sample_volume d) [2, 3, 5] = [4, 5, 6, 7, 10, 11]"
  by (simp add: chain_sectors_def cluster_sectors_def convert_cluster_to_sector_num_def is_normal_cluster_number_def sample_volume_simps upt_rec)

lemma sample_bps: "bps (sample_volume d) = 16"
  by (simp add: sample_volume_simps)

lemma sample_fat_bytes: "length (chain_bytes rd_bytes (sample_volume sample_fat_disk) [2, 3, 5]) = 96"
  using rd.length_chain_bytes [OF sample_fat_file_on] by (simp add: sample_fat_sectors sample_bps)

theorem fat_read_correct_witness:
  "\<exists>data. length data = 40 \<and>
     fat_read_bytes ramdisk_ops (sample_volume sample_fat_disk) (sample_fat_file 90) 5 40 (Some (replicate 50 7)) 50 =
       Some (NO_ERROR, 40, Some (data @ replicate 10 7))"
  using fat_read_correct [OF sample_fat_file_on, of 90 5 40 50 "replicate 50 7" 0 1] sample_fat_bytes
  by (intro exI [of _ "take 40 (drop 5 (chain_bytes rd_bytes (sample_volume sample_fat_disk) [2, 3, 5]))"])
     (simp add: sample_fat_file_size sample_bps sample_fat_sectors)

text \<open>
  Reading to the end of a file that fills its clusters: when the read includes at least one whole sector after the first one and ends with
  the chain, the last sector is read a second time past the end of the data and an assertion fails, so the call never returns.
\<close>

theorem fat_read_at_end_panics:
  assumes "file_on ramdisk_ops rd_running fs f cs" and "unat (fat_file_size f) \<le> length (chain_bytes rd_bytes fs cs)"
    and "unat start + unat len \<le> unat (fat_file_size f)" and "0 < unat len"
    and "len \<le> buffer_length" and "unat buffer_length \<le> length buf" and "length buf < 2 ^ 64"
    and "a = unat start div unat (bps fs)"
    and "w = (unat len - min (unat len) (unat (bps fs) - unat start mod unat (bps fs))) div unat (bps fs)"
    and "0 < w" and "a + 1 + w = length (chain_sectors fs cs)"
  shows "fat_read_bytes ramdisk_ops fs f start len (Some buf) buffer_length = None"
  by (rule rd.fat_read_end [OF assms])

theorem fat_read_at_end_panics_witness:
  "fat_read_bytes ramdisk_ops (sample_volume sample_fat_disk) (sample_fat_file 96) 0 96 (Some (replicate 96 0)) 96 = None"
  using fat_read_at_end_panics [OF sample_fat_file_on, of 96 0 96 96 "replicate 96 0" 0 5] sample_fat_bytes
  by (simp add: sample_fat_file_size sample_bps sample_fat_sectors)

text \<open>
  C19. Writing inside a file: the write succeeds, the bytes of the file from the start of the write are the new ones, the
  others are unchanged, and no sector of the device outside the clusters of the file changes.
\<close>

theorem fat_write_correct:
  assumes "file_on ramdisk_ops rd_running fs f cs" and "\<forall>s\<in>set (chain_sectors fs cs). rd_writable (fs_storage fs) s"
    and "unat (fat_file_size f) \<le> length (chain_bytes rd_bytes fs cs)" and "unat start + unat len \<le> unat (fat_file_size f)"
    and "0 < unat len" and "len \<le> buffer_length" and "unat len \<le> length data"
  shows "\<exists>d. fat_write_bytes ramdisk_ops start len (Some data) buffer_length (f # parents) fs =
       Some (NO_ERROR, len, f # parents, fs\<lparr>fs_storage := d\<rparr>) \<and>
     file_on ramdisk_ops rd_running (fs\<lparr>fs_storage := d\<rparr>) f cs \<and>
     chain_bytes rd_bytes (fs\<lparr>fs_storage := d\<rparr>) cs = overwrite (unat start) (take (unat len) data) (chain_bytes rd_bytes fs cs) \<and>
     sectors_kept rd_bytes fs cs d"
  using rd.fat_write_spec [OF assms] by blast

theorem fat_write_correct_witness:
  "\<exists>d. fat_write_bytes ramdisk_ops 10 30 (Some (replicate 30 9)) 30 [sample_fat_file 90] (sample_volume sample_fat_disk) =
       Some (NO_ERROR, 30, [sample_fat_file 90], (sample_volume sample_fat_disk)\<lparr>fs_storage := d\<rparr>)"
proof -
  have w: "\<forall>s\<in>set (chain_sectors (sample_volume sample_fat_disk) [2, 3, 5]). rd_writable (fs_storage (sample_volume sample_fat_disk)) s"
    unfolding sample_fat_sectors
    by (simp add: rd_writable_def sample_volume_def sample_fat_disk_def ramdisk_start_def ramdisk_new_def)
  show ?thesis
    using fat_write_correct [OF sample_fat_file_on w, of 90 10 30 30 "replicate 30 9" "[]"] sample_fat_bytes
    by (simp add: sample_fat_file_size) blast
qed

text \<open>
  Opening a directory: the loop that counts its clusters ends when the chain of the directory does, with the number
  of clusters, and the size of the directory is the size of the clusters; on a cluster that is linked to itself it never ends.
\<close>

theorem directory_size_terminates:
  assumes "fat_wf fs" and "fde_directory fde"
  shows "(fat_chain fs (fde_first_cluster fde) cs \<longrightarrow>
       (\<exists>f. fat_file_new fs fde idx False = Some f \<and> file_record f = fde_set_file_size
          (of_nat (length cs) * ucast (secs_per_cluster (shared (fs_bpb fs))) * ucast (bytes_per_sec (shared (fs_bpb fs)))) fde)) \<and>
     (is_normal_cluster_number fs (fde_first_cluster fde) \<and> read_fat_entry fs (fde_first_cluster fde) = Some (fde_first_cluster fde) \<longrightarrow>
       fat_file_new fs fde idx False = None)"
  using assms count_clusters_chain [OF assms(1), of "fde_first_cluster fde" cs 0]
    count_clusters_circular [OF assms(1), of "fde_first_cluster fde" 0] read_fat_entry_map [OF assms(1)]
  by (auto simp: fat_file_new_def Let_def)

theorem directory_size_terminates_witness:
  "\<exists>f. fat_file_new (sample_volume ()) (fde_set_directory (fde_set_first_cluster 0 2 (replicate 32 0))) 0 False = Some f \<and>
     file_record f = fde_set_file_size (of_nat 3 * 2 * 16) (fde_set_directory (fde_set_first_cluster 0 2 (replicate 32 0)))"
proof -
  let ?d = "fde_set_directory (fde_set_first_cluster 0 2 (replicate 32 0))"
  have "length (fde_set_first_cluster 0 2 (replicate 32 0)) = 32" by (simp add: fde_cluster_laws)
  then have "fde_directory ?d" "fde_first_cluster ?d = 2" by (simp_all add: fde_directory_laws fde_cluster_number)
  then show ?thesis
    using directory_size_terminates [OF sample_volume_wf(1) [of "()"], of ?d "[2, 3, 5]" 0] sample_chain [of "()"]
    by (simp add: sample_volume_simps)
qed

end
