(* ===== verification/Fat_Names.thy ===== *)
theory Fat_Names
  imports Fat_File System_Tree
begin

text \<open>
  The names of files on a FAT volume: the functions of \<open>kernel/system_tree/fs/fat/fat_folder.cpp\<close> that convert a name to the 8.3 form and to
  long file name entries and back, and \<open>fat_long_filename_entry\<close> of \<open>fat_structures.h\<close>.

  A name is a string of bytes. The characters of a \<open>std::string\<close> are signed, so one that is not ASCII becomes a 16-bit character above \<open>0xFF7F\<close>.
\<close>

subsection \<open>Characters\<close>

definition char_byte :: "char \<Rightarrow> u8" where
  "char_byte c = of_nat (of_char c)"

definition byte_char :: "u8 \<Rightarrow> char" where
  "byte_char b = char_of (unat b)"

definition char_u16 :: "char \<Rightarrow> u16" where
  "char_u16 c = scast (char_byte c)"

definition is_valid_filename_char :: "u16 \<Rightarrow> bool \<Rightarrow> bool" where
  "is_valid_filename_char ch long_filename =
     (ch > 127 \<or> (ch \<ge> char_u16 (CHR ''0'') \<and> ch \<le> char_u16 (CHR ''9'')) \<or>
      (ch \<ge> char_u16 (CHR ''a'') \<and> ch \<le> char_u16 (CHR ''z'')) \<or> (ch \<ge> char_u16 (CHR ''A'') \<and> ch \<le> char_u16 (CHR ''Z'')) \<or>
      ch \<in> char_u16 ` set (''$%'' @ [CHR 0x27] @ ''-_@~'' @ [CHR 0x60] @ ''!(){}^#&'') \<or>
      (long_filename \<and> ch \<in> char_u16 ` set ''+,;=[] .''))"

text \<open>\<open>toupper\<close> of the C locale, and the same on a signed character.\<close>

definition to_upper :: "u8 \<Rightarrow> u8" where
  "to_upper b = (if char_byte (CHR ''a'') \<le> b \<and> b \<le> char_byte (CHR ''z'') then b - char_byte (CHR ''a'') + char_byte (CHR ''A'') else b)"

definition up_char :: "char \<Rightarrow> char" where
  "up_char c = byte_char (to_upper (char_byte c))"

subsection \<open>Short names\<close>

definition name_part :: "string \<Rightarrow> u8 list option" where
  "name_part part = (if \<forall>c \<in> set part. is_valid_filename_char (char_u16 c) False then Some (map (to_upper \<circ> char_byte) part) else None)"

text \<open>The eleven bytes of the short name, when the name is one.\<close>

definition populate_short_name :: "string \<Rightarrow> u8 list option" where
  "populate_short_name filename =
     (if length filename > 12 then None
      else do {
        (first_part, ext_part) \<leftarrow>
          (case find_char (CHR ''.'') filename of
             None \<Rightarrow> if length filename > 8 then None else Some (filename, [])
           | Some dot_pos \<Rightarrow>
               if dot_pos > 8 then None
               else let first_part = take dot_pos filename; ext_part = drop (dot_pos + 1) filename
                 in if length first_part > 8 \<or> length ext_part > 3 then None else Some (first_part, ext_part));
        main \<leftarrow> name_part first_part;
        ext \<leftarrow> name_part ext_part;
        Some (put (put (replicate 11 0x20) 0 main) 8 ext)
      })"

text \<open>A space ends the extension; in the main part it continues with the extension.\<close>

function short_name_loop :: "fat_dir_entry \<Rightarrow> nat \<Rightarrow> string \<Rightarrow> string" where
  "short_name_loop fde i result =
     (if i \<ge> 11 then result
      else if fde ! i = 0x20 then (if i \<ge> 8 then result else short_name_loop fde 8 result)
      else short_name_loop fde (i + 1) ((if i = 8 then result @ ''.'' else result) @ [byte_char (to_upper (fde ! i))]))"
  by pat_completeness auto
termination
  by (relation "measure (\<lambda>(_, i, _). 11 - i)") auto

declare short_name_loop.simps [simp del]

definition short_name_from_fde :: "fat_dir_entry \<Rightarrow> string" where
  "short_name_from_fde fde = short_name_loop fde 0 []"

fun checksum_loop :: "nat \<Rightarrow> u8 \<Rightarrow> u8 list \<Rightarrow> u8" where
  "checksum_loop 0 checksum short_name = checksum"
| "checksum_loop (Suc n) checksum short_name =
     checksum_loop n ((if checksum AND 1 \<noteq> 0 then 0x80 else 0) + drop_bit 1 checksum + hd short_name) (tl short_name)"

definition generate_short_name_checksum :: "u8 list \<Rightarrow> u8" where
  "generate_short_name_checksum short_name = checksum_loop 11 0 short_name"

subsection \<open>Long name entries\<close>

definition is_long_fn_entry :: "fat_dir_entry \<Rightarrow> bool" where
  "is_long_fn_entry fde \<longleftrightarrow> fde ! 11 = 0x0F"

definition lfn_checksum :: "fat_dir_entry \<Rightarrow> u8" where
  "lfn_checksum e = e ! 13"

definition lfn_set_checksum :: "u8 \<Rightarrow> fat_dir_entry \<Rightarrow> fat_dir_entry" where
  "lfn_set_checksum s e = e[13 := s]"

definition lfn_offset :: "nat \<Rightarrow> nat" where
  "lfn_offset idx = (if idx < 5 then 1 + 2 * idx else if idx < 11 then 14 + 2 * (idx - 5) else 28 + 2 * (idx - 11))"

definition lfn_char :: "fat_dir_entry \<Rightarrow> nat \<Rightarrow> u16" where
  "lfn_char e idx = of_nat (le_at e (lfn_offset idx) 2)"

definition lfn_set_char :: "nat \<Rightarrow> u16 \<Rightarrow> fat_dir_entry \<Rightarrow> fat_dir_entry" where
  "lfn_set_char idx c e = put e (lfn_offset idx) (le_bytes 2 (unat c))"

definition lfn_populate :: "fat_dir_entry \<Rightarrow> fat_dir_entry" where
  "lfn_populate e = put ((fold (\<lambda>idx. lfn_set_char idx 0xFFFF) [0 ..< 13] e)[0 := 0, 12 := 0]) 26 (le_bytes 2 0)"

text \<open>The beginning of a long name entry at position \<open>cur_entry\<close> of the array of entries.\<close>

definition lfn_start :: "nat \<Rightarrow> u8 \<Rightarrow> fat_dir_entry list \<Rightarrow> fat_dir_entry list option" where
  "lfn_start cur_entry idx entries = do {
     ASSERT (cur_entry < length entries);
     Some (entries[cur_entry := (lfn_populate (entries ! cur_entry))[0 := idx, 11 := 0x0F]])
   }"

fun long_name_loop :: "string \<Rightarrow> nat \<Rightarrow> nat \<Rightarrow> u8 \<Rightarrow> u8 \<Rightarrow> fat_dir_entry list \<Rightarrow> (bool \<times> fat_dir_entry list) option" where
  "long_name_loop [] i len num_entries cur_entry entries = Some (True, entries)"
| "long_name_loop (c # cs) i len num_entries cur_entry entries =
     (if \<not> is_valid_filename_char (char_u16 c) True then Some (False, entries)
      else do {
        ASSERT (unat cur_entry < length entries);
        let entries = entries[unat cur_entry := lfn_set_char (i mod 13) (char_u16 c) (entries ! unat cur_entry)];
        if (i + 1) mod 13 = 0 \<and> i \<noteq> len - 1
        then do {
          ASSERT (cur_entry \<noteq> 0);
          entries \<leftarrow> lfn_start (unat (cur_entry - 1)) (num_entries - (cur_entry - 1)) entries;
          long_name_loop cs (i + 1) len num_entries (cur_entry - 1) entries
        } else long_name_loop cs (i + 1) len num_entries cur_entry entries
      })"

text \<open>
  The result, the number of entries and the entries. The number has eight bits. With an empty name or one of more characters than the array
  holds, the code writes outside the array.
\<close>

definition populate_long_name :: "string \<Rightarrow> fat_dir_entry list \<Rightarrow> (bool \<times> u8 \<times> fat_dir_entry list) option" where
  "populate_long_name filename entries = do {
     let remainder = length filename mod 13;
     let num_entries = (if remainder \<noteq> 0 then of_nat (length filename div 13) + 1 else of_nat (length filename div 13) :: u8);
     let cur_entry = num_entries - 1;
     entries \<leftarrow> lfn_start (unat cur_entry) 1 entries;
     (result, entries) \<leftarrow> long_name_loop filename 0 (length filename) num_entries cur_entry entries;
     let e = (entries ! 0)[0 := entries ! 0 ! 0 OR 0x40];
     let e = (if remainder \<noteq> 0 then lfn_set_char remainder 0 e else e);
     Some (result, num_entries, entries[0 := e])
   }"

text \<open>The part of a long name in an entry, as the constructor of a folder collects it.\<close>

definition part_of_lfn :: "fat_dir_entry \<Rightarrow> string" where
  "part_of_lfn fde = map (\<lambda>c. byte_char (ucast c))
     (filter (\<lambda>c. is_valid_filename_char c True \<and> c < 256) (map (lfn_char fde) [0 ..< 13]))"

definition soft_compare_lfn_entries :: "fat_dir_entry \<Rightarrow> fat_dir_entry \<Rightarrow> bool" where
  "soft_compare_lfn_entries a b \<longleftrightarrow> a ! 0 = b ! 0 \<and> a ! 11 = b ! 11 \<and> take 5 (drop 1 a) = take 5 (drop 1 b) \<and>
     take 6 (drop 14 a) = take 6 (drop 14 b) \<and> take 2 (drop 28 a) = take 2 (drop 28 b)"

subsection \<open>Basis names\<close>

text \<open>The digits of a number, as \<open>snprintf\<close> prints it with \<open>%d\<close>.\<close>

fun decimal :: "nat \<Rightarrow> string" where
  "decimal n = (if n < 10 then [char_of (48 + n)] else decimal (n div 10) @ [char_of (48 + n mod 10)])"

declare decimal.simps [simp del]

text \<open>
  The characters of the tail are copied with one more byte, the zero that ends the string.
\<close>

definition add_numeric_tail :: "fat_dir_entry \<Rightarrow> nat \<Rightarrow> nat \<Rightarrow> fat_dir_entry option" where
  "add_numeric_tail fde num_valid_chars suffix = do {
     ASSERT (1 \<le> num_valid_chars \<and> num_valid_chars \<le> 8);
     ASSERT (suffix < 1000000);
     let number_buf = map char_byte (decimal suffix) @ [0];
     let num_suffix_chars = length number_buf;
     ASSERT (num_suffix_chars \<le> 7);
     let num_valid_chars = (if num_suffix_chars + num_valid_chars > 8 then 8 - num_suffix_chars else num_valid_chars);
     Some (put (fde[num_valid_chars := char_byte (CHR ''~'')]) (num_valid_chars + 1) number_buf)
   }"

text \<open>
  The conversion to characters of short names: whether it is lossy, the position of the last period and the buffer.
\<close>

fun basis_convert :: "string \<Rightarrow> bool \<Rightarrow> bool \<Rightarrow> nat \<Rightarrow> string \<Rightarrow> bool \<times> nat \<times> string" where
  "basis_convert [] is_still_leading_period lossy_conversion last_period_position converted_buffer =
     (lossy_conversion, last_period_position, converted_buffer)"
| "basis_convert (c # cs) is_still_leading_period lossy_conversion last_period_position converted_buffer =
     (if c = CHR ''.'' \<and> is_still_leading_period then basis_convert cs True True last_period_position converted_buffer
      else if c = CHR '' '' then basis_convert cs False lossy_conversion last_period_position converted_buffer
      else
        let invalid = (c \<noteq> CHR ''.'' \<and> \<not> is_valid_filename_char (char_u16 c) False)
        in basis_convert cs False (lossy_conversion \<or> invalid)
             (if c = CHR ''.'' then length converted_buffer else last_period_position)
             (converted_buffer @ [if invalid then CHR ''_'' else up_char c]))"

text \<open>The name of the entry before a tail is added, the number of characters of its main part, and whether it needs a tail.\<close>

definition basis_name :: "string \<Rightarrow> fat_dir_entry \<Rightarrow> fat_dir_entry \<times> nat \<times> bool" where
  "basis_name filename created_entry =
     (let (lossy_conversion, last_period_position, converted_buffer) = basis_convert filename True False 0 [];
          main = take 8 (takeWhile (\<lambda>c. c \<noteq> CHR ''.'') converted_buffer);
          ext = take 3 (drop last_period_position converted_buffer);
          created_entry = put created_entry 0 (replicate 11 0x20);
          created_entry = put created_entry 0 (map char_byte main);
          created_entry = put created_entry 8 (map char_byte ext)
      in (created_entry, length main, lossy_conversion))"

subsection \<open>Laws of characters and entries\<close>

lemma byte_char_byte [simp]: "byte_char (char_byte c) = c"
proof -
  have "(of_char c :: nat) < 256" by (rule nat_of_char_less_256)
  then show ?thesis by (simp add: byte_char_def char_byte_def unat_of_nat)
qed

lemma char_byte_char [simp]: "char_byte (byte_char b) = b"
proof -
  have "unat b < 256" using unsigned_less [of b] by simp
  then show ?thesis by (simp add: byte_char_def char_byte_def)
qed

lemma char_byte_eq [simp]: "char_byte c = char_byte d \<longleftrightarrow> c = d"
  by (metis byte_char_byte)

lemma char_u16_eq [simp]: "char_u16 c = char_u16 d \<longleftrightarrow> c = d"
proof -
  have "(ucast (scast b :: u16) :: u8) = b" for b :: u8 by (rule bit_word_eqI) (auto simp: bit_simps)
  then show ?thesis by (metis byte_char_byte char_u16_def)
qed

definition ascii :: "char \<Rightarrow> bool" where
  "ascii c \<longleftrightarrow> char_byte c < 128"

lemma char_u16_ascii:
  assumes "ascii c"
  shows "char_u16 c = ucast (char_byte c)"
proof -
  have "unat (char_byte c) div 2 ^ 7 = 0" using assms by (simp add: ascii_def word_less_nat_alt)
  then have "\<not> bit (unat (char_byte c)) 7" by (simp only: bit_iff_odd) simp
  then have "\<not> bit (char_byte c) 7" by (simp add: bit_unsigned_iff)
  moreover have "\<not> bit (char_byte c) n" if "7 < n" for n using that bit_imp_le_length [of "char_byte c" n] by auto
  ultimately have "\<not> bit (char_byte c) n" if "7 \<le> n" for n using that by (cases "n = 7") auto
  then show ?thesis unfolding char_u16_def
    by (intro bit_word_eqI) (auto simp: bit_simps min_def split: if_splits)
qed

lemma char_of_u16: "ascii c \<Longrightarrow> byte_char (ucast (char_u16 c)) = c" "ascii c \<Longrightarrow> char_u16 c < 256"
proof -
  have "unat (char_byte c) < 256" using unsigned_less [of "char_byte c"] by simp
  then show "ascii c \<Longrightarrow> char_u16 c < 256" by (simp add: char_u16_ascii word_less_nat_alt unsigned_ucast_eq take_bit_nat_eq_self)
  have "(ucast (ucast b :: u16) :: u8) = b" for b :: u8 by (rule bit_word_eqI) (auto simp: bit_simps)
  then show "ascii c \<Longrightarrow> byte_char (ucast (char_u16 c)) = c" by (simp add: char_u16_ascii)
qed

lemma to_upper_idem [simp]: "to_upper (to_upper b) = to_upper b"
  by (simp add: to_upper_def char_byte_def) (unat_arith)

lemma to_upper_space [simp]: "to_upper b = 0x20 \<longleftrightarrow> b = 0x20"
  by (simp add: to_upper_def char_byte_def) (unat_arith)

lemma valid_not_dot: "\<not> is_valid_filename_char (char_u16 (CHR ''.'')) False"
  by (simp add: is_valid_filename_char_def char_u16_def char_byte_def)

lemma valid_not_space: "\<not> is_valid_filename_char 0x20 False"
  by (simp add: is_valid_filename_char_def char_u16_def char_byte_def)

subsection \<open>Short names and back\<close>

lemma put_nth:
  assumes "off + length ys \<le> length buf" "k < length buf"
  shows "put buf off ys ! k = (if off \<le> k \<and> k < off + length ys then ys ! (k - off) else buf ! k)"
  using assms by (auto simp: put_def nth_append min_def)

lemma find_char_split:
  "find_char c s = Some i \<Longrightarrow> s = take i s @ c # drop (Suc i) s \<and> i < length s"
  "find_char c s = None \<Longrightarrow> c \<notin> set s"
  by (induction s arbitrary: i) (auto split: if_splits)

lemma short_name_loop_main:
  "j \<le> 8 \<Longrightarrow> i \<le> j \<Longrightarrow> \<forall>k. i \<le> k \<and> k < j \<longrightarrow> fde ! k \<noteq> 0x20 \<Longrightarrow>
   short_name_loop fde i r = short_name_loop fde j (r @ map (\<lambda>k. byte_char (to_upper (fde ! k))) [i ..< j])"
proof (induction "j - i" arbitrary: i r)
  case (Suc n)
  then have "i < j" by simp
  then show ?case using Suc.prems Suc.hyps(1) [of "Suc i" "r @ [byte_char (to_upper (fde ! i))]"] Suc.hyps(2)
    by (subst short_name_loop.simps) (simp add: upt_conv_Cons)
qed simp

lemma short_name_loop_skip: "j \<le> 8 \<Longrightarrow> j = 8 \<or> fde ! j = 0x20 \<Longrightarrow> short_name_loop fde j r = short_name_loop fde 8 r"
  by (cases "j = 8") (simp_all add: short_name_loop.simps [of fde j])

lemma short_name_loop_ext:
  assumes "length ext \<le> 3" "\<forall>k < length ext. fde ! (8 + k) = ext ! k" "\<forall>k. length ext \<le> k \<and> k < 3 \<longrightarrow> fde ! (8 + k) = 0x20" "0x20 \<notin> set ext"
  shows "short_name_loop fde 8 r = r @ (if ext = [] then [] else CHR ''.'' # map (byte_char \<circ> to_upper) ext)"
proof -
  have l: "\<forall>k<3. fde ! (8 + k) = (ext @ replicate (3 - length ext) 0x20) ! k" using assms(2,3) by (auto simp: nth_append)
  have f: "fde ! 8 = (ext @ replicate (3 - length ext) 0x20) ! 0" "fde ! 9 = (ext @ replicate (3 - length ext) 0x20) ! 1"
    "fde ! 10 = (ext @ replicate (3 - length ext) 0x20) ! 2"
    using l [rule_format, of 0] l [rule_format, of 1] l [rule_format, of 2] by simp_all
  consider "ext = []" | a where "ext = [a]" | a b where "ext = [a, b]" | a b c where "ext = [a, b, c]"
    using assms(1) by (auto simp: numeral_3_eq_3 le_Suc_eq length_Suc_conv)
  then show ?thesis
    by cases (use assms(4) f in \<open>simp_all add: short_name_loop.simps [of _ 8] short_name_loop.simps [of _ 9]
        short_name_loop.simps [of _ 10] short_name_loop.simps [of _ 11] numeral_2_eq_2\<close>)
qed

lemma name_part_Some:
  assumes "name_part part = Some ys"
  shows "ys = map (to_upper \<circ> char_byte) part" "0x20 \<notin> set ys" "CHR ''.'' \<notin> set part"
proof -
  have v: "\<forall>c \<in> set part. is_valid_filename_char (char_u16 c) False" and b: "ys = map (to_upper \<circ> char_byte) part"
    using assms by (auto simp: name_part_def split: if_splits)
  show "ys = map (to_upper \<circ> char_byte) part" by (rule b)
  show "CHR ''.'' \<notin> set part" using v valid_not_dot by auto
  have "char_byte c \<noteq> 0x20" if "c \<in> set part" for c
    using v that valid_not_space by (auto simp: char_u16_def)
  then show "0x20 \<notin> set ys" unfolding b by (metis (no_types, lifting) comp_apply imageE list.set_map to_upper_space)
qed

text \<open>The bytes of a short name read back.\<close>

lemma short_name_of_parts:
  assumes "length main \<le> 8" "length ext \<le> 3" "0x20 \<notin> set main" "0x20 \<notin> set ext"
  shows "short_name_from_fde (put (put (replicate 11 0x20) 0 main) 8 ext @ rest) =
    map (byte_char \<circ> to_upper) main @ (if ext = [] then [] else CHR ''.'' # map (byte_char \<circ> to_upper) ext)"
proof -
  let ?f = "put (put (replicate 11 0x20) 0 main) 8 ext @ rest"
  have f: "?f ! k = (if 8 \<le> k \<and> k < 8 + length ext then ext ! (k - 8) else if k < length main then main ! k else 0x20)" if "k < 11" for k
    using assms(1,2) that by (simp add: nth_append put_nth)
  have "\<forall>k < length main. ?f ! k \<noteq> 0x20" using f assms(1,3) by (auto dest: nth_mem)
  then have "short_name_from_fde ?f = short_name_loop ?f (length main) (map (\<lambda>k. byte_char (to_upper (?f ! k))) [0 ..< length main])"
    using short_name_loop_main [of "length main" 0 ?f "[]"] assms(1) by (simp add: short_name_from_fde_def)
  also have "map (\<lambda>k. byte_char (to_upper (?f ! k))) [0 ..< length main] = map (byte_char \<circ> to_upper) main"
    using f assms(1) by (auto intro!: nth_equalityI)
  also have "short_name_loop ?f (length main) (map (byte_char \<circ> to_upper) main) = short_name_loop ?f 8 (map (byte_char \<circ> to_upper) main)"
    using f [of "length main"] assms(1) by (intro short_name_loop_skip) auto
  also have "\<dots> = map (byte_char \<circ> to_upper) main @ (if ext = [] then [] else CHR ''.'' # map (byte_char \<circ> to_upper) ext)"
    using f assms(1,2,4) by (intro short_name_loop_ext) auto
  finally show ?thesis .
qed

lemma short_name_parts:
  assumes "populate_short_name filename = Some n"
  obtains first ext main e where "filename = first \<and> ext = [] \<or> filename = first @ CHR ''.'' # ext" "name_part first = Some main" "name_part ext = Some e"
    "length first \<le> 8" "length ext \<le> 3" "n = put (put (replicate 11 0x20) 0 main) 8 e"
proof (cases "find_char (CHR ''.'') filename")
  case None
  then show ?thesis using assms that [of filename "[]"] by (auto simp: populate_short_name_def Let_def split: if_splits bind_splits)
next
  case (Some p)
  then show ?thesis using assms that [of "take p filename" "drop (Suc p) filename"] find_char_split(1) [OF Some]
    by (auto simp: populate_short_name_def Let_def split: if_splits bind_splits)
qed

lemma short_name_roundtrip_spec:
  assumes "populate_short_name filename = Some n"
  shows "short_name_from_fde (n @ rest) =
    (if filename \<noteq> [] \<and> last filename = CHR ''.'' then map up_char (butlast filename) else map up_char filename)"
proof -
  obtain first ext main e where p: "filename = first \<and> ext = [] \<or> filename = first @ CHR ''.'' # ext" "name_part first = Some main" "name_part ext = Some e"
    "length first \<le> 8" "length ext \<le> 3" "n = put (put (replicate 11 0x20) 0 main) 8 e"
    using short_name_parts [OF assms] .
  have u: "up_char (CHR ''.'') = CHR ''.''" by (simp add: up_char_def to_upper_def) (simp add: char_byte_def)
  have "short_name_from_fde (n @ rest) = map up_char first @ (if ext = [] then [] else CHR ''.'' # map up_char ext)"
    using name_part_Some [OF p(2)] name_part_Some [OF p(3)] p(4-6) short_name_of_parts [of main e rest]
    by (simp add: up_char_def comp_def)
  moreover have "last ext \<noteq> CHR ''.''" if "ext \<noteq> []" using name_part_Some(3) [OF p(3)] that last_in_set [OF that] by metis
  moreover have "last first \<noteq> CHR ''.''" if "first \<noteq> []" using name_part_Some(3) [OF p(2)] that last_in_set [OF that] by metis
  ultimately show ?thesis using p(1) by (auto simp: u butlast_append)
qed

lemma checksum_step: "(if s AND 1 \<noteq> 0 then 0x80 else 0) + drop_bit 1 s = word_rotr 1 (s :: u8)"
proof -
  let ?t = "if s AND 1 \<noteq> 0 then 0x80 else 0 :: u8"
  have "bit (0x80 :: u8) n \<longleftrightarrow> n = 7" for n
  proof -
    have "bit (0x80 :: u8) n \<longleftrightarrow> bit (2 ^ 7 :: u8) n" by simp
    then show ?thesis by (simp only: bit_exp_iff) auto
  qed
  then have t: "bit ?t n \<longleftrightarrow> n = 7 \<and> bit s 0" for n by (simp add: bit_0 and_one_eq odd_iff_mod_2_eq_one)
  have hi: "\<not> bit s 8" using bit_imp_le_length [of s 8] by auto
  have "?t + drop_bit 1 s = ?t OR drop_bit 1 s"
    using hi by (intro disjunctive_add) (auto simp: t bit_drop_bit_eq)
  also have "\<dots> = word_rotr 1 s"
  proof (rule bit_word_eqI)
    fix n assume "n < LENGTH(8)"
    then have "n = 7 \<or> Suc n < 8" by auto
    then show "bit (?t OR drop_bit 1 s) n = bit (word_rotr 1 s) n"
      unfolding bit_or_iff t bit_drop_bit_eq bit_word_rotr_iff comp_apply using hi by auto
  qed
  finally show ?thesis .
qed

lemma checksum_loop_foldl: "n \<le> length ys \<Longrightarrow> checksum_loop n s ys = foldl (\<lambda>s b. word_rotr 1 s + b) s (take n ys)"
proof (induction n arbitrary: s ys)
  case (Suc n)
  then show ?case using checksum_step [of s] by (cases ys) simp_all
qed simp

subsection \<open>Long names and back\<close>

lemma list_update_put: "k < length e \<Longrightarrow> e[k := x] = put e k [x]"
  by (simp add: put_def upd_conv_take_nth_drop)

lemma lfn_offset_bounds: "i < 13 \<Longrightarrow> lfn_offset i + 2 \<le> 32"
  "i < 13 \<Longrightarrow> j < 13 \<Longrightarrow> i \<noteq> j \<Longrightarrow> lfn_offset i + 2 \<le> lfn_offset j \<or> lfn_offset j + 2 \<le> lfn_offset i"
  "i < 13 \<Longrightarrow> k \<in> {0, 11, 12, 13} \<Longrightarrow> k < lfn_offset i \<or> lfn_offset i + 2 \<le> k"
  "i < 13 \<Longrightarrow> lfn_offset i + 2 \<le> 26 \<or> 28 \<le> lfn_offset i"
  by (auto simp: lfn_offset_def)

lemma lfn_set_char_laws:
  assumes "length e = 32" "i < 13"
  shows "length (lfn_set_char i c e) = 32"
    "j < 13 \<Longrightarrow> lfn_char (lfn_set_char i c e) j = (if j = i then c else lfn_char e j)"
    "k \<in> {0, 11, 12, 13} \<Longrightarrow> lfn_set_char i c e ! k = e ! k"
proof -
  have o: "lfn_offset i + 2 \<le> 32" using assms(2) by (rule lfn_offset_bounds)
  then show "length (lfn_set_char i c e) = 32" using assms(1) by (simp add: lfn_set_char_def)
  have "unat c < 256 ^ 2" using unsigned_less [of c, where ?'a = nat] by simp
  then have "lfn_char (lfn_set_char i c e) i = c"
    using o assms(1) by (simp add: lfn_char_def lfn_set_char_def le_at_put_len)
  moreover have "lfn_char (lfn_set_char i c e) j = lfn_char e j" if "j < 13" "j \<noteq> i"
    using o assms(1) lfn_offset_bounds(2) [OF that(1) assms(2)] that(2) by (auto simp: lfn_char_def lfn_set_char_def le_at_put_other)
  ultimately show "j < 13 \<Longrightarrow> lfn_char (lfn_set_char i c e) j = (if j = i then c else lfn_char e j)" by auto
  show "lfn_set_char i c e ! k = e ! k" if "k \<in> {0, 11, 12, 13}"
    using lfn_offset_bounds(3) [OF assms(2) that] o assms(1) that by (auto simp: lfn_set_char_def put_nth)
qed

lemma lfn_char_update: "length e = 32 \<Longrightarrow> j < 13 \<Longrightarrow> k \<in> {0, 11, 12, 13} \<Longrightarrow> lfn_char (e[k := x]) j = lfn_char e j"
proof -
  assume a: "length e = 32" "j < 13" "k \<in> {0, 11, 12, 13}"
  then have "e[k := x] = put e k [x]" "k + 1 \<le> length e" by (auto intro!: list_update_put)
  then show "lfn_char (e[k := x]) j = lfn_char e j"
    using lfn_offset_bounds(3) [OF a(2,3)] by (auto simp: lfn_char_def le_at_put_other)
qed

lemma lfn_fill:
  assumes "length e = 32" "set js \<subseteq> {..<13}"
  shows "length (fold (\<lambda>idx. lfn_set_char idx c) js e) = 32 \<and>
    (\<forall>j < 13. lfn_char (fold (\<lambda>idx. lfn_set_char idx c) js e) j = (if j \<in> set js then c else lfn_char e j))"
  using assms by (induction js arbitrary: e) (auto simp: lfn_set_char_laws)

lemma lfn_populate_laws:
  assumes "length e = 32"
  shows "length (lfn_populate e) = 32" "j < 13 \<Longrightarrow> lfn_char (lfn_populate e) j = 0xFFFF"
proof -
  have f: "length (fold (\<lambda>idx. lfn_set_char idx 0xFFFF) [0 ..< 13] e) = 32" "\<forall>j<13. lfn_char (fold (\<lambda>idx. lfn_set_char idx 0xFFFF) [0 ..< 13] e) j = 0xFFFF"
    using lfn_fill [OF assms, of "[0 ..< 13]" "0xFFFF"] by (auto simp: atLeast0LessThan)
  show "length (lfn_populate e) = 32" using f(1) by (simp add: lfn_populate_def)
  have p: "lfn_char (put d 26 (le_bytes 2 0)) j = lfn_char d j" if "length d = 32" "j < 13" for d
    using that lfn_offset_bounds(4) [OF that(2)] by (auto simp: lfn_char_def le_at_put_other)
  show "lfn_char (lfn_populate e) j = 0xFFFF" if "j < 13"
    using f that unfolding lfn_populate_def by (simp add: p lfn_char_update)
qed

text \<open>
  The array of entries when the first \<open>i\<close> characters of the name have been stored in the last \<open>q + 1\<close> of \<open>n\<close> entries.
\<close>

definition lfn_entry_ok :: "string \<Rightarrow> nat \<Rightarrow> nat \<Rightarrow> fat_dir_entry \<Rightarrow> bool" where
  "lfn_entry_ok name i k e \<longleftrightarrow> length e = 32 \<and> e ! 0 = of_nat (Suc k) \<and> e ! 11 = 0x0F \<and>
     (\<forall>j < 13. lfn_char e j = (if 13 * k + j < i then char_u16 (name ! (13 * k + j)) else 0xFFFF))"

definition lfn_filled :: "string \<Rightarrow> nat \<Rightarrow> nat \<Rightarrow> nat \<Rightarrow> fat_dir_entry list \<Rightarrow> bool" where
  "lfn_filled name n i q es \<longleftrightarrow> (\<forall>e \<in> set es. length e = 32) \<and> (\<forall>k \<le> q. lfn_entry_ok name i k (es ! (n - 1 - k)))"

lemma lfn_start_spec:
  assumes "\<forall>e \<in> set es. length e = 32" "n \<le> length es" "q < n" "\<forall>k < q. lfn_entry_ok name (13 * q) k (es ! (n - 1 - k))"
    and "unat cur = n - 1 - q" "idx = of_nat (Suc q)"
  obtains es2 where "lfn_start (unat cur) idx es = Some es2" "lfn_filled name n (13 * q) q es2" "length es2 = length es" "\<forall>i \<ge> n. es2 ! i = es ! i"
proof -
  let ?e = "(lfn_populate (es ! unat cur))[0 := idx, 11 := 0x0F]" and ?es = "es[unat cur := (lfn_populate (es ! unat cur))[0 := idx, 11 := 0x0F]]"
  have c: "unat cur < length es" using assms(2,3,5) by simp
  then have l: "length (lfn_populate (es ! unat cur)) = 32" using assms(1) by (simp add: lfn_populate_laws)
  have e: "lfn_entry_ok name (13 * q) q ?e"
    using l c assms(1,6) by (simp add: lfn_entry_ok_def lfn_char_update lfn_populate_laws)
  have "lfn_entry_ok name (13 * q) k (?es ! (n - 1 - k))" if "k \<le> q" for k
  proof (cases "k = q")
    case True
    then show ?thesis using e c assms(5) by simp
  next
    case False
    then have "n - 1 - k \<noteq> unat cur" "k < q" using that assms(3,5) by auto
    then show ?thesis using assms(4) by simp
  qed
  moreover have "\<forall>e \<in> set ?es. length e = 32" using l assms(1) by (auto dest!: set_update_subset_insert [THEN subsetD])
  ultimately have "lfn_filled name n (13 * q) q ?es" by (simp add: lfn_filled_def)
  then show thesis using that [of ?es] c assms(3,5) by (auto simp: lfn_start_def)
qed

lemma lfn_store_spec:
  assumes "lfn_filled name n i q es" "q = i div 13" "q < n" "n \<le> length es" "unat cur = n - 1 - q"
  shows "lfn_filled name n (Suc i) q (es[unat cur := lfn_set_char (i mod 13) (char_u16 (name ! i)) (es ! unat cur)])"
proof -
  let ?e = "lfn_set_char (i mod 13) (char_u16 (name ! i)) (es ! unat cur)"
  have i: "13 * q + i mod 13 = i" using assms(2) by simp
  then have iq: "13 * q \<le> i" by (metis le_add1)
  have c: "unat cur < length es" using assms(3-5) by simp
  have o: "lfn_entry_ok name i q (es ! unat cur)" using assms(1,5) by (simp add: lfn_filled_def)
  have l: "length (es ! unat cur) = 32" using o by (simp add: lfn_entry_ok_def)
  have "13 * q + j < Suc i \<longleftrightarrow> j = i mod 13 \<or> 13 * q + j < i" for j using i by auto
  then have e: "lfn_entry_ok name (Suc i) q ?e"
    using o i by (auto simp: lfn_entry_ok_def lfn_set_char_laws [OF l])
  have "lfn_entry_ok name (Suc i) k (es[unat cur := ?e] ! (n - 1 - k))" if "k \<le> q" for k
  proof (cases "k = q")
    case True
    then show ?thesis using e c assms(5) by simp
  next
    case False
    then have "n - 1 - k \<noteq> unat cur" using that assms(3,5) by auto
    moreover have "13 * k + j < i" if "j < 13" for j
    proof -
      have "13 * Suc k \<le> 13 * q" using False \<open>k \<le> q\<close> by (simp only: mult_le_mono2)
      then have "13 * k + 13 \<le> 13 * q" by simp
      then show ?thesis using iq that by linarith
    qed
    ultimately show ?thesis using assms(1) that by (auto simp: lfn_filled_def lfn_entry_ok_def less_SucI)
  qed
  moreover have "\<forall>e \<in> set (es[unat cur := ?e]). length e = 32"
    using l assms(1) by (auto simp: lfn_filled_def lfn_set_char_laws dest!: set_update_subset_insert [THEN subsetD])
  ultimately show ?thesis by (simp add: lfn_filled_def)
qed

lemma long_name_loop_spec:
  assumes "cs = drop i name" "i < length name" "\<forall>c \<in> set name. is_valid_filename_char (char_u16 c) True"
    and "13 * (n - 1) < length name" "length name \<le> 13 * n" "n \<le> length es" "n \<le> 255" "lfn_filled name n i (i div 13) es" "unat cur = n - 1 - i div 13"
  shows "\<exists>es2. long_name_loop cs i (length name) (of_nat n) cur es = Some (True, es2) \<and> lfn_filled name n (length name) (n - 1) es2 \<and>
    length es2 = length es \<and> (\<forall>i \<ge> n. es2 ! i = es ! i)"
  using assms(1,2,6,8,9)
proof (induction cs arbitrary: i es cur)
  case Nil
  then show ?case by simp
next
  case (Cons c cs)
  let ?q = "i div 13" and ?es = "es[unat cur := lfn_set_char (i mod 13) (char_u16 (name ! i)) (es ! unat cur)]"
  have c: "c = name ! i" "cs = drop (Suc i) name" using Cons.prems(1,2) by (metis Cons_nth_drop_Suc list.inject)+
  have v: "is_valid_filename_char (char_u16 c) True" using assms(3) c Cons.prems(2) by simp
  have q: "?q < n" using Cons.prems(2) assms(5) by (simp add: less_mult_imp_div_less mult.commute)
  have s: "lfn_filled name n (Suc i) ?q ?es" by (rule lfn_store_spec [OF Cons.prems(4) refl q Cons.prems(3,5)])
  have cur: "unat cur < length es" using q Cons.prems(3,5) by simp
  consider (last) "Suc i = length name" | (new) "Suc i < length name" "Suc i mod 13 = 0" | (same) "Suc i < length name" "Suc i mod 13 \<noteq> 0"
    using Cons.prems(2) by linarith
  then show ?case
  proof cases
    case last
    then have "?q = n - 1" using assms(4,5) q by linarith
    moreover have "unat cur < n" using Cons.prems(5) q by simp
    moreover have "i = length name - 1" using last by simp
    ultimately show ?thesis using c last v cur s by (simp add: Let_def)
  next
    case new
    have "i mod 13 = 12" using new(2) by (simp add: mod_Suc split: if_splits)
    then have d: "Suc i = 13 * Suc ?q" using mult_div_mod_eq [of 13 i] by simp
    then have d2: "Suc i div 13 = Suc ?q" by simp
    have "13 * Suc ?q < 13 * n" using new(1) assms(5) unfolding d by linarith
    then have q2: "Suc ?q < n" by (simp only: mult_less_cancel1)
    have "cur \<noteq> 0" using Cons.prems(5) q2 by auto
    then have cu: "unat (cur - 1) = n - 1 - Suc ?q" "cur \<noteq> 0" using Cons.prems(5) q2 by (simp_all add: unat_minus_one)
    have "cur - 1 = of_nat (n - 1 - Suc ?q)" unfolding cu(1) [symmetric] by simp
    then have idx: "of_nat n - (cur - 1) = (of_nat (Suc (Suc ?q)) :: u8)"
      using q2 of_nat_diff [of "n - 1 - Suc ?q" n, where ?'a = u8] by (simp only:) simp
    obtain es2 where e: "lfn_start (unat (cur - 1)) (of_nat n - (cur - 1)) ?es = Some es2" "lfn_filled name n (13 * Suc ?q) (Suc ?q) es2"
      "length es2 = length ?es" "\<forall>i \<ge> n. es2 ! i = ?es ! i"
      by (rule lfn_start_spec [OF _ _ q2 _ cu(1) idx, of ?es name]) (use s d Cons.prems(3) in \<open>auto simp: lfn_filled_def\<close>)
    have f: "lfn_filled name n (Suc i) (Suc ?q) es2" using e(2) by (simp only: d [symmetric])
    have "\<exists>es3. long_name_loop cs (Suc i) (length name) (of_nat n) (cur - 1) es2 = Some (True, es3) \<and> lfn_filled name n (length name) (n - 1) es3 \<and>
        length es3 = length es2 \<and> (\<forall>i \<ge> n. es3 ! i = es2 ! i)"
      by (rule Cons.IH) (use c(2) new(1) d2 e(3) f Cons.prems(3) cu(1) in auto)
    then show ?thesis using v cur cu(2) e new Cons.prems(5) q c by (auto simp: Let_def)
  next
    case same
    then have d: "Suc i div 13 = ?q" by (simp add: div_Suc)
    have "\<exists>es3. long_name_loop cs (Suc i) (length name) (of_nat n) cur ?es = Some (True, es3) \<and> lfn_filled name n (length name) (n - 1) es3 \<and>
        length es3 = length ?es \<and> (\<forall>i \<ge> n. es3 ! i = ?es ! i)"
      by (rule Cons.IH) (use c same d s Cons.prems(3,5) in auto)
    then show ?thesis using v cur same Cons.prems(5) q c by (auto simp: Let_def)
  qed
qed

text \<open>The long name entry with number \<open>k\<close> of a name in \<open>n\<close> entries, counted from the end of the array.\<close>

definition lfn_entry_of :: "string \<Rightarrow> nat \<Rightarrow> nat \<Rightarrow> fat_dir_entry \<Rightarrow> bool" where
  "lfn_entry_of name n k e \<longleftrightarrow> length e = 32 \<and> e ! 11 = 0x0F \<and> e ! 0 = (if k = n - 1 then of_nat n OR 0x40 else of_nat (Suc k)) \<and>
     (\<forall>j < 13. lfn_char e j =
       (if 13 * k + j < length name then char_u16 (name ! (13 * k + j)) else if 13 * k + j = length name then 0 else 0xFFFF))"

lemma incomplete_chunk:
  assumes "0 < n" "13 * (n - 1) < m" "m \<le> 13 * n" "m mod 13 \<noteq> 0"
  shows "m div 13 = n - (1 :: nat)"
proof -
  have "m \<noteq> 13 * n" using assms(4) by auto
  then show ?thesis using assms(1-3) by (intro div_nat_eqI) auto
qed

lemma populate_long_name_spec:
  assumes "\<forall>c \<in> set name. is_valid_filename_char (char_u16 c) True" "0 < n" "13 * (n - 1) < length name" "length name \<le> 13 * n"
    and "n \<le> length es" "n \<le> 255" "\<forall>e \<in> set es. length e = 32"
  obtains es2 where "populate_long_name name es = Some (True, of_nat n, es2)" "length es2 = length es" "\<forall>e \<in> set es2. length e = 32"
    "\<forall>i \<ge> n. es2 ! i = es ! i" "\<forall>k < n. lfn_entry_of name n k (es2 ! (n - 1 - k))"
proof -
  let ?L = "length name"
  have num: "(if ?L mod 13 \<noteq> 0 then of_nat (?L div 13) + 1 else of_nat (?L div 13) :: u8) = of_nat n"
  proof (cases "?L mod 13 = 0")
    case True
    then have "?L = 13 * (?L div 13)" using mult_div_mod_eq [of 13 ?L] by simp
    then have "?L div 13 = n" using assms(2-4) by linarith
    then show ?thesis using True by simp
  next
    case False
    then have "?L div 13 = n - 1" by (rule incomplete_chunk [OF assms(2-4)])
    then have "n = Suc (?L div 13)" using assms(2) by simp
    then show ?thesis using False by simp
  qed
  have cur: "unat (of_nat n - 1 :: u8) = n - 1"
    using assms(2,6) by (subst unat_minus_one) (auto simp: unat_of_nat word_of_nat_eq_0_iff dest: nat_dvd_not_less)
  obtain es0 where e0: "lfn_start (unat (of_nat n - 1 :: u8)) 1 es = Some es0" "lfn_filled name n 0 0 es0" "length es0 = length es" "\<forall>i \<ge> n. es0 ! i = es ! i"
    by (rule lfn_start_spec [OF assms(7,5,2), of name "of_nat n - 1" 1]) (use cur in auto)
  obtain es1 where e1: "long_name_loop name 0 ?L (of_nat n) (of_nat n - 1) es0 = Some (True, es1)" "lfn_filled name n ?L (n - 1) es1"
      "length es1 = length es0" "\<forall>i \<ge> n. es1 ! i = es0 ! i"
    using long_name_loop_spec [OF _ _ assms(1,3,4) _ assms(6), of name 0 es0 "of_nat n - 1"] assms(3,5) e0(2,3) cur by force
  let ?e = "(es1 ! 0)[0 := es1 ! 0 ! 0 OR 0x40]"
  let ?e2 = "if ?L mod 13 \<noteq> 0 then lfn_set_char (?L mod 13) 0 ?e else ?e"
  have last: "lfn_entry_ok name ?L (n - 1) (es1 ! 0)"
    using e1(2) [unfolded lfn_filled_def, THEN conjunct2, rule_format, of "n - 1"] by simp
  have l: "length ?e = 32" using last by (simp add: lfn_entry_ok_def)
  have eq: "13 * (n - 1) + j = ?L \<longleftrightarrow> ?L mod 13 \<noteq> 0 \<and> j = ?L mod 13" if "j < 13" for j
  proof
    assume a: "13 * (n - 1) + j = ?L"
    then have "?L mod 13 = j" using that by (simp flip: a)
    then show "?L mod 13 \<noteq> 0 \<and> j = ?L mod 13" using a assms(3) by auto
  next
    assume a: "?L mod 13 \<noteq> 0 \<and> j = ?L mod 13"
    then have "?L div 13 = n - 1" by (intro incomplete_chunk [OF assms(2-4)]) simp
    then show "13 * (n - 1) + j = ?L" using a mult_div_mod_eq [of 13 ?L] by simp
  qed
  have r: "?L mod 13 \<noteq> 0 \<longrightarrow> \<not> 13 * (n - 1) + ?L mod 13 < ?L" using eq [of "?L mod 13"] by auto
  have e2: "lfn_entry_of name n (n - 1) ?e2"
    using last l assms(2) eq r by (auto simp: lfn_entry_of_def lfn_entry_ok_def lfn_set_char_laws lfn_char_update)
  let ?es = "es1[0 := ?e2]"
  have "lfn_entry_of name n k (?es ! (n - 1 - k))" if "k < n" for k
  proof (cases "k = n - 1")
    case True
    have "0 < length es1" unfolding e1(3) e0(3) using assms(2,5) by linarith
    then have "?es ! 0 = ?e2" by (rule nth_list_update_eq)
    then show ?thesis using e2 True by (simp only: diff_self_eq_0)
  next
    case False
    then have "13 * Suc k \<le> 13 * (n - 1)" using that by (simp only: mult_le_mono2)
    then have "13 * k + 13 \<le> 13 * (n - 1)" by (simp only: mult_Suc_right add.commute)
    then have "13 * k + j < ?L" if "j < 13" for j using assms(3) that by linarith
    then show ?thesis using False that e1(2) by (auto simp: lfn_filled_def lfn_entry_of_def lfn_entry_ok_def)
  qed
  moreover have "populate_long_name name es = Some (True, of_nat n, ?es)"
    unfolding populate_long_name_def Let_def num using e0(1) e1(1) by simp
  moreover have "\<forall>e \<in> set ?es. length e = 32"
    using e1(2) e2 by (auto simp: lfn_filled_def lfn_entry_of_def dest!: set_update_subset_insert [THEN subsetD])
  ultimately show thesis using that [of ?es] e0(3,4) e1(3,4) assms(2) by auto
qed

lemma part_of_lfn_text:
  assumes "\<forall>c \<in> set s. ascii c \<and> is_valid_filename_char (char_u16 c) True"
    and "\<forall>j < 13. lfn_char e j = (if j < length s then char_u16 (s ! j) else if j = length s then 0 else 0xFFFF)"
  shows "part_of_lfn e = take 13 s"
proof -
  let ?P = "\<lambda>c :: u16. is_valid_filename_char c True \<and> c < 256" and ?m = "min 13 (length s)"
  have u: "[0 ..< 13] = [0 ..< ?m] @ [?m ..< 13]" using upt_add_eq_append [of 0 ?m "13 - ?m"] by simp
  have a: "filter ?P (map (lfn_char e) [0 ..< ?m]) = map (\<lambda>j. char_u16 (s ! j)) [0 ..< ?m]"
    using assms by (subst filter_True) (auto simp: char_of_u16(2))
  have z: "\<not> is_valid_filename_char 0 True" by (simp add: is_valid_filename_char_def char_u16_def char_byte_def)
  have b: "filter ?P (map (lfn_char e) [?m ..< 13]) = []" using assms(2) z by (auto simp: filter_empty_conv)
  have "part_of_lfn e = map (\<lambda>c. byte_char (ucast c)) (map (\<lambda>j. char_u16 (s ! j)) [0 ..< ?m])"
    unfolding part_of_lfn_def u map_append filter_append a b by simp
  also have "\<dots> = take 13 s" using assms(1) by (intro nth_equalityI) (auto simp: char_of_u16(1))
  finally show ?thesis .
qed

lemma part_of_lfn_entry:
  assumes "lfn_entry_of name n k e" "\<forall>c \<in> set name. ascii c \<and> is_valid_filename_char (char_u16 c) True" "13 * k \<le> length name"
  shows "part_of_lfn e = take 13 (drop (13 * k) name)"
proof (rule part_of_lfn_text)
  show "\<forall>c \<in> set (drop (13 * k) name). ascii c \<and> is_valid_filename_char (char_u16 c) True" using assms(2) by (auto dest: in_set_dropD)
  show "\<forall>j < 13. lfn_char e j = (if j < length (drop (13 * k) name) then char_u16 (drop (13 * k) name ! j)
      else if j = length (drop (13 * k) name) then 0 else 0xFFFF)"
    using assms(1,3) by (auto simp: lfn_entry_of_def)
qed

lemma parts_concat:
  assumes "\<forall>k < n. part_of_lfn (es ! (n - 1 - k)) = take 13 (drop (13 * k) name)" "n \<le> length es" "length name \<le> 13 * n"
  shows "concat (map part_of_lfn (rev (take n es))) = name"
proof -
  have "concat (map (\<lambda>k. take 13 (drop (13 * k) name)) [0 ..< m]) = take (13 * m) name" for m
  proof (induction m)
    case (Suc m)
    then show ?case using take_add [of "13 * m" 13 name] by (simp add: add.commute)
  qed simp
  moreover have "map part_of_lfn (rev (take n es)) = map (\<lambda>k. take 13 (drop (13 * k) name)) [0 ..< n]"
    using assms(1,2) by (auto intro!: nth_equalityI simp: rev_nth)
  ultimately show ?thesis using assms(3) by simp
qed

text \<open>Names for which the code makes long name entries that can be read back.\<close>

definition long_name_ok :: "string \<Rightarrow> bool" where
  "long_name_ok name \<longleftrightarrow> name \<noteq> [] \<and> length name \<le> 260 \<and> (\<forall>c \<in> set name. ascii c \<and> is_valid_filename_char (char_u16 c) True)"

definition lfn_count :: "string \<Rightarrow> nat" where
  "lfn_count name = (length name + 12) div 13"

lemma lfn_count_bounds:
  assumes "long_name_ok name"
  shows "0 < lfn_count name" "13 * (lfn_count name - 1) < length name" "length name \<le> 13 * lfn_count name" "lfn_count name \<le> 20"
proof -
  have l: "0 < length name" "length name \<le> 260" using assms by (auto simp: long_name_ok_def)
  have d: "13 * lfn_count name + (length name + 12) mod 13 = length name + 12" unfolding lfn_count_def by (rule mult_div_mod_eq)
  have "(length name + 12) mod 13 < 13" by simp
  then show "length name \<le> 13 * lfn_count name" "0 < lfn_count name" using d l by linarith+
  show "13 * (lfn_count name - 1) < length name" unfolding diff_mult_distrib2 using d l by linarith
  show "lfn_count name \<le> 20" using d l by linarith
qed

lemma long_name_roundtrip_spec:
  assumes "long_name_ok name" "length es = 21" "\<forall>e \<in> set es. length e = 32"
  obtains es2 where "populate_long_name name es = Some (True, of_nat (lfn_count name), es2)" "length es2 = 21" "\<forall>e \<in> set es2. length e = 32"
    "\<forall>i \<ge> lfn_count name. es2 ! i = es ! i" "\<forall>k < lfn_count name. lfn_entry_of name (lfn_count name) k (es2 ! (lfn_count name - 1 - k))"
    "concat (map part_of_lfn (rev (take (lfn_count name) es2))) = name"
proof -
  let ?n = "lfn_count name"
  note b = lfn_count_bounds [OF assms(1)]
  have v: "\<forall>c \<in> set name. ascii c \<and> is_valid_filename_char (char_u16 c) True" using assms(1) by (simp add: long_name_ok_def)
  obtain es2 where e: "populate_long_name name es = Some (True, of_nat ?n, es2)" "length es2 = length es" "\<forall>e \<in> set es2. length e = 32"
    "\<forall>i \<ge> ?n. es2 ! i = es ! i" "\<forall>k < ?n. lfn_entry_of name ?n k (es2 ! (?n - 1 - k))"
    by (rule populate_long_name_spec [OF _ b(1-3) _ _ assms(3)]) (use v b assms(2) in auto)
  have "part_of_lfn (es2 ! (?n - 1 - k)) = take 13 (drop (13 * k) name)" if "k < ?n" for k
  proof -
    have "13 * k \<le> 13 * (?n - 1)" using that by simp
    then show ?thesis using e(5) that b(2) by (intro part_of_lfn_entry [OF _ v]) auto
  qed
  then have "concat (map part_of_lfn (rev (take ?n es2))) = name" using b assms(2) e(2) by (intro parts_concat) auto
  then show thesis using that e assms(2) by simp
qed

subsection \<open>Properties\<close>

text \<open>
  Short names: a name that is stored as an 8.3 name is read back in upper case, without a period at its end.
\<close>

theorem short_name_roundtrip:
  assumes "populate_short_name filename = Some n"
  shows "short_name_from_fde (n @ rest) =
    (if filename \<noteq> [] \<and> last filename = CHR ''.'' then map up_char (butlast filename) else map up_char filename)"
  by (rule short_name_roundtrip_spec [OF assms])

theorem short_name_roundtrip_witness:
  "\<exists>n. populate_short_name ''read.me'' = Some n \<and> short_name_from_fde (n @ replicate 21 0) = ''READ.ME''"
proof -
  have "populate_short_name ''read.me'' = Some (map char_byte ''READ    ME '')" by code_simp
  then obtain n where n: "populate_short_name ''read.me'' = Some n" by blast
  have "map up_char ''read.me'' = ''READ.ME''" by code_simp
  then show ?thesis using short_name_roundtrip [OF n, of "replicate 21 0"] n by simp
qed

text \<open>
  C22. Long names: a name of at most 260 ASCII characters that are allowed in long names is stored in long name entries, as many as
  there are pieces of 13 characters, and the text that a folder collects from these entries when it is opened is the name.
\<close>

theorem long_name_roundtrip:
  assumes "long_name_ok name" and "length es = 21" and "\<forall>e \<in> set es. length e = 32"
  shows "\<exists>es2. populate_long_name name es = Some (True, of_nat (lfn_count name), es2) \<and>
     concat (map part_of_lfn (rev (take (lfn_count name) es2))) = name"
  by (rule long_name_roundtrip_spec [OF assms]) blast

theorem long_name_roundtrip_witness:
  "\<exists>es2. populate_long_name ''A letter to nobody.txt'' (replicate 21 (replicate 32 0)) = Some (True, 2, es2) \<and>
     concat (map part_of_lfn (rev (take 2 es2))) = ''A letter to nobody.txt''"
proof -
  have "long_name_ok ''A letter to nobody.txt''" "lfn_count ''A letter to nobody.txt'' = 2" by code_simp+
  then show ?thesis using long_name_roundtrip [of "''A letter to nobody.txt''" "replicate 21 (replicate 32 0)"] by simp
qed

text \<open>
  C35. The checksum of a short name: the loop of shifts and additions rotates the sum by one bit to the right and adds the next byte, for eleven bytes,
  which is how the FAT specification defines it.
\<close>

theorem short_name_checksum_equiv:
  assumes "11 \<le> length short_name"
  shows "generate_short_name_checksum short_name = foldl (\<lambda>sum b. word_rotr 1 sum + b) 0 (take 11 short_name)"
  using checksum_loop_foldl [OF assms] by (simp add: generate_short_name_checksum_def)

theorem short_name_checksum_equiv_witness:
  "generate_short_name_checksum (map char_byte ''README  TXT'') =
     foldl (\<lambda>sum b. word_rotr 1 sum + b) 0 (take 11 (map char_byte ''README  TXT''))"
  by (rule short_name_checksum_equiv) simp

end
