(* ===== verification/Fat_Folder.thy ===== *)
theory Fat_Folder
  imports Fat_Names
begin

text \<open>
  Folders on a FAT volume: \<open>fat_folder\<close> of \<open>kernel/system_tree/fs/fat/fat_folder.cpp\<close>. A folder is a file with a table of directory entries.
  When it is opened it builds maps from names to the positions of the entries in the table, and the operations work on the maps and on the table.

  A folder has the files that \<^const>\<open>write_fde\<close> needs: its own, the one of its parent and so on. The file objects that are open at the
  moment (\<open>child_object\<close>) are not part of the model: \<open>get_child\<close> always makes a new object.
\<close>

subsection \<open>Folders\<close>

record fat_object_details =
  long_fn :: string
  short_fn :: string
  obj_fde_index :: u32
  obj_fde :: fat_dir_entry

record fat_folder =
  folder_files :: "fat_file list"
  fde_to_child_map :: "(u32, fat_object_details) std_map"
  long_name_to_fde_map :: "(string, u32) std_map"
  short_name_to_fde_map :: "(string, u32) std_map"
  canonical_names :: "(string, unit) std_map"

text \<open>The error code and the entry. An entry of the table that cannot be read leaves the storage as the read of the file does.\<close>

definition read_one_dir_entry ::
  "'d block_ops \<Rightarrow> ('d, 'z) fat_fs_scheme \<Rightarrow> fat_file \<Rightarrow> u32 \<Rightarrow> fat_dir_entry \<Rightarrow> (ERR_CODE \<times> fat_dir_entry) option" where
  "read_one_dir_entry ops fs f entry_idx fde = do {
     (ec, bytes_read, buf) \<leftarrow> fat_read_bytes ops fs f (ucast entry_idx * 32) 32 (Some fde) 32;
     fde \<leftarrow> buf;
     Some (if bytes_read \<noteq> 32 \<and> ec = NO_ERROR then STORAGE_ERROR else ec, fde)
   }"

text \<open>\<open>operator[]\<close> of the map of children, which inserts an empty object when there is none.\<close>

definition child_at :: "u32 \<Rightarrow> fat_folder \<Rightarrow> fat_object_details \<times> fat_folder" where
  "child_at i fo =
     (case map_of (fde_to_child_map fo) i of
        Some obj \<Rightarrow> (obj, fo)
      | None \<Rightarrow>
          let obj = \<lparr>long_fn = [], short_fn = [], obj_fde_index = 0, obj_fde = replicate 32 0\<rparr>
          in (obj, fo\<lparr>fde_to_child_map := std_map_insert i obj (fde_to_child_map fo)\<rparr>))"

text \<open>The entry and its position, if the name is known (\<open>NOT_FOUND\<close> otherwise). Long names come first.\<close>

definition get_dir_entry :: "string \<Rightarrow> fat_folder \<Rightarrow> (fat_dir_entry \<times> u32) option \<times> fat_folder" where
  "get_dir_entry name fo =
     (case (case map_of (long_name_to_fde_map fo) name of Some i \<Rightarrow> Some i | None \<Rightarrow> map_of (short_name_to_fde_map fo) name) of
        None \<Rightarrow> (None, fo)
      | Some i \<Rightarrow> let (obj, fo) = child_at i fo in (Some (obj_fde obj, i), fo))"

subsection \<open>Opening a folder\<close>

text \<open>
  The variables of the loop of the constructor. \<open>scan_long_fn\<close> is the long name of the object \<open>obj\<close>, which is made once before the loop.
\<close>

record fat_scan = fat_folder +
  scan_long_name :: string
  cur_lfn_checksum :: u8
  last_was_lfn :: bool
  scan_long_fn :: string

definition scan_short_entry :: "u32 \<Rightarrow> fat_dir_entry \<Rightarrow> string \<Rightarrow> fat_scan \<Rightarrow> fat_scan" where
  "scan_short_entry i fde short_name s =
     (let s = s\<lparr>short_name_to_fde_map := std_map_insert short_name i (short_name_to_fde_map s)\<rparr>;
          long_name = scan_long_name s;
          valid = (long_name \<noteq> [] \<and> cur_lfn_checksum s = generate_short_name_checksum fde);
          s = (if valid
               then s\<lparr>long_name_to_fde_map := std_map_insert long_name i (long_name_to_fde_map s), scan_long_fn := long_name,
                 canonical_names := std_map_insert long_name () (canonical_names s)\<rparr>
               else s\<lparr>canonical_names := std_map_insert short_name () (canonical_names s)\<rparr>)
      in s\<lparr>fde_to_child_map := std_map_insert i \<lparr>long_fn = scan_long_fn s, short_fn = short_name, obj_fde_index = i, obj_fde = fde\<rparr>
        (fde_to_child_map s)\<rparr>)"

definition scan_entry :: "u32 \<Rightarrow> fat_dir_entry \<Rightarrow> fat_scan \<Rightarrow> fat_scan" where
  "scan_entry i fde s =
     (if fde ! 0 = 0xE5 then s\<lparr>scan_long_name := [], last_was_lfn := False\<rparr>
      else if is_long_fn_entry fde then
        (if last_was_lfn s \<and> cur_lfn_checksum s \<noteq> lfn_checksum fde then s\<lparr>last_was_lfn := False\<rparr>
         else s\<lparr>last_was_lfn := True, cur_lfn_checksum := lfn_checksum fde, scan_long_name := part_of_lfn fde @ scan_long_name s\<rparr>)
      else
        let short_name = short_name_from_fde fde;
            s = (if short_name \<noteq> ''.'' \<and> short_name \<noteq> ''..'' then scan_short_entry i fde short_name s else s)
        in s\<lparr>scan_long_name := [], last_was_lfn := False\<rparr>)"

text \<open>
  The loop ends at an entry that begins with zero or at a failed read. Behind the end of the file every read fails, so there are not more rounds
  than entries, and one.
\<close>

fun scan_loop :: "nat \<Rightarrow> 'd block_ops \<Rightarrow> ('d, 'z) fat_fs_scheme \<Rightarrow> u32 \<Rightarrow> fat_dir_entry \<Rightarrow> fat_scan \<Rightarrow> fat_scan option" where
  "scan_loop 0 ops fs fde_loop_index fde s = None"
| "scan_loop (Suc n) ops fs fde_loop_index fde s = do {
     (ec, fde) \<leftarrow> read_one_dir_entry ops fs (hd (folder_files s)) fde_loop_index fde;
     if ec \<noteq> NO_ERROR \<or> fde ! 0 = 0 then Some s
     else scan_loop n ops fs (fde_loop_index + 1) fde (scan_entry fde_loop_index fde s)
   }"

definition scan_start :: "fat_file list \<Rightarrow> fat_scan" where
  "scan_start files = \<lparr>folder_files = files, fde_to_child_map = [], long_name_to_fde_map = [], short_name_to_fde_map = [], canonical_names = [],
     scan_long_name = [], cur_lfn_checksum = 0, last_was_lfn = False, scan_long_fn = []\<rparr>"

definition fat_folder_new ::
  "'d block_ops \<Rightarrow> ('d, 'z) fat_fs_scheme \<Rightarrow> fat_dir_entry \<Rightarrow> u32 \<Rightarrow> fat_file list \<Rightarrow> bool \<Rightarrow> fat_folder option" where
  "fat_folder_new ops fs file_data_record fde_index parents root_directory = do {
     f \<leftarrow> fat_file_new fs file_data_record fde_index root_directory;
     s \<leftarrow> scan_loop (unat (fat_file_size f) div 32 + 2) ops fs 0 (replicate 32 0) (scan_start (f # parents));
     Some (fat_folder.truncate s)
   }"

subsection \<open>Children\<close>

datatype fat_child = File_Child fat_file | Folder_Child fat_folder

text \<open>
  The result, the child, and the folder. The name of a grandchild is looked up in the folder that is the child.
\<close>

function fat_get_child ::
  "'d block_ops \<Rightarrow> ('d, 'z) fat_fs_scheme \<Rightarrow> string \<Rightarrow> fat_folder \<Rightarrow> (ERR_CODE \<times> fat_child option \<times> fat_folder) option" where
  "fat_get_child ops fs name fo =
     (let our_name_part = fst (split_name name False); child_name_part = snd (split_name name False);
          r = get_dir_entry our_name_part fo
      in case fst r of
          None \<Rightarrow> Some (NOT_FOUND, None, snd r)
        | Some (fde, found_fde_index) \<Rightarrow>
            if fde_directory fde then
              (case fat_folder_new ops fs fde found_fde_index (folder_files fo) False of
                 None \<Rightarrow> None
               | Some folder_obj \<Rightarrow>
                   if child_name_part \<noteq> [] then
                     (case fat_get_child ops fs child_name_part folder_obj of
                        None \<Rightarrow> None
                      | Some (ec, child, _) \<Rightarrow> Some (ec, child, snd r))
                   else Some (NO_ERROR, Some (Folder_Child folder_obj), snd r))
            else
              (case fat_file_new fs fde found_fde_index False of
                 None \<Rightarrow> None
               | Some file_obj \<Rightarrow>
                   if child_name_part = [] then Some (NO_ERROR, Some (File_Child file_obj), snd r) else Some (NOT_FOUND, None, snd r)))"
  by pat_completeness auto
termination
  by (relation "measure (\<lambda>(_, _, name, _). length name)") (auto intro: split_name_shorter)

declare fat_get_child.simps [simp del]

definition fat_add_child :: "string \<Rightarrow> fat_child \<Rightarrow> ERR_CODE" where
  "fat_add_child name child = INVALID_OP"

definition fat_num_children :: "fat_folder \<Rightarrow> ERR_CODE \<times> u64" where
  "fat_num_children fo = (NO_ERROR, of_nat (length (fde_to_child_map fo)))"

fun fat_enum_loop :: "u64 \<Rightarrow> u64 \<Rightarrow> (string, unit) std_map \<Rightarrow> string list" where
  "fat_enum_loop max_count cur_count [] = []"
| "fat_enum_loop max_count cur_count ((name, u) # it) =
     (if max_count = 0 \<or> max_count > cur_count then name # fat_enum_loop max_count (cur_count + 1) it else [])"

definition fat_enum_children :: "string \<Rightarrow> u64 \<Rightarrow> fat_folder \<Rightarrow> ERR_CODE \<times> string list" where
  "fat_enum_children start_from max_count fo =
     (NO_ERROR, fat_enum_loop max_count 0 (if start_from \<noteq> [] then std_map_from start_from (canonical_names fo) else canonical_names fo))"

subsection \<open>Names of new entries\<close>

function numeric_tail_loop :: "nat \<Rightarrow> nat \<Rightarrow> fat_dir_entry \<Rightarrow> fat_folder \<Rightarrow> (bool \<times> fat_dir_entry \<times> fat_folder) option" where
  "numeric_tail_loop numeric_tail number_main_part_chars created_entry fo =
     (if numeric_tail < 1000000 then
        (case add_numeric_tail created_entry number_main_part_chars numeric_tail of
           None \<Rightarrow> None
         | Some created_entry \<Rightarrow>
             let r = get_dir_entry (short_name_from_fde created_entry) fo
             in case fst r of
                 None \<Rightarrow> Some (True, created_entry, snd r)
               | Some _ \<Rightarrow> numeric_tail_loop (numeric_tail + 1) number_main_part_chars created_entry (snd r))
      else Some (False, created_entry, fo))"
  by pat_completeness auto
termination
  by (relation "measure (\<lambda>(n, _). 1000000 - n)") auto

declare numeric_tail_loop.simps [simp del]

definition generate_basis_name_entry :: "string \<Rightarrow> fat_dir_entry \<Rightarrow> fat_folder \<Rightarrow> (bool \<times> fat_dir_entry \<times> fat_folder) option" where
  "generate_basis_name_entry filename created_entry fo =
     (let (created_entry, number_main_part_chars, lossy_conversion) = basis_name filename created_entry;
          (found, fo) = get_dir_entry (short_name_from_fde created_entry) fo
      in if lossy_conversion \<or> found \<noteq> None
         then numeric_tail_loop 1 number_main_part_chars created_entry fo
         else Some (True, created_entry, fo))"

definition fde_set_archive :: "fat_dir_entry \<Rightarrow> fat_dir_entry" where
  "fde_set_archive d = d[11 := d ! 11 OR 0x20]"

text \<open>
  The entries for a name: the result, the array, the number of entries used, the long and the short name. The short name that the code
  reports for a long name is the one of the entry behind the last one used, which has been set to zero.
\<close>

definition populate_fdes_from_name ::
  "string \<Rightarrow> fat_dir_entry list \<Rightarrow> bool \<Rightarrow> fat_folder \<Rightarrow> (bool \<times> fat_dir_entry list \<times> nat \<times> string \<times> string \<times> fat_folder) option" where
  "populate_fdes_from_name name_in fdes create_basis_name fo =
     (case populate_short_name name_in of
        Some short_name \<Rightarrow>
          let fdes = fdes[0 := fde_set_archive (put (fdes ! 0) 0 short_name)]
          in Some (True, fdes, 1, [], short_name_from_fde (fdes ! 0), fo)
      | None \<Rightarrow> do {
          (populated, num_fdes_used, fdes) \<leftarrow> populate_long_name name_in fdes;
          if \<not> populated then Some (False, fdes, unat num_fdes_used, [], [], fo)
          else do {
            let n = unat num_fdes_used;
            ASSERT (n + 1 < length fdes);
            let fdes = fdes[n + 1 := replicate 32 0];
            (result, n, fdes, fo) \<leftarrow>
              (if create_basis_name then do {
                 (ok, e, fo) \<leftarrow> generate_basis_name_entry name_in (fdes ! n) fo;
                 let fdes = fdes[n := e];
                 Some (if ok
                   then (True, n + 1, map (lfn_set_checksum (generate_short_name_checksum (fdes ! n))) (take n fdes) @ drop n fdes, fo)
                   else (False, n, fdes, fo))
               } else Some (True, n, fdes, fo));
            Some (result, fdes, n, name_in, short_name_from_fde (fdes ! n), fo)
          }
        })"

subsection \<open>Changing the table\<close>

text \<open>
  The search for \<open>num_entries\<close> consecutive free entries, for at most \<open>UINT16_MAX\<close> rounds: the error code, the first entry, and whether the end
  of the directory has been found.
\<close>

fun find_space ::
  "nat \<Rightarrow> 'd block_ops \<Rightarrow> ('d, 'z) fat_fs_scheme \<Rightarrow> fat_file \<Rightarrow> nat \<Rightarrow> u32 \<Rightarrow> u32 \<Rightarrow> nat \<Rightarrow> bool \<Rightarrow> fat_dir_entry \<Rightarrow>
     (ERR_CODE \<times> u32 \<times> bool) option" where
  "find_space 0 ops fs f num_entries i found_first_idx found_spaces mid_match_group cur_entry = Some (NO_ERROR, found_first_idx, False)"
| "find_space (Suc n) ops fs f num_entries i found_first_idx found_spaces mid_match_group cur_entry = do {
     (ret_code, cur_entry) \<leftarrow> read_one_dir_entry ops fs f i cur_entry;
     if ret_code \<noteq> NO_ERROR then Some (ret_code, found_first_idx, False)
     else if cur_entry ! 0 = 0 then Some (NO_ERROR, if mid_match_group then found_first_idx else i, True)
     else
       let in_use = (cur_entry ! 0 \<noteq> 0xE5);
           found_spaces = (if in_use then 0 else if mid_match_group then found_spaces + 1 else 1);
           found_first_idx = (if in_use \<or> mid_match_group then found_first_idx else i)
       in if found_spaces = num_entries then Some (NO_ERROR, found_first_idx, False)
          else find_space n ops fs f num_entries (i + 1) found_first_idx found_spaces (\<not> in_use) cur_entry
   }"

fun write_fdes ::
  "'d block_ops \<Rightarrow> u32 \<Rightarrow> fat_dir_entry list \<Rightarrow> fat_file list \<Rightarrow> ('d, 'z) fat_fs_scheme \<Rightarrow> (ERR_CODE \<times> fat_file list \<times> ('d, 'z) fat_fs_scheme) option" where
  "write_fdes ops i [] files fs = Some (NO_ERROR, files, fs)"
| "write_fdes ops i (e # es) files fs = do {
     (ret_code, files, fs) \<leftarrow> write_fde ops i e files fs;
     if ret_code \<noteq> NO_ERROR then Some (ret_code, files, fs) else write_fdes ops (i + 1) es files fs
   }"

text \<open>The entries to add are the first \<open>num_entries\<close> of the array. The result of writing the end marker replaces the one of writing the entries.\<close>

definition add_directory_entries ::
  "'d block_ops \<Rightarrow> fat_dir_entry list \<Rightarrow> fat_file list \<Rightarrow> ('d, 'z) fat_fs_scheme \<Rightarrow>
     (ERR_CODE \<times> u32 option \<times> fat_file list \<times> ('d, 'z) fat_fs_scheme) option" where
  "add_directory_entries ops new_fdes files fs = do {
     let num_entries = length new_fdes;
     (ret_code, found_first_idx, move_eod_marker) \<leftarrow> find_space 65535 ops fs (hd files) num_entries 0 0 0 False (replicate 32 0);
     if ret_code \<noteq> NO_ERROR then Some (ret_code, None, files, fs)
     else do {
       (ret_code, files, fs) \<leftarrow> write_fdes ops found_first_idx new_fdes files fs;
       let new_idx = found_first_idx + of_nat num_entries - 1;
       (ret_code, files, fs) \<leftarrow>
         (if move_eod_marker then write_fde ops (found_first_idx + of_nat num_entries) (replicate 32 0) files fs
          else Some (ret_code, files, fs));
       Some (ret_code, Some new_idx, files, fs)
     }
   }"

text \<open>
  The loop over the long name entries before position \<open>i\<close>. The results of the writes are ignored; after a failed read the loop continues with the entry before.
\<close>

fun unlink_loop ::
  "'d block_ops \<Rightarrow> nat \<Rightarrow> ERR_CODE \<Rightarrow> fat_dir_entry \<Rightarrow> fat_file list \<Rightarrow> ('d, 'z) fat_fs_scheme \<Rightarrow> (ERR_CODE \<times> fat_file list \<times> ('d, 'z) fat_fs_scheme) option" where
  "unlink_loop ops 0 result fde files fs = Some (result, files, fs)"
| "unlink_loop ops (Suc i) result fde files fs = do {
     (result, fde) \<leftarrow> read_one_dir_entry ops fs (hd files) (of_nat i) fde;
     if result = NO_ERROR \<and> fde ! 11 = 0x0F then do {
       let fde = fde[0 := 0xE5];
       (_, files, fs) \<leftarrow> write_fde ops (of_nat i) fde files fs;
       unlink_loop ops i result fde files fs
     }
     else if result = NO_ERROR then Some (result, files, fs)
     else unlink_loop ops i result fde files fs
   }"

text \<open>The argument \<open>fde\<close> stands for what the variable holds before it is set, which is looked at when the first read fails.\<close>

definition unlink_fdes ::
  "'d block_ops \<Rightarrow> u32 \<Rightarrow> fat_dir_entry \<Rightarrow> fat_file list \<Rightarrow> ('d, 'z) fat_fs_scheme \<Rightarrow> (ERR_CODE \<times> fat_file list \<times> ('d, 'z) fat_fs_scheme) option" where
  "unlink_fdes ops short_name_fde_idx fde files fs = do {
     (result, fde) \<leftarrow> read_one_dir_entry ops fs (hd files) short_name_fde_idx fde;
     if result = NO_ERROR \<and> fde ! 11 \<noteq> 0x0F then do {
       let fde = fde[0 := 0xE5];
       (result, files, fs) \<leftarrow> write_fde ops short_name_fde_idx fde files fs;
       if result = NO_ERROR then unlink_loop ops (unat short_name_fde_idx) result fde files fs else Some (result, files, fs)
     }
     else if fde ! 11 \<noteq> 0x0F then Some (INVALID_OP, files, fs)
     else Some (result, files, fs)
   }"

subsection \<open>Creating, deleting and renaming\<close>

text \<open>The names of a child leave the maps, and the names of a new one are added.\<close>

definition forget_child :: "u32 \<Rightarrow> fat_folder \<Rightarrow> fat_folder" where
  "forget_child i fo =
     (case map_of (fde_to_child_map fo) i of
        None \<Rightarrow> fo
      | Some obj \<Rightarrow>
          let fo = (if map_contains (long_name_to_fde_map fo) (long_fn obj)
                    then fo\<lparr>long_name_to_fde_map := std_map_erase (long_fn obj) (long_name_to_fde_map fo),
                      canonical_names := std_map_erase (long_fn obj) (canonical_names fo)\<rparr>
                    else fo\<lparr>canonical_names := std_map_erase (short_fn obj) (canonical_names fo)\<rparr>)
          in fo\<lparr>short_name_to_fde_map := std_map_erase (short_fn obj) (short_name_to_fde_map fo),
               fde_to_child_map := std_map_erase i (fde_to_child_map fo)\<rparr>)"

definition record_child :: "u32 \<Rightarrow> fat_dir_entry \<Rightarrow> string \<Rightarrow> string \<Rightarrow> fat_folder \<Rightarrow> fat_folder" where
  "record_child i fde new_long_name new_short_name fo =
     (let fo = fo\<lparr>fde_to_child_map :=
            std_map_insert i \<lparr>long_fn = new_long_name, short_fn = new_short_name, obj_fde_index = i, obj_fde = fde\<rparr> (fde_to_child_map fo),
          short_name_to_fde_map := std_map_insert new_short_name i (short_name_to_fde_map fo)\<rparr>
      in if new_long_name \<noteq> []
         then fo\<lparr>long_name_to_fde_map := std_map_insert new_long_name i (long_name_to_fde_map fo),
           canonical_names := std_map_insert new_long_name () (canonical_names fo)\<rparr>
         else fo\<lparr>canonical_names := std_map_insert new_short_name () (canonical_names fo)\<rparr>)"

definition fat_delete_child ::
  "'d block_ops \<Rightarrow> string \<Rightarrow> fat_dir_entry \<Rightarrow> fat_folder \<Rightarrow> ('d, 'z) fat_fs_scheme \<Rightarrow> (ERR_CODE \<times> fat_folder \<times> ('d, 'z) fat_fs_scheme) option" where
  "fat_delete_child ops name storage fo fs =
     (case get_dir_entry name fo of
        (None, fo) \<Rightarrow> Some (NOT_FOUND, fo, fs)
      | (Some (e, location), fo) \<Rightarrow> do {
          let fo = forget_child location fo;
          (result, files, fs) \<leftarrow> unlink_fdes ops location storage (folder_files fo) fs;
          Some (result, fo\<lparr>folder_files := files\<rparr>, fs)
        })"

definition fat_create_child ::
  "'d block_ops \<Rightarrow> string \<Rightarrow> fat_folder \<Rightarrow> ('d, 'z) fat_fs_scheme \<Rightarrow> (ERR_CODE \<times> fat_child option \<times> fat_folder \<times> ('d, 'z) fat_fs_scheme) option" where
  "fat_create_child ops name fo fs =
     (case get_dir_entry name fo of
        (Some _, fo) \<Rightarrow> Some (ALREADY_EXISTS, None, fo, fs)
      | (None, fo) \<Rightarrow> do {
          (ok, file_entries, n, new_long_name, new_short_name, fo) \<leftarrow> populate_fdes_from_name name (replicate 21 (replicate 32 0)) True fo;
          if \<not> ok then Some (INVALID_PARAM, None, fo, fs)
          else do {
            let file_entries = file_entries[n - 1 := fde_set_archive (file_entries ! (n - 1))];
            (result, new_idx, files, fs) \<leftarrow> add_directory_entries ops (take n file_entries) (folder_files fo) fs;
            let fo = fo\<lparr>folder_files := files\<rparr>;
            if result \<noteq> NO_ERROR then Some (result, None, fo, fs)
            else do {
              new_idx \<leftarrow> new_idx;
              let fo = record_child new_idx (file_entries ! (n - 1)) new_long_name new_short_name fo;
              (result, child, fo) \<leftarrow> fat_get_child ops fs name fo;
              Some (result, child, fo, fs)
            }
          }
        })"

text \<open>
  The arguments \<open>storage\<close> and \<open>entries\<close> stand for what the local variables hold before they are set. The new entry gets everything but the name from the old one.
\<close>

definition fat_rename_child ::
  "'d block_ops \<Rightarrow> string \<Rightarrow> string \<Rightarrow> fat_dir_entry \<Rightarrow> fat_dir_entry list \<Rightarrow> fat_folder \<Rightarrow> ('d, 'z) fat_fs_scheme \<Rightarrow>
     (ERR_CODE \<times> fat_folder \<times> ('d, 'z) fat_fs_scheme) option" where
  "fat_rename_child ops old_name new_name storage entries fo fs =
     (case get_dir_entry new_name fo of
        (Some _, fo) \<Rightarrow> Some (ALREADY_EXISTS, fo, fs)
      | (None, fo) \<Rightarrow>
          (case get_dir_entry old_name fo of
             (None, fo) \<Rightarrow> Some (NOT_FOUND, fo, fs)
           | (Some (fde, old_fde_index), fo) \<Rightarrow> do {
               (ok, file_entries, n, new_long_name, new_short_name, fo) \<leftarrow> populate_fdes_from_name new_name entries True fo;
               if \<not> ok then Some (INVALID_NAME, fo, fs)
               else do {
                 let file_entries = file_entries[n - 1 := take 11 (file_entries ! (n - 1)) @ drop 11 fde];
                 (result, new_idx, files, fs) \<leftarrow> add_directory_entries ops (take n file_entries) (folder_files fo) fs;
                 let fo = fo\<lparr>folder_files := files\<rparr>;
                 if result \<noteq> NO_ERROR then Some (result, fo, fs)
                 else do {
                   new_idx \<leftarrow> new_idx;
                   ASSERT (map_contains (fde_to_child_map fo) old_fde_index);
                   let fo = record_child new_idx (file_entries ! (n - 1)) new_long_name new_short_name (forget_child old_fde_index fo);
                   (result, files, fs) \<leftarrow> unlink_fdes ops old_fde_index storage files fs;
                   Some (result, fo\<lparr>folder_files := files\<rparr>, fs)
                 }
               }
             }))"

subsection \<open>The table of a folder\<close>

text \<open>The file \<open>f\<close> of a folder with the clusters \<open>cs\<close> holds the table \<open>E\<close> of directory entries.\<close>

definition dir_on ::
  "'d block_ops \<Rightarrow> ('d \<Rightarrow> bool) \<Rightarrow> ('d \<Rightarrow> u8 list) \<Rightarrow> ('d, 'z) fat_fs_scheme \<Rightarrow> fat_file \<Rightarrow> u64 list \<Rightarrow> fat_dir_entry list \<Rightarrow> bool" where
  "dir_on ops running bytes fs f cs E \<longleftrightarrow> file_on ops running fs f cs \<and> chain_bytes bytes fs cs = concat E \<and> (\<forall>e \<in> set E. length e = 32) \<and>
     fat_file_size f = of_nat (32 * length E) \<and> 32 dvd unat (bps fs) \<and> 0 < length E \<and> length E < 65535"

lemma dir_entry_length: "dir_on ops running bytes fs f cs E \<Longrightarrow> i < length E \<Longrightarrow> length (E ! i) = 32"
  by (simp add: dir_on_def)

lemma dir_size: "dir_on ops running bytes fs f cs E \<Longrightarrow> unat (fat_file_size f) = 32 * length E"
proof -
  assume d: "dir_on ops running bytes fs f cs E"
  then have "unat (of_nat (32 * length E) :: u64) = 32 * length E" by (simp add: dir_on_def unat_of_nat del: of_nat_mult)
  then show ?thesis using d unfolding dir_on_def by (simp only:)
qed

lemma length_entries: "\<forall>e \<in> set E. length e = 32 \<Longrightarrow> length (concat E) = 32 * length E"
  by (induction E) auto

lemma entry_slice:
  assumes "\<forall>e \<in> set E. length e = 32" "i < length E"
  shows "take 32 (drop (32 * i) (concat E)) = E ! i"
  using assms concat_chunks [of E "\<lambda>e. e" 32 1 i] by (simp add: mult.commute Cons_nth_drop_Suc [symmetric])

lemma entry_overwrite:
  assumes "\<forall>e \<in> set E. length e = 32" "i < length E" "length d = 32"
  shows "overwrite (32 * i) d (concat E) = concat (E[i := d])"
proof -
  have "take (32 * i) (concat E) = concat (take i E)" using assms(1) concat_take [of E "\<lambda>e. e" 32 i] by (simp add: mult.commute)
  moreover have "drop (32 * Suc i) (concat E) = concat (drop (Suc i) E)"
    using assms(1) concat_drop [of E "\<lambda>e. e" 32 "Suc i"] by (simp add: mult.commute)
  ultimately show ?thesis using assms(2,3) by (simp add: overwrite_def upd_conv_take_nth_drop add.commute)
qed

lemma entry_offset: "i < 65536 \<Longrightarrow> unat (ucast (of_nat i :: u32) * 32 :: u64) = 32 * i"
  by (simp add: unat_word_ariths unat_of_nat)

lemma entry_in_sector:
  assumes "32 dvd b" "0 < (b :: nat)"
  shows "32 \<le> b - 32 * i mod b"
proof -
  obtain m where m: "b = 32 * m" using assms(1) by (auto simp: dvd_def)
  then have "32 * i mod b = 32 * (i mod m)" by (simp only: mult_mod_right)
  moreover have "Suc (i mod m) \<le> m" using m assms(2) by (simp add: Suc_leI)
  then have "32 * Suc (i mod m) \<le> b" unfolding m by (rule mult_le_mono2)
  ultimately show ?thesis by simp
qed

lemma cluster_walk_end:
  "fat_wf fs \<Longrightarrow> fat_chain fs c cs \<Longrightarrow> cs \<noteq> [] \<Longrightarrow> length cs \<le> n \<Longrightarrow> \<exists>d. cluster_walk n c fs = Some (False, d)"
proof (induction n arbitrary: c cs)
  case (Suc n)
  then obtain d ds where cs: "cs = d # ds" "length ds \<le> n" by (cases cs) auto
  then show ?case using Suc.IH [of "fat_map fs d" ds] Suc.prems by (cases ds) (auto simp: read_fat_entry_map)
qed simp

context block_device
begin

lemma dir_read:
  assumes "dir_on ops running bytes fs f cs E" "i < length E" "length buf = 32"
  shows "read_one_dir_entry ops fs f (of_nat i) buf = Some (NO_ERROR, E ! i)"
proof -
  have d: "file_on ops running fs f cs" "chain_bytes bytes fs cs = concat E" "\<forall>e \<in> set E. length e = 32" "32 dvd unat (bps fs)" "length E < 65535"
    using assms(1) by (auto simp: dir_on_def)
  have b: "0 < unat (bps fs)" using d(1) by (auto simp: file_on_def intro: bps_pos)
  have o: "unat (ucast (of_nat i :: u32) * 32 :: u64) = 32 * i" using assms(2) d(5) by (intro entry_offset) simp
  have e: "32 * i + 32 \<le> 32 * length E" using assms(2) by simp
  have "fat_read_bytes ops fs f (ucast (of_nat i :: u32) * 32) 32 (Some buf) 32 =
      Some (NO_ERROR, 32, Some (take (unat (32 :: u64)) (drop (unat (ucast (of_nat i :: u32) * 32 :: u64)) (chain_bytes bytes fs cs)) @ drop (unat (32 :: u64)) buf))"
    using entry_in_sector [OF d(4) b, of i] o e assms(3) dir_size [OF assms(1)] d(2,3) length_entries [of E]
    by (intro fat_read_spec [OF d(1) _ _ _ _ _ _ refl refl]) (simp_all add: min_absorb1)
  then show ?thesis using o assms(2,3) d(2,3) entry_slice [OF d(3) assms(2)] by (simp add: read_one_dir_entry_def)
qed

lemma dir_read_end:
  assumes "dir_on ops running bytes fs f cs E" "length buf = 32"
  shows "\<exists>buf'. read_one_dir_entry ops fs f (of_nat (length E)) buf = Some (STORAGE_ERROR, buf')"
proof -
  have d: "file_on ops running fs f cs" "chain_bytes bytes fs cs = concat E" "\<forall>e \<in> set E. length e = 32" "32 dvd unat (bps fs)" "length E < 65535" "0 < length E"
    using assms(1) by (auto simp: dir_on_def)
  have fs: "fat_wf fs" "\<not> is_small_fat_root_dir f" "fat_chain fs (fde_first_cluster (file_record f)) cs"
    using d(1) by (auto simp: file_on_def volume_on_def)
  have b: "0 < unat (bps fs)" using d(1) by (auto simp: file_on_def intro: bps_pos)
  let ?st = "ucast (of_nat (length E) :: u32) * 32 :: u64"
  have o: "unat ?st = 32 * length E" using d(5) by (intro entry_offset) simp
  then have st: "?st = fat_file_size f" using dir_size [OF assms(1)] by (simp add: word_unat_eq_iff)
  have len: "length (chain_sectors fs cs) * unat (bps fs) = 32 * length E" using length_chain_bytes [OF d(1)] d(2,3) length_entries [of E] by simp
  then have k: "unat (?st div bps fs) = length cs * unat (spc fs)" using o b by (simp add: unat_div length_chain_sectors flip: len)
  have n: "0 < unat (spc fs)" using fs(1) unat_spc(1) [of fs] by (simp add: fat_wf_def unat_gt_0)
  have "cs \<noteq> []" using len d(6) by (auto simp: chain_sectors_def)
  then obtain c where "cluster_walk (unat (?st div bps fs div spc fs)) (fde_first_cluster (file_record f)) fs = Some (False, c)"
    using cluster_walk_end [OF fs(1,3), of "length cs"] k n by (auto simp: unat_div)
  then have "\<exists>s. get_disk_sector_from_offset fs f (?st div bps fs) = Some (False, s)" using fs(2) by (simp add: get_disk_sector_from_offset_def)
  then show ?thesis using st by (auto simp: read_one_dir_entry_def fat_read_bytes_def Let_def)
qed

lemma dir_write:
  assumes "dir_on ops running bytes fs f cs E" "i < length E" "length d = 32" "\<forall>s\<in>set (chain_sectors fs cs). writable (fs_storage fs) s"
  obtains v where "write_fde ops (of_nat i) d (f # parents) fs = Some (NO_ERROR, f # parents, fs\<lparr>fs_storage := v\<rparr>)"
    "dir_on ops running bytes (fs\<lparr>fs_storage := v\<rparr>) f cs (E[i := d])" "sectors_kept bytes fs cs v"
    "\<forall>s\<in>set (chain_sectors fs cs). writable v s"
proof -
  have e: "file_on ops running fs f cs" "chain_bytes bytes fs cs = concat E" "\<forall>e \<in> set E. length e = 32" "32 dvd unat (bps fs)" "length E < 65535"
    using assms(1) by (auto simp: dir_on_def)
  let ?st = "ucast (of_nat i :: u32) * 32 :: u64"
  have o: "unat ?st = 32 * i" using assms(2) e(5) by (intro entry_offset) simp
  have o2: "unat (ucast (of_nat i + 1 :: u32) * 32 :: u64) = 32 * Suc i" using assms(2) e(5) entry_offset [of "Suc i"] by (simp add: add.commute)
  have fit: "32 * i + 32 \<le> 32 * length E" using assms(2) by simp
  obtain v where v: "fat_write_bytes ops ?st 32 (Some d) 32 (f # parents) fs = Some (NO_ERROR, 32, f # parents, fs\<lparr>fs_storage := v\<rparr>)"
    "file_on ops running (fs\<lparr>fs_storage := v\<rparr>) f cs"
    "chain_bytes bytes (fs\<lparr>fs_storage := v\<rparr>) cs = overwrite (unat ?st) (take (unat (32 :: u64)) d) (chain_bytes bytes fs cs)"
    "sectors_kept bytes fs cs v" "writable v = writable (fs_storage fs)"
    by (rule fat_write_spec [OF e(1) assms(4), of ?st 32 32 d parents])
       (use o fit assms(3) dir_size [OF assms(1)] e(2,3) length_entries [of E] in simp_all)
  have "unat (?st + 32) = 32 * i + 32" using o fit e(5) by (subst unat_add_no_wrap) simp_all
  then have "\<not> ?st + 32 > fat_file_size f" "\<not> ucast (of_nat i + 1 :: u32) * 32 > fat_file_size f"
    using o2 fit dir_size [OF assms(1)] by (simp_all add: word_less_nat_alt)
  then have "write_fde ops (of_nat i) d (f # parents) fs = Some (NO_ERROR, f # parents, fs\<lparr>fs_storage := v\<rparr>)"
    using v(1) by (simp add: fat_write_bytes_def)
  moreover have "dir_on ops running bytes (fs\<lparr>fs_storage := v\<rparr>) f cs (E[i := d])"
    using assms(1-3) v(2,3) e(2,3) o entry_overwrite [OF e(3) assms(2,3)]
    by (auto simp: dir_on_def dest!: set_update_subset_insert [THEN subsetD])
  ultimately show thesis using that v(4,5) assms(4) by simp
qed

end

end
