(* ===== verification/Fat_Dir.thy ===== *)
theory Fat_Dir
  imports Fat_Folder "HOL-Library.Sublist"
begin

text \<open>
  What the operations of a FAT folder do to its table of directory entries, and what a folder that is opened afterwards knows: the scan of the
  table as a function of its entries, the place for new entries, and the properties of creating and deleting a file.
\<close>

subsection \<open>The scan of a table\<close>

fun scan_all :: "nat \<Rightarrow> fat_dir_entry list \<Rightarrow> fat_scan \<Rightarrow> fat_scan" where
  "scan_all i [] s = s"
| "scan_all i (e # es) s = (if e ! 0 = 0 then s else scan_all (Suc i) es (scan_entry (of_nat i) e s))"

definition scan_clean :: "fat_scan \<Rightarrow> bool" where
  "scan_clean s \<longleftrightarrow> scan_long_name s = [] \<and> \<not> last_was_lfn s"

definition live :: "fat_dir_entry \<Rightarrow> bool" where
  "live e \<longleftrightarrow> e ! 0 \<noteq> 0 \<and> e ! 0 \<noteq> 0xE5"

lemma scan_entry_files [simp]: "folder_files (scan_entry i e s) = folder_files s"
  by (simp add: scan_entry_def scan_short_entry_def Let_def)

lemma scan_all_files [simp]: "folder_files (scan_all i es s) = folder_files s"
  by (induction es arbitrary: i s) auto

lemma scan_all_append: "\<forall>e \<in> set xs. e ! 0 \<noteq> 0 \<Longrightarrow> scan_all i (xs @ ys) s = scan_all (i + length xs) ys (scan_all i xs s)"
  by (induction xs arbitrary: i s) auto

lemma scan_free: "scan_clean s \<Longrightarrow> e ! 0 = 0xE5 \<Longrightarrow> scan_entry i e s = s"
  by (cases s) (simp add: scan_entry_def scan_clean_def)

lemma scan_free_run: "scan_clean s \<Longrightarrow> \<forall>e \<in> set xs. e ! 0 = 0xE5 \<Longrightarrow> scan_all i (xs @ ys) s = scan_all (i + length xs) ys s"
  by (induction xs arbitrary: i) (auto simp: scan_free)

lemma scan_entry_clean: "e ! 0 = 0xE5 \<or> \<not> is_long_fn_entry e \<Longrightarrow> scan_clean (scan_entry i e s)"
  by (auto simp: scan_entry_def scan_clean_def Let_def)

lemma scan_start_clean [simp]: "scan_clean (scan_start files)"
  by (simp add: scan_clean_def scan_start_def)

text \<open>The long name entries of a file and its short entry.\<close>

lemma scan_lfns:
  assumes "\<forall>e \<in> set xs. live e \<and> is_long_fn_entry e \<and> lfn_checksum e = c" "last_was_lfn s \<longrightarrow> cur_lfn_checksum s = c" "xs \<noteq> []"
  shows "scan_all i (xs @ ys) s = scan_all (i + length xs) ys
    (s\<lparr>last_was_lfn := True, cur_lfn_checksum := c, scan_long_name := concat (map part_of_lfn (rev xs)) @ scan_long_name s\<rparr>)"
  using assms
proof (induction xs arbitrary: i s)
  case (Cons e xs)
  let ?s = "s\<lparr>last_was_lfn := True, cur_lfn_checksum := c, scan_long_name := part_of_lfn e @ scan_long_name s\<rparr>"
  have "scan_all i ((e # xs) @ ys) s = scan_all (Suc i) (xs @ ys) ?s"
    using Cons.prems by (auto simp: live_def scan_entry_def)
  then show ?case using Cons by (cases "xs = []") auto
qed simp

definition scan_wf :: "fat_scan \<Rightarrow> bool" where
  "scan_wf s \<longleftrightarrow> std_map_wf (fde_to_child_map s) \<and> std_map_wf (long_name_to_fde_map s) \<and> std_map_wf (short_name_to_fde_map s)"

lemma scan_entry_wf: "scan_wf s \<Longrightarrow> scan_wf (scan_entry i e s)"
  by (simp add: scan_wf_def scan_entry_def scan_short_entry_def Let_def)

lemma scan_all_wf: "scan_wf s \<Longrightarrow> scan_wf (scan_all i es s)"
  by (induction es arbitrary: i s) (auto simp: scan_entry_wf)

lemma scan_start_wf [simp]: "scan_wf (scan_start files)"
  by (simp add: scan_wf_def scan_start_def)

text \<open>Two scans that have found the same names, but for some, and go on in the same way.\<close>

definition scan_sim :: "string set \<Rightarrow> string set \<Rightarrow> fat_scan \<Rightarrow> fat_scan \<Rightarrow> bool" where
  "scan_sim X Y s t \<longleftrightarrow> scan_wf s \<and> scan_wf t \<and> scan_long_name s = scan_long_name t \<and> last_was_lfn s = last_was_lfn t \<and>
     (last_was_lfn s \<or> scan_long_name s \<noteq> [] \<longrightarrow> cur_lfn_checksum s = cur_lfn_checksum t) \<and>
     (\<forall>x. x \<notin> X \<longrightarrow> map_of (long_name_to_fde_map s) x = map_of (long_name_to_fde_map t) x) \<and>
     (\<forall>x. x \<notin> Y \<longrightarrow> map_of (short_name_to_fde_map s) x = map_of (short_name_to_fde_map t) x)"

lemma scan_sim_entry: "scan_sim X Y s t \<Longrightarrow> scan_sim X Y (scan_entry i e s) (scan_entry i e t)"
proof -
  assume sim: "scan_sim X Y s t"
  then have w: "scan_wf (scan_entry i e s)" "scan_wf (scan_entry i e t)" by (auto simp: scan_sim_def scan_entry_wf)
  have m: "std_map_wf (long_name_to_fde_map s)" "std_map_wf (long_name_to_fde_map t)" "std_map_wf (short_name_to_fde_map s)" "std_map_wf (short_name_to_fde_map t)"
    using sim by (auto simp: scan_sim_def scan_wf_def)
  show ?thesis using sim w m by (auto simp: scan_sim_def scan_entry_def scan_short_entry_def Let_def smap.look_ins)
qed

lemma scan_sim_all: "scan_sim X Y s t \<Longrightarrow> scan_sim X Y (scan_all i es s) (scan_all i es t)"
  by (induction es arbitrary: i s t) (auto intro: scan_sim_entry)

lemma scan_group:
  assumes "scan_wf s" "scan_clean s" "\<forall>e \<in> set xs. live e \<and> is_long_fn_entry e \<and> lfn_checksum e = generate_short_name_checksum sh" "xs \<noteq> []"
    and "live sh" "\<not> is_long_fn_entry sh" "concat (map part_of_lfn (rev xs)) = name" "name \<noteq> []"
    and "short_name_from_fde sh \<noteq> ''.''" "short_name_from_fde sh \<noteq> ''..''" "j = of_nat (i + length xs)"
  obtains t where "scan_all i (xs @ sh # ys) s = scan_all (Suc (i + length xs)) ys t" "scan_clean t"
    "long_name_to_fde_map t = std_map_insert name j (long_name_to_fde_map s)"
    "short_name_to_fde_map t = std_map_insert (short_name_from_fde sh) j (short_name_to_fde_map s)"
    "scan_wf t" "scan_sim {name} {short_name_from_fde sh} t s"
proof -
  let ?t = "scan_entry j sh (s\<lparr>last_was_lfn := True, cur_lfn_checksum := generate_short_name_checksum sh, scan_long_name := name\<rparr>)"
  have e: "scan_all i (xs @ sh # ys) s = scan_all (Suc (i + length xs)) ys ?t"
    using scan_lfns [OF assms(3) _ assms(4), of s i "sh # ys"] assms(2,5,7,11) by (simp add: scan_clean_def live_def)
  have c: "scan_clean ?t" using assms(6) by (intro scan_entry_clean) simp
  have m: "long_name_to_fde_map ?t = std_map_insert name j (long_name_to_fde_map s)"
    "short_name_to_fde_map ?t = std_map_insert (short_name_from_fde sh) j (short_name_to_fde_map s)"
    using assms(5,6,8-10) by (simp_all add: scan_entry_def scan_short_entry_def live_def Let_def)
  have w: "scan_wf ?t" using assms(1) by (intro scan_entry_wf) (simp add: scan_wf_def)
  have "scan_sim {name} {short_name_from_fde sh} ?t s"
    using w assms(1,2) c m unfolding scan_sim_def by (auto simp: scan_clean_def scan_wf_def smap.look_ins)
  then show thesis using that e c m w by blast
qed

text \<open>The names of a scan lead to children, and the children are at positions of the table that are in use.\<close>

definition names_known :: "('z) fat_folder_scheme \<Rightarrow> bool" where
  "names_known s \<longleftrightarrow> (\<forall>x i. map_of (long_name_to_fde_map s) x = Some i \<or> map_of (short_name_to_fde_map s) x = Some i \<longrightarrow>
     map_contains (fde_to_child_map s) i)"

lemma scan_entry_known:
  assumes "scan_wf s" "names_known s"
  shows "names_known (scan_entry i e s)"
proof -
  have m: "std_map_wf (fde_to_child_map s)" "std_map_wf (long_name_to_fde_map s)" "std_map_wf (short_name_to_fde_map s)"
    using assms(1) by (auto simp: scan_wf_def)
  show ?thesis using assms(2) m
    by (auto simp: names_known_def map_contains_iff scan_entry_def scan_short_entry_def Let_def smap.look_ins split: if_splits option.splits)
qed

lemma scan_all_known: "scan_wf s \<Longrightarrow> names_known s \<Longrightarrow> names_known (scan_all i es s)"
  by (induction es arbitrary: i s) (auto simp: scan_entry_wf scan_entry_known)

lemma scan_entry_children: "fst ` set (fde_to_child_map (scan_entry i e s)) \<subseteq> fst ` set (fde_to_child_map s) \<union> {i |_ :: unit. e ! 0 \<noteq> 0xE5 \<and> \<not> is_long_fn_entry e}"
  by (auto simp: scan_entry_def scan_short_entry_def Let_def image_iff)

definition reached :: "fat_dir_entry list \<Rightarrow> nat \<Rightarrow> bool" where
  "reached es j \<longleftrightarrow> j < length es \<and> es ! j ! 0 \<noteq> 0xE5 \<and> \<not> is_long_fn_entry (es ! j) \<and> (\<forall>k \<le> j. es ! k ! 0 \<noteq> 0)"

lemma reached_Cons: "e ! 0 \<noteq> 0 \<Longrightarrow> reached es j \<Longrightarrow> reached (e # es) (Suc j)"
  unfolding reached_def by (auto simp: nth_Cons split: nat.splits)

lemma scan_all_children:
  "fst ` set (fde_to_child_map (scan_all i es s)) \<subseteq> fst ` set (fde_to_child_map s) \<union> (\<lambda>j. of_nat (i + j)) ` {j. reached es j}"
proof (induction es arbitrary: i s)
  case (Cons e es)
  show ?case
  proof (cases "e ! 0 = 0")
    case False
    have "k \<in> fst ` set (fde_to_child_map s) \<union> (\<lambda>j. of_nat (i + j)) ` {j. reached (e # es) j}"
      if k: "k \<in> fst ` set (fde_to_child_map (scan_all (Suc i) es (scan_entry (of_nat i) e s)))" for k
    proof -
      consider "k \<in> fst ` set (fde_to_child_map s)" | "k = of_nat i" "e ! 0 \<noteq> 0xE5" "\<not> is_long_fn_entry e" | j where "reached es j" "k = of_nat (Suc i + j)"
        using Cons.IH [of "Suc i" "scan_entry (of_nat i) e s"] scan_entry_children [of "of_nat i" e s] k by blast
      then show ?thesis
      proof cases
        case 2
        then show ?thesis using False by (intro UnI2 image_eqI [of _ _ 0]) (auto simp: reached_def)
      next
        case (3 j)
        then show ?thesis using reached_Cons [OF False] by (intro UnI2 image_eqI [of _ _ "Suc j"]) auto
      qed simp
    qed
    then show ?thesis using False by auto
  qed auto
qed simp

lemma scan_children_reached:
  assumes "map_contains (fde_to_child_map (scan_all 0 es (scan_start files))) (of_nat k)" "k < 65536" "length es < 65536"
  shows "reached es k"
proof -
  obtain j where j: "reached es j" "(of_nat k :: u32) = of_nat j"
    using assms(1) scan_all_children [of 0 es "scan_start files"] by (auto simp: map_contains_iff scan_start_def)
  have "unat (of_nat n :: u32) = n" if "n < 65536" for n using that by (simp add: unat_of_nat)
  moreover have "j < 65536" using j(1) assms(3) by (simp add: reached_def)
  ultimately have "k = j" using j(2) assms(2) by metis
  then show ?thesis using j(1) by simp
qed

subsection \<open>Lookups\<close>

lemma get_dir_entry_None: "fst (get_dir_entry name fo) = None \<longleftrightarrow>
    map_of (long_name_to_fde_map fo) name = None \<and> map_of (short_name_to_fde_map fo) name = None"
  by (auto simp: get_dir_entry_def Let_def split: option.splits prod.splits)

lemma get_dir_entry_same: "names_known fo \<Longrightarrow> snd (get_dir_entry name fo) = fo"
  unfolding names_known_def map_contains_def get_dir_entry_def child_at_def Let_def
  by (auto split: option.splits prod.splits) (metis option.discI)+

lemma get_dir_entry_long: "map_of (long_name_to_fde_map fo) name = Some i \<Longrightarrow> map_of (fde_to_child_map fo) i = Some obj \<Longrightarrow>
    get_dir_entry name fo = (Some (obj_fde obj, i), fo)"
  by (simp add: get_dir_entry_def child_at_def)

lemma numeric_tail_same:
  "names_known fo \<Longrightarrow> numeric_tail_loop k n e fo = Some (ok, e2, fo2) \<Longrightarrow> fo2 = fo"
proof (induction k n e fo rule: numeric_tail_loop.induct)
  case (1 k n e fo)
  show ?case
  proof (cases "k < 1000000")
    case True
    then obtain e1 where e1: "add_numeric_tail e n k = Some e1" using "1.prems"(2) by (auto simp: numeric_tail_loop.simps split: option.splits)
    show ?thesis using "1.prems" "1.IH" [OF True e1 refl] True e1 get_dir_entry_same [OF "1.prems"(1)]
      by (auto simp: numeric_tail_loop.simps [of k] Let_def split: option.splits)
  qed (use "1.prems"(2) in \<open>simp add: numeric_tail_loop.simps\<close>)
qed

lemma basis_entry_same:
  assumes "names_known fo" "generate_basis_name_entry name e fo = Some (ok, e2, fo2)"
  shows "fo2 = fo"
  using assms numeric_tail_same [OF assms(1)] get_dir_entry_same [OF assms(1)]
  by (auto simp: generate_basis_name_entry_def Let_def split: prod.splits if_splits) (metis snd_conv)+

subsection \<open>The short entry of a long name\<close>

lemma short_name_loop_prefix: "prefix r (short_name_loop fde i r)"
proof (induction fde i r rule: short_name_loop.induct)
  case (1 fde i r)
  then show ?case by (subst short_name_loop.simps) (auto dest: append_prefixD)
qed

lemma short_name_first: "fde ! 0 \<noteq> 0x20 \<Longrightarrow> \<exists>x. short_name_from_fde fde = byte_char (to_upper (fde ! 0)) # x"
  using short_name_loop_prefix [of "[byte_char (to_upper (fde ! 0))]" fde 1]
  by (auto simp: short_name_from_fde_def short_name_loop.simps [of fde 0] prefix_def)

lemma basis_convert_prefix: "prefix buf (snd (snd (basis_convert cs l lo p buf)))"
proof (induction cs arbitrary: l lo p buf)
  case (Cons c cs)
  have "prefix buf (snd (snd (basis_convert cs l' lo' p' (buf @ [z]))))" for l' lo' p' z
    using Cons.IH [of "buf @ [z]" l' lo' p'] by (rule append_prefixD)
  then show ?case using Cons.IH by (simp add: Let_def)
qed simp

definition short_start :: "fat_dir_entry \<Rightarrow> char \<Rightarrow> bool" where
  "short_start e c \<longleftrightarrow> length e = 32 \<and> e ! 0 = to_upper (char_byte c) \<and> e ! 11 = 0"

lemma up_char_not_dot: "is_valid_filename_char (char_u16 c) False \<Longrightarrow> up_char c \<noteq> CHR ''.''"
proof
  assume v: "is_valid_filename_char (char_u16 c) False" and "up_char c = CHR ''.''"
  then have "char_byte (byte_char (to_upper (char_byte c))) = char_byte (CHR ''.'')" by (simp add: up_char_def)
  then have "to_upper (char_byte c) = char_byte (CHR ''.'')" by simp
  moreover have "to_upper b = 0x2E \<longleftrightarrow> b = 0x2E" for b by (simp add: to_upper_def char_byte_def) unat_arith
  ultimately have "char_byte c = char_byte (CHR ''.'')" by (simp add: char_byte_def [of "CHR ''.''"])
  then show False using v valid_not_dot by simp
qed

lemma basis_name_start:
  assumes "basis_name (c # cs) e = (e2, n, lossy)" "length e = 32" "e ! 11 = 0" "is_valid_filename_char (char_u16 c) False"
  shows "short_start e2 c" "1 \<le> n" "n \<le> 8"
proof -
  have c: "c \<noteq> CHR ''.''" "c \<noteq> CHR '' ''" using assms(4) valid_not_dot valid_not_space by (auto simp: char_u16_def char_byte_def)
  obtain lo p buf where b: "basis_convert (c # cs) True False 0 [] = (lo, p, buf)" by (metis prod_cases3)
  then obtain x where x: "buf = up_char c # x"
    using basis_convert_prefix [of "[up_char c]" cs False False 0] c assms(4) by (auto simp: Let_def prefix_def)
  let ?m = "take 8 (takeWhile (\<lambda>c. c \<noteq> CHR ''.'') buf)" and ?x = "take 3 (drop p buf)"
  have e2: "e2 = put (put (put e 0 (replicate 11 0x20)) 0 (map char_byte ?m)) 8 (map char_byte ?x)" "n = length ?m"
    using assms(1) b by (auto simp: basis_name_def Let_def)
  have m: "?m ! 0 = up_char c" "?m \<noteq> []" "length ?m \<le> 8" "length ?x \<le> 3" using x up_char_not_dot [OF assms(4)] by auto
  show "1 \<le> n" "n \<le> 8" using e2(2) m(2,3) by (simp_all add: Suc_le_eq)
  have "e2 ! 0 = char_byte (up_char c)" "e2 ! 11 = e ! 11" "length e2 = 32"
    using e2(1) m assms(2) by (simp_all add: put_nth)
  then show "short_start e2 c" using assms(3) by (simp add: short_start_def up_char_def)
qed

lemma add_numeric_tail_start:
  assumes "add_numeric_tail e n k = Some e2" "short_start e c"
  shows "short_start e2 c"
proof -
  let ?b = "map char_byte (decimal k) @ [0]"
  let ?n = "if length ?b + n > 8 then 8 - length ?b else n"
  have b: "1 \<le> n" "n \<le> 8" "length ?b \<le> 7" "e2 = put (e[?n := char_byte (CHR ''~'')]) (?n + 1) ?b"
    using assms(1) by (auto simp: add_numeric_tail_def Let_def)
  have n: "1 \<le> ?n" "?n + length ?b \<le> 8" using b(1-3) by auto
  then show ?thesis using assms(2) unfolding b(4) by (simp add: short_start_def put_nth nth_append del: length_append)
qed

lemma numeric_tail_start:
  "numeric_tail_loop k n e fo = Some (ok, e2, fo2) \<Longrightarrow> short_start e c \<Longrightarrow> short_start e2 c"
proof (induction k n e fo rule: numeric_tail_loop.induct)
  case (1 k n e fo)
  show ?case
  proof (cases "k < 1000000")
    case True
    then obtain e1 where e1: "add_numeric_tail e n k = Some e1" using "1.prems"(1) by (auto simp: numeric_tail_loop.simps split: option.splits)
    show ?thesis using "1.prems" "1.IH" [OF True e1 refl] True e1 add_numeric_tail_start [OF e1 "1.prems"(2)]
      by (auto simp: numeric_tail_loop.simps [of k] Let_def split: option.splits)
  qed (use "1.prems" in \<open>simp add: numeric_tail_loop.simps\<close>)
qed

lemma basis_entry_start:
  assumes "generate_basis_name_entry (c # cs) e fo = Some (ok, e2, fo2)" "length e = 32" "e ! 11 = 0" "is_valid_filename_char (char_u16 c) False"
  shows "short_start e2 c"
proof -
  obtain e1 n lossy where b: "basis_name (c # cs) e = (e1, n, lossy)" by (metis prod_cases3)
  then have "short_start e1 c" by (rule basis_name_start(1) [OF _ assms(2-4)])
  then show ?thesis using assms(1) b numeric_tail_start
    by (auto simp: generate_basis_name_entry_def Let_def split: prod.splits if_splits)
qed

lemma short_name_loop_cong: "\<forall>k < 11. d ! k = e ! k \<Longrightarrow> short_name_loop d i r = short_name_loop e i r"
proof (induction d i r rule: short_name_loop.induct)
  case (1 d i r)
  then show ?case by (simp add: short_name_loop.simps [of d i] short_name_loop.simps [of e i])
qed

lemma archive_laws:
  assumes "length e = 32"
  shows "length (fde_set_archive e) = 32" "fde_set_archive e ! 0 = e ! 0" "generate_short_name_checksum (fde_set_archive e) = generate_short_name_checksum e"
    "short_name_from_fde (fde_set_archive e) = short_name_from_fde e" "e ! 11 = 0 \<Longrightarrow> fde_set_archive e ! 11 = 0x20"
    "e ! 11 = 0 \<Longrightarrow> \<not> fde_directory (fde_set_archive e)"
proof -
  have "take 11 (fde_set_archive e) = take 11 e" by (simp add: fde_set_archive_def take_update_cancel)
  then show "generate_short_name_checksum (fde_set_archive e) = generate_short_name_checksum e"
    using assms by (simp add: generate_short_name_checksum_def checksum_loop_foldl fde_set_archive_def)
  show "short_name_from_fde (fde_set_archive e) = short_name_from_fde e"
    unfolding short_name_from_fde_def by (rule short_name_loop_cong) (simp add: fde_set_archive_def)
  show "e ! 11 = 0 \<Longrightarrow> \<not> fde_directory (fde_set_archive e)"
    using assms by (simp add: fde_directory_def fde_set_archive_def le_at_def Cons_nth_drop_Suc [symmetric])
qed (use assms in \<open>simp_all add: fde_set_archive_def\<close>)

lemma lfn_live:
  assumes "lfn_entry_of name n k e" "k < n" "n \<le> 20"
  shows "live e"
proof -
  have v: "\<forall>m \<in> set [1 ..< 21]. of_nat m \<noteq> (0 :: u8) \<and> of_nat m \<noteq> (0xE5 :: u8) \<and> of_nat m OR 0x40 \<noteq> (0 :: u8) \<and> of_nat m OR 0x40 \<noteq> (0xE5 :: u8)"
    by code_simp
  have "n \<in> set [1 ..< 21]" "Suc k \<in> set [1 ..< 21]" using assms(2,3) by auto
  with v assms(1) show ?thesis unfolding lfn_entry_of_def live_def by (cases "k = n - 1") (simp_all only: if_True if_False simp_thms)
qed

lemma set_checksum_laws:
  assumes "length e = 32"
  shows "length (lfn_set_checksum c e) = 32" "lfn_checksum (lfn_set_checksum c e) = c" "part_of_lfn (lfn_set_checksum c e) = part_of_lfn e"
    "live (lfn_set_checksum c e) = live e" "is_long_fn_entry (lfn_set_checksum c e) = is_long_fn_entry e"
proof -
  have "map (lfn_char (lfn_set_checksum c e)) [0 ..< 13] = map (lfn_char e) [0 ..< 13]"
    using assms by (simp add: lfn_set_checksum_def lfn_char_update)
  then show "part_of_lfn (lfn_set_checksum c e) = part_of_lfn e" by (simp only: part_of_lfn_def)
qed (use assms in \<open>simp_all add: lfn_set_checksum_def lfn_checksum_def live_def is_long_fn_entry_def\<close>)

text \<open>The entries that a new long-named file gets: its long name entries and the short entry.\<close>

definition lfn_group :: "string \<Rightarrow> fat_dir_entry list \<Rightarrow> fat_dir_entry \<Rightarrow> bool" where
  "lfn_group name L sh \<longleftrightarrow> length L = lfn_count name \<and> concat (map part_of_lfn (rev L)) = name \<and>
     (\<forall>e \<in> set L. length e = 32 \<and> live e \<and> is_long_fn_entry e \<and> lfn_checksum e = generate_short_name_checksum sh)"

lemma populate_fdes_long:
  assumes "populate_short_name name = None" "long_name_ok name" "lfn_count name \<le> 19"
    and "generate_basis_name_entry name (replicate 32 0) fo = Some (True, sh, fo)"
  obtains fdes junk where "populate_fdes_from_name name (replicate 21 (replicate 32 0)) True fo = Some (True, fdes, lfn_count name + 1, name, junk, fo)"
    "length fdes = 21" "fdes ! lfn_count name = sh" "lfn_group name (take (lfn_count name) fdes) sh"
proof -
  let ?n = "lfn_count name" and ?z = "replicate 21 (replicate 32 (0 :: u8))"
  obtain es where es: "populate_long_name name ?z = Some (True, of_nat ?n, es)" "length es = 21" "\<forall>e \<in> set es. length e = 32"
    "\<forall>i \<ge> ?n. es ! i = ?z ! i" "\<forall>k < ?n. lfn_entry_of name ?n k (es ! (?n - 1 - k))" "concat (map part_of_lfn (rev (take ?n es))) = name"
    by (rule long_name_roundtrip_spec [OF assms(2), of ?z]) auto
  have n: "unat (of_nat ?n :: u8) = ?n" using assms(3) by (simp add: unat_of_nat)
  let ?e1 = "es[?n + 1 := replicate 32 0]"
  let ?e2 = "?e1[?n := sh]"
  let ?c = "generate_short_name_checksum sh"
  let ?e3 = "map (lfn_set_checksum ?c) (take ?n ?e2) @ drop ?n ?e2"
  have z: "?e1 ! ?n = replicate 32 0" using es(4) assms(3) by simp
  have sh: "?e2 ! ?n = sh" using es(2) assms(3) by simp
  have t: "take ?n ?e3 = map (lfn_set_checksum ?c) (take ?n es)" using es(2) assms(3) by simp
  have "populate_fdes_from_name name ?z True fo = Some (True, ?e3, ?n + 1, name, short_name_from_fde (?e3 ! (?n + 1)), fo)"
    using assms(1,3,4) es(1,2) n z sh by (simp add: populate_fdes_from_name_def Let_def)
  moreover have "?e3 ! ?n = sh" using es(2) assms(3) by (simp add: nth_append)
  moreover have "lfn_group name (take ?n ?e3) sh"
  proof -
    have "live e \<and> is_long_fn_entry e \<and> length e = 32" if e: "e \<in> set (take ?n es)" for e
    proof -
      obtain i where i: "i < ?n" "e = es ! i" using e unfolding in_set_conv_nth by auto
      then have "lfn_entry_of name ?n (?n - 1 - i) e" using es(5) [rule_format, of "?n - 1 - i"] by simp
      then show ?thesis using lfn_live [of name ?n "?n - 1 - i" e] i(1) assms(3) by (simp add: lfn_entry_of_def is_long_fn_entry_def)
    qed
    note l = this
    have "map part_of_lfn (rev (map (lfn_set_checksum ?c) (take ?n es))) = map part_of_lfn (rev (take ?n es))"
      unfolding rev_map using l by (simp add: set_checksum_laws)
    then have "concat (map part_of_lfn (rev (map (lfn_set_checksum ?c) (take ?n es)))) = name" using es(6) by (simp only:)
    moreover have "length (map (lfn_set_checksum ?c) (take ?n es)) = ?n" using es(2) assms(3) by simp
    ultimately show ?thesis using l unfolding lfn_group_def t by (auto simp: set_checksum_laws)
  qed
  ultimately show thesis using that [of ?e3 "short_name_from_fde (?e3 ! (?n + 1))"] es(2) assms(3) by simp
qed

subsection \<open>The place for new entries\<close>

text \<open>
  The entries from \<open>p\<close> on are free: \<open>n\<close> deleted ones, or deleted ones up to the end of the directory. The entry before them is in use.
\<close>

definition place :: "fat_dir_entry list \<Rightarrow> nat \<Rightarrow> nat \<Rightarrow> bool \<Rightarrow> bool" where
  "place E n p eod \<longleftrightarrow> (\<forall>j < p. E ! j ! 0 \<noteq> 0) \<and> (p = 0 \<or> E ! (p - 1) ! 0 \<noteq> 0xE5) \<and>
     (if eod then \<exists>z. p \<le> z \<and> z < p + n \<and> z < length E \<and> E ! z ! 0 = 0 \<and> (\<forall>j. p \<le> j \<and> j < z \<longrightarrow> E ! j ! 0 = 0xE5)
      else p + n \<le> length E \<and> (\<forall>j. p \<le> j \<and> j < p + n \<longrightarrow> E ! j ! 0 = 0xE5))"

text \<open>The variables of the search before entry \<open>i\<close> is looked at.\<close>

definition search_inv :: "fat_dir_entry list \<Rightarrow> nat \<Rightarrow> nat \<Rightarrow> nat \<Rightarrow> nat \<Rightarrow> bool \<Rightarrow> bool" where
  "search_inv E n i first spaces mid \<longleftrightarrow> (\<forall>j < i. E ! j ! 0 \<noteq> 0) \<and>
     (if mid then first + spaces = i \<and> 0 < spaces \<and> spaces < n \<and> (first = 0 \<or> E ! (first - 1) ! 0 \<noteq> 0xE5) \<and> (\<forall>j. first \<le> j \<and> j < i \<longrightarrow> E ! j ! 0 = 0xE5)
      else i = 0 \<or> E ! (i - 1) ! 0 \<noteq> 0xE5)"

lemma search_end: "search_inv E n i first spaces mid \<Longrightarrow> i < length E \<Longrightarrow> E ! i ! 0 = 0 \<Longrightarrow> 0 < n \<Longrightarrow> place E n (if mid then first else i) True"
  by (cases mid) (auto simp: search_inv_def place_def intro!: exI [of _ i])

lemma search_step:
  assumes "search_inv E n i first spaces mid" "E ! i ! 0 \<noteq> 0" "0 < n" "i < length E"
    and "in_use = (E ! i ! 0 \<noteq> 0xE5)" "spaces2 = (if in_use then 0 else if mid then spaces + 1 else 1)" "first2 = (if in_use \<or> mid then first else i)"
  shows "spaces2 = n \<Longrightarrow> place E n first2 False" "spaces2 \<noteq> n \<Longrightarrow> search_inv E n (Suc i) first2 spaces2 (\<not> in_use)"
proof -
  have a: "\<forall>j < Suc i. E ! j ! 0 \<noteq> 0" using assms(1,2) by (auto simp: search_inv_def less_Suc_eq)
  have run: "\<forall>j. first2 \<le> j \<and> j < Suc i \<longrightarrow> E ! j ! 0 = 0xE5" "first2 + spaces2 = Suc i" "0 < spaces2" "first2 = 0 \<or> E ! (first2 - 1) ! 0 \<noteq> 0xE5"
    if "\<not> in_use" using assms(1,5-7) that by (auto simp: search_inv_def less_Suc_eq split: if_splits)
  show "place E n first2 False" if "spaces2 = n"
  proof -
    have u: "\<not> in_use" using that assms(3,6) by auto
    then show ?thesis using run that a assms(4) by (auto simp: place_def)
  qed
  show "search_inv E n (Suc i) first2 spaces2 (\<not> in_use)" if "spaces2 \<noteq> n"
  proof (cases in_use)
    case True
    then show ?thesis using a assms(5) by (simp add: search_inv_def)
  next
    case False
    have "spaces2 \<le> n" using assms(1,3,6) False by (auto simp: search_inv_def split: if_splits)
    then show ?thesis using run [OF False] a False that by (simp add: search_inv_def)
  qed
qed

declare write_fde.simps [simp del]

text \<open>The table with new entries at their place, followed by a new end marker if they are at the end.\<close>

definition new_table :: "fat_dir_entry list \<Rightarrow> fat_dir_entry list \<Rightarrow> nat \<Rightarrow> bool \<Rightarrow> fat_dir_entry list" where
  "new_table E G p eod = take p E @ G @ (if eod then replicate 32 0 # drop (p + length G + 1) E else drop (p + length G) E)"

text \<open>No long name entry stands alone: the one after it is in use.\<close>

definition dir_closed :: "fat_dir_entry list \<Rightarrow> bool" where
  "dir_closed E \<longleftrightarrow> (\<forall>i. Suc i < length E \<and> live (E ! i) \<and> is_long_fn_entry (E ! i) \<longrightarrow> live (E ! Suc i))"

lemma scan_entry_extend: "scan_wf s \<Longrightarrow> map_of (long_name_to_fde_map s) x = Some i \<Longrightarrow> map_of (long_name_to_fde_map (scan_entry j e s)) x = Some i"
  by (auto simp: scan_wf_def scan_entry_def scan_short_entry_def Let_def smap.look_ins)

lemma scan_extend: "scan_wf s \<Longrightarrow> map_of (long_name_to_fde_map s) x = Some i \<Longrightarrow> map_of (long_name_to_fde_map (scan_all j es s)) x = Some i"
  by (induction es arbitrary: j s) (auto simp: scan_entry_wf scan_entry_extend)

lemma scan_entry_extend_short:
  "scan_wf s \<Longrightarrow> map_of (short_name_to_fde_map s) x = Some i \<Longrightarrow> map_of (short_name_to_fde_map (scan_entry j e s)) x = Some i"
  by (auto simp: scan_wf_def scan_entry_def scan_short_entry_def Let_def smap.look_ins)

lemma scan_extend_short:
  "scan_wf s \<Longrightarrow> map_of (short_name_to_fde_map s) x = Some i \<Longrightarrow> map_of (short_name_to_fde_map (scan_all j es s)) x = Some i"
  by (induction es arbitrary: j s) (auto simp: scan_entry_wf scan_entry_extend_short)

lemma place_bound: "place E n p eod \<Longrightarrow> 0 < n \<Longrightarrow> p < length E \<and> \<not> live (E ! p)"
proof (cases eod)
  case True
  assume "place E n p eod"
  then obtain z where "p \<le> z" "z < length E" "E ! z ! 0 = 0" "\<forall>j. p \<le> j \<and> j < z \<longrightarrow> E ! j ! 0 = 0xE5"
    using True by (auto simp: place_def)
  then show ?thesis by (cases "z = p") (auto simp: live_def)
qed (auto simp: place_def live_def)

lemma scan_before_place:
  assumes "place E n p eod" "0 < n" "dir_closed E"
  shows "scan_clean (scan_all 0 (take p E) (scan_start files))" "\<forall>e \<in> set (take p E). e ! 0 \<noteq> 0"
proof -
  have p: "p < length E" "\<not> live (E ! p)" using place_bound [OF assms(1,2)] by auto
  show nz: "\<forall>e \<in> set (take p E). e ! 0 \<noteq> 0" using assms(1) by (auto simp: place_def in_set_conv_nth)
  show "scan_clean (scan_all 0 (take p E) (scan_start files))"
  proof (cases p)
    case (Suc q)
    then have t: "take p E = take q E @ [E ! q]" using p(1) by (simp add: take_Suc_conv_app_nth)
    have "E ! q ! 0 \<noteq> 0xE5" "E ! q ! 0 \<noteq> 0" using assms(1) Suc by (auto simp: place_def)
    then have "\<not> is_long_fn_entry (E ! q)" using assms(3) p Suc by (auto simp: dir_closed_def live_def)
    moreover have "\<forall>e \<in> set (take q E). e ! 0 \<noteq> 0" using nz t by auto
    ultimately show ?thesis using scan_all_append [of "take q E" 0 "[E ! q]" "scan_start files"] nz t by (auto intro!: scan_entry_clean)
  qed simp
qed

lemma scan_new_table:
  assumes "place E (Suc (length L)) p eod" "dir_closed E" "lfn_group name L sh" "L \<noteq> []" "name \<noteq> []" "live sh" "\<not> is_long_fn_entry sh"
    and "short_name_from_fde sh \<noteq> ''.''" "short_name_from_fde sh \<noteq> ''..''"
    and "map_of (long_name_to_fde_map (scan_all 0 E (scan_start files))) name = None"
  shows "map_of (long_name_to_fde_map (scan_all 0 (new_table E (L @ [sh]) p eod) (scan_start files))) name = Some (of_nat (p + length L))"
    "scan_sim {name} {short_name_from_fde sh} (scan_all 0 (new_table E (L @ [sh]) p eod) (scan_start files)) (scan_all 0 E (scan_start files))"
proof -
  let ?st = "scan_start files" and ?n = "Suc (length L)" and ?Y = "short_name_from_fde sh"
  let ?s = "scan_all 0 (take p E) ?st"
  have p: "p < length E" using place_bound [OF assms(1)] by simp
  have c: "scan_clean ?s" "\<forall>e \<in> set (take p E). e ! 0 \<noteq> 0" using scan_before_place [OF assms(1) _ assms(2)] by simp_all
  have w: "scan_wf ?s" by (intro scan_all_wf) simp
  define R where "R = (if eod then replicate 32 0 # drop (p + ?n + 1) E else drop (p + ?n) E)"
  obtain t where t: "scan_all p (L @ sh # R) ?s = scan_all (Suc (p + length L)) R t" "scan_wf t"
    "long_name_to_fde_map t = std_map_insert name (of_nat (p + length L)) (long_name_to_fde_map ?s)" "scan_sim {name} {?Y} t ?s"
    using scan_group [OF w c(1), of L sh name "of_nat (p + length L)" p R] assms(3-9) by (auto simp: lfn_group_def)
  have "new_table E (L @ [sh]) p eod = take p E @ L @ sh # R" by (cases eod) (simp_all add: new_table_def R_def)
  then have new: "scan_all 0 (new_table E (L @ [sh]) p eod) ?st = scan_all (p + ?n) R t"
    using scan_all_append [OF c(2), of 0 "L @ sh # R" ?st] t(1) p by simp
  have old: "scan_all 0 E ?st = scan_all p (drop p E) ?s"
    using scan_all_append [OF c(2), of 0 "drop p E" ?st] p by (simp del: scan_all.simps)
  have "map_of (long_name_to_fde_map ?s) name = None"
    using assms(10) old scan_extend [OF w, of name _ p "drop p E"] by (metis option.exhaust)
  then have "map_of (long_name_to_fde_map t) name = Some (of_nat (p + length L))"
    using t(3) w by (simp add: scan_wf_def smap.look_ins)
  then show "map_of (long_name_to_fde_map (scan_all 0 (new_table E (L @ [sh]) p eod) ?st)) name = Some (of_nat (p + length L))"
    unfolding new by (rule scan_extend [OF t(2)])
  have "scan_all 0 E ?st = (if eod then ?s else scan_all (p + ?n) R ?s)"
  proof (cases eod)
    case True
    then obtain z where z: "p \<le> z" "z < length E" "E ! z ! 0 = 0" "\<forall>j. p \<le> j \<and> j < z \<longrightarrow> E ! j ! 0 = 0xE5"
      using assms(1) by (auto simp: place_def)
    have d: "drop p E = take (z - p) (drop p E) @ E ! z # drop (Suc z) E"
      using z(1,2) id_take_nth_drop [of "z - p" "drop p E"] by simp
    have "\<forall>e \<in> set (take (z - p) (drop p E)). e ! 0 = 0xE5" using z(2,4) by (auto simp: in_set_conv_nth)
    from scan_free_run [OF c(1) this, of p "E ! z # drop (Suc z) E"] show ?thesis using True z(3) old d by simp
  next
    case False
    then have f: "\<forall>j. p \<le> j \<and> j < p + ?n \<longrightarrow> E ! j ! 0 = 0xE5" "p + ?n \<le> length E" using assms(1) by (auto simp: place_def)
    have "\<forall>e \<in> set (take ?n (drop p E)). e ! 0 = 0xE5" using f by (auto simp: in_set_conv_nth)
    from scan_free_run [OF c(1) this, of p "drop ?n (drop p E)"]
    have "scan_all p (drop p E) ?s = scan_all (p + length (take ?n (drop p E))) (drop ?n (drop p E)) ?s" by (simp only: append_take_drop_id)
    then show ?thesis using False f(2) old by (simp add: R_def add.commute)
  qed
  then show "scan_sim {name} {?Y} (scan_all 0 (new_table E (L @ [sh]) p eod) ?st) (scan_all 0 E ?st)"
    using t(4) scan_sim_all [OF t(4), of "p + ?n" R] unfolding new by (cases eod) (simp_all add: R_def)
qed

lemma place_not_reached: "place E (Suc n) p eod \<Longrightarrow> \<not> reached E (p + n)"
  by (auto simp: place_def reached_def less_Suc_eq_le split: if_splits)

lemma short_entry_ok:
  assumes "short_start sh c" "ascii c" "is_valid_filename_char (char_u16 c) False"
  shows "live (fde_set_archive sh)" "\<not> is_long_fn_entry (fde_set_archive sh)" "length (fde_set_archive sh) = 32" "\<not> fde_directory (fde_set_archive sh)"
    "short_name_from_fde (fde_set_archive sh) = short_name_from_fde sh"
    "short_name_from_fde (fde_set_archive sh) \<noteq> ''.''" "short_name_from_fde (fde_set_archive sh) \<noteq> ''..''"
    "generate_short_name_checksum (fde_set_archive sh) = generate_short_name_checksum sh"
proof -
  have s: "length sh = 32" "sh ! 0 = to_upper (char_byte c)" "sh ! 11 = 0" using assms(1) by (auto simp: short_start_def)
  note l = archive_laws [OF s(1)]
  show "length (fde_set_archive sh) = 32" "\<not> fde_directory (fde_set_archive sh)" "short_name_from_fde (fde_set_archive sh) = short_name_from_fde sh"
    "generate_short_name_checksum (fde_set_archive sh) = generate_short_name_checksum sh" "\<not> is_long_fn_entry (fde_set_archive sh)"
    using l s(3) by (simp_all add: is_long_fn_entry_def)
  have "to_upper b \<noteq> 0xE5 \<and> (to_upper b = 0 \<longleftrightarrow> b = 0)" if "b < 128" for b
    using that by (simp add: to_upper_def char_byte_def) unat_arith
  moreover have "char_byte c \<noteq> 0" using assms(3) by (auto simp: char_u16_def is_valid_filename_char_def char_byte_def)
  ultimately show "live (fde_set_archive sh)" using assms(2) l(2) s(2) by (simp add: live_def ascii_def)
  have "char_byte c \<noteq> 0x20" using assms(3) valid_not_space by (auto simp: char_u16_def)
  then have "sh ! 0 \<noteq> 0x20" unfolding s(2) by simp
  from short_name_first [OF this] obtain x where "short_name_from_fde sh = up_char c # x" by (auto simp: s(2) up_char_def)
  then show "short_name_from_fde (fde_set_archive sh) \<noteq> ''.''" "short_name_from_fde (fde_set_archive sh) \<noteq> ''..''"
    using up_char_not_dot [OF assms(3)] l(4) by auto
qed

lemma file_new_storage:
  assumes "fat_wf fs" "fat_chain fs (fde_first_cluster fde) cs" "length fde = 32"
  shows "fat_file_new (fs\<lparr>fs_storage := v\<rparr>) fde idx root = fat_file_new fs fde idx root"
proof -
  let ?d = "if root then fde_set_directory fde else fde"
  have c: "fde_first_cluster ?d = fde_first_cluster fde" using assms(3) by (simp add: fde_directory_laws)
  have "fat_wf (fs\<lparr>fs_storage := v\<rparr>)" using assms(1) by (simp add: fat_wf_def)
  then have "count_clusters (fs\<lparr>fs_storage := v\<rparr>) (fde_first_cluster ?d) 0 = count_clusters fs (fde_first_cluster ?d) 0"
    using count_clusters_chain [OF assms(1,2), of 0] count_clusters_chain [of "fs\<lparr>fs_storage := v\<rparr>" "fde_first_cluster fde" cs 0] assms(2)
    by (simp only: c chain_storage)
  then show ?thesis by (cases root) (simp_all add: fat_file_new_def Let_def)
qed

lemma file_new_cluster:
  "length fde = 32 \<Longrightarrow> fat_file_new fs fde idx root = Some f \<Longrightarrow> \<not> is_small_fat_root_dir f \<Longrightarrow> fde_first_cluster (file_record f) = fde_first_cluster fde"
  by (auto simp: fat_file_new_def Let_def fde_size_laws fde_directory_laws split: if_splits)

lemma no_backslash:
  assumes "long_name_ok name"
  shows "split_name name False = (name, [])"
proof -
  have "\<not> is_valid_filename_char (char_u16 bs) True" by (simp add: is_valid_filename_char_def char_u16_def char_byte_def bs_def)
  then have "bs \<notin> set name" using assms by (auto simp: long_name_ok_def)
  then have "find_char bs name = None" by (induction name) auto
  then show ?thesis by (simp add: split_name_def)
qed

text \<open>What the new file adds to the maps of the folder in memory, and that it can be opened.\<close>

lemma record_new_child:
  assumes "std_map_wf (fde_to_child_map fo)" "std_map_wf (long_name_to_fde_map fo)"
    and "map_of (long_name_to_fde_map fo) name = None" "\<not> map_contains (fde_to_child_map fo) i" "long_name_ok name" "\<not> fde_directory sh"
  shows "\<exists>child. fat_get_child ops fs name (record_child i sh name junk fo) = Some (NO_ERROR, Some (File_Child child), record_child i sh name junk fo) \<and>
      file_record child = sh \<and> file_record_index child = i"
    "get_dir_entry name (record_child i sh name junk fo) = (Some (sh, i), record_child i sh name junk fo)"
proof -
  let ?fo = "record_child i sh name junk fo"
  have n: "name \<noteq> []" using assms(5) by (simp add: long_name_ok_def)
  have "map_of (long_name_to_fde_map ?fo) name = Some i"
    "map_of (fde_to_child_map ?fo) i = Some \<lparr>long_fn = name, short_fn = junk, obj_fde_index = i, obj_fde = sh\<rparr>"
    using assms(1-4) n by (simp_all add: record_child_def Let_def smap.look_ins map_contains_def)
  then show g: "get_dir_entry name ?fo = (Some (sh, i), ?fo)" using get_dir_entry_long by fastforce
  show "\<exists>child. fat_get_child ops fs name ?fo = Some (NO_ERROR, Some (File_Child child), ?fo) \<and> file_record child = sh \<and> file_record_index child = i"
    using g assms(6) no_backslash [OF assms(5)] by (simp add: fat_get_child.simps [of ops fs name] fat_file_new_def Let_def)
qed

subsection \<open>Freeing entries\<close>

text \<open>The first of the long name entries that stand directly before entry \<open>i\<close>, and the table with the entries from \<open>a\<close> to before \<open>b\<close> marked as free.\<close>

fun group_start :: "fat_dir_entry list \<Rightarrow> nat \<Rightarrow> nat" where
  "group_start E 0 = 0"
| "group_start E (Suc i) = (if E ! i ! 11 = 0x0F then group_start E i else Suc i)"

definition mark_free :: "nat \<Rightarrow> nat \<Rightarrow> fat_dir_entry list \<Rightarrow> fat_dir_entry list" where
  "mark_free a b E = take a E @ map (\<lambda>e. e[0 := 0xE5]) (drop a (take b E)) @ drop b E"

lemma group_start_le: "group_start E i \<le> i"
  by (induction i) auto

lemma group_start_flags: "group_start E i \<le> k \<Longrightarrow> k < i \<Longrightarrow> E ! k ! 11 = 0x0F"
  by (induction i) (auto simp: less_Suc_eq split: if_splits)

lemma group_start_before: "group_start E i = Suc g \<Longrightarrow> E ! g ! 11 \<noteq> 0x0F"
  by (induction i) (auto split: if_splits)

lemma group_start_cong: "\<forall>k < i. D ! k ! 11 = E ! k ! 11 \<Longrightarrow> group_start D i = group_start E i"
  by (induction i) auto

lemma group_start_iff: "k \<le> i \<Longrightarrow> group_start E i \<le> k \<longleftrightarrow> (\<forall>j. k \<le> j \<and> j < i \<longrightarrow> E ! j ! 11 = 0x0F)"
  using group_start_le [of E] by (induction i) (auto simp: le_Suc_eq less_Suc_eq)

text \<open>The entries that are marked: the one at \<open>i\<close> and the long-name entries right before it.\<close>

lemma mark_free_nth:
  assumes "i < length E" "k < length E"
  shows "mark_free (group_start E i) (Suc i) E ! k =
    (if k \<le> i \<and> (\<forall>j. k \<le> j \<and> j < i \<longrightarrow> E ! j ! 11 = 0x0F) then (E ! k)[0 := 0xE5] else E ! k)"
proof -
  have "mark_free (group_start E i) (Suc i) E ! k = (if group_start E i \<le> k \<and> k \<le> i then (E ! k)[0 := 0xE5] else E ! k)"
    using assms group_start_le [of E i] by (auto simp: mark_free_def nth_append min_absorb1)
  then show ?thesis using group_start_iff [of k i E] by auto
qed

lemma mark_free_step: "a \<le> i \<Longrightarrow> i < length E \<Longrightarrow> mark_free a i (E[i := (E ! i)[0 := 0xE5]]) = mark_free a (Suc i) E"
  by (simp add: mark_free_def take_Suc_conv_app_nth upd_conv_take_nth_drop)

lemma mark_free_none [simp]: "a \<le> length E \<Longrightarrow> mark_free a a E = E"
  by (simp add: mark_free_def)

lemma scan_flagged:
  "\<forall>e \<in> set xs. e ! 0 \<noteq> 0 \<and> is_long_fn_entry e \<Longrightarrow>
   \<exists>t. scan_all i xs s = t \<and> long_name_to_fde_map t = long_name_to_fde_map s \<and> short_name_to_fde_map t = short_name_to_fde_map s \<and>
     fde_to_child_map t = fde_to_child_map s"
  by (induction xs arbitrary: i s) (auto simp: scan_entry_def)

text \<open>The scan of the table without the entries of a file finds the names of the others.\<close>

lemma scan_mark_free:
  assumes "reached E i" "\<forall>e \<in> set E. length e = 32" "g = group_start E i"
  shows "map_of (long_name_to_fde_map (scan_all 0 E (scan_start files))) x \<noteq> Some (of_nat i) \<Longrightarrow>
      map_of (long_name_to_fde_map (scan_all 0 (mark_free g (Suc i) E) (scan_start files))) x = map_of (long_name_to_fde_map (scan_all 0 E (scan_start files))) x"
    "map_of (short_name_to_fde_map (scan_all 0 E (scan_start files))) x \<noteq> Some (of_nat i) \<Longrightarrow>
      map_of (short_name_to_fde_map (scan_all 0 (mark_free g (Suc i) E) (scan_start files))) x = map_of (short_name_to_fde_map (scan_all 0 E (scan_start files))) x"
proof -
  let ?st = "scan_start files" and ?R = "drop (Suc i) E" and ?L = "drop g (take i E)"
  let ?s = "scan_all 0 (take g E) ?st"
  have i: "i < length E" "g \<le> i" and nz: "\<forall>k \<le> i. E ! k ! 0 \<noteq> 0" and sh: "E ! i ! 0 \<noteq> 0xE5" "\<not> is_long_fn_entry (E ! i)"
    using assms(1,3) group_start_le [of E i] by (auto simp: reached_def)
  have E: "E = take g E @ ?L @ E ! i # ?R"
  proof -
    have "take i E = take g E @ ?L" using i(2) by (metis append_take_drop_id min.absorb1 take_take)
    then show ?thesis using id_take_nth_drop [OF i(1)] by (metis append.assoc)
  qed
  have z: "\<forall>e \<in> set (take g E). e ! 0 \<noteq> 0" using nz i by (auto simp: in_set_conv_nth)
  have fl: "\<forall>e \<in> set ?L. e ! 0 \<noteq> 0 \<and> is_long_fn_entry e"
    using nz i group_start_flags [of E i] assms(3) by (auto simp: in_set_conv_nth is_long_fn_entry_def)
  have w: "scan_wf ?s" by (intro scan_all_wf scan_start_wf)
  have cl: "scan_clean ?s"
  proof (cases g)
    case (Suc h)
    then have "\<not> is_long_fn_entry (E ! h)" using group_start_before [of E i h] assms(3) by (simp add: is_long_fn_entry_def)
    moreover have "take g E = take h E @ [E ! h]" using Suc i by (simp add: take_Suc_conv_app_nth)
    ultimately show ?thesis using scan_all_append [of "take h E" 0 "[E ! h]" ?st] z by (auto intro!: scan_entry_clean)
  qed simp
  obtain t where t: "scan_all g ?L ?s = t" "long_name_to_fde_map t = long_name_to_fde_map ?s" "short_name_to_fde_map t = short_name_to_fde_map ?s"
    using scan_flagged [OF fl, of g ?s] by blast
  let ?u = "scan_entry (of_nat i) (E ! i) t"
  have wt: "scan_wf t" "scan_wf ?u" using t(1) w by (auto intro: scan_all_wf scan_entry_wf)
  have cu: "scan_clean ?u" using sh(2) by (intro scan_entry_clean) simp
  have "scan_all 0 E ?st = scan_all g (?L @ E ! i # ?R) ?s" by (subst E, subst scan_all_append [OF z]) (use i in simp)
  also have "\<dots> = scan_all i (E ! i # ?R) t" using fl i by (subst scan_all_append) (auto simp: t(1))
  finally have old: "scan_all 0 E ?st = scan_all (Suc i) ?R ?u" using nz by simp
  have m: "mark_free g (Suc i) E = take g E @ map (\<lambda>e. e[0 := 0xE5]) (?L @ [E ! i]) @ ?R"
    using i by (simp add: mark_free_def take_Suc_conv_app_nth)
  have "\<forall>e \<in> set (map (\<lambda>e. e[0 := 0xE5]) (?L @ [E ! i])). e ! 0 = 0xE5"
    using assms(2) i by (auto dest!: in_set_takeD in_set_dropD)
  from scan_free_run [OF cl this, of g ?R] have new: "scan_all 0 (mark_free g (Suc i) E) ?st = scan_all (Suc i) ?R ?s"
    unfolding m using i by (subst scan_all_append [OF z]) simp
  let ?X = "{x. map_of (long_name_to_fde_map ?u) x \<noteq> map_of (long_name_to_fde_map ?s) x}" and ?Y = "{x. map_of (short_name_to_fde_map ?u) x \<noteq> map_of (short_name_to_fde_map ?s) x}"
  have "scan_sim ?X ?Y ?s ?u" using w wt cl cu by (simp add: scan_sim_def scan_clean_def)
  from scan_sim_all [OF this, of "Suc i" ?R] have sim: "scan_sim ?X ?Y (scan_all 0 (mark_free g (Suc i) E) ?st) (scan_all 0 E ?st)" by (simp only: old new)
  have X: "map_of (long_name_to_fde_map ?u) x = Some (of_nat i)" if "x \<in> ?X"
    using that t(2) wt(1) by (auto simp: scan_entry_def scan_short_entry_def Let_def scan_wf_def smap.look_ins split: if_splits option.splits)
  have Y: "map_of (short_name_to_fde_map ?u) x = Some (of_nat i)" if "x \<in> ?Y"
    using that t(3) wt(1) by (auto simp: scan_entry_def scan_short_entry_def Let_def scan_wf_def smap.look_ins split: if_splits option.splits)
  show "map_of (long_name_to_fde_map (scan_all 0 (mark_free g (Suc i) E) ?st)) x = map_of (long_name_to_fde_map (scan_all 0 E ?st)) x"
    if "map_of (long_name_to_fde_map (scan_all 0 E ?st)) x \<noteq> Some (of_nat i)"
    using sim X that scan_extend [OF wt(2), of x _ "Suc i" ?R] by (auto simp: scan_sim_def old)
  show "map_of (short_name_to_fde_map (scan_all 0 (mark_free g (Suc i) E) ?st)) x = map_of (short_name_to_fde_map (scan_all 0 E ?st)) x"
    if "map_of (short_name_to_fde_map (scan_all 0 E ?st)) x \<noteq> Some (of_nat i)"
    using sim Y that scan_extend_short [OF wt(2), of x _ "Suc i" ?R] by (auto simp: scan_sim_def old)
qed

context block_device
begin

lemma scan_loop_spec:
  assumes "dir_on ops running bytes fs f cs E"
  shows "i \<le> length E \<Longrightarrow> length E - i < n \<Longrightarrow> length buf = 32 \<Longrightarrow> hd (folder_files s) = f \<Longrightarrow>
    scan_loop n ops fs (of_nat i) buf s = Some (scan_all i (drop i E) s)"
proof (induction n arbitrary: i buf s)
  case (Suc n)
  show ?case
  proof (cases "i = length E")
    case True
    then show ?thesis using dir_read_end [OF assms Suc.prems(3)] Suc.prems(4) by auto
  next
    case False
    then have i: "i < length E" using Suc.prems(1) by simp
    have "scan_loop n ops fs (of_nat (Suc i)) (E ! i) (scan_entry (of_nat i) (E ! i) s) = Some (scan_all (Suc i) (drop (Suc i) E) (scan_entry (of_nat i) (E ! i) s))"
      using Suc.IH [of "Suc i"] Suc.prems i dir_entry_length [OF assms i] by simp
    then show ?thesis using dir_read [OF assms i Suc.prems(3)] Suc.prems(4) i by (simp add: Cons_nth_drop_Suc [symmetric] add.commute)
  qed
qed simp

lemma find_space_spec:
  assumes "dir_on ops running bytes fs f cs E" "0 < num" "z < length E" "E ! z ! 0 = 0"
  shows "i \<le> z \<Longrightarrow> z - i < n \<Longrightarrow> length buf = 32 \<Longrightarrow> search_inv E num i first spaces mid \<Longrightarrow>
    \<exists>p eod. find_space n ops fs f num (of_nat i) (of_nat first) spaces mid buf = Some (NO_ERROR, of_nat p, eod) \<and> p \<le> z \<and> place E num p eod"
proof (induction n arbitrary: i first spaces mid buf)
  case (Suc n)
  have i: "i < length E" using Suc.prems(1) assms(3) by simp
  note r = dir_read [OF assms(1) i Suc.prems(3)]
  let ?in_use = "E ! i ! 0 \<noteq> 0xE5"
  let ?spaces = "if ?in_use then 0 else if mid then spaces + 1 else 1" and ?first = "if ?in_use \<or> mid then first else i"
  show ?case
  proof (cases "E ! i ! 0 = 0")
    case True
    let ?p = "if mid then first else i"
    have "?p \<le> z" using Suc.prems(1,4) by (auto simp: search_inv_def)
    moreover have "find_space (Suc n) ops fs f num (of_nat i) (of_nat first) spaces mid buf = Some (NO_ERROR, of_nat ?p, True)" using r True by simp
    ultimately show ?thesis using search_end [OF Suc.prems(4) i True assms(2)] by blast
  next
    case False
    note st = search_step [OF Suc.prems(4) False assms(2) i refl refl refl]
    have "i < z" using False assms(4) Suc.prems(1) by (cases "i = z") auto
    show ?thesis
    proof (cases "?spaces = num")
      case True
      have f: "?first \<le> z" using Suc.prems(1,4) True assms(2) by (auto simp: search_inv_def split: if_splits)
      have "find_space (Suc n) ops fs f num (of_nat i) (of_nat first) spaces mid buf = Some (NO_ERROR, of_nat ?first, False)"
        using r False True by (auto simp: Let_def)
      then show ?thesis using st(1) [OF True] f by blast
    next
      case ne: False
      have "\<exists>p eod. find_space n ops fs f num (of_nat (Suc i)) (of_nat ?first) ?spaces (\<not> ?in_use) (E ! i) = Some (NO_ERROR, of_nat p, eod) \<and> p \<le> z \<and> place E num p eod"
        by (rule Suc.IH [OF _ _ _ st(2) [OF ne]]) (use \<open>i < z\<close> Suc.prems(2) dir_entry_length [OF assms(1) i] in auto)
      moreover have "find_space (Suc n) ops fs f num (of_nat i) (of_nat first) spaces mid buf =
          find_space n ops fs f num (of_nat (Suc i)) (of_nat ?first) ?spaces (\<not> ?in_use) (E ! i)"
        using r False ne by (simp add: Let_def add.commute)
      ultimately show ?thesis by metis
    qed
  qed
qed simp

lemma write_fdes_spec:
  assumes "dir_on ops running bytes fs f cs E" "p + length G \<le> length E" "\<forall>e \<in> set G. length e = 32"
    "\<forall>s\<in>set (chain_sectors fs cs). writable (fs_storage fs) s"
  shows "\<exists>v. write_fdes ops (of_nat p) G (f # parents) fs = Some (NO_ERROR, f # parents, fs\<lparr>fs_storage := v\<rparr>) \<and>
    dir_on ops running bytes (fs\<lparr>fs_storage := v\<rparr>) f cs (take p E @ G @ drop (p + length G) E) \<and> sectors_kept bytes fs cs v \<and>
    (\<forall>s\<in>set (chain_sectors fs cs). writable v s)"
  using assms
proof (induction G arbitrary: fs E p)
  case Nil
  then show ?case by (intro exI [of _ "fs_storage fs"]) (simp add: sectors_kept_def)
next
  case (Cons e G)
  have p: "p < length E" "length e = 32" using Cons.prems by auto
  obtain v where v: "write_fde ops (of_nat p) e (f # parents) fs = Some (NO_ERROR, f # parents, fs\<lparr>fs_storage := v\<rparr>)"
    "dir_on ops running bytes (fs\<lparr>fs_storage := v\<rparr>) f cs (E[p := e])" "sectors_kept bytes fs cs v"
    "\<forall>s\<in>set (chain_sectors fs cs). writable v s"
    by (rule dir_write [OF Cons.prems(1) p Cons.prems(4)])
  let ?fs = "fs\<lparr>fs_storage := v\<rparr>"
  obtain w where w: "write_fdes ops (of_nat (Suc p)) G (f # parents) ?fs = Some (NO_ERROR, f # parents, ?fs\<lparr>fs_storage := w\<rparr>)"
    "dir_on ops running bytes (?fs\<lparr>fs_storage := w\<rparr>) f cs (take (Suc p) (E[p := e]) @ G @ drop (Suc p + length G) (E[p := e]))" "sectors_kept bytes ?fs cs w"
    "\<forall>s\<in>set (chain_sectors ?fs cs). writable w s"
    using Cons.IH [OF v(2), of "Suc p"] Cons.prems(2,3) v(4) by auto
  have "take (Suc p) (E[p := e]) @ G @ drop (Suc p + length G) (E[p := e]) = take p E @ (e # G) @ drop (p + length (e # G)) E"
    using p(1) by (simp add: take_Suc_conv_app_nth)
  then show ?case using v(1) w sectors_kept_trans [OF v(3) w(3)] by (auto simp: add.commute)
qed

lemma add_entries_spec:
  assumes "dir_on ops running bytes fs f cs E" "G \<noteq> []" "\<forall>e \<in> set G. length e = 32" "\<forall>s\<in>set (chain_sectors fs cs). writable (fs_storage fs) s"
    and "E ! z ! 0 = 0" "z + length G < length E"
  obtains v p eod where "add_directory_entries ops G (f # parents) fs = Some (NO_ERROR, Some (of_nat (p + length G - 1)), f # parents, fs\<lparr>fs_storage := v\<rparr>)"
    "p \<le> z" "place E (length G) p eod" "dir_on ops running bytes (fs\<lparr>fs_storage := v\<rparr>) f cs (new_table E G p eod)" "sectors_kept bytes fs cs v"
proof -
  let ?n = "length G"
  have b: "length E < 65535" "z < length E" using assms(1,6) by (auto simp: dir_on_def)
  obtain p eod where p: "find_space 65535 ops fs f ?n 0 0 0 False (replicate 32 0) = Some (NO_ERROR, of_nat p, eod)" "p \<le> z" "place E ?n p eod"
    using find_space_spec [OF assms(1) _ b(2) assms(5), of ?n 0 65535 "replicate 32 0" 0 0 False] assms(2) b by (auto simp: search_inv_def)
  obtain v where v: "write_fdes ops (of_nat p) G (f # parents) fs = Some (NO_ERROR, f # parents, fs\<lparr>fs_storage := v\<rparr>)"
    "dir_on ops running bytes (fs\<lparr>fs_storage := v\<rparr>) f cs (take p E @ G @ drop (p + ?n) E)" "sectors_kept bytes fs cs v"
    "\<forall>s\<in>set (chain_sectors fs cs). writable v s"
    using write_fdes_spec [OF assms(1) _ assms(3,4), of p parents] p(2) assms(6) by auto
  have idx: "of_nat p + of_nat ?n - 1 = (of_nat (p + ?n - 1) :: u32)" using assms(2) by (cases G) simp_all
  show thesis
  proof (cases eod)
    case False
    then show thesis using that [of p v False] p v idx by (simp add: add_directory_entries_def new_table_def)
  next
    case True
    let ?E = "take p E @ G @ drop (p + ?n) E" and ?fs = "fs\<lparr>fs_storage := v\<rparr>"
    have l: "p + ?n < length ?E" using p(2) assms(6) by simp
    obtain w where w: "write_fde ops (of_nat (p + ?n)) (replicate 32 0) (f # parents) ?fs = Some (NO_ERROR, f # parents, ?fs\<lparr>fs_storage := w\<rparr>)"
      "dir_on ops running bytes (?fs\<lparr>fs_storage := w\<rparr>) f cs (?E[p + ?n := replicate 32 0])" "sectors_kept bytes ?fs cs w"
      by (rule dir_write [OF v(2) l, of "replicate 32 0" parents]) (use v(4) in auto)
    have d: "drop (p + ?n) E = E ! (p + ?n) # drop (Suc (p + ?n)) E" using p(2) assms(6) by (simp add: Cons_nth_drop_Suc)
    have "?E[p + ?n := replicate 32 0] = new_table E G p True"
      unfolding new_table_def d using p(2) assms(6) by (simp add: list_update_append)
    then show thesis using that [of p w True] p v(1) w sectors_kept_trans [OF v(3) w(3)] True idx
      by (simp add: add_directory_entries_def)
  qed
qed

text \<open>A folder that is opened knows what the scan of its table finds.\<close>

lemma folder_new_spec:
  assumes "dir_on ops running bytes fs f cs E" "fat_file_new fs fde idx root = Some f"
  shows "fat_folder_new ops fs fde idx parents root = Some (fat_folder.truncate (scan_all 0 E (scan_start (f # parents))))"
proof -
  have "scan_loop (unat (fat_file_size f) div 32 + 2) ops fs (of_nat 0) (replicate 32 0) (scan_start (f # parents)) = Some (scan_all 0 (drop 0 E) (scan_start (f # parents)))"
    using dir_size [OF assms(1)] by (intro scan_loop_spec [OF assms(1)]) (simp_all add: scan_start_def)
  then show ?thesis using assms(2) by (simp add: fat_folder_new_def del: scan_loop.simps)
qed

lemma create_spec:
  assumes "dir_on ops running bytes fs f cs E" "\<forall>s\<in>set (chain_sectors fs cs). writable (fs_storage fs) s" "dir_closed E"
    and "length fde = 32" "fat_file_new fs fde idx root = Some f" "fat_folder_new ops fs fde idx parents root = Some fo"
    and "fst (get_dir_entry name fo) = None" "populate_short_name name = None" "long_name_ok name" "lfn_count name \<le> 19"
    and "is_valid_filename_char (char_u16 (hd name)) False" "generate_basis_name_entry name (replicate 32 0) fo = Some (True, sh, fo1)"
    and "E ! z ! 0 = 0" "z + lfn_count name + 1 < length E"
  obtains v child fo2 fo3 i where "fat_create_child ops name fo fs = Some (NO_ERROR, Some (File_Child child), fo2, fs\<lparr>fs_storage := v\<rparr>)"
    "file_record child = fde_set_archive sh" "file_record_index child = i" "get_dir_entry name fo2 = (Some (fde_set_archive sh, i), fo2)"
    "fat_folder_new ops (fs\<lparr>fs_storage := v\<rparr>) fde idx parents root = Some fo3" "map_of (long_name_to_fde_map fo3) name = Some i"
    "\<forall>x. x \<noteq> name \<longrightarrow> map_of (long_name_to_fde_map fo3) x = map_of (long_name_to_fde_map fo) x"
    "\<forall>x. x \<noteq> short_name_from_fde sh \<longrightarrow> map_of (short_name_to_fde_map fo3) x = map_of (short_name_to_fde_map fo) x"
    "sectors_kept bytes fs cs v"
proof -
  let ?s = "scan_all 0 E (scan_start (f # parents))" and ?n = "lfn_count name" and ?sh = "fde_set_archive sh"
  have fo: "fo = fat_folder.truncate ?s" using folder_new_spec [OF assms(1,5), of parents] assms(6) by simp
  have w: "scan_wf ?s" by (intro scan_all_wf) simp
  have "names_known ?s" by (intro scan_all_known scan_start_wf) (simp add: names_known_def scan_start_def)
  then have kn: "names_known fo" by (simp add: fo names_known_def fat_folder.truncate_def)
  have fo1: "fo1 = fo" by (rule basis_entry_same [OF kn assms(12)])
  have g0: "get_dir_entry name fo = (None, fo)" using assms(7) get_dir_entry_same [OF kn, of name] by (metis prod.collapse)
  have nm: "map_of (long_name_to_fde_map fo) name = None" using assms(7) by (simp add: get_dir_entry_None)
  obtain c cs' where name: "name = c # cs'" using assms(9) by (cases name) (auto simp: long_name_ok_def)
  have st: "short_start sh c" using basis_entry_start [of c cs' "replicate 32 0"] assms(11,12) name by simp
  have asc: "ascii c" using assms(9) name by (simp add: long_name_ok_def)
  have sh: "live ?sh" "\<not> is_long_fn_entry ?sh" "length ?sh = 32" "\<not> fde_directory ?sh" "short_name_from_fde ?sh = short_name_from_fde sh"
    "short_name_from_fde ?sh \<noteq> ''.''" "short_name_from_fde ?sh \<noteq> ''..''" "generate_short_name_checksum ?sh = generate_short_name_checksum sh"
    using short_entry_ok [OF st asc] assms(11) name by simp_all
  obtain fdes junk where pf: "populate_fdes_from_name name (replicate 21 (replicate 32 0)) True fo = Some (True, fdes, ?n + 1, name, junk, fo)"
    "length fdes = 21" "fdes ! ?n = sh" "lfn_group name (take ?n fdes) sh"
    using populate_fdes_long [OF assms(8-10)] assms(12) fo1 by blast
  let ?L = "take ?n fdes"
  have L: "lfn_group name ?L ?sh" "length ?L = ?n" using pf(4) sh(8) by (auto simp: lfn_group_def)
  have tk: "take (?n + 1) (fdes[?n := ?sh]) = ?L @ [?sh]" using pf(2) assms(10) by (simp add: take_Suc_conv_app_nth)
  have n0: "0 < ?n" by (rule lfn_count_bounds [OF assms(9)])
  obtain v p eod where a: "add_directory_entries ops (?L @ [?sh]) (f # parents) fs = Some (NO_ERROR, Some (of_nat (p + length (?L @ [?sh]) - 1)), f # parents, fs\<lparr>fs_storage := v\<rparr>)"
    "p \<le> z" "place E (length (?L @ [?sh])) p eod" "dir_on ops running bytes (fs\<lparr>fs_storage := v\<rparr>) f cs (new_table E (?L @ [?sh]) p eod)" "sectors_kept bytes fs cs v"
    by (rule add_entries_spec [OF assms(1) _ _ assms(2,13), of "?L @ [?sh]"]) (use L sh(3) assms(14) in \<open>auto simp: lfn_group_def\<close>)
  let ?i = "of_nat (p + ?n) :: u32" and ?fs = "fs\<lparr>fs_storage := v\<rparr>"
  have pl: "place E (Suc (length ?L)) p eod" using a(3) by simp
  note scan = scan_new_table [OF pl assms(3) L(1) _ _ sh(1,2,6,7), of "f # parents"]
  have ne: "?L \<noteq> []" "name \<noteq> []" using n0 L(2) name by auto
  have nm': "map_of (long_name_to_fde_map ?s) name = None" using nm by (simp add: fo fat_folder.truncate_def)
  have "length E < 65535" using assms(1) by (simp add: dir_on_def)
  then have new: "\<not> map_contains (fde_to_child_map fo) ?i"
    using place_not_reached [OF pl] scan_children_reached [of E "f # parents" "p + ?n"] a(2) assms(14) L(2) by (auto simp: fo fat_folder.truncate_def)
  have "fat_file_new ?fs fde idx root = Some f"
  proof -
    have "fat_wf fs" "\<not> is_small_fat_root_dir f" "fat_chain fs (fde_first_cluster (file_record f)) cs"
      using assms(1) by (auto simp: dir_on_def file_on_def volume_on_def)
    then show ?thesis using file_new_storage [of fs fde cs v idx root] file_new_cluster [OF assms(4,5)] assms(4,5) by simp
  qed
  then have re: "fat_folder_new ops ?fs fde idx parents root = Some (fat_folder.truncate (scan_all 0 (new_table E (?L @ [?sh]) p eod) (scan_start (f # parents))))"
    by (rule folder_new_spec [OF a(4)])
  let ?fo = "record_child ?i ?sh name junk fo"
  have files: "folder_files fo = f # parents" "fo\<lparr>folder_files := f # parents\<rparr> = fo" by (simp_all add: fo fat_folder.truncate_def scan_start_def)
  have wf: "std_map_wf (fde_to_child_map fo)" "std_map_wf (long_name_to_fde_map fo)" using w by (simp_all add: fo scan_wf_def fat_folder.truncate_def)
  obtain child where ch: "fat_get_child ops ?fs name ?fo = Some (NO_ERROR, Some (File_Child child), ?fo)" "file_record child = ?sh" "file_record_index child = ?i"
    using record_new_child(1) [OF wf nm new assms(9) sh(4)] by blast
  have "fat_create_child ops name fo fs = Some (NO_ERROR, Some (File_Child child), ?fo, ?fs)"
    using g0 pf(1-3) tk a(1) files(1) ch(1) L(2) assms(10) by (simp add: fat_create_child_def Let_def files(2))
  then show thesis
    by (rule that [OF _ ch(2,3) record_new_child(2) [OF wf nm new assms(9) sh(4)] re])
       (use scan [OF ne nm'] L(2) sh(5) a(5) in \<open>auto simp: scan_sim_def fo fat_folder.truncate_def\<close>)
qed

lemma unlink_loop_spec:
  assumes "dir_on ops running bytes fs f cs E" "i \<le> length E" "length buf = 32" "\<forall>s\<in>set (chain_sectors fs cs). writable (fs_storage fs) s"
  shows "\<exists>v. unlink_loop ops i NO_ERROR buf (f # parents) fs = Some (NO_ERROR, f # parents, fs\<lparr>fs_storage := v\<rparr>) \<and>
    dir_on ops running bytes (fs\<lparr>fs_storage := v\<rparr>) f cs (mark_free (group_start E i) i E) \<and> sectors_kept bytes fs cs v"
  using assms
proof (induction i arbitrary: fs E buf)
  case 0
  then show ?case by (intro exI [of _ "fs_storage fs"]) (simp add: sectors_kept_def)
next
  case (Suc i)
  have i: "i < length E" using Suc.prems(2) by simp
  note r = dir_read [OF Suc.prems(1) i Suc.prems(3)]
  show ?case
  proof (cases "E ! i ! 11 = 0x0F")
    case False
    then show ?thesis using r Suc.prems(1,2) by (intro exI [of _ "fs_storage fs"]) (simp add: sectors_kept_def)
  next
    case True
    let ?e = "(E ! i)[0 := 0xE5]"
    have l: "length ?e = 32" using dir_entry_length [OF Suc.prems(1) i] by simp
    obtain v where v: "write_fde ops (of_nat i) ?e (f # parents) fs = Some (NO_ERROR, f # parents, fs\<lparr>fs_storage := v\<rparr>)"
      "dir_on ops running bytes (fs\<lparr>fs_storage := v\<rparr>) f cs (E[i := ?e])" "sectors_kept bytes fs cs v"
      "\<forall>s\<in>set (chain_sectors fs cs). writable v s"
      by (rule dir_write [OF Suc.prems(1) i l Suc.prems(4)])
    have gs: "group_start (E[i := ?e]) i = group_start E i" by (rule group_start_cong) simp
    obtain w where w: "unlink_loop ops i NO_ERROR ?e (f # parents) (fs\<lparr>fs_storage := v\<rparr>) = Some (NO_ERROR, f # parents, fs\<lparr>fs_storage := w\<rparr>)"
      "dir_on ops running bytes (fs\<lparr>fs_storage := w\<rparr>) f cs (mark_free (group_start E i) (Suc i) E)" "sectors_kept bytes (fs\<lparr>fs_storage := v\<rparr>) cs w"
      using Suc.IH [OF v(2) _ l] i v(4) mark_free_step [OF group_start_le i] gs by auto
    then show ?thesis using r v(1) True sectors_kept_trans [OF v(3) w(3)] by (intro exI [of _ w]) simp
  qed
qed

lemma unlink_spec:
  assumes "dir_on ops running bytes fs f cs E" "i < length E" "length buf = 32" "\<forall>s\<in>set (chain_sectors fs cs). writable (fs_storage fs) s" "E ! i ! 11 \<noteq> 0x0F"
  shows "\<exists>v. unlink_fdes ops (of_nat i) buf (f # parents) fs = Some (NO_ERROR, f # parents, fs\<lparr>fs_storage := v\<rparr>) \<and>
    dir_on ops running bytes (fs\<lparr>fs_storage := v\<rparr>) f cs (mark_free (group_start E i) (Suc i) E) \<and> sectors_kept bytes fs cs v"
proof -
  let ?e = "(E ! i)[0 := 0xE5]"
  have l: "length ?e = 32" using dir_entry_length [OF assms(1,2)] by simp
  obtain v where v: "write_fde ops (of_nat i) ?e (f # parents) fs = Some (NO_ERROR, f # parents, fs\<lparr>fs_storage := v\<rparr>)"
    "dir_on ops running bytes (fs\<lparr>fs_storage := v\<rparr>) f cs (E[i := ?e])" "sectors_kept bytes fs cs v"
    "\<forall>s\<in>set (chain_sectors fs cs). writable v s"
    by (rule dir_write [OF assms(1,2) l assms(4)])
  have gs: "group_start (E[i := ?e]) i = group_start E i" by (rule group_start_cong) simp
  obtain w where w: "unlink_loop ops i NO_ERROR ?e (f # parents) (fs\<lparr>fs_storage := v\<rparr>) = Some (NO_ERROR, f # parents, fs\<lparr>fs_storage := w\<rparr>)"
    "dir_on ops running bytes (fs\<lparr>fs_storage := w\<rparr>) f cs (mark_free (group_start E i) (Suc i) E)" "sectors_kept bytes (fs\<lparr>fs_storage := v\<rparr>) cs w"
    using unlink_loop_spec [OF v(2) _ l, of i parents] assms(2) v(4) mark_free_step [OF group_start_le assms(2)] gs by auto
  have "length E < 65535" using assms(1) by (simp add: dir_on_def)
  then have u: "unat (of_nat i :: u32) = i" using assms(2) by (simp add: unat_of_nat)
  show ?thesis using dir_read [OF assms(1-3)] v(1) w assms(5) u sectors_kept_trans [OF v(3) w(3)]
    by (intro exI [of _ w]) (simp add: unlink_fdes_def)
qed

lemma delete_spec:
  assumes "dir_on ops running bytes fs f cs E" "\<forall>s\<in>set (chain_sectors fs cs). writable (fs_storage fs) s" "length fde = 32"
    and "fat_file_new fs fde idx root = Some f" "fat_folder_new ops fs fde idx parents root = Some fo"
    and "fst (get_dir_entry name fo) = Some (e, i)" "length storage = 32"
  obtains v fo2 fo3 where "fat_delete_child ops name storage fo fs = Some (NO_ERROR, fo2, fs\<lparr>fs_storage := v\<rparr>)"
    "fat_folder_new ops (fs\<lparr>fs_storage := v\<rparr>) fde idx parents root = Some fo3" "sectors_kept bytes fs cs v"
    "\<forall>x. map_of (long_name_to_fde_map fo3) x \<noteq> Some i \<and> map_of (short_name_to_fde_map fo3) x \<noteq> Some i"
    "\<forall>x. map_of (long_name_to_fde_map fo) x \<noteq> Some i \<longrightarrow> map_of (long_name_to_fde_map fo3) x = map_of (long_name_to_fde_map fo) x"
    "\<forall>x. map_of (short_name_to_fde_map fo) x \<noteq> Some i \<longrightarrow> map_of (short_name_to_fde_map fo3) x = map_of (short_name_to_fde_map fo) x"
    "unat i < length E" "dir_on ops running bytes (fs\<lparr>fs_storage := v\<rparr>) f cs (mark_free (group_start E (unat i)) (Suc (unat i)) E)"
    "length (mark_free (group_start E (unat i)) (Suc (unat i)) E) = length E"
proof -
  let ?st = "scan_start (f # parents)"
  let ?s = "scan_all 0 E ?st"
  have fo: "fo = fat_folder.truncate ?s" using folder_new_spec [OF assms(1,4), of parents] assms(5) by simp
  have start: "names_known ?st" by (simp add: names_known_def scan_start_def)
  have "names_known ?s" by (rule scan_all_known [OF scan_start_wf start])
  then have kn: "names_known fo" by (simp add: fo names_known_def fat_folder.truncate_def)
  have g: "get_dir_entry name fo = (Some (e, i), fo)" using assms(6) get_dir_entry_same [OF kn, of name] by (metis prod.collapse)
  then have "map_contains (fde_to_child_map fo) i"
    using kn by (auto simp: get_dir_entry_def names_known_def Let_def split: option.splits prod.splits)
  then have mi: "map_contains (fde_to_child_map ?s) i" by (simp add: fo fat_folder.truncate_def)
  obtain k where k: "i = of_nat k" "reached E k"
    using mi scan_all_children [of 0 E ?st] by (auto simp: map_contains_iff scan_start_def)
  have kl: "k < length E" "E ! k ! 11 \<noteq> 0x0F" using k(2) by (auto simp: reached_def is_long_fn_entry_def)
  have f: "folder_files (forget_child i fo) = f # parents"
    by (simp add: forget_child_def Let_def fo fat_folder.truncate_def scan_start_def split: option.splits)
  obtain v where v: "unlink_fdes ops i storage (f # parents) fs = Some (NO_ERROR, f # parents, fs\<lparr>fs_storage := v\<rparr>)"
    "dir_on ops running bytes (fs\<lparr>fs_storage := v\<rparr>) f cs (mark_free (group_start E k) (Suc k) E)" "sectors_kept bytes fs cs v"
    using unlink_spec [OF assms(1) kl(1) assms(7,2) kl(2), of parents] k(1) by auto
  let ?E = "mark_free (group_start E k) (Suc k) E" and ?fs = "fs\<lparr>fs_storage := v\<rparr>"
  have "fat_file_new ?fs fde idx root = Some f"
  proof -
    have "fat_wf fs" "\<not> is_small_fat_root_dir f" "fat_chain fs (fde_first_cluster (file_record f)) cs"
      using assms(1) by (auto simp: dir_on_def file_on_def volume_on_def)
    then show ?thesis using file_new_storage [of fs fde cs v idx root] file_new_cluster [OF assms(3,4)] assms(3,4) by simp
  qed
  then have re: "fat_folder_new ops ?fs fde idx parents root = Some (fat_folder.truncate (scan_all 0 ?E ?st))"
    by (rule folder_new_spec [OF v(2)])
  have E: "\<forall>e \<in> set E. length e = 32" "length E < 65535" using assms(1) by (auto simp: dir_on_def)
  have del: "fat_delete_child ops name storage fo fs = Some (NO_ERROR, (forget_child i fo)\<lparr>folder_files := f # parents\<rparr>, ?fs)"
    using g f v(1) by (simp add: fat_delete_child_def Let_def)
  have "\<not> reached ?E k"
  proof -
    have "group_start E k \<le> k" "k - group_start E k < Suc k - group_start E k" using group_start_le [of E k] by linarith+
    then have "?E ! k = (E ! k)[0 := 0xE5]" using kl(1) by (simp add: mark_free_def nth_append)
    then show ?thesis using E(1) kl(1) by (auto simp: reached_def)
  qed
  moreover have "length ?E = length E" using kl(1) group_start_le [of E k] by (simp add: mark_free_def)
  moreover have ik: "unat i = k" using k(1) kl(1) E(2) by (simp add: unat_of_nat)
  ultimately have gone: "\<not> map_contains (fde_to_child_map (scan_all 0 ?E ?st)) i" and len: "length ?E = length E"
    using scan_children_reached [of ?E "f # parents" k] kl(1) E(2) k(1) by auto
  have "names_known (scan_all 0 ?E ?st)" by (rule scan_all_known [OF scan_start_wf start])
  then have none: "map_of (long_name_to_fde_map (scan_all 0 ?E ?st)) x \<noteq> Some i \<and> map_of (short_name_to_fde_map (scan_all 0 ?E ?st)) x \<noteq> Some i" for x
    using gone by (auto simp: names_known_def)
  show thesis
    by (rule that [OF del re v(3)])
       (use none scan_mark_free [OF k(2) E(1) refl, of "f # parents"] v(2) kl(1) len ik in \<open>auto simp: fo fat_folder.truncate_def k(1)\<close>)
qed

end

subsection \<open>Properties\<close>

text \<open>
  A volume with sectors of 32 bytes whose folder in the clusters 2, 3 and 5 has the table \<open>E\<close> of six entries.
\<close>

definition table_volume :: "fat_dir_entry list \<Rightarrow> ramdisk fat_fs" where
  "table_volume E = (sample_volume \<lparr>rd_status = DEV_OK, rd_num_blocks = 16, rd_block_size = 32, rd_storage_size = 512,
     rd_storage = Some (replicate 128 0 @ concat (take 4 E) @ replicate 64 0 @ concat (drop 4 E) @ replicate 128 0)\<rparr>)
     \<lparr>fs_bpb := sample_bpb\<lparr>shared := (shared sample_bpb)\<lparr>bytes_per_sec := 32\<rparr>\<rparr>\<rparr>"

definition table_fde :: fat_dir_entry where
  "table_fde = fde_set_directory (fde_set_first_cluster 0 2 (replicate 32 0))"

definition table_file :: fat_file where
  "table_file = \<lparr>file_record = fde_set_file_size 192 table_fde, is_root_directory = False, is_small_fat_root_dir = False, file_record_index = 0\<rparr>"

lemma table_fde_laws: "length table_fde = 32" "fde_directory table_fde" "fde_first_cluster table_fde = 2"
proof -
  have "length (fde_set_first_cluster 0 2 (replicate 32 0)) = 32" by (simp add: fde_cluster_laws)
  then show "length table_fde = 32" "fde_directory table_fde" "fde_first_cluster table_fde = 2"
    by (simp_all add: table_fde_def fde_directory_laws fde_cluster_number)
qed

lemma table_chain: "fat_wf (table_volume E)" "volume_fits (table_volume E)" "fat_chain (table_volume E) 2 [2, 3, 5]"
proof -
  have r: "raw_fat (table_volume E) = sample_fat" "fat_type (table_volume E) = FAT12" "number_of_clusters (table_volume E) = 6"
    by (simp_all add: table_volume_def sample_volume_def)
  then show "fat_wf (table_volume E)" by (simp add: fat_wf_def table_volume_def sample_volume_simps max_clusters_def fat_offset_def entry_bytes_def)
  show "volume_fits (table_volume E)" by (simp add: volume_fits_def table_volume_def sample_volume_simps)
  have "fat_map (table_volume E) 2 = 3" "fat_map (table_volume E) 3 = 5" "fat_map (table_volume E) 5 = 0xFFF"
    using r by (simp_all add: fat_map_def read_fat_entry_def valid_cluster_def sample_fat_def fat_offset_def entry_bytes_def le_at_def)
  then show "fat_chain (table_volume E) 2 [2, 3, 5]" using r by (simp add: valid_cluster_def is_normal_cluster_number_def)
qed

lemma table_file_new: "fat_file_new (table_volume E) table_fde 0 False = Some table_file"
proof -
  have "count_clusters (table_volume E) 2 0 = Some 3" using count_clusters_chain [OF table_chain(1,3), of E 0] by simp
  then show ?thesis
    by (simp add: fat_file_new_def table_fde_laws table_file_def Let_def) (simp add: table_volume_def sample_volume_simps)
qed

lemma table_sectors: "chain_sectors (table_volume E) [2, 3, 5] = [4, 5, 6, 7, 10, 11]"
  by (simp add: chain_sectors_def cluster_sectors_def convert_cluster_to_sector_num_def is_normal_cluster_number_def table_volume_def sample_volume_simps upt_rec)

lemma table_writable: "\<forall>s \<in> set (chain_sectors (table_volume E) [2, 3, 5]). rd_writable (fs_storage (table_volume E)) s"
  unfolding table_sectors by (simp add: rd_writable_def table_volume_def sample_volume_def)

lemma scan_blank: "scan_all i (replicate n (replicate 32 0)) s = s"
  by (cases n) (auto simp: numeral_eq_Suc)

lemma table_dir:
  assumes "length E = 6" "\<forall>e \<in> set E. length e = 32"
  shows "dir_on ramdisk_ops rd_running rd_bytes (table_volume E) table_file [2, 3, 5] E"
proof -
  have b: "bps (table_volume E) = 32" by (simp add: table_volume_def sample_volume_simps)
  obtain e0 e1 e2 e3 e4 e5 where E: "E = [e0, e1, e2, e3, e4, e5]" using assms(1) by (auto simp: numeral_eq_Suc length_Suc_conv)
  have disk: "rd_bytes (fs_storage (table_volume E)) = replicate 128 0 @ e0 @ e1 @ e2 @ e3 @ replicate 64 0 @ e4 @ e5 @ replicate 128 0"
    by (simp add: table_volume_def sample_volume_def rd_bytes_def E)
  have "chain_bytes rd_bytes (table_volume E) [2, 3, 5] = concat E"
    using assms(2) unfolding chain_bytes_def table_sectors b disk by (simp add: sector_bytes_def E)
  moreover have "fde_first_cluster (file_record table_file) = 2" "fat_file_size table_file = of_nat (32 * length E)"
    using table_fde_laws assms(1) by (simp_all add: table_file_def fat_file_size_def fde_size_laws)
  moreover have "rd_running (fs_storage (table_volume E))" using assms(2) by (simp add: rd_running_def table_volume_def sample_volume_def E)
  ultimately show ?thesis using table_chain [of E] assms
    by (simp add: dir_on_def file_on_def volume_on_def b table_file_def) (simp add: table_volume_def sample_volume_simps ramdisk_ops_def)
qed

text \<open>
  Opening a folder: the loop over the directory entries ends, at an entry that begins with zero or behind the last cluster, and the folder knows
  the names that a scan of the table of entries finds.
\<close>

theorem folder_open_correct:
  assumes "dir_on ramdisk_ops rd_running rd_bytes fs f cs E" and "fat_file_new fs fde idx root = Some f"
  shows "fat_folder_new ramdisk_ops fs fde idx parents root = Some (fat_folder.truncate (scan_all 0 E (scan_start (f # parents))))"
  by (rule rd.folder_new_spec [OF assms])

theorem folder_open_correct_witness:
  "fat_folder_new ramdisk_ops (table_volume (replicate 6 (replicate 32 0))) table_fde 0 [] False = Some (fat_folder.truncate (scan_start [table_file]))"
  using folder_open_correct [OF table_dir table_file_new, of "replicate 6 (replicate 32 0)" "[]"] by (simp add: scan_blank)

text \<open>
  C12. Creating a file with a long name in a folder that has just been opened: when the name is new, its characters are ASCII characters that are
  allowed in long names, it begins with one that is allowed in short names, a short name can be found for it, and there is room before the end of
  the clusters of the folder, the file is created and can be opened. A folder that is opened afterwards finds the file by its long name at the
  same position, and every other name as before; no sector outside of the folder has changed.
\<close>

theorem create_reopen:
  assumes "dir_on ramdisk_ops rd_running rd_bytes fs f cs E" and "\<forall>s\<in>set (chain_sectors fs cs). rd_writable (fs_storage fs) s" and "dir_closed E"
    and "length fde = 32" and "fat_file_new fs fde idx root = Some f" and "fat_folder_new ramdisk_ops fs fde idx parents root = Some fo"
    and "fst (get_dir_entry name fo) = None" and "populate_short_name name = None" and "long_name_ok name" and "lfn_count name \<le> 19"
    and "is_valid_filename_char (char_u16 (hd name)) False" and "generate_basis_name_entry name (replicate 32 0) fo = Some (True, sh, fo1)"
    and "E ! z ! 0 = 0" and "z + lfn_count name + 1 < length E"
  shows "\<exists>v child fo2 fo3 i. fat_create_child ramdisk_ops name fo fs = Some (NO_ERROR, Some (File_Child child), fo2, fs\<lparr>fs_storage := v\<rparr>) \<and>
     file_record child = fde_set_archive sh \<and> get_dir_entry name fo2 = (Some (fde_set_archive sh, i), fo2) \<and>
     fat_folder_new ramdisk_ops (fs\<lparr>fs_storage := v\<rparr>) fde idx parents root = Some fo3 \<and> map_of (long_name_to_fde_map fo3) name = Some i \<and>
     (\<forall>x. x \<noteq> name \<longrightarrow> map_of (long_name_to_fde_map fo3) x = map_of (long_name_to_fde_map fo) x) \<and>
     (\<forall>x. x \<noteq> short_name_from_fde sh \<longrightarrow> map_of (short_name_to_fde_map fo3) x = map_of (short_name_to_fde_map fo) x) \<and>
     sectors_kept rd_bytes fs cs v"
  by (rule rd.create_spec [OF assms]) blast

theorem create_reopen_witness:
  "\<exists>v child fo2 fo3 i. fat_create_child ramdisk_ops ''A letter to all.txt'' (fat_folder.truncate (scan_start [table_file])) (table_volume (replicate 6 (replicate 32 0))) =
       Some (NO_ERROR, Some (File_Child child), fo2, (table_volume (replicate 6 (replicate 32 0)))\<lparr>fs_storage := v\<rparr>) \<and>
     fat_folder_new ramdisk_ops ((table_volume (replicate 6 (replicate 32 0)))\<lparr>fs_storage := v\<rparr>) table_fde 0 [] False = Some fo3 \<and>
     map_of (long_name_to_fde_map fo3) ''A letter to all.txt'' = Some i"
proof -
  let ?E = "replicate 6 (replicate 32 0) :: fat_dir_entry list" and ?name = "''A letter to all.txt''" and ?fo = "fat_folder.truncate (scan_start [table_file])"
  have d: "dir_on ramdisk_ops rd_running rd_bytes (table_volume ?E) table_file [2, 3, 5] ?E" by (rule table_dir) simp_all
  have fo: "fat_folder_new ramdisk_ops (table_volume ?E) table_fde 0 [] False = Some ?fo"
    using rd.folder_new_spec [OF d table_file_new, of "[]"] by (simp add: scan_blank)
  have g: "get_dir_entry x ?fo = (None, ?fo)" for x by (simp add: get_dir_entry_def fat_folder.truncate_def scan_start_def)
  have n: "populate_short_name ?name = None" "long_name_ok ?name" "lfn_count ?name = 2" "is_valid_filename_char (char_u16 (hd ?name)) False" by code_simp+
  define sh where "sh = fst (basis_name ?name (replicate 32 0))"
  have "snd (snd (basis_name ?name (replicate 32 0))) = False" by code_simp
  then have "basis_name ?name (replicate 32 0) = (sh, fst (snd (basis_name ?name (replicate 32 0))), False)" unfolding sh_def by (simp only: prod_eq_iff fst_conv snd_conv)
  then obtain k where "basis_name ?name (replicate 32 0) = (sh, k, False)" by blast
  then have b: "generate_basis_name_entry ?name (replicate 32 0) ?fo = Some (True, sh, ?fo)" by (simp add: generate_basis_name_entry_def g)
  have c: "dir_closed ?E" by (simp add: dir_closed_def live_def)
  have r: "fst (get_dir_entry ?name ?fo) = None" "lfn_count ?name \<le> 19" "?E ! 0 ! 0 = 0" "0 + lfn_count ?name + 1 < length ?E" unfolding g n(3) by simp_all
  from create_reopen [OF d table_writable c table_fde_laws(1) table_file_new fo r(1) n(1,2) r(2) n(4) b r(3,4)]
  show ?thesis by (elim exE conjE) (intro exI conjI)
qed

text \<open>
  C15. Deleting a file from a folder that has just been opened: the operation succeeds; in the table of the folder on the device the entry of
  the file and the long-name entries right before it are marked free by the byte 0xE5, their other bytes and all other entries are as before; a folder that is opened afterwards has no name for the position
  of the file, the names of all other files lead where they did, and no sector outside of the folder has changed.
\<close>

theorem delete_reopen:
  assumes "dir_on ramdisk_ops rd_running rd_bytes fs f cs E" and "\<forall>s\<in>set (chain_sectors fs cs). rd_writable (fs_storage fs) s" and "length fde = 32"
    and "fat_file_new fs fde idx root = Some f" and "fat_folder_new ramdisk_ops fs fde idx parents root = Some fo"
    and "fst (get_dir_entry name fo) = Some (e, i)" and "length storage = 32"
  shows "\<exists>v fo2 fo3. fat_delete_child ramdisk_ops name storage fo fs = Some (NO_ERROR, fo2, fs\<lparr>fs_storage := v\<rparr>) \<and>
     fat_folder_new ramdisk_ops (fs\<lparr>fs_storage := v\<rparr>) fde idx parents root = Some fo3 \<and> sectors_kept rd_bytes fs cs v \<and>
     unat i < length E \<and> (\<exists>E'. dir_on ramdisk_ops rd_running rd_bytes (fs\<lparr>fs_storage := v\<rparr>) f cs E' \<and> length E' = length E \<and>
     (\<forall>k < length E. E' ! k =
       (if k \<le> unat i \<and> (\<forall>j. k \<le> j \<and> j < unat i \<longrightarrow> E ! j ! 11 = 0x0F) then (E ! k)[0 := 0xE5] else E ! k))) \<and>
     (\<forall>x. map_of (long_name_to_fde_map fo3) x \<noteq> Some i \<and> map_of (short_name_to_fde_map fo3) x \<noteq> Some i) \<and>
     (\<forall>x. map_of (long_name_to_fde_map fo) x \<noteq> Some i \<longrightarrow> map_of (long_name_to_fde_map fo3) x = map_of (long_name_to_fde_map fo) x) \<and>
     (\<forall>x. map_of (short_name_to_fde_map fo) x \<noteq> Some i \<longrightarrow> map_of (short_name_to_fde_map fo3) x = map_of (short_name_to_fde_map fo) x)"
  by (rule rd.delete_spec [OF assms]) (blast intro: mark_free_nth)

definition readme_fde :: fat_dir_entry where
  "readme_fde = map char_byte ''README  TXT'' @ 0x20 # replicate 20 0"

definition readme_folder :: fat_folder where
  "readme_folder = \<lparr>folder_files = [table_file],
     fde_to_child_map = [(0, \<lparr>long_fn = [], short_fn = ''README.TXT'', obj_fde_index = 0, obj_fde = readme_fde\<rparr>)],
     long_name_to_fde_map = [], short_name_to_fde_map = [(''README.TXT'', 0)], canonical_names = [(''README.TXT'', ())]\<rparr>"

theorem delete_reopen_witness:
  "\<exists>v fo2 fo3. fat_delete_child ramdisk_ops ''README.TXT'' (replicate 32 0) readme_folder (table_volume (readme_fde # replicate 5 (replicate 32 0))) =
       Some (NO_ERROR, fo2, (table_volume (readme_fde # replicate 5 (replicate 32 0)))\<lparr>fs_storage := v\<rparr>) \<and>
     fat_folder_new ramdisk_ops ((table_volume (readme_fde # replicate 5 (replicate 32 0)))\<lparr>fs_storage := v\<rparr>) table_fde 0 [] False = Some fo3 \<and>
     map_of (short_name_to_fde_map fo3) ''README.TXT'' \<noteq> Some 0 \<and>
     (\<exists>E'. dir_on ramdisk_ops rd_running rd_bytes ((table_volume (readme_fde # replicate 5 (replicate 32 0)))\<lparr>fs_storage := v\<rparr>) table_file [2, 3, 5] E' \<and>
        E' ! 0 = readme_fde[0 := 0xE5])"
proof -
  let ?E = "readme_fde # replicate 5 (replicate 32 0)"
  have d: "dir_on ramdisk_ops rd_running rd_bytes (table_volume ?E) table_file [2, 3, 5] ?E" by (rule table_dir) (simp_all add: readme_fde_def)
  have r: "short_name_from_fde readme_fde = ''README.TXT''" "readme_fde ! 0 \<noteq> 0" "readme_fde ! 0 \<noteq> 0xE5" "\<not> is_long_fn_entry readme_fde" by code_simp+
  have fo: "fat_folder_new ramdisk_ops (table_volume ?E) table_fde 0 [] False = Some readme_folder"
    using rd.folder_new_spec [OF d table_file_new, of "[]"] r
    by (simp add: scan_blank Let_def scan_entry_def scan_short_entry_def scan_start_def fat_folder.truncate_def readme_folder_def)
  have "fst (get_dir_entry ''README.TXT'' readme_folder) = Some (readme_fde, 0)"
    by (simp add: get_dir_entry_def readme_folder_def child_at_def)
  from delete_reopen [OF d table_writable table_fde_laws(1) table_file_new fo this, of "replicate 32 0"] show ?thesis by force
qed

end
