(* ===== verification/Fat_Fs.thy ===== *)
theory Fat_Fs
  imports Fat_Dir
begin

text \<open>
  The operations of the file system object on names: \<open>get_child\<close>, \<open>create_child\<close>, \<open>delete_child\<close>, \<open>rename_child\<close> and the
  others of \<open>kernel/system_tree/fs/fat/fat_fs.cpp\<close>, which find the folder that a path leads to and call it. The folder object of the root directory is
  made when it is first needed and kept; the object of any other folder is dropped at the end of the call, but what it has changed
  in the file of the root directory stays.
\<close>

definition root_fde :: "('d, 'z) fat_fs_scheme \<Rightarrow> fat_dir_entry" where
  "root_fde fs =
     (if fat_type fs = FAT32
      then fde_set_directory (fde_set_first_cluster (ucast (drop_bit 16 (root_cluster (fs_bpb fs)))) (ucast (root_cluster (fs_bpb fs) AND 0xFFFF)) (replicate 32 0))
      else replicate 32 0)"

definition get_root_directory :: "'d block_ops \<Rightarrow> ('d, 'z) fat_fs_scheme \<Rightarrow> fat_folder option \<Rightarrow> fat_folder option" where
  "get_root_directory ops fs root =
     (case root of Some r \<Rightarrow> Some r | None \<Rightarrow> fat_folder_new ops fs (root_fde fs) 0 [] True)"

definition fs_get_child ::
  "'d block_ops \<Rightarrow> ('d, 'z) fat_fs_scheme \<Rightarrow> string \<Rightarrow> fat_folder option \<Rightarrow> (ERR_CODE \<times> fat_child option \<times> fat_folder) option" where
  "fs_get_child ops fs name root = do {
     root_directory \<leftarrow> get_root_directory ops fs root;
     fat_get_child ops fs name root_directory
   }"

definition fs_add_child :: "string \<Rightarrow> fat_child \<Rightarrow> ERR_CODE" where
  "fs_add_child name child = INVALID_OP"

definition as_folder :: "fat_child option \<Rightarrow> fat_folder option" where
  "as_folder child = (case child of Some (Folder_Child f) \<Rightarrow> Some f | _ \<Rightarrow> None)"

text \<open>The part of a path before the last backslash and the one after it; a path without a backslash is a name in the root directory.\<close>

definition split_last :: "string \<Rightarrow> string \<times> string" where
  "split_last name = (let (first_part, last_part) = split_name name True in if last_part = [] then ([], first_part) else (first_part, last_part))"

text \<open>The root directory after an operation on a folder below it.\<close>

definition keep_root :: "fat_folder \<Rightarrow> fat_folder \<Rightarrow> fat_folder" where
  "keep_root sub root = root\<lparr>folder_files := [last (folder_files sub)]\<rparr>"

text \<open>
  The folder of an operation: \<open>Inl\<close> with an error, \<open>Inr\<close> with the folder and whether it is the root directory itself.
\<close>

definition parent_folder ::
  "'d block_ops \<Rightarrow> ('d, 'z) fat_fs_scheme \<Rightarrow> string \<Rightarrow> fat_folder option \<Rightarrow> ((ERR_CODE + fat_folder \<times> bool) \<times> fat_folder) option" where
  "parent_folder ops fs first_part root = do {
     root_directory \<leftarrow> get_root_directory ops fs root;
     if first_part = [] then Some (Inr (root_directory, True), root_directory)
     else do {
       (result, leaf, root_directory) \<leftarrow> fat_get_child ops fs first_part root_directory;
       Some (case as_folder leaf of
           None \<Rightarrow> Inl NOT_FOUND
         | Some f \<Rightarrow> if result = NO_ERROR then Inr (f, False) else Inl result, root_directory)
     }
   }"

definition fs_rename_child ::
  "'d block_ops \<Rightarrow> string \<Rightarrow> string \<Rightarrow> fat_dir_entry \<Rightarrow> fat_dir_entry list \<Rightarrow> fat_folder option \<Rightarrow> ('d, 'z) fat_fs_scheme \<Rightarrow>
     (ERR_CODE \<times> fat_folder option \<times> ('d, 'z) fat_fs_scheme) option" where
  "fs_rename_child ops old_name new_name storage entries root fs =
     (let (old_first_part, old_last_part) = split_last old_name; (new_first_part, new_last_part) = split_last new_name
      in if old_first_part \<noteq> new_first_part then Some (INVALID_OP, root, fs)
      else do {
        (found, root_directory) \<leftarrow> parent_folder ops fs new_first_part root;
        case found of
          Inl result \<Rightarrow> Some (result, Some root_directory, fs)
        | Inr (f, is_root) \<Rightarrow> do {
            (result, f, fs) \<leftarrow> fat_rename_child ops old_last_part new_last_part storage entries f fs;
            Some (result, Some (if is_root then f else keep_root f root_directory), fs)
          }
      })"

definition fs_delete_child ::
  "'d block_ops \<Rightarrow> string \<Rightarrow> fat_dir_entry \<Rightarrow> fat_folder option \<Rightarrow> ('d, 'z) fat_fs_scheme \<Rightarrow> (ERR_CODE \<times> fat_folder option \<times> ('d, 'z) fat_fs_scheme) option" where
  "fs_delete_child ops name storage root fs =
     (let (first_part, last_part) = split_last name
      in do {
        (found, root_directory) \<leftarrow> parent_folder ops fs first_part root;
        case found of
          Inl result \<Rightarrow> Some (result, Some root_directory, fs)
        | Inr (f, is_root) \<Rightarrow> do {
            (result, f, fs) \<leftarrow> fat_delete_child ops last_part storage f fs;
            Some (result, Some (if is_root then f else keep_root f root_directory), fs)
          }
      })"

text \<open>Creating tells a file from a folder that does not exist, and looks up an empty path in the root directory.\<close>

definition fs_create_child ::
  "'d block_ops \<Rightarrow> string \<Rightarrow> fat_folder option \<Rightarrow> ('d, 'z) fat_fs_scheme \<Rightarrow>
     (ERR_CODE \<times> fat_child option \<times> fat_folder option \<times> ('d, 'z) fat_fs_scheme) option" where
  "fs_create_child ops name root fs =
     (let (first_part, last_part) = split_name name True
      in do {
        root_directory \<leftarrow> get_root_directory ops fs root;
        if last_part = [] then do {
          (result, child, f, fs) \<leftarrow> fat_create_child ops first_part root_directory fs;
          Some (result, child, Some f, fs)
        } else do {
          (result, leaf, root_directory) \<leftarrow> fat_get_child ops fs first_part root_directory;
          if result \<noteq> NO_ERROR then Some (result, None, Some root_directory, fs)
          else case as_folder leaf of
              None \<Rightarrow> Some (INVALID_OP, None, Some root_directory, fs)
            | Some f \<Rightarrow> do {
                (result, child, f, fs) \<leftarrow> fat_create_child ops last_part f fs;
                Some (result, child, Some (keep_root f root_directory), fs)
              }
        }
      })"

definition fs_num_children :: "'d block_ops \<Rightarrow> ('d, 'z) fat_fs_scheme \<Rightarrow> fat_folder option \<Rightarrow> (ERR_CODE \<times> u64) option" where
  "fs_num_children ops fs root = do {
     root_directory \<leftarrow> get_root_directory ops fs root;
     Some (fat_num_children root_directory)
   }"

definition fs_enum_children ::
  "'d block_ops \<Rightarrow> ('d, 'z) fat_fs_scheme \<Rightarrow> string \<Rightarrow> u64 \<Rightarrow> fat_folder option \<Rightarrow> (ERR_CODE \<times> string list) option" where
  "fs_enum_children ops fs start_from max_count root = do {
     root_directory \<leftarrow> get_root_directory ops fs root;
     Some (fat_enum_children start_from max_count root_directory)
   }"

subsection \<open>Names in the root directory\<close>

lemma split_last_plain:
  assumes "bs \<notin> set name"
  shows "split_name name True = (name, [])" "split_last name = ([], name)"
proof -
  have "find_char bs s = None" if "bs \<notin> set s" for s using that by (induction s) auto
  then have "find_last_of bs name = None" using assms by (simp add: find_last_of_def)
  then show "split_name name True = (name, [])" by (simp add: split_name_def)
  then show "split_last name = ([], name)" by (simp add: split_last_def)
qed

text \<open>A name without a backslash is a name in the root directory, for every operation that changes something.\<close>

theorem root_names:
  assumes "bs \<notin> set name"
  shows "fs_create_child ops name (Some r) fs = map_option (\<lambda>(ec, child, f, fs). (ec, child, Some f, fs)) (fat_create_child ops name r fs) \<and>
     fs_delete_child ops name storage (Some r) fs = map_option (\<lambda>(ec, f, fs). (ec, Some f, fs)) (fat_delete_child ops name storage r fs)"
  by (simp add: fs_create_child_def fs_delete_child_def parent_folder_def get_root_directory_def split_last_plain [OF assms] map_conv_bind_option split_def comp_def)

end
