(* ===== verification/Spec2Isabelle.thy ===== *)
theory Spec2Isabelle
  imports Azalea_Prelude Math_Hacks Klib_List Phys_Mem Cpp_Lib Mem_File System_Tree Pipe_Fs Block_Dev Vmm Object_Mgr
    Page_Tables Mem_Map Kernel_Pages Kheap Kernel_Heap Spinlock Task_Sched Sched_Steps Kernel_Sync Work_Queue Fair_Runs Wait_Obj Futex Syscall_Rw Syscall_Handles Syscall_Msg Syscall_Sync Xhci_Trb Xhci_Ring Hid_Parser Hid_Keyboard Gen_Terminal Fat_Table Fat_Chain Fat_File Fat_Names Fat_Folder Fat_Dir Fat_Fs
begin

text \<open>
  Project Azalea is a small operating-system kernel for x86-64, written in C++. This development models
  its core, the code under \<open>src/kernel\<close> that manages memory, threads and names, and proves it correct or says
  precisely where it is not.

  \<^bold>\<open>The parts and how they interact.\<close> At start-up the physical page allocator (\<open>mem/physical.cpp\<close>) reads
  the memory map and the virtual memory manager (\<open>mem/virtual.cpp\<close>) sets up the kernel's address space; page
  mapping (\<open>mem/mapping.cpp\<close>, \<open>mem/misc.cpp\<close>, on the tables of \<open>mem/x64\<close>) uses both, and the heap (\<open>klib/memory/memory.cpp\<close>) takes its pages from it. Linked lists (\<open>klib/data_structures/lists.h\<close>) carry the queues of the
  synchronisation objects (\<open>klib/synch\<close>), which stop and start threads. The scheduler
  (\<open>processor/task_manager.cpp\<close>) moves the processors through a cycle of threads. Work is handed
  between parts of the kernel as messages through one work queue (\<open>processor/work_queue.cpp\<close>). Everything with a name
  lives in the System Tree (\<open>system_tree\<close>), whose leaves are files: in memory, pipes, and on block devices
  (\<open>devices/block\<close>), where the FAT file system (\<open>system_tree/fs/fat\<close>) keeps files and folders. User programs reach objects by handles (\<open>object_mgr\<close>)
  through system calls (\<open>syscall\<close>), and wait in them for wait objects and futexes (\<open>processor/synch_objects.cpp\<close>, \<open>processor/futexes.cpp\<close>). The driver of USB controllers
  (\<open>devices/usb/controllers\<close>) exchanges blocks with the hardware in rings in memory; keyboards (\<open>devices/usb/hid\<close>) send reports through it, which become keys and reach a program as lines through a terminal (\<open>devices/generic\<close>).

  \<^bold>\<open>The theories.\<close>

  \<^item> \<open>Azalea_Prelude\<close>: the machine integers, \<open>ERR_CODE\<close>, \<open>ASSERT\<close>, lemmas on words, and the locale
    \<open>transition_system\<close> for components that are step relations. \<open>Cpp_Lib\<close>: what the code uses of the C++ library,
    \<open>std::map\<close> with the locale \<open>dictionary\<close> that \<open>std_map_insert\<close> and its companions implement, \<open>memcpy\<close> and \<open>memset\<close>.
  \<^item> \<open>Math_Hacks\<close>: \<open>klib/misc/math_hacks.cpp\<close>, with the exact domain on which rounding to a power of two is right.
  \<^item> \<open>Klib_List\<close>: every operation of the intrusive doubly linked lists on an explicit store of items and lists. Each
    operation refines the corresponding one on HOL lists and leaves all other lists alone; the locale \<open>wait_queue\<close>
    states what queues of waiting threads need, and the lists implement it.
  \<^item> \<open>Phys_Mem\<close>: the two bitmaps of 2 MB pages, the scan of the E820 map, allocation and release. Release accepts
    exactly allocated pages; allocation gives the first free page.
  \<^item> \<open>Vmm\<close>: the buddy allocator of address ranges, with the array of preallocated list items that breaks the
    circularity with the heap, the lock that the owner may take again, splitting, merging, allocation of a given range and
    initialisation. The invariant: the ranges tile the address space in order, each a power of two of pages aligned to
    its size, no two free buddies unmerged, and no list item lost.
  \<^item> \<open>Page_Tables\<close>: \<open>mem/x64\<close>. Page table entries bit by bit, the walk through the tables with frames of 4 kB carved out of
    physical pages, and the list of PML4 tables that share the kernel's half. The invariant: the tables form a tree in frames of their own,
    and all processes agree on the kernel's half. \<open>Mem_Map\<close>: mapping and unmapping of ranges with the use counters; the loops
    over pages are instances of the locale \<open>page_steps\<close>. \<open>Kernel_Pages\<close>: what \<open>mem_allocate_pages\<close> does to the manager, the
    allocator and the tables together.
  \<^item> \<open>Kheap\<close>, \<open>Kernel_Heap\<close>: \<open>kmalloc\<close> and \<open>kfree\<close> with slabs, their bitmaps and their lists, which are the lists of \<open>Klib_List\<close>.
    The locale \<open>page_source\<close> states what the heap needs of the page functions, \<open>slab_heap\<close> extends it and holds the lemmas of the heap; \<open>Kernel_Heap\<close>
    interprets both with the kernel's own functions. The invariant: each slab is in the list its fill asks for, counts and bitmaps
    agree, and every slab and every large block has a region of its own, so that blocks in use never overlap.
  \<^item> \<open>System_Tree\<close>: \<open>system_tree_simple_branch.cpp\<close> and the root. Branches and leaves are identities in a store, so two
    names can share a branch. Each operation holds the lock of a branch while it calls into a child, and taking a lock that
    is held has no result; the invariant is that the tree has no cycle, so that no operation spins for ever and a path
    resolves through any depth of branches.
  \<^item> \<open>Mem_File\<close>, \<open>Pipe_Fs\<close>, \<open>Block_Dev\<close>: files in memory refine a byte sequence; a pipe is a bounded queue of bytes in
    a ring buffer; a proxy confines a client to its partition of any device that satisfies the locale
    \<open>block_device\<close>, which the RAM disk does.
  \<^item> \<open>Fat_Table\<close>, \<open>Fat_Chain\<close>, \<open>Fat_File\<close>: the FAT file system on any device of the locale \<open>block_device\<close>: the entries of the
    allocation table at 12, 16 and 32 bits, with the 12-bit entries that share bytes, chains of clusters and how they grow and
    shrink, and reading, writing and resizing of files. A volume is a list of bytes, and the invariant is that the chains are finite and disjoint.
  \<^item> \<open>Fat_Names\<close>, \<open>Fat_Folder\<close>, \<open>Fat_Dir\<close>, \<open>Fat_Fs\<close>: folders. \<open>Fat_Names\<close> has short names, their checksum and the entries that carry long names,
    with the round trips. \<open>Fat_Folder\<close> has every operation of \<open>fat_folder.cpp\<close>, from the scan in the constructor to renaming.
    \<open>Fat_Dir\<close> gives the scan as a function of the table of entries and shows that what opening a folder finds agrees with what creating and
    deleting a child left on the device. \<open>Fat_Fs\<close> has the operations of the file system on paths.
  \<^item> \<open>Object_Mgr\<close>: the handle counter and the object managers.
  \<^item> \<open>Spinlock\<close>, \<open>Task_Sched\<close>, \<open>Sched_Steps\<close>, \<open>Kernel_Sync\<close>, \<open>Work_Queue\<close>: the concurrent part. The spinlock's threads interleave at
    each access to the lock word. \<open>Task_Sched\<close> has the cycle of threads and a run of the scheduler without interruption, with what it chooses; \<open>Sched_Steps\<close> has the scheduler, which takes no lock, one access
    to memory at a time on any number of processors, shows that the operations of \<open>Task_Sched\<close> are among its runs, that two processors never run one thread, and a run in which the scheduler searches for ever.
    A mutex or semaphore operation is one step for each section under its access lock; the mutex is shown with threads started and woken at any time, the semaphore (which is not among the numbered properties) only
    without. The
    work queue is modelled with its locks, so that deadlock can be stated; it hands messages out in order, while their handlers may overlap. The theories with interleavings have a step relation, an
    invariant that interprets \<open>transition_system\<close>, and properties of every reachable state.
  \<^item> \<open>Wait_Obj\<close>, \<open>Futex\<close>: waiting, as step relations of any number of threads with one step for each section under a lock, on the threads of \<open>Task_Sched\<close>. No wake-up is
    lost. \<open>Fair_Runs\<close> defines runs that are fair to one thread, and the locale \<open>fair_progress\<close>, in which such runs reach a goal by a rank that falls; \<open>Wait_Obj\<close> interprets it, so that a wait that
    has been triggered returns.
  \<^item> \<open>Syscall_Rw\<close>, \<open>Syscall_Handles\<close>, \<open>Syscall_Msg\<close>, \<open>Syscall_Sync\<close>: the system calls for files, handles and names, messages and synchronisation, with the checks of every pointer
    and length. The locale \<open>file_objects\<close> states what the calls on files need of the object behind a handle, and the files of \<open>Mem_File\<close> in the tree implement it.
  \<^item> \<open>Xhci_Trb\<close>, \<open>Xhci_Ring\<close>: the blocks as two words with their bit fields, and the transfer, command and event rings with the cycle bits by which both sides know what is new.
  \<^item> \<open>Hid_Parser\<close>, \<open>Hid_Keyboard\<close>, \<open>Gen_Terminal\<close>: the parsers for the descriptors and reports of input devices, with the invariant that the fields tile the report and the collections are a tree; the keyboard, whose
    messages for presses and releases balance up to what its uninitialised array held; and the terminal, which refines a line editor on lists and sends its lines through the pipes of \<open>Pipe_Fs\<close>.

  \<^bold>\<open>Conventions.\<close> Definitions carry the names of the C++ functions. A structure or class is a record; 64-bit numbers are
  words and wrap around as in the code. A panic, a failed \<open>ASSERT\<close> or an access outside a buffer is the value
  \<^const>\<open>None\<close>, error codes are values of \<open>ERR_CODE\<close>. Recursions end by a measure where they
  always do: the descent through a path by the length of the name, splitting and merging by the size and the number of the ranges.
  Loops that follow pointers, and the allocation of a given range, might not end and are partial functions, for which
  \<^const>\<open>None\<close> also stands for not returning; their properties show that there is a result. A shift by the width of a number or more and the top of an empty stack, which are undefined, are \<^const>\<open>None\<close> as well. Bounds are
  on the rounds of the loop that serves a queue in \<open>Klib_List\<close>, where the number of waiting threads is enough; of the scan of a folder, where two more than the number of entries that its size holds is enough; of
  the search for free entries, which the code itself ends at 65535; and of the clients' loops that receive all messages or events, where one more than their number is enough. Code outside the
  repository appears as a parameter: the system clock, the spurious failure of a weak compare-and-exchange.

  \<^bold>\<open>What is proved.\<close> The properties are numbered C1, C2 and so on, and each is stated in words next to its theorem. Most say that a
  component does what it should, on every branch. Some record what the code does where it departs from its description or from
  what it means to do: rounding of numbers with bit 60 set, the validity check of lists, reading a file past the end of the
  number range, the write test of the RAM disk, splitting of an allocated address range, the spurious failure of \<open>try_lock\<close>, the
  wake-up time left behind by a timed wait, the time-out test of the semaphore, silent acceptance of unknown handles, the search of the scheduler that does not end, handlers of one receiver that overlap, releases of keys that were never pressed, the vector that a futex wait uses after it has been freed, semaphore calls that
  stop the kernel, the limit of a wait that wraps around, chains of clusters that grow by half, descriptors of devices that stop the kernel, fields of reports with their bytes swapped, and transfer rings that work for one round.

  \<^bold>\<open>What is not modelled.\<close> Device drivers other than the rings of the xHCI driver, keyboards and the generic terminal, ACPI, interrupt and register handling, start-up code and tracing, which consist of
  input and output. The heap and the virtual memory manager call each other: the calls of \<open>kmalloc\<close> inside the manager are
  replaced by its array of preallocated items. The life cycle of processes, ELF loading, and the system calls for processes, memory and time depend on interrupts, registers and
  address spaces of other processors at once and are left out; of a process there are its handles, its futexes and its messages. Folders of the FAT file system do not cache the objects
  of their children. The memory of a program that a system call reads or writes is a buffer that it is given and gives back, together with the address that the call checks; that the pages of a
  program are mapped is not modelled, nor is a program that changes a buffer during a call. A system call that waits is modelled up to the point where the thread sleeps, and \<open>Kernel_Sync\<close> and \<open>Wait_Obj\<close> take over there.
\<close>

section \<open>Memory as a whole\<close>

text \<open>
  C5. Allocating pages for the kernel. When the virtual memory manager has a large enough free range and there are enough physical pages (for each page, one for
  the data and a frame of 4 kB for a table), the call returns a range of virtual pages. The manager has reserved the
  range, every page of it is mapped for all processes to a physical page of its own that was free before, no
  other page of any process has changed, and the invariants of the manager, the tables and their agreement hold again.
\<close>

theorem allocate_pages_correct:
  assumes "mem_ok L p m K s" and "p = the_process cur None" and "client_ok Kernel a e (vmm s)" and "kernel_region m K a e"
    and "reserved_only L p a e s" and "num_pages \<noteq> 0" and "unat num_pages \<le> 2 ^ 31"
    and "bytes = unat (rounded_pages num_pages) * 2 ^ 21"
    and "\<exists>r \<in> set (client_ranges Kernel (vmm s)). \<not> rg_allocated r \<and> bytes \<le> range_bytes r"
    and "513 * unat num_pages \<le> card (fresh (pt s))"
  shows "\<exists>addr s' k. mem_allocate_pages t cur num_pages s = Some (addr, s') \<and>
    mem_ok L p m K s' \<and> client_ok Kernel a e (vmm s') \<and> reserved_only L p a e s' \<and>
    regions (client_ranges Kernel (vmm s')) = insert (unat addr, bytes) (regions (client_ranges Kernel (vmm s))) \<and>
    outside (regions (client_ranges Kernel (vmm s))) addr \<and>
    inj_on k {..<unat num_pages} \<and> k ` {..<unat num_pages} \<subseteq> free_set (pm (pt s)) \<and>
    (\<forall>i < unat num_pages. \<forall>x \<in> slots L p (nth_page addr i).
       PT_MARKED_PRESENT (entry s' x) \<and> entry s' x AND 0x0007FFFFFFF00000 = page_addr (k i)) \<and>
    (\<forall>x. (\<forall>i < unat num_pages. x \<notin> slots L p (nth_page addr i)) \<longrightarrow> entry s' x = entry s x)"
  using assms by (rule allocate_pages_spec)

theorem allocate_pages_correct_witness:
  "\<exists>addr s'. mem_allocate_pages (Some 7) None 1 sample_kernel = Some (addr, s') \<and>
     regions (client_ranges Kernel (vmm s')) = {(unat addr, 2 ^ 21)} \<and>
     PT_MARKED_PRESENT (entry s' (0, page_ix addr)) \<and> entry s' (0, page_ix addr) AND 0x0007FFFFFFF00000 \<in> {0x600000, 0x800000}"
proof -
  have V: "vmm sample_kernel = sample_kernel_vmm" "pt sample_kernel = sample_kernel_pt" by (simp_all add: sample_kernel_def)
  have cr: "client_ranges Kernel sample_kernel_vmm = [sample_range 0xFFFFFFFFC0000000 4 False]"
    by (simp add: client_ranges_def vmm_data_def sample_kernel_vmm_def)
  have ro: "reserved_only [0] 0 0xFFFFFFFFC0000000 0xFFFFFFFFC0800000 sample_kernel"
    by (simp add: reserved_only_def sample_kernel_entry)
  have ex: "\<exists>r \<in> set (client_ranges Kernel (vmm sample_kernel)). \<not> rg_allocated r \<and> 2 ^ 21 \<le> range_bytes r"
    by (simp add: V cr sample_range_def range_bytes_def)
  have pa: "page_addr 3 = 0x600000" "page_addr 4 = 0x800000" by (simp_all add: page_addr_def SIZE_OF_PAGE_def)
  have fs: "free_set (pm sample_kernel_pt) = {3, 4}" by (simp add: sample_kernel_pt_def sample_phys2_sets)
  obtain addr s' k where s': "mem_allocate_pages (Some 7) None 1 sample_kernel = Some (addr, s')"
    "regions (client_ranges Kernel (vmm s')) = insert (unat addr, 2 ^ 21) (regions (client_ranges Kernel (vmm sample_kernel)))"
    "k ` {..<unat (1 :: u32)} \<subseteq> free_set (pm (pt sample_kernel))"
    "\<forall>i < unat (1 :: u32). \<forall>x \<in> slots [0] 0 (nth_page addr i).
       PT_MARKED_PRESENT (entry s' x) \<and> entry s' x AND 0x0007FFFFFFF00000 = page_addr (k i)"
    using allocate_pages_correct [OF sample_kernel_ok _ sample_kernel_vmm_ok [folded V(1)] top_region ro, of None 1 "2 ^ 21" "Some 7"]
      ex sample_kernel_fresh by (auto simp: the_process_def sample_rounded V(2))
  have "(0, page_ix addr) \<in> slots [0] 0 (nth_page addr 0)" using own_slot [of 0 "[0]" addr] by simp
  then have "PT_MARKED_PRESENT (entry s' (0, page_ix addr))" "entry s' (0, page_ix addr) AND 0x0007FFFFFFF00000 = page_addr (k 0)"
    using s'(4) by simp_all
  moreover have "k 0 \<in> {3, 4}" using s'(3) by (auto simp: V fs)
  moreover have "regions (client_ranges Kernel (vmm sample_kernel)) = {}" by (simp add: V cr regions_def sample_range_def)
  ultimately show ?thesis using s'(1,2) pa by auto
qed

end
